(* ===== verification/Prelude.thy ===== *)
theory Prelude
  imports Main "HOL-Library.Word" "HOL-Library.Monad_Syntax" "HOL-Library.Multiset"
begin

text \<open>
  What every component shares: the machine types of the Rust code, slice access that panics out of
  range, rounding-up division, and generic facts on words, lists and options.

  A computation that can panic (slice index out of range, failed \<open>assert!\<close>, arithmetic overflow
  under overflow checks, division by zero) has type \<open>'a option\<close>, and a panic is \<open>None\<close>.
  A Rust \<open>Result\<close> is a sum, \<open>Inl\<close> for \<open>Err\<close> and \<open>Inr\<close> for \<open>Ok\<close>.
\<close>

unbundle bit_operations_syntax

type_synonym u8 = "8 word"
type_synonym u16 = "16 word"
type_synonym u32 = "32 word"
type_synonym u64 = "64 word"
type_synonym u128 = "128 word"

named_theorems panic_free \<open>operations that return (do not panic) on well-formed inputs\<close>
named_theorems geometry \<open>equations on the dimensions of tables and parameters\<close>
named_theorems cell_bits \<open>the bits of packed cells\<close>

section \<open>Slices\<close>

definition nth_opt :: "'a list \<Rightarrow> nat \<Rightarrow> 'a option" where
  "nth_opt xs i = (if i < length xs then Some (xs ! i) else None)"

definition upd_opt :: "'a list \<Rightarrow> nat \<Rightarrow> 'a \<Rightarrow> 'a list option" where
  "upd_opt xs i v = (if i < length xs then Some (xs[i := v]) else None)"

text \<open>\<open>&xs[lo..lo + n]\<close>: panics when the range leaves the slice.\<close>

definition slice_opt :: "'a list \<Rightarrow> nat \<Rightarrow> nat \<Rightarrow> 'a list option" where
  "slice_opt xs lo n = (if lo + n \<le> length xs then Some (take n (drop lo xs)) else None)"

text \<open>\<open>xs[lo..lo + n].copy_from_slice(ys)\<close> with \<open>n = ys.len()\<close>.\<close>

definition splice_opt :: "'a list \<Rightarrow> nat \<Rightarrow> 'a list \<Rightarrow> 'a list option" where
  "splice_opt xs lo ys =
     (if lo + length ys \<le> length xs
      then Some (take lo xs @ ys @ drop (lo + length ys) xs) else None)"

text \<open>\<open>assert!(b)\<close>.\<close>

definition assert_opt :: "bool \<Rightarrow> unit option" where
  "assert_opt b = (if b then Some () else None)"

lemma nth_opt_simps [simp]:
  "i < length xs \<Longrightarrow> nth_opt xs i = Some (xs ! i)"
  "\<not> i < length xs \<Longrightarrow> nth_opt xs i = None"
  by (simp_all add: nth_opt_def)

lemma nth_opt_eq_Some: "nth_opt xs i = Some x \<longleftrightarrow> i < length xs \<and> xs ! i = x"
  by (simp add: nth_opt_def)

lemma upd_opt_simps [simp]:
  "i < length xs \<Longrightarrow> upd_opt xs i v = Some (xs[i := v])"
  "\<not> i < length xs \<Longrightarrow> upd_opt xs i v = None"
  by (simp_all add: upd_opt_def)

lemma assert_opt_simps [simp]:
  "assert_opt True = Some ()" "assert_opt False = None"
  by (simp_all add: assert_opt_def)

lemma assert_opt_eq_Some [simp]: "assert_opt b = Some u \<longleftrightarrow> b"
  by (simp add: assert_opt_def)

lemma assert_opt_bind [simp]: "b \<Longrightarrow> assert_opt b \<bind> f = f ()"
  by (simp add: assert_opt_def)

lemma slice_opt_length: "slice_opt xs lo n = Some ys \<Longrightarrow> length ys = n"
  by (auto simp: slice_opt_def split: if_splits)

lemma slice_opt_nth:
  "slice_opt xs lo n = Some ys \<Longrightarrow> i < n \<Longrightarrow> ys ! i = xs ! (lo + i)"
  by (auto simp: slice_opt_def split: if_splits)

lemma take_drop_chain: "take n (drop i xs) @ drop (i + n) xs = drop i xs"
  using append_take_drop_id [of n "drop i xs"] by (simp add: add.commute)

lemma splice_opt_length: "splice_opt xs lo ys = Some zs \<Longrightarrow> length zs = length xs"
  by (auto simp: splice_opt_def split: if_splits)

lemma slice_splice_same:
  "splice_opt xs lo ys = Some zs \<Longrightarrow> slice_opt zs lo (length ys) = Some ys"
  by (auto simp: splice_opt_def slice_opt_def split: if_splits)

lemma slice_splice_before:
  assumes "splice_opt xs lo ys = Some zs" "a + n \<le> lo"
  shows "slice_opt zs a n = slice_opt xs a n"
  using assms by (auto simp: splice_opt_def slice_opt_def take_drop min_def split: if_splits)

section \<open>Arithmetic\<close>

text \<open>\<open>a.div_ceil(b)\<close>; the code's divisors are positive where it is called.\<close>

definition div_ceil :: "nat \<Rightarrow> nat \<Rightarrow> nat" where
  "div_ceil a b = (a + b - 1) div b"

lemma div_ceil_le_iff: "0 < b \<Longrightarrow> div_ceil a b \<le> k \<longleftrightarrow> a \<le> k * b"
proof -
  assume b: "0 < b"
  have "div_ceil a b \<le> k \<longleftrightarrow> (a + b - 1) div b < Suc k" by (simp add: div_ceil_def less_Suc_eq_le)
  also have "\<dots> \<longleftrightarrow> a + b - 1 < Suc k * b" using b by (simp add: div_less_iff_less_mult)
  also have "\<dots> \<longleftrightarrow> a \<le> k * b" using b by (auto simp: algebra_simps)
  finally show ?thesis .
qed

lemma less_div_ceil_iff: "0 < b \<Longrightarrow> k < div_ceil a b \<longleftrightarrow> k * b < a"
  using div_ceil_le_iff [of b a k] by (auto simp: not_le)

lemma div_ceil_mult_ge: "0 < b \<Longrightarrow> a \<le> div_ceil a b * b"
  using div_ceil_le_iff [of b a "div_ceil a b"] by simp

lemma div_ceil_pos: "0 < b \<Longrightarrow> 0 < a \<Longrightarrow> 0 < div_ceil a b"
  using less_div_ceil_iff [of b 0 a] by simp

lemma mult_add_less: "i < n \<Longrightarrow> j < m \<Longrightarrow> i * m + j < n * (m::nat)"
proof -
  assume "i < n" "j < m"
  then have "i * m + j < Suc i * m" by simp
  also have "\<dots> \<le> n * m" using \<open>i < n\<close> by (intro mult_le_mono1) simp
  finally show ?thesis .
qed

lemma block_index_eq:
  fixes m :: nat
  assumes "j < m" "j' < m"
  shows "i * m + j = i' * m + j' \<longleftrightarrow> i = i' \<and> j = j'"
proof
  assume "i * m + j = i' * m + j'"
  then have "(i * m + j) div m = (i' * m + j') div m" "(i * m + j) mod m = (i' * m + j') mod m"
    by simp_all
  with assms show "i = i' \<and> j = j'" by simp
qed simp

section \<open>Words\<close>

lemma word_eq_bitI:
  fixes a b :: "'a::len word"
  assumes "\<And>j. j < LENGTH('a) \<Longrightarrow> bit a j \<longleftrightarrow> bit b j"
  shows "a = b"
  using assms by (auto intro!: bit_word_eqI)

lemma bit_word_lt: "bit (w::'a::len word) j \<Longrightarrow> j < LENGTH('a)"
  by (rule bit_imp_le_length)

lemma bit_all_ones [simp]: "bit (- 1 :: 'a::len word) j \<longleftrightarrow> j < LENGTH('a)"
  by simp

lemma push_bit_1_minus_1: "push_bit k 1 - 1 = (mask k :: 'a::len word)"
  by (simp add: mask_eq_exp_minus_1 push_bit_eq_mult)

lemma bit_ucast [simp]:
  "bit (ucast (w::'a::len word) :: 'b::len word) j \<longleftrightarrow> j < LENGTH('b) \<and> bit w j"
  by (auto simp: bit_ucast_iff)

text \<open>A word whose bits from \<open>n\<close> on are zero: the code's high-bits-zero convention.\<close>

definition fits :: "nat \<Rightarrow> 'a::len word \<Rightarrow> bool" where
  "fits n w \<longleftrightarrow> take_bit n w = w"

lemma fits_bit: "fits n w \<longleftrightarrow> (\<forall>j. bit w j \<longrightarrow> j < n)"
proof
  assume "fits n w" then show "\<forall>j. bit w j \<longrightarrow> j < n"
    unfolding fits_def by (metis bit_take_bit_iff)
next
  assume "\<forall>j. bit w j \<longrightarrow> j < n"
  then show "fits n w" unfolding fits_def
    by (intro bit_word_eqI) (auto simp: bit_take_bit_iff)
qed

lemma fits_0 [simp]: "fits n 0" by (simp add: fits_def)

lemma fits_take_bit [simp]: "fits n (take_bit n w)" by (simp add: fits_def)

lemma fits_mono: "fits n w \<Longrightarrow> n \<le> m \<Longrightarrow> fits m w"
  by (auto simp: fits_bit)

lemma fits_length [simp]: "LENGTH('a) \<le> n \<Longrightarrow> fits n (w::'a::len word)"
  by (auto simp: fits_bit dest: bit_word_lt)

lemma fits_less: "n < LENGTH('a) \<Longrightarrow> fits n (w::'a::len word) \<longleftrightarrow> unat w < 2 ^ n"
proof -
  have "fits n w \<longleftrightarrow> unat (take_bit n w) = unat w"
    by (simp add: fits_def unsigned_word_eqI word_unat_eq_iff)
  also have "\<dots> \<longleftrightarrow> unat w mod 2 ^ n = unat w"
    by (simp only: unsigned_take_bit_eq take_bit_eq_mod [symmetric])
  also have "\<dots> \<longleftrightarrow> unat w < 2 ^ n"
    by (metis mod_less mod_less_divisor zero_less_numeral zero_less_power)
  finally show ?thesis .
qed

lemma fits_xor: "fits n a \<Longrightarrow> fits n b \<Longrightarrow> fits n (a XOR b)"
  by (simp add: fits_def take_bit_xor)

section \<open>Options and lists\<close>

lemma bind_SomeI: "m = Some x \<Longrightarrow> f x = y \<Longrightarrow> m \<bind> f = y"
  by simp

lemma bind_eq_SomeE:
  assumes "m \<bind> f = Some y"
  obtains x where "m = Some x" "f x = Some y"
  using assms by (auto simp: bind_eq_Some_conv)

lemma list_eq_nthI:
  "length xs = length ys \<Longrightarrow> (\<And>i. i < length xs \<Longrightarrow> xs ! i = ys ! i) \<Longrightarrow> xs = ys"
  by (simp add: list_eq_iff_nth_eq)

text \<open>A loop that fills a buffer entry by entry, and its result when no entry panics.\<close>

definition build_opt :: "nat \<Rightarrow> (nat \<Rightarrow> 'a option) \<Rightarrow> 'a list option" where
  "build_opt n f = those (map f [0..<n])"

lemma those_eq_Some_iff:
  "those ms = Some xs \<longleftrightarrow> length xs = length ms \<and> (\<forall>i < length ms. ms ! i = Some (xs ! i))"
proof (induction ms arbitrary: xs)
  case (Cons m ms)
  show ?case
  proof (cases xs)
    case (Cons y ys)
    then show ?thesis using Cons.IH [of ys]
      by (auto simp: nth_Cons less_Suc_eq_0_disj split: option.splits)
  qed (auto split: option.splits)
qed auto

lemma build_opt_eq_Some_iff:
  "build_opt n f = Some xs \<longleftrightarrow> length xs = n \<and> (\<forall>i < n. f i = Some (xs ! i))"
  by (auto simp: build_opt_def those_eq_Some_iff)

lemma build_opt_Some:
  "(\<And>i. i < n \<Longrightarrow> f i = Some (g i)) \<Longrightarrow> build_opt n f = Some (map g [0..<n])"
  by (simp add: build_opt_eq_Some_iff)

text \<open>When no entry panics and each result is related to its index, so are the entries of the list.\<close>

lemma those_rel:
  assumes "\<And>j. j < length ms \<Longrightarrow> \<exists>z. ms ! j = Some z \<and> Q j z"
  obtains zs where "those ms = Some zs" "length zs = length ms" "\<forall>j < length ms. Q j (zs ! j)"
proof -
  have "\<forall>j. \<exists>z. j < length ms \<longrightarrow> ms ! j = Some z \<and> Q j z" using assms by blast
  then obtain z where "\<And>j. j < length ms \<Longrightarrow> ms ! j = Some (z j) \<and> Q j (z j)" by metis
  then show thesis by (intro that [of "map z [0..<length ms]"]) (simp_all add: those_eq_Some_iff)
qed

lemma build_opt_rel:
  assumes "\<And>j. j < n \<Longrightarrow> \<exists>z. f j = Some z \<and> Q j z"
  obtains zs where "build_opt n f = Some zs" "length zs = n" "\<forall>j < n. Q j (zs ! j)"
  using those_rel [of "map f [0..<n]" Q] assms by (auto simp: build_opt_def)

section \<open>Loops\<close>

text \<open>A \<open>for\<close> loop over a list whose body may panic.\<close>

primrec fold_opt :: "('a \<Rightarrow> 's \<Rightarrow> 's option) \<Rightarrow> 'a list \<Rightarrow> 's \<Rightarrow> 's option" where
  "fold_opt f [] s = Some s"
| "fold_opt f (x # xs) s = do { s' \<leftarrow> f x s; fold_opt f xs s' }"

lemma fold_opt_append: "fold_opt f (xs @ ys) s = do { s' \<leftarrow> fold_opt f xs s; fold_opt f ys s' }"
  by (induction xs arbitrary: s) (simp_all add: Option.bind_assoc)

lemma fold_opt_cong:
  "xs = ys \<Longrightarrow> (\<And>x s. x \<in> set ys \<Longrightarrow> f x s = g x s) \<Longrightarrow> fold_opt f xs s = fold_opt g ys s"
  by (induction ys arbitrary: xs s) (auto intro: bind_option_cong)

text \<open>The rule for counting loops: \<open>P i s\<close> holds of the state before iteration \<open>i\<close>.\<close>

lemma fold_opt_upt:
  assumes "P 0 s"
    and "\<And>i s. i < n \<Longrightarrow> P i s \<Longrightarrow> \<exists>s'. f i s = Some s' \<and> P (Suc i) s'"
  obtains s' where "fold_opt f [0..<n] s = Some s'" "P n s'"
proof -
  have "m \<le> n \<Longrightarrow> \<exists>s'. fold_opt f [0..<m] s = Some s' \<and> P m s'" for m
  proof (induction m)
    case (Suc m)
    then show ?case using assms(2) [of m] by (auto simp: fold_opt_append)
  qed (simp add: assms(1))
  from this [of n] show ?thesis using that by blast
qed

text \<open>The rule for loops over a list: \<open>P xs s\<close> relates the elements done to the state.\<close>

lemma fold_opt_list:
  assumes "P [] s"
    and "\<And>xs x ys s. zs = xs @ x # ys \<Longrightarrow> P xs s \<Longrightarrow> \<exists>s'. f x s = Some s' \<and> P (xs @ [x]) s'"
  obtains s' where "fold_opt f zs s = Some s'" "P zs s'"
proof -
  have "zs = xs @ ys \<Longrightarrow> \<exists>s'. fold_opt f xs s = Some s' \<and> P xs s'" for xs ys
  proof (induction xs arbitrary: ys rule: rev_induct)
    case (snoc x xs)
    then show ?case using assms(2) [of xs x ys] by (fastforce simp: fold_opt_append)
  qed (simp add: assms(1))
  from this [of zs "[]"] show ?thesis using that by auto
qed

lemma fold_opt_enumerate:
  assumes "P 0 s"
    and "\<And>i s. i < length xs \<Longrightarrow> P i s \<Longrightarrow> \<exists>s'. f (i, xs ! i) s = Some s' \<and> P (Suc i) s'"
  obtains s' where "fold_opt f (enumerate 0 xs) s = Some s'" "P (length xs) s'"
proof (rule fold_opt_list [where P = "\<lambda>ys. P (length ys)" and f = f and zs = "enumerate 0 xs" and s = s])
  fix ys x zs s'
  assume e: "enumerate 0 xs = ys @ x # zs" and P: "P (length ys) s'"
  have "length (enumerate 0 xs) = Suc (length ys + length zs)" unfolding e by simp
  then have "length ys < length xs" by simp
  moreover have "x = (length ys, xs ! length ys)"
    using calculation nth_enumerate_eq [of "length ys" xs 0] by (simp add: e)
  ultimately show "\<exists>s''. f x s' = Some s'' \<and> P (length (ys @ [x])) s''" using assms(2) P by simp
qed (use assms(1) that in simp_all)

text \<open>A loop whose body may also return early, with \<open>Inl\<close>.\<close>

primrec fold_res :: "('a \<Rightarrow> 's \<Rightarrow> ('e + 's) option) \<Rightarrow> 'a list \<Rightarrow> 's \<Rightarrow> ('e + 's) option" where
  "fold_res f [] s = Some (Inr s)"
| "fold_res f (x # xs) s =
     do { r \<leftarrow> f x s; case r of Inl e \<Rightarrow> Some (Inl e) | Inr s' \<Rightarrow> fold_res f xs s' }"

lemma fold_res_cong:
  "xs = ys \<Longrightarrow> (\<And>x s. x \<in> set ys \<Longrightarrow> f x s = g x s) \<Longrightarrow> fold_res f xs s = fold_res g ys s"
  by (induction ys arbitrary: xs s) (auto intro!: bind_option_cong split: sum.split)

text \<open>A loop that never returns early is a plain loop.\<close>

lemma fold_res_Inr:
  assumes "fold_opt g xs s = Some s'"
    and "\<And>x s s'. x \<in> set xs \<Longrightarrow> g x s = Some s' \<Longrightarrow> f x s = Some (Inr s')"
  shows "fold_res f xs s = Some (Inr s')"
  using assms by (induction xs arbitrary: s) (auto simp: bind_eq_Some_conv)

lemma fold_res_upt:
  assumes "P 0 s"
    and "\<And>i s. i < n \<Longrightarrow> P i s \<Longrightarrow> \<exists>s'. f i s = Some (Inr s') \<and> P (Suc i) s'"
  obtains s' where "fold_res f [0..<n] s = Some (Inr s')" "P n s'"
proof -
  define g where "g i s = do { r \<leftarrow> f i s; case r of Inl _ \<Rightarrow> None | Inr s' \<Rightarrow> Some s' }" for i s
  have "\<exists>s'. g i s = Some s' \<and> P (Suc i) s'" if "i < n" "P i s" for i s
    using assms(2) [OF that] by (auto simp: g_def)
  then obtain s' where "fold_opt g [0..<n] s = Some s'" "P n s'"
    by (rule fold_opt_upt [where P = P and f = g, OF assms(1)])
  moreover have "f i s = Some (Inr s')" if "g i s = Some s'" for i s s'
    using that by (cases "f i s"; cases "the (f i s)") (simp_all add: g_def)
  ultimately show thesis using that fold_res_Inr by metis
qed

end
