(* ===== verification/Matvec.thy ===== *)
theory Matvec
  imports Prelude
begin

text \<open>
  \<open>ikpir-common/src/backend/matvec.rs\<close>: the accumulate kernel \<open>acc += q\<^sup>T D mod 2\<^sup>3\<^sup>2\<close> that answers,
  decodes and precomputes. A matrix is a flat row-major list; \<open>D\<close> has \<open>length q\<close> rows of
  \<open>length acc\<close> cells. The blocked kernel is shown to compute the plain sums, whatever the
  blocking factor the width selects and on either of the two dispatch tables.
\<close>

section \<open>Row-major matrices\<close>

text \<open>Cell \<open>(i, j)\<close> of a matrix with rows of \<open>w\<close> cells.\<close>

definition mcell :: "nat \<Rightarrow> 'a list \<Rightarrow> nat \<Rightarrow> nat \<Rightarrow> 'a" where
  "mcell w m i j = m ! (i * w + j)"

lemma mcell_eqI:
  assumes "length m = n * w" "length m' = n * w"
    and "\<And>i j. i < n \<Longrightarrow> j < w \<Longrightarrow> mcell w m i j = mcell w m' i j"
  shows "m = m'"
proof (rule nth_equalityI)
  fix p assume "p < length m"
  then have p: "p < n * w" using assms(1) by simp
  then have w: "0 < w" by (cases w) auto
  have "p div w < n" using p w by (simp add: less_mult_imp_div_less)
  moreover have "p mod w < w" using w by simp
  ultimately show "m ! p = m' ! p" using assms(3) [of "p div w" "p mod w"] by (simp add: mcell_def)
qed (use assms(1,2) in simp)

text \<open>The sum the kernels compute: entry \<open>j\<close> of \<open>q\<^sup>T D\<close>.\<close>

definition vecmat :: "u32 list \<Rightarrow> nat \<Rightarrow> u32 list \<Rightarrow> nat \<Rightarrow> u32" where
  "vecmat q w d j = (\<Sum>i<length q. q ! i * mcell w d i j)"

section \<open>The kernel\<close>

text \<open>Rust's \<open>chunks_exact(n)\<close>: whole chunks only, the remainder dropped.\<close>

fun chunks_exact :: "nat \<Rightarrow> 'a list \<Rightarrow> 'a list list" where
  "chunks_exact n xs =
     (if n = 0 \<or> length xs < n then [] else take n xs # chunks_exact n (drop n xs))"

declare chunks_exact.simps [simp del]

text \<open>One pass over the accumulator: \<open>R\<close> rows of \<open>block\<close>, scaled by \<open>qs\<close>, are added.\<close>

definition block_step :: "nat \<Rightarrow> u32 list \<Rightarrow> u32 list \<Rightarrow> u32 list \<Rightarrow> u32 list" where
  "block_step R block qs acc =
     map (\<lambda>j. fold (\<lambda>r x. x + qs ! r * block ! (r * length acc + j)) [0..<R] (acc ! j)) [0..<length acc]"

definition row_step :: "u32 \<Rightarrow> u32 list \<Rightarrow> u32 list \<Rightarrow> u32 list" where
  "row_step qi row acc = map2 (\<lambda>x c. x + qi * c) acc row"

definition block_pass :: "nat \<Rightarrow> u32 list \<Rightarrow> u32 list \<Rightarrow> u32 list \<Rightarrow> u32 list" where
  "block_pass R acc d q =
     (let width = length acc; n = length q in
      if width = 0 \<or> n = 0 then acc
      else let full = n - n mod R;
             acc1 = fold (\<lambda>(block, qs). block_step R block qs)
               (zip (chunks_exact (R * width) (take (full * width) d)) (chunks_exact R (take full q))) acc
           in fold (\<lambda>(row, qi). row_step qi row)
               (zip (chunks_exact width (drop (full * width) d)) (drop full q)) acc1)"

text \<open>The blocking factor by width, on x86-64 and elsewhere; width \<open>0\<close> is a no-op.\<close>

definition block_factor :: "bool \<Rightarrow> nat \<Rightarrow> nat" where
  "block_factor x86_64 width =
     (if width \<le> 128 then 16
      else if x86_64 then (if width \<le> 4096 then 1 else 8)
      else if width \<le> 256 then 8
      else if width \<le> 512 then 4
      else if width \<le> 1024 then 2
      else 1)"

definition matvec_accumulate :: "bool \<Rightarrow> u32 list \<Rightarrow> u32 list \<Rightarrow> u32 list \<Rightarrow> u32 list option" where
  "matvec_accumulate x86_64 acc d q =
     do {
       assert_opt (length d = length q * length acc);
       Some (if length acc = 0 then acc else block_pass (block_factor x86_64 (length acc)) acc d q)
     }"

section \<open>The kernel computes the sums\<close>

lemma chunks_exact_length: "0 < n \<Longrightarrow> length (chunks_exact n xs) = length xs div n"
proof (induction n xs rule: chunks_exact.induct)
  case (1 n xs)
  then show ?case
    by (subst chunks_exact.simps) (auto simp: le_div_geq not_less)
qed

lemma chunks_exact_nth:
  assumes "0 < n" "i < length xs div n"
  shows "chunks_exact n xs ! i = take n (drop (i * n) xs)"
  using assms
proof (induction n xs arbitrary: i rule: chunks_exact.induct)
  case (1 n xs)
  have "\<not> length xs < n" using 1(3) by auto
  then show ?case
  proof (cases i)
    case 0
    then show ?thesis using \<open>\<not> length xs < n\<close> 1(2) by (subst chunks_exact.simps) simp
  next
    case (Suc k)
    have "k < length (drop n xs) div n"
      using 1(2,3) Suc \<open>\<not> length xs < n\<close> by (simp add: le_div_geq not_less)
    then show ?thesis
      using 1(1) [of k] 1(2) Suc \<open>\<not> length xs < n\<close>
      by (subst chunks_exact.simps) (simp add: add.commute)
  qed
qed

lemma block_step_length [simp]: "length (block_step R block qs acc) = length acc"
  by (simp add: block_step_def)

lemma row_step_length [simp]: "length row = length acc \<Longrightarrow> length (row_step qi row acc) = length acc"
  by (simp add: row_step_def)

lemma row_step_nth: "length row = length acc \<Longrightarrow> j < length acc \<Longrightarrow> row_step qi row acc ! j = acc ! j + qi * row ! j"
  by (simp add: row_step_def)

lemma fold_add_sum: "fold (\<lambda>r x. x + f r) [0..<n] (x::'a::comm_monoid_add) = x + (\<Sum>r<n. f r)"
  by (induction n) (simp_all add: ac_simps)

lemma block_step_nth:
  "j < length acc \<Longrightarrow> block_step R block qs acc ! j = acc ! j + (\<Sum>r<R. qs ! r * block ! (r * length acc + j))"
  by (simp add: block_step_def fold_add_sum)

text \<open>Folding over zipped lists is folding over indices.\<close>

lemma fold_zip_index:
  assumes "length xs = m" "length ys = m"
  shows "fold (\<lambda>(x, y). f x y) (zip xs ys) s = fold (\<lambda>i. f (xs ! i) (ys ! i)) [0..<m] s"
proof -
  have "zip xs ys = map (\<lambda>i. (xs ! i, ys ! i)) [0..<m]"
    using assms by (intro nth_equalityI) simp_all
  then show ?thesis by (simp add: fold_map comp_def split_def)
qed

lemma fold_length_inv:
  assumes "\<And>i s. i \<in> set is \<Longrightarrow> length s = w \<Longrightarrow> length (f i s) = w" "length s = w"
  shows "length (fold f is s) = w"
  using assms by (induction "is" arbitrary: s) simp_all

lemma sum_split_block: "(\<Sum>i<m + R. f i) = (\<Sum>i<m. f i) + (\<Sum>r<R. f (m + r))"
  for f :: "nat \<Rightarrow> 'a::comm_monoid_add"
  by (induction R) (simp_all add: ac_simps)

text \<open>After \<open>m\<close> blocks the accumulator holds the sum of the first \<open>m * R\<close> rows.\<close>

lemma block_fold:
  assumes "length acc = w" "j < w"
    and "\<And>i. i < m \<Longrightarrow> bs ! i = take (R * w) (drop (i * (R * w)) d)"
    and "\<And>i. i < m \<Longrightarrow> ps ! i = take R (drop (i * R) q)"
    and "m * R \<le> length q" "length d = length q * w"
  shows "fold (\<lambda>i. block_step R (bs ! i) (ps ! i)) [0..<m] acc ! j =
    acc ! j + (\<Sum>i<m * R. q ! i * mcell w d i j)"
  using assms(3-5)
proof (induction m)
  case (Suc m)
  let ?s = "fold (\<lambda>i. block_step R (bs ! i) (ps ! i)) [0..<m] acc"
  have len: "length ?s = w" by (rule fold_length_inv) (simp_all add: assms(1))
  have ih: "?s ! j = acc ! j + (\<Sum>i<m * R. q ! i * mcell w d i j)"
    by (rule Suc.IH) (use Suc.prems in auto)
  have cell: "ps ! m ! r * bs ! m ! (r * w + j) = q ! (m * R + r) * mcell w d (m * R + r) j" if "r < R" for r
  proof -
    have le: "m * R + R \<le> length q" using Suc.prems(3) by simp
    have in_block: "r * w + j < R * w" using that assms(2) by (rule mult_add_less)
    have "m * (R * w) + R * w = (m * R + R) * w" by (simp add: algebra_simps)
    also have "\<dots> \<le> length d" unfolding assms(6) using le by (rule mult_right_mono) simp
    finally have "m * (R * w) + R * w \<le> length d" .
    then have "bs ! m ! (r * w + j) = d ! (m * (R * w) + (r * w + j))"
      using in_block Suc.prems(1) [of m] by simp
    moreover have "ps ! m ! r = q ! (m * R + r)" using that le Suc.prems(2) [of m] by simp
    ultimately show ?thesis by (simp add: mcell_def algebra_simps)
  qed
  have "fold (\<lambda>i. block_step R (bs ! i) (ps ! i)) [0..<Suc m] acc ! j =
      ?s ! j + (\<Sum>r<R. ps ! m ! r * bs ! m ! (r * w + j))"
    using block_step_nth [where acc = ?s and qs = "ps ! m" and block = "bs ! m"] len assms(2) by simp
  also have "\<dots> = acc ! j + (\<Sum>i<m * R + R. q ! i * mcell w d i j)"
    by (simp add: ih cell sum_split_block add.assoc)
  finally show ?case by (simp add: add.commute)
qed simp

text \<open>The tail rows, one at a time, from row \<open>m\<close> on.\<close>

lemma tail_fold:
  assumes "length acc = w" "j < w" "m + n \<le> length q" "length d = length q * w"
    and "\<And>i. i < n \<Longrightarrow> rs ! i = take w (drop (i * w) (drop (m * w) d))"
    and "\<And>i. i < n \<Longrightarrow> qs ! i = q ! (m + i)"
  shows "fold (\<lambda>i. row_step (qs ! i) (rs ! i)) [0..<n] acc ! j =
    acc ! j + (\<Sum>i<n. q ! (m + i) * mcell w d (m + i) j)"
  using assms(3,5,6)
proof (induction n)
  case (Suc n)
  let ?s = "fold (\<lambda>i. row_step (qs ! i) (rs ! i)) [0..<n] acc"
  have row: "length (rs ! i) = w \<and> rs ! i ! j = mcell w d (m + i) j" if "i < Suc n" for i
  proof -
    have "(i * w + m * w) + w = (m + i + 1) * w" by (simp add: algebra_simps)
    also have "\<dots> \<le> length d" unfolding assms(4) using that Suc.prems(1) by (intro mult_right_mono) simp_all
    finally have "i * w + m * w + w \<le> length d" .
    then show ?thesis
      using assms(2) Suc.prems(2) [OF that] by (simp add: mcell_def algebra_simps)
  qed
  have len: "length ?s = w" by (rule fold_length_inv) (use row assms(1) in auto)
  have ih: "?s ! j = acc ! j + (\<Sum>i<n. q ! (m + i) * mcell w d (m + i) j)"
    by (rule Suc.IH) (use Suc.prems in auto)
  then show ?case
    using row_step_nth [of "rs ! n" ?s j "qs ! n"] row [of n] len assms(2) Suc.prems(3) [of n]
    by (simp add: add.assoc)
qed simp

lemma block_pass_length [simp]:
  assumes "length d = length q * length acc" "0 < R"
  shows "length (block_pass R acc d q) = length acc"
proof -
  let ?w = "length acc"
  let ?f = "length q - length q mod R"
  have "length r = ?w" if "r \<in> set (chunks_exact ?w (drop (?f * ?w) d))" "0 < ?w" for r
  proof -
    from that(1) obtain i where i: "i < length (chunks_exact ?w (drop (?f * ?w) d))"
      "r = chunks_exact ?w (drop (?f * ?w) d) ! i" by (auto simp: in_set_conv_nth)
    then have lt: "i < length (drop (?f * ?w) d) div ?w" using i(1) chunks_exact_length [OF that(2)] by metis
    then have "Suc i * ?w \<le> length (drop (?f * ?w) d)"
      using that(2) by (simp only: less_eq_div_iff_mult_less_eq [symmetric] Suc_le_eq)
    then show ?thesis using i(2) chunks_exact_nth [OF that(2) lt] by simp
  qed
  note rows = this
  show ?thesis
  proof (cases "?w = 0 \<or> length q = 0")
    case False
    let ?acc1 = "fold (\<lambda>(block, qs). block_step R block qs)
      (zip (chunks_exact (R * ?w) (take (?f * ?w) d)) (chunks_exact R (take ?f q))) acc"
    have "length ?acc1 = ?w" by (rule fold_length_inv) (simp_all add: split_def)
    note len1 = this
    have step: "length ((case x of (row, qi) \<Rightarrow> row_step qi row) s) = ?w"
      if "x \<in> set (zip (chunks_exact ?w (drop (?f * ?w) d)) (drop ?f q))" "length s = ?w" for x s
    proof -
      obtain r qi where x: "x = (r, qi)" by (cases x)
      have "length r = ?w" using that(1) False unfolding x by (intro rows [OF set_zip_leftD]) simp_all
      then show ?thesis using that(2) by (simp add: x)
    qed
    have "length (fold (\<lambda>(row, qi). row_step qi row)
        (zip (chunks_exact ?w (drop (?f * ?w) d)) (drop ?f q)) ?acc1) = ?w"
      by (rule fold_length_inv [OF step len1])
    then show ?thesis using False by (simp add: block_pass_def Let_def)
  qed (auto simp: block_pass_def)
qed

theorem block_pass_nth:
  assumes "length d = length q * length acc" "0 < R" "j < length acc"
  shows "block_pass R acc d q ! j = acc ! j + vecmat q (length acc) d j"
proof (cases "length q = 0")
  case True
  then show ?thesis by (simp add: block_pass_def vecmat_def)
next
  case False
  let ?w = "length acc"
  define n where "n = length q"
  define m where "m = n div R"
  define full where "full = m * R"
  have full: "n - n mod R = full" "full \<le> n" by (simp_all add: full_def m_def minus_mod_eq_div_mult)
  have w: "0 < ?w" using assms(3) by auto
  have lens: "length (take (full * ?w) d) = m * (R * ?w)" "length (take full q) = m * R"
    "length (drop (full * ?w) d) = (n - full) * ?w"
  proof -
    have "full * ?w \<le> length d" unfolding assms(1) using full(2) by (simp add: n_def mult_right_mono)
    then show "length (take (full * ?w) d) = m * (R * ?w)" by (simp add: full_def mult.assoc)
    show "length (take full q) = m * R" using full(2) by (simp add: full_def n_def)
    show "length (drop (full * ?w) d) = (n - full) * ?w" by (simp add: assms(1) n_def diff_mult_distrib)
  qed
  let ?bs = "chunks_exact (R * ?w) (take (full * ?w) d)"
  let ?ps = "chunks_exact R (take full q)"
  let ?rs = "chunks_exact ?w (drop (full * ?w) d)"
  have cl: "length ?bs = m" "length ?ps = m" "length ?rs = n - full"
    using lens w assms(2) by (simp_all add: chunks_exact_length)
  define acc1 where "acc1 = fold (\<lambda>i. block_step R (?bs ! i) (?ps ! i)) [0..<m] acc"
  have len1: "length acc1 = ?w" unfolding acc1_def by (rule fold_length_inv) simp_all
  have one: "acc1 ! j = acc ! j + (\<Sum>i<m * R. q ! i * mcell ?w d i j)"
    unfolding acc1_def
  proof (rule block_fold [OF refl assms(3)])
    fix i assume i: "i < m"
    have le: "i * c + c \<le> m * c" for c
      using mult_le_mono1 [OF Suc_leI [OF i], of c] by simp
    have "i * (R * ?w) + R * ?w \<le> full * ?w" using le [of "R * ?w"] by (simp add: full_def mult.assoc)
    then show "?bs ! i = take (R * ?w) (drop (i * (R * ?w)) d)"
      using chunks_exact_nth [of "R * ?w" i "take (full * ?w) d"] i lens(1) w assms(2)
      by (simp add: drop_take min_def)
    have "i * R + R \<le> full" using le [of R] by (simp add: full_def)
    then show "?ps ! i = take R (drop (i * R) q)"
      using chunks_exact_nth [of R i "take full q"] i lens(2) assms(2) by (simp add: drop_take min_def)
  qed (use full assms(1) in \<open>simp_all add: full_def n_def\<close>)
  have two: "fold (\<lambda>i. row_step (drop full q ! i) (?rs ! i)) [0..<n - full] acc1 ! j =
      acc1 ! j + (\<Sum>i<n - full. q ! (full + i) * mcell ?w d (full + i) j)"
  proof (rule tail_fold [OF len1 assms(3)])
    show "?rs ! i = take ?w (drop (i * ?w) (drop (full * ?w) d))" if "i < n - full" for i
    proof (rule chunks_exact_nth [OF w])
      show "i < length (drop (full * ?w) d) div ?w" unfolding lens(3) using that w by simp
    qed
    show "drop full q ! i = q ! (full + i)" if "i < n - full" for i using that by (simp add: n_def)
  qed (use full(2) assms(1) in \<open>simp_all add: n_def\<close>)
  have "block_pass R acc d q = fold (\<lambda>i. row_step (drop full q ! i) (?rs ! i)) [0..<n - full] acc1"
    unfolding block_pass_def Let_def acc1_def
    using fold_zip_index [OF cl(1,2), of "block_step R"]
      fold_zip_index [OF cl(3), of "drop full q" "\<lambda>row qi. row_step qi row"] False w
    by (simp add: n_def full(1) [unfolded n_def] split_def)
  then show ?thesis
    using one two sum_split_block [of "\<lambda>i. q ! i * mcell ?w d i j" full "n - full"] full(2)
    by (simp add: vecmat_def n_def full_def add.assoc)
qed

lemma block_factor_pos: "0 < block_factor x86 w"
  by (simp add: block_factor_def)

lemma matvec_eq_Some:
  "matvec_accumulate x86 acc d q = Some r \<longleftrightarrow> length d = length q * length acc \<and>
     length r = length acc \<and> (\<forall>j < length acc. r ! j = acc ! j + vecmat q (length acc) d j)"
proof (cases "length d = length q * length acc")
  case shape: True
  define r0 where "r0 = (if length acc = 0 then acc else block_pass (block_factor x86 (length acc)) acc d q)"
  have r0: "matvec_accumulate x86 acc d q = Some r0" using shape by (simp add: matvec_accumulate_def r0_def)
  have "length r0 = length acc" "\<forall>j < length acc. r0 ! j = acc ! j + vecmat q (length acc) d j"
    using block_pass_length [OF shape block_factor_pos] block_pass_nth [OF shape block_factor_pos]
    by (auto simp: r0_def)
  then show ?thesis using r0 shape by (auto simp: list_eq_iff_nth_eq)
qed (simp add: matvec_accumulate_def)

lemma matvec_total:
  assumes "length d = length q * length acc"
  obtains r where "matvec_accumulate x86 acc d q = Some r" "length r = length acc"
    "\<And>j. j < length acc \<Longrightarrow> r ! j = acc ! j + vecmat q (length acc) d j"
proof -
  obtain r where "matvec_accumulate x86 acc d q = Some r" using assms by (simp add: matvec_accumulate_def)
  then show ?thesis using that matvec_eq_Some [of x86 acc d q r] by blast
qed

end
