(* ===== verification/Hint_Matrix.thy ===== *)
theory Hint_Matrix
  imports Matvec
begin

text \<open>
  The hint \<open>H = A\<^sup>T D mod 2\<^sup>3\<^sup>2\<close> and its incremental patch, as far as the two LWE back ends share
  them: the row update kernel, and \<open>TouchedRuns\<close> of \<open>ikpir-common/src/backend/patch.rs\<close>, which
  sorts the edits of a row and applies them as contiguous runs. Every kernel adds to \<open>H\<close> the
  product of a row of \<open>A\<close> with a row vector (\<open>rank_one\<close>), and such updates keep \<open>H\<close> equal to
  \<open>A\<^sup>T D\<close> (\<open>hint_of\<close>) when \<open>D\<close> is edited.
\<close>

section \<open>Row updates\<close>

text \<open>\<open>h_row[off + j] += aik * d_row[j]\<close> for all \<open>j\<close>; slicing panics out of range.\<close>

definition add_scaled :: "nat \<Rightarrow> u32 list \<Rightarrow> u32 \<Rightarrow> u32 list \<Rightarrow> u32 list option" where
  "add_scaled off d_row aik h_row =
     do {
       dst \<leftarrow> slice_opt h_row off (length d_row);
       splice_opt h_row off (map2 (\<lambda>h d. h + aik * d) dst d_row)
     }"

text \<open>The loop over the rows of the hint: row \<open>k\<close> is updated with the coefficient \<open>a_row[k]\<close>.\<close>

definition for_hint_rows ::
  "nat \<Rightarrow> nat \<Rightarrow> u32 list \<Rightarrow> (u32 \<Rightarrow> u32 list \<Rightarrow> u32 list option) \<Rightarrow> u32 list \<Rightarrow> u32 list option" where
  "for_hint_rows lwe_dim w a_row upd =
     fold_opt (\<lambda>k h. do {
       aik \<leftarrow> nth_opt a_row k;
       h_row \<leftarrow> slice_opt h (k * w) w;
       h_row' \<leftarrow> upd aik h_row;
       splice_opt h (k * w) h_row'
     }) [0..<lwe_dim]"

text \<open>What the loop does when each row update adds \<open>aik * f c\<close> to column \<open>c\<close>.\<close>

definition adds :: "nat \<Rightarrow> (nat \<Rightarrow> u32) \<Rightarrow> (u32 \<Rightarrow> u32 list \<Rightarrow> u32 list option) \<Rightarrow> bool" where
  "adds w f upd \<longleftrightarrow> (\<forall>aik row. length row = w \<longrightarrow>
     (\<exists>row'. upd aik row = Some row' \<and> length row' = w \<and> (\<forall>c < w. row' ! c = row ! c + aik * f c)))"

definition rank_one :: "nat \<Rightarrow> nat \<Rightarrow> (nat \<Rightarrow> u32) \<Rightarrow> (nat \<Rightarrow> u32) \<Rightarrow> u32 list \<Rightarrow> u32 list \<Rightarrow> bool" where
  "rank_one lwe_dim w a f h h' \<longleftrightarrow> length h = lwe_dim * w \<and> length h' = lwe_dim * w \<and>
     (\<forall>k < lwe_dim. \<forall>c < w. mcell w h' k c = mcell w h k c + a k * f c)"

lemma addsD:
  assumes "adds w f upd" "length row = w"
  obtains row' where "upd aik row = Some row'" "length row' = w" "\<And>c. c < w \<Longrightarrow> row' ! c = row ! c + aik * f c"
  using assms unfolding adds_def by blast

lemma add_scaled_nth:
  assumes "off + length d_row \<le> length h_row"
  obtains r where "add_scaled off d_row aik h_row = Some r" "length r = length h_row"
    "\<And>c. c < length h_row \<Longrightarrow> r ! c = (if off \<le> c \<and> c < off + length d_row
      then h_row ! c + aik * d_row ! (c - off) else h_row ! c)"
proof -
  let ?seg = "map2 (\<lambda>h d. h + aik * d) (take (length d_row) (drop off h_row)) d_row"
  have "add_scaled off d_row aik h_row = Some (take off h_row @ ?seg @ drop (off + length d_row) h_row)"
    using assms by (simp add: add_scaled_def slice_opt_def splice_opt_def)
  moreover have "(take off h_row @ ?seg @ drop (off + length d_row) h_row) ! c = (if off \<le> c \<and> c < off + length d_row
      then h_row ! c + aik * d_row ! (c - off) else h_row ! c)" if "c < length h_row" for c
    using assms that by (auto simp: nth_append)
  ultimately show ?thesis using that assms by simp
qed

lemma adds_add_scaled:
  assumes "off + length d_row \<le> w"
  shows "adds w (\<lambda>c. if off \<le> c \<and> c < off + length d_row then d_row ! (c - off) else 0) (add_scaled off d_row)"
  unfolding adds_def
proof (intro allI impI)
  fix aik and row :: "u32 list" assume len: "length row = w"
  obtain r where "add_scaled off d_row aik row = Some r" "length r = w"
    "\<And>c. c < w \<Longrightarrow> r ! c = (if off \<le> c \<and> c < off + length d_row then row ! c + aik * d_row ! (c - off) else row ! c)"
    using add_scaled_nth [of off d_row row aik] assms len by metis
  then show "\<exists>row'. add_scaled off d_row aik row = Some row' \<and> length row' = w \<and>
    (\<forall>c < w. row' ! c = row ! c + aik * (if off \<le> c \<and> c < off + length d_row then d_row ! (c - off) else 0))"
    by auto
qed

lemma adds_cong: "adds w f upd \<Longrightarrow> (\<And>c. c < w \<Longrightarrow> f c = g c) \<Longrightarrow> adds w g upd"
  unfolding adds_def by (metis (no_types, lifting))

lemma adds_full_row: "length d_row = w \<Longrightarrow> adds w (\<lambda>c. d_row ! c) (add_scaled 0 d_row)"
  by (rule adds_cong [OF adds_add_scaled]) simp_all

lemma splice_row_mcell:
  assumes "length h = n * w" "k < n" "length row = w"
  obtains h' where "splice_opt h (k * w) row = Some h'" "length h' = n * w"
    "\<And>k' c. k' < n \<Longrightarrow> c < w \<Longrightarrow> mcell w h' k' c = (if k' = k then row ! c else mcell w h k' c)"
proof -
  have le: "k * w + w \<le> n * w" using mult_le_mono1 [OF Suc_leI [OF assms(2)], of w] by simp
  let ?h = "take (k * w) h @ row @ drop (k * w + w) h"
  have "mcell w ?h k' c = (if k' = k then row ! c else mcell w h k' c)" if k': "k' < n" "c < w" for k' c
  proof -
    have idx: "k' * w + c < n * w" using k' by (rule mult_add_less)
    consider "k' < k" | "k' = k" | "k < k'" by linarith
    then show ?thesis
    proof cases
      case 1
      then have "k' * w + c < k * w" using k'(2) by (rule mult_add_less)
      then show ?thesis using 1 le assms(1) by (simp add: mcell_def nth_append)
    next
      case 2
      then show ?thesis using le assms k'(2) by (simp add: mcell_def nth_append)
    next
      case 3
      then have "k * w + w \<le> k' * w" using mult_le_mono1 [OF Suc_leI [OF 3], of w] by simp
      then show ?thesis using 3 le assms idx by (auto simp: mcell_def nth_append)
    qed
  qed
  moreover have "splice_opt h (k * w) row = Some ?h" "length ?h = n * w"
    using le assms by (simp_all add: splice_opt_def)
  ultimately show ?thesis using that by blast
qed

lemma for_hint_rows_rank_one:
  assumes "adds w f upd" "length a_row = lwe_dim" "length h = lwe_dim * w"
  obtains h' where "for_hint_rows lwe_dim w a_row upd h = Some h'" "rank_one lwe_dim w (\<lambda>k. a_row ! k) f h h'"
proof -
  define P where "P i h' \<longleftrightarrow> length h' = lwe_dim * w \<and> (\<forall>k < lwe_dim. \<forall>c < w.
    mcell w h' k c = mcell w h k c + (if k < i then a_row ! k * f c else 0))" for i h'
  define body where "body k h = do { aik \<leftarrow> nth_opt a_row k; h_row \<leftarrow> slice_opt h (k * w) w;
      h_row' \<leftarrow> upd aik h_row; splice_opt h (k * w) h_row' }" for k h
  have step: "\<exists>s'. body i s = Some s' \<and> P (Suc i) s'"
    if i: "i < lwe_dim" and s: "P i s" for i s
  proof -
    have len: "length s = lwe_dim * w" using s by (simp add: P_def)
    have le: "i * w + w \<le> length s" using mult_le_mono1 [OF Suc_leI [OF i], of w] len by simp
    let ?row = "take w (drop (i * w) s)"
    have row: "slice_opt s (i * w) w = Some ?row" "length ?row = w"
      using le by (simp_all add: slice_opt_def)
    have cell: "?row ! c = mcell w s i c" if "c < w" for c using le that by (simp add: mcell_def)
    obtain row' where row': "upd (a_row ! i) ?row = Some row'" "length row' = w"
      "\<And>c. c < w \<Longrightarrow> row' ! c = ?row ! c + a_row ! i * f c" using addsD [OF assms(1) row(2)] by blast
    obtain s' where s': "splice_opt s (i * w) row' = Some s'" "length s' = lwe_dim * w"
      "\<And>k c. k < lwe_dim \<Longrightarrow> c < w \<Longrightarrow> mcell w s' k c = (if k = i then row' ! c else mcell w s k c)"
      using splice_row_mcell [OF len i row'(2)] by blast
    have "mcell w s' k c = mcell w h k c + (if k < Suc i then a_row ! k * f c else 0)"
      if k: "k < lwe_dim" "c < w" for k c
    proof -
      have "mcell w s k c = mcell w h k c + (if k < i then a_row ! k * f c else 0)"
        using s k by (simp add: P_def)
      then show ?thesis unfolding s'(3) [OF k]
        using row'(3) [OF k(2)] cell [OF k(2)] by (cases "k = i") (simp_all add: less_Suc_eq)
    qed
    then have "P (Suc i) s'" unfolding P_def using s'(2) by blast
    then show ?thesis using row row'(1) s'(1) i assms(2) by (auto simp: body_def)
  qed
  have "P 0 h" by (simp add: P_def assms(3))
  then obtain h' where h': "fold_opt body [0..<lwe_dim] h = Some h'" "P lwe_dim h'"
    by (rule fold_opt_upt [where P = P and f = body, OF _ step])
  have "for_hint_rows lwe_dim w a_row upd h = Some h'"
    unfolding for_hint_rows_def body_def [abs_def, symmetric] by (rule h'(1))
  moreover have "rank_one lwe_dim w (\<lambda>k. a_row ! k) f h h'"
    using h'(2) assms(3) by (simp add: P_def rank_one_def)
  ultimately show ?thesis by (rule that)
qed

section \<open>The hint of a matrix\<close>

text \<open>\<open>H[k, j] = \<Sum>\<^sub>i A[i, k] D[i, j]\<close> for the \<open>n_rows\<close> rows of \<open>D\<close>, with \<open>D\<close> given by its cells.\<close>

definition hint_of :: "nat \<Rightarrow> nat \<Rightarrow> nat \<Rightarrow> u32 list \<Rightarrow> (nat \<Rightarrow> nat \<Rightarrow> u32) \<Rightarrow> u32 list \<Rightarrow> bool" where
  "hint_of n_rows lwe_dim w a D h \<longleftrightarrow> length a = n_rows * lwe_dim \<and> length h = lwe_dim * w \<and>
     (\<forall>k < lwe_dim. \<forall>j < w. mcell w h k j = (\<Sum>i<n_rows. mcell lwe_dim a i k * D i j))"

lemma hint_ofD:
  assumes "hint_of n lwe w a D h"
  shows "length a = n * lwe" "length h = lwe * w"
    "\<And>k j. k < lwe \<Longrightarrow> j < w \<Longrightarrow> mcell w h k j = (\<Sum>i<n. mcell lwe a i k * D i j)"
  using assms by (simp_all add: hint_of_def)

lemma hint_of_unique: "hint_of n lwe w a D h \<Longrightarrow> hint_of n lwe w a D h' \<Longrightarrow> h = h'"
  by (rule mcell_eqI [where n = lwe and w = w]) (simp_all add: hint_ofD)

lemma hint_of_cong:
  "(\<And>i j. i < n \<Longrightarrow> j < w \<Longrightarrow> D i j = D' i j) \<Longrightarrow> hint_of n lwe w a D h = hint_of n lwe w a D' h"
  by (simp add: hint_of_def)

text \<open>A rank-one update with row \<open>r\<close> of \<open>A\<close> is an edit of row \<open>r\<close> of \<open>D\<close>.\<close>

lemma hint_of_rank_one:
  assumes "hint_of n lwe w a D h" "r < n" "rank_one lwe w (\<lambda>k. mcell lwe a r k) f h h'"
  shows "hint_of n lwe w a (\<lambda>i j. D i j + (if i = r then f j else 0)) h'"
proof -
  have "mcell w h' k j = (\<Sum>i<n. mcell lwe a i k * (D i j + (if i = r then f j else 0)))"
    if "k < lwe" "j < w" for k j
  proof -
    have "(\<Sum>i<n. mcell lwe a i k * (D i j + (if i = r then f j else 0))) =
        (\<Sum>i<n. mcell lwe a i k * D i j) + (\<Sum>i<n. if i = r then mcell lwe a i k * f j else 0)"
      unfolding sum.distrib [symmetric] by (intro sum.cong) (simp_all add: distrib_left)
    also have "(\<Sum>i<n. if i = r then mcell lwe a i k * f j else 0) = mcell lwe a r k * f j"
      using assms(2) by (simp add: sum.delta)
    finally show ?thesis using assms(1,3) that by (simp add: hint_of_def rank_one_def)
  qed
  then show ?thesis using assms(1,3) by (simp add: hint_of_def rank_one_def)
qed

text \<open>Row \<open>r\<close> of \<open>A\<close>, sliced.\<close>

lemma slice_row:
  assumes "length a = n * w" "r < n"
  shows "\<exists>row. slice_opt a (r * w) w = Some row \<and> length row = w \<and> (\<forall>k < w. row ! k = mcell w a r k)"
proof -
  have "r * w + w \<le> n * w" using mult_le_mono1 [OF Suc_leI [OF assms(2)], of w] by simp
  moreover have "r \<le> n" using assms(2) by simp
  ultimately show ?thesis using assms(1) by (auto simp: slice_opt_def mcell_def)
qed

lemma rank_one_cong:
  "rank_one lwe w f g h h' \<Longrightarrow> (\<And>k. k < lwe \<Longrightarrow> f k = f' k) \<Longrightarrow> (\<And>c. c < w \<Longrightarrow> g c = g' c) \<Longrightarrow>
    rank_one lwe w f' g' h h'"
  by (simp add: rank_one_def)

text \<open>One row of \<open>D\<close> folded into the hint, at column \<open>off\<close> of the hint's rows.\<close>

definition fold_row :: "nat \<Rightarrow> nat \<Rightarrow> u32 list \<Rightarrow> nat \<Rightarrow> nat \<Rightarrow> u32 list \<Rightarrow> u32 list \<Rightarrow> u32 list option" where
  "fold_row lwe_dim w a r off d_row h =
     do {
       a_row \<leftarrow> slice_opt a (r * lwe_dim) lwe_dim;
       for_hint_rows lwe_dim w a_row (add_scaled off d_row) h
     }"

lemma update_row:
  assumes "length a = n * lwe" "r < n" "adds w f upd" "length h = lwe * w"
  obtains a_row h' where "slice_opt a (r * lwe) lwe = Some a_row" "length a_row = lwe"
    "for_hint_rows lwe w a_row upd h = Some h'" "rank_one lwe w (\<lambda>k. mcell lwe a r k) f h h'"
proof -
  obtain a_row where row: "slice_opt a (r * lwe) lwe = Some a_row" "length a_row = lwe"
    "\<forall>k < lwe. a_row ! k = mcell lwe a r k" using slice_row [OF assms(1,2)] by blast
  obtain h' where h': "for_hint_rows lwe w a_row upd h = Some h'" "rank_one lwe w (\<lambda>k. a_row ! k) f h h'"
    using for_hint_rows_rank_one [OF assms(3) row(2) assms(4)] by blast
  show ?thesis using that [OF row(1,2) h'(1) rank_one_cong [OF h'(2)]] row(3) by blast
qed

section \<open>Sparse edits\<close>

text \<open>The net delta of a list of cell edits at column \<open>c\<close>, and of a list of row edits at \<open>(r, c)\<close>.\<close>

type_synonym cell_deltas = "(nat \<times> int) list"
type_synonym row_deltas = "(nat \<times> cell_deltas) list"

definition cell_delta :: "cell_deltas \<Rightarrow> nat \<Rightarrow> int" where
  "cell_delta cells c = (\<Sum>(o', d) \<leftarrow> cells. if o' = c then d else 0)"

definition row_delta :: "row_deltas \<Rightarrow> nat \<Rightarrow> nat \<Rightarrow> int" where
  "row_delta rd r c = (\<Sum>(r', cells) \<leftarrow> rd. if r' = r then cell_delta cells c else 0)"

lemma cell_delta_simps [simp]:
  "cell_delta [] c = 0"
  "cell_delta (x # xs) c = (if fst x = c then snd x else 0) + cell_delta xs c"
  "cell_delta (xs @ ys) c = cell_delta xs c + cell_delta ys c"
  by (simp_all add: cell_delta_def split_def)

lemma row_delta_simps [simp]:
  "row_delta [] r c = 0"
  "row_delta (x # xs) r c = (if fst x = r then cell_delta (snd x) c else 0) + row_delta xs r c"
  "row_delta (xs @ ys) r c = row_delta xs r c + row_delta ys r c"
  by (simp_all add: row_delta_def split_def)

lemma cell_delta_absent: "c \<notin> fst ` set cells \<Longrightarrow> cell_delta cells c = 0"
  by (induction cells) auto

lemma cell_delta_filter: "cell_delta (filter (\<lambda>x. snd x \<noteq> 0) cells) c = cell_delta cells c"
  by (induction cells) auto

text \<open>Shapes: every row and column in range.\<close>

definition edits_ok :: "nat \<Rightarrow> nat \<Rightarrow> row_deltas \<Rightarrow> bool" where
  "edits_ok n w rd \<longleftrightarrow> (\<forall>x \<in> set rd. fst x < n \<and> (\<forall>y \<in> set (snd x). fst y < w))"

lemma edits_ok_Cons [simp]:
  "edits_ok n w ((r, cells) # rd) \<longleftrightarrow> r < n \<and> (\<forall>x \<in> set cells. fst x < w) \<and> edits_ok n w rd"
  "edits_ok n w []"
  by (simp_all add: edits_ok_def)

lemma edits_ok_append [simp]: "edits_ok n w (xs @ ys) \<longleftrightarrow> edits_ok n w xs \<and> edits_ok n w ys"
  by (simp add: edits_ok_def ball_Un)

text \<open>The matrix after the edits, mod \<open>2\<^sup>3\<^sup>2\<close>.\<close>

definition edited :: "(nat \<Rightarrow> nat \<Rightarrow> u32) \<Rightarrow> row_deltas \<Rightarrow> nat \<Rightarrow> nat \<Rightarrow> u32" where
  "edited D rd i j = D i j + word_of_int (row_delta rd i j)"

text \<open>A patch loop that folds each edited row into the hint keeps it the hint of the edited matrix.\<close>

lemma patch_loop:
  assumes "hint_of n lwe w a D h" "edits_ok n w rd"
    and "\<And>r cells h. r < n \<Longrightarrow> \<forall>x \<in> set cells. fst x < w \<Longrightarrow> length h = lwe * w \<Longrightarrow>
      \<exists>h'. body (r, cells) h = Some h' \<and>
        rank_one lwe w (\<lambda>k. mcell lwe a r k) (\<lambda>c. word_of_int (cell_delta cells c)) h h'"
  obtains h' where "fold_opt body rd h = Some h'" "hint_of n lwe w a (edited D rd) h'"
proof -
  have step: "\<exists>s'. body x s = Some s' \<and> hint_of n lwe w a (edited D (xs @ [x])) s'"
    if split: "rd = xs @ x # ys" and s: "hint_of n lwe w a (edited D xs) s" for xs x ys s
  proof -
    obtain r cells where x: "x = (r, cells)" by (cases x)
    have ok: "r < n" "\<forall>x \<in> set cells. fst x < w" using assms(2) by (auto simp: split x)
    obtain s' where s': "body (r, cells) s = Some s'"
      "rank_one lwe w (\<lambda>k. mcell lwe a r k) (\<lambda>c. word_of_int (cell_delta cells c)) s s'"
      using assms(3) [OF ok hint_ofD(2) [OF s]] by blast
    have "hint_of n lwe w a (edited D (xs @ [x])) s' \<longleftrightarrow>
        hint_of n lwe w a (\<lambda>i j. edited D xs i j + (if i = r then word_of_int (cell_delta cells j) else 0)) s'"
      by (rule hint_of_cong) (simp add: edited_def x)
    then show ?thesis using hint_of_rank_one [OF s ok(1) s'(2)] s'(1) x by blast
  qed
  have start: "hint_of n lwe w a (edited D []) h" using assms(1) by (simp add: edited_def [abs_def])
  show ?thesis
    by (rule fold_opt_list [where P = "\<lambda>xs. hint_of n lwe w a (edited D xs)" and f = body, OF start step])
      (use that in blast)+
qed

section \<open>Computing the hint\<close>

text \<open>\<open>compute_hint\<close> of \<open>frodo/backend.rs\<close>: row by row of \<open>D\<close>, the whole hint width at a time.\<close>

definition compute_hint :: "u32 list \<Rightarrow> u32 list \<Rightarrow> nat \<Rightarrow> nat \<Rightarrow> nat \<Rightarrow> u32 list option" where
  "compute_hint a db n_rows lwe_dim row_width =
     fold_opt (\<lambda>i h. do {
       a_row \<leftarrow> slice_opt a (i * lwe_dim) lwe_dim;
       d_row \<leftarrow> slice_opt db (i * row_width) row_width;
       for_hint_rows lwe_dim row_width a_row (add_scaled 0 d_row) h
     }) [0..<n_rows] (replicate (lwe_dim * row_width) 0)"

lemma hint_of_zero:
  "length a = n * lwe \<Longrightarrow> hint_of n lwe w a (\<lambda>i j. 0) (replicate (lwe * w) 0)"
  by (simp add: hint_of_def mcell_def mult_add_less)

theorem compute_hint_total:
  assumes "length a = n * lwe" "length db = n * w"
  obtains h where "compute_hint a db n lwe w = Some h" "hint_of n lwe w a (mcell w db) h"
proof -
  define body where "body i h = do {
    a_row \<leftarrow> slice_opt a (i * lwe) lwe;
    d_row \<leftarrow> slice_opt db (i * w) w;
    for_hint_rows lwe w a_row (add_scaled 0 d_row) h }" for i h
  define P where "P i h \<longleftrightarrow> hint_of n lwe w a (\<lambda>i' j. if i' < i then mcell w db i' j else 0) h" for i h
  have step: "\<exists>s'. body i s = Some s' \<and> P (Suc i) s'" if i: "i < n" and s: "P i s" for i s
  proof -
    obtain d_row where d: "slice_opt db (i * w) w = Some d_row" "length d_row = w"
      "\<forall>j < w. d_row ! j = mcell w db i j" using slice_row [OF assms(2) i] by blast
    have s1: "hint_of n lwe w a (\<lambda>i' j. if i' < i then mcell w db i' j else 0) s" using s by (simp add: P_def)
    obtain a_row s' where s': "slice_opt a (i * lwe) lwe = Some a_row" "length a_row = lwe"
      "for_hint_rows lwe w a_row (add_scaled 0 d_row) s = Some s'"
      "rank_one lwe w (\<lambda>k. mcell lwe a i k) (\<lambda>c. d_row ! c) s s'"
      by (rule update_row [OF assms(1) i adds_full_row [OF d(2)] hint_ofD(2) [OF s1]])
    have "P (Suc i) s'"
      using hint_of_rank_one [OF s1 i s'(4)] unfolding P_def
      by (rule hint_of_cong [THEN iffD1, rotated]) (use d(3) in \<open>auto simp: less_Suc_eq\<close>)
    then show ?thesis using s'(1,3) d(1) by (simp add: body_def)
  qed
  have "P 0 (replicate (lwe * w) 0)" using hint_of_zero [OF assms(1)] by (simp add: P_def)
  then obtain h where h: "fold_opt body [0..<n] (replicate (lwe * w) 0) = Some h" "P n h"
    by (rule fold_opt_upt [where P = P and f = body, OF _ step])
  have "hint_of n lwe w a (mcell w db) h"
    using h(2) unfolding P_def by (rule hint_of_cong [THEN iffD1, rotated]) simp
  moreover have "compute_hint a db n lwe w = Some h"
    unfolding compute_hint_def body_def [abs_def, symmetric] by (rule h(1))
  ultimately show ?thesis using that by blast
qed

section \<open>Touched runs\<close>

text \<open>The reusable buffer of \<open>patch.rs\<close>: the runs, as (first column, length), and their deltas.\<close>

record touched_runs =
  tr_deltas :: "u32 list"
  tr_runs :: "(nat \<times> nat) list"

text \<open>\<open>last_mut().expect(..)\<close>: panics on an empty vector.\<close>

definition upd_last :: "('a \<Rightarrow> 'a) \<Rightarrow> 'a list \<Rightarrow> 'a list option" where
  "upd_last f xs = (if xs = [] then None else Some (butlast xs @ [f (last xs)]))"

text \<open>The loop over the sorted edits; \<open>last_col\<close> is the previous column.\<close>

fun coalesce :: "(nat \<times> u32) list \<Rightarrow> nat option \<Rightarrow> u32 list \<Rightarrow> (nat \<times> nat) list \<Rightarrow> touched_runs option" where
  "coalesce [] last_col deltas runs = Some \<lparr> tr_deltas = deltas, tr_runs = runs \<rparr>"
| "coalesce ((col, delta) # xs) None deltas runs =
     coalesce xs (Some col) (deltas @ [delta]) (runs @ [(col, 1)])"
| "coalesce ((col, delta) # xs) (Some prev) deltas runs =
     (if prev = col then do {
        deltas' \<leftarrow> upd_last (\<lambda>d. d + delta) deltas;
        coalesce xs (Some prev) deltas' runs
      }
      else if prev + 1 = col then do {
        runs' \<leftarrow> upd_last (\<lambda>(s, l). (s, l + 1)) runs;
        coalesce xs (Some col) (deltas @ [delta]) runs'
      }
      else coalesce xs (Some col) (deltas @ [delta]) (runs @ [(col, 1)]))"

text \<open>
  \<open>sort_unstable_by_key\<close> may order edits of one column either way; the model sorts stably, and
  the lemmas hold for every order. The closure \<open>column_of\<close> may panic.
\<close>

definition tr_rebuild :: "cell_deltas \<Rightarrow> (nat \<Rightarrow> nat option) \<Rightarrow> touched_runs option" where
  "tr_rebuild cells column_of =
     do {
       scratch \<leftarrow> those (map (\<lambda>(off, delta). map_option (\<lambda>col. (col, word_of_int delta)) (column_of off))
         (filter (\<lambda>(_, delta). delta \<noteq> 0) cells));
       coalesce (sort_key fst scratch) None [] []
     }"

text \<open>\<open>apply\<close>: \<open>fed\<close> counts the deltas already used in the current hint row.\<close>

primrec apply_runs :: "(nat \<times> nat) list \<Rightarrow> u32 list \<Rightarrow> nat \<Rightarrow> u32 \<Rightarrow> u32 list \<Rightarrow> u32 list option" where
  "apply_runs [] deltas fed aik h_row = Some h_row"
| "apply_runs (run # runs) deltas fed aik h_row =
     (case run of (start, len) \<Rightarrow> do {
        src \<leftarrow> slice_opt deltas fed len;
        h_row' \<leftarrow> add_scaled start src aik h_row;
        apply_runs runs deltas (fed + len) aik h_row'
      })"

definition tr_apply :: "touched_runs \<Rightarrow> u32 list \<Rightarrow> u32 list \<Rightarrow> nat \<Rightarrow> u32 list option" where
  "tr_apply tr a_row hint w =
     do {
       assert_opt (length hint = length a_row * w);
       for_hint_rows (length a_row) w a_row (apply_runs (tr_runs tr) (tr_deltas tr) 0) hint
     }"

text \<open>The columns of the runs in order, and the word sum of the edits of a column.\<close>

definition run_cols :: "(nat \<times> nat) list \<Rightarrow> nat list" where
  "run_cols runs = concat (map (\<lambda>(s, l). [s..<s + l]) runs)"

definition col_sum :: "(nat \<times> u32) list \<Rightarrow> nat \<Rightarrow> u32" where
  "col_sum xs c = (\<Sum>(c', d) \<leftarrow> xs. if c' = c then d else 0)"

lemma run_cols_simps [simp]:
  "run_cols [] = []" "run_cols ((s, l) # runs) = [s..<s + l] @ run_cols runs"
  "run_cols (rs @ rs') = run_cols rs @ run_cols rs'"
  by (simp_all add: run_cols_def)

lemma col_sum_simps [simp]:
  "col_sum [] c = 0"
  "col_sum (x # xs) c = (if fst x = c then snd x else 0) + col_sum xs c"
  "col_sum (xs @ ys) c = col_sum xs c + col_sum ys c"
  by (simp_all add: col_sum_def split_def)

lemma col_sum_mset: "mset xs = mset ys \<Longrightarrow> col_sum xs c = col_sum ys c"
proof -
  have "col_sum zs c = sum_mset (image_mset (\<lambda>(c', d). if c' = c then d else 0) (mset zs))" for zs
    by (simp add: col_sum_def flip: sum_mset_sum_list)
  then show "mset xs = mset ys \<Longrightarrow> col_sum xs c = col_sum ys c" by simp
qed

lemma col_sum_zip_upt:
  "length src = l \<Longrightarrow> col_sum (zip [s..<s + l] src) c = (if s \<le> c \<and> c < s + l then src ! (c - s) else 0)"
proof (induction src arbitrary: s l)
  case (Cons d src)
  have "[s..<s + l] = s # [Suc s..<Suc s + length src]"
    using Cons.prems by (simp add: upt_conv_Cons flip: Cons.prems del: upt_Suc)
  then show ?case using Cons.IH [OF refl, of "Suc s"] Cons.prems
    by (auto simp del: upt_Suc simp: nth_Cons')
qed auto

lemma apply_runs_adds:
  assumes "\<forall>c \<in> set (run_cols runs). c < w" "fed + length (run_cols runs) \<le> length deltas"
    and "\<forall>x \<in> set runs. 0 < snd x"
  shows "adds w (\<lambda>c. col_sum (zip (run_cols runs) (drop fed deltas)) c) (apply_runs runs deltas fed)"
  using assms
proof (induction runs arbitrary: fed)
  case Nil
  then show ?case by (simp add: adds_def)
next
  case (Cons x runs)
  obtain s l where x: "x = (s, l)" by (cases x)
  have l: "0 < l" "s + l \<le> w" using Cons.prems(1,3) by (auto simp: x dest: bspec [of _ _ "s + l - 1"])
  let ?src = "take l (drop fed deltas)"
  have src: "slice_opt deltas fed l = Some ?src" "length ?src = l"
    using Cons.prems(2) by (simp_all add: x slice_opt_def)
  have tl: "adds w (\<lambda>c. col_sum (zip (run_cols runs) (drop (fed + l) deltas)) c) (apply_runs runs deltas (fed + l))"
    using Cons.prems by (intro Cons.IH) (simp_all add: x)
  have hd: "adds w (\<lambda>c. col_sum (zip [s..<s + l] ?src) c) (add_scaled s ?src)"
    using adds_add_scaled [of s ?src w] l(2) src(2) by (simp add: col_sum_zip_upt)
  have zip: "zip (run_cols (x # runs)) (drop fed deltas) =
      zip [s..<s + l] ?src @ zip (run_cols runs) (drop (fed + l) deltas)"
    using Cons.prems(2) by (simp add: x zip_append1 add.commute)
  show ?case
    unfolding adds_def
  proof (intro allI impI)
    fix aik and row :: "u32 list" assume row: "length row = w"
    obtain r1 where r1: "add_scaled s ?src aik row = Some r1" "length r1 = w"
      "\<And>c. c < w \<Longrightarrow> r1 ! c = row ! c + aik * col_sum (zip [s..<s + l] ?src) c"
      using addsD [OF hd row] by blast
    obtain r2 where r2: "apply_runs runs deltas (fed + l) aik r1 = Some r2" "length r2 = w"
      "\<And>c. c < w \<Longrightarrow> r2 ! c = r1 ! c + aik * col_sum (zip (run_cols runs) (drop (fed + l) deltas)) c"
      using addsD [OF tl r1(2)] by blast
    have "apply_runs (x # runs) deltas fed aik row = Some r2" using src(1) r1(1) r2(1) by (simp add: x)
    moreover have "r2 ! c = row ! c + aik * col_sum (zip (run_cols (x # runs)) (drop fed deltas)) c" if "c < w" for c
      unfolding zip using r1(3) [OF that] r2(3) [OF that] by (simp add: distrib_left add.assoc)
    ultimately show "\<exists>row'. apply_runs (x # runs) deltas fed aik row = Some row' \<and> length row' = w \<and>
      (\<forall>c < w. row' ! c = row ! c + aik * col_sum (zip (run_cols (x # runs)) (drop fed deltas)) c)"
      using r2(2) by blast
  qed
qed

text \<open>Coalescing keeps the edits: each column the same sum, each run non-empty.\<close>

definition runs_ok :: "nat option \<Rightarrow> u32 list \<Rightarrow> (nat \<times> nat) list \<Rightarrow> bool" where
  "runs_ok last_col deltas runs \<longleftrightarrow> length deltas = length (run_cols runs) \<and> (\<forall>x \<in> set runs. 0 < snd x) \<and>
     (case last_col of None \<Rightarrow> runs = []
      | Some p \<Rightarrow> \<exists>rs s l. runs = rs @ [(s, l)] \<and> p + 1 = s + l)"

lemma coalesce_spec:
  assumes "runs_ok last_col deltas runs"
  obtains tr where "coalesce xs last_col deltas runs = Some tr"
    "length (tr_deltas tr) = length (run_cols (tr_runs tr))" "\<forall>x \<in> set (tr_runs tr). 0 < snd x"
    "set (run_cols (tr_runs tr)) = set (run_cols runs) \<union> fst ` set xs"
    "\<And>c. col_sum (zip (run_cols (tr_runs tr)) (tr_deltas tr)) c = col_sum (zip (run_cols runs) deltas) c + col_sum xs c"
proof -
  have "\<exists>tr. coalesce xs last_col deltas runs = Some tr \<and>
    length (tr_deltas tr) = length (run_cols (tr_runs tr)) \<and> (\<forall>x \<in> set (tr_runs tr). 0 < snd x) \<and>
    set (run_cols (tr_runs tr)) = set (run_cols runs) \<union> fst ` set xs \<and>
    (\<forall>c. col_sum (zip (run_cols (tr_runs tr)) (tr_deltas tr)) c = col_sum (zip (run_cols runs) deltas) c + col_sum xs c)"
    using assms
  proof (induction xs last_col deltas runs rule: coalesce.induct)
    case (1 last_col deltas runs)
    then show ?case by (simp add: runs_ok_def)
  next
    case (2 col delta xs deltas runs)
    have "runs_ok (Some col) (deltas @ [delta]) (runs @ [(col, 1)])" using 2(2) by (auto simp: runs_ok_def)
    moreover have "length deltas = length (run_cols runs)" using 2(2) by (simp add: runs_ok_def)
    ultimately show ?case using 2(1) by (auto simp: add.assoc)
  next
    case (3 col delta xs prev deltas runs)
    obtain rs s l where runs: "runs = rs @ [(s, l)]" "prev + 1 = s + l" and l: "0 < l"
      and len: "length deltas = length (run_cols runs)" and pos: "\<forall>x \<in> set runs. 0 < snd x"
      using 3(4) by (auto simp: runs_ok_def)
    have cols: "run_cols runs = (run_cols rs @ [s..<prev]) @ [prev]"
      using runs l by (cases l) (auto simp: upt_Suc_append)
    then obtain ds d where ds: "deltas = ds @ [d]" "length ds = length (run_cols rs @ [s..<prev])"
      using len by (cases deltas rule: rev_exhaust) auto
    consider "prev = col" | "prev + 1 = col" "prev \<noteq> col" | "prev \<noteq> col" "prev + 1 \<noteq> col" by blast
    then show ?case
    proof cases
      case 1
      have sum: "col_sum (zip (run_cols runs) (ds @ [d'])) c =
          col_sum (zip (run_cols rs @ [s..<prev]) ds) c + (if prev = c then d' else 0)" for d' c
        unfolding cols using ds(2) by (simp del: append_assoc)
      have "runs_ok (Some prev) (ds @ [d + delta]) runs"
        using 3(4) ds by (simp add: runs_ok_def)
      moreover have "upd_last (\<lambda>d. d + delta) deltas = Some (ds @ [d + delta])"
        by (simp add: upd_last_def ds(1))
      ultimately obtain tr where tr: "coalesce xs (Some prev) (ds @ [d + delta]) runs = Some tr"
        "length (tr_deltas tr) = length (run_cols (tr_runs tr))" "\<forall>x \<in> set (tr_runs tr). 0 < snd x"
        "set (run_cols (tr_runs tr)) = set (run_cols runs) \<union> fst ` set xs"
        "\<forall>c. col_sum (zip (run_cols (tr_runs tr)) (tr_deltas tr)) c =
          col_sum (zip (run_cols runs) (ds @ [d + delta])) c + col_sum xs c"
        using 3(1) [OF 1] by blast
      have "prev \<in> set (run_cols runs)" by (simp add: cols)
      then show ?thesis
        using tr 1 \<open>upd_last (\<lambda>d. d + delta) deltas = _\<close> by (auto simp: sum ds(1) add.assoc)
    next
      case 2
      have c2: "run_cols (rs @ [(s, Suc l)]) = run_cols runs @ [col]" using runs 2(1) by simp
      have "runs_ok (Some col) (deltas @ [delta]) (rs @ [(s, Suc l)])"
        using pos len runs 2(1) unfolding runs_ok_def c2 by auto
      moreover have upd: "upd_last (\<lambda>(s, l). (s, l + 1)) runs = Some (rs @ [(s, Suc l)])"
        by (simp add: upd_last_def runs(1))
      ultimately obtain tr where tr: "coalesce xs (Some col) (deltas @ [delta]) (rs @ [(s, Suc l)]) = Some tr"
        "length (tr_deltas tr) = length (run_cols (tr_runs tr))" "\<forall>x \<in> set (tr_runs tr). 0 < snd x"
        "set (run_cols (tr_runs tr)) = set (run_cols (rs @ [(s, Suc l)])) \<union> fst ` set xs"
        "\<forall>c. col_sum (zip (run_cols (tr_runs tr)) (tr_deltas tr)) c =
          col_sum (zip (run_cols (rs @ [(s, Suc l)])) (deltas @ [delta])) c + col_sum xs c"
        using 3(2) [OF 2(2) 2(1)] by blast
      have sum: "col_sum (zip (run_cols (rs @ [(s, Suc l)])) (deltas @ [delta])) c =
          col_sum (zip (run_cols runs) deltas) c + (if col = c then delta else 0)" for c
        unfolding c2 using len by simp
      have "coalesce ((col, delta) # xs) (Some prev) deltas runs = Some tr"
        using 2 tr(1) upd by simp
      moreover have "set (run_cols (tr_runs tr)) = set (run_cols runs) \<union> fst ` set ((col, delta) # xs)"
        unfolding tr(4) c2 by auto
      moreover have "\<forall>c. col_sum (zip (run_cols (tr_runs tr)) (tr_deltas tr)) c =
          col_sum (zip (run_cols runs) deltas) c + col_sum ((col, delta) # xs) c"
        using tr(5) unfolding sum by (simp add: add.assoc)
      ultimately show ?thesis using tr(2,3) by blast
    next
      case 3
      have c3: "run_cols (runs @ [(col, 1)]) = run_cols runs @ [col]" by simp
      have "runs_ok (Some col) (deltas @ [delta]) (runs @ [(col, 1)])"
        using pos len by (simp add: runs_ok_def)
      then show ?thesis using "3.IH"(3) [OF 3] 3 len by (auto simp: add.assoc)
    qed
  qed
  then show ?thesis using that by blast
qed

text \<open>\<open>rebuild\<close> keeps the net word delta of every column.\<close>

lemma tr_rebuild_spec:
  assumes "\<And>off d. (off, d) \<in> set cells \<Longrightarrow> d \<noteq> 0 \<Longrightarrow> \<exists>col < w. column_of off = Some col"
  obtains tr where "tr_rebuild cells column_of = Some tr"
    "adds w (\<lambda>c. \<Sum>(off, d) \<leftarrow> cells. if column_of off = Some c then word_of_int d else 0)
       (apply_runs (tr_runs tr) (tr_deltas tr) 0)"
    "tr_runs tr = [] \<Longrightarrow> \<forall>c < w. (\<Sum>(off, d) \<leftarrow> cells. if column_of off = Some c then word_of_int d else (0 :: u32)) = 0"
proof -
  let ?nz = "filter (\<lambda>(_, delta). delta \<noteq> 0) cells"
  let ?scratch = "map (\<lambda>(off, d). (the (column_of off), word_of_int d :: u32)) ?nz"
  have those: "those (map (\<lambda>(off, delta). map_option (\<lambda>col. (col, word_of_int delta)) (column_of off)) ?nz) = Some ?scratch"
    using assms by (force simp: those_eq_Some_iff dest: nth_mem)
  have sums: "col_sum ?scratch c = (\<Sum>(off, d) \<leftarrow> cells. if column_of off = Some c then word_of_int d else 0)" for c
    using assms
  proof (induction cells)
    case (Cons x xs)
    obtain off d where x: "x = (off, d)" by (cases x)
    show ?case
    proof (cases "d = 0")
      case False
      then obtain col where "column_of off = Some col" using Cons.prems [of off d] x by auto
      moreover have "col_sum (map (\<lambda>(off, d). (the (column_of off), word_of_int d :: u32)) (filter (\<lambda>(_, delta). delta \<noteq> 0) xs)) c =
          (\<Sum>(off, d) \<leftarrow> xs. if column_of off = Some c then word_of_int d else 0)"
        by (rule Cons.IH) (rule Cons.prems, simp_all)
      ultimately show ?thesis using False by (simp add: x)
    next
      case True
      have "col_sum (map (\<lambda>(off, d). (the (column_of off), word_of_int d :: u32)) (filter (\<lambda>(_, delta). delta \<noteq> 0) xs)) c =
          (\<Sum>(off, d) \<leftarrow> xs. if column_of off = Some c then word_of_int d else 0)"
        by (rule Cons.IH) (rule Cons.prems, simp_all)
      then show ?thesis using True by (simp add: x)
    qed
  qed simp
  have start: "runs_ok None [] []" by (simp add: runs_ok_def)
  obtain tr where tr: "coalesce (sort_key fst ?scratch) None [] [] = Some tr"
    "length (tr_deltas tr) = length (run_cols (tr_runs tr))" "\<forall>x \<in> set (tr_runs tr). 0 < snd x"
    "set (run_cols (tr_runs tr)) = set (run_cols []) \<union> fst ` set (sort_key fst ?scratch)"
    "\<And>c. col_sum (zip (run_cols (tr_runs tr)) (tr_deltas tr)) c = col_sum (zip (run_cols []) []) c + col_sum (sort_key fst ?scratch) c"
    using coalesce_spec [OF start, where xs = "sort_key fst ?scratch"] by blast
  have total: "col_sum (zip (run_cols (tr_runs tr)) (tr_deltas tr)) c =
      (\<Sum>(off, d) \<leftarrow> cells. if column_of off = Some c then word_of_int d else 0)" for c
    using tr(5) [of c] col_sum_mset [of "sort_key fst ?scratch" ?scratch c] sums by simp
  have "\<forall>c \<in> set (run_cols (tr_runs tr)). c < w" using assms unfolding tr(4) by fastforce
  then have "adds w (\<lambda>c. col_sum (zip (run_cols (tr_runs tr)) (drop 0 (tr_deltas tr))) c) (apply_runs (tr_runs tr) (tr_deltas tr) 0)"
    using tr(2,3) by (intro apply_runs_adds) simp_all
  then have adds: "adds w (\<lambda>c. \<Sum>(off, d) \<leftarrow> cells. if column_of off = Some c then word_of_int d else 0)
       (apply_runs (tr_runs tr) (tr_deltas tr) 0)" by (simp only: drop_0 total)
  have zero: "\<forall>c < w. (\<Sum>(off, d) \<leftarrow> cells. if column_of off = Some c then word_of_int d else (0 :: u32)) = 0" if "tr_runs tr = []"
    using total that by (simp flip: total)
  have "tr_rebuild cells column_of = Some tr" unfolding tr_rebuild_def those using tr(1) by simp
  then show ?thesis using adds zero by (rule that)
qed

end
