(* ===== verification/Lwe.thy ===== *)
theory Lwe
  imports Hint_Matrix
begin

text \<open>
  The LWE arithmetic both back ends are built from: the scaling between \<open>Z\<^sub>p\<close> and \<open>Z\<^sub>q\<close>
  (\<open>arith.rs\<close>), the public matrix \<open>A\<close> expanded from a seed (\<open>sampler.rs\<close>), a query slot
  \<open>(s, b = A s + e, c = s\<^sup>T H)\<close> and the decoding of \<open>residual = b\<^sup>T D - s\<^sup>T H\<close>. The main fact is that the
  residual is \<open>\<Delta> D[row] + e\<^sup>T D\<close>, and rounds to \<open>D[row]\<close> when the noise is below \<open>\<Delta> / 2\<close>.
\<close>

section \<open>Scaling\<close>

text \<open>Both functions assert their ranges in debug builds.\<close>

definition round_p_to_q :: "u32 \<Rightarrow> nat \<Rightarrow> u32 option" where
  "round_p_to_q x plaintext_bits =
     do {
       assert_opt (1 \<le> plaintext_bits \<and> plaintext_bits \<le> 31);
       assert_opt (x < push_bit plaintext_bits 1);
       Some (push_bit (32 - plaintext_bits) x)
     }"

definition round_q_to_p :: "u32 \<Rightarrow> nat \<Rightarrow> u32 option" where
  "round_q_to_p y plaintext_bits =
     do {
       assert_opt (1 \<le> plaintext_bits \<and> plaintext_bits \<le> 31);
       let shift = 32 - plaintext_bits;
       Some (drop_bit shift (y + push_bit (shift - 1) 1))
     }"

lemma uint_drop_bit: "uint (drop_bit n w) = drop_bit n (uint w)"
  by (rule bit_eqI) (simp add: bit_unsigned_iff bit_drop_bit_eq)

lemma uint_fits: "fits pb (d :: u32) \<Longrightarrow> pb < 32 \<Longrightarrow> uint d < 2 ^ pb"
proof -
  assume "fits pb d" "pb < 32"
  then have "unat d < 2 ^ pb" by (simp add: fits_less)
  then have "int (unat d) < 2 ^ pb" by (metis of_nat_less_iff of_nat_numeral of_nat_power)
  then show ?thesis by simp
qed

lemma round_p_to_q_1:
  assumes "1 \<le> pb" "pb \<le> 31"
  shows "round_p_to_q 1 pb = Some (word_of_int (2 ^ (32 - pb)))"
proof -
  have "(2::nat) ^ pb < 2 ^ 32" using assms(2) by (intro power_strict_increasing) simp_all
  moreover have "push_bit pb (1 :: u32) = of_nat (2 ^ pb)" by (simp add: push_bit_eq_mult)
  ultimately have "unat (push_bit pb 1 :: u32) = 2 ^ pb" by (simp only: unat_of_nat) simp
  moreover have "(1::nat) < 2 ^ pb" using assms(1) by (intro one_less_power) simp_all
  ultimately have "(1::u32) < push_bit pb 1" by (simp add: word_less_nat_alt)
  moreover have "push_bit (32 - pb) (1::u32) = word_of_int (2 ^ (32 - pb))"
    by (simp add: push_bit_eq_mult)
  ultimately show ?thesis using assms by (simp add: round_p_to_q_def)
qed

text \<open>Rounding recovers \<open>d\<close> from \<open>\<Delta> d + noise\<close> when \<open>- \<Delta> / 2 \<le> noise < \<Delta> / 2\<close>.\<close>

lemma round_q_to_p_noise:
  assumes pb: "1 \<le> pb" "pb \<le> 31" and d: "fits pb d"
    and noise: "- (2 ^ (31 - pb)) \<le> e" "e < 2 ^ (31 - pb)"
  shows "round_q_to_p (word_of_int (2 ^ (32 - pb)) * d + word_of_int e) pb = Some d"
proof -
  define \<Delta> :: int where "\<Delta> = 2 ^ (32 - pb)"
  define half :: int where "half = 2 ^ (31 - pb)"
  have shift: "32 - pb = Suc (31 - pb)" using pb by linarith
  have half: "\<Delta> = 2 * half" "0 < half" unfolding \<Delta>_def half_def shift by simp_all
  have D: "\<Delta> * 2 ^ pb = 2 ^ 32" unfolding \<Delta>_def using pb by (simp flip: power_add)
  have d': "0 \<le> uint d" "uint d < 2 ^ pb" using uint_fits [OF d] pb by simp_all
  let ?v = "\<Delta> * uint d + (e + half)"
  have r: "0 \<le> e + half" "e + half < \<Delta>" using noise half by (simp_all add: half_def)
  have "\<Delta> * uint d + \<Delta> \<le> \<Delta> * 2 ^ pb"
    using mult_left_mono [of "uint d + 1" "2 ^ pb" \<Delta>] d' half by (simp add: distrib_left)
  then have v: "0 \<le> ?v" "?v < 2 ^ 32" using r d' half D by simp_all
  have word: "word_of_int \<Delta> * d + word_of_int e + push_bit (31 - pb) 1 = (word_of_int ?v :: u32)"
  proof -
    have "push_bit (31 - pb) (1 :: u32) = word_of_int half" by (simp add: half_def push_bit_eq_mult)
    then show ?thesis by (simp only: wi_hom_add [symmetric] wi_hom_mult [symmetric] word_of_int_uint add.assoc)
  qed
  have "uint (word_of_int ?v :: u32) = ?v" 
    unfolding uint_word_of_int using v by (intro mod_pos_pos_trivial) simp_all
  then have "uint (drop_bit (32 - pb) (word_of_int ?v :: u32)) = ?v div \<Delta>"
    unfolding uint_drop_bit by (simp only: drop_bit_eq_div \<Delta>_def)
  also have "\<dots> = uint d" using r by (simp add: div_mult_self2 [of \<Delta>] half)
  finally have "drop_bit (32 - pb) (word_of_int ?v :: u32) = d" by (rule word_uint_eqI)
  moreover have "32 - pb - 1 = 31 - pb" by simp
  then have "round_q_to_p (word_of_int \<Delta> * d + word_of_int e) pb =
      Some (drop_bit (32 - pb) (word_of_int \<Delta> * d + word_of_int e + push_bit (31 - pb) 1))"
    unfolding round_q_to_p_def Let_def using pb by (simp only: assert_opt_bind simp_thms)
  ultimately show ?thesis unfolding \<Delta>_def [symmetric] by (simp only: word)
qed

section \<open>The public matrix\<close>

text \<open>
  \<open>rng_from_seed\<close> zero-pads the seed to 32 bytes. The ChaCha20 generator is third-party code:
  \<open>chacha key i\<close> is its \<open>i\<close>-th 32-bit output word, which \<open>next_u32\<close> reads in order and
  \<open>set_word_pos\<close> seeks to.
\<close>

definition rng_from_seed :: "(u8 list \<Rightarrow> nat \<Rightarrow> u32) \<Rightarrow> u8 list \<Rightarrow> nat \<Rightarrow> u32" where
  "rng_from_seed chacha seed = chacha (seed @ replicate 16 0)"

definition sample_a :: "(u8 list \<Rightarrow> nat \<Rightarrow> u32) \<Rightarrow> u8 list \<Rightarrow> nat \<Rightarrow> nat \<Rightarrow> u32 list option" where
  "sample_a chacha seed n_rows lwe_dim =
     do {
       assert_opt (n_rows * lwe_dim < 2 ^ 64);
       Some (map (rng_from_seed chacha seed) [0..<n_rows * lwe_dim])
     }"

section \<open>Query slots\<close>

record prepared_slot =
  ps_secret :: "u32 list"
  ps_b :: "u32 list"
  ps_c :: "u32 list option"

text \<open>The loop computing \<open>b = A s + e\<close> of \<open>sample_slot\<close>.\<close>

definition lwe_samples :: "u32 list \<Rightarrow> nat \<Rightarrow> u32 list \<Rightarrow> u32 list \<Rightarrow> u32 list option" where
  "lwe_samples a lwe_dim secret e =
     build_opt (length e) (\<lambda>i. fold_opt (\<lambda>k acc. do {
       aik \<leftarrow> nth_opt a (i * lwe_dim + k);
       sk \<leftarrow> nth_opt secret k;
       Some (acc + aik * sk)
     }) [0..<lwe_dim] (e ! i))"

definition compute_c :: "bool \<Rightarrow> u32 list \<Rightarrow> u32 list \<Rightarrow> nat \<Rightarrow> nat \<Rightarrow> u32 list option" where
  "compute_c x86 secret hint lwe_dim row_width =
     do {
       assert_opt (length secret = lwe_dim);
       assert_opt (length hint = lwe_dim * row_width);
       matvec_accumulate x86 (replicate row_width 0) hint secret
     }"

text \<open>\<open>residual = response - s\<^sup>T H\<close>, from the precomputed \<open>c\<close> or with the negated secret.\<close>

definition slot_residual :: "bool \<Rightarrow> u32 list \<Rightarrow> prepared_slot \<Rightarrow> u32 list \<Rightarrow> u32 list option" where
  "slot_residual x86 hint slot resp =
     (case ps_c slot of
        Some c \<Rightarrow> do {
          assert_opt (length c = length resp);
          Some (map2 (-) resp c)
        }
      | None \<Rightarrow> matvec_accumulate x86 resp hint (map uminus (ps_secret slot)))"

definition round_cells :: "u32 list \<Rightarrow> nat \<Rightarrow> u32 list option" where
  "round_cells residual plaintext_bits = those (map (\<lambda>y. round_q_to_p y plaintext_bits) residual)"

text \<open>
  A slot that can be used against the matrix \<open>a\<close> and the hint \<open>h\<close>: \<open>b = A s + e\<close> with errors of
  absolute value at most \<open>B\<close>, and \<open>c\<close> absent or equal to \<open>s\<^sup>T H\<close>.
\<close>

definition lwe_slot :: "nat \<Rightarrow> nat \<Rightarrow> nat \<Rightarrow> u32 list \<Rightarrow> (nat \<Rightarrow> int) \<Rightarrow> prepared_slot \<Rightarrow> bool" where
  "lwe_slot n lwe_dim B a e slot \<longleftrightarrow> length (ps_secret slot) = lwe_dim \<and> length (ps_b slot) = n \<and>
     (\<forall>i < n. \<bar>e i\<bar> \<le> int B \<and>
       ps_b slot ! i = word_of_int (e i) + (\<Sum>k<lwe_dim. mcell lwe_dim a i k * ps_secret slot ! k))"

definition c_current :: "nat \<Rightarrow> u32 list \<Rightarrow> prepared_slot \<Rightarrow> bool" where
  "c_current w h slot \<longleftrightarrow> (case ps_c slot of None \<Rightarrow> True
     | Some c \<Rightarrow> length c = w \<and> (\<forall>j < w. c ! j = vecmat (ps_secret slot) w h j))"

definition slot_ok :: "nat \<Rightarrow> nat \<Rightarrow> nat \<Rightarrow> nat \<Rightarrow> u32 list \<Rightarrow> u32 list \<Rightarrow> prepared_slot \<Rightarrow> bool" where
  "slot_ok n lwe_dim w B a h slot \<longleftrightarrow> (\<exists>e. lwe_slot n lwe_dim B a e slot) \<and> c_current w h slot"

lemma sample_a_length: "sample_a chacha seed n l = Some a \<Longrightarrow> length a = n * l"
  by (auto simp: sample_a_def bind_eq_Some_conv)

lemma lwe_samples_total:
  assumes "length a = n * lwe" "length secret = lwe" "length e = n"
  obtains b where "lwe_samples a lwe secret e = Some b" "length b = n"
    "\<And>i. i < n \<Longrightarrow> b ! i = e ! i + (\<Sum>k<lwe. mcell lwe a i k * secret ! k)"
proof -
  have row: "fold_opt (\<lambda>k acc. do { aik \<leftarrow> nth_opt a (i * lwe + k); sk \<leftarrow> nth_opt secret k; Some (acc + aik * sk) })
      [0..<m] x = Some (x + (\<Sum>k<m. mcell lwe a i k * secret ! k))" if "i < n" "m \<le> lwe" for i m x
    using that(2)
  proof (induction m)
    case (Suc m)
    have "i * lwe + m < length a" unfolding assms(1) using that(1) Suc.prems by (intro mult_add_less) simp_all
    then show ?case using Suc assms(2) by (simp add: fold_opt_append mcell_def add.assoc)
  qed simp
  have "lwe_samples a lwe secret e = Some (map (\<lambda>i. e ! i + (\<Sum>k<lwe. mcell lwe a i k * secret ! k)) [0..<n])"
    unfolding lwe_samples_def assms(3) using row by (intro build_opt_Some) simp
  then show ?thesis using that by simp
qed

lemma compute_c_total:
  assumes "length secret = lwe" "length h = lwe * w"
  obtains c where "compute_c x86 secret h lwe w = Some c" "length c = w" "\<forall>j < w. c ! j = vecmat secret w h j"
proof -
  obtain c where "matvec_accumulate x86 (replicate w 0) h secret = Some c" "length c = w"
    "\<forall>j < w. c ! j = vecmat secret w h j"
    using matvec_total [of h secret "replicate w 0" x86] assms by auto
  then show ?thesis using that assms by (simp add: compute_c_def)
qed

lemma vecmat_minus: "vecmat (map uminus s) w h j = - vecmat s w h j"
  by (simp add: vecmat_def sum_negf)

lemma slot_residual_total:
  assumes "c_current w h slot" "length (ps_secret slot) = lwe" "length h = lwe * w" "length resp = w"
  obtains r where "slot_residual x86 h slot resp = Some r" "length r = w"
    "\<And>j. j < w \<Longrightarrow> r ! j = resp ! j - vecmat (ps_secret slot) w h j"
proof (cases "ps_c slot")
  case None
  obtain r where "matvec_accumulate x86 resp h (map uminus (ps_secret slot)) = Some r" "length r = w"
    "\<And>j. j < w \<Longrightarrow> r ! j = resp ! j + vecmat (map uminus (ps_secret slot)) w h j"
    using matvec_total [of h "map uminus (ps_secret slot)" resp x86] assms by auto
  then show ?thesis using that None by (simp add: slot_residual_def vecmat_minus)
next
  case (Some c)
  then show ?thesis
    using assms by (intro that [of "map2 (-) resp c"]) (simp_all add: slot_residual_def c_current_def)
qed

section \<open>Decoding\<close>

text \<open>The noise \<open>e\<^sup>T D\<close> in column \<open>j\<close>, as an integer.\<close>

definition noise :: "nat \<Rightarrow> (nat \<Rightarrow> int) \<Rightarrow> (nat \<Rightarrow> nat \<Rightarrow> u32) \<Rightarrow> nat \<Rightarrow> int" where
  "noise n e D j = (\<Sum>i<n. e i * uint (D i j))"

lemma residual_eq:
  assumes slot: "lwe_slot n lwe B a e slot" and hint: "hint_of n lwe w a D h"
    and q: "\<And>i. i < n \<Longrightarrow> q ! i = ps_b slot ! i + (if i = row then \<Delta> else 0)" and "row < n" "j < w"
  shows "(\<Sum>i<n. q ! i * D i j) - vecmat (ps_secret slot) w h j = \<Delta> * D row j + word_of_int (noise n e D j)"
proof -
  let ?s = "ps_secret slot"
  have len: "length ?s = lwe" using slot by (simp add: lwe_slot_def)
  have "(\<Sum>i<n. q ! i * D i j) = (\<Sum>i<n. word_of_int (e i) * D i j + (\<Sum>k<lwe. ?s ! k * (mcell lwe a i k * D i j)) +
      (if i = row then \<Delta> * D i j else 0))"
  proof (rule sum.cong)
    fix i assume i: "i \<in> {..<n}"
    have b: "ps_b slot ! i = word_of_int (e i) + (\<Sum>k<lwe. mcell lwe a i k * ?s ! k)"
      using slot i by (simp add: lwe_slot_def)
    have swap: "(\<Sum>k<lwe. mcell lwe a i k * ?s ! k) * D i j = (\<Sum>k<lwe. ?s ! k * (mcell lwe a i k * D i j))"
      unfolding sum_distrib_right by (intro sum.cong) (simp_all add: ac_simps)
    show "q ! i * D i j = word_of_int (e i) * D i j + (\<Sum>k<lwe. ?s ! k * (mcell lwe a i k * D i j)) +
      (if i = row then \<Delta> * D i j else 0)"
      using q [of i] i by (simp add: b distrib_right swap)
  qed simp
  also have "\<dots> = (\<Sum>i<n. word_of_int (e i) * D i j) + (\<Sum>i<n. \<Sum>k<lwe. ?s ! k * (mcell lwe a i k * D i j)) +
      (\<Sum>i<n. if i = row then \<Delta> * D i j else 0)"
    by (simp only: sum.distrib)
  also have "(\<Sum>i<n. if i = row then \<Delta> * D i j else 0) = \<Delta> * D row j"
    using assms(4) by (simp add: sum.delta)
  also have "(\<Sum>i<n. \<Sum>k<lwe. ?s ! k * (mcell lwe a i k * D i j)) = vecmat ?s w h j"
  proof -
    have "(\<Sum>i<n. \<Sum>k<lwe. ?s ! k * (mcell lwe a i k * D i j)) = (\<Sum>k<lwe. ?s ! k * (\<Sum>i<n. mcell lwe a i k * D i j))"
      unfolding sum_distrib_left by (rule sum.swap)
    also have "\<dots> = (\<Sum>k<lwe. ?s ! k * mcell w h k j)"
      using hint_ofD(3) [OF hint] assms(5) by simp
    finally show ?thesis by (simp add: vecmat_def len)
  qed
  also have "(\<Sum>i<n. word_of_int (e i) * D i j) = word_of_int (noise n e D j)"
  proof -
    have "word_of_int (noise n e D j) = (\<Sum>i<n. word_of_int (e i * uint (D i j)) :: u32)"
      unfolding noise_def by (induction n) (simp_all flip: wi_hom_add)
    also have "\<dots> = (\<Sum>i<n. word_of_int (e i) * D i j)"
      by (intro sum.cong) (simp_all flip: wi_hom_mult)
    finally show ?thesis by simp
  qed
  finally show ?thesis by simp
qed

text \<open>With errors of size at most \<open>B\<close> and cells below \<open>2 ^ pb\<close> the noise is at most \<open>n B (2 ^ pb - 1)\<close>.\<close>

definition noise_ok :: "nat \<Rightarrow> nat \<Rightarrow> nat \<Rightarrow> bool" where
  "noise_ok n B pb \<longleftrightarrow> n * (B * (2 ^ pb - 1)) < 2 ^ (31 - pb)"

lemma noise_bound:
  assumes "\<And>i. i < n \<Longrightarrow> \<bar>e i\<bar> \<le> int B" "\<And>i. i < n \<Longrightarrow> fits pb (D i j)" "pb < 32"
  shows "\<bar>noise n e D j\<bar> \<le> int (n * (B * (2 ^ pb - 1)))"
proof -
  have "\<bar>noise n e D j\<bar> \<le> (\<Sum>i<n. \<bar>e i * uint (D i j)\<bar>)"
    unfolding noise_def by (rule sum_abs)
  also have "\<dots> \<le> (\<Sum>i<n. int (B * (2 ^ pb - 1)))"
  proof (rule sum_mono)
    fix i assume "i \<in> {..<n}"
    then have e: "\<bar>e i\<bar> \<le> int B" and "fits pb (D i j)" using assms by simp_all
    then have "uint (D i j) \<le> int (2 ^ pb - 1)" using uint_fits assms(3) by (simp add: of_nat_diff)
    then show "\<bar>e i * uint (D i j)\<bar> \<le> int (B * (2 ^ pb - 1))"
      using e unfolding abs_mult by (simp only: of_nat_mult) (intro mult_mono, simp_all)
  qed
  also have "\<dots> = int (n * (B * (2 ^ pb - 1)))" by simp
  finally show ?thesis .
qed

theorem lwe_decode:
  assumes slot: "lwe_slot n lwe B a e slot" and c: "c_current w h slot"
    and hint: "hint_of n lwe w a D h"
    and q: "\<And>i. i < n \<Longrightarrow> q ! i = ps_b slot ! i + (if i = row then word_of_int (2 ^ (32 - pb)) else 0)"
    and resp: "length resp = w" "\<And>j. j < w \<Longrightarrow> resp ! j = (\<Sum>i<n. q ! i * D i j)"
    and "row < n" "1 \<le> pb" "pb \<le> 31"
    and cells: "\<And>j. j < w \<Longrightarrow> fits pb (D row j)"
    and small: "\<And>j. j < w \<Longrightarrow> \<bar>noise n e D j\<bar> < 2 ^ (31 - pb)"
  obtains r where "slot_residual x86 h slot resp = Some r" "round_cells r pb = Some (map (D row) [0..<w])"
proof -
  have len: "length (ps_secret slot) = lwe" using slot by (simp add: lwe_slot_def)
  obtain r where r: "slot_residual x86 h slot resp = Some r" "length r = w"
    "\<And>j. j < w \<Longrightarrow> r ! j = resp ! j - vecmat (ps_secret slot) w h j"
    using slot_residual_total [OF c len hint_ofD(2) [OF hint] resp(1)] by blast
  have "round_q_to_p (r ! j) pb = Some (D row j)" if j: "j < w" for j
  proof -
    have "r ! j = word_of_int (2 ^ (32 - pb)) * D row j + word_of_int (noise n e D j)"
      using r(3) [OF j] resp(2) [OF j] residual_eq [OF slot hint q assms(7) j] by simp
    moreover have "- (2 ^ (31 - pb)) \<le> noise n e D j" "noise n e D j < 2 ^ (31 - pb)"
      using small [OF j] by simp_all
    ultimately show ?thesis using round_q_to_p_noise [OF assms(8,9) cells [OF j]] by simp
  qed
  then have "round_cells r pb = Some (map (D row) [0..<w])"
    unfolding round_cells_def those_eq_Some_iff using r(2) by simp
  then show ?thesis using that r(1) by blast
qed

section \<open>Keeping the precomputed decode material in step\<close>

text \<open>\<open>patch_slot_c\<close>: \<open>dot = secret . a_row\<close> is computed once per edited row.\<close>

definition dot :: "u32 list \<Rightarrow> u32 list \<Rightarrow> u32" where
  "dot secret a_row = fold (\<lambda>(s, ai) acc. acc + s * ai) (zip secret a_row) 0"

definition patch_c_cells :: "u32 \<Rightarrow> cell_deltas \<Rightarrow> u32 list \<Rightarrow> u32 list option" where
  "patch_c_cells d cells c =
     fold_opt (\<lambda>(off, delta) c.
       if delta = 0 then Some c
       else do { x \<leftarrow> nth_opt c off; upd_opt c off (x + d * word_of_int delta) }) cells c"

definition patch_slot_c :: "u32 list \<Rightarrow> nat \<Rightarrow> nat \<Rightarrow> row_deltas \<Rightarrow> prepared_slot \<Rightarrow> prepared_slot option" where
  "patch_slot_c a lwe_dim w rd slot =
     (case ps_c slot of
        None \<Rightarrow> Some slot
      | Some c \<Rightarrow> do {
          assert_opt (length c = w);
          assert_opt (length (ps_secret slot) = lwe_dim);
          c' \<leftarrow> fold_opt (\<lambda>(row, cells) c. do {
              a_row \<leftarrow> slice_opt a (row * lwe_dim) lwe_dim;
              patch_c_cells (dot (ps_secret slot) a_row) cells c
            }) rd c;
          Some (slot\<lparr> ps_c := Some c' \<rparr>)
        })"

lemma dot_eq: "length a_row = length s \<Longrightarrow> dot s a_row = (\<Sum>k<length s. s ! k * a_row ! k)"
proof -
  assume len: "length a_row = length s"
  have "zip s a_row = map (\<lambda>k. (s ! k, a_row ! k)) [0..<length s]"
    using len by (intro nth_equalityI) simp_all
  then have "dot s a_row = fold (\<lambda>k acc. acc + s ! k * a_row ! k) [0..<length s] 0"
    by (simp add: dot_def fold_map comp_def)
  then show ?thesis using fold_add_sum [of "\<lambda>k. s ! k * a_row ! k" "length s" 0] by simp
qed

lemma patch_cells:
  assumes "\<forall>x \<in> set cells. fst x < length c"
  obtains c' where "patch_c_cells d cells c = Some c'"
    "length c' = length c" "\<And>j. j < length c \<Longrightarrow> c' ! j = c ! j + d * word_of_int (cell_delta cells j)"
proof -
  have "\<exists>c'. patch_c_cells d cells c = Some c' \<and>
    length c' = length c \<and> (\<forall>j < length c. c' ! j = c ! j + d * word_of_int (cell_delta cells j))"
    using assms
  proof (induction cells arbitrary: c)
    case (Cons x cells)
    obtain off delta where x: "x = (off, delta)" by (cases x)
    let ?c1 = "if delta = 0 then c else c[off := c ! off + d * word_of_int delta]"
    have len: "length ?c1 = length c" by simp
    obtain c' where c': "patch_c_cells d cells ?c1 = Some c'"
      "length c' = length ?c1" "\<forall>j < length ?c1. c' ! j = ?c1 ! j + d * word_of_int (cell_delta cells j)"
      using Cons.IH [of ?c1] Cons.prems len by auto
    have "c' ! j = c ! j + d * word_of_int (cell_delta (x # cells) j)" if "j < length c" for j
      using c'(3) that len by (auto simp: x nth_list_update wi_hom_add [symmetric] distrib_left ac_simps)
    moreover have "off < length c" using Cons.prems by (simp add: x)
    ultimately show ?case using c'(1,2) by (intro exI [of _ c']) (auto simp: x patch_c_cells_def)
  qed (simp add: patch_c_cells_def)
  then show ?thesis using that by blast
qed

text \<open>The edits change \<open>s\<^sup>T H\<close> by \<open>dot . delta\<close> for every edited row.\<close>

definition c_change :: "nat \<Rightarrow> u32 list \<Rightarrow> u32 list \<Rightarrow> row_deltas \<Rightarrow> nat \<Rightarrow> u32" where
  "c_change lwe_dim a s rd j =
     (\<Sum>(r, cells) \<leftarrow> rd. (\<Sum>k<lwe_dim. s ! k * mcell lwe_dim a r k) * word_of_int (cell_delta cells j))"

lemma patch_slot_c_spec:
  assumes "length a = n * lwe" "edits_ok n w rd" "ps_c slot = Some c" "length c = w" "length (ps_secret slot) = lwe"
  obtains c' where "patch_slot_c a lwe w rd slot = Some (slot\<lparr> ps_c := Some c' \<rparr>)" "length c' = w"
    "\<And>j. j < w \<Longrightarrow> c' ! j = c ! j + c_change lwe a (ps_secret slot) rd j"
proof -
  let ?s = "ps_secret slot"
  define body where "body x c = (case x of (row, cells) \<Rightarrow> do {
      a_row \<leftarrow> slice_opt a (row * lwe) lwe;
      patch_c_cells (dot ?s a_row) cells c })" for x and c :: "u32 list"
  have "\<exists>c'. fold_opt body rd c = Some c' \<and> length c' = w \<and> (\<forall>j < w. c' ! j = c ! j + c_change lwe a ?s rd j)"
    using assms(2,4)
  proof (induction rd arbitrary: c)
    case (Cons x rd)
    obtain r cells where x: "x = (r, cells)" by (cases x)
    have r: "r < n" "\<forall>y \<in> set cells. fst y < length c" "edits_ok n w rd" using Cons.prems by (simp_all add: x)
    obtain a_row where row: "slice_opt a (r * lwe) lwe = Some a_row" "length a_row = lwe"
      "\<forall>k < lwe. a_row ! k = mcell lwe a r k" using slice_row [OF assms(1) r(1)] by blast
    have d: "dot ?s a_row = (\<Sum>k<lwe. ?s ! k * mcell lwe a r k)" using dot_eq [of a_row ?s] row assms(5) by simp
    obtain c1 where c1: "body x c = Some c1" "length c1 = w"
      "\<And>j. j < w \<Longrightarrow> c1 ! j = c ! j + dot ?s a_row * word_of_int (cell_delta cells j)"
    proof -
      obtain c1 where "patch_c_cells (dot ?s a_row) cells c = Some c1" "length c1 = length c"
        "\<And>j. j < length c \<Longrightarrow> c1 ! j = c ! j + dot ?s a_row * word_of_int (cell_delta cells j)"
        using patch_cells [OF r(2), of "dot ?s a_row"] by blast
      then show ?thesis using that [of c1] row(1) Cons.prems(2) by (simp add: body_def x)
    qed
    obtain c' where "fold_opt body rd c1 = Some c'" "length c' = w" "\<forall>j < w. c' ! j = c1 ! j + c_change lwe a ?s rd j"
      using Cons.IH [OF r(3) c1(2)] by blast
    then show ?case using c1 d by (simp add: x c_change_def add.assoc)
  qed (simp add: c_change_def)
  then obtain c' where "fold_opt body rd c = Some c'" "length c' = w" "\<forall>j < w. c' ! j = c ! j + c_change lwe a ?s rd j"
    by blast
  then show ?thesis
    using that [of c'] assms(3-5) unfolding patch_slot_c_def body_def [abs_def] by (simp add: split_def)
qed

lemma vecmat_edited:
  assumes "hint_of n lwe w a D h" "hint_of n lwe w a (edited D rd) h'" "edits_ok n w rd" "length s = lwe" "j < w"
  shows "vecmat s w h' j = vecmat s w h j + c_change lwe a s rd j"
proof -
  have split: "(\<Sum>i<n. mcell lwe a i k * edited D rd i j) =
      (\<Sum>i<n. mcell lwe a i k * D i j) + (\<Sum>(r, cells) \<leftarrow> rd. mcell lwe a r k * word_of_int (cell_delta cells j))" for k
    using assms(3)
  proof (induction rd)
    case Nil
    then show ?case by (simp add: edited_def)
  next
    case (Cons x rd)
    obtain r cells where x: "x = (r, cells)" by (cases x)
    have "(\<Sum>i<n. mcell lwe a i k * edited D (x # rd) i j) =
        (\<Sum>i<n. mcell lwe a i k * edited D rd i j) + (\<Sum>i<n. if i = r then mcell lwe a i k * word_of_int (cell_delta cells j) else 0)"
      unfolding sum.distrib [symmetric]
      by (intro sum.cong) (auto simp: edited_def x wi_hom_add [symmetric] distrib_left ac_simps)
    also have "(\<Sum>i<n. if i = r then mcell lwe a i k * word_of_int (cell_delta cells j) else (0 :: u32)) =
        mcell lwe a r k * word_of_int (cell_delta cells j)"
      using Cons.prems by (simp add: x sum.delta)
    finally show ?case using Cons by (simp add: x ac_simps)
  qed
  have "vecmat s w h' j = (\<Sum>k<lwe. s ! k * (\<Sum>i<n. mcell lwe a i k * D i j)) +
      (\<Sum>k<lwe. s ! k * (\<Sum>(r, cells) \<leftarrow> rd. mcell lwe a r k * word_of_int (cell_delta cells j)))"
    using hint_ofD(3) [OF assms(2)] assms(4,5) by (simp add: vecmat_def split distrib_left sum.distrib)
  also have "(\<Sum>k<lwe. s ! k * (\<Sum>i<n. mcell lwe a i k * D i j)) = vecmat s w h j"
    using hint_ofD(3) [OF assms(1)] assms(4,5) by (simp add: vecmat_def)
  also have "(\<Sum>k<lwe. s ! k * (\<Sum>(r, cells) \<leftarrow> rd. mcell lwe a r k * word_of_int (cell_delta cells j))) = c_change lwe a s rd j"
    unfolding c_change_def
    by (induction rd) (simp_all add: split_def distrib_left sum.distrib sum_distrib_left ac_simps)
  finally show ?thesis .
qed

theorem patch_slot_c_current:
  assumes "hint_of n lwe w a D h" "hint_of n lwe w a (edited D rd) h'" "edits_ok n w rd" "slot_ok n lwe w B a h slot"
  obtains slot' where "patch_slot_c a lwe w rd slot = Some slot'" "slot_ok n lwe w B a h' slot'"
    "ps_b slot' = ps_b slot" "ps_secret slot' = ps_secret slot"
proof -
  have len: "length (ps_secret slot) = lwe" using assms(4) by (auto simp: slot_ok_def lwe_slot_def)
  show ?thesis
  proof (cases "ps_c slot")
    case None
    then show ?thesis using that [of slot] assms(4) by (simp add: patch_slot_c_def slot_ok_def c_current_def)
  next
    case (Some c)
    then have c: "length c = w" "\<And>j. j < w \<Longrightarrow> c ! j = vecmat (ps_secret slot) w h j"
      using assms(4) by (simp_all add: slot_ok_def c_current_def)
    obtain c' where "patch_slot_c a lwe w rd slot = Some (slot\<lparr> ps_c := Some c' \<rparr>)" "length c' = w"
      "\<And>j. j < w \<Longrightarrow> c' ! j = c ! j + c_change lwe a (ps_secret slot) rd j"
      using patch_slot_c_spec [OF hint_ofD(1) [OF assms(1)] assms(3) Some c(1) len] by blast
    then show ?thesis
      using that [of "slot\<lparr> ps_c := Some c' \<rparr>"] assms(4) c(2) vecmat_edited [OF assms(1-3) len]
      by (simp add: slot_ok_def c_current_def lwe_slot_def)
  qed
qed

end
