(* ===== verification/Backend.thy ===== *)
theory Backend
  imports Lwe
begin

text \<open>
  The interface of the pluggable PIR back ends, \<open>ikpir-common/src/backend/mod.rs\<close>. The traits
  \<open>IndexPirBackend\<close>, \<open>IncrementalPirBackend\<close>, \<open>PrecomputingPirBackend\<close> and \<open>ResponseRewind\<close> are one
  record of functions, since server and clients are generic in the back end; each function may
  panic, and those that sample take and return the generator state. The locale \<open>pir_backend\<close>
  states the contract the module documentation asks of an implementation, in terms of predicates
  an instance chooses.
\<close>

datatype hint_patch_mode = RowLevel | EntryLevel

definition default_patch_mode :: hint_patch_mode where
  "default_patch_mode = EntryLevel"

record ('cfg, 'sp, 'mat, 'hint, 'cs, 'q, 'r, 'g) backend =
  be_server_setup :: "'cfg \<Rightarrow> u32 list \<Rightarrow> nat \<Rightarrow> nat \<Rightarrow> nat \<Rightarrow> 'g \<Rightarrow> (('sp \<times> 'mat \<times> 'hint) \<times> 'g) option"
  be_expand_hint_material :: "'sp \<Rightarrow> 'mat option"
  be_client_setup :: "'sp \<Rightarrow> 'hint \<Rightarrow> 'cs option"
  be_client_query :: "'cs \<Rightarrow> nat \<Rightarrow> 'g \<Rightarrow> ('q \<times> 'cs \<times> 'g) option"
  be_server_answer :: "'sp \<Rightarrow> u32 list \<Rightarrow> nat \<Rightarrow> nat \<Rightarrow> 'q \<Rightarrow> 'r option"
  be_client_decode :: "'cs \<Rightarrow> 'r \<Rightarrow> u32 list option"
  be_server_patch_hint :: "'sp \<Rightarrow> 'mat \<Rightarrow> 'hint \<Rightarrow> row_deltas \<Rightarrow> hint_patch_mode \<Rightarrow> 'hint option"
  be_client_patch_state :: "'cs \<Rightarrow> row_deltas \<Rightarrow> hint_patch_mode \<Rightarrow> 'cs option"
  be_precompute_queries :: "'cs \<Rightarrow> nat \<Rightarrow> 'g \<Rightarrow> ('cs \<times> 'g) option"
  be_precompute_decodes :: "'cs \<Rightarrow> 'cs option"
  be_rewind_response :: "'cs \<Rightarrow> 'q \<Rightarrow> 'r \<Rightarrow> ((nat \<times> nat) \<times> int) list \<Rightarrow> 'r option"

section \<open>Databases and their edits\<close>

text \<open>The cell array after the edits, mod \<open>2\<^sup>3\<^sup>2\<close>; \<open>pointwise\<close> reads a map of cell deltas as row edits.\<close>

definition edit_db :: "nat \<Rightarrow> u32 list \<Rightarrow> row_deltas \<Rightarrow> u32 list" where
  "edit_db w db rd = map (\<lambda>p. db ! p + word_of_int (row_delta rd (p div w) (p mod w))) [0..<length db]"

definition pointwise :: "((nat \<times> nat) \<times> int) list \<Rightarrow> row_deltas" where
  "pointwise ds = map (\<lambda>(p, d). (fst p, [(snd p, d)])) ds"

definition db_row :: "nat \<Rightarrow> u32 list \<Rightarrow> nat \<Rightarrow> u32 list" where
  "db_row w db i = map (mcell w db i) [0..<w]"

lemma edit_db_length [simp]: "length (edit_db w db rd) = length db"
  by (simp add: edit_db_def)

lemma mcell_edit_db:
  assumes "length db = n * w" "i < n" "j < w"
  shows "mcell w (edit_db w db rd) i j = edited (mcell w db) rd i j"
  using mult_add_less [OF assms(2,3)] assms
  by (simp add: mcell_def edit_db_def edited_def)

lemma edit_db_cong:
  assumes "length db = n * w" "\<And>i j. i < n \<Longrightarrow> j < w \<Longrightarrow> row_delta rd i j = row_delta rd' i j"
  shows "edit_db w db rd = edit_db w db rd'"
proof (rule mcell_eqI [of _ n w])
  fix i j assume "i < n" "j < w"
  then show "mcell w (edit_db w db rd) i j = mcell w (edit_db w db rd') i j"
    using assms by (simp add: mcell_edit_db edited_def)
qed (simp_all add: assms(1))

lemma edit_db_nil [simp]: "edit_db w db [] = db"
  by (simp add: edit_db_def map_nth)

lemma edit_db_append: "edit_db w (edit_db w db rd) rd' = edit_db w db (rd @ rd')"
  by (simp add: edit_db_def wi_hom_add [symmetric] add.assoc)

lemma row_delta_pointwise:
  "row_delta (pointwise ds) i j = (\<Sum>(p, d) \<leftarrow> ds. if p = (i, j) then d else 0)"
  by (induction ds) (auto simp: pointwise_def split_def)

lemma edits_ok_pointwise: "edits_ok n w (pointwise ds) \<longleftrightarrow> (\<forall>x \<in> set ds. fst (fst x) < n \<and> snd (fst x) < w)"
  by (auto simp: edits_ok_def pointwise_def split_def)

section \<open>The contract\<close>

text \<open>
  \<open>sp_ok sp n w pb\<close>: parameters of a segment of \<open>n\<close> rows of \<open>w\<close> cells of \<open>pb\<close> bits.
  \<open>hint_ok sp db h\<close> and \<open>cs_ok sp db cs\<close>: hint and client state belong to the database \<open>db\<close>.
  \<open>asked sp cs q row\<close>: \<open>q\<close> is the query in flight, for \<open>row\<close>. \<open>answered sp db q r\<close>: \<open>r\<close> is the answer
  to \<open>q\<close> on \<open>db\<close>. \<open>quiet sp db cs\<close>: the noise of the query in flight does not reach the rounding
  threshold on \<open>db\<close>; \<open>worst_case sp\<close> is the bound on the parameters under which it never does.
  \<open>rng_ok\<close> is what sampling needs of the generator.
\<close>

locale pir_backend =
  fixes B :: "('cfg, 'sp, 'mat, 'hint, 'cs, 'q, 'r, 'g) backend"
    and rng_ok :: bool
    and cfg_ok :: "'cfg \<Rightarrow> nat \<Rightarrow> nat \<Rightarrow> nat \<Rightarrow> bool"
    and sp_ok :: "'sp \<Rightarrow> nat \<Rightarrow> nat \<Rightarrow> nat \<Rightarrow> bool"
    and mat_ok :: "'sp \<Rightarrow> 'mat \<Rightarrow> bool"
    and hint_ok :: "'sp \<Rightarrow> u32 list \<Rightarrow> 'hint \<Rightarrow> bool"
    and cs_ok :: "'sp \<Rightarrow> u32 list \<Rightarrow> 'cs \<Rightarrow> bool"
    and asked :: "'sp \<Rightarrow> 'cs \<Rightarrow> 'q \<Rightarrow> nat \<Rightarrow> bool"
    and answered :: "'sp \<Rightarrow> u32 list \<Rightarrow> 'q \<Rightarrow> 'r \<Rightarrow> bool"
    and quiet :: "'sp \<Rightarrow> u32 list \<Rightarrow> 'cs \<Rightarrow> bool"
    and worst_case :: "'sp \<Rightarrow> bool"
  assumes server_setup: "cfg_ok cfg n w pb \<Longrightarrow> rng_ok \<Longrightarrow> length db = n * w \<Longrightarrow>
      \<exists>sp mat h g'. be_server_setup B cfg db n w pb g = Some ((sp, mat, h), g') \<and>
        sp_ok sp n w pb \<and> mat_ok sp mat \<and> hint_ok sp db h"
    and expand: "sp_ok sp n w pb \<Longrightarrow> \<exists>mat. be_expand_hint_material B sp = Some mat \<and> mat_ok sp mat"
    and client_setup: "sp_ok sp n w pb \<Longrightarrow> hint_ok sp db h \<Longrightarrow>
      \<exists>cs. be_client_setup B sp h = Some cs \<and> cs_ok sp db cs"
    and query: "sp_ok sp n w pb \<Longrightarrow> cs_ok sp db cs \<Longrightarrow> rng_ok \<Longrightarrow> row < n \<Longrightarrow>
      \<exists>q cs' g'. be_client_query B cs row g = Some (q, cs', g') \<and> cs_ok sp db cs' \<and> asked sp cs' q row"
    and answer: "sp_ok sp n w pb \<Longrightarrow> asked sp cs q row \<Longrightarrow> length db = n * w \<Longrightarrow>
      \<exists>r. be_server_answer B sp db n w q = Some r \<and> answered sp db q r"
    and decode: "sp_ok sp n w pb \<Longrightarrow> cs_ok sp db cs \<Longrightarrow> asked sp cs q row \<Longrightarrow> row < n \<Longrightarrow> answered sp db q r \<Longrightarrow>
      quiet sp db cs \<Longrightarrow> list_all (fits pb) db \<Longrightarrow> be_client_decode B cs r = Some (db_row w db row)"
    and worst_case_quiet: "sp_ok sp n w pb \<Longrightarrow> cs_ok sp db cs \<Longrightarrow> asked sp cs q row \<Longrightarrow> list_all (fits pb) db \<Longrightarrow>
      worst_case sp \<Longrightarrow> quiet sp db cs"
    and patch_hint: "sp_ok sp n w pb \<Longrightarrow> mat_ok sp mat \<Longrightarrow> hint_ok sp db h \<Longrightarrow> edits_ok n w rd \<Longrightarrow>
      \<exists>h'. be_server_patch_hint B sp mat h rd mode = Some h' \<and> hint_ok sp (edit_db w db rd) h'"
    and patch_state: "sp_ok sp n w pb \<Longrightarrow> cs_ok sp db cs \<Longrightarrow> edits_ok n w rd \<Longrightarrow>
      \<exists>cs'. be_client_patch_state B cs rd mode = Some cs' \<and> cs_ok sp (edit_db w db rd) cs' \<and>
        (\<forall>q row. asked sp cs q row \<longrightarrow> asked sp cs' q row)"
    and precompute_queries: "sp_ok sp n w pb \<Longrightarrow> cs_ok sp db cs \<Longrightarrow> rng_ok \<Longrightarrow>
      \<exists>cs' g'. be_precompute_queries B cs m g = Some (cs', g') \<and> cs_ok sp db cs' \<and>
        (\<forall>q row. asked sp cs q row \<longrightarrow> asked sp cs' q row)"
    and precompute_decodes: "sp_ok sp n w pb \<Longrightarrow> cs_ok sp db cs \<Longrightarrow>
      \<exists>cs'. be_precompute_decodes B cs = Some cs' \<and> cs_ok sp db cs' \<and>
        (\<forall>q row. asked sp cs q row \<longrightarrow> asked sp cs' q row)"
    and rewind: "sp_ok sp n w pb \<Longrightarrow> cs_ok sp db0 cs \<Longrightarrow> asked sp cs q row \<Longrightarrow> edits_ok n w (pointwise ds) \<Longrightarrow>
      answered sp (edit_db w db (pointwise ds)) q r \<Longrightarrow> length db = n * w \<Longrightarrow>
      \<exists>r'. be_rewind_response B cs q r ds = Some r' \<and> answered sp db q r'"
begin

text \<open>A whole round, with a patch of any mode on both sides, decodes the edited row.\<close>

lemma round_after_patch:
  assumes "sp_ok sp n w pb" "cs_ok sp db cs" "edits_ok n w rd" "length db = n * w" "row < n" "rng_ok"
    and "list_all (fits pb) (edit_db w db rd)" "worst_case sp"
  shows "\<exists>cs1 q cs2 g' r. be_client_patch_state B cs rd mode = Some cs1 \<and>
    be_client_query B cs1 row g = Some (q, cs2, g') \<and>
    be_server_answer B sp (edit_db w db rd) n w q = Some r \<and>
    be_client_decode B cs2 r = Some (db_row w (edit_db w db rd) row)"
proof -
  obtain cs1 where cs1: "be_client_patch_state B cs rd mode = Some cs1" "cs_ok sp (edit_db w db rd) cs1"
    using patch_state [OF assms(1-3), of mode] by blast
  obtain q cs2 g' where q: "be_client_query B cs1 row g = Some (q, cs2, g')"
    "cs_ok sp (edit_db w db rd) cs2" "asked sp cs2 q row"
    using query [OF assms(1) cs1(2) assms(6,5), of g] by blast
  obtain r where r: "be_server_answer B sp (edit_db w db rd) n w q = Some r" "answered sp (edit_db w db rd) q r"
    using answer [OF assms(1) q(3), of "edit_db w db rd"] assms(4) by auto
  have "quiet sp (edit_db w db rd) cs2" by (rule worst_case_quiet [OF assms(1) q(2,3) assms(7,8)])
  then have "be_client_decode B cs2 r = Some (db_row w (edit_db w db rd) row)"
    by (rule decode [OF assms(1) q(2,3) assms(5) r(2) _ assms(7)])
  then show ?thesis using cs1(1) q(1) r(1) by blast
qed

end

end
