(* ===== verification/Frodo.thy ===== *)
theory Frodo
  imports Backend
begin

text \<open>
  \<open>FrodoPirBackend\<close>, \<open>ikpir-common/src/backend/frodo/\<close>: parameters, the ternary sampler, and the
  backend operations, which are collected in the record \<open>frodo_backend\<close>. The single-field structs
  \<open>FrodoHintMaterial\<close>, \<open>FrodoHint\<close>, \<open>FrodoQuery\<close> and \<open>FrodoResponse\<close> are the lists they hold.
  \<open>x86\<close> selects the dispatch table of the matrix kernel, \<open>chacha\<close> is the ChaCha20 keystream, and
  \<open>next_u32\<close> and \<open>fill_bytes\<close> are the operations of the thread-local generator with state \<open>'g\<close>.
\<close>

section \<open>Parameters\<close>

record frodo_params =
  fp_lwe_dim :: nat
  fp_plaintext_bits :: nat
  fp_seed :: "u8 list"

definition frodo_params_new :: "nat \<Rightarrow> nat \<Rightarrow> u8 list \<Rightarrow> frodo_params option" where
  "frodo_params_new lwe_dim plaintext_bits seed =
     do {
       assert_opt (1 \<le> plaintext_bits \<and> plaintext_bits \<le> 31);
       assert_opt (0 < lwe_dim);
       Some \<lparr> fp_lwe_dim = lwe_dim, fp_plaintext_bits = plaintext_bits, fp_seed = seed \<rparr>
     }"

text \<open>\<open>FrodoConfig\<close> holds the LWE dimension only.\<close>

definition frodo_with_lwe_dim :: "nat \<Rightarrow> nat option" where
  "frodo_with_lwe_dim lwe_dim = do { assert_opt (0 < lwe_dim); Some lwe_dim }"

definition FRODO_DEFAULT_LWE_DIM :: nat where
  "FRODO_DEFAULT_LWE_DIM = 1566"

record frodo_server_params =
  fs_params :: frodo_params
  fs_n_rows :: nat
  fs_row_width :: nat

record frodo_client =
  fc_params :: frodo_server_params
  fc_hint_material :: "u32 list"
  fc_hint :: "u32 list"
  fc_prepared :: "prepared_slot list"
  fc_in_flight :: "prepared_slot option"

section \<open>Ternary sampling\<close>

text \<open>Up to \<open>n\<close> two-bit chunks of \<open>word\<close>; \<open>0b11\<close> is rejected. The index and the buffer are returned.\<close>

primrec ternary_word :: "nat \<Rightarrow> u32 \<Rightarrow> nat \<Rightarrow> u32 list \<Rightarrow> nat \<times> u32 list" where
  "ternary_word 0 word idx dst = (idx, dst)"
| "ternary_word (Suc n) word idx dst =
     (if idx = length dst then (idx, dst)
      else if word AND 3 = 0 then ternary_word n (drop_bit 2 word) (idx + 1) (dst[idx := 0])
      else if word AND 3 = 1 then ternary_word n (drop_bit 2 word) (idx + 1) (dst[idx := 1])
      else if word AND 3 = 2 then ternary_word n (drop_bit 2 word) (idx + 1) (dst[idx := - 1])
      else ternary_word n (drop_bit 2 word) idx dst)"

text \<open>The outer loop draws words until the buffer is full; \<open>None\<close> when it never is.\<close>

partial_function (option) ternary_loop ::
  "('g \<Rightarrow> u32 \<times> 'g) \<Rightarrow> 'g \<Rightarrow> nat \<Rightarrow> u32 list \<Rightarrow> (u32 list \<times> 'g) option" where
  "ternary_loop next_u32 g idx dst =
     (if idx < length dst then
        (case next_u32 g of (word, g') \<Rightarrow>
           case ternary_word 16 word idx dst of (idx', dst') \<Rightarrow> ternary_loop next_u32 g' idx' dst')
      else Some (dst, g))"

definition sample_ternary_into :: "('g \<Rightarrow> u32 \<times> 'g) \<Rightarrow> 'g \<Rightarrow> nat \<Rightarrow> (u32 list \<times> 'g) option" where
  "sample_ternary_into next_u32 g len = ternary_loop next_u32 g 0 (replicate len 0)"

section \<open>Setup\<close>

text \<open>\<open>server_setup\<close>: a fresh 16-byte seed, the matrix \<open>A\<close> and the hint.\<close>

definition frodo_server_setup ::
  "(u8 list \<Rightarrow> nat \<Rightarrow> u32) \<Rightarrow> (nat \<Rightarrow> 'g \<Rightarrow> u8 list \<times> 'g) \<Rightarrow> nat \<Rightarrow> u32 list \<Rightarrow> nat \<Rightarrow> nat \<Rightarrow> nat \<Rightarrow> 'g \<Rightarrow>
    ((frodo_server_params \<times> u32 list \<times> u32 list) \<times> 'g) option" where
  "frodo_server_setup chacha fill_bytes lwe_dim db n_rows row_width plaintext_bits g =
     do {
       assert_opt (length db = n_rows * row_width);
       let (seed, g') = fill_bytes 16 g;
       params \<leftarrow> frodo_params_new lwe_dim plaintext_bits seed;
       a \<leftarrow> sample_a chacha seed n_rows lwe_dim;
       hint \<leftarrow> compute_hint a db n_rows lwe_dim row_width;
       Some ((\<lparr> fs_params = params, fs_n_rows = n_rows, fs_row_width = row_width \<rparr>, a, hint), g')
     }"

definition frodo_expand_hint_material :: "(u8 list \<Rightarrow> nat \<Rightarrow> u32) \<Rightarrow> frodo_server_params \<Rightarrow> u32 list option" where
  "frodo_expand_hint_material chacha sp =
     sample_a chacha (fp_seed (fs_params sp)) (fs_n_rows sp) (fp_lwe_dim (fs_params sp))"

definition frodo_client_setup :: "(u8 list \<Rightarrow> nat \<Rightarrow> u32) \<Rightarrow> frodo_server_params \<Rightarrow> u32 list \<Rightarrow> frodo_client option" where
  "frodo_client_setup chacha sp hint =
     do {
       a \<leftarrow> frodo_expand_hint_material chacha sp;
       Some \<lparr> fc_params = sp, fc_hint_material = a, fc_hint = hint, fc_prepared = [], fc_in_flight = None \<rparr>
     }"

section \<open>Queries and answers\<close>

definition frodo_sample_slot ::
  "('g \<Rightarrow> u32 \<times> 'g) \<Rightarrow> frodo_server_params \<Rightarrow> u32 list \<Rightarrow> 'g \<Rightarrow> (prepared_slot \<times> 'g) option" where
  "frodo_sample_slot next_u32 sp a g =
     do {
       let lwe_dim = fp_lwe_dim (fs_params sp);
       (secret, g1) \<leftarrow> sample_ternary_into next_u32 g lwe_dim;
       (e, g2) \<leftarrow> sample_ternary_into next_u32 g1 (fs_n_rows sp);
       b \<leftarrow> lwe_samples a lwe_dim secret e;
       Some (\<lparr> ps_secret = secret, ps_b = b, ps_c = None \<rparr>, g2)
     }"

definition frodo_client_query ::
  "('g \<Rightarrow> u32 \<times> 'g) \<Rightarrow> frodo_client \<Rightarrow> nat \<Rightarrow> 'g \<Rightarrow> (u32 list \<times> frodo_client \<times> 'g) option" where
  "frodo_client_query next_u32 cs row g =
     do {
       assert_opt (row < fs_n_rows (fc_params cs));
       (slot, prepared, g') \<leftarrow> (case fc_prepared cs of
           s # ss \<Rightarrow> Some (s, ss, g)
         | [] \<Rightarrow> do {
             (s, g') \<leftarrow> frodo_sample_slot next_u32 (fc_params cs) (fc_hint_material cs) g;
             Some (s, [], g')
           });
       delta \<leftarrow> round_p_to_q 1 (fp_plaintext_bits (fs_params (fc_params cs)));
       x \<leftarrow> nth_opt (ps_b slot) row;
       b \<leftarrow> upd_opt (ps_b slot) row (x + delta);
       Some (b, cs\<lparr> fc_prepared := prepared, fc_in_flight := Some slot \<rparr>, g')
     }"

definition frodo_server_answer :: "bool \<Rightarrow> frodo_server_params \<Rightarrow> u32 list \<Rightarrow> nat \<Rightarrow> nat \<Rightarrow> u32 list \<Rightarrow> u32 list option" where
  "frodo_server_answer x86 sp db n_rows row_width q =
     do {
       assert_opt (length q = n_rows);
       assert_opt (length db = n_rows * row_width);
       matvec_accumulate x86 (replicate row_width 0) db q
     }"

definition frodo_client_decode :: "bool \<Rightarrow> frodo_client \<Rightarrow> u32 list \<Rightarrow> u32 list option" where
  "frodo_client_decode x86 cs resp =
     do {
       assert_opt (length resp = fs_row_width (fc_params cs));
       slot \<leftarrow> fc_in_flight cs;
       residual \<leftarrow> slot_residual x86 (fc_hint cs) slot resp;
       round_cells residual (fp_plaintext_bits (fs_params (fc_params cs)))
     }"

section \<open>Precomputation\<close>

primrec frodo_precompute_queries ::
  "('g \<Rightarrow> u32 \<times> 'g) \<Rightarrow> frodo_client \<Rightarrow> nat \<Rightarrow> 'g \<Rightarrow> (frodo_client \<times> 'g) option" where
  "frodo_precompute_queries next_u32 cs 0 g = Some (cs, g)"
| "frodo_precompute_queries next_u32 cs (Suc m) g =
     do {
       (slot, g') \<leftarrow> frodo_sample_slot next_u32 (fc_params cs) (fc_hint_material cs) g;
       frodo_precompute_queries next_u32 (cs\<lparr> fc_prepared := fc_prepared cs @ [slot] \<rparr>) m g'
     }"

definition fill_c :: "bool \<Rightarrow> u32 list \<Rightarrow> nat \<Rightarrow> nat \<Rightarrow> prepared_slot \<Rightarrow> prepared_slot option" where
  "fill_c x86 hint lwe_dim row_width slot =
     (case ps_c slot of
        Some _ \<Rightarrow> Some slot
      | None \<Rightarrow> do {
          c \<leftarrow> compute_c x86 (ps_secret slot) hint lwe_dim row_width;
          Some (slot\<lparr> ps_c := Some c \<rparr>)
        })"

text \<open>A loop over the prepared slots and the slot in flight, in this order.\<close>

definition map_slots :: "(prepared_slot \<Rightarrow> prepared_slot option) \<Rightarrow> prepared_slot list \<Rightarrow> prepared_slot option \<Rightarrow>
    (prepared_slot list \<times> prepared_slot option) option" where
  "map_slots f prepared in_flight =
     do {
       prepared' \<leftarrow> those (map f prepared);
       in_flight' \<leftarrow> (case in_flight of None \<Rightarrow> Some None | Some s \<Rightarrow> map_option Some (f s));
       Some (prepared', in_flight')
     }"

definition frodo_precompute_decodes :: "bool \<Rightarrow> frodo_client \<Rightarrow> frodo_client option" where
  "frodo_precompute_decodes x86 cs =
     do {
       let sp = fc_params cs;
       (prepared, in_flight) \<leftarrow> map_slots (fill_c x86 (fc_hint cs) (fp_lwe_dim (fs_params sp)) (fs_row_width sp))
         (fc_prepared cs) (fc_in_flight cs);
       Some (cs\<lparr> fc_prepared := prepared, fc_in_flight := in_flight \<rparr>)
     }"

section \<open>Hint patches\<close>

definition frodo_patch_entry_level ::
  "u32 list \<Rightarrow> nat \<Rightarrow> nat \<Rightarrow> nat \<Rightarrow> u32 list \<Rightarrow> row_deltas \<Rightarrow> u32 list option" where
  "frodo_patch_entry_level a lwe_dim n_rows row_width hint rd =
     do {
       assert_opt (length a = n_rows * lwe_dim);
       assert_opt (length hint = lwe_dim * row_width);
       fold_opt (\<lambda>(row, cells) hint. do {
           assert_opt (row < n_rows);
           touched \<leftarrow> tr_rebuild cells (\<lambda>off. do { assert_opt (off < row_width); Some off });
           if tr_runs touched = [] then Some hint
           else do {
             a_row \<leftarrow> slice_opt a (row * lwe_dim) lwe_dim;
             tr_apply touched a_row hint row_width
           }
         }) rd hint
     }"

text \<open>The dense delta vector of one row.\<close>

definition frodo_delta_row :: "nat \<Rightarrow> cell_deltas \<Rightarrow> u32 list option" where
  "frodo_delta_row row_width cells =
     fold_opt (\<lambda>(off, delta) delta_row. do {
         assert_opt (off < row_width);
         x \<leftarrow> nth_opt delta_row off;
         upd_opt delta_row off (x + word_of_int delta)
       }) cells (replicate row_width 0)"

definition frodo_patch_row_level ::
  "u32 list \<Rightarrow> nat \<Rightarrow> nat \<Rightarrow> nat \<Rightarrow> u32 list \<Rightarrow> row_deltas \<Rightarrow> u32 list option" where
  "frodo_patch_row_level a lwe_dim n_rows row_width hint rd =
     do {
       assert_opt (length a = n_rows * lwe_dim);
       assert_opt (length hint = lwe_dim * row_width);
       fold_opt (\<lambda>(row, cells) hint. do {
           assert_opt (row < n_rows);
           delta_row \<leftarrow> frodo_delta_row row_width cells;
           a_row \<leftarrow> slice_opt a (row * lwe_dim) lwe_dim;
           for_hint_rows lwe_dim row_width a_row (add_scaled 0 delta_row) hint
         }) rd hint
     }"

definition frodo_apply_patch ::
  "u32 list \<Rightarrow> nat \<Rightarrow> nat \<Rightarrow> nat \<Rightarrow> u32 list \<Rightarrow> row_deltas \<Rightarrow> hint_patch_mode \<Rightarrow> u32 list option" where
  "frodo_apply_patch a lwe_dim n_rows row_width hint rd mode =
     (case mode of
        EntryLevel \<Rightarrow> frodo_patch_entry_level a lwe_dim n_rows row_width hint rd
      | RowLevel \<Rightarrow> frodo_patch_row_level a lwe_dim n_rows row_width hint rd)"

definition frodo_server_patch_hint ::
  "frodo_server_params \<Rightarrow> u32 list \<Rightarrow> u32 list \<Rightarrow> row_deltas \<Rightarrow> hint_patch_mode \<Rightarrow> u32 list option" where
  "frodo_server_patch_hint sp a hint rd mode =
     frodo_apply_patch a (fp_lwe_dim (fs_params sp)) (fs_n_rows sp) (fs_row_width sp) hint rd mode"

definition frodo_client_patch_state :: "frodo_client \<Rightarrow> row_deltas \<Rightarrow> hint_patch_mode \<Rightarrow> frodo_client option" where
  "frodo_client_patch_state cs rd mode =
     do {
       let sp = fc_params cs;
       let lwe_dim = fp_lwe_dim (fs_params sp);
       hint \<leftarrow> frodo_apply_patch (fc_hint_material cs) lwe_dim (fs_n_rows sp) (fs_row_width sp) (fc_hint cs) rd mode;
       (prepared, in_flight) \<leftarrow> map_slots (patch_slot_c (fc_hint_material cs) lwe_dim (fs_row_width sp) rd)
         (fc_prepared cs) (fc_in_flight cs);
       Some (cs\<lparr> fc_hint := hint, fc_prepared := prepared, fc_in_flight := in_flight \<rparr>)
     }"

text \<open>\<open>rewind_response\<close>: \<open>resp.a[off] -= q.b[row] * delta\<close> over the pending deltas.\<close>

definition frodo_rewind_response :: "frodo_client \<Rightarrow> u32 list \<Rightarrow> u32 list \<Rightarrow> ((nat \<times> nat) \<times> int) list \<Rightarrow> u32 list option" where
  "frodo_rewind_response cs q resp ds =
     fold_opt (\<lambda>(p, d) resp. do {
         qr \<leftarrow> nth_opt q (fst p);
         x \<leftarrow> nth_opt resp (snd p);
         upd_opt resp (snd p) (x - qr * word_of_int d)
       }) ds resp"

definition frodo_backend ::
  "bool \<Rightarrow> (u8 list \<Rightarrow> nat \<Rightarrow> u32) \<Rightarrow> ('g \<Rightarrow> u32 \<times> 'g) \<Rightarrow> (nat \<Rightarrow> 'g \<Rightarrow> u8 list \<times> 'g) \<Rightarrow>
    (nat, frodo_server_params, u32 list, u32 list, frodo_client, u32 list, u32 list, 'g) backend" where
  "frodo_backend x86 chacha next_u32 fill_bytes =
     \<lparr> be_server_setup = frodo_server_setup chacha fill_bytes,
       be_expand_hint_material = frodo_expand_hint_material chacha,
       be_client_setup = frodo_client_setup chacha,
       be_client_query = frodo_client_query next_u32,
       be_server_answer = frodo_server_answer x86,
       be_client_decode = frodo_client_decode x86,
       be_server_patch_hint = frodo_server_patch_hint,
       be_client_patch_state = frodo_client_patch_state,
       be_precompute_queries = frodo_precompute_queries next_u32,
       be_precompute_decodes = frodo_precompute_decodes x86,
       be_rewind_response = frodo_rewind_response \<rparr>"

end
