(* ===== verification/Simple.thy ===== *)
theory Simple
  imports Frodo
begin

text \<open>
  \<open>SimplePirBackend\<close>, \<open>ikpir-common/src/backend/simple/\<close>. A segment of \<open>n\<close> rows is reshaped: \<open>k\<close>
  consecutive rows become one row of the matrix that is multiplied, so there are \<open>ceil(n / k)\<close> rows
  of \<open>k * row_width\<close> cells and the last one may be short. The kernel, the \<open>\<Delta>\<close>-scaling, the expansion
  of \<open>A\<close> and the touched runs are the ones of \<^theory_text>\<open>Matvec\<close>, \<^theory_text>\<open>Lwe\<close> and \<^theory_text>\<open>Hint_Matrix\<close> (the crate has
  verbatim copies of the scaling and of \<open>sample_a\<close> for this back end).

  The code computes in \<open>f64\<close> at four places. The correctness of the back end needs little of them, so
  they are a record of functions over an abstract type of widths \<open>\<sigma>\<close>: the check of \<open>\<sigma>\<close>, the tail cut
  \<open>\<lceil>20 \<sigma>\<rceil>\<close>, the comparison of a unit draw with the weight table, and the number \<open>k\<close> of rows per reshaped
  row. The code's own functions are the instance \<open>f64_ops\<close> of \<^theory_text>\<open>Simple_Floats\<close>.
\<close>

record 'sg float_ops =
  fo_sigma_ok :: "'sg \<Rightarrow> bool"
  fo_tail_cut :: "'sg \<Rightarrow> nat"
  fo_accept :: "'sg \<Rightarrow> nat \<Rightarrow> u64 \<Rightarrow> bool"
  fo_rows_per_row :: "nat \<Rightarrow> nat \<Rightarrow> nat"

section \<open>Parameters\<close>

record 'sg simple_params =
  sp_lwe_dim :: nat
  sp_plaintext_bits :: nat
  sp_sigma :: 'sg
  sp_seed :: "u8 list"

definition simple_params_new :: "'sg float_ops \<Rightarrow> nat \<Rightarrow> nat \<Rightarrow> 'sg \<Rightarrow> u8 list \<Rightarrow> 'sg simple_params option" where
  "simple_params_new fo lwe_dim plaintext_bits sigma seed =
     do {
       assert_opt (1 \<le> plaintext_bits \<and> plaintext_bits \<le> 31);
       assert_opt (0 < lwe_dim);
       assert_opt (fo_sigma_ok fo sigma);
       Some \<lparr> sp_lwe_dim = lwe_dim, sp_plaintext_bits = plaintext_bits, sp_sigma = sigma, sp_seed = seed \<rparr>
     }"

record 'sg simple_config =
  scf_lwe_dim :: nat
  scf_sigma :: 'sg

definition simple_config_new :: "'sg float_ops \<Rightarrow> nat \<Rightarrow> 'sg \<Rightarrow> 'sg simple_config option" where
  "simple_config_new fo lwe_dim sigma =
     do {
       assert_opt (0 < lwe_dim);
       assert_opt (fo_sigma_ok fo sigma);
       Some \<lparr> scf_lwe_dim = lwe_dim, scf_sigma = sigma \<rparr>
     }"

record 'sg simple_server_params =
  srv_params :: "'sg simple_params"
  srv_n_rows :: nat
  srv_row_width :: nat
  srv_k :: nat
  srv_reshape_rows :: nat
  srv_reshape_row_width :: nat

record in_flight_slot =
  if_slot :: prepared_slot
  if_bucket_within :: nat

record 'sg simple_client =
  sc_params :: "'sg simple_server_params"
  sc_hint_material :: "u32 list"
  sc_hint :: "u32 list"
  sc_prepared :: "prepared_slot list"
  sc_in_flight :: "in_flight_slot option"

section \<open>Sampling\<close>

definition sample_uniform_zq_into :: "('g \<Rightarrow> u32 \<times> 'g) \<Rightarrow> 'g \<Rightarrow> nat \<Rightarrow> u32 list \<times> 'g" where
  "sample_uniform_zq_into next_u32 g len =
     fold (\<lambda>_ (cells, g). case next_u32 g of (x, g') \<Rightarrow> (cells @ [x], g')) [0..<len] ([], g)"

text \<open>The inner rejection loop: an unbiased draw below \<open>base\<close>.\<close>

partial_function (option) draw_candidate :: "('g \<Rightarrow> u64 \<times> 'g) \<Rightarrow> u64 \<Rightarrow> u64 \<Rightarrow> 'g \<Rightarrow> (nat \<times> 'g) option" where
  "draw_candidate next_u64 base zone g =
     (case next_u64 g of (u, g') \<Rightarrow>
        if u < zone then Some (unat (u mod base), g') else draw_candidate next_u64 base zone g')"

text \<open>The outer loop: accept the candidate when the unit draw (the high 53 bits of a word) is below
  its weight.\<close>

partial_function (option) draw_magnitude ::
  "('g \<Rightarrow> u64 \<times> 'g) \<Rightarrow> (nat \<Rightarrow> u64 \<Rightarrow> bool) \<Rightarrow> u64 \<Rightarrow> u64 \<Rightarrow> 'g \<Rightarrow> (nat \<times> 'g) option" where
  "draw_magnitude next_u64 accept base zone g =
     do {
       (candidate, g1) \<leftarrow> draw_candidate next_u64 base zone g;
       case next_u64 g1 of (u, g2) \<Rightarrow>
         if accept candidate (drop_bit 11 u) then Some (candidate, g2)
         else draw_magnitude next_u64 accept base zone g2
     }"

text \<open>One output cell: the magnitude, negated on an odd word.\<close>

definition gaussian_cell ::
  "('g \<Rightarrow> u64 \<times> 'g) \<Rightarrow> (nat \<Rightarrow> u64 \<Rightarrow> bool) \<Rightarrow> u64 \<Rightarrow> u64 \<Rightarrow> 'g \<Rightarrow> (u32 \<times> 'g) option" where
  "gaussian_cell next_u64 accept base zone g =
     do {
       (magnitude, g1) \<leftarrow> draw_magnitude next_u64 accept base zone g;
       let (u, g2) = next_u64 g1;
       if odd u then do {
         assert_opt ((word_of_nat magnitude :: u32) \<noteq> push_bit 31 1);
         Some (- word_of_nat magnitude, g2)
       }
       else Some (word_of_nat magnitude, g2)
     }"

definition sample_discrete_gaussian_into ::
  "'sg float_ops \<Rightarrow> ('g \<Rightarrow> u64 \<times> 'g) \<Rightarrow> 'g \<Rightarrow> 'sg \<Rightarrow> nat \<Rightarrow> (u32 list \<times> 'g) option" where
  "sample_discrete_gaussian_into fo next_u64 g sigma len =
     do {
       assert_opt (fo_sigma_ok fo sigma);
       if len = 0 then Some ([], g)
       else do {
         let t = fo_tail_cut fo sigma;
         assert_opt (t + 1 < 2 ^ 64);
         let base = word_of_nat t + 1;
         let zone = - 1 - (- 1 mod base);
         fold_opt (\<lambda>_ (cells, g). do {
             (x, g') \<leftarrow> gaussian_cell next_u64 (fo_accept fo sigma) base zone g;
             Some (cells @ [x], g')
           }) [0..<len] ([], g)
       }
     }"

section \<open>Reshaping and setup\<close>

definition reshape_dims :: "'sg float_ops \<Rightarrow> nat \<Rightarrow> nat \<Rightarrow> (nat \<times> nat \<times> nat) option" where
  "reshape_dims fo n_rows row_width =
     do {
       assert_opt (0 < n_rows \<and> 0 < row_width);
       let k = fo_rows_per_row fo n_rows row_width;
       assert_opt (0 < k);
       let reshape_rows = div_ceil n_rows k;
       assert_opt (k * row_width < 2 ^ 32);
       Some (k, reshape_rows, k * row_width)
     }"

definition translate_cell :: "nat \<Rightarrow> nat \<Rightarrow> nat \<Rightarrow> nat \<Rightarrow> nat \<times> nat" where
  "translate_cell orig_row orig_off k row_width = (orig_row div k, (orig_row mod k) * row_width + orig_off)"

text \<open>Original row \<open>r\<close> is added into the reshaped hint at column offset \<open>(r mod k) * row_width\<close>.\<close>

definition simple_compute_hint :: "u32 list \<Rightarrow> u32 list \<Rightarrow> nat \<Rightarrow> nat \<Rightarrow> nat \<Rightarrow> nat \<Rightarrow> nat \<Rightarrow> u32 list option" where
  "simple_compute_hint a db n_rows row_width k lwe_dim reshape_row_width =
     fold_opt (\<lambda>r h. do {
       let reshape_row = r div k;
       let off_within = (r mod k) * row_width;
       a_row \<leftarrow> slice_opt a (reshape_row * lwe_dim) lwe_dim;
       d_row \<leftarrow> slice_opt db (r * row_width) row_width;
       for_hint_rows lwe_dim reshape_row_width a_row (add_scaled off_within d_row) h
     }) [0..<n_rows] (replicate (lwe_dim * reshape_row_width) 0)"

definition simple_server_setup ::
  "'sg float_ops \<Rightarrow> (u8 list \<Rightarrow> nat \<Rightarrow> u32) \<Rightarrow> (nat \<Rightarrow> 'g \<Rightarrow> u8 list \<times> 'g) \<Rightarrow> 'sg simple_config \<Rightarrow> u32 list \<Rightarrow>
    nat \<Rightarrow> nat \<Rightarrow> nat \<Rightarrow> 'g \<Rightarrow> (('sg simple_server_params \<times> u32 list \<times> u32 list) \<times> 'g) option" where
  "simple_server_setup fo chacha fill_bytes cfg db n_rows row_width plaintext_bits g =
     do {
       assert_opt (length db = n_rows * row_width);
       let lwe_dim = scf_lwe_dim cfg;
       (k, reshape_rows, reshape_row_width) \<leftarrow> reshape_dims fo n_rows row_width;
       let (seed, g') = fill_bytes 16 g;
       params \<leftarrow> simple_params_new fo lwe_dim plaintext_bits (scf_sigma cfg) seed;
       a \<leftarrow> sample_a chacha seed reshape_rows lwe_dim;
       hint \<leftarrow> simple_compute_hint a db n_rows row_width k lwe_dim reshape_row_width;
       Some ((\<lparr> srv_params = params, srv_n_rows = n_rows, srv_row_width = row_width, srv_k = k,
         srv_reshape_rows = reshape_rows, srv_reshape_row_width = reshape_row_width \<rparr>, a, hint), g')
     }"

definition simple_expand_hint_material :: "(u8 list \<Rightarrow> nat \<Rightarrow> u32) \<Rightarrow> 'sg simple_server_params \<Rightarrow> u32 list option" where
  "simple_expand_hint_material chacha sp =
     sample_a chacha (sp_seed (srv_params sp)) (srv_reshape_rows sp) (sp_lwe_dim (srv_params sp))"

definition simple_client_setup ::
  "(u8 list \<Rightarrow> nat \<Rightarrow> u32) \<Rightarrow> 'sg simple_server_params \<Rightarrow> u32 list \<Rightarrow> 'sg simple_client option" where
  "simple_client_setup chacha sp hint =
     do {
       a \<leftarrow> simple_expand_hint_material chacha sp;
       Some \<lparr> sc_params = sp, sc_hint_material = a, sc_hint = hint, sc_prepared = [], sc_in_flight = None \<rparr>
     }"

section \<open>Queries and answers\<close>

definition simple_sample_slot ::
  "'sg float_ops \<Rightarrow> ('g \<Rightarrow> u32 \<times> 'g) \<Rightarrow> ('g \<Rightarrow> u64 \<times> 'g) \<Rightarrow> 'sg simple_server_params \<Rightarrow> u32 list \<Rightarrow> 'g \<Rightarrow>
    (prepared_slot \<times> 'g) option" where
  "simple_sample_slot fo next_u32 next_u64 sp a g =
     do {
       let lwe_dim = sp_lwe_dim (srv_params sp);
       let (secret, g1) = sample_uniform_zq_into next_u32 g lwe_dim;
       (e, g2) \<leftarrow> sample_discrete_gaussian_into fo next_u64 g1 (sp_sigma (srv_params sp)) (srv_reshape_rows sp);
       b \<leftarrow> lwe_samples a lwe_dim secret e;
       Some (\<lparr> ps_secret = secret, ps_b = b, ps_c = None \<rparr>, g2)
     }"

definition simple_client_query ::
  "'sg float_ops \<Rightarrow> ('g \<Rightarrow> u32 \<times> 'g) \<Rightarrow> ('g \<Rightarrow> u64 \<times> 'g) \<Rightarrow> 'sg simple_client \<Rightarrow> nat \<Rightarrow> 'g \<Rightarrow>
    (u32 list \<times> 'sg simple_client \<times> 'g) option" where
  "simple_client_query fo next_u32 next_u64 cs row g =
     do {
       let sp = sc_params cs;
       assert_opt (row < srv_n_rows sp);
       let reshape_row = row div srv_k sp;
       let bucket_within = row mod srv_k sp;
       (slot, prepared, g') \<leftarrow> (case sc_prepared cs of
           s # ss \<Rightarrow> Some (s, ss, g)
         | [] \<Rightarrow> do {
             (s, g') \<leftarrow> simple_sample_slot fo next_u32 next_u64 sp (sc_hint_material cs) g;
             Some (s, [], g')
           });
       delta \<leftarrow> round_p_to_q 1 (sp_plaintext_bits (srv_params sp));
       x \<leftarrow> nth_opt (ps_b slot) reshape_row;
       b \<leftarrow> upd_opt (ps_b slot) reshape_row (x + delta);
       Some (b, cs\<lparr> sc_prepared := prepared,
         sc_in_flight := Some \<lparr> if_slot = slot, if_bucket_within = bucket_within \<rparr> \<rparr>, g')
     }"

text \<open>The whole reshaped rows go through the kernel; the rows of a short last one are added at their
  column offsets.\<close>

definition simple_tail :: "u32 list \<Rightarrow> nat \<Rightarrow> u32 list list \<Rightarrow> nat \<Rightarrow> u32 list \<Rightarrow> u32 list option" where
  "simple_tail q full tail_rows row_width a =
     fold_opt (\<lambda>(t, row) a. do {
         qi \<leftarrow> nth_opt q full;
         add_scaled (t * row_width) row qi a
       }) (enumerate 0 tail_rows) a"

definition simple_server_answer ::
  "bool \<Rightarrow> 'sg simple_server_params \<Rightarrow> u32 list \<Rightarrow> nat \<Rightarrow> nat \<Rightarrow> u32 list \<Rightarrow> u32 list option" where
  "simple_server_answer x86 sp db n_rows row_width q =
     do {
       assert_opt (length q = srv_reshape_rows sp);
       assert_opt (length db = n_rows * row_width);
       assert_opt (srv_n_rows sp = n_rows);
       assert_opt (srv_row_width sp = row_width);
       let k = srv_k sp;
       let reshape_row_width = srv_reshape_row_width sp;
       assert_opt (0 < k \<and> 0 < row_width);
       let full = n_rows div k;
       d \<leftarrow> slice_opt db 0 (full * reshape_row_width);
       q1 \<leftarrow> slice_opt q 0 full;
       a \<leftarrow> matvec_accumulate x86 (replicate reshape_row_width 0) d q1;
       simple_tail q full (chunks_exact row_width (drop (full * reshape_row_width) db)) row_width a
     }"

definition simple_client_decode :: "bool \<Rightarrow> 'sg simple_client \<Rightarrow> u32 list \<Rightarrow> u32 list option" where
  "simple_client_decode x86 cs resp =
     do {
       let sp = sc_params cs;
       assert_opt (length resp = srv_reshape_row_width sp);
       inflight \<leftarrow> sc_in_flight cs;
       let bucket_within = if_bucket_within inflight;
       assert_opt ((bucket_within + 1) * srv_row_width sp \<le> srv_reshape_row_width sp);
       residual \<leftarrow> slot_residual x86 (sc_hint cs) (if_slot inflight) resp;
       cells \<leftarrow> slice_opt residual (bucket_within * srv_row_width sp) (srv_row_width sp);
       round_cells cells (sp_plaintext_bits (srv_params sp))
     }"

section \<open>Precomputation\<close>

primrec simple_precompute_queries ::
  "'sg float_ops \<Rightarrow> ('g \<Rightarrow> u32 \<times> 'g) \<Rightarrow> ('g \<Rightarrow> u64 \<times> 'g) \<Rightarrow> 'sg simple_client \<Rightarrow> nat \<Rightarrow> 'g \<Rightarrow> ('sg simple_client \<times> 'g) option" where
  "simple_precompute_queries fo next_u32 next_u64 cs 0 g = Some (cs, g)"
| "simple_precompute_queries fo next_u32 next_u64 cs (Suc m) g =
     do {
       (slot, g') \<leftarrow> simple_sample_slot fo next_u32 next_u64 (sc_params cs) (sc_hint_material cs) g;
       simple_precompute_queries fo next_u32 next_u64 (cs\<lparr> sc_prepared := sc_prepared cs @ [slot] \<rparr>) m g'
     }"

text \<open>A loop over the prepared slots and the slot in flight, in this order.\<close>

definition map_slots_within :: "(prepared_slot \<Rightarrow> prepared_slot option) \<Rightarrow> prepared_slot list \<Rightarrow> in_flight_slot option \<Rightarrow>
    (prepared_slot list \<times> in_flight_slot option) option" where
  "map_slots_within f prepared in_flight =
     do {
       prepared' \<leftarrow> those (map f prepared);
       in_flight' \<leftarrow> (case in_flight of
           None \<Rightarrow> Some None
         | Some i \<Rightarrow> map_option (\<lambda>s. Some (i\<lparr> if_slot := s \<rparr>)) (f (if_slot i)));
       Some (prepared', in_flight')
     }"

definition simple_precompute_decodes :: "bool \<Rightarrow> 'sg simple_client \<Rightarrow> 'sg simple_client option" where
  "simple_precompute_decodes x86 cs =
     do {
       let sp = sc_params cs;
       (prepared, in_flight) \<leftarrow>
         map_slots_within (fill_c x86 (sc_hint cs) (sp_lwe_dim (srv_params sp)) (srv_reshape_row_width sp))
           (sc_prepared cs) (sc_in_flight cs);
       Some (cs\<lparr> sc_prepared := prepared, sc_in_flight := in_flight \<rparr>)
     }"

section \<open>Hint patches\<close>

definition simple_patch_entry_level ::
  "u32 list \<Rightarrow> nat \<Rightarrow> nat \<Rightarrow> nat \<Rightarrow> nat \<Rightarrow> nat \<Rightarrow> nat \<Rightarrow> u32 list \<Rightarrow> row_deltas \<Rightarrow> u32 list option" where
  "simple_patch_entry_level a lwe_dim n_rows row_width k reshape_rows reshape_row_width hint rd =
     do {
       assert_opt (length a = reshape_rows * lwe_dim);
       assert_opt (length hint = lwe_dim * reshape_row_width);
       fold_opt (\<lambda>(row, cells) hint. do {
           assert_opt (row < n_rows);
           touched \<leftarrow> tr_rebuild cells (\<lambda>off. do {
               assert_opt (off < row_width);
               assert_opt (0 < k);
               Some (snd (translate_cell row off k row_width))
             });
           if tr_runs touched = [] then Some hint
           else do {
             assert_opt (0 < k);
             let reshape_row = fst (translate_cell row 0 k row_width);
             a_row \<leftarrow> slice_opt a (reshape_row * lwe_dim) lwe_dim;
             tr_apply touched a_row hint reshape_row_width
           }
         }) rd hint
     }"

text \<open>The inner \<open>while\<close>: the deltas of consecutive rows with the same reshaped row are summed into the
  dense vector; the rest of the deltas is returned too.\<close>

fun dense_run ::
  "nat \<Rightarrow> nat \<Rightarrow> nat \<Rightarrow> nat \<Rightarrow> row_deltas \<Rightarrow> u32 list \<Rightarrow> (row_deltas \<times> u32 list) option" where
  "dense_run n_rows row_width k reshape_row [] dense = Some ([], dense)"
| "dense_run n_rows row_width k reshape_row ((row, cells) # rd) dense =
     (if row div k \<noteq> reshape_row then Some ((row, cells) # rd, dense)
      else do {
        assert_opt (row < n_rows);
        let off_within = (row mod k) * row_width;
        dense' \<leftarrow> fold_opt (\<lambda>(off, delta) dense. do {
            assert_opt (off < row_width);
            x \<leftarrow> nth_opt dense (off_within + off);
            upd_opt dense (off_within + off) (x + word_of_int delta)
          }) cells dense;
        dense_run n_rows row_width k reshape_row rd dense'
      })"

text \<open>Zeroing the touched offsets of a run again.\<close>

definition clear_run :: "nat \<Rightarrow> nat \<Rightarrow> row_deltas \<Rightarrow> u32 list \<Rightarrow> u32 list option" where
  "clear_run row_width k run =
     fold_opt (\<lambda>(row, cells). fold_opt (\<lambda>(off, _) dense. upd_opt dense ((row mod k) * row_width + off) 0) cells) run"

lemma dense_run_shrinks:
  "dense_run n w k R rd dense = Some (rest, dense') \<Longrightarrow> length rest \<le> length rd"
proof (induction rd arbitrary: dense)
  case (Cons x rd)
  obtain row cells where x: "x = (row, cells)" by (cases x)
  show ?case using Cons by (fastforce simp: x Let_def bind_eq_Some_conv split: if_splits)
qed simp

text \<open>The outer \<open>while\<close>. The first delta of a run always belongs to it, so each turn consumes one.\<close>

function simple_row_runs ::
  "u32 list \<Rightarrow> nat \<Rightarrow> nat \<Rightarrow> nat \<Rightarrow> nat \<Rightarrow> nat \<Rightarrow> row_deltas \<Rightarrow> u32 list \<Rightarrow> u32 list \<Rightarrow> u32 list option" where
  "simple_row_runs a lwe_dim n_rows row_width k reshape_row_width [] dense hint = Some hint"
| "simple_row_runs a lwe_dim n_rows row_width k reshape_row_width ((row, cells) # rd) dense hint =
     (let reshape_row = row div k in
      case dense_run n_rows row_width k reshape_row ((row, cells) # rd) dense of
        None \<Rightarrow> None
      | Some (rest, dense1) \<Rightarrow>
          (case slice_opt a (reshape_row * lwe_dim) lwe_dim of
             None \<Rightarrow> None
           | Some a_row \<Rightarrow>
               (case for_hint_rows lwe_dim reshape_row_width a_row (add_scaled 0 dense1) hint of
                  None \<Rightarrow> None
                | Some hint1 \<Rightarrow>
                    (let run = take (length ((row, cells) # rd) - length rest) ((row, cells) # rd) in
                     case clear_run row_width k run dense1 of
                       None \<Rightarrow> None
                     | Some dense2 \<Rightarrow>
                         simple_row_runs a lwe_dim n_rows row_width k reshape_row_width rest dense2 hint1))))"
  by pat_completeness auto
termination
proof (relation "measure (\<lambda>(a, lwe_dim, n_rows, row_width, k, w, rd, dense, hint). length rd)", goal_cases)
  case (2 a lwe_dim n_rows row_width k w row cells rd dense hint R x2 rest dense1)
  then have "dense_run n_rows row_width k (row div k) ((row, cells) # rd) dense = Some (rest, dense1)" by simp
  then obtain dense' where "dense_run n_rows row_width k (row div k) rd dense' = Some (rest, dense1)"
    by (auto simp: Let_def bind_eq_Some_conv)
  from dense_run_shrinks [OF this] show ?case by simp
qed simp

definition simple_patch_row_level ::
  "u32 list \<Rightarrow> nat \<Rightarrow> nat \<Rightarrow> nat \<Rightarrow> nat \<Rightarrow> nat \<Rightarrow> nat \<Rightarrow> u32 list \<Rightarrow> row_deltas \<Rightarrow> u32 list option" where
  "simple_patch_row_level a lwe_dim n_rows row_width k reshape_rows reshape_row_width hint rd =
     do {
       assert_opt (length a = reshape_rows * lwe_dim);
       assert_opt (length hint = lwe_dim * reshape_row_width);
       assert_opt (rd = [] \<or> 0 < k);
       simple_row_runs a lwe_dim n_rows row_width k reshape_row_width rd (replicate reshape_row_width 0) hint
     }"

definition simple_apply_patch ::
  "u32 list \<Rightarrow> nat \<Rightarrow> nat \<Rightarrow> nat \<Rightarrow> nat \<Rightarrow> nat \<Rightarrow> nat \<Rightarrow> u32 list \<Rightarrow> row_deltas \<Rightarrow> hint_patch_mode \<Rightarrow> u32 list option" where
  "simple_apply_patch a lwe_dim n_rows row_width k reshape_rows reshape_row_width hint rd mode =
     (case mode of
        EntryLevel \<Rightarrow> simple_patch_entry_level a lwe_dim n_rows row_width k reshape_rows reshape_row_width hint rd
      | RowLevel \<Rightarrow> simple_patch_row_level a lwe_dim n_rows row_width k reshape_rows reshape_row_width hint rd)"

definition simple_patch_slot_c ::
  "u32 list \<Rightarrow> nat \<Rightarrow> nat \<Rightarrow> nat \<Rightarrow> nat \<Rightarrow> row_deltas \<Rightarrow> prepared_slot \<Rightarrow> prepared_slot option" where
  "simple_patch_slot_c a lwe_dim row_width k reshape_row_width rd slot =
     (case ps_c slot of
        None \<Rightarrow> Some slot
      | Some c \<Rightarrow> do {
          assert_opt (length c = reshape_row_width);
          assert_opt (length (ps_secret slot) = lwe_dim);
          c' \<leftarrow> fold_opt (\<lambda>(row, cells) c. do {
              assert_opt (0 < k);
              let reshape_row = fst (translate_cell row 0 k row_width);
              a_row \<leftarrow> slice_opt a (reshape_row * lwe_dim) lwe_dim;
              let d = dot (ps_secret slot) a_row;
              fold_opt (\<lambda>(off, delta) c.
                if delta = 0 then Some c
                else do {
                  let reshape_off = snd (translate_cell row off k row_width);
                  x \<leftarrow> nth_opt c reshape_off;
                  upd_opt c reshape_off (x + d * word_of_int delta)
                }) cells c
            }) rd c;
          Some (slot\<lparr> ps_c := Some c' \<rparr>)
        })"

definition simple_server_patch_hint ::
  "'sg simple_server_params \<Rightarrow> u32 list \<Rightarrow> u32 list \<Rightarrow> row_deltas \<Rightarrow> hint_patch_mode \<Rightarrow> u32 list option" where
  "simple_server_patch_hint sp a hint rd mode =
     simple_apply_patch a (sp_lwe_dim (srv_params sp)) (srv_n_rows sp) (srv_row_width sp) (srv_k sp)
       (srv_reshape_rows sp) (srv_reshape_row_width sp) hint rd mode"

definition simple_client_patch_state :: "'sg simple_client \<Rightarrow> row_deltas \<Rightarrow> hint_patch_mode \<Rightarrow> 'sg simple_client option" where
  "simple_client_patch_state cs rd mode =
     do {
       let sp = sc_params cs;
       let lwe_dim = sp_lwe_dim (srv_params sp);
       hint \<leftarrow> simple_apply_patch (sc_hint_material cs) lwe_dim (srv_n_rows sp) (srv_row_width sp) (srv_k sp)
         (srv_reshape_rows sp) (srv_reshape_row_width sp) (sc_hint cs) rd mode;
       (prepared, in_flight) \<leftarrow> map_slots_within
         (simple_patch_slot_c (sc_hint_material cs) lwe_dim (srv_row_width sp) (srv_k sp) (srv_reshape_row_width sp) rd)
         (sc_prepared cs) (sc_in_flight cs);
       Some (cs\<lparr> sc_hint := hint, sc_prepared := prepared, sc_in_flight := in_flight \<rparr>)
     }"

definition simple_rewind_response ::
  "'sg simple_client \<Rightarrow> u32 list \<Rightarrow> u32 list \<Rightarrow> ((nat \<times> nat) \<times> int) list \<Rightarrow> u32 list option" where
  "simple_rewind_response cs q resp ds =
     (let k = srv_k (sc_params cs); row_width = srv_row_width (sc_params cs) in
      fold_opt (\<lambda>((row, off), d) resp. do {
          assert_opt (0 < k);
          let big_r = row div k;
          let big_c = (row mod k) * row_width + off;
          qr \<leftarrow> nth_opt q big_r;
          x \<leftarrow> nth_opt resp big_c;
          upd_opt resp big_c (x - qr * word_of_int d)
        }) ds resp)"

definition simple_backend ::
  "'sg float_ops \<Rightarrow> bool \<Rightarrow> (u8 list \<Rightarrow> nat \<Rightarrow> u32) \<Rightarrow> ('g \<Rightarrow> u32 \<times> 'g) \<Rightarrow> ('g \<Rightarrow> u64 \<times> 'g) \<Rightarrow> (nat \<Rightarrow> 'g \<Rightarrow> u8 list \<times> 'g) \<Rightarrow>
    ('sg simple_config, 'sg simple_server_params, u32 list, u32 list, 'sg simple_client, u32 list, u32 list, 'g) backend" where
  "simple_backend fo x86 chacha next_u32 next_u64 fill_bytes =
     \<lparr> be_server_setup = simple_server_setup fo chacha fill_bytes,
       be_expand_hint_material = simple_expand_hint_material chacha,
       be_client_setup = simple_client_setup chacha,
       be_client_query = simple_client_query fo next_u32 next_u64,
       be_server_answer = simple_server_answer x86,
       be_client_decode = simple_client_decode x86,
       be_server_patch_hint = simple_server_patch_hint,
       be_client_patch_state = simple_client_patch_state,
       be_precompute_queries = simple_precompute_queries fo next_u32 next_u64,
       be_precompute_decodes = simple_precompute_decodes x86,
       be_rewind_response = simple_rewind_response \<rparr>"

end
