(* ===== verification/Ordered_Map.thy ===== *)
theory Ordered_Map
  imports Prelude "HOL-Library.Product_Lexorder"
begin

text \<open>
  \<open>BTreeMap\<close> of the standard library, as the list of its entries in ascending order of keys:
  \<open>map_of\<close> is \<open>get\<close>, iteration is the list itself, and \<open>bt_insert\<close> and \<open>bt_remove\<close> keep the order.
  Also the checked \<open>i64\<close> addition the delta maps use.
\<close>

definition bt_ok :: "('k :: linorder \<times> 'v) list \<Rightarrow> bool" where
  "bt_ok m \<longleftrightarrow> sorted_wrt (<) (map fst m)"

primrec bt_insert :: "'k :: linorder \<Rightarrow> 'v \<Rightarrow> ('k \<times> 'v) list \<Rightarrow> ('k \<times> 'v) list" where
  "bt_insert k v [] = [(k, v)]"
| "bt_insert k v (x # m) =
     (if k < fst x then (k, v) # x # m else if k = fst x then (k, v) # m else x # bt_insert k v m)"

primrec bt_remove :: "'k :: linorder \<Rightarrow> ('k \<times> 'v) list \<Rightarrow> ('k \<times> 'v) list" where
  "bt_remove k [] = []"
| "bt_remove k (x # m) = (if k = fst x then m else x # bt_remove k m)"

lemma bt_ok_Nil [simp]: "bt_ok []"
  by (simp add: bt_ok_def)

lemma bt_ok_Cons: "bt_ok (x # m) \<longleftrightarrow> bt_ok m \<and> (\<forall>y \<in> set m. fst x < fst y)"
  by (auto simp: bt_ok_def)

lemma bt_ok_distinct: "bt_ok m \<Longrightarrow> distinct (map fst m)"
  by (induction m) (auto simp: bt_ok_Cons)

lemma bt_insert_keys: "fst ` set (bt_insert k v m) = insert k (fst ` set m)"
  by (induction m) auto

lemma bt_insert_in: "(k', v') \<in> set (bt_insert k v m) \<Longrightarrow> (k', v') = (k, v) \<or> (k', v') \<in> set m"
  by (induction m) (auto split: if_splits)

lemma bt_insert_ok: "bt_ok m \<Longrightarrow> bt_ok (bt_insert k v m)"
proof (induction m)
  case (Cons x m)
  have "\<forall>y \<in> set (bt_insert k v m). fst x < fst y" if "fst x < k"
    using Cons.prems that bt_insert_keys [of k v m] by (force simp: bt_ok_Cons)
  then show ?case using Cons by (auto simp: bt_ok_Cons not_less le_less)
qed (simp add: bt_ok_Cons)

lemma map_of_bt_insert: "bt_ok m \<Longrightarrow> map_of (bt_insert k v m) = (map_of m)(k \<mapsto> v)"
proof (induction m)
  case (Cons x m)
  then show ?case by (cases x) (auto simp: bt_ok_Cons fun_eq_iff)
qed simp

lemma map_of_below: "bt_ok (x # m) \<Longrightarrow> k \<le> fst x \<Longrightarrow> map_of m k = None"
  by (auto simp: bt_ok_Cons map_of_eq_None_iff)

lemma bt_remove_subset: "set (bt_remove k m) \<subseteq> set m"
  by (induction m) auto

lemma bt_remove_ok: "bt_ok m \<Longrightarrow> bt_ok (bt_remove k m)"
  using bt_remove_subset by (induction m) (fastforce simp: bt_ok_Cons)+

lemma map_of_bt_remove: "bt_ok m \<Longrightarrow> map_of (bt_remove k m) = (map_of m)(k := None)"
proof (induction m)
  case (Cons x m)
  then show ?case using map_of_below [OF Cons.prems, of k] by (cases x) (auto simp: bt_ok_Cons fun_eq_iff)
qed simp

lemma bt_ok_filter: "bt_ok m \<Longrightarrow> bt_ok (filter P m)"
  by (induction m) (auto simp: bt_ok_Cons)

section \<open>Checked addition of signed 64-bit integers\<close>

definition i64_ok :: "int \<Rightarrow> bool" where
  "i64_ok x \<longleftrightarrow> - (2 ^ 63) \<le> x \<and> x < 2 ^ 63"

definition checked_add_i64 :: "int \<Rightarrow> int \<Rightarrow> int option" where
  "checked_add_i64 x y = (if i64_ok (x + y) then Some (x + y) else None)"

section \<open>Maps of deltas\<close>

text \<open>An absent key counts as a zero delta.\<close>

definition bt_delta :: "('k \<times> int) list \<Rightarrow> 'k \<Rightarrow> int" where
  "bt_delta m k = (case map_of m k of None \<Rightarrow> 0 | Some d \<Rightarrow> d)"

lemma bt_delta_Nil [simp]: "bt_delta [] k = 0"
  by (simp add: bt_delta_def)

lemma bt_delta_insert: "bt_ok m \<Longrightarrow> bt_delta (bt_insert k v m) k' = (if k' = k then v else bt_delta m k')"
  by (simp add: bt_delta_def map_of_bt_insert)

lemma bt_delta_remove: "bt_ok m \<Longrightarrow> bt_delta (bt_remove k m) k' = (if k' = k then 0 else bt_delta m k')"
  by (simp add: bt_delta_def map_of_bt_remove)

lemma bt_delta_in: "bt_ok m \<Longrightarrow> (k, d) \<in> set m \<Longrightarrow> bt_delta m k = d"
  using map_of_is_SomeI [OF bt_ok_distinct] by (fastforce simp: bt_delta_def)

text \<open>With distinct keys, the sum over the entries of a key is its one delta.\<close>

lemma bt_delta_sum:
  assumes "bt_ok m"
  shows "(\<Sum>(k', d) \<leftarrow> m. if k' = k then d else 0) = bt_delta m k"
  using assms
proof (induction m)
  case (Cons x m)
  show ?case
  proof (cases "fst x = k")
    case True
    then have "bt_delta m k = 0" using map_of_below [OF Cons.prems, of k] by (simp add: bt_delta_def)
    then show ?thesis using True Cons by (cases x) (simp add: bt_delta_def bt_ok_Cons)
  next
    case False
    then show ?thesis using Cons by (cases x) (simp add: bt_delta_def bt_ok_Cons)
  qed
qed simp

end
