(* ===== verification/Cell_Bits.thy ===== *)
theory Cell_Bits
  imports Prelude
begin

text \<open>
  Bit fields packed into cells of \<open>pb\<close> bits each. \<open>slot_read_bits\<close> and \<open>slot_write_bits\<close> of
  \<open>segmented-cuckoo/src/store.rs\<close> work on the cells of one slot; \<open>read_bits\<close> and
  \<open>write_bits\<close> of \<open>fingerprint_value_table.rs\<close> are the same loops over the whole table's cells.
  The lemmas reduce both to the bits of one stream: bit \<open>k\<close> of the stream is bit \<open>k mod pb\<close> of
  cell \<open>k div pb\<close>.
\<close>

section \<open>The loops\<close>

function read_more :: "u32 list \<Rightarrow> nat \<Rightarrow> nat \<Rightarrow> u64 \<Rightarrow> nat \<Rightarrow> nat \<Rightarrow> u64 option" where
  "read_more cells n_bits pb acc filled cell_idx =
     (if filled < n_bits then
        do {
          v \<leftarrow> nth_opt cells cell_idx;
          read_more cells n_bits pb (acc OR push_bit filled (ucast v)) (filled + pb) (cell_idx + 1)
        }
      else Some acc)"
  by pat_completeness auto
termination
  by (relation "measure (\<lambda>(cells, _, _, _, _, cell_idx). length cells - cell_idx)")
     (auto simp: nth_opt_eq_Some)

declare read_more.simps [simp del]

definition slot_read_bits :: "u32 list \<Rightarrow> nat \<Rightarrow> nat \<Rightarrow> nat \<Rightarrow> u64 option" where
  "slot_read_bits cells bit_offset n_bits pb =
     do {
       assert_opt (0 < pb);
       let cell_idx = bit_offset div pb;
       let intra_start = bit_offset mod pb;
       v \<leftarrow> nth_opt cells cell_idx;
       acc \<leftarrow> read_more cells n_bits pb (drop_bit intra_start (ucast v)) (pb - intra_start) (cell_idx + 1);
       assert_opt (1 \<le> n_bits \<and> n_bits \<le> 64);
       Some (acc AND drop_bit (64 - n_bits) (- 1))
     }"

text \<open>One iteration of the write loop: the new cell and the number of bits it took.\<close>

definition write_cell :: "nat \<Rightarrow> nat \<Rightarrow> nat \<Rightarrow> u64 \<Rightarrow> nat \<Rightarrow> nat \<Rightarrow> u32 \<Rightarrow> u32 \<times> nat" where
  "write_cell cell_idx bit_offset n_bits val pb value_bit_pos c =
     (let cell_base_bit = cell_idx * pb;
          lo = (if bit_offset > cell_base_bit then bit_offset - cell_base_bit else 0);
          hi = min (bit_offset + n_bits) (cell_base_bit + pb) - cell_base_bit;
          n = hi - lo;
          msk = push_bit n 1 - 1 :: u64;
          v_bits = ucast (drop_bit value_bit_pos val AND msk) :: u32;
          placed = push_bit lo v_bits;
          cell_mask = push_bit lo (ucast msk :: u32)
      in ((c AND NOT cell_mask) OR placed, n))"

primrec write_cells :: "nat list \<Rightarrow> nat \<Rightarrow> nat \<Rightarrow> u64 \<Rightarrow> nat \<Rightarrow> nat \<Rightarrow> u32 list \<Rightarrow> u32 list option" where
  "write_cells [] bit_offset n_bits val pb value_bit_pos cells = Some cells"
| "write_cells (cell_idx # idxs) bit_offset n_bits val pb value_bit_pos cells =
     do {
       c \<leftarrow> nth_opt cells cell_idx;
       let (c', n) = write_cell cell_idx bit_offset n_bits val pb value_bit_pos c;
       write_cells idxs bit_offset n_bits val pb (value_bit_pos + n) (cells[cell_idx := c'])
     }"

definition slot_write_bits :: "u32 list \<Rightarrow> nat \<Rightarrow> nat \<Rightarrow> u64 \<Rightarrow> nat \<Rightarrow> u32 list option" where
  "slot_write_bits cells bit_offset n_bits val pb =
     do {
       assert_opt (0 < pb);
       write_cells [bit_offset div pb ..< div_ceil (bit_offset + n_bits) pb]
         bit_offset n_bits val pb 0 cells
     }"

section \<open>Streams of cell bits\<close>

text \<open>Every cell keeps its bits from \<open>pb\<close> on at zero.\<close>

definition cells_ok :: "nat \<Rightarrow> u32 list \<Rightarrow> bool" where
  "cells_ok pb cells \<longleftrightarrow> (\<forall>c \<in> set cells. fits pb c)"

definition cbit :: "nat \<Rightarrow> u32 list \<Rightarrow> nat \<Rightarrow> bool" where
  "cbit pb cells k \<longleftrightarrow> bit (cells ! (k div pb)) (k mod pb)"

lemma cells_ok_nth: "cells_ok pb cells \<Longrightarrow> i < length cells \<Longrightarrow> fits pb (cells ! i)"
  by (simp add: cells_ok_def)

lemma cells_ok_bit: "cells_ok pb cells \<Longrightarrow> i < length cells \<Longrightarrow> bit (cells ! i) j \<Longrightarrow> j < pb"
  using cells_ok_nth fits_bit by blast

lemma cells_okI: "(\<And>i j. i < length cells \<Longrightarrow> bit (cells ! i) j \<Longrightarrow> j < pb) \<Longrightarrow> cells_ok pb cells"
  by (auto simp: cells_ok_def fits_bit in_set_conv_nth)

lemma cells_ok_replicate [simp]: "cells_ok pb (replicate n 0)"
  by (simp add: cells_ok_def)

lemma cbit_cell: "j < pb \<Longrightarrow> cbit pb cells (i * pb + j) = bit (cells ! i) j"
  by (simp add: cbit_def)

text \<open>Cells are determined by their stream.\<close>

lemma cells_eq_streamI:
  assumes "length xs = length ys" "cells_ok pb xs" "cells_ok pb ys"
    and "\<And>k. k < length xs * pb \<Longrightarrow> cbit pb xs k \<longleftrightarrow> cbit pb ys k"
  shows "xs = ys"
proof (rule list_eq_nthI [OF assms(1)])
  fix i assume i: "i < length xs"
  show "xs ! i = ys ! i"
  proof (rule word_eq_bitI)
    fix j
    show "bit (xs ! i) j \<longleftrightarrow> bit (ys ! i) j"
    proof (cases "j < pb")
      case True
      with i assms(4) [of "i * pb + j"] show ?thesis
        by (simp add: cbit_cell mult_add_less)
    next
      case False
      with cells_ok_bit [OF assms(2), of i j] cells_ok_bit [OF assms(3), of i j] i assms(1)
      show ?thesis by auto
    qed
  qed
qed

section \<open>Reading a field\<close>

lemma read_more_spec:
  assumes "0 < pb" "cells_ok pb cells" "off + n \<le> length cells * pb"
    and "cell_idx * pb = off + filled"
    and "\<And>j. j < 64 \<Longrightarrow> bit acc j \<longleftrightarrow> j < filled \<and> cbit pb cells (off + j)"
  shows "\<exists>r. read_more cells n pb acc filled cell_idx = Some r \<and>
           (\<forall>j < n. j < 64 \<longrightarrow> (bit r j \<longleftrightarrow> cbit pb cells (off + j)))"
  using assms
proof (induction cells n pb acc filled cell_idx rule: read_more.induct)
  case (1 cells n pb acc filled ci)
  show ?case
  proof (cases "filled < n")
    case False
    with "1.prems" show ?thesis by (subst read_more.simps) auto
  next
    case True
    have ci: "ci < length cells"
    proof (rule ccontr)
      assume "\<not> ci < length cells"
      then have "length cells * pb \<le> ci * pb" by simp
      with True "1.prems"(3,4) show False by linarith
    qed
    let ?acc = "acc OR push_bit filled (ucast (cells ! ci))"
    have acc: "bit ?acc j \<longleftrightarrow> j < filled + pb \<and> cbit pb cells (off + j)" if j: "j < 64" for j
    proof (cases "j < filled")
      case True
      with "1.prems"(5) [OF j] show ?thesis by (auto simp: bit_or_iff bit_push_bit_iff)
    next
      case False
      then obtain d where d: "j = filled + d" using le_iff_add by (auto simp: not_less)
      have "bit ?acc j \<longleftrightarrow> bit (cells ! ci) d \<and> d < 64"
        using "1.prems"(5) [OF j] d j by (auto simp: bit_or_iff bit_push_bit_iff)
      moreover have "cbit pb cells (off + j) = bit (cells ! ci) d" if "d < pb"
      proof -
        have "off + j = ci * pb + d" using "1.prems"(4) d by simp
        then show ?thesis using that by (simp add: cbit_cell)
      qed
      moreover have "d < pb" if "bit (cells ! ci) d"
        using cells_ok_bit [OF "1.prems"(2) ci that] .
      ultimately show ?thesis using d j by auto
    qed
    have "\<exists>r. read_more cells n pb ?acc (filled + pb) (ci + 1) = Some r \<and>
           (\<forall>j < n. j < 64 \<longrightarrow> (bit r j \<longleftrightarrow> cbit pb cells (off + j)))"
      by (rule "1.IH") (use True ci "1.prems" acc in \<open>auto simp: nth_opt_eq_Some\<close>)
    with True ci show ?thesis by (subst read_more.simps) simp
  qed
qed

theorem slot_read_bits_spec:
  assumes "0 < pb" "cells_ok pb cells" "1 \<le> n" "n \<le> 64" "off + n \<le> length cells * pb"
  shows "\<exists>r. slot_read_bits cells off n pb = Some r \<and>
           (\<forall>j. bit r j \<longleftrightarrow> j < n \<and> cbit pb cells (off + j))"
proof -
  let ?ci = "off div pb" and ?is = "off mod pb"
  have "off < length cells * pb" using assms(3,5) by linarith
  then have ci: "?ci < length cells" using assms(1) by (simp add: div_less_iff_less_mult)
  have off: "off = ?ci * pb + ?is" by simp
  have "\<exists>r. read_more cells n pb (drop_bit ?is (ucast (cells ! ?ci))) (pb - ?is) (?ci + 1) = Some r \<and>
           (\<forall>j < n. j < 64 \<longrightarrow> (bit r j \<longleftrightarrow> cbit pb cells (off + j)))"
  proof (rule read_more_spec [OF assms(1,2,5)])
    have "?is < pb" using assms(1) by simp
    moreover have "(?ci + 1) * pb = ?ci * pb + pb" by simp
    ultimately show "(?ci + 1) * pb = off + (pb - ?is)"
      using off by linarith
    fix j :: nat assume "j < 64"
    have "cbit pb cells (off + j) = bit (cells ! ?ci) (?is + j)" if "?is + j < pb"
      using cbit_cell [OF that, of cells ?ci] off by (metis add.assoc)
    moreover have "?is + j < pb" if "bit (cells ! ?ci) (?is + j)"
      using cells_ok_bit [OF assms(2) ci that] .
    moreover have "?is + j < 64" if "bit (cells ! ?ci) (?is + j)"
      using bit_word_lt [OF that] by simp
    ultimately show "bit (drop_bit ?is (ucast (cells ! ?ci)) :: u64) j \<longleftrightarrow>
        j < pb - ?is \<and> cbit pb cells (off + j)"
      by (auto simp: bit_drop_bit_eq)
  qed
  then obtain r where
    "read_more cells n pb (drop_bit ?is (ucast (cells ! ?ci))) (pb - ?is) (?ci + 1) = Some r"
    and "\<And>j. j < n \<Longrightarrow> bit r j \<longleftrightarrow> cbit pb cells (off + j)"
    using assms(4) by auto
  with assms ci show ?thesis
    by (auto simp: slot_read_bits_def bit_and_iff bit_mask_iff)
qed

section \<open>Writing a field\<close>

lemma write_cell_spec:
  assumes "0 < pb" "pb \<le> 32" "off < ci * pb + pb" "ci * pb < off + n" "vpos = ci * pb - off"
  shows "snd (write_cell ci off n val pb vpos c) = min (off + n) (ci * pb + pb) - max off (ci * pb)"
    and "bit (fst (write_cell ci off n val pb vpos c)) j \<longleftrightarrow>
      (if j < pb \<and> off \<le> ci * pb + j \<and> ci * pb + j < off + n then bit val (ci * pb + j - off)
       else bit c j)"
proof -
  define base where "base = ci * pb"
  define lo where "lo = (if off > base then off - base else 0)"
  define k where "k = min (off + n) (base + pb) - base - lo"
  define placed where
    "placed = push_bit lo (ucast (drop_bit vpos val AND (push_bit k 1 - 1)) :: u32)"
  define cm where "cm = push_bit lo (ucast (push_bit k 1 - 1 :: u64) :: u32)"
  have wc: "write_cell ci off n val pb vpos c = ((c AND NOT cm) OR placed, k)"
    by (simp add: write_cell_def Let_def base_def lo_def k_def placed_def cm_def)
  have lok: "lo + k \<le> pb" using assms(3,4) by (auto simp: lo_def k_def base_def)
  show "snd (write_cell ci off n val pb vpos c) = min (off + n) (ci * pb + pb) - max off (ci * pb)"
    using assms(3,4) by (auto simp: wc k_def lo_def base_def)
  have inside: "lo \<le> j \<and> j < lo + k \<longleftrightarrow> j < pb \<and> off \<le> base + j \<and> base + j < off + n"
    using assms(3,4) by (auto simp: lo_def k_def base_def)
  have pos: "vpos + (j - lo) = base + j - off" if "lo \<le> j"
    using that assms(5) by (auto simp: lo_def base_def)
  have cm: "bit cm j \<longleftrightarrow> lo \<le> j \<and> j < lo + k"
    using lok assms(2)
    by (auto simp: cm_def [unfolded push_bit_1_minus_1] bit_push_bit_iff bit_mask_iff)
  have pl: "bit placed j \<longleftrightarrow> lo \<le> j \<and> j < lo + k \<and> bit val (base + j - off)"
    using lok assms(2) pos
    by (auto simp: placed_def [unfolded push_bit_1_minus_1] bit_push_bit_iff bit_and_iff bit_mask_iff bit_drop_bit_eq)
  show "bit (fst (write_cell ci off n val pb vpos c)) j \<longleftrightarrow>
      (if j < pb \<and> off \<le> ci * pb + j \<and> ci * pb + j < off + n then bit val (ci * pb + j - off)
       else bit c j)"
  proof (cases "lo \<le> j \<and> j < lo + k")
    case True
    with inside cm pl show ?thesis by (simp add: wc bit_simps base_def)
  next
    case False
    with cm pl have nb: "\<not> bit cm j" "\<not> bit placed j" by blast+
    have "bit c j \<Longrightarrow> j < 32" using bit_word_lt [of c j] by simp
    with nb have "bit ((c AND NOT cm) OR placed) j \<longleftrightarrow> bit c j"
      by (simp add: bit_or_iff bit_and_iff bit_not_iff) blast
    moreover have "\<not> (j < pb \<and> off \<le> ci * pb + j \<and> ci * pb + j < off + n)"
      using False inside by (simp add: base_def)
    ultimately show ?thesis by (simp only: wc fst_conv if_False)
  qed
qed

lemma write_cells_spec:
  assumes "0 < pb" "pb \<le> 32" "endc \<le> length cells" "endc = div_ceil (off + n) pb"
    and "off div pb \<le> ci" "ci < endc \<longrightarrow> vpos = ci * pb - off"
  shows "\<exists>cs. write_cells [ci ..< endc] off n val pb vpos cells = Some cs \<and> length cs = length cells \<and>
           (\<forall>i < length cells. \<forall>j. bit (cs ! i) j \<longleftrightarrow>
              (if ci \<le> i \<and> j < pb \<and> off \<le> i * pb + j \<and> i * pb + j < off + n
               then bit val (i * pb + j - off) else bit (cells ! i) j))"
  using assms(3,5,6)
proof (induction "endc - ci" arbitrary: ci vpos cells)
  case 0
  have "off + n \<le> i * pb + j" if "ci \<le> i" for i j
  proof -
    have "off + n \<le> endc * pb" using div_ceil_mult_ge [OF assms(1)] assms(4) by simp
    also have "\<dots> \<le> i * pb" using 0 that by (intro mult_le_mono1) simp
    finally show ?thesis by simp
  qed
  with 0 show ?case by (auto simp: not_less [symmetric])
next
  case (Suc d)
  have ci: "ci < endc" "ci < length cells" using Suc.hyps(2) Suc.prems(1) by simp_all
  have off: "off < ci * pb + pb"
    using Suc.prems(2) assms(1) by (metis add.commute div_less_iff_less_mult le_imp_less_Suc mult_Suc)
  have lt: "ci * pb < off + n"
    using ci(1) assms(1,4) less_div_ceil_iff by blast
  have vp: "vpos = ci * pb - off" using Suc.prems(3) ci by simp
  obtain c' k where wc: "write_cell ci off n val pb vpos (cells ! ci) = (c', k)" by fastforce
  note spec = write_cell_spec [OF assms(1,2) off lt vp, of val "cells ! ci", unfolded wc fst_conv snd_conv]
  have next_pos: "Suc ci < endc \<longrightarrow> vpos + k = Suc ci * pb - off"
  proof
    assume "Suc ci < endc"
    then have "Suc ci * pb < off + n" using assms(1,4) less_div_ceil_iff by blast
    then show "vpos + k = Suc ci * pb - off" using spec(1) vp off by (auto simp: max_def min_def)
  qed
  have "\<exists>cs. write_cells [Suc ci ..< endc] off n val pb (vpos + k) (cells[ci := c']) = Some cs \<and>
          length cs = length (cells[ci := c']) \<and>
           (\<forall>i < length (cells[ci := c']). \<forall>j. bit (cs ! i) j \<longleftrightarrow>
              (if Suc ci \<le> i \<and> j < pb \<and> off \<le> i * pb + j \<and> i * pb + j < off + n
               then bit val (i * pb + j - off) else bit (cells[ci := c'] ! i) j))"
    using Suc.hyps(2) Suc.prems(1,2) next_pos by (intro Suc.hyps(1)) auto
  then obtain cs where cs: "write_cells [Suc ci ..< endc] off n val pb (vpos + k) (cells[ci := c']) = Some cs"
      "length cs = length cells"
    and bits: "\<And>i j. i < length cells \<Longrightarrow> bit (cs ! i) j \<longleftrightarrow>
              (if Suc ci \<le> i \<and> j < pb \<and> off \<le> i * pb + j \<and> i * pb + j < off + n
               then bit val (i * pb + j - off) else bit (cells[ci := c'] ! i) j)"
    by auto
  have "bit (cs ! i) j \<longleftrightarrow> (if ci \<le> i \<and> j < pb \<and> off \<le> i * pb + j \<and> i * pb + j < off + n
               then bit val (i * pb + j - off) else bit (cells ! i) j)" if "i < length cells" for i j
    using bits [OF that, of j] spec(2) [of j] that by (cases "i = ci") auto
  then show ?case using ci cs wc by (simp add: upt_conv_Cons)
qed

theorem slot_write_bits_spec:
  assumes "0 < pb" "pb \<le> 32" "off + n \<le> length cells * pb"
  shows "\<exists>cs. slot_write_bits cells off n val pb = Some cs \<and> length cs = length cells \<and>
           (\<forall>i < length cells. \<forall>j. bit (cs ! i) j \<longleftrightarrow>
              (if j < pb \<and> off \<le> i * pb + j \<and> i * pb + j < off + n
               then bit val (i * pb + j - off) else bit (cells ! i) j))"
proof -
  have "div_ceil (off + n) pb \<le> length cells" using assms div_ceil_le_iff by blast
  from write_cells_spec [OF assms(1,2) this refl order.refl, of 0 val]
  obtain cs where cs: "write_cells [off div pb ..< div_ceil (off + n) pb] off n val pb 0 cells = Some cs"
      "length cs = length cells"
    and bits: "\<And>i j. i < length cells \<Longrightarrow> bit (cs ! i) j \<longleftrightarrow>
              (if off div pb \<le> i \<and> j < pb \<and> off \<le> i * pb + j \<and> i * pb + j < off + n
               then bit val (i * pb + j - off) else bit (cells ! i) j)"
    by (auto simp: div_times_less_eq_dividend)
  have "off div pb \<le> i" if "j < pb" "off \<le> i * pb + j" for i j
    using that div_le_mono [OF that(2), of pb] by simp
  with bits cs assms(1) show ?thesis by (auto simp: slot_write_bits_def)
qed

text \<open>The write, stated on streams; a stream bit outside the field is untouched.\<close>

theorem slot_write_bits_stream:
  assumes "0 < pb" "pb \<le> 32" "off + n \<le> length cells * pb" "slot_write_bits cells off n val pb = Some cs"
  shows "length cs = length cells"
    and "cells_ok pb cells \<Longrightarrow> cells_ok pb cs"
    and "k < length cells * pb \<Longrightarrow>
      cbit pb cs k \<longleftrightarrow> (if off \<le> k \<and> k < off + n then bit val (k - off) else cbit pb cells k)"
proof -
  note spec = slot_write_bits_spec [OF assms(1-3), of val, unfolded assms(4) option.inject, simplified]
  show "length cs = length cells" using spec by simp
  show "cells_ok pb cs" if "cells_ok pb cells"
    using spec cells_ok_bit [OF that] by (intro cells_okI) metis
  show "cbit pb cs k \<longleftrightarrow> (if off \<le> k \<and> k < off + n then bit val (k - off) else cbit pb cells k)"
    if "k < length cells * pb"
  proof -
    have "k div pb < length cells" using that assms(1) by (simp add: div_less_iff_less_mult)
    with spec assms(1) show ?thesis by (simp add: cbit_def)
  qed
qed

lemma slot_write_bits_total [panic_free]:
  assumes "0 < pb" "pb \<le> 32" "off + n \<le> length cells * pb"
  obtains cs where "slot_write_bits cells off n val pb = Some cs"
  using slot_write_bits_spec [OF assms, of val] by blast

section \<open>Values spread over several cells\<close>

text \<open>
  A value of \<open>vb\<close> bits is a list of cells of \<open>pb\<close> bits, the last one ragged. The loop that
  writes the cells of a value into a slot is shared by \<open>write_value\<close> of
  \<open>fingerprint_value_table.rs\<close> and \<open>pack_slot_cells\<close> of \<open>store.rs\<close>.
\<close>

definition value_cell_bits :: "nat \<Rightarrow> nat \<Rightarrow> nat \<Rightarrow> nat" where
  "value_cell_bits vb pb i = min (vb - i * pb) pb"

primrec write_value_loop ::
  "nat list \<Rightarrow> u32 list \<Rightarrow> nat \<Rightarrow> nat \<Rightarrow> nat \<Rightarrow> u32 list \<Rightarrow> u32 list option" where
  "write_value_loop [] cells off0 vb pb val = Some cells"
| "write_value_loop (i # is) cells off0 vb pb val =
     do {
       v \<leftarrow> nth_opt val i;
       let n = value_cell_bits vb pb i;
       let masked = v AND ucast (push_bit n 1 - 1 :: u64);
       cells' \<leftarrow> slot_write_bits cells (off0 + i * pb) n (ucast masked) pb;
       write_value_loop is cells' off0 vb pb val
     }"

text \<open>Well-formed values: as many cells as needed, each cut to its width.\<close>

definition value_ok :: "nat \<Rightarrow> nat \<Rightarrow> u32 list \<Rightarrow> bool" where
  "value_ok vb pb v \<longleftrightarrow> length v = div_ceil vb pb \<and>
     (\<forall>i < length v. fits (value_cell_bits vb pb i) (v ! i))"

lemma value_ok_length: "value_ok vb pb v \<Longrightarrow> length v = div_ceil vb pb"
  by (simp add: value_ok_def)

lemma value_ok_zero [simp]: "value_ok vb pb (replicate (div_ceil vb pb) 0)"
  by (simp add: value_ok_def)

lemma value_cell_bits_le: "value_cell_bits vb pb i \<le> pb"
  by (simp add: value_cell_bits_def)

lemma value_cell_bits_less: "j < value_cell_bits vb pb i \<longleftrightarrow> j < pb \<and> i * pb + j < vb"
  by (auto simp: value_cell_bits_def less_diff_conv algebra_simps)

lemma value_ok_cells: "value_ok vb pb v \<Longrightarrow> cells_ok pb v"
proof (rule cells_okI)
  fix i j assume "value_ok vb pb v" "i < length v" "bit (v ! i) j"
  then have "j < value_cell_bits vb pb i" unfolding value_ok_def fits_bit by blast
  then show "j < pb" by (simp add: value_cell_bits_less)
qed

lemma value_eq_streamI:
  assumes "0 < pb" "value_ok vb pb v" "value_ok vb pb w" "\<And>k. k < vb \<Longrightarrow> cbit pb v k \<longleftrightarrow> cbit pb w k"
  shows "v = w"
proof (rule list_eq_nthI)
  show "length v = length w" using assms(2,3) by (simp add: value_ok_def)
  fix i assume i: "i < length v"
  show "v ! i = w ! i"
  proof (rule word_eq_bitI)
    fix j
    show "bit (v ! i) j \<longleftrightarrow> bit (w ! i) j"
    proof (cases "j < value_cell_bits vb pb i")
      case True
      then have "j < pb" "i * pb + j < vb" by (simp_all add: value_cell_bits_less)
      with assms(4) [of "i * pb + j"] show ?thesis by (simp add: cbit_cell)
    next
      case False
      with i assms(2,3) show ?thesis by (auto simp: value_ok_def fits_bit)
    qed
  qed
qed

text \<open>The stream after the first \<open>m\<close> cells of a value are written.\<close>

lemma write_value_loop_spec:
  assumes pb: "0 < pb" "pb \<le> 32" and sz: "off0 + vb \<le> length cells * pb"
    and len: "length val = div_ceil vb pb" and m: "m \<le> div_ceil vb pb"
  shows "\<exists>cs. write_value_loop [m ..< div_ceil vb pb] cells off0 vb pb val = Some cs \<and>
     length cs = length cells \<and> (cells_ok pb cells \<longrightarrow> cells_ok pb cs) \<and>
     (\<forall>k < length cells * pb. cbit pb cs k \<longleftrightarrow>
        (if off0 + m * pb \<le> k \<and> k < off0 + vb then cbit pb val (k - off0) else cbit pb cells k))"
  using m sz
proof (induction "div_ceil vb pb - m" arbitrary: m cells)
  case 0
  have "vb \<le> div_ceil vb pb * pb" using div_ceil_mult_ge [OF pb(1)] .
  moreover have m: "div_ceil vb pb = m" using 0 by simp
  ultimately have "\<not> (off0 + m * pb \<le> k \<and> k < off0 + vb)" for k by simp
  then show ?case unfolding m by (auto simp del: not_le not_less)
next
  case (Suc d)
  have m: "m < div_ceil vb pb" using Suc.hyps(2) by simp
  then have mv: "m * pb < vb" using less_div_ceil_iff [OF pb(1)] by blast
  define n where "n = value_cell_bits vb pb m"
  have n: "n \<le> pb" "m * pb + n \<le> vb" "m * pb + n = vb \<or> n = pb"
    using mv by (auto simp: n_def value_cell_bits_def)
  have sz: "off0 + m * pb + n \<le> length cells * pb" using n(2) Suc.prems(2) by linarith
  define masked where "masked = val ! m AND ucast (push_bit n 1 - 1 :: u64)"
  have bm: "bit masked j \<longleftrightarrow> j < n \<and> bit (val ! m) j" for j
  proof -
    have "bit (val ! m) j \<Longrightarrow> j < 32" using bit_word_lt [of "val ! m" j] by simp
    then show ?thesis
      using n(1) pb(2) by (auto simp: masked_def [unfolded push_bit_1_minus_1] bit_and_iff bit_mask_iff)
  qed
  obtain c1 where c1: "slot_write_bits cells (off0 + m * pb) n (ucast masked) pb = Some c1"
    using slot_write_bits_total [OF pb sz] by blast
  note st = slot_write_bits_stream [OF pb sz c1]
  have "\<exists>cs. write_value_loop [Suc m ..< div_ceil vb pb] c1 off0 vb pb val = Some cs \<and>
     length cs = length c1 \<and> (cells_ok pb c1 \<longrightarrow> cells_ok pb cs) \<and>
     (\<forall>k < length c1 * pb. cbit pb cs k \<longleftrightarrow>
        (if off0 + Suc m * pb \<le> k \<and> k < off0 + vb then cbit pb val (k - off0) else cbit pb c1 k))"
    using Suc.hyps(2) Suc.prems(2) m st(1) by (intro Suc.hyps(1)) auto
  then obtain cs where cs: "write_value_loop [Suc m ..< div_ceil vb pb] c1 off0 vb pb val = Some cs"
      "length cs = length cells" "cells_ok pb c1 \<longrightarrow> cells_ok pb cs"
    and bits: "\<And>k. k < length cells * pb \<Longrightarrow> cbit pb cs k \<longleftrightarrow>
        (if off0 + Suc m * pb \<le> k \<and> k < off0 + vb then cbit pb val (k - off0) else cbit pb c1 k)"
    unfolding st(1) by blast
  have "cbit pb cs k \<longleftrightarrow>
        (if off0 + m * pb \<le> k \<and> k < off0 + vb then cbit pb val (k - off0) else cbit pb cells k)"
    if k: "k < length cells * pb" for k
  proof (cases "off0 + m * pb \<le> k \<and> k < off0 + m * pb + n")
    case True
    define j where "j = k - (off0 + m * pb)"
    have j: "j < n" "k = off0 + (m * pb + j)" using True by (auto simp: j_def)
    have "cbit pb cs k \<longleftrightarrow> bit (ucast masked :: u64) j"
      using bits [OF k] st(3) [OF k] True n(1) by (auto simp: j_def)
    also have "\<dots> \<longleftrightarrow> bit (val ! m) j" using bm [of j] j(1) n(1) pb(2) by (simp add: bit_ucast_iff)
    also have "\<dots> \<longleftrightarrow> cbit pb val (k - off0)" using j n(1) by (simp add: cbit_cell)
    finally show ?thesis using True n(2) by auto
  next
    case False
    with bits [OF k] st(3) [OF k] n mv show ?thesis by auto
  qed
  then show ?case
    using m len c1 cs st(2) by (simp add: upt_conv_Cons masked_def n_def Let_def)
qed

lemmas write_value_loop_all = write_value_loop_spec [where m = 0, simplified]

text \<open>Reading the cells of a value one by one.\<close>

definition read_value_cell :: "u32 list \<Rightarrow> nat \<Rightarrow> nat \<Rightarrow> nat \<Rightarrow> nat \<Rightarrow> u32 option" where
  "read_value_cell cells off0 vb pb i =
     do { r \<leftarrow> slot_read_bits cells (off0 + i * pb) (value_cell_bits vb pb i) pb; Some (ucast r) }"

lemma slot_read_bits_iff:
  assumes "0 < pb" "cells_ok pb cells" "1 \<le> n" "n \<le> 64" "off + n \<le> length cells * pb"
  shows "slot_read_bits cells off n pb = Some r \<longleftrightarrow> (\<forall>j. bit r j \<longleftrightarrow> j < n \<and> cbit pb cells (off + j))"
proof -
  obtain r0 where r0: "slot_read_bits cells off n pb = Some r0"
      "\<And>j. bit r0 j \<longleftrightarrow> j < n \<and> cbit pb cells (off + j)"
    using slot_read_bits_spec [OF assms] by blast
  have "r0 = r \<longleftrightarrow> (\<forall>j. bit r j \<longleftrightarrow> j < n \<and> cbit pb cells (off + j))"
  proof
    assume a: "\<forall>j. bit r j \<longleftrightarrow> j < n \<and> cbit pb cells (off + j)"
    show "r0 = r" by (rule word_eq_bitI) (simp only: a r0(2))
  qed (use r0(2) in blast)
  with r0(1) show ?thesis by simp
qed

lemma read_value_cell_iff:
  assumes "0 < pb" "pb \<le> 32" "cells_ok pb cells" "off0 + vb \<le> length cells * pb" "i < div_ceil vb pb"
  shows "read_value_cell cells off0 vb pb i = Some c \<longleftrightarrow>
    (\<forall>j. bit c j \<longleftrightarrow> j < value_cell_bits vb pb i \<and> cbit pb cells (off0 + i * pb + j))"
proof -
  let ?n = "value_cell_bits vb pb i"
  have "i * pb < vb" using assms(5) less_div_ceil_iff [OF assms(1)] by blast
  then have n: "1 \<le> ?n" "?n \<le> pb" "i * pb + ?n \<le> vb" using assms(1) by (auto simp: value_cell_bits_def)
  have "off0 + i * pb + ?n \<le> length cells * pb" using n(3) assms(4) by linarith
  from slot_read_bits_spec [OF assms(1,3) n(1) _ this] n(2) assms(2)
  obtain r where r: "slot_read_bits cells (off0 + i * pb) ?n pb = Some r"
      "\<And>j. bit r j \<longleftrightarrow> j < ?n \<and> cbit pb cells (off0 + i * pb + j)" by auto
  have b: "bit (ucast r :: u32) j \<longleftrightarrow> j < ?n \<and> cbit pb cells (off0 + i * pb + j)" for j
    using r(2) [of j] n(2) assms(2) by auto
  have "ucast r = c \<longleftrightarrow> (\<forall>j. bit c j \<longleftrightarrow> j < ?n \<and> cbit pb cells (off0 + i * pb + j))"
  proof
    assume a: "\<forall>j. bit c j \<longleftrightarrow> j < ?n \<and> cbit pb cells (off0 + i * pb + j)"
    show "ucast r = c" by (rule word_eq_bitI) (simp only: a b)
  qed (use b in blast)
  with r(1) show ?thesis by (simp add: read_value_cell_def)
qed

lemma read_value_cell_total [panic_free]:
  assumes "0 < pb" "pb \<le> 32" "cells_ok pb cells" "off0 + vb \<le> length cells * pb" "i < div_ceil vb pb"
  obtains c where "read_value_cell cells off0 vb pb i = Some c"
proof -
  let ?n = "value_cell_bits vb pb i"
  have "i * pb < vb" using assms(5) less_div_ceil_iff [OF assms(1)] by blast
  then have n: "1 \<le> ?n" "?n \<le> pb" "i * pb + ?n \<le> vb" using assms(1) by (auto simp: value_cell_bits_def)
  have "off0 + i * pb + ?n \<le> length cells * pb" using n(3) assms(4) by linarith
  from slot_read_bits_spec [OF assms(1,3) n(1) _ this] n(2) assms(2) that
  show ?thesis by (auto simp: read_value_cell_def)
qed

lemma read_value_cells_iff:
  assumes "0 < pb" "pb \<le> 32" "cells_ok pb cells" "off0 + vb \<le> length cells * pb"
  shows "build_opt (div_ceil vb pb) (read_value_cell cells off0 vb pb) = Some v \<longleftrightarrow>
     value_ok vb pb v \<and> (\<forall>k < vb. cbit pb v k \<longleftrightarrow> cbit pb cells (off0 + k))"
proof
  assume "build_opt (div_ceil vb pb) (read_value_cell cells off0 vb pb) = Some v"
  then have len: "length v = div_ceil vb pb"
    and b: "\<And>i j. i < length v \<Longrightarrow> bit (v ! i) j \<longleftrightarrow>
          j < value_cell_bits vb pb i \<and> cbit pb cells (off0 + i * pb + j)"
    by (auto simp: build_opt_eq_Some_iff read_value_cell_iff [OF assms])
  show "value_ok vb pb v \<and> (\<forall>k < vb. cbit pb v k \<longleftrightarrow> cbit pb cells (off0 + k))"
  proof (intro conjI allI impI)
    show "value_ok vb pb v" using len b by (simp add: value_ok_def fits_bit)
    fix k assume k: "k < vb"
    have "k div pb < length v"
      unfolding len less_div_ceil_iff [OF assms(1)] using k by (meson div_times_less_eq_dividend order_le_less_trans)
    moreover have "k mod pb < value_cell_bits vb pb (k div pb)"
      using k assms(1) by (simp add: value_cell_bits_less)
    ultimately show "cbit pb v k \<longleftrightarrow> cbit pb cells (off0 + k)"
      using b [of "k div pb" "k mod pb"] by (simp add: cbit_def [of _ v] add.assoc)
  qed
next
  assume v: "value_ok vb pb v \<and> (\<forall>k < vb. cbit pb v k \<longleftrightarrow> cbit pb cells (off0 + k))"
  have "bit (v ! i) j \<longleftrightarrow> j < value_cell_bits vb pb i \<and> cbit pb cells (off0 + i * pb + j)"
    if "i < div_ceil vb pb" for i j
  proof (cases "j < value_cell_bits vb pb i")
    case True
    then have j: "j < pb" "i * pb + j < vb" by (simp_all add: value_cell_bits_less)
    then have "cbit pb v (i * pb + j) \<longleftrightarrow> cbit pb cells (off0 + (i * pb + j))" using v by blast
    then show ?thesis using True j(1) by (simp add: cbit_cell add.assoc)
  next
    case False
    then show ?thesis using v that by (auto simp: value_ok_def fits_bit)
  qed
  then show "build_opt (div_ceil vb pb) (read_value_cell cells off0 vb pb) = Some v"
    using v by (auto simp: build_opt_eq_Some_iff read_value_cell_iff [OF assms] value_ok_def)
qed

section \<open>Accumulators\<close>

text \<open>
  Every streaming codec of the code keeps a \<open>u64\<close> accumulator. \<open>acc_holds S P n acc\<close>: it holds the
  \<open>n\<close> bits of the stream \<open>S\<close> from position \<open>P\<close>, and nothing above them.
\<close>

definition acc_holds :: "(nat \<Rightarrow> bool) \<Rightarrow> nat \<Rightarrow> nat \<Rightarrow> u64 \<Rightarrow> bool" where
  "acc_holds S P n acc \<longleftrightarrow> n \<le> 64 \<and> (\<forall>j. bit acc j \<longleftrightarrow> j < n \<and> S (P + j))"

lemma acc_holds_0 [simp]: "acc_holds S P 0 acc \<longleftrightarrow> acc = 0"
proof
  assume "acc_holds S P 0 acc"
  then have "\<not> bit acc j" for j by (simp add: acc_holds_def)
  then show "acc = 0" by (intro word_eq_bitI) simp
qed (simp add: acc_holds_def)

lemma acc_holds_bit: "acc_holds S P n acc \<Longrightarrow> bit acc j \<longleftrightarrow> j < n \<and> S (P + j)"
  by (simp add: acc_holds_def)

lemma acc_holds_push:
  assumes "acc_holds S P n acc" "n + m \<le> 64" "\<And>j. bit c j \<longleftrightarrow> j < m \<and> S (P + n + j)"
  shows "acc_holds S P (n + m) (acc OR push_bit n c)"
  unfolding acc_holds_def
proof (intro conjI allI)
  show "n + m \<le> 64" by fact
  fix j
  have a: "bit acc j \<longleftrightarrow> j < n \<and> S (P + j)" using assms(1) by (simp add: acc_holds_def)
  show "bit (acc OR push_bit n c) j \<longleftrightarrow> j < n + m \<and> S (P + j)"
  proof (cases "j < n")
    case True
    with a show ?thesis by (simp add: bit_or_iff bit_push_bit_iff)
  next
    case False
    then have "n \<le> j" by simp
    then obtain d where d: "j = n + d" using le_Suc_ex by blast
    have "bit (acc OR push_bit n c) j \<longleftrightarrow> bit c d \<and> j < 64"
      using a d by (simp add: bit_or_iff bit_push_bit_iff conj_commute)
    moreover have "bit c d \<Longrightarrow> j < 64" using assms(2) assms(3) [of d] d by linarith
    ultimately show ?thesis using assms(3) [of d] d by (simp only: nat_add_left_cancel_less add.assoc) blast
  qed
qed

lemma acc_holds_drop:
  assumes "acc_holds S P n acc" "m \<le> n"
  shows "acc_holds S (P + m) (n - m) (drop_bit m acc)"
  unfolding acc_holds_def
proof (intro conjI allI)
  have "n \<le> 64" using assms(1) by (simp add: acc_holds_def)
  then show "n - m \<le> 64" by simp
  show "bit (drop_bit m acc) j \<longleftrightarrow> j < n - m \<and> S (P + m + j)" for j
    using acc_holds_bit [OF assms(1), of "m + j"] assms(2)
    by (simp add: bit_drop_bit_eq less_diff_conv add.assoc add.commute [of j])
qed

lemma acc_holds_low:
  assumes "acc_holds S P n acc" "m \<le> n"
  shows "bit (acc AND (push_bit m 1 - 1)) j \<longleftrightarrow> j < m \<and> S (P + j)"
proof -
  have "m \<le> 64" using assms by (simp add: acc_holds_def)
  then show ?thesis unfolding push_bit_1_minus_1
    using acc_holds_bit [OF assms(1), of j] assms(2) by (simp add: bit_and_iff bit_mask_iff) linarith
qed

text \<open>Byte streams, least significant bit first.\<close>

definition bbit :: "u8 list \<Rightarrow> nat \<Rightarrow> bool" where
  "bbit bs k \<longleftrightarrow> k div 8 < length bs \<and> bit (bs ! (k div 8)) (k mod 8)"

lemma bbit_byte: "j < 8 \<Longrightarrow> i < length bs \<Longrightarrow> bbit bs (i * 8 + j) = bit (bs ! i) j"
  by (simp add: bbit_def)

lemma bbit_less: "bbit bs k \<Longrightarrow> k < 8 * length bs"
  by (auto simp: bbit_def div_less_iff_less_mult)

lemma bytes_eq_streamI:
  assumes "length xs = length ys" "\<And>k. k < 8 * length xs \<Longrightarrow> bbit xs k \<longleftrightarrow> bbit ys k"
  shows "xs = ys"
proof (rule list_eq_nthI [OF assms(1)])
  fix i assume i: "i < length xs"
  show "xs ! i = ys ! i"
  proof (rule word_eq_bitI)
    fix j :: nat assume "j < LENGTH(8)"
    then show "bit (xs ! i) j \<longleftrightarrow> bit (ys ! i) j"
      using assms(1) assms(2) [of "i * 8 + j"] i by (simp add: bbit_byte)
  qed
qed

end
