(* ===== verification/Slot_Array.thy ===== *)
theory Slot_Array
  imports Prelude
begin

text \<open>
  The contract between a table of slots and the cuckoo structures above it: what a read returns
  after a write, and that writing a slot's old content back restores the table exactly. The
  fingerprint-and-value table of the store and the bit-packed fingerprint table of the filter both
  provide it. The lemmas here are the two facts the insert loops need: a chain of evictions undone
  in reverse order gives the original table back (rollback), and a write changes the bag of
  entries by the written slot only.
\<close>

section \<open>Scanning the slots of a bucket\<close>

text \<open>\<open>(0..n).find(..)\<close> over a predicate that may panic; the scan stops at the first hit.\<close>

primrec scan :: "nat list \<Rightarrow> (nat \<Rightarrow> bool option) \<Rightarrow> nat option option" where
  "scan [] P = Some None"
| "scan (s # ss) P = do { hit \<leftarrow> P s; if hit then Some (Some s) else scan ss P }"

lemma scan_total:
  assumes "\<And>s. s \<in> set ss \<Longrightarrow> P s = Some (Q s)"
  shows "scan ss P = Some (List.find Q ss)"
  using assms by (induction ss) simp_all

lemma scan_upt:
  assumes "\<And>s. s < n \<Longrightarrow> P s = Some (Q s)"
  shows "scan [0..<n] P = Some (List.find Q [0..<n])"
  using assms by (intro scan_total) simp

lemma find_upt_SomeD: "List.find Q [0..<n] = Some s \<Longrightarrow> s < n \<and> Q s \<and> (\<forall>i < s. \<not> Q i)"
  by (auto simp: find_Some_iff)

lemma find_upt_None: "List.find Q [0..<n] = None \<longleftrightarrow> (\<forall>i < n. \<not> Q i)"
  by (auto simp: find_None_iff)

section \<open>The contract\<close>

locale slot_array =
  fixes inv :: "'t \<Rightarrow> bool" and nb :: "'t \<Rightarrow> nat" and bs :: "'t \<Rightarrow> nat"
    and rd :: "'t \<Rightarrow> nat \<Rightarrow> nat \<Rightarrow> 'e option"
    and wr :: "'t \<Rightarrow> nat \<Rightarrow> nat \<Rightarrow> 'e \<Rightarrow> 't option"
    and okv :: "'t \<Rightarrow> 'e \<Rightarrow> bool"
  assumes rd_total: "inv t \<Longrightarrow> b < nb t \<Longrightarrow> s < bs t \<Longrightarrow> \<exists>e. rd t b s = Some e \<and> okv t e"
    and wr_total: "inv t \<Longrightarrow> b < nb t \<Longrightarrow> s < bs t \<Longrightarrow> okv t e \<Longrightarrow> \<exists>t'. wr t b s e = Some t'"
    and wr_inv: "inv t \<Longrightarrow> b < nb t \<Longrightarrow> s < bs t \<Longrightarrow> okv t e \<Longrightarrow> wr t b s e = Some t' \<Longrightarrow>
      inv t' \<and> nb t' = nb t \<and> bs t' = bs t \<and> okv t' = okv t"
    and rd_wr_same: "inv t \<Longrightarrow> b < nb t \<Longrightarrow> s < bs t \<Longrightarrow> okv t e \<Longrightarrow> wr t b s e = Some t' \<Longrightarrow>
      rd t' b s = Some e"
    and rd_wr_other: "inv t \<Longrightarrow> b < nb t \<Longrightarrow> s < bs t \<Longrightarrow> okv t e \<Longrightarrow> wr t b s e = Some t' \<Longrightarrow>
      b' < nb t \<Longrightarrow> s' < bs t \<Longrightarrow> (b', s') \<noteq> (b, s) \<Longrightarrow> rd t' b' s' = rd t b' s'"
    and wr_restore: "inv t \<Longrightarrow> b < nb t \<Longrightarrow> s < bs t \<Longrightarrow> okv t e \<Longrightarrow> rd t b s = Some e0 \<Longrightarrow>
      wr t b s e = Some t' \<Longrightarrow> wr t' b s e0 = Some t"
begin

subsection \<open>Rollback\<close>

text \<open>\<open>kicked t0 h t\<close>: from \<open>t0\<close>, a chain of slot writes led to \<open>t\<close>; \<open>h\<close> lists the slots
  with the contents they had, last write first.\<close>

inductive kicked :: "'t \<Rightarrow> (nat \<times> nat \<times> 'e) list \<Rightarrow> 't \<Rightarrow> bool" where
  kicked_start: "inv t \<Longrightarrow> kicked t [] t"
| kicked_step: "kicked t0 h t \<Longrightarrow> b < nb t \<Longrightarrow> s < bs t \<Longrightarrow> okv t e \<Longrightarrow> rd t b s = Some e0 \<Longrightarrow>
    wr t b s e = Some t' \<Longrightarrow> kicked t0 ((b, s, e0) # h) t'"

primrec undo :: "(nat \<times> nat \<times> 'e) list \<Rightarrow> 't \<Rightarrow> 't option" where
  "undo [] t = Some t"
| "undo (k # h) t = do { t' \<leftarrow> wr t (fst k) (fst (snd k)) (snd (snd k)); undo h t' }"

lemma kicked_inv:
  assumes "kicked t0 h t"
  shows "inv t \<and> nb t = nb t0 \<and> bs t = bs t0 \<and> okv t = okv t0"
  using assms
proof (induction rule: kicked.induct)
  case (kicked_step t0 h t b s e e0 t')
  then show ?case using wr_inv [of t b s e t'] by simp
qed simp

theorem kicked_undo: "kicked t0 h t \<Longrightarrow> undo h t = Some t0"
proof (induction rule: kicked.induct)
  case (kicked_step t0 h t b s e e0 t')
  have "inv t" using kicked_inv [OF kicked_step.hyps(1)] by simp
  from wr_restore [OF this kicked_step.hyps(2-6)] show ?case using kicked_step.IH by simp
qed simp

subsection \<open>The bag of entries\<close>

definition slots :: "'t \<Rightarrow> (nat \<times> nat) set" where
  "slots t = {..<nb t} \<times> {..<bs t}"

definition view :: "'t \<Rightarrow> nat \<times> nat \<Rightarrow> 'e" where
  "view t p = the (rd t (fst p) (snd p))"

definition bag :: "(nat \<times> nat \<Rightarrow> 'e \<Rightarrow> 'm::comm_monoid_add) \<Rightarrow> 't \<Rightarrow> 'm" where
  "bag f t = (\<Sum>p \<in> slots t. f p (view t p))"

lemma finite_slots: "finite (slots t)"
  by (simp add: slots_def)

lemma slots_iff: "(b, s) \<in> slots t \<longleftrightarrow> b < nb t \<and> s < bs t"
  by (simp add: slots_def)

lemma view_eq: "rd t b s = Some e \<Longrightarrow> view t (b, s) = e"
  by (simp add: view_def)

lemma bag_split:
  assumes "b < nb t" "s < bs t"
  shows "bag f t = f (b, s) (view t (b, s)) + (\<Sum>p \<in> slots t - {(b, s)}. f p (view t p))"
  unfolding bag_def using assms by (intro sum.remove finite_slots) (simp add: slots_iff)

lemma bag_wr:
  assumes "inv t" "b < nb t" "s < bs t" "okv t e" "rd t b s = Some e0" "wr t b s e = Some t'"
  shows "bag f t' + f (b, s) e0 = bag f t + f (b, s) e"
proof -
  note w = wr_inv [OF assms(1-4,6)] rd_wr_same [OF assms(1-4,6)] rd_wr_other [OF assms(1-4,6)]
  have sl: "slots t' = slots t" using w(1) by (simp add: slots_def)
  have "view t' p = view t p" if p: "p \<in> slots t - {(b, s)}" for p
    using w(3) [of "fst p" "snd p"] p by (cases p) (auto simp: view_def slots_iff)
  then have "(\<Sum>p \<in> slots t - {(b, s)}. f p (view t' p)) = (\<Sum>p \<in> slots t - {(b, s)}. f p (view t p))"
    by (intro sum.cong refl) simp
  then show ?thesis
    using bag_split [of b t' s f] bag_split [of b t s f] assms(2,3) w(1,2) sl view_eq [OF assms(5)]
    by (simp add: view_eq [OF w(2)] ac_simps)
qed

text \<open>Writing into a slot that counts nothing adds the entry; clearing a slot removes it.\<close>

lemma bag_wr_add:
  assumes "inv t" "b < nb t" "s < bs t" "okv t e" "rd t b s = Some e0" "wr t b s e = Some t'"
    and "f (b, s) e0 = 0"
  shows "bag f t' = bag f t + f (b, s) e"
  using bag_wr [OF assms(1-6), of f] assms(7) by simp

lemma bag_member:
  assumes "b < nb t" "s < bs t" "rd t b s = Some e"
  shows "f (b, s) e \<subseteq># bag f t"
  using bag_split [OF assms(1,2), of f] view_eq [OF assms(3)] by simp

lemma bag_elem_iff:
  assumes "inv t"
  shows "x \<in># bag f t \<longleftrightarrow> (\<exists>b s e. b < nb t \<and> s < bs t \<and> rd t b s = Some e \<and> x \<in># f (b, s) e)"
proof
  assume "x \<in># bag f t"
  then obtain b s where p: "b < nb t" "s < bs t" "x \<in># f (b, s) (view t (b, s))"
    by (auto simp: bag_def set_mset_sum [OF finite_slots] slots_iff)
  obtain e where e: "rd t b s = Some e" using rd_total [OF assms p(1,2)] by blast
  with p show "\<exists>b s e. b < nb t \<and> s < bs t \<and> rd t b s = Some e \<and> x \<in># f (b, s) e"
    unfolding view_eq [OF e] by blast
next
  assume "\<exists>b s e. b < nb t \<and> s < bs t \<and> rd t b s = Some e \<and> x \<in># f (b, s) e"
  then obtain b s e where "b < nb t" "s < bs t" "rd t b s = Some e" "x \<in># f (b, s) e" by blast
  then show "x \<in># bag f t" using mset_subset_eqD [OF bag_member [of b t s e f]] by simp
qed

end

end
