(* ===== verification/FV_Table.thy ===== *)
theory FV_Table
  imports Cell_Bits Slot_Array
begin

text \<open>
  \<open>segmented-cuckoo/src/fingerprint_value_table.rs\<close>: the flat cell array of the key-value store.
  Slot \<open>(bucket, slot)\<close> occupies \<open>cells_per_slot\<close> cells; its bit stream is the fingerprint
  followed by the value. Numbers of buckets, slots, bits and cells are natural numbers, with the
  \<open>u32\<close> and \<open>u64\<close> overflow checks of the constructor written out; an offset computed later is
  below the length of the allocated array times 32. The operations of the table panic (\<open>None\<close>)
  where \<open>assert_in_range\<close>, a length assertion or a slice index does.
\<close>

record fv_table =
  fv_cells :: "u32 list"
  fv_num_buckets :: nat
  fv_bucket_size :: nat
  fv_fingerprint_bits :: nat
  fv_value_bits :: nat
  fv_plaintext_bits :: nat
  fv_cells_per_slot :: nat

definition fv_new :: "nat \<Rightarrow> nat \<Rightarrow> nat \<Rightarrow> nat \<Rightarrow> nat \<Rightarrow> fv_table option" where
  "fv_new num_buckets bucket_size fingerprint_bits value_bits plaintext_bits =
     do {
       assert_opt (1 \<le> fingerprint_bits \<and> fingerprint_bits \<le> 64);
       assert_opt (value_bits \<ge> 1);
       assert_opt (1 \<le> plaintext_bits \<and> plaintext_bits \<le> 32);
       let entry_bits = fingerprint_bits + value_bits;
       assert_opt (entry_bits < 2 ^ 32);
       let cells_per_slot = div_ceil entry_bits plaintext_bits;
       let num_slots = num_buckets * bucket_size;
       assert_opt (num_slots < 2 ^ 64);
       let total_cells = num_slots * cells_per_slot;
       assert_opt (total_cells < 2 ^ 64);
       Some \<lparr> fv_cells = replicate total_cells 0, fv_num_buckets = num_buckets,
         fv_bucket_size = bucket_size, fv_fingerprint_bits = fingerprint_bits,
         fv_value_bits = value_bits, fv_plaintext_bits = plaintext_bits,
         fv_cells_per_slot = cells_per_slot \<rparr>
     }"

definition fv_value_size_in_cells :: "fv_table \<Rightarrow> nat" where
  "fv_value_size_in_cells t = div_ceil (fv_value_bits t) (fv_plaintext_bits t)"

definition fv_size_in_cells :: "fv_table \<Rightarrow> nat" where
  "fv_size_in_cells t = length (fv_cells t)"

definition slot_bit_offset :: "fv_table \<Rightarrow> nat \<Rightarrow> nat \<Rightarrow> nat" where
  "slot_bit_offset t bucket slot =
     (bucket * fv_bucket_size t + slot) * fv_cells_per_slot t * fv_plaintext_bits t"

definition assert_in_range :: "fv_table \<Rightarrow> nat \<Rightarrow> nat \<Rightarrow> unit option" where
  "assert_in_range t bucket slot = assert_opt (bucket < fv_num_buckets t \<and> slot < fv_bucket_size t)"

text \<open>\<open>read_bits\<close> and \<open>write_bits\<close> repeat the loops of \<open>slot_read_bits\<close> and
  \<open>slot_write_bits\<close> over the table's cells.\<close>

definition fv_read_bits :: "fv_table \<Rightarrow> nat \<Rightarrow> nat \<Rightarrow> u64 option" where
  "fv_read_bits t bit_offset n_bits =
     slot_read_bits (fv_cells t) bit_offset n_bits (fv_plaintext_bits t)"

definition fv_write_bits :: "fv_table \<Rightarrow> nat \<Rightarrow> nat \<Rightarrow> u64 \<Rightarrow> fv_table option" where
  "fv_write_bits t bit_offset n_bits val =
     do {
       cells \<leftarrow> slot_write_bits (fv_cells t) bit_offset n_bits val (fv_plaintext_bits t);
       Some (t\<lparr>fv_cells := cells\<rparr>)
     }"

definition fv_read_fingerprint :: "fv_table \<Rightarrow> nat \<Rightarrow> nat \<Rightarrow> u64 option" where
  "fv_read_fingerprint t bucket slot =
     do {
       assert_in_range t bucket slot;
       fv_read_bits t (slot_bit_offset t bucket slot) (fv_fingerprint_bits t)
     }"

definition fv_write_fingerprint :: "fv_table \<Rightarrow> nat \<Rightarrow> nat \<Rightarrow> u64 \<Rightarrow> fv_table option" where
  "fv_write_fingerprint t bucket slot fp =
     do {
       assert_in_range t bucket slot;
       fv_write_bits t (slot_bit_offset t bucket slot) (fv_fingerprint_bits t) fp
     }"

text \<open>\<open>read_value(bucket, slot, out)\<close> with \<open>out_len = out.len()\<close>; the result is the new buffer.\<close>

definition fv_read_value :: "fv_table \<Rightarrow> nat \<Rightarrow> nat \<Rightarrow> nat \<Rightarrow> u32 list option" where
  "fv_read_value t bucket slot out_len =
     do {
       assert_in_range t bucket slot;
       let n_cells = fv_value_size_in_cells t;
       assert_opt (out_len = n_cells);
       let off0 = slot_bit_offset t bucket slot + fv_fingerprint_bits t;
       build_opt n_cells (read_value_cell (fv_cells t) off0 (fv_value_bits t) (fv_plaintext_bits t))
     }"

definition fv_write_value :: "fv_table \<Rightarrow> nat \<Rightarrow> nat \<Rightarrow> u32 list \<Rightarrow> fv_table option" where
  "fv_write_value t bucket slot val =
     do {
       assert_in_range t bucket slot;
       let n_cells = fv_value_size_in_cells t;
       assert_opt (length val = n_cells);
       let off0 = slot_bit_offset t bucket slot + fv_fingerprint_bits t;
       cells \<leftarrow> write_value_loop [0..<n_cells] (fv_cells t) off0 (fv_value_bits t)
         (fv_plaintext_bits t) val;
       Some (t\<lparr>fv_cells := cells\<rparr>)
     }"

definition fv_write :: "fv_table \<Rightarrow> nat \<Rightarrow> nat \<Rightarrow> u64 \<Rightarrow> u32 list \<Rightarrow> fv_table option" where
  "fv_write t bucket slot fp val =
     do {
       t' \<leftarrow> fv_write_fingerprint t bucket slot fp;
       fv_write_value t' bucket slot val
     }"

definition fv_find :: "fv_table \<Rightarrow> nat \<Rightarrow> u64 \<Rightarrow> nat option option" where
  "fv_find t bucket fp =
     scan [0..<fv_bucket_size t] (\<lambda>s. do { x \<leftarrow> fv_read_fingerprint t bucket s; Some (x = fp) })"

definition fv_contain :: "fv_table \<Rightarrow> nat \<Rightarrow> u64 \<Rightarrow> bool option" where
  "fv_contain t bucket fp =
     do {
       r \<leftarrow> scan [0..<fv_bucket_size t] (\<lambda>s. do { x \<leftarrow> fv_read_fingerprint t bucket s; Some (x = fp) });
       Some (r \<noteq> None)
     }"

definition fv_insert :: "fv_table \<Rightarrow> nat \<Rightarrow> u64 \<Rightarrow> u32 list \<Rightarrow> (fv_table \<times> nat option) option" where
  "fv_insert t bucket fp val =
     do {
       assert_opt (fp \<noteq> 0);
       assert_opt (length val = fv_value_size_in_cells t);
       r \<leftarrow> scan [0..<fv_bucket_size t] (\<lambda>s. do { x \<leftarrow> fv_read_fingerprint t bucket s; Some (x = 0) });
       case r of
         Some s \<Rightarrow> do { t' \<leftarrow> fv_write t bucket s fp val; Some (t', Some s) }
       | None \<Rightarrow> Some (t, None)
     }"

definition fv_delete :: "fv_table \<Rightarrow> nat \<Rightarrow> u64 \<Rightarrow> (fv_table \<times> bool) option" where
  "fv_delete t bucket fp =
     do {
       assert_opt (fp \<noteq> 0);
       r \<leftarrow> scan [0..<fv_bucket_size t] (\<lambda>s. do { x \<leftarrow> fv_read_fingerprint t bucket s; Some (x = fp) });
       case r of
         Some s \<Rightarrow> do {
           t1 \<leftarrow> fv_write_fingerprint t bucket s 0;
           t2 \<leftarrow> fv_write_value t1 bucket s (replicate (fv_value_size_in_cells t1) 0);
           Some (t2, True)
         }
       | None \<Rightarrow> Some (t, False)
     }"

definition fv_update_value :: "fv_table \<Rightarrow> nat \<Rightarrow> u64 \<Rightarrow> u32 list \<Rightarrow> (fv_table \<times> bool) option" where
  "fv_update_value t bucket fp new_value =
     do {
       assert_opt (length new_value = fv_value_size_in_cells t);
       r \<leftarrow> fv_find t bucket fp;
       case r of
         Some s \<Rightarrow> do { t' \<leftarrow> fv_write_value t bucket s new_value; Some (t', True) }
       | None \<Rightarrow> Some (t, False)
     }"

definition fv_from_cells ::
  "u32 list \<Rightarrow> nat \<Rightarrow> nat \<Rightarrow> nat \<Rightarrow> nat \<Rightarrow> nat \<Rightarrow> (string + fv_table) option" where
  "fv_from_cells cells num_buckets bucket_size fingerprint_bits value_bits plaintext_bits =
     (if \<not> (1 \<le> fingerprint_bits \<and> fingerprint_bits \<le> 64)
      then Some (Inl ''fingerprint_bits must be in 1..=64'')
      else do {
        let entry_bits = fingerprint_bits + value_bits;
        assert_opt (entry_bits < 2 ^ 32);
        assert_opt (0 < plaintext_bits);
        let cells_per_slot = div_ceil entry_bits plaintext_bits;
        let expected = min (min (num_buckets * bucket_size) (2 ^ 64 - 1) * cells_per_slot) (2 ^ 64 - 1);
        if length cells \<noteq> expected
        then Some (Inl ''cells length does not match expected size_in_cells'')
        else if plaintext_bits < 32 \<and>
            list_ex (\<lambda>c. c AND NOT (push_bit plaintext_bits 1 - 1) \<noteq> 0) cells
        then Some (Inl ''cell has high bits set (ChalametPIR high-bits-zero invariant violated)'')
        else Some (Inr \<lparr> fv_cells = cells, fv_num_buckets = num_buckets,
          fv_bucket_size = bucket_size, fv_fingerprint_bits = fingerprint_bits,
          fv_value_bits = value_bits, fv_plaintext_bits = plaintext_bits,
          fv_cells_per_slot = cells_per_slot \<rparr>)
      })"

text \<open>\<open>read_value_cells_chunk\<close> fills a buffer of \<open>out_len\<close> cells from value cell \<open>cell_start\<close>; the
  width of a cell is a \<open>u32\<close> subtraction, so a cell past the value panics.\<close>

definition fv_read_value_cells_chunk :: "fv_table \<Rightarrow> nat \<Rightarrow> nat \<Rightarrow> nat \<Rightarrow> nat \<Rightarrow> u32 list option" where
  "fv_read_value_cells_chunk t bucket slot cell_start out_len =
     (let pb = fv_plaintext_bits t;
          off0 = slot_bit_offset t bucket slot + fv_fingerprint_bits t
      in build_opt out_len (\<lambda>i. do {
           let ci = cell_start + i;
           assert_opt (ci * pb \<le> fv_value_bits t);
           read_value_cell (fv_cells t) off0 (fv_value_bits t) pb ci
         }))"

definition fv_read_value_to_box :: "fv_table \<Rightarrow> nat \<Rightarrow> nat \<Rightarrow> u32 list option" where
  "fv_read_value_to_box t bucket slot = fv_read_value t bucket slot (fv_value_size_in_cells t)"

section \<open>Well-formed tables\<close>

definition fv_inv :: "fv_table \<Rightarrow> bool" where
  "fv_inv t \<longleftrightarrow> 1 \<le> fv_fingerprint_bits t \<and> fv_fingerprint_bits t \<le> 64 \<and> 1 \<le> fv_value_bits t \<and>
     1 \<le> fv_plaintext_bits t \<and> fv_plaintext_bits t \<le> 32 \<and>
     fv_cells_per_slot t = div_ceil (fv_fingerprint_bits t + fv_value_bits t) (fv_plaintext_bits t) \<and>
     length (fv_cells t) = fv_num_buckets t * fv_bucket_size t * fv_cells_per_slot t \<and>
     cells_ok (fv_plaintext_bits t) (fv_cells t)"

text \<open>The dimensions no operation changes.\<close>

definition same_shape :: "fv_table \<Rightarrow> fv_table \<Rightarrow> bool" where
  "same_shape t t' \<longleftrightarrow> t' = t\<lparr>fv_cells := fv_cells t'\<rparr>"

lemma same_shapeD [geometry]:
  assumes "same_shape t t'"
  shows "fv_num_buckets t' = fv_num_buckets t" "fv_bucket_size t' = fv_bucket_size t"
    "fv_fingerprint_bits t' = fv_fingerprint_bits t" "fv_value_bits t' = fv_value_bits t"
    "fv_plaintext_bits t' = fv_plaintext_bits t" "fv_cells_per_slot t' = fv_cells_per_slot t"
    "fv_value_size_in_cells t' = fv_value_size_in_cells t" "slot_bit_offset t' = slot_bit_offset t"
proof -
  have *: "fv_num_buckets t' = fv_num_buckets t" "fv_bucket_size t' = fv_bucket_size t"
    "fv_fingerprint_bits t' = fv_fingerprint_bits t" "fv_value_bits t' = fv_value_bits t"
    "fv_plaintext_bits t' = fv_plaintext_bits t" "fv_cells_per_slot t' = fv_cells_per_slot t"
    using assms unfolding same_shape_def
    by (metis fv_table.select_convs fv_table.surjective fv_table.update_convs(1))+
  then show "fv_num_buckets t' = fv_num_buckets t" "fv_bucket_size t' = fv_bucket_size t"
    "fv_fingerprint_bits t' = fv_fingerprint_bits t" "fv_value_bits t' = fv_value_bits t"
    "fv_plaintext_bits t' = fv_plaintext_bits t" "fv_cells_per_slot t' = fv_cells_per_slot t"
    "fv_value_size_in_cells t' = fv_value_size_in_cells t" "slot_bit_offset t' = slot_bit_offset t"
    by (simp_all add: fv_value_size_in_cells_def slot_bit_offset_def fun_eq_iff)
qed

lemma same_shape_upd [simp]: "same_shape t (t\<lparr>fv_cells := cs\<rparr>)"
  by (simp add: same_shape_def)

lemma same_shape_trans: "same_shape t u \<Longrightarrow> same_shape u v \<Longrightarrow> same_shape t v"
  by (cases t, cases u, cases v) (simp add: same_shape_def)

lemma same_shape_cells_eq: "same_shape t u \<Longrightarrow> fv_cells u = fv_cells t \<Longrightarrow> u = t"
  by (cases t, cases u) (simp add: same_shape_def)

lemma same_shape_refl [simp]: "same_shape t t"
  by (simp add: same_shape_def)

text \<open>\<open>tbit t k\<close>: bit \<open>k\<close> of the table's stream.\<close>

abbreviation tbit :: "fv_table \<Rightarrow> nat \<Rightarrow> bool" where
  "tbit t k \<equiv> cbit (fv_plaintext_bits t) (fv_cells t) k"

abbreviation tlen :: "fv_table \<Rightarrow> nat" where
  "tlen t \<equiv> length (fv_cells t) * fv_plaintext_bits t"

text \<open>The stream length of an entry and of a slot.\<close>

abbreviation entry_bits :: "fv_table \<Rightarrow> nat" where
  "entry_bits t \<equiv> fv_fingerprint_bits t + fv_value_bits t"

lemma entry_le_slot:
  assumes "fv_inv t"
  shows "entry_bits t \<le> fv_cells_per_slot t * fv_plaintext_bits t"
  using assms div_ceil_mult_ge [of "fv_plaintext_bits t" "entry_bits t"] by (simp add: fv_inv_def)

lemma slot_in_table:
  assumes "fv_inv t" "b < fv_num_buckets t" "s < fv_bucket_size t"
  shows "slot_bit_offset t b s + fv_cells_per_slot t * fv_plaintext_bits t \<le> tlen t"
proof -
  have "b * fv_bucket_size t + s < fv_num_buckets t * fv_bucket_size t"
    using assms(2,3) by (rule mult_add_less)
  then have "Suc (b * fv_bucket_size t + s) * (fv_cells_per_slot t * fv_plaintext_bits t) \<le>
      (fv_num_buckets t * fv_bucket_size t) * (fv_cells_per_slot t * fv_plaintext_bits t)"
    by (intro mult_le_mono1) simp
  then show ?thesis using assms(1) by (simp add: slot_bit_offset_def fv_inv_def algebra_simps)
qed

lemma entry_in_table:
  assumes "fv_inv t" "b < fv_num_buckets t" "s < fv_bucket_size t"
  shows "slot_bit_offset t b s + entry_bits t \<le> tlen t"
  using slot_in_table [OF assms] entry_le_slot [OF assms(1)] by linarith

lemma slots_disjoint:
  assumes "s < fv_bucket_size t" "s' < fv_bucket_size t" "(b', s') \<noteq> (b, s)"
  shows "slot_bit_offset t b s + fv_cells_per_slot t * fv_plaintext_bits t \<le> slot_bit_offset t b' s' \<or>
    slot_bit_offset t b' s' + fv_cells_per_slot t * fv_plaintext_bits t \<le> slot_bit_offset t b s"
proof -
  let ?i = "b * fv_bucket_size t + s" and ?j = "b' * fv_bucket_size t + s'"
  let ?w = "fv_cells_per_slot t * fv_plaintext_bits t"
  have "?i \<noteq> ?j" using block_index_eq [OF assms(1,2), of b b'] assms(3) by auto
  then have "Suc ?i \<le> ?j \<or> Suc ?j \<le> ?i" by linarith
  then have "Suc ?i * ?w \<le> ?j * ?w \<or> Suc ?j * ?w \<le> ?i * ?w" by (metis mult_le_mono1)
  then show ?thesis by (simp add: slot_bit_offset_def algebra_simps)
qed

section \<open>Reads\<close>

lemma fv_read_fingerprint_iff:
  assumes "fv_inv t" "b < fv_num_buckets t" "s < fv_bucket_size t"
  shows "fv_read_fingerprint t b s = Some r \<longleftrightarrow>
    (\<forall>j. bit r j \<longleftrightarrow> j < fv_fingerprint_bits t \<and> tbit t (slot_bit_offset t b s + j))"
proof -
  have "slot_bit_offset t b s + fv_fingerprint_bits t \<le> tlen t"
    using entry_in_table [OF assms] by linarith
  with assms show ?thesis
    by (simp add: fv_read_fingerprint_def assert_in_range_def fv_read_bits_def fv_inv_def
        slot_read_bits_iff)
qed

lemma fv_read_value_iff:
  assumes "fv_inv t" "b < fv_num_buckets t" "s < fv_bucket_size t"
  shows "fv_read_value t b s n = Some v \<longleftrightarrow> n = fv_value_size_in_cells t \<and>
    value_ok (fv_value_bits t) (fv_plaintext_bits t) v \<and>
    (\<forall>k < fv_value_bits t. cbit (fv_plaintext_bits t) v k \<longleftrightarrow>
       tbit t (slot_bit_offset t b s + fv_fingerprint_bits t + k))"
proof (cases "n = fv_value_size_in_cells t")
  case True
  have "slot_bit_offset t b s + fv_fingerprint_bits t + fv_value_bits t \<le> tlen t"
    using entry_in_table [OF assms] by linarith
  with assms True show ?thesis
    by (simp add: fv_read_value_def assert_in_range_def fv_inv_def fv_value_size_in_cells_def
        read_value_cells_iff)
qed (simp add: fv_read_value_def assert_in_range_def Let_def)

lemma fv_read_fingerprint_total [panic_free]:
  assumes "fv_inv t" "b < fv_num_buckets t" "s < fv_bucket_size t"
  obtains fp where "fv_read_fingerprint t b s = Some fp" "fits (fv_fingerprint_bits t) fp"
proof -
  have sz: "slot_bit_offset t b s + fv_fingerprint_bits t \<le> tlen t"
    using entry_in_table [OF assms] by linarith
  obtain r where "fv_read_fingerprint t b s = Some r"
    using slot_read_bits_spec [OF _ _ _ _ sz] assms
    by (auto simp: fv_read_fingerprint_def assert_in_range_def fv_read_bits_def fv_inv_def)
  with that show ?thesis using fv_read_fingerprint_iff [OF assms, of r] by (auto simp: fits_bit)
qed

lemma fv_read_value_total [panic_free]:
  assumes "fv_inv t" "b < fv_num_buckets t" "s < fv_bucket_size t"
  obtains v where "fv_read_value t b s (fv_value_size_in_cells t) = Some v"
    "value_ok (fv_value_bits t) (fv_plaintext_bits t) v"
proof -
  have sz: "slot_bit_offset t b s + fv_fingerprint_bits t + fv_value_bits t \<le> tlen t"
    using entry_in_table [OF assms] by linarith
  let ?off = "slot_bit_offset t b s + fv_fingerprint_bits t"
  let ?vb = "fv_value_bits t" and ?pb = "fv_plaintext_bits t"
  have pb: "0 < ?pb" "?pb \<le> 32" "cells_ok ?pb (fv_cells t)" using assms(1) by (simp_all add: fv_inv_def)
  have "\<exists>c. read_value_cell (fv_cells t) ?off ?vb ?pb i = Some c" if "i < div_ceil ?vb ?pb" for i
    using read_value_cell_total [OF pb sz that] by blast
  then obtain g where "\<And>i. i < div_ceil ?vb ?pb \<Longrightarrow> read_value_cell (fv_cells t) ?off ?vb ?pb i = Some (g i)"
    by metis
  then have "fv_read_value t b s (fv_value_size_in_cells t) = Some (map g [0..<div_ceil ?vb ?pb])"
    using assms(2,3)
    by (simp add: fv_read_value_def assert_in_range_def fv_value_size_in_cells_def build_opt_Some Let_def)
  with that show ?thesis using fv_read_value_iff [OF assms] by blast
qed

section \<open>Writes\<close>

lemma fv_write_fingerprint_spec:
  assumes "fv_inv t" "b < fv_num_buckets t" "s < fv_bucket_size t"
  shows "\<exists>t'. fv_write_fingerprint t b s fp = Some t' \<and> same_shape t t' \<and> fv_inv t' \<and>
    (\<forall>k < tlen t. tbit t' k \<longleftrightarrow>
      (if slot_bit_offset t b s \<le> k \<and> k < slot_bit_offset t b s + fv_fingerprint_bits t
       then bit fp (k - slot_bit_offset t b s) else tbit t k))"
proof -
  let ?off = "slot_bit_offset t b s"
  have pb: "0 < fv_plaintext_bits t" "fv_plaintext_bits t \<le> 32" using assms(1) by (simp_all add: fv_inv_def)
  have sz: "?off + fv_fingerprint_bits t \<le> tlen t" using entry_in_table [OF assms] by linarith
  obtain cs where cs: "slot_write_bits (fv_cells t) ?off (fv_fingerprint_bits t) fp
      (fv_plaintext_bits t) = Some cs" using slot_write_bits_total [OF pb sz] by blast
  note st = slot_write_bits_stream [OF pb sz cs]
  have "fv_inv (t\<lparr>fv_cells := cs\<rparr>)" using assms(1) st(1,2) by (simp add: fv_inv_def)
  then show ?thesis using assms(2,3) cs st(3)
    by (auto simp: fv_write_fingerprint_def assert_in_range_def fv_write_bits_def)
qed

lemma fv_write_value_spec:
  assumes "fv_inv t" "b < fv_num_buckets t" "s < fv_bucket_size t"
    and "length v = fv_value_size_in_cells t"
  shows "\<exists>t'. fv_write_value t b s v = Some t' \<and> same_shape t t' \<and> fv_inv t' \<and>
    (\<forall>k < tlen t. tbit t' k \<longleftrightarrow>
      (if slot_bit_offset t b s + fv_fingerprint_bits t \<le> k \<and> k < slot_bit_offset t b s + entry_bits t
       then cbit (fv_plaintext_bits t) v (k - (slot_bit_offset t b s + fv_fingerprint_bits t))
       else tbit t k))"
proof -
  let ?off = "slot_bit_offset t b s + fv_fingerprint_bits t"
  have pb: "0 < fv_plaintext_bits t" "fv_plaintext_bits t \<le> 32" using assms(1) by (simp_all add: fv_inv_def)
  have sz: "?off + fv_value_bits t \<le> tlen t" using entry_in_table [OF assms(1-3)] by linarith
  have len: "length v = div_ceil (fv_value_bits t) (fv_plaintext_bits t)"
    using assms(4) by (simp add: fv_value_size_in_cells_def)
  obtain cs where cs: "write_value_loop [0..<fv_value_size_in_cells t] (fv_cells t) ?off
      (fv_value_bits t) (fv_plaintext_bits t) v = Some cs" "length cs = length (fv_cells t)"
      "cells_ok (fv_plaintext_bits t) (fv_cells t) \<longrightarrow> cells_ok (fv_plaintext_bits t) cs"
    and bits: "\<forall>k < tlen t. cbit (fv_plaintext_bits t) cs k \<longleftrightarrow>
        (if ?off \<le> k \<and> k < ?off + fv_value_bits t then cbit (fv_plaintext_bits t) v (k - ?off)
         else tbit t k)"
    using write_value_loop_all [OF pb sz len] unfolding fv_value_size_in_cells_def by blast
  have "fv_inv (t\<lparr>fv_cells := cs\<rparr>)" using assms(1) cs by (simp add: fv_inv_def)
  then show ?thesis using assms(2-4) cs(1) bits
    by (auto simp: fv_write_value_def assert_in_range_def Let_def add.assoc)
qed

text \<open>An entry write, on the bits of the table.\<close>

definition entry_written :: "fv_table \<Rightarrow> nat \<Rightarrow> nat \<Rightarrow> u64 \<Rightarrow> u32 list \<Rightarrow> fv_table \<Rightarrow> bool" where
  "entry_written t b s fp v t' \<longleftrightarrow> same_shape t t' \<and> fv_inv t' \<and>
     (\<forall>j < fv_fingerprint_bits t. tbit t' (slot_bit_offset t b s + j) \<longleftrightarrow> bit fp j) \<and>
     (\<forall>k < fv_value_bits t. tbit t' (slot_bit_offset t b s + fv_fingerprint_bits t + k) \<longleftrightarrow>
        cbit (fv_plaintext_bits t) v k) \<and>
     (\<forall>k < tlen t. k < slot_bit_offset t b s \<or> slot_bit_offset t b s + entry_bits t \<le> k \<longrightarrow>
        tbit t' k = tbit t k)"

lemma entry_writtenD:
  assumes "entry_written t b s fp v t'"
  shows "same_shape t t'" "fv_inv t'"
    "j < fv_fingerprint_bits t \<Longrightarrow> tbit t' (slot_bit_offset t b s + j) \<longleftrightarrow> bit fp j"
    "k < fv_value_bits t \<Longrightarrow> tbit t' (slot_bit_offset t b s + fv_fingerprint_bits t + k) \<longleftrightarrow>
        cbit (fv_plaintext_bits t) v k"
    "k < tlen t \<Longrightarrow> k < slot_bit_offset t b s \<or> slot_bit_offset t b s + entry_bits t \<le> k \<Longrightarrow>
        tbit t' k = tbit t k"
  using assms unfolding entry_written_def by blast+

lemma fv_write_spec:
  assumes "fv_inv t" "b < fv_num_buckets t" "s < fv_bucket_size t"
    and "length v = fv_value_size_in_cells t"
  shows "\<exists>t'. fv_write t b s fp v = Some t' \<and> entry_written t b s fp v t'"
proof -
  let ?off = "slot_bit_offset t b s"
  obtain t1 where t1: "fv_write_fingerprint t b s fp = Some t1" "same_shape t t1" "fv_inv t1"
    and b1: "\<And>k. k < tlen t \<Longrightarrow> tbit t1 k \<longleftrightarrow>
      (if ?off \<le> k \<and> k < ?off + fv_fingerprint_bits t then bit fp (k - ?off) else tbit t k)"
    using fv_write_fingerprint_spec [OF assms(1-3), of fp] by blast
  note sh = same_shapeD [OF t1(2)]
  have len: "length (fv_cells t1) = length (fv_cells t)" using assms(1) t1(3) sh by (simp add: fv_inv_def)
  obtain t2 where t2: "fv_write_value t1 b s v = Some t2" "same_shape t1 t2" "fv_inv t2"
    and b2: "\<And>k. k < tlen t \<Longrightarrow> tbit t2 k \<longleftrightarrow>
      (if ?off + fv_fingerprint_bits t \<le> k \<and> k < ?off + entry_bits t
       then cbit (fv_plaintext_bits t) v (k - (?off + fv_fingerprint_bits t))
       else cbit (fv_plaintext_bits t) (fv_cells t1) k)"
    using fv_write_value_spec [OF t1(3), of b s v, unfolded sh len, OF assms(2-4)] by blast
  note sh2 = same_shapeD [OF same_shape_trans [OF t1(2) t2(2)]]
  have sz: "?off + entry_bits t \<le> tlen t" by (rule entry_in_table [OF assms(1-3)])
  have "entry_written t b s fp v t2"
    unfolding entry_written_def
  proof (intro conjI allI impI)
    show "same_shape t t2" using same_shape_trans t1(2) t2(2) by blast
    show "fv_inv t2" by (rule t2(3))
    show "tbit t2 (?off + j) \<longleftrightarrow> bit fp j" if "j < fv_fingerprint_bits t" for j
      using b2 [of "?off + j"] b1 [of "?off + j"] that sz sh sh2 by simp
    show "tbit t2 (?off + fv_fingerprint_bits t + k) \<longleftrightarrow> cbit (fv_plaintext_bits t) v k"
      if "k < fv_value_bits t" for k
      using b2 [of "?off + fv_fingerprint_bits t + k"] that sz sh2 by simp
    show "tbit t2 k = tbit t k" if "k < tlen t" "k < ?off \<or> ?off + entry_bits t \<le> k" for k
      using b2 [OF that(1)] b1 [OF that(1)] that(2) sh sh2 by auto
  qed
  with t1(1) t2(1) show ?thesis by (simp add: fv_write_def)
qed

lemma fv_write_entry:
  assumes "fv_inv t" "b < fv_num_buckets t" "s < fv_bucket_size t"
    and "length v = fv_value_size_in_cells t" "fv_write t b s fp v = Some t'"
  shows "entry_written t b s fp v t'"
  using fv_write_spec [OF assms(1-4), of fp] assms(5) by simp

text \<open>Stray high bits of the value never reach the cells; a slot keeps every other slot's bits.\<close>

definition fv_entry_ok :: "fv_table \<Rightarrow> u64 \<times> u32 list \<Rightarrow> bool" where
  "fv_entry_ok t e \<longleftrightarrow> fits (fv_fingerprint_bits t) (fst e) \<and>
     value_ok (fv_value_bits t) (fv_plaintext_bits t) (snd e)"

definition fv_read :: "fv_table \<Rightarrow> nat \<Rightarrow> nat \<Rightarrow> (u64 \<times> u32 list) option" where
  "fv_read t b s = do {
     fp \<leftarrow> fv_read_fingerprint t b s;
     v \<leftarrow> fv_read_value t b s (fv_value_size_in_cells t);
     Some (fp, v)
   }"

lemma fv_read_iff:
  assumes "fv_inv t" "b < fv_num_buckets t" "s < fv_bucket_size t"
  shows "fv_read t b s = Some e \<longleftrightarrow> fv_entry_ok t e \<and>
    (\<forall>j < fv_fingerprint_bits t. bit (fst e) j \<longleftrightarrow> tbit t (slot_bit_offset t b s + j)) \<and>
    (\<forall>k < fv_value_bits t. cbit (fv_plaintext_bits t) (snd e) k \<longleftrightarrow>
       tbit t (slot_bit_offset t b s + fv_fingerprint_bits t + k))"
proof -
  have "fv_read t b s = Some e \<longleftrightarrow> fv_read_fingerprint t b s = Some (fst e) \<and>
      fv_read_value t b s (fv_value_size_in_cells t) = Some (snd e)"
    by (cases e) (auto simp: fv_read_def bind_eq_Some_conv)
  then show ?thesis
    unfolding fv_read_fingerprint_iff [OF assms] fv_read_value_iff [OF assms] fv_entry_ok_def fits_bit
    by blast
qed

lemma fv_read_total [panic_free]:
  assumes "fv_inv t" "b < fv_num_buckets t" "s < fv_bucket_size t"
  shows "\<exists>e. fv_read t b s = Some e \<and> fv_entry_ok t e"
proof -
  obtain fp where "fv_read_fingerprint t b s = Some fp" "fits (fv_fingerprint_bits t) fp"
    using fv_read_fingerprint_total [OF assms] .
  moreover obtain v where "fv_read_value t b s (fv_value_size_in_cells t) = Some v"
    "value_ok (fv_value_bits t) (fv_plaintext_bits t) v" using fv_read_value_total [OF assms] .
  ultimately show ?thesis by (simp add: fv_read_def fv_entry_ok_def)
qed

lemma fv_entry_ok_len: "fv_entry_ok t e \<Longrightarrow> length (snd e) = fv_value_size_in_cells t"
  by (simp add: fv_entry_ok_def value_ok_def fv_value_size_in_cells_def)

lemma fv_entry_ok_shape: "same_shape t t' \<Longrightarrow> fv_entry_ok t' = fv_entry_ok t"
  by (simp add: fv_entry_ok_def fun_eq_iff geometry)

text \<open>Two tables of one shape with the same stream are equal.\<close>

lemma fv_eq_streamI:
  assumes "fv_inv t" "fv_inv t'" "same_shape t t'" "\<And>k. k < tlen t \<Longrightarrow> tbit t' k \<longleftrightarrow> tbit t k"
  shows "t' = t"
proof (rule same_shape_cells_eq [OF assms(3)])
  note sh = same_shapeD [OF assms(3)]
  show "fv_cells t' = fv_cells t"
  proof (rule cells_eq_streamI)
    show "length (fv_cells t') = length (fv_cells t)" using assms(1,2) sh by (simp add: fv_inv_def)
    then show "\<And>k. k < length (fv_cells t') * fv_plaintext_bits t \<Longrightarrow>
        cbit (fv_plaintext_bits t) (fv_cells t') k \<longleftrightarrow> cbit (fv_plaintext_bits t) (fv_cells t) k"
      using assms(4) sh by simp
  qed (use assms(1,2) sh in \<open>simp_all add: fv_inv_def\<close>)
qed

interpretation fv: slot_array fv_inv fv_num_buckets fv_bucket_size fv_read
  "\<lambda>t b s e. fv_write t b s (fst e) (snd e)" fv_entry_ok
proof (unfold_locales, goal_cases)
  case (1 t b s) then show ?case by (rule fv_read_total)
next
  case (2 t b s e)
  from fv_write_spec [OF 2(1-3) fv_entry_ok_len [OF 2(4)], of "fst e"] show ?case by blast
next
  case (3 t b s e t')
  note w = entry_writtenD [OF fv_write_entry [OF 3(1-3) fv_entry_ok_len [OF 3(4)] 3(5)]]
  show ?case using w(1,2) by (simp add: same_shapeD [OF w(1)] fv_entry_ok_shape)
next
  case (4 t b s e t')
  note w = entry_writtenD [OF fv_write_entry [OF 4(1-3) fv_entry_ok_len [OF 4(4)] 4(5)]]
  show ?case
    using 4(2-4) w(3,4) same_shapeD [OF w(1)]
    by (simp add: fv_read_iff [OF w(2)] fv_entry_ok_shape [OF w(1)])
next
  case (5 t b s e t' b' s')
  note w = entry_writtenD [OF fv_write_entry [OF 5(1-3) fv_entry_ok_len [OF 5(4)] 5(5)]]
  let ?off = "slot_bit_offset t b' s'"
  have same: "tbit t' (?off + k) = tbit t (?off + k)" if "k < entry_bits t" for k
  proof (rule w(5))
    show "?off + k < tlen t" using entry_in_table [OF 5(1,6,7)] that by linarith
    show "?off + k < slot_bit_offset t b s \<or> slot_bit_offset t b s + entry_bits t \<le> ?off + k"
      using slots_disjoint [OF 5(3,7,8)] entry_le_slot [OF 5(1)] that by linarith
  qed
  have f: "tbit t' (?off + j) = tbit t (?off + j)" if "j < fv_fingerprint_bits t" for j
    using same [of j] that by simp
  have v: "tbit t' (?off + fv_fingerprint_bits t + j) = tbit t (?off + fv_fingerprint_bits t + j)"
    if "j < fv_value_bits t" for j
    using same [of "fv_fingerprint_bits t + j"] that by (simp add: add.assoc)
  note d = same_shapeD [OF w(1)]
  have "fv_read t' b' s' = Some x \<longleftrightarrow> fv_read t b' s' = Some x" for x
    using fv_read_iff [OF w(2), where b = b' and s = s' and e = x] fv_read_iff [OF 5(1,6,7), where e = x] 5(6,7) f v
    by (simp add: d fv_entry_ok_shape [OF w(1)])
  then show ?case by (metis not_None_eq)
next
  case (6 t b s e e0 t')
  note w = entry_writtenD [OF fv_write_entry [OF 6(1-3) fv_entry_ok_len [OF 6(4)] 6(6)]]
  note d = same_shapeD [OF w(1)]
  have e0: "fv_entry_ok t e0"
    "\<And>j. j < fv_fingerprint_bits t \<Longrightarrow> bit (fst e0) j \<longleftrightarrow> tbit t (slot_bit_offset t b s + j)"
    "\<And>k. k < fv_value_bits t \<Longrightarrow> cbit (fv_plaintext_bits t) (snd e0) k \<longleftrightarrow>
       tbit t (slot_bit_offset t b s + fv_fingerprint_bits t + k)"
    using 6(5) unfolding fv_read_iff [OF 6(1-3)] by blast+
  have len: "length (fv_cells t') = length (fv_cells t)" using 6(1) w(2) d by (simp add: fv_inv_def)
  obtain u where u: "fv_write t' b s (fst e0) (snd e0) = Some u"
      and eu: "entry_written t' b s (fst e0) (snd e0) u"
    using fv_write_spec [OF w(2), of b s "snd e0" "fst e0"] 6(2,3) fv_entry_ok_len [OF e0(1)] d by auto
  note wu = entry_writtenD [OF eu, unfolded d len]
  note sh = same_shape_trans [OF w(1) wu(1)]
  have "u = t"
  proof (rule fv_eq_streamI [OF 6(1) wu(2) sh])
    fix k assume k: "k < tlen t"
    let ?off = "slot_bit_offset t b s"
    note pb = same_shapeD(5) [OF sh]
    consider (out) "k < ?off \<or> ?off + entry_bits t \<le> k"
      | (fp) j where "j < fv_fingerprint_bits t" "k = ?off + j"
      | (val) j where "j < fv_value_bits t" "k = ?off + fv_fingerprint_bits t + j"
    proof (cases "k < ?off \<or> ?off + entry_bits t \<le> k")
      case False
      then have "?off \<le> k" by simp
      then obtain i where "k = ?off + i" using le_Suc_ex by blast
      with False have i: "k = ?off + i" "i < entry_bits t" by simp_all
      show thesis
      proof (cases "i < fv_fingerprint_bits t")
        case False
        then have "fv_fingerprint_bits t \<le> i" by simp
        then obtain j where "i = fv_fingerprint_bits t + j" using le_Suc_ex by blast
        with i that(3) [of j] show thesis by (simp add: add.assoc)
      qed (use i that(2) in blast)
    qed (use that(1) in blast)
    then show "tbit u k \<longleftrightarrow> tbit t k"
    proof cases
      case out then show ?thesis using wu(5) [OF k out] w(5) [OF k out] d(5) pb by simp
    next
      case (fp j) then show ?thesis using wu(3) [of j] e0(2) [of j] pb by simp
    next
      case (val j) then show ?thesis using wu(4) [of j] e0(3) [of j] pb by simp
    qed
  qed
  with u show ?case by simp
qed

section \<open>Buckets\<close>

text \<open>The fingerprint a slot holds.\<close>

abbreviation fp_at :: "fv_table \<Rightarrow> nat \<Rightarrow> nat \<Rightarrow> u64" where
  "fp_at t b s \<equiv> fst (fv.view t (b, s))"

lemma fv_view:
  assumes "fv_inv t" "b < fv_num_buckets t" "s < fv_bucket_size t"
  shows "fv_read t b s = Some (fv.view t (b, s))" "fv_entry_ok t (fv.view t (b, s))"
  using fv_read_total [OF assms] by (auto simp: fv.view_def)

lemma fv_read_parts:
  assumes "fv_inv t" "b < fv_num_buckets t" "s < fv_bucket_size t"
  shows "fv_read_fingerprint t b s = Some (fp_at t b s)"
    "fv_read_value t b s (fv_value_size_in_cells t) = Some (snd (fv.view t (b, s)))"
  using fv_view(1) [OF assms]
  by (cases "fv.view t (b, s)"; simp add: fv_read_def bind_eq_Some_conv; blast)+

lemma fv_scan:
  assumes "fv_inv t" "b < fv_num_buckets t"
  shows "scan [0..<fv_bucket_size t] (\<lambda>s. do { x \<leftarrow> fv_read_fingerprint t b s; Some (x = fp) }) =
    Some (List.find (\<lambda>s. fp_at t b s = fp) [0..<fv_bucket_size t])"
  by (rule scan_upt) (simp add: fv_read_parts [OF assms])

lemma fv_find_eq:
  assumes "fv_inv t" "b < fv_num_buckets t"
  shows "fv_find t b fp = Some (List.find (\<lambda>s. fp_at t b s = fp) [0..<fv_bucket_size t])"
  unfolding fv_find_def by (rule fv_scan [OF assms])

lemma fv_contain_eq:
  assumes "fv_inv t" "b < fv_num_buckets t"
  shows "fv_contain t b fp = Some (\<exists>s < fv_bucket_size t. fp_at t b s = fp)"
  unfolding fv_contain_def fv_scan [OF assms]
  using find_upt_None [of "\<lambda>s. fp_at t b s = fp" "fv_bucket_size t"] by auto

lemma fv_write_fingerprint_same:
  assumes "fv_inv t" "b < fv_num_buckets t" "s < fv_bucket_size t"
  shows "fv_write_fingerprint t b s (fp_at t b s) = Some t"
proof -
  let ?off = "slot_bit_offset t b s"
  obtain u where u: "fv_write_fingerprint t b s (fp_at t b s) = Some u" "same_shape t u" "fv_inv u"
    and bits: "\<And>k. k < tlen t \<Longrightarrow> tbit u k \<longleftrightarrow>
      (if ?off \<le> k \<and> k < ?off + fv_fingerprint_bits t then bit (fp_at t b s) (k - ?off) else tbit t k)"
    using fv_write_fingerprint_spec [OF assms, of "fp_at t b s"] by blast
  have "u = t"
  proof (rule fv_eq_streamI [OF assms(1) u(3,2)])
    fix k assume "k < tlen t"
    moreover have "bit (fp_at t b s) (k - ?off) = tbit t k"
      if "?off \<le> k" "k < ?off + fv_fingerprint_bits t"
    proof -
      have "bit (fp_at t b s) j \<longleftrightarrow> j < fv_fingerprint_bits t \<and> tbit t (?off + j)" for j
        using fv_read_parts(1) [OF assms] unfolding fv_read_fingerprint_iff [OF assms] by blast
      from this [of "k - ?off"] that show ?thesis by (simp add: less_diff_conv2)
    qed
    ultimately show "tbit u k \<longleftrightarrow> tbit t k" using bits [of k] by auto
  qed
  with u(1) show ?thesis by simp
qed

text \<open>A value write is an entry write that keeps the fingerprint.\<close>

lemma fv_write_value_eq:
  assumes "fv_inv t" "b < fv_num_buckets t" "s < fv_bucket_size t"
  shows "fv_write_value t b s v = fv_write t b s (fp_at t b s) v"
  by (simp add: fv_write_def fv_write_fingerprint_same [OF assms])

lemma fv_insert_eq:
  assumes "fv_inv t" "b < fv_num_buckets t" "fp \<noteq> 0" "length v = fv_value_size_in_cells t"
  shows "fv_insert t b fp v =
    (case List.find (\<lambda>s. fp_at t b s = 0) [0..<fv_bucket_size t] of
       Some s \<Rightarrow> do { t' \<leftarrow> fv_write t b s fp v; Some (t', Some s) }
     | None \<Rightarrow> Some (t, None))"
  using assms(3,4) by (simp add: fv_insert_def fv_scan [OF assms(1,2)])

lemma fv_insert_cases:
  assumes "fv_inv t" "b < fv_num_buckets t" "fp \<noteq> 0" "fv_entry_ok t (fp, v)"
  obtains (placed) s t' where "fv_insert t b fp v = Some (t', Some s)" "s < fv_bucket_size t"
      "fp_at t b s = 0" "\<forall>i < s. fp_at t b i \<noteq> 0" "fv_write t b s fp v = Some t'"
    | (full) "fv_insert t b fp v = Some (t, None)" "\<forall>s < fv_bucket_size t. fp_at t b s \<noteq> 0"
proof (cases "List.find (\<lambda>s. fp_at t b s = 0) [0..<fv_bucket_size t]")
  case None
  then have "fv_insert t b fp v = Some (t, None)"
    using fv_insert_eq [OF assms(1-3), of v] fv_entry_ok_len [OF assms(4)] by simp
  then show thesis using full None unfolding find_upt_None by blast
next
  case (Some s)
  note f = find_upt_SomeD [OF Some]
  obtain t' where "fv_write t b s fp v = Some t'"
    using fv.wr_total [OF assms(1,2) _ assms(4), of s] f by auto
  then show thesis
    using placed [of t' s] f Some fv_insert_eq [OF assms(1-3), of v] fv_entry_ok_len [OF assms(4)] by simp
qed

lemma fv_delete_eq:
  assumes "fv_inv t" "b < fv_num_buckets t" "fp \<noteq> 0"
  shows "fv_delete t b fp =
    (case List.find (\<lambda>s. fp_at t b s = fp) [0..<fv_bucket_size t] of
       Some s \<Rightarrow> do { t' \<leftarrow> fv_write t b s 0 (replicate (fv_value_size_in_cells t) 0); Some (t', True) }
     | None \<Rightarrow> Some (t, False))"
proof (cases "List.find (\<lambda>s. fp_at t b s = fp) [0..<fv_bucket_size t]")
  case (Some s)
  then have s: "s < fv_bucket_size t" by (auto dest: find_upt_SomeD)
  obtain t1 where t1: "fv_write_fingerprint t b s 0 = Some t1" "same_shape t t1"
    using fv_write_fingerprint_spec [OF assms(1,2) s] by blast
  show ?thesis using Some t1 assms(3) same_shapeD(7) [OF t1(2)]
    by (simp add: fv_delete_def fv_scan [OF assms(1,2)] fv_write_def)
qed (use assms(3) in \<open>simp add: fv_delete_def fv_scan [OF assms(1,2)]\<close>)

lemma fv_update_value_eq:
  assumes "fv_inv t" "b < fv_num_buckets t" "length v = fv_value_size_in_cells t"
  shows "fv_update_value t b fp v =
    (case List.find (\<lambda>s. fp_at t b s = fp) [0..<fv_bucket_size t] of
       Some s \<Rightarrow> do { t' \<leftarrow> fv_write t b s fp v; Some (t', True) }
     | None \<Rightarrow> Some (t, False))"
proof (cases "List.find (\<lambda>s. fp_at t b s = fp) [0..<fv_bucket_size t]")
  case (Some s)
  note f = find_upt_SomeD [OF Some]
  then have "fv_write_value t b s v = fv_write t b s fp v"
    using fv_write_value_eq [OF assms(1,2), of s v] by simp
  with Some show ?thesis using assms(3) by (simp add: fv_update_value_def fv_find_eq [OF assms(1,2)])
qed (use assms(3) in \<open>simp add: fv_update_value_def fv_find_eq [OF assms(1,2)]\<close>)

section \<open>Constructors\<close>

lemma fv_new_iff:
  "fv_new nb bs fb vb pb = Some t \<longleftrightarrow>
    1 \<le> fb \<and> fb \<le> 64 \<and> 1 \<le> vb \<and> 1 \<le> pb \<and> pb \<le> 32 \<and> fb + vb < 2 ^ 32 \<and> nb * bs < 2 ^ 64 \<and>
    nb * bs * div_ceil (fb + vb) pb < 2 ^ 64 \<and>
    t = \<lparr> fv_cells = replicate (nb * bs * div_ceil (fb + vb) pb) 0, fv_num_buckets = nb,
         fv_bucket_size = bs, fv_fingerprint_bits = fb, fv_value_bits = vb,
         fv_plaintext_bits = pb, fv_cells_per_slot = div_ceil (fb + vb) pb \<rparr>"
  by (auto simp: fv_new_def Let_def bind_eq_Some_conv)

lemma fv_new_inv: "fv_new nb bs fb vb pb = Some t \<Longrightarrow> fv_inv t"
  by (auto simp: fv_new_iff fv_inv_def)

lemma cbit_replicate: "0 < pb \<Longrightarrow> k < n * pb \<Longrightarrow> \<not> cbit pb (replicate n 0) k"
  by (simp add: cbit_def div_less_iff_less_mult)

lemma fv_new_empty:
  assumes "fv_new nb bs fb vb pb = Some t" "b < nb" "s < bs"
  shows "fv.view t (b, s) = (0, replicate (fv_value_size_in_cells t) 0)"
proof -
  have inv: "fv_inv t" using fv_new_inv assms(1) .
  have r: "b < fv_num_buckets t" "s < fv_bucket_size t" using assms by (simp_all add: fv_new_iff)
  have pb: "0 < fv_plaintext_bits t" using inv by (simp add: fv_inv_def)
  have zero: "\<not> tbit t k" if "k < tlen t" for k
    using assms(1) that pb by (auto simp: fv_new_iff cbit_replicate)
  have sz: "slot_bit_offset t b s + entry_bits t \<le> tlen t" by (rule entry_in_table [OF inv r])
  have "fv_read t b s = Some (0, replicate (fv_value_size_in_cells t) 0)"
    unfolding fv_read_iff [OF inv r] fv_entry_ok_def
  proof (intro conjI allI impI)
    fix k assume k: "k < fv_value_bits t"
    have "k < div_ceil (fv_value_bits t) (fv_plaintext_bits t) * fv_plaintext_bits t"
      using k div_ceil_mult_ge [OF pb, of "fv_value_bits t"] by linarith
    then show "cbit (fv_plaintext_bits t) (snd (0, replicate (fv_value_size_in_cells t) 0)) k =
        tbit t (slot_bit_offset t b s + fv_fingerprint_bits t + k)"
      using zero [of "slot_bit_offset t b s + fv_fingerprint_bits t + k"] sz k pb
      by (simp add: fv_value_size_in_cells_def cbit_replicate)
  qed (use zero sz in \<open>simp_all add: fv_value_size_in_cells_def\<close>)
  then show ?thesis by (rule fv.view_eq)
qed

end
