(* ===== verification/Hashing.thy ===== *)
theory Hashing
  imports Prelude
begin

text \<open>
  Index and fingerprint derivation, \<open>segmented-cuckoo/src/hash.rs\<close>. The digest
  \<open>xxh3_128\<close> of the third-party crate \<open>xxhash-rust\<close> is the parameter \<open>xxh\<close>; nothing is
  assumed of it. \<open>u32\<close> and \<open>u64\<close> arithmetic wraps as the code's \<open>wrapping_mul\<close> does; the
  code's unchecked \<open>+\<close>, \<open>*\<close> and \<open>- 1\<close> do not overflow on the geometries of
  \<open>seg_ok\<close>, which the lemmas show by computing \<open>unat\<close> of every index.
  \<open>unreachable!()\<close> and division by a zero segment size are the panic \<open>None\<close>.
\<close>

section \<open>Fingerprints\<close>

definition fingerprint_hash1 :: "u64 \<Rightarrow> u32 \<Rightarrow> u32" where
  "fingerprint_hash1 fp rge =
     (ucast (drop_bit 32 (fp * 0xff51afd7ed558ccd)) :: u32) AND (rge - 1)"

definition fingerprint_hash2 :: "u64 \<Rightarrow> u32 \<Rightarrow> u32" where
  "fingerprint_hash2 fp rge =
     (ucast (drop_bit 32 (fp * 0xc4ceb9fe1a85ec53)) :: u32) AND (rge - 1)"

definition fingerprint_hash3 :: "u64 \<Rightarrow> u32 \<Rightarrow> u32" where
  "fingerprint_hash3 fp rge =
     (ucast (drop_bit 32 (fp * 0x9e3779b97f4a7c15)) :: u32) AND (rge - 1)"

definition extract_fingerprint :: "u64 \<Rightarrow> nat \<Rightarrow> u64" where
  "extract_fingerprint h fingerprint_bits =
     (let msk = (if fingerprint_bits \<ge> 64 then - 1 else push_bit fingerprint_bits 1 - 1);
          fingerprint = h AND msk
      in if fingerprint = 0 then 1 else fingerprint)"

definition hash_and_i1 :: "(u8 list \<Rightarrow> u128) \<Rightarrow> u8 list \<Rightarrow> nat \<Rightarrow> u32 \<Rightarrow> u128 \<times> u64 \<times> u32" where
  "hash_and_i1 xxh item fingerprint_bits rge =
     (let h = xxh item;
          fingerprint = extract_fingerprint (ucast h) fingerprint_bits;
          i1 = (ucast (drop_bit 64 h) :: u32) AND (rge - 1)
      in (h, fingerprint, i1))"

section \<open>Segmented schemes\<close>

definition hash_item_segmented_2ary ::
    "(u8 list \<Rightarrow> u128) \<Rightarrow> u8 list \<Rightarrow> u32 \<Rightarrow> nat \<Rightarrow> u64 \<times> u32 list" where
  "hash_item_segmented_2ary xxh item seg fb =
     (let (_, fp, i1) = hash_and_i1 xxh item fb seg;
          i2 = seg + (i1 XOR fingerprint_hash1 fp seg)
      in (fp, [i1, i2, 0, 0]))"

definition all_indices_segmented_2ary :: "u32 \<Rightarrow> u64 \<Rightarrow> u32 \<Rightarrow> u32 list" where
  "all_indices_segmented_2ary cur_index fp seg =
     (let h1 = fingerprint_hash1 fp seg
      in if cur_index < seg then
           (let i1 = cur_index; i2 = seg + (i1 XOR h1) in [i1, i2, 0, 0])
         else
           (let i2_local = cur_index - seg; i1 = i2_local XOR h1 in [i1, cur_index, 0, 0]))"

definition hash_item_segmented_3ary ::
    "(u8 list \<Rightarrow> u128) \<Rightarrow> u8 list \<Rightarrow> u32 \<Rightarrow> nat \<Rightarrow> u64 \<times> u32 list" where
  "hash_item_segmented_3ary xxh item seg fb =
     (let (_, fp, i1) = hash_and_i1 xxh item fb seg;
          h1 = fingerprint_hash1 fp seg;
          h2 = fingerprint_hash2 fp seg;
          i2_local = i1 XOR h1;
          i3_local = i2_local XOR h2
      in (fp, [i1, seg + i2_local, 2 * seg + i3_local, 0]))"

definition all_indices_segmented_3ary :: "u32 \<Rightarrow> u64 \<Rightarrow> u32 \<Rightarrow> u32 list option" where
  "all_indices_segmented_3ary cur_index fp seg =
     do {
       let h1 = fingerprint_hash1 fp seg;
       let h2 = fingerprint_hash2 fp seg;
       assert_opt (seg \<noteq> 0);
       let position = cur_index div seg;
       let local = cur_index - position * seg;
       i2_local \<leftarrow> (if position = 0 then Some (local XOR h1)
                   else if position = 1 then Some local
                   else if position = 2 then Some (local XOR h2)
                   else None);
       let i1 = i2_local XOR h1;
       let i3_local = i2_local XOR h2;
       Some [i1, seg + i2_local, 2 * seg + i3_local, 0]
     }"

definition hash_item_segmented_4ary ::
    "(u8 list \<Rightarrow> u128) \<Rightarrow> u8 list \<Rightarrow> u32 \<Rightarrow> nat \<Rightarrow> u64 \<times> u32 list" where
  "hash_item_segmented_4ary xxh item seg fb =
     (let (_, fp, i1) = hash_and_i1 xxh item fb seg;
          h1 = fingerprint_hash1 fp seg;
          h2 = fingerprint_hash2 fp seg;
          h3 = fingerprint_hash3 fp seg;
          i2_local = i1 XOR h1;
          i3_local = i2_local XOR h2;
          i4_local = i3_local XOR h3
      in (fp, [i1, seg + i2_local, 2 * seg + i3_local, 3 * seg + i4_local]))"

definition all_indices_segmented_4ary :: "u32 \<Rightarrow> u64 \<Rightarrow> u32 \<Rightarrow> u32 list option" where
  "all_indices_segmented_4ary cur_index fp seg =
     do {
       let h1 = fingerprint_hash1 fp seg;
       let h2 = fingerprint_hash2 fp seg;
       let h3 = fingerprint_hash3 fp seg;
       assert_opt (seg \<noteq> 0);
       let position = cur_index div seg;
       let local = cur_index - position * seg;
       i1 \<leftarrow> (if position = 0 then Some local
             else if position = 1 then Some (local XOR h1)
             else if position = 2 then Some ((local XOR h2) XOR h1)
             else if position = 3 then Some (((local XOR h3) XOR h2) XOR h1)
             else None);
       let i2_local = i1 XOR h1;
       let i3_local = i2_local XOR h2;
       let i4_local = i3_local XOR h3;
       Some [i1, seg + i2_local, 2 * seg + i3_local, 3 * seg + i4_local]
     }"

section \<open>Standard schemes\<close>

text \<open>
  \<open>XOR3_T81\<close>: the 81 by 81 table of digit-wise base-3 additions of four digits, built by the
  code's constant function with its loop over the \<open>XOR3_CHUNK_DIGITS\<close> digits.
\<close>

fun xor3_digits :: "nat \<Rightarrow> nat \<Rightarrow> nat \<Rightarrow> nat \<Rightarrow> nat \<Rightarrow> nat" where
  "xor3_digits 0 x y r place = r"
| "xor3_digits (Suc d) x y r place =
     xor3_digits d x y (r + ((x div place) mod 3 + (y div place) mod 3) mod 3 * place) (place * 3)"

definition build_xor3_t81 :: "u8 list list" where
  "build_xor3_t81 = map (\<lambda>x. map (\<lambda>y. of_nat (xor3_digits 4 x y 0 1)) [0..<81]) [0..<81]"

definition xor3_t81 :: "nat \<Rightarrow> nat \<Rightarrow> u8" where
  "xor3_t81 x y = build_xor3_t81 ! x ! y"

definition xor3 :: "u32 \<Rightarrow> u32 \<Rightarrow> u32" where
  "xor3 a b =
     (let c0 = ucast (xor3_t81 (unat (a mod 81)) (unat (b mod 81)));
          c1 = ucast (xor3_t81 (unat ((a div 81) mod 81)) (unat ((b div 81) mod 81)));
          c2 = ucast (xor3_t81 (unat ((a div 6561) mod 81)) (unat ((b div 6561) mod 81)));
          c3 = ucast (xor3_t81 (unat ((a div 531441) mod 81)) (unat ((b div 531441) mod 81)));
          c4 = ucast (xor3_t81 (unat ((a div 43046721) mod 81)) (unat ((b div 43046721) mod 81)))
      in c0 + c1 * 81 + c2 * 6561 + c3 * 531441 + c4 * 43046721)"

definition xor4 :: "u32 \<Rightarrow> u32 \<Rightarrow> u32" where
  "xor4 a b =
     (let lo_mask = 0x55555555;
          a_lo = a AND lo_mask;
          b_lo = b AND lo_mask;
          a_hi = drop_bit 1 a AND lo_mask;
          b_hi = drop_bit 1 b AND lo_mask;
          sum_lo = a_lo XOR b_lo;
          carry = a_lo AND b_lo;
          sum_hi = a_hi XOR b_hi XOR carry
      in sum_lo OR push_bit 1 sum_hi)"

definition fingerprint_hash_mod :: "u64 \<Rightarrow> u32 \<Rightarrow> u32" where
  "fingerprint_hash_mod fp rge = (ucast (drop_bit 32 (fp * 0xff51afd7ed558ccd)) :: u32) mod rge"

definition hash_item_standard_2ary ::
    "(u8 list \<Rightarrow> u128) \<Rightarrow> u8 list \<Rightarrow> u32 \<Rightarrow> nat \<Rightarrow> u64 \<times> u32 list" where
  "hash_item_standard_2ary xxh item num_buckets fb =
     (let (_, fp, i1) = hash_and_i1 xxh item fb num_buckets;
          i2 = i1 XOR fingerprint_hash1 fp num_buckets
      in (fp, [i1, i2, 0, 0]))"

definition all_indices_standard_2ary :: "u32 \<Rightarrow> u64 \<Rightarrow> u32 \<Rightarrow> u32 list" where
  "all_indices_standard_2ary cur_index fp num_buckets =
     (let h1 = fingerprint_hash1 fp num_buckets in [cur_index, cur_index XOR h1, 0, 0])"

definition hash_item_standard_3ary ::
    "(u8 list \<Rightarrow> u128) \<Rightarrow> u8 list \<Rightarrow> u32 \<Rightarrow> nat \<Rightarrow> u64 \<times> u32 list" where
  "hash_item_standard_3ary xxh item num_buckets fb =
     (let raw = xxh item;
          fp = extract_fingerprint (ucast raw) fb;
          i1 = (ucast (drop_bit 64 raw) :: u32) mod num_buckets;
          h = fingerprint_hash_mod fp num_buckets;
          i2 = xor3 i1 h;
          i3 = xor3 i2 h
      in (fp, [i1, i2, i3, 0]))"

definition all_indices_standard_3ary :: "u32 \<Rightarrow> u64 \<Rightarrow> u32 \<Rightarrow> u32 list" where
  "all_indices_standard_3ary cur_index fp num_buckets =
     (let h = fingerprint_hash_mod fp num_buckets;
          alt1 = xor3 cur_index h;
          alt2 = xor3 alt1 h
      in [cur_index, alt1, alt2, 0])"

definition hash_item_standard_4ary ::
    "(u8 list \<Rightarrow> u128) \<Rightarrow> u8 list \<Rightarrow> u32 \<Rightarrow> nat \<Rightarrow> u64 \<times> u32 list" where
  "hash_item_standard_4ary xxh item num_buckets fb =
     (let (_, fp, i1) = hash_and_i1 xxh item fb num_buckets;
          h = fingerprint_hash1 fp num_buckets;
          i2 = xor4 i1 h;
          i3 = xor4 i2 h;
          i4 = xor4 i3 h
      in (fp, [i1, i2, i3, i4]))"

definition all_indices_standard_4ary :: "u32 \<Rightarrow> u64 \<Rightarrow> u32 \<Rightarrow> u32 list" where
  "all_indices_standard_4ary cur_index fp num_buckets =
     (let h = fingerprint_hash1 fp num_buckets;
          alt1 = xor4 cur_index h;
          alt2 = xor4 alt1 h;
          alt3 = xor4 alt2 h
      in [cur_index, alt1, alt2, alt3])"

section \<open>Fingerprints are non-zero and fit their width\<close>

lemma extract_fingerprint_nonzero: "extract_fingerprint h fb \<noteq> 0"
  by (simp add: extract_fingerprint_def Let_def)

lemma extract_fingerprint_fits: "0 < fb \<Longrightarrow> fits fb (extract_fingerprint h fb)"
  by (auto simp: extract_fingerprint_def Let_def fits_bit push_bit_1_minus_1 bit_and_iff
      bit_mask_iff bit_1_iff dest: bit_word_lt simp del: push_bit_of_1)

section \<open>Segment geometry\<close>

text \<open>
  A segment size is a power of two, and \<open>k\<close> segments fit the \<open>u32\<close> bucket index.
\<close>

definition seg_ok :: "nat \<Rightarrow> u32 \<Rightarrow> bool" where
  "seg_ok k seg \<longleftrightarrow> (\<exists>t < 32. unat seg = 2 ^ t) \<and> k * unat seg < 2 ^ 32"

lemma pow2_word_mask:
  assumes "unat (seg::u32) = 2 ^ t" "t < 32"
  shows "seg - 1 = mask t"
proof -
  have "seg = of_nat (unat seg)" by simp
  also have "\<dots> = 2 ^ t" by (simp only: assms(1) of_nat_power of_nat_numeral)
  finally have "seg = 2 ^ t" .
  then show ?thesis by (simp add: mask_eq_exp_minus_1)
qed

lemma and_pow2_less:
  assumes "\<exists>t < 32. unat (seg::u32) = 2 ^ t"
  shows "x AND (seg - 1) < seg"
proof -
  obtain t where t: "t < 32" "unat seg = 2 ^ t" using assms by blast
  have "unat (x AND mask t :: u32) < 2 ^ t"
    using t(1) fits_less [of t "x AND mask t"] by (simp add: fits_def take_bit_eq_mask and.assoc)
  then show ?thesis using t by (simp add: pow2_word_mask word_less_nat_alt)
qed

lemma xor_pow2_less:
  assumes "\<exists>t < 32. unat (seg::u32) = 2 ^ t" "a < seg" "b < seg"
  shows "a XOR b < seg"
proof -
  obtain t where t: "t < 32" "unat seg = 2 ^ t" using assms by blast
  then have "fits t a" "fits t b" using assms by (simp_all add: fits_less word_less_nat_alt)
  then have "fits t (a XOR b)" by (rule fits_xor)
  then show ?thesis using t by (simp add: fits_less word_less_nat_alt)
qed

lemma seg_ok_pow2: "seg_ok k seg \<Longrightarrow> \<exists>t < 32. unat seg = 2 ^ t"
  by (auto simp: seg_ok_def)

lemma seg_ok_pos: "seg_ok k seg \<Longrightarrow> 0 < unat seg"
  by (auto simp: seg_ok_def)

lemma fingerprint_hash_less:
  assumes "seg_ok k seg"
  shows "fingerprint_hash1 fp seg < seg" "fingerprint_hash2 fp seg < seg" "fingerprint_hash3 fp seg < seg"
  using assms by (simp_all add: fingerprint_hash1_def fingerprint_hash2_def fingerprint_hash3_def
      and_pow2_less seg_ok_pow2)

lemma segment_pos:
  assumes "seg_ok k seg" "j < k" "x < seg"
  shows "unat (of_nat j * seg + x) = j * unat seg + unat x"
    and "j * unat seg + unat x < k * unat seg"
    and "(of_nat j * seg + x) div seg = of_nat j"
proof -
  have x: "unat x < unat seg" using assms(3) by (simp add: word_less_nat_alt)
  show lt: "j * unat seg + unat x < k * unat seg" using mult_add_less [OF assms(2) x] .
  have k: "k * unat seg < 2 ^ 32" using assms(1) by (simp add: seg_ok_def)
  have "j \<le> j * unat seg" using seg_ok_pos [OF assms(1)] by simp
  then have j: "j < 2 ^ 32" using lt k by linarith
  have js: "unat (of_nat j * seg) = j * unat seg"
    using lt k j by (simp add: unat_word_ariths unat_of_nat)
  show u: "unat (of_nat j * seg + x) = j * unat seg + unat x"
    using lt k js by (simp add: unat_word_ariths)
  have "unat ((of_nat j * seg + x) div seg) = j"
    using u x by (simp add: unat_div_distrib)
  then have "unat ((of_nat j * seg + x) div seg) = unat (of_nat j :: u32)"
    using j by (simp add: unat_of_nat)
  then show "(of_nat j * seg + x) div seg = of_nat j" by (simp only: word_unat_eq_iff)
qed

lemmas segment_pos1 = segment_pos [where j = 1, simplified]
lemmas segment_pos2 = segment_pos [where j = 2, simplified]
lemmas segment_pos3 = segment_pos [where j = 3, simplified]

lemma segment_div0: "x < (seg::u32) \<Longrightarrow> x div seg = 0"
  by (simp add: word_unat_eq_iff unat_div_distrib word_less_nat_alt)

text \<open>Reconstruction: any of the candidates gives back the whole candidate array.\<close>

lemma xor_cancel [simp]: "(a XOR h) XOR h = (a :: 'a::len word)"
  by (simp add: xor.assoc)

definition chain2 :: "u32 \<Rightarrow> u64 \<Rightarrow> u32 \<Rightarrow> u32 list" where
  "chain2 seg fp i1 = [i1, seg + (i1 XOR fingerprint_hash1 fp seg), 0, 0]"

definition chain3 :: "u32 \<Rightarrow> u64 \<Rightarrow> u32 \<Rightarrow> u32 list" where
  "chain3 seg fp i1 =
     (let i2 = i1 XOR fingerprint_hash1 fp seg; i3 = i2 XOR fingerprint_hash2 fp seg
      in [i1, seg + i2, 2 * seg + i3, 0])"

definition chain4 :: "u32 \<Rightarrow> u64 \<Rightarrow> u32 \<Rightarrow> u32 list" where
  "chain4 seg fp i1 =
     (let i2 = i1 XOR fingerprint_hash1 fp seg; i3 = i2 XOR fingerprint_hash2 fp seg;
          i4 = i3 XOR fingerprint_hash3 fp seg
      in [i1, seg + i2, 2 * seg + i3, 3 * seg + i4])"

lemma seg_xor_less:
  assumes "seg_ok k seg" "x < seg"
  shows "x XOR fingerprint_hash1 fp seg < seg" "x XOR fingerprint_hash2 fp seg < seg"
    "x XOR fingerprint_hash3 fp seg < seg"
  using assms by (simp_all add: xor_pow2_less seg_ok_pow2 fingerprint_hash_less)

lemma all_indices_2_chain:
  assumes "seg_ok 2 seg" "i1 < seg" "p < 2"
  shows "all_indices_segmented_2ary (chain2 seg fp i1 ! p) fp seg = chain2 seg fp i1"
proof -
  have "p = 0 \<or> p = 1" using assms(3) by auto
  moreover have "\<not> seg + (i1 XOR fingerprint_hash1 fp seg) < seg"
    using segment_pos1(1) [OF assms(1) _ seg_xor_less(1) [OF assms(1,2)]]
    by (simp add: word_less_nat_alt)
  ultimately show ?thesis
    using assms(2) by (auto simp: all_indices_segmented_2ary_def chain2_def Let_def)
qed

lemma all_indices_3_chain:
  assumes "seg_ok 3 seg" "i1 < seg" "p < 3"
  shows "all_indices_segmented_3ary (chain3 seg fp i1 ! p) fp seg = Some (chain3 seg fp i1)"
proof -
  note x1 = seg_xor_less(1) [OF assms(1,2), of fp]
  note x2 = seg_xor_less(2) [OF assms(1) x1, of fp]
  have "seg \<noteq> 0" using seg_ok_pos [OF assms(1)] by auto
  moreover have "p = 0 \<or> p = 1 \<or> p = 2" using assms(3) by auto
  ultimately show ?thesis
    using segment_div0 [OF assms(2)] segment_pos1(3) [OF assms(1) _ x1] segment_pos2(3) [OF assms(1) _ x2]
    by (auto simp: all_indices_segmented_3ary_def chain3_def Let_def)
qed

lemma all_indices_4_chain:
  assumes "seg_ok 4 seg" "i1 < seg" "p < 4"
  shows "all_indices_segmented_4ary (chain4 seg fp i1 ! p) fp seg = Some (chain4 seg fp i1)"
proof -
  note x1 = seg_xor_less(1) [OF assms(1,2), of fp]
  note x2 = seg_xor_less(2) [OF assms(1) x1, of fp]
  note x3 = seg_xor_less(3) [OF assms(1) x2, of fp]
  have "seg \<noteq> 0" using seg_ok_pos [OF assms(1)] by auto
  moreover have "p = 0 \<or> p = 1 \<or> p = 2 \<or> p = 3" using assms(3) by auto
  ultimately show ?thesis
    using segment_div0 [OF assms(2)] segment_pos1(3) [OF assms(1) _ x1]
      segment_pos2(3) [OF assms(1) _ x2] segment_pos3(3) [OF assms(1) _ x3]
    by (auto simp: all_indices_segmented_4ary_def chain4_def Let_def)
qed

lemma chain_nth_unat:
  assumes "seg_ok k seg" "i1 < seg"
  shows "k = 2 \<Longrightarrow> p < 2 \<Longrightarrow> p * unat seg \<le> unat (chain2 seg fp i1 ! p) \<and>
      unat (chain2 seg fp i1 ! p) < Suc p * unat seg"
    and "k = 3 \<Longrightarrow> p < 3 \<Longrightarrow> p * unat seg \<le> unat (chain3 seg fp i1 ! p) \<and>
      unat (chain3 seg fp i1 ! p) < Suc p * unat seg"
    and "k = 4 \<Longrightarrow> p < 4 \<Longrightarrow> p * unat seg \<le> unat (chain4 seg fp i1 ! p) \<and>
      unat (chain4 seg fp i1 ! p) < Suc p * unat seg"
proof -
  note x1 = seg_xor_less(1) [OF assms, of fp]
  note x2 = seg_xor_less(2) [OF assms(1) x1, of fp]
  note x3 = seg_xor_less(3) [OF assms(1) x2, of fp]
  note lt = assms(2) [unfolded word_less_nat_alt] x1 [unfolded word_less_nat_alt]
    x2 [unfolded word_less_nat_alt] x3 [unfolded word_less_nat_alt]
  show "k = 2 \<Longrightarrow> p < 2 \<Longrightarrow> p * unat seg \<le> unat (chain2 seg fp i1 ! p) \<and>
      unat (chain2 seg fp i1 ! p) < Suc p * unat seg"
    using segment_pos1(1) [OF assms(1) _ x1] lt by (auto simp: chain2_def less_2_cases_iff)
  show "k = 3 \<Longrightarrow> p < 3 \<Longrightarrow> p * unat seg \<le> unat (chain3 seg fp i1 ! p) \<and>
      unat (chain3 seg fp i1 ! p) < Suc p * unat seg"
    using segment_pos1(1) [OF assms(1) _ x1] segment_pos2(1) [OF assms(1) _ x2] lt
    by (auto simp: chain3_def Let_def less_Suc_eq numeral_3_eq_3 numeral_2_eq_2)
  show "k = 4 \<Longrightarrow> p < 4 \<Longrightarrow> p * unat seg \<le> unat (chain4 seg fp i1 ! p) \<and>
      unat (chain4 seg fp i1 ! p) < Suc p * unat seg"
    using segment_pos1(1) [OF assms(1) _ x1] segment_pos2(1) [OF assms(1) _ x2]
      segment_pos3(1) [OF assms(1) _ x3] lt
    by (auto simp: chain4_def Let_def less_Suc_eq numeral_eq_Suc)
qed

end
