(* ===== verification/Xor_Digits.thy ===== *)
theory Xor_Digits
  imports Hashing
begin

text \<open>
  The standard schemes' chains: the table-driven \<open>xor3\<close> and the bit-parallel \<open>xor4\<close> of
  \<open>hash.rs\<close> are both digit-wise additions without carry, in base 3 and base 4. The reference is
  \<open>digit_sum\<close>, stated digit by digit.
\<close>

section \<open>Digit-wise sums\<close>

definition digit :: "nat \<Rightarrow> nat \<Rightarrow> nat \<Rightarrow> nat" where
  "digit b d x = (x div b ^ d) mod b"

definition digit_sum :: "nat \<Rightarrow> nat \<Rightarrow> nat \<Rightarrow> nat \<Rightarrow> nat" where
  "digit_sum b k x y = (\<Sum>d<k. ((digit b d x + digit b d y) mod b) * b ^ d)"

lemma digit_less: "0 < b \<Longrightarrow> digit b d x < b"
  by (simp add: digit_def)

lemma pow_sum_less:
  assumes "0 < b" "\<And>i. i < k \<Longrightarrow> f i < b"
  shows "(\<Sum>i<k. f i * b ^ i) < (b::nat) ^ k"
  using assms(2)
proof (induction k)
  case (Suc k)
  then have "(\<Sum>i<k. f i * b ^ i) < b ^ k" by simp
  moreover have "f k \<le> b - 1" using Suc.prems [of k] by simp
  then have "f k * b ^ k \<le> (b - 1) * b ^ k" by (rule mult_le_mono1)
  ultimately have "(\<Sum>i<k. f i * b ^ i) + f k * b ^ k < b ^ k + (b - 1) * b ^ k" by linarith
  also have "\<dots> = b ^ Suc k" using assms(1) by (cases b) simp_all
  finally show ?case by simp
qed simp

lemma digit_pow_sum:
  assumes "0 < b" "\<And>i. i < k \<Longrightarrow> f i < b" "d < k"
  shows "digit b d (\<Sum>i<k. f i * b ^ i) = f d"
  using assms(2,3)
proof (induction k)
  case (Suc k)
  let ?s = "\<Sum>i<k. f i * b ^ i"
  have pos: "b ^ n \<noteq> 0" for n using assms(1) by simp
  have lt: "?s < b ^ k" using pow_sum_less [OF assms(1), of k f] Suc.prems by simp
  show ?case
  proof (cases "d = k")
    case True
    have "(?s + f k * b ^ k) div b ^ k = f k" using lt div_mult_self1 [OF pos] by simp
    then show ?thesis using True Suc.prems(1) [of k] by (simp add: digit_def)
  next
    case False
    then have "d < k" using Suc.prems(2) by simp
    then have "k = d + Suc (k - Suc d)" by simp
    then obtain e where e: "k = d + Suc e" by blast
    have "(?s + f k * b ^ k) div b ^ d = (?s + (f k * b ^ Suc e) * b ^ d) div b ^ d"
      by (simp add: e power_add ac_simps)
    also have "\<dots> = ?s div b ^ d + (f k * b ^ e) * b"
      by (subst div_mult_self1 [OF pos]) (simp add: ac_simps)
    finally have "digit b d (?s + f k * b ^ k) = digit b d ?s"
      by (simp add: digit_def)
    with False Suc show ?thesis by simp
  qed
qed simp

lemma digits_determine:
  assumes "0 < b" "x < b ^ k"
  shows "x = (\<Sum>d<k. digit b d x * b ^ d)"
  using assms(2)
proof (induction k arbitrary: x)
  case (Suc k)
  have "x div b < b ^ k" using Suc.prems assms(1) by (simp add: div_less_iff_less_mult mult.commute)
  then have "x div b = (\<Sum>d<k. digit b d (x div b) * b ^ d)" by (rule Suc.IH)
  also have "\<dots> = (\<Sum>d<k. digit b (Suc d) x * b ^ d)"
    by (simp add: digit_def div_mult2_eq)
  finally have "x = (\<Sum>d<k. digit b (Suc d) x * b ^ d) * b + x mod b"
    by (metis div_mult_mod_eq)
  also have "\<dots> = (\<Sum>d<Suc k. digit b d x * b ^ d)"
    unfolding sum.lessThan_Suc_shift by (simp add: digit_def sum_distrib_left ac_simps)
  finally show ?case .
qed simp

lemma digits_eqI:
  assumes "0 < b" "x < b ^ k" "y < b ^ k" "\<And>d. d < k \<Longrightarrow> digit b d x = digit b d y"
  shows "x = y"
  using digits_determine [OF assms(1,2)] digits_determine [OF assms(1,3)] assms(4) by simp

lemma digit_sum_less: "0 < b \<Longrightarrow> digit_sum b k x y < b ^ k"
  unfolding digit_sum_def by (intro pow_sum_less) simp_all

lemma digit_digit_sum:
  "0 < b \<Longrightarrow> d < k \<Longrightarrow> digit b d (digit_sum b k x y) = (digit b d x + digit b d y) mod b"
  unfolding digit_sum_def by (subst digit_pow_sum) simp_all

lemma digit_high:
  assumes "0 < b" "x < b ^ t" "t \<le> d"
  shows "digit b d x = 0"
proof -
  have "b ^ t \<le> b ^ d" using assms by (intro power_increasing) simp_all
  with assms(2) have "x div b ^ d = 0" by simp
  then show ?thesis by (simp add: digit_def)
qed

lemma digit_sum_range:
  assumes "0 < b" "x < b ^ t" "y < b ^ t" "t \<le> k"
  shows "digit_sum b k x y < b ^ t"
proof -
  have "digit_sum b k x y = digit_sum b t x y"
    unfolding digit_sum_def
    by (rule sum.mono_neutral_right) (use assms in \<open>auto simp: digit_high\<close>)
  then show ?thesis using digit_sum_less [OF assms(1)] by simp
qed

lemma digit_sum_split:
  "digit_sum b (k + m) x y =
     digit_sum b k x y + b ^ k * digit_sum b m (x div b ^ k) (y div b ^ k)"
proof (induction m)
  case (Suc m)
  have "digit b (k + m) z = digit b m (z div b ^ k)" for z
    by (simp add: digit_def power_add div_mult2_eq)
  with Suc show ?case by (simp add: digit_sum_def power_add algebra_simps)
qed (simp add: digit_sum_def)

lemma digit_mod:
  assumes "0 < b" "d < k"
  shows "digit b d (z mod b ^ k) = digit b d z"
proof -
  have "k = d + Suc (k - Suc d)" using assms(2) by simp
  then obtain e where e: "k = d + Suc e" by blast
  have "z mod b ^ k = b ^ d * (z div b ^ d mod b ^ Suc e) + z mod b ^ d"
    by (simp only: e power_add mod_mult2_eq)
  moreover have "z mod b ^ d < b ^ d" using assms(1) by simp
  ultimately have "(z mod b ^ k) div b ^ d = z div b ^ d mod b ^ Suc e"
    using assms(1) by simp
  then show ?thesis unfolding digit_def by (metis dvd_triv_left mod_mod_cancel power_Suc)
qed

lemma digit_sum_mod:
  "0 < b \<Longrightarrow> digit_sum b k (x mod b ^ k) (y mod b ^ k) = digit_sum b k x y"
  by (simp add: digit_sum_def digit_mod)

section \<open>The table and \<open>xor3\<close>\<close>

lemma xor3_digits_eq:
  "xor3_digits d x y r (3 ^ j) =
     r + (\<Sum>i<d. ((digit 3 (j + i) x + digit 3 (j + i) y) mod 3) * 3 ^ (j + i))"
proof (induction d arbitrary: r j)
  case (Suc d)
  have "xor3_digits (Suc d) x y r (3 ^ j) =
      xor3_digits d x y (r + ((digit 3 j x + digit 3 j y) mod 3) * 3 ^ j) (3 ^ Suc j)"
    by (simp add: digit_def mult.commute)
  then show ?case unfolding sum.lessThan_Suc_shift by (simp only: Suc.IH) (simp add: add.assoc)
qed simp

lemma xor3_t81_eq:
  assumes "x < 81" "y < 81"
  shows "unat (xor3_t81 x y) = digit_sum 3 4 x y"
proof -
  have "xor3_digits 4 x y 0 1 = digit_sum 3 4 x y"
    using xor3_digits_eq [of 4 x y 0 0] by (simp add: digit_sum_def)
  moreover have "digit_sum 3 4 x y < 81" using digit_sum_less [of 3 4 x y] by simp
  ultimately show ?thesis
    using assms by (simp add: xor3_t81_def build_xor3_t81_def unat_of_nat)
qed

lemma xor3_chunk:
  fixes a b m :: u32
  shows "(ucast (xor3_t81 (unat ((a div m) mod 81)) (unat ((b div m) mod 81))) :: u32) =
     of_nat (digit_sum 3 4 (unat a div unat m) (unat b div unat m))"
proof -
  have 81: "unat ((w div m) mod 81) = (unat w div unat m) mod 3 ^ 4" for w :: u32
    by (simp add: unat_mod_distrib unat_div_distrib)
  have lt: "unat ((w div m) mod 81) < 81" for w :: u32 by (simp add: 81)
  have "digit_sum 3 4 x y < 2 ^ 32" for x y using digit_sum_less [of 3 4 x y] by simp
  moreover have "unat (ucast (c :: u8) :: u32) = unat c" for c
    using unsigned_less [of c, where ?'a = nat]
    by (simp add: unsigned_ucast_eq take_bit_nat_eq_self)
  ultimately show ?thesis
    unfolding word_unat_eq_iff using xor3_t81_eq [OF lt lt, of a b]
    by (simp add: unat_of_nat) (simp add: 81 digit_sum_mod [of 3 4, simplified])
qed

theorem xor3_digit_sum: "unat (xor3 a b) = digit_sum 3 20 (unat a) (unat b)"
proof -
  let ?D = "\<lambda>k m. digit_sum 3 k (unat a div m) (unat b div m)"
  have lt: "?D 4 m \<le> 80" for m using digit_sum_less [of 3 4 "unat a div m" "unat b div m"] by simp
  have "xor3 a b = of_nat (?D 4 1 + ?D 4 81 * 81 + ?D 4 6561 * 6561 + ?D 4 531441 * 531441
      + ?D 4 43046721 * 43046721)" (is "_ = of_nat ?S")
    using xor3_chunk [of a 1 b] xor3_chunk [of a 81 b] xor3_chunk [of a 6561 b]
      xor3_chunk [of a 531441 b] xor3_chunk [of a 43046721 b]
    by (simp add: xor3_def Let_def)
  moreover have "?S < 4294967296"
    using lt [of 1] lt [of 81] lt [of 6561] lt [of 531441] lt [of 43046721] by linarith
  moreover have "digit_sum 3 20 (unat a) (unat b) = ?S"
    using digit_sum_split [of 3 4 16 "unat a" "unat b"]
      digit_sum_split [of 3 4 12 "unat a div 81" "unat b div 81"]
      digit_sum_split [of 3 4 8 "unat a div 6561" "unat b div 6561"]
      digit_sum_split [of 3 4 4 "unat a div 531441" "unat b div 531441"]
    by (simp add: div_mult2_eq [symmetric])
  moreover have "unat (of_nat n :: u32) = n" if "n < 4294967296" for n
    using that by (simp add: unat_of_nat)
  ultimately show ?thesis by (simp only:)
qed

lemma xor3_less: "unat (xor3 a b) < 3 ^ 20"
  unfolding xor3_digit_sum by (rule digit_sum_less) simp

lemma xor3_digit:
  "d < 20 \<Longrightarrow> digit 3 d (unat (xor3 a b)) = (digit 3 d (unat a) + digit 3 d (unat b)) mod 3"
  by (simp add: xor3_digit_sum digit_digit_sum)

text \<open>Applying the same offset three times returns to the start.\<close>

theorem xor3_cycle:
  assumes "unat x < 3 ^ 20"
  shows "xor3 (xor3 (xor3 x h) h) h = x"
proof -
  have "unat (xor3 (xor3 (xor3 x h) h) h) = unat x"
  proof (rule digits_eqI [of 3 _ 20])
    fix d :: nat assume "d < 20"
    then have "digit 3 d (unat (xor3 (xor3 (xor3 x h) h) h)) =
        (((digit 3 d (unat x) + digit 3 d (unat h)) mod 3 + digit 3 d (unat h)) mod 3
          + digit 3 d (unat h)) mod 3"
      by (simp add: xor3_digit)
    also have "\<dots> = (digit 3 d (unat x) + 3 * digit 3 d (unat h)) mod 3" by presburger
    finally show "digit 3 d (unat (xor3 (xor3 (xor3 x h) h) h)) = digit 3 d (unat x)"
      by (simp add: digit_def)
  qed (use assms xor3_less in simp_all)
  then show ?thesis by (simp add: word_unat_eq_iff)
qed

section \<open>\<open>xor4\<close>\<close>

lemma digit4_bits:
  "digit 4 d (unat (w::u32)) = of_bool (bit w (2 * d)) + 2 * of_bool (bit w (2 * d + 1))"
proof -
  have mod2: "(unat w div 2 ^ k) mod 2 = of_bool (bit w k)" for k
  proof -
    have "(unat w div 2 ^ k) mod 2 = of_bool (bit (unat w) k)"
      by (simp only: mod_2_eq_odd bit_iff_odd)
    then show ?thesis by (simp add: bit_unsigned_iff)
  qed
  have "digit 4 d (unat w) = (unat w div 2 ^ (2 * d)) mod 4"
    by (simp add: digit_def power_mult)
  also have "\<dots> = (unat w div 2 ^ (2 * d)) mod 2 + 2 * ((unat w div 2 ^ (2 * d)) div 2 mod 2)"
    using mod_mult2_eq [of "unat w div 2 ^ (2 * d)" 2 2] by simp
  also have "(unat w div 2 ^ (2 * d)) div 2 = unat w div 2 ^ (2 * d + 1)"
    by (simp add: div_mult2_eq [symmetric] mult.commute)
  finally show ?thesis by (simp only: mod2)
qed

lemma lo_mask_bit: "bit (0x55555555 :: u32) k \<longleftrightarrow> k < 32 \<and> even k"
proof -
  have "\<forall>k \<in> set [0..<32]. bit (0x55555555 :: u32) k \<longleftrightarrow> even k" by code_simp
  then show ?thesis using bit_word_lt [of "0x55555555 :: u32" k] by auto
qed

lemma xor4_bits:
  assumes "d < 16"
  shows "bit (xor4 a b) (2 * d) \<longleftrightarrow> bit a (2 * d) \<noteq> bit b (2 * d)"
    and "bit (xor4 a b) (2 * d + 1) \<longleftrightarrow>
      ((bit a (2 * d + 1) \<noteq> bit b (2 * d + 1)) \<noteq> (bit a (2 * d) \<and> bit b (2 * d)))"
proof -
  define M where "M = (0x55555555 :: u32)"
  have M: "bit M k \<longleftrightarrow> k < 32 \<and> even k" for k unfolding M_def by (rule lo_mask_bit)
  have eq: "xor4 a b = ((a AND M) XOR (b AND M)) OR
      push_bit 1 ((drop_bit 1 a AND M) XOR (drop_bit 1 b AND M) XOR ((a AND M) AND (b AND M)))"
    by (simp only: xor4_def Let_def M_def)
  have bits: "bit (xor4 a b) k \<longleftrightarrow> k < 32 \<and>
      (if even k then bit a k \<noteq> bit b k
       else ((bit a k \<noteq> bit b k) \<noteq> (bit a (k - 1) \<and> bit b (k - 1))))" for k
    unfolding eq by (cases k) (auto simp: bit_or_iff bit_xor_iff bit_and_iff bit_push_bit_iff
        bit_drop_bit_eq M dest: bit_word_lt simp del: push_bit_Suc)
  show "bit (xor4 a b) (2 * d) \<longleftrightarrow> bit a (2 * d) \<noteq> bit b (2 * d)"
    using assms by (simp add: bits)
  show "bit (xor4 a b) (2 * d + 1) \<longleftrightarrow>
      ((bit a (2 * d + 1) \<noteq> bit b (2 * d + 1)) \<noteq> (bit a (2 * d) \<and> bit b (2 * d)))"
    using assms by (simp add: bits)
qed

theorem xor4_digit:
  assumes "d < 16"
  shows "digit 4 d (unat (xor4 a b)) = (digit 4 d (unat a) + digit 4 d (unat b)) mod 4"
  unfolding digit4_bits using xor4_bits [OF assms, of a b] by (auto simp: of_bool_def)

lemma u32_less_4_16: "unat (w::u32) < 4 ^ 16"
  using unsigned_less [of w, where ?'a = nat] by simp

theorem xor4_digit_sum: "unat (xor4 a b) = digit_sum 4 16 (unat a) (unat b)"
  by (rule digits_eqI [of 4 _ 16])
     (simp_all only: u32_less_4_16 digit_sum_less xor4_digit digit_digit_sum zero_less_numeral)

theorem xor4_cycle: "xor4 (xor4 (xor4 (xor4 x h) h) h) h = x"
proof -
  have "unat (xor4 (xor4 (xor4 (xor4 x h) h) h) h) = unat x"
  proof (rule digits_eqI [of 4 _ 16])
    fix d :: nat assume "d < 16"
    then have "digit 4 d (unat (xor4 (xor4 (xor4 (xor4 x h) h) h) h)) =
        ((((digit 4 d (unat x) + digit 4 d (unat h)) mod 4 + digit 4 d (unat h)) mod 4
          + digit 4 d (unat h)) mod 4 + digit 4 d (unat h)) mod 4"
      by (simp only: xor4_digit)
    also have "\<dots> = (digit 4 d (unat x) + 4 * digit 4 d (unat h)) mod 4" by presburger
    finally show "digit 4 d (unat (xor4 (xor4 (xor4 (xor4 x h) h) h) h)) = digit 4 d (unat x)"
      by (simp add: digit_def)
  qed (simp_all only: u32_less_4_16 zero_less_numeral)
  then show ?thesis by (simp add: word_unat_eq_iff)
qed

text \<open>Both sums stay inside a table of \<open>b ^ t\<close> buckets.\<close>

lemma xor3_range:
  "unat x < 3 ^ t \<Longrightarrow> unat h < 3 ^ t \<Longrightarrow> t \<le> 20 \<Longrightarrow> unat (xor3 x h) < 3 ^ t"
  unfolding xor3_digit_sum by (rule digit_sum_range) simp_all

lemma xor4_range:
  "unat x < 4 ^ t \<Longrightarrow> unat h < 4 ^ t \<Longrightarrow> t \<le> 16 \<Longrightarrow> unat (xor4 x h) < 4 ^ t"
  unfolding xor4_digit_sum by (rule digit_sum_range) simp_all

end
