(* ===== verification/Schemes.thy ===== *)
theory Schemes
  imports Hashing Xor_Digits
begin

text \<open>
  \<open>segmented-cuckoo/src/scheme.rs\<close>: the trait \<open>IndexScheme\<close> and its six implementations. The
  implementing structs, each with one \<open>u32\<close> field, are the constructors of one datatype and the
  trait's methods are functions by cases on it. The locale \<open>index_scheme\<close> is the contract the
  filter and the store rely on: a fingerprint in one of its candidate buckets determines all of
  them.
\<close>

datatype index_scheme =
    Standard2aryScheme u32
  | Segmented2aryScheme u32
  | Standard3aryScheme u32
  | Segmented3aryScheme u32
  | Standard4aryScheme u32
  | Segmented4aryScheme u32

fun arity :: "index_scheme \<Rightarrow> nat" where
  "arity (Standard2aryScheme _) = 2"
| "arity (Segmented2aryScheme _) = 2"
| "arity (Standard3aryScheme _) = 3"
| "arity (Segmented3aryScheme _) = 3"
| "arity (Standard4aryScheme _) = 4"
| "arity (Segmented4aryScheme _) = 4"

fun hash_item :: "(u8 list \<Rightarrow> u128) \<Rightarrow> index_scheme \<Rightarrow> u8 list \<Rightarrow> nat \<Rightarrow> u64 \<times> u32 list" where
  "hash_item xxh (Standard2aryScheme nb) item fb = hash_item_standard_2ary xxh item nb fb"
| "hash_item xxh (Segmented2aryScheme seg) item fb = hash_item_segmented_2ary xxh item seg fb"
| "hash_item xxh (Standard3aryScheme nb) item fb = hash_item_standard_3ary xxh item nb fb"
| "hash_item xxh (Segmented3aryScheme seg) item fb = hash_item_segmented_3ary xxh item seg fb"
| "hash_item xxh (Standard4aryScheme nb) item fb = hash_item_standard_4ary xxh item nb fb"
| "hash_item xxh (Segmented4aryScheme seg) item fb = hash_item_segmented_4ary xxh item seg fb"

fun all_indices :: "index_scheme \<Rightarrow> u32 \<Rightarrow> u64 \<Rightarrow> u32 list option" where
  "all_indices (Standard2aryScheme nb) i fp = Some (all_indices_standard_2ary i fp nb)"
| "all_indices (Segmented2aryScheme seg) i fp = Some (all_indices_segmented_2ary i fp seg)"
| "all_indices (Standard3aryScheme nb) i fp = Some (all_indices_standard_3ary i fp nb)"
| "all_indices (Segmented3aryScheme seg) i fp = all_indices_segmented_3ary i fp seg"
| "all_indices (Standard4aryScheme nb) i fp = Some (all_indices_standard_4ary i fp nb)"
| "all_indices (Segmented4aryScheme seg) i fp = all_indices_segmented_4ary i fp seg"

datatype scheme_kind = Segmented2ary | Segmented3ary | Segmented4ary

text \<open>\<open>SchemeMeta::KIND\<close>: only the segmented schemes have one.\<close>

fun scheme_meta :: "index_scheme \<Rightarrow> scheme_kind option" where
  "scheme_meta (Segmented2aryScheme _) = Some Segmented2ary"
| "scheme_meta (Segmented3aryScheme _) = Some Segmented3ary"
| "scheme_meta (Segmented4aryScheme _) = Some Segmented4ary"
| "scheme_meta _ = None"

section \<open>Geometry\<close>

fun scheme_buckets :: "index_scheme \<Rightarrow> nat" where
  "scheme_buckets (Standard2aryScheme nb) = unat nb"
| "scheme_buckets (Segmented2aryScheme seg) = 2 * unat seg"
| "scheme_buckets (Standard3aryScheme nb) = unat nb"
| "scheme_buckets (Segmented3aryScheme seg) = 3 * unat seg"
| "scheme_buckets (Standard4aryScheme nb) = unat nb"
| "scheme_buckets (Segmented4aryScheme seg) = 4 * unat seg"

text \<open>The field constraints the struct documentation states and the constructors check.\<close>

fun valid_scheme :: "index_scheme \<Rightarrow> bool" where
  "valid_scheme (Standard2aryScheme nb) = (\<exists>t < 32. unat nb = 2 ^ t)"
| "valid_scheme (Segmented2aryScheme seg) = seg_ok 2 seg"
| "valid_scheme (Standard3aryScheme nb) = (\<exists>t \<le> 20. unat nb = 3 ^ t)"
| "valid_scheme (Segmented3aryScheme seg) = seg_ok 3 seg"
| "valid_scheme (Standard4aryScheme nb) = (\<exists>t < 16. unat nb = 4 ^ t)"
| "valid_scheme (Segmented4aryScheme seg) = seg_ok 4 seg"

text \<open>The set of candidate buckets of a fingerprint seen in bucket \<open>i\<close>.\<close>

definition candidates :: "index_scheme \<Rightarrow> u32 \<Rightarrow> u64 \<Rightarrow> u32 set" where
  "candidates s i fp = (case all_indices s i fp of None \<Rightarrow> {} | Some idx \<Rightarrow> set (take (arity s) idx))"

lemma scheme_buckets_less: "valid_scheme s \<Longrightarrow> scheme_buckets s < 2 ^ 32"
  using unsigned_less [where ?'a = nat and ?'b = 32] by (cases s) (auto simp: seg_ok_def)

lemma scheme_buckets_pos: "valid_scheme s \<Longrightarrow> 0 < scheme_buckets s"
  by (cases s) (auto simp: seg_ok_def)

section \<open>The contract\<close>

locale index_scheme =
  fixes valid :: "'s \<Rightarrow> bool" and ar :: "'s \<Rightarrow> nat" and buckets :: "'s \<Rightarrow> nat"
    and item :: "'s \<Rightarrow> 'k \<Rightarrow> nat \<Rightarrow> u64 \<times> u32 list"
    and alts :: "'s \<Rightarrow> u32 \<Rightarrow> u64 \<Rightarrow> u32 list option"
    and cands :: "'s \<Rightarrow> u32 \<Rightarrow> u64 \<Rightarrow> u32 set"
  assumes cands_eq: "alts s i fp = Some idx \<Longrightarrow> cands s i fp = set (take (ar s) idx)"
    and arity_range: "valid s \<Longrightarrow> 2 \<le> ar s \<and> ar s \<le> 4"
    and alts_total: "valid s \<Longrightarrow> unat i < buckets s \<Longrightarrow>
      \<exists>idx. alts s i fp = Some idx \<and> length idx = 4 \<and> i \<in> cands s i fp \<and>
        (\<forall>j \<in> cands s i fp. unat j < buckets s)"
    and alts_stable: "valid s \<Longrightarrow> unat i < buckets s \<Longrightarrow> j \<in> cands s i fp \<Longrightarrow>
      cands s j fp = cands s i fp"
    and item_total: "valid s \<Longrightarrow> 0 < fb \<Longrightarrow> item s key fb = (fp, idx) \<Longrightarrow>
      fp \<noteq> 0 \<and> fits fb fp \<and> length idx = 4 \<and> unat (idx ! 0) < buckets s \<and>
        cands s (idx ! 0) fp = set (take (ar s) idx)"
begin

lemma cands_self: "valid s \<Longrightarrow> unat i < buckets s \<Longrightarrow> i \<in> cands s i fp"
  using alts_total by blast

lemma cands_bucket: "valid s \<Longrightarrow> unat i < buckets s \<Longrightarrow> j \<in> cands s i fp \<Longrightarrow> unat j < buckets s"
  using alts_total by blast

lemma alts_nth:
  assumes "valid s" "unat i < buckets s" "alts s i fp = Some idx" "p < ar s"
  shows "idx ! p \<in> cands s i fp" "unat (idx ! p) < buckets s" "cands s (idx ! p) fp = cands s i fp"
proof -
  have "length idx = 4" using alts_total [OF assms(1,2), of fp] assms(3) by auto
  then show "idx ! p \<in> cands s i fp"
    using assms arity_range [OF assms(1)] by (auto simp: cands_eq in_set_conv_nth intro!: exI [of _ p])
  then show "unat (idx ! p) < buckets s" "cands s (idx ! p) fp = cands s i fp"
    using cands_bucket alts_stable assms(1,2) by blast+
qed

text \<open>Every candidate of an item has the item's candidates, so a kick never loses it.\<close>

lemma item_nth:
  assumes "valid s" "0 < fb" "item s key fb = (fp, idx)" "p < ar s"
  shows "unat (idx ! p) < buckets s" "cands s (idx ! p) fp = set (take (ar s) idx)"
proof -
  note it = item_total [OF assms(1-3)]
  have "idx ! p \<in> set (take (ar s) idx)"
    using it assms(4) arity_range [OF assms(1)] by (auto simp: in_set_conv_nth intro!: exI [of _ p])
  then show "unat (idx ! p) < buckets s" "cands s (idx ! p) fp = set (take (ar s) idx)"
    using it cands_bucket alts_stable assms(1) by blast+
qed

lemma item_set_nth:
  assumes "valid s" "0 < fb" "item s key fb = (fp, idx)" "b \<in> set (take (ar s) idx)"
  obtains p where "p < ar s" "b = idx ! p"
  using assms(4) item_total [OF assms(1-3)] by (auto simp: in_set_conv_nth)

lemma cands_eq_item_iff:
  assumes "valid s" "0 < fb" "item s key fb = (fp, idx)" "unat b < buckets s"
  shows "cands s b fp = set (take (ar s) idx) \<longleftrightarrow> b \<in> set (take (ar s) idx)"
proof
  assume "b \<in> set (take (ar s) idx)"
  then obtain p where "p < ar s" "b = idx ! p" by (rule item_set_nth [OF assms(1-3)])
  then show "cands s b fp = set (take (ar s) idx)" using item_nth(2) [OF assms(1-3)] by simp
qed (use cands_self [OF assms(1,4)] in auto)

end

section \<open>The six schemes keep it\<close>

lemma take4: "take 4 [a, b, c, d] = [a, b, c, d]" "take 3 [a, b, c, d] = [a, b, c]"
  "take 2 [a, b, c, d] = [a, b]"
  by (simp_all add: numeral_eq_Suc)

lemmas chain_defs = chain2_def chain3_def chain4_def

text \<open>The bucket \<open>i\<close> of a segmented table is the candidate of segment \<open>i div seg\<close> of a unique chain.\<close>

lemma segment_split:
  assumes "seg_ok k seg" "unat i < k * unat seg"
  obtains j x where "j < k" "x < seg" "i = of_nat j * seg + x"
proof -
  define j where "j = unat i div unat seg"
  define x where "x = (of_nat (unat i mod unat seg) :: u32)"
  have pos: "0 < unat seg" using seg_ok_pos [OF assms(1)] .
  have lt: "unat i mod unat seg < unat seg" using pos by simp
  have "unat i mod unat seg < 2 ^ 32"
    using lt unsigned_less [of seg, where ?'a = nat] by simp
  then have ux: "unat x = unat i mod unat seg" by (simp add: x_def unat_of_nat)
  have x: "x < seg" using lt ux by (simp add: word_less_nat_alt)
  have j: "j < k" using assms(2) pos by (simp add: j_def div_less_iff_less_mult)
  have "unat (of_nat j * seg + x) = unat i"
    unfolding segment_pos(1) [OF assms(1) j x] ux by (simp add: j_def)
  then have "i = of_nat j * seg + x" by (simp add: word_unat_eq_iff)
  with j x that show ?thesis by blast
qed

lemma segment_chain:
  assumes "seg_ok k seg" "unat i < k * unat seg"
  shows "k = 2 \<Longrightarrow> \<exists>i1 p. i1 < seg \<and> p < 2 \<and> i = chain2 seg fp i1 ! p"
    and "k = 3 \<Longrightarrow> \<exists>i1 p. i1 < seg \<and> p < 3 \<and> i = chain3 seg fp i1 ! p"
    and "k = 4 \<Longrightarrow> \<exists>i1 p. i1 < seg \<and> p < 4 \<and> i = chain4 seg fp i1 ! p"
proof -
  obtain j x where jx: "j < k" "x < seg" "i = of_nat j * seg + x"
    using segment_split [OF assms] by blast
  define h1 where "h1 = fingerprint_hash1 fp seg"
  define h2 where "h2 = fingerprint_hash2 fp seg"
  define h3 where "h3 = fingerprint_hash3 fp seg"
  have less: "y XOR h1 < seg" "y XOR h2 < seg" "y XOR h3 < seg" if "y < seg" for y
    using seg_xor_less [OF assms(1) that] by (simp_all add: h1_def h2_def h3_def)
  show "k = 2 \<Longrightarrow> \<exists>i1 p. i1 < seg \<and> p < 2 \<and> i = chain2 seg fp i1 ! p"
  proof -
    assume "k = 2"
    with jx have "i = chain2 seg fp x ! 0 \<and> j = 0 \<or> i = chain2 seg fp (x XOR h1) ! 1 \<and> j = 1"
      by (auto simp: less_2_cases_iff chain2_def h1_def)
    moreover have "(0::nat) < 2" "(1::nat) < 2" by simp_all
    ultimately show ?thesis using jx less by blast
  qed
  show "k = 3 \<Longrightarrow> \<exists>i1 p. i1 < seg \<and> p < 3 \<and> i = chain3 seg fp i1 ! p"
  proof -
    assume "k = 3"
    with jx have "j = 0 \<or> j = 1 \<or> j = 2" by auto
    then have "i = chain3 seg fp x ! 0 \<or> i = chain3 seg fp (x XOR h1) ! 1 \<or>
        i = chain3 seg fp ((x XOR h2) XOR h1) ! 2"
      using jx(3) by (auto simp: chain3_def Let_def h1_def h2_def)
    moreover have "(0::nat) < 3" "(1::nat) < 3" "(2::nat) < 3" by simp_all
    ultimately show ?thesis using jx less by blast
  qed
  show "k = 4 \<Longrightarrow> \<exists>i1 p. i1 < seg \<and> p < 4 \<and> i = chain4 seg fp i1 ! p"
  proof -
    assume "k = 4"
    with jx have "j = 0 \<or> j = 1 \<or> j = 2 \<or> j = 3" by auto
    then have "i = chain4 seg fp x ! 0 \<or> i = chain4 seg fp (x XOR h1) ! 1 \<or>
        i = chain4 seg fp ((x XOR h2) XOR h1) ! 2 \<or> i = chain4 seg fp (((x XOR h3) XOR h2) XOR h1) ! 3"
      using jx(3) by (auto simp: chain4_def Let_def h1_def h2_def h3_def)
    moreover have "(0::nat) < 4" "(1::nat) < 4" "(2::nat) < 4" "(3::nat) < 4" by simp_all
    ultimately show ?thesis using jx less by blast
  qed
qed

lemma segmented_laws:
  assumes "seg_ok k seg" "unat i < k * unat seg"
    and "k = 2 \<and> s = Segmented2aryScheme seg \<or> k = 3 \<and> s = Segmented3aryScheme seg \<or>
         k = 4 \<and> s = Segmented4aryScheme seg"
  shows "\<exists>idx. length idx = 4 \<and> i \<in> set (take k idx) \<and>
      (\<forall>j \<in> set (take k idx). unat j < k * unat seg \<and> all_indices s j fp = Some idx)"
proof -
  have set_take: "set (take k xs) = {xs ! p |p. p < k}" if "length xs = 4" for xs :: "u32 list"
  proof -
    have "k \<le> 4" using assms(3) by auto
    with that show ?thesis by (force simp: in_set_conv_nth)
  qed
  have bound: "Suc p * unat seg \<le> k * unat seg" if "p < k" for p
    using that by (intro mult_le_mono1) simp
  have core: ?thesis if c: "length c = 4" "i = c ! p" "p < k"
    and ci: "\<And>q. q < k \<Longrightarrow> unat (c ! q) < Suc q * unat seg \<and> all_indices s (c ! q) fp = Some c" for c p
  proof (intro exI [of _ c] conjI ballI)
    note st = set_take [OF c(1)]
    show "length c = 4" by (rule c(1))
    show "i \<in> set (take k c)" unfolding st using c(2,3) by blast
    fix j assume "j \<in> set (take k c)"
    then obtain q where q: "q < k" "j = c ! q" unfolding st by blast
    with ci show "all_indices s j fp = Some c" by simp
    show "unat j < k * unat seg" using ci [OF q(1)] bound [OF q(1)] q(2) by simp
  qed
  show ?thesis using assms(3)
  proof (elim disjE conjE)
    assume k: "k = 2" and s: "s = Segmented2aryScheme seg"
    obtain i1 p where i: "i1 < seg" "p < 2" "i = chain2 seg fp i1 ! p"
      using segment_chain(1) [OF assms(1,2) k] by blast
    show ?thesis
      by (rule core [of "chain2 seg fp i1" p])
        (use i k s chain_nth_unat(1) [OF assms(1) i(1) k] all_indices_2_chain [of seg i1] assms(1)
          in \<open>simp_all add: chain2_def\<close>)
  next
    assume k: "k = 3" and s: "s = Segmented3aryScheme seg"
    obtain i1 p where i: "i1 < seg" "p < 3" "i = chain3 seg fp i1 ! p"
      using segment_chain(2) [OF assms(1,2) k] by blast
    show ?thesis
      by (rule core [of "chain3 seg fp i1" p])
        (use i k s chain_nth_unat(2) [OF assms(1) i(1) k] all_indices_3_chain [of seg i1] assms(1)
          in \<open>simp_all add: chain3_def Let_def\<close>)
  next
    assume k: "k = 4" and s: "s = Segmented4aryScheme seg"
    obtain i1 p where i: "i1 < seg" "p < 4" "i = chain4 seg fp i1 ! p"
      using segment_chain(3) [OF assms(1,2) k] by blast
    show ?thesis
      by (rule core [of "chain4 seg fp i1" p])
        (use i k s chain_nth_unat(3) [OF assms(1) i(1) k] all_indices_4_chain [of seg i1] assms(1)
          in \<open>simp_all add: chain4_def Let_def\<close>)
  qed
qed

lemma hash_item_segmented:
  "hash_item_segmented_2ary xxh key seg fb = (fp, idx) \<Longrightarrow>
     idx = chain2 seg fp (idx ! 0) \<and> idx ! 0 = ucast (drop_bit 64 (xxh key)) AND (seg - 1) \<and>
     fp = extract_fingerprint (ucast (xxh key)) fb"
  "hash_item_segmented_3ary xxh key seg fb = (fp, idx) \<Longrightarrow>
     idx = chain3 seg fp (idx ! 0) \<and> idx ! 0 = ucast (drop_bit 64 (xxh key)) AND (seg - 1) \<and>
     fp = extract_fingerprint (ucast (xxh key)) fb"
  "hash_item_segmented_4ary xxh key seg fb = (fp, idx) \<Longrightarrow>
     idx = chain4 seg fp (idx ! 0) \<and> idx ! 0 = ucast (drop_bit 64 (xxh key)) AND (seg - 1) \<and>
     fp = extract_fingerprint (ucast (xxh key)) fb"
  by (auto simp: hash_item_segmented_2ary_def hash_item_segmented_3ary_def
      hash_item_segmented_4ary_def hash_and_i1_def chain_defs Let_def)

lemma chain_nth_0: "chain2 seg fp i ! 0 = i" "chain3 seg fp i ! 0 = i" "chain4 seg fp i ! 0 = i"
  by (simp_all add: chain_defs Let_def)

lemma chain_length: "length (chain2 seg fp i) = 4" "length (chain3 seg fp i) = 4"
  "length (chain4 seg fp i) = 4"
  by (simp_all add: chain_defs Let_def)

text \<open>The standard schemes: orbits of the digit-wise additions.\<close>

lemma standard2_laws:
  assumes "\<exists>t < 32. unat (nb::u32) = 2 ^ t" "unat i < unat nb"
  shows "unat (i XOR fingerprint_hash1 fp nb) < unat nb"
  using xor_pow2_less [OF assms(1), of i "fingerprint_hash1 fp nb"] assms
  by (simp add: word_less_nat_alt [symmetric] fingerprint_hash1_def and_pow2_less)

lemma standard3_laws:
  assumes "\<exists>t \<le> 20. unat (nb::u32) = 3 ^ t" "unat i < unat nb"
  shows "unat (xor3 i (fingerprint_hash_mod fp nb)) < unat nb"
    and "xor3 (xor3 (xor3 i (fingerprint_hash_mod fp nb)) (fingerprint_hash_mod fp nb))
           (fingerprint_hash_mod fp nb) = i"
proof -
  obtain t where t: "t \<le> 20" "unat nb = 3 ^ t" using assms(1) by blast
  have h: "unat (fingerprint_hash_mod fp nb) < 3 ^ t"
    by (simp add: fingerprint_hash_mod_def unat_mod_distrib t(2))
  show "unat (xor3 i (fingerprint_hash_mod fp nb)) < unat nb"
    using xor3_range [OF _ h t(1)] assms(2) t(2) by simp
  have "(3::nat) ^ t \<le> 3 ^ 20" using t(1) by (intro power_increasing) simp_all
  then show "xor3 (xor3 (xor3 i (fingerprint_hash_mod fp nb)) (fingerprint_hash_mod fp nb))
           (fingerprint_hash_mod fp nb) = i"
    using assms(2) t(2) by (intro xor3_cycle) linarith
qed

lemma standard4_laws:
  assumes "\<exists>t < 16. unat (nb::u32) = 4 ^ t" "unat i < unat nb"
  shows "unat (xor4 i (fingerprint_hash1 fp nb)) < unat nb"
proof -
  obtain t where t: "t < 16" "unat nb = 4 ^ t" using assms(1) by blast
  have "\<exists>t < 32. unat nb = 2 ^ t"
    using t by (intro exI [of _ "2 * t"]) (simp add: power_mult)
  then have "fingerprint_hash1 fp nb < nb"
    unfolding fingerprint_hash1_def by (rule and_pow2_less)
  then have "unat (fingerprint_hash1 fp nb) < 4 ^ t"
    using t(2) by (simp add: word_less_nat_alt)
  then show ?thesis using xor4_range [of i t] assms(2) t by simp
qed

lemma candidates_eq:
  "all_indices s i fp = Some idx \<Longrightarrow> candidates s i fp = set (take (arity s) idx)"
  by (simp add: candidates_def)

lemma scheme_arity_range: "2 \<le> arity s \<and> arity s \<le> 4"
  by (cases s) simp_all

text \<open>One law for all six: the candidates of a bucket all have the same candidates.\<close>

lemma all_indices_laws:
  assumes "valid_scheme s" "unat i < scheme_buckets s"
  shows "\<exists>idx. all_indices s i fp = Some idx \<and> length idx = 4 \<and> i \<in> candidates s i fp \<and>
      (\<forall>j \<in> candidates s i fp. unat j < scheme_buckets s \<and> candidates s j fp = candidates s i fp)"
proof -
  have seg: ?thesis
    if k: "k = 2 \<and> s = Segmented2aryScheme sg \<or> k = 3 \<and> s = Segmented3aryScheme sg \<or>
         k = 4 \<and> s = Segmented4aryScheme sg" for k :: nat and sg
  proof -
    have ok: "seg_ok k sg" "unat i < k * unat sg" "arity s = k" "scheme_buckets s = k * unat sg"
      using k assms by auto
    obtain idx where idx: "length idx = 4" "i \<in> set (take k idx)"
      "\<And>j. j \<in> set (take k idx) \<Longrightarrow> unat j < k * unat sg \<and> all_indices s j fp = Some idx"
      using segmented_laws [OF ok(1,2) k, of fp] by blast
    then show ?thesis using ok by (auto simp: candidates_def)
  qed
  show ?thesis
  proof (cases s)
    case (Standard2aryScheme nb)
    then show ?thesis using standard2_laws [of nb i fp] assms
      by (auto simp: candidates_def all_indices_standard_2ary_def Let_def take4)
  next
    case (Standard3aryScheme nb)
    define h where "h = fingerprint_hash_mod fp nb"
    have v: "\<exists>t \<le> 20. unat nb = 3 ^ t" "unat i < unat nb" using Standard3aryScheme assms by auto
    note l1 = standard3_laws [OF v, of fp, folded h_def]
    note l2 = standard3_laws [OF v(1) l1(1), of fp, folded h_def]
    show ?thesis using l1 l2 v Standard3aryScheme
      by (auto simp: candidates_def all_indices_standard_3ary_def Let_def take4 h_def [symmetric])
  next
    case (Standard4aryScheme nb)
    define h where "h = fingerprint_hash1 fp nb"
    have v: "\<exists>t < 16. unat nb = 4 ^ t" "unat i < unat nb" using Standard4aryScheme assms by auto
    note l1 = standard4_laws [OF v, of fp, folded h_def]
    note l2 = standard4_laws [OF v(1) l1, of fp, folded h_def]
    note l3 = standard4_laws [OF v(1) l2, of fp, folded h_def]
    show ?thesis using l1 l2 l3 v Standard4aryScheme xor4_cycle [of i h]
      by (auto simp: candidates_def all_indices_standard_4ary_def Let_def take4 h_def [symmetric])
  next
    case (Segmented2aryScheme sg) then show ?thesis by (intro seg [of 2 sg]) simp
  next
    case (Segmented3aryScheme sg) then show ?thesis by (intro seg [of 3 sg]) simp
  next
    case (Segmented4aryScheme sg) then show ?thesis by (intro seg [of 4 sg]) simp
  qed
qed

lemma mod_less_pos: "0 < unat (nb::u32) \<Longrightarrow> unat (w mod nb) < unat nb"
  by (simp add: unat_mod_distrib)

lemma hash_item_laws:
  assumes "valid_scheme s" "0 < fb" "hash_item xxh s key fb = (fp, idx)"
  shows "fp \<noteq> 0 \<and> fits fb fp \<and> length idx = 4 \<and> unat (idx ! 0) < scheme_buckets s \<and>
    candidates s (idx ! 0) fp = set (take (arity s) idx)"
proof (cases s)
  case (Segmented2aryScheme sg)
  with assms have ok: "seg_ok 2 sg" by simp
  have "idx ! 0 < sg"
    using hash_item_segmented(1) [of xxh key sg fb fp idx] assms Segmented2aryScheme
    by (simp add: and_pow2_less seg_ok_pow2 [OF ok])
  then show ?thesis
    using hash_item_segmented(1) [of xxh key sg fb fp idx] assms Segmented2aryScheme
      all_indices_2_chain [OF ok, of "idx ! 0" 0 fp]
    by (simp add: chain_nth_0 candidates_def word_less_nat_alt extract_fingerprint_nonzero
        extract_fingerprint_fits) (metis chain_length(1))
next
  case (Segmented3aryScheme sg)
  with assms have ok: "seg_ok 3 sg" by simp
  have "idx ! 0 < sg"
    using hash_item_segmented(2) [of xxh key sg fb fp idx] assms Segmented3aryScheme
    by (simp add: and_pow2_less seg_ok_pow2 [OF ok])
  then show ?thesis
    using hash_item_segmented(2) [of xxh key sg fb fp idx] assms Segmented3aryScheme
      all_indices_3_chain [OF ok, of "idx ! 0" 0 fp]
    by (simp add: chain_nth_0 candidates_def word_less_nat_alt extract_fingerprint_nonzero
        extract_fingerprint_fits) (metis chain_length(2))
next
  case (Segmented4aryScheme sg)
  with assms have ok: "seg_ok 4 sg" by simp
  have "idx ! 0 < sg"
    using hash_item_segmented(3) [of xxh key sg fb fp idx] assms Segmented4aryScheme
    by (simp add: and_pow2_less seg_ok_pow2 [OF ok])
  then show ?thesis
    using hash_item_segmented(3) [of xxh key sg fb fp idx] assms Segmented4aryScheme
      all_indices_4_chain [OF ok, of "idx ! 0" 0 fp]
    by (simp add: chain_nth_0 candidates_def word_less_nat_alt extract_fingerprint_nonzero
        extract_fingerprint_fits) (metis chain_length(3))
next
  case (Standard2aryScheme nb)
  then show ?thesis using assms and_pow2_less [of nb]
    by (auto simp: hash_item_standard_2ary_def hash_and_i1_def Let_def candidates_def
        all_indices_standard_2ary_def word_less_nat_alt [symmetric]
        extract_fingerprint_nonzero extract_fingerprint_fits)
next
  case (Standard3aryScheme nb)
  then show ?thesis using assms mod_less_pos [of nb]
    by (auto simp: hash_item_standard_3ary_def Let_def candidates_def all_indices_standard_3ary_def
        extract_fingerprint_nonzero extract_fingerprint_fits)
next
  case (Standard4aryScheme nb)
  then obtain t where t: "t < 16" "unat nb = 4 ^ t" using assms(1) by auto
  then have "\<exists>t < 32. unat nb = 2 ^ t" by (intro exI [of _ "2 * t"]) (simp add: power_mult)
  with Standard4aryScheme show ?thesis using assms and_pow2_less [of nb]
    by (auto simp: hash_item_standard_4ary_def hash_and_i1_def Let_def candidates_def
        all_indices_standard_4ary_def word_less_nat_alt [symmetric]
        extract_fingerprint_nonzero extract_fingerprint_fits)
qed

interpretation ix: index_scheme valid_scheme arity scheme_buckets "hash_item xxh" all_indices candidates
  for xxh
proof (unfold_locales, goal_cases)
  case (1 s i fp idx) then show ?case by (rule candidates_eq)
next
  case (2 s) show ?case by (rule scheme_arity_range)
next
  case (3 s i fp) then show ?case using all_indices_laws [of s i fp] by blast
next
  case (4 s i j fp) then show ?case using all_indices_laws [of s i fp] by blast
next
  case (5 s fb key fp idx) then show ?case by (rule hash_item_laws)
qed

end
