(* ===== verification/Slot_Pack.thy ===== *)
theory Slot_Pack
  imports FV_Table Schemes
begin

text \<open>
  The free functions and the parameter bundle of \<open>segmented-cuckoo/src/store.rs\<close>: \<open>CuckooParams\<close>,
  the conversion between value bytes and cells (\<open>pack_value_bytes_to_cells\<close>,
  \<open>unpack_value_streaming\<close>) and between an entry and the cells of a slot (\<open>pack_slot_cells\<close>,
  \<open>unpack_slot_cells\<close>). The lemmas read every loop as moving one stream of bits, and end in the
  round trips of the codec.
\<close>

section \<open>Parameters\<close>

record cuckoo_params =
  cp_scheme_kind :: scheme_kind
  cp_num_buckets :: nat
  cp_bucket_size :: nat
  cp_fingerprint_bits :: nat
  cp_value_bits :: nat
  cp_plaintext_bits :: nat

definition cp_arity :: "cuckoo_params \<Rightarrow> nat" where
  "cp_arity p = (case cp_scheme_kind p of
     Segmented2ary \<Rightarrow> 2 | Segmented3ary \<Rightarrow> 3 | Segmented4ary \<Rightarrow> 4)"

definition cp_segment_size :: "cuckoo_params \<Rightarrow> nat" where
  "cp_segment_size p = cp_num_buckets p div cp_arity p"

definition cp_cells_per_slot :: "cuckoo_params \<Rightarrow> nat" where
  "cp_cells_per_slot p = div_ceil (cp_fingerprint_bits p + cp_value_bits p) (cp_plaintext_bits p)"

definition cp_value_size_in_cells :: "cuckoo_params \<Rightarrow> nat" where
  "cp_value_size_in_cells p = div_ceil (cp_value_bits p) (cp_plaintext_bits p)"

definition cp_value_size_in_bytes :: "cuckoo_params \<Rightarrow> nat" where
  "cp_value_size_in_bytes p = div_ceil (cp_value_bits p) 8"

definition cp_size_in_cells :: "cuckoo_params \<Rightarrow> nat" where
  "cp_size_in_cells p = cp_num_buckets p * cp_bucket_size p * cp_cells_per_slot p"

text \<open>The range \<open>off..off + cps\<close>, as its two ends.\<close>

definition cp_slot_cell_range :: "cuckoo_params \<Rightarrow> nat \<Rightarrow> nat \<Rightarrow> (nat \<times> nat) option" where
  "cp_slot_cell_range p bucket slot =
     do {
       assert_opt (bucket < cp_num_buckets p \<and> slot < cp_bucket_size p);
       let cps = cp_cells_per_slot p;
       let off = (bucket * cp_bucket_size p + slot) * cps;
       Some (off, off + cps)
     }"

definition cp_scheme :: "cuckoo_params \<Rightarrow> index_scheme" where
  "cp_scheme p = (case cp_scheme_kind p of
     Segmented2ary \<Rightarrow> Segmented2aryScheme (of_nat (cp_segment_size p))
   | Segmented3ary \<Rightarrow> Segmented3aryScheme (of_nat (cp_segment_size p))
   | Segmented4ary \<Rightarrow> Segmented4aryScheme (of_nat (cp_segment_size p)))"

definition candidate_buckets ::
  "(u8 list \<Rightarrow> u128) \<Rightarrow> cuckoo_params \<Rightarrow> u8 list \<Rightarrow> u64 \<times> u32 list" where
  "candidate_buckets xxh p key = hash_item xxh (cp_scheme p) key (cp_fingerprint_bits p)"

section \<open>Value bytes to cells\<close>

text \<open>The inner loop of \<open>pack_value_bytes_to_cells\<close>: fill the accumulator to at least \<open>pb\<close> bits.\<close>

fun pack_fill :: "nat \<Rightarrow> u64 \<Rightarrow> nat \<Rightarrow> u8 list \<Rightarrow> u64 \<times> nat \<times> u8 list" where
  "pack_fill pb acc bits_in_acc [] = (acc, bits_in_acc, [])"
| "pack_fill pb acc bits_in_acc (b # byte_iter) =
     (if bits_in_acc < pb
      then pack_fill pb (acc OR push_bit bits_in_acc (ucast b)) (bits_in_acc + 8) byte_iter
      else (acc, bits_in_acc, b # byte_iter))"

primrec pack_cells ::
  "nat list \<Rightarrow> nat \<Rightarrow> nat \<Rightarrow> u64 \<Rightarrow> nat \<Rightarrow> u8 list \<Rightarrow> u32 list option" where
  "pack_cells [] value_bits pb acc bits_in_acc byte_iter = Some []"
| "pack_cells (i # is) value_bits pb acc bits_in_acc byte_iter =
     (case pack_fill pb acc bits_in_acc byte_iter of (acc1, bits1, iter1) \<Rightarrow>
        do {
          assert_opt (i * pb \<le> value_bits);
          let n = value_cell_bits value_bits pb i;
          rest \<leftarrow> pack_cells is value_bits pb (drop_bit n acc1) (bits1 - n) iter1;
          Some (ucast (acc1 AND (push_bit n 1 - 1)) # rest)
        })"

definition pack_value_bytes_to_cells :: "u8 list \<Rightarrow> u32 list \<Rightarrow> nat \<Rightarrow> nat \<Rightarrow> u32 list option" where
  "pack_value_bytes_to_cells bytes cells value_bits pb =
     (if pb = 8 \<and> value_bits mod 8 = 0
      then Some (map ucast (take (length cells) bytes) @ drop (length bytes) cells)
      else pack_cells [0..<length cells] value_bits pb 0 0 bytes)"

section \<open>Cells to value bytes\<close>

text \<open>State of the unpacking loops: \<open>acc\<close>, \<open>bits_in_acc\<close>, \<open>byte_off\<close> and the output buffer.\<close>

type_synonym unpack_state = "u64 \<times> nat \<times> nat \<times> u8 list"

text \<open>\<open>while bits_in_acc >= 8 && byte_off < vbytes\<close> of \<open>unpack_slot_cells\<close>.\<close>

function unpack_emit :: "unpack_state \<Rightarrow> unpack_state" where
  "unpack_emit (acc, bits_in_acc, byte_off, out) =
     (if 8 \<le> bits_in_acc \<and> byte_off < length out
      then unpack_emit (drop_bit 8 acc, bits_in_acc - 8, byte_off + 1, out[byte_off := ucast acc])
      else (acc, bits_in_acc, byte_off, out))"
  by pat_completeness auto
termination by (relation "measure (\<lambda>(_, bits_in_acc, _, _). bits_in_acc)") auto

declare unpack_emit.simps [simp del]

text \<open>\<open>while bits_in_acc >= 8\<close> of \<open>unpack_value_streaming\<close>, which tests \<open>byte_off\<close> inside.\<close>

function stream_emit :: "unpack_state \<Rightarrow> unpack_state" where
  "stream_emit (acc, bits_in_acc, byte_off, out) =
     (if 8 \<le> bits_in_acc
      then if byte_off < length out
           then stream_emit (drop_bit 8 acc, bits_in_acc - 8, byte_off + 1, out[byte_off := ucast acc])
           else stream_emit (drop_bit 8 acc, bits_in_acc - 8, byte_off, out)
      else (acc, bits_in_acc, byte_off, out))"
  by pat_completeness auto
termination by (relation "measure (\<lambda>(_, bits_in_acc, _, _). bits_in_acc)") auto

declare stream_emit.simps [simp del]

text \<open>The flush of the last partial byte and the mask of the last byte, common to both.\<close>

definition unpack_finish :: "nat \<Rightarrow> unpack_state \<Rightarrow> u8 list" where
  "unpack_finish value_bits st = (case st of (acc, bits_in_acc, byte_off, out) \<Rightarrow>
     let out1 = (if bits_in_acc > 0 \<and> byte_off < length out then out[byte_off := ucast acc] else out)
     in if value_bits mod 8 \<noteq> 0 \<and> out1 \<noteq> []
        then out1[length out1 - 1 := out1 ! (length out1 - 1) AND (push_bit (value_bits mod 8) 1 - 1)]
        else out1)"

primrec unpack_cells :: "nat list \<Rightarrow> u32 list \<Rightarrow> nat \<Rightarrow> nat \<Rightarrow> nat \<Rightarrow> unpack_state \<Rightarrow> unpack_state option" where
  "unpack_cells [] slot_cells val_start_bit vb pb st = Some st"
| "unpack_cells (ci # cis) slot_cells val_start_bit vb pb st =
     do {
       let n = value_cell_bits vb pb ci;
       c \<leftarrow> slot_read_bits slot_cells (val_start_bit + ci * pb) n pb;
       case st of (acc, bits_in_acc, byte_off, out) \<Rightarrow>
         unpack_cells cis slot_cells val_start_bit vb pb
           (unpack_emit (acc OR push_bit bits_in_acc c, bits_in_acc + n, byte_off, out))
     }"

definition unpack_slot_cells :: "cuckoo_params \<Rightarrow> u32 list \<Rightarrow> (u64 \<times> u8 list) option" where
  "unpack_slot_cells p slot_cells =
     do {
       let pb = cp_plaintext_bits p;
       let vb = cp_value_bits p;
       assert_opt (0 < pb);
       fp \<leftarrow> slot_read_bits slot_cells 0 (cp_fingerprint_bits p) pb;
       st \<leftarrow> unpack_cells [0..<cp_value_size_in_cells p] slot_cells (cp_fingerprint_bits p) vb pb
         (0, 0, 0, replicate (div_ceil vb 8) 0);
       Some (fp, unpack_finish vb st)
     }"

definition stream_chunk_cells :: nat where
  "stream_chunk_cells = 16"

text \<open>The loops over one chunk: the fast path copies bytes, the general path shifts bits.\<close>

primrec copy_bytes :: "u32 list \<Rightarrow> nat \<Rightarrow> u8 list \<Rightarrow> (nat \<times> u8 list) option" where
  "copy_bytes [] byte_off out = Some (byte_off, out)"
| "copy_bytes (c # cs) byte_off out =
     do { out' \<leftarrow> upd_opt out byte_off (ucast c); copy_bytes cs (byte_off + 1) out' }"

primrec stream_cells :: "(nat \<times> u32) list \<Rightarrow> nat \<Rightarrow> nat \<Rightarrow> unpack_state \<Rightarrow> unpack_state" where
  "stream_cells [] vb pb st = st"
| "stream_cells (x # xs) vb pb st =
     (case st of (acc, bits_in_acc, byte_off, out) \<Rightarrow>
        let n = value_cell_bits vb pb (fst x) in
        stream_cells xs vb pb
          (stream_emit (acc OR push_bit bits_in_acc (ucast (snd x) AND (push_bit n 1 - 1)),
             bits_in_acc + n, byte_off, out)))"

function stream_fast :: "fv_table \<Rightarrow> nat \<Rightarrow> nat \<Rightarrow> nat \<Rightarrow> nat \<Rightarrow> nat \<Rightarrow> u8 list \<Rightarrow> u8 list option" where
  "stream_fast t bucket slot remaining cell_off byte_off out =
     (if remaining > 0 then
        do {
          let tk = min remaining stream_chunk_cells;
          scratch \<leftarrow> fv_read_value_cells_chunk t bucket slot cell_off tk;
          (byte_off', out') \<leftarrow> copy_bytes scratch byte_off out;
          stream_fast t bucket slot (remaining - tk) (cell_off + tk) byte_off' out'
        }
      else Some out)"
  by pat_completeness auto
termination
  by (relation "measure (\<lambda>(_, _, _, remaining, _). remaining)") (auto simp: stream_chunk_cells_def)

declare stream_fast.simps [simp del]

function stream_general ::
  "fv_table \<Rightarrow> nat \<Rightarrow> nat \<Rightarrow> nat \<Rightarrow> nat \<Rightarrow> nat \<Rightarrow> nat \<Rightarrow> unpack_state \<Rightarrow> unpack_state option" where
  "stream_general t bucket slot vb pb remaining cell_off st =
     (if remaining > 0 then
        do {
          let tk = min remaining stream_chunk_cells;
          scratch \<leftarrow> fv_read_value_cells_chunk t bucket slot cell_off tk;
          stream_general t bucket slot vb pb (remaining - tk) (cell_off + tk)
            (stream_cells (enumerate cell_off scratch) vb pb st)
        }
      else Some st)"
  by pat_completeness auto
termination
  by (relation "measure (\<lambda>(_, _, _, _, _, remaining, _). remaining)") (auto simp: stream_chunk_cells_def)

declare stream_general.simps [simp del]

definition unpack_value_streaming ::
  "fv_table \<Rightarrow> nat \<Rightarrow> nat \<Rightarrow> u8 list \<Rightarrow> nat \<Rightarrow> nat \<Rightarrow> nat \<Rightarrow> u8 list option" where
  "unpack_value_streaming t bucket slot out value_bits pb total_cells =
     (if pb = 8 \<and> value_bits mod 8 = 0
      then stream_fast t bucket slot total_cells 0 0 out
      else do {
        st \<leftarrow> stream_general t bucket slot value_bits pb total_cells 0 (0, 0, 0, out);
        Some (unpack_finish value_bits st)
      })"

section \<open>Slot payloads\<close>

definition pack_slot_cells :: "cuckoo_params \<Rightarrow> u64 \<Rightarrow> u32 list \<Rightarrow> nat \<Rightarrow> u32 list option" where
  "pack_slot_cells p fingerprint value_cells out_len =
     do {
       let cps = cp_cells_per_slot p;
       assert_opt (out_len = cps);
       let v_cells = cp_value_size_in_cells p;
       assert_opt (length value_cells = v_cells);
       let pb = cp_plaintext_bits p;
       out1 \<leftarrow> slot_write_bits (replicate out_len 0) 0 (cp_fingerprint_bits p) fingerprint pb;
       write_value_loop [0..<v_cells] out1 (cp_fingerprint_bits p) (cp_value_bits p) pb value_cells
     }"

section \<open>Packing\<close>

lemma pack_fill_spec:
  assumes "acc_holds (bbit bytes) P n acc" "rest = drop k bytes" "P + n = 8 * k" "k \<le> length bytes"
    and "n < pb + 8" "pb \<le> 32"
  shows "\<exists>acc' n' k'. pack_fill pb acc n rest = (acc', n', drop k' bytes) \<and>
    acc_holds (bbit bytes) P n' acc' \<and> P + n' = 8 * k' \<and> k' \<le> length bytes \<and> n' < pb + 8 \<and>
    (pb \<le> n' \<or> k' = length bytes)"
  using assms
proof (induction rest arbitrary: acc n k)
  case Nil
  then show ?case by (intro exI [of _ acc] exI [of _ n] exI [of _ k]) auto
next
  case (Cons b rest)
  have k: "k < length bytes" using Cons.prems(2) by (metis drop_all leI list.distinct(1))
  then have d: "b = bytes ! k" "rest = drop (Suc k) bytes"
    using Cons.prems(2) by (metis Cons_nth_drop_Suc list.inject)+
  show ?case
  proof (cases "n < pb")
    case False
    then have "pack_fill pb acc n (b # rest) = (acc, n, b # rest)" by simp
    then have "pack_fill pb acc n (b # rest) = (acc, n, drop k bytes)" by (simp only: Cons.prems(2))
    moreover have "pb \<le> n" using False by simp
    ultimately show ?thesis using Cons.prems by blast
  next
    case True
    have "bit (ucast b :: u64) j \<longleftrightarrow> j < 8 \<and> bbit bytes (P + n + j)" for j
      using bbit_byte [of j k bytes] k d(1) Cons.prems(3) bit_word_lt [of b j] by (auto simp: mult.commute)
    then have "acc_holds (bbit bytes) P (n + 8) (acc OR push_bit n (ucast b))"
      using Cons.prems(1,6) True by (intro acc_holds_push) auto
    from Cons.IH [OF this d(2)] Cons.prems(3,6) k True show ?thesis by simp
  qed
qed

lemma pack_cells_spec:
  assumes pb: "0 < pb" "pb \<le> 32" and vb: "vb \<le> 8 * length bytes"
    and "acc_holds (bbit bytes) (i * pb) n acc" "i * pb + n = 8 * k" "k \<le> length bytes" "n < pb + 8"
  shows "\<exists>r. pack_cells [i..<div_ceil vb pb] vb pb acc n (drop k bytes) = Some r \<and>
    length r = div_ceil vb pb - i \<and>
    (\<forall>l < div_ceil vb pb - i. \<forall>j. bit (r ! l) j \<longleftrightarrow>
       j < value_cell_bits vb pb (i + l) \<and> bbit bytes ((i + l) * pb + j))"
  using assms(4-7)
proof (induction "div_ceil vb pb - i" arbitrary: i n acc k)
  case 0
  then show ?case by simp
next
  case (Suc d)
  have i: "i < div_ceil vb pb" using Suc.hyps(2) by simp
  then have iv: "i * pb < vb" using less_div_ceil_iff [OF pb(1)] by blast
  define w where "w = value_cell_bits vb pb i"
  have w: "w \<le> pb" "i * pb + w \<le> vb" "i * pb + w = vb \<or> w = pb"
    using iv by (auto simp: w_def value_cell_bits_def)
  obtain acc1 n1 k1 where f: "pack_fill pb acc n (drop k bytes) = (acc1, n1, drop k1 bytes)"
      "acc_holds (bbit bytes) (i * pb) n1 acc1" "i * pb + n1 = 8 * k1" "k1 \<le> length bytes"
      "n1 < pb + 8" "pb \<le> n1 \<or> k1 = length bytes"
    using pack_fill_spec [OF Suc.prems(1) refl Suc.prems(2,3,4) pb(2)] by blast
  have wn: "w \<le> n1" using f(3,6) w vb by auto
  let ?c = "ucast (acc1 AND (push_bit w 1 - 1)) :: u32"
  have c: "bit ?c j \<longleftrightarrow> j < w \<and> bbit bytes (i * pb + j)" for j
    using acc_holds_low [OF f(2) wn, of j] w(1) pb(2) by auto
  have "\<exists>r. pack_cells [Suc i..<div_ceil vb pb] vb pb (drop_bit w acc1) (n1 - w) (drop k1 bytes) = Some r \<and>
    length r = div_ceil vb pb - Suc i \<and>
    (\<forall>l < div_ceil vb pb - Suc i. \<forall>j. bit (r ! l) j \<longleftrightarrow>
       j < value_cell_bits vb pb (Suc i + l) \<and> bbit bytes ((Suc i + l) * pb + j))"
  proof (cases "Suc i < div_ceil vb pb")
    case False
    then show ?thesis by simp
  next
    case True
    then have "Suc i * pb < vb" using less_div_ceil_iff [OF pb(1)] by blast
    then have eq: "w = pb" using w by auto
    show ?thesis
    proof (rule Suc.hyps(1))
      show "acc_holds (bbit bytes) (Suc i * pb) (n1 - w) (drop_bit w acc1)"
        using acc_holds_drop [OF f(2) wn] eq by (simp add: add.commute)
    qed (use Suc.hyps(2) f wn eq in auto)
  qed
  then obtain r where r: "pack_cells [Suc i..<div_ceil vb pb] vb pb (drop_bit w acc1) (n1 - w) (drop k1 bytes) = Some r"
      "length r = div_ceil vb pb - Suc i"
    and rb: "\<And>l j. l < div_ceil vb pb - Suc i \<Longrightarrow> bit (r ! l) j \<longleftrightarrow>
       j < value_cell_bits vb pb (Suc i + l) \<and> bbit bytes ((Suc i + l) * pb + j)" by blast
  have "pack_cells [i..<div_ceil vb pb] vb pb acc n (drop k bytes) = Some (?c # r)"
    using i iv f(1) r(1) by (simp add: upt_conv_Cons w_def Let_def)
  moreover have "bit ((?c # r) ! l) j \<longleftrightarrow>
      j < value_cell_bits vb pb (i + l) \<and> bbit bytes ((i + l) * pb + j)"
    if "l < div_ceil vb pb - i" for l j
    using c [of j] rb [of "l - 1" j] that by (cases l) (simp_all add: w_def)
  ultimately show ?case using r(2) Suc.hyps(2) by (intro exI [of _ "?c # r"]) auto
qed

text \<open>Packing gives a well-formed value whose stream is the first \<open>vb\<close> bits of the bytes.\<close>

theorem pack_value_spec:
  assumes "0 < pb" "pb \<le> 32" "length cells = div_ceil vb pb" "length bytes = div_ceil vb 8"
  shows "\<exists>v. pack_value_bytes_to_cells bytes cells vb pb = Some v \<and> value_ok vb pb v \<and>
    (\<forall>k < vb. cbit pb v k \<longleftrightarrow> bbit bytes k)"
proof (cases "pb = 8 \<and> vb mod 8 = 0")
  case True
  let ?v = "map ucast bytes :: u32 list"
  have len: "length bytes = vb div 8" using True assms(4) by (auto simp: div_ceil_def)
  have "pack_value_bytes_to_cells bytes cells vb pb = Some ?v"
    using True assms(3,4) by (simp add: pack_value_bytes_to_cells_def)
  moreover have "value_ok vb pb ?v"
    using True len assms(4) by (auto simp: value_ok_def value_cell_bits_less fits_bit dest!: bit_word_lt)
  moreover have "cbit pb ?v k \<longleftrightarrow> bbit bytes k" if "k < vb" for k
  proof -
    have "k div 8 < length bytes" using that True len by (auto simp: div_less_iff_less_mult)
    moreover have "k mod 8 < 32" using mod_less_divisor [of 8 k] by linarith
    ultimately show ?thesis using True by (simp add: cbit_def bbit_def)
  qed
  ultimately show ?thesis by blast
next
  case False
  have vb: "vb \<le> 8 * length bytes" using div_ceil_mult_ge [of 8 vb] assms(4) by (simp add: mult.commute)
  obtain r where r: "pack_cells [0..<div_ceil vb pb] vb pb 0 0 bytes = Some r" "length r = div_ceil vb pb"
    and b: "\<And>l j. l < div_ceil vb pb \<Longrightarrow> bit (r ! l) j \<longleftrightarrow>
       j < value_cell_bits vb pb l \<and> bbit bytes (l * pb + j)"
    using pack_cells_spec [OF assms(1,2) vb, of 0 0 0 0] assms(1) by auto
  have "cbit pb r k \<longleftrightarrow> bbit bytes k" if "k < vb" for k
  proof -
    have "k div pb < div_ceil vb pb"
      unfolding less_div_ceil_iff [OF assms(1)] using that by (meson div_times_less_eq_dividend order_le_less_trans)
    moreover have "k mod pb < value_cell_bits vb pb (k div pb)"
      using that assms(1) by (simp add: value_cell_bits_less)
    ultimately show ?thesis using b by (simp add: cbit_def)
  qed
  moreover have "value_ok vb pb r" using r(2) b by (simp add: value_ok_def fits_bit)
  ultimately show ?thesis using r(1) False assms(3) by (auto simp: pack_value_bytes_to_cells_def)
qed

section \<open>Unpacking\<close>

text \<open>
  \<open>emitted S P st\<close>: the unpacking state \<open>st\<close> has consumed the first \<open>P\<close> bits of the stream \<open>S\<close>;
  whole bytes are in the output, the rest in the accumulator.
\<close>

definition emitted :: "(nat \<Rightarrow> bool) \<Rightarrow> nat \<Rightarrow> unpack_state \<Rightarrow> bool" where
  "emitted S P st \<longleftrightarrow> (case st of (acc, n, off, out) \<Rightarrow>
     off * 8 + n = P \<and> acc_holds S (off * 8) n acc \<and>
     (\<forall>i < off. i < length out \<and> (\<forall>j < 8. bit (out ! i) j \<longleftrightarrow> S (i * 8 + j))))"

lemma emittedD:
  assumes "emitted S P (acc, n, off, out)"
  shows "off * 8 + n = P" "acc_holds S (off * 8) n acc"
    "i < off \<Longrightarrow> i < length out" "i < off \<Longrightarrow> j < 8 \<Longrightarrow> bit (out ! i) j \<longleftrightarrow> S (i * 8 + j)"
  using assms by (auto simp: emitted_def)

lemma emit_byte:
  assumes "emitted S P (acc, n, off, out)" "8 \<le> n" "off < length out"
  shows "emitted S P (drop_bit 8 acc, n - 8, off + 1, out[off := ucast acc])"
proof -
  note e = emittedD [OF assms(1)]
  have "bit (ucast acc :: u8) j \<longleftrightarrow> S (off * 8 + j)" if "j < 8" for j
    using acc_holds_bit [OF e(2), of j] assms(2) that by simp
  moreover have "acc_holds S (Suc off * 8) (n - 8) (drop_bit 8 acc)"
    using acc_holds_drop [OF e(2) assms(2)] by (simp add: add.commute)
  ultimately show ?thesis
    using e assms(2,3) by (auto simp: emitted_def less_Suc_eq nth_list_update)
qed

lemma unpack_emit_spec:
  assumes "emitted S P (acc, n, off, out)" "P \<le> 8 * length out"
  shows "\<exists>acc' n' off' out'. unpack_emit (acc, n, off, out) = (acc', n', off', out') \<and>
    emitted S P (acc', n', off', out') \<and> n' < 8 \<and> length out' = length out"
  using assms
proof (induction "(acc, n, off, out)" arbitrary: acc n off out rule: unpack_emit.induct)
  case (1 acc n off out)
  show ?case
  proof (cases "8 \<le> n \<and> off < length out")
    case True
    from "1.hyps" [OF True emit_byte [OF "1.prems"(1)]] True "1.prems"(2)
    show ?thesis by (subst unpack_emit.simps) simp
  next
    case False
    then have "n < 8" using emittedD(1) [OF "1.prems"(1)] "1.prems"(2) by auto
    with False "1.prems"(1) show ?thesis by (subst unpack_emit.simps) auto
  qed
qed

text \<open>The streaming variant tests the offset inside the loop; within the buffer it does the same.\<close>

lemma stream_emit_eq:
  assumes "emitted S P (acc, n, off, out)" "P \<le> 8 * length out"
  shows "stream_emit (acc, n, off, out) = unpack_emit (acc, n, off, out)"
  using assms
proof (induction "(acc, n, off, out)" arbitrary: acc n off out rule: unpack_emit.induct)
  case (1 acc n off out)
  show ?case
  proof (cases "8 \<le> n")
    case True
    then have off: "off < length out" using emittedD(1) [OF "1.prems"(1)] "1.prems"(2) by auto
    from "1.hyps" [OF _ emit_byte [OF "1.prems"(1)]] True off "1.prems"(2)
    show ?thesis by (subst unpack_emit.simps, subst stream_emit.simps) simp
  qed (subst unpack_emit.simps, subst stream_emit.simps, simp)
qed

lemma emitted_push:
  assumes "emitted S P (acc, n, off, out)" "n + m \<le> 64" "\<And>j. bit c j \<longleftrightarrow> j < m \<and> S (P + j)"
  shows "emitted S (P + m) (acc OR push_bit n c, n + m, off, out)"
proof -
  note e = emittedD [OF assms(1)]
  have "acc_holds S (off * 8) (n + m) (acc OR push_bit n c)"
    using assms(2,3) e(1) by (intro acc_holds_push [OF e(2)]) simp_all
  then show ?thesis using assms(1) by (auto simp: emitted_def)
qed

text \<open>The trailing bits of the last byte are cleared, whatever the bytes were.\<close>

definition trim_bytes :: "nat \<Rightarrow> u8 list \<Rightarrow> u8 list" where
  "trim_bytes vb bytes =
     (if vb mod 8 \<noteq> 0 \<and> bytes \<noteq> []
      then bytes[length bytes - 1 := bytes ! (length bytes - 1) AND (push_bit (vb mod 8) 1 - 1)]
      else bytes)"

lemma trim_bytes_length [simp]: "length (trim_bytes vb bytes) = length bytes"
  by (simp add: trim_bytes_def)

lemma div_ceil_8: "div_ceil vb 8 = vb div 8 + (if vb mod 8 = 0 then 0 else 1)"
proof -
  have "(vb mod 8 + 7) div 8 = (if vb mod 8 = 0 then 0 else 1)"
    using mod_less_divisor [of 8 vb] by (auto intro!: div_nat_eqI simp del: mod_less_divisor)
  then show ?thesis using div_add1_eq [of vb 7 8] by (simp add: div_ceil_def)
qed

lemma bbit_trim_bytes:
  assumes "length bytes = div_ceil vb 8" "k < 8 * length bytes"
  shows "bbit (trim_bytes vb bytes) k \<longleftrightarrow> k < vb \<and> bbit bytes k"
proof (cases "vb mod 8 = 0")
  case True
  then have "k < vb" using assms by (auto simp: div_ceil_8)
  then show ?thesis using True by (simp add: trim_bytes_def)
next
  case False
  define L where "L = length bytes - 1"
  have L: "length bytes = Suc L" "L = vb div 8" using False assms(1) by (auto simp: L_def div_ceil_8)
  then have ne: "bytes \<noteq> []" by auto
  have eq: "trim_bytes vb bytes = bytes[L := bytes ! L AND (push_bit (vb mod 8) 1 - 1)]"
    using False ne by (simp add: trim_bytes_def L_def)
  show ?thesis
  proof (cases "k div 8 = L")
    case True
    have "k < vb \<longleftrightarrow> k mod 8 < vb mod 8"
      using True L(2) by (metis div_mult_mod_eq nat_add_left_cancel_less)
    then show ?thesis unfolding eq push_bit_1_minus_1
      using True L(1) by (auto simp: bbit_def bit_and_iff bit_mask_iff)
  next
    case other: False
    have "k div 8 < L" using other assms(2) L(1) by (simp add: div_less_iff_less_mult less_Suc_eq)
    then have "k < vb" using L(2) by (metis div_le_mono not_le)
    then show ?thesis unfolding eq using other by (simp add: bbit_def)
  qed
qed

text \<open>When all \<open>vb\<close> bits are consumed, the output is their bytes.\<close>

lemma unpack_finish_spec:
  assumes "emitted S vb (acc, n, off, out)" "n < 8" "length out = div_ceil vb 8"
  shows "length (unpack_finish vb (acc, n, off, out)) = div_ceil vb 8 \<and>
    (\<forall>k < 8 * div_ceil vb 8. bbit (unpack_finish vb (acc, n, off, out)) k \<longleftrightarrow> k < vb \<and> S k)"
proof -
  note e = emittedD [OF assms(1)]
  define out1 where "out1 = (if n > 0 \<and> off < length out then out[off := ucast acc] else out)"
  have fin: "unpack_finish vb (acc, n, off, out) = trim_bytes vb out1"
    by (simp add: unpack_finish_def trim_bytes_def out1_def Let_def)
  have len: "length out1 = div_ceil vb 8" using assms(3) by (simp add: out1_def)
  have off: "off = vb div 8" "n = vb mod 8" using e(1) assms(2) by auto
  have b: "bbit out1 k \<longleftrightarrow> S k" if k: "k < vb" for k
  proof -
    have split: "k = k div 8 * 8 + k mod 8" by simp
    have le: "k div 8 \<le> off" using k off(1) by (simp add: div_le_mono)
    have kl: "k div 8 < length out" unfolding assms(3) less_div_ceil_iff [OF zero_less_numeral]
      using k by (meson div_times_less_eq_dividend order_le_less_trans)
    show ?thesis
    proof (cases "k div 8 = off")
      case True
      then have n: "k mod 8 < n" using k off by (metis div_mult_mod_eq nat_add_left_cancel_less)
      with True kl have "bbit out1 k \<longleftrightarrow> bit (ucast acc :: u8) (k mod 8)"
        by (auto simp: bbit_def out1_def)
      also have "\<dots> \<longleftrightarrow> S (off * 8 + k mod 8)"
        using acc_holds_bit [OF e(2), of "k mod 8"] n assms(2) by simp
      finally show ?thesis using split True by simp
    next
      case False
      with le have "k div 8 < off" by simp
      with e(4) [of "k div 8" "k mod 8"] split kl False show ?thesis
        by (auto simp: bbit_def out1_def)
    qed
  qed
  show ?thesis unfolding fin using len b bbit_trim_bytes [OF len] by auto
qed

lemma unpack_cells_spec:
  assumes pb: "0 < pb" "pb \<le> 32" and ok: "cells_ok pb cells" and sz: "o0 + vb \<le> length cells * pb"
    and S: "\<And>k. k < vb \<Longrightarrow> S k = cbit pb cells (o0 + k)"
    and st: "emitted S (min (ci * pb) vb) (acc, n, off, out)" "n < 8" "length out = div_ceil vb 8"
    and ci: "ci \<le> div_ceil vb pb"
  shows "\<exists>acc' n' off' out'. unpack_cells [ci..<div_ceil vb pb] cells o0 vb pb (acc, n, off, out) =
      Some (acc', n', off', out') \<and> emitted S vb (acc', n', off', out') \<and> n' < 8 \<and>
      length out' = div_ceil vb 8"
  using st ci
proof (induction "div_ceil vb pb - ci" arbitrary: ci acc n off out)
  case 0
  have "vb \<le> div_ceil vb pb * pb" using div_ceil_mult_ge [OF pb(1)] .
  with 0 show ?case by (simp add: min_def split: if_splits)
next
  case (Suc d)
  have ci: "ci < div_ceil vb pb" using Suc.hyps(2) by simp
  then have iv: "ci * pb < vb" using less_div_ceil_iff [OF pb(1)] by blast
  define w where "w = value_cell_bits vb pb ci"
  have w: "1 \<le> w" "w \<le> pb" "ci * pb + w = min (Suc ci * pb) vb"
    using iv pb(1) by (auto simp: w_def value_cell_bits_def)
  have "o0 + ci * pb + w \<le> length cells * pb" using w(3) sz by linarith
  from slot_read_bits_spec [OF pb(1) ok w(1) _ this] w(2) pb(2)
  obtain c where c: "slot_read_bits cells (o0 + ci * pb) w pb = Some c"
    "\<And>j. bit c j \<longleftrightarrow> j < w \<and> cbit pb cells (o0 + ci * pb + j)" by auto
  have cS: "bit c j \<longleftrightarrow> j < w \<and> S (ci * pb + j)" for j
  proof -
    have "ci * pb + w \<le> vb" using w(3) by simp
    then show ?thesis using c(2) [of j] S [of "ci * pb + j"] by (auto simp: add.assoc)
  qed
  have "emitted S (ci * pb) (acc, n, off, out)" using Suc.prems(1) iv by (simp add: min_def)
  then have "emitted S (ci * pb + w) (acc OR push_bit n c, n + w, off, out)"
    using Suc.prems(2) w(2) pb(2) cS by (intro emitted_push) auto
  moreover have "ci * pb + w \<le> 8 * length out"
    using w(3) Suc.prems(3) div_ceil_mult_ge [of 8 vb] by (simp add: mult.commute)
  ultimately obtain acc1 n1 off1 out1 where
    e: "unpack_emit (acc OR push_bit n c, n + w, off, out) = (acc1, n1, off1, out1)"
      "emitted S (min (Suc ci * pb) vb) (acc1, n1, off1, out1)" "n1 < 8" "length out1 = length out"
    using unpack_emit_spec w(3) by metis
  have "\<exists>acc' n' off' out'. unpack_cells [Suc ci..<div_ceil vb pb] cells o0 vb pb (acc1, n1, off1, out1) =
      Some (acc', n', off', out') \<and> emitted S vb (acc', n', off', out') \<and> n' < 8 \<and>
      length out' = div_ceil vb 8"
    using Suc.hyps(2) e Suc.prems(3) ci by (intro Suc.hyps(1)) auto
  then show ?case using ci c(1) e(1) by (simp add: upt_conv_Cons w_def Let_def)
qed

section \<open>The slot codec\<close>

text \<open>Parameters the constructors of the store accept.\<close>

definition cp_ok :: "cuckoo_params \<Rightarrow> bool" where
  "cp_ok p \<longleftrightarrow> 1 \<le> cp_fingerprint_bits p \<and> cp_fingerprint_bits p \<le> 64 \<and> 1 \<le> cp_value_bits p \<and>
     1 \<le> cp_plaintext_bits p \<and> cp_plaintext_bits p \<le> 32"

lemma cp_entry_le:
  assumes "cp_ok p"
  shows "cp_fingerprint_bits p + cp_value_bits p \<le> cp_cells_per_slot p * cp_plaintext_bits p"
  using assms div_ceil_mult_ge [of "cp_plaintext_bits p"] by (simp add: cp_ok_def cp_cells_per_slot_def)

text \<open>\<open>slot_holds p cells fp v\<close>: the stream of the slot is the fingerprint, the value, then zeros.\<close>

definition slot_holds :: "cuckoo_params \<Rightarrow> u32 list \<Rightarrow> u64 \<Rightarrow> (nat \<Rightarrow> bool) \<Rightarrow> bool" where
  "slot_holds p cells fp S \<longleftrightarrow>
     (\<forall>j < cp_fingerprint_bits p. cbit (cp_plaintext_bits p) cells j \<longleftrightarrow> bit fp j) \<and>
     (\<forall>k < cp_value_bits p. cbit (cp_plaintext_bits p) cells (cp_fingerprint_bits p + k) \<longleftrightarrow> S k)"

lemma pack_slot_cells_spec:
  assumes "cp_ok p" "length v = cp_value_size_in_cells p"
  obtains cs where "pack_slot_cells p fp v (cp_cells_per_slot p) = Some cs"
    "length cs = cp_cells_per_slot p" "cells_ok (cp_plaintext_bits p) cs"
    "slot_holds p cs fp (cbit (cp_plaintext_bits p) v)"
    "\<And>k. cp_fingerprint_bits p + cp_value_bits p \<le> k \<Longrightarrow>
       k < cp_cells_per_slot p * cp_plaintext_bits p \<Longrightarrow> \<not> cbit (cp_plaintext_bits p) cs k"
proof -
  let ?pb = "cp_plaintext_bits p" and ?fb = "cp_fingerprint_bits p" and ?vb = "cp_value_bits p"
  let ?z = "replicate (cp_cells_per_slot p) 0 :: u32 list"
  have pb: "0 < ?pb" "?pb \<le> 32" using assms(1) by (simp_all add: cp_ok_def)
  have le: "?fb + ?vb \<le> cp_cells_per_slot p * ?pb" by (rule cp_entry_le [OF assms(1)])
  then have sz: "0 + ?fb \<le> length ?z * ?pb" by simp
  obtain c1 where c1: "slot_write_bits ?z 0 ?fb fp ?pb = Some c1"
    using slot_write_bits_total [OF pb sz] by blast
  note st = slot_write_bits_stream [OF pb sz c1]
  have l1: "length c1 = cp_cells_per_slot p" using st(1) by simp
  have sz2: "?fb + ?vb \<le> length c1 * ?pb" using le l1 by simp
  have lv: "length v = div_ceil ?vb ?pb" using assms(2) by (simp add: cp_value_size_in_cells_def)
  obtain cs where cs: "write_value_loop [0..<div_ceil ?vb ?pb] c1 ?fb ?vb ?pb v = Some cs"
      "length cs = length c1" "cells_ok ?pb c1 \<longrightarrow> cells_ok ?pb cs"
    and b: "\<And>k. k < cp_cells_per_slot p * ?pb \<Longrightarrow> cbit ?pb cs k \<longleftrightarrow>
        (if ?fb \<le> k \<and> k < ?fb + ?vb then cbit ?pb v (k - ?fb) else cbit ?pb c1 k)"
    using write_value_loop_all [OF pb sz2 lv] unfolding l1 by blast
  have b1: "cbit ?pb c1 k \<longleftrightarrow> k < ?fb \<and> bit fp k" if "k < cp_cells_per_slot p * ?pb" for k
    using st(3) [of k] that pb(1) by (simp add: cbit_replicate)
  show thesis
  proof (rule that)
    show "pack_slot_cells p fp v (cp_cells_per_slot p) = Some cs"
      using c1 cs(1) assms(2) by (simp add: pack_slot_cells_def Let_def cp_value_size_in_cells_def)
    show "length cs = cp_cells_per_slot p" using cs(2) l1 by simp
    show "cells_ok ?pb cs" using cs(3) st(2) by simp
    show "slot_holds p cs fp (cbit ?pb v)" using b b1 le by (simp add: slot_holds_def)
    show "\<not> cbit ?pb cs k" if "?fb + ?vb \<le> k" "k < cp_cells_per_slot p * ?pb" for k
      using b b1 that by simp
  qed
qed

text \<open>Unpacking a slot returns the fingerprint and the bytes its stream holds.\<close>

theorem unpack_slot_cells_spec:
  assumes "cp_ok p" "length cells = cp_cells_per_slot p" "cells_ok (cp_plaintext_bits p) cells"
    and "slot_holds p cells fp S" "fits (cp_fingerprint_bits p) fp"
  obtains bytes where "unpack_slot_cells p cells = Some (fp, bytes)"
    "length bytes = cp_value_size_in_bytes p"
    "\<And>k. k < 8 * cp_value_size_in_bytes p \<Longrightarrow> bbit bytes k \<longleftrightarrow> k < cp_value_bits p \<and> S k"
proof -
  let ?pb = "cp_plaintext_bits p" and ?fb = "cp_fingerprint_bits p" and ?vb = "cp_value_bits p"
  have pb: "0 < ?pb" "?pb \<le> 32" and fb: "1 \<le> ?fb" "?fb \<le> 64" using assms(1) by (simp_all add: cp_ok_def)
  have sz: "?fb + ?vb \<le> length cells * ?pb" using cp_entry_le [OF assms(1)] assms(2) by simp
  have S: "\<And>k. k < ?vb \<Longrightarrow> S k = cbit ?pb cells (?fb + k)" using assms(4) by (simp add: slot_holds_def)
  have fpb: "bit fp j \<longleftrightarrow> j < ?fb \<and> cbit ?pb cells (0 + j)" for j
    using assms(4,5) by (auto simp: slot_holds_def fits_bit)
  have "slot_read_bits cells 0 ?fb ?pb = Some fp"
    using slot_read_bits_iff [OF pb(1) assms(3) fb, of 0 fp] sz fpb by simp
  moreover obtain acc n off out where
    u: "unpack_cells [0..<div_ceil ?vb ?pb] cells ?fb ?vb ?pb (0, 0, 0, replicate (div_ceil ?vb 8) 0) =
      Some (acc, n, off, out)" "emitted S ?vb (acc, n, off, out)" "n < 8" "length out = div_ceil ?vb 8"
    using unpack_cells_spec [OF pb assms(3) sz S, of 0 0 0 0 "replicate (div_ceil ?vb 8) 0"]
    by (auto simp: emitted_def)
  ultimately have "unpack_slot_cells p cells = Some (fp, unpack_finish ?vb (acc, n, off, out))"
    using pb by (simp add: unpack_slot_cells_def cp_value_size_in_cells_def Let_def)
  with unpack_finish_spec [OF u(2-4)] that show thesis by (simp add: cp_value_size_in_bytes_def)
qed

lemma slot_codec:
  assumes "cp_ok p" "length bytes = cp_value_size_in_bytes p" "fits (cp_fingerprint_bits p) fp"
    and "length buf = cp_value_size_in_cells p"
  shows "\<exists>v cells. pack_value_bytes_to_cells bytes buf (cp_value_bits p) (cp_plaintext_bits p) = Some v \<and>
    pack_slot_cells p fp v (cp_cells_per_slot p) = Some cells \<and>
    unpack_slot_cells p cells = Some (fp, trim_bytes (cp_value_bits p) bytes)"
proof -
  let ?pb = "cp_plaintext_bits p" and ?vb = "cp_value_bits p"
  have pb: "0 < ?pb" "?pb \<le> 32" using assms(1) by (simp_all add: cp_ok_def)
  obtain v where v: "pack_value_bytes_to_cells bytes buf ?vb ?pb = Some v" "value_ok ?vb ?pb v"
      "\<And>k. k < ?vb \<Longrightarrow> cbit ?pb v k \<longleftrightarrow> bbit bytes k"
    using pack_value_spec [OF pb, of buf ?vb bytes] assms(2,4)
    by (auto simp: cp_value_size_in_bytes_def cp_value_size_in_cells_def)
  have lv: "length v = cp_value_size_in_cells p"
    using v(2) by (simp add: value_ok_def cp_value_size_in_cells_def)
  obtain cs where cs: "pack_slot_cells p fp v (cp_cells_per_slot p) = Some cs"
    "length cs = cp_cells_per_slot p" "cells_ok ?pb cs" "slot_holds p cs fp (cbit ?pb v)"
    using pack_slot_cells_spec [OF assms(1) lv, of fp] by blast
  obtain out where out: "unpack_slot_cells p cs = Some (fp, out)" "length out = cp_value_size_in_bytes p"
    "\<And>k. k < 8 * cp_value_size_in_bytes p \<Longrightarrow> bbit out k \<longleftrightarrow> k < ?vb \<and> cbit ?pb v k"
    using unpack_slot_cells_spec [OF assms(1) cs(2-4) assms(3)] by blast
  have "out = trim_bytes ?vb bytes"
  proof (rule bytes_eq_streamI)
    show "length out = length (trim_bytes ?vb bytes)" using out(2) assms(2) by simp
    fix k assume "k < 8 * length out"
    then show "bbit out k \<longleftrightarrow> bbit (trim_bytes ?vb bytes) k"
      using out(2,3) v(3) bbit_trim_bytes [of bytes ?vb k] assms(2)
      by (auto simp: cp_value_size_in_bytes_def)
  qed
  with v(1) cs(1) out(1) show ?thesis by blast
qed

section \<open>The streaming read\<close>

lemma fv_chunk:
  assumes inv: "fv_inv t" "b < fv_num_buckets t" "s < fv_bucket_size t"
    and v: "v = snd (fv.view t (b, s))" and co: "co + tk \<le> fv_value_size_in_cells t"
  shows "fv_read_value_cells_chunk t b s co tk = Some (take tk (drop co v))"
proof -
  let ?off = "slot_bit_offset t b s + fv_fingerprint_bits t"
  let ?vb = "fv_value_bits t" and ?pb = "fv_plaintext_bits t"
  have pb: "0 < ?pb" using inv(1) by (simp add: fv_inv_def)
  have rd: "fv_read_value t b s (fv_value_size_in_cells t) = Some v"
    using fv_read_parts(2) [OF inv] v by simp
  have len: "length v = fv_value_size_in_cells t"
    and cell: "\<And>i. i < fv_value_size_in_cells t \<Longrightarrow>
      read_value_cell (fv_cells t) ?off ?vb ?pb i = Some (v ! i)"
    using rd inv(2,3) by (auto simp: fv_read_value_def assert_in_range_def Let_def build_opt_eq_Some_iff)
  have "ci * ?pb \<le> ?vb" if "ci < fv_value_size_in_cells t" for ci
    using less_div_ceil_iff [OF pb, of ci ?vb] that by (simp add: fv_value_size_in_cells_def)
  then show ?thesis using co len cell
    by (auto simp: fv_read_value_cells_chunk_def Let_def build_opt_eq_Some_iff)
qed

lemma copy_bytes_spec:
  "byte_off + length cs \<le> length out \<Longrightarrow>
    copy_bytes cs byte_off out =
      Some (byte_off + length cs, take byte_off out @ map ucast cs @ drop (byte_off + length cs) out)"
proof (induction cs arbitrary: byte_off out)
  case (Cons c cs)
  have "byte_off < length out" using Cons.prems by simp
  then show ?case using Cons.IH [of "Suc byte_off" "out[byte_off := ucast c]"] Cons.prems
    by (simp add: upd_conv_take_nth_drop add.commute [of "length cs"])
qed simp

lemma stream_cells_append: "stream_cells (xs @ ys) vb pb st = stream_cells ys vb pb (stream_cells xs vb pb st)"
  by (induction xs arbitrary: st) (auto split: prod.splits simp: Let_def)

text \<open>Chunking does not matter: the general path is one pass over the cells of the value.\<close>

lemma stream_general_eq:
  assumes inv: "fv_inv t" "b < fv_num_buckets t" "s < fv_bucket_size t"
    and v: "v = snd (fv.view t (b, s))" and co: "co + rem = fv_value_size_in_cells t"
  shows "stream_general t b s vb pb rem co st = Some (stream_cells (enumerate co (drop co v)) vb pb st)"
  using co
proof (induction rem arbitrary: co st rule: less_induct)
  case (less rem)
  have len: "length v = fv_value_size_in_cells t"
    using fv_entry_ok_len [OF fv_view(2) [OF inv]] v by simp
  show ?case
  proof (cases "rem = 0")
    case True
    with less.prems len show ?thesis by (subst stream_general.simps) simp
  next
    case False
    define tk where "tk = min rem stream_chunk_cells"
    have tk: "tk \<le> rem" "0 < tk" using False by (simp_all add: tk_def stream_chunk_cells_def)
    have "enumerate co (drop co v) =
        enumerate co (take tk (drop co v)) @ enumerate (co + tk) (drop (co + tk) v)"
    proof -
      have "length (take tk (drop co v)) = tk" using tk less.prems len by simp
      then show ?thesis
        using enumerate_append_eq [of co "take tk (drop co v)" "drop (co + tk) v"] by (simp only: take_drop_chain)
    qed
    moreover have "fv_read_value_cells_chunk t b s co tk = Some (take tk (drop co v))"
      using tk(1) less.prems by (intro fv_chunk [OF inv v]) simp
    ultimately show ?thesis
      using less.IH [of "rem - tk" "co + tk"] tk less.prems False
      by (subst stream_general.simps) (simp add: tk_def [symmetric] stream_cells_append)
  qed
qed

lemma stream_fast_eq:
  assumes inv: "fv_inv t" "b < fv_num_buckets t" "s < fv_bucket_size t"
    and v: "v = snd (fv.view t (b, s))" and co: "co + rem = fv_value_size_in_cells t"
    and out: "off + rem = length out"
  shows "stream_fast t b s rem co off out = Some (take off out @ map ucast (drop co v))"
  using co out
proof (induction rem arbitrary: co off out rule: less_induct)
  case (less rem)
  have len: "length v = fv_value_size_in_cells t"
    using fv_entry_ok_len [OF fv_view(2) [OF inv]] v by simp
  show ?case
  proof (cases "rem = 0")
    case True
    with less.prems len show ?thesis by (subst stream_fast.simps) simp
  next
    case False
    define tk where "tk = min rem stream_chunk_cells"
    have tk: "tk \<le> rem" "0 < tk" using False by (simp_all add: tk_def stream_chunk_cells_def)
    let ?c = "take tk (drop co v)"
    have lc: "length ?c = tk" using tk less.prems len by simp
    have ck: "fv_read_value_cells_chunk t b s co tk = Some ?c"
      using tk(1) less.prems by (intro fv_chunk [OF inv v]) simp
    let ?out = "take off out @ map ucast ?c @ drop (off + tk) out"
    have cp: "copy_bytes ?c off out = Some (off + tk, ?out)"
      using copy_bytes_spec [of off ?c out] lc tk less.prems by simp
    have "stream_fast t b s (rem - tk) (co + tk) (off + tk) ?out =
        Some (take (off + tk) ?out @ map ucast (drop (co + tk) v))"
      using tk less.prems lc by (intro less.IH) auto
    also have "take (off + tk) ?out = take off out @ map ucast ?c"
      using tk less.prems lc by simp
    also have "(take off out @ map ucast ?c) @ map ucast (drop (co + tk) v) =
        take off out @ map ucast (drop co v)"
      by (simp add: take_drop_chain flip: map_append)
    finally show ?thesis using ck cp False
      by (subst stream_fast.simps) (simp add: tk_def [symmetric])
  qed
qed

lemma stream_cells_spec:
  assumes pb: "0 < pb" "pb \<le> 32" and v: "value_ok vb pb v"
    and S: "\<And>k. k < vb \<Longrightarrow> S k = cbit pb v k"
    and st: "emitted S (min (ci * pb) vb) (acc, n, off, out)" "n < 8" "length out = div_ceil vb 8"
    and ci: "ci \<le> length v"
  shows "\<exists>acc' n' off' out'. stream_cells (enumerate ci (drop ci v)) vb pb (acc, n, off, out) =
      (acc', n', off', out') \<and> emitted S vb (acc', n', off', out') \<and> n' < 8 \<and>
      length out' = div_ceil vb 8"
  using st ci
proof (induction "length v - ci" arbitrary: ci acc n off out)
  case 0
  have "vb \<le> length v * pb" using div_ceil_mult_ge [OF pb(1)] v by (simp add: value_ok_def)
  with 0 show ?case by (simp add: min_def split: if_splits)
next
  case (Suc d)
  have ci: "ci < length v" using Suc.hyps(2) by simp
  then have iv: "ci * pb < vb" using less_div_ceil_iff [OF pb(1)] v by (auto simp: value_ok_def)
  define w where "w = value_cell_bits vb pb ci"
  have w: "w \<le> pb" "ci * pb + w = min (Suc ci * pb) vb"
    using iv pb(1) by (auto simp: w_def value_cell_bits_def)
  define c where "c = (ucast (v ! ci) AND (push_bit w 1 - 1) :: u64)"
  have cS: "bit c j \<longleftrightarrow> j < w \<and> S (ci * pb + j)" for j
  proof (cases "j < w")
    case True
    then have "j < pb" "ci * pb + j < vb" by (simp_all add: w_def value_cell_bits_less)
    then show ?thesis using True S [of "ci * pb + j"] pb(2)
      by (simp add: c_def [unfolded push_bit_1_minus_1] bit_and_iff bit_mask_iff cbit_cell)
  qed (simp add: c_def [unfolded push_bit_1_minus_1] bit_and_iff bit_mask_iff)
  have "emitted S (ci * pb) (acc, n, off, out)" using Suc.prems(1) iv by (simp add: min_def)
  then have e0: "emitted S (ci * pb + w) (acc OR push_bit n c, n + w, off, out)"
    using Suc.prems(2) w(1) pb(2) cS by (intro emitted_push) auto
  have le: "ci * pb + w \<le> 8 * length out"
    using w(2) Suc.prems(3) div_ceil_mult_ge [of 8 vb] by (simp add: mult.commute)
  obtain acc1 n1 off1 out1 where
    e: "stream_emit (acc OR push_bit n c, n + w, off, out) = (acc1, n1, off1, out1)"
      "emitted S (min (Suc ci * pb) vb) (acc1, n1, off1, out1)" "n1 < 8" "length out1 = length out"
    using unpack_emit_spec [OF e0 le] stream_emit_eq [OF e0 le] w(2) by metis
  have "\<exists>acc' n' off' out'. stream_cells (enumerate (Suc ci) (drop (Suc ci) v)) vb pb (acc1, n1, off1, out1) =
      (acc', n', off', out') \<and> emitted S vb (acc', n', off', out') \<and> n' < 8 \<and>
      length out' = div_ceil vb 8"
    using Suc.hyps(2) e Suc.prems(3) ci by (intro Suc.hyps(1)) auto
  moreover have "drop ci v = v ! ci # drop (Suc ci) v" using ci by (rule Cons_nth_drop_Suc [symmetric])
  ultimately show ?case
    by (simp only: enumerate_simps stream_cells.simps prod.case fst_conv snd_conv Let_def
        e(1) [unfolded c_def w_def])
qed

theorem unpack_value_streaming_spec:
  assumes inv: "fv_inv t" "b < fv_num_buckets t" "s < fv_bucket_size t"
    and v: "v = snd (fv.view t (b, s))" and out: "length out = div_ceil (fv_value_bits t) 8"
  shows "\<exists>bytes. unpack_value_streaming t b s out (fv_value_bits t) (fv_plaintext_bits t)
      (fv_value_size_in_cells t) = Some bytes \<and> length bytes = length out \<and>
    (\<forall>k < 8 * length out. bbit bytes k \<longleftrightarrow> k < fv_value_bits t \<and> cbit (fv_plaintext_bits t) v k)"
proof -
  let ?vb = "fv_value_bits t" and ?pb = "fv_plaintext_bits t"
  have pb: "0 < ?pb" "?pb \<le> 32" using inv(1) by (simp_all add: fv_inv_def)
  have ok: "value_ok ?vb ?pb v" using fv_view(2) [OF inv] v by (simp add: fv_entry_ok_def)
  then have len: "length v = fv_value_size_in_cells t"
    by (simp add: value_ok_def fv_value_size_in_cells_def)
  show ?thesis
  proof (cases "?pb = 8 \<and> ?vb mod 8 = 0")
    case True
    have lo: "length out = fv_value_size_in_cells t"
      using True out by (simp add: fv_value_size_in_cells_def)
    have "unpack_value_streaming t b s out ?vb ?pb (fv_value_size_in_cells t) = Some (map ucast v)"
      using True stream_fast_eq [OF inv v, where co = 0 and off = 0 and out = out] lo
      by (simp add: unpack_value_streaming_def)
    moreover have "bbit (map ucast v) k \<longleftrightarrow> k < ?vb \<and> cbit ?pb v k" if "k < 8 * length out" for k
    proof -
      have "k < ?vb" using that True out by (auto simp: div_ceil_8)
      moreover have "k div 8 < length v" using that len lo by (simp add: div_less_iff_less_mult)
      moreover have "k mod 8 < 8" by simp
      ultimately show ?thesis using True by (simp add: bbit_def cbit_def)
    qed
    ultimately show ?thesis using len lo by (intro exI [of _ "map ucast v"]) simp
  next
    case False
    obtain acc n off out' where
      st: "stream_cells (enumerate 0 (drop 0 v)) ?vb ?pb (0, 0, 0, out) = (acc, n, off, out')"
      and e: "emitted (cbit ?pb v) ?vb (acc, n, off, out')" "n < 8" "length out' = div_ceil ?vb 8"
      using stream_cells_spec [OF pb ok refl, of 0 0 0 0 out] out by (auto simp: emitted_def)
    have "unpack_value_streaming t b s out ?vb ?pb (fv_value_size_in_cells t) =
        Some (unpack_finish ?vb (acc, n, off, out'))"
      using False st stream_general_eq [OF inv v, where co = 0]
      unfolding unpack_value_streaming_def if_not_P [OF False] by simp
    with unpack_finish_spec [OF e] out show ?thesis by auto
  qed
qed

end
