(* ===== verification/KV_Store.thy ===== *)
theory KV_Store
  imports Slot_Pack
begin

text \<open>
  \<open>segmented-cuckoo/src/store.rs\<close>: \<open>CuckooKVStore\<close>, generic over its index scheme. The random
  number generator is an argument \<open>draw\<close>: \<open>draw n g\<close> is the result of \<open>random_range(0..n)\<close> and the
  generator after it. Messages of \<open>InvalidParams\<close> are left out. An operation returns \<open>None\<close> where
  the code panics; \<open>kv_inv\<close> is the invariant under which none does.
\<close>

section \<open>State\<close>

datatype cuckoo_error = TableFull | InvalidParams | NotFound

record slot_mutation =
  sm_bucket :: nat
  sm_slot :: nat
  sm_old_fingerprint :: u64
  sm_new_fingerprint :: u64
  sm_old_value_cells :: "u32 list"
  sm_new_value_cells :: "u32 list"

record kv_store =
  kv_table :: fv_table
  kv_scheme :: index_scheme
  kv_num_items :: nat
  kv_max_kicks :: nat
  kv_chain_meta :: "(nat \<times> nat \<times> u64) list"
  kv_chain_values :: "u32 list"
  kv_cur_value :: "u32 list"
  kv_mutation_log :: "slot_mutation list option"
  kv_pending_mutations :: "slot_mutation list"

definition kv_value_size_in_cells :: "kv_store \<Rightarrow> nat" where
  "kv_value_size_in_cells st = fv_value_size_in_cells (kv_table st)"

definition kv_value_size_in_bytes :: "kv_store \<Rightarrow> nat" where
  "kv_value_size_in_bytes st = div_ceil (fv_value_bits (kv_table st)) 8"

definition kv_size_in_bytes :: "kv_store \<Rightarrow> nat" where
  "kv_size_in_bytes st = 4 * fv_size_in_cells (kv_table st)"

section \<open>Constructors\<close>

definition MAX_KICKS_DEFAULT :: nat where
  "MAX_KICKS_DEFAULT = 500"

definition is_power_of_two :: "nat \<Rightarrow> bool" where
  "is_power_of_two n = (\<exists>t < 64. n = 2 ^ t)"

text \<open>\<open>n.ilog2()\<close> for \<open>n > 0\<close>.\<close>

fun ilog2 :: "nat \<Rightarrow> nat" where
  "ilog2 n = (if n < 2 then 0 else 1 + ilog2 (n div 2))"

declare ilog2.simps [simp del]

definition validate_common_params :: "nat \<Rightarrow> nat \<Rightarrow> nat \<Rightarrow> cuckoo_error + unit" where
  "validate_common_params ar bucket_size fingerprint_bits =
     (if ar \<notin> {2, 3, 4} then Inl InvalidParams
      else if bucket_size \<notin> {1, 2, 3, 4} then Inl InvalidParams
      else let min_fingerprint_bits = ilog2 (ar * bucket_size) + 1 in
        if fingerprint_bits < min_fingerprint_bits \<or> fingerprint_bits > 64 then Inl InvalidParams
        else Inr ())"

text \<open>The store around a table, as every constructor builds it.\<close>

definition kv_make :: "fv_table \<Rightarrow> index_scheme \<Rightarrow> nat \<Rightarrow> kv_store option" where
  "kv_make t scheme num_items =
     do {
       let vcells = fv_value_size_in_cells t;
       assert_opt (MAX_KICKS_DEFAULT * vcells < 2 ^ 64);
       Some \<lparr> kv_table = t, kv_scheme = scheme, kv_num_items = num_items,
         kv_max_kicks = MAX_KICKS_DEFAULT, kv_chain_meta = [],
         kv_chain_values = replicate (MAX_KICKS_DEFAULT * vcells) 0,
         kv_cur_value = replicate vcells 0, kv_mutation_log = None, kv_pending_mutations = [] \<rparr>
     }"

text \<open>The checks of \<open>new\<close> after the scheme's own, and the construction.\<close>

definition kv_new_common ::
  "nat \<Rightarrow> index_scheme \<Rightarrow> nat \<Rightarrow> nat \<Rightarrow> nat \<Rightarrow> nat \<Rightarrow> nat \<Rightarrow> (cuckoo_error + kv_store) option" where
  "kv_new_common ar scheme num_buckets bucket_size fingerprint_bits value_bits plaintext_bits =
     (case validate_common_params ar bucket_size fingerprint_bits of
        Inl e \<Rightarrow> Some (Inl e)
      | Inr _ \<Rightarrow>
          if value_bits = 0 then Some (Inl InvalidParams)
          else if \<not> (1 \<le> plaintext_bits \<and> plaintext_bits \<le> 32) then Some (Inl InvalidParams)
          else do {
            t \<leftarrow> fv_new num_buckets bucket_size fingerprint_bits value_bits plaintext_bits;
            st \<leftarrow> kv_make t scheme 0;
            Some (Inr st)
          })"

definition kv_new_2ary :: "nat \<Rightarrow> nat \<Rightarrow> nat \<Rightarrow> nat \<Rightarrow> nat \<Rightarrow> (cuckoo_error + kv_store) option" where
  "kv_new_2ary num_buckets bucket_size fingerprint_bits value_bits plaintext_bits =
     (if \<not> is_power_of_two num_buckets \<or> num_buckets < 2 then Some (Inl InvalidParams)
      else kv_new_common 2 (Segmented2aryScheme (of_nat (num_buckets div 2)))
        num_buckets bucket_size fingerprint_bits value_bits plaintext_bits)"

definition kv_new_3ary :: "nat \<Rightarrow> nat \<Rightarrow> nat \<Rightarrow> nat \<Rightarrow> nat \<Rightarrow> (cuckoo_error + kv_store) option" where
  "kv_new_3ary num_buckets bucket_size fingerprint_bits value_bits plaintext_bits =
     (if num_buckets < 3 \<or> num_buckets mod 3 \<noteq> 0 \<or> \<not> is_power_of_two (num_buckets div 3)
      then Some (Inl InvalidParams)
      else kv_new_common 3 (Segmented3aryScheme (of_nat (num_buckets div 3)))
        num_buckets bucket_size fingerprint_bits value_bits plaintext_bits)"

definition kv_new_4ary :: "nat \<Rightarrow> nat \<Rightarrow> nat \<Rightarrow> nat \<Rightarrow> nat \<Rightarrow> (cuckoo_error + kv_store) option" where
  "kv_new_4ary num_buckets bucket_size fingerprint_bits value_bits plaintext_bits =
     (if \<not> is_power_of_two num_buckets \<or> num_buckets < 4 then Some (Inl InvalidParams)
      else kv_new_common 4 (Segmented4aryScheme (of_nat (num_buckets div 4)))
        num_buckets bucket_size fingerprint_bits value_bits plaintext_bits)"

text \<open>\<open>from_cells\<close> of the three schemes: the scheme and shape checks, then the table's.\<close>

definition kv_from_cells_with ::
  "index_scheme \<Rightarrow> u32 list \<Rightarrow> cuckoo_params \<Rightarrow> nat \<Rightarrow> (cuckoo_error + kv_store) option" where
  "kv_from_cells_with scheme cells p num_items =
     do {
       r \<leftarrow> fv_from_cells cells (cp_num_buckets p) (cp_bucket_size p) (cp_fingerprint_bits p)
         (cp_value_bits p) (cp_plaintext_bits p);
       case r of
         Inl _ \<Rightarrow> Some (Inl InvalidParams)
       | Inr t \<Rightarrow> do { st \<leftarrow> kv_make t scheme num_items; Some (Inr st) }
     }"

definition kv_from_cells_2ary :: "u32 list \<Rightarrow> cuckoo_params \<Rightarrow> nat \<Rightarrow> (cuckoo_error + kv_store) option" where
  "kv_from_cells_2ary cells p num_items =
     (if cp_scheme_kind p \<noteq> Segmented2ary then Some (Inl InvalidParams)
      else if \<not> is_power_of_two (cp_num_buckets p) \<or> cp_num_buckets p < 2
      then Some (Inl InvalidParams)
      else kv_from_cells_with (Segmented2aryScheme (of_nat (cp_num_buckets p div 2))) cells p num_items)"

definition kv_from_cells_3ary :: "u32 list \<Rightarrow> cuckoo_params \<Rightarrow> nat \<Rightarrow> (cuckoo_error + kv_store) option" where
  "kv_from_cells_3ary cells p num_items =
     (if cp_scheme_kind p \<noteq> Segmented3ary then Some (Inl InvalidParams)
      else if cp_num_buckets p < 3 \<or> cp_num_buckets p mod 3 \<noteq> 0 \<or>
        \<not> is_power_of_two (cp_num_buckets p div 3)
      then Some (Inl InvalidParams)
      else kv_from_cells_with (Segmented3aryScheme (of_nat (cp_num_buckets p div 3))) cells p num_items)"

definition kv_from_cells_4ary :: "u32 list \<Rightarrow> cuckoo_params \<Rightarrow> nat \<Rightarrow> (cuckoo_error + kv_store) option" where
  "kv_from_cells_4ary cells p num_items =
     (if cp_scheme_kind p \<noteq> Segmented4ary then Some (Inl InvalidParams)
      else if \<not> is_power_of_two (cp_num_buckets p) \<or> cp_num_buckets p < 4
      then Some (Inl InvalidParams)
      else kv_from_cells_with (Segmented4aryScheme (of_nat (cp_num_buckets p div 4))) cells p num_items)"

section \<open>Insert\<close>

text \<open>The loop \<open>for p in ..: if let Some(slot) = self.table.insert(indices[p], ..)\<close>.\<close>

primrec place_in ::
  "nat list \<Rightarrow> fv_table \<Rightarrow> u32 list \<Rightarrow> u64 \<Rightarrow> u32 list \<Rightarrow> (fv_table \<times> (nat \<times> nat) option) option" where
  "place_in [] t indices fp val = Some (t, None)"
| "place_in (p # ps) t indices fp val =
     do {
       b \<leftarrow> nth_opt indices p;
       (t', r) \<leftarrow> fv_insert t (unat b) fp val;
       case r of
         Some slot \<Rightarrow> Some (t', Some (unat b, slot))
       | None \<Rightarrow> place_in ps t' indices fp val
     }"

text \<open>\<open>random_range(0..n)\<close> panics on the empty range.\<close>

definition random_range :: "(nat \<Rightarrow> 'g \<Rightarrow> nat \<times> 'g) \<Rightarrow> nat \<Rightarrow> 'g \<Rightarrow> (nat \<times> 'g) option" where
  "random_range draw n g = do { assert_opt (0 < n); Some (draw n g) }"

definition placement_mutation :: "nat \<Rightarrow> nat \<Rightarrow> u64 \<Rightarrow> nat \<Rightarrow> u32 list \<Rightarrow> slot_mutation" where
  "placement_mutation bucket slot fp vcells val =
     \<lparr> sm_bucket = bucket, sm_slot = slot, sm_old_fingerprint = 0, sm_new_fingerprint = fp,
       sm_old_value_cells = replicate vcells 0, sm_new_value_cells = val \<rparr>"

text \<open>
  One iteration of the kick loop up to the search for a free candidate: evict a random slot of
  \<open>cur_index\<close>, write the entry in flight there, stash the evicted value. The result carries the
  evicted fingerprint and the candidate buckets of the evicted entry.
\<close>

definition kick_evict ::
  "(nat \<Rightarrow> 'g \<Rightarrow> nat \<times> 'g) \<Rightarrow> kv_store \<Rightarrow> 'g \<Rightarrow> u32 \<Rightarrow> u64 \<Rightarrow> (kv_store \<times> 'g \<times> u64 \<times> u32 list) option" where
  "kick_evict draw st g cur_index cur_fingerprint =
     do {
       let vcells = kv_value_size_in_cells st;
       let kick_idx = length (kv_chain_meta st);
       let slab_off = kick_idx * vcells;
       (slot, g1) \<leftarrow> random_range draw (fv_bucket_size (kv_table st)) g;
       evicted_fp \<leftarrow> fv_read_fingerprint (kv_table st) (unat cur_index) slot;
       _ \<leftarrow> slice_opt (kv_chain_values st) slab_off vcells;
       old_val \<leftarrow> fv_read_value (kv_table st) (unat cur_index) slot vcells;
       chain_values \<leftarrow> splice_opt (kv_chain_values st) slab_off old_val;
       let chain_meta = kv_chain_meta st @ [(unat cur_index, slot, evicted_fp)];
       table \<leftarrow> fv_write (kv_table st) (unat cur_index) slot cur_fingerprint (kv_cur_value st);
       let pending = (if kv_mutation_log st \<noteq> None
         then kv_pending_mutations st @
           [\<lparr> sm_bucket = unat cur_index, sm_slot = slot, sm_old_fingerprint = evicted_fp,
              sm_new_fingerprint = cur_fingerprint, sm_old_value_cells = old_val,
              sm_new_value_cells = kv_cur_value st \<rparr>]
         else kv_pending_mutations st);
       assert_opt (length old_val = length (kv_cur_value st));
       all \<leftarrow> all_indices (kv_scheme st) cur_index evicted_fp;
       Some (st\<lparr> kv_table := table, kv_chain_values := chain_values, kv_chain_meta := chain_meta,
         kv_pending_mutations := pending, kv_cur_value := old_val \<rparr>, g1, evicted_fp, all)
     }"

text \<open>\<open>(0..arity).find(|&p| all[p] == cur_index).unwrap_or(0)\<close>.\<close>

definition evicted_position :: "nat \<Rightarrow> u32 list \<Rightarrow> u32 \<Rightarrow> nat" where
  "evicted_position ar all cur_index =
     (case List.find (\<lambda>p. all ! p = cur_index) [0..<ar] of Some p \<Rightarrow> p | None \<Rightarrow> 0)"

text \<open>Commit of an insert that found a free slot after kicking.\<close>

definition kick_commit :: "kv_store \<Rightarrow> fv_table \<Rightarrow> nat \<Rightarrow> nat \<Rightarrow> u64 \<Rightarrow> kv_store" where
  "kick_commit st table bucket slot fp =
     (let st1 = st\<lparr> kv_table := table, kv_num_items := kv_num_items st + 1 \<rparr> in
      case kv_mutation_log st of
        None \<Rightarrow> st1
      | Some log \<Rightarrow> st1\<lparr> kv_mutation_log := Some (log @ kv_pending_mutations st @
            [placement_mutation bucket slot fp (kv_value_size_in_cells st) (kv_cur_value st)]),
          kv_pending_mutations := [] \<rparr>)"

primrec kv_rollback ::
  "nat list \<Rightarrow> (nat \<times> nat \<times> u64) list \<Rightarrow> u32 list \<Rightarrow> nat \<Rightarrow> fv_table \<Rightarrow> fv_table option" where
  "kv_rollback [] chain_meta chain_values vcells t = Some t"
| "kv_rollback (k # ks) chain_meta chain_values vcells t =
     do {
       (bucket, slot, original_fp) \<leftarrow> nth_opt chain_meta k;
       val \<leftarrow> slice_opt chain_values (k * vcells) vcells;
       t' \<leftarrow> fv_write t bucket slot original_fp val;
       kv_rollback ks chain_meta chain_values vcells t'
     }"

text \<open>The kick loop; its first argument counts the iterations left, starting at \<open>max_kicks\<close>.\<close>

primrec kick_loop ::
  "nat \<Rightarrow> (nat \<Rightarrow> 'g \<Rightarrow> nat \<times> 'g) \<Rightarrow> kv_store \<Rightarrow> 'g \<Rightarrow> u32 \<Rightarrow> u64 \<Rightarrow>
    ((cuckoo_error + unit) \<times> kv_store \<times> 'g) option" where
  "kick_loop 0 draw st g cur_index cur_fingerprint =
     do {
       t \<leftarrow> kv_rollback (rev [0..<length (kv_chain_meta st)]) (kv_chain_meta st) (kv_chain_values st)
         (kv_value_size_in_cells st) (kv_table st);
       Some (Inl TableFull, st\<lparr> kv_table := t, kv_pending_mutations := [] \<rparr>, g)
     }"
| "kick_loop (Suc n) draw st g cur_index cur_fingerprint =
     do {
       (st1, g1, fp, all) \<leftarrow> kick_evict draw st g cur_index cur_fingerprint;
       let ar = arity (kv_scheme st);
       let evicted_pos = evicted_position ar all cur_index;
       let alts = [p \<leftarrow> [0..<ar]. p \<noteq> evicted_pos];
       (t, r) \<leftarrow> place_in alts (kv_table st1) all fp (kv_cur_value st1);
       case r of
         Some (bucket, slot) \<Rightarrow> Some (Inr (), kick_commit st1 t bucket slot fp, g1)
       | None \<Rightarrow> do {
           (k, g2) \<leftarrow> random_range draw (length alts) g1;
           next_pos \<leftarrow> nth_opt alts k;
           next_index \<leftarrow> nth_opt all next_pos;
           kick_loop n draw (st1\<lparr> kv_table := t \<rparr>) g2 next_index fp
         }
     }"

definition kv_insert ::
  "(u8 list \<Rightarrow> u128) \<Rightarrow> (nat \<Rightarrow> 'g \<Rightarrow> nat \<times> 'g) \<Rightarrow> kv_store \<Rightarrow> 'g \<Rightarrow> u8 list \<Rightarrow> u8 list \<Rightarrow>
    ((cuckoo_error + unit) \<times> kv_store \<times> 'g) option" where
  "kv_insert xxh draw st g key val =
     (if length val \<noteq> kv_value_size_in_bytes st then Some (Inl InvalidParams, st, g)
      else case hash_item xxh (kv_scheme st) key (fv_fingerprint_bits (kv_table st)) of
        (fingerprint, indices) \<Rightarrow> do {
          let ar = arity (kv_scheme st);
          cur \<leftarrow> pack_value_bytes_to_cells val (kv_cur_value st) (fv_value_bits (kv_table st))
            (fv_plaintext_bits (kv_table st));
          let st1 = st\<lparr> kv_cur_value := cur \<rparr>;
          (t, r) \<leftarrow> place_in [0..<ar] (kv_table st1) indices fingerprint cur;
          case r of
            Some (bucket, slot) \<Rightarrow>
              Some (Inr (), st1\<lparr> kv_table := t, kv_num_items := kv_num_items st1 + 1,
                kv_mutation_log := map_option (\<lambda>log. log @
                  [placement_mutation bucket slot fingerprint (kv_value_size_in_cells st) cur])
                  (kv_mutation_log st1) \<rparr>, g)
          | None \<Rightarrow> do {
              (start_pos, g1) \<leftarrow> random_range draw ar g;
              cur_index \<leftarrow> nth_opt indices start_pos;
              kick_loop (kv_max_kicks st) draw
                (st1\<lparr> kv_table := t, kv_chain_meta := [], kv_pending_mutations := [] \<rparr>)
                g1 cur_index fingerprint
            }
        })"

section \<open>Lookup, delete, update\<close>

text \<open>\<open>for i in 0..arity: if let Some(slot) = self.table.find(indices[i], fingerprint)\<close>.\<close>

primrec find_in :: "nat list \<Rightarrow> fv_table \<Rightarrow> u32 list \<Rightarrow> u64 \<Rightarrow> (nat \<times> nat) option option" where
  "find_in [] t indices fp = Some None"
| "find_in (p # ps) t indices fp =
     do {
       b \<leftarrow> nth_opt indices p;
       r \<leftarrow> fv_find t (unat b) fp;
       case r of Some slot \<Rightarrow> Some (Some (unat b, slot)) | None \<Rightarrow> find_in ps t indices fp
     }"

primrec contain_in :: "nat list \<Rightarrow> fv_table \<Rightarrow> u32 list \<Rightarrow> u64 \<Rightarrow> bool option" where
  "contain_in [] t indices fp = Some False"
| "contain_in (p # ps) t indices fp =
     do {
       b \<leftarrow> nth_opt indices p;
       r \<leftarrow> fv_contain t (unat b) fp;
       if r then Some True else contain_in ps t indices fp
     }"

definition kv_contain :: "(u8 list \<Rightarrow> u128) \<Rightarrow> kv_store \<Rightarrow> u8 list \<Rightarrow> bool option" where
  "kv_contain xxh st key =
     (case hash_item xxh (kv_scheme st) key (fv_fingerprint_bits (kv_table st)) of
        (fingerprint, indices) \<Rightarrow> contain_in [0..<arity (kv_scheme st)] (kv_table st) indices fingerprint)"

text \<open>\<open>get_into\<close>: the hit flag and the destination buffer after the call.\<close>

definition kv_get_into :: "(u8 list \<Rightarrow> u128) \<Rightarrow> kv_store \<Rightarrow> u8 list \<Rightarrow> u8 list \<Rightarrow> (bool \<times> u8 list) option" where
  "kv_get_into xxh st key out =
     do {
       assert_opt (length out = kv_value_size_in_bytes st);
       case hash_item xxh (kv_scheme st) key (fv_fingerprint_bits (kv_table st)) of
         (fingerprint, indices) \<Rightarrow> do {
           r \<leftarrow> find_in [0..<arity (kv_scheme st)] (kv_table st) indices fingerprint;
           case r of
             Some (bucket, slot) \<Rightarrow> do {
               out' \<leftarrow> unpack_value_streaming (kv_table st) bucket slot out
                 (fv_value_bits (kv_table st)) (fv_plaintext_bits (kv_table st))
                 (kv_value_size_in_cells st);
               Some (True, out')
             }
           | None \<Rightarrow> Some (False, out)
         }
     }"

definition kv_get :: "(u8 list \<Rightarrow> u128) \<Rightarrow> kv_store \<Rightarrow> u8 list \<Rightarrow> u8 list option option" where
  "kv_get xxh st key =
     do {
       (hit, out) \<leftarrow> kv_get_into xxh st key (replicate (kv_value_size_in_bytes st) 0);
       Some (if hit then Some out else None)
     }"

definition kv_delete ::
  "(u8 list \<Rightarrow> u128) \<Rightarrow> kv_store \<Rightarrow> u8 list \<Rightarrow> ((cuckoo_error + unit) \<times> kv_store) option" where
  "kv_delete xxh st key =
     (case hash_item xxh (kv_scheme st) key (fv_fingerprint_bits (kv_table st)) of
        (fingerprint, indices) \<Rightarrow> do {
          r \<leftarrow> find_in [0..<arity (kv_scheme st)] (kv_table st) indices fingerprint;
          case r of
            None \<Rightarrow> Some (Inl NotFound, st)
          | Some (bucket, slot) \<Rightarrow> do {
              log \<leftarrow> (case kv_mutation_log st of
                  None \<Rightarrow> Some None
                | Some log \<Rightarrow> do {
                    old_val \<leftarrow> fv_read_value_to_box (kv_table st) bucket slot;
                    Some (Some (log @ [\<lparr> sm_bucket = bucket, sm_slot = slot,
                      sm_old_fingerprint = fingerprint, sm_new_fingerprint = 0,
                      sm_old_value_cells = old_val,
                      sm_new_value_cells = replicate (fv_value_size_in_cells (kv_table st)) 0 \<rparr>]))
                  });
              let cur = replicate (length (kv_cur_value st)) 0;
              t \<leftarrow> fv_write (kv_table st) bucket slot 0 cur;
              assert_opt (0 < kv_num_items st);
              Some (Inr (), st\<lparr> kv_table := t, kv_cur_value := cur, kv_mutation_log := log,
                kv_num_items := kv_num_items st - 1 \<rparr>)
            }
        })"

definition kv_update ::
  "(u8 list \<Rightarrow> u128) \<Rightarrow> kv_store \<Rightarrow> u8 list \<Rightarrow> u8 list \<Rightarrow> ((cuckoo_error + unit) \<times> kv_store) option" where
  "kv_update xxh st key new_value =
     (if length new_value \<noteq> kv_value_size_in_bytes st then Some (Inl InvalidParams, st)
      else do {
        cur \<leftarrow> pack_value_bytes_to_cells new_value (kv_cur_value st) (fv_value_bits (kv_table st))
          (fv_plaintext_bits (kv_table st));
        let st1 = st\<lparr> kv_cur_value := cur \<rparr>;
        case hash_item xxh (kv_scheme st1) key (fv_fingerprint_bits (kv_table st1)) of
          (fingerprint, indices) \<Rightarrow> do {
            r \<leftarrow> find_in [0..<arity (kv_scheme st1)] (kv_table st1) indices fingerprint;
            case r of
              None \<Rightarrow> Some (Inl NotFound, st1)
            | Some (bucket, slot) \<Rightarrow> do {
                log \<leftarrow> (case kv_mutation_log st1 of
                    None \<Rightarrow> Some None
                  | Some log \<Rightarrow> do {
                      old_val \<leftarrow> fv_read_value_to_box (kv_table st1) bucket slot;
                      Some (Some (log @ [\<lparr> sm_bucket = bucket, sm_slot = slot,
                        sm_old_fingerprint = fingerprint, sm_new_fingerprint = fingerprint,
                        sm_old_value_cells = old_val, sm_new_value_cells = cur \<rparr>]))
                    });
                t \<leftarrow> fv_write_value (kv_table st1) bucket slot cur;
                Some (Inr (), st1\<lparr> kv_table := t, kv_mutation_log := log \<rparr>)
              }
          }
      })"

section \<open>Log, snapshot, replay\<close>

text \<open>\<open>chain_values.resize(n, 0)\<close> and the kick budget; the capacity reservation is not state.\<close>

definition kv_set_max_kicks :: "kv_store \<Rightarrow> nat \<Rightarrow> kv_store option" where
  "kv_set_max_kicks st max_kicks =
     do {
       let n = max_kicks * kv_value_size_in_cells st;
       assert_opt (n < 2 ^ 64);
       Some (st\<lparr> kv_max_kicks := max_kicks,
         kv_chain_values := take n (kv_chain_values st) @ replicate (n - length (kv_chain_values st)) 0 \<rparr>)
     }"

definition kv_enable_mutation_log :: "kv_store \<Rightarrow> kv_store" where
  "kv_enable_mutation_log st =
     (if kv_mutation_log st = None then st\<lparr> kv_mutation_log := Some [] \<rparr> else st)"

definition kv_disable_mutation_log :: "kv_store \<Rightarrow> kv_store" where
  "kv_disable_mutation_log st = st\<lparr> kv_mutation_log := None \<rparr>"

definition kv_drain_mutations :: "kv_store \<Rightarrow> slot_mutation list \<times> kv_store" where
  "kv_drain_mutations st =
     (case kv_mutation_log st of
        Some v \<Rightarrow> (v, st\<lparr> kv_mutation_log := Some [] \<rparr>)
      | None \<Rightarrow> ([], st))"

definition kv_snapshot_cells :: "kv_store \<Rightarrow> u32 list" where
  "kv_snapshot_cells st = fv_cells (kv_table st)"

record occupied_slot =
  os_bucket :: nat
  os_slot :: nat
  os_fingerprint :: u64
  os_value_cells :: "u32 list"

text \<open>The iterator, run to its end: bucket-major, slot-minor, empty slots skipped.\<close>

definition kv_iter_occupied_slots :: "kv_store \<Rightarrow> occupied_slot list option" where
  "kv_iter_occupied_slots st =
     (let t = kv_table st; nb = fv_num_buckets t; bs = fv_bucket_size t; cps = fv_cells_per_slot t in
      map_option concat (those (map (\<lambda>(b, s). do {
        fp \<leftarrow> fv_read_fingerprint t b s;
        if fp = 0 then Some []
        else do {
          cells \<leftarrow> slice_opt (fv_cells t) ((b * bs + s) * cps) cps;
          Some [\<lparr> os_bucket = b, os_slot = s, os_fingerprint = fp, os_value_cells = cells \<rparr>]
        }
      }) (List.product [0..<nb] [0..<bs]))))"

definition kv_apply_mutation :: "kv_store \<Rightarrow> slot_mutation \<Rightarrow> kv_store option" where
  "kv_apply_mutation st m =
     do {
       t1 \<leftarrow> fv_write_fingerprint (kv_table st) (sm_bucket m) (sm_slot m) (sm_new_fingerprint m);
       t2 \<leftarrow> fv_write_value t1 (sm_bucket m) (sm_slot m) (sm_new_value_cells m);
       Some (st\<lparr> kv_table := t2 \<rparr>)
     }"

definition kv_params :: "kv_store \<Rightarrow> cuckoo_params option" where
  "kv_params st =
     (case scheme_meta (kv_scheme st) of
        None \<Rightarrow> None
      | Some kind \<Rightarrow> Some \<lparr> cp_scheme_kind = kind, cp_num_buckets = fv_num_buckets (kv_table st),
          cp_bucket_size = fv_bucket_size (kv_table st),
          cp_fingerprint_bits = fv_fingerprint_bits (kv_table st),
          cp_value_bits = fv_value_bits (kv_table st),
          cp_plaintext_bits = fv_plaintext_bits (kv_table st) \<rparr>)"

end
