(* ===== verification/KV_Correct.thy ===== *)
theory KV_Correct
  imports KV_Store
begin

text \<open>
  Correctness of the key-value store. The abstract store is the bag of its entries
  \<open>(candidate buckets, fingerprint, value cells)\<close>; a key names the candidate buckets and the
  fingerprint of its hash. Insert adds one entry whatever kicks it takes, or restores the table;
  delete and update act on one entry of the key; the mutation log is a faithful record of the
  slot writes.
\<close>

section \<open>Sequences of slot writes\<close>

text \<open>Empty slots hold zero values, and the padding bits of every slot are zero.\<close>

definition fv_zeroed :: "fv_table \<Rightarrow> bool" where
  "fv_zeroed t \<longleftrightarrow> (\<forall>b < fv_num_buckets t. \<forall>s < fv_bucket_size t.
     fp_at t b s = 0 \<longrightarrow> snd (fv.view t (b, s)) = replicate (fv_value_size_in_cells t) 0)"

definition fv_padded :: "fv_table \<Rightarrow> bool" where
  "fv_padded t \<longleftrightarrow> (\<forall>b < fv_num_buckets t. \<forall>s < fv_bucket_size t. \<forall>k.
     entry_bits t \<le> k \<and> k < fv_cells_per_slot t * fv_plaintext_bits t \<longrightarrow>
     \<not> tbit t (slot_bit_offset t b s + k))"

text \<open>\<open>logged t ms u\<close>: \<open>ms\<close> records, in order, slot writes that lead from \<open>t\<close> to \<open>u\<close>; each record
  has the contents its slot had before.\<close>

inductive logged :: "fv_table \<Rightarrow> slot_mutation list \<Rightarrow> fv_table \<Rightarrow> bool" where
  logged_Nil: "fv_inv t \<Longrightarrow> logged t [] t"
| logged_snoc: "logged t ms u \<Longrightarrow> sm_bucket m < fv_num_buckets u \<Longrightarrow> sm_slot m < fv_bucket_size u \<Longrightarrow>
    fv_entry_ok u (sm_new_fingerprint m, sm_new_value_cells m) \<Longrightarrow>
    fv_read u (sm_bucket m) (sm_slot m) = Some (sm_old_fingerprint m, sm_old_value_cells m) \<Longrightarrow>
    sm_new_fingerprint m = 0 \<longrightarrow>
      sm_new_value_cells m = replicate (fv_value_size_in_cells u) 0 \<Longrightarrow>
    fv_write u (sm_bucket m) (sm_slot m) (sm_new_fingerprint m) (sm_new_value_cells m) = Some u' \<Longrightarrow>
    logged t (ms @ [m]) u'"

definition undo_entries :: "slot_mutation list \<Rightarrow> (nat \<times> nat \<times> u64 \<times> u32 list) list" where
  "undo_entries ms = map (\<lambda>m. (sm_bucket m, sm_slot m, sm_old_fingerprint m, sm_old_value_cells m)) (rev ms)"

lemma logged_kicked: "logged t ms u \<Longrightarrow> fv.kicked t (undo_entries ms) u"
proof (induction rule: logged.induct)
  case (logged_snoc t ms u m u')
  then show ?case unfolding undo_entries_def
    using fv.kicked_step [OF logged_snoc.IH [unfolded undo_entries_def] logged_snoc.hyps(2,3,4,5)] by simp
qed (simp add: undo_entries_def fv.kicked_start)

lemma logged_shape: "logged t ms u \<Longrightarrow> same_shape t u \<and> fv_inv u"
proof (induction rule: logged.induct)
  case (logged_snoc t ms u m u')
  from fv_write_entry [OF _ logged_snoc.hyps(2,3) fv_entry_ok_len [OF logged_snoc.hyps(4)]]
    logged_snoc.hyps(7) logged_snoc.IH
  have "entry_written u (sm_bucket m) (sm_slot m) (sm_new_fingerprint m) (sm_new_value_cells m) u'"
    by simp
  then show ?case using entry_writtenD(1,2) same_shape_trans logged_snoc.IH by blast
qed simp

lemma logged_inv: "logged t ms u \<Longrightarrow> fv_inv u"
  and logged_same_shape: "logged t ms u \<Longrightarrow> same_shape t u"
  using logged_shape by blast+

lemma logged_append: "logged u ns w \<Longrightarrow> logged t ms u \<Longrightarrow> logged t (ms @ ns) w"
proof (induction rule: logged.induct)
  case (logged_snoc u ns x m w)
  then show ?case using logged.logged_snoc [of t "ms @ ns" x m w] by simp
qed simp

lemma logged_single:
  assumes "fv_inv t" "b < fv_num_buckets t" "s < fv_bucket_size t" "fv_entry_ok t (fp, v)"
    "fv_read t b s = Some (ofp, ov)" "fp = 0 \<longrightarrow> v = replicate (fv_value_size_in_cells t) 0"
    "fv_write t b s fp v = Some t'"
  shows "logged t [\<lparr> sm_bucket = b, sm_slot = s, sm_old_fingerprint = ofp, sm_new_fingerprint = fp,
    sm_old_value_cells = ov, sm_new_value_cells = v \<rparr>] t'"
  using logged_snoc [OF logged_Nil [OF assms(1)],
    of "\<lparr> sm_bucket = b, sm_slot = s, sm_old_fingerprint = ofp, sm_new_fingerprint = fp,
    sm_old_value_cells = ov, sm_new_value_cells = v \<rparr>" t'] assms by simp

lemma fv_zeroed_write:
  assumes "fv_inv t" "fv_zeroed t" "b < fv_num_buckets t" "s < fv_bucket_size t" "fv_entry_ok t (fp, v)"
    "fp = 0 \<longrightarrow> v = replicate (fv_value_size_in_cells t) 0" "fv_write t b s fp v = Some t'"
  shows "fv_zeroed t'"
proof -
  have w: "fv_write t b s (fst (fp, v)) (snd (fp, v)) = Some t'" using assms(7) by simp
  note sh = same_shapeD [OF entry_writtenD(1) [OF fv_write_entry
    [OF assms(1,3,4) fv_entry_ok_len [OF assms(5), unfolded snd_conv] assms(7)]]]
  show ?thesis unfolding fv_zeroed_def sh
  proof (intro allI impI)
    fix b' s' assume r: "b' < fv_num_buckets t" "s' < fv_bucket_size t" and z: "fp_at t' b' s' = 0"
    show "snd (fv.view t' (b', s')) = replicate (fv_value_size_in_cells t) 0"
    proof (cases "(b', s') = (b, s)")
      case True
      then have "fv.view t' (b', s') = (fp, v)"
        using fv.view_eq [OF fv.rd_wr_same [OF assms(1,3-5) w]] by simp
      then show ?thesis using z assms(6) by simp
    next
      case False
      then have "fv.view t' (b', s') = fv.view t (b', s')"
        using fv.rd_wr_other [OF assms(1,3-5) w r] by (simp add: fv.view_def)
      then show ?thesis using z r assms(2) by (simp add: fv_zeroed_def)
    qed
  qed
qed

lemma fv_padded_write:
  assumes "fv_inv t" "fv_padded t" "b < fv_num_buckets t" "s < fv_bucket_size t" "fv_entry_ok t (fp, v)"
    "fv_write t b s fp v = Some t'"
  shows "fv_padded t'"
proof -
  note w = entry_writtenD [OF fv_write_entry
    [OF assms(1,3,4) fv_entry_ok_len [OF assms(5), unfolded snd_conv] assms(6)]]
  note sh = same_shapeD [OF w(1)]
  show ?thesis unfolding fv_padded_def sh
  proof (intro allI impI, elim conjE)
    fix b' s' k
    assume r: "b' < fv_num_buckets t" "s' < fv_bucket_size t"
      and k: "entry_bits t \<le> k" "k < fv_cells_per_slot t * fv_plaintext_bits t"
    have "slot_bit_offset t b' s' + k < slot_bit_offset t b s \<or>
        slot_bit_offset t b s + entry_bits t \<le> slot_bit_offset t b' s' + k"
    proof (cases "(b', s') = (b, s)")
      case False
      then show ?thesis
        using slots_disjoint [OF assms(4) r(2), of b' b] entry_le_slot [OF assms(1)] k by linarith
    qed (use k in simp)
    moreover have "slot_bit_offset t b' s' + k < tlen t"
      using slot_in_table [OF assms(1) r] k(2) by linarith
    ultimately have "tbit t' (slot_bit_offset t b' s' + k) = tbit t (slot_bit_offset t b' s' + k)"
      by (intro w(5))
    then show "\<not> cbit (fv_plaintext_bits t) (fv_cells t') (slot_bit_offset t b' s' + k)"
      using assms(2) r k sh(5) by (simp add: fv_padded_def)
  qed
qed

lemma logged_zeroed: "logged t ms u \<Longrightarrow> fv_zeroed t \<Longrightarrow> fv_zeroed u"
proof (induction rule: logged.induct)
  case (logged_snoc t ms u m u')
  then show ?case using fv_zeroed_write logged_inv by blast
qed simp

lemma logged_padded: "logged t ms u \<Longrightarrow> fv_padded t \<Longrightarrow> fv_padded u"
proof (induction rule: logged.induct)
  case (logged_snoc t ms u m u')
  then show ?case using fv_padded_write logged_inv by blast
qed simp

section \<open>The abstract store\<close>

type_synonym entry = "u32 set \<times> u64 \<times> u32 list"

definition kv_entry :: "index_scheme \<Rightarrow> nat \<times> nat \<Rightarrow> u64 \<times> u32 list \<Rightarrow> entry multiset" where
  "kv_entry scheme p e =
     (if fst e = 0 then {#} else {# (candidates scheme (of_nat (fst p)) (fst e), fst e, snd e) #})"

definition kv_bag :: "kv_store \<Rightarrow> entry multiset" where
  "kv_bag st = fv.bag (kv_entry (kv_scheme st)) (kv_table st)"

definition kv_inv :: "kv_store \<Rightarrow> bool" where
  "kv_inv st \<longleftrightarrow> fv_inv (kv_table st) \<and> valid_scheme (kv_scheme st) \<and>
     fv_num_buckets (kv_table st) = scheme_buckets (kv_scheme st) \<and> 0 < fv_bucket_size (kv_table st) \<and>
     length (kv_cur_value st) = kv_value_size_in_cells st \<and>
     length (kv_chain_values st) = kv_max_kicks st * kv_value_size_in_cells st \<and>
     fv_zeroed (kv_table st) \<and> fv_padded (kv_table st)"

definition kv_counted :: "kv_store \<Rightarrow> bool" where
  "kv_counted st \<longleftrightarrow> kv_num_items st = size (kv_bag st)"

text \<open>What no operation changes: scheme, kick budget, table shape and buffer sizes.\<close>

definition kv_frame :: "kv_store \<Rightarrow> kv_store \<Rightarrow> bool" where
  "kv_frame st st' \<longleftrightarrow> kv_scheme st' = kv_scheme st \<and> kv_max_kicks st' = kv_max_kicks st \<and>
     same_shape (kv_table st) (kv_table st') \<and>
     length (kv_cur_value st') = length (kv_cur_value st) \<and>
     length (kv_chain_values st') = length (kv_chain_values st)"

text \<open>A committed operation: the log grows by the writes that were made.\<close>

definition kv_committed :: "kv_store \<Rightarrow> kv_store \<Rightarrow> slot_mutation list \<Rightarrow> bool" where
  "kv_committed st st' ms \<longleftrightarrow> kv_frame st st' \<and> logged (kv_table st) ms (kv_table st') \<and>
     kv_mutation_log st' = map_option (\<lambda>log. log @ ms) (kv_mutation_log st)"

lemma kv_frame_refl [simp]: "kv_frame st st"
  by (simp add: kv_frame_def)

lemma kv_frame_trans: "kv_frame st su \<Longrightarrow> kv_frame su sv \<Longrightarrow> kv_frame st sv"
  using same_shape_trans unfolding kv_frame_def by auto

lemma kv_frame_vcells: "kv_frame st st' \<Longrightarrow> kv_value_size_in_cells st' = kv_value_size_in_cells st"
  by (simp add: kv_frame_def kv_value_size_in_cells_def geometry)

lemma kv_logged_inv:
  assumes "kv_inv st" "kv_frame st st'" "logged (kv_table st) ms (kv_table st')"
  shows "kv_inv st'"
proof -
  note l = assms(3) and f = assms(2)
  note sh = same_shapeD [OF logged_same_shape [OF l]]
  show ?thesis
    using assms(1) f logged_inv [OF l] logged_zeroed [OF l] logged_padded [OF l] kv_frame_vcells [OF f] sh
    by (simp add: kv_inv_def kv_frame_def)
qed

lemma kv_committed_inv: "kv_inv st \<Longrightarrow> kv_committed st st' ms \<Longrightarrow> kv_inv st'"
  using kv_logged_inv unfolding kv_committed_def by blast

lemma of_nat_unat_bucket:
  assumes "kv_inv st" "b < fv_num_buckets (kv_table st)"
  shows "unat (of_nat b :: u32) = b"
proof -
  have "b < 2 ^ 32" using assms scheme_buckets_less [of "kv_scheme st"] by (simp add: kv_inv_def)
  then show ?thesis by (simp add: unat_of_nat)
qed

lemma kv_bag_write:
  assumes "fv_inv t" "b < fv_num_buckets t" "s < fv_bucket_size t" "fv_entry_ok t (fp, v)"
    "fv_read t b s = Some e0" "fv_write t b s fp v = Some t'"
  shows "fv.bag (kv_entry scheme) t' + kv_entry scheme (b, s) e0 =
    fv.bag (kv_entry scheme) t + kv_entry scheme (b, s) (fp, v)"
  using fv.bag_wr [OF assms(1-5), of t' "kv_entry scheme"] assms(6) by simp

section \<open>Probing the candidate buckets\<close>

text \<open>The slots of the candidate buckets in probe order.\<close>

definition probe_slots :: "nat list \<Rightarrow> nat \<Rightarrow> u32 list \<Rightarrow> (nat \<times> nat) list" where
  "probe_slots ps bs indices = concat (map (\<lambda>p. map (Pair (unat (indices ! p))) [0..<bs]) ps)"

lemma probe_slots_Cons:
  "probe_slots (p # ps) bs indices = map (Pair (unat (indices ! p))) [0..<bs] @ probe_slots ps bs indices"
  by (simp add: probe_slots_def)

lemma set_probe_slots:
  "(b, s) \<in> set (probe_slots ps bs indices) \<longleftrightarrow> s < bs \<and> (\<exists>p \<in> set ps. b = unat (indices ! p))"
  by (induction ps) (auto simp: probe_slots_def)

lemma find_append: "List.find P (xs @ ys) = (case List.find P xs of Some x \<Rightarrow> Some x | None \<Rightarrow> List.find P ys)"
  by (induction xs) simp_all

lemma find_map: "List.find P (map f xs) = map_option f (List.find (P \<circ> f) xs)"
  by (induction xs) simp_all

lemma find_in_eq:
  assumes "fv_inv t" "\<And>p. p \<in> set ps \<Longrightarrow> p < length indices \<and> unat (indices ! p) < fv_num_buckets t"
  shows "find_in ps t indices fp =
    Some (List.find (\<lambda>x. fst (fv.view t x) = fp) (probe_slots ps (fv_bucket_size t) indices))"
  using assms(2)
proof (induction ps)
  case (Cons p ps)
  have p: "p < length indices" "unat (indices ! p) < fv_num_buckets t" using Cons.prems by simp_all
  show ?case
    using Cons.IH Cons.prems p fv_find_eq [OF assms(1) p(2), of fp]
    by (auto simp: probe_slots_Cons find_append find_map comp_def split: option.splits)
qed (simp add: probe_slots_def)

lemma contain_in_eq:
  assumes "fv_inv t" "\<And>p. p \<in> set ps \<Longrightarrow> p < length indices \<and> unat (indices ! p) < fv_num_buckets t"
  shows "contain_in ps t indices fp =
    Some (\<exists>x \<in> set (probe_slots ps (fv_bucket_size t) indices). fst (fv.view t x) = fp)"
  using assms(2)
proof (induction ps)
  case (Cons p ps)
  have p: "p < length indices" "unat (indices ! p) < fv_num_buckets t" using Cons.prems by simp_all
  show ?case
    using Cons.IH Cons.prems p fv_contain_eq [OF assms(1) p(2), of fp]
    by (auto simp: probe_slots_Cons)
qed (simp add: probe_slots_def)

lemma place_in_cases:
  assumes "fv_inv t" "fp \<noteq> 0" "fv_entry_ok t (fp, v)"
    and "\<forall>p \<in> set ps. p < length indices \<and> unat (indices ! p) < fv_num_buckets t"
  obtains (placed) p slot t' where "place_in ps t indices fp v = Some (t', Some (unat (indices ! p), slot))"
      "p \<in> set ps" "slot < fv_bucket_size t" "fp_at t (unat (indices ! p)) slot = 0"
      "fv_write t (unat (indices ! p)) slot fp v = Some t'"
    | (full) "place_in ps t indices fp v = Some (t, None)"
      "\<forall>p \<in> set ps. \<forall>s < fv_bucket_size t. fp_at t (unat (indices ! p)) s \<noteq> 0"
  using assms(4)
proof (induction ps arbitrary: thesis)
  case Nil
  then show ?case by simp
next
  case (Cons p ps)
  have p: "p < length indices" "unat (indices ! p) < fv_num_buckets t" using Cons.prems(3) by simp_all
  show ?case
  proof (cases rule: fv_insert_cases [OF assms(1) p(2) assms(2,3)])
    case (1 s t')
    then show ?thesis using Cons.prems(1) [of t' p s] p by simp
  next
    case 2
    show ?thesis
    proof (rule Cons.IH)
      fix q slot t'
      assume "place_in ps t indices fp v = Some (t', Some (unat (indices ! q), slot))" "q \<in> set ps"
        "slot < fv_bucket_size t" "fp_at t (unat (indices ! q)) slot = 0"
        "fv_write t (unat (indices ! q)) slot fp v = Some t'"
      then show thesis using Cons.prems(1) [of t' q slot] 2 p by simp
    next
      assume "place_in ps t indices fp v = Some (t, None)"
        "\<forall>p \<in> set ps. \<forall>s < fv_bucket_size t. fp_at t (unat (indices ! p)) s \<noteq> 0"
      then show thesis using Cons.prems(2) 2 p by simp
    qed (use Cons.prems(3) in simp)
  qed
qed

text \<open>The hash of a key, in a well-formed store.\<close>

lemma kv_hash:
  assumes "kv_inv st" "hash_item xxh (kv_scheme st) key (fv_fingerprint_bits (kv_table st)) = (fp, idx)"
  shows "fp \<noteq> 0" "fits (fv_fingerprint_bits (kv_table st)) fp" "length idx = 4"
    "p < arity (kv_scheme st) \<Longrightarrow> unat (idx ! p) < fv_num_buckets (kv_table st)"
    "p < arity (kv_scheme st) \<Longrightarrow>
      candidates (kv_scheme st) (idx ! p) fp = set (take (arity (kv_scheme st)) idx)"
    "p < arity (kv_scheme st) \<Longrightarrow> p < length idx"
proof -
  have v: "valid_scheme (kv_scheme st)" and fb: "0 < fv_fingerprint_bits (kv_table st)"
    and nb: "fv_num_buckets (kv_table st) = scheme_buckets (kv_scheme st)"
    using assms(1) by (auto simp: kv_inv_def fv_inv_def)
  note it = ix.item_total [OF v fb assms(2)]
  show "fp \<noteq> 0" "fits (fv_fingerprint_bits (kv_table st)) fp" "length idx = 4" using it by blast+
  show "p < arity (kv_scheme st) \<Longrightarrow> unat (idx ! p) < fv_num_buckets (kv_table st)"
    using ix.item_nth(1) [OF v fb assms(2)] nb by simp
  show "p < arity (kv_scheme st) \<Longrightarrow>
      candidates (kv_scheme st) (idx ! p) fp = set (take (arity (kv_scheme st)) idx)"
    using ix.item_nth(2) [OF v fb assms(2)] .
  show "p < arity (kv_scheme st) \<Longrightarrow> p < length idx"
    using it ix.arity_range [OF v] by auto
qed

text \<open>The entries of a key: its candidate buckets and its fingerprint.\<close>

definition key_tag :: "(u8 list \<Rightarrow> u128) \<Rightarrow> kv_store \<Rightarrow> u8 list \<Rightarrow> u32 set \<times> u64" where
  "key_tag xxh st key =
     (case hash_item xxh (kv_scheme st) key (fv_fingerprint_bits (kv_table st)) of
        (fp, idx) \<Rightarrow> (set (take (arity (kv_scheme st)) idx), fp))"

definition kv_values :: "(u8 list \<Rightarrow> u128) \<Rightarrow> kv_store \<Rightarrow> u8 list \<Rightarrow> u32 list set" where
  "kv_values xxh st key = {v. (fst (key_tag xxh st key), snd (key_tag xxh st key), v) \<in># kv_bag st}"

lemma kv_entry_key:
  assumes "kv_inv st" "hash_item xxh (kv_scheme st) key (fv_fingerprint_bits (kv_table st)) = (fp, idx)"
    and "p < arity (kv_scheme st)"
  shows "kv_entry (kv_scheme st) (unat (idx ! p), s) (fp, v) =
    {# (fst (key_tag xxh st key), snd (key_tag xxh st key), v) #}"
  using kv_hash [OF assms(1,2)] assms(2,3) by (simp add: kv_entry_def key_tag_def)

text \<open>A slot of a probed bucket with the key's fingerprint is an entry of the key, and every entry
  of the key is in such a slot.\<close>

lemma probe_hit_iff:
  assumes inv: "kv_inv st"
    and h: "hash_item xxh (kv_scheme st) key (fv_fingerprint_bits (kv_table st)) = (fp, idx)"
  shows "v \<in> kv_values xxh st key \<longleftrightarrow>
    (\<exists>x \<in> set (probe_slots [0..<arity (kv_scheme st)] (fv_bucket_size (kv_table st)) idx).
       fv.view (kv_table st) x = (fp, v))"
proof -
  let ?t = "kv_table st" and ?sc = "kv_scheme st"
  have tinv: "fv_inv ?t" and val: "valid_scheme ?sc" and nb: "fv_num_buckets ?t = scheme_buckets ?sc"
    using inv by (auto simp: kv_inv_def)
  have tag: "key_tag xxh st key = (set (take (arity ?sc) idx), fp)" by (simp add: key_tag_def h)
  have len: "length idx = 4" using kv_hash(3) [OF inv h] .
  have "v \<in> kv_values xxh st key \<longleftrightarrow>
      (\<exists>b s. b < fv_num_buckets ?t \<and> s < fv_bucket_size ?t \<and> fv.view ?t (b, s) = (fp, v) \<and>
        candidates ?sc (of_nat b) fp = set (take (arity ?sc) idx))"
  proof -
    have "v \<in> kv_values xxh st key \<longleftrightarrow>
        (\<exists>b s e. b < fv_num_buckets ?t \<and> s < fv_bucket_size ?t \<and> fv_read ?t b s = Some e \<and>
          (set (take (arity ?sc) idx), fp, v) \<in># kv_entry ?sc (b, s) e)"
      by (simp add: kv_values_def tag kv_bag_def fv.bag_elem_iff [OF tinv])
    also have "\<dots> \<longleftrightarrow> (\<exists>b s. b < fv_num_buckets ?t \<and> s < fv_bucket_size ?t \<and>
        fv.view ?t (b, s) = (fp, v) \<and> candidates ?sc (of_nat b) fp = set (take (arity ?sc) idx))"
    proof -
      have "(\<exists>e. fv_read ?t b s = Some e \<and> (set (take (arity ?sc) idx), fp, v) \<in># kv_entry ?sc (b, s) e) \<longleftrightarrow>
          fv.view ?t (b, s) = (fp, v) \<and> candidates ?sc (of_nat b) fp = set (take (arity ?sc) idx)"
        if "b < fv_num_buckets ?t" "s < fv_bucket_size ?t" for b s
        unfolding fv_view(1) [OF tinv that] using kv_hash(1) [OF inv h]
        by (cases "fv.view ?t (b, s)") (auto simp: kv_entry_def)
      then show ?thesis by blast
    qed
    finally show ?thesis .
  qed
  also have "\<dots> \<longleftrightarrow> (\<exists>b s. s < fv_bucket_size ?t \<and> fv.view ?t (b, s) = (fp, v) \<and>
      (\<exists>p \<in> set [0..<arity ?sc]. b = unat (idx ! p)))"
  proof -
    have eq: "b < fv_num_buckets ?t \<and> candidates ?sc (of_nat b) fp = set (take (arity ?sc) idx) \<longleftrightarrow>
        (\<exists>p \<in> set [0..<arity ?sc]. b = unat (idx ! p))" for b
    proof
      assume b: "b < fv_num_buckets ?t \<and> candidates ?sc (of_nat b) fp = set (take (arity ?sc) idx)"
      then have u: "unat (of_nat b :: u32) = b" using of_nat_unat_bucket [OF inv] by blast
      then have "(of_nat b :: u32) \<in> candidates ?sc (of_nat b) fp"
        using b ix.cands_self [OF val, of "of_nat b" fp] nb by simp
      then have "(of_nat b :: u32) \<in> set (take (arity ?sc) idx)" using b by simp
      then obtain p where "p < arity ?sc" "of_nat b = idx ! p" by (auto simp: in_set_conv_nth)
      then show "\<exists>p \<in> set [0..<arity ?sc]. b = unat (idx ! p)" using u by (auto intro!: bexI [of _ p])
    next
      assume "\<exists>p \<in> set [0..<arity ?sc]. b = unat (idx ! p)"
      then obtain p where p: "p < arity ?sc" "b = unat (idx ! p)" by auto
      then show "b < fv_num_buckets ?t \<and> candidates ?sc (of_nat b) fp = set (take (arity ?sc) idx)"
        using kv_hash(4,5) [OF inv h p(1)] by simp
    qed
    show ?thesis unfolding eq [symmetric] by (rule ex_cong1, rule ex_cong1) (simp only: conj_ac)
  qed
  also have "\<dots> \<longleftrightarrow> (\<exists>x \<in> set (probe_slots [0..<arity ?sc] (fv_bucket_size ?t) idx). fv.view ?t x = (fp, v))"
    by (force simp: set_probe_slots)
  finally show ?thesis .
qed

section \<open>Lookup\<close>

text \<open>\<open>decodes vb pb v bytes\<close>: \<open>bytes\<close> are the \<open>vb\<close> bits of the value cells \<open>v\<close>, zero-filled.\<close>

definition decodes :: "nat \<Rightarrow> nat \<Rightarrow> u32 list \<Rightarrow> u8 list \<Rightarrow> bool" where
  "decodes vb pb v bytes \<longleftrightarrow> length bytes = div_ceil vb 8 \<and>
     (\<forall>k < 8 * length bytes. bbit bytes k \<longleftrightarrow> k < vb \<and> cbit pb v k)"

abbreviation kv_decodes :: "kv_store \<Rightarrow> u32 list \<Rightarrow> u8 list \<Rightarrow> bool" where
  "kv_decodes st \<equiv> decodes (fv_value_bits (kv_table st)) (fv_plaintext_bits (kv_table st))"

lemma decodes_unique: "decodes vb pb v xs \<Longrightarrow> decodes vb pb v ys \<Longrightarrow> xs = ys"
  by (rule bytes_eq_streamI) (simp_all add: decodes_def)

lemma kv_find_cases:
  assumes inv: "kv_inv st"
    and h: "hash_item xxh (kv_scheme st) key (fv_fingerprint_bits (kv_table st)) = (fp, idx)"
  obtains (miss) "find_in [0..<arity (kv_scheme st)] (kv_table st) idx fp = Some None"
      "kv_values xxh st key = {}"
    | (hit) b s v where "find_in [0..<arity (kv_scheme st)] (kv_table st) idx fp = Some (Some (b, s))"
      "b < fv_num_buckets (kv_table st)" "s < fv_bucket_size (kv_table st)"
      "fv_read (kv_table st) b s = Some (fp, v)" "v \<in> kv_values xxh st key"
      "\<And>w. kv_entry (kv_scheme st) (b, s) (fp, w) =
         {# (fst (key_tag xxh st key), snd (key_tag xxh st key), w) #}"
proof -
  let ?t = "kv_table st" and ?ps = "[0..<arity (kv_scheme st)]"
  let ?slots = "probe_slots ?ps (fv_bucket_size ?t) idx"
  let ?P = "\<lambda>x. fst (fv.view ?t x) = fp"
  have tinv: "fv_inv ?t" using inv by (simp add: kv_inv_def)
  have f: "find_in ?ps ?t idx fp = Some (List.find ?P ?slots)"
    using kv_hash(4,6) [OF inv h] by (intro find_in_eq [OF tinv]) simp
  show thesis
  proof (cases "List.find ?P ?slots")
    case None
    then have "\<not> fst (fv.view ?t x) = fp" if "x \<in> set ?slots" for x
      using that None unfolding find_None_iff by blast
    then have "kv_values xxh st key = {}" using probe_hit_iff [OF inv h] by fastforce
    then show thesis using miss f None by simp
  next
    case (Some x)
    obtain b s where x: "x = (b, s)" by fastforce
    have m: "(b, s) \<in> set ?slots" "fp_at ?t b s = fp"
      using Some x by (auto simp: find_Some_iff)
    then obtain p where p: "p < arity (kv_scheme st)" "b = unat (idx ! p)" "s < fv_bucket_size ?t"
      by (auto simp: set_probe_slots)
    have b: "b < fv_num_buckets ?t" using kv_hash(4) [OF inv h p(1)] p(2) by simp
    define v where "v = snd (fv.view ?t (b, s))"
    have view: "fv.view ?t (b, s) = (fp, v)" using m(2) by (simp add: v_def prod_eq_iff)
    show thesis
    proof (rule hit)
      show "find_in ?ps ?t idx fp = Some (Some (b, s))" using f Some x by simp
      show "fv_read ?t b s = Some (fp, v)" using fv_view(1) [OF tinv b p(3)] view by simp
      show "v \<in> kv_values xxh st key" using probe_hit_iff [OF inv h] m(1) view by blast
      show "kv_entry (kv_scheme st) (b, s) (fp, w) =
         {# (fst (key_tag xxh st key), snd (key_tag xxh st key), w) #}" for w
        using kv_entry_key [OF inv h p(1)] p(2) by simp
    qed (use b p(3) in simp_all)
  qed
qed

lemma kv_contain_iff:
  assumes "kv_inv st"
  shows "kv_contain xxh st key = Some (kv_values xxh st key \<noteq> {})"
proof -
  obtain fp idx where h: "hash_item xxh (kv_scheme st) key (fv_fingerprint_bits (kv_table st)) = (fp, idx)"
    by fastforce
  have tinv: "fv_inv (kv_table st)" using assms by (simp add: kv_inv_def)
  let ?slots = "probe_slots [0..<arity (kv_scheme st)] (fv_bucket_size (kv_table st)) idx"
  have "contain_in [0..<arity (kv_scheme st)] (kv_table st) idx fp =
      Some (\<exists>x \<in> set ?slots. fst (fv.view (kv_table st) x) = fp)"
    using kv_hash(4,6) [OF assms h] by (intro contain_in_eq [OF tinv]) simp
  then have "kv_contain xxh st key = Some (\<exists>x \<in> set ?slots. fst (fv.view (kv_table st) x) = fp)"
    by (simp add: kv_contain_def h)
  also have "(\<exists>x \<in> set ?slots. fst (fv.view (kv_table st) x) = fp) \<longleftrightarrow>
      (\<exists>v. v \<in> kv_values xxh st key)"
    unfolding probe_hit_iff [OF assms h] by (metis fst_conv prod.collapse)
  finally show ?thesis by auto
qed

text \<open>\<open>get_into\<close> on every branch; a miss leaves the buffer alone.\<close>

lemma kv_get_into_spec:
  assumes inv: "kv_inv st" and out: "length out = kv_value_size_in_bytes st"
    and h: "hash_item xxh (kv_scheme st) key (fv_fingerprint_bits (kv_table st)) = (fp, idx)"
  shows "find_in [0..<arity (kv_scheme st)] (kv_table st) idx fp = Some None \<Longrightarrow>
      kv_get_into xxh st key out = Some (False, out)"
    and "find_in [0..<arity (kv_scheme st)] (kv_table st) idx fp = Some (Some (b, s)) \<Longrightarrow>
      b < fv_num_buckets (kv_table st) \<Longrightarrow> s < fv_bucket_size (kv_table st) \<Longrightarrow>
      fv_read (kv_table st) b s = Some (fp, v) \<Longrightarrow>
      \<exists>bytes. kv_get_into xxh st key out = Some (True, bytes) \<and> kv_decodes st v bytes"
proof -
  show "find_in [0..<arity (kv_scheme st)] (kv_table st) idx fp = Some None \<Longrightarrow>
      kv_get_into xxh st key out = Some (False, out)"
    using out by (simp add: kv_get_into_def h)
next
  assume f: "find_in [0..<arity (kv_scheme st)] (kv_table st) idx fp = Some (Some (b, s))"
    and r: "b < fv_num_buckets (kv_table st)" "s < fv_bucket_size (kv_table st)"
    and rd: "fv_read (kv_table st) b s = Some (fp, v)"
  have tinv: "fv_inv (kv_table st)" using inv by (simp add: kv_inv_def)
  have v: "v = snd (fv.view (kv_table st) (b, s))" using fv.view_eq [OF rd] by simp
  have lo: "length out = div_ceil (fv_value_bits (kv_table st)) 8"
    using out by (simp add: kv_value_size_in_bytes_def)
  obtain bytes where "unpack_value_streaming (kv_table st) b s out (fv_value_bits (kv_table st))
      (fv_plaintext_bits (kv_table st)) (fv_value_size_in_cells (kv_table st)) = Some bytes"
    "kv_decodes st v bytes"
    using unpack_value_streaming_spec [OF tinv r v lo] lo by (auto simp: decodes_def)
  then show "\<exists>bytes. kv_get_into xxh st key out = Some (True, bytes) \<and> kv_decodes st v bytes"
    using out f by (simp add: kv_get_into_def h kv_value_size_in_cells_def)
qed

lemma kv_get_hit:
  assumes inv: "kv_inv st"
    and h: "hash_item xxh (kv_scheme st) key (fv_fingerprint_bits (kv_table st)) = (fp, idx)"
    and "find_in [0..<arity (kv_scheme st)] (kv_table st) idx fp = Some (Some (b, s))"
    "b < fv_num_buckets (kv_table st)" "s < fv_bucket_size (kv_table st)"
    "fv_read (kv_table st) b s = Some (fp, v)"
  shows "\<exists>bytes. kv_get xxh st key = Some (Some bytes) \<and> kv_decodes st v bytes"
  using kv_get_into_spec(2) [OF inv _ h assms(3-6), of "replicate (kv_value_size_in_bytes st) 0"]
  by (auto simp: kv_get_def)

lemma kv_get_miss:
  assumes inv: "kv_inv st" and "kv_values xxh st key = {}"
  shows "kv_get xxh st key = Some None"
proof -
  obtain fp idx where h: "hash_item xxh (kv_scheme st) key (fv_fingerprint_bits (kv_table st)) = (fp, idx)"
    by fastforce
  show ?thesis
  proof (cases rule: kv_find_cases [OF inv h])
    case 1
    with kv_get_into_spec(1) [OF inv _ h, of "replicate (kv_value_size_in_bytes st) 0"]
    show ?thesis by (simp add: kv_get_def)
  next
    case (2 b s v)
    then show ?thesis using assms(2) by auto
  qed
qed

lemma kv_get_some:
  assumes inv: "kv_inv st" and "kv_values xxh st key \<noteq> {}"
  obtains v bytes where "v \<in> kv_values xxh st key" "kv_get xxh st key = Some (Some bytes)"
    "kv_decodes st v bytes"
proof -
  obtain fp idx where h: "hash_item xxh (kv_scheme st) key (fv_fingerprint_bits (kv_table st)) = (fp, idx)"
    by fastforce
  show thesis
  proof (cases rule: kv_find_cases [OF inv h])
    case 1
    then show ?thesis using assms(2) by auto
  next
    case (2 b s v)
    then show ?thesis using kv_get_hit [OF inv h 2(1-4)] that by blast
  qed
qed

section \<open>Delete and update\<close>

lemma kv_bag_eq: "kv_scheme st' = kv_scheme st \<Longrightarrow>
    fv.bag (kv_entry (kv_scheme st)) (kv_table st') = kv_bag st'"
  by (simp add: kv_bag_def)

lemma fv_read_to_box:
  assumes "fv_inv t" "b < fv_num_buckets t" "s < fv_bucket_size t" "fv_read t b s = Some (fp, v)"
  shows "fv_read_value_to_box t b s = Some v"
  using fv_read_parts(2) [OF assms(1-3)] fv.view_eq [OF assms(4)] by (simp add: fv_read_value_to_box_def)

theorem kv_delete_hit:
  assumes inv: "kv_inv st" and cnt: "kv_counted st" and ne: "kv_values xxh st key \<noteq> {}"
  shows "\<exists>v bytes st' ms. kv_delete xxh st key = Some (Inr (), st') \<and>
    kv_get xxh st key = Some (Some bytes) \<and> kv_decodes st v bytes \<and>
    kv_committed st st' ms \<and> kv_counted st' \<and>
    kv_bag st = kv_bag st' + {# (fst (key_tag xxh st key), snd (key_tag xxh st key), v) #}"
proof -
  obtain fp idx where h: "hash_item xxh (kv_scheme st) key (fv_fingerprint_bits (kv_table st)) = (fp, idx)"
    by fastforce
  have tinv: "fv_inv (kv_table st)" using inv by (simp add: kv_inv_def)
  let ?z = "replicate (fv_value_size_in_cells (kv_table st)) 0 :: u32 list"
  have cur: "replicate (length (kv_cur_value st)) 0 = ?z"
    using inv by (simp add: kv_inv_def kv_value_size_in_cells_def)
  have zok: "fv_entry_ok (kv_table st) (0, ?z)" by (simp add: fv_entry_ok_def fv_value_size_in_cells_def)
  show ?thesis
  proof (cases rule: kv_find_cases [OF inv h])
    case 1
    with ne show ?thesis by simp
  next
    case (2 b s v)
    obtain bytes where g: "kv_get xxh st key = Some (Some bytes)" "kv_decodes st v bytes"
      using kv_get_hit [OF inv h 2(1-4)] by blast
    obtain t' where w: "fv_write (kv_table st) b s 0 ?z = Some t'"
      using fv.wr_total [OF tinv 2(2,3) zok] by auto
    let ?m = "\<lparr> sm_bucket = b, sm_slot = s, sm_old_fingerprint = fp, sm_new_fingerprint = 0,
      sm_old_value_cells = v, sm_new_value_cells = ?z \<rparr>"
    have l: "logged (kv_table st) [?m] t'"
      by (rule logged_single [OF tinv 2(2,3) zok 2(4) _ w]) simp
    define st' where "st' = st\<lparr> kv_table := t', kv_cur_value := ?z,
      kv_mutation_log := map_option (\<lambda>log. log @ [?m]) (kv_mutation_log st),
      kv_num_items := kv_num_items st - 1 \<rparr>"
    have bag: "kv_bag st = kv_bag st' + {# (fst (key_tag xxh st key), snd (key_tag xxh st key), v) #}"
      using kv_bag_write [OF tinv 2(2,3) zok 2(4) w, of "kv_scheme st"] 2(6) [of v]
      by (simp add: kv_bag_def st'_def kv_entry_def)
    have pos: "0 < kv_num_items st" using cnt bag by (simp add: kv_counted_def)
    have "kv_delete xxh st key = Some (Inr (), st')"
      using 2(1) w pos fv_read_to_box [OF tinv 2(2-4)] cur
      by (cases "kv_mutation_log st") (simp_all add: kv_delete_def h st'_def Let_def)
    moreover have "kv_committed st st' [?m]"
      using l inv logged_same_shape [OF l]
      by (simp add: kv_committed_def kv_frame_def st'_def kv_inv_def kv_value_size_in_cells_def)
    moreover have "kv_counted st'" using cnt bag by (simp add: kv_counted_def st'_def)
    ultimately show ?thesis using g bag by blast
  qed
qed

theorem kv_delete_miss:
  assumes inv: "kv_inv st" and e: "kv_values xxh st key = {}"
  shows "kv_delete xxh st key = Some (Inl NotFound, st)"
proof -
  obtain fp idx where h: "hash_item xxh (kv_scheme st) key (fv_fingerprint_bits (kv_table st)) = (fp, idx)"
    by fastforce
  show ?thesis
  proof (cases rule: kv_find_cases [OF inv h])
    case 1
    then show ?thesis by (simp add: kv_delete_def h)
  next
    case (2 b s v)
    then show ?thesis using e by simp
  qed
qed

text \<open>A value packed from bytes, in a well-formed store.\<close>

lemma kv_pack:
  assumes inv: "kv_inv st" and len: "length val = kv_value_size_in_bytes st"
  obtains v where "pack_value_bytes_to_cells val (kv_cur_value st) (fv_value_bits (kv_table st))
      (fv_plaintext_bits (kv_table st)) = Some v"
    "value_ok (fv_value_bits (kv_table st)) (fv_plaintext_bits (kv_table st)) v"
    "length v = kv_value_size_in_cells st"
    "kv_decodes st v (trim_bytes (fv_value_bits (kv_table st)) val)"
proof -
  let ?vb = "fv_value_bits (kv_table st)" and ?pb = "fv_plaintext_bits (kv_table st)"
  have pb: "0 < ?pb" "?pb \<le> 32" using inv by (auto simp: kv_inv_def fv_inv_def)
  have cur: "length (kv_cur_value st) = div_ceil ?vb ?pb"
    using inv by (simp add: kv_inv_def kv_value_size_in_cells_def fv_value_size_in_cells_def)
  have lv: "length val = div_ceil ?vb 8" using len by (simp add: kv_value_size_in_bytes_def)
  obtain v where v: "pack_value_bytes_to_cells val (kv_cur_value st) ?vb ?pb = Some v"
      "value_ok ?vb ?pb v" "\<forall>k < ?vb. cbit ?pb v k \<longleftrightarrow> bbit val k"
    using pack_value_spec [OF pb cur lv] by blast
  have "kv_decodes st v (trim_bytes ?vb val)"
    using v(3) bbit_trim_bytes [OF lv] lv by (auto simp: decodes_def)
  then show thesis using that v
    by (simp add: value_ok_def kv_value_size_in_cells_def fv_value_size_in_cells_def)
qed

theorem kv_update_hit:
  assumes inv: "kv_inv st" and len: "length val = kv_value_size_in_bytes st"
    and ne: "kv_values xxh st key \<noteq> {}"
  shows "\<exists>v bytes w st' ms. kv_update xxh st key val = Some (Inr (), st') \<and>
    kv_get xxh st key = Some (Some bytes) \<and> kv_decodes st v bytes \<and>
    kv_decodes st w (trim_bytes (fv_value_bits (kv_table st)) val) \<and>
    kv_committed st st' ms \<and> kv_num_items st' = kv_num_items st \<and>
    kv_bag st' + {# (fst (key_tag xxh st key), snd (key_tag xxh st key), v) #} =
    kv_bag st + {# (fst (key_tag xxh st key), snd (key_tag xxh st key), w) #}"
proof -
  obtain fp idx where h: "hash_item xxh (kv_scheme st) key (fv_fingerprint_bits (kv_table st)) = (fp, idx)"
    by fastforce
  have tinv: "fv_inv (kv_table st)" using inv by (simp add: kv_inv_def)
  obtain w where w: "pack_value_bytes_to_cells val (kv_cur_value st) (fv_value_bits (kv_table st))
      (fv_plaintext_bits (kv_table st)) = Some w"
    "value_ok (fv_value_bits (kv_table st)) (fv_plaintext_bits (kv_table st)) w"
    "length w = kv_value_size_in_cells st"
    "kv_decodes st w (trim_bytes (fv_value_bits (kv_table st)) val)"
    using kv_pack [OF inv len] by blast
  have wok: "fv_entry_ok (kv_table st) (fp, w)" using kv_hash(2) [OF inv h] w(2) by (simp add: fv_entry_ok_def)
  show ?thesis
  proof (cases rule: kv_find_cases [OF inv h])
    case 1
    with ne show ?thesis by simp
  next
    case (2 b s v)
    obtain bytes where g: "kv_get xxh st key = Some (Some bytes)" "kv_decodes st v bytes"
      using kv_get_hit [OF inv h 2(1-4)] by blast
    obtain t' where wr: "fv_write (kv_table st) b s fp w = Some t'"
      using fv.wr_total [OF tinv 2(2,3) wok] by auto
    have wv: "fv_write_value (kv_table st) b s w = Some t'"
      using fv_write_value_eq [OF tinv 2(2,3), of w] wr fv.view_eq [OF 2(4)] by simp
    let ?m = "\<lparr> sm_bucket = b, sm_slot = s, sm_old_fingerprint = fp, sm_new_fingerprint = fp,
      sm_old_value_cells = v, sm_new_value_cells = w \<rparr>"
    have l: "logged (kv_table st) [?m] t'"
      using kv_hash(1) [OF inv h] by (intro logged_single [OF tinv 2(2,3) wok 2(4) _ wr]) simp
    define st' where "st' = st\<lparr> kv_cur_value := w, kv_table := t',
      kv_mutation_log := map_option (\<lambda>log. log @ [?m]) (kv_mutation_log st) \<rparr>"
    have bag: "kv_bag st' + {# (fst (key_tag xxh st key), snd (key_tag xxh st key), v) #} =
        kv_bag st + {# (fst (key_tag xxh st key), snd (key_tag xxh st key), w) #}"
      using kv_bag_write [OF tinv 2(2,3) wok 2(4) wr, of "kv_scheme st"] 2(6)
      by (simp add: kv_bag_def st'_def)
    have "kv_update xxh st key val = Some (Inr (), st')"
      using 2(1) wv w(1) len fv_read_to_box [OF tinv 2(2-4)]
      by (cases "kv_mutation_log st") (simp_all add: kv_update_def h st'_def)
    moreover have "kv_committed st st' [?m]"
      using l inv w(3) logged_same_shape [OF l]
      by (simp add: kv_committed_def kv_frame_def st'_def kv_inv_def)
    moreover have "kv_num_items st' = kv_num_items st" by (simp add: st'_def)
    ultimately show ?thesis using g w(4) bag by blast
  qed
qed

theorem kv_update_miss:
  assumes inv: "kv_inv st" and len: "length val = kv_value_size_in_bytes st"
    and e: "kv_values xxh st key = {}"
  shows "\<exists>v. length v = kv_value_size_in_cells st \<and>
    kv_update xxh st key val = Some (Inl NotFound, st\<lparr> kv_cur_value := v \<rparr>)"
proof -
  obtain fp idx where h: "hash_item xxh (kv_scheme st) key (fv_fingerprint_bits (kv_table st)) = (fp, idx)"
    by fastforce
  obtain v where v: "pack_value_bytes_to_cells val (kv_cur_value st) (fv_value_bits (kv_table st))
      (fv_plaintext_bits (kv_table st)) = Some v" "length v = kv_value_size_in_cells st"
    using kv_pack [OF inv len] by blast
  show ?thesis
  proof (cases rule: kv_find_cases [OF inv h])
    case 1
    then have "kv_update xxh st key val = Some (Inl NotFound, st\<lparr> kv_cur_value := v \<rparr>)"
      using len v(1) by (simp add: kv_update_def h)
    then show ?thesis using v(2) by blast
  next
    case (2 b s v)
    then show ?thesis using e by simp
  qed
qed

end
