(* ===== verification/Slot_Cells.thy ===== *)
theory Slot_Cells
  imports KV_Correct
begin

text \<open>
  The cells of one slot inside the flat cell array, which the PIR layer reads as (part of) a row of
  its plaintext matrix: they are exactly what \<open>pack_slot_cells\<close> builds from the slot's fingerprint
  and value, and \<open>unpack_slot_cells\<close> of the client recovers from them what the store's own
  \<open>get\<close> reads.
\<close>

definition slot_cells :: "fv_table \<Rightarrow> nat \<Rightarrow> nat \<Rightarrow> u32 list" where
  "slot_cells t b s = take (fv_cells_per_slot t)
     (drop ((b * fv_bucket_size t + s) * fv_cells_per_slot t) (fv_cells t))"

text \<open>Parameters that describe a table.\<close>

definition describes :: "cuckoo_params \<Rightarrow> fv_table \<Rightarrow> bool" where
  "describes p t \<longleftrightarrow> cp_num_buckets p = fv_num_buckets t \<and> cp_bucket_size p = fv_bucket_size t \<and>
     cp_fingerprint_bits p = fv_fingerprint_bits t \<and> cp_value_bits p = fv_value_bits t \<and>
     cp_plaintext_bits p = fv_plaintext_bits t"

lemma kv_params_describes: "kv_params st = Some p \<Longrightarrow> describes p (kv_table st)"
  by (auto simp: kv_params_def describes_def split: option.splits)

lemma describesD [geometry]:
  assumes "describes p t"
  shows "cp_num_buckets p = fv_num_buckets t" "cp_bucket_size p = fv_bucket_size t"
    "cp_fingerprint_bits p = fv_fingerprint_bits t" "cp_value_bits p = fv_value_bits t"
    "cp_plaintext_bits p = fv_plaintext_bits t"
    "cp_value_size_in_cells p = fv_value_size_in_cells t"
    "fv_inv t \<Longrightarrow> cp_cells_per_slot p = fv_cells_per_slot t" "fv_inv t \<Longrightarrow> cp_ok p"
  using assms by (simp_all add: describes_def cp_value_size_in_cells_def fv_value_size_in_cells_def
      cp_cells_per_slot_def fv_inv_def cp_ok_def)

lemma slot_cells_length:
  assumes "fv_inv t" "b < fv_num_buckets t" "s < fv_bucket_size t"
  shows "(b * fv_bucket_size t + s) * fv_cells_per_slot t + fv_cells_per_slot t \<le> length (fv_cells t)"
    "length (slot_cells t b s) = fv_cells_per_slot t"
proof -
  have "Suc (b * fv_bucket_size t + s) \<le> fv_num_buckets t * fv_bucket_size t"
    using mult_add_less [OF assms(2,3)] by simp
  then have "Suc (b * fv_bucket_size t + s) * fv_cells_per_slot t \<le>
      fv_num_buckets t * fv_bucket_size t * fv_cells_per_slot t" by (rule mult_le_mono1)
  then show le: "(b * fv_bucket_size t + s) * fv_cells_per_slot t + fv_cells_per_slot t \<le> length (fv_cells t)"
    using assms(1) by (simp add: fv_inv_def)
  then show "length (slot_cells t b s) = fv_cells_per_slot t" by (simp add: slot_cells_def)
qed

lemma slot_cells_range:
  assumes "fv_inv t" "describes p t" "b < fv_num_buckets t" "s < fv_bucket_size t"
  obtains lo hi where "cp_slot_cell_range p b s = Some (lo, hi)"
    "hi = lo + cp_cells_per_slot p" "slice_opt (fv_cells t) lo (hi - lo) = Some (slot_cells t b s)"
  using that assms slot_cells_length [OF assms(1,3,4)] describesD [OF assms(2)]
  by (simp add: cp_slot_cell_range_def Let_def slice_opt_def slot_cells_def)

text \<open>The stream of a slot's cells is the part of the table's stream at the slot's bit offset.\<close>

lemma slot_cells_stream:
  assumes "fv_inv t" "b < fv_num_buckets t" "s < fv_bucket_size t"
    and "k < fv_cells_per_slot t * fv_plaintext_bits t"
  shows "cbit (fv_plaintext_bits t) (slot_cells t b s) k = tbit t (slot_bit_offset t b s + k)"
proof -
  let ?pb = "fv_plaintext_bits t" and ?i = "(b * fv_bucket_size t + s) * fv_cells_per_slot t"
  have pb: "0 < ?pb" using assms(1) by (simp add: fv_inv_def)
  have kd: "k div ?pb < fv_cells_per_slot t" using assms(4) pb by (simp add: div_less_iff_less_mult)
  have "(?i * ?pb + k) div ?pb = ?i + k div ?pb" "(?i * ?pb + k) mod ?pb = k mod ?pb"
    using pb by (simp_all add: div_mult_self3)
  then show ?thesis
    using kd slot_cells_length(1) [OF assms(1-3)]
    by (simp add: cbit_def slot_cells_def slot_bit_offset_def)
qed

lemma slot_cells_ok:
  assumes "fv_inv t"
  shows "cells_ok (fv_plaintext_bits t) (slot_cells t b s)"
  using assms by (auto simp: fv_inv_def cells_ok_def slot_cells_def dest!: in_set_takeD in_set_dropD)

lemma slot_cells_hold:
  assumes "fv_inv t" "describes p t" "b < fv_num_buckets t" "s < fv_bucket_size t"
    "fv_read t b s = Some (fp, v)"
  shows "slot_holds p (slot_cells t b s) fp (cbit (fv_plaintext_bits t) v)"
proof -
  note d = describesD [OF assms(2)]
  have le: "entry_bits t \<le> fv_cells_per_slot t * fv_plaintext_bits t" by (rule entry_le_slot [OF assms(1)])
  have "\<forall>j < fv_fingerprint_bits t. bit fp j \<longleftrightarrow> tbit t (slot_bit_offset t b s + j)"
    "\<forall>k < fv_value_bits t. cbit (fv_plaintext_bits t) v k \<longleftrightarrow>
       tbit t (slot_bit_offset t b s + fv_fingerprint_bits t + k)"
    using assms(5) unfolding fv_read_iff [OF assms(1,3,4)] by simp_all
  then show ?thesis
    using slot_cells_stream [OF assms(1,3,4)] le by (simp add: slot_holds_def d add.assoc)
qed

lemma slot_holds_unique:
  assumes "cp_ok p" "length xs = cp_cells_per_slot p" "length ys = cp_cells_per_slot p"
    "cells_ok (cp_plaintext_bits p) xs" "cells_ok (cp_plaintext_bits p) ys"
    "slot_holds p xs fp S" "slot_holds p ys fp S"
    "\<And>k. cp_fingerprint_bits p + cp_value_bits p \<le> k \<Longrightarrow>
       k < cp_cells_per_slot p * cp_plaintext_bits p \<Longrightarrow>
       cbit (cp_plaintext_bits p) xs k = cbit (cp_plaintext_bits p) ys k"
  shows "xs = ys"
proof (rule cells_eq_streamI [OF _ assms(4,5)])
  fix k assume k: "k < length xs * cp_plaintext_bits p"
  consider "k < cp_fingerprint_bits p"
    | j where "k = cp_fingerprint_bits p + j" "j < cp_value_bits p"
    | "cp_fingerprint_bits p + cp_value_bits p \<le> k"
  proof (cases "k < cp_fingerprint_bits p")
    case False
    then have "cp_fingerprint_bits p \<le> k" by simp
    then obtain j where "k = cp_fingerprint_bits p + j" using le_Suc_ex by blast
    then show thesis using that(2,3) by (cases "j < cp_value_bits p") auto
  qed (use that(1) in blast)
  then show "cbit (cp_plaintext_bits p) xs k = cbit (cp_plaintext_bits p) ys k"
    using assms(6,7) assms(8) [of k] k assms(2) by cases (auto simp: slot_holds_def)
qed (use assms(2,3) in simp)

text \<open>The cells of a slot are the packed entry.\<close>

theorem slot_cells_pack:
  assumes "fv_inv t" "fv_padded t" "describes p t" "b < fv_num_buckets t" "s < fv_bucket_size t"
    "fv_read t b s = Some (fp, v)"
  shows "pack_slot_cells p fp v (cp_cells_per_slot p) = Some (slot_cells t b s)"
proof -
  note d = describesD [OF assms(3)]
  have ok: "fv_entry_ok t (fp, v)" using assms(6) unfolding fv_read_iff [OF assms(1,4,5)] by simp
  then have lv: "length v = cp_value_size_in_cells p" using fv_entry_ok_len d by fastforce
  obtain cs where cs: "pack_slot_cells p fp v (cp_cells_per_slot p) = Some cs"
    "length cs = cp_cells_per_slot p" "cells_ok (cp_plaintext_bits p) cs"
    "slot_holds p cs fp (cbit (cp_plaintext_bits p) v)"
    "\<And>k. cp_fingerprint_bits p + cp_value_bits p \<le> k \<Longrightarrow>
       k < cp_cells_per_slot p * cp_plaintext_bits p \<Longrightarrow> \<not> cbit (cp_plaintext_bits p) cs k"
    using pack_slot_cells_spec [OF d(8) [OF assms(1)] lv] by metis
  have "cs = slot_cells t b s"
  proof (rule slot_holds_unique [OF d(8) [OF assms(1)] cs(2) _ cs(3) _ cs(4)])
    show "length (slot_cells t b s) = cp_cells_per_slot p"
      using slot_cells_length [OF assms(1,4,5)] d(7) [OF assms(1)] by simp
    show "cells_ok (cp_plaintext_bits p) (slot_cells t b s)" using slot_cells_ok [OF assms(1)] d by simp
    show "slot_holds p (slot_cells t b s) fp (cbit (cp_plaintext_bits p) v)"
      using slot_cells_hold [OF assms(1,3,4,5,6)] d by simp
    fix k assume k: "cp_fingerprint_bits p + cp_value_bits p \<le> k"
      "k < cp_cells_per_slot p * cp_plaintext_bits p"
    then have "\<not> tbit t (slot_bit_offset t b s + k)"
      using assms(2,4,5) d assms(1) by (simp add: fv_padded_def)
    then show "cbit (cp_plaintext_bits p) cs k = cbit (cp_plaintext_bits p) (slot_cells t b s) k"
      using cs(5) [OF k] slot_cells_stream [OF assms(1,4,5)] k d assms(1) by simp
  qed
  with cs(1) show ?thesis by simp
qed

text \<open>Unpacking a slot's cells gives what the streaming read of the table gives.\<close>

lemma slot_cells_unpack:
  assumes "fv_inv t" "describes p t" "b < fv_num_buckets t" "s < fv_bucket_size t"
    "fv_read t b s = Some (fp, v)" "length out = div_ceil (fv_value_bits t) 8"
  obtains bytes where "unpack_slot_cells p (slot_cells t b s) = Some (fp, bytes)"
    "unpack_value_streaming t b s out (fv_value_bits t) (fv_plaintext_bits t)
      (fv_value_size_in_cells t) = Some bytes"
    "length bytes = length out"
    "\<And>k. k < 8 * length out \<Longrightarrow> bbit bytes k \<longleftrightarrow> k < fv_value_bits t \<and> cbit (fv_plaintext_bits t) v k"
proof -
  note d = describesD [OF assms(2)]
  have fits: "fits (cp_fingerprint_bits p) fp"
    using assms(5) unfolding fv_read_iff [OF assms(1,3,4)] by (simp add: fv_entry_ok_def d)
  have vbl: "cp_value_size_in_bytes p = length out" using assms(6) d by (simp add: cp_value_size_in_bytes_def)
  have sz: "length (slot_cells t b s) = cp_cells_per_slot p" "cells_ok (cp_plaintext_bits p) (slot_cells t b s)"
    using slot_cells_length [OF assms(1,3,4)] d(5,7) slot_cells_ok [OF assms(1)] assms(1) by simp_all
  obtain bytes where u: "unpack_slot_cells p (slot_cells t b s) = Some (fp, bytes)"
    "length bytes = length out"
    "\<And>k. k < 8 * length out \<Longrightarrow> bbit bytes k \<longleftrightarrow> k < fv_value_bits t \<and> cbit (fv_plaintext_bits t) v k"
    using unpack_slot_cells_spec [OF d(8) [OF assms(1)] sz slot_cells_hold [OF assms(1-5)] fits]
    unfolding vbl d by metis
  obtain bytes' where s: "unpack_value_streaming t b s out (fv_value_bits t) (fv_plaintext_bits t)
      (fv_value_size_in_cells t) = Some bytes'" "length bytes' = length out"
    "\<forall>k < 8 * length out. bbit bytes' k \<longleftrightarrow> k < fv_value_bits t \<and> cbit (fv_plaintext_bits t) v k"
    using unpack_value_streaming_spec [OF assms(1,3,4) _ assms(6), of v] fv.view_eq [OF assms(5)] by auto
  have "bytes' = bytes" by (rule bytes_eq_streamI) (use u s in simp_all)
  with u s that show thesis by blast
qed

end
