(* ===== verification/Hint_Patch.thy ===== *)
theory Hint_Patch
  imports Ordered_Map Hint_Matrix Slot_Cells
begin

text \<open>
  \<open>ikpir-server/src/hint_patch.rs\<close>: \<open>fold_mutations_into_row_deltas\<close> turns the mutation log of the
  store into sparse cell deltas, one list of edited rows per PIR segment. The main lemma: on a log
  of slot writes that lead from one table to another, it returns, in canonical form (rows and
  offsets ascending, no zero delta, no empty row), exactly the cell-wise difference of the two
  cell arrays.
\<close>

section \<open>The fold\<close>

type_synonym delta_rows = "(nat \<times> (nat \<times> int) list) list"

text \<open>The loop over the cells of one slot, on the offset map of its row.\<close>

definition fold_slot ::
  "nat \<Rightarrow> nat \<Rightarrow> u32 list \<Rightarrow> u32 list \<Rightarrow> (nat \<times> int) list \<Rightarrow> (nat \<times> int) list option" where
  "fold_slot cps slot old_buf new_buf =
     fold_opt (\<lambda>c row_entry. do {
         n \<leftarrow> nth_opt new_buf c;
         p \<leftarrow> nth_opt old_buf c;
         let delta = uint n - uint p;
         if delta = 0 then Some row_entry
         else do {
           assert_opt (slot * cps + c < 2 ^ 16);
           let cell_offset = slot * cps + c;
           sum \<leftarrow> checked_add_i64 (bt_delta row_entry cell_offset) delta;
           Some (bt_insert cell_offset sum row_entry)
         }
       }) [0..<cps]"

text \<open>The loop over the mutations.\<close>

definition fold_mutation :: "cuckoo_params \<Rightarrow> slot_mutation \<Rightarrow> delta_rows list \<Rightarrow> delta_rows list option" where
  "fold_mutation p m acc =
     do {
       let segment_size = cp_segment_size p;
       let cps = cp_cells_per_slot p;
       assert_opt (0 < segment_size);
       let seg_idx = sm_bucket m div segment_size;
       let bucket_in_seg = sm_bucket m mod segment_size;
       assert_opt (seg_idx < cp_arity p);
       assert_opt (sm_slot m < cp_bucket_size p);
       old_buf \<leftarrow> pack_slot_cells p (sm_old_fingerprint m) (sm_old_value_cells m) cps;
       new_buf \<leftarrow> pack_slot_cells p (sm_new_fingerprint m) (sm_new_value_cells m) cps;
       rows \<leftarrow> nth_opt acc seg_idx;
       let row_entry = (case map_of rows bucket_in_seg of None \<Rightarrow> [] | Some cells \<Rightarrow> cells);
       row_entry' \<leftarrow> fold_slot cps (sm_slot m) old_buf new_buf row_entry;
       upd_opt acc seg_idx (bt_insert bucket_in_seg row_entry' rows)
     }"

text \<open>Dropping zero deltas and empty rows.\<close>

definition emit_rows :: "delta_rows \<Rightarrow> row_deltas" where
  "emit_rows seg = List.map_filter (\<lambda>(row, cells).
     let v = filter (\<lambda>(_, d). d \<noteq> 0) cells in if v = [] then None else Some (row, v)) seg"

definition fold_mutations_into_row_deltas :: "slot_mutation list \<Rightarrow> cuckoo_params \<Rightarrow> row_deltas list option" where
  "fold_mutations_into_row_deltas muts p =
     do {
       acc \<leftarrow> fold_opt (fold_mutation p) muts (replicate (cp_arity p) []);
       Some (map emit_rows acc)
     }"

section \<open>Canonical deltas\<close>

definition canonical :: "row_deltas \<Rightarrow> bool" where
  "canonical rd \<longleftrightarrow> bt_ok rd \<and> (\<forall>x \<in> set rd. snd x \<noteq> [] \<and> bt_ok (snd x) \<and> (\<forall>y \<in> set (snd x). snd y \<noteq> 0))"

text \<open>The accumulator of a segment as a function of row and offset.\<close>

definition acc_delta :: "delta_rows \<Rightarrow> nat \<Rightarrow> nat \<Rightarrow> int" where
  "acc_delta rows r c = (case map_of rows r of None \<Rightarrow> 0 | Some cells \<Rightarrow> bt_delta cells c)"

definition acc_ok :: "nat \<Rightarrow> nat \<Rightarrow> delta_rows \<Rightarrow> bool" where
  "acc_ok n w rows \<longleftrightarrow> bt_ok rows \<and> edits_ok n w rows \<and> (\<forall>x \<in> set rows. bt_ok (snd x))"

lemma acc_ok_Nil [simp]: "acc_ok n w []"
  by (simp add: acc_ok_def)

lemma acc_delta_Nil [simp]: "acc_delta [] r c = 0"
  by (simp add: acc_delta_def)

lemma emit_rows_simps [simp]:
  "emit_rows [] = []"
  "emit_rows ((r, cells) # rows) =
     (if filter (\<lambda>(_, d). d \<noteq> 0) cells = [] then emit_rows rows
      else (r, filter (\<lambda>(_, d). d \<noteq> 0) cells) # emit_rows rows)"
  by (simp_all add: emit_rows_def List.map_filter_simps Let_def)

lemma emit_rows_eq:
  "emit_rows rows = filter (\<lambda>x. snd x \<noteq> []) (map (\<lambda>(r, cells). (r, filter (\<lambda>(_, d). d \<noteq> 0) cells)) rows)"
  by (induction rows) auto

lemma emit_rows_in:
  "(r, v) \<in> set (emit_rows rows) \<Longrightarrow>
    \<exists>cells. (r, cells) \<in> set rows \<and> v = filter (\<lambda>(_, d). d \<noteq> 0) cells \<and> v \<noteq> []"
  unfolding emit_rows_eq by auto

lemma cell_delta_bt: "bt_ok cells \<Longrightarrow> cell_delta cells c = bt_delta cells c"
  by (simp add: cell_delta_def bt_delta_sum)

lemma row_delta_emit:
  assumes "acc_ok n w rows"
  shows "row_delta (emit_rows rows) r c = acc_delta rows r c"
  using assms
proof (induction rows)
  case (Cons x rows)
  obtain r' cells where x: "x = (r', cells)" by (cases x)
  have ok: "acc_ok n w rows" "bt_ok cells" "bt_ok (x # rows)" using Cons.prems by (auto simp: acc_ok_def x bt_ok_Cons)
  have f: "cell_delta (filter (\<lambda>(_, d). d \<noteq> 0) cells) c = bt_delta cells c"
    using cell_delta_filter [of cells c] cell_delta_bt [OF ok(2)] by (simp add: split_def)
  have e: "row_delta (emit_rows (x # rows)) r c =
      (if r' = r then bt_delta cells c else 0) + row_delta (emit_rows rows) r c"
    using f by (auto simp: x)
  have "acc_delta rows r c = 0" if "r' = r"
    using map_of_below [OF ok(3), of r] that by (simp add: acc_delta_def x)
  then show ?case unfolding e using Cons.IH [OF ok(1)] by (auto simp: x acc_delta_def)
qed simp

lemma emit_rows_canonical:
  assumes "acc_ok n w rows"
  shows "canonical (emit_rows rows)" "edits_ok n w (emit_rows rows)"
proof -
  have "bt_ok (emit_rows rows)"
    using assms
  proof (induction rows)
    case (Cons x rows)
    then have "bt_ok (emit_rows rows)" by (simp add: acc_ok_def bt_ok_Cons edits_ok_def)
    moreover have "\<forall>y \<in> set (emit_rows rows). fst x < fst y"
      using Cons.prems by (fastforce simp: acc_ok_def bt_ok_Cons dest: emit_rows_in)
    ultimately show ?case by (cases x) (auto simp: bt_ok_Cons)
  qed simp
  then show "canonical (emit_rows rows)"
    using assms by (fastforce simp: canonical_def acc_ok_def bt_ok_filter dest!: emit_rows_in)
  show "edits_ok n w (emit_rows rows)"
    using assms by (fastforce simp: edits_ok_def acc_ok_def dest!: emit_rows_in)
qed

section \<open>One slot\<close>

lemma fold_slot_spec:
  assumes "bt_ok row_entry" "\<forall>x \<in> set row_entry. fst x < w" "length old_buf = cps" "length new_buf = cps"
    and "slot * cps + cps \<le> w" "w \<le> 2 ^ 16"
    and "\<And>c. c < cps \<Longrightarrow> i64_ok (bt_delta row_entry (slot * cps + c) + (uint (new_buf ! c) - uint (old_buf ! c)))"
  obtains row_entry' where "fold_slot cps slot old_buf new_buf row_entry = Some row_entry'"
    "bt_ok row_entry'" "\<forall>x \<in> set row_entry'. fst x < w"
    "\<And>k. bt_delta row_entry' k = bt_delta row_entry k +
      (if slot * cps \<le> k \<and> k < slot * cps + cps then uint (new_buf ! (k - slot * cps)) - uint (old_buf ! (k - slot * cps)) else 0)"
proof -
  define body where "body c row_entry = do {
      n \<leftarrow> nth_opt new_buf c; p \<leftarrow> nth_opt old_buf c;
      let delta = uint n - uint p;
      if delta = 0 then Some row_entry
      else do {
        assert_opt (slot * cps + c < 2 ^ 16);
        let cell_offset = slot * cps + c;
        sum \<leftarrow> checked_add_i64 (bt_delta row_entry cell_offset) delta;
        Some (bt_insert cell_offset sum row_entry) } }" for c row_entry
  define P where "P i row \<longleftrightarrow> bt_ok row \<and> (\<forall>x \<in> set row. fst x < w) \<and> (\<forall>k. bt_delta row k = bt_delta row_entry k +
      (if slot * cps \<le> k \<and> k < slot * cps + i then uint (new_buf ! (k - slot * cps)) - uint (old_buf ! (k - slot * cps)) else 0))"
    for i row
  have step: "\<exists>row'. body c row = Some row' \<and> P (Suc c) row'" if c: "c < cps" and P: "P c row" for c row
  proof -
    let ?d = "uint (new_buf ! c) - uint (old_buf ! c)" and ?k = "slot * cps + c"
    have row: "bt_ok row" "\<forall>x \<in> set row. fst x < w" "bt_delta row ?k = bt_delta row_entry ?k"
      using P by (simp_all add: P_def)
    have k: "?k < w" using c assms(5) by simp
    show ?thesis
    proof (cases "?d = 0")
      case True
      then have "P (Suc c) row" using P by (auto simp: P_def less_Suc_eq)
      moreover have "body c row = Some row" using True c assms(3,4) by (simp add: body_def)
      ultimately show ?thesis by blast
    next
      case False
      let ?row = "bt_insert ?k (bt_delta row ?k + ?d) row"
      have "body c row = Some ?row"
        using False c k assms(3,4,6) assms(7) [OF c] row(3) by (simp add: body_def checked_add_i64_def Let_def)
      moreover have "\<forall>x \<in> set ?row. fst x < w" using row(2) k bt_insert_in by fastforce
      moreover have "bt_delta ?row k = bt_delta row_entry k + (if slot * cps \<le> k \<and> k < slot * cps + Suc c
          then uint (new_buf ! (k - slot * cps)) - uint (old_buf ! (k - slot * cps)) else 0)" for k
        using P by (auto simp: bt_delta_insert [OF row(1)] P_def)
      ultimately show ?thesis using bt_insert_ok [OF row(1)] by (auto simp: P_def)
    qed
  qed
  have "P 0 row_entry" using assms(1,2) by (simp add: P_def)
  then obtain row' where row': "fold_opt body [0..<cps] row_entry = Some row'" "P cps row'"
    by (rule fold_opt_upt [where P = P and f = body, OF _ step])
  have "fold_slot cps slot old_buf new_buf row_entry = fold_opt body [0..<cps] row_entry"
    by (auto simp: fold_slot_def body_def intro!: fold_opt_cong)
  then show ?thesis using that row' by (simp add: P_def)
qed

section \<open>Rows of the cell array\<close>

text \<open>Cell \<open>k\<close> of the row that bucket \<open>b\<close> occupies.\<close>

definition row_cells :: "fv_table \<Rightarrow> nat" where
  "row_cells t = fv_bucket_size t * fv_cells_per_slot t"

definition tcell :: "fv_table \<Rightarrow> nat \<Rightarrow> nat \<Rightarrow> u32" where
  "tcell t b k = fv_cells t ! (b * row_cells t + k)"

lemma tcell_slot:
  assumes "fv_inv t" "b < fv_num_buckets t" "s < fv_bucket_size t" "c < fv_cells_per_slot t"
  shows "tcell t b (s * fv_cells_per_slot t + c) = slot_cells t b s ! c"
  using assms(4) slot_cells_length [OF assms(1-3)]
  by (simp add: tcell_def slot_cells_def row_cells_def algebra_simps)

lemma row_slot:
  assumes "k < row_cells t"
  shows "k div fv_cells_per_slot t < fv_bucket_size t" "k mod fv_cells_per_slot t < fv_cells_per_slot t"
  using assms by (auto simp: row_cells_def less_mult_imp_div_less intro!: mod_less_divisor Nat.gr0I)

text \<open>One logged write changes the cells of its slot only.\<close>

lemma logged_step_cells:
  assumes "fv_inv u" "fv_padded u" "describes p u" "sm_bucket m < fv_num_buckets u" "sm_slot m < fv_bucket_size u"
    and "fv_entry_ok u (sm_new_fingerprint m, sm_new_value_cells m)"
    and "fv_read u (sm_bucket m) (sm_slot m) = Some (sm_old_fingerprint m, sm_old_value_cells m)"
    and "fv_write u (sm_bucket m) (sm_slot m) (sm_new_fingerprint m) (sm_new_value_cells m) = Some u'"
  shows "fv_inv u'" "fv_padded u'" "describes p u'" "same_shape u u'"
    and "pack_slot_cells p (sm_old_fingerprint m) (sm_old_value_cells m) (cp_cells_per_slot p) =
      Some (slot_cells u (sm_bucket m) (sm_slot m))"
    and "pack_slot_cells p (sm_new_fingerprint m) (sm_new_value_cells m) (cp_cells_per_slot p) =
      Some (slot_cells u' (sm_bucket m) (sm_slot m))"
    and "b < fv_num_buckets u \<Longrightarrow> s < fv_bucket_size u \<Longrightarrow> (b, s) \<noteq> (sm_bucket m, sm_slot m) \<Longrightarrow>
      slot_cells u' b s = slot_cells u b s"
proof -
  let ?e = "(sm_new_fingerprint m, sm_new_value_cells m)"
  have w: "fv_write u (sm_bucket m) (sm_slot m) (fst ?e) (snd ?e) = Some u'" using assms(8) by simp
  show inv: "fv_inv u'" and pad: "fv_padded u'"
    using fv.wr_inv [OF assms(1,4,5,6) w] fv_padded_write [OF assms(1,2,4,5,6,8)] by simp_all
  show sh: "same_shape u u'"
    using entry_writtenD(1) [OF fv_write_entry [OF assms(1,4,5) _ assms(8)]] fv_entry_ok_len [OF assms(6)] by simp
  show d: "describes p u'" using assms(3) same_shapeD [OF sh] by (simp add: describes_def)
  note g = same_shapeD [OF sh]
  show "pack_slot_cells p (sm_old_fingerprint m) (sm_old_value_cells m) (cp_cells_per_slot p) =
      Some (slot_cells u (sm_bucket m) (sm_slot m))"
    by (rule slot_cells_pack [OF assms(1-5,7)])
  show "pack_slot_cells p (sm_new_fingerprint m) (sm_new_value_cells m) (cp_cells_per_slot p) =
      Some (slot_cells u' (sm_bucket m) (sm_slot m))"
    using slot_cells_pack [OF inv pad d, of "sm_bucket m" "sm_slot m"] fv.rd_wr_same [OF assms(1,4,5,6) w] assms(4,5) g
    by simp
  show "slot_cells u' b s = slot_cells u b s"
    if r: "b < fv_num_buckets u" "s < fv_bucket_size u" "(b, s) \<noteq> (sm_bucket m, sm_slot m)"
  proof -
    obtain fp v where rd: "fv_read u b s = Some (fp, v)" using fv_read_total [OF assms(1) r(1,2)] by auto
    then have "fv_read u' b s = Some (fp, v)" using fv.rd_wr_other [OF assms(1,4,5,6) w r] by simp
    then show ?thesis
      using slot_cells_pack [OF assms(1-3) r(1,2) rd] slot_cells_pack [OF inv pad d, of b s fp v] r g by simp
  qed
qed

section \<open>The fold of a log\<close>

text \<open>The geometry the protocol needs of the parameters: the segments tile the buckets, and a row
  offset fits in 16 bits.\<close>

definition segments_ok :: "cuckoo_params \<Rightarrow> bool" where
  "segments_ok p \<longleftrightarrow> cp_arity p * cp_segment_size p = cp_num_buckets p \<and>
     cp_bucket_size p * cp_cells_per_slot p \<le> 2 ^ 16"

definition cell_diff :: "fv_table \<Rightarrow> fv_table \<Rightarrow> nat \<Rightarrow> nat \<Rightarrow> int" where
  "cell_diff t u b k = uint (tcell u b k) - uint (tcell t b k)"

definition acc_inv :: "cuckoo_params \<Rightarrow> fv_table \<Rightarrow> fv_table \<Rightarrow> delta_rows list \<Rightarrow> bool" where
  "acc_inv p t u acc \<longleftrightarrow> length acc = cp_arity p \<and>
     (\<forall>j < cp_arity p. acc_ok (cp_segment_size p) (row_cells t) (acc ! j) \<and>
       (\<forall>r < cp_segment_size p. \<forall>k < row_cells t.
          acc_delta (acc ! j) r k = cell_diff t u (j * cp_segment_size p + r) k))"

lemma acc_delta_insert:
  "bt_ok rows \<Longrightarrow> acc_delta (bt_insert r cells rows) r' k = (if r' = r then bt_delta cells k else acc_delta rows r' k)"
  by (simp add: acc_delta_def map_of_bt_insert)

lemma acc_ok_insert:
  assumes "acc_ok n w rows" "r < n" "bt_ok cells" "\<forall>x \<in> set cells. fst x < w"
  shows "acc_ok n w (bt_insert r cells rows)"
  using assms bt_insert_ok [of rows r cells] bt_insert_in [of _ _ r cells rows]
  by (fastforce simp: acc_ok_def edits_ok_def)

lemma acc_ok_entry:
  assumes "acc_ok n w rows"
  shows "bt_ok (case map_of rows r of None \<Rightarrow> [] | Some cells \<Rightarrow> cells)"
    "\<forall>x \<in> set (case map_of rows r of None \<Rightarrow> [] | Some cells \<Rightarrow> cells). fst x < w"
    "bt_delta (case map_of rows r of None \<Rightarrow> [] | Some cells \<Rightarrow> cells) k = acc_delta rows r k"
proof -
  have "case map_of rows r of None \<Rightarrow> True | Some cells \<Rightarrow> bt_ok cells \<and> (\<forall>x \<in> set cells. fst x < w)"
    using assms map_of_SomeD [of rows r] by (fastforce simp: acc_ok_def edits_ok_def split: option.splits)
  then show "bt_ok (case map_of rows r of None \<Rightarrow> [] | Some cells \<Rightarrow> cells)"
    "\<forall>x \<in> set (case map_of rows r of None \<Rightarrow> [] | Some cells \<Rightarrow> cells). fst x < w"
    "bt_delta (case map_of rows r of None \<Rightarrow> [] | Some cells \<Rightarrow> cells) k = acc_delta rows r k"
    by (auto simp: acc_delta_def split: option.splits)
qed

lemma i64_ok_diff: "0 \<le> a \<Longrightarrow> a < 2 ^ 32 \<Longrightarrow> 0 \<le> b \<Longrightarrow> b < 2 ^ 32 \<Longrightarrow> i64_ok (a - b)"
  by (simp add: i64_ok_def)

lemma cell_diff_i64: "i64_ok (cell_diff t u b k)"
  unfolding cell_diff_def
  using uint_bounded [of "tcell u b k"] uint_bounded [of "tcell t b k"] by (intro i64_ok_diff) simp_all

lemma fold_mutation_step:
  assumes "acc_inv p t u acc" "segments_ok p" "same_shape t u" "fv_inv u" "fv_padded u" "describes p u"
    and m: "sm_bucket m < fv_num_buckets u" "sm_slot m < fv_bucket_size u"
    and "fv_entry_ok u (sm_new_fingerprint m, sm_new_value_cells m)"
    and "fv_read u (sm_bucket m) (sm_slot m) = Some (sm_old_fingerprint m, sm_old_value_cells m)"
    and "fv_write u (sm_bucket m) (sm_slot m) (sm_new_fingerprint m) (sm_new_value_cells m) = Some u'"
  obtains acc' where "fold_mutation p m acc = Some acc'" "acc_inv p t u' acc'"
proof -
  note st = logged_step_cells [OF assms(4-11)]
  let ?ss = "cp_segment_size p" and ?b = "sm_bucket m" and ?s = "sm_slot m" and ?cps = "fv_cells_per_slot t"
  let ?j = "?b div ?ss" and ?r = "?b mod ?ss" and ?rows = "acc ! (?b div ?ss)"
  let ?entry = "case map_of ?rows ?r of None \<Rightarrow> [] | Some cells \<Rightarrow> cells"
  note g = same_shapeD [OF assms(3)] and d = describesD [OF assms(6)] and g' = same_shapeD [OF st(4)]
  have cps: "cp_cells_per_slot p = ?cps" "row_cells u = row_cells t" "row_cells u' = row_cells t"
    "row_cells t = fv_bucket_size t * ?cps"
    using d(7) [OF assms(4)] g g' by (simp_all add: row_cells_def)
  have ss: "0 < ?ss" using m(1) assms(2) d(1) by (cases ?ss) (auto simp: segments_ok_def)
  have j: "?j < cp_arity p" "?r < ?ss" "?j * ?ss + ?r = ?b"
    using m(1) assms(2) d(1) ss by (simp_all add: segments_ok_def less_mult_imp_div_less)
  have acc: "length acc = cp_arity p" "acc_ok ?ss (row_cells t) ?rows"
    "\<And>k. k < row_cells t \<Longrightarrow> acc_delta ?rows ?r k = cell_diff t u ?b k"
    using assms(1) j by (simp_all add: acc_inv_def)
  have w: "row_cells t \<le> 2 ^ 16" using assms(2) d g cps by (simp add: segments_ok_def)
  have inrow: "?s * ?cps + ?cps \<le> row_cells t"
    using m(2) g mult_le_mono1 [of "Suc ?s" "fv_bucket_size t" ?cps] by (simp add: row_cells_def)
  have len: "length (slot_cells u ?b ?s) = ?cps" "length (slot_cells u' ?b ?s) = ?cps"
    using slot_cells_length(2) [OF assms(4) m] slot_cells_length(2) [OF st(1), of ?b ?s] m g g' by simp_all
  have cell: "uint (slot_cells u' ?b ?s ! c) - uint (slot_cells u ?b ?s ! c) =
      cell_diff t u' ?b (?s * ?cps + c) - cell_diff t u ?b (?s * ?cps + c)" if "c < ?cps" for c
    using tcell_slot [OF assms(4) m, of c] tcell_slot [OF st(1), of ?b ?s c] m g g' that
    by (simp add: cell_diff_def)
  have i64: "i64_ok (bt_delta ?entry (?s * ?cps + c) + (uint (slot_cells u' ?b ?s ! c) - uint (slot_cells u ?b ?s ! c)))"
    if "c < ?cps" for c
    unfolding acc_ok_entry(3) [OF acc(2)] cell [OF that] using acc(3) inrow that cell_diff_i64 by simp
  obtain entry' where entry': "fold_slot ?cps ?s (slot_cells u ?b ?s) (slot_cells u' ?b ?s) ?entry = Some entry'"
    "bt_ok entry'" "\<forall>x \<in> set entry'. fst x < row_cells t"
    "\<And>k. bt_delta entry' k = bt_delta ?entry k + (if ?s * ?cps \<le> k \<and> k < ?s * ?cps + ?cps
      then uint (slot_cells u' ?b ?s ! (k - ?s * ?cps)) - uint (slot_cells u ?b ?s ! (k - ?s * ?cps)) else 0)"
    using fold_slot_spec [OF acc_ok_entry(1,2) [OF acc(2)] len inrow w i64] by blast
  let ?acc = "acc[?j := bt_insert ?r entry' ?rows]"
  have "fold_mutation p m acc = Some ?acc"
    using ss j m d st(5,6) entry'(1) acc(1) cps(1) by (simp add: fold_mutation_def Let_def)
  moreover have "acc_inv p t u' ?acc"
    unfolding acc_inv_def
  proof (intro conjI allI impI)
    fix j' assume j': "j' < cp_arity p"
    show "acc_ok ?ss (row_cells t) (?acc ! j')"
      using acc_ok_insert [OF acc(2) j(2) entry'(2,3)] assms(1) j' acc(1) j(1)
      by (auto simp: nth_list_update acc_inv_def)
    fix r k assume r: "r < ?ss" and k: "k < row_cells t"
    let ?b' = "j' * ?ss + r" and ?s' = "k div ?cps" and ?c = "k mod ?cps"
    have b': "?b' < fv_num_buckets u" using mult_add_less [OF j' r] assms(2) d(1) by (simp add: segments_ok_def)
    have s': "?s' < fv_bucket_size u" "?c < ?cps" "k = ?s' * ?cps + ?c" using row_slot [OF k] g by simp_all
    have same: "?b' = ?b \<longleftrightarrow> j' = ?j \<and> r = ?r"
    proof
      assume e: "?b' = ?b"
      have "?b' div ?ss = j'" "?b' mod ?ss = r" using r by simp_all
      then show "j' = ?j \<and> r = ?r" unfolding e by simp
    qed (use j(3) in simp)
    have old: "acc_delta (acc ! j') r k = cell_diff t u ?b' k" using assms(1) j' r k by (simp add: acc_inv_def)
    show "acc_delta (?acc ! j') r k = cell_diff t u' ?b' k"
    proof (cases "?b' = ?b \<and> ?s' = ?s")
      case True
      have "?s * ?cps \<le> k" "k < ?s * ?cps + ?cps" "k - ?s * ?cps = ?c" using s'(2,3) True by simp_all
      then have "bt_delta entry' k = cell_diff t u' ?b k"
        using entry'(4) [of k] acc_ok_entry(3) [OF acc(2), of ?r k] acc(3) [OF k] cell [OF s'(2)] s'(3) True by simp
      then show ?thesis
        using same True acc(1,2) j(1) by (auto simp: acc_delta_insert acc_ok_def)
    next
      case False
      have "slot_cells u' ?b' ?s' = slot_cells u ?b' ?s'" using st(7) [OF b' s'(1)] False by simp
      then have eq: "cell_diff t u' ?b' k = cell_diff t u ?b' k"
        using tcell_slot [OF assms(4) b' s'(1), of ?c] tcell_slot [OF st(1), of ?b' ?s' ?c] b' s' g g'
        by (simp add: cell_diff_def)
      have "\<not> (?s * ?cps \<le> k \<and> k < ?s * ?cps + ?cps)" if "?b' = ?b"
      proof
        assume "?s * ?cps \<le> k \<and> k < ?s * ?cps + ?cps"
        then have "?s' = ?s" by (intro div_nat_eqI) (simp_all add: mult.commute)
        with False that show False by simp
      qed
      then show ?thesis
        using old eq same acc(1,2) j(1,3) entry'(4) [of k] acc_ok_entry(3) [OF acc(2), of ?r k]
        by (cases "?b' = ?b") (auto simp: acc_delta_insert acc_ok_def nth_list_update)
    qed
  qed (simp add: acc(1))
  ultimately show thesis by (rule that)
qed

text \<open>The deltas of segment \<open>j\<close> between two tables.\<close>

definition deltas_of :: "cuckoo_params \<Rightarrow> fv_table \<Rightarrow> fv_table \<Rightarrow> row_deltas list \<Rightarrow> bool" where
  "deltas_of p t u rds \<longleftrightarrow> length rds = cp_arity p \<and>
     (\<forall>j < cp_arity p. canonical (rds ! j) \<and> edits_ok (cp_segment_size p) (row_cells t) (rds ! j) \<and>
       (\<forall>r < cp_segment_size p. \<forall>k < row_cells t.
          row_delta (rds ! j) r k = cell_diff t u (j * cp_segment_size p + r) k))"

theorem fold_mutations_exact:
  assumes "logged t ms u" "fv_padded t" "describes p t" "segments_ok p"
  obtains rds where "fold_mutations_into_row_deltas ms p = Some rds" "deltas_of p t u rds"
proof -
  have "\<exists>acc. fold_opt (fold_mutation p) ms (replicate (cp_arity p) []) = Some acc \<and> acc_inv p t u acc"
    using assms
  proof (induction rule: logged.induct)
    case (logged_Nil t)
    then show ?case by (simp add: acc_inv_def cell_diff_def)
  next
    case (logged_snoc t ms u m u')
    obtain acc where acc: "fold_opt (fold_mutation p) ms (replicate (cp_arity p) []) = Some acc" "acc_inv p t u acc"
      using logged_snoc.IH logged_snoc.prems by blast
    have u: "same_shape t u" "fv_inv u" "fv_padded u"
      using logged_same_shape logged_inv logged_padded logged_snoc.hyps(1) logged_snoc.prems(1) by blast+
    have "describes p u" using logged_snoc.prems(2) same_shapeD [OF u(1)] by (simp add: describes_def)
    then obtain acc' where "fold_mutation p m acc = Some acc'" "acc_inv p t u' acc'"
      using fold_mutation_step [OF acc(2) logged_snoc.prems(3) u _ logged_snoc.hyps(2,3,4,5) logged_snoc.hyps(7)] by blast
    then show ?case using acc(1) by (simp add: fold_opt_append)
  qed
  then obtain acc where acc: "fold_opt (fold_mutation p) ms (replicate (cp_arity p) []) = Some acc" "acc_inv p t u acc"
    by blast
  have "deltas_of p t u (map emit_rows acc)"
    unfolding deltas_of_def
  proof (intro conjI allI impI)
    fix j assume j: "j < cp_arity p"
    then have ok: "acc_ok (cp_segment_size p) (row_cells t) (acc ! j)" "j < length acc"
      using acc(2) by (simp_all add: acc_inv_def)
    show "canonical (map emit_rows acc ! j)" "edits_ok (cp_segment_size p) (row_cells t) (map emit_rows acc ! j)"
      using emit_rows_canonical [OF ok(1)] ok(2) by simp_all
    show "row_delta (map emit_rows acc ! j) r k = cell_diff t u (j * cp_segment_size p + r) k"
      if "r < cp_segment_size p" "k < row_cells t" for r k
      using row_delta_emit [OF ok(1)] ok(2) acc(2) j that by (simp add: acc_inv_def)
  qed (use acc(2) in \<open>simp add: acc_inv_def\<close>)
  with acc(1) show thesis by (intro that) (simp add: fold_mutations_into_row_deltas_def)
qed

text \<open>Entries of canonical deltas, and their size: a cell of \<open>pb\<close> bits changes by less than \<open>2 ^ pb\<close>.\<close>

lemma canonical_entry:
  assumes "canonical rd" "(r, cells) \<in> set rd" "(k, d) \<in> set cells"
  shows "row_delta rd r k = d" "d \<noteq> 0"
proof -
  have c: "bt_ok rd" "bt_ok cells" "d \<noteq> 0" using assms by (force simp: canonical_def)+
  have "row_delta rd r k = (\<Sum>(r', e) \<leftarrow> map (\<lambda>(r', cells). (r', cell_delta cells k)) rd. if r' = r then e else 0)"
    by (simp add: row_delta_def split_def comp_def cong: if_cong)
  also have "\<dots> = bt_delta (map (\<lambda>(r', cells). (r', cell_delta cells k)) rd) r"
    using c(1) by (intro bt_delta_sum) (simp add: bt_ok_def comp_def split_def)
  also have "\<dots> = cell_delta cells k"
    using c(1) assms(2) by (intro bt_delta_in) (force simp: bt_ok_def comp_def split_def)+
  also have "\<dots> = d" using c(2) assms(3) by (simp add: cell_delta_bt bt_delta_in)
  finally show "row_delta rd r k = d" .
  show "d \<noteq> 0" by (rule c(3))
qed

lemma fits_uint: "fits n w \<Longrightarrow> uint w < 2 ^ n"
  by (metis fits_def take_bit_int_less_exp unsigned_take_bit_eq)

lemma deltas_of_bound:
  assumes "deltas_of p t u rds" "j < cp_arity p" "(r, cells) \<in> set (rds ! j)" "(k, d) \<in> set cells"
    and "segments_ok p" "describes p t" "fv_inv t" "fv_inv u" "same_shape t u"
  shows "\<bar>d\<bar> < 2 ^ cp_plaintext_bits p"
proof -
  let ?b = "j * cp_segment_size p + r"
  have rd: "canonical (rds ! j)" "edits_ok (cp_segment_size p) (row_cells t) (rds ! j)"
    using assms(1,2) by (simp_all add: deltas_of_def)
  have rk: "r < cp_segment_size p" "k < row_cells t" using rd(2) assms(3,4) by (force simp: edits_ok_def)+
  have d: "d = cell_diff t u ?b k"
    using canonical_entry(1) [OF rd(1) assms(3,4)] rk assms(1,2) by (simp add: deltas_of_def)
  note g = same_shapeD [OF assms(9)]
  have "?b < fv_num_buckets t"
    using mult_add_less [OF assms(2) rk(1)] assms(5,6) by (simp add: segments_ok_def describes_def)
  then have "?b * row_cells t + k < fv_num_buckets t * row_cells t" using mult_add_less rk(2) by blast
  then have "?b * row_cells t + k < length (fv_cells t)" "?b * row_cells t + k < length (fv_cells u)"
    using assms(7,8) g by (simp_all add: fv_inv_def row_cells_def mult.assoc)
  then have "fits (fv_plaintext_bits t) (tcell t ?b k)" "fits (fv_plaintext_bits t) (tcell u ?b k)"
    using assms(7,8) g by (simp_all add: tcell_def fv_inv_def cells_ok_def row_cells_def)
  then have "uint (tcell t ?b k) < 2 ^ fv_plaintext_bits t" "uint (tcell u ?b k) < 2 ^ fv_plaintext_bits t"
    using fits_uint by blast+
  moreover have "0 \<le> uint (tcell t ?b k)" "0 \<le> uint (tcell u ?b k)" by simp_all
  ultimately show ?thesis
    using assms(6) unfolding d cell_diff_def by (simp only: abs_less_iff describes_def) linarith
qed

end
