(* ===== verification/KV_Insert.thy ===== *)
theory KV_Insert
  imports KV_Correct
begin

text \<open>
  The insert of \<open>segmented-cuckoo/src/store.rs\<close>: direct placement, the kick loop and its rollback.
  The loop invariant \<open>kick_ok\<close> ties the table to the evictions made so far, the buffers that
  record them and the entry in flight; each iteration keeps it, so the loop ends either in a
  commit whose log is exactly the writes made, or in the table it started from.
\<close>

section \<open>Insert\<close>

text \<open>
  The state of the kick loop: \<open>ms\<close> are the evictions so far, recorded in the chain buffers for the
  rollback and, when the log is on, as pending mutations. The entry in flight has been evicted
  (or is the new one): with it, the table's bag is the old bag and the new entry.
\<close>

definition kick_ok ::
  "fv_table \<Rightarrow> slot_mutation list \<Rightarrow> entry \<Rightarrow> kv_store \<Rightarrow> u32 \<Rightarrow> u64 \<Rightarrow> nat \<Rightarrow> bool" where
  "kick_ok t0 ms new st ci fp rem \<longleftrightarrow>
     kv_inv st \<and> logged t0 ms (kv_table st) \<and> length ms + rem = kv_max_kicks st \<and>
     kv_chain_meta st = map (\<lambda>m. (sm_bucket m, sm_slot m, sm_old_fingerprint m)) ms \<and>
     (\<forall>k < length ms. slice_opt (kv_chain_values st) (k * kv_value_size_in_cells st)
        (kv_value_size_in_cells st) = Some (sm_old_value_cells (ms ! k))) \<and>
     kv_pending_mutations st = (if kv_mutation_log st \<noteq> None then ms else []) \<and>
     fp \<noteq> 0 \<and> fv_entry_ok (kv_table st) (fp, kv_cur_value st) \<and>
     unat ci < fv_num_buckets (kv_table st) \<and>
     (\<forall>s < fv_bucket_size (kv_table st). fp_at (kv_table st) (unat ci) s \<noteq> 0) \<and>
     kv_bag st + {# (candidates (kv_scheme st) ci fp, fp, kv_cur_value st) #} =
       fv.bag (kv_entry (kv_scheme st)) t0 + {# new #}"

lemma kv_rollback_undo:
  assumes "\<forall>k < length ms. slice_opt chain (k * vcells) vcells = Some (sm_old_value_cells (ms ! k))"
    and "n \<le> length ms"
  shows "kv_rollback (rev [0..<n]) (map (\<lambda>m. (sm_bucket m, sm_slot m, sm_old_fingerprint m)) ms) chain vcells t =
    fv.undo (undo_entries (take n ms)) t"
  using assms(2)
proof (induction n arbitrary: t)
  case (Suc n)
  then have "take (Suc n) ms = take n ms @ [ms ! n]" by (simp add: take_Suc_conv_app_nth)
  then show ?case using Suc assms(1) by (simp add: undo_entries_def)
qed (simp add: undo_entries_def)

lemma kick_rollback:
  assumes "kick_ok t0 ms new st ci fp rem"
  shows "kv_rollback (rev [0..<length (kv_chain_meta st)]) (kv_chain_meta st) (kv_chain_values st)
    (kv_value_size_in_cells st) (kv_table st) = Some t0"
proof -
  have "fv.undo (undo_entries ms) (kv_table st) = Some t0"
    using assms fv.kicked_undo [OF logged_kicked] by (simp add: kick_ok_def)
  then show ?thesis
    using assms kv_rollback_undo [of ms _ _ "length ms"] by (simp add: kick_ok_def)
qed

text \<open>The contract of the random number generator.\<close>

definition draw_ok :: "(nat \<Rightarrow> 'g \<Rightarrow> nat \<times> 'g) \<Rightarrow> bool" where
  "draw_ok draw \<longleftrightarrow> (\<forall>n g. 0 < n \<longrightarrow> fst (draw n g) < n)"

lemma random_range_ok:
  assumes "draw_ok draw" "0 < n"
  obtains k g' where "random_range draw n g = Some (k, g')" "k < n"
  using assms by (cases "draw n g") (auto simp: random_range_def draw_ok_def dest!: spec [of _ n] spec [of _ g])

lemma alternatives_pos: "2 \<le> ar \<Longrightarrow> 0 < length [p \<leftarrow> [0..<ar]. p \<noteq> e]"
proof -
  assume "2 \<le> ar"
  then have "(if e = 0 then 1 else 0) \<in> set [p \<leftarrow> [0..<ar]. p \<noteq> e]" by auto
  then show ?thesis by (metis length_pos_if_in_set)
qed

text \<open>Evicting a slot keeps the loop state; the candidates of the evicted entry are one set.\<close>

lemma kick_evict_spec:
  assumes ok: "kick_ok t0 ms new st ci fp (Suc n)" and draw: "draw_ok draw"
  obtains st1 g1 fp' all m where
    "kick_evict draw st g ci fp = Some (st1, g1, fp', all)"
    "length all = 4" "kv_frame st st1" "kv_mutation_log st1 = kv_mutation_log st"
    "kv_num_items st1 = kv_num_items st"
    "\<And>p. p < arity (kv_scheme st) \<Longrightarrow> unat (all ! p) < fv_num_buckets (kv_table st1)"
    "\<And>p. p < arity (kv_scheme st) \<Longrightarrow> candidates (kv_scheme st1) (all ! p) fp' =
       candidates (kv_scheme st1) ci fp'"
    "\<And>ci'. unat ci' < fv_num_buckets (kv_table st1) \<Longrightarrow>
       candidates (kv_scheme st1) ci' fp' = candidates (kv_scheme st1) ci fp' \<Longrightarrow>
       \<forall>s < fv_bucket_size (kv_table st1). fp_at (kv_table st1) (unat ci') s \<noteq> 0 \<Longrightarrow>
       kick_ok t0 (ms @ [m]) new st1 ci' fp' n"
    "kick_ok t0 (ms @ [m]) new st1 ci fp' n"
proof -
  let ?t = "kv_table st" and ?sc = "kv_scheme st" and ?vc = "kv_value_size_in_cells st"
  let ?chain = "kv_chain_values st" and ?b = "unat ci"
  have inv: "kv_inv st" and log: "logged t0 ms ?t" and len: "length ms + Suc n = kv_max_kicks st"
    and meta: "kv_chain_meta st = map (\<lambda>m. (sm_bucket m, sm_slot m, sm_old_fingerprint m)) ms"
    and chain: "\<And>k. k < length ms \<Longrightarrow> slice_opt ?chain (k * ?vc) ?vc = Some (sm_old_value_cells (ms ! k))"
    and pend: "kv_pending_mutations st = (if kv_mutation_log st \<noteq> None then ms else [])"
    and fp: "fp \<noteq> 0" and eok: "fv_entry_ok ?t (fp, kv_cur_value st)"
    and ci: "?b < fv_num_buckets ?t" and full: "\<forall>s < fv_bucket_size ?t. fp_at ?t ?b s \<noteq> 0"
    and bag: "kv_bag st + {# (candidates ?sc ci fp, fp, kv_cur_value st) #} =
       fv.bag (kv_entry ?sc) t0 + {# new #}"
    using ok unfolding kick_ok_def by blast+
  have tinv: "fv_inv ?t" and val: "valid_scheme ?sc" and nb: "fv_num_buckets ?t = scheme_buckets ?sc"
    and bs: "0 < fv_bucket_size ?t" and cl: "length (kv_cur_value st) = ?vc"
    and chl: "length ?chain = kv_max_kicks st * ?vc"
    using inv by (auto simp: kv_inv_def)
  obtain slot g1 where sl: "random_range draw (fv_bucket_size ?t) g = Some (slot, g1)" "slot < fv_bucket_size ?t"
    using random_range_ok [OF draw bs] .
  define fp' where "fp' = fp_at ?t ?b slot"
  define ov where "ov = snd (fv.view ?t (?b, slot))"
  have rd: "fv_read ?t ?b slot = Some (fp', ov)" "fv_entry_ok ?t (fp', ov)"
    using fv_view [OF tinv ci sl(2)] by (simp_all add: fp'_def ov_def)
  have parts: "fv_read_fingerprint ?t ?b slot = Some fp'" "fv_read_value ?t ?b slot ?vc = Some ov"
    using fv_read_parts [OF tinv ci sl(2)] by (simp_all add: fp'_def ov_def kv_value_size_in_cells_def)
  have fp': "fp' \<noteq> 0" using full sl(2) by (simp add: fp'_def)
  have lov: "length ov = ?vc" using fv_entry_ok_len [OF rd(2)] by (simp add: kv_value_size_in_cells_def)
  have room: "length ms * ?vc + ?vc \<le> length ?chain"
  proof -
    have "Suc (length ms) * ?vc \<le> kv_max_kicks st * ?vc" using len by (intro mult_le_mono1) simp
    then show ?thesis using chl by simp
  qed
  obtain t1 where w: "fv_write ?t ?b slot fp (kv_cur_value st) = Some t1"
    using fv.wr_total [OF tinv ci sl(2) eok] by auto
  obtain all where all: "all_indices ?sc ci fp' = Some all" "length all = 4"
    using ix.alts_total [OF val, of ci fp'] ci nb by auto
  define chain1 where "chain1 = take (length ms * ?vc) ?chain @ ov @ drop (length ms * ?vc + length ov) ?chain"
  have sp: "splice_opt ?chain (length ms * ?vc) ov = Some chain1"
    using room lov by (simp add: splice_opt_def chain1_def)
  have sl1: "slice_opt ?chain (length ms * ?vc) ?vc \<noteq> None" using room by (simp add: slice_opt_def)
  define m where "m = \<lparr> sm_bucket = ?b, sm_slot = slot, sm_old_fingerprint = fp',
    sm_new_fingerprint = fp, sm_old_value_cells = ov, sm_new_value_cells = kv_cur_value st \<rparr>"
  define st1 where "st1 = st\<lparr> kv_table := t1, kv_chain_values := chain1,
    kv_chain_meta := kv_chain_meta st @ [(?b, slot, fp')],
    kv_pending_mutations := (if kv_mutation_log st \<noteq> None then kv_pending_mutations st @ [m]
      else kv_pending_mutations st), kv_cur_value := ov \<rparr>"
  have ev: "kick_evict draw st g ci fp = Some (st1, g1, fp', all)"
    using sl sl1 parts sp w all lov cl meta
    by (auto simp: kick_evict_def st1_def m_def Let_def)
  have l1: "logged ?t [m] t1"
    unfolding m_def using fp by (intro logged_single [OF tinv ci sl(2) eok rd(1) _ w]) simp
  note sh = same_shapeD [OF logged_same_shape [OF l1]]
  have frame: "kv_frame st st1"
    using logged_same_shape [OF l1] lov cl splice_opt_length [OF sp]
    by (simp add: kv_frame_def st1_def)
  have inv1: "kv_inv st1"
    using l1 by (intro kv_logged_inv [OF inv frame, of "[m]"]) (simp add: st1_def)
  have bag1: "kv_bag st1 + {# (candidates ?sc ci fp', fp', ov) #} = kv_bag st + {# (candidates ?sc ci fp, fp, kv_cur_value st) #}"
    using kv_bag_write [OF tinv ci sl(2) eok rd(1) w, of ?sc] fp fp'
    by (simp add: kv_bag_def kv_entry_def st1_def)
  have vc1: "kv_value_size_in_cells st1 = ?vc" by (rule kv_frame_vcells [OF frame])
  have step: "kick_ok t0 (ms @ [m]) new st1 ci' fp' n"
    if c: "unat ci' < fv_num_buckets (kv_table st1)"
      "candidates (kv_scheme st1) ci' fp' = candidates (kv_scheme st1) ci fp'"
      "\<forall>s < fv_bucket_size (kv_table st1). fp_at (kv_table st1) (unat ci') s \<noteq> 0" for ci'
    unfolding kick_ok_def
  proof (intro conjI allI impI)
    show "kv_inv st1" by (rule inv1)
    show "logged t0 (ms @ [m]) (kv_table st1)" using logged_append [OF l1 log] by (simp add: st1_def)
    show "length (ms @ [m]) + n = kv_max_kicks st1" using len by (simp add: st1_def)
    show "kv_chain_meta st1 = map (\<lambda>m. (sm_bucket m, sm_slot m, sm_old_fingerprint m)) (ms @ [m])"
      using meta by (simp add: st1_def m_def)
    show "slice_opt (kv_chain_values st1) (k * kv_value_size_in_cells st1) (kv_value_size_in_cells st1) =
        Some (sm_old_value_cells ((ms @ [m]) ! k))" if "k < length (ms @ [m])" for k
    proof (cases "k < length ms")
      case True
      have "Suc k * ?vc \<le> length ms * ?vc" using True by (intro mult_le_mono1) simp
      then have "slice_opt chain1 (k * ?vc) ?vc = slice_opt ?chain (k * ?vc) ?vc"
        by (intro slice_splice_before [OF sp]) simp
      then show ?thesis using chain [OF True] True vc1 by (simp add: st1_def nth_append)
    next
      case False
      then have "k = length ms" using that by simp
      then show ?thesis using slice_splice_same [OF sp] lov vc1 by (simp add: st1_def m_def nth_append)
    qed
    show "kv_pending_mutations st1 = (if kv_mutation_log st1 \<noteq> None then ms @ [m] else [])"
      using pend by (simp add: st1_def)
    show "fv_entry_ok (kv_table st1) (fp', kv_cur_value st1)"
      using rd(2) fv_entry_ok_shape [OF logged_same_shape [OF l1]] by (simp add: st1_def)
    show "kv_bag st1 + {# (candidates (kv_scheme st1) ci' fp', fp', kv_cur_value st1) #} =
       fv.bag (kv_entry (kv_scheme st1)) t0 + {# new #}"
      using bag1 bag c(2) by (simp add: st1_def)
  qed (use c fp' in simp_all)
  have full1: "fp_at (kv_table st1) ?b s \<noteq> 0" if "s < fv_bucket_size ?t" for s
  proof (cases "s = slot")
    case True
    have "fv_read t1 ?b slot = Some (fp, kv_cur_value st)"
      using fv.rd_wr_same [OF tinv ci sl(2) eok] w by simp
    then show ?thesis using fv.view_eq fp True by (simp add: st1_def)
  next
    case False
    then have "fv_read t1 ?b s = fv_read ?t ?b s"
      using fv.rd_wr_other [OF tinv ci sl(2) eok _ ci that] w by simp
    then show ?thesis using full that by (simp add: st1_def fv.view_def)
  qed
  show thesis
  proof (rule that [OF ev all(2) frame])
    show "kv_mutation_log st1 = kv_mutation_log st" "kv_num_items st1 = kv_num_items st"
      by (simp_all add: st1_def)
    show "unat (all ! p) < fv_num_buckets (kv_table st1)" if "p < arity ?sc" for p
      using ix.alts_nth(2) [OF val, of ci fp' all p] ci nb all(1) that sh by (simp add: st1_def)
    show "candidates (kv_scheme st1) (all ! p) fp' = candidates (kv_scheme st1) ci fp'"
      if "p < arity ?sc" for p
      using ix.alts_nth(3) [OF val, of ci fp' all p] ci nb all(1) that by (simp add: st1_def)
    show "kick_ok t0 (ms @ [m]) new st1 ci fp' n"
      using step [of ci] ci full1 sh by (simp add: st1_def)
  qed (rule step)
qed

text \<open>The loop ends in a commit or in a complete rollback, whatever the random choices.\<close>

definition kick_outcome ::
  "fv_table \<Rightarrow> entry \<Rightarrow> kv_store \<Rightarrow> cuckoo_error + unit \<Rightarrow> kv_store \<Rightarrow> bool" where
  "kick_outcome t0 new st r st' \<longleftrightarrow> kv_frame st st' \<and>
     (r = Inl TableFull \<and> kv_table st' = t0 \<and> kv_mutation_log st' = kv_mutation_log st \<and>
        kv_num_items st' = kv_num_items st \<or>
      r = Inr () \<and> kv_num_items st' = kv_num_items st + 1 \<and>
        kv_bag st' = fv.bag (kv_entry (kv_scheme st)) t0 + {# new #} \<and>
        (\<exists>ms. logged t0 ms (kv_table st') \<and>
           kv_mutation_log st' = map_option (\<lambda>log. log @ ms) (kv_mutation_log st)))"

lemma kick_outcome_trans:
  assumes "kick_outcome t0 new st1 r st'" "kv_frame st st1" "kv_mutation_log st1 = kv_mutation_log st"
    "kv_num_items st1 = kv_num_items st"
  shows "kick_outcome t0 new st r st'"
proof -
  have "kv_frame st st'" using kv_frame_trans [OF assms(2)] assms(1) by (simp add: kick_outcome_def)
  moreover have "kv_scheme st1 = kv_scheme st" using assms(2) by (simp add: kv_frame_def)
  ultimately show ?thesis using assms(1,3,4) by (simp add: kick_outcome_def)
qed

lemma zeroed_read:
  assumes "kv_inv st" "b < fv_num_buckets (kv_table st)" "s < fv_bucket_size (kv_table st)"
    "fp_at (kv_table st) b s = 0"
  shows "fv_read (kv_table st) b s = Some (0, replicate (kv_value_size_in_cells st) 0)"
proof -
  have "fv.view (kv_table st) (b, s) = (0, replicate (kv_value_size_in_cells st) 0)"
    using assms by (simp add: kv_inv_def fv_zeroed_def kv_value_size_in_cells_def prod_eq_iff)
  then show ?thesis using fv_view(1) [OF _ assms(2,3)] assms(1) by (simp add: kv_inv_def)
qed

text \<open>Placing an entry in an empty slot, with its log record.\<close>

lemma placement_logged:
  assumes "kv_inv st" "b < fv_num_buckets (kv_table st)" "s < fv_bucket_size (kv_table st)"
    "fp_at (kv_table st) b s = 0" "fp \<noteq> 0" "fv_entry_ok (kv_table st) (fp, v)"
    "fv_write (kv_table st) b s fp v = Some t'"
  shows "logged (kv_table st) [placement_mutation b s fp (kv_value_size_in_cells st) v] t'"
    and "fv.bag (kv_entry (kv_scheme st)) t' =
      kv_bag st + {# (candidates (kv_scheme st) (of_nat b) fp, fp, v) #}"
proof -
  have tinv: "fv_inv (kv_table st)" using assms(1) by (simp add: kv_inv_def)
  note rd = zeroed_read [OF assms(1-4)]
  show "logged (kv_table st) [placement_mutation b s fp (kv_value_size_in_cells st) v] t'"
    unfolding placement_mutation_def using assms(5)
    by (intro logged_single [OF tinv assms(2,3,6) rd _ assms(7)]) simp
  show "fv.bag (kv_entry (kv_scheme st)) t' =
      kv_bag st + {# (candidates (kv_scheme st) (of_nat b) fp, fp, v) #}"
    using kv_bag_write [OF tinv assms(2,3,6) rd assms(7), of "kv_scheme st"] assms(5)
    by (simp add: kv_entry_def kv_bag_def)
qed

lemma kick_loop_spec:
  assumes "kick_ok t0 ms new st ci fp n" "draw_ok draw"
  shows "\<exists>r st' g'. kick_loop n draw st g ci fp = Some (r, st', g') \<and> kick_outcome t0 new st r st'"
  using assms
proof (induction n arbitrary: ms st g ci fp)
  case 0
  have "kv_frame st (st\<lparr> kv_table := t0, kv_pending_mutations := [] \<rparr>)"
  proof -
    have "same_shape t0 (kv_table st)" using 0 logged_same_shape by (simp add: kick_ok_def) blast
    then have "same_shape (kv_table st) t0" by (cases t0; cases "kv_table st") (simp add: same_shape_def)
    then show ?thesis by (simp add: kv_frame_def)
  qed
  then show ?case using kick_rollback [OF 0(1)] by (simp add: kick_outcome_def)
next
  case (Suc n)
  obtain st1 g1 fp' all m where ev: "kick_evict draw st g ci fp = Some (st1, g1, fp', all)"
    and all: "length all = 4" and frame: "kv_frame st st1"
    and log: "kv_mutation_log st1 = kv_mutation_log st" and items: "kv_num_items st1 = kv_num_items st"
    and bkt: "\<And>p. p < arity (kv_scheme st) \<Longrightarrow> unat (all ! p) < fv_num_buckets (kv_table st1)"
    and cand: "\<And>p. p < arity (kv_scheme st) \<Longrightarrow> candidates (kv_scheme st1) (all ! p) fp' =
       candidates (kv_scheme st1) ci fp'"
    and step: "\<And>ci'. unat ci' < fv_num_buckets (kv_table st1) \<Longrightarrow>
       candidates (kv_scheme st1) ci' fp' = candidates (kv_scheme st1) ci fp' \<Longrightarrow>
       \<forall>s < fv_bucket_size (kv_table st1). fp_at (kv_table st1) (unat ci') s \<noteq> 0 \<Longrightarrow>
       kick_ok t0 (ms @ [m]) new st1 ci' fp' n"
    and ok1: "kick_ok t0 (ms @ [m]) new st1 ci fp' n"
    using kick_evict_spec [OF Suc.prems] by metis
  let ?ar = "arity (kv_scheme st)"
  let ?alts = "[p \<leftarrow> [0..<?ar]. p \<noteq> evicted_position ?ar all ci]"
  have inv: "kv_inv st1" and fp': "fp' \<noteq> 0" and eok: "fv_entry_ok (kv_table st1) (fp', kv_cur_value st1)"
    and lg: "logged t0 (ms @ [m]) (kv_table st1)"
    and pend: "kv_pending_mutations st1 = (if kv_mutation_log st1 \<noteq> None then ms @ [m] else [])"
    and bag: "kv_bag st1 + {# (candidates (kv_scheme st1) ci fp', fp', kv_cur_value st1) #} =
       fv.bag (kv_entry (kv_scheme st1)) t0 + {# new #}"
    using ok1 unfolding kick_ok_def by blast+
  have tinv: "fv_inv (kv_table st1)" using inv by (simp add: kv_inv_def)
  have sc: "kv_scheme st1 = kv_scheme st" using frame by (simp add: kv_frame_def)
  have ar: "2 \<le> ?ar" "?ar \<le> 4" using scheme_arity_range by blast+
  have alts: "\<forall>p \<in> set ?alts. p < length all \<and> unat (all ! p) < fv_num_buckets (kv_table st1)"
    using all ar(2) bkt by simp
  show ?case
  proof (cases rule: place_in_cases [OF tinv fp' eok alts])
    case (1 p slot t')
    have p: "p < ?ar" using 1(2) by simp
    let ?b = "unat (all ! p)"
    note pl = placement_logged [OF inv bkt [OF p] 1(3,4) fp' eok 1(5)]
    let ?pm = "placement_mutation ?b slot fp' (kv_value_size_in_cells st1) (kv_cur_value st1)"
    let ?st' = "kick_commit st1 t' ?b slot fp'"
    have tab: "kv_table ?st' = t'" "kv_num_items ?st' = kv_num_items st + 1"
      "kv_scheme ?st' = kv_scheme st" "kv_max_kicks ?st' = kv_max_kicks st1"
      "kv_cur_value ?st' = kv_cur_value st1" "kv_chain_values ?st' = kv_chain_values st1"
      using items sc by (simp_all add: kick_commit_def Let_def split: option.splits)
    have "kv_frame st1 ?st'" using logged_same_shape [OF pl(1)] tab sc by (simp add: kv_frame_def)
    then have "kv_frame st ?st'" using kv_frame_trans [OF frame] by blast
    moreover have "kv_bag ?st' = fv.bag (kv_entry (kv_scheme st)) t0 + {# new #}"
      using pl(2) bag cand [OF p] sc tab by (simp add: kv_bag_def)
    moreover have "logged t0 ((ms @ [m]) @ [?pm]) (kv_table ?st')"
      using logged_append [OF pl(1) lg] tab(1) by simp
    moreover have "kv_mutation_log ?st' = map_option (\<lambda>log. log @ (ms @ [m]) @ [?pm]) (kv_mutation_log st)"
      using log pend by (auto simp: kick_commit_def Let_def split: option.splits)
    ultimately have "kick_outcome t0 new st (Inr ()) ?st'"
      using tab(2) unfolding kick_outcome_def by blast
    then show ?thesis using ev 1(1) by (simp add: Let_def)
  next
    case 2
    obtain k g2 where rr: "random_range draw (length ?alts) g1 = Some (k, g2)" "k < length ?alts"
      using random_range_ok [OF Suc.prems(2) alternatives_pos [OF ar(1)]] .
    define q where "q = ?alts ! k"
    have q: "q \<in> set ?alts" "nth_opt ?alts k = Some q" using nth_mem [OF rr(2)] rr(2) by (simp_all add: q_def)
    then have qa: "q < ?ar" by simp
    have "kick_ok t0 (ms @ [m]) new st1 (all ! q) fp' n"
      using 2(2) q(1) by (intro step bkt [OF qa] cand [OF qa]) blast
    from Suc.IH [OF this Suc.prems(2), of g2] obtain r st' g' where
      "kick_loop n draw st1 g2 (all ! q) fp' = Some (r, st', g')" "kick_outcome t0 new st1 r st'" by blast
    moreover have "st1\<lparr> kv_table := kv_table st1 \<rparr> = st1" by simp
    ultimately show ?thesis
      using ev 2(1) rr(1) q(2) qa all ar(2) kick_outcome_trans [OF _ frame log items]
      by (simp add: Let_def)
  qed
qed

section \<open>The insert contract\<close>

theorem kv_insert_spec:
  assumes inv: "kv_inv st" and draw: "draw_ok draw" and len: "length val = kv_value_size_in_bytes st"
  shows "\<exists>r st' g'. kv_insert xxh draw st g key val = Some (r, st', g') \<and>
    (r = Inl TableFull \<and> kv_frame st st' \<and> kv_table st' = kv_table st \<and>
       kv_mutation_log st' = kv_mutation_log st \<and> kv_num_items st' = kv_num_items st \<or>
     r = Inr () \<and> kv_num_items st' = kv_num_items st + 1 \<and> (\<exists>ms. kv_committed st st' ms) \<and>
       (\<exists>v. kv_decodes st v (trim_bytes (fv_value_bits (kv_table st)) val) \<and>
          kv_bag st' = kv_bag st + {# (fst (key_tag xxh st key), snd (key_tag xxh st key), v) #}))"
proof -
  let ?t = "kv_table st" and ?ar = "arity (kv_scheme st)"
  obtain fp idx where h: "hash_item xxh (kv_scheme st) key (fv_fingerprint_bits ?t) = (fp, idx)" by fastforce
  have tinv: "fv_inv ?t" using inv by (simp add: kv_inv_def)
  have ar: "2 \<le> ?ar" "?ar \<le> 4" using scheme_arity_range by blast+
  obtain v where v: "pack_value_bytes_to_cells val (kv_cur_value st) (fv_value_bits ?t)
      (fv_plaintext_bits ?t) = Some v" "value_ok (fv_value_bits ?t) (fv_plaintext_bits ?t) v"
    "length v = kv_value_size_in_cells st" "kv_decodes st v (trim_bytes (fv_value_bits ?t) val)"
    using kv_pack [OF inv len] by blast
  note hk = kv_hash [OF inv h]
  have eok: "fv_entry_ok ?t (fp, v)" using hk(2) v(2) by (simp add: fv_entry_ok_def)
  have tag: "key_tag xxh st key = (candidates (kv_scheme st) (idx ! p) fp, fp)" if "p < ?ar" for p
    using hk(5) [OF that] by (simp add: key_tag_def h)
  have ps: "\<forall>p \<in> set [0..<?ar]. p < length idx \<and> unat (idx ! p) < fv_num_buckets ?t"
    using hk(4,6) by simp
  show ?thesis
  proof (cases rule: place_in_cases [OF tinv hk(1) eok ps])
    case (1 p slot t')
    have p: "p < ?ar" using 1(2) by simp
    note pl = placement_logged [OF inv hk(4) [OF p] 1(3,4) hk(1) eok 1(5)]
    let ?pm = "placement_mutation (unat (idx ! p)) slot fp (kv_value_size_in_cells st) v"
    define st' where "st' = st\<lparr> kv_cur_value := v, kv_table := t', kv_num_items := kv_num_items st + 1,
      kv_mutation_log := map_option (\<lambda>log. log @ [?pm]) (kv_mutation_log st) \<rparr>"
    have "kv_insert xxh draw st g key val = Some (Inr (), st', g)"
      using len h v(1) 1(1) by (simp add: kv_insert_def Let_def st'_def)
    moreover have "kv_committed st st' [?pm]"
      using pl(1) logged_same_shape [OF pl(1)] v(3) inv
      by (simp add: kv_committed_def kv_frame_def st'_def kv_inv_def)
    moreover have "kv_bag st' = kv_bag st + {# (fst (key_tag xxh st key), snd (key_tag xxh st key), v) #}"
      using pl(2) tag [OF p] by (simp add: kv_bag_def st'_def)
    moreover have "kv_num_items st' = kv_num_items st + 1" by (simp add: st'_def)
    ultimately show ?thesis using v(4) by blast
  next
    case 2
    have "0 < ?ar" using ar by simp
    then obtain sp g1 where rr: "random_range draw ?ar g = Some (sp, g1)" "sp < ?ar"
      using random_range_ok [OF draw] by metis
    let ?new = "(candidates (kv_scheme st) (idx ! sp) fp, fp, v)"
    define st1 where "st1 = st\<lparr> kv_cur_value := v, kv_chain_meta := [], kv_pending_mutations := [] \<rparr>"
    have "kv_inv st1" using inv v(3) by (simp add: st1_def kv_inv_def kv_value_size_in_cells_def)
    then have "kick_ok ?t [] ?new st1 (idx ! sp) fp (kv_max_kicks st)"
      using hk(1,4) eok rr(2) 2(2) logged_Nil [OF tinv] by (simp add: kick_ok_def st1_def kv_bag_def)
    from kick_loop_spec [OF this draw, of g1] obtain r st' g' where
      kl: "kick_loop (kv_max_kicks st) draw st1 g1 (idx ! sp) fp = Some (r, st', g')"
      and out: "kick_outcome ?t ?new st1 r st'" by blast
    have "kv_insert xxh draw st g key val = Some (r, st', g')"
      using len h v(1) 2(1) rr hk(6) [OF rr(2)] kl by (simp add: kv_insert_def Let_def st1_def)
    moreover have "kv_frame st st'"
      using out v(3) inv by (auto simp: kick_outcome_def kv_frame_def st1_def kv_inv_def)
    moreover have "kv_bag st = fv.bag (kv_entry (kv_scheme st1)) ?t" by (simp add: kv_bag_def st1_def)
    ultimately show ?thesis
      using out v(4) tag [OF rr(2)] by (auto simp: kick_outcome_def kv_committed_def st1_def)
  qed
qed

end
