(* ===== verification/KV_Contract.thy ===== *)
theory KV_Contract
  imports KV_Insert
begin

text \<open>
  The contract of \<open>CuckooKVStore\<close>: constructors, the abstract machine on bags of entries that the
  operations refine, replay of the mutation log, and snapshot and restore.
\<close>

section \<open>Constructors\<close>

lemma power_of_two_scheme:
  assumes "is_power_of_two n" "k * n < 2 ^ 32" "2 \<le> k"
  shows "seg_ok k (of_nat n)" "unat (of_nat n :: u32) = n"
proof -
  have n: "n < 2 ^ 32" using assms(2,3) by (cases k) auto
  obtain t where t: "n = 2 ^ t" using assms(1) by (auto simp: is_power_of_two_def)
  then have "(2::nat) ^ t < 2 ^ 32" using n by (simp only:)
  then have "t < 32" by (rule power_less_imp_less_exp [rotated]) simp
  moreover show u: "unat (of_nat n :: u32) = n" using n by (simp add: unat_of_nat)
  ultimately show "seg_ok k (of_nat n)" unfolding seg_ok_def u using t assms(2) by blast
qed

text \<open>The geometry checks of the constructors give a valid scheme over the table's buckets.\<close>

lemma constructor_scheme:
  assumes "nb < 2 ^ 32"
  shows "is_power_of_two nb \<Longrightarrow> 2 \<le> nb \<Longrightarrow> valid_scheme (Segmented2aryScheme (of_nat (nb div 2))) \<and>
      scheme_buckets (Segmented2aryScheme (of_nat (nb div 2))) = nb"
    and "nb mod 3 = 0 \<Longrightarrow> is_power_of_two (nb div 3) \<Longrightarrow> valid_scheme (Segmented3aryScheme (of_nat (nb div 3))) \<and>
      scheme_buckets (Segmented3aryScheme (of_nat (nb div 3))) = nb"
    and "is_power_of_two nb \<Longrightarrow> 4 \<le> nb \<Longrightarrow> valid_scheme (Segmented4aryScheme (of_nat (nb div 4))) \<and>
      scheme_buckets (Segmented4aryScheme (of_nat (nb div 4))) = nb"
proof -
  show "valid_scheme (Segmented2aryScheme (of_nat (nb div 2))) \<and>
      scheme_buckets (Segmented2aryScheme (of_nat (nb div 2))) = nb" if p: "is_power_of_two nb" "2 \<le> nb"
  proof -
    obtain t where t: "nb = 2 ^ t" "t < 64" using p(1) by (auto simp: is_power_of_two_def)
    then obtain u where u: "t = Suc u" using p(2) by (cases t) auto
    have h: "nb div 2 = 2 ^ u" "nb = 2 * (nb div 2)" using t u by simp_all
    have "is_power_of_two (nb div 2)" using h(1) t(2) u by (auto simp: is_power_of_two_def)
    then show ?thesis using power_of_two_scheme [of "nb div 2" 2] h(2) assms by simp
  qed
  show "valid_scheme (Segmented3aryScheme (of_nat (nb div 3))) \<and>
      scheme_buckets (Segmented3aryScheme (of_nat (nb div 3))) = nb"
    if p: "nb mod 3 = 0" "is_power_of_two (nb div 3)"
    using power_of_two_scheme [OF p(2), of 3] p(1) assms by auto
  show "valid_scheme (Segmented4aryScheme (of_nat (nb div 4))) \<and>
      scheme_buckets (Segmented4aryScheme (of_nat (nb div 4))) = nb" if p: "is_power_of_two nb" "4 \<le> nb"
  proof -
    obtain t where t: "nb = 2 ^ t" "t < 64" using p(1) by (auto simp: is_power_of_two_def)
    have "2 \<le> t"
    proof (rule ccontr)
      assume "\<not> 2 \<le> t"
      then have "t = 0 \<or> t = 1" by auto
      then show False using t(1) p(2) by auto
    qed
    then obtain u where u: "t = u + 2" using le_Suc_ex by (metis add.commute)
    have h: "nb div 4 = 2 ^ u" "nb = 4 * (nb div 4)" using t u by (simp_all add: power_add)
    have "is_power_of_two (nb div 4)" using h(1) t(2) u by (auto simp: is_power_of_two_def)
    then show ?thesis using power_of_two_scheme [of "nb div 4" 4] h(2) assms by simp
  qed
qed

lemma fv_new_clean:
  assumes "fv_new nb bs fb vb pb = Some t"
  shows "fv_zeroed t \<and> fv_padded t \<and> fv.bag (kv_entry scheme) t = {#}"
proof -
  have inv: "fv_inv t" by (rule fv_new_inv [OF assms])
  have d: "fv_num_buckets t = nb" "fv_bucket_size t = bs" using assms by (auto simp: fv_new_iff)
  have view: "fv.view t (b, s) = (0, replicate (fv_value_size_in_cells t) 0)" if "b < nb" "s < bs" for b s
    by (rule fv_new_empty [OF assms that])
  have "fv_padded t" unfolding fv_padded_def
  proof (intro allI impI, elim conjE)
    fix b s k assume r: "b < fv_num_buckets t" "s < fv_bucket_size t"
      and k: "k < fv_cells_per_slot t * fv_plaintext_bits t"
    have "slot_bit_offset t b s + k < tlen t" using slot_in_table [OF inv r] k by linarith
    moreover have "0 < pb" "fv_cells t = replicate (length (fv_cells t)) 0" "fv_plaintext_bits t = pb"
      using assms by (auto simp: fv_new_iff)
    ultimately show "\<not> tbit t (slot_bit_offset t b s + k)" using cbit_replicate by metis
  qed
  moreover have "fv_zeroed t" using view d by (simp add: fv_zeroed_def)
  moreover have "fv.bag (kv_entry scheme) t = {#}"
    unfolding fv.bag_def using view d by (intro sum.neutral) (auto simp: fv.slots_def kv_entry_def)
  ultimately show ?thesis by blast
qed

lemma kv_make_inv:
  assumes "kv_make t scheme n = Some st" "fv_inv t" "valid_scheme scheme"
    "fv_num_buckets t = scheme_buckets scheme" "0 < fv_bucket_size t" "fv_zeroed t" "fv_padded t"
  shows "kv_inv st" "kv_table st = t" "kv_scheme st = scheme" "kv_num_items st = n"
    "kv_mutation_log st = None"
  using assms by (auto simp: kv_make_def Let_def bind_eq_Some_conv kv_inv_def kv_value_size_in_cells_def)

lemma kv_new_common_inv:
  assumes "kv_new_common ar scheme nb bs fb vb pb = Some (Inr st)"
    and "valid_scheme scheme" "scheme_buckets scheme = nb"
  shows "kv_inv st \<and> kv_bag st = {#} \<and> kv_counted st \<and> kv_mutation_log st = None"
proof -
  obtain t where t: "fv_new nb bs fb vb pb = Some t" "kv_make t scheme 0 = Some st" "bs \<in> {1, 2, 3, 4}"
    using assms(1)
    by (auto simp: kv_new_common_def validate_common_params_def bind_eq_Some_conv Let_def split: if_splits)
  have d: "fv_num_buckets t = nb" "fv_bucket_size t = bs" using t(1) by (auto simp: fv_new_iff)
  note cl = fv_new_clean [OF t(1), of scheme]
  have bs: "0 < fv_bucket_size t" using t(3) d(2) by auto
  note mk = kv_make_inv [OF t(2) fv_new_inv [OF t(1)] assms(2) _ bs] 
  have "fv_num_buckets t = scheme_buckets scheme" using d assms(3) by simp
  with mk cl show ?thesis by (simp add: kv_bag_def kv_counted_def)
qed

definition kv_fresh :: "kv_store \<Rightarrow> bool" where
  "kv_fresh st \<longleftrightarrow> kv_inv st \<and> kv_bag st = {#} \<and> kv_counted st \<and> kv_mutation_log st = None"

lemma kv_new_fresh:
  assumes "nb < 2 ^ 32"
  shows "kv_new_2ary nb bs fb vb pb = Some (Inr st) \<Longrightarrow> kv_fresh st"
    "kv_new_3ary nb bs fb vb pb = Some (Inr st) \<Longrightarrow> kv_fresh st"
    "kv_new_4ary nb bs fb vb pb = Some (Inr st) \<Longrightarrow> kv_fresh st"
  using kv_new_common_inv constructor_scheme [OF assms]
  by (auto simp: kv_new_2ary_def kv_new_3ary_def kv_new_4ary_def kv_fresh_def not_less split: if_splits)

lemma kv_new_common_total:
  assumes "nb < 2 ^ 32" "fb < 2 ^ 32" "vb \<le> 2 ^ 20"
  shows "kv_new_common ar scheme nb bs fb vb pb \<noteq> None"
proof (cases "validate_common_params ar bs fb = Inr () \<and> 1 \<le> vb \<and> 1 \<le> pb \<and> pb \<le> 32")
  case True
  then have bs: "bs \<le> 4" and fb: "1 \<le> fb" "fb \<le> 64"
    by (auto simp: validate_common_params_def Let_def split: if_splits)
  have c: "div_ceil x pb \<le> x" if "1 \<le> x" for x
    using True that div_ceil_le_iff [of pb x x] by simp
  have cps: "div_ceil (fb + vb) pb \<le> 2 ^ 21" using c [of "fb + vb"] fb assms(3) by simp
  have vc: "div_ceil vb pb \<le> 2 ^ 20" using c [of vb] True assms(3) by simp
  have ns: "nb * bs \<le> 2 ^ 32 * 4" using assms(1) bs by (intro mult_le_mono) simp_all
  then have "nb * bs * div_ceil (fb + vb) pb \<le> 2 ^ 32 * 4 * 2 ^ 21" using cps by (rule mult_le_mono)
  then have "fv_new nb bs fb vb pb \<noteq> None"
    using True fb assms(3) ns by (simp add: fv_new_def Let_def)
  moreover have "kv_make t scheme 0 \<noteq> None" if "fv_new nb bs fb vb pb = Some t" for t
    using that vc by (auto simp: kv_make_def Let_def fv_new_iff fv_value_size_in_cells_def MAX_KICKS_DEFAULT_def)
  ultimately show ?thesis using True by (auto simp: kv_new_common_def)
qed (auto simp: kv_new_common_def split: sum.splits)

lemma kv_new_total:
  assumes "nb < 2 ^ 32" "bs < 2 ^ 32" "fb < 2 ^ 32" "vb \<le> 2 ^ 20" "pb < 2 ^ 32"
    and "new \<in> {kv_new_2ary, kv_new_3ary, kv_new_4ary}"
  shows "new nb bs fb vb pb \<noteq> None"
  using assms(6) kv_new_common_total [OF assms(1,3,4)]
  by (auto simp: kv_new_2ary_def kv_new_3ary_def kv_new_4ary_def split: if_splits)

section \<open>Operation contracts with the item count\<close>

lemma kv_committed_counted:
  "kv_counted st \<Longrightarrow> kv_bag st' = kv_bag st + {# e #} \<Longrightarrow> kv_num_items st' = kv_num_items st + 1 \<Longrightarrow>
    kv_counted st'"
  by (simp add: kv_counted_def)

lemma kv_same_table:
  assumes "kv_inv st" "kv_frame st st'" "kv_table st' = kv_table st"
  shows "kv_inv st'" "kv_bag st' = kv_bag st"
proof -
  have "logged (kv_table st) [] (kv_table st')"
    using assms(1,3) logged_Nil by (simp add: kv_inv_def)
  then show "kv_inv st'" by (rule kv_logged_inv [OF assms(1,2)])
  show "kv_bag st' = kv_bag st" using assms(2,3) by (simp add: kv_bag_def kv_frame_def)
qed

section \<open>Refinement of bags of entries\<close>

text \<open>The calls that change the store, and one call as a step on store and generator.\<close>

datatype kv_call =
    KV_Insert "u8 list" "u8 list"
  | KV_Update "u8 list" "u8 list"
  | KV_Delete "u8 list"
  | KV_Set_Max_Kicks nat
  | KV_Enable_Log
  | KV_Disable_Log
  | KV_Drain

definition kv_exec ::
  "(u8 list \<Rightarrow> u128) \<Rightarrow> (nat \<Rightarrow> 'g \<Rightarrow> nat \<times> 'g) \<Rightarrow> kv_call \<Rightarrow> kv_store \<times> 'g \<Rightarrow> (kv_store \<times> 'g) option" where
  "kv_exec xxh draw c s = (case s of (st, g) \<Rightarrow> (case c of
     KV_Insert key val \<Rightarrow> map_option snd (kv_insert xxh draw st g key val)
   | KV_Update key val \<Rightarrow> map_option (\<lambda>r. (snd r, g)) (kv_update xxh st key val)
   | KV_Delete key \<Rightarrow> map_option (\<lambda>r. (snd r, g)) (kv_delete xxh st key)
   | KV_Set_Max_Kicks n \<Rightarrow> map_option (\<lambda>st'. (st', g)) (kv_set_max_kicks st n)
   | KV_Enable_Log \<Rightarrow> Some (kv_enable_mutation_log st, g)
   | KV_Disable_Log \<Rightarrow> Some (kv_disable_mutation_log st, g)
   | KV_Drain \<Rightarrow> Some (snd (kv_drain_mutations st), g)))"

text \<open>The abstract machine, a step labelled with the call. \<open>tag\<close> gives the candidate buckets and the
  fingerprint of a key, and \<open>holds v val\<close> says that the cells \<open>v\<close> hold the bytes \<open>val\<close>. An insert may
  add one entry of its key that holds its bytes, a delete may remove one entry of its key, an
  update may replace one by one that holds its bytes; the other calls change no entry.\<close>

inductive bag_step ::
  "(u8 list \<Rightarrow> u32 set \<times> u64) \<Rightarrow> (u32 list \<Rightarrow> u8 list \<Rightarrow> bool) \<Rightarrow> kv_call \<Rightarrow> entry multiset \<Rightarrow> entry multiset \<Rightarrow> bool"
  for tag holds where
  bag_same: "bag_step tag holds c B B"
| bag_add: "holds v val \<Longrightarrow> bag_step tag holds (KV_Insert key val) B (B + {# (fst (tag key), snd (tag key), v) #})"
| bag_remove: "bag_step tag holds (KV_Delete key) (B + {# (fst (tag key), snd (tag key), v) #}) B"
| bag_update: "holds w val \<Longrightarrow> B' + {# (fst (tag key), snd (tag key), v) #} = B + {# (fst (tag key), snd (tag key), w) #} \<Longrightarrow>
    bag_step tag holds (KV_Update key val) B B'"

text \<open>Cells hold bytes up to the unused high bits of the last byte.\<close>

definition kv_holds :: "kv_store \<Rightarrow> u32 list \<Rightarrow> u8 list \<Rightarrow> bool" where
  "kv_holds st v val \<longleftrightarrow> kv_decodes st v (trim_bytes (fv_value_bits (kv_table st)) val)"

inductive kv_reachable ::
  "(u8 list \<Rightarrow> u128) \<Rightarrow> (nat \<Rightarrow> 'g \<Rightarrow> nat \<times> 'g) \<Rightarrow> kv_store \<Rightarrow> 'g \<Rightarrow> kv_store \<Rightarrow> 'g \<Rightarrow> bool"
  for xxh draw st0 g0 where
  reach_start: "kv_reachable xxh draw st0 g0 st0 g0"
| reach_step: "kv_reachable xxh draw st0 g0 st g \<Longrightarrow> kv_exec xxh draw c (st, g) = Some (st', g') \<Longrightarrow>
    kv_reachable xxh draw st0 g0 st' g'"

lemma kv_insert_invalid:
  "length val \<noteq> kv_value_size_in_bytes st \<Longrightarrow>
    kv_insert xxh draw st g key val = Some (Inl InvalidParams, st, g)"
  by (simp add: kv_insert_def)

lemma kv_insert_keeps:
  assumes "kv_inv st" "kv_counted st" "draw_ok draw" "kv_insert xxh draw st g key val = Some (r, st', g')"
  shows "kv_inv st' \<and> kv_counted st' \<and> bag_step (key_tag xxh st) (kv_holds st) (KV_Insert key val) (kv_bag st) (kv_bag st')"
proof (cases "length val = kv_value_size_in_bytes st")
  case False
  then show ?thesis using assms kv_insert_invalid bag_same by (metis Pair_inject option.inject)
next
  case True
  from kv_insert_spec [OF assms(1,3) True, of xxh g key] assms(4)
  consider (full) "kv_frame st st'" "kv_table st' = kv_table st" "kv_num_items st' = kv_num_items st"
    | (ok) ms v where "kv_committed st st' ms" "kv_num_items st' = kv_num_items st + 1" "kv_holds st v val"
        "kv_bag st' = kv_bag st + {# (fst (key_tag xxh st key), snd (key_tag xxh st key), v) #}"
    by (auto simp: kv_holds_def)
  then show ?thesis
  proof cases
    case full
    then show ?thesis using kv_same_table [OF assms(1) full(1,2)] assms(2) bag_same
      by (simp add: kv_counted_def)
  next
    case ok
    then show ?thesis using kv_committed_inv [OF assms(1)] kv_committed_counted [OF assms(2)]
      bag_add [of "kv_holds st", OF ok(3), of "key_tag xxh st" key "kv_bag st"] by simp
  qed
qed

lemma kv_update_keeps:
  assumes "kv_inv st" "kv_counted st" "kv_update xxh st key val = Some (r, st')"
  shows "kv_inv st' \<and> kv_counted st' \<and> bag_step (key_tag xxh st) (kv_holds st) (KV_Update key val) (kv_bag st) (kv_bag st')"
proof (cases "length val = kv_value_size_in_bytes st")
  case False
  then show ?thesis using assms bag_same by (simp add: kv_update_def)
next
  case len: True
  show ?thesis
  proof (cases "kv_values xxh st key = {}")
    case True
    obtain v where st': "st' = st\<lparr> kv_cur_value := v \<rparr>" "length v = length (kv_cur_value st)"
      using kv_update_miss [OF assms(1) len True] assms(1,3) by (auto simp: kv_inv_def)
    have "kv_frame st st'" "kv_table st' = kv_table st" using st' by (simp_all add: kv_frame_def)
    from kv_same_table [OF assms(1) this] show ?thesis using assms(2) st' bag_same
      by (simp add: kv_counted_def)
  next
    case False
    obtain v w ms where c: "kv_committed st st' ms" "kv_num_items st' = kv_num_items st"
      and w: "kv_holds st w val" and b: "kv_bag st' + {# (fst (key_tag xxh st key), snd (key_tag xxh st key), v) #} =
       kv_bag st + {# (fst (key_tag xxh st key), snd (key_tag xxh st key), w) #}"
      using kv_update_hit [OF assms(1) len False] assms(3) unfolding kv_holds_def by (metis Pair_inject option.inject)
    have "size (kv_bag st') = size (kv_bag st)" using arg_cong [OF b, of size] by simp
    then show ?thesis
      using kv_committed_inv [OF assms(1) c(1)] assms(2) c(2) bag_update [of "kv_holds st" w val "kv_bag st'" "key_tag xxh st" key v "kv_bag st", OF w b] by (simp add: kv_counted_def)
  qed
qed

lemma kv_delete_keeps:
  assumes "kv_inv st" "kv_counted st" "kv_delete xxh st key = Some (r, st')"
  shows "kv_inv st' \<and> kv_counted st' \<and> bag_step (key_tag xxh st) (kv_holds st) (KV_Delete key) (kv_bag st) (kv_bag st')"
proof (cases "kv_values xxh st key = {}")
  case True
  then show ?thesis using kv_delete_miss [OF assms(1) True] assms bag_same by simp
next
  case False
  from kv_delete_hit [OF assms(1,2) False] assms(3) obtain v ms where
    "kv_committed st st' ms" "kv_counted st'"
    "kv_bag st = kv_bag st' + {# (fst (key_tag xxh st key), snd (key_tag xxh st key), v) #}" by auto
  then show ?thesis using kv_committed_inv [OF assms(1)] bag_remove [of "key_tag xxh st" "kv_holds st" key "kv_bag st'" v] by simp
qed

lemma kv_set_max_kicks_inv:
  assumes "kv_inv st" "kv_set_max_kicks st n = Some st'"
  shows "kv_inv st' \<and> kv_table st' = kv_table st \<and> kv_scheme st' = kv_scheme st \<and>
    kv_num_items st' = kv_num_items st \<and> kv_max_kicks st' = n"
  using assms by (auto simp: kv_set_max_kicks_def kv_inv_def Let_def bind_eq_Some_conv
      kv_value_size_in_cells_def)

lemma kv_exec_keeps:
  assumes "kv_inv st" "kv_counted st" "draw_ok draw" "kv_exec xxh draw c (st, g) = Some (st', g')"
  shows "kv_inv st' \<and> kv_counted st' \<and> bag_step (key_tag xxh st) (kv_holds st) c (kv_bag st) (kv_bag st')"
proof (cases c)
  case (KV_Insert key val)
  then obtain r where "kv_insert xxh draw st g key val = Some (r, st', g')"
    using assms(4) by (auto simp: kv_exec_def)
  then show ?thesis unfolding KV_Insert by (rule kv_insert_keeps [OF assms(1-3)])
next
  case (KV_Update key val)
  then obtain r where "kv_update xxh st key val = Some (r, st')"
    using assms(4) by (auto simp: kv_exec_def)
  then show ?thesis unfolding KV_Update by (rule kv_update_keeps [OF assms(1,2)])
next
  case (KV_Delete key)
  then obtain r where "kv_delete xxh st key = Some (r, st')"
    using assms(4) by (auto simp: kv_exec_def)
  then show ?thesis unfolding KV_Delete by (rule kv_delete_keeps [OF assms(1,2)])
next
  case (KV_Set_Max_Kicks n)
  then show ?thesis using kv_set_max_kicks_inv [OF assms(1), of n st'] assms(2,4) bag_same
    by (auto simp: kv_exec_def kv_counted_def kv_bag_def)
qed (use assms bag_same in \<open>auto simp: kv_exec_def kv_enable_mutation_log_def
    kv_disable_mutation_log_def kv_drain_mutations_def kv_inv_def kv_counted_def kv_bag_def
    kv_value_size_in_cells_def split: option.splits\<close>)

lemma kv_exec_total:
  assumes "kv_inv st" "kv_counted st" "draw_ok draw"
    and "\<And>n. c = KV_Set_Max_Kicks n \<Longrightarrow> n * kv_value_size_in_cells st < 2 ^ 64"
  shows "kv_exec xxh draw c (st, g) \<noteq> None"
proof (cases c)
  case (KV_Insert key val)
  have "kv_insert xxh draw st g key val \<noteq> None"
  proof (cases "length val = kv_value_size_in_bytes st")
    case True
    from kv_insert_spec [OF assms(1,3) True, of xxh g key] show ?thesis by auto
  qed (simp add: kv_insert_invalid)
  then show ?thesis using KV_Insert by (simp add: kv_exec_def)
next
  case (KV_Update key val)
  have "kv_update xxh st key val \<noteq> None"
  proof (cases "length val = kv_value_size_in_bytes st")
    case True
    from kv_update_hit [OF assms(1) True, of xxh key] kv_update_miss [OF assms(1) True, of xxh key]
    show ?thesis by (cases "kv_values xxh st key = {}") auto
  qed (simp add: kv_update_def)
  then show ?thesis using KV_Update by (simp add: kv_exec_def)
next
  case (KV_Delete key)
  have "kv_delete xxh st key \<noteq> None"
    using kv_delete_hit [OF assms(1,2), of xxh key] kv_delete_miss [OF assms(1), of xxh key]
    by (cases "kv_values xxh st key = {}") auto
  then show ?thesis using KV_Delete by (simp add: kv_exec_def)
next
  case (KV_Set_Max_Kicks n)
  then show ?thesis using assms(4) [OF KV_Set_Max_Kicks] by (simp add: kv_exec_def kv_set_max_kicks_def Let_def)
qed (simp_all add: kv_exec_def)

section \<open>Replay of the mutation log\<close>

primrec kv_replay :: "slot_mutation list \<Rightarrow> kv_store \<Rightarrow> kv_store option" where
  "kv_replay [] st = Some st"
| "kv_replay (m # ms) st = do { st' \<leftarrow> kv_apply_mutation st m; kv_replay ms st' }"

lemma kv_replay_append: "kv_replay (ms @ ns) st = kv_replay ms st \<bind> kv_replay ns"
proof (induction ms arbitrary: st)
  case (Cons m ms)
  then show ?case by (cases "kv_apply_mutation st m") simp_all
qed simp

lemma kv_apply_mutation_eq:
  "kv_apply_mutation st m = map_option (\<lambda>t. st\<lparr> kv_table := t \<rparr>)
    (fv_write (kv_table st) (sm_bucket m) (sm_slot m) (sm_new_fingerprint m) (sm_new_value_cells m))"
proof (cases "fv_write_fingerprint (kv_table st) (sm_bucket m) (sm_slot m) (sm_new_fingerprint m)")
  case (Some t1)
  then show ?thesis
    by (cases "fv_write_value t1 (sm_bucket m) (sm_slot m) (sm_new_value_cells m)")
      (simp_all add: kv_apply_mutation_def fv_write_def)
qed (simp add: kv_apply_mutation_def fv_write_def)

lemma logged_replay:
  "logged t ms u \<Longrightarrow> kv_table st = t \<Longrightarrow> kv_replay ms st = Some (st\<lparr> kv_table := u \<rparr>)"
proof (induction rule: logged.induct)
  case (logged_snoc t ms u m u')
  then show ?case by (simp add: kv_replay_append kv_apply_mutation_eq)
qed simp

section \<open>What a call logs\<close>

lemma kv_exec_logged:
  assumes "kv_inv st" "kv_counted st" "draw_ok draw"
    and "c \<in> {KV_Insert key val, KV_Update key val, KV_Delete key}"
    and "kv_exec xxh draw c (st, g) = Some (st', g')"
  shows "\<exists>ms. logged (kv_table st) ms (kv_table st') \<and>
    kv_mutation_log st' = map_option (\<lambda>log. log @ ms) (kv_mutation_log st)"
proof -
  have tinv: "fv_inv (kv_table st)" using assms(1) by (simp add: kv_inv_def)
  have same: ?thesis if "kv_table st' = kv_table st" "kv_mutation_log st' = kv_mutation_log st"
    using that logged_Nil [OF tinv] by (intro exI [of _ "[]"]) (cases "kv_mutation_log st"; simp)
  have com: ?thesis if "kv_committed st st' ms" for ms
    using that unfolding kv_committed_def by blast
  consider "c = KV_Insert key val" | "c = KV_Update key val" | "c = KV_Delete key" using assms(4) by blast
  then show ?thesis
  proof cases
    case 1
    then obtain r where r: "kv_insert xxh draw st g key val = Some (r, st', g')"
      using assms(5) by (auto simp: kv_exec_def)
    show ?thesis
    proof (cases "length val = kv_value_size_in_bytes st")
      case True
      from kv_insert_spec [OF assms(1,3) True, of xxh g key] r same com show ?thesis by auto
    next
      case False
      then show ?thesis using r kv_insert_invalid [OF False, of xxh draw g key] same by simp
    qed
  next
    case 2
    then obtain r where r: "kv_update xxh st key val = Some (r, st')"
      using assms(5) by (auto simp: kv_exec_def)
    show ?thesis
    proof (cases "length val = kv_value_size_in_bytes st")
      case True
      from kv_update_hit [OF assms(1) True, of xxh key] kv_update_miss [OF assms(1) True, of xxh key] r same com
      show ?thesis by (cases "kv_values xxh st key = {}") auto
    qed (use r same in \<open>auto simp: kv_update_def\<close>)
  next
    case 3
    then obtain r where r: "kv_delete xxh st key = Some (r, st')"
      using assms(5) by (auto simp: kv_exec_def)
    from kv_delete_hit [OF assms(1,2), of xxh key] kv_delete_miss [OF assms(1), of xxh key] r same com
    show ?thesis by (cases "kv_values xxh st key = {}") auto
  qed
qed

section \<open>Snapshot and restore\<close>

lemma fv_from_cells_ok:
  assumes "fv_inv t" "entry_bits t < 2 ^ 32" "length (fv_cells t) < 2 ^ 64"
  shows "fv_from_cells (fv_cells t) (fv_num_buckets t) (fv_bucket_size t) (fv_fingerprint_bits t)
    (fv_value_bits t) (fv_plaintext_bits t) = Some (Inr t)"
proof -
  let ?cps = "fv_cells_per_slot t"
  have inv: "1 \<le> fv_fingerprint_bits t" "fv_fingerprint_bits t \<le> 64" "1 \<le> fv_value_bits t"
    "0 < fv_plaintext_bits t" "?cps = div_ceil (entry_bits t) (fv_plaintext_bits t)"
    "length (fv_cells t) = fv_num_buckets t * fv_bucket_size t * ?cps"
    "cells_ok (fv_plaintext_bits t) (fv_cells t)"
    using assms(1) by (simp_all add: fv_inv_def)
  have "0 < ?cps" using inv(4,5) div_ceil_pos [of "fv_plaintext_bits t" "entry_bits t"] inv(1) by simp
  then have le: "fv_num_buckets t * fv_bucket_size t \<le> length (fv_cells t)" unfolding inv(6) by simp
  have exp: "min (min (fv_num_buckets t * fv_bucket_size t) (2 ^ 64 - 1) * ?cps) (2 ^ 64 - 1) =
      length (fv_cells t)"
  proof -
    have "min (fv_num_buckets t * fv_bucket_size t) (2 ^ 64 - 1) = fv_num_buckets t * fv_bucket_size t"
      using le assms(3) by simp
    then show ?thesis using assms(3) inv(6) by simp
  qed
  have "c AND NOT (push_bit (fv_plaintext_bits t) 1 - 1) = 0" if "c \<in> set (fv_cells t)" for c
    unfolding push_bit_1_minus_1 using inv(7) that
    by (intro word_eq_bitI) (auto simp: cells_ok_def fits_bit bit_and_iff bit_not_iff bit_mask_iff)
  then have "\<not> list_ex (\<lambda>c. c AND NOT (push_bit (fv_plaintext_bits t) 1 - 1) \<noteq> 0) (fv_cells t)"
    by (auto simp: list_ex_iff)
  then show ?thesis using inv(1-5) exp assms(2)
    by (simp add: fv_from_cells_def Let_def del: push_bit_of_1)
qed

lemma kv_restore:
  assumes "kv_inv st" "kv_params st = Some p" "length (kv_snapshot_cells st) < 2 ^ 50"
    and "cp_value_bits p < 2 ^ 20"
  shows "\<exists>st'. (case cp_scheme_kind p of Segmented2ary \<Rightarrow> kv_from_cells_2ary
      | Segmented3ary \<Rightarrow> kv_from_cells_3ary | Segmented4ary \<Rightarrow> kv_from_cells_4ary)
      (kv_snapshot_cells st) p (kv_num_items st) = Some (Inr st') \<and>
    kv_inv st' \<and> kv_table st' = kv_table st \<and> kv_scheme st' = kv_scheme st \<and>
    kv_num_items st' = kv_num_items st"
proof -
  let ?t = "kv_table st"
  have inv: "fv_inv ?t" "valid_scheme (kv_scheme st)" "fv_num_buckets ?t = scheme_buckets (kv_scheme st)"
    "0 < fv_bucket_size ?t" "fv_zeroed ?t" "fv_padded ?t"
    using assms(1) by (simp_all add: kv_inv_def)
  have p: "cp_num_buckets p = fv_num_buckets ?t" "cp_bucket_size p = fv_bucket_size ?t"
    "cp_fingerprint_bits p = fv_fingerprint_bits ?t" "cp_value_bits p = fv_value_bits ?t"
    "cp_plaintext_bits p = fv_plaintext_bits ?t"
    using assms(2) by (auto simp: kv_params_def split: option.splits)
  have "entry_bits ?t < 2 ^ 32" using assms(4) p(4) inv(1) by (simp add: fv_inv_def)
  then have f: "fv_from_cells (fv_cells ?t) (cp_num_buckets p) (cp_bucket_size p) (cp_fingerprint_bits p)
      (cp_value_bits p) (cp_plaintext_bits p) = Some (Inr ?t)"
    using fv_from_cells_ok [OF inv(1)] assms(3) p by (simp add: kv_snapshot_cells_def)
  have "fv_value_size_in_cells ?t \<le> 2 ^ 20"
  proof -
    have "fv_value_bits ?t \<le> fv_value_bits ?t * fv_plaintext_bits ?t" "0 < fv_plaintext_bits ?t"
      using inv(1) by (simp_all add: fv_inv_def)
    then have "fv_value_size_in_cells ?t \<le> fv_value_bits ?t"
      by (simp add: fv_value_size_in_cells_def div_ceil_le_iff)
    then show ?thesis using assms(4) p(4) by simp
  qed
  then obtain st' where mk: "kv_make ?t (kv_scheme st) (kv_num_items st) = Some st'"
    by (auto simp: kv_make_def Let_def MAX_KICKS_DEFAULT_def)
  note k = kv_make_inv [OF mk inv]
  have w: "kv_from_cells_with (kv_scheme st) (fv_cells ?t) p (kv_num_items st) = Some (Inr st')"
    using f mk by (simp add: kv_from_cells_with_def)
  have pow2_times: "is_power_of_two (2 ^ k * unat sg)" if s0: "seg_ok n sg" and k2: "k \<le> 2" for n sg k
  proof -
    obtain u where "u < 32" "unat sg = 2 ^ u" using s0 unfolding seg_ok_def by blast
    then show ?thesis using k2
      by (auto simp: is_power_of_two_def power_add [symmetric] intro!: exI [of _ "k + u"])
  qed
  have "(case cp_scheme_kind p of Segmented2ary \<Rightarrow> kv_from_cells_2ary
      | Segmented3ary \<Rightarrow> kv_from_cells_3ary | Segmented4ary \<Rightarrow> kv_from_cells_4ary)
      (kv_snapshot_cells st) p (kv_num_items st) = Some (Inr st')"
  proof (cases "kv_scheme st")
    case (Segmented2aryScheme sg)
    have sg: "seg_ok 2 sg" using inv(2) Segmented2aryScheme by simp
    have "is_power_of_two (2 * unat sg)" using pow2_times [OF sg, of 1] by simp
    then show ?thesis using w assms(2) inv(3) Segmented2aryScheme seg_ok_pos [OF sg]
      by (auto simp: kv_params_def kv_from_cells_2ary_def kv_snapshot_cells_def)
  next
    case (Segmented3aryScheme sg)
    have sg: "seg_ok 3 sg" using inv(2) Segmented3aryScheme by simp
    have "is_power_of_two (unat sg)" using pow2_times [OF sg, of 0] by simp
    then show ?thesis using w assms(2) inv(3) Segmented3aryScheme seg_ok_pos [OF sg]
      by (auto simp: kv_params_def kv_from_cells_3ary_def kv_snapshot_cells_def)
  next
    case (Segmented4aryScheme sg)
    have sg: "seg_ok 4 sg" using inv(2) Segmented4aryScheme by simp
    have "is_power_of_two (4 * unat sg)" using pow2_times [OF sg, of 2] by simp
    then show ?thesis using w assms(2) inv(3) Segmented4aryScheme seg_ok_pos [OF sg]
      by (auto simp: kv_params_def kv_from_cells_4ary_def kv_snapshot_cells_def)
  qed (use assms(2) in \<open>auto simp: kv_params_def\<close>)
  with k show ?thesis by blast
qed

end
