(* ===== verification/Server.thy ===== *)
theory Server
  imports Backend Hint_Patch KV_Contract
begin

text \<open>
  \<open>IkpirServer\<close>, \<open>ikpir-server/src/server.rs\<close>, and the bundles it exchanges with clients
  (\<open>ikpir-common/src/wire.rs\<close>, \<open>error.rs\<close>). The server is generic in the back end: every operation
  takes the back end's record. Definitions only; the theory Server_Correct has the lemmas.
  Epochs are naturals below \<open>2\<^sup>6\<^sup>4\<close>; passing that bound is a panic, as in a checked build.
\<close>

section \<open>Bundles and errors\<close>

datatype ikpir_error =
    StaleEpoch nat nat
  | MalformedQuery
  | IkpirTableFull
  | IkpirNotFound
  | InvalidInput

record ('sp, 'hint) server_setup_bundle =
  ss_params :: cuckoo_params
  ss_backend_params :: "'sp list"
  ss_hints :: "'hint list"
  ss_epoch :: nat

record 'q pir_query_bundle =
  pq_epoch :: nat
  pq_queries :: "'q list"

record 'r pir_response_bundle =
  pr_epoch :: nat
  pr_responses :: "'r list"

record hint_delta_bundle =
  hd_epoch :: nat
  hd_row_deltas :: "row_deltas list"
  hd_params :: cuckoo_params

definition checked_succ_u64 :: "nat \<Rightarrow> nat option" where
  "checked_succ_u64 e = (if e + 1 < 2 ^ 64 then Some (e + 1) else None)"

section \<open>State\<close>

record ('cfg, 'sp, 'mat, 'hint) ikpir_server =
  sv_store :: kv_store
  sv_params :: cuckoo_params
  sv_backend_config :: 'cfg
  sv_backend_params :: "'sp list"
  sv_backend_hint_material :: "'mat option list"
  sv_hints :: "'hint list"
  sv_epoch :: nat
  sv_hint_patch_mode :: hint_patch_mode

section \<open>Setup\<close>

text \<open>The loop over the segments that \<open>build\<close> and \<open>rebuild_with\<close> share.\<close>

definition setup_segments ::
  "('cfg \<Rightarrow> u32 list \<Rightarrow> nat \<Rightarrow> nat \<Rightarrow> nat \<Rightarrow> 'g \<Rightarrow> (('sp \<times> 'mat \<times> 'hint) \<times> 'g) option) \<Rightarrow> 'cfg \<Rightarrow>
    cuckoo_params \<Rightarrow> u32 list \<Rightarrow> 'g \<Rightarrow> (('sp list \<times> 'mat option list \<times> 'hint list) \<times> 'g) option" where
  "setup_segments setup cfg p cells g =
     (let arity = cp_arity p;
          segment_size = cp_segment_size p;
          row_width = cp_bucket_size p * cp_cells_per_slot p;
          seg_cells = segment_size * row_width
      in fold_opt (\<lambda>j ((sps, mats, hs), g). do {
             db \<leftarrow> slice_opt cells (j * seg_cells) seg_cells;
             ((sp, mat, h), g') \<leftarrow> setup cfg db segment_size row_width (cp_plaintext_bits p) g;
             Some ((sps @ [sp], mats @ [Some mat], hs @ [h]), g')
           }) [0..<arity] (([], [], []), g))"

text \<open>\<open>store.params()\<close> exists for the segmented schemes only, by the trait bound.\<close>

definition server_build ::
  "('cfg \<Rightarrow> u32 list \<Rightarrow> nat \<Rightarrow> nat \<Rightarrow> nat \<Rightarrow> 'g \<Rightarrow> (('sp \<times> 'mat \<times> 'hint) \<times> 'g) option) \<Rightarrow> kv_store \<Rightarrow>
    'cfg \<Rightarrow> 'g \<Rightarrow> (('cfg, 'sp, 'mat, 'hint) ikpir_server \<times> 'g) option" where
  "server_build setup store cfg g =
     do {
       p \<leftarrow> kv_params store;
       ((sps, mats, hs), g') \<leftarrow> setup_segments setup cfg p (kv_snapshot_cells store) g;
       let store1 = kv_enable_mutation_log store;
       Some (\<lparr> sv_store = snd (kv_drain_mutations store1), sv_params = p, sv_backend_config = cfg,
         sv_backend_params = sps, sv_backend_hint_material = mats, sv_hints = hs, sv_epoch = 0,
         sv_hint_patch_mode = default_patch_mode \<rparr>, g')
     }"

definition server_new ::
  "('cfg, 'sp, 'mat, 'hint, 'cs, 'q, 'r, 'g) backend \<Rightarrow> kv_store \<Rightarrow> 'cfg \<Rightarrow> 'g \<Rightarrow>
    (('cfg, 'sp, 'mat, 'hint) ikpir_server \<times> 'g) option" where
  "server_new B = server_build (be_server_setup B)"

definition server_setup_of :: "('cfg, 'sp, 'mat, 'hint) ikpir_server \<Rightarrow> ('sp, 'hint) server_setup_bundle" where
  "server_setup_of sv = \<lparr> ss_params = sv_params sv, ss_backend_params = sv_backend_params sv,
     ss_hints = sv_hints sv, ss_epoch = sv_epoch sv \<rparr>"

definition rebuild_with ::
  "('cfg \<Rightarrow> u32 list \<Rightarrow> nat \<Rightarrow> nat \<Rightarrow> nat \<Rightarrow> 'g \<Rightarrow> (('sp \<times> 'mat \<times> 'hint) \<times> 'g) option) \<Rightarrow>
    ('cfg, 'sp, 'mat, 'hint) ikpir_server \<Rightarrow> 'g \<Rightarrow>
    (('sp, 'hint) server_setup_bundle \<times> ('cfg, 'sp, 'mat, 'hint) ikpir_server \<times> 'g) option" where
  "rebuild_with setup sv g =
     do {
       ((sps, mats, hs), g') \<leftarrow> setup_segments setup (sv_backend_config sv) (sv_params sv)
         (kv_snapshot_cells (sv_store sv)) g;
       epoch \<leftarrow> checked_succ_u64 (sv_epoch sv);
       let sv' = sv\<lparr> sv_backend_params := sps, sv_backend_hint_material := mats, sv_hints := hs,
         sv_store := snd (kv_drain_mutations (sv_store sv)), sv_epoch := epoch \<rparr>;
       Some (server_setup_of sv', sv', g')
     }"

definition full_rebuild ::
  "('cfg, 'sp, 'mat, 'hint, 'cs, 'q, 'r, 'g) backend \<Rightarrow> ('cfg, 'sp, 'mat, 'hint) ikpir_server \<Rightarrow> 'g \<Rightarrow>
    (('sp, 'hint) server_setup_bundle \<times> ('cfg, 'sp, 'mat, 'hint) ikpir_server \<times> 'g) option" where
  "full_rebuild B = rebuild_with (be_server_setup B)"

section \<open>Answers\<close>

definition server_answer ::
  "('cfg, 'sp, 'mat, 'hint, 'cs, 'q, 'r, 'g) backend \<Rightarrow> ('cfg, 'sp, 'mat, 'hint) ikpir_server \<Rightarrow>
    'q pir_query_bundle \<Rightarrow> (ikpir_error + 'r pir_response_bundle) option" where
  "server_answer B sv q =
     (if pq_epoch q \<noteq> sv_epoch sv then Some (Inl (StaleEpoch (sv_epoch sv) (pq_epoch q)))
      else let arity = cp_arity (sv_params sv) in
      if length (pq_queries q) \<noteq> arity then Some (Inl MalformedQuery)
      else do {
        let segment_size = cp_segment_size (sv_params sv);
        let row_width = cp_bucket_size (sv_params sv) * cp_cells_per_slot (sv_params sv);
        let seg_cells = segment_size * row_width;
        responses \<leftarrow> build_opt arity (\<lambda>j. do {
            sp \<leftarrow> nth_opt (sv_backend_params sv) j;
            db \<leftarrow> slice_opt (kv_snapshot_cells (sv_store sv)) (j * seg_cells) seg_cells;
            qj \<leftarrow> nth_opt (pq_queries q) j;
            be_server_answer B sp db segment_size row_width qj
          });
        Some (Inr \<lparr> pr_epoch = sv_epoch sv, pr_responses = responses \<rparr>)
      })"

section \<open>Local state\<close>

definition drop_hint_material :: "('cfg, 'sp, 'mat, 'hint) ikpir_server \<Rightarrow> ('cfg, 'sp, 'mat, 'hint) ikpir_server" where
  "drop_hint_material sv =
     sv\<lparr> sv_backend_hint_material := map (\<lambda>_. None) (sv_backend_hint_material sv) \<rparr>"

definition server_set_hint_patch_mode ::
  "('cfg, 'sp, 'mat, 'hint) ikpir_server \<Rightarrow> hint_patch_mode \<Rightarrow> ('cfg, 'sp, 'mat, 'hint) ikpir_server" where
  "server_set_hint_patch_mode sv mode = sv\<lparr> sv_hint_patch_mode := mode \<rparr>"

definition reset_for_replay ::
  "('cfg, 'sp, 'mat, 'hint) ikpir_server \<Rightarrow> kv_store \<Rightarrow> 'hint list \<Rightarrow> ('cfg, 'sp, 'mat, 'hint) ikpir_server option" where
  "reset_for_replay sv store hints0 =
     do {
       assert_opt (length hints0 = length (sv_hints sv));
       let store1 = kv_enable_mutation_log store;
       Some (sv\<lparr> sv_store := snd (kv_drain_mutations store1), sv_hints := hints0, sv_epoch := 0 \<rparr>)
     }"

section \<open>Mutations\<close>

fun map_cuckoo_err :: "cuckoo_error \<Rightarrow> ikpir_error" where
  "map_cuckoo_err TableFull = IkpirTableFull"
| "map_cuckoo_err NotFound = IkpirNotFound"
| "map_cuckoo_err InvalidParams = InvalidInput"

text \<open>Phase 1 of \<open>commit_mutations\<close>: re-expand dropped material of the touched segments.\<close>

definition expand_touched ::
  "('cfg, 'sp, 'mat, 'hint, 'cs, 'q, 'r, 'g) backend \<Rightarrow> 'sp list \<Rightarrow> row_deltas list \<Rightarrow>
    'mat option list \<Rightarrow> 'mat option list option" where
  "expand_touched B sps rds =
     fold_opt (\<lambda>(j, deltas) mats.
       if deltas = [] then Some mats
       else do {
         m \<leftarrow> nth_opt mats j;
         if m \<noteq> None then Some mats
         else do {
           sp \<leftarrow> nth_opt sps j;
           mat \<leftarrow> be_expand_hint_material B sp;
           upd_opt mats j (Some mat)
         }
       }) (enumerate 0 rds)"

text \<open>Phase 2: patch the hints of the touched segments.\<close>

definition patch_touched ::
  "('cfg, 'sp, 'mat, 'hint, 'cs, 'q, 'r, 'g) backend \<Rightarrow> 'sp list \<Rightarrow> 'mat option list \<Rightarrow> hint_patch_mode \<Rightarrow>
    row_deltas list \<Rightarrow> 'hint list \<Rightarrow> 'hint list option" where
  "patch_touched B sps mats mode rds =
     fold_opt (\<lambda>(j, deltas) hints.
       if deltas = [] then Some hints
       else do {
         m \<leftarrow> nth_opt mats j;
         material \<leftarrow> m;
         sp \<leftarrow> nth_opt sps j;
         h \<leftarrow> nth_opt hints j;
         h' \<leftarrow> be_server_patch_hint B sp material h deltas mode;
         upd_opt hints j h'
       }) (enumerate 0 rds)"

definition commit_mutations ::
  "('cfg, 'sp, 'mat, 'hint, 'cs, 'q, 'r, 'g) backend \<Rightarrow> ('cfg, 'sp, 'mat, 'hint) ikpir_server \<Rightarrow>
    (hint_delta_bundle \<times> ('cfg, 'sp, 'mat, 'hint) ikpir_server) option" where
  "commit_mutations B sv =
     do {
       let (muts, store) = kv_drain_mutations (sv_store sv);
       row_deltas \<leftarrow> fold_mutations_into_row_deltas muts (sv_params sv);
       mats \<leftarrow> expand_touched B (sv_backend_params sv) row_deltas (sv_backend_hint_material sv);
       hints \<leftarrow> patch_touched B (sv_backend_params sv) mats (sv_hint_patch_mode sv) row_deltas (sv_hints sv);
       epoch \<leftarrow> checked_succ_u64 (sv_epoch sv);
       Some (\<lparr> hd_epoch = epoch, hd_row_deltas = row_deltas, hd_params = sv_params sv \<rparr>,
         sv\<lparr> sv_store := store, sv_backend_hint_material := mats, sv_hints := hints, sv_epoch := epoch \<rparr>)
     }"

text \<open>The tail that the three mutating calls share: \<open>map_err\<close> and \<open>?\<close>, then the commit.\<close>

definition finish_mutation ::
  "('cfg, 'sp, 'mat, 'hint, 'cs, 'q, 'r, 'g) backend \<Rightarrow> ('cfg, 'sp, 'mat, 'hint) ikpir_server \<Rightarrow>
    cuckoo_error + unit \<Rightarrow> kv_store \<Rightarrow>
    ((ikpir_error + hint_delta_bundle) \<times> ('cfg, 'sp, 'mat, 'hint) ikpir_server) option" where
  "finish_mutation B sv r store =
     (let sv1 = sv\<lparr> sv_store := store \<rparr> in
      case r of
        Inl e \<Rightarrow> Some (Inl (map_cuckoo_err e), sv1)
      | Inr _ \<Rightarrow> do { (delta, sv2) \<leftarrow> commit_mutations B sv1; Some (Inr delta, sv2) })"

definition server_insert ::
  "('cfg, 'sp, 'mat, 'hint, 'cs, 'q, 'r, 'g) backend \<Rightarrow> (u8 list \<Rightarrow> u128) \<Rightarrow> (nat \<Rightarrow> 'k \<Rightarrow> nat \<times> 'k) \<Rightarrow>
    ('cfg, 'sp, 'mat, 'hint) ikpir_server \<Rightarrow> 'k \<Rightarrow> u8 list \<Rightarrow> u8 list \<Rightarrow>
    ((ikpir_error + hint_delta_bundle) \<times> ('cfg, 'sp, 'mat, 'hint) ikpir_server \<times> 'k) option" where
  "server_insert B xxh draw sv k key val =
     do {
       (r, store, k') \<leftarrow> kv_insert xxh draw (sv_store sv) k key val;
       (res, sv') \<leftarrow> finish_mutation B sv r store;
       Some (res, sv', k')
     }"

definition server_update ::
  "('cfg, 'sp, 'mat, 'hint, 'cs, 'q, 'r, 'g) backend \<Rightarrow> (u8 list \<Rightarrow> u128) \<Rightarrow>
    ('cfg, 'sp, 'mat, 'hint) ikpir_server \<Rightarrow> u8 list \<Rightarrow> u8 list \<Rightarrow>
    ((ikpir_error + hint_delta_bundle) \<times> ('cfg, 'sp, 'mat, 'hint) ikpir_server) option" where
  "server_update B xxh sv key val =
     do {
       (r, store) \<leftarrow> kv_update xxh (sv_store sv) key val;
       finish_mutation B sv r store
     }"

definition server_delete ::
  "('cfg, 'sp, 'mat, 'hint, 'cs, 'q, 'r, 'g) backend \<Rightarrow> (u8 list \<Rightarrow> u128) \<Rightarrow>
    ('cfg, 'sp, 'mat, 'hint) ikpir_server \<Rightarrow> u8 list \<Rightarrow>
    ((ikpir_error + hint_delta_bundle) \<times> ('cfg, 'sp, 'mat, 'hint) ikpir_server) option" where
  "server_delete B xxh sv key =
     do {
       (r, store) \<leftarrow> kv_delete xxh (sv_store sv) key;
       finish_mutation B sv r store
     }"

end
