(* ===== verification/Wire_Size.thy ===== *)
theory Wire_Size
  imports Frodo Simple Server
begin

text \<open>
  Size accounting: the trait \<open>BackendWireSize\<close> of \<open>ikpir-common/src/backend/mod.rs\<close> with its two
  implementations, and \<open>wire_byte_size\<close> of the setup, query and response bundles of \<open>wire.rs\<close>. The
  size of the delta bundle is in the theory Wire, where it is exact.
\<close>

record ('sp, 'hint, 'q, 'r) backend_wire_size =
  query_byte_size :: "'q \<Rightarrow> nat"
  response_byte_size :: "'r \<Rightarrow> nat"
  hint_byte_size :: "'hint \<Rightarrow> nat"
  server_params_byte_size :: "'sp \<Rightarrow> nat"

definition frodo_wire_size :: "(frodo_server_params, u32 list, u32 list, u32 list) backend_wire_size" where
  "frodo_wire_size = \<lparr> query_byte_size = (\<lambda>q. length q * 4), response_byte_size = (\<lambda>r. length r * 4),
     hint_byte_size = (\<lambda>h. length h * 4),
     server_params_byte_size = (\<lambda>_. let frodo_params = 4 + 4 + 16; dims = 4 + 4 in frodo_params + dims) \<rparr>"

definition simple_wire_size :: "('sg simple_server_params, u32 list, u32 list, u32 list) backend_wire_size" where
  "simple_wire_size = \<lparr> query_byte_size = (\<lambda>q. length q * 4), response_byte_size = (\<lambda>r. length r * 4),
     hint_byte_size = (\<lambda>h. length h * 4),
     server_params_byte_size = (\<lambda>_. let simple_params = 4 + 4 + 8 + 16; dims = 5 * 4 in simple_params + dims) \<rparr>"

text \<open>\<open>db_matrix_shape\<close> of the two back ends: the matrix an answer multiplies.\<close>

definition frodo_db_matrix_shape :: "frodo_server_params \<Rightarrow> nat \<times> nat" where
  "frodo_db_matrix_shape sp = (fs_n_rows sp, fs_row_width sp)"

definition simple_db_matrix_shape :: "'sg simple_server_params \<Rightarrow> nat \<times> nat" where
  "simple_db_matrix_shape sp = (srv_reshape_rows sp, srv_reshape_row_width sp)"

definition CUCKOO_PARAMS_BYTES :: nat where
  "CUCKOO_PARAMS_BYTES = 1 + 5 * 4"

definition setup_wire_byte_size ::
  "('sp, 'hint, 'q, 'r) backend_wire_size \<Rightarrow> ('sp, 'hint) server_setup_bundle \<Rightarrow> nat" where
  "setup_wire_byte_size Z bundle =
     (let bytes = CUCKOO_PARAMS_BYTES + 8;
          bytes = bytes + 4;
          bytes = fold (\<lambda>p bytes. bytes + server_params_byte_size Z p) (ss_backend_params bundle) bytes;
          bytes = bytes + 4
      in fold (\<lambda>h bytes. bytes + hint_byte_size Z h) (ss_hints bundle) bytes)"

definition query_wire_byte_size :: "('sp, 'hint, 'q, 'r) backend_wire_size \<Rightarrow> 'q pir_query_bundle \<Rightarrow> nat" where
  "query_wire_byte_size Z bundle = fold (\<lambda>q bytes. bytes + query_byte_size Z q) (pq_queries bundle) (8 + 4)"

definition response_wire_byte_size :: "('sp, 'hint, 'q, 'r) backend_wire_size \<Rightarrow> 'r pir_response_bundle \<Rightarrow> nat" where
  "response_wire_byte_size Z bundle = fold (\<lambda>r bytes. bytes + response_byte_size Z r) (pr_responses bundle) (8 + 4)"

lemma fold_bytes: "fold (\<lambda>x bytes. bytes + f x) xs n = n + (sum_list (map f xs) :: nat)"
  by (induction xs arbitrary: n) simp_all

text \<open>The sizes in closed form, when all hints, queries or responses have one length.\<close>

lemma setup_wire_byte_size_uniform:
  assumes "\<forall>h \<in> set (ss_hints bundle). hint_byte_size Z h = m" "\<forall>p \<in> set (ss_backend_params bundle). server_params_byte_size Z p = k"
  shows "setup_wire_byte_size Z bundle = 37 + length (ss_backend_params bundle) * k + length (ss_hints bundle) * m"
proof -
  have "map (hint_byte_size Z) (ss_hints bundle) = replicate (length (ss_hints bundle)) m"
    "map (server_params_byte_size Z) (ss_backend_params bundle) = replicate (length (ss_backend_params bundle)) k"
    using assms by (simp_all add: map_replicate_const [symmetric] cong: map_cong)
  then show ?thesis by (simp add: setup_wire_byte_size_def fold_bytes Let_def CUCKOO_PARAMS_BYTES_def sum_list_replicate)
qed

end
