(* ===== verification/Store_Properties.thy ===== *)
theory Store_Properties
  imports KV_Contract Slot_Cells
begin

text \<open>
  What the cuckoo key-value store and the layers below it promise: index schemes, cell packing,
  the fingerprint-and-value table, the slot codec, and \<open>CuckooKVStore\<close> itself, each with a
  concrete instance. The instances use a two-bucket store with the constant hash \<open>0\<close> and a
  generator that always draws \<open>0\<close>.
\<close>

section \<open>A small store\<close>

definition demo_table :: fv_table where
  "demo_table = \<lparr> fv_cells = replicate 4 0, fv_num_buckets = 2, fv_bucket_size = 1,
     fv_fingerprint_bits = 8, fv_value_bits = 8, fv_plaintext_bits = 8, fv_cells_per_slot = 2 \<rparr>"

definition demo_store :: kv_store where
  "demo_store = \<lparr> kv_table = demo_table, kv_scheme = Segmented2aryScheme 1, kv_num_items = 0,
     kv_max_kicks = 2, kv_chain_meta = [], kv_chain_values = [0, 0], kv_cur_value = [0],
     kv_mutation_log = Some [], kv_pending_mutations = [] \<rparr>"

definition demo_one :: kv_store where
  "demo_one = (case kv_insert (\<lambda>_. 0) (\<lambda>n g. (0, g)) demo_store () [1] [7] of
     Some (_, st, _) \<Rightarrow> st | None \<Rightarrow> demo_store)"

lemma demo_table_new: "fv_new 2 1 8 8 8 = Some demo_table"
  by (simp add: fv_new_iff demo_table_def div_ceil_def)

lemma demo_table_inv: "fv_inv demo_table" "fv_zeroed demo_table" "fv_padded demo_table"
  using fv_new_inv [OF demo_table_new] fv_new_clean [OF demo_table_new] by blast+

lemma demo_scheme: "valid_scheme (Segmented2aryScheme 1)"
  by (auto simp: seg_ok_def intro!: exI [of _ 0])

lemma demo_inv: "kv_inv demo_store"
  using demo_table_inv demo_scheme
  by (simp add: kv_inv_def demo_store_def kv_value_size_in_cells_def fv_value_size_in_cells_def
      demo_table_def div_ceil_def)

lemma demo_bag: "kv_bag demo_store = {#}"
  using fv_new_clean [OF demo_table_new] by (simp add: kv_bag_def demo_store_def)

lemma demo_counted: "kv_counted demo_store"
  by (simp add: kv_counted_def demo_bag) (simp add: demo_store_def)

lemma draw_zero_ok: "draw_ok (\<lambda>n g. (0, g))"
  by (simp add: draw_ok_def)

lemma demo_insert:
  "kv_insert (\<lambda>_. 0) (\<lambda>n g. (0, g)) demo_store () [1] [7] = Some (Inr (), demo_one, ())"
  by code_simp

section \<open>Index schemes\<close>

text \<open>The candidate buckets of a fingerprint form one class, for each of the six schemes: from
  any bucket of the table, \<open>all_indices\<close> returns (does not panic) four indices whose first \<open>arity\<close>
  are in the table and include the bucket, and starting from any of them gives the same set.\<close>

theorem candidates_are_a_class:
  assumes "valid_scheme s" "unat i < scheme_buckets s"
  shows "\<exists>idx. all_indices s i fp = Some idx \<and> length idx = 4 \<and> i \<in> set (take (arity s) idx) \<and>
    (\<forall>j \<in> set (take (arity s) idx). unat j < scheme_buckets s \<and>
       (\<exists>idx'. all_indices s j fp = Some idx' \<and> set (take (arity s) idx') = set (take (arity s) idx)))"
proof -
  obtain idx where idx: "all_indices s i fp = Some idx" "length idx = 4" "i \<in> candidates s i fp"
    "\<And>j. j \<in> candidates s i fp \<Longrightarrow> unat j < scheme_buckets s"
    using ix.alts_total [OF assms, of fp] by blast
  have c: "candidates s i fp = set (take (arity s) idx)" by (rule candidates_eq [OF idx(1)])
  have "\<exists>idx'. all_indices s j fp = Some idx' \<and> set (take (arity s) idx') = set (take (arity s) idx)"
    if "j \<in> set (take (arity s) idx)" for j
    using ix.alts_total [OF assms(1) idx(4), of j fp] ix.alts_stable [OF assms, of j fp] that
    unfolding c by (metis c candidates_eq)
  then show ?thesis using idx c by blast
qed

theorem candidates_are_a_class_witness:
  "\<exists>idx. all_indices (Segmented3aryScheme 4) 5 77 = Some idx \<and> length idx = 4 \<and> 5 \<in> set (take 3 idx)"
proof -
  have "valid_scheme (Segmented3aryScheme 4)" by (auto simp: seg_ok_def intro!: exI [of _ 2])
  from candidates_are_a_class [OF this, of 5 77] show ?thesis by auto
qed

text \<open>C27. Hashing an item gives a non-zero fingerprint of at most \<open>fingerprint_bits\<close> bits and
  \<open>arity\<close> buckets of the table, and \<open>all_indices\<close> from any of these buckets finds the same
  buckets again: an entry moved by a kick stays findable.\<close>

theorem hash_item_consistent:
  assumes "valid_scheme s" "0 < fb" "hash_item xxh s key fb = (fp, idx)" "p < arity s"
  shows "fp \<noteq> 0 \<and> fits fb fp \<and> unat (idx ! p) < scheme_buckets s \<and>
    (\<exists>idx'. all_indices s (idx ! p) fp = Some idx' \<and> set (take (arity s) idx') = set (take (arity s) idx))"
proof -
  note it = ix.item_total [OF assms(1-3)] and n = ix.item_nth [OF assms]
  obtain idx' where "all_indices s (idx ! p) fp = Some idx'" using ix.alts_total [OF assms(1) n(1)] by blast
  then show ?thesis using it n candidates_eq by blast
qed

theorem hash_item_consistent_witness:
  "case hash_item (\<lambda>_. 0x123456789abcdef0123456789) (Standard3aryScheme 9) [1, 2] 12 of (fp, idx) \<Rightarrow>
     fp \<noteq> 0 \<and> unat (idx ! 2) < 9"
proof -
  let ?h = "hash_item (\<lambda>_. 0x123456789abcdef0123456789) (Standard3aryScheme 9) [1, 2] 12"
  have "valid_scheme (Standard3aryScheme 9)" by (auto intro!: exI [of _ 2])
  from hash_item_consistent [OF this, of 12 "\<lambda>_. 0x123456789abcdef0123456789" "[1, 2]" "fst ?h" "snd ?h" 2]
  show ?thesis by (simp add: split_beta)
qed

text \<open>The table-driven \<open>xor3\<close> and the bit-sliced \<open>xor4\<close> are carry-free additions in base 3
  (twenty digits) and base 4 (sixteen digits).\<close>

theorem xor3_xor4_are_digit_sums:
  "unat (xor3 a b) = digit_sum 3 20 (unat a) (unat b) \<and>
   unat (xor4 a b) = digit_sum 4 16 (unat a) (unat b)"
  by (simp only: xor3_digit_sum xor4_digit_sum)

text \<open>Orbits of the digit-wise additions: three steps of \<open>xor3\<close> and four of \<open>xor4\<close> by the same
  hash return to the start, and neither leaves a table of \<open>3 ^ t\<close>, respectively \<open>4 ^ t\<close>, buckets.\<close>

theorem xor3_xor4_orbits:
  assumes "t \<le> 16" "unat x < 3 ^ t" "unat h < 3 ^ t" "unat y < 4 ^ t" "unat k < 4 ^ t"
  shows "xor3 (xor3 (xor3 x h) h) h = x \<and> unat (xor3 x h) < 3 ^ t \<and>
    xor4 (xor4 (xor4 (xor4 y k) k) k) k = y \<and> unat (xor4 y k) < 4 ^ t"
proof -
  have "(3::nat) ^ t \<le> 3 ^ 20" using assms(1) by (intro power_increasing) simp_all
  then have "unat x < 3 ^ 20" using assms(2) by linarith
  then show ?thesis using xor3_cycle xor4_cycle xor3_range xor4_range assms by simp
qed

theorem xor3_xor4_orbits_witness:
  "xor3 (xor3 (xor3 7 5) 5) 5 = 7 \<and> xor4 (xor4 (xor4 (xor4 14 3) 3) 3) 3 = 14"
  using xor3_xor4_orbits [of 2 7 5 14 3] by simp

section \<open>Cells and tables\<close>

text \<open>Writing a field of at most 64 bits into packed cells and reading it back gives the low
  bits of the written value; the cell array keeps its length and its zero high bits, and no other
  bit of it changes.\<close>

theorem bits_write_read:
  assumes "0 < pb" "pb \<le> 32" "cells_ok pb cells" "1 \<le> n" "n \<le> 64" "off + n \<le> length cells * pb"
  shows "\<exists>cs. slot_write_bits cells off n val pb = Some cs \<and>
    slot_read_bits cs off n pb = Some (take_bit n val) \<and> length cs = length cells \<and> cells_ok pb cs \<and>
    (\<forall>k < length cells * pb. k < off \<or> off + n \<le> k \<longrightarrow> cbit pb cs k = cbit pb cells k)"
proof -
  obtain cs where w: "slot_write_bits cells off n val pb = Some cs"
    using slot_write_bits_total [OF assms(1,2,6)] .
  note st = slot_write_bits_stream [OF assms(1,2,6) w]
  have "slot_read_bits cs off n pb = Some (take_bit n val)"
    using slot_read_bits_iff [OF assms(1) st(2) [OF assms(3)] assms(4,5), of off "take_bit n val"]
      assms(6) st(1) st(3) [of "off + _"] by (auto simp: bit_take_bit_iff)
  then show ?thesis using w st assms(3) by auto
qed

theorem bits_write_read_witness:
  "\<exists>cs. slot_write_bits [1, 2, 3] 5 14 0x1ABC 9 = Some cs \<and>
     slot_read_bits cs 5 14 9 = Some (take_bit 14 0x1ABC)"
proof -
  have "cells_ok 9 [1, 2, 3]" by (simp add: cells_ok_def fits_less)
  from bits_write_read [OF _ _ this, of 14 5 "0x1ABC"] show ?thesis by auto
qed

text \<open>Writing an entry into a slot of a well-formed table succeeds; the slot then holds that
  entry and every other slot what it held.\<close>

theorem table_write_read:
  assumes "fv_inv t" "b < fv_num_buckets t" "s < fv_bucket_size t"
    and "fits (fv_fingerprint_bits t) fp" "value_ok (fv_value_bits t) (fv_plaintext_bits t) v"
  shows "\<exists>t'. fv_write t b s fp v = Some t' \<and> fv_inv t' \<and>
    fv_read_fingerprint t' b s = Some fp \<and> fv_read_value t' b s (length v) = Some v \<and>
    (\<forall>b' < fv_num_buckets t. \<forall>s' < fv_bucket_size t. (b', s') \<noteq> (b, s) \<longrightarrow>
       fv_read_fingerprint t' b' s' = fv_read_fingerprint t b' s' \<and>
       fv_read_value t' b' s' (length v) = fv_read_value t b' s' (length v))"
proof -
  have ok: "fv_entry_ok t (fp, v)" using assms(4,5) by (simp add: fv_entry_ok_def)
  obtain t' where w: "fv_write t b s fp v = Some t'" using fv.wr_total [OF assms(1-3) ok] by auto
  then have w': "fv_write t b s (fst (fp, v)) (snd (fp, v)) = Some t'" by simp
  note i = fv.wr_inv [OF assms(1-3) ok w']
  have sh: "same_shape t t'"
    using entry_writtenD(1) [OF fv_write_entry [OF assms(1-3) _ w]] fv_entry_ok_len [OF ok] by simp
  have len: "length v = fv_value_size_in_cells t" "fv_value_size_in_cells t' = fv_value_size_in_cells t"
    using fv_entry_ok_len [OF ok] same_shapeD(7) [OF sh] by simp_all
  have parts: "fv_read_fingerprint t' b' s' = Some (fst (fv.view t' (b', s')))"
    "fv_read_value t' b' s' (length v) = Some (snd (fv.view t' (b', s')))"
    if "b' < fv_num_buckets t" "s' < fv_bucket_size t" for b' s'
    using fv_read_parts [of t' b' s'] i that len by simp_all
  have parts0: "fv_read_fingerprint t b' s' = Some (fst (fv.view t (b', s')))"
    "fv_read_value t b' s' (length v) = Some (snd (fv.view t (b', s')))"
    if "b' < fv_num_buckets t" "s' < fv_bucket_size t" for b' s'
    using fv_read_parts [OF assms(1) that] len(1) by simp_all
  have "fv.view t' (b', s') = fv.view t (b', s')"
    if "b' < fv_num_buckets t" "s' < fv_bucket_size t" "(b', s') \<noteq> (b, s)" for b' s'
    using fv.rd_wr_other [OF assms(1-3) ok w' that] by (simp add: fv.view_def)
  moreover have "fv.view t' (b, s) = (fp, v)" using fv.view_eq [OF fv.rd_wr_same [OF assms(1-3) ok w']] .
  ultimately show ?thesis using w i parts parts0 assms(2,3) by auto
qed

theorem table_write_read_witness:
  "\<exists>t'. fv_write demo_table 1 0 0xAB [9] = Some t' \<and> fv_read_fingerprint t' 1 0 = Some 0xAB"
proof -
  have "fits 8 (0xAB :: u64)" by (simp add: fits_less)
  moreover have "value_ok 8 8 [9]" by (simp add: value_ok_def value_cell_bits_def div_ceil_def fits_less)
  ultimately show ?thesis
    using table_write_read [OF demo_table_inv(1), of 1 0 "0xAB" "[9]"] by (auto simp: demo_table_def)
qed

text \<open>Writing back what a slot held undoes a write exactly, cell for cell: the step every
  rollback rests on.\<close>

theorem table_write_back:
  assumes "fv_inv t" "b < fv_num_buckets t" "s < fv_bucket_size t"
    and "fits (fv_fingerprint_bits t) fp" "value_ok (fv_value_bits t) (fv_plaintext_bits t) v"
    and "fv_read_fingerprint t b s = Some fp0" "fv_read_value t b s (length v) = Some v0"
    and "fv_write t b s fp v = Some t'"
  shows "fv_write t' b s fp0 v0 = Some t"
proof -
  have ok: "fv_entry_ok t (fp, v)" using assms(4,5) by (simp add: fv_entry_ok_def)
  have "fv_read t b s = Some (fp0, v0)"
    using assms(6,7) fv_entry_ok_len [OF ok] by (simp add: fv_read_def)
  then show ?thesis using fv.wr_restore [OF assms(1-3) ok, of "(fp0, v0)" t'] assms(8) by simp
qed

theorem table_write_back_witness:
  "\<exists>t'. fv_write demo_table 1 0 0xAB [9] = Some t' \<and> fv_write t' 1 0 0 [0] = Some demo_table"
proof -
  have f: "fits 8 (0xAB :: u64)" by (simp add: fits_less)
  have v: "value_ok 8 8 [9]" by (simp add: value_ok_def value_cell_bits_def div_ceil_def fits_less)
  have ok: "fv_entry_ok demo_table (0xAB, [9])" using f v by (simp add: fv_entry_ok_def demo_table_def)
  obtain t' where t': "fv_write demo_table 1 0 0xAB [9] = Some t'"
    using fv.wr_total [OF demo_table_inv(1) _ _ ok, of 1 0] by (auto simp: demo_table_def)
  have "fv_read_fingerprint demo_table 1 0 = Some 0" "fv_read_value demo_table 1 0 1 = Some [0]"
    by code_simp+
  then have "fv_write t' 1 0 0 [0] = Some demo_table"
    using table_write_back [OF demo_table_inv(1) _ _ _ _ _ _ t', of 0 "[0]"] f v by (simp add: demo_table_def)
  with t' show ?thesis by blast
qed

section \<open>The slot codec\<close>

text \<open>C25. A value of bytes packed into cells and, with its fingerprint, into a slot is recovered by
  \<open>unpack_slot_cells\<close>, up to the unused high bits of the last byte, which come back zero.\<close>

theorem slot_codec_roundtrip:
  assumes "cp_ok p" "length bytes = cp_value_size_in_bytes p" "fits (cp_fingerprint_bits p) fp"
    and "length buf = cp_value_size_in_cells p"
  shows "\<exists>v cells. pack_value_bytes_to_cells bytes buf (cp_value_bits p) (cp_plaintext_bits p) = Some v \<and>
    pack_slot_cells p fp v (cp_cells_per_slot p) = Some cells \<and>
    unpack_slot_cells p cells = Some (fp, trim_bytes (cp_value_bits p) bytes)"
  by (rule slot_codec [OF assms])

definition demo_params :: cuckoo_params where
  "demo_params = \<lparr> cp_scheme_kind = Segmented2ary, cp_num_buckets = 2, cp_bucket_size = 1,
     cp_fingerprint_bits = 11, cp_value_bits = 21, cp_plaintext_bits = 9 \<rparr>"

theorem slot_codec_roundtrip_witness:
  "\<exists>v cells. pack_value_bytes_to_cells [0xAB, 0xCD, 0xFF] [0, 0, 0] 21 9 = Some v \<and>
    pack_slot_cells demo_params 0x5A3 v 4 = Some cells \<and>
    unpack_slot_cells demo_params cells = Some (0x5A3, trim_bytes 21 [0xAB, 0xCD, 0xFF])"
  using slot_codec_roundtrip [of demo_params "[0xAB, 0xCD, 0xFF]" "0x5A3" "[0, 0, 0]"]
  by (simp add: cp_ok_def demo_params_def cp_value_size_in_bytes_def cp_value_size_in_cells_def
      cp_cells_per_slot_def div_ceil_def fits_less)

text \<open>C23. What a client decodes is what the server stores: unpacking the cells of an occupied slot,
  cut out of the flat array at \<open>slot_cell_range\<close>, gives the slot's fingerprint and the same bytes
  as the store's streaming read, and those cells are the packed entry.\<close>

theorem client_decode_agrees:
  assumes "kv_inv st" "kv_params st = Some p" "b < fv_num_buckets (kv_table st)"
    "s < fv_bucket_size (kv_table st)" "length out = kv_value_size_in_bytes st"
  shows "\<exists>lo hi cells fp v bytes. cp_slot_cell_range p b s = Some (lo, hi) \<and>
    slice_opt (kv_snapshot_cells st) lo (hi - lo) = Some cells \<and>
    fv_read_fingerprint (kv_table st) b s = Some fp \<and>
    fv_read_value_to_box (kv_table st) b s = Some v \<and>
    pack_slot_cells p fp v (length cells) = Some cells \<and>
    unpack_slot_cells p cells = Some (fp, bytes) \<and>
    unpack_value_streaming (kv_table st) b s out (fv_value_bits (kv_table st))
      (fv_plaintext_bits (kv_table st)) (kv_value_size_in_cells st) = Some bytes"
proof -
  have inv: "fv_inv (kv_table st)" "fv_padded (kv_table st)" using assms(1) by (simp_all add: kv_inv_def)
  have d: "describes p (kv_table st)" by (rule kv_params_describes [OF assms(2)])
  obtain fp v where rd: "fv_read (kv_table st) b s = Some (fp, v)"
    using fv_read_total [OF inv(1) assms(3,4)] by auto
  have parts: "fv_read_fingerprint (kv_table st) b s = Some fp" "fv_read_value_to_box (kv_table st) b s = Some v"
    using rd fv_read_to_box [OF inv(1) assms(3,4) rd] by (auto simp: fv_read_def bind_eq_Some_conv)
  obtain lo hi where lo: "cp_slot_cell_range p b s = Some (lo, hi)"
    "slice_opt (fv_cells (kv_table st)) lo (hi - lo) = Some (slot_cells (kv_table st) b s)"
    using slot_cells_range [OF inv(1) d assms(3,4)] by metis
  have len: "length (slot_cells (kv_table st) b s) = cp_cells_per_slot p"
    using slot_cells_length(2) [OF inv(1) assms(3,4)] describesD(7) [OF d inv(1)] by simp
  have lo': "length out = div_ceil (fv_value_bits (kv_table st)) 8"
    using assms(5) by (simp add: kv_value_size_in_bytes_def)
  obtain bytes where "unpack_slot_cells p (slot_cells (kv_table st) b s) = Some (fp, bytes)"
    "unpack_value_streaming (kv_table st) b s out (fv_value_bits (kv_table st))
      (fv_plaintext_bits (kv_table st)) (fv_value_size_in_cells (kv_table st)) = Some bytes"
    using slot_cells_unpack [OF inv(1) d assms(3,4) rd lo'] by metis
  then show ?thesis
    using lo parts slot_cells_pack [OF inv d assms(3,4) rd] len
    by (auto simp: kv_snapshot_cells_def kv_value_size_in_cells_def)
qed

theorem client_decode_agrees_witness:
  "\<exists>p cells fp bytes. kv_params demo_store = Some p \<and> cp_slot_cell_range p 1 0 = Some (2, 4) \<and>
     slice_opt (kv_snapshot_cells demo_store) 2 2 = Some cells \<and>
     unpack_slot_cells p cells = Some (fp, bytes)"
proof -
  obtain p where p: "kv_params demo_store = Some p" by (simp add: kv_params_def demo_store_def)
  moreover have "cp_slot_cell_range p 1 0 = Some (2, 4)"
    using p by (auto simp: kv_params_def demo_store_def demo_table_def cp_slot_cell_range_def
        cp_cells_per_slot_def div_ceil_def)
  ultimately show ?thesis
    using client_decode_agrees [OF demo_inv p, of 1 0 "[0]"]
    by (auto simp: demo_store_def demo_table_def kv_value_size_in_bytes_def div_ceil_def)
qed

section \<open>The key-value store\<close>

text \<open>The three constructors return, and a store they accept is well-formed, empty, and has the
  mutation log off.\<close>

theorem store_new_fresh:
  assumes "nb < 2 ^ 32" "bs < 2 ^ 32" "fb < 2 ^ 32" "vb \<le> 2 ^ 20" "pb < 2 ^ 32"
    and "new \<in> {kv_new_2ary, kv_new_3ary, kv_new_4ary}"
  shows "new nb bs fb vb pb \<noteq> None \<and>
    (\<forall>st. new nb bs fb vb pb = Some (Inr st) \<longrightarrow>
      kv_inv st \<and> kv_counted st \<and> kv_bag st = {#} \<and> kv_mutation_log st = None)"
  using kv_new_total [OF assms] kv_new_fresh [OF assms(1), of bs fb vb pb] assms(6)
  unfolding kv_fresh_def by blast

theorem store_new_fresh_witness:
  "\<exists>r. kv_new_3ary 12 4 16 100 10 = Some r \<and> (\<forall>st. r = Inr st \<longrightarrow> kv_inv st)"
  using store_new_fresh [of 12 4 16 100 10 kv_new_3ary] by auto

text \<open>C10. Insert. On a well-formed store and any source of randomness, the call returns. Either it
  reports \<open>TableFull\<close> and every cell of the table, the item count and the log are as before (all
  kicks were rolled back), or it adds exactly one entry, of the key, holding the given bytes, to
  the bag of entries, whatever was relocated, and the count grows by one.\<close>

theorem insert_adds_or_rolls_back:
  assumes "kv_inv st" "kv_counted st" "draw_ok draw" "length val = kv_value_size_in_bytes st"
  shows "\<exists>r st' g'. kv_insert xxh draw st g key val = Some (r, st', g') \<and> kv_inv st' \<and> kv_counted st' \<and>
    (r = Inl TableFull \<and> kv_table st' = kv_table st \<and> kv_mutation_log st' = kv_mutation_log st \<and>
       kv_num_items st' = kv_num_items st \<or>
     r = Inr () \<and> kv_num_items st' = kv_num_items st + 1 \<and>
       (\<exists>v. kv_decodes st v (trim_bytes (fv_value_bits (kv_table st)) val) \<and>
          kv_bag st' = kv_bag st + {# (fst (key_tag xxh st key), snd (key_tag xxh st key), v) #}))"
  using kv_insert_spec [OF assms(1,3,4), of xxh g key] kv_insert_keeps [OF assms(1-3)] by blast

theorem insert_adds_or_rolls_back_witness:
  "kv_inv demo_one \<and> kv_num_items demo_one = 1 \<and> size (kv_bag demo_one) = 1"
  using insert_adds_or_rolls_back [OF demo_inv demo_counted draw_zero_ok, of "[7]" "\<lambda>_. 0" "()" "[1]"]
    demo_insert demo_bag
  by (auto simp: kv_value_size_in_bytes_def demo_store_def demo_table_def div_ceil_def)

text \<open>C24. After a successful insert of a key that had no entry, \<open>contain\<close> is true and \<open>get\<close> returns the
  inserted bytes with the bits beyond \<open>value_bits\<close> in the last byte cleared; for a value width in whole
  bytes these are exactly the inserted bytes.\<close>

theorem insert_then_get:
  assumes "kv_inv st" "draw_ok draw" "kv_values xxh st key = {}"
    and "kv_insert xxh draw st g key val = Some (Inr (), st', g')"
  shows "kv_get xxh st' key = Some (Some (trim_bytes (fv_value_bits (kv_table st)) val)) \<and>
    (fv_value_bits (kv_table st) mod 8 = 0 \<longrightarrow> kv_get xxh st' key = Some (Some val)) \<and>
    kv_contain xxh st' key = Some True"
proof -
  have len: "length val = kv_value_size_in_bytes st"
    using assms(4) kv_insert_invalid [of val st xxh draw g key] by (cases "length val = kv_value_size_in_bytes st") auto
  obtain v ms where v: "kv_decodes st v (trim_bytes (fv_value_bits (kv_table st)) val)"
    "kv_bag st' = kv_bag st + {# (fst (key_tag xxh st key), snd (key_tag xxh st key), v) #}"
    and c: "kv_committed st st' ms"
    using kv_insert_spec [OF assms(1,2) len, of xxh g key] assms(4) by auto
  have inv': "kv_inv st'" by (rule kv_committed_inv [OF assms(1) c])
  have fr: "kv_scheme st' = kv_scheme st" "same_shape (kv_table st) (kv_table st')"
    using c by (simp_all add: kv_committed_def kv_frame_def)
  have tag: "key_tag xxh st' key = key_tag xxh st key"
    using fr(1) same_shapeD [OF fr(2)] by (simp add: key_tag_def)
  have vals: "kv_values xxh st' key = {v}"
    using assms(3) by (auto simp: kv_values_def tag v(2))
  obtain bytes where "kv_get xxh st' key = Some (Some bytes)" "kv_decodes st' v bytes"
    using kv_get_some [OF inv', of xxh key] vals by auto
  moreover have "kv_decodes st' v = kv_decodes st v"
    using same_shapeD [OF fr(2)] by simp
  ultimately have "kv_get xxh st' key = Some (Some (trim_bytes (fv_value_bits (kv_table st)) val))"
    using decodes_unique v(1) by fastforce
  then show ?thesis using kv_contain_iff [OF inv', of xxh key] vals by (simp add: trim_bytes_def)
qed

theorem insert_then_get_witness:
  "kv_get (\<lambda>_. 0) demo_one [1] = Some (Some [7]) \<and> kv_contain (\<lambda>_. 0) demo_one [1] = Some True"
proof -
  have "kv_values (\<lambda>_. 0) demo_store [1] = {}" by (simp add: kv_values_def demo_bag)
  from insert_then_get [OF demo_inv draw_zero_ok this demo_insert] show ?thesis
    by (simp add: trim_bytes_def demo_store_def demo_table_def)
qed

text \<open>Lookups agree with the bag of entries: \<open>contain\<close> is true and \<open>get\<close> returns bytes exactly
  when the key has an entry, and the bytes are the value of one of its entries.\<close>

theorem lookups_agree_with_bag:
  assumes "kv_inv st"
  shows "kv_contain xxh st key = Some (kv_values xxh st key \<noteq> {}) \<and>
    (if kv_values xxh st key = {} then kv_get xxh st key = Some None
     else \<exists>v \<in> kv_values xxh st key. \<exists>bytes. kv_get xxh st key = Some (Some bytes) \<and> kv_decodes st v bytes)"
proof (cases "kv_values xxh st key = {}")
  case True
  then show ?thesis using kv_contain_iff [OF assms] kv_get_miss [OF assms] by simp
next
  case False
  obtain v bytes where "v \<in> kv_values xxh st key" "kv_get xxh st key = Some (Some bytes)" "kv_decodes st v bytes"
    using kv_get_some [OF assms False] .
  then show ?thesis using kv_contain_iff [OF assms] False by auto
qed

theorem lookups_agree_with_bag_witness:
  "kv_contain (\<lambda>_. 0) demo_store [3] = Some False \<and> kv_get (\<lambda>_. 0) demo_store [3] = Some None"
  using lookups_agree_with_bag [OF demo_inv, of "\<lambda>_. 0" "[3]"] by (simp add: kv_values_def demo_bag)

text \<open>C12. Delete. A key with an entry loses exactly the entry \<open>get\<close> would have returned, and the
  count drops by one; a key without one gets \<open>NotFound\<close> and the store is unchanged.\<close>

theorem delete_removes_one:
  assumes "kv_inv st" "kv_counted st"
  shows "if kv_values xxh st key = {} then kv_delete xxh st key = Some (Inl NotFound, st)
    else \<exists>v bytes st'. kv_delete xxh st key = Some (Inr (), st') \<and> kv_inv st' \<and> kv_counted st' \<and>
      kv_get xxh st key = Some (Some bytes) \<and> kv_decodes st v bytes \<and>
      kv_bag st = kv_bag st' + {# (fst (key_tag xxh st key), snd (key_tag xxh st key), v) #}"
proof (cases "kv_values xxh st key = {}")
  case True
  then show ?thesis using kv_delete_miss [OF assms(1)] by simp
next
  case False
  then show ?thesis
    using kv_delete_hit [OF assms False] kv_committed_inv [OF assms(1)] unfolding if_not_P [OF False] by blast
qed

theorem delete_removes_one_witness:
  "kv_delete (\<lambda>_. 0) demo_store [1] = Some (Inl NotFound, demo_store)"
  using delete_removes_one [OF demo_inv demo_counted, of "\<lambda>_. 0" "[1]"] by (simp add: kv_values_def demo_bag)

text \<open>C13. Update. A key with an entry has the entry \<open>get\<close> returns replaced by one with the new bytes
  and nothing else changes; a key without one gets \<open>NotFound\<close> and the table and the log stay; a
  value of the wrong length gets \<open>InvalidParams\<close> and the store is untouched.\<close>

theorem update_replaces_one:
  assumes "kv_inv st"
  shows "if length val \<noteq> kv_value_size_in_bytes st then kv_update xxh st key val = Some (Inl InvalidParams, st)
    else if kv_values xxh st key = {} then
      \<exists>st'. kv_update xxh st key val = Some (Inl NotFound, st') \<and> kv_table st' = kv_table st \<and>
        kv_mutation_log st' = kv_mutation_log st
    else \<exists>v bytes w st'. kv_update xxh st key val = Some (Inr (), st') \<and> kv_inv st' \<and>
      kv_get xxh st key = Some (Some bytes) \<and> kv_decodes st v bytes \<and>
      kv_decodes st w (trim_bytes (fv_value_bits (kv_table st)) val) \<and>
      kv_num_items st' = kv_num_items st \<and>
      kv_bag st' + {# (fst (key_tag xxh st key), snd (key_tag xxh st key), v) #} =
      kv_bag st + {# (fst (key_tag xxh st key), snd (key_tag xxh st key), w) #}"
proof (cases "length val = kv_value_size_in_bytes st")
  case len: True
  show ?thesis
  proof (cases "kv_values xxh st key = {}")
    case True
    then show ?thesis using kv_update_miss [OF assms len True] len by auto
  next
    case False
    then show ?thesis
      using kv_update_hit [OF assms len False] kv_committed_inv [OF assms] len by (simp, metis)
  qed
qed (simp add: kv_update_def)

theorem update_replaces_one_witness:
  "kv_update (\<lambda>_. 0) demo_store [1] [7, 7] = Some (Inl InvalidParams, demo_store)"
  using update_replaces_one [OF demo_inv, of "[7, 7]" "\<lambda>_. 0" "[1]"]
  by (simp add: kv_value_size_in_bytes_def demo_store_def demo_table_def div_ceil_def)

text \<open>C14. The store as a state machine. In every state reachable from a well-formed store by inserts,
  updates, deletes and log operations, the invariant holds and the item count is the number of
  entries, and each further call refines the step of the machine on bags for that call: an insert adds
  at most one entry, of its key and holding its bytes, a delete removes at most one entry of its
  key, an update replaces at most one entry of its key by one holding its bytes, and the other
  calls change no entry.\<close>

theorem store_machine_refines_bags:
  assumes "kv_inv st0" "kv_counted st0" "draw_ok draw" "kv_reachable xxh draw st0 g0 st g"
  shows "kv_inv st \<and> kv_counted st \<and>
    (\<forall>c st' g'. kv_exec xxh draw c (st, g) = Some (st', g') \<longrightarrow>
      bag_step (key_tag xxh st) (kv_holds st) c (kv_bag st) (kv_bag st'))"
proof -
  have "kv_inv st \<and> kv_counted st"
    using assms(4)
  proof (induction rule: kv_reachable.induct)
    case (reach_step st g c st' g')
    then show ?case using kv_exec_keeps [OF _ _ assms(3)] by blast
  qed (use assms(1,2) in simp)
  then show ?thesis using kv_exec_keeps [OF _ _ assms(3)] by blast
qed

theorem store_machine_refines_bags_witness:
  "kv_inv demo_one \<and> kv_num_items demo_one = size (kv_bag demo_one)"
proof -
  have "kv_reachable (\<lambda>_. 0) (\<lambda>n g. (0, g)) demo_store () demo_one ()"
    by (rule reach_step [OF reach_start, where c = "KV_Insert [1] [7]"]) (simp add: kv_exec_def demo_insert)
  from store_machine_refines_bags [OF demo_inv demo_counted draw_zero_ok this]
  show ?thesis by (simp add: kv_counted_def)
qed

text \<open>No call panics in a well-formed state (for \<open>set_max_kicks\<close>, when the rollback buffer it
  allocates has a representable size): the whole insert, with its random kicks, returns.\<close>

theorem store_calls_return:
  assumes "kv_inv st" "kv_counted st" "draw_ok draw"
    and "\<forall>n. c = KV_Set_Max_Kicks n \<longrightarrow> n * kv_value_size_in_cells st < 2 ^ 64"
  shows "\<exists>st' g'. kv_exec xxh draw c (st, g) = Some (st', g')"
  using kv_exec_total [OF assms(1-3), of c xxh g] assms(4) by auto

theorem store_calls_return_witness:
  "\<exists>st' g'. kv_exec (\<lambda>_. 0) (\<lambda>n g. (0, g)) (KV_Set_Max_Kicks 7) (demo_store, ()) = Some (st', g')"
  by (rule store_calls_return [OF demo_inv demo_counted draw_zero_ok])
    (simp add: kv_value_size_in_cells_def fv_value_size_in_cells_def demo_store_def demo_table_def div_ceil_def)

text \<open>C11. The mutation log is complete and exact: with the log on, a call appends records whose
  replay with \<open>apply_mutation\<close> turns the old table into the new one, in order.\<close>

theorem mutation_log_replays:
  assumes "kv_inv st" "kv_counted st" "draw_ok draw" "kv_mutation_log st = Some log"
    and "c \<in> {KV_Insert key val, KV_Update key val, KV_Delete key}"
    and "kv_exec xxh draw c (st, g) = Some (st', g')"
  shows "\<exists>ms. kv_mutation_log st' = Some (log @ ms) \<and>
    kv_replay ms st = Some (st\<lparr> kv_table := kv_table st' \<rparr>)"
proof -
  obtain ms where "logged (kv_table st) ms (kv_table st')"
      "kv_mutation_log st' = map_option (\<lambda>log. log @ ms) (kv_mutation_log st)"
    using kv_exec_logged [OF assms(1-3,5,6)] by blast
  then show ?thesis using logged_replay [of "kv_table st" ms _ st] assms(4) by auto
qed

theorem mutation_log_replays_witness:
  "\<exists>ms. kv_mutation_log demo_one = Some ms \<and>
     kv_replay ms demo_store = Some (demo_store\<lparr> kv_table := kv_table demo_one \<rparr>)"
  using mutation_log_replays [OF demo_inv demo_counted draw_zero_ok, of "[]" "KV_Insert [1] [7]" "[1]" "[7]"
      "\<lambda>_. 0" "()" demo_one "()"] demo_insert
  by (simp add: kv_exec_def) (simp add: demo_store_def)

text \<open>C26. Snapshot and restore: \<open>from_cells\<close> on the snapshot of a segmented store's cells and its
  parameters gives a store with the same table and scheme.\<close>

theorem snapshot_restore:
  assumes "kv_inv st" "kv_params st = Some p" "length (kv_snapshot_cells st) < 2 ^ 50"
    and "cp_value_bits p < 2 ^ 20"
  shows "\<exists>st' from_cells. from_cells = (case cp_scheme_kind p of Segmented2ary \<Rightarrow> kv_from_cells_2ary
      | Segmented3ary \<Rightarrow> kv_from_cells_3ary | Segmented4ary \<Rightarrow> kv_from_cells_4ary) \<and>
    from_cells (kv_snapshot_cells st) p (kv_num_items st) = Some (Inr st') \<and>
    kv_inv st' \<and> kv_table st' = kv_table st \<and> kv_scheme st' = kv_scheme st \<and>
    kv_num_items st' = kv_num_items st"
  using kv_restore [OF assms] by blast

theorem snapshot_restore_witness:
  "\<exists>p st'. kv_params demo_store = Some p \<and>
     kv_from_cells_2ary [0, 0, 0, 0] p 0 = Some (Inr st') \<and> kv_table st' = demo_table"
proof -
  obtain p where p: "kv_params demo_store = Some p" "cp_scheme_kind p = Segmented2ary" "cp_value_bits p = 8"
    by (simp add: kv_params_def demo_store_def demo_table_def)
  have "kv_snapshot_cells demo_store = [0, 0, 0, 0]"
    by (simp add: kv_snapshot_cells_def demo_store_def demo_table_def numeral_eq_Suc)
  then have "\<exists>st'. kv_from_cells_2ary [0, 0, 0, 0] p 0 = Some (Inr st') \<and> kv_table st' = kv_table demo_store"
    using snapshot_restore [OF demo_inv p(1)] p(2,3) by (auto simp: demo_store_def)
  then show ?thesis using p(1) by (auto simp: demo_store_def)
qed

end
