(* ===== verification/Byte_Bits.thy ===== *)
theory Byte_Bits
  imports Prelude
begin

text \<open>
  A byte buffer as a list of bits, lowest bit of the first byte first, and the little-endian words
  \<open>from_le_bytes\<close> and \<open>to_le_bytes\<close> of the standard library as windows of that list.
\<close>

section \<open>The bits of a buffer\<close>

definition byte_bits :: "u8 list \<Rightarrow> bool list" where
  "byte_bits bytes = map (\<lambda>i. bit (bytes ! (i div 8)) (i mod 8)) [0..<8 * length bytes]"

lemma length_byte_bits [simp]: "length (byte_bits bytes) = 8 * length bytes"
  by (simp add: byte_bits_def)

lemma nth_byte_bits: "i < 8 * length bytes \<Longrightarrow> byte_bits bytes ! i = bit (bytes ! (i div 8)) (i mod 8)"
  by (simp add: byte_bits_def)

lemma byte_bits_inject: "byte_bits a = byte_bits b \<Longrightarrow> a = b"
proof -
  assume eq: "byte_bits a = byte_bits b"
  have len: "length a = length b" using arg_cong [OF eq, of length] by simp
  show "a = b"
  proof (rule list_eq_nthI [OF len], rule word_eq_bitI)
    fix i j assume i: "i < length a" "j < LENGTH(8)"
    then have "8 * i + j < 8 * length a" by simp
    with eq len have "bit (a ! ((8 * i + j) div 8)) ((8 * i + j) mod 8) = bit (b ! ((8 * i + j) div 8)) ((8 * i + j) mod 8)"
      by (metis nth_byte_bits)
    with i show "bit (a ! i) j = bit (b ! i) j" by simp
  qed
qed

section \<open>Little-endian words\<close>

definition from_le_bytes :: "u8 list \<Rightarrow> 'a::len word" where
  "from_le_bytes bytes = word_of_int (horner_sum uint (2 ^ 8) bytes)"

definition to_le_bytes :: "nat \<Rightarrow> 'a::len word \<Rightarrow> u8 list" where
  "to_le_bytes n w = map (\<lambda>i. ucast (drop_bit (8 * i) w)) [0..<n]"

lemma length_to_le_bytes [simp]: "length (to_le_bytes n w) = n"
  by (simp add: to_le_bytes_def)

lemma bit_from_le_bytes:
  "bit (from_le_bytes bytes :: 'a::len word) j \<longleftrightarrow> j < LENGTH('a) \<and> j < 8 * length bytes \<and> byte_bits bytes ! j"
  using bit_horner_sum_uint_exp_iff [of bytes j]
  by (auto simp: from_le_bytes_def bit_word_of_int_iff nth_byte_bits div_less_iff_less_mult mult.commute)

lemma nth_to_le_bytes_bits: "i < 8 * n \<Longrightarrow> byte_bits (to_le_bytes n w) ! i = bit w i"
  by (auto simp: nth_byte_bits to_le_bytes_def less_mult_imp_div_less mult.commute bit_drop_bit_eq)

lemma byte_bits_append: "byte_bits (xs @ ys) = byte_bits xs @ byte_bits ys"
proof (rule nth_equalityI)
  fix i assume "i < length (byte_bits (xs @ ys))"
  then have i: "i < 8 * length xs + 8 * length ys" by simp
  show "byte_bits (xs @ ys) ! i = (byte_bits xs @ byte_bits ys) ! i"
  proof (cases "i < 8 * length xs")
    case True
    then show ?thesis by (simp add: nth_byte_bits nth_append less_mult_imp_div_less mult.commute)
  next
    case False
    then obtain k where k: "i = 8 * length xs + k" by (metis le_Suc_ex not_less)
    then show ?thesis using i by (simp add: nth_byte_bits nth_append)
  qed
qed simp

text \<open>Loading and storing a window of \<open>n\<close> bytes.\<close>

lemma bit_window_load:
  assumes "bp + n \<le> length bytes" "j < LENGTH('a)" "j < 8 * n"
  shows "bit (from_le_bytes (take n (drop bp bytes)) :: 'a::len word) j \<longleftrightarrow> byte_bits bytes ! (8 * bp + j)"
proof -
  have "bytes = take bp bytes @ take n (drop bp bytes) @ drop (bp + n) bytes"
    by (simp add: take_drop_chain)
  then have "byte_bits bytes = byte_bits (take bp bytes) @ byte_bits (take n (drop bp bytes)) @ byte_bits (drop (bp + n) bytes)"
    by (metis byte_bits_append)
  then have "byte_bits bytes ! (8 * bp + j) = byte_bits (take n (drop bp bytes)) ! j"
    using assms by (simp add: nth_append)
  then show ?thesis using assms by (simp add: bit_from_le_bytes)
qed

lemma nth_window_store:
  assumes "splice_opt bytes bp (to_le_bytes n w) = Some bytes'" "i < 8 * length bytes"
  shows "byte_bits bytes' ! i = (if 8 * bp \<le> i \<and> i < 8 * bp + 8 * n then bit w (i - 8 * bp) else byte_bits bytes ! i)"
proof -
  have le: "bp + n \<le> length bytes" and b': "bytes' = take bp bytes @ to_le_bytes n w @ drop (bp + n) bytes"
    using assms(1) by (auto simp: splice_opt_def split: if_splits)
  have "bytes = take bp bytes @ take n (drop bp bytes) @ drop (bp + n) bytes"
    by (simp add: take_drop_chain)
  then have b: "byte_bits bytes = byte_bits (take bp bytes) @ byte_bits (take n (drop bp bytes)) @ byte_bits (drop (bp + n) bytes)"
    by (metis byte_bits_append)
  show ?thesis unfolding b b' byte_bits_append
    using le assms(2) by (auto simp: nth_append nth_to_le_bytes_bits)
qed

end
