(* ===== verification/FP_Table.thy ===== *)
theory FP_Table
  imports Byte_Bits Slot_Array
begin

text \<open>
  \<open>segmented-cuckoo/src/fingerprint_table.rs\<close>: the bit-packed fingerprints of the cuckoo filter.
  Slot \<open>(bucket, slot)\<close> is a field of \<open>fingerprint_bits\<close> bits in a byte buffer with 16 bytes of
  padding, read and written through an 8-byte window, or a 16-byte one for fields above 56 bits.
  The table provides the contract of Slot_Array.
\<close>

record fp_table =
  ft_data :: "u8 list"
  ft_num_buckets :: nat
  ft_bucket_size :: nat
  ft_fingerprint_bits :: nat

definition ft_new :: "nat \<Rightarrow> nat \<Rightarrow> nat \<Rightarrow> fp_table option" where
  "ft_new num_buckets bucket_size fingerprint_bits =
     do {
       let total_bits = num_buckets * bucket_size * fingerprint_bits;
       assert_opt (num_buckets * bucket_size < 2 ^ 64 \<and> total_bits < 2 ^ 64);
       let total_bytes = div_ceil total_bits 8;
       Some \<lparr> ft_data = replicate (total_bytes + 16) 0, ft_num_buckets = num_buckets,
         ft_bucket_size = bucket_size, ft_fingerprint_bits = fingerprint_bits \<rparr>
     }"

definition ft_size_in_bytes :: "fp_table \<Rightarrow> nat" where
  "ft_size_in_bytes t = div_ceil (ft_num_buckets t * ft_bucket_size t * ft_fingerprint_bits t) 8"

definition ft_slot_index :: "fp_table \<Rightarrow> nat \<Rightarrow> nat \<Rightarrow> nat" where
  "ft_slot_index t bucket slot = bucket * ft_bucket_size t + slot"

definition ft_bit_offset :: "fp_table \<Rightarrow> nat \<Rightarrow> nat \<Rightarrow> nat" where
  "ft_bit_offset t bucket slot = ft_slot_index t bucket slot * ft_fingerprint_bits t"

text \<open>The load of the window at \<open>byte_pos\<close>; a slice out of range panics.\<close>

definition ft_load :: "u8 list \<Rightarrow> nat \<Rightarrow> nat \<Rightarrow> 'a::len word option" where
  "ft_load data byte_pos n = map_option from_le_bytes (slice_opt data byte_pos n)"

definition ft_read :: "fp_table \<Rightarrow> nat \<Rightarrow> nat \<Rightarrow> u64 option" where
  "ft_read t bucket slot =
     do {
       assert_opt (bucket < ft_num_buckets t \<and> slot < ft_bucket_size t);
       let bit_pos = ft_bit_offset t bucket slot;
       let byte_pos = bit_pos div 8;
       let bit_shift = bit_pos mod 8;
       if ft_fingerprint_bits t \<le> 56 then do {
         let mask = (push_bit (ft_fingerprint_bits t) 1 - 1 :: u64);
         val \<leftarrow> ft_load (ft_data t) byte_pos 8;
         Some (drop_bit bit_shift val AND mask)
       } else do {
         assert_opt (ft_fingerprint_bits t < 128);
         let mask = (push_bit (ft_fingerprint_bits t) 1 - 1 :: u128);
         val \<leftarrow> ft_load (ft_data t) byte_pos 16;
         Some (ucast (drop_bit bit_shift val AND mask))
       }
     }"

definition ft_write :: "fp_table \<Rightarrow> nat \<Rightarrow> nat \<Rightarrow> u64 \<Rightarrow> fp_table option" where
  "ft_write t bucket slot fingerprint =
     do {
       assert_opt (bucket < ft_num_buckets t \<and> slot < ft_bucket_size t);
       let bit_pos = ft_bit_offset t bucket slot;
       let byte_pos = bit_pos div 8;
       let bit_shift = bit_pos mod 8;
       data \<leftarrow> (if ft_fingerprint_bits t \<le> 56 then do {
         let mask = (push_bit (ft_fingerprint_bits t) 1 - 1 :: u64);
         val \<leftarrow> ft_load (ft_data t) byte_pos 8;
         let val1 = val AND NOT (push_bit bit_shift mask);
         let val2 = val1 OR push_bit bit_shift (fingerprint AND mask);
         splice_opt (ft_data t) byte_pos (to_le_bytes 8 val2)
       } else do {
         assert_opt (ft_fingerprint_bits t < 128);
         let mask = (push_bit (ft_fingerprint_bits t) 1 - 1 :: u128);
         val \<leftarrow> ft_load (ft_data t) byte_pos 16;
         let val1 = val AND NOT (push_bit bit_shift mask);
         let val2 = val1 OR push_bit bit_shift (ucast fingerprint AND mask);
         splice_opt (ft_data t) byte_pos (to_le_bytes 16 val2)
       });
       Some (t\<lparr> ft_data := data \<rparr>)
     }"

definition ft_contain :: "fp_table \<Rightarrow> nat \<Rightarrow> u64 \<Rightarrow> bool option" where
  "ft_contain t bucket fingerprint =
     do {
       r \<leftarrow> scan [0..<ft_bucket_size t] (\<lambda>s. do { x \<leftarrow> ft_read t bucket s; Some (x = fingerprint) });
       Some (r \<noteq> None)
     }"

definition ft_find :: "fp_table \<Rightarrow> nat \<Rightarrow> u64 \<Rightarrow> nat option option" where
  "ft_find t bucket fingerprint =
     scan [0..<ft_bucket_size t] (\<lambda>s. do { x \<leftarrow> ft_read t bucket s; Some (x = fingerprint) })"

definition ft_delete :: "fp_table \<Rightarrow> nat \<Rightarrow> u64 \<Rightarrow> (fp_table \<times> bool) option" where
  "ft_delete t bucket fingerprint =
     do {
       assert_opt (fingerprint \<noteq> 0);
       r \<leftarrow> scan [0..<ft_bucket_size t] (\<lambda>s. do { x \<leftarrow> ft_read t bucket s; Some (x = fingerprint) });
       case r of
         Some s \<Rightarrow> do { t' \<leftarrow> ft_write t bucket s 0; Some (t', True) }
       | None \<Rightarrow> Some (t, False)
     }"

definition ft_insert :: "fp_table \<Rightarrow> nat \<Rightarrow> u64 \<Rightarrow> (fp_table \<times> nat option) option" where
  "ft_insert t bucket fingerprint =
     do {
       assert_opt (fingerprint \<noteq> 0);
       r \<leftarrow> scan [0..<ft_bucket_size t] (\<lambda>s. do { x \<leftarrow> ft_read t bucket s; Some (x = 0) });
       case r of
         Some s \<Rightarrow> do { t' \<leftarrow> ft_write t bucket s fingerprint; Some (t', Some s) }
       | None \<Rightarrow> Some (t, None)
     }"

section \<open>The field of a slot\<close>

definition ft_inv :: "fp_table \<Rightarrow> bool" where
  "ft_inv t \<longleftrightarrow> 1 \<le> ft_fingerprint_bits t \<and> ft_fingerprint_bits t \<le> 64 \<and>
     length (ft_data t) = ft_size_in_bytes t + 16"

definition ft_bits :: "fp_table \<Rightarrow> bool list" where
  "ft_bits t = byte_bits (ft_data t)"

lemma ft_new_inv:
  assumes "1 \<le> fb" "fb \<le> 64" "ft_new nb bs fb = Some t"
  shows "ft_inv t" "ft_num_buckets t = nb" "ft_bucket_size t = bs" "ft_fingerprint_bits t = fb"
    "i < 8 * length (ft_data t) \<Longrightarrow> \<not> ft_bits t ! i"
  using assms by (auto simp: ft_new_def ft_inv_def ft_size_in_bytes_def ft_bits_def nth_byte_bits Let_def less_mult_imp_div_less mult.commute bind_eq_Some_conv)

lemma ft_field:
  assumes "ft_inv t" "b < ft_num_buckets t" "s < ft_bucket_size t"
  shows "ft_bit_offset t b s + ft_fingerprint_bits t \<le> 8 * ft_size_in_bytes t"
    "ft_bit_offset t b s div 8 + 16 \<le> length (ft_data t)"
proof -
  have "Suc (b * ft_bucket_size t + s) \<le> ft_num_buckets t * ft_bucket_size t"
    using mult_add_less [OF assms(2,3)] by simp
  then have "Suc (b * ft_bucket_size t + s) * ft_fingerprint_bits t \<le> ft_num_buckets t * ft_bucket_size t * ft_fingerprint_bits t"
    by (rule mult_le_mono1)
  also have "\<dots> \<le> ft_size_in_bytes t * 8" unfolding ft_size_in_bytes_def by (rule div_ceil_mult_ge) simp
  finally show a: "ft_bit_offset t b s + ft_fingerprint_bits t \<le> 8 * ft_size_in_bytes t"
    by (simp add: ft_bit_offset_def ft_slot_index_def)
  then have "ft_bit_offset t b s div 8 \<le> ft_size_in_bytes t" by linarith
  then show "ft_bit_offset t b s div 8 + 16 \<le> length (ft_data t)" using assms(1) by (simp add: ft_inv_def)
qed

lemma ft_fields_disjoint:
  assumes "s < ft_bucket_size t" "s' < ft_bucket_size t" "(b', s') \<noteq> (b, s)"
  shows "ft_bit_offset t b' s' + ft_fingerprint_bits t \<le> ft_bit_offset t b s \<or>
    ft_bit_offset t b s + ft_fingerprint_bits t \<le> ft_bit_offset t b' s'"
proof -
  have "ft_slot_index t b' s' \<noteq> ft_slot_index t b s"
    using assms block_index_eq [of s' "ft_bucket_size t" s b' b] by (auto simp: ft_slot_index_def)
  then consider "Suc (ft_slot_index t b' s') \<le> ft_slot_index t b s" | "Suc (ft_slot_index t b s) \<le> ft_slot_index t b' s'"
    by linarith
  then show ?thesis
  proof cases
    case 1
    then have "Suc (ft_slot_index t b' s') * ft_fingerprint_bits t \<le> ft_slot_index t b s * ft_fingerprint_bits t" by (rule mult_le_mono1)
    then show ?thesis by (simp add: ft_bit_offset_def)
  next
    case 2
    then have "Suc (ft_slot_index t b s) * ft_fingerprint_bits t \<le> ft_slot_index t b' s' * ft_fingerprint_bits t" by (rule mult_le_mono1)
    then show ?thesis by (simp add: ft_bit_offset_def)
  qed
qed

lemma bit_field_mask: "bit (2 ^ w - 1 :: 'a::len word) j \<longleftrightarrow> j < LENGTH('a) \<and> j < w"
  by (auto simp: bit_mask_iff simp flip: mask_eq_exp_minus_1)

text \<open>A field of \<open>w\<close> bits at offset \<open>off\<close>, through a window of \<open>n\<close> bytes.\<close>

lemma load_field:
  fixes val :: "'a::len word"
  assumes "ft_load data (off div 8) n = Some val" "off mod 8 + w \<le> 8 * n" "LENGTH('a) = 8 * n"
  shows "bit (drop_bit (off mod 8) val AND (push_bit w 1 - 1)) j \<longleftrightarrow> j < w \<and> byte_bits data ! (off + j)"
proof (cases "j < w")
  case True
  have le: "off div 8 + n \<le> length data" "val = from_le_bytes (take n (drop (off div 8) data))"
    using assms(1) by (auto simp: ft_load_def slice_opt_def split: if_splits)
  have "bit val (off mod 8 + j) \<longleftrightarrow> byte_bits data ! (8 * (off div 8) + (off mod 8 + j))"
    unfolding le(2) by (rule bit_window_load [OF le(1)]) (use assms True in simp_all)
  also have "8 * (off div 8) + (off mod 8 + j) = off + j" by simp
  finally show ?thesis
    using assms(2,3) True by (simp add: bit_and_iff bit_drop_bit_eq bit_field_mask)
qed (simp add: bit_and_iff bit_field_mask)

lemma bit_merge:
  fixes val f :: "'a::len word"
  assumes "j < LENGTH('a)"
  shows "bit ((val AND NOT (push_bit s (push_bit w 1 - 1))) OR push_bit s (f AND (push_bit w 1 - 1))) j \<longleftrightarrow>
    (if s \<le> j \<and> j < s + w then bit f (j - s) else bit val j)"
  using assms by (auto simp: bit_or_iff bit_and_iff bit_not_iff bit_push_bit_iff bit_field_mask)

lemma store_field:
  fixes val :: "'a::len word"
  assumes "ft_load data (off div 8) n = Some val" "off mod 8 + w \<le> 8 * n" "LENGTH('a) = 8 * n"
    and "splice_opt data (off div 8) (to_le_bytes n
      ((val AND NOT (push_bit (off mod 8) (push_bit w 1 - 1))) OR push_bit (off mod 8) (f AND (push_bit w 1 - 1)))) = Some data'"
    and "i < 8 * length data"
  shows "byte_bits data' ! i = (if off \<le> i \<and> i < off + w then bit f (i - off) else byte_bits data ! i)"
proof -
  let ?v = "(val AND NOT (push_bit (off mod 8) (push_bit w 1 - 1))) OR push_bit (off mod 8) (f AND (push_bit w 1 - 1))"
  have le: "off div 8 + n \<le> length data" "val = from_le_bytes (take n (drop (off div 8) data))"
    using assms(1) by (auto simp: ft_load_def slice_opt_def split: if_splits)
  have off: "off = 8 * (off div 8) + off mod 8" by simp
  show ?thesis
  proof (cases "8 * (off div 8) \<le> i \<and> i < 8 * (off div 8) + 8 * n")
    case True
    let ?j = "i - 8 * (off div 8)"
    have j: "?j < 8 * n" using True by linarith
    have "byte_bits data' ! i = bit ?v ?j" using nth_window_store [OF assms(4,5)] True by simp
    moreover have "bit val ?j = byte_bits data ! i"
      using bit_window_load [OF le(1), of ?j, where 'a = 'a] j True assms(3) by (simp add: le(2))
    moreover have "bit ?v ?j \<longleftrightarrow> (if off mod 8 \<le> ?j \<and> ?j < off mod 8 + w then bit f (?j - off mod 8) else bit val ?j)"
      using j assms(3) by (intro bit_merge) simp
    moreover have "off mod 8 \<le> ?j \<longleftrightarrow> off \<le> i" "?j < off mod 8 + w \<longleftrightarrow> i < off + w" "?j - off mod 8 = i - off"
      using True off by linarith+
    ultimately show ?thesis by simp
  next
    case False
    then have "\<not> (off \<le> i \<and> i < off + w)" using assms(2) off by linarith
    moreover have "byte_bits data' ! i = byte_bits data ! i" using nth_window_store [OF assms(4,5)] False by auto
    ultimately show ?thesis by auto
  qed
qed

lemma ft_load_Some: "bp + n \<le> length data \<Longrightarrow> \<exists>val. ft_load data bp n = Some val"
  by (simp add: ft_load_def slice_opt_def)

lemma ft_read_spec:
  assumes "ft_inv t" "b < ft_num_buckets t" "s < ft_bucket_size t"
  shows "\<exists>v. ft_read t b s = Some v \<and> (\<forall>j. bit v j \<longleftrightarrow> j < ft_fingerprint_bits t \<and> ft_bits t ! (ft_bit_offset t b s + j))"
proof -
  let ?off = "ft_bit_offset t b s" and ?w = "ft_fingerprint_bits t"
  note f = ft_field [OF assms]
  have w: "?w \<le> 64" using assms(1) by (simp add: ft_inv_def)
  then have w128: "?w < 128" by simp
  show ?thesis
  proof (cases "?w \<le> 56")
    case True
    obtain val :: u64 where val: "ft_load (ft_data t) (?off div 8) 8 = Some val"
      using ft_load_Some [of "?off div 8" 8 "ft_data t"] f(2) by auto
    have "?off mod 8 < 8" by simp
    then have "?off mod 8 + ?w \<le> 8 * 8" using True by linarith
    note l = load_field [OF val this]
    have "ft_read t b s = Some (drop_bit (?off mod 8) val AND (push_bit ?w 1 - 1))"
      by (simp only: ft_read_def Let_def val True assms(2,3) simp_thms assert_opt_simps Option.bind.simps if_True)
    then show ?thesis using l by (simp add: ft_bits_def)
  next
    case False
    obtain val :: u128 where val: "ft_load (ft_data t) (?off div 8) 16 = Some val"
      using ft_load_Some [of "?off div 8" 16 "ft_data t"] f(2) by auto
    have "?off mod 8 < 8" by simp
    then have "?off mod 8 + ?w \<le> 8 * 16" using w by linarith
    note l = load_field [OF val this]
    have "ft_read t b s = Some (ucast (drop_bit (?off mod 8) val AND (push_bit ?w 1 - 1)))"
      by (simp only: ft_read_def Let_def val False w128 assms(2,3) simp_thms assert_opt_simps Option.bind.simps if_False)
    moreover have "bit (ucast (drop_bit (?off mod 8) val AND (push_bit ?w 1 - 1)) :: u64) j \<longleftrightarrow> j < ?w \<and> ft_bits t ! (?off + j)" for j
      unfolding bit_ucast using l [of j] w by (auto simp: ft_bits_def)
    ultimately show ?thesis by blast
  qed
qed

lemma ft_write_spec:
  assumes "ft_inv t" "b < ft_num_buckets t" "s < ft_bucket_size t"
  shows "\<exists>data. ft_write t b s f = Some (t\<lparr> ft_data := data \<rparr>) \<and> length data = length (ft_data t) \<and>
    (\<forall>i < 8 * length data. byte_bits data ! i = (if ft_bit_offset t b s \<le> i \<and> i < ft_bit_offset t b s + ft_fingerprint_bits t
       then bit f (i - ft_bit_offset t b s) else ft_bits t ! i))"
proof -
  let ?off = "ft_bit_offset t b s" and ?w = "ft_fingerprint_bits t"
  note fl = ft_field [OF assms]
  have w: "?w \<le> 64" using assms(1) by (simp add: ft_inv_def)
  then have w128: "?w < 128" by simp
  have m: "?off mod 8 < 8" by simp
  show ?thesis
  proof (cases "?w \<le> 56")
    case True
    obtain val :: u64 where val: "ft_load (ft_data t) (?off div 8) 8 = Some val"
      using ft_load_Some [of "?off div 8" 8 "ft_data t"] fl(2) by auto
    have fit: "?off mod 8 + ?w \<le> 8 * 8" using True m by linarith
    let ?v = "(val AND NOT (push_bit (?off mod 8) (push_bit ?w 1 - 1))) OR push_bit (?off mod 8) (f AND (push_bit ?w 1 - 1))"
    obtain data where d: "splice_opt (ft_data t) (?off div 8) (to_le_bytes 8 ?v) = Some data"
      using fl(2) by (simp add: splice_opt_def)
    have "byte_bits data ! i = (if ?off \<le> i \<and> i < ?off + ?w then bit f (i - ?off) else ft_bits t ! i)" if "i < 8 * length data" for i
      using store_field [OF val fit _ d] that splice_opt_length [OF d] by (simp add: ft_bits_def)
    moreover have "ft_write t b s f = Some (t\<lparr> ft_data := data \<rparr>)"
      by (simp only: ft_write_def Let_def val d True assms(2,3) simp_thms assert_opt_simps Option.bind.simps if_True)
    ultimately show ?thesis using splice_opt_length [OF d] by blast
  next
    case False
    obtain val :: u128 where val: "ft_load (ft_data t) (?off div 8) 16 = Some val"
      using ft_load_Some [of "?off div 8" 16 "ft_data t"] fl(2) by auto
    have fit: "?off mod 8 + ?w \<le> 8 * 16" using w m by linarith
    let ?v = "(val AND NOT (push_bit (?off mod 8) (push_bit ?w 1 - 1))) OR push_bit (?off mod 8) (ucast f AND (push_bit ?w 1 - 1))"
    obtain data where d: "splice_opt (ft_data t) (?off div 8) (to_le_bytes 16 ?v) = Some data"
      using fl(2) by (simp add: splice_opt_def)
    have "byte_bits data ! i = (if ?off \<le> i \<and> i < ?off + ?w then bit f (i - ?off) else ft_bits t ! i)" if "i < 8 * length data" for i
      using store_field [OF val fit _ d] that splice_opt_length [OF d] w by (auto simp: ft_bits_def)
    moreover have "ft_write t b s f = Some (t\<lparr> ft_data := data \<rparr>)"
      by (simp only: ft_write_def Let_def val d False w128 assms(2,3) simp_thms assert_opt_simps Option.bind.simps if_False)
    ultimately show ?thesis using splice_opt_length [OF d] by blast
  qed
qed

section \<open>The contract\<close>

lemma ft_shape [simp]:
  "ft_bit_offset (t\<lparr> ft_data := d \<rparr>) = ft_bit_offset t" "ft_size_in_bytes (t\<lparr> ft_data := d \<rparr>) = ft_size_in_bytes t"
  by (simp_all add: fun_eq_iff ft_bit_offset_def ft_slot_index_def ft_size_in_bytes_def)

lemma ft_written:
  assumes "ft_inv t" "b < ft_num_buckets t" "s < ft_bucket_size t" "ft_write t b s f = Some t'"
  shows "ft_inv t'" "ft_num_buckets t' = ft_num_buckets t" "ft_bucket_size t' = ft_bucket_size t"
    "ft_fingerprint_bits t' = ft_fingerprint_bits t" "ft_bit_offset t' = ft_bit_offset t" "length (ft_data t') = length (ft_data t)"
    "i < 8 * length (ft_data t) \<Longrightarrow> ft_bits t' ! i = (if ft_bit_offset t b s \<le> i \<and> i < ft_bit_offset t b s + ft_fingerprint_bits t
       then bit f (i - ft_bit_offset t b s) else ft_bits t ! i)"
    "t' = t\<lparr> ft_data := ft_data t' \<rparr>"
  using ft_write_spec [OF assms(1-3), of f] assms(1,4) by (auto simp: ft_inv_def ft_bits_def)

lemma ft_read_iff:
  assumes "ft_inv t" "b < ft_num_buckets t" "s < ft_bucket_size t"
  shows "ft_read t b s = Some v \<longleftrightarrow> (\<forall>j. bit v j \<longleftrightarrow> j < ft_fingerprint_bits t \<and> ft_bits t ! (ft_bit_offset t b s + j))"
proof -
  obtain u where u: "ft_read t b s = Some u" "\<And>j. bit u j \<longleftrightarrow> j < ft_fingerprint_bits t \<and> ft_bits t ! (ft_bit_offset t b s + j)"
    using ft_read_spec [OF assms] by blast
  show ?thesis unfolding u(1) using u(2) by (auto intro: bit_eqI)
qed

lemma ft_field_len:
  assumes "ft_inv t" "b < ft_num_buckets t" "s < ft_bucket_size t" "j < ft_fingerprint_bits t"
  shows "ft_bit_offset t b s + j < 8 * length (ft_data t)"
  using ft_field(1) [OF assms(1-3)] assms(1,4) by (simp add: ft_inv_def)

interpretation fpt: slot_array ft_inv ft_num_buckets ft_bucket_size ft_read ft_write
  "\<lambda>t e. fits (ft_fingerprint_bits t) e"
proof (unfold_locales, goal_cases)
  case (1 t b s)
  obtain u where "ft_read t b s = Some u" "\<And>j. bit u j \<longleftrightarrow> j < ft_fingerprint_bits t \<and> ft_bits t ! (ft_bit_offset t b s + j)"
    using ft_read_spec [OF 1] by blast
  then show ?case by (auto simp: fits_bit)
next
  case (2 t b s e)
  then show ?case using ft_write_spec [of t b s e] by blast
next
  case (3 t b s e t')
  then show ?case using ft_written [of t b s e t'] by simp
next
  case (4 t b s e t')
  note w = ft_written [OF 4(1-3,5)]
  show ?case
    using 4(2-4) w ft_field_len [OF 4(1-3)] by (subst ft_read_iff [OF w(1)]) (auto simp: fits_bit)
next
  case (5 t b s e t' b' s')
  note w = ft_written [OF 5(1-3,5)]
  note d = ft_fields_disjoint [OF 5(3,7,8)]
  have same: "ft_bits t' ! (ft_bit_offset t b' s' + j) = ft_bits t ! (ft_bit_offset t b' s' + j)" if "j < ft_fingerprint_bits t" for j
    using d that by (subst w(7) [OF ft_field_len [OF 5(1,6,7) that]]) auto
  obtain v where v: "ft_read t b' s' = Some v" using ft_read_spec [OF 5(1,6,7)] by blast
  then have "\<forall>j. bit v j \<longleftrightarrow> j < ft_fingerprint_bits t \<and> ft_bits t ! (ft_bit_offset t b' s' + j)"
    using ft_read_iff [OF 5(1,6,7)] by simp
  then have "ft_read t' b' s' = Some v"
    using 5(6,7) w same by (subst ft_read_iff [OF w(1)]) auto
  then show ?case using v by simp
next
  case (6 t b s e e0 t')
  note w = ft_written [OF 6(1-3,6)]
  have r: "b < ft_num_buckets t'" "s < ft_bucket_size t'" using 6(2,3) w by simp_all
  obtain t'' where t'': "ft_write t' b s e0 = Some t''" using ft_write_spec [OF w(1) r, of e0] by blast
  note u = ft_written [OF w(1) r t'']
  have "byte_bits (ft_data t'') = byte_bits (ft_data t)"
  proof (rule nth_equalityI)
    fix i assume "i < length (byte_bits (ft_data t''))"
    then have i: "i < 8 * length (ft_data t)" using u(6) w(6) by simp
    have "\<forall>j. bit e0 j \<longleftrightarrow> j < ft_fingerprint_bits t \<and> ft_bits t ! (ft_bit_offset t b s + j)"
      using 6(5) ft_read_iff [OF 6(1-3)] by simp
    then have "ft_bits t'' ! i = ft_bits t ! i" using i u(7) [of i] w by auto
    then show "byte_bits (ft_data t'') ! i = byte_bits (ft_data t) ! i" by (simp add: ft_bits_def)
  qed (use u(6) w(6) in simp)
  then have "ft_data t'' = ft_data t" by (rule byte_bits_inject)
  then have "t'' = t" using u(8) w(8) by (metis fp_table.update_convs(1) fp_table.surjective)
  then show ?case using t'' by simp
qed

abbreviation ft_at :: "fp_table \<Rightarrow> nat \<Rightarrow> nat \<Rightarrow> u64" where
  "ft_at t b s \<equiv> fpt.view t (b, s)"

lemma ft_read_at:
  assumes "ft_inv t" "b < ft_num_buckets t" "s < ft_bucket_size t"
  shows "ft_read t b s = Some (ft_at t b s)" "fits (ft_fingerprint_bits t) (ft_at t b s)"
  using fpt.rd_total [OF assms] fpt.view_eq by auto

section \<open>Bucket operations\<close>

lemma ft_scan_eq:
  assumes "ft_inv t" "b < ft_num_buckets t"
  shows "scan [0..<ft_bucket_size t] (\<lambda>s. do { x \<leftarrow> ft_read t b s; Some (x = f) }) =
    Some (List.find (\<lambda>s. ft_at t b s = f) [0..<ft_bucket_size t])"
  by (rule scan_upt) (simp add: ft_read_at [OF assms])

lemma ft_contain_eq:
  assumes "ft_inv t" "b < ft_num_buckets t"
  shows "ft_contain t b f = Some (\<exists>s < ft_bucket_size t. ft_at t b s = f)"
proof -
  have "List.find (\<lambda>s. ft_at t b s = f) [0..<ft_bucket_size t] \<noteq> None \<longleftrightarrow> (\<exists>s < ft_bucket_size t. ft_at t b s = f)"
    by (simp add: find_upt_None)
  then show ?thesis by (simp add: ft_contain_def ft_scan_eq [OF assms])
qed

lemma ft_find_eq:
  assumes "ft_inv t" "b < ft_num_buckets t"
  shows "ft_find t b f = Some (List.find (\<lambda>s. ft_at t b s = f) [0..<ft_bucket_size t])"
  by (simp add: ft_find_def ft_scan_eq [OF assms])

lemma ft_insert_cases:
  assumes "ft_inv t" "b < ft_num_buckets t" "f \<noteq> 0" "fits (ft_fingerprint_bits t) f"
  obtains (placed) s t' where "ft_insert t b f = Some (t', Some s)" "s < ft_bucket_size t" "ft_at t b s = 0"
      "ft_write t b s f = Some t'"
    | (full) "ft_insert t b f = Some (t, None)" "\<forall>s < ft_bucket_size t. ft_at t b s \<noteq> 0"
proof (cases "List.find (\<lambda>s. ft_at t b s = 0) [0..<ft_bucket_size t]")
  case None
  then have "\<forall>s < ft_bucket_size t. ft_at t b s \<noteq> 0" by (simp only: find_upt_None simp_thms)
  then show thesis using full assms(3) None by (simp add: ft_insert_def ft_scan_eq [OF assms(1,2)])
next
  case (Some s)
  note s = find_upt_SomeD [OF Some]
  obtain t' where "ft_write t b s f = Some t'" using fpt.wr_total [OF assms(1,2) _ assms(4)] s by blast
  then show thesis using placed Some s assms(3) by (simp add: ft_insert_def ft_scan_eq [OF assms(1,2)])
qed

lemma ft_delete_cases:
  assumes "ft_inv t" "b < ft_num_buckets t" "f \<noteq> 0"
  obtains (deleted) s t' where "ft_delete t b f = Some (t', True)" "s < ft_bucket_size t" "ft_at t b s = f"
      "ft_write t b s 0 = Some t'"
    | (absent) "ft_delete t b f = Some (t, False)" "\<forall>s < ft_bucket_size t. ft_at t b s \<noteq> f"
proof (cases "List.find (\<lambda>s. ft_at t b s = f) [0..<ft_bucket_size t]")
  case None
  then have "\<forall>s < ft_bucket_size t. ft_at t b s \<noteq> f" by (simp only: find_upt_None simp_thms)
  then show thesis using absent assms(3) None by (simp add: ft_delete_def ft_scan_eq [OF assms(1,2)])
next
  case (Some s)
  note s = find_upt_SomeD [OF Some]
  have "fits (ft_fingerprint_bits t) 0" by simp
  then obtain t' where "ft_write t b s 0 = Some t'" using fpt.wr_total [OF assms(1,2)] s by blast
  then show thesis using deleted [of t' s] Some s assms(3) by (simp add: ft_delete_def ft_scan_eq [OF assms(1,2)])
qed

end
