(* ===== verification/Size_Helpers.thy ===== *)
theory Size_Helpers
  imports KV_Store
begin

text \<open>
  \<open>segmented-cuckoo/src/util.rs\<close> and the choice of the number of buckets in the \<open>from_num_items\<close>
  constructors of the store and the filter. The comparison of the load factor, a division of \<open>f64\<close>
  values, is a parameter \<open>exceeds arity bucket_size max_items slots\<close>; \<open>load_test\<close> states what the
  results need of it. \<open>u32\<close> and \<open>u64\<close> overflow is a panic, the cast \<open>as u32\<close> truncates.
\<close>

section \<open>Powers\<close>

text \<open>\<open>u64::next_power_of_two\<close>, for \<open>x \<le> 2\<^sup>6\<^sup>3\<close>.\<close>

definition next_power_of_two :: "nat \<Rightarrow> nat" where
  "next_power_of_two x = (if x \<le> 1 then 1 else 2 ^ (ilog2 (x - 1) + 1))"

definition next_power_of_2 :: "nat \<Rightarrow> nat option" where
  "next_power_of_2 x =
     (if x = 0 then Some 1 else do { assert_opt (x \<le> 2 ^ 63); Some (next_power_of_two x) })"

text \<open>\<open>while p < x { p *= base; }\<close>\<close>

partial_function (option) power_loop :: "nat \<Rightarrow> nat \<Rightarrow> nat \<Rightarrow> nat option" where
  "power_loop base bound p =
     (if p < bound then (if p * base < 2 ^ 64 then power_loop base bound (p * base) else None) else Some p)"

definition next_power_of_3 :: "nat \<Rightarrow> nat option" where
  "next_power_of_3 x = (if x \<le> 1 then Some 1 else power_loop 3 x 1)"

definition next_power_of_4 :: "nat \<Rightarrow> nat option" where
  "next_power_of_4 x = (if x \<le> 1 then Some 1 else power_loop 4 x 1)"

fun strip_threes :: "nat \<Rightarrow> nat" where
  "strip_threes v = (if 0 < v \<and> v mod 3 = 0 then strip_threes (v div 3) else v)"

declare strip_threes.simps [simp del]

definition is_power_of_3 :: "nat \<Rightarrow> bool" where
  "is_power_of_3 n = (if n = 0 then False else strip_threes n = 1)"

text \<open>\<open>u32::trailing_zeros\<close>\<close>

fun trailing_zeros :: "nat \<Rightarrow> nat" where
  "trailing_zeros n = (if n = 0 then 32 else if odd n then 0 else Suc (trailing_zeros (n div 2)))"

declare trailing_zeros.simps [simp del]

definition is_power_of_4 :: "nat \<Rightarrow> bool" where
  "is_power_of_4 n \<longleftrightarrow> is_power_of_two n \<and> trailing_zeros n mod 2 = 0"

section \<open>Sizing\<close>

text \<open>\<open>while load > target { num_buckets *= base; }\<close> and the variant that grows the segments.\<close>

partial_function (option) grow_buckets :: "(nat \<Rightarrow> bool) \<Rightarrow> nat \<Rightarrow> nat \<Rightarrow> nat option" where
  "grow_buckets ex base num_buckets =
     (if ex num_buckets then (if num_buckets * base < 2 ^ 32 then grow_buckets ex base (num_buckets * base) else None)
      else Some num_buckets)"

partial_function (option) grow_segments :: "(nat \<Rightarrow> bool) \<Rightarrow> nat \<Rightarrow> nat \<Rightarrow> nat \<Rightarrow> nat option" where
  "grow_segments ex k segment_size num_buckets =
     (if ex num_buckets then
        (if segment_size * 2 < 2 ^ 32 \<and> k * (segment_size * 2) < 2 ^ 32
         then grow_segments ex k (segment_size * 2) (k * (segment_size * 2)) else None)
      else Some num_buckets)"

definition choose_buckets ::
  "(nat \<Rightarrow> nat \<Rightarrow> nat \<Rightarrow> nat \<Rightarrow> bool) \<Rightarrow> (nat \<Rightarrow> nat option) \<Rightarrow> nat \<Rightarrow> nat \<Rightarrow> nat \<Rightarrow> nat \<Rightarrow> nat option" where
  "choose_buckets exceeds nxt base least max_items bucket_size =
     do {
       let buckets_needed = div_ceil max_items bucket_size;
       n \<leftarrow> nxt buckets_needed;
       let num_buckets = n mod 2 ^ 32;
       let num_buckets = (if num_buckets < least then least else num_buckets);
       grow_buckets (\<lambda>nb. exceeds base bucket_size max_items (nb * bucket_size)) base num_buckets
     }"

definition choose_segments ::
  "(nat \<Rightarrow> nat \<Rightarrow> nat \<Rightarrow> nat \<Rightarrow> bool) \<Rightarrow> nat \<Rightarrow> nat \<Rightarrow> nat \<Rightarrow> nat option" where
  "choose_segments exceeds k max_items bucket_size =
     do {
       let slots_per_segment = div_ceil max_items (k * bucket_size);
       n \<leftarrow> next_power_of_2 slots_per_segment;
       let segment_size = n mod 2 ^ 32;
       let segment_size = (if segment_size < 1 then 1 else segment_size);
       assert_opt (k * segment_size < 2 ^ 32);
       grow_segments (\<lambda>nb. exceeds k bucket_size max_items (nb * bucket_size)) k segment_size (k * segment_size)
     }"

text \<open>\<open>CuckooKVStore::from_num_items\<close> of the three schemes.\<close>

definition kv_from_num_items_with ::
  "nat \<Rightarrow> (nat \<Rightarrow> nat \<Rightarrow> nat option) \<Rightarrow> (nat \<Rightarrow> nat \<Rightarrow> nat \<Rightarrow> nat \<Rightarrow> nat \<Rightarrow> (cuckoo_error + kv_store) option) \<Rightarrow>
    nat \<Rightarrow> nat \<Rightarrow> nat \<Rightarrow> nat \<Rightarrow> nat \<Rightarrow> (cuckoo_error + kv_store) option" where
  "kv_from_num_items_with ar pick new max_items bucket_size fingerprint_bits value_bits plaintext_bits =
     (case validate_common_params ar bucket_size fingerprint_bits of
        Inl e \<Rightarrow> Some (Inl e)
      | Inr _ \<Rightarrow>
          if value_bits = 0 then Some (Inl InvalidParams)
          else if (2 ^ 32 - 1) * bucket_size < max_items then Some (Inl InvalidParams)
          else do {
            num_buckets \<leftarrow> pick max_items bucket_size;
            new num_buckets bucket_size fingerprint_bits value_bits plaintext_bits
          })"

definition kv_from_num_items_2ary where
  "kv_from_num_items_2ary exceeds =
     kv_from_num_items_with 2 (choose_buckets exceeds next_power_of_2 2 2) kv_new_2ary"

definition kv_from_num_items_3ary where
  "kv_from_num_items_3ary exceeds = kv_from_num_items_with 3 (choose_segments exceeds 3) kv_new_3ary"

definition kv_from_num_items_4ary where
  "kv_from_num_items_4ary exceeds = kv_from_num_items_with 4 (choose_segments exceeds 4) kv_new_4ary"

section \<open>What the helpers compute\<close>

lemma strip_threes_power: "strip_threes (3 ^ t) = 1"
  by (induction t) (subst strip_threes.simps, simp)+

lemma is_power_of_3_iff: "is_power_of_3 n \<longleftrightarrow> (\<exists>t. n = 3 ^ t)"
proof -
  have "0 < v \<Longrightarrow> \<exists>t. v = strip_threes v * 3 ^ t" for v
  proof (induction v rule: strip_threes.induct)
    case (1 v)
    show ?case
    proof (cases "v mod 3 = 0")
      case True
      then have v: "v = v div 3 * 3" "0 < v div 3" using 1(2) by (auto simp: mod_eq_0_iff_dvd)
      then obtain t where "v div 3 = strip_threes (v div 3) * 3 ^ t" using 1(1) 1(2) True by blast
      moreover have "strip_threes v = strip_threes (v div 3)" using 1(2) True by (subst strip_threes.simps) simp
      ultimately have "v = strip_threes v * 3 ^ Suc t" using v(1) by simp
      then show ?thesis by blast
    next
      case False
      then show ?thesis by (subst strip_threes.simps) (auto intro: exI [of _ 0])
    qed
  qed
  from this [of n] show ?thesis
    using strip_threes_power by (auto simp: is_power_of_3_def)
qed

lemma trailing_zeros_power: "trailing_zeros (2 ^ t) = t"
  by (induction t) (subst trailing_zeros.simps, simp)+

lemma is_power_of_two_iff: "n < 2 ^ 64 \<Longrightarrow> is_power_of_two n \<longleftrightarrow> (\<exists>t. n = 2 ^ t)"
  using power_less_imp_less_exp [of "2 :: nat" _ 64] by (auto simp: is_power_of_two_def)

lemma is_power_of_4_iff:
  assumes "n < 2 ^ 64"
  shows "is_power_of_4 n \<longleftrightarrow> (\<exists>t. n = 4 ^ t)"
proof
  assume "is_power_of_4 n"
  then obtain t where "n = 2 ^ t" "even t" by (auto simp: is_power_of_4_def is_power_of_two_def trailing_zeros_power even_iff_mod_2_eq_zero)
  then obtain k where "n = 2 ^ (2 * k)" by auto
  then show "\<exists>t. n = 4 ^ t" by (auto simp: power_mult)
next
  assume "\<exists>t. n = 4 ^ t"
  then obtain t where t: "n = 2 ^ (2 * t)" by (auto simp: power_mult)
  then have "2 * t < 64" using assms power_less_imp_less_exp [of "2 :: nat" "2 * t" 64] by simp
  then show "is_power_of_4 n" using t by (auto simp: is_power_of_4_def is_power_of_two_def trailing_zeros_power)
qed

lemma ilog2_bounds: "0 < n \<Longrightarrow> 2 ^ ilog2 n \<le> n \<and> n < 2 ^ Suc (ilog2 n)"
proof (induction n rule: ilog2.induct)
  case (1 n)
  show ?case
  proof (cases "n < 2")
    case True
    then show ?thesis using 1 by (subst (1 2) ilog2.simps) simp
  next
    case False
    then have IH: "2 ^ ilog2 (n div 2) \<le> n div 2 \<and> n div 2 < 2 ^ Suc (ilog2 (n div 2))" using 1 by simp
    then have "2 * 2 ^ ilog2 (n div 2) \<le> n" "n < 2 * 2 ^ Suc (ilog2 (n div 2))" by linarith+
    then show ?thesis using False by (subst (1 2) ilog2.simps) simp
  qed
qed

text \<open>\<open>next_power_of_two\<close> is the least power of two that is not below its argument.\<close>

lemma next_power_of_two_spec:
  "\<exists>t. next_power_of_two x = 2 ^ t" "x \<le> next_power_of_two x" "1 < x \<Longrightarrow> next_power_of_two x < 2 * x"
proof -
  show "\<exists>t. next_power_of_two x = 2 ^ t" by (auto simp: next_power_of_two_def intro: exI [of _ 0] exI [of _ "Suc (ilog2 (x - 1))"])
  show "x \<le> next_power_of_two x" using ilog2_bounds [of "x - 1"] by (auto simp: next_power_of_two_def)
  show "1 < x \<Longrightarrow> next_power_of_two x < 2 * x" using ilog2_bounds [of "x - 1"] by (auto simp: next_power_of_two_def)
qed

lemma power_loop_spec:
  assumes "power_loop base x p = Some q" "\<exists>k. p = base ^ k"
  shows "\<exists>m. q = base ^ m \<and> x \<le> q"
  using assms
proof (induction rule: power_loop.raw_induct [rotated, consumes 1, case_names step])
  case (step loop base x p q)
  show ?case
  proof (cases "p < x")
    case True
    then have "loop base x (p * base) = Some q" using step(2) by (auto split: if_splits)
    moreover have "\<exists>k. p * base = base ^ k" using step(3) by (metis mult.commute power_Suc)
    ultimately show ?thesis using step(1) by blast
  next
    case False
    then show ?thesis using step(2,3) by auto
  qed
qed

section \<open>What the sizing loops compute\<close>

lemma grow_buckets_spec:
  assumes "grow_buckets ex base nb = Some n"
  shows "\<exists>m. n = nb * base ^ m \<and> \<not> ex n \<and> (m = 0 \<or> n < 2 ^ 32)"
  using assms
proof (induction rule: grow_buckets.raw_induct [rotated, consumes 1, case_names step])
  case (step loop ex base nb n)
  show ?case
  proof (cases "ex nb")
    case True
    then have l: "nb * base < 2 ^ 32" "loop ex base (nb * base) = Some n" using step(2) by (auto split: if_splits)
    obtain m where "n = nb * base * base ^ m" "\<not> ex n" "m = 0 \<or> n < 2 ^ 32" using step(1) [OF l(2)] by blast
    then show ?thesis using l(1) by (intro exI [of _ "Suc m"]) auto
  next
    case False
    then show ?thesis using step(2) by (intro exI [of _ 0]) simp
  qed
qed

lemma grow_segments_spec:
  assumes "grow_segments ex k seg nb = Some n" "nb = k * seg"
  shows "\<exists>m. n = k * (seg * 2 ^ m) \<and> \<not> ex n \<and> (m = 0 \<or> n < 2 ^ 32)"
  using assms
proof (induction rule: grow_segments.raw_induct [rotated, consumes 1, case_names step])
  case (step loop ex k seg nb n)
  show ?case
  proof (cases "ex nb")
    case True
    then have l: "k * (seg * 2) < 2 ^ 32" "loop ex k (seg * 2) (k * (seg * 2)) = Some n" using step(2) by (auto split: if_splits)
    obtain m where "n = k * (seg * 2 * 2 ^ m)" "\<not> ex n" "m = 0 \<or> n < 2 ^ 32" using step(1) [OF l(2) refl] by blast
    then show ?thesis using l(1) by (intro exI [of _ "Suc m"]) auto
  next
    case False
    then show ?thesis using step(2,3) by (intro exI [of _ 0]) simp
  qed
qed

text \<open>The loop ends as soon as the load test fails, if that is before the width of \<open>u32\<close>.\<close>

lemma grow_buckets_total:
  assumes "\<And>n. nb * base ^ m \<le> n \<Longrightarrow> n < 2 ^ 32 \<Longrightarrow> \<not> ex n" "nb * base ^ m < 2 ^ 32" "0 < base"
  shows "\<exists>n. grow_buckets ex base nb = Some n"
  using assms
proof (induction m arbitrary: nb)
  case 0
  then show ?case by (subst grow_buckets.simps) simp
next
  case (Suc m)
  show ?case
  proof (cases "ex nb")
    case True
    have "nb * base * 1 \<le> nb * base * base ^ m" using Suc.prems(3) by (intro mult_le_mono2) simp
    also have "\<dots> < 2 ^ 32" using Suc.prems(2) by (simp add: mult.assoc)
    finally have "nb * base < 2 ^ 32" by simp
    moreover have "\<exists>n. grow_buckets ex base (nb * base) = Some n"
      using Suc.prems by (intro Suc.IH) (simp_all add: mult.assoc)
    ultimately show ?thesis using True by (subst grow_buckets.simps) simp
  next
    case False
    then show ?thesis by (subst grow_buckets.simps) simp
  qed
qed

text \<open>Starting from a power of two it never gets past \<open>2\<^sup>3\<^sup>1\<close>.\<close>

lemma grow_buckets_diverges:
  assumes "\<And>n. n \<le> 2 ^ 31 \<Longrightarrow> ex n"
  shows "t \<le> 31 \<Longrightarrow> grow_buckets ex 2 (2 ^ t) = None"
proof (induction "31 - t" arbitrary: t)
  case 0
  then have "t = 31" by simp
  then show ?case using assms by (subst grow_buckets.simps) simp
next
  case (Suc n)
  have "(2::nat) ^ Suc t \<le> 2 ^ 31" using Suc.hyps(2) by (intro power_increasing) simp_all
  then have "grow_buckets ex 2 (2 ^ t * 2) = None" using Suc.hyps(1) [of "Suc t"] Suc.hyps(2) by (simp add: mult.commute)
  moreover have "ex (2 ^ t)" by (rule assms) (use Suc.prems in \<open>intro power_increasing, simp_all\<close>)
  ultimately show ?case by (subst grow_buckets.simps) simp
qed

end
