(* ===== verification/Cuckoo_Filter.thy ===== *)
theory Cuckoo_Filter
  imports FP_Table Size_Helpers KV_Insert
begin

text \<open>
  \<open>segmented-cuckoo/src/filter.rs\<close>: \<open>CuckooFilter\<close>, the membership-only cuckoo table, generic over its
  index scheme. As in KV_Store, \<open>draw\<close> is the random number generator, messages of
  \<open>InvalidParams\<close> are left out and a panic is \<open>None\<close>.
\<close>

record cuckoo_filter =
  cf_table :: fp_table
  cf_scheme :: index_scheme
  cf_num_items :: nat
  cf_max_kicks :: nat
  cf_chain :: "(nat \<times> nat \<times> u64) list"

section \<open>Constructors\<close>

definition cf_new_common :: "nat \<Rightarrow> index_scheme \<Rightarrow> nat \<Rightarrow> nat \<Rightarrow> nat \<Rightarrow> (cuckoo_error + cuckoo_filter) option" where
  "cf_new_common ar scheme num_buckets bucket_size fingerprint_bits =
     (case validate_common_params ar bucket_size fingerprint_bits of
        Inl e \<Rightarrow> Some (Inl e)
      | Inr _ \<Rightarrow> do {
          t \<leftarrow> ft_new num_buckets bucket_size fingerprint_bits;
          Some (Inr \<lparr> cf_table = t, cf_scheme = scheme, cf_num_items = 0, cf_max_kicks = MAX_KICKS_DEFAULT, cf_chain = [] \<rparr>)
        })"

definition cf_new_seg2 :: "nat \<Rightarrow> nat \<Rightarrow> nat \<Rightarrow> (cuckoo_error + cuckoo_filter) option" where
  "cf_new_seg2 num_buckets bucket_size fingerprint_bits =
     (if \<not> is_power_of_two num_buckets \<or> num_buckets < 2 then Some (Inl InvalidParams)
      else cf_new_common 2 (Segmented2aryScheme (of_nat (num_buckets div 2))) num_buckets bucket_size fingerprint_bits)"

definition cf_new_seg3 :: "nat \<Rightarrow> nat \<Rightarrow> nat \<Rightarrow> (cuckoo_error + cuckoo_filter) option" where
  "cf_new_seg3 num_buckets bucket_size fingerprint_bits =
     (if num_buckets < 3 \<or> num_buckets mod 3 \<noteq> 0 \<or> \<not> is_power_of_two (num_buckets div 3) then Some (Inl InvalidParams)
      else cf_new_common 3 (Segmented3aryScheme (of_nat (num_buckets div 3))) num_buckets bucket_size fingerprint_bits)"

definition cf_new_seg4 :: "nat \<Rightarrow> nat \<Rightarrow> nat \<Rightarrow> (cuckoo_error + cuckoo_filter) option" where
  "cf_new_seg4 num_buckets bucket_size fingerprint_bits =
     (if \<not> is_power_of_two num_buckets \<or> num_buckets < 4 then Some (Inl InvalidParams)
      else cf_new_common 4 (Segmented4aryScheme (of_nat (num_buckets div 4))) num_buckets bucket_size fingerprint_bits)"

definition cf_new_std2 :: "nat \<Rightarrow> nat \<Rightarrow> nat \<Rightarrow> (cuckoo_error + cuckoo_filter) option" where
  "cf_new_std2 num_buckets bucket_size fingerprint_bits =
     (if \<not> is_power_of_two num_buckets \<or> num_buckets < 1 then Some (Inl InvalidParams)
      else cf_new_common 2 (Standard2aryScheme (of_nat num_buckets)) num_buckets bucket_size fingerprint_bits)"

definition cf_new_std3 :: "nat \<Rightarrow> nat \<Rightarrow> nat \<Rightarrow> (cuckoo_error + cuckoo_filter) option" where
  "cf_new_std3 num_buckets bucket_size fingerprint_bits =
     (if \<not> is_power_of_3 num_buckets \<or> num_buckets < 1 then Some (Inl InvalidParams)
      else cf_new_common 3 (Standard3aryScheme (of_nat num_buckets)) num_buckets bucket_size fingerprint_bits)"

definition cf_new_std4 :: "nat \<Rightarrow> nat \<Rightarrow> nat \<Rightarrow> (cuckoo_error + cuckoo_filter) option" where
  "cf_new_std4 num_buckets bucket_size fingerprint_bits =
     (if \<not> is_power_of_4 num_buckets \<or> num_buckets < 1 then Some (Inl InvalidParams)
      else cf_new_common 4 (Standard4aryScheme (of_nat num_buckets)) num_buckets bucket_size fingerprint_bits)"

text \<open>\<open>from_num_items\<close> of the six schemes; see Size_Helpers for the sizing loops.\<close>

definition cf_from_num_items_with ::
  "nat \<Rightarrow> (nat \<Rightarrow> nat \<Rightarrow> nat option) \<Rightarrow> (nat \<Rightarrow> nat \<Rightarrow> nat \<Rightarrow> (cuckoo_error + cuckoo_filter) option) \<Rightarrow>
    nat \<Rightarrow> nat \<Rightarrow> nat \<Rightarrow> (cuckoo_error + cuckoo_filter) option" where
  "cf_from_num_items_with ar pick new max_items bucket_size fingerprint_bits =
     (case validate_common_params ar bucket_size fingerprint_bits of
        Inl e \<Rightarrow> Some (Inl e)
      | Inr _ \<Rightarrow>
          if (2 ^ 32 - 1) * bucket_size < max_items then Some (Inl InvalidParams)
          else do {
            num_buckets \<leftarrow> pick max_items bucket_size;
            new num_buckets bucket_size fingerprint_bits
          })"

definition cf_from_num_items_seg2 where
  "cf_from_num_items_seg2 exceeds = cf_from_num_items_with 2 (choose_buckets exceeds next_power_of_2 2 2) cf_new_seg2"

definition cf_from_num_items_seg3 where
  "cf_from_num_items_seg3 exceeds = cf_from_num_items_with 3 (choose_segments exceeds 3) cf_new_seg3"

definition cf_from_num_items_seg4 where
  "cf_from_num_items_seg4 exceeds = cf_from_num_items_with 4 (choose_segments exceeds 4) cf_new_seg4"

definition cf_from_num_items_std2 where
  "cf_from_num_items_std2 exceeds = cf_from_num_items_with 2 (choose_buckets exceeds next_power_of_2 2 1) cf_new_std2"

definition cf_from_num_items_std3 where
  "cf_from_num_items_std3 exceeds = cf_from_num_items_with 3 (choose_buckets exceeds next_power_of_3 3 1) cf_new_std3"

definition cf_from_num_items_std4 where
  "cf_from_num_items_std4 exceeds = cf_from_num_items_with 4 (choose_buckets exceeds next_power_of_4 4 1) cf_new_std4"

section \<open>Operations\<close>

definition cf_size_in_bytes :: "cuckoo_filter \<Rightarrow> nat" where
  "cf_size_in_bytes cf = ft_size_in_bytes (cf_table cf)"

definition cf_set_max_kicks :: "cuckoo_filter \<Rightarrow> nat \<Rightarrow> cuckoo_filter" where
  "cf_set_max_kicks cf max_kicks = cf\<lparr> cf_max_kicks := max_kicks \<rparr>"

text \<open>\<open>for p in ..: if let Some(_) = self.table.insert(indices[p], fingerprint)\<close>.\<close>

primrec cf_place_in :: "nat list \<Rightarrow> fp_table \<Rightarrow> u32 list \<Rightarrow> u64 \<Rightarrow> (fp_table \<times> bool) option" where
  "cf_place_in [] t indices fp = Some (t, False)"
| "cf_place_in (p # ps) t indices fp =
     do {
       b \<leftarrow> nth_opt indices p;
       (t', r) \<leftarrow> ft_insert t (unat b) fp;
       if r \<noteq> None then Some (t', True) else cf_place_in ps t' indices fp
     }"

primrec cf_rollback :: "(nat \<times> nat \<times> u64) list \<Rightarrow> fp_table \<Rightarrow> fp_table option" where
  "cf_rollback [] t = Some t"
| "cf_rollback (x # chain) t =
     (case x of (bucket, slot, original_fingerprint) \<Rightarrow>
       do { t' \<leftarrow> ft_write t bucket slot original_fingerprint; cf_rollback chain t' })"

text \<open>The kick loop; its first argument counts the iterations left, starting at \<open>max_kicks\<close>.\<close>

primrec cf_kick_loop ::
  "nat \<Rightarrow> (nat \<Rightarrow> 'g \<Rightarrow> nat \<times> 'g) \<Rightarrow> cuckoo_filter \<Rightarrow> 'g \<Rightarrow> u32 \<Rightarrow> u64 \<Rightarrow>
    ((cuckoo_error + unit) \<times> cuckoo_filter \<times> 'g) option" where
  "cf_kick_loop 0 draw cf g cur_index cur_fingerprint =
     do {
       t \<leftarrow> cf_rollback (rev (cf_chain cf)) (cf_table cf);
       Some (Inl TableFull, cf\<lparr> cf_table := t \<rparr>, g)
     }"
| "cf_kick_loop (Suc n) draw cf g cur_index cur_fingerprint =
     do {
       (slot, g1) \<leftarrow> random_range draw (ft_bucket_size (cf_table cf)) g;
       evicted_fingerprint \<leftarrow> ft_read (cf_table cf) (unat cur_index) slot;
       let chain = cf_chain cf @ [(unat cur_index, slot, evicted_fingerprint)];
       t1 \<leftarrow> ft_write (cf_table cf) (unat cur_index) slot cur_fingerprint;
       all \<leftarrow> all_indices (cf_scheme cf) cur_index evicted_fingerprint;
       let ar = arity (cf_scheme cf);
       let evicted_pos = evicted_position ar all cur_index;
       let alts = [p \<leftarrow> [0..<ar]. p \<noteq> evicted_pos];
       (t2, placed) \<leftarrow> cf_place_in alts t1 all evicted_fingerprint;
       let cf1 = cf\<lparr> cf_table := t2, cf_chain := chain \<rparr>;
       if placed then Some (Inr (), cf1\<lparr> cf_num_items := cf_num_items cf1 + 1 \<rparr>, g1)
       else do {
         (k, g2) \<leftarrow> random_range draw (length alts) g1;
         next_pos \<leftarrow> nth_opt alts k;
         next_index \<leftarrow> nth_opt all next_pos;
         cf_kick_loop n draw cf1 g2 next_index evicted_fingerprint
       }
     }"

definition cf_insert ::
  "(u8 list \<Rightarrow> u128) \<Rightarrow> (nat \<Rightarrow> 'g \<Rightarrow> nat \<times> 'g) \<Rightarrow> cuckoo_filter \<Rightarrow> 'g \<Rightarrow> u8 list \<Rightarrow>
    ((cuckoo_error + unit) \<times> cuckoo_filter \<times> 'g) option" where
  "cf_insert xxh draw cf g item =
     (case hash_item xxh (cf_scheme cf) item (ft_fingerprint_bits (cf_table cf)) of
        (fingerprint, indices) \<Rightarrow> do {
          let ar = arity (cf_scheme cf);
          (t, placed) \<leftarrow> cf_place_in [0..<ar] (cf_table cf) indices fingerprint;
          if placed then Some (Inr (), cf\<lparr> cf_table := t, cf_num_items := cf_num_items cf + 1 \<rparr>, g)
          else do {
            (start_pos, g1) \<leftarrow> random_range draw ar g;
            cur_index \<leftarrow> nth_opt indices start_pos;
            cf_kick_loop (cf_max_kicks cf) draw (cf\<lparr> cf_table := t, cf_chain := [] \<rparr>) g1 cur_index fingerprint
          }
        })"

primrec cf_contain_in :: "nat list \<Rightarrow> fp_table \<Rightarrow> u32 list \<Rightarrow> u64 \<Rightarrow> bool option" where
  "cf_contain_in [] t indices fp = Some False"
| "cf_contain_in (p # ps) t indices fp =
     do {
       b \<leftarrow> nth_opt indices p;
       r \<leftarrow> ft_contain t (unat b) fp;
       if r then Some True else cf_contain_in ps t indices fp
     }"

definition cf_contain :: "(u8 list \<Rightarrow> u128) \<Rightarrow> cuckoo_filter \<Rightarrow> u8 list \<Rightarrow> bool option" where
  "cf_contain xxh cf item =
     (case hash_item xxh (cf_scheme cf) item (ft_fingerprint_bits (cf_table cf)) of
        (fingerprint, indices) \<Rightarrow> cf_contain_in [0..<arity (cf_scheme cf)] (cf_table cf) indices fingerprint)"

primrec cf_delete_in :: "nat list \<Rightarrow> fp_table \<Rightarrow> u32 list \<Rightarrow> u64 \<Rightarrow> (fp_table \<times> bool) option" where
  "cf_delete_in [] t indices fp = Some (t, False)"
| "cf_delete_in (p # ps) t indices fp =
     do {
       b \<leftarrow> nth_opt indices p;
       (t', r) \<leftarrow> ft_delete t (unat b) fp;
       if r then Some (t', True) else cf_delete_in ps t' indices fp
     }"

definition cf_delete :: "(u8 list \<Rightarrow> u128) \<Rightarrow> cuckoo_filter \<Rightarrow> u8 list \<Rightarrow> ((cuckoo_error + unit) \<times> cuckoo_filter) option" where
  "cf_delete xxh cf item =
     (case hash_item xxh (cf_scheme cf) item (ft_fingerprint_bits (cf_table cf)) of
        (fingerprint, indices) \<Rightarrow> do {
          (t, deleted) \<leftarrow> cf_delete_in [0..<arity (cf_scheme cf)] (cf_table cf) indices fingerprint;
          if deleted then do {
            assert_opt (0 < cf_num_items cf);
            Some (Inr (), cf\<lparr> cf_table := t, cf_num_items := cf_num_items cf - 1 \<rparr>)
          }
          else Some (Inl NotFound, cf\<lparr> cf_table := t \<rparr>)
        })"

end
