(* ===== verification/Filter_Correct.thy ===== *)
theory Filter_Correct
  imports Cuckoo_Filter
begin

text \<open>
  Correctness of the cuckoo filter. The abstract filter is the bag of its tags
  \<open>(candidate buckets, fingerprint)\<close>, one per occupied slot; an item names the tag of its hash.
  Insert adds the tag of its item whatever kicks it takes, or gives the table back as it was;
  delete removes one; contain asks whether the tag is in the bag. The development follows
  KV_Correct and KV_Insert, over the contract that \<open>fpt\<close> shares with the table of the store.
\<close>

section \<open>The abstract filter\<close>

type_synonym tag = "u32 set \<times> u64"

definition cf_entry :: "index_scheme \<Rightarrow> nat \<times> nat \<Rightarrow> u64 \<Rightarrow> tag multiset" where
  "cf_entry scheme p fp = (if fp = 0 then {#} else {# (candidates scheme (of_nat (fst p)) fp, fp) #})"

definition cf_bag :: "cuckoo_filter \<Rightarrow> tag multiset" where
  "cf_bag cf = fpt.bag (cf_entry (cf_scheme cf)) (cf_table cf)"

definition cf_inv :: "cuckoo_filter \<Rightarrow> bool" where
  "cf_inv cf \<longleftrightarrow> ft_inv (cf_table cf) \<and> valid_scheme (cf_scheme cf) \<and>
     ft_num_buckets (cf_table cf) = scheme_buckets (cf_scheme cf) \<and> 0 < ft_bucket_size (cf_table cf)"

definition cf_counted :: "cuckoo_filter \<Rightarrow> bool" where
  "cf_counted cf \<longleftrightarrow> cf_num_items cf = size (cf_bag cf)"

definition cf_tag :: "(u8 list \<Rightarrow> u128) \<Rightarrow> cuckoo_filter \<Rightarrow> u8 list \<Rightarrow> tag" where
  "cf_tag xxh cf item =
     (case hash_item xxh (cf_scheme cf) item (ft_fingerprint_bits (cf_table cf)) of
        (fp, idx) \<Rightarrow> (set (take (arity (cf_scheme cf)) idx), fp))"

text \<open>What no operation changes: scheme, kick budget and table shape.\<close>

definition ft_shape :: "fp_table \<Rightarrow> fp_table \<Rightarrow> bool" where
  "ft_shape t u \<longleftrightarrow> ft_inv u \<and> ft_num_buckets u = ft_num_buckets t \<and> ft_bucket_size u = ft_bucket_size t \<and>
     ft_fingerprint_bits u = ft_fingerprint_bits t"

definition cf_frame :: "cuckoo_filter \<Rightarrow> cuckoo_filter \<Rightarrow> bool" where
  "cf_frame cf cf' \<longleftrightarrow> cf_scheme cf' = cf_scheme cf \<and> cf_max_kicks cf' = cf_max_kicks cf \<and>
     ft_shape (cf_table cf) (cf_table cf')"

lemma ft_shape_trans: "ft_shape t u \<Longrightarrow> ft_shape u w \<Longrightarrow> ft_shape t w"
  by (simp add: ft_shape_def)

lemma cf_frame_trans: "cf_frame cf cg \<Longrightarrow> cf_frame cg ch \<Longrightarrow> cf_frame cf ch"
  using ft_shape_trans by (auto simp: cf_frame_def)

lemma cf_frame_inv: "cf_inv cf \<Longrightarrow> cf_frame cf cf' \<Longrightarrow> cf_inv cf'"
  by (simp add: cf_inv_def cf_frame_def ft_shape_def)

lemma cf_frame_tag: "cf_frame cf cf' \<Longrightarrow> cf_tag xxh cf' item = cf_tag xxh cf item"
  by (simp add: cf_tag_def cf_frame_def ft_shape_def)

lemma ft_write_shape:
  assumes "ft_inv t" "b < ft_num_buckets t" "s < ft_bucket_size t" "ft_write t b s f = Some t'"
  shows "ft_shape t t'"
  using ft_written [OF assms] by (simp add: ft_shape_def)

lemma kicked_shape: "fpt.kicked t h u \<Longrightarrow> ft_shape t u"
proof (induction rule: fpt.kicked.induct)
  case (kicked_step t0 h t b s e e0 t')
  then have "ft_shape t t'" using ft_write_shape [of t b s e t'] by (simp add: ft_shape_def)
  then show ?case using kicked_step.IH ft_shape_trans by blast
qed (simp add: ft_shape_def)

lemma cf_write_tag:
  assumes "cf_inv cf" "b < ft_num_buckets (cf_table cf)" "s < ft_bucket_size (cf_table cf)"
    "fits (ft_fingerprint_bits (cf_table cf)) f" "ft_write (cf_table cf) b s f = Some t'"
  shows "fpt.bag (cf_entry (cf_scheme cf)) t' + cf_entry (cf_scheme cf) (b, s) (ft_at (cf_table cf) b s) =
    cf_bag cf + cf_entry (cf_scheme cf) (b, s) f"
proof -
  have t: "ft_inv (cf_table cf)" using assms(1) by (simp add: cf_inv_def)
  show ?thesis
    unfolding cf_bag_def by (rule fpt.bag_wr [OF t assms(2-4) ft_read_at(1) [OF t assms(2,3)] assms(5)])
qed

section \<open>Probing the candidate buckets\<close>

lemma cf_hash:
  assumes "cf_inv cf" "hash_item xxh (cf_scheme cf) item (ft_fingerprint_bits (cf_table cf)) = (fp, idx)"
  shows "fp \<noteq> 0" "fits (ft_fingerprint_bits (cf_table cf)) fp" "length idx = 4"
    "p < arity (cf_scheme cf) \<Longrightarrow> unat (idx ! p) < ft_num_buckets (cf_table cf)"
    "p < arity (cf_scheme cf) \<Longrightarrow> cf_tag xxh cf item = (candidates (cf_scheme cf) (idx ! p) fp, fp)"
    "p < arity (cf_scheme cf) \<Longrightarrow> p < length idx"
proof -
  have v: "valid_scheme (cf_scheme cf)" and fb: "0 < ft_fingerprint_bits (cf_table cf)"
    and nb: "ft_num_buckets (cf_table cf) = scheme_buckets (cf_scheme cf)"
    using assms(1) by (auto simp: cf_inv_def ft_inv_def)
  note it = ix.item_total [OF v fb assms(2)]
  show "fp \<noteq> 0" "fits (ft_fingerprint_bits (cf_table cf)) fp" "length idx = 4" using it by blast+
  show "p < arity (cf_scheme cf) \<Longrightarrow> unat (idx ! p) < ft_num_buckets (cf_table cf)"
    using ix.item_nth(1) [OF v fb assms(2)] nb by simp
  show "p < arity (cf_scheme cf) \<Longrightarrow> cf_tag xxh cf item = (candidates (cf_scheme cf) (idx ! p) fp, fp)"
    using ix.item_nth(2) [OF v fb assms(2)] by (simp add: cf_tag_def assms(2))
  show "p < arity (cf_scheme cf) \<Longrightarrow> p < length idx" using it ix.arity_range [OF v] by auto
qed

text \<open>The tag of an item is in the bag iff a slot of a probed bucket holds its fingerprint.\<close>

lemma cf_probe_iff:
  assumes inv: "cf_inv cf"
    and h: "hash_item xxh (cf_scheme cf) item (ft_fingerprint_bits (cf_table cf)) = (fp, idx)"
  shows "cf_tag xxh cf item \<in># cf_bag cf \<longleftrightarrow>
    (\<exists>p < arity (cf_scheme cf). \<exists>s < ft_bucket_size (cf_table cf). ft_at (cf_table cf) (unat (idx ! p)) s = fp)"
proof -
  let ?t = "cf_table cf" and ?sc = "cf_scheme cf"
  have tinv: "ft_inv ?t" and val: "valid_scheme ?sc" and nb: "ft_num_buckets ?t = scheme_buckets ?sc"
    using inv by (auto simp: cf_inv_def)
  have ar: "0 < arity ?sc" using scheme_arity_range [of ?sc] by simp
  have in_entry: "cf_tag xxh cf item \<in># cf_entry ?sc (b, s) e \<longleftrightarrow>
      e = fp \<and> candidates ?sc (of_nat b) fp = candidates ?sc (idx ! 0) fp" for b s e
    using cf_hash(1) [OF inv h] cf_hash(5) [OF inv h ar] by (auto simp: cf_entry_def)
  show ?thesis
  proof
    assume "cf_tag xxh cf item \<in># cf_bag cf"
    then obtain b s e where b: "b < ft_num_buckets ?t" "s < ft_bucket_size ?t" "ft_read ?t b s = Some e"
        "cf_tag xxh cf item \<in># cf_entry ?sc (b, s) e"
      unfolding cf_bag_def fpt.bag_elem_iff [OF tinv] by blast
    have u: "unat (of_nat b :: u32) = b"
      using b(1) nb scheme_buckets_less [OF val] by (simp add: unat_of_nat)
    have "(of_nat b :: u32) \<in> candidates ?sc (of_nat b) fp" using ix.cands_self [OF val] u b(1) nb by simp
    moreover have "candidates ?sc (of_nat b) fp = candidates ?sc (idx ! 0) fp" using b(4) by (simp only: in_entry)
    ultimately have "(of_nat b :: u32) \<in> fst (cf_tag xxh cf item)" using cf_hash(5) [OF inv h ar] by simp
    then obtain p where "p < arity ?sc" "idx ! p = of_nat b" by (auto simp: cf_tag_def h in_set_conv_nth)
    moreover have "ft_at ?t b s = fp" using b(4) fpt.view_eq [OF b(3)] by (simp only: in_entry)
    ultimately show "\<exists>p < arity ?sc. \<exists>s < ft_bucket_size ?t. ft_at ?t (unat (idx ! p)) s = fp" using b(2) u by metis
  next
    assume "\<exists>p < arity ?sc. \<exists>s < ft_bucket_size ?t. ft_at ?t (unat (idx ! p)) s = fp"
    then obtain p s where p: "p < arity ?sc" "s < ft_bucket_size ?t" "ft_at ?t (unat (idx ! p)) s = fp" by blast
    note b = cf_hash(4) [OF inv h p(1)]
    have "candidates ?sc (of_nat (unat (idx ! p))) fp = candidates ?sc (idx ! 0) fp"
      using cf_hash(5) [OF inv h p(1)] cf_hash(5) [OF inv h ar] by simp
    then have "cf_tag xxh cf item \<in># cf_entry ?sc (unat (idx ! p), s) fp" by (simp only: in_entry)
    then show "cf_tag xxh cf item \<in># cf_bag cf"
      unfolding cf_bag_def fpt.bag_elem_iff [OF tinv] using b p(2,3) ft_read_at(1) [OF tinv b p(2)] by blast
  qed
qed

lemma cf_contain_in_eq:
  assumes "ft_inv t" "\<forall>p \<in> set ps. p < length indices \<and> unat (indices ! p) < ft_num_buckets t"
  shows "cf_contain_in ps t indices fp =
    Some (\<exists>p \<in> set ps. \<exists>s < ft_bucket_size t. ft_at t (unat (indices ! p)) s = fp)"
  using assms(2)
proof (induction ps)
  case (Cons p ps)
  then show ?case using ft_contain_eq [OF assms(1), of "unat (indices ! p)" fp] by auto
qed simp

lemma cf_place_in_cases:
  assumes "ft_inv t" "fp \<noteq> 0" "fits (ft_fingerprint_bits t) fp"
    and "\<forall>p \<in> set ps. p < length indices \<and> unat (indices ! p) < ft_num_buckets t"
  obtains (placed) p s t' where "cf_place_in ps t indices fp = Some (t', True)" "p \<in> set ps"
      "s < ft_bucket_size t" "ft_at t (unat (indices ! p)) s = 0" "ft_write t (unat (indices ! p)) s fp = Some t'"
    | (full) "cf_place_in ps t indices fp = Some (t, False)"
      "\<forall>p \<in> set ps. \<forall>s < ft_bucket_size t. ft_at t (unat (indices ! p)) s \<noteq> 0"
  using assms(4)
proof (induction ps arbitrary: thesis)
  case Nil
  then show ?case by simp
next
  case (Cons p ps)
  have p: "p < length indices" "unat (indices ! p) < ft_num_buckets t" using Cons.prems(3) by simp_all
  show ?case
  proof (cases rule: ft_insert_cases [OF assms(1) p(2) assms(2,3)])
    case (1 s t')
    then show ?thesis using Cons.prems(1) [of t' p s] p by simp
  next
    case 2
    show ?thesis
    proof (rule Cons.IH)
      fix q s t'
      assume "cf_place_in ps t indices fp = Some (t', True)" "q \<in> set ps" "s < ft_bucket_size t"
        "ft_at t (unat (indices ! q)) s = 0" "ft_write t (unat (indices ! q)) s fp = Some t'"
      then show thesis using Cons.prems(1) [of t' q s] 2 p by simp
    next
      assume "cf_place_in ps t indices fp = Some (t, False)"
        "\<forall>p \<in> set ps. \<forall>s < ft_bucket_size t. ft_at t (unat (indices ! p)) s \<noteq> 0"
      then show thesis using Cons.prems(2) 2 p by simp
    qed (use Cons.prems(3) in simp)
  qed
qed

lemma cf_delete_in_cases:
  assumes "ft_inv t" "fp \<noteq> 0"
    and "\<forall>p \<in> set ps. p < length indices \<and> unat (indices ! p) < ft_num_buckets t"
  obtains (deleted) p s t' where "cf_delete_in ps t indices fp = Some (t', True)" "p \<in> set ps"
      "s < ft_bucket_size t" "ft_at t (unat (indices ! p)) s = fp" "ft_write t (unat (indices ! p)) s 0 = Some t'"
    | (absent) "cf_delete_in ps t indices fp = Some (t, False)"
      "\<forall>p \<in> set ps. \<forall>s < ft_bucket_size t. ft_at t (unat (indices ! p)) s \<noteq> fp"
  using assms(3)
proof (induction ps arbitrary: thesis)
  case Nil
  then show ?case by simp
next
  case (Cons p ps)
  have p: "p < length indices" "unat (indices ! p) < ft_num_buckets t" using Cons.prems(3) by simp_all
  show ?case
  proof (cases rule: ft_delete_cases [OF assms(1) p(2) assms(2)])
    case (1 s t')
    then show ?thesis using Cons.prems(1) [of t' p s] p by simp
  next
    case 2
    show ?thesis
    proof (rule Cons.IH)
      fix q s t'
      assume "cf_delete_in ps t indices fp = Some (t', True)" "q \<in> set ps" "s < ft_bucket_size t"
        "ft_at t (unat (indices ! q)) s = fp" "ft_write t (unat (indices ! q)) s 0 = Some t'"
      then show thesis using Cons.prems(1) [of t' q s] 2 p by simp
    next
      assume "cf_delete_in ps t indices fp = Some (t, False)"
        "\<forall>p \<in> set ps. \<forall>s < ft_bucket_size t. ft_at t (unat (indices ! p)) s \<noteq> fp"
      then show thesis using Cons.prems(2) 2 p by simp
    qed (use Cons.prems(3) in simp)
  qed
qed

text \<open>The next two lemmas show the effect of a write that fills a slot, and of one that clears it.\<close>

lemma cf_fill_tag:
  assumes "cf_inv cf" "b < ft_num_buckets (cf_table cf)" "s < ft_bucket_size (cf_table cf)"
    "fits (ft_fingerprint_bits (cf_table cf)) f" "f \<noteq> 0" "ft_at (cf_table cf) b s = 0"
    "ft_write (cf_table cf) b s f = Some t'"
  shows "fpt.bag (cf_entry (cf_scheme cf)) t' = cf_bag cf + {# (candidates (cf_scheme cf) (of_nat b) f, f) #}"
  using cf_write_tag [OF assms(1-4,7)] assms(5,6) by (simp add: cf_entry_def)

lemma cf_clear_tag:
  assumes "cf_inv cf" "b < ft_num_buckets (cf_table cf)" "s < ft_bucket_size (cf_table cf)"
    "ft_at (cf_table cf) b s \<noteq> 0" "ft_write (cf_table cf) b s 0 = Some t'"
  shows "fpt.bag (cf_entry (cf_scheme cf)) t' +
      {# (candidates (cf_scheme cf) (of_nat b) (ft_at (cf_table cf) b s), ft_at (cf_table cf) b s) #} = cf_bag cf"
  using cf_write_tag [OF assms(1-3) _ assms(5)] assms(4) by (simp add: cf_entry_def)

section \<open>The kick loop\<close>

text \<open>
  The state of the kick loop, started on the table \<open>t0\<close> to add the tag \<open>new\<close>: the chain records the
  evictions made so far, and the bag with the tag in flight is the old bag with the new tag.
\<close>

definition cf_kick_ok :: "fp_table \<Rightarrow> tag \<Rightarrow> cuckoo_filter \<Rightarrow> u32 \<Rightarrow> u64 \<Rightarrow> bool" where
  "cf_kick_ok t0 new cf ci fp \<longleftrightarrow>
     cf_inv cf \<and> fpt.kicked t0 (rev (cf_chain cf)) (cf_table cf) \<and> fp \<noteq> 0 \<and>
     fits (ft_fingerprint_bits (cf_table cf)) fp \<and> unat ci < ft_num_buckets (cf_table cf) \<and>
     (\<forall>s < ft_bucket_size (cf_table cf). ft_at (cf_table cf) (unat ci) s \<noteq> 0) \<and>
     cf_bag cf + {# (candidates (cf_scheme cf) ci fp, fp) #} = fpt.bag (cf_entry (cf_scheme cf)) t0 + {# new #}"

lemma cf_rollback_undo: "cf_rollback h t = fpt.undo h t"
  by (induction h arbitrary: t) (auto split: prod.splits)

text \<open>One eviction: the entry in flight takes a random slot of the bucket, its fingerprint goes on.\<close>

lemma cf_evict_spec:
  assumes ok: "cf_kick_ok t0 new cf ci fp" and slot: "slot < ft_bucket_size (cf_table cf)"
  defines "e \<equiv> ft_at (cf_table cf) (unat ci) slot"
  obtains t1 all where
    "ft_read (cf_table cf) (unat ci) slot = Some e" "ft_write (cf_table cf) (unat ci) slot fp = Some t1"
    "all_indices (cf_scheme cf) ci e = Some all" "length all = 4" "ft_shape (cf_table cf) t1"
    "\<And>p. p < arity (cf_scheme cf) \<Longrightarrow> unat (all ! p) < ft_num_buckets t1"
    "\<And>p. p < arity (cf_scheme cf) \<Longrightarrow> candidates (cf_scheme cf) (all ! p) e = candidates (cf_scheme cf) ci e"
    "\<And>ci' cf1. cf1 = cf\<lparr> cf_table := t1, cf_chain := cf_chain cf @ [(unat ci, slot, e)] \<rparr> \<Longrightarrow>
       unat ci' < ft_num_buckets t1 \<Longrightarrow> candidates (cf_scheme cf) ci' e = candidates (cf_scheme cf) ci e \<Longrightarrow>
       \<forall>s < ft_bucket_size t1. ft_at t1 (unat ci') s \<noteq> 0 \<Longrightarrow> cf_kick_ok t0 new cf1 ci' e"
    "\<And>s. s < ft_bucket_size t1 \<Longrightarrow> ft_at t1 (unat ci) s \<noteq> 0"
proof -
  let ?t = "cf_table cf" and ?sc = "cf_scheme cf" and ?b = "unat ci"
  have inv: "cf_inv cf" and kd: "fpt.kicked t0 (rev (cf_chain cf)) ?t" and fp: "fp \<noteq> 0"
    and fit: "fits (ft_fingerprint_bits ?t) fp" and ci: "?b < ft_num_buckets ?t"
    and full: "\<forall>s < ft_bucket_size ?t. ft_at ?t ?b s \<noteq> 0"
    and bag: "cf_bag cf + {# (candidates ?sc ci fp, fp) #} = fpt.bag (cf_entry ?sc) t0 + {# new #}"
    using ok unfolding cf_kick_ok_def by blast+
  have tinv: "ft_inv ?t" and val: "valid_scheme ?sc" and nb: "ft_num_buckets ?t = scheme_buckets ?sc"
    using inv by (auto simp: cf_inv_def)
  note rd = ft_read_at [OF tinv ci slot, folded e_def]
  obtain t1 where w: "ft_write ?t ?b slot fp = Some t1" using fpt.wr_total [OF tinv ci slot fit] by blast
  obtain all where all: "all_indices ?sc ci e = Some all" "length all = 4"
    using ix.alts_total [OF val, of ci e] ci nb by auto
  note sh = ft_write_shape [OF tinv ci slot w]
  have e: "e \<noteq> 0" using full slot by (simp add: e_def)
  have bag1: "fpt.bag (cf_entry ?sc) t1 + {# (candidates ?sc ci e, e) #} = cf_bag cf + {# (candidates ?sc ci fp, fp) #}"
    using cf_write_tag [OF inv ci slot fit w] e fp by (simp add: cf_entry_def e_def)
  have step: "cf_kick_ok t0 new cf1 ci' e"
    if "cf1 = cf\<lparr> cf_table := t1, cf_chain := cf_chain cf @ [(?b, slot, e)] \<rparr>" "unat ci' < ft_num_buckets t1"
      "candidates ?sc ci' e = candidates ?sc ci e" "\<forall>s < ft_bucket_size t1. ft_at t1 (unat ci') s \<noteq> 0" for ci' cf1
    using that fpt.kicked_step [OF kd ci slot fit rd(1) w] inv sh e rd(2) bag1 bag
    by (simp add: cf_kick_ok_def cf_inv_def cf_bag_def ft_shape_def)
  have full1: "ft_at t1 ?b s \<noteq> 0" if "s < ft_bucket_size t1" for s
  proof (cases "s = slot")
    case True
    then show ?thesis using fpt.view_eq [OF fpt.rd_wr_same [OF tinv ci slot fit w]] fp by simp
  next
    case False
    have s: "s < ft_bucket_size ?t" using that sh by (simp add: ft_shape_def)
    then have "ft_read t1 ?b s = ft_read ?t ?b s" using fpt.rd_wr_other [OF tinv ci slot fit w ci s] False by simp
    then show ?thesis using full s by (simp add: fpt.view_def)
  qed
  show thesis
  proof (rule that [OF rd(1) w all sh _ _ step full1])
    show "unat (all ! p) < ft_num_buckets t1" if "p < arity ?sc" for p
      using ix.alts_nth(2) [OF val _ all(1) that] ci nb sh by (simp add: ft_shape_def)
    show "candidates ?sc (all ! p) e = candidates ?sc ci e" if "p < arity ?sc" for p
      using ix.alts_nth(3) [OF val _ all(1) that] ci nb by simp
  qed
qed

text \<open>The loop ends in a commit or in a complete rollback, whatever the random choices.\<close>

definition cf_outcome :: "fp_table \<Rightarrow> tag \<Rightarrow> cuckoo_filter \<Rightarrow> cuckoo_error + unit \<Rightarrow> cuckoo_filter \<Rightarrow> bool" where
  "cf_outcome t0 new cf r cf' \<longleftrightarrow> cf_frame cf cf' \<and>
     (r = Inl TableFull \<and> cf_table cf' = t0 \<and> cf_num_items cf' = cf_num_items cf \<or>
      r = Inr () \<and> cf_num_items cf' = cf_num_items cf + 1 \<and>
        cf_bag cf' = fpt.bag (cf_entry (cf_scheme cf)) t0 + {# new #})"

lemma cf_kick_loop_spec:
  assumes "cf_kick_ok t0 new cf ci fp" "draw_ok draw"
  shows "\<exists>r cf' g'. cf_kick_loop n draw cf g ci fp = Some (r, cf', g') \<and> cf_outcome t0 new cf r cf'"
  using assms
proof (induction n arbitrary: cf g ci fp)
  case 0
  have kd: "fpt.kicked t0 (rev (cf_chain cf)) (cf_table cf)" using 0(1) by (simp add: cf_kick_ok_def)
  have "ft_inv t0" using kd by (induction rule: fpt.kicked.induct)
  then have "ft_shape (cf_table cf) t0" using kicked_shape [OF kd] by (simp add: ft_shape_def)
  then show ?case using fpt.kicked_undo [OF kd] by (simp add: cf_rollback_undo cf_outcome_def cf_frame_def)
next
  case (Suc n)
  have "0 < ft_bucket_size (cf_table cf)" using Suc.prems(1) by (simp add: cf_kick_ok_def cf_inv_def)
  then obtain slot g1 where sl: "random_range draw (ft_bucket_size (cf_table cf)) g = Some (slot, g1)"
      "slot < ft_bucket_size (cf_table cf)"
    using random_range_ok [OF Suc.prems(2)] by metis
  let ?e = "ft_at (cf_table cf) (unat ci) slot"
  obtain t1 all where ev: "ft_read (cf_table cf) (unat ci) slot = Some ?e"
    "ft_write (cf_table cf) (unat ci) slot fp = Some t1" "all_indices (cf_scheme cf) ci ?e = Some all"
    and len: "length all = 4" and sh: "ft_shape (cf_table cf) t1"
    and bkt: "\<And>p. p < arity (cf_scheme cf) \<Longrightarrow> unat (all ! p) < ft_num_buckets t1"
    and cand: "\<And>p. p < arity (cf_scheme cf) \<Longrightarrow> candidates (cf_scheme cf) (all ! p) ?e = candidates (cf_scheme cf) ci ?e"
    and step: "\<And>ci' cf1. cf1 = cf\<lparr> cf_table := t1, cf_chain := cf_chain cf @ [(unat ci, slot, ?e)] \<rparr> \<Longrightarrow>
       unat ci' < ft_num_buckets t1 \<Longrightarrow> candidates (cf_scheme cf) ci' ?e = candidates (cf_scheme cf) ci ?e \<Longrightarrow>
       \<forall>s < ft_bucket_size t1. ft_at t1 (unat ci') s \<noteq> 0 \<Longrightarrow> cf_kick_ok t0 new cf1 ci' ?e"
    and full1: "\<And>s. s < ft_bucket_size t1 \<Longrightarrow> ft_at t1 (unat ci) s \<noteq> 0"
    using cf_evict_spec [OF Suc.prems(1) sl(2)] by metis
  define cf1 where "cf1 = cf\<lparr> cf_table := t1, cf_chain := cf_chain cf @ [(unat ci, slot, ?e)] \<rparr>"
  have frame: "cf_frame cf cf1" using sh by (simp add: cf1_def cf_frame_def)
  have "unat ci < ft_num_buckets t1" using Suc.prems(1) sh by (simp add: cf_kick_ok_def ft_shape_def)
  then have ok1: "cf_kick_ok t0 new cf1 ci ?e" using full1 by (intro step [OF cf1_def]) simp_all
  have inv1: "cf_inv cf1" and e: "?e \<noteq> 0" and fit: "fits (ft_fingerprint_bits t1) ?e"
    and bag: "cf_bag cf1 + {# (candidates (cf_scheme cf) ci ?e, ?e) #} = fpt.bag (cf_entry (cf_scheme cf)) t0 + {# new #}"
    using ok1 by (simp_all add: cf_kick_ok_def cf1_def)
  have tinv: "ft_inv t1" using sh by (simp add: ft_shape_def)
  let ?ar = "arity (cf_scheme cf)"
  let ?alts = "[p \<leftarrow> [0..<?ar]. p \<noteq> evicted_position ?ar all ci]"
  have ar: "2 \<le> ?ar" "?ar \<le> 4" using scheme_arity_range by blast+
  have alts: "\<forall>p \<in> set ?alts. p < length all \<and> unat (all ! p) < ft_num_buckets t1" using len ar(2) bkt by simp
  show ?case
  proof (cases rule: cf_place_in_cases [OF tinv e fit alts])
    case (1 p s t')
    have p: "p < ?ar" using 1(2) by simp
    define cf' where "cf' = cf\<lparr> cf_table := t', cf_chain := cf_chain cf1, cf_num_items := cf_num_items cf + 1 \<rparr>"
    have "fpt.bag (cf_entry (cf_scheme cf)) t' = cf_bag cf1 + {# (candidates (cf_scheme cf) (all ! p) ?e, ?e) #}"
      using cf_fill_tag [OF inv1, of "unat (all ! p)" s ?e t'] bkt [OF p] 1(3-5) fit e by (simp add: cf1_def)
    then have "cf_bag cf' = fpt.bag (cf_entry (cf_scheme cf)) t0 + {# new #}"
      using cand [OF p] bag by (simp add: cf_bag_def cf'_def cf1_def)
    moreover have "cf_frame cf1 cf'"
      using ft_write_shape [OF tinv bkt [OF p] 1(3,5)] by (simp add: cf_frame_def cf'_def cf1_def)
    ultimately have "cf_outcome t0 new cf (Inr ()) cf'"
      using cf_frame_trans [OF frame] by (simp add: cf_outcome_def cf'_def)
    then show ?thesis using sl(1) ev 1(1) by (simp add: Let_def cf'_def cf1_def)
  next
    case 2
    obtain k g2 where rr: "random_range draw (length ?alts) g1 = Some (k, g2)" "k < length ?alts"
      using random_range_ok [OF Suc.prems(2) alternatives_pos [OF ar(1)]] .
    define q where "q = ?alts ! k"
    have q: "q \<in> set ?alts" "nth_opt ?alts k = Some q" using nth_mem [OF rr(2)] rr(2) by (simp_all add: q_def)
    then have qa: "q < ?ar" by simp
    have "cf_kick_ok t0 new cf1 (all ! q) ?e"
      using 2(2) q(1) by (intro step [OF cf1_def] bkt [OF qa] cand [OF qa]) blast
    from Suc.IH [OF this Suc.prems(2), of g2] obtain r cf' g' where
      kl: "cf_kick_loop n draw cf1 g2 (all ! q) ?e = Some (r, cf', g')" and out: "cf_outcome t0 new cf1 r cf'" by blast
    have "cf_outcome t0 new cf r cf'"
      using out cf_frame_trans [OF frame] by (auto simp: cf_outcome_def cf1_def)
    then show ?thesis using sl(1) ev 2(1) rr(1) q(2) qa len ar(2) kl by (simp add: Let_def cf1_def)
  qed
qed

section \<open>The contracts of the operations\<close>

lemma cf_insert_spec:
  assumes inv: "cf_inv cf" and draw: "draw_ok draw"
  shows "\<exists>r cf' g'. cf_insert xxh draw cf g item = Some (r, cf', g') \<and>
    cf_outcome (cf_table cf) (cf_tag xxh cf item) cf r cf'"
proof -
  let ?t = "cf_table cf" and ?ar = "arity (cf_scheme cf)"
  obtain fp idx where h: "hash_item xxh (cf_scheme cf) item (ft_fingerprint_bits ?t) = (fp, idx)" by fastforce
  have tinv: "ft_inv ?t" using inv by (simp add: cf_inv_def)
  have ar: "0 < ?ar" using scheme_arity_range [of "cf_scheme cf"] by simp
  note hk = cf_hash [OF inv h]
  have ps: "\<forall>p \<in> set [0..<?ar]. p < length idx \<and> unat (idx ! p) < ft_num_buckets ?t" using hk(4,6) by simp
  show ?thesis
  proof (cases rule: cf_place_in_cases [OF tinv hk(1,2) ps])
    case (1 p s t')
    have p: "p < ?ar" using 1(2) by simp
    define cf' where "cf' = cf\<lparr> cf_table := t', cf_num_items := cf_num_items cf + 1 \<rparr>"
    have "cf_insert xxh draw cf g item = Some (Inr (), cf', g)" using h 1(1) by (simp add: cf_insert_def Let_def cf'_def)
    moreover have "cf_bag cf' = cf_bag cf + {# cf_tag xxh cf item #}"
      using cf_fill_tag [OF inv hk(4) [OF p] 1(3) hk(2,1) 1(4,5)] hk(5) [OF p] by (simp add: cf_bag_def cf'_def)
    moreover have "cf_frame cf cf'"
      using ft_write_shape [OF tinv hk(4) [OF p] 1(3,5)] by (simp add: cf_frame_def cf'_def)
    ultimately show ?thesis by (simp add: cf_outcome_def cf_bag_def cf'_def)
  next
    case 2
    obtain sp g1 where rr: "random_range draw ?ar g = Some (sp, g1)" "sp < ?ar" using random_range_ok [OF draw ar] .
    define cf1 where "cf1 = cf\<lparr> cf_chain := [] \<rparr>"
    have "cf_kick_ok ?t (cf_tag xxh cf item) cf1 (idx ! sp) fp"
      using inv hk(1,2) hk(4,5) [OF rr(2)] 2(2) rr(2) fpt.kicked_start [OF tinv]
      by (simp add: cf_kick_ok_def cf1_def cf_inv_def cf_bag_def)
    from cf_kick_loop_spec [OF this draw, of "cf_max_kicks cf" g1] obtain r cf' g' where
      kl: "cf_kick_loop (cf_max_kicks cf) draw cf1 g1 (idx ! sp) fp = Some (r, cf', g')"
      and out: "cf_outcome ?t (cf_tag xxh cf item) cf1 r cf'" by blast
    have "cf_insert xxh draw cf g item = Some (r, cf', g')"
      using h 2(1) rr hk(6) [OF rr(2)] kl by (simp add: cf_insert_def Let_def cf1_def)
    moreover have "cf_outcome ?t (cf_tag xxh cf item) cf r cf'" using out by (simp add: cf_outcome_def cf1_def cf_frame_def)
    ultimately show ?thesis by blast
  qed
qed

lemma cf_contain_iff:
  assumes "cf_inv cf"
  shows "cf_contain xxh cf item = Some (cf_tag xxh cf item \<in># cf_bag cf)"
proof -
  obtain fp idx where h: "hash_item xxh (cf_scheme cf) item (ft_fingerprint_bits (cf_table cf)) = (fp, idx)" by fastforce
  have tinv: "ft_inv (cf_table cf)" using assms by (simp add: cf_inv_def)
  have "\<forall>p \<in> set [0..<arity (cf_scheme cf)]. p < length idx \<and> unat (idx ! p) < ft_num_buckets (cf_table cf)"
    using cf_hash(4,6) [OF assms h] by simp
  from cf_contain_in_eq [OF tinv this, of fp] show ?thesis
    by (simp add: cf_contain_def h cf_probe_iff [OF assms h] Bex_def)
qed

lemma cf_delete_cases:
  assumes inv: "cf_inv cf" and cnt: "cf_counted cf"
  obtains (deleted) cf' where "cf_delete xxh cf item = Some (Inr (), cf')" "cf_frame cf cf'"
      "cf_bag cf = cf_bag cf' + {# cf_tag xxh cf item #}" "cf_num_items cf = cf_num_items cf' + 1"
    | (absent) "cf_delete xxh cf item = Some (Inl NotFound, cf)" "cf_tag xxh cf item \<notin># cf_bag cf"
proof -
  let ?t = "cf_table cf" and ?ar = "arity (cf_scheme cf)"
  obtain fp idx where h: "hash_item xxh (cf_scheme cf) item (ft_fingerprint_bits ?t) = (fp, idx)" by fastforce
  have tinv: "ft_inv ?t" using inv by (simp add: cf_inv_def)
  note hk = cf_hash [OF inv h]
  have ps: "\<forall>p \<in> set [0..<?ar]. p < length idx \<and> unat (idx ! p) < ft_num_buckets ?t" using hk(4,6) by simp
  show thesis
  proof (cases rule: cf_delete_in_cases [OF tinv hk(1) ps])
    case (1 p s t')
    have p: "p < ?ar" using 1(2) by simp
    have bag: "cf_bag cf = fpt.bag (cf_entry (cf_scheme cf)) t' + {# cf_tag xxh cf item #}"
      using cf_clear_tag [OF inv hk(4) [OF p] 1(3) _ 1(5)] 1(4) hk(1) hk(5) [OF p] by simp
    then have "0 < cf_num_items cf" using cnt by (simp add: cf_counted_def)
    then show ?thesis
      using deleted [of "cf\<lparr> cf_table := t', cf_num_items := cf_num_items cf - 1 \<rparr>"] h 1(1) bag
        ft_write_shape [OF tinv hk(4) [OF p] 1(3,5)]
      by (simp add: cf_delete_def cf_frame_def cf_bag_def)
  next
    case 2
    then have "cf_tag xxh cf item \<notin># cf_bag cf" unfolding cf_probe_iff [OF inv h] by auto
    then show ?thesis using absent 2(1) h by (simp add: cf_delete_def)
  qed
qed

end
