(* ===== verification/F64.thy ===== *)
theory F64
  imports Complex_Main Prelude
begin

text \<open>
  The \<open>f64\<close> arithmetic the crates use: IEEE 754 double precision, every operation the exact real
  result rounded to nearest, ties to even, with subnormal numbers, overflow to infinity and NaN.
  A finite number is the real it denotes; the sign of a zero is not kept, because no expression of the
  code divides by a quantity that can be zero.

  Division, multiplication, addition and \<open>sqrt\<close> are correctly rounded by the standard. \<open>powi\<close>,
  \<open>log2\<close> and \<open>exp\<close> have an unspecified precision in Rust, so they are parameters.
\<close>

datatype f64 = NaN | Infinite bool | Num real

section \<open>Rounding\<close>

definition round_even :: "real \<Rightarrow> int" where
  "round_even y =
     (let n = \<lfloor>y\<rfloor>; r = y - of_int n
      in if r < 1 / 2 \<or> (r = 1 / 2 \<and> even n) then n else n + 1)"

text \<open>The exponent of the last place of the numbers around \<open>x\<close>: 53 significant bits, and never below
  the last place of the subnormal numbers.\<close>

definition last_place :: "real \<Rightarrow> int" where
  "last_place x = max (- 1074) (\<lfloor>log 2 \<bar>x\<bar>\<rfloor> - 52)"

definition nearest :: "real \<Rightarrow> real" where
  "nearest x =
     (if x = 0 then 0 else of_int (round_even (x * 2 powr - of_int (last_place x))) * 2 powr of_int (last_place x))"

definition f64_round :: "real \<Rightarrow> f64" where
  "f64_round x = (if 2 ^ 1024 \<le> \<bar>nearest x\<bar> then Infinite (x < 0) else Num (nearest x))"

section \<open>Operations\<close>

fun f_neg :: "f64 \<Rightarrow> f64" where
  "f_neg (Num x) = Num (- x)"
| "f_neg (Infinite s) = Infinite (\<not> s)"
| "f_neg NaN = NaN"

fun f_add :: "f64 \<Rightarrow> f64 \<Rightarrow> f64" where
  "f_add (Num x) (Num y) = f64_round (x + y)"
| "f_add (Infinite s) (Num _) = Infinite s"
| "f_add (Num _) (Infinite s) = Infinite s"
| "f_add (Infinite s) (Infinite s') = (if s = s' then Infinite s else NaN)"
| "f_add _ _ = NaN"

definition f_sub :: "f64 \<Rightarrow> f64 \<Rightarrow> f64" where
  "f_sub x y = f_add x (f_neg y)"

fun f_mul :: "f64 \<Rightarrow> f64 \<Rightarrow> f64" where
  "f_mul (Num x) (Num y) = f64_round (x * y)"
| "f_mul (Infinite s) (Num y) = (if y = 0 then NaN else Infinite (s \<noteq> (y < 0)))"
| "f_mul (Num x) (Infinite s) = (if x = 0 then NaN else Infinite (s \<noteq> (x < 0)))"
| "f_mul (Infinite s) (Infinite s') = Infinite (s \<noteq> s')"
| "f_mul _ _ = NaN"

fun f_div :: "f64 \<Rightarrow> f64 \<Rightarrow> f64" where
  "f_div (Num x) (Num y) = (if y \<noteq> 0 then f64_round (x / y) else if x = 0 then NaN else Infinite (x < 0))"
| "f_div (Infinite s) (Num y) = Infinite (s \<noteq> (y < 0))"
| "f_div (Num _) (Infinite _) = Num 0"
| "f_div _ _ = NaN"

fun f_sqrt :: "f64 \<Rightarrow> f64" where
  "f_sqrt (Num x) = (if x < 0 then NaN else f64_round (sqrt x))"
| "f_sqrt (Infinite s) = (if s then NaN else Infinite s)"
| "f_sqrt NaN = NaN"

fun f_le :: "f64 \<Rightarrow> f64 \<Rightarrow> bool" where
  "f_le (Num x) (Num y) \<longleftrightarrow> x \<le> y"
| "f_le (Infinite s) (Num _) \<longleftrightarrow> s"
| "f_le (Num _) (Infinite s) \<longleftrightarrow> \<not> s"
| "f_le (Infinite s) (Infinite s') \<longleftrightarrow> s \<or> \<not> s'"
| "f_le _ _ \<longleftrightarrow> False"

fun f_lt :: "f64 \<Rightarrow> f64 \<Rightarrow> bool" where
  "f_lt (Num x) (Num y) \<longleftrightarrow> x < y"
| "f_lt (Infinite s) (Num _) \<longleftrightarrow> s"
| "f_lt (Num _) (Infinite s) \<longleftrightarrow> \<not> s"
| "f_lt (Infinite s) (Infinite s') \<longleftrightarrow> s \<and> \<not> s'"
| "f_lt _ _ \<longleftrightarrow> False"

fun f_is_finite :: "f64 \<Rightarrow> bool" where
  "f_is_finite (Num _) \<longleftrightarrow> True"
| "f_is_finite _ \<longleftrightarrow> False"

text \<open>\<open>max\<close> ignores a NaN.\<close>

fun f_max :: "f64 \<Rightarrow> f64 \<Rightarrow> f64" where
  "f_max NaN y = y"
| "f_max x NaN = x"
| "f_max x y = (if f_le x y then y else x)"

text \<open>\<open>round\<close> takes halves away from zero; its results are exact.\<close>

fun f_round :: "f64 \<Rightarrow> f64" where
  "f_round (Num x) = Num (if 0 \<le> x then of_int \<lfloor>x + 1 / 2\<rfloor> else of_int \<lceil>x - 1 / 2\<rceil>)"
| "f_round x = x"

fun f_ceil :: "f64 \<Rightarrow> f64" where
  "f_ceil (Num x) = Num (of_int \<lceil>x\<rceil>)"
| "f_ceil x = x"

text \<open>\<open>as u32\<close>, \<open>as usize\<close> truncate and saturate; a NaN becomes 0.\<close>

fun f_to_uint :: "nat \<Rightarrow> f64 \<Rightarrow> nat" where
  "f_to_uint w (Num x) = (if x < 0 then 0 else min (2 ^ w - 1) (nat \<lfloor>x\<rfloor>))"
| "f_to_uint w (Infinite s) = (if s then 0 else 2 ^ w - 1)"
| "f_to_uint w NaN = 0"

text \<open>\<open>u32\<close> converts without loss, a wider integer is rounded.\<close>

definition f_from_u32 :: "nat \<Rightarrow> f64" where
  "f_from_u32 n = Num (real n)"

definition f_from_u64 :: "nat \<Rightarrow> f64" where
  "f_from_u64 n = f64_round (real n)"

definition F_LN_2 :: f64 where
  "F_LN_2 = f64_round (ln 2)"

definition F_SQRT_2 :: f64 where
  "F_SQRT_2 = f64_round (sqrt 2)"

text \<open>The functions of unspecified precision.\<close>

record f64_libm =
  lm_powi :: "f64 \<Rightarrow> int \<Rightarrow> f64"
  lm_log2 :: "f64 \<Rightarrow> f64"
  lm_exp :: "f64 \<Rightarrow> f64"

section \<open>The error of one rounding\<close>

lemma round_even_error: "\<bar>of_int (round_even y) - y\<bar> \<le> 1 / 2"
  unfolding round_even_def Let_def by (auto; linarith)

lemma nearest_error:
  assumes "x \<noteq> 0"
  shows "\<bar>nearest x - x\<bar> \<le> 2 powr (of_int (last_place x) - 1)"
proof -
  let ?e = "of_int (last_place x) :: real" and ?n = "round_even (x * 2 powr - of_int (last_place x))"
  have inv: "2 powr - ?e * 2 powr ?e = (1::real)" by (simp add: powr_add [symmetric])
  have "nearest x - x = (of_int ?n - x * 2 powr - ?e) * 2 powr ?e"
    using assms inv by (simp add: nearest_def left_diff_distrib mult.assoc)
  then have "\<bar>nearest x - x\<bar> = \<bar>of_int ?n - x * 2 powr - ?e\<bar> * 2 powr ?e" by (simp add: abs_mult)
  also have "\<dots> \<le> 1 / 2 * 2 powr ?e" by (intro mult_right_mono round_even_error) simp
  also have "\<dots> = 2 powr (?e - 1)" by (simp add: powr_diff)
  finally show ?thesis .
qed

lemma two_powr_floor_log:
  assumes "x \<noteq> 0"
  shows "2 powr (of_int \<lfloor>log 2 \<bar>x\<bar>\<rfloor>) \<le> \<bar>x\<bar>"
proof -
  have "2 powr (of_int \<lfloor>log 2 \<bar>x\<bar>\<rfloor>) \<le> 2 powr (log 2 \<bar>x\<bar>)" by simp
  then show ?thesis using assms by simp
qed

lemma two_powr_minus_nat: "2 powr - real n = 1 / 2 ^ n"
  by (simp add: powr_minus powr_realpow inverse_eq_divide)

lemma nearest_relative:
  assumes "1 / 2 ^ 1022 \<le> \<bar>x\<bar>"
  shows "\<bar>nearest x - x\<bar> \<le> \<bar>x\<bar> / 2 ^ 53"
proof -
  have ne: "x \<noteq> 0" using assms by (auto simp: not_le)
  have "2 powr - real 1022 \<le> \<bar>x\<bar>" using assms unfolding two_powr_minus_nat .
  then have "- real 1022 \<le> log 2 \<bar>x\<bar>" using ne by (subst le_log_iff) simp_all
  then have "- 1022 \<le> \<lfloor>log 2 \<bar>x\<bar>\<rfloor>" by (subst le_floor_iff) simp
  then have e: "last_place x = \<lfloor>log 2 \<bar>x\<bar>\<rfloor> - 52" unfolding last_place_def by linarith
  have "\<bar>nearest x - x\<bar> \<le> 2 powr (of_int \<lfloor>log 2 \<bar>x\<bar>\<rfloor> + - real 53)"
    using nearest_error [OF ne] by (simp add: e)
  also have "\<dots> = 2 powr (of_int \<lfloor>log 2 \<bar>x\<bar>\<rfloor>) / 2 ^ 53"
    unfolding powr_add two_powr_minus_nat by simp
  also have "\<dots> \<le> \<bar>x\<bar> / 2 ^ 53" by (intro divide_right_mono two_powr_floor_log [OF ne]) simp
  finally show ?thesis .
qed

lemma nearest_absolute: "\<bar>nearest x - x\<bar> \<le> \<bar>x\<bar> / 2 ^ 53 + 1 / 2 ^ 100"
proof (cases "1 / 2 ^ 1022 \<le> \<bar>x\<bar>")
  case True
  have "(0::real) \<le> 1 / 2 ^ 100" by simp
  then show ?thesis using nearest_relative [OF True] by linarith
next
  case False
  show ?thesis
  proof (cases "x = 0")
    case True
    then show ?thesis by (simp add: nearest_def)
  next
    case ne: False
    have "\<bar>x\<bar> < 2 powr - real 1022" using False unfolding two_powr_minus_nat by simp
    then have "log 2 \<bar>x\<bar> < - real 1022" using ne by (subst log_less_iff) simp_all
    then have "\<lfloor>log 2 \<bar>x\<bar>\<rfloor> \<le> - 1022" by linarith
    then have e: "last_place x \<le> - 1074" unfolding last_place_def by linarith
    have "\<bar>nearest x - x\<bar> \<le> 2 powr (of_int (last_place x) - 1)" by (rule nearest_error [OF ne])
    also have "\<dots> \<le> 2 powr - real 100" using e by simp
    also have "\<dots> = 1 / 2 ^ 100" by (rule two_powr_minus_nat)
    finally have "\<bar>nearest x - x\<bar> \<le> 1 / 2 ^ 100" .
    moreover have "0 \<le> \<bar>x\<bar> / 2 ^ 53" by simp
    ultimately show ?thesis by linarith
  qed
qed

lemma f64_round_num:
  assumes "\<bar>x\<bar> \<le> 2 ^ 400"
  shows "f64_round x = Num (nearest x)"
proof -
  have "\<bar>x\<bar> / 2 ^ 53 \<le> \<bar>x\<bar>" by (simp add: field_simps)
  moreover have "(1::real) / 2 ^ 100 \<le> 2 ^ 400" by simp
  ultimately have "\<bar>nearest x\<bar> \<le> 2 ^ 400 + 2 ^ 400 + 2 ^ 400" using nearest_absolute [of x] assms by linarith
  also have "\<dots> < 2 ^ 1024" by simp
  finally show ?thesis by (simp add: f64_round_def)
qed

section \<open>A calculus of relative errors\<close>

text \<open>\<open>near k v x\<close>: the computed \<open>v\<close> is within \<open>k\<close> steps of a relative error of \<open>2\<^sup>-\<^sup>4\<^sup>0\<close> of the positive
  real \<open>x\<close>. A correctly rounded operation costs one step and adds those of its arguments.\<close>

definition rel_unit :: real where
  "rel_unit = 1 + 1 / 2 ^ 40"

definition near :: "nat \<Rightarrow> f64 \<Rightarrow> real \<Rightarrow> bool" where
  "near k v x \<longleftrightarrow> 0 < x \<and> (\<exists>y. v = Num y \<and> x / rel_unit ^ k \<le> y \<and> y \<le> x * rel_unit ^ k)"

definition in_range :: "real \<Rightarrow> bool" where
  "in_range x \<longleftrightarrow> 1 / 2 ^ 300 \<le> x \<and> x \<le> 2 ^ 300"

lemma rel_unit_ge [simp]: "1 \<le> rel_unit" and rel_unit_pos [simp]: "0 < rel_unit" and rel_unit_nonneg [simp]: "0 \<le> rel_unit"
  by (simp_all add: rel_unit_def)

lemma rel_unit_power_pos [simp]: "0 < rel_unit ^ k"
  by simp

lemma rel_unit_power_nonneg [simp]: "0 \<le> rel_unit ^ k"
  by (rule less_imp_le) simp

lemma rel_unit_power_ge: "1 \<le> rel_unit ^ k"
  by (rule one_le_power) simp

lemma rel_unit_mono: "j \<le> k \<Longrightarrow> rel_unit ^ j \<le> rel_unit ^ k"
  by (rule power_increasing) simp_all

text \<open>Up to 32 steps are less than \<open>2\<^sup>-\<^sup>3\<^sup>4\<close>.\<close>

lemma rel_unit_32: "rel_unit ^ 32 \<le> 1 + 1 / 2 ^ 34"
proof -
  have "rel_unit ^ 32 = (((((rel_unit ^ 2) ^ 2) ^ 2) ^ 2) ^ 2)" by (simp add: power_mult [symmetric])
  also have "\<dots> \<le> 1 + 1 / 2 ^ 34" by (simp add: rel_unit_def power2_eq_square)
  finally show ?thesis .
qed

lemma rel_unit_le: "k \<le> 32 \<Longrightarrow> rel_unit ^ k \<le> 1 + 1 / 2 ^ 34"
  using rel_unit_mono [of k 32] rel_unit_32 by linarith

lemma rel_unit_le_2: "k \<le> 32 \<Longrightarrow> rel_unit ^ k \<le> 2"
  using rel_unit_le [of k] by simp

lemma nearE:
  assumes "near k v x"
  obtains y where "v = Num y" "0 < y" "0 < x" "x / rel_unit ^ k \<le> y" "y \<le> x * rel_unit ^ k"
proof -
  obtain y where y: "v = Num y" "0 < x" "x / rel_unit ^ k \<le> y" "y \<le> x * rel_unit ^ k"
    using assms by (auto simp: near_def)
  have "0 < x / rel_unit ^ k" using y(2) by simp
  then have "0 < y" using y(3) by linarith
  then show thesis using y that by blast
qed

lemma near_exact [intro]: "0 < x \<Longrightarrow> near 0 (Num x) x"
  by (simp add: near_def)

lemma near_mono:
  assumes "near j v x" "j \<le> k"
  shows "near k v x"
proof -
  obtain y where y: "v = Num y" "0 < y" "0 < x" "x / rel_unit ^ j \<le> y" "y \<le> x * rel_unit ^ j"
    using assms(1) by (rule nearE)
  have "x / rel_unit ^ k \<le> x / rel_unit ^ j" using y(3) rel_unit_mono [OF assms(2)] by (intro divide_left_mono) simp_all
  moreover have "x * rel_unit ^ j \<le> x * rel_unit ^ k" using y(3) rel_unit_mono [OF assms(2)] by (intro mult_left_mono) simp_all
  ultimately have "x / rel_unit ^ k \<le> y \<and> y \<le> x * rel_unit ^ k" using y(4,5) by linarith
  then show ?thesis using y(1,3) by (simp add: near_def)
qed

text \<open>One rounding, of a real already within \<open>k\<close> steps.\<close>

lemma near_round:
  assumes "near k (Num y) x" "in_range x" "k \<le> 32"
  shows "near (Suc k) (f64_round y) x"
proof -
  have x: "0 < x" and y: "0 < y" and lo: "x / rel_unit ^ k \<le> y" and hi: "y \<le> x * rel_unit ^ k"
    using assms(1) by (auto elim!: nearE)
  have u: "rel_unit ^ k \<le> 2" by (rule rel_unit_le_2 [OF assms(3)])
  have r: "1 / 2 ^ 300 \<le> x" "x \<le> 2 ^ 300" using assms(2) by (simp_all add: in_range_def)
  have "x * rel_unit ^ k \<le> 2 ^ 300 * 2" using r(2) u x by (intro mult_mono) simp_all
  also have "\<dots> \<le> 2 ^ 400" by simp
  finally have num: "f64_round y = Num (nearest y)" using hi y by (intro f64_round_num) simp
  have "1 / 2 ^ 300 / 2 \<le> x / rel_unit ^ k" using r(1) u x by (intro frac_le) simp_all
  moreover have "(1::real) / 2 ^ 1022 \<le> 1 / 2 ^ 300 / 2" by simp
  ultimately have "1 / 2 ^ 1022 \<le> \<bar>y\<bar>" using lo y by linarith
  from nearest_relative [OF this] have err: "\<bar>nearest y - y\<bar> \<le> y / 2 ^ 53" using y by simp
  have "y / 2 ^ 53 \<le> y / 2 ^ 40" using y by (intro divide_left_mono) simp_all
  then have "nearest y \<le> y + y / 2 ^ 40" using err by linarith
  then have "nearest y \<le> y * rel_unit" by (simp add: rel_unit_def distrib_left)
  also have "\<dots> \<le> x * rel_unit ^ k * rel_unit" using hi by (intro mult_right_mono) simp_all
  finally have up: "nearest y \<le> x * rel_unit ^ Suc k" by (simp add: mult_ac)
  have lower: "y * (1 - 1 / 2 ^ 53) \<le> nearest y" 
    using err unfolding right_diff_distrib times_divide_eq_right mult_1_right by linarith
  have "1 \<le> (1 - 1 / 2 ^ 53) * rel_unit" by (simp add: rel_unit_def)
  then have "y * 1 \<le> y * ((1 - 1 / 2 ^ 53) * rel_unit)" using y by (intro mult_left_mono) simp_all
  also have "\<dots> \<le> nearest y * rel_unit"
    unfolding mult.assoc [symmetric] using lower by (intro mult_right_mono) simp_all
  finally have "y \<le> nearest y * rel_unit" by simp
  then have "x / rel_unit ^ k \<le> nearest y * rel_unit" using lo by linarith
  then have "x / rel_unit ^ Suc k \<le> nearest y" by (simp add: pos_divide_le_eq mult_ac)
  then show ?thesis using x up by (simp add: near_def num)
qed

lemma near_times:
  assumes "near j (Num p) x" "near k (Num q) y"
  shows "near (j + k) (Num (p * q)) (x * y)"
proof -
  have p: "0 < p" "0 < x" "x / rel_unit ^ j \<le> p" "p \<le> x * rel_unit ^ j" using assms(1) by (auto elim!: nearE)
  have q: "0 < q" "0 < y" "y / rel_unit ^ k \<le> q" "q \<le> y * rel_unit ^ k" using assms(2) by (auto elim!: nearE)
  have "x / rel_unit ^ j * (y / rel_unit ^ k) \<le> p * q" using p q by (intro mult_mono) simp_all
  moreover have "p * q \<le> x * rel_unit ^ j * (y * rel_unit ^ k)" using p q by (intro mult_mono) simp_all
  ultimately show ?thesis using p q by (simp add: near_def power_add mult_ac)
qed

lemma near_inverse:
  assumes "near k (Num p) x"
  shows "near k (Num (1 / p)) (1 / x)"
proof -
  have p: "0 < p" "0 < x" "x / rel_unit ^ k \<le> p" "p \<le> x * rel_unit ^ k" using assms by (auto elim!: nearE)
  have "1 / x / rel_unit ^ k = 1 / (x * rel_unit ^ k)" by simp
  also have "\<dots> \<le> 1 / p" using p by (intro divide_left_mono) simp_all
  finally have lo: "1 / x / rel_unit ^ k \<le> 1 / p" .
  have "1 / p \<le> 1 / (x / rel_unit ^ k)" using p by (intro divide_left_mono) simp_all
  then show ?thesis using lo p(2) by (simp add: near_def)
qed

lemma near_plus:
  assumes "near k (Num p) x" "near k (Num q) y"
  shows "near k (Num (p + q)) (x + y)"
proof -
  have p: "0 < x" "x / rel_unit ^ k \<le> p" "p \<le> x * rel_unit ^ k" using assms(1) by (auto elim!: nearE)
  have q: "0 < y" "y / rel_unit ^ k \<le> q" "q \<le> y * rel_unit ^ k" using assms(2) by (auto elim!: nearE)
  show ?thesis using p q by (simp add: near_def add_divide_distrib distrib_right)
qed

lemma near_sqrt_exact:
  assumes "near k (Num p) x"
  shows "near k (Num (sqrt p)) (sqrt x)"
proof -
  let ?u = "rel_unit ^ k"
  have p: "0 < p" "0 < x" "x / ?u \<le> p" "p \<le> x * ?u" using assms by (auto elim!: nearE)
  have u: "sqrt ?u \<le> ?u" using rel_unit_power_ge [of k] by (intro real_le_lsqrt) (simp_all add: power2_eq_square)
  have u0: "0 < sqrt ?u" by simp
  have "sqrt x / ?u \<le> sqrt x / sqrt ?u" using u u0 p(2) by (intro divide_left_mono) simp_all
  also have "\<dots> \<le> sqrt p" using p(3) by (metis real_sqrt_divide real_sqrt_le_mono)
  finally have lo: "sqrt x / ?u \<le> sqrt p" .
  have "sqrt p \<le> sqrt x * sqrt ?u" using p(4) by (metis real_sqrt_mult real_sqrt_le_mono)
  also have "\<dots> \<le> sqrt x * ?u" using u p(2) by (intro mult_left_mono) simp_all
  finally show ?thesis using lo p(2) by (simp add: near_def)
qed

text \<open>The operations.\<close>

lemma near_mul:
  assumes "near j a x" "near k b y" "in_range (x * y)" "j + k \<le> 32"
  shows "near (Suc (j + k)) (f_mul a b) (x * y)"
proof -
  obtain p q where "a = Num p" "b = Num q" using assms(1,2) by (auto elim!: nearE)
  then show ?thesis using assms near_round [OF near_times] by simp
qed

lemma near_div:
  assumes "near j a x" "near k b y" "in_range (x / y)" "j + k \<le> 32"
  shows "near (Suc (j + k)) (f_div a b) (x / y)"
proof -
  obtain p q where e: "a = Num p" "b = Num q" "0 < q" using assms(1,2) by (auto elim!: nearE)
  have "near (j + k) (Num (p * (1 / q))) (x * (1 / y))"
    using assms(1,2) unfolding e by (intro near_times near_inverse)
  then show ?thesis using near_round [of "j + k" "p / q" "x / y"] assms(3,4) e by simp
qed

lemma near_add:
  assumes "near k a x" "near k b y" "in_range (x + y)" "k \<le> 32"
  shows "near (Suc k) (f_add a b) (x + y)"
proof -
  obtain p q where "a = Num p" "b = Num q" using assms(1,2) by (auto elim!: nearE)
  then show ?thesis using assms near_round [OF near_plus] by simp
qed

lemma near_sqrt:
  assumes "near k a x" "in_range (sqrt x)" "k \<le> 32"
  shows "near (Suc k) (f_sqrt a) (sqrt x)"
proof -
  obtain p where p: "a = Num p" "0 < p" using assms(1) by (auto elim!: nearE)
  then show ?thesis using assms near_round [OF near_sqrt_exact] by simp
qed

lemma near_u32: "0 < n \<Longrightarrow> near 0 (f_from_u32 n) (real n)"
  by (auto simp: f_from_u32_def)

lemma half_le_ln_2: "1 / 2 \<le> ln (2 :: real)"
proof -
  have "exp 1 \<le> (4 :: real)" using exp_le by linarith
  then have "1 \<le> ln (4 :: real)" by (simp add: ln_ge_iff)
  also have "ln (4 :: real) = 2 * ln 2" using ln_realpow [of 2 2] by simp
  finally show ?thesis by simp
qed

lemma near_ln_2: "near 1 F_LN_2 (ln 2)"
proof -
  have "1 / 2 ^ 300 \<le> (1 / 2 :: real)" "1 \<le> (2 :: real) ^ 300" by simp_all
  then have "in_range (ln 2)" using ln_2_less_1 half_le_ln_2 unfolding in_range_def by linarith
  then show ?thesis using near_round [OF near_exact, of "ln 2"] by (simp add: F_LN_2_def)
qed

lemma near_sqrt_2: "near 1 F_SQRT_2 (sqrt 2)"
proof -
  have s: "1 \<le> sqrt (2::real)" by simp
  have "sqrt 2 \<le> sqrt (2 ^ 2 :: real)" by (intro real_sqrt_le_mono) simp
  then have "sqrt 2 \<le> (2::real)" by (simp only: real_sqrt_abs abs_numeral)
  moreover have "1 / 2 ^ 300 \<le> (1 :: real)" "2 \<le> (2 :: real) ^ 300" by simp_all
  ultimately have "in_range (sqrt 2)" using s unfolding in_range_def by linarith
  then show ?thesis using near_round [OF near_exact, of "sqrt 2"] by (simp add: F_SQRT_2_def)
qed

text \<open>Sums that may cancel: an absolute error.\<close>

lemma f_add_absolute:
  assumes "\<bar>x\<bar> \<le> 2 ^ 300" "\<bar>y\<bar> \<le> 2 ^ 300"
  shows "\<exists>z. f_add (Num x) (Num y) = Num z \<and> \<bar>z - (x + y)\<bar> \<le> \<bar>x + y\<bar> / 2 ^ 53 + 1 / 2 ^ 100"
proof -
  have "\<bar>x + y\<bar> \<le> 2 ^ 300 + 2 ^ 300" using assms by linarith
  also have "\<dots> \<le> (2::real) ^ 400" by simp
  finally have "f_add (Num x) (Num y) = Num (nearest (x + y))" by (simp add: f64_round_num)
  then show ?thesis using nearest_absolute [of "x + y"] by blast
qed

text \<open>Comparisons of near values.\<close>

lemma f_le_near:
  assumes "near j a x" "near k b y"
  shows "f_le a b \<Longrightarrow> x \<le> y * rel_unit ^ (j + k)" "\<not> f_le a b \<Longrightarrow> y < x * rel_unit ^ (j + k)"
proof -
  obtain p where p: "a = Num p" "x / rel_unit ^ j \<le> p" "p \<le> x * rel_unit ^ j" using assms(1) by (rule nearE)
  obtain q where q: "b = Num q" "y / rel_unit ^ k \<le> q" "q \<le> y * rel_unit ^ k" using assms(2) by (rule nearE)
  show "x \<le> y * rel_unit ^ (j + k)" if "f_le a b"
  proof -
    have "x / rel_unit ^ j \<le> y * rel_unit ^ k" using that p q by simp
    then show ?thesis by (simp add: pos_divide_le_eq power_add mult_ac)
  qed
  show "y < x * rel_unit ^ (j + k)" if "\<not> f_le a b"
  proof -
    have "y / rel_unit ^ k < x * rel_unit ^ j" using that p q by simp
    then show ?thesis by (simp add: pos_divide_less_eq power_add mult_ac)
  qed
qed

section \<open>An accurate library\<close>

text \<open>What the selection relies on: powers of two and logarithms come out within \<open>2\<^sup>-\<^sup>4\<^sup>0\<close>, some
  thousand times the error of the implementations in use.\<close>

definition libm_accurate :: "f64_libm \<Rightarrow> bool" where
  "libm_accurate lm \<longleftrightarrow>
     (\<forall>n. 0 \<le> n \<and> n < 32 \<longrightarrow> near 1 (lm_powi lm (Num 2) n) (2 ^ nat n)) \<and>
     (\<forall>x. 1 \<le> x \<and> x < 2 ^ 32 \<longrightarrow> (\<exists>y. lm_log2 lm (Num x) = Num y \<and> \<bar>y - log 2 x\<bar> \<le> 1 / 2 ^ 40))"

section \<open>Errors and magnitudes together\<close>

text \<open>\<open>span b x\<close>: \<open>x\<close> is within a factor of \<open>2\<^sup>b\<close> of one. \<open>approx n b v x\<close>: in addition \<open>v\<close> is near \<open>x\<close>, so
  that the next operation neither overflows nor underflows.\<close>

definition span :: "nat \<Rightarrow> real \<Rightarrow> bool" where
  "span b x \<longleftrightarrow> 1 / 2 ^ b \<le> x \<and> x \<le> 2 ^ b"

definition approx :: "nat \<Rightarrow> nat \<Rightarrow> f64 \<Rightarrow> real \<Rightarrow> bool" where
  "approx n b v x \<longleftrightarrow> near n v x \<and> span b x"

lemma span_pos: "span b x \<Longrightarrow> 0 < x"
proof -
  assume "span b x"
  moreover have "(0::real) < 1 / 2 ^ b" by simp
  ultimately show ?thesis unfolding span_def by linarith
qed

lemma span_mono:
  assumes "span b x" "b \<le> c"
  shows "span c x"
proof -
  have p: "(2::real) ^ b \<le> 2 ^ c" using assms(2) by (rule power_increasing) simp
  then have "1 / 2 ^ c \<le> 1 / (2::real) ^ b" by (intro divide_left_mono) simp_all
  then show ?thesis using p assms(1) unfolding span_def by linarith
qed

lemma span_mult:
  assumes "span b x" "span c y"
  shows "span (b + c) (x * y)"
proof -
  note x = assms(1) [unfolded span_def] and y = assms(2) [unfolded span_def]
  have pos: "0 \<le> x" "0 \<le> y" using span_pos assms by (simp_all add: less_imp_le)
  have "1 / 2 ^ b * (1 / 2 ^ c) \<le> x * y" using x y pos by (intro mult_mono) simp_all
  moreover have "x * y \<le> 2 ^ b * 2 ^ c" using x y pos by (intro mult_mono) simp_all
  ultimately show ?thesis by (simp add: span_def power_add)
qed

lemma span_inverse:
  assumes "span b x"
  shows "span b (1 / x)"
proof -
  note x = assms [unfolded span_def] and pos = span_pos [OF assms]
  have "1 / 2 ^ b \<le> 1 / x" using x pos by (intro divide_left_mono) simp_all
  moreover have "1 / x \<le> 1 / (1 / 2 ^ b)" using x pos by (intro divide_left_mono) simp_all
  ultimately show ?thesis by (simp add: span_def)
qed

lemma span_add:
  assumes "span b x" "span b y"
  shows "span (Suc b) (x + y)"
proof -
  have "1 / 2 ^ Suc b \<le> (1 / 2 ^ b :: real)" by (intro divide_left_mono) simp_all
  moreover have "(2::real) ^ Suc b = 2 ^ b + 2 ^ b" by simp
  ultimately show ?thesis using assms span_pos [OF assms(2)] unfolding span_def by linarith
qed

lemma span_sqrt:
  assumes "span b x"
  shows "span b (sqrt x)"
proof -
  note x = assms [unfolded span_def] and pos = span_pos [OF assms]
  have le: "y \<le> sqrt x" if "0 \<le> y" "y \<le> 1" "y \<le> x" for y
  proof (rule real_le_rsqrt)
    have "y\<^sup>2 \<le> y" using that mult_left_le [of y y] by (simp add: power2_eq_square)
    then show "y\<^sup>2 \<le> x" using that by linarith
  qed
  have b: "1 \<le> (2::real) ^ b" by simp
  have "1 / 2 ^ b \<le> sqrt x" using x b by (intro le) simp_all
  moreover have "sqrt x \<le> 2 ^ b"
  proof (rule real_le_lsqrt)
    have "(2::real) ^ b * 1 \<le> 2 ^ b * 2 ^ b" using b by (intro mult_left_mono) simp_all
    then show "x \<le> (2 ^ b)\<^sup>2" using x unfolding power2_eq_square by linarith
  qed simp
  ultimately show ?thesis by (simp add: span_def)
qed

lemma span_in_range: "span b x \<Longrightarrow> b \<le> 300 \<Longrightarrow> in_range x"
  using span_mono [of b x 300] by (simp add: span_def in_range_def)

lemma approx_exact: "span b x \<Longrightarrow> approx 0 b (Num x) x"
  using span_pos by (auto simp: approx_def)

lemma approx_mul:
  assumes "approx j b v x" "approx k c w y" "j + k < n" "n \<le> 33" "b + c \<le> d" "d \<le> 300"
  shows "approx n d (f_mul v w) (x * y)"
proof -
  have s: "span d (x * y)" using assms span_mono [OF span_mult] by (auto simp: approx_def)
  have "near (Suc (j + k)) (f_mul v w) (x * y)"
    using assms span_in_range [OF s] by (intro near_mul) (auto simp: approx_def)
  then show ?thesis using assms(3) s near_mono by (auto simp: approx_def)
qed

lemma approx_div:
  assumes "approx j b v x" "approx k c w y" "j + k < n" "n \<le> 33" "b + c \<le> d" "d \<le> 300"
  shows "approx n d (f_div v w) (x / y)"
proof -
  have s: "span d (x / y)"
    using assms span_mono [OF span_mult [OF _ span_inverse]] by (fastforce simp: approx_def)
  have "near (Suc (j + k)) (f_div v w) (x / y)"
    using assms span_in_range [OF s] by (intro near_div) (auto simp: approx_def)
  then show ?thesis using assms(3) s near_mono by (auto simp: approx_def)
qed

lemma approx_add:
  assumes "approx j b v x" "approx k c w y" "j < n" "k < n" "n \<le> 33" "b < d" "c < d" "d \<le> 300"
  shows "approx n d (f_add v w) (x + y)"
proof -
  obtain n' d' where n: "n = Suc n'" and d: "d = Suc d'" using assms(3,6) by (cases n; cases d) auto
  have x: "near n' v x" "span d' x" and y: "near n' w y" "span d' y"
    using assms near_mono span_mono unfolding n d by (auto simp: approx_def less_Suc_eq_le)
  have s: "span d (x + y)" unfolding d by (rule span_add [OF x(2) y(2)])
  have "near n (f_add v w) (x + y)"
    unfolding n using assms(5,8) span_in_range [OF s] x y n by (intro near_add) auto
  then show ?thesis using s by (simp add: approx_def)
qed

lemma approx_sqrt:
  assumes "approx j b v x" "j < n" "n \<le> 33" "b \<le> 300"
  shows "approx n b (f_sqrt v) (sqrt x)"
proof -
  have s: "span b (sqrt x)" using assms span_sqrt by (auto simp: approx_def)
  have "near (Suc j) (f_sqrt v) (sqrt x)"
    using assms span_in_range [OF s] by (intro near_sqrt) (auto simp: approx_def)
  then show ?thesis using assms(2) s near_mono by (auto simp: approx_def)
qed

text \<open>The constants, and the powers of two of an accurate library.\<close>

lemma approx_numeral: "1 \<le> (x::real) \<Longrightarrow> x \<le> 2 ^ b \<Longrightarrow> approx 0 b (Num x) x"
  by (rule approx_exact) (auto simp: span_def intro: order_trans [of _ 1])

lemma approx_u32: "0 < n \<Longrightarrow> n < 2 ^ 32 \<Longrightarrow> approx 0 32 (f_from_u32 n) (real n)"
  unfolding f_from_u32_def by (rule approx_numeral) simp_all

lemma approx_ln_2: "approx 1 1 F_LN_2 (ln 2)"
  using near_ln_2 half_le_ln_2 ln_2_less_1 by (simp add: approx_def span_def)

lemma approx_sqrt_2: "approx 1 1 F_SQRT_2 (sqrt 2)"
  using near_sqrt_2 span_sqrt [of 1 2] by (simp add: approx_def span_def)

lemma approx_powi:
  assumes "libm_accurate lm" "n < 32"
  shows "approx 1 n (lm_powi lm (Num 2) (int n)) (2 ^ n)"
proof -
  have "near 1 (lm_powi lm (Num 2) (int n)) (2 ^ n)"
    using assms by (auto simp: libm_accurate_def dest: spec [of _ "int n"])
  moreover have "1 / 2 ^ n \<le> (1::real)" by simp
  then have "span n (2 ^ n)" unfolding span_def by (metis one_le_numeral one_le_power order_refl order_trans)
  ultimately show ?thesis by (simp add: approx_def)
qed

end
