(* ===== verification/Sizing.thy ===== *)
theory Sizing
  imports Filter_Correct KV_Contract F64
begin

text \<open>
  Constructors by size: the number of buckets chosen by \<open>from_num_items\<close> has the shape the
  scheme needs and keeps the load within its target, and the constructors give an empty filter,
  respectively store. The comparison of load factors is a parameter \<open>exceeds\<close>, and all that is
  used of it is \<open>load_test\<close>, which holds of the code's \<open>f64\<close> comparison.
\<close>

section \<open>The load test\<close>

text \<open>\<open>MAX_LOAD_FACTOR\<close>, in percent.\<close>

definition MAX_LOAD_FACTOR :: "nat list list" where
  "MAX_LOAD_FACTOR = [[48, 83, 89, 91], [85, 93, 94, 94], [91, 94, 95, 95]]"

definition target_load_factor :: "nat \<Rightarrow> nat \<Rightarrow> nat" where
  "target_load_factor ar bucket_size = MAX_LOAD_FACTOR ! (ar - 2) ! (bucket_size - 1)"

text \<open>The code's comparison, \<open>max_items as f64 / slots as f64 > target\<close>.\<close>

definition f64_exceeds :: "nat \<Rightarrow> nat \<Rightarrow> nat \<Rightarrow> nat \<Rightarrow> bool" where
  "f64_exceeds ar bucket_size max_items slots \<longleftrightarrow>
     f_lt (f64_round (real (target_load_factor ar bucket_size) / 100)) (f_div (f_from_u64 max_items) (f_from_u64 slots))"

text \<open>More items than slots always exceed the target, three slots for an item never do.\<close>

definition load_test :: "(nat \<Rightarrow> nat \<Rightarrow> nat \<Rightarrow> nat \<Rightarrow> bool) \<Rightarrow> bool" where
  "load_test exceeds \<longleftrightarrow> (\<forall>ar \<in> {2, 3, 4}. \<forall>bs \<in> {1, 2, 3, 4}. \<forall>n < 2 ^ 64. \<forall>slots.
     (slots < n \<longrightarrow> exceeds ar bs n slots) \<and> (3 * n \<le> slots \<longrightarrow> \<not> exceeds ar bs n slots))"

lemma load_testD:
  assumes "load_test exceeds" "ar \<in> {2, 3, 4}" "bs \<in> {1, 2, 3, 4}"
  shows "n < 2 ^ 64 \<Longrightarrow> slots < n \<Longrightarrow> exceeds ar bs n slots" "n < 2 ^ 64 \<Longrightarrow> 3 * n \<le> slots \<Longrightarrow> \<not> exceeds ar bs n slots"
  using assms by (auto simp only: load_test_def)

lemma target_range:
  "ar \<in> {2, 3, 4} \<Longrightarrow> bs \<in> {1, 2, 3, 4} \<Longrightarrow> 48 \<le> target_load_factor ar bs \<and> target_load_factor ar bs \<le> 95"
  unfolding target_load_factor_def MAX_LOAD_FACTOR_def by auto

lemma nearest_close:
  assumes "0 \<le> x"
  shows "nearest x \<le> x * (1001 / 1000) + 1 / 1000" "x * (999 / 1000) - 1 / 1000 \<le> nearest x"
proof -
  have "x / 2 ^ 53 \<le> x / 1000" using assms by (intro divide_left_mono) simp_all
  moreover have "(1::real) / 2 ^ 100 \<le> 1 / 1000" by simp
  ultimately have "\<bar>nearest x - x\<bar> \<le> x / 1000 + 1 / 1000" using nearest_absolute [of x] assms by simp
  then show "nearest x \<le> x * (1001 / 1000) + 1 / 1000" "x * (999 / 1000) - 1 / 1000 \<le> nearest x" by linarith+
qed

lemma nearest_nat:
  "nearest (real n) \<le> real n * (1001 / 1000)" "real n * (999 / 1000) \<le> nearest (real n)"
proof -
  have "\<bar>nearest (real n) - real n\<bar> \<le> real n / 1000"
  proof (cases "n = 0")
    case False
    have "(1::real) / 2 ^ 1022 \<le> 1" by simp
    then have "1 / 2 ^ 1022 \<le> \<bar>real n\<bar>" using False by linarith
    moreover have "real n / 2 ^ 53 \<le> real n / 1000" by (intro divide_left_mono) simp_all
    ultimately show ?thesis using nearest_relative [of "real n"] by simp
  qed (simp add: nearest_def)
  then show "nearest (real n) \<le> real n * (1001 / 1000)" "real n * (999 / 1000) \<le> nearest (real n)" by linarith+
qed

lemma f64_load_test: "load_test f64_exceeds"
proof -
  have num: "f_from_u64 n = Num (nearest (real n))" if "n < 2 ^ 66" for n
  proof -
    have "real n \<le> real (2 ^ 66)" using that by (intro of_nat_mono) simp
    also have "\<dots> \<le> 2 ^ 400" by simp
    finally show ?thesis by (simp add: f_from_u64_def f64_round_num)
  qed
  have target: "\<exists>t. f64_round (real (target_load_factor ar bs) / 100) = Num t \<and> 47 / 100 \<le> t \<and> t \<le> 96 / 100"
    if "ar \<in> {2, 3, 4}" "bs \<in> {1, 2, 3, 4}" for ar bs
  proof -
    let ?T = "real (target_load_factor ar bs) / 100"
    have T: "48 / 100 \<le> ?T" "?T \<le> 95 / 100" using target_range [OF that] by simp_all
    have "(1::real) \<le> 2 ^ 400" by simp
    then have "f64_round ?T = Num (nearest ?T)" using T by (intro f64_round_num) linarith
    moreover have "47 / 100 \<le> nearest ?T" "nearest ?T \<le> 96 / 100" using nearest_close [of ?T] T by linarith+
    ultimately show ?thesis by blast
  qed
  have more: "f64_exceeds ar bs n slots"
    if p: "ar \<in> {2, 3, 4}" "bs \<in> {1, 2, 3, 4}" and n: "n < 2 ^ 64" "slots < n" for ar bs n slots
  proof -
    let ?n = "nearest (real n)" and ?s = "nearest (real slots)"
    obtain t where t: "f64_round (real (target_load_factor ar bs) / 100) = Num t" "t \<le> 96 / 100" using target [OF p] by blast
    have n': "0 < ?n" using nearest_nat(2) [of n] n(2) by linarith
    have e: "f_from_u64 n = Num ?n" "f_from_u64 slots = Num ?s" using n by (simp_all add: num)
    show ?thesis
    proof (cases "slots = 0")
      case True
      then have "?s = 0" by (simp add: nearest_def)
      then show ?thesis using t(1) e n' by (simp add: f64_exceeds_def)
    next
      case False
      then have s': "0 < ?s" using nearest_nat(2) [of slots] by linarith
      have "?s * (99 / 100) \<le> ?n" using nearest_nat(1) [of slots] nearest_nat(2) [of n] n(2) by linarith
      then have q: "99 / 100 \<le> ?n / ?s" using s' by (simp add: pos_le_divide_eq mult.commute)
      have "real n \<le> real (2 ^ 64)" using n(1) by (intro of_nat_mono) simp
      then have "?n \<le> 2 ^ 65" using nearest_nat(1) [of n] by simp
      moreover have "1 / 2 \<le> ?s" using nearest_nat(2) [of slots] False by linarith
      ultimately have "?n / ?s \<le> 2 ^ 65 / (1 / 2)" using n' by (intro frac_le) simp_all
      also have "\<dots> \<le> (2::real) ^ 400" by simp
      finally have "f64_round (?n / ?s) = Num (nearest (?n / ?s))" using q by (intro f64_round_num) simp
      moreover have close: "t < nearest r" if "99 / 100 \<le> r" for r using nearest_close(2) [of r] that t(2) by linarith
      note close [OF q]
      ultimately show ?thesis using t(1) e s' by (simp add: f64_exceeds_def)
    qed
  qed
  have fewer: "\<not> f64_exceeds ar bs n slots"
    if p: "ar \<in> {2, 3, 4}" "bs \<in> {1, 2, 3, 4}" and n: "n < 2 ^ 64" "3 * n \<le> slots" for ar bs n slots
  proof -
    let ?n = "nearest (real n)" and ?s = "nearest (real slots)"
    obtain t where t: "f64_round (real (target_load_factor ar bs) / 100) = Num t" "47 / 100 \<le> t" using target [OF p] by blast
    have e: "f_from_u64 n = Num ?n" using n by (simp add: num)
    have n0: "0 \<le> ?n" using nearest_nat(2) [of n] by linarith
    have "f_from_u64 slots = Infinite False \<or> f_from_u64 slots = Num ?s"
      unfolding f_from_u64_def f64_round_def by (cases "2 ^ 1024 \<le> \<bar>?s\<bar>") (simp_all only: if_True if_False, simp_all)
    then consider "f_from_u64 slots = Infinite False" | "f_from_u64 slots = Num ?s" by blast
    then show ?thesis
    proof cases
      case 1
      then show ?thesis using t e by (simp add: f64_exceeds_def)
    next
      case 2
      show ?thesis
      proof (cases "slots = 0")
        case True
        then have "?s = 0" "?n = 0" using n(2) by (simp_all add: nearest_def)
        then show ?thesis using t(1) e 2 by (simp add: f64_exceeds_def)
      next
        case False
        then have s': "0 < ?s" using nearest_nat(2) [of slots] by linarith
        have "?n \<le> (4 / 10) * ?s" using nearest_nat(1) [of n] nearest_nat(2) [of slots] n(2) by linarith
        then have q: "?n / ?s \<le> 4 / 10" "0 \<le> ?n / ?s" using s' n0 by (simp_all add: pos_divide_le_eq)
        have "(1::real) \<le> 2 ^ 400" by simp
        then have "f64_round (?n / ?s) = Num (nearest (?n / ?s))" using q by (intro f64_round_num) linarith
        moreover have close: "nearest r < t" if "r \<le> 4 / 10" "0 \<le> r" for r using nearest_close(1) [of r] that t(2) by linarith
        note close [OF q]
        ultimately show ?thesis using t(1) e 2 s' by (simp add: f64_exceeds_def)
      qed
    qed
  qed
  show ?thesis using more fewer by (simp add: load_test_def)
qed

text \<open>The accessor \<open>load_factor\<close> of filter and store: the items per slot, within three roundings.\<close>

definition cf_load_factor :: "cuckoo_filter \<Rightarrow> f64" where
  "cf_load_factor cf = f_div (f_from_u64 (cf_num_items cf))
     (f_mul (f_from_u32 (ft_num_buckets (cf_table cf))) (f_from_u32 (ft_bucket_size (cf_table cf))))"

definition kv_load_factor :: "kv_store \<Rightarrow> f64" where
  "kv_load_factor st = f_div (f_from_u64 (kv_num_items st))
     (f_mul (f_from_u32 (fv_num_buckets (kv_table st))) (f_from_u32 (fv_bucket_size (kv_table st))))"

lemma load_factor_near:
  assumes "0 < n" "n < 2 ^ 64" "0 < nb" "nb < 2 ^ 32" "0 < bs" "bs < 2 ^ 32"
  shows "near 3 (f_div (f_from_u64 n) (f_mul (f_from_u32 nb) (f_from_u32 bs))) (real n / (real nb * real bs))"
proof -
  have "real n \<le> real (2 ^ 64)" using assms(2) by (intro of_nat_mono) simp
  moreover have "1 / 2 ^ 64 \<le> (1::real)" by simp
  ultimately have s: "span 64 (real n)" using assms(1) unfolding span_def by simp
  have "near 1 (f_from_u64 n) (real n)"
    using near_round [OF near_exact, of "real n"] span_in_range [OF s] assms(1) by (simp add: f_from_u64_def)
  then have n: "approx 1 64 (f_from_u64 n) (real n)" using s by (simp add: approx_def)
  have m: "approx 1 64 (f_mul (f_from_u32 nb) (f_from_u32 bs)) (real nb * real bs)"
    by (rule approx_mul [OF approx_u32 [OF assms(3,4)] approx_u32 [OF assms(5,6)]]) simp_all
  have "approx 3 128 (f_div (f_from_u64 n) (f_mul (f_from_u32 nb) (f_from_u32 bs))) (real n / (real nb * real bs))"
    by (rule approx_div [OF n m]) simp_all
  then show ?thesis by (simp add: approx_def)
qed

lemma common_params:
  "validate_common_params ar bs fb = Inr () \<longleftrightarrow>
     ar \<in> {2, 3, 4} \<and> bs \<in> {1, 2, 3, 4} \<and> ilog2 (ar * bs) + 1 \<le> fb \<and> fb \<le> 64"
  by (auto simp: validate_common_params_def Let_def)

section \<open>The sizing loops\<close>

lemma next_power_of_2_total:
  assumes "x \<le> 2 ^ 28"
  shows "\<exists>t \<le> 28. next_power_of_2 x = Some (2 ^ t)"
proof (cases "x \<le> 1")
  case True
  then show ?thesis by (intro exI [of _ 0]) (auto simp: next_power_of_2_def next_power_of_two_def)
next
  case False
  obtain t where t: "next_power_of_two x = 2 ^ t" using next_power_of_two_spec(1) by blast
  have "(2::nat) ^ t < 2 ^ 29" using next_power_of_two_spec(3) [of x] False assms t by simp
  then have "t < 29" by (rule power_less_imp_less_exp [rotated]) simp
  then show ?thesis using t False assms by (intro exI [of _ t]) (simp add: next_power_of_2_def)
qed

lemma power_loop_total:
  assumes "k \<le> T" "bound \<le> base ^ T" "base ^ T < 2 ^ 64" "0 < base"
  shows "\<exists>t \<le> T. power_loop base bound (base ^ k) = Some (base ^ t)"
  using assms(1)
proof (induction "T - k" arbitrary: k)
  case 0
  then have "k = T" by simp
  then show ?case using assms(2) by (subst power_loop.simps) auto
next
  case (Suc n)
  have "base ^ Suc k \<le> base ^ T" using Suc.hyps(2) assms(4) by (intro power_increasing) simp_all
  then have lt: "base ^ k * base < 2 ^ 64" using assms(3) by (simp add: mult.commute)
  show ?case
  proof (cases "base ^ k < bound")
    case True
    then show ?thesis using Suc.hyps(1) [of "Suc k"] Suc.hyps(2) lt
      by (subst power_loop.simps) (simp add: mult.commute)
  next
    case False
    then show ?thesis using Suc.prems by (subst power_loop.simps) auto
  qed
qed

lemma next_power_of_3_total: "x \<le> 3 ^ 20 \<Longrightarrow> \<exists>t \<le> 20. next_power_of_3 x = Some (3 ^ t)"
  and next_power_of_4_total: "x \<le> 4 ^ 15 \<Longrightarrow> \<exists>t \<le> 15. next_power_of_4 x = Some (4 ^ t)"
  using power_loop_total [of 0 20 x 3] power_loop_total [of 0 15 x 4]
  by (auto simp: next_power_of_3_def next_power_of_4_def intro!: exI [of _ 0])

text \<open>Room for three slots per item below the width of \<open>u32\<close> is enough for both loops.\<close>

lemma choose_buckets_ok:
  assumes lt: "load_test exceeds" "base \<in> {2, 3, 4}" "bs \<in> {1, 2, 3, 4}"
    and nxt: "nxt (div_ceil n bs) = Some (base ^ t)" "t \<le> T"
    and room: "base ^ T < 2 ^ 32" "3 * n \<le> base ^ T * bs" and least: "l \<le> T"
  shows "\<exists>u \<ge> l. choose_buckets exceeds nxt base (base ^ l) n bs = Some (base ^ u) \<and> base ^ u < 2 ^ 32 \<and>
    \<not> exceeds base bs n (base ^ u * bs)"
proof -
  let ?ex = "\<lambda>nb. exceeds base bs n (nb * bs)" and ?k = "max t l"
  have b: "1 < base" using lt(2) by auto
  have le: "base ^ k \<le> base ^ T" if "k \<le> T" for k using that b by (intro power_increasing) simp_all
  have t: "base ^ t mod 2 ^ 32 = base ^ t" using le [OF nxt(2)] room(1) by simp
  have k: "(if base ^ t < base ^ l then base ^ l else base ^ t) = base ^ ?k"
    using b power_strict_increasing_iff [of base t l] by (auto simp: max_def)
  have ch: "choose_buckets exceeds nxt base (base ^ l) n bs = grow_buckets ?ex base (base ^ ?k)"
    by (simp only: choose_buckets_def Let_def nxt(1) Option.bind.simps t k)
  have ex: "\<not> ?ex m" if "base ^ T \<le> m" for m
  proof -
    have "base ^ T * bs \<le> m * bs" using that by (rule mult_le_mono1)
    then have "3 * n \<le> m * bs" using room(2) by linarith
    moreover have "base ^ T * bs < 2 ^ 32 * 5" using room(1) lt(3) by (intro mult_strict_mono) auto
    then have "n < 2 ^ 64" using room(2) by simp
    ultimately show ?thesis by (intro load_testD(2) [OF lt])
  qed
  have kT: "?k \<le> T" using nxt(2) least by simp
  have "base ^ ?k * base ^ (T - ?k) = base ^ T" using kT by (simp flip: power_add)
  then obtain m where m: "grow_buckets ?ex base (base ^ ?k) = Some m"
    using grow_buckets_total [of "base ^ ?k" base "T - ?k" ?ex] ex room(1) b by auto
  from grow_buckets_spec [OF m] obtain j where j: "m = base ^ ?k * base ^ j" "\<not> ?ex m" "j = 0 \<or> m < 2 ^ 32" by blast
  have "m < 2 ^ 32" using j(1,3) le [OF kT] room(1) by auto
  then show ?thesis using j m ch by (intro exI [of _ "?k + j"]) (simp add: power_add)
qed

lemma grow_segments_total:
  assumes "\<And>n. k * (seg * 2 ^ m) \<le> n \<Longrightarrow> \<not> ex n" "k * (seg * 2 ^ m) < 2 ^ 32" "0 < k"
  shows "\<exists>n. grow_segments ex k seg (k * seg) = Some n"
  using assms(1,2)
proof (induction m arbitrary: seg)
  case 0
  then show ?case by (subst grow_segments.simps) simp
next
  case (Suc m)
  have "k * (seg * 2) * 1 \<le> k * (seg * 2) * 2 ^ m" by (intro mult_le_mono2) simp
  moreover have "k * (seg * 2) * 2 ^ m = k * (seg * 2 ^ Suc m)" by simp
  ultimately have lt: "k * (seg * 2) < 2 ^ 32" using Suc.prems(2) by linarith
  have "1 * (seg * 2) \<le> k * (seg * 2)" using assms(3) by (intro mult_le_mono1) simp
  then have "seg * 2 < 2 ^ 32" using lt by linarith
  moreover have "\<exists>n. grow_segments ex k (seg * 2) (k * (seg * 2)) = Some n"
    using Suc.prems by (intro Suc.IH) (simp_all add: mult.assoc)
  ultimately show ?case using lt by (subst grow_segments.simps) auto
qed

lemma choose_segments_ok:
  assumes lt: "load_test exceeds" "k \<in> {2, 3, 4}" "bs \<in> {1, 2, 3, 4}" and n: "n \<le> 2 ^ 28 * bs"
  shows "\<exists>u. choose_segments exceeds k n bs = Some (k * 2 ^ u) \<and> k * 2 ^ u < 2 ^ 32 \<and>
    \<not> exceeds k bs n (k * 2 ^ u * bs)"
proof -
  let ?ex = "\<lambda>nb. exceeds k bs n (nb * bs)"
  have k: "2 \<le> k" "k \<le> 4" "0 < k * bs" "0 < bs" using lt(2,3) by auto
  have "2 ^ 28 * bs * 1 \<le> 2 ^ 28 * bs * k" using k(1) by (intro mult_le_mono2) simp
  moreover have "2 ^ 28 * bs * k = 2 ^ 28 * (k * bs)" by simp
  ultimately have "n \<le> 2 ^ 28 * (k * bs)" using n by linarith
  then have "div_ceil n (k * bs) \<le> 2 ^ 28" using k(3) by (simp add: div_ceil_le_iff mult.commute)
  then obtain t where t: "t \<le> 28" "next_power_of_2 (div_ceil n (k * bs)) = Some (2 ^ t)"
    using next_power_of_2_total by blast
  have pt: "(2::nat) ^ t \<le> 2 ^ 28" using t(1) by (intro power_increasing) simp_all
  have seg: "(2::nat) ^ t mod 2 ^ 32 = 2 ^ t" "\<not> (2::nat) ^ t < 1" using pt by simp_all
  have kt: "k * 2 ^ t < 2 ^ 32" using mult_le_mono [OF k(2) pt] by simp
  have ch: "choose_segments exceeds k n bs = grow_segments ?ex k (2 ^ t) (k * 2 ^ t)"
    using t(2) seg kt by (simp only: choose_segments_def Let_def Option.bind.simps if_False assert_opt_simps simp_thms)
  have ex: "\<not> ?ex m" if "k * (2 ^ t * 2 ^ (29 - t)) \<le> m" for m
  proof -
    have "2 ^ t * 2 ^ (29 - t) = (2 :: nat) ^ 29" using t(1) by (simp flip: power_add)
    then have "k * 2 ^ 29 \<le> m" using that by (simp only:)
    then have "2 * 2 ^ 29 \<le> m" using mult_le_mono1 [OF k(1), of "2 ^ 29"] by linarith
    then have "2 ^ 30 * bs \<le> m * bs" by (intro mult_le_mono1) simp
    moreover have "2 ^ 30 * bs = 4 * (2 ^ 28 * bs)" by simp
    ultimately have "3 * n \<le> m * bs" using n by linarith
    moreover have "n < 2 ^ 64" using n lt(3) by auto
    ultimately show ?thesis by (intro load_testD(2) [OF lt])
  qed
  have "2 ^ t * 2 ^ (29 - t) = (2 :: nat) ^ 29" using t(1) by (simp flip: power_add)
  then have "k * (2 ^ t * 2 ^ (29 - t)) < 2 ^ 32" using k(2) by simp
  then obtain m where m: "grow_segments ?ex k (2 ^ t) (k * 2 ^ t) = Some m"
    using grow_segments_total [of k "2 ^ t" "29 - t" ?ex] ex k(1) by auto
  from grow_segments_spec [OF m refl] obtain j where
    j: "m = k * (2 ^ t * 2 ^ j)" "\<not> ?ex m" "j = 0 \<or> m < 2 ^ 32" by blast
  have "m < 2 ^ 32" using j(1,3) kt by auto
  then show ?thesis using j m ch by (intro exI [of _ "t + j"]) (simp add: power_add)
qed

section \<open>Empty filters\<close>

definition cf_fresh :: "nat \<Rightarrow> nat \<Rightarrow> nat \<Rightarrow> nat \<Rightarrow> cuckoo_filter \<Rightarrow> bool" where
  "cf_fresh ar nb bs fb cf \<longleftrightarrow> cf_inv cf \<and> cf_bag cf = {#} \<and> cf_num_items cf = 0 \<and>
     arity (cf_scheme cf) = ar \<and> ft_num_buckets (cf_table cf) = nb \<and> ft_bucket_size (cf_table cf) = bs \<and>
     ft_fingerprint_bits (cf_table cf) = fb"

lemma ft_new_empty:
  assumes "1 \<le> fb" "fb \<le> 64" "ft_new nb bs fb = Some t"
  shows "fpt.bag (cf_entry scheme) t = {#}"
proof -
  note n = ft_new_inv [OF assms]
  have "ft_at t b s = 0" if "b < nb" "s < bs" for b s
  proof -
    have "ft_read t b s = Some 0"
      using n that ft_field_len [OF n(1)] by (subst ft_read_iff [OF n(1)]) auto
    then show ?thesis by (rule fpt.view_eq)
  qed
  then show ?thesis
    unfolding fpt.bag_def using n by (intro sum.neutral) (auto simp: fpt.slots_def cf_entry_def)
qed

lemma cf_new_common_fresh:
  assumes "validate_common_params ar bs fb = Inr ()" "valid_scheme scheme" "scheme_buckets scheme = nb" "arity scheme = ar"
  shows "\<exists>cf. cf_new_common ar scheme nb bs fb = Some (Inr cf) \<and> cf_fresh ar nb bs fb cf"
proof -
  have p: "1 \<le> fb" "fb \<le> 64" "0 < bs" "bs \<le> 4" using assms(1) by (auto simp: common_params)
  have nb: "nb \<le> 2 ^ 32" using scheme_buckets_less [OF assms(2)] assms(3) by simp
  have "nb * bs \<le> 2 ^ 32 * 4" by (rule mult_le_mono [OF nb p(4)])
  moreover from this have "nb * bs * fb \<le> 2 ^ 32 * 4 * 64" by (rule mult_le_mono [OF _ p(2)])
  ultimately obtain t where t: "ft_new nb bs fb = Some t" by (simp add: ft_new_def Let_def)
  show ?thesis
    using assms t ft_new_inv [OF p(1,2) t] ft_new_empty [OF p(1,2) t] p(3)
    by (simp add: cf_new_common_def cf_fresh_def cf_inv_def cf_bag_def)
qed

lemma two_power_is_power: "2 ^ u < (2 :: nat) ^ 32 \<Longrightarrow> is_power_of_two (2 ^ u)"
  using is_power_of_two_iff [of "2 ^ u"] by auto

lemma std_schemes:
  "2 ^ u < (2 :: nat) ^ 32 \<Longrightarrow> valid_scheme (Standard2aryScheme (of_nat (2 ^ u))) \<and>
     scheme_buckets (Standard2aryScheme (of_nat (2 ^ u))) = 2 ^ u"
  "3 ^ v < (2 :: nat) ^ 32 \<Longrightarrow> valid_scheme (Standard3aryScheme (of_nat (3 ^ v))) \<and>
     scheme_buckets (Standard3aryScheme (of_nat (3 ^ v))) = 3 ^ v"
  "4 ^ w < (2 :: nat) ^ 32 \<Longrightarrow> valid_scheme (Standard4aryScheme (of_nat (4 ^ w))) \<and>
     scheme_buckets (Standard4aryScheme (of_nat (4 ^ w))) = 4 ^ w"
proof -
  have un: "unat (of_nat n :: u32) = n" if "n < 2 ^ 32" for n using that by (simp add: unat_of_nat)
  show "2 ^ u < (2 :: nat) ^ 32 \<Longrightarrow> valid_scheme (Standard2aryScheme (of_nat (2 ^ u))) \<and>
     scheme_buckets (Standard2aryScheme (of_nat (2 ^ u))) = 2 ^ u"
    unfolding valid_scheme.simps scheme_buckets.simps
    using un [of "2 ^ u"] power_less_imp_less_exp [of "2 :: nat" u 32] by auto
  show "3 ^ v < (2 :: nat) ^ 32 \<Longrightarrow> valid_scheme (Standard3aryScheme (of_nat (3 ^ v))) \<and>
     scheme_buckets (Standard3aryScheme (of_nat (3 ^ v))) = 3 ^ v"
  proof -
    assume lt: "3 ^ v < (2 :: nat) ^ 32"
    then have "(3 :: nat) ^ v < 3 ^ 21" by simp
    then have "v < 21" by (rule power_less_imp_less_exp [rotated]) simp
    then show ?thesis unfolding valid_scheme.simps scheme_buckets.simps using un [OF lt] by auto
  qed
  show "4 ^ w < (2 :: nat) ^ 32 \<Longrightarrow> valid_scheme (Standard4aryScheme (of_nat (4 ^ w))) \<and>
     scheme_buckets (Standard4aryScheme (of_nat (4 ^ w))) = 4 ^ w"
  proof -
    assume lt: "4 ^ w < (2 :: nat) ^ 32"
    then have "(4 :: nat) ^ w < 4 ^ 16" by simp
    then have "w < 16" by (rule power_less_imp_less_exp [rotated]) simp
    then show ?thesis unfolding valid_scheme.simps scheme_buckets.simps using un [OF lt] by auto
  qed
qed

text \<open>What each constructor of a filter accepts.\<close>

lemma cf_new_fresh:
  assumes "nb < 2 ^ 32"
  shows "validate_common_params 2 bs fb = Inr () \<Longrightarrow> nb = 2 ^ u \<Longrightarrow> 1 \<le> u \<Longrightarrow>
      \<exists>cf. cf_new_seg2 nb bs fb = Some (Inr cf) \<and> cf_fresh 2 nb bs fb cf"
    and "validate_common_params 3 bs fb = Inr () \<Longrightarrow> nb = 3 * 2 ^ u \<Longrightarrow>
      \<exists>cf. cf_new_seg3 nb bs fb = Some (Inr cf) \<and> cf_fresh 3 nb bs fb cf"
    and "validate_common_params 4 bs fb = Inr () \<Longrightarrow> nb = 4 * 2 ^ u \<Longrightarrow>
      \<exists>cf. cf_new_seg4 nb bs fb = Some (Inr cf) \<and> cf_fresh 4 nb bs fb cf"
    and "validate_common_params 2 bs fb = Inr () \<Longrightarrow> nb = 2 ^ u \<Longrightarrow>
      \<exists>cf. cf_new_std2 nb bs fb = Some (Inr cf) \<and> cf_fresh 2 nb bs fb cf"
    and "validate_common_params 3 bs fb = Inr () \<Longrightarrow> nb = 3 ^ u \<Longrightarrow>
      \<exists>cf. cf_new_std3 nb bs fb = Some (Inr cf) \<and> cf_fresh 3 nb bs fb cf"
    and "validate_common_params 4 bs fb = Inr () \<Longrightarrow> nb = 4 ^ u \<Longrightarrow>
      \<exists>cf. cf_new_std4 nb bs fb = Some (Inr cf) \<and> cf_fresh 4 nb bs fb cf"
proof -
  note sch = constructor_scheme [OF assms] and pow = is_power_of_two_iff [THEN iffD2]
  have lt: "nb < 2 ^ 64" using assms by simp
  show "\<exists>cf. cf_new_seg2 nb bs fb = Some (Inr cf) \<and> cf_fresh 2 nb bs fb cf"
    if "validate_common_params 2 bs fb = Inr ()" "nb = 2 ^ u" "1 \<le> u"
  proof -
    have p: "is_power_of_two nb" "2 \<le> nb" using that lt power_increasing [of 1 u "2 :: nat"] by (auto intro!: pow)
    then show ?thesis using cf_new_common_fresh [OF that(1)] sch(1) by (simp add: cf_new_seg2_def)
  qed
  show "\<exists>cf. cf_new_seg3 nb bs fb = Some (Inr cf) \<and> cf_fresh 3 nb bs fb cf"
    if "validate_common_params 3 bs fb = Inr ()" "nb = 3 * 2 ^ u"
  proof -
    have p: "nb mod 3 = 0" "is_power_of_two (nb div 3)" "\<not> nb < 3" using that lt by (auto intro!: pow)
    then show ?thesis using cf_new_common_fresh [OF that(1)] sch(2) by (simp add: cf_new_seg3_def)
  qed
  show "\<exists>cf. cf_new_seg4 nb bs fb = Some (Inr cf) \<and> cf_fresh 4 nb bs fb cf"
    if "validate_common_params 4 bs fb = Inr ()" "nb = 4 * 2 ^ u"
  proof -
    have "nb = 2 ^ (u + 2)" using that(2) by (simp add: power_add)
    then have p: "is_power_of_two nb" using is_power_of_two_iff [OF lt] by blast
    have "4 \<le> nb" using that(2) by simp
    note p = p this
    then show ?thesis using cf_new_common_fresh [OF that(1)] sch(3) by (simp add: cf_new_seg4_def)
  qed
  show "\<exists>cf. cf_new_std2 nb bs fb = Some (Inr cf) \<and> cf_fresh 2 nb bs fb cf"
    if "validate_common_params 2 bs fb = Inr ()" "nb = 2 ^ u"
  proof -
    have p: "is_power_of_two nb" "\<not> nb < 1" using that lt by (auto intro!: pow)
    have sc: "valid_scheme (Standard2aryScheme (of_nat nb)) \<and> scheme_buckets (Standard2aryScheme (of_nat nb)) = nb"
      using std_schemes(1) [of u] assms unfolding that(2) by blast
    show ?thesis using cf_new_common_fresh [OF that(1) conjunct1 [OF sc] conjunct2 [OF sc]] p by (simp add: cf_new_std2_def)
  qed
  show "\<exists>cf. cf_new_std3 nb bs fb = Some (Inr cf) \<and> cf_fresh 3 nb bs fb cf"
    if "validate_common_params 3 bs fb = Inr ()" "nb = 3 ^ u"
  proof -
    have p: "is_power_of_3 nb" "\<not> nb < 1" using that by (auto simp: is_power_of_3_iff)
    have sc: "valid_scheme (Standard3aryScheme (of_nat nb)) \<and> scheme_buckets (Standard3aryScheme (of_nat nb)) = nb"
      using std_schemes(2) [of u] assms unfolding that(2) by blast
    show ?thesis using cf_new_common_fresh [OF that(1) conjunct1 [OF sc] conjunct2 [OF sc]] p by (simp add: cf_new_std3_def)
  qed
  show "\<exists>cf. cf_new_std4 nb bs fb = Some (Inr cf) \<and> cf_fresh 4 nb bs fb cf"
    if "validate_common_params 4 bs fb = Inr ()" "nb = 4 ^ u"
  proof -
    have p: "is_power_of_4 nb" "\<not> nb < 1" using that lt by (auto simp: is_power_of_4_iff)
    have sc: "valid_scheme (Standard4aryScheme (of_nat nb)) \<and> scheme_buckets (Standard4aryScheme (of_nat nb)) = nb"
      using std_schemes(3) [of u] assms unfolding that(2) by blast
    show ?thesis using cf_new_common_fresh [OF that(1) conjunct1 [OF sc] conjunct2 [OF sc]] p by (simp add: cf_new_std4_def)
  qed
qed

section \<open>Sized filters and stores\<close>

lemma cf_sized:
  assumes v: "validate_common_params ar bs fb = Inr ()" and n: "n \<le> 2 ^ 28 * bs"
    and pick: "pick n bs = Some nb" "nb < 2 ^ 32" "\<not> exceeds ar bs n (nb * bs)" and lt: "load_test exceeds"
    and new: "\<exists>cf. new nb bs fb = Some (Inr cf) \<and> cf_fresh ar nb bs fb cf"
  shows "\<exists>nb cf. cf_from_num_items_with ar pick new n bs fb = Some (Inr cf) \<and> cf_fresh ar nb bs fb cf \<and>
    n \<le> nb * bs \<and> \<not> exceeds ar bs n (nb * bs)"
proof -
  have p: "ar \<in> {2, 3, 4}" "bs \<in> {1, 2, 3, 4}" using v by (simp_all add: common_params)
  have "n < 2 ^ 64" using n p(2) by auto
  then have "n \<le> nb * bs" using load_testD(1) [OF lt p, of n "nb * bs"] pick(3) not_less by blast
  moreover have "\<not> (2 ^ 32 - 1) * bs < n" using n by simp
  ultimately show ?thesis using v pick new by (auto simp: cf_from_num_items_with_def)
qed

lemma div_ceil_items: "n \<le> 2 ^ 28 * bs \<Longrightarrow> 0 < bs \<Longrightarrow> div_ceil n bs \<le> 2 ^ 28"
  by (simp add: div_ceil_le_iff mult.commute)

lemma choose_buckets_shape:
  assumes lt: "load_test exceeds" "bs \<in> {1, 2, 3, 4}" and n: "n \<le> 2 ^ 28 * bs"
  shows "l \<le> 1 \<Longrightarrow> \<exists>u \<ge> l. choose_buckets exceeds next_power_of_2 2 (2 ^ l) n bs = Some (2 ^ u) \<and> 2 ^ u < (2::nat) ^ 32 \<and>
      \<not> exceeds 2 bs n (2 ^ u * bs)"
    and "\<exists>u. choose_buckets exceeds next_power_of_3 3 1 n bs = Some (3 ^ u) \<and> 3 ^ u < (2::nat) ^ 32 \<and>
      \<not> exceeds 3 bs n (3 ^ u * bs)"
    and "\<exists>u. choose_buckets exceeds next_power_of_4 4 1 n bs = Some (4 ^ u) \<and> 4 ^ u < (2::nat) ^ 32 \<and>
      \<not> exceeds 4 bs n (4 ^ u * bs)"
proof -
  have bs: "0 < bs" using lt(2) by auto
  note dc = div_ceil_items [OF n bs]
  obtain t2 t3 t4 where t: "t2 \<le> 28" "next_power_of_2 (div_ceil n bs) = Some (2 ^ t2)"
    "t3 \<le> 20" "next_power_of_3 (div_ceil n bs) = Some (3 ^ t3)" "t4 \<le> 15" "next_power_of_4 (div_ceil n bs) = Some (4 ^ t4)"
    using next_power_of_2_total [OF dc] next_power_of_3_total [of "div_ceil n bs"]
      next_power_of_4_total [of "div_ceil n bs"] dc by auto
  have room: "3 * n \<le> c * bs" if "3 * 2 ^ 28 \<le> c" for c
    using mult_le_mono1 [OF that, of bs] n by linarith
  show "\<exists>u \<ge> l. choose_buckets exceeds next_power_of_2 2 (2 ^ l) n bs = Some (2 ^ u) \<and> 2 ^ u < (2::nat) ^ 32 \<and>
      \<not> exceeds 2 bs n (2 ^ u * bs)" if "l \<le> 1"
    using choose_buckets_ok [where base = 2 and t = t2 and T = 30 and l = l and n = n and nxt = next_power_of_2, OF lt(1) _ lt(2) t(2)] that t(1) room [of "2 ^ 30"] by simp
  show "\<exists>u. choose_buckets exceeds next_power_of_3 3 1 n bs = Some (3 ^ u) \<and> 3 ^ u < (2::nat) ^ 32 \<and>
      \<not> exceeds 3 bs n (3 ^ u * bs)"
    using choose_buckets_ok [where base = 3 and t = t3 and T = 20 and l = 0 and n = n and nxt = next_power_of_3, OF lt(1) _ lt(2) t(4)] t(3) room [of "3 ^ 20"] by auto
  show "\<exists>u. choose_buckets exceeds next_power_of_4 4 1 n bs = Some (4 ^ u) \<and> 4 ^ u < (2::nat) ^ 32 \<and>
      \<not> exceeds 4 bs n (4 ^ u * bs)"
    using choose_buckets_ok [where base = 4 and t = t4 and T = 15 and l = 0 and n = n and nxt = next_power_of_4, OF lt(1) _ lt(2) t(6)] t(5) room [of "4 ^ 15"] by auto
qed

text \<open>\<open>from_num_items\<close> of the six filters.\<close>

definition sized_filter :: "(nat \<Rightarrow> nat \<Rightarrow> nat \<Rightarrow> nat \<Rightarrow> bool) \<Rightarrow> nat \<Rightarrow> nat \<Rightarrow> nat \<Rightarrow> nat \<Rightarrow>
    (cuckoo_error + cuckoo_filter) option \<Rightarrow> bool" where
  "sized_filter exceeds ar n bs fb r \<longleftrightarrow> (\<exists>nb cf. r = Some (Inr cf) \<and> cf_fresh ar nb bs fb cf \<and>
     n \<le> nb * bs \<and> \<not> exceeds ar bs n (nb * bs))"

lemma cf_from_num_items_sized:
  assumes lt: "load_test exceeds" and n: "n \<le> 2 ^ 28 * bs"
  shows "validate_common_params 2 bs fb = Inr () \<Longrightarrow> sized_filter exceeds 2 n bs fb (cf_from_num_items_seg2 exceeds n bs fb)"
    and "validate_common_params 3 bs fb = Inr () \<Longrightarrow> sized_filter exceeds 3 n bs fb (cf_from_num_items_seg3 exceeds n bs fb)"
    and "validate_common_params 4 bs fb = Inr () \<Longrightarrow> sized_filter exceeds 4 n bs fb (cf_from_num_items_seg4 exceeds n bs fb)"
    and "validate_common_params 2 bs fb = Inr () \<Longrightarrow> sized_filter exceeds 2 n bs fb (cf_from_num_items_std2 exceeds n bs fb)"
    and "validate_common_params 3 bs fb = Inr () \<Longrightarrow> sized_filter exceeds 3 n bs fb (cf_from_num_items_std3 exceeds n bs fb)"
    and "validate_common_params 4 bs fb = Inr () \<Longrightarrow> sized_filter exceeds 4 n bs fb (cf_from_num_items_std4 exceeds n bs fb)"
proof -
  note sized = cf_sized [OF _ n _ _ _ lt]
  have bs: "bs \<in> {1, 2, 3, 4}" if "validate_common_params ar bs fb = Inr ()" for ar using that by (simp add: common_params)
  show "sized_filter exceeds 2 n bs fb (cf_from_num_items_seg2 exceeds n bs fb)" if v: "validate_common_params 2 bs fb = Inr ()"
  proof -
    obtain u where u: "1 \<le> u" "choose_buckets exceeds next_power_of_2 2 2 n bs = Some (2 ^ u)" "2 ^ u < (2::nat) ^ 32"
      "\<not> exceeds 2 bs n (2 ^ u * bs)" using choose_buckets_shape(1) [OF lt bs [OF v] n, of 1] by auto
    show ?thesis unfolding sized_filter_def cf_from_num_items_seg2_def
      by (rule sized [where pick = "choose_buckets exceeds next_power_of_2 2 2" and new = cf_new_seg2, OF v u(2-4) cf_new_fresh(1) [OF u(3) v refl u(1)]])
  qed
  show "sized_filter exceeds 3 n bs fb (cf_from_num_items_seg3 exceeds n bs fb)" if v: "validate_common_params 3 bs fb = Inr ()"
  proof -
    obtain u where u: "choose_segments exceeds 3 n bs = Some (3 * 2 ^ u)" "3 * 2 ^ u < (2::nat) ^ 32"
      "\<not> exceeds 3 bs n (3 * 2 ^ u * bs)" using choose_segments_ok [OF lt _ bs [OF v] n, of 3] by auto
    show ?thesis unfolding sized_filter_def cf_from_num_items_seg3_def
      by (rule sized [where pick = "choose_segments exceeds 3" and new = cf_new_seg3, OF v u cf_new_fresh(2) [OF u(2) v refl]])
  qed
  show "sized_filter exceeds 4 n bs fb (cf_from_num_items_seg4 exceeds n bs fb)" if v: "validate_common_params 4 bs fb = Inr ()"
  proof -
    obtain u where u: "choose_segments exceeds 4 n bs = Some (4 * 2 ^ u)" "4 * 2 ^ u < (2::nat) ^ 32"
      "\<not> exceeds 4 bs n (4 * 2 ^ u * bs)" using choose_segments_ok [OF lt _ bs [OF v] n, of 4] by auto
    show ?thesis unfolding sized_filter_def cf_from_num_items_seg4_def
      by (rule sized [where pick = "choose_segments exceeds 4" and new = cf_new_seg4, OF v u cf_new_fresh(3) [OF u(2) v refl]])
  qed
  show "sized_filter exceeds 2 n bs fb (cf_from_num_items_std2 exceeds n bs fb)" if v: "validate_common_params 2 bs fb = Inr ()"
  proof -
    obtain u where u: "choose_buckets exceeds next_power_of_2 2 1 n bs = Some (2 ^ u)" "2 ^ u < (2::nat) ^ 32"
      "\<not> exceeds 2 bs n (2 ^ u * bs)" using choose_buckets_shape(1) [OF lt bs [OF v] n, of 0] by auto
    show ?thesis unfolding sized_filter_def cf_from_num_items_std2_def
      by (rule sized [where pick = "choose_buckets exceeds next_power_of_2 2 1" and new = cf_new_std2, OF v u cf_new_fresh(4) [OF u(2) v refl]])
  qed
  show "sized_filter exceeds 3 n bs fb (cf_from_num_items_std3 exceeds n bs fb)" if v: "validate_common_params 3 bs fb = Inr ()"
  proof -
    obtain u where u: "choose_buckets exceeds next_power_of_3 3 1 n bs = Some (3 ^ u)" "3 ^ u < (2::nat) ^ 32"
      "\<not> exceeds 3 bs n (3 ^ u * bs)" using choose_buckets_shape(2) [OF lt bs [OF v] n] by blast
    show ?thesis unfolding sized_filter_def cf_from_num_items_std3_def
      by (rule sized [where pick = "choose_buckets exceeds next_power_of_3 3 1" and new = cf_new_std3, OF v u cf_new_fresh(5) [OF u(2) v refl]])
  qed
  show "sized_filter exceeds 4 n bs fb (cf_from_num_items_std4 exceeds n bs fb)" if v: "validate_common_params 4 bs fb = Inr ()"
  proof -
    obtain u where u: "choose_buckets exceeds next_power_of_4 4 1 n bs = Some (4 ^ u)" "4 ^ u < (2::nat) ^ 32"
      "\<not> exceeds 4 bs n (4 ^ u * bs)" using choose_buckets_shape(3) [OF lt bs [OF v] n] by blast
    show ?thesis unfolding sized_filter_def cf_from_num_items_std4_def
      by (rule sized [where pick = "choose_buckets exceeds next_power_of_4 4 1" and new = cf_new_std4, OF v u cf_new_fresh(6) [OF u(2) v refl]])
  qed
qed

text \<open>A power-of-two table that would need more than \<open>2\<^sup>3\<^sup>1\<close> buckets: the doubling overflows.\<close>

lemma choose_buckets_overflow:
  assumes lt: "load_test exceeds" "bs \<in> {1, 2, 3, 4}" and n: "2 ^ 31 * bs < n" "n \<le> (2 ^ 32 - 1) * bs" and l: "l \<le> 1"
  shows "choose_buckets exceeds next_power_of_2 2 (2 ^ l) n bs = None"
proof -
  let ?ex = "\<lambda>nb. exceeds 2 bs n (nb * bs)"
  have bs: "0 < bs" using lt(2) by auto
  have dc: "2 ^ 31 < div_ceil n bs" "div_ceil n bs \<le> 2 ^ 32 - 1"
    using n bs by (simp_all add: div_ceil_le_iff mult.commute not_le [symmetric])
  obtain t where t: "next_power_of_two (div_ceil n bs) = 2 ^ t" using next_power_of_two_spec(1) by blast
  have "(2::nat) ^ 31 < 2 ^ t" using next_power_of_two_spec(2) [of "div_ceil n bs"] dc(1) t by simp
  then have "31 < t" by (rule power_less_imp_less_exp [rotated]) simp
  moreover have "(2::nat) ^ t < 2 ^ 33" using next_power_of_two_spec(3) [of "div_ceil n bs"] dc t by simp
  then have "t < 33" by (rule power_less_imp_less_exp [rotated]) simp
  ultimately have "t = 32" by simp
  then have p: "next_power_of_2 (div_ceil n bs) = Some (2 ^ 32)" using t dc by (simp add: next_power_of_2_def)
  have ex: "?ex m" if "m \<le> 2 ^ 31" for m
  proof -
    have "m * bs < n" using mult_le_mono1 [OF that, of bs] n(1) by linarith
    moreover have "n < 2 ^ 64" using n(2) lt(2) by auto
    ultimately show ?thesis by (intro load_testD(1) [OF lt(1) _ lt(2)]) simp_all
  qed
  have "choose_buckets exceeds next_power_of_2 2 (2 ^ l) n bs = grow_buckets ?ex 2 (2 ^ l)"
    unfolding choose_buckets_def Let_def p by simp
  also have "\<dots> = None" using l by (intro grow_buckets_diverges ex) simp_all
  finally show ?thesis .
qed

section \<open>Sized stores\<close>

definition sized_store :: "(nat \<Rightarrow> nat \<Rightarrow> nat \<Rightarrow> nat \<Rightarrow> bool) \<Rightarrow> nat \<Rightarrow> nat \<Rightarrow> nat \<Rightarrow>
    (cuckoo_error + kv_store) option \<Rightarrow> bool" where
  "sized_store exceeds ar n bs r \<longleftrightarrow> (\<exists>nb st. r = Some (Inr st) \<and> kv_fresh st \<and>
     fv_num_buckets (kv_table st) = nb \<and> fv_bucket_size (kv_table st) = bs \<and> arity (kv_scheme st) = ar \<and>
     n \<le> nb * bs \<and> \<not> exceeds ar bs n (nb * bs))"

lemma kv_new_common_sized:
  assumes v: "validate_common_params ar bs fb = Inr ()" and vb: "1 \<le> vb" "vb \<le> 2 ^ 20" and pb: "1 \<le> pb" "pb \<le> 32"
    and sch: "valid_scheme scheme" "scheme_buckets scheme = nb" "arity scheme = ar" and nb: "nb < 2 ^ 32"
  shows "\<exists>st. kv_new_common ar scheme nb bs fb vb pb = Some (Inr st) \<and> kv_fresh st \<and>
    fv_num_buckets (kv_table st) = nb \<and> fv_bucket_size (kv_table st) = bs \<and> arity (kv_scheme st) = ar"
proof -
  have fb: "fb < 2 ^ 32" using v by (simp add: common_params)
  from kv_new_common_total [OF nb fb vb(2), of ar scheme bs pb] obtain st where
    st: "kv_new_common ar scheme nb bs fb vb pb = Some (Inr st)"
    using v vb(1) pb by (auto simp: kv_new_common_def bind_eq_Some_conv split: option.splits)
  then obtain t where t: "fv_new nb bs fb vb pb = Some t" "kv_make t scheme 0 = Some st"
    using v vb(1) pb by (auto simp: kv_new_common_def bind_eq_Some_conv)
  have "kv_table st = t" "kv_scheme st = scheme"
    using t(2) by (auto simp: kv_make_def Let_def bind_eq_Some_conv)
  then show ?thesis
    using st kv_new_common_inv [OF st sch(1,2)] t(1) sch(3) by (auto simp: kv_fresh_def fv_new_iff)
qed

lemma kv_sized:
  assumes v: "validate_common_params ar bs fb = Inr ()" and n: "n \<le> 2 ^ 28 * bs" and vb: "1 \<le> vb"
    and pick: "pick n bs = Some nb" "\<not> exceeds ar bs n (nb * bs)" and lt: "load_test exceeds"
    and new: "\<exists>st. new nb bs fb vb pb = Some (Inr st) \<and> kv_fresh st \<and>
      fv_num_buckets (kv_table st) = nb \<and> fv_bucket_size (kv_table st) = bs \<and> arity (kv_scheme st) = ar"
  shows "sized_store exceeds ar n bs (kv_from_num_items_with ar pick new n bs fb vb pb)"
proof -
  have p: "ar \<in> {2, 3, 4}" "bs \<in> {1, 2, 3, 4}" using v by (simp_all add: common_params)
  have "n < 2 ^ 64" using n p(2) by auto
  then have "n \<le> nb * bs" using load_testD(1) [OF lt p, of n "nb * bs"] pick(2) not_less by blast
  moreover have "\<not> (2 ^ 32 - 1) * bs < n" using n by simp
  ultimately show ?thesis using v vb pick new by (auto simp: kv_from_num_items_with_def sized_store_def)
qed

lemma kv_from_num_items_sized:
  assumes lt: "load_test exceeds" and n: "n \<le> 2 ^ 28 * bs"
    and vb: "1 \<le> vb" "vb \<le> 2 ^ 20" and pb: "1 \<le> pb" "pb \<le> 32"
  shows "validate_common_params 2 bs fb = Inr () \<Longrightarrow> sized_store exceeds 2 n bs (kv_from_num_items_2ary exceeds n bs fb vb pb)"
    and "validate_common_params 3 bs fb = Inr () \<Longrightarrow> sized_store exceeds 3 n bs (kv_from_num_items_3ary exceeds n bs fb vb pb)"
    and "validate_common_params 4 bs fb = Inr () \<Longrightarrow> sized_store exceeds 4 n bs (kv_from_num_items_4ary exceeds n bs fb vb pb)"
proof -
  have bs: "bs \<in> {1, 2, 3, 4}" if "validate_common_params ar bs fb = Inr ()" for ar using that by (simp add: common_params)
  note pow = is_power_of_two_iff [THEN iffD2]
  show "sized_store exceeds 2 n bs (kv_from_num_items_2ary exceeds n bs fb vb pb)" if v: "validate_common_params 2 bs fb = Inr ()"
  proof -
    obtain u where u: "1 \<le> u" "choose_buckets exceeds next_power_of_2 2 2 n bs = Some (2 ^ u)" "2 ^ u < (2::nat) ^ 32"
      "\<not> exceeds 2 bs n (2 ^ u * bs)" using choose_buckets_shape(1) [OF lt bs [OF v] n, of 1] by auto
    have p: "is_power_of_two (2 ^ u)" "2 \<le> (2::nat) ^ u" using u power_increasing [of 1 u "2 :: nat"] by (auto intro!: pow)
    show ?thesis unfolding kv_from_num_items_2ary_def
      using kv_new_common_sized [OF v vb pb _ _ _ u(3), of "Segmented2aryScheme (of_nat (2 ^ u div 2))"] constructor_scheme(1) [OF u(3) p] p
      by (intro kv_sized [where pick = "choose_buckets exceeds next_power_of_2 2 2" and new = kv_new_2ary, OF v n vb(1) u(2,4) lt]) (simp add: kv_new_2ary_def)
  qed
  show "sized_store exceeds 3 n bs (kv_from_num_items_3ary exceeds n bs fb vb pb)" if v: "validate_common_params 3 bs fb = Inr ()"
  proof -
    obtain u where u: "choose_segments exceeds 3 n bs = Some (3 * 2 ^ u)" "3 * 2 ^ u < (2::nat) ^ 32"
      "\<not> exceeds 3 bs n (3 * 2 ^ u * bs)" using choose_segments_ok [OF lt _ bs [OF v] n, of 3] by auto
    have p: "3 * 2 ^ u mod 3 = (0::nat)" "is_power_of_two (3 * 2 ^ u div 3)" using u(2) by (auto intro!: pow)
    show ?thesis unfolding kv_from_num_items_3ary_def
      using kv_new_common_sized [OF v vb pb _ _ _ u(2), of "Segmented3aryScheme (of_nat (3 * 2 ^ u div 3))"] constructor_scheme(2) [OF u(2) p] p
      by (intro kv_sized [where pick = "choose_segments exceeds 3" and new = kv_new_3ary, OF v n vb(1) u(1,3) lt]) (simp add: kv_new_3ary_def)
  qed
  show "sized_store exceeds 4 n bs (kv_from_num_items_4ary exceeds n bs fb vb pb)" if v: "validate_common_params 4 bs fb = Inr ()"
  proof -
    obtain u where u: "choose_segments exceeds 4 n bs = Some (4 * 2 ^ u)" "4 * 2 ^ u < (2::nat) ^ 32"
      "\<not> exceeds 4 bs n (4 * 2 ^ u * bs)" using choose_segments_ok [OF lt _ bs [OF v] n, of 4] by auto
    have "4 * 2 ^ u = (2::nat) ^ (u + 2)" by (simp add: power_add)
    then have p: "is_power_of_two (4 * 2 ^ u)" "4 \<le> 4 * (2::nat) ^ u" using two_power_is_power [of "u + 2"] u(2) by simp_all
    show ?thesis unfolding kv_from_num_items_4ary_def
      using kv_new_common_sized [OF v vb pb _ _ _ u(2), of "Segmented4aryScheme (of_nat (4 * 2 ^ u div 4))"] constructor_scheme(3) [OF u(2) p] p
      by (intro kv_sized [where pick = "choose_segments exceeds 4" and new = kv_new_4ary, OF v n vb(1) u(1,3) lt]) (simp add: kv_new_4ary_def)
  qed
qed

end
