(* ===== verification/Filter_Properties.thy ===== *)
theory Filter_Properties
  imports Sizing
begin

text \<open>
  What the cuckoo filter and the sized constructors promise. The abstract filter is a bag of tags,
  and an item is a member when its tag is in the bag: items of one tag (the false positives of the
  structure) are not told apart. The instances use a filter of two buckets of one 8-bit slot, the
  constant hash \<open>0\<close> and a generator that always draws \<open>0\<close>.
\<close>

section \<open>A small filter\<close>

definition small_filter :: cuckoo_filter where
  "small_filter = \<lparr> cf_table = \<lparr> ft_data = replicate 18 0, ft_num_buckets = 2, ft_bucket_size = 1,
     ft_fingerprint_bits = 8 \<rparr>, cf_scheme = Segmented2aryScheme 1, cf_num_items = 0,
     cf_max_kicks = 2, cf_chain = [] \<rparr>"

lemma small_table: "ft_new 2 1 8 = Some (cf_table small_filter)"
  by (simp add: ft_new_def small_filter_def div_ceil_def)

lemma small_inv: "cf_inv small_filter" and small_bag: "cf_bag small_filter = {#}" and small_counted: "cf_counted small_filter"
proof -
  have v: "valid_scheme (Segmented2aryScheme 1)" by (auto simp: seg_ok_def intro!: exI [of _ 0])
  have e: "cf_bag small_filter = {#}" unfolding cf_bag_def using small_table by (intro ft_new_empty) simp_all
  then show "cf_bag small_filter = {#}" "cf_counted small_filter"
    by (simp_all add: cf_counted_def) (simp add: small_filter_def)
  show "cf_inv small_filter"
    using v ft_new_inv(1) [OF _ _ small_table] by (simp add: cf_inv_def small_filter_def)
qed

lemma small_draw: "draw_ok (\<lambda>n g. (0, g))"
  by (simp add: draw_ok_def)

section \<open>Operations\<close>

lemma cf_outcome_inv:
  assumes "cf_inv cf" "cf_counted cf" "cf_outcome (cf_table cf) t cf r cf'"
  shows "cf_inv cf'" "cf_counted cf'" "r = Inl TableFull \<Longrightarrow> cf_bag cf' = cf_bag cf"
    "r = Inr () \<Longrightarrow> cf_bag cf' = cf_bag cf + {# t #}"
  using assms cf_frame_inv by (auto simp: cf_outcome_def cf_counted_def cf_bag_def cf_frame_def)

text \<open>C15. \<open>CuckooFilter::insert\<close> returns whatever the random choices: either it adds exactly one
  tag, that of its item, and the count goes up by one, although other entries may have moved; or it
  answers \<open>TableFull\<close> and the table is bit for bit the one before the call.\<close>

theorem filter_insert_adds_or_restores:
  assumes "cf_inv cf" "cf_counted cf" "draw_ok draw"
  shows "\<exists>r cf' g'. cf_insert xxh draw cf g item = Some (r, cf', g') \<and> cf_inv cf' \<and> cf_counted cf' \<and>
    (r = Inr () \<and> cf_bag cf' = cf_bag cf + {# cf_tag xxh cf item #} \<and> cf_num_items cf' = cf_num_items cf + 1 \<or>
     r = Inl TableFull \<and> cf_table cf' = cf_table cf \<and> cf_num_items cf' = cf_num_items cf)"
proof -
  obtain r cf' g' where r: "cf_insert xxh draw cf g item = Some (r, cf', g')"
    "cf_outcome (cf_table cf) (cf_tag xxh cf item) cf r cf'" using cf_insert_spec [OF assms(1,3)] by blast
  then show ?thesis using cf_outcome_inv [OF assms(1,2) r(2)] by (auto simp: cf_outcome_def)
qed

theorem filter_insert_adds_or_restores_witness:
  "\<exists>r cf' g'. cf_insert (\<lambda>_. 0) (\<lambda>n g. (0, g)) small_filter () [1] = Some (r, cf', g') \<and> cf_counted cf'"
  using filter_insert_adds_or_restores [OF small_inv small_counted small_draw, of "\<lambda>_. 0" "()" "[1]"] by blast

text \<open>Inserting a list of items, keeping the results.\<close>

primrec cf_insert_all ::
  "(u8 list \<Rightarrow> u128) \<Rightarrow> (nat \<Rightarrow> 'g \<Rightarrow> nat \<times> 'g) \<Rightarrow> u8 list list \<Rightarrow> cuckoo_filter \<Rightarrow> 'g \<Rightarrow>
    ((cuckoo_error + unit) list \<times> cuckoo_filter \<times> 'g) option" where
  "cf_insert_all xxh draw [] cf g = Some ([], cf, g)"
| "cf_insert_all xxh draw (item # items) cf g =
     do {
       (r, cf1, g1) \<leftarrow> cf_insert xxh draw cf g item;
       (rs, cf2, g2) \<leftarrow> cf_insert_all xxh draw items cf1 g1;
       Some (r # rs, cf2, g2)
     }"

lemma cf_insert_all_spec:
  assumes "cf_inv cf" "cf_counted cf" "draw_ok draw"
  shows "\<exists>rs cf' g'. cf_insert_all xxh draw items cf g = Some (rs, cf', g') \<and> length rs = length items \<and>
    cf_inv cf' \<and> cf_counted cf' \<and> cf_frame cf cf' \<and>
    cf_bag cf' = cf_bag cf + mset (map (\<lambda>x. cf_tag xxh cf (fst x)) [x \<leftarrow> zip items rs. snd x = Inr ()])"
  using assms(1,2)
proof (induction items arbitrary: cf g)
  case Nil
  then show ?case by (simp add: cf_frame_def ft_shape_def cf_inv_def)
next
  case (Cons item items)
  obtain r cf1 g1 where r: "cf_insert xxh draw cf g item = Some (r, cf1, g1)"
    "cf_outcome (cf_table cf) (cf_tag xxh cf item) cf r cf1" using cf_insert_spec [OF Cons.prems(1) assms(3)] by blast
  note i = cf_outcome_inv [OF Cons.prems r(2)]
  have fr: "cf_frame cf cf1" and rr: "r = Inr () \<or> r = Inl TableFull" using r(2) by (auto simp: cf_outcome_def)
  obtain rs cf' g' where rs: "cf_insert_all xxh draw items cf1 g1 = Some (rs, cf', g')" "length rs = length items"
    "cf_inv cf'" "cf_counted cf'" "cf_frame cf1 cf'"
    "cf_bag cf' = cf_bag cf1 + mset (map (\<lambda>x. cf_tag xxh cf1 (fst x)) [x \<leftarrow> zip items rs. snd x = Inr ()])"
    using Cons.IH [OF i(1,2)] by blast
  have tag: "cf_tag xxh cf1 = cf_tag xxh cf" using cf_frame_tag [OF fr] by blast
  show ?case
    using rr r(1) rs i(3,4) cf_frame_trans [OF fr rs(5)] by (auto simp: tag)
qed

text \<open>C16. No false negatives: after any list of inserts, successful or not, \<open>contain\<close> answers
  \<open>true\<close> for every item whose insert succeeded and for every item it answered \<open>true\<close> for before;
  the count is the old count and the number of successes.\<close>

theorem filter_no_false_negatives:
  assumes "cf_inv cf" "cf_counted cf" "draw_ok draw"
  shows "\<exists>rs cf' g'. cf_insert_all xxh draw items cf g = Some (rs, cf', g') \<and> length rs = length items \<and>
    (\<forall>i < length items. rs ! i = Inr () \<longrightarrow> cf_contain xxh cf' (items ! i) = Some True) \<and>
    (\<forall>item. cf_contain xxh cf item = Some True \<longrightarrow> cf_contain xxh cf' item = Some True) \<and>
    cf_num_items cf' = cf_num_items cf + length [r \<leftarrow> rs. r = Inr ()]"
proof -
  obtain rs cf' g' where rs: "cf_insert_all xxh draw items cf g = Some (rs, cf', g')" "length rs = length items"
    "cf_inv cf'" "cf_counted cf'" "cf_frame cf cf'"
    "cf_bag cf' = cf_bag cf + mset (map (\<lambda>x. cf_tag xxh cf (fst x)) [x \<leftarrow> zip items rs. snd x = Inr ()])"
    using cf_insert_all_spec [OF assms] by blast
  note mem = cf_contain_iff [OF rs(3), unfolded cf_frame_tag [OF rs(5)]] cf_contain_iff [OF assms(1)]
  have found: "cf_contain xxh cf' (items ! i) = Some True" if "i < length items" "rs ! i = Inr ()" for i
  proof -
    have "(items ! i, rs ! i) \<in> set (zip items rs)" using that rs(2) by (auto simp: set_zip)
    then have "(items ! i, Inr ()) \<in> set [x \<leftarrow> zip items rs. snd x = Inr ()]" using that(2) by simp
    then show ?thesis unfolding mem(1) rs(6) by force
  qed
  have kept: "cf_contain xxh cf' item = Some True" if "cf_contain xxh cf item = Some True" for item
    using that unfolding mem rs(6) by simp
  have "length [x \<leftarrow> zip items rs. snd x = Inr ()] = length [r \<leftarrow> rs. r = Inr ()]"
    using rs(2) by (induction items rs rule: list_induct2') auto
  moreover have "size (cf_bag cf') = size (cf_bag cf) + length [x \<leftarrow> zip items rs. snd x = Inr ()]"
    by (simp only: rs(6) size_union size_mset length_map)
  ultimately have "cf_num_items cf' = cf_num_items cf + length [r \<leftarrow> rs. r = Inr ()]"
    using rs(4) assms(2) by (simp only: cf_counted_def)
  then show ?thesis using found kept rs(1,2) by blast
qed

theorem filter_no_false_negatives_witness:
  "\<exists>rs cf' g'. cf_insert_all (\<lambda>_. 0) (\<lambda>n g. (0, g)) [[1], [2], [3]] small_filter () = Some (rs, cf', g') \<and>
    length rs = 3 \<and> (rs ! 0 = Inr () \<longrightarrow> cf_contain (\<lambda>_. 0) cf' [1] = Some True)"
  using filter_no_false_negatives [OF small_inv small_counted small_draw, of "\<lambda>_. 0" "[[1], [2], [3]]" "()"] by force

text \<open>C17. \<open>CuckooFilter::delete\<close> removes exactly one entry of the item's tag, so that it succeeds iff
  \<open>contain\<close> answers \<open>true\<close>; otherwise it answers \<open>NotFound\<close> and leaves the filter as it is. The count
  never underflows.\<close>

theorem filter_delete_removes_one:
  assumes "cf_inv cf" "cf_counted cf"
  shows "(cf_contain xxh cf item = Some True \<and> (\<exists>cf'. cf_delete xxh cf item = Some (Inr (), cf') \<and> cf_inv cf' \<and>
      cf_counted cf' \<and> cf_bag cf = cf_bag cf' + {# cf_tag xxh cf item #} \<and> cf_num_items cf = cf_num_items cf' + 1)) \<or>
    (cf_contain xxh cf item = Some False \<and> cf_delete xxh cf item = Some (Inl NotFound, cf))"
proof (cases rule: cf_delete_cases [OF assms, of xxh item])
  case (1 cf')
  then have "cf_counted cf'" using assms(2) by (simp add: cf_counted_def)
  moreover have "cf_contain xxh cf item = Some True" using cf_contain_iff [OF assms(1)] 1(3) by simp
  ultimately show ?thesis using 1 cf_frame_inv [OF assms(1)] by blast
next
  case 2
  then show ?thesis using cf_contain_iff [OF assms(1)] by simp
qed

theorem filter_delete_removes_one_witness:
  "cf_delete (\<lambda>_. 0) small_filter [1] = Some (Inl NotFound, small_filter)"
  using filter_delete_removes_one [OF small_inv small_counted, of "\<lambda>_. 0" "[1]"] small_bag by auto

section \<open>Sized constructors\<close>

text \<open>C21. The six \<open>CuckooFilter::from_num_items\<close> return (their sizing loops end, nothing overflows) for
  up to \<open>2\<^sup>2\<^sup>8\<close> items per slot of a bucket, and give an empty filter of the requested arity, bucket size and
  fingerprint width with room for the items and a load within its target.\<close>

theorem filter_from_num_items:
  assumes "load_test exceeds" "n \<le> 2 ^ 28 * bs" "validate_common_params ar bs fb = Inr ()"
    and "(ar, from) \<in> {(2, cf_from_num_items_seg2 exceeds), (3, cf_from_num_items_seg3 exceeds),
      (4, cf_from_num_items_seg4 exceeds), (2, cf_from_num_items_std2 exceeds),
      (3, cf_from_num_items_std3 exceeds), (4, cf_from_num_items_std4 exceeds)}"
  shows "\<exists>nb cf. from n bs fb = Some (Inr cf) \<and> cf_inv cf \<and> cf_bag cf = {#} \<and> cf_num_items cf = 0 \<and>
    arity (cf_scheme cf) = ar \<and> ft_num_buckets (cf_table cf) = nb \<and> ft_bucket_size (cf_table cf) = bs \<and>
    ft_fingerprint_bits (cf_table cf) = fb \<and> n \<le> nb * bs \<and> \<not> exceeds ar bs n (nb * bs)"
proof -
  have "sized_filter exceeds ar n bs fb (from n bs fb)"
    using assms(3,4) cf_from_num_items_sized [OF assms(1,2)] by auto
  then show ?thesis unfolding sized_filter_def cf_fresh_def by blast
qed

theorem filter_from_num_items_witness:
  "\<exists>cf. cf_from_num_items_std3 f64_exceeds 100 2 8 = Some (Inr cf) \<and> cf_bag cf = {#} \<and>
    100 \<le> ft_num_buckets (cf_table cf) * 2"
proof -
  have "validate_common_params 3 2 8 = Inr ()" by code_simp
  from filter_from_num_items [OF f64_load_test _ this, of 100 "cf_from_num_items_std3 f64_exceeds"]
  show ?thesis by auto
qed

text \<open>The same for the three \<open>CuckooKVStore::from_num_items\<close>, with value widths of up to \<open>2\<^sup>2\<^sup>0\<close> bits:
  the store is empty, counted, keeps no log, and has room for the items within its load target.\<close>

theorem store_from_num_items:
  assumes "load_test exceeds" "n \<le> 2 ^ 28 * bs" "validate_common_params ar bs fb = Inr ()"
    and "1 \<le> vb" "vb \<le> 2 ^ 20" "1 \<le> pb" "pb \<le> 32"
    and "(ar, from) \<in> {(2, kv_from_num_items_2ary exceeds), (3, kv_from_num_items_3ary exceeds),
      (4, kv_from_num_items_4ary exceeds)}"
  shows "\<exists>nb st. from n bs fb vb pb = Some (Inr st) \<and> kv_inv st \<and> kv_bag st = {#} \<and> kv_counted st \<and>
    kv_mutation_log st = None \<and> arity (kv_scheme st) = ar \<and> fv_num_buckets (kv_table st) = nb \<and>
    fv_bucket_size (kv_table st) = bs \<and> n \<le> nb * bs \<and> \<not> exceeds ar bs n (nb * bs)"
proof -
  have "sized_store exceeds ar n bs (from n bs fb vb pb)"
    using assms(3,8) kv_from_num_items_sized [OF assms(1,2,4-7)] by auto
  then show ?thesis unfolding sized_store_def kv_fresh_def by blast
qed

theorem store_from_num_items_witness:
  "\<exists>st. kv_from_num_items_2ary f64_exceeds 100 4 12 64 10 = Some (Inr st) \<and> kv_bag st = {#} \<and>
    100 \<le> fv_num_buckets (kv_table st) * 4"
proof -
  have "validate_common_params 2 4 12 = Inr ()" by code_simp
  from store_from_num_items [OF f64_load_test _ this, of 100 64 10 "kv_from_num_items_2ary f64_exceeds"]
  show ?thesis by auto
qed

text \<open>C22. For more than \<open>2\<^sup>3\<^sup>1\<close> items per slot of a bucket that still pass the check against
  \<open>u32::MAX * bucket_size\<close>, the power-of-two constructors neither build a filter nor answer
  \<open>InvalidParams\<close>: the cast to \<open>u32\<close> truncates the number of buckets to 0 and doubling it overflows.\<close>

theorem from_num_items_overflows:
  assumes "load_test exceeds" "validate_common_params 2 bs fb = Inr ()" "2 ^ 31 * bs < n" "n \<le> (2 ^ 32 - 1) * bs"
  shows "cf_from_num_items_seg2 exceeds n bs fb = None \<and> cf_from_num_items_std2 exceeds n bs fb = None \<and>
    (1 \<le> vb \<longrightarrow> kv_from_num_items_2ary exceeds n bs fb vb pb = None)"
proof -
  have bs: "bs \<in> {1, 2, 3, 4}" using assms(2) by (simp add: common_params)
  have "choose_buckets exceeds next_power_of_2 2 2 n bs = None" "choose_buckets exceeds next_power_of_2 2 1 n bs = None"
    using choose_buckets_overflow [OF assms(1) bs assms(3,4), of 1] choose_buckets_overflow [OF assms(1) bs assms(3,4), of 0]
    by simp_all
  then show ?thesis
    using assms(2,4) by (simp add: cf_from_num_items_seg2_def cf_from_num_items_std2_def kv_from_num_items_2ary_def
        cf_from_num_items_with_def kv_from_num_items_with_def)
qed

theorem from_num_items_overflows_witness:
  "cf_from_num_items_seg2 f64_exceeds 3000000000 1 8 = None \<and> cf_from_num_items_std2 f64_exceeds 3000000000 1 8 = None"
proof -
  have "validate_common_params 2 1 8 = Inr ()" by code_simp
  from from_num_items_overflows [OF f64_load_test this, of 3000000000 1 1] show ?thesis by simp
qed

end
