(* ===== verification/Frodo_Correct.thy ===== *)
theory Frodo_Correct
  imports Frodo
begin

text \<open>
  \<open>FrodoPirBackend\<close> meets the backend contract: the ternary sampler fills its buffer when the
  generator is productive, slots are LWE samples with errors in \<open>{-1, 0, 1}\<close>, both patch modes keep
  the hint equal to \<open>A\<^sup>T D\<close> and the precomputed material in step, and the response correction of
  the rewinding client is exact. The contract is established by interpreting \<open>pir_backend\<close>.
\<close>

section \<open>The ternary sampler\<close>

definition ternary :: "u32 set" where
  "ternary = {0, 1, - 1}"

text \<open>From any state the generator eventually returns a word other than \<open>0xFFFFFFFF\<close>, the only one
  whose sixteen chunks are all rejected.\<close>

definition productive :: "('g \<Rightarrow> u32 \<times> 'g) \<Rightarrow> bool" where
  "productive next_u32 \<longleftrightarrow> (\<forall>g. \<exists>n. fst (next_u32 (((snd \<circ> next_u32) ^^ n) g)) \<noteq> - 1)"

definition filled :: "nat \<Rightarrow> u32 list \<Rightarrow> bool" where
  "filled idx dst \<longleftrightarrow> idx \<le> length dst \<and> (\<forall>i < idx. dst ! i \<in> ternary)"

lemma filled_step: "filled idx dst \<Longrightarrow> idx < length dst \<Longrightarrow> v \<in> ternary \<Longrightarrow> filled (idx + 1) (dst[idx := v])"
  by (auto simp: filled_def nth_list_update)

lemma ternary_word_filled:
  "ternary_word n word idx dst = (idx', dst') \<Longrightarrow> filled idx dst \<Longrightarrow>
    filled idx' dst' \<and> length dst' = length dst \<and> idx \<le> idx'"
proof (induction n arbitrary: word idx dst)
  case (Suc n)
  show ?case
  proof (cases "idx = length dst")
    case False
    then have lt: "idx < length dst" using Suc.prems(2) by (simp add: filled_def)
    have put: "filled idx' dst' \<and> length dst' = length dst \<and> idx \<le> idx'"
      if "ternary_word n (drop_bit 2 word) (idx + 1) (dst[idx := v]) = (idx', dst')" "v \<in> ternary" for v
      using Suc.IH [OF that(1) filled_step [OF Suc.prems(2) lt that(2)]] by simp
    show ?thesis
      using Suc.prems(1) False Suc.IH [OF _ Suc.prems(2)] put [of 0] put [of 1] put [of "- 1"]
      by (simp add: ternary_def split: if_splits)
  qed (use Suc.prems in auto)
qed simp

lemma chunk_cases: "word AND 3 \<in> {0, 1, 2, 3 :: u32}"
proof -
  have "(3 :: u32) = mask 2" by (simp add: mask_eq_exp_minus_1)
  then have eq: "word AND 3 = take_bit 2 word" by (simp add: take_bit_eq_mask)
  have "unat (word AND 3) < 4"
    unfolding eq unsigned_take_bit_eq using take_bit_nat_less_exp [of 2 "unat word"] by simp
  then consider "unat (word AND 3) = 0" | "unat (word AND 3) = 1" | "unat (word AND 3) = 2" | "unat (word AND 3) = 3"
    by linarith
  then show ?thesis by cases (simp_all add: word_unat_eq_iff)
qed

lemma chunk_eq_3: "word AND 3 = (3 :: u32) \<longleftrightarrow> bit word 0 \<and> bit word 1"
proof -
  have three: "(3 :: u32) = mask 2" by (simp add: mask_eq_exp_minus_1)
  have "word AND mask 2 = mask 2 \<longleftrightarrow> (\<forall>i < 2. bit word i)"
  proof
    assume eq: "word AND mask 2 = mask 2"
    show "\<forall>i < 2. bit word i"
    proof (intro allI impI)
      fix i :: nat assume "i < 2"
      then have "bit (word AND mask 2) i" unfolding eq by (simp add: bit_simps)
      then show "bit word i" by (simp add: bit_simps)
    qed
  qed (auto simp: bit_eq_iff bit_simps)
  then show ?thesis unfolding three by (auto simp: less_2_cases_iff)
qed

lemma accepted_chunk: "word \<noteq> (- 1 :: u32) \<Longrightarrow> \<exists>j < 16. drop_bit (2 * j) word AND 3 \<noteq> 3"
proof (rule ccontr)
  assume "word \<noteq> - 1" and all: "\<not> (\<exists>j < 16. drop_bit (2 * j) word AND 3 \<noteq> 3)"
  have "bit word i" if i: "i < 32" for i
  proof -
    have "drop_bit (2 * (i div 2)) word AND 3 = 3" using all i by auto
    then have "bit word (2 * (i div 2))" "bit word (2 * (i div 2) + 1)"
      by (simp_all add: chunk_eq_3 bit_drop_bit_eq)
    moreover have "i = 2 * (i div 2) \<or> i = 2 * (i div 2) + 1" by presburger
    ultimately show ?thesis by metis
  qed
  then have "word = - 1" by (intro bit_word_eqI) simp
  with \<open>word \<noteq> - 1\<close> show False by simp
qed

lemma ternary_word_progress:
  "ternary_word n word idx dst = (idx', dst') \<Longrightarrow> filled idx dst \<Longrightarrow> idx < length dst \<Longrightarrow>
    \<exists>j < n. drop_bit (2 * j) word AND 3 \<noteq> 3 \<Longrightarrow> idx < idx'"
proof (induction n arbitrary: word)
  case (Suc n)
  have put: "idx < idx'" if "ternary_word n (drop_bit 2 word) (idx + 1) (dst[idx := v]) = (idx', dst')" "v \<in> ternary" for v
    using ternary_word_filled [OF that(1) filled_step [OF Suc.prems(2,3) that(2)]] by simp
  show ?case
  proof (cases "word AND 3 \<in> {0, 1, 2}")
    case True
    then show ?thesis
      using Suc.prems(1,3) put [of 0] put [of 1] put [of "- 1"] by (auto simp: ternary_def split: if_splits)
  next
    case False
    have "word AND 3 = 3" using False chunk_cases [of word] by blast
    then obtain j where j: "0 < j" "j < Suc n" "drop_bit (2 * j) word AND 3 \<noteq> 3"
    proof -
      from Suc.prems(4) obtain j where j: "j < Suc n" "drop_bit (2 * j) word AND 3 \<noteq> 3" by blast
      with \<open>word AND 3 = 3\<close> have "0 < j" by (cases j) simp_all
      with j show ?thesis using that by blast
    qed
    then have "\<exists>j < n. drop_bit (2 * j) (drop_bit 2 word) AND 3 \<noteq> 3"
      by (intro exI [of _ "j - 1"]) (cases j, simp_all)
    then show ?thesis using Suc.IH Suc.prems(1-3) False by (auto split: if_splits)
  qed
qed simp

lemma ternary_loop_total:
  assumes "productive next_u32"
  shows "filled idx dst \<Longrightarrow> \<exists>dst' g'. ternary_loop next_u32 g idx dst = Some (dst', g') \<and>
    length dst' = length dst \<and> (\<forall>i < length dst. dst' ! i \<in> ternary)"
proof (induction "length dst - idx" arbitrary: g idx dst rule: less_induct)
  case outer: less
  obtain n where "fst (next_u32 (((snd \<circ> next_u32) ^^ n) g)) \<noteq> - 1" using assms by (auto simp: productive_def)
  then show ?case using outer.prems outer.hyps
  proof (induction n arbitrary: g idx dst)
    case (0 g idx dst)
    show ?case
    proof (cases "idx < length dst")
      case True
      obtain word g1 where nx: "next_u32 g = (word, g1)" by (cases "next_u32 g")
      obtain idx1 dst1 where w: "ternary_word 16 word idx dst = (idx1, dst1)" by (cases "ternary_word 16 word idx dst")
      note f = ternary_word_filled [OF w 0(2)]
      have "idx < idx1" using ternary_word_progress [OF w 0(2) True] accepted_chunk 0(1) nx by simp
      then have "length dst1 - idx1 < length dst - idx" using f True by simp
      then have "\<exists>dst' g'. ternary_loop next_u32 g1 idx1 dst1 = Some (dst', g') \<and>
          length dst' = length dst1 \<and> (\<forall>i < length dst1. dst' ! i \<in> ternary)" using 0(3) f by blast
      then show ?thesis using f True by (subst ternary_loop.simps) (simp add: nx w)
    next
      case False
      then show ?thesis using 0(2) by (subst ternary_loop.simps) (auto simp: filled_def)
    qed
  next
    case (Suc n g idx dst)
    show ?case
    proof (cases "idx < length dst")
      case True
      obtain word g1 where nx: "next_u32 g = (word, g1)" by (cases "next_u32 g")
      obtain idx1 dst1 where w: "ternary_word 16 word idx dst = (idx1, dst1)" by (cases "ternary_word 16 word idx dst")
      note f = ternary_word_filled [OF w Suc(3)]
      have more: "fst (next_u32 (((snd \<circ> next_u32) ^^ n) g1)) \<noteq> - 1"
        using Suc(2) unfolding funpow_Suc_right by (simp add: nx)
      have "\<exists>dst' g'. ternary_loop next_u32 g1 idx1 dst1 = Some (dst', g') \<and>
          length dst' = length dst1 \<and> (\<forall>i < length dst1. dst' ! i \<in> ternary)"
      proof (cases "idx1 = idx")
        case True
        show ?thesis
          by (rule Suc(1) [OF more]) (use f True Suc(4) in auto)
      next
        case False
        with f have "idx < idx1" by simp
        then have "length dst1 - idx1 < length dst - idx" using f True by simp
        then show ?thesis using Suc(4) f by blast
      qed
      then show ?thesis using f True by (subst ternary_loop.simps) (simp add: nx w)
    next
      case False
      then show ?thesis using Suc(3) by (subst ternary_loop.simps) (auto simp: filled_def)
    qed
  qed
qed

lemma sample_ternary_total:
  assumes "productive next_u32"
  obtains dst g' where "sample_ternary_into next_u32 g len = Some (dst, g')" "length dst = len"
    "\<forall>i < len. dst ! i \<in> ternary"
  using ternary_loop_total [OF assms, of 0 "replicate len 0" g] that
  by (auto simp: sample_ternary_into_def filled_def)

section \<open>The predicates of the contract\<close>

text \<open>The public matrix of a segment.\<close>

definition frodo_mat :: "(u8 list \<Rightarrow> nat \<Rightarrow> u32) \<Rightarrow> frodo_server_params \<Rightarrow> u32 list" where
  "frodo_mat chacha sp =
     map (rng_from_seed chacha (fp_seed (fs_params sp))) [0..<fs_n_rows sp * fp_lwe_dim (fs_params sp)]"

definition frodo_sp_ok :: "frodo_server_params \<Rightarrow> nat \<Rightarrow> nat \<Rightarrow> nat \<Rightarrow> bool" where
  "frodo_sp_ok sp n w pb \<longleftrightarrow> fs_n_rows sp = n \<and> fs_row_width sp = w \<and> fp_plaintext_bits (fs_params sp) = pb \<and>
     1 \<le> pb \<and> pb \<le> 31 \<and> 0 < fp_lwe_dim (fs_params sp) \<and> n * fp_lwe_dim (fs_params sp) < 2 ^ 64"

definition frodo_cfg_ok :: "nat \<Rightarrow> nat \<Rightarrow> nat \<Rightarrow> nat \<Rightarrow> bool" where
  "frodo_cfg_ok lwe n w pb \<longleftrightarrow> 0 < lwe \<and> n * lwe < 2 ^ 64 \<and> 1 \<le> pb \<and> pb \<le> 31"

definition frodo_mat_ok :: "(u8 list \<Rightarrow> nat \<Rightarrow> u32) \<Rightarrow> frodo_server_params \<Rightarrow> u32 list \<Rightarrow> bool" where
  "frodo_mat_ok chacha sp mat \<longleftrightarrow> mat = frodo_mat chacha sp"

definition frodo_hint_ok :: "(u8 list \<Rightarrow> nat \<Rightarrow> u32) \<Rightarrow> frodo_server_params \<Rightarrow> u32 list \<Rightarrow> u32 list \<Rightarrow> bool" where
  "frodo_hint_ok chacha sp db h \<longleftrightarrow> length db = fs_n_rows sp * fs_row_width sp \<and>
     hint_of (fs_n_rows sp) (fp_lwe_dim (fs_params sp)) (fs_row_width sp) (frodo_mat chacha sp)
       (mcell (fs_row_width sp) db) h"

definition frodo_slot_ok :: "(u8 list \<Rightarrow> nat \<Rightarrow> u32) \<Rightarrow> frodo_server_params \<Rightarrow> u32 list \<Rightarrow> prepared_slot \<Rightarrow> bool" where
  "frodo_slot_ok chacha sp h slot \<longleftrightarrow>
     slot_ok (fs_n_rows sp) (fp_lwe_dim (fs_params sp)) (fs_row_width sp) 1 (frodo_mat chacha sp) h slot"

definition frodo_cs_ok :: "(u8 list \<Rightarrow> nat \<Rightarrow> u32) \<Rightarrow> frodo_server_params \<Rightarrow> u32 list \<Rightarrow> frodo_client \<Rightarrow> bool" where
  "frodo_cs_ok chacha sp db cs \<longleftrightarrow> fc_params cs = sp \<and> frodo_mat_ok chacha sp (fc_hint_material cs) \<and>
     frodo_hint_ok chacha sp db (fc_hint cs) \<and>
     (\<forall>slot \<in> set (fc_prepared cs) \<union> set_option (fc_in_flight cs). frodo_slot_ok chacha sp (fc_hint cs) slot)"

definition frodo_asked :: "frodo_server_params \<Rightarrow> frodo_client \<Rightarrow> u32 list \<Rightarrow> nat \<Rightarrow> bool" where
  "frodo_asked sp cs q row \<longleftrightarrow> length q = fs_n_rows sp \<and> row < fs_n_rows sp \<and>
     (\<exists>slot. fc_in_flight cs = Some slot \<and> (\<forall>i < fs_n_rows sp. q ! i = ps_b slot ! i +
        (if i = row then word_of_int (2 ^ (32 - fp_plaintext_bits (fs_params sp))) else 0)))"

definition frodo_answered :: "frodo_server_params \<Rightarrow> u32 list \<Rightarrow> u32 list \<Rightarrow> u32 list \<Rightarrow> bool" where
  "frodo_answered sp db q r \<longleftrightarrow> length q = fs_n_rows sp \<and> length r = fs_row_width sp \<and>
     (\<forall>j < fs_row_width sp. r ! j = (\<Sum>i<fs_n_rows sp. q ! i * mcell (fs_row_width sp) db i j))"

definition frodo_quiet :: "frodo_server_params \<Rightarrow> u32 list \<Rightarrow> frodo_client \<Rightarrow> bool" where
  "frodo_quiet sp db cs \<longleftrightarrow> (\<exists>slot e. fc_in_flight cs = Some slot \<and>
     lwe_slot (fs_n_rows sp) (fp_lwe_dim (fs_params sp)) 1 (fc_hint_material cs) e slot \<and>
     (\<forall>j < fs_row_width sp. \<bar>noise (fs_n_rows sp) e (mcell (fs_row_width sp) db) j\<bar> <
        2 ^ (31 - fp_plaintext_bits (fs_params sp))))"

definition frodo_worst_case :: "frodo_server_params \<Rightarrow> bool" where
  "frodo_worst_case sp \<longleftrightarrow> noise_ok (fs_n_rows sp) 1 (fp_plaintext_bits (fs_params sp))"

lemmas frodo_preds = frodo_mat_ok_def frodo_hint_ok_def frodo_slot_ok_def frodo_cs_ok_def

lemma frodo_mat_length: "length (frodo_mat chacha sp) = fs_n_rows sp * fp_lwe_dim (fs_params sp)"
  by (simp add: frodo_mat_def)

lemma frodo_expand_ok:
  "frodo_sp_ok sp n w pb \<Longrightarrow> frodo_expand_hint_material chacha sp = Some (frodo_mat chacha sp)"
  by (auto simp: frodo_sp_ok_def frodo_expand_hint_material_def sample_a_def frodo_mat_def)

lemma frodo_setup_ok:
  assumes "frodo_cfg_ok lwe n w pb" "length db = n * w"
  shows "\<exists>sp mat h g'. frodo_server_setup chacha fill lwe db n w pb g = Some ((sp, mat, h), g') \<and>
    frodo_sp_ok sp n w pb \<and> frodo_mat_ok chacha sp mat \<and> frodo_hint_ok chacha sp db h"
proof -
  obtain seed g' where fill: "fill 16 g = (seed, g')" by (cases "fill 16 g")
  let ?sp = "\<lparr> fs_params = \<lparr> fp_lwe_dim = lwe, fp_plaintext_bits = pb, fp_seed = seed \<rparr>, fs_n_rows = n, fs_row_width = w \<rparr>"
  have sp: "frodo_sp_ok ?sp n w pb" using assms(1) by (simp add: frodo_sp_ok_def frodo_cfg_ok_def)
  have len: "length (frodo_mat chacha ?sp) = n * lwe" by (simp add: frodo_mat_length)
  obtain h where h: "compute_hint (frodo_mat chacha ?sp) db n lwe w = Some h"
    "hint_of n lwe w (frodo_mat chacha ?sp) (mcell w db) h"
    using compute_hint_total [OF len assms(2)] by blast
  have "sample_a chacha seed n lwe = Some (frodo_mat chacha ?sp)"
    using frodo_expand_ok [OF sp, of chacha] by (simp add: frodo_expand_hint_material_def)
  then have "frodo_server_setup chacha fill lwe db n w pb g = Some ((?sp, frodo_mat chacha ?sp, h), g')"
    using assms h(1) by (simp add: frodo_server_setup_def frodo_params_new_def frodo_cfg_ok_def fill)
  then show ?thesis using sp h(2) assms(2) by (fastforce simp: frodo_preds)
qed

section \<open>Slots and queries\<close>

lemma ternary_error: "v \<in> ternary \<Longrightarrow> \<bar>sint v\<bar> \<le> 1"
  by (auto simp: ternary_def)

lemma frodo_sample_slot_ok:
  assumes "frodo_sp_ok sp n w pb" "productive next_u32"
  obtains slot g' where "frodo_sample_slot next_u32 sp (frodo_mat chacha sp) g = Some (slot, g')"
    "frodo_slot_ok chacha sp h slot"
proof -
  let ?l = "fp_lwe_dim (fs_params sp)" and ?a = "frodo_mat chacha sp"
  obtain s g1 where s: "sample_ternary_into next_u32 g ?l = Some (s, g1)" "length s = ?l"
    using sample_ternary_total [OF assms(2), of g ?l] by blast
  obtain e g2 where e: "sample_ternary_into next_u32 g1 (fs_n_rows sp) = Some (e, g2)" "length e = fs_n_rows sp"
    "\<forall>i < fs_n_rows sp. e ! i \<in> ternary"
    using sample_ternary_total [OF assms(2), of g1 "fs_n_rows sp"] by blast
  obtain b where b: "lwe_samples ?a ?l s e = Some b" "length b = fs_n_rows sp"
    "\<And>i. i < fs_n_rows sp \<Longrightarrow> b ! i = e ! i + (\<Sum>k<?l. mcell ?l ?a i k * s ! k)"
    using lwe_samples_total [OF frodo_mat_length s(2) e(2)] by blast
  let ?slot = "\<lparr> ps_secret = s, ps_b = b, ps_c = None \<rparr>"
  have "lwe_slot (fs_n_rows sp) ?l 1 ?a (\<lambda>i. sint (e ! i)) ?slot"
    using s(2) b(2,3) ternary_error e(3) by (simp add: lwe_slot_def)
  then have "frodo_slot_ok chacha sp h ?slot" by (auto simp: frodo_slot_ok_def slot_ok_def c_current_def)
  moreover have "frodo_sample_slot next_u32 sp ?a g = Some (?slot, g2)"
    using s(1) e(1) b(1) by (simp add: frodo_sample_slot_def)
  ultimately show ?thesis using that by blast
qed

lemma frodo_query_ok:
  assumes sp: "frodo_sp_ok sp n w pb" and cs: "frodo_cs_ok chacha sp db cs" and "productive next_u32" "row < n"
  shows "\<exists>q cs' g'. frodo_client_query next_u32 cs row g = Some (q, cs', g') \<and>
    frodo_cs_ok chacha sp db cs' \<and> frodo_asked sp cs' q row"
proof -
  have spd: "fs_n_rows sp = n" "fs_row_width sp = w" "fp_plaintext_bits (fs_params sp) = pb" "1 \<le> pb" "pb \<le> 31"
    using sp by (simp_all add: frodo_sp_ok_def)
  have csd: "fc_params cs = sp" "fc_hint_material cs = frodo_mat chacha sp" "frodo_hint_ok chacha sp db (fc_hint cs)"
    "\<And>slot. slot \<in> set (fc_prepared cs) \<Longrightarrow> frodo_slot_ok chacha sp (fc_hint cs) slot"
    using cs by (simp_all add: frodo_cs_ok_def frodo_mat_ok_def)
  obtain slot prepared g' where take: "(case fc_prepared cs of s # ss \<Rightarrow> Some (s, ss, g)
      | [] \<Rightarrow> do { (s, g') \<leftarrow> frodo_sample_slot next_u32 (fc_params cs) (fc_hint_material cs) g; Some (s, [], g') }) =
      Some (slot, prepared, g')"
    and slot: "frodo_slot_ok chacha sp (fc_hint cs) slot" and prep: "set prepared \<subseteq> set (fc_prepared cs)"
  proof (cases "fc_prepared cs")
    case Nil
    obtain s g1 where "frodo_sample_slot next_u32 sp (frodo_mat chacha sp) g = Some (s, g1)"
      "frodo_slot_ok chacha sp (fc_hint cs) s"
      using frodo_sample_slot_ok [OF sp assms(3), of chacha g "fc_hint cs"] by blast
    then show ?thesis by (intro that [of s "[]" g1]) (simp_all add: Nil csd(1,2))
  next
    case (Cons s ss)
    then have "frodo_slot_ok chacha sp (fc_hint cs) s" using csd(4) [of s] by simp
    then show ?thesis by (intro that [of s ss g]) (auto simp: Cons)
  qed
  have len: "length (ps_b slot) = n" using slot by (auto simp: frodo_slot_ok_def slot_ok_def lwe_slot_def spd)
  let ?q = "(ps_b slot)[row := ps_b slot ! row + word_of_int (2 ^ (32 - pb))]"
  let ?cs = "cs\<lparr> fc_prepared := prepared, fc_in_flight := Some slot \<rparr>"
  have "frodo_client_query next_u32 cs row g = Some (?q, ?cs, g')"
    unfolding frodo_client_query_def take using assms(4) len round_p_to_q_1 [OF spd(4,5)] by (simp add: csd(1) spd)
  moreover have "frodo_cs_ok chacha sp db ?cs"
    using cs slot prep by (auto simp: frodo_cs_ok_def)
  moreover have "frodo_asked sp ?cs ?q row"
    using assms(4) len by (auto simp: frodo_asked_def spd nth_list_update)
  ultimately show ?thesis by blast
qed

lemma frodo_answer_ok:
  assumes "frodo_sp_ok sp n w pb" "frodo_asked sp cs q row" "length db = n * w"
  shows "\<exists>r. frodo_server_answer x86 sp db n w q = Some r \<and> frodo_answered sp db q r"
proof -
  have spd: "fs_n_rows sp = n" "fs_row_width sp = w" using assms(1) by (simp_all add: frodo_sp_ok_def)
  have q: "length q = n" using assms(2) by (simp add: frodo_asked_def spd)
  obtain r where "matvec_accumulate x86 (replicate w 0) db q = Some r" "length r = w"
    "\<And>j. j < w \<Longrightarrow> r ! j = vecmat q w db j"
    using matvec_total [of db q "replicate w 0" x86] assms(3) q by auto
  then show ?thesis using assms(3) q by (simp add: frodo_server_answer_def frodo_answered_def spd vecmat_def)
qed

lemma frodo_decode_ok:
  assumes "frodo_sp_ok sp n w pb" "frodo_cs_ok chacha sp db cs" "frodo_asked sp cs q row" "row < n"
    and "frodo_answered sp db q r" "frodo_quiet sp db cs" "list_all (fits pb) db"
  shows "frodo_client_decode x86 cs r = Some (db_row w db row)"
proof -
  have spd: "fs_n_rows sp = n" "fs_row_width sp = w" "fp_plaintext_bits (fs_params sp) = pb" "1 \<le> pb" "pb \<le> 31"
    using assms(1) by (simp_all add: frodo_sp_ok_def)
  let ?l = "fp_lwe_dim (fs_params sp)" and ?a = "frodo_mat chacha sp"
  have csd: "fc_params cs = sp" "fc_hint_material cs = ?a" "length db = n * w"
    "hint_of n ?l w ?a (mcell w db) (fc_hint cs)"
    using assms(2) by (simp_all add: frodo_preds spd)
  obtain slot e where slot: "fc_in_flight cs = Some slot" "lwe_slot n ?l 1 ?a e slot"
    "\<And>j. j < w \<Longrightarrow> \<bar>noise n e (mcell w db) j\<bar> < 2 ^ (31 - pb)"
    using assms(6) by (auto simp: frodo_quiet_def spd csd(2))
  have c: "c_current w (fc_hint cs) slot"
    using assms(2) slot(1) by (simp add: frodo_cs_ok_def frodo_slot_ok_def slot_ok_def spd)
  have q: "q ! i = ps_b slot ! i + (if i = row then word_of_int (2 ^ (32 - pb)) else 0)" if "i < n" for i
    using assms(3) slot(1) that by (simp add: frodo_asked_def spd)
  have r: "length r = w" "\<And>j. j < w \<Longrightarrow> r ! j = (\<Sum>i<n. q ! i * mcell w db i j)"
    using assms(5) by (simp_all add: frodo_answered_def spd)
  have fit: "fits pb (mcell w db row j)" if "j < w" for j
    using assms(7) mult_add_less [OF assms(4) that] by (simp add: mcell_def list_all_length csd(3))
  obtain res where "slot_residual x86 (fc_hint cs) slot r = Some res"
    "round_cells res pb = Some (map (mcell w db row) [0..<w])"
    by (rule lwe_decode [OF slot(2) c csd(4) q r assms(4) spd(4,5) fit slot(3), of x86])
  then show ?thesis using slot(1) r(1) by (simp add: frodo_client_decode_def csd(1) spd db_row_def)
qed

lemma frodo_worst_case_quiet:
  assumes "frodo_sp_ok sp n w pb" "frodo_cs_ok chacha sp db cs" "frodo_asked sp cs q row"
    and "list_all (fits pb) db" "frodo_worst_case sp"
  shows "frodo_quiet sp db cs"
proof -
  have spd: "fs_n_rows sp = n" "fs_row_width sp = w" "fp_plaintext_bits (fs_params sp) = pb" "pb < 32"
    using assms(1) by (simp_all add: frodo_sp_ok_def)
  obtain slot where slot: "fc_in_flight cs = Some slot" using assms(3) by (auto simp: frodo_asked_def)
  then have "frodo_slot_ok chacha sp (fc_hint cs) slot" using assms(2) by (simp add: frodo_cs_ok_def)
  then obtain e where e: "lwe_slot n (fp_lwe_dim (fs_params sp)) 1 (frodo_mat chacha sp) e slot"
    by (auto simp: frodo_slot_ok_def slot_ok_def spd)
  have len: "length db = n * w" using assms(2) by (simp add: frodo_preds spd)
  have "\<bar>noise n e (mcell w db) j\<bar> < 2 ^ (31 - pb)" if j: "j < w" for j
  proof -
    have "\<bar>noise n e (mcell w db) j\<bar> \<le> int (n * (1 * (2 ^ pb - 1)))"
    proof (rule noise_bound [OF _ _ spd(4)])
      fix i assume i: "i < n"
      show "\<bar>e i\<bar> \<le> int 1" using e i by (simp add: lwe_slot_def)
      show "fits pb (mcell w db i j)"
        using assms(4) mult_add_less [OF i j] by (simp add: mcell_def list_all_length len)
    qed
    also have "\<dots> < int (2 ^ (31 - pb))"
      using assms(5) unfolding frodo_worst_case_def noise_ok_def spd by (simp only: of_nat_less_iff)
    finally show ?thesis by simp
  qed
  moreover have "fc_hint_material cs = frodo_mat chacha sp" using assms(2) by (simp add: frodo_cs_ok_def frodo_mat_ok_def)
  ultimately show ?thesis using slot e by (auto simp: frodo_quiet_def spd)
qed

section \<open>Patches\<close>

lemma word_sum_cells:
  "\<forall>x \<in> set cells. fst x < w \<Longrightarrow>
    (\<Sum>(off, d) \<leftarrow> cells. if do { assert_opt (off < w); Some off } = Some c then word_of_int d else 0) =
    (word_of_int (cell_delta cells c) :: u32)"
  by (induction cells) (auto simp: wi_hom_add [symmetric])

lemma rank_one_zero:
  "length h = lwe * w \<Longrightarrow> (\<And>c. c < w \<Longrightarrow> f c = 0) \<Longrightarrow> rank_one lwe w a f h h"
  by (simp add: rank_one_def)

theorem frodo_entry_level_patch:
  assumes "hint_of n lwe w a D h" "edits_ok n w rd"
  obtains h' where "frodo_patch_entry_level a lwe n w h rd = Some h'" "hint_of n lwe w a (edited D rd) h'"
proof -
  let ?col = "\<lambda>off. do { assert_opt (off < w); Some off }"
  define body where "body x hint = (case x of (row, cells) \<Rightarrow> do {
      assert_opt (row < n);
      touched \<leftarrow> tr_rebuild cells ?col;
      if tr_runs touched = [] then Some hint
      else do { a_row \<leftarrow> slice_opt a (row * lwe) lwe; tr_apply touched a_row hint w } })" for x hint
  have "\<exists>h'. body (r, cells) h = Some h' \<and>
      rank_one lwe w (\<lambda>k. mcell lwe a r k) (\<lambda>c. word_of_int (cell_delta cells c)) h h'"
    if r: "r < n" "\<forall>x \<in> set cells. fst x < w" and len: "length h = lwe * w" for r cells h
  proof -
    have cols: "\<And>off d. (off, d) \<in> set cells \<Longrightarrow> d \<noteq> 0 \<Longrightarrow> \<exists>col < w. ?col off = Some col"
      using r(2) by fastforce
    obtain tr where tr: "tr_rebuild cells ?col = Some tr"
      "adds w (\<lambda>c. word_of_int (cell_delta cells c)) (apply_runs (tr_runs tr) (tr_deltas tr) 0)"
      "tr_runs tr = [] \<Longrightarrow> \<forall>c < w. word_of_int (cell_delta cells c) = (0 :: u32)"
      using tr_rebuild_spec [of cells w ?col] cols unfolding word_sum_cells [OF r(2)] by blast
    show ?thesis
    proof (cases "tr_runs tr = []")
      case True
      then show ?thesis using tr(1,3) r(1) rank_one_zero [OF len] by (auto simp: body_def)
    next
      case False
      obtain a_row h' where "slice_opt a (r * lwe) lwe = Some a_row" "length a_row = lwe"
        "for_hint_rows lwe w a_row (apply_runs (tr_runs tr) (tr_deltas tr) 0) h = Some h'"
        "rank_one lwe w (\<lambda>k. mcell lwe a r k) (\<lambda>c. word_of_int (cell_delta cells c)) h h'"
        using update_row [OF hint_ofD(1) [OF assms(1)] r(1) tr(2) len] by blast
      then show ?thesis using tr(1) r(1) False len by (simp add: body_def tr_apply_def)
    qed
  qed
  then obtain h' where h': "fold_opt body rd h = Some h'" "hint_of n lwe w a (edited D rd) h'"
    using patch_loop [OF assms, of body] by blast
  have "frodo_patch_entry_level a lwe n w h rd = fold_opt body rd h"
    using hint_ofD(1,2) [OF assms(1)]
    by (auto simp: frodo_patch_entry_level_def body_def intro!: fold_opt_cong split: prod.split)
  then show ?thesis using that h' by simp
qed

lemma frodo_delta_row_total:
  assumes "\<forall>x \<in> set cells. fst x < w"
  obtains dr where "frodo_delta_row w cells = Some dr" "length dr = w" "\<forall>c < w. dr ! c = word_of_int (cell_delta cells c)"
proof -
  define body where "body x dr = (case x of (off, delta) \<Rightarrow> do {
      assert_opt (off < w); x \<leftarrow> nth_opt dr off; upd_opt dr off (x + word_of_int delta) })" for x and dr :: "u32 list"
  have "length dr0 = w \<Longrightarrow> \<exists>dr. fold_opt body cells dr0 = Some dr \<and> length dr = w \<and>
      (\<forall>c < w. dr ! c = dr0 ! c + word_of_int (cell_delta cells c))" for dr0
    using assms
  proof (induction cells arbitrary: dr0)
    case (Cons x cells)
    obtain off d where x: "x = (off, d)" by (cases x)
    let ?dr1 = "dr0[off := dr0 ! off + word_of_int d]"
    have off: "off < w" using Cons.prems(2) by (simp add: x)
    obtain dr where "fold_opt body cells ?dr1 = Some dr" "length dr = w"
      "\<forall>c < w. dr ! c = ?dr1 ! c + word_of_int (cell_delta cells c)"
      using Cons.IH [of ?dr1] Cons.prems by auto
    moreover have "body x dr0 = Some ?dr1" using off Cons.prems(1) by (simp add: x body_def)
    ultimately show ?case
      using off Cons.prems(1)
      by (intro exI [of _ dr]) (auto simp: x nth_list_update wi_hom_add [symmetric] add.assoc)
  qed simp
  from this [of "replicate w 0"] obtain dr where
    "fold_opt body cells (replicate w 0) = Some dr" "length dr = w" "\<forall>c < w. dr ! c = word_of_int (cell_delta cells c)"
    by auto
  moreover have "frodo_delta_row w cells = fold_opt body cells (replicate w 0)"
    by (auto simp: frodo_delta_row_def body_def intro!: fold_opt_cong split: prod.split)
  ultimately show ?thesis using that by simp
qed

theorem frodo_row_level_patch:
  assumes "hint_of n lwe w a D h" "edits_ok n w rd"
  obtains h' where "frodo_patch_row_level a lwe n w h rd = Some h'" "hint_of n lwe w a (edited D rd) h'"
proof -
  define body where "body x hint = (case x of (row, cells) \<Rightarrow> do {
      assert_opt (row < n);
      delta_row \<leftarrow> frodo_delta_row w cells;
      a_row \<leftarrow> slice_opt a (row * lwe) lwe;
      for_hint_rows lwe w a_row (add_scaled 0 delta_row) hint })" for x hint
  have "\<exists>h'. body (r, cells) h = Some h' \<and>
      rank_one lwe w (\<lambda>k. mcell lwe a r k) (\<lambda>c. word_of_int (cell_delta cells c)) h h'"
    if r: "r < n" "\<forall>x \<in> set cells. fst x < w" and len: "length h = lwe * w" for r cells h
  proof -
    obtain dr where dr: "frodo_delta_row w cells = Some dr" "length dr = w"
      "\<forall>c < w. dr ! c = word_of_int (cell_delta cells c)"
      using frodo_delta_row_total [OF r(2)] by blast
    have "adds w (\<lambda>c. word_of_int (cell_delta cells c)) (add_scaled 0 dr)"
      by (rule adds_cong [OF adds_full_row [OF dr(2)]]) (use dr(3) in simp)
    then obtain a_row h' where "slice_opt a (r * lwe) lwe = Some a_row" "length a_row = lwe"
      "for_hint_rows lwe w a_row (add_scaled 0 dr) h = Some h'"
      "rank_one lwe w (\<lambda>k. mcell lwe a r k) (\<lambda>c. word_of_int (cell_delta cells c)) h h'"
      using update_row [OF hint_ofD(1) [OF assms(1)] r(1) _ len] by blast
    then show ?thesis using dr(1) r(1) by (simp add: body_def)
  qed
  then obtain h' where h': "fold_opt body rd h = Some h'" "hint_of n lwe w a (edited D rd) h'"
    using patch_loop [OF assms, of body] by blast
  have "frodo_patch_row_level a lwe n w h rd = fold_opt body rd h"
    using hint_ofD(1,2) [OF assms(1)]
    by (auto simp: frodo_patch_row_level_def body_def intro!: fold_opt_cong split: prod.split)
  then show ?thesis using that h' by simp
qed

lemma frodo_apply_patch_total:
  assumes "hint_of n lwe w a D h" "edits_ok n w rd"
  shows "\<exists>h'. frodo_apply_patch a lwe n w h rd mode = Some h' \<and> hint_of n lwe w a (edited D rd) h'"
proof (cases mode)
  case RowLevel
  then show ?thesis using frodo_row_level_patch [OF assms] by (auto simp: frodo_apply_patch_def)
next
  case EntryLevel
  then show ?thesis using frodo_entry_level_patch [OF assms] by (auto simp: frodo_apply_patch_def)
qed

lemma frodo_hint_edit:
  assumes "frodo_sp_ok sp n w pb" "frodo_hint_ok chacha sp db h"
  shows "hint_of n (fp_lwe_dim (fs_params sp)) w (frodo_mat chacha sp) (edited (mcell w db) rd) h' \<longleftrightarrow>
    frodo_hint_ok chacha sp (edit_db w db rd) h'"
proof -
  have spd: "fs_n_rows sp = n" "fs_row_width sp = w" using assms(1) by (simp_all add: frodo_sp_ok_def)
  have len: "length db = n * w" using assms(2) by (simp add: frodo_hint_ok_def spd)
  have "hint_of n (fp_lwe_dim (fs_params sp)) w (frodo_mat chacha sp) (edited (mcell w db) rd) h' \<longleftrightarrow>
      hint_of n (fp_lwe_dim (fs_params sp)) w (frodo_mat chacha sp) (mcell w (edit_db w db rd)) h'"
    by (rule hint_of_cong) (simp add: mcell_edit_db [OF len])
  then show ?thesis using len by (simp add: frodo_hint_ok_def spd)
qed

lemma frodo_patch_hint_ok:
  assumes "frodo_sp_ok sp n w pb" "frodo_mat_ok chacha sp mat" "frodo_hint_ok chacha sp db h" "edits_ok n w rd"
  shows "\<exists>h'. frodo_server_patch_hint sp mat h rd mode = Some h' \<and> frodo_hint_ok chacha sp (edit_db w db rd) h'"
proof -
  have spd: "fs_n_rows sp = n" "fs_row_width sp = w" using assms(1) by (simp_all add: frodo_sp_ok_def)
  have "hint_of n (fp_lwe_dim (fs_params sp)) w mat (mcell w db) h"
    using assms(2,3) by (simp add: frodo_preds spd)
  then obtain h' where "frodo_apply_patch mat (fp_lwe_dim (fs_params sp)) n w h rd mode = Some h'"
    "hint_of n (fp_lwe_dim (fs_params sp)) w mat (edited (mcell w db) rd) h'"
    using frodo_apply_patch_total assms(4) by blast
  then show ?thesis
    using frodo_hint_edit [OF assms(1,3)] assms(2) by (auto simp: frodo_server_patch_hint_def spd frodo_mat_ok_def)
qed

text \<open>A loop over the slots that keeps \<open>b\<close> and the secret.\<close>

lemma map_slots_total:
  assumes "\<And>s. s \<in> set prepared \<union> set_option in_flight \<Longrightarrow> \<exists>s'. f s = Some s' \<and> P s' \<and> ps_b s' = ps_b s"
  obtains prepared' in_flight' where "map_slots f prepared in_flight = Some (prepared', in_flight')"
    "\<forall>s \<in> set prepared' \<union> set_option in_flight'. P s"
    "map_option ps_b in_flight' = map_option ps_b in_flight"
proof -
  have "\<exists>ps. those (map f prepared) = Some ps \<and> (\<forall>s \<in> set ps. P s)"
    using assms by (induction prepared) fastforce+
  then obtain ps where ps: "those (map f prepared) = Some ps" "\<forall>s \<in> set ps. P s" by blast
  show ?thesis
  proof (cases in_flight)
    case None
    then show ?thesis using that [of ps None] ps by (simp add: map_slots_def)
  next
    case (Some s)
    then obtain s' where "f s = Some s'" "P s'" "ps_b s' = ps_b s" using assms [of s] by auto
    then show ?thesis using that [of ps "Some s'"] ps Some by (auto simp: map_slots_def)
  qed
qed

lemma frodo_asked_cong:
  "frodo_asked sp cs q row \<Longrightarrow> map_option ps_b (fc_in_flight cs') = map_option ps_b (fc_in_flight cs) \<Longrightarrow>
    frodo_asked sp cs' q row"
  by (auto simp: frodo_asked_def map_option_eq_Some)

lemma frodo_patch_state_ok:
  assumes "frodo_sp_ok sp n w pb" "frodo_cs_ok chacha sp db cs" "edits_ok n w rd"
  shows "\<exists>cs'. frodo_client_patch_state cs rd mode = Some cs' \<and> frodo_cs_ok chacha sp (edit_db w db rd) cs' \<and>
    (\<forall>q row. frodo_asked sp cs q row \<longrightarrow> frodo_asked sp cs' q row)"
proof -
  let ?l = "fp_lwe_dim (fs_params sp)" and ?a = "frodo_mat chacha sp"
  have spd: "fs_n_rows sp = n" "fs_row_width sp = w" using assms(1) by (simp_all add: frodo_sp_ok_def)
  have csd: "fc_params cs = sp" "fc_hint_material cs = ?a" "frodo_hint_ok chacha sp db (fc_hint cs)"
    "\<And>slot. slot \<in> set (fc_prepared cs) \<union> set_option (fc_in_flight cs) \<Longrightarrow> slot_ok n ?l w 1 ?a (fc_hint cs) slot"
    using assms(2) by (auto simp: frodo_cs_ok_def frodo_mat_ok_def frodo_slot_ok_def spd)
  have h: "hint_of n ?l w ?a (mcell w db) (fc_hint cs)" using csd(3) by (simp add: frodo_hint_ok_def spd)
  obtain h' where h': "frodo_apply_patch ?a ?l n w (fc_hint cs) rd mode = Some h'"
    "hint_of n ?l w ?a (edited (mcell w db) rd) h'"
    using frodo_apply_patch_total [OF h assms(3)] by blast
  have step: "\<exists>s'. patch_slot_c ?a ?l w rd s = Some s' \<and> slot_ok n ?l w 1 ?a h' s' \<and> ps_b s' = ps_b s"
    if "s \<in> set (fc_prepared cs) \<union> set_option (fc_in_flight cs)" for s
    using patch_slot_c_current [OF h h'(2) assms(3) csd(4) [OF that]] by blast
  obtain ps fl where slots: "map_slots (patch_slot_c ?a ?l w rd) (fc_prepared cs) (fc_in_flight cs) = Some (ps, fl)"
    "\<forall>s \<in> set ps \<union> set_option fl. slot_ok n ?l w 1 ?a h' s" "map_option ps_b fl = map_option ps_b (fc_in_flight cs)"
    using map_slots_total [where P = "slot_ok n ?l w 1 ?a h'", OF step] by blast
  let ?cs = "cs\<lparr> fc_hint := h', fc_prepared := ps, fc_in_flight := fl \<rparr>"
  have "frodo_client_patch_state cs rd mode = Some ?cs"
    using h'(1) slots(1) by (simp add: frodo_client_patch_state_def csd(1,2) spd)
  moreover have "frodo_cs_ok chacha sp (edit_db w db rd) ?cs"
    using slots(2) csd(1,2) h'(2) frodo_hint_edit [OF assms(1) csd(3)]
    by (simp add: frodo_cs_ok_def frodo_mat_ok_def frodo_slot_ok_def spd)
  moreover have "\<forall>q row. frodo_asked sp cs q row \<longrightarrow> frodo_asked sp ?cs q row"
    using frodo_asked_cong [of sp cs _ _ ?cs] slots(3) by simp
  ultimately show ?thesis by blast
qed

section \<open>Precomputation\<close>

lemma frodo_precompute_queries_ok:
  assumes "frodo_sp_ok sp n w pb" "frodo_cs_ok chacha sp db cs" "productive next_u32"
  shows "\<exists>cs' g'. frodo_precompute_queries next_u32 cs m g = Some (cs', g') \<and> frodo_cs_ok chacha sp db cs' \<and>
    (\<forall>q row. frodo_asked sp cs q row \<longrightarrow> frodo_asked sp cs' q row)"
  using assms(2)
proof (induction m arbitrary: cs g)
  case (Suc m)
  have csd: "fc_params cs = sp" "fc_hint_material cs = frodo_mat chacha sp"
    using Suc.prems by (simp_all add: frodo_cs_ok_def frodo_mat_ok_def)
  obtain slot g1 where slot: "frodo_sample_slot next_u32 sp (frodo_mat chacha sp) g = Some (slot, g1)"
    "frodo_slot_ok chacha sp (fc_hint cs) slot"
    using frodo_sample_slot_ok [OF assms(1,3), of chacha g "fc_hint cs"] by blast
  let ?cs = "cs\<lparr> fc_prepared := fc_prepared cs @ [slot] \<rparr>"
  have "frodo_cs_ok chacha sp db ?cs" using Suc.prems slot(2) by (auto simp: frodo_cs_ok_def)
  from Suc.IH [OF this, of g1] show ?case
    using slot(1) frodo_asked_cong [of sp cs _ _ ?cs] by (auto simp: csd)
qed simp

lemma fill_c_ok:
  assumes "slot_ok n lwe w b a h slot" "length h = lwe * w"
  obtains slot' where "fill_c x86 h lwe w slot = Some slot'" "slot_ok n lwe w b a h slot'" "ps_b slot' = ps_b slot"
proof (cases "ps_c slot")
  case None
  have "length (ps_secret slot) = lwe" using assms(1) by (auto simp: slot_ok_def lwe_slot_def)
  then obtain c where c: "compute_c x86 (ps_secret slot) h lwe w = Some c" "length c = w"
    "\<And>j. j < w \<Longrightarrow> c ! j = vecmat (ps_secret slot) w h j"
    using compute_c_total assms(2) by metis
  then show ?thesis
    using that [of "slot\<lparr> ps_c := Some c \<rparr>"] assms(1) None
    by (auto simp: fill_c_def slot_ok_def lwe_slot_def c_current_def)
next
  case (Some c)
  then show ?thesis using that [of slot] assms(1) by (simp add: fill_c_def)
qed

lemma frodo_precompute_decodes_ok:
  assumes "frodo_sp_ok sp n w pb" "frodo_cs_ok chacha sp db cs"
  shows "\<exists>cs'. frodo_precompute_decodes x86 cs = Some cs' \<and> frodo_cs_ok chacha sp db cs' \<and>
    (\<forall>q row. frodo_asked sp cs q row \<longrightarrow> frodo_asked sp cs' q row)"
proof -
  let ?l = "fp_lwe_dim (fs_params sp)" and ?a = "frodo_mat chacha sp"
  have spd: "fs_n_rows sp = n" "fs_row_width sp = w" using assms(1) by (simp_all add: frodo_sp_ok_def)
  have csd: "fc_params cs = sp" "length (fc_hint cs) = ?l * w"
    "\<And>slot. slot \<in> set (fc_prepared cs) \<union> set_option (fc_in_flight cs) \<Longrightarrow> slot_ok n ?l w 1 ?a (fc_hint cs) slot"
    using assms(2) by (auto simp: frodo_cs_ok_def frodo_hint_ok_def frodo_slot_ok_def spd hint_ofD(2))
  have step: "\<exists>s'. fill_c x86 (fc_hint cs) ?l w s = Some s' \<and> slot_ok n ?l w 1 ?a (fc_hint cs) s' \<and> ps_b s' = ps_b s"
    if "s \<in> set (fc_prepared cs) \<union> set_option (fc_in_flight cs)" for s
    using fill_c_ok [OF csd(3) [OF that] csd(2)] by metis
  obtain ps fl where slots: "map_slots (fill_c x86 (fc_hint cs) ?l w) (fc_prepared cs) (fc_in_flight cs) = Some (ps, fl)"
    "\<forall>s \<in> set ps \<union> set_option fl. slot_ok n ?l w 1 ?a (fc_hint cs) s"
    "map_option ps_b fl = map_option ps_b (fc_in_flight cs)"
    using map_slots_total [where P = "slot_ok n ?l w 1 ?a (fc_hint cs)", OF step] by blast
  let ?cs = "cs\<lparr> fc_prepared := ps, fc_in_flight := fl \<rparr>"
  have "frodo_precompute_decodes x86 cs = Some ?cs"
    using slots(1) by (simp add: frodo_precompute_decodes_def csd(1) spd)
  moreover have "frodo_cs_ok chacha sp db ?cs"
    using assms(2) slots(2) by (simp add: frodo_cs_ok_def frodo_slot_ok_def spd)
  moreover have "\<forall>q row. frodo_asked sp cs q row \<longrightarrow> frodo_asked sp ?cs q row"
    using frodo_asked_cong [of sp cs _ _ ?cs] slots(3) by simp
  ultimately show ?thesis by blast
qed

section \<open>Rewind\<close>

lemma rewind_cells:
  assumes "\<forall>x \<in> set ds. fst (fst x) < length q \<and> snd (fst x) < length r"
  obtains r' where "frodo_rewind_response cs q r ds = Some r'" "length r' = length r"
    "\<forall>j < length r. r' ! j = r ! j - (\<Sum>(p, d) \<leftarrow> ds. if snd p = j then q ! fst p * word_of_int d else 0)"
proof -
  have "\<exists>r'. frodo_rewind_response cs q r ds = Some r' \<and> length r' = length r \<and>
    (\<forall>j < length r. r' ! j = r ! j - (\<Sum>(p, d) \<leftarrow> ds. if snd p = j then q ! fst p * word_of_int d else 0))"
    using assms
  proof (induction ds arbitrary: r)
    case (Cons x ds)
    obtain i c d where x: "x = ((i, c), d)" by (metis surj_pair)
    let ?r1 = "r[c := r ! c - q ! i * word_of_int d]"
    have ic: "i < length q" "c < length r" using Cons.prems by (simp_all add: x)
    obtain r' where "frodo_rewind_response cs q ?r1 ds = Some r'" "length r' = length r"
      "\<forall>j < length r. r' ! j = ?r1 ! j - (\<Sum>(p, d) \<leftarrow> ds. if snd p = j then q ! fst p * word_of_int d else 0)"
      using Cons.IH [of ?r1] Cons.prems by auto
    then show ?case
      using ic by (intro exI [of _ r']) (auto simp: frodo_rewind_response_def x nth_list_update)
  qed (simp add: frodo_rewind_response_def)
  then show ?thesis using that by blast
qed

text \<open>The subtracted terms are the contribution of the edits to the answer.\<close>

lemma answer_edits:
  assumes "\<forall>x \<in> set ds. fst (fst x) < n"
  shows "(\<Sum>i<n. q i * (D i + word_of_int (row_delta (pointwise ds) i j))) =
    (\<Sum>i<n. q i * D i) + (\<Sum>(p, d) \<leftarrow> ds. if snd p = j then q (fst p) * word_of_int d else (0 :: u32))"
proof -
  have "(\<Sum>i<n. q i * word_of_int (row_delta (pointwise ds) i j)) =
      (\<Sum>(p, d) \<leftarrow> ds. if snd p = j then q (fst p) * word_of_int d else (0 :: u32))"
    using assms
  proof (induction ds)
    case (Cons x ds)
    obtain i c d where x: "x = ((i, c), d)" by (metis surj_pair)
    have "word_of_int (row_delta (pointwise (x # ds)) i' j) =
        (if i' = i then if c = j then word_of_int d else 0 else 0) + (word_of_int (row_delta (pointwise ds) i' j) :: u32)" for i'
      by (auto simp: row_delta_pointwise x wi_hom_add [symmetric])
    then have "(\<Sum>i'<n. q i' * word_of_int (row_delta (pointwise (x # ds)) i' j)) =
        (\<Sum>i'<n. if i' = i then (if c = j then q i' * word_of_int d else 0) else 0) +
        (\<Sum>i'<n. q i' * word_of_int (row_delta (pointwise ds) i' j))"
      unfolding sum.distrib [symmetric] by (intro sum.cong) (auto simp: distrib_left)
    moreover have "(\<Sum>i'<n. if i' = i then (if c = j then q i' * word_of_int d else 0) else 0) =
        (if c = j then q i * word_of_int d else 0)"
      using Cons.prems by (cases "c = j") (simp_all add: x sum.delta)
    ultimately show ?case using Cons by (simp add: x)
  qed (simp add: pointwise_def)
  then show ?thesis by (simp add: distrib_left sum.distrib)
qed

lemma frodo_rewind_ok:
  assumes "frodo_sp_ok sp n w pb" "edits_ok n w (pointwise ds)"
    and "frodo_answered sp (edit_db w db (pointwise ds)) q r" "length db = n * w"
  shows "\<exists>r'. frodo_rewind_response cs q r ds = Some r' \<and> frodo_answered sp db q r'"
proof -
  have spd: "fs_n_rows sp = n" "fs_row_width sp = w" using assms(1) by (simp_all add: frodo_sp_ok_def)
  have r: "length q = n" "length r = w"
    "\<And>j. j < w \<Longrightarrow> r ! j = (\<Sum>i<n. q ! i * mcell w (edit_db w db (pointwise ds)) i j)"
    using assms(3) by (simp_all add: frodo_answered_def spd)
  have ds: "\<forall>x \<in> set ds. fst (fst x) < n \<and> snd (fst x) < w" using assms(2) by (simp add: edits_ok_pointwise)
  then obtain r' where r': "frodo_rewind_response cs q r ds = Some r'" "length r' = w"
    "\<forall>j < w. r' ! j = r ! j - (\<Sum>(p, d) \<leftarrow> ds. if snd p = j then q ! fst p * word_of_int d else 0)"
    using rewind_cells [of ds q r cs] r(1,2) by auto
  have "r' ! j = (\<Sum>i<n. q ! i * mcell w db i j)" if "j < w" for j
  proof -
    have "r ! j = (\<Sum>i<n. q ! i * (mcell w db i j + word_of_int (row_delta (pointwise ds) i j)))"
      using that by (simp add: r(3) mcell_edit_db [OF assms(4)] edited_def)
    also have "\<dots> = (\<Sum>i<n. q ! i * mcell w db i j) +
        (\<Sum>(p, d) \<leftarrow> ds. if snd p = j then q ! fst p * word_of_int d else 0)"
      by (rule answer_edits) (use ds in blast)
    finally show ?thesis using r'(3) that by simp
  qed
  then show ?thesis using r' r(1) by (simp add: frodo_answered_def spd)
qed

section \<open>The contract\<close>

interpretation frodo: pir_backend "frodo_backend x86 chacha next_u32 fill_bytes" "productive next_u32"
  frodo_cfg_ok frodo_sp_ok "frodo_mat_ok chacha" "frodo_hint_ok chacha" "frodo_cs_ok chacha"
  frodo_asked frodo_answered frodo_quiet frodo_worst_case
proof (unfold_locales, goal_cases)
  case (1 cfg n w pb db g)
  then show ?case using frodo_setup_ok by (simp add: frodo_backend_def)
next
  case (2 sp n w pb)
  then show ?case using frodo_expand_ok by (simp add: frodo_backend_def frodo_mat_ok_def)
next
  case (3 sp n w pb db h)
  then show ?case
    using frodo_expand_ok [OF 3(1), of chacha] by (simp add: frodo_backend_def frodo_client_setup_def frodo_cs_ok_def frodo_mat_ok_def)
next
  case (4 sp n w pb db cs row g)
  then show ?case using frodo_query_ok by (simp add: frodo_backend_def)
next
  case (5 sp n w pb cs q row db)
  then show ?case using frodo_answer_ok by (simp add: frodo_backend_def)
next
  case (6 sp n w pb db cs q row r)
  then show ?case using frodo_decode_ok by (simp add: frodo_backend_def)
next
  case (7 sp n w pb db cs q row)
  then show ?case using frodo_worst_case_quiet by blast
next
  case (8 sp n w pb mat db h rd mode)
  then show ?case using frodo_patch_hint_ok by (simp add: frodo_backend_def)
next
  case (9 sp n w pb db cs rd mode)
  then show ?case using frodo_patch_state_ok by (simp add: frodo_backend_def)
next
  case (10 sp n w pb db cs m g)
  then show ?case using frodo_precompute_queries_ok by (simp add: frodo_backend_def)
next
  case (11 sp n w pb db cs)
  then show ?case using frodo_precompute_decodes_ok by (simp add: frodo_backend_def)
next
  case (12 sp n w pb db0 cs q row ds db r)
  then show ?case using frodo_rewind_ok by (simp add: frodo_backend_def)
qed

end
