(* ===== verification/Backend_Properties.thy ===== *)
theory Backend_Properties
  imports Frodo_Correct
begin

text \<open>
  What the LWE back end promises: the matrix kernel, hint patches, decoding, sampling,
  precomputation and the response correction, each with a concrete instance. The instances use a
  small matrix, a keystream that counts and a generator that always draws \<open>1\<close>.
\<close>

section \<open>A small instance\<close>

definition demo_chacha :: "u8 list \<Rightarrow> nat \<Rightarrow> u32" where
  "demo_chacha seed i = of_nat (3 * i + 1)"

definition demo_next :: "unit \<Rightarrow> u32 \<times> unit" where
  "demo_next g = (1, g)"

definition demo_fill :: "nat \<Rightarrow> unit \<Rightarrow> u8 list \<times> unit" where
  "demo_fill n g = (replicate n 0, g)"

lemma demo_productive: "productive demo_next"
  by (auto simp: productive_def demo_next_def intro!: exI [of _ 0])

section \<open>The matrix kernel\<close>

text \<open>C36. The blocked accumulation kernel computes \<open>acc + q\<^sup>T D mod 2\<^sup>3\<^sup>2\<close>, the plain double loop, for
  every width and on both dispatch tables (x86-64 or not), and does not panic on matching shapes.\<close>

theorem kernel_is_product:
  assumes "length d = length q * length acc"
  shows "matvec_accumulate x86 acc d q =
    Some (map (\<lambda>j. acc ! j + (\<Sum>i<length q. q ! i * d ! (i * length acc + j))) [0..<length acc])"
  using assms by (simp add: matvec_eq_Some vecmat_def mcell_def)

theorem kernel_is_product_witness:
  "matvec_accumulate True [1, 2] [1, 2, 3, 4, 5, 6] [1, 2, 3] = Some [23, 30]"
  by (subst kernel_is_product) (simp_all add: lessThan_Suc numeral_eq_Suc)

section \<open>Hints\<close>

text \<open>C9. A patched hint is the hint of the edited database: in both modes, applying row deltas to
  the hint of a database gives exactly what \<open>compute_hint\<close> computes afresh on the database with
  the deltas added to its cells.\<close>

theorem patched_hint_is_recomputed:
  assumes "length a = n * lwe" "length db = n * w" "compute_hint a db n lwe w = Some h" "edits_ok n w rd"
  shows "frodo_apply_patch a lwe n w h rd mode = compute_hint a (edit_db w db rd) n lwe w"
proof -
  obtain h0 where "compute_hint a db n lwe w = Some h0" "hint_of n lwe w a (mcell w db) h0"
    by (rule compute_hint_total [OF assms(1,2)])
  then have h: "hint_of n lwe w a (mcell w db) h" using assms(3) by simp
  obtain h' where h': "frodo_apply_patch a lwe n w h rd mode = Some h'" "hint_of n lwe w a (edited (mcell w db) rd) h'"
    using frodo_apply_patch_total [OF h assms(4)] by blast
  have "length (edit_db w db rd) = n * w" using assms(2) by simp
  then obtain h'' where h'': "compute_hint a (edit_db w db rd) n lwe w = Some h''"
    "hint_of n lwe w a (mcell w (edit_db w db rd)) h''"
    by (rule compute_hint_total [OF assms(1)])
  have "hint_of n lwe w a (edited (mcell w db) rd) h''"
    using h''(2) hint_of_cong [of n w "mcell w (edit_db w db rd)" "edited (mcell w db) rd"] mcell_edit_db [OF assms(2)]
    by blast
  then show ?thesis using hint_of_unique [OF h'(2)] h'(1) h''(1) by simp
qed

theorem patched_hint_is_recomputed_witness:
  "frodo_apply_patch [1, 2] 1 2 1 [17] [(1, [(0, 3)])] RowLevel = compute_hint [1, 2] [5, 9] 2 1 1 \<and>
   frodo_apply_patch [1, 2] 1 2 1 [17] [(1, [(0, 3)])] EntryLevel = compute_hint [1, 2] [5, 9] 2 1 1"
proof -
  have h: "compute_hint [1, 2] [5, 6] 2 1 1 = Some [17]" by code_simp
  have db: "edit_db 1 [5, 6] [(1, [(0, 3)])] = [5, 9]" by (simp add: edit_db_def numeral_eq_Suc)
  have e: "edits_ok 2 1 [(1, [(0, 3)])]" by (simp add: edits_ok_def)
  have len: "length [1, 2 :: u32] = 2 * 1" "length [5, 6 :: u32] = 2 * 1" by simp_all
  note p = patched_hint_is_recomputed [OF len h e, unfolded db]
  show ?thesis by (intro conjI p)
qed

section \<open>Decoding\<close>

text \<open>C35. A query for a row, answered on the database the client's hint belongs to, decodes to
  that row, whenever the accumulated noise of the query stays below half a step
  (\<open>2\<^sup>3\<^sup>1 / 2\<^sup>p\<^sup>b\<close>) in every column.\<close>

theorem decode_below_noise_threshold:
  assumes "frodo_sp_ok sp n w pb" "frodo_cs_ok chacha sp db cs" "productive next_u32" "row < n"
    and "frodo_client_query next_u32 cs row g = Some (q, cs', g')"
    and "frodo_server_answer x86 sp db n w q = Some r" "list_all (fits pb) db" "frodo_quiet sp db cs'"
  shows "frodo_client_decode x86 cs' r = Some (db_row w db row)"
proof -
  have c: "frodo_cs_ok chacha sp db cs'" "frodo_asked sp cs' q row"
    using frodo_query_ok [OF assms(1-4), of g] assms(5) by auto
  have "length db = n * w" using assms(1,2) by (simp add: frodo_preds frodo_sp_ok_def)
  then have "frodo_answered sp db q r" using frodo_answer_ok [OF assms(1) c(2), of db x86] assms(6) by auto
  then show ?thesis by (rule frodo_decode_ok [OF assms(1) c assms(4) _ assms(8,7)])
qed

text \<open>C6. With parameters for which \<open>n\<close> errors of absolute value \<open>1\<close> cannot reach the threshold,
  a whole round never fails: setup, client setup, query, answer and decode all return, and the
  decoded row is the queried row of the database.\<close>

theorem frodo_round_returns_row:
  assumes "frodo_cfg_ok lwe n w pb" "length db = n * w" "list_all (fits pb) db" "productive next_u32" "row < n"
    and "noise_ok n 1 pb"
  shows "\<exists>sp a h g1 cs q cs' g2 r.
    frodo_server_setup chacha fill_bytes lwe db n w pb g = Some ((sp, a, h), g1) \<and>
    frodo_client_setup chacha sp h = Some cs \<and>
    frodo_client_query next_u32 cs row g1 = Some (q, cs', g2) \<and>
    frodo_server_answer x86 sp db n w q = Some r \<and>
    frodo_client_decode x86 cs' r = Some (db_row w db row)"
proof -
  obtain sp a h g1 where s: "frodo_server_setup chacha fill_bytes lwe db n w pb g = Some ((sp, a, h), g1)"
    "frodo_sp_ok sp n w pb" "frodo_hint_ok chacha sp db h"
    using frodo_setup_ok [OF assms(1,2), of chacha fill_bytes g] by blast
  obtain cs where cs: "frodo_client_setup chacha sp h = Some cs" "frodo_cs_ok chacha sp db cs"
    using frodo.client_setup [OF s(2,3)] by (auto simp: frodo_backend_def)
  obtain q cs' g2 where q: "frodo_client_query next_u32 cs row g1 = Some (q, cs', g2)"
    "frodo_cs_ok chacha sp db cs'" "frodo_asked sp cs' q row"
    using frodo_query_ok [OF s(2) cs(2) assms(4,5), of g1] by blast
  obtain r where r: "frodo_server_answer x86 sp db n w q = Some r" "frodo_answered sp db q r"
    using frodo_answer_ok [OF s(2) q(3) assms(2), of x86] by blast
  have "frodo_worst_case sp" using assms(6) s(2) by (simp add: frodo_worst_case_def frodo_sp_ok_def)
  then have "frodo_quiet sp db cs'" by (rule frodo_worst_case_quiet [OF s(2) q(2,3) assms(3)])
  then have "frodo_client_decode x86 cs' r = Some (db_row w db row)"
    by (rule frodo_decode_ok [OF s(2) q(2,3) assms(5) r(2) _ assms(3)])
  then show ?thesis using s(1) cs(1) q(1) r(1) by blast
qed

lemma demo_fits: "list_all (fits 8) [5, 6 :: u32]"
  by (simp add: fits_def)

lemma demo_cfg: "frodo_cfg_ok 4 1 2 8"
  by (simp add: frodo_cfg_ok_def)

theorem frodo_round_returns_row_witness:
  "\<exists>sp a h g1 cs q cs' g2 r.
    frodo_server_setup demo_chacha demo_fill 4 [5, 6] 1 2 8 () = Some ((sp, a, h), g1) \<and>
    frodo_client_setup demo_chacha sp h = Some cs \<and>
    frodo_client_query demo_next cs 0 g1 = Some (q, cs', g2) \<and>
    frodo_server_answer True sp [5, 6] 1 2 q = Some r \<and>
    frodo_client_decode True cs' r = Some [5, 6]"
proof -
  have row: "db_row 2 [5, 6] 0 = [5, 6 :: u32]" by (simp add: db_row_def mcell_def numeral_eq_Suc)
  have "noise_ok 1 1 8" by (simp add: noise_ok_def)
  then show ?thesis
    using frodo_round_returns_row [OF demo_cfg _ demo_fits demo_productive, of 0 demo_chacha demo_fill "()" True]
    by (simp add: row)
qed

theorem decode_below_noise_threshold_witness:
  "\<exists>sp cs q cs' g' r. frodo_quiet sp [5, 6] cs' \<and> frodo_client_query demo_next cs 0 () = Some (q, cs', g') \<and>
    frodo_server_answer False sp [5, 6] 1 2 q = Some r \<and> frodo_client_decode False cs' r = Some [5, 6]"
proof -
  have row: "db_row 2 [5, 6] 0 = [5, 6 :: u32]" by (simp add: db_row_def mcell_def numeral_eq_Suc)
  have len: "length [5, 6 :: u32] = 1 * 2" by simp
  obtain sp a h where s: "frodo_sp_ok sp 1 2 8" "frodo_hint_ok demo_chacha sp [5, 6] h"
    using frodo_setup_ok [OF demo_cfg len, of demo_chacha demo_fill "()"] by blast
  obtain cs where cs: "frodo_cs_ok demo_chacha sp [5, 6] cs"
    using frodo.client_setup [OF s] by blast
  obtain q cs' g' where q: "frodo_client_query demo_next cs 0 () = Some (q, cs', g')"
    "frodo_cs_ok demo_chacha sp [5, 6] cs'" "frodo_asked sp cs' q 0"
    using frodo_query_ok [OF s(1) cs demo_productive, of 0 "()"] by auto
  obtain r where r: "frodo_server_answer False sp [5, 6] 1 2 q = Some r"
    using frodo_answer_ok [OF s(1) q(3) len, of False] by blast
  have "frodo_worst_case sp" using s(1) by (simp add: frodo_worst_case_def frodo_sp_ok_def noise_ok_def)
  then have quiet: "frodo_quiet sp [5, 6] cs'" by (rule frodo_worst_case_quiet [OF s(1) q(2,3) demo_fits])
  have "frodo_client_decode False cs' r = Some [5, 6]"
    using decode_below_noise_threshold [OF s(1) cs demo_productive _ q(1) r demo_fits quiet] row by simp
  then show ?thesis using q(1) r quiet by blast
qed

section \<open>Sampling\<close>

text \<open>The rejection sampler returns: if the generator keeps producing words other than
  \<open>0xFFFFFFFF\<close>, \<open>sample_ternary_into\<close> ends with a full buffer whose entries are \<open>0\<close>, \<open>1\<close> or
  \<open>-1\<close> (mod \<open>2\<^sup>3\<^sup>2\<close>).\<close>

theorem sampler_terminates:
  assumes "productive next_u32"
  shows "\<exists>dst g'. sample_ternary_into next_u32 g len = Some (dst, g') \<and> length dst = len \<and>
    (\<forall>i < len. dst ! i \<in> {0, 1, - 1})"
proof -
  obtain dst g' where "sample_ternary_into next_u32 g len = Some (dst, g')" "length dst = len"
    "\<forall>i < len. dst ! i \<in> ternary"
    by (rule sample_ternary_total [OF assms])
  then show ?thesis by (auto simp: ternary_def)
qed

theorem sampler_terminates_witness:
  "\<exists>dst. sample_ternary_into demo_next () 3 = Some (dst, ()) \<and> length dst = 3"
  using sampler_terminates [OF demo_productive, of "()" 3] by auto

lemma ternary_word_all_rejected:
  "2 * n \<le> 32 \<Longrightarrow> idx < length dst \<Longrightarrow> ternary_word n (mask (2 * n)) idx dst = (idx, dst)"
proof (induction n)
  case (Suc n)
  let ?w = "mask (2 * Suc n) :: u32"
  have "bit ?w 0" "bit ?w 1" using Suc.prems(1) by (simp_all add: bit_mask_iff)
  then have r: "?w AND 3 = 3" by (simp only: chunk_eq_3)
  have "drop_bit 2 ?w = mask (2 * n)"
    by (rule bit_word_eqI) (use Suc.prems(1) in \<open>auto simp: bit_drop_bit_eq bit_mask_iff\<close>)
  then show ?case using Suc r by simp
qed simp

lemma ternary_loop_stuck:
  assumes "ternary_loop next_u32 g idx dst = Some x"
  shows "(\<forall>g. next_u32 g = (- 1, g)) \<longrightarrow> length dst \<le> idx"
proof (rule ternary_loop.raw_induct [where P = "\<lambda>nx g idx dst x. (\<forall>g. nx g = (- 1, g)) \<longrightarrow> length dst \<le> idx", OF _ assms])
  fix loop nx g idx dst x
  assume IH: "\<And>nx g idx dst x. loop nx g idx dst = Some x \<Longrightarrow> (\<forall>g. nx g = (- 1, g)) \<longrightarrow> length dst \<le> idx"
    and run: "(if idx < length dst then case nx g of (word, g') \<Rightarrow>
        case ternary_word 16 word idx dst of (idx', dst') \<Rightarrow> loop nx g' idx' dst' else Some (dst, g)) = Some x"
  show "(\<forall>g. nx g = (- 1, g)) \<longrightarrow> length dst \<le> idx"
  proof (intro impI, rule ccontr)
    assume stuck: "\<forall>g. nx g = (- 1, g)" and less: "\<not> length dst \<le> idx"
    have "(mask 32 :: u32) = - 1" by (rule bit_word_eqI) (simp add: bit_mask_iff)
    then have "ternary_word 16 (- 1) idx dst = (idx, dst)" using ternary_word_all_rejected [of 16 idx dst] less by simp
    then have "loop nx g idx dst = Some x" using run stuck less by simp
    then show False using IH stuck less by blast
  qed
qed

text \<open>That hypothesis is needed: with a generator stuck at \<open>0xFFFFFFFF\<close>, every two-bit chunk is rejected and
  the sampler never returns, whatever the (non-zero) length asked for.\<close>

theorem sampler_stuck_on_all_ones:
  assumes "\<And>g. next_u32 g = (0xFFFFFFFF, g)" "0 < len"
  shows "sample_ternary_into next_u32 g len = None"
proof (cases "sample_ternary_into next_u32 g len")
  case (Some x)
  then show ?thesis using ternary_loop_stuck [of next_u32 g 0 "replicate len 0" x] assms
    by (simp add: sample_ternary_into_def)
qed simp

theorem sampler_stuck_on_all_ones_witness:
  "sample_ternary_into (\<lambda>g. (0xFFFFFFFF, g)) () 2 = None"
  by (rule sampler_stuck_on_all_ones) simp_all

section \<open>Precomputation\<close>

text \<open>Precomputing decodes changes no answer: a client that caches \<open>c = s\<^sup>T H\<close> for its slots
  decodes every response of the right width to the same result (value or panic) as before.\<close>

theorem precomputed_decode_agrees:
  assumes "frodo_sp_ok sp n w pb" "frodo_cs_ok chacha sp db cs" "length r = w"
    and "frodo_precompute_decodes x86 cs = Some cs'"
  shows "frodo_client_decode x86 cs' r = frodo_client_decode x86 cs r"
proof -
  let ?l = "fp_lwe_dim (fs_params sp)"
  have spd: "fs_n_rows sp = n" "fs_row_width sp = w" using assms(1) by (simp_all add: frodo_sp_ok_def)
  have cs: "fc_params cs = sp" "length (fc_hint cs) = ?l * w"
    using assms(2) by (auto simp: frodo_cs_ok_def frodo_hint_ok_def spd hint_ofD(2))
  obtain ps fl where m: "map_slots (fill_c x86 (fc_hint cs) ?l w) (fc_prepared cs) (fc_in_flight cs) = Some (ps, fl)"
    "cs' = cs\<lparr> fc_prepared := ps, fc_in_flight := fl \<rparr>"
    using assms(4) by (auto simp: frodo_precompute_decodes_def cs(1) spd bind_eq_Some_conv)
  have "slot_residual x86 (fc_hint cs) slot' r = slot_residual x86 (fc_hint cs) slot r"
    if s: "fc_in_flight cs = Some slot" "fill_c x86 (fc_hint cs) ?l w slot = Some slot'" for slot slot'
  proof (cases "ps_c slot")
    case None
    have ok: "slot_ok n ?l w 1 (frodo_mat chacha sp) (fc_hint cs) slot"
      using assms(2) s(1) by (auto simp: frodo_cs_ok_def frodo_slot_ok_def spd)
    then have sec: "length (ps_secret slot) = ?l" "c_current w (fc_hint cs) slot"
      by (auto simp: slot_ok_def lwe_slot_def)
    obtain slot'' where f: "fill_c x86 (fc_hint cs) ?l w slot = Some slot''"
      "slot_ok n ?l w 1 (frodo_mat chacha sp) (fc_hint cs) slot''" "ps_b slot'' = ps_b slot"
      by (rule fill_c_ok [OF ok cs(2)])
    then have sec': "c_current w (fc_hint cs) slot'" "ps_secret slot' = ps_secret slot"
      using s(2) None by (auto simp: slot_ok_def fill_c_def bind_eq_Some_conv)
    obtain x y where "slot_residual x86 (fc_hint cs) slot r = Some x" "length x = w"
        "\<And>j. j < w \<Longrightarrow> x ! j = r ! j - vecmat (ps_secret slot) w (fc_hint cs) j"
      and "slot_residual x86 (fc_hint cs) slot' r = Some y" "length y = w"
        "\<And>j. j < w \<Longrightarrow> y ! j = r ! j - vecmat (ps_secret slot') w (fc_hint cs) j"
      using slot_residual_total [OF sec(2,1) cs(2) assms(3), of x86]
        slot_residual_total [OF sec'(1) _ cs(2) assms(3), of x86] sec(1) sec'(2) by metis
    then show ?thesis using sec'(2) by (simp add: list_eq_iff_nth_eq)
  next
    case (Some c)
    then show ?thesis using s(2) by (simp add: fill_c_def)
  qed
  then show ?thesis
    using m by (cases "fc_in_flight cs")
      (auto simp: frodo_client_decode_def map_slots_def bind_eq_Some_conv cs(1))
qed

theorem precomputed_decode_agrees_witness:
  "\<exists>cs cs' :: frodo_client. frodo_precompute_decodes True cs = Some cs' \<and> fc_params cs = fc_params cs' \<and>
    frodo_client_decode True cs' [9, 9] = frodo_client_decode True cs [9, 9]"
proof -
  have len: "length [5, 6 :: u32] = 1 * 2" by simp
  obtain sp a h where s: "frodo_sp_ok sp 1 2 8" "frodo_hint_ok demo_chacha sp [5, 6] h"
    using frodo_setup_ok [OF demo_cfg len, of demo_chacha demo_fill "()"] by blast
  obtain cs where cs: "frodo_cs_ok demo_chacha sp [5, 6] cs" using frodo.client_setup [OF s] by blast
  obtain cs' where c: "frodo_precompute_decodes True cs = Some cs'" "frodo_cs_ok demo_chacha sp [5, 6] cs'"
    using frodo_precompute_decodes_ok [OF s(1) cs, of True] by blast
  have "frodo_client_decode True cs' [9, 9] = frodo_client_decode True cs [9, 9]"
    using precomputed_decode_agrees [OF s(1) cs _ c(1), of "[9, 9]"] by simp
  then show ?thesis using c cs by (auto simp: frodo_cs_ok_def)
qed

section \<open>Response correction\<close>

text \<open>C34. Rewinding is exact: subtracting the query-weighted pending deltas from the answer on the
  edited database gives the answer on the database before the edits, in every column.\<close>

theorem rewind_undoes_edits:
  assumes "length q = n" "length db = n * w" "edits_ok n w (pointwise ds)"
    and "frodo_server_answer x86 sp (edit_db w db (pointwise ds)) n w q = Some r"
  shows "frodo_rewind_response cs q r ds = frodo_server_answer x86 sp db n w q"
proof -
  let ?db = "edit_db w db (pointwise ds)"
  have len: "length ?db = n * w" using assms(2) by simp
  obtain r0 where r0: "frodo_server_answer x86 sp db n w q = Some r0" "length r0 = w"
    "\<And>j. j < w \<Longrightarrow> r0 ! j = (\<Sum>i<n. q ! i * mcell w db i j)"
    using matvec_total [of db q "replicate w 0" x86] assms(1,2) by (auto simp: frodo_server_answer_def vecmat_def)
  have r: "length r = w" "\<And>j. j < w \<Longrightarrow> r ! j = (\<Sum>i<n. q ! i * mcell w ?db i j)"
    using assms(1,4) len by (auto simp: frodo_server_answer_def matvec_eq_Some vecmat_def)
  have ds: "\<forall>x \<in> set ds. fst (fst x) < n \<and> snd (fst x) < w" using assms(3) by (simp add: edits_ok_pointwise)
  then obtain r' where r': "frodo_rewind_response cs q r ds = Some r'" "length r' = w"
    "\<forall>j < w. r' ! j = r ! j - (\<Sum>(p, d) \<leftarrow> ds. if snd p = j then q ! fst p * word_of_int d else 0)"
    using rewind_cells [of ds q r cs] r(1) assms(1) by auto
  have "r' ! j = r0 ! j" if j: "j < w" for j
  proof -
    have "r ! j = (\<Sum>i<n. q ! i * (mcell w db i j + word_of_int (row_delta (pointwise ds) i j)))"
      using j by (simp add: r(2) mcell_edit_db [OF assms(2)] edited_def)
    then show ?thesis using answer_edits [of ds n "(!) q" "\<lambda>i. mcell w db i j" j] ds r'(3) r0(3) [OF j] j by simp
  qed
  then have "r' = r0" using r'(2) r0(2) by (simp add: list_eq_iff_nth_eq)
  then show ?thesis using r'(1) r0(1) by simp
qed

theorem rewind_undoes_edits_witness:
  "\<forall>cs sp. frodo_rewind_response cs [3, 4] [51] [((1, 0), 2)] = frodo_server_answer True sp [5, 7] 2 1 [3, 4]"
proof (intro allI)
  fix cs :: frodo_client and sp :: frodo_server_params
  have db: "edit_db 1 [5, 7] (pointwise [((1, 0), 2)]) = [5, 9]"
    by (simp add: edit_db_def pointwise_def numeral_eq_Suc)
  have e: "edits_ok 2 1 (pointwise [((1, 0), 2)])" by (simp add: edits_ok_pointwise)
  have "matvec_accumulate True [0] [5, 9] [3, 4] = Some [51 :: u32]" by code_simp
  then have "frodo_server_answer True sp (edit_db 1 [5, 7] (pointwise [((1, 0), 2)])) 2 1 [3, 4] = Some [51]"
    unfolding db by (simp add: frodo_server_answer_def)
  from rewind_undoes_edits [OF _ _ e this]
  show "frodo_rewind_response cs [3, 4] [51] [((1, 0), 2)] = frodo_server_answer True sp [5, 7] 2 1 [3, 4]" by simp
qed

end
