(* ===== verification/Clients.thy ===== *)
theory Clients
  imports Server
begin

text \<open>
  The two clients of \<open>ikpir-client/src/\<close>: \<open>HintPatchClient\<close> patches its hint with every published
  delta, \<open>RewindClient\<close> pins its hint, keeps a running sum of the deltas (\<open>PendingDelta\<close>) and
  corrects responses. Definitions only; random generator states are threaded, and the closure
  \<open>fetch_bundle\<close> of the resync wrappers is the bundle it returns.
\<close>

section \<open>Shared parts\<close>

datatype client_error =
    StaleDelta nat nat
  | FutureDelta nat nat
  | EpochMismatch nat nat
  | MalformedBundle
  | CellOutOfRange nat nat nat
  | ServerError ikpir_error

datatype delta_apply_outcome = Synced | Resynced

definition ct_eq_u64_mask :: "u64 \<Rightarrow> u64 \<Rightarrow> u64" where
  "ct_eq_u64_mask a b = (let x = a XOR b in drop_bit 63 (x OR (- x)) - 1)"

text \<open>The per-segment queries of \<open>build_query\<close>: queries, states and generator.\<close>

definition build_queries ::
  "('cfg, 'sp, 'mat, 'hint, 'cs, 'q, 'r, 'g) backend \<Rightarrow> (u8 list \<Rightarrow> u128) \<Rightarrow> cuckoo_params \<Rightarrow> 'cs list \<Rightarrow>
    u8 list \<Rightarrow> 'g \<Rightarrow> ('q list \<times> 'cs list \<times> 'g) option" where
  "build_queries B xxh p states key g =
     (case candidate_buckets xxh p key of (_, indices) \<Rightarrow>
        fold_opt (\<lambda>j (queries, states, g). do {
            idx \<leftarrow> nth_opt indices j;
            assert_opt (0 < cp_segment_size p);
            st \<leftarrow> nth_opt states j;
            (q, st', g') \<leftarrow> be_client_query B st (unat idx mod cp_segment_size p) g;
            states' \<leftarrow> upd_opt states j st';
            Some (queries @ [q], states', g')
          }) [0..<cp_arity p] ([], states, g))"

text \<open>The branchless scan of one decoded row: the accumulator and the mask of what was found.\<close>

definition or_masked :: "u8 \<Rightarrow> u8 list \<Rightarrow> u8 list \<Rightarrow> u8 list" where
  "or_masked mask8 acc value_bytes =
     map2 (\<lambda>a v. a OR (mask8 AND v)) acc value_bytes @ drop (length value_bytes) acc"

definition scan_row ::
  "cuckoo_params \<Rightarrow> u64 \<Rightarrow> u32 list \<Rightarrow> u8 list \<times> u64 \<Rightarrow> (u8 list \<times> u64) option" where
  "scan_row p fp row =
     fold_opt (\<lambda>s (acc, found_mask). do {
         slot \<leftarrow> slice_opt row (s * cp_cells_per_slot p) (cp_cells_per_slot p);
         (decoded_fp, value_bytes) \<leftarrow> unpack_slot_cells p slot;
         let mask64 = ct_eq_u64_mask decoded_fp fp;
         let mask8 = ucast (mask64 AND 0xFF);
         Some (or_masked mask8 acc value_bytes, found_mask OR mask64)
       }) [0..<cp_bucket_size p]"

definition scan_result :: "u8 list \<times> u64 \<Rightarrow> u8 list option" where
  "scan_result s = (if snd s \<noteq> 0 then Some (fst s) else None)"

text \<open>One state per segment from a setup bundle.\<close>

definition setup_states ::
  "('sp \<Rightarrow> 'hint \<Rightarrow> 'cs option) \<Rightarrow> ('sp, 'hint) server_setup_bundle \<Rightarrow> 'cs list option" where
  "setup_states client_setup bundle =
     do {
       let arity = cp_arity (ss_params bundle);
       assert_opt (length (ss_backend_params bundle) = arity);
       assert_opt (length (ss_hints bundle) = arity);
       those (map (\<lambda>(p, h). client_setup p h) (zip (ss_backend_params bundle) (ss_hints bundle)))
     }"

text \<open>Precomputation, segment by segment.\<close>

definition precompute_states ::
  "('cfg, 'sp, 'mat, 'hint, 'cs, 'q, 'r, 'g) backend \<Rightarrow> nat \<Rightarrow> 'cs list \<Rightarrow> 'g \<Rightarrow> ('cs list \<times> 'g) option" where
  "precompute_states B cnt states g =
     fold_opt (\<lambda>st (done', g). do {
         (st', g') \<leftarrow> be_precompute_queries B st cnt g;
         Some (done' @ [st'], g')
       }) states ([], g)"

definition precompute_decode_states ::
  "('cfg, 'sp, 'mat, 'hint, 'cs, 'q, 'r, 'g) backend \<Rightarrow> 'cs list \<Rightarrow> 'cs list option" where
  "precompute_decode_states B states = those (map (be_precompute_decodes B) states)"

text \<open>The epoch and shape checks of an incoming delta, in order; \<open>None\<close> when all pass.\<close>

definition check_delta :: "nat \<Rightarrow> cuckoo_params \<Rightarrow> hint_delta_bundle \<Rightarrow> client_error option" where
  "check_delta expected p delta =
     (if hd_epoch delta < expected then Some (StaleDelta expected (hd_epoch delta))
      else if hd_epoch delta > expected then Some (FutureDelta expected (hd_epoch delta))
      else if hd_params delta \<noteq> p then Some MalformedBundle
      else if length (hd_row_deltas delta) \<noteq> cp_arity p then Some MalformedBundle
      else None)"

section \<open>The hint-patching client\<close>

record 'cs hint_patch_client =
  hp_params :: cuckoo_params
  hp_states :: "'cs list"
  hp_epoch :: nat
  hp_hint_patch_mode :: hint_patch_mode

definition hp_assemble ::
  "('sp \<Rightarrow> 'hint \<Rightarrow> 'cs option) \<Rightarrow> ('sp, 'hint) server_setup_bundle \<Rightarrow> 'cs hint_patch_client option" where
  "hp_assemble client_setup bundle =
     do {
       states \<leftarrow> setup_states client_setup bundle;
       Some \<lparr> hp_params = ss_params bundle, hp_states = states, hp_epoch = ss_epoch bundle,
         hp_hint_patch_mode = default_patch_mode \<rparr>
     }"

definition hp_from_setup ::
  "('cfg, 'sp, 'mat, 'hint, 'cs, 'q, 'r, 'g) backend \<Rightarrow> ('sp, 'hint) server_setup_bundle \<Rightarrow> 'cs hint_patch_client option" where
  "hp_from_setup B = hp_assemble (be_client_setup B)"

definition hp_reset_from ::
  "('cfg, 'sp, 'mat, 'hint, 'cs, 'q, 'r, 'g) backend \<Rightarrow> 'cs hint_patch_client \<Rightarrow> ('sp, 'hint) server_setup_bundle \<Rightarrow>
    'cs hint_patch_client option" where
  "hp_reset_from B cl bundle =
     do {
       let mode = hp_hint_patch_mode cl;
       cl' \<leftarrow> hp_from_setup B bundle;
       Some (cl'\<lparr> hp_hint_patch_mode := mode \<rparr>)
     }"

definition hp_set_hint_patch_mode :: "'cs hint_patch_client \<Rightarrow> hint_patch_mode \<Rightarrow> 'cs hint_patch_client" where
  "hp_set_hint_patch_mode cl mode = cl\<lparr> hp_hint_patch_mode := mode \<rparr>"

definition hp_build_query ::
  "('cfg, 'sp, 'mat, 'hint, 'cs, 'q, 'r, 'g) backend \<Rightarrow> (u8 list \<Rightarrow> u128) \<Rightarrow> 'cs hint_patch_client \<Rightarrow> u8 list \<Rightarrow> 'g \<Rightarrow>
    ('q pir_query_bundle \<times> 'cs hint_patch_client \<times> 'g) option" where
  "hp_build_query B xxh cl key g =
     do {
       (queries, states, g') \<leftarrow> build_queries B xxh (hp_params cl) (hp_states cl) key g;
       Some (\<lparr> pq_epoch = hp_epoch cl, pq_queries = queries \<rparr>, cl\<lparr> hp_states := states \<rparr>, g')
     }"

definition hp_decode ::
  "('cfg, 'sp, 'mat, 'hint, 'cs, 'q, 'r, 'g) backend \<Rightarrow> (u8 list \<Rightarrow> u128) \<Rightarrow> 'cs hint_patch_client \<Rightarrow> u8 list \<Rightarrow>
    'r pir_response_bundle \<Rightarrow> (client_error + u8 list option) option" where
  "hp_decode B xxh cl key resp =
     (if pr_epoch resp \<noteq> hp_epoch cl then Some (Inl (EpochMismatch (hp_epoch cl) (pr_epoch resp)))
      else let p = hp_params cl in
      if length (pr_responses resp) \<noteq> cp_arity p then Some (Inl MalformedBundle)
      else do {
        let (fp, _) = candidate_buckets xxh p key;
        r \<leftarrow> fold_res (\<lambda>j s. do {
            st \<leftarrow> nth_opt (hp_states cl) j;
            rj \<leftarrow> nth_opt (pr_responses resp) j;
            row \<leftarrow> be_client_decode B st rj;
            if length row \<noteq> cp_bucket_size p * cp_cells_per_slot p then Some (Inl MalformedBundle)
            else map_option Inr (scan_row p fp row s)
          }) [0..<cp_arity p] (replicate (cp_value_size_in_bytes p) 0, 0);
        Some (case r of Inl e \<Rightarrow> Inl e | Inr s \<Rightarrow> Inr (scan_result s))
      })"

definition hp_precompute_queries ::
  "('cfg, 'sp, 'mat, 'hint, 'cs, 'q, 'r, 'g) backend \<Rightarrow> 'cs hint_patch_client \<Rightarrow> nat \<Rightarrow> 'g \<Rightarrow>
    ('cs hint_patch_client \<times> 'g) option" where
  "hp_precompute_queries B cl cnt g =
     do { (states, g') \<leftarrow> precompute_states B cnt (hp_states cl) g; Some (cl\<lparr> hp_states := states \<rparr>, g') }"

definition hp_precompute_decodes ::
  "('cfg, 'sp, 'mat, 'hint, 'cs, 'q, 'r, 'g) backend \<Rightarrow> 'cs hint_patch_client \<Rightarrow> 'cs hint_patch_client option" where
  "hp_precompute_decodes B cl =
     do { states \<leftarrow> precompute_decode_states B (hp_states cl); Some (cl\<lparr> hp_states := states \<rparr>) }"

text \<open>The loop of \<open>apply_delta\<close>: patch the states of the touched segments.\<close>

definition patch_states ::
  "('cfg, 'sp, 'mat, 'hint, 'cs, 'q, 'r, 'g) backend \<Rightarrow> hint_patch_mode \<Rightarrow> row_deltas list \<Rightarrow> 'cs list \<Rightarrow> 'cs list option" where
  "patch_states B mode rds =
     fold_opt (\<lambda>(j, deltas) states.
       if deltas = [] then Some states
       else do {
         st \<leftarrow> nth_opt states j;
         st' \<leftarrow> be_client_patch_state B st deltas mode;
         upd_opt states j st'
       }) (enumerate 0 rds)"

definition hp_apply_delta ::
  "('cfg, 'sp, 'mat, 'hint, 'cs, 'q, 'r, 'g) backend \<Rightarrow> 'cs hint_patch_client \<Rightarrow> hint_delta_bundle \<Rightarrow>
    ((client_error + unit) \<times> 'cs hint_patch_client) option" where
  "hp_apply_delta B cl delta =
     do {
       expected \<leftarrow> checked_succ_u64 (hp_epoch cl);
       case check_delta expected (hp_params cl) delta of
         Some e \<Rightarrow> Some (Inl e, cl)
       | None \<Rightarrow> do {
           states \<leftarrow> patch_states B (hp_hint_patch_mode cl) (hd_row_deltas delta) (hp_states cl);
           Some (Inr (), cl\<lparr> hp_states := states, hp_epoch := hd_epoch delta \<rparr>)
         }
     }"

definition hp_try_apply_delta_or_resync ::
  "('cfg, 'sp, 'mat, 'hint, 'cs, 'q, 'r, 'g) backend \<Rightarrow> 'cs hint_patch_client \<Rightarrow> hint_delta_bundle \<Rightarrow>
    ('sp, 'hint) server_setup_bundle \<Rightarrow> ((client_error + delta_apply_outcome) \<times> 'cs hint_patch_client) option" where
  "hp_try_apply_delta_or_resync B cl delta fetched =
     do {
       (r, cl1) \<leftarrow> hp_apply_delta B cl delta;
       case r of
         Inr _ \<Rightarrow> Some (Inr Synced, cl1)
       | Inl (FutureDelta _ _) \<Rightarrow> do { cl2 \<leftarrow> hp_reset_from B cl1 fetched; Some (Inr Resynced, cl2) }
       | Inl e \<Rightarrow> Some (Inl e, cl1)
     }"

section \<open>The running sum of deltas\<close>

type_synonym pending_delta = "((nat \<times> nat) \<times> int) list list"

definition pending_new :: "nat \<Rightarrow> pending_delta" where
  "pending_new ar = replicate ar []"

definition pending_cells :: "pending_delta \<Rightarrow> nat" where
  "pending_cells pend = sum_list (map length pend)"

definition pending_clear :: "pending_delta \<Rightarrow> pending_delta" where
  "pending_clear pend = map (\<lambda>_. []) pend"

text \<open>The range \<open>(row, 0)..=(row, u16::MAX)\<close> of a segment's map.\<close>

definition pending_row :: "pending_delta \<Rightarrow> nat \<Rightarrow> nat \<Rightarrow> (nat \<times> int) list option" where
  "pending_row pend seg row =
     do {
       m \<leftarrow> nth_opt pend seg;
       Some (map (\<lambda>((_, off), d). (off, d)) (filter (\<lambda>(k, _). (row, 0) \<le> k \<and> k \<le> (row, 2 ^ 16 - 1)) m))
     }"

definition push_cell :: "row_deltas \<Rightarrow> (nat \<times> nat) \<times> int \<Rightarrow> row_deltas" where
  "push_cell out x = (case x of ((row, off), delta) \<Rightarrow>
     if out \<noteq> [] \<and> fst (last out) = row then butlast out @ [(row, snd (last out) @ [(off, delta)])]
     else out @ [(row, [(off, delta)])])"

definition pending_as_row_deltas :: "pending_delta \<Rightarrow> nat \<Rightarrow> row_deltas option" where
  "pending_as_row_deltas pend seg = do { m \<leftarrow> nth_opt pend seg; Some (foldl push_cell [] m) }"

text \<open>One cell of \<open>merge\<close>; \<open>Inl\<close> is the early return \<open>false\<close>, with what was merged before it.\<close>

definition merge_cell :: "nat \<Rightarrow> nat \<Rightarrow> nat \<times> int \<Rightarrow> pending_delta \<Rightarrow> (pending_delta + pending_delta) option" where
  "merge_cell seg row cell pend = (case cell of (off, delta) \<Rightarrow> do {
     m \<leftarrow> nth_opt pend seg;
     case map_of m (row, off) of
       None \<Rightarrow> if delta \<noteq> 0 then map_option Inr (upd_opt pend seg (bt_insert (row, off) delta m)) else Some (Inr pend)
     | Some o' \<Rightarrow> (case checked_add_i64 o' delta of
           None \<Rightarrow> Some (Inl pend)
         | Some s \<Rightarrow>
             if s = 0 then map_option Inr (upd_opt pend seg (bt_remove (row, off) m))
             else map_option Inr (upd_opt pend seg (bt_insert (row, off) s m)))
   })"

definition pending_merge :: "row_deltas list \<Rightarrow> pending_delta \<Rightarrow> (pending_delta + pending_delta) option" where
  "pending_merge per_segment =
     fold_res (\<lambda>(seg, rows). fold_res (\<lambda>(row, cells). fold_res (merge_cell seg row) cells) rows)
       (enumerate 0 per_segment)"

section \<open>The rewinding client\<close>

record 'cs rewind_client =
  rw_params :: cuckoo_params
  rw_states :: "'cs list"
  rw_epoch :: nat
  rw_pending :: pending_delta
  rw_pin_epoch :: nat

definition rw_assemble ::
  "('sp \<Rightarrow> 'hint \<Rightarrow> 'cs option) \<Rightarrow> ('sp, 'hint) server_setup_bundle \<Rightarrow> 'cs rewind_client option" where
  "rw_assemble client_setup bundle =
     do {
       states \<leftarrow> setup_states client_setup bundle;
       Some \<lparr> rw_params = ss_params bundle, rw_states = states, rw_epoch = ss_epoch bundle,
         rw_pending = pending_new (cp_arity (ss_params bundle)), rw_pin_epoch = ss_epoch bundle \<rparr>
     }"

definition rw_from_setup ::
  "('cfg, 'sp, 'mat, 'hint, 'cs, 'q, 'r, 'g) backend \<Rightarrow> ('sp, 'hint) server_setup_bundle \<Rightarrow> 'cs rewind_client option" where
  "rw_from_setup B = rw_assemble (be_client_setup B)"

definition rw_reset_from ::
  "('cfg, 'sp, 'mat, 'hint, 'cs, 'q, 'r, 'g) backend \<Rightarrow> 'cs rewind_client \<Rightarrow> ('sp, 'hint) server_setup_bundle \<Rightarrow>
    'cs rewind_client option" where
  "rw_reset_from B cl bundle = rw_from_setup B bundle"

definition rw_pending_cells :: "'cs rewind_client \<Rightarrow> nat" where
  "rw_pending_cells cl = pending_cells (rw_pending cl)"

definition rw_build_query ::
  "('cfg, 'sp, 'mat, 'hint, 'cs, 'q, 'r, 'g) backend \<Rightarrow> (u8 list \<Rightarrow> u128) \<Rightarrow> 'cs rewind_client \<Rightarrow> u8 list \<Rightarrow> 'g \<Rightarrow>
    ('q pir_query_bundle \<times> 'cs rewind_client \<times> 'g) option" where
  "rw_build_query B xxh cl key g =
     do {
       (queries, states, g') \<leftarrow> build_queries B xxh (rw_params cl) (rw_states cl) key g;
       Some (\<lparr> pq_epoch = rw_epoch cl, pq_queries = queries \<rparr>, cl\<lparr> rw_states := states \<rparr>, g')
     }"

definition rw_precompute_queries ::
  "('cfg, 'sp, 'mat, 'hint, 'cs, 'q, 'r, 'g) backend \<Rightarrow> 'cs rewind_client \<Rightarrow> nat \<Rightarrow> 'g \<Rightarrow>
    ('cs rewind_client \<times> 'g) option" where
  "rw_precompute_queries B cl cnt g =
     do { (states, g') \<leftarrow> precompute_states B cnt (rw_states cl) g; Some (cl\<lparr> rw_states := states \<rparr>, g') }"

definition rw_precompute_decodes ::
  "('cfg, 'sp, 'mat, 'hint, 'cs, 'q, 'r, 'g) backend \<Rightarrow> 'cs rewind_client \<Rightarrow> 'cs rewind_client option" where
  "rw_precompute_decodes B cl =
     do { states \<leftarrow> precompute_decode_states B (rw_states cl); Some (cl\<lparr> rw_states := states \<rparr>) }"

definition rw_accumulate_delta ::
  "'cs rewind_client \<Rightarrow> hint_delta_bundle \<Rightarrow> ((client_error + unit) \<times> 'cs rewind_client) option" where
  "rw_accumulate_delta cl delta =
     do {
       expected \<leftarrow> checked_succ_u64 (rw_epoch cl);
       case check_delta expected (rw_params cl) delta of
         Some e \<Rightarrow> Some (Inl e, cl)
       | None \<Rightarrow> do {
           r \<leftarrow> pending_merge (hd_row_deltas delta) (rw_pending cl);
           Some (case r of
               Inl pend \<Rightarrow> (Inl MalformedBundle, cl\<lparr> rw_pending := pend \<rparr>)
             | Inr pend \<Rightarrow> (Inr (), cl\<lparr> rw_pending := pend, rw_epoch := hd_epoch delta \<rparr>))
         }
     }"

definition rw_collect_garbage ::
  "('cfg, 'sp, 'mat, 'hint, 'cs, 'q, 'r, 'g) backend \<Rightarrow> 'cs rewind_client \<Rightarrow> 'cs rewind_client option" where
  "rw_collect_garbage B cl =
     (if rw_pin_epoch cl = rw_epoch cl then Some cl
      else do {
        states \<leftarrow> build_opt (length (rw_states cl)) (\<lambda>j. do {
            st \<leftarrow> nth_opt (rw_states cl) j;
            row_deltas \<leftarrow> pending_as_row_deltas (rw_pending cl) j;
            if row_deltas = [] then Some st else be_client_patch_state B st row_deltas EntryLevel
          });
        Some (cl\<lparr> rw_states := states, rw_pin_epoch := rw_epoch cl, rw_pending := pending_clear (rw_pending cl) \<rparr>)
      })"

definition rw_try_accumulate_delta_or_resync ::
  "('cfg, 'sp, 'mat, 'hint, 'cs, 'q, 'r, 'g) backend \<Rightarrow> 'cs rewind_client \<Rightarrow> hint_delta_bundle \<Rightarrow>
    ('sp, 'hint) server_setup_bundle \<Rightarrow> ((client_error + delta_apply_outcome) \<times> 'cs rewind_client) option" where
  "rw_try_accumulate_delta_or_resync B cl delta fetched =
     do {
       (r, cl1) \<leftarrow> rw_accumulate_delta cl delta;
       case r of
         Inr _ \<Rightarrow> Some (Inr Synced, cl1)
       | Inl (FutureDelta _ _) \<Rightarrow> do { cl2 \<leftarrow> rw_reset_from B cl1 fetched; Some (Inr Resynced, cl2) }
       | Inl e \<Rightarrow> Some (Inl e, cl1)
     }"

text \<open>Step 3 of \<open>decode\<close>: add the pending deltas of the queried row, checking every cell.\<close>

definition fix_up_row ::
  "nat \<Rightarrow> nat \<Rightarrow> nat \<Rightarrow> (nat \<times> int) list \<Rightarrow> u32 list \<Rightarrow> (client_error + u32 list) option" where
  "fix_up_row pb j queried_row =
     fold_res (\<lambda>(off, d) cells.
       if length cells \<le> off then Some (Inl (CellOutOfRange j queried_row off))
       else do {
         c \<leftarrow> nth_opt cells off;
         let corrected_cell = uint c + d;
         if corrected_cell < 0 \<or> corrected_cell \<ge> 2 ^ pb then Some (Inl (CellOutOfRange j queried_row off))
         else map_option Inr (upd_opt cells off (word_of_int corrected_cell))
       })"

definition rw_decode ::
  "('cfg, 'sp, 'mat, 'hint, 'cs, 'q, 'r, 'g) backend \<Rightarrow> (u8 list \<Rightarrow> u128) \<Rightarrow> 'cs rewind_client \<Rightarrow> u8 list \<Rightarrow>
    'q pir_query_bundle \<Rightarrow> 'r pir_response_bundle \<Rightarrow> (client_error + u8 list option) option" where
  "rw_decode B xxh cl key query resp =
     (if pr_epoch resp \<noteq> rw_epoch cl then Some (Inl (EpochMismatch (rw_epoch cl) (pr_epoch resp)))
      else if pq_epoch query \<noteq> pr_epoch resp then Some (Inl MalformedBundle)
      else let p = rw_params cl in
      if length (pr_responses resp) \<noteq> cp_arity p \<or> length (pq_queries query) \<noteq> cp_arity p then Some (Inl MalformedBundle)
      else do {
        let (fp, indices) = candidate_buckets xxh p key;
        r \<leftarrow> fold_res (\<lambda>j s. do {
            rj \<leftarrow> nth_opt (pr_responses resp) j;
            st \<leftarrow> nth_opt (rw_states cl) j;
            qj \<leftarrow> nth_opt (pq_queries query) j;
            pend \<leftarrow> nth_opt (rw_pending cl) j;
            corrected \<leftarrow> be_rewind_response B st qj rj pend;
            cells \<leftarrow> be_client_decode B st corrected;
            if length cells \<noteq> cp_bucket_size p * cp_cells_per_slot p then Some (Inl MalformedBundle)
            else do {
              idx \<leftarrow> nth_opt indices j;
              assert_opt (0 < cp_segment_size p);
              let queried_row = unat idx mod cp_segment_size p;
              row_pend \<leftarrow> pending_row (rw_pending cl) j queried_row;
              fixed \<leftarrow> fix_up_row (cp_plaintext_bits p) j queried_row row_pend cells;
              case fixed of
                Inl e \<Rightarrow> Some (Inl e)
              | Inr cells' \<Rightarrow> map_option Inr (scan_row p fp cells' s)
            }
          }) [0..<cp_arity p] (replicate (cp_value_size_in_bytes p) 0, 0);
        Some (case r of Inl e \<Rightarrow> Inl e | Inr s \<Rightarrow> Inr (scan_result s))
      })"

end
