(* ===== verification/Simple_Reshape.thy ===== *)
theory Simple_Reshape
  imports Simple Frodo_Correct
begin

text \<open>
  The reshaping of the SimplePIR back end: what the hint loop, the two patch loops, the slot patch
  and the rewind do, in terms of the reshaped matrix and of row deltas moved to reshaped positions.
\<close>

section \<open>Positions\<close>

definition geometry :: "nat \<Rightarrow> nat \<Rightarrow> nat \<Rightarrow> nat \<Rightarrow> nat \<Rightarrow> bool" where
  "geometry n w k N W \<longleftrightarrow> 0 < n \<and> 0 < w \<and> 0 < k \<and> N = div_ceil n k \<and> W = k * w"

text \<open>Cell \<open>(I, J)\<close> of the reshaped matrix; the end of a short last row is zero.\<close>

definition reshaped :: "nat \<Rightarrow> nat \<Rightarrow> nat \<Rightarrow> u32 list \<Rightarrow> nat \<Rightarrow> nat \<Rightarrow> u32" where
  "reshaped n w k db I J = (if I * k + J div w < n then mcell w db (I * k + J div w) (J mod w) else 0)"

definition reshaped_deltas :: "nat \<Rightarrow> nat \<Rightarrow> row_deltas \<Rightarrow> row_deltas" where
  "reshaped_deltas w k rd =
     map (\<lambda>(row, cells). (row div k, map (\<lambda>(off, d). ((row mod k) * w + off, d)) cells)) rd"

lemma reshaped_deltas_simps [simp]:
  "reshaped_deltas w k [] = []"
  "reshaped_deltas w k ((row, cells) # rd) =
    (row div k, map (\<lambda>(off, d). ((row mod k) * w + off, d)) cells) # reshaped_deltas w k rd"
  "reshaped_deltas w k (rd @ rd') = reshaped_deltas w k rd @ reshaped_deltas w k rd'"
  by (simp_all add: reshaped_deltas_def)

lemma cell_position:
  fixes k :: nat
  assumes "0 < k" "J < k * w" "off < w"
  shows "row div k = I \<and> (row mod k) * w + off = J \<longleftrightarrow> row = I * k + J div w \<and> off = J mod w"
proof
  assume *: "row div k = I \<and> (row mod k) * w + off = J"
  moreover have quot: "(row mod k * w + off) div w = row mod k"
    using assms(3) by (intro div_nat_eqI) (simp_all add: mult.commute)
  moreover have "(row mod k * w + off) mod w = off"
    using quot div_mult_mod_eq [of "row mod k * w + off" w] by simp
  ultimately have "J div w = row mod k" "J mod w = off" by simp_all
  then show "row = I * k + J div w \<and> off = J mod w" using * by (metis div_mult_mod_eq)
next
  assume *: "row = I * k + J div w \<and> off = J mod w"
  have "J div w < k" using assms(2) by (simp add: less_mult_imp_div_less)
  then show "row div k = I \<and> (row mod k) * w + off = J" using * assms(1) by simp
qed

lemma reshaped_row:
  assumes "geometry n w k N W" "row < n"
  shows "row div k < N"
proof -
  have "row div k * k < n" using assms(2) div_times_less_eq_dividend [of row k] by linarith
  then show ?thesis using assms(1) by (simp add: geometry_def less_div_ceil_iff)
qed

lemma reshaped_col:
  assumes "geometry n w k N W" "off < w"
  shows "(row mod k) * w + off < W"
  using assms mult_add_less [of "row mod k" k off w] by (simp add: geometry_def)

lemma edits_ok_reshaped: "geometry n w k N W \<Longrightarrow> edits_ok n w rd \<Longrightarrow> edits_ok N W (reshaped_deltas w k rd)"
  by (fastforce simp: edits_ok_def reshaped_deltas_def intro: reshaped_row reshaped_col)

lemma cell_delta_reshaped:
  assumes "0 < k" "J < k * w" "\<forall>x \<in> set cells. fst x < w"
  shows "(if row div k = I then cell_delta (map (\<lambda>(off, d). ((row mod k) * w + off, d)) cells) J else 0) =
    (if row = I * k + J div w then cell_delta cells (J mod w) else 0)"
  using assms(3)
proof (induction cells)
  case (Cons x cells)
  obtain off d where x: "x = (off, d)" by (cases x)
  have "row div k = I \<and> (row mod k) * w + off = J \<longleftrightarrow> row = I * k + J div w \<and> off = J mod w"
    using cell_position [OF assms(1,2)] Cons.prems by (simp add: x)
  with Cons show ?case by (auto simp: x split: if_splits)
qed simp

lemma row_delta_reshaped:
  assumes "0 < k" "J < k * w" "edits_ok n w rd"
  shows "row_delta (reshaped_deltas w k rd) I J = row_delta rd (I * k + J div w) (J mod w)"
  using assms(3)
proof (induction rd)
  case (Cons x rd)
  obtain row cells where x: "x = (row, cells)" by (cases x)
  have "edits_ok n w rd" "\<forall>x \<in> set cells. fst x < w" using Cons.prems by (simp_all add: x)
  then show ?case
    unfolding x reshaped_deltas_simps row_delta_simps fst_conv snd_conv
      cell_delta_reshaped [OF assms(1,2) \<open>\<forall>x \<in> set cells. fst x < w\<close>] by (simp only: Cons.IH)
qed simp

lemma row_delta_outside: "edits_ok n w rd \<Longrightarrow> n \<le> r \<Longrightarrow> row_delta rd r c = 0"
  by (induction rd) (auto simp: edits_ok_def)

lemma edited_reshaped:
  assumes "geometry n w k N W" "edits_ok n w rd" "length db = n * w" "J < W"
  shows "edited (reshaped n w k db) (reshaped_deltas w k rd) I J = reshaped n w k (edit_db w db rd) I J"
proof -
  have "J mod w < w" using assms(1) by (simp add: geometry_def)
  then show ?thesis
    using assms row_delta_reshaped [of k J w n rd I]
    by (simp add: edited_def reshaped_def geometry_def mcell_edit_db row_delta_outside not_less)
qed

section \<open>The hint\<close>

theorem simple_compute_hint_total:
  assumes geo: "geometry n w k N W" and "length a = N * lwe" "length db = n * w"
  obtains h where "simple_compute_hint a db n w k lwe W = Some h" "hint_of N lwe W a (reshaped n w k db) h"
proof -
  define body where "body r h = do {
    a_row \<leftarrow> slice_opt a (r div k * lwe) lwe;
    d_row \<leftarrow> slice_opt db (r * w) w;
    for_hint_rows lwe W a_row (add_scaled (r mod k * w) d_row) h }" for r h
  define P where "P i h \<longleftrightarrow> hint_of N lwe W a (\<lambda>I J. if I * k + J div w < i then reshaped n w k db I J else 0) h" for i h
  have kw: "0 < k" "0 < w" "W = k * w" using geo by (simp_all add: geometry_def)
  have step: "\<exists>s'. body i s = Some s' \<and> P (Suc i) s'" if i: "i < n" and s: "P i s" for i s
  proof -
    obtain d_row where d: "slice_opt db (i * w) w = Some d_row" "length d_row = w"
      "\<forall>j < w. d_row ! j = mcell w db i j" using slice_row [OF assms(3) i] by blast
    have s1: "hint_of N lwe W a (\<lambda>I J. if I * k + J div w < i then reshaped n w k db I J else 0) s"
      using s by (simp add: P_def)
    have "i mod k * w + length d_row \<le> W"
      using reshaped_col [OF geo, of "w - 1" i] kw(2) by (simp add: d(2))
    note upd = adds_add_scaled [OF this]
    obtain a_row s' where s': "slice_opt a (i div k * lwe) lwe = Some a_row" "length a_row = lwe"
      "for_hint_rows lwe W a_row (add_scaled (i mod k * w) d_row) s = Some s'"
      "rank_one lwe W (\<lambda>r. mcell lwe a (i div k) r)
        (\<lambda>c. if i mod k * w \<le> c \<and> c < i mod k * w + length d_row then d_row ! (c - i mod k * w) else 0) s s'"
      by (rule update_row [OF assms(2) reshaped_row [OF geo i] upd hint_ofD(2) [OF s1]])
    have pos: "(I = i div k \<and> i mod k * w \<le> J \<and> J < i mod k * w + w) \<longleftrightarrow> I * k + J div w = i" if "J < W" for I J
    proof
      assume *: "I = i div k \<and> i mod k * w \<le> J \<and> J < i mod k * w + w"
      then have "J div w = i mod k" using div_nat_eqI [of w "i mod k" J] by (simp add: mult.commute)
      then show "I * k + J div w = i" using * by simp
    next
      assume *: "I * k + J div w = i"
      have "J div w < k" using that kw(3) by (simp add: less_mult_imp_div_less)
      then have "i div k = I" "i mod k = J div w" using * kw(1) by auto
      then show "I = i div k \<and> i mod k * w \<le> J \<and> J < i mod k * w + w"
        using kw(2) by (metis div_mult_mod_eq le_add1 mod_less_divisor nat_add_left_cancel_less)
    qed
    have "P (Suc i) s'" unfolding P_def
    proof (rule hint_of_cong [THEN iffD1, OF _ hint_of_rank_one [OF s1 reshaped_row [OF geo i] s'(4)]])
      fix I J assume "I < N" "J < W"
      show "(if I * k + J div w < i then reshaped n w k db I J else 0) + (if I = i div k
          then if i mod k * w \<le> J \<and> J < i mod k * w + length d_row then d_row ! (J - i mod k * w) else 0 else 0) =
        (if I * k + J div w < Suc i then reshaped n w k db I J else 0)"
      proof (cases "I * k + J div w = i")
        case True
        have "J div w < k" using \<open>J < W\<close> kw(3) by (simp add: less_mult_imp_div_less)
        then have "i mod k = J div w" using True kw(1) by auto
        then have "J - i mod k * w = J mod w" by (metis minus_div_mult_eq_mod)
        then show ?thesis
          using pos [OF \<open>J < W\<close>, of I] True d kw i by (simp add: reshaped_def)
      next
        case False
        then show ?thesis using pos [OF \<open>J < W\<close>, of I] d(2) by auto
      qed
    qed
    then show ?thesis using s'(1,3) d(1) by (simp add: body_def)
  qed
  have "P 0 (replicate (lwe * W) 0)" using hint_of_zero [OF assms(2)] by (simp add: P_def)
  then obtain h where h: "fold_opt body [0..<n] (replicate (lwe * W) 0) = Some h" "P n h"
    by (rule fold_opt_upt [where P = P and f = body, OF _ step])
  have "hint_of N lwe W a (reshaped n w k db) h"
    using h(2) unfolding P_def by (rule hint_of_cong [THEN iffD1, rotated]) (simp add: reshaped_def)
  moreover have "simple_compute_hint a db n w k lwe W = Some h"
    unfolding simple_compute_hint_def Let_def body_def [abs_def, symmetric] by (rule h(1))
  ultimately show ?thesis using that by blast
qed

section \<open>Entry-level patches and slot patches\<close>

lemma fold_opt_map: "fold_opt f (map g xs) s = fold_opt (\<lambda>x. f (g x)) xs s"
  by (induction xs arbitrary: s) simp_all

text \<open>Both loops work on the moved deltas as the FrodoPIR loops do.\<close>

lemma tr_rebuild_moved:
  assumes "0 < k" "\<forall>x \<in> set cells. fst x < w" "(row mod k + 1) * w \<le> W"
  shows "tr_rebuild cells (\<lambda>off. do { assert_opt (off < w); assert_opt (0 < k); Some (snd (translate_cell row off k w)) }) =
    tr_rebuild (map (\<lambda>(off, d). ((row mod k) * w + off, d)) cells) (\<lambda>off. do { assert_opt (off < W); Some off })"
proof -
  have "map (\<lambda>(off, delta). map_option (\<lambda>col. (col, word_of_int delta :: u32))
        (do { assert_opt (off < w); assert_opt (0 < k); Some (snd (translate_cell row off k w)) }))
        (filter (\<lambda>(_, delta). delta \<noteq> 0) cells) =
      map (\<lambda>(off, delta). map_option (\<lambda>col. (col, word_of_int delta)) (do { assert_opt (off < W); Some off }))
        (filter (\<lambda>(_, delta). delta \<noteq> 0) (map (\<lambda>(off, d). ((row mod k) * w + off, d)) cells))"
    using assms(2)
  proof (induction cells)
    case (Cons x cells)
    obtain off d where x: "x = (off, d)" by (cases x)
    have "off < w" using Cons.prems by (simp add: x)
    then have "row mod k * w + off < W" using assms(3) by simp
    with Cons \<open>off < w\<close> show ?case using assms(1) by (simp add: x translate_cell_def)
  qed simp
  then show ?thesis unfolding tr_rebuild_def by (rule arg_cong)
qed

lemma row_band: "geometry n w k N W \<Longrightarrow> (row mod k + 1) * w \<le> W"
  using mult_le_mono1 [of "row mod k + 1" k w] by (simp add: geometry_def Suc_le_eq)

lemma entry_level_moved:
  assumes geo: "geometry n w k N W" and "edits_ok n w rd"
  shows "simple_patch_entry_level a lwe n w k N W hint rd = frodo_patch_entry_level a lwe N W hint (reshaped_deltas w k rd)"
proof -
  have k: "0 < k" using geo by (simp add: geometry_def)
  have "(\<lambda>(row, cells) hint. do {
           assert_opt (row < n);
           touched \<leftarrow> tr_rebuild cells (\<lambda>off. do { assert_opt (off < w); assert_opt (0 < k); Some (snd (translate_cell row off k w)) });
           if tr_runs touched = [] then Some hint
           else do {
             assert_opt (0 < k);
             let reshape_row = fst (translate_cell row 0 k w);
             a_row \<leftarrow> slice_opt a (reshape_row * lwe) lwe;
             tr_apply touched a_row hint W
           } }) x hint =
      (\<lambda>(row, cells) hint. do {
           assert_opt (row < N);
           touched \<leftarrow> tr_rebuild cells (\<lambda>off. do { assert_opt (off < W); Some off });
           if tr_runs touched = [] then Some hint
           else do {
             a_row \<leftarrow> slice_opt a (row * lwe) lwe;
             tr_apply touched a_row hint W
           } }) ((\<lambda>(row, cells). (row div k, map (\<lambda>(off, d). ((row mod k) * w + off, d)) cells)) x) hint"
    if "x \<in> set rd" for x hint
  proof -
    obtain row cells where x: "x = (row, cells)" by (cases x)
    have "row < n" "\<forall>x \<in> set cells. fst x < w" using assms(2) that by (auto simp: edits_ok_def x)
    then show ?thesis
      using reshaped_row [OF geo \<open>row < n\<close>] tr_rebuild_moved [OF k _ row_band [OF geo], of cells row] k
      by (simp add: x translate_cell_def Let_def assert_opt_def cong: if_cong)
  qed
  then show ?thesis
    unfolding simple_patch_entry_level_def frodo_patch_entry_level_def reshaped_deltas_def fold_opt_map
    by (intro bind_option_cong refl fold_opt_cong)
qed

lemma patch_slot_c_moved:
  assumes "0 < k"
  shows "simple_patch_slot_c a lwe w k W rd slot = patch_slot_c a lwe W (reshaped_deltas w k rd) slot"
  using assms
  by (simp add: simple_patch_slot_c_def patch_slot_c_def reshaped_deltas_def fold_opt_map patch_c_cells_def
      translate_cell_def split_def Let_def cong: option.case_cong if_cong)

lemma rewind_moved:
  assumes "0 < srv_k (sc_params cs)"
  shows "simple_rewind_response cs q r ds =
    frodo_rewind_response fc q r (map (\<lambda>((row, off), d).
      ((row div srv_k (sc_params cs), (row mod srv_k (sc_params cs)) * srv_row_width (sc_params cs) + off), d)) ds)"
  using assms
  by (simp add: simple_rewind_response_def frodo_rewind_response_def fold_opt_map split_def Let_def)

lemma pointwise_moved:
  "pointwise (map (\<lambda>((row, off), d). ((row div k, (row mod k) * w + off), d)) ds) = reshaped_deltas w k (pointwise ds)"
  by (induction ds) (auto simp: pointwise_def)

section \<open>Row-level patches\<close>

text \<open>A run sums the moved deltas of its rows into the dense vector.\<close>

lemma dense_cells:
  assumes "length dense = W" "\<forall>x \<in> set cells. off0 + fst x < W \<and> fst x < w"
  obtains dense' where "fold_opt (\<lambda>(off, delta) dense. do {
      assert_opt (off < w); x \<leftarrow> nth_opt dense (off0 + off);
      upd_opt dense (off0 + off) (x + word_of_int delta) }) cells dense = Some dense'"
    "length dense' = W"
    "\<forall>c < W. dense' ! c = dense ! c + word_of_int (cell_delta (map (\<lambda>(off, d). (off0 + off, d)) cells) c)"
proof -
  have "\<exists>dense'. fold_opt (\<lambda>(off, delta) dense. do {
      assert_opt (off < w); x \<leftarrow> nth_opt dense (off0 + off);
      upd_opt dense (off0 + off) (x + word_of_int delta) }) cells dense = Some dense' \<and> length dense' = W \<and>
    (\<forall>c < W. dense' ! c = dense ! c + word_of_int (cell_delta (map (\<lambda>(off, d). (off0 + off, d)) cells) c))"
    using assms
  proof (induction cells arbitrary: dense)
    case (Cons x cells)
    obtain off d where x: "x = (off, d)" by (cases x)
    have off: "off < w" "off0 + off < W" using Cons.prems(2) by (simp_all add: x)
    let ?d1 = "dense[off0 + off := dense ! (off0 + off) + word_of_int d]"
    obtain dense' where "fold_opt (\<lambda>(off, delta) dense. do {
        assert_opt (off < w); x \<leftarrow> nth_opt dense (off0 + off);
        upd_opt dense (off0 + off) (x + word_of_int delta) }) cells ?d1 = Some dense'" "length dense' = W"
      "\<forall>c < W. dense' ! c = ?d1 ! c + word_of_int (cell_delta (map (\<lambda>(off, d). (off0 + off, d)) cells) c)"
      using Cons.IH [of ?d1] Cons.prems by auto
    then show ?case
      using off Cons.prems(1)
      by (intro exI [of _ dense']) (auto simp: x nth_list_update wi_hom_add [symmetric] add.assoc)
  qed simp
  then show ?thesis using that by blast
qed

lemma dense_run_spec:
  assumes geo: "geometry n w k N W"
  shows "edits_ok n w rd \<Longrightarrow> length dense = W \<Longrightarrow> \<exists>run rest dense'.
    dense_run n w k R rd dense = Some (rest, dense') \<and> rd = run @ rest \<and> (\<forall>x \<in> set run. fst x div k = R) \<and>
    length dense' = W \<and> (\<forall>c < W. dense' ! c = dense ! c + word_of_int (row_delta (reshaped_deltas w k run) R c)) \<and>
    (rd \<noteq> [] \<longrightarrow> fst (hd rd) div k = R \<longrightarrow> run \<noteq> [])"
proof (induction rd arbitrary: dense)
  case (Cons x rd)
  obtain row cells where x: "x = (row, cells)" by (cases x)
  show ?case
  proof (cases "row div k = R")
    case False
    then show ?thesis
      using Cons.prems(2) by (intro exI [of _ "[]"] exI [of _ "x # rd"] exI [of _ dense]) (auto simp: x)
  next
    case True
    have ok: "row < n" "\<forall>x \<in> set cells. fst x < w" "edits_ok n w rd" using Cons.prems(1) by (auto simp: x)
    then have "\<forall>x \<in> set cells. row mod k * w + fst x < W \<and> fst x < w" using reshaped_col [OF geo] by blast
    then obtain d1 where d1: "fold_opt (\<lambda>(off, delta) dense. do {
        assert_opt (off < w); x \<leftarrow> nth_opt dense (row mod k * w + off);
        upd_opt dense (row mod k * w + off) (x + word_of_int delta) }) cells dense = Some d1" "length d1 = W"
      "\<forall>c < W. d1 ! c = dense ! c + word_of_int (cell_delta (map (\<lambda>(off, d). (row mod k * w + off, d)) cells) c)"
      using dense_cells [OF Cons.prems(2)] by blast
    obtain run rest dense' where r: "dense_run n w k R rd d1 = Some (rest, dense')" "rd = run @ rest"
      "\<forall>x \<in> set run. fst x div k = R" "length dense' = W"
      "\<forall>c < W. dense' ! c = d1 ! c + word_of_int (row_delta (reshaped_deltas w k run) R c)"
      using Cons.IH [OF ok(3) d1(2)] by blast
    have "dense_run n w k R (x # rd) dense = Some (rest, dense')"
      using True ok(1) d1(1) r(1) by (simp add: x Let_def)
    then show ?thesis
      using r True d1(3)
      by (intro exI [of _ "x # run"] exI [of _ rest] exI [of _ dense'])
        (auto simp: x wi_hom_add [symmetric] add.assoc)
  qed
qed auto

definition touched_cols :: "nat \<Rightarrow> nat \<Rightarrow> row_deltas \<Rightarrow> nat set" where
  "touched_cols w k run = (\<Union>(row, cells) \<in> set run. (\<lambda>x. row mod k * w + fst x) ` set cells)"

lemma touched_cols_simps [simp]:
  "touched_cols w k [] = {}"
  "touched_cols w k ((row, cells) # run) = (\<lambda>x. row mod k * w + fst x) ` set cells \<union> touched_cols w k run"
  by (auto simp: touched_cols_def)

lemma row_delta_untouched: "c \<notin> touched_cols w k run \<Longrightarrow> row_delta (reshaped_deltas w k run) R c = 0"
proof (induction run)
  case (Cons x run)
  obtain row cells where x: "x = (row, cells)" by (cases x)
  have "cell_delta (map (\<lambda>(off, d). (row mod k * w + off, d)) cells) c = 0"
    by (rule cell_delta_absent) (use Cons.prems in \<open>force simp: x\<close>)
  then show ?case using Cons by (simp add: x)
qed simp

lemma clear_cells:
  assumes "length dense = W" "\<forall>x \<in> set cells. b + fst x < W"
  shows "\<exists>dense'. fold_opt (\<lambda>(off, _) dense. upd_opt dense (b + off) 0) cells dense = Some dense' \<and> length dense' = W \<and>
    (\<forall>c < W. dense' ! c = (if c \<in> (\<lambda>x. b + fst x) ` set cells then 0 else dense ! c))"
  using assms
proof (induction cells arbitrary: dense)
  case (Cons x cells)
  obtain off d where x: "x = (off, d)" by (cases x)
  have off: "b + off < length dense" using Cons.prems by (simp add: x)
  obtain dense' where "fold_opt (\<lambda>(off, _) dense. upd_opt dense (b + off) 0) cells (dense[b + off := 0]) = Some dense'"
    "length dense' = W"
    "\<forall>c < W. dense' ! c = (if c \<in> (\<lambda>x. b + fst x) ` set cells then 0 else dense[b + off := 0] ! c)"
    using Cons.IH [of "dense[b + off := 0]"] Cons.prems by auto
  then show ?case using off Cons.prems(1) by (intro exI [of _ dense']) (auto simp: x upd_opt_def nth_list_update)
qed simp

lemma clear_run_spec:
  assumes geo: "geometry n w k N W"
  shows "edits_ok n w run \<Longrightarrow> length dense = W \<Longrightarrow> \<exists>dense'. clear_run w k run dense = Some dense' \<and> length dense' = W \<and>
    (\<forall>c < W. dense' ! c = (if c \<in> touched_cols w k run then 0 else dense ! c))"
proof (induction run arbitrary: dense)
  case (Cons x run)
  obtain row cells where x: "x = (row, cells)" by (cases x)
  have "\<forall>x \<in> set cells. row mod k * w + fst x < W" using Cons.prems(1) reshaped_col [OF geo] by (auto simp: x)
  then obtain d1 where d1: "fold_opt (\<lambda>(off, _) dense. upd_opt dense (row mod k * w + off) 0) cells dense = Some d1"
    "length d1 = W" "\<forall>c < W. d1 ! c = (if c \<in> (\<lambda>x. row mod k * w + fst x) ` set cells then 0 else dense ! c)"
    using clear_cells [OF Cons.prems(2)] by blast
  obtain d2 where "clear_run w k run d1 = Some d2" "length d2 = W"
    "\<forall>c < W. d2 ! c = (if c \<in> touched_cols w k run then 0 else d1 ! c)"
    using Cons.IH [of d1] Cons.prems(1) d1(2) by (auto simp: x)
  then show ?case using d1 by (intro exI [of _ d2]) (auto simp: x clear_run_def)
qed (simp add: clear_run_def)

lemma row_delta_run:
  "\<forall>x \<in> set run. fst x div k = R \<Longrightarrow> I \<noteq> R \<Longrightarrow> row_delta (reshaped_deltas w k run) I c = 0"
  by (induction run) auto

lemma edited_append: "edited (edited D rd) rd' = edited D (rd @ rd')"
  by (simp add: edited_def fun_eq_iff wi_hom_add [symmetric] add.assoc)

theorem simple_row_runs_total:
  assumes geo: "geometry n w k N W"
  shows "edits_ok n w rd \<Longrightarrow> hint_of N lwe W a D h \<Longrightarrow>
    \<exists>h'. simple_row_runs a lwe n w k W rd (replicate W 0) h = Some h' \<and>
      hint_of N lwe W a (edited D (reshaped_deltas w k rd)) h'"
proof (induction "length rd" arbitrary: rd D h rule: less_induct)
  case less
  show ?case
  proof (cases rd)
    case Nil
    have "edited D [] = D" by (simp add: edited_def fun_eq_iff)
    then show ?thesis using less.prems(2) by (simp add: Nil)
  next
    case (Cons x rd')
    obtain row cells where x: "x = (row, cells)" by (cases x)
    let ?R = "row div k"
    have "length (replicate W (0 :: u32)) = W" by simp
    from dense_run_spec [OF geo less.prems(1) this, of ?R]
    obtain run rest dense1 where r: "dense_run n w k ?R rd (replicate W 0) = Some (rest, dense1)" "rd = run @ rest"
      "\<forall>x \<in> set run. fst x div k = ?R" "length dense1 = W"
      "\<forall>c < W. dense1 ! c = word_of_int (row_delta (reshaped_deltas w k run) ?R c)" "run \<noteq> []"
      by (auto simp: Cons x)
    have ok: "row < n" "edits_ok n w run" "edits_ok n w rest"
      using less.prems(1) by (simp add: Cons x) (use less.prems(1) in \<open>simp_all add: r(2)\<close>)
    have "adds W (\<lambda>c. word_of_int (row_delta (reshaped_deltas w k run) ?R c)) (add_scaled 0 dense1)"
      by (rule adds_cong [OF adds_full_row [OF r(4)]]) (use r(5) in simp)
    then obtain a_row h1 where h1: "slice_opt a (?R * lwe) lwe = Some a_row" "length a_row = lwe"
      "for_hint_rows lwe W a_row (add_scaled 0 dense1) h = Some h1"
      "rank_one lwe W (\<lambda>k. mcell lwe a ?R k) (\<lambda>c. word_of_int (row_delta (reshaped_deltas w k run) ?R c)) h h1"
      using update_row [OF hint_ofD(1) [OF less.prems(2)] reshaped_row [OF geo ok(1)] _ hint_ofD(2) [OF less.prems(2)]]
      by blast
    have hint1: "hint_of N lwe W a (edited D (reshaped_deltas w k run)) h1"
      by (rule hint_of_cong [THEN iffD1, OF _ hint_of_rank_one [OF less.prems(2) reshaped_row [OF geo ok(1)] h1(4)]])
        (use row_delta_run [OF r(3)] in \<open>auto simp: edited_def\<close>)
    obtain dense2 where d2: "clear_run w k run dense1 = Some dense2" "length dense2 = W"
      "\<forall>c < W. dense2 ! c = (if c \<in> touched_cols w k run then 0 else dense1 ! c)"
      using clear_run_spec [OF geo ok(2) r(4)] by blast
    have "dense2 ! c = 0" if "c < W" for c
      using d2(3) r(5) that row_delta_untouched [of c w k run ?R] by simp
    then have dense2: "dense2 = replicate W 0" using d2(2) by (intro nth_equalityI) simp_all
    have "length rest < length rd" using r(2,6) by simp
    then obtain h' where h': "simple_row_runs a lwe n w k W rest (replicate W 0) h1 = Some h'"
      "hint_of N lwe W a (edited (edited D (reshaped_deltas w k run)) (reshaped_deltas w k rest)) h'"
      using less.hyps [OF _ ok(3) hint1] by blast
    have run: "take (length rd - length rest) rd = run" by (simp add: r(2))
    have "simple_row_runs a lwe n w k W rd (replicate W 0) h = Some h'"
      using r(1) h1(1,3) d2(1) run h'(1) dense2 by (simp add: Cons x Let_def)
    then show ?thesis using h'(2) by (auto simp: r(2) edited_append)
  qed
qed

theorem simple_apply_patch_total:
  assumes geo: "geometry n w k N W" and "hint_of N lwe W a D h" "edits_ok n w rd"
  shows "\<exists>h'. simple_apply_patch a lwe n w k N W h rd mode = Some h' \<and>
    hint_of N lwe W a (edited D (reshaped_deltas w k rd)) h'"
proof (cases mode)
  case RowLevel
  have "0 < k" using geo by (simp add: geometry_def)
  then show ?thesis
    using simple_row_runs_total [OF geo assms(3,2)] hint_ofD(1,2) [OF assms(2)]
    by (auto simp: simple_apply_patch_def simple_patch_row_level_def RowLevel)
next
  case EntryLevel
  then show ?thesis
    using frodo_entry_level_patch [OF assms(2) edits_ok_reshaped [OF geo assms(3)]]
    by (auto simp: simple_apply_patch_def entry_level_moved [OF geo assms(3)])
qed

section \<open>Answers\<close>

text \<open>The cells of the whole rows, and of a short last row, in the reshaped matrix.\<close>

lemma mcell_whole_row:
  assumes geo: "geometry n w k N W" and "I < n div k" "J < W"
  shows "mcell W (take (n div k * W) db) I J = reshaped n w k db I J"
proof -
  have kw: "0 < k" "0 < w" "W = k * w" using geo by (simp_all add: geometry_def)
  have lt: "I * k + J div w < n"
  proof -
    have "J div w < k" using assms(3) kw(3) by (simp add: less_mult_imp_div_less)
    then have "I * k + J div w < n div k * k" using assms(2) by (rule mult_add_less [rotated])
    then show ?thesis using div_times_less_eq_dividend [of n k] by linarith
  qed
  have "I * W + J = (I * k + J div w) * w + J mod w"
    by (simp add: kw(3) add_mult_distrib mult.assoc)
  moreover have "I * W + J < n div k * W" using assms(2,3) by (rule mult_add_less)
  ultimately show ?thesis using lt by (simp add: mcell_def reshaped_def)
qed

lemma reshaped_last:
  assumes geo: "geometry n w k N W" and "J < W"
  shows "reshaped n w k db (n div k) J = (if J div w < n mod k then mcell w db (n div k * k + J div w) (J mod w) else 0)"
proof -
  have "n div k * k + J div w < n \<longleftrightarrow> J div w < n mod k" using div_mult_mod_eq [of n k] by linarith
  then show ?thesis by (simp add: reshaped_def)
qed

lemma simple_tail_total:
  assumes "length rows = m" "\<And>t. t < m \<Longrightarrow> length (rows ! t) = w" "m * w \<le> W" "length a = W" "0 < w" "m = 0 \<or> full < length q"
  obtains r where "simple_tail q full rows w a = Some r" "length r = W"
    "\<forall>J < W. r ! J = a ! J + (if J div w < m then q ! full * rows ! (J div w) ! (J mod w) else 0)"
proof -
  define body where "body t a = do { qi \<leftarrow> nth_opt q full; add_scaled (t * w) (rows ! t) qi a }" for t a
  define P where "P t r \<longleftrightarrow> length r = W \<and>
    (\<forall>J < W. r ! J = a ! J + (if J div w < t then q ! full * rows ! (J div w) ! (J mod w) else 0))" for t r
  have step: "\<exists>s'. body t s = Some s' \<and> P (Suc t) s'" if t: "t < m" and s: "P t s" for t s
  proof -
    have "(t + 1) * w \<le> m * w" using t by (intro mult_le_mono1) simp
    then have "t * w + length (rows ! t) \<le> length s" using assms(3) assms(2) [OF t] s by (simp add: P_def)
    then obtain s' where s': "add_scaled (t * w) (rows ! t) (q ! full) s = Some s'" "length s' = length s"
      "\<And>c. c < length s \<Longrightarrow> s' ! c = (if t * w \<le> c \<and> c < t * w + length (rows ! t)
        then s ! c + q ! full * rows ! t ! (c - t * w) else s ! c)"
      using add_scaled_nth by blast
    have "s' ! J = a ! J + (if J div w < Suc t then q ! full * rows ! (J div w) ! (J mod w) else 0)" if J: "J < W" for J
    proof (cases "t * w \<le> J \<and> J < t * w + w")
      case True
      then have dv: "J div w = t" by (intro div_nat_eqI) (simp_all add: mult.commute)
      then have "J - t * w = J mod w" by (metis minus_div_mult_eq_mod)
      then show ?thesis using s s'(3) [of J] J dv True assms(2) [OF t] by (simp add: P_def)
    next
      case False
      have "J div w \<noteq> t"
      proof
        assume "J div w = t"
        then have "t * w \<le> J" "J < t * w + w"
          using div_mult_mod_eq [of J w] mod_less_divisor [OF assms(5), of J] by auto
        with False show False by simp
      qed
      then show ?thesis using s s'(3) [of J] J False assms(2) [OF t] by (auto simp: P_def less_Suc_eq)
    qed
    then show ?thesis using s' s assms(6) t by (auto simp: body_def P_def)
  qed
  have "P 0 a" using assms(4) by (simp add: P_def)
  then obtain r where r: "fold_opt body [0..<m] a = Some r" "P m r"
    by (rule fold_opt_upt [where P = P and f = body, OF _ step])
  have "enumerate 0 rows = map (\<lambda>t. (t, rows ! t)) [0..<m]"
    by (rule nth_equalityI) (simp_all add: assms(1) nth_enumerate_eq)
  then have "simple_tail q full rows w a = fold_opt body [0..<m] a"
    by (simp add: simple_tail_def fold_opt_map body_def [abs_def])
  then show ?thesis using that r by (simp add: P_def)
qed

theorem simple_answer_total:
  assumes geo: "geometry n w k N W" and q: "length q = N" and db: "length db = n * w"
    and sp: "srv_n_rows sp = n" "srv_row_width sp = w" "srv_k sp = k" "srv_reshape_rows sp = N" "srv_reshape_row_width sp = W"
  obtains r where "simple_server_answer x86 sp db n w q = Some r" "length r = W"
    "\<forall>J < W. r ! J = (\<Sum>I<N. q ! I * reshaped n w k db I J)"
proof -
  let ?f = "n div k" and ?m = "n mod k"
  have kw: "0 < k" "0 < w" "W = k * w" "N = div_ceil n k" using geo by (simp_all add: geometry_def)
  have N: "N = ?f + (if ?m = 0 then 0 else 1)"
  proof -
    have "n = k * ?f + ?m" "?m < k" using kw(1) by simp_all
    then show ?thesis
      unfolding kw(4) div_ceil_def
      by (intro div_nat_eqI) (simp_all only: add_mult_distrib2 mult_Suc_right split: if_splits, linarith+)
  qed
  have fW: "?f * W = ?f * k * w" by (simp add: kw(3))
  have len: "n * w = ?f * W + ?m * w" unfolding fW add_mult_distrib [symmetric] by simp
  have d: "slice_opt db 0 (?f * W) = Some (take (?f * W) db)" using db len by (simp add: slice_opt_def)
  have q1: "slice_opt q 0 ?f = Some (take ?f q)" using q N by (simp add: slice_opt_def)
  have "length (take (?f * W) db) = length (take ?f q) * length (replicate W (0 :: u32))"
    using db len q N by simp
  from matvec_total [OF this, of x86]
  obtain a where a: "matvec_accumulate x86 (replicate W 0) (take (?f * W) db) (take ?f q) = Some a" "length a = W"
    "\<And>J. J < W \<Longrightarrow> a ! J = vecmat (take ?f q) W (take (?f * W) db) J" by auto
  let ?rows = "chunks_exact w (drop (?f * W) db)"
  have lr: "length ?rows = ?m" using kw(2) db len by (simp add: chunks_exact_length)
  have row: "?rows ! t = take w (drop ((?f * k + t) * w) db)" "length (?rows ! t) = w" if "t < ?m" for t
  proof -
    have "t < length (drop (?f * W) db) div w" using kw(2) db len that by simp
    then have *: "?rows ! t = take w (drop (t * w) (drop (?f * W) db))" by (rule chunks_exact_nth [OF kw(2)])
    have "(t + 1) * w \<le> ?m * w" using that by (intro mult_le_mono1) simp
    then show "length (?rows ! t) = w" using * db len by simp
    show "?rows ! t = take w (drop ((?f * k + t) * w) db)" using * by (simp add: fW add_mult_distrib add.commute)
  qed
  have mw: "?m * w \<le> W" using kw(1,3) mod_less_divisor [OF kw(1), of n] by (simp add: mult_le_mono1)
  have mq: "?m = 0 \<or> ?f < length q" using q N by simp
  obtain r where r: "simple_tail q ?f ?rows w a = Some r" "length r = W"
    "\<forall>J < W. r ! J = a ! J + (if J div w < ?m then q ! ?f * ?rows ! (J div w) ! (J mod w) else 0)"
    by (rule simple_tail_total [OF lr row(2) mw a(2) kw(2) mq])
  have "r ! J = (\<Sum>I<N. q ! I * reshaped n w k db I J)" if J: "J < W" for J
  proof -
    have whole: "a ! J = (\<Sum>I<?f. q ! I * reshaped n w k db I J)"
      using q N by (simp add: a(3) [OF J] vecmat_def mcell_whole_row [OF geo _ J])
    have last: "?rows ! (J div w) ! (J mod w) = mcell w db (?f * k + J div w) (J mod w)" if "J div w < ?m"
      using row [OF that] mod_less_divisor [OF kw(2), of J] by (simp add: mcell_def)
    show ?thesis
    proof (cases "?m = 0")
      case True
      then have "N = ?f" using N by simp
      then show ?thesis using r(3) J True whole by simp
    next
      case False
      then have "N = Suc ?f" using N by simp
      then show ?thesis using r(3) J whole last by (simp only: sum.lessThan_Suc reshaped_last [OF geo J]) simp
    qed
  qed
  moreover have "simple_server_answer x86 sp db n w q = Some r"
    using d q1 a(1) r(1) by (simp add: simple_server_answer_def Let_def q db sp kw(1,2))
  ultimately show ?thesis using that r(2) by blast
qed

end
