(* ===== verification/Simple_Correct.thy ===== *)
theory Simple_Correct
  imports Simple_Reshape
begin

text \<open>
  The SimplePIR back end meets the contract of \<^theory_text>\<open>Backend\<close>: the Gaussian rejection sampler returns
  bounded errors, a query decodes to the queried row of the original segment through the reshaped
  matrix, and setup, patches, precomputation and rewind keep the hint of the reshaped database.
\<close>

section \<open>The Gaussian sampler\<close>

text \<open>The words at this point of the stream are accepted: a candidate, and a unit draw below its
  weight.\<close>

definition accepting :: "('g \<Rightarrow> u64 \<times> 'g) \<Rightarrow> (nat \<Rightarrow> u64 \<Rightarrow> bool) \<Rightarrow> u64 \<Rightarrow> u64 \<Rightarrow> 'g \<Rightarrow> bool" where
  "accepting next_u64 accept base zone g \<longleftrightarrow> (case next_u64 g of (u, g1) \<Rightarrow>
     u < zone \<and> accept (unat (u mod base)) (drop_bit 11 (fst (next_u64 g1))))"

text \<open>From every state, somewhere ahead, the words are accepted at two consecutive points; so they are
  whether the rejections before take one word or two.\<close>

definition gauss_productive :: "'sg float_ops \<Rightarrow> ('g \<Rightarrow> u64 \<times> 'g) \<Rightarrow> 'sg \<Rightarrow> bool" where
  "gauss_productive fo next_u64 sigma \<longleftrightarrow>
     (let base = word_of_nat (fo_tail_cut fo sigma) + 1; zone = - 1 - (- 1 mod base);
          ok = accepting next_u64 (fo_accept fo sigma) base zone
      in \<forall>g. \<exists>n. ok (((snd \<circ> next_u64) ^^ n) g) \<and> ok (((snd \<circ> next_u64) ^^ Suc n) g))"

lemma draw_magnitude_step:
  "draw_magnitude next_u64 accept base zone g =
     (case next_u64 g of (u, g1) \<Rightarrow>
        if u < zone then
          (case next_u64 g1 of (v, g2) \<Rightarrow>
             if accept (unat (u mod base)) (drop_bit 11 v) then Some (unat (u mod base), g2)
             else draw_magnitude next_u64 accept base zone g2)
        else draw_magnitude next_u64 accept base zone g1)"
proof (cases "next_u64 g")
  case (Pair u g1)
  show ?thesis
  proof (cases "u < zone")
    case True
    then show ?thesis
      by (subst draw_magnitude.simps, subst draw_candidate.simps) (simp add: Pair split: prod.split)
  next
    case False
    have "draw_magnitude next_u64 accept base zone g = draw_magnitude next_u64 accept base zone g1"
      by (subst (1 2) draw_magnitude.simps, subst draw_candidate.simps) (simp add: Pair False)
    then show ?thesis by (simp add: Pair False)
  qed
qed

lemma draw_magnitude_total:
  assumes "base \<noteq> 0"
  shows "accepting next_u64 accept base zone (((snd \<circ> next_u64) ^^ n) g) \<Longrightarrow>
    accepting next_u64 accept base zone (((snd \<circ> next_u64) ^^ Suc n) g) \<Longrightarrow>
    \<exists>m g'. draw_magnitude next_u64 accept base zone g = Some (m, g') \<and> m < unat base"
proof (induction n arbitrary: g rule: less_induct)
  case (less n)
  obtain u g1 where u: "next_u64 g = (u, g1)" by (cases "next_u64 g")
  obtain v g2 where v: "next_u64 g1 = (v, g2)" by (cases "next_u64 g1")
  have bound: "unat (u mod base) < unat base" using assms by (simp add: unat_mod_distrib unat_gt_0)
  have shift: "((snd \<circ> next_u64) ^^ Suc j) g = ((snd \<circ> next_u64) ^^ j) g1" for j
    by (simp add: funpow_Suc_right u del: funpow.simps)
  have shift2: "((snd \<circ> next_u64) ^^ Suc j) g1 = ((snd \<circ> next_u64) ^^ j) g2" for j
    by (simp add: funpow_Suc_right v del: funpow.simps)
  show ?case
  proof (cases "u < zone \<and> accept (unat (u mod base)) (drop_bit 11 v)")
    case True
    then show ?thesis using bound by (subst draw_magnitude_step) (simp add: u v)
  next
    case rejected: False
    have "n \<noteq> 0"
    proof
      assume "n = 0"
      then have "accepting next_u64 accept base zone g" using less.prems(1) by simp
      with rejected show False by (simp add: accepting_def u v)
    qed
    then obtain n1 where n1: "n = Suc n1" by (cases n) simp_all
    have one: "accepting next_u64 accept base zone (((snd \<circ> next_u64) ^^ n1) g1)"
      "accepting next_u64 accept base zone (((snd \<circ> next_u64) ^^ Suc n1) g1)"
      using less.prems unfolding n1 shift by simp_all
    show ?thesis
    proof (cases "u < zone")
      case False
      have "\<exists>m g'. draw_magnitude next_u64 accept base zone g1 = Some (m, g') \<and> m < unat base"
        by (rule less.IH [OF _ one]) (simp add: n1)
      then show ?thesis using False by (subst draw_magnitude_step) (simp add: u)
    next
      case True
      then have rej: "\<not> accept (unat (u mod base)) (drop_bit 11 v)" using rejected by simp
      have "\<exists>m g'. draw_magnitude next_u64 accept base zone g2 = Some (m, g') \<and> m < unat base"
      proof (cases n1)
        case 0
        then have "accepting next_u64 accept base zone g2" using one(2) by (simp add: v)
        then show ?thesis
        proof -
          assume a: "accepting next_u64 accept base zone g2"
          obtain x g3 where x: "next_u64 g2 = (x, g3)" by (cases "next_u64 g2")
          obtain y g4 where y: "next_u64 g3 = (y, g4)" by (cases "next_u64 g3")
          have "unat (x mod base) < unat base" using assms by (simp add: unat_mod_distrib unat_gt_0)
          then show ?thesis using a by (subst draw_magnitude_step) (simp add: accepting_def x y)
        qed
      next
        case (Suc n2)
        show ?thesis
        proof (rule less.IH [of n2])
          show "n2 < n" by (simp add: n1 Suc)
          show "accepting next_u64 accept base zone (((snd \<circ> next_u64) ^^ n2) g2)"
            using one(1) unfolding Suc shift2 .
          show "accepting next_u64 accept base zone (((snd \<circ> next_u64) ^^ Suc n2) g2)"
            using one(2) unfolding Suc shift2 .
        qed
      qed
      then show ?thesis using True rej by (subst draw_magnitude_step) (simp add: u v)
    qed
  qed
qed

lemma gaussian_cell_total:
  assumes "\<exists>m g'. draw_magnitude next_u64 accept base zone g = Some (m, g') \<and> m < unat base"
    and "unat base = t + 1" "t < 2 ^ 31"
  shows "\<exists>x g'. gaussian_cell next_u64 accept base zone g = Some (x, g') \<and> \<bar>sint x\<bar> \<le> int t"
proof -
  obtain m g1 where m: "draw_magnitude next_u64 accept base zone g = Some (m, g1)" "m \<le> t" using assms(1,2) by auto
  obtain u g2 where u: "next_u64 g1 = (u, g2)" by (cases "next_u64 g1")
  have lt: "m < 2 ^ 31" using m(2) assms(3) by simp
  then have un: "unat (word_of_nat m :: u32) = m" by (simp add: unsigned_of_nat take_bit_nat_eq_self)
  have "unat (push_bit 31 1 :: u32) = 2 ^ 31" by (simp add: push_bit_eq_mult)
  then have ne: "(word_of_nat m :: u32) \<noteq> push_bit 31 1" using un lt by (metis less_irrefl)
  have signed: "sint (word_of_int k :: u32) = k" if "- (2 ^ 31) \<le> k" "k < 2 ^ 31" for k
    using that by (simp add: signed_of_int signed_take_bit_int_eq_self)
  have bounds: "- (2 ^ 31) \<le> int m" "int m < 2 ^ 31" "- (2 ^ 31) \<le> - int m" "- int m < 2 ^ 31"
    using lt by simp_all
  have "sint (word_of_nat m :: u32) = int m" "sint (- word_of_nat m :: u32) = - int m"
    using signed [OF bounds(1,2)] signed [OF bounds(3,4)] by (simp_all add: wi_hom_neg [symmetric] del: of_nat_numeral)
  then show ?thesis using m u ne by (cases "odd u") (auto simp: gaussian_cell_def)
qed

lemma fold_opt_gaussian:
  assumes "\<And>g. \<exists>x g'. f g = Some (x, g') \<and> Q x"
  shows "\<exists>cells g'. fold_opt (\<lambda>_ (cells, g). do { (x, g') \<leftarrow> f g; Some (cells @ [x], g') }) [0..<len] (acc, g) =
    Some (acc @ cells, g') \<and> length cells = len \<and> (\<forall>x \<in> set cells. Q x)"
proof (induction len)
  case (Suc len)
  then obtain cells g1 where *: "fold_opt (\<lambda>_ (cells, g). do { (x, g') \<leftarrow> f g; Some (cells @ [x], g') }) [0..<len] (acc, g) =
    Some (acc @ cells, g1)" "length cells = len" "\<forall>x \<in> set cells. Q x" by blast
  obtain x g2 where "f g1 = Some (x, g2)" "Q x" using assms by blast
  then show ?case using * by (intro exI [of _ "cells @ [x]"] exI [of _ g2]) (auto simp: fold_opt_append)
qed simp

theorem sample_discrete_gaussian_total:
  assumes "gauss_productive fo next_u64 sigma" "fo_sigma_ok fo sigma" "fo_tail_cut fo sigma < 2 ^ 31"
  obtains e g' where "sample_discrete_gaussian_into fo next_u64 g sigma len = Some (e, g')" "length e = len"
    "\<forall>x \<in> set e. \<bar>sint x\<bar> \<le> int (fo_tail_cut fo sigma)"
proof -
  let ?t = "fo_tail_cut fo sigma"
  let ?base = "word_of_nat ?t + 1 :: u64"
  let ?zone = "- 1 - (- 1 mod ?base)"
  have small: "?t + 1 < 2 ^ 64" using assms(3) by simp
  moreover have "?base = word_of_nat (Suc ?t)" by simp
  ultimately have base: "unat ?base = ?t + 1"
    by (simp only: unsigned_of_nat) (simp add: take_bit_nat_eq_self)
  then have "?base \<noteq> 0" by (metis Suc_eq_plus1 nat.distinct(1) unsigned_0)
  have ok: "\<exists>n. accepting next_u64 (fo_accept fo sigma) ?base ?zone (((snd \<circ> next_u64) ^^ n) g) \<and>
    accepting next_u64 (fo_accept fo sigma) ?base ?zone (((snd \<circ> next_u64) ^^ Suc n) g)" for g
    using assms(1) by (auto simp: gauss_productive_def Let_def simp del: funpow.simps)
  have "\<exists>x g'. gaussian_cell next_u64 (fo_accept fo sigma) ?base ?zone g = Some (x, g') \<and> \<bar>sint x\<bar> \<le> int ?t" for g
  proof (rule gaussian_cell_total [OF _ base assms(3)])
    obtain n where n: "accepting next_u64 (fo_accept fo sigma) ?base ?zone (((snd \<circ> next_u64) ^^ n) g)"
      "accepting next_u64 (fo_accept fo sigma) ?base ?zone (((snd \<circ> next_u64) ^^ Suc n) g)" using ok by blast
    show "\<exists>m g'. draw_magnitude next_u64 (fo_accept fo sigma) ?base ?zone g = Some (m, g') \<and> m < unat ?base"
      by (rule draw_magnitude_total [OF \<open>?base \<noteq> 0\<close> n])
  qed
  from fold_opt_gaussian [where f = "gaussian_cell next_u64 (fo_accept fo sigma) ?base ?zone" and g = g and len = len and Q = "\<lambda>x. \<bar>sint x\<bar> \<le> int ?t" and acc = "[]", OF this] obtain e g' where
    e: "fold_opt (\<lambda>_ (cells, g). do { (x, g') \<leftarrow> gaussian_cell next_u64 (fo_accept fo sigma) ?base ?zone g;
      Some (cells @ [x], g') }) [0..<len] ([], g) = Some (e, g')" "length e = len" "\<forall>x \<in> set e. \<bar>sint x\<bar> \<le> int ?t" by auto
  have "sample_discrete_gaussian_into fo next_u64 g sigma len = Some (e, g')"
    using e(1,2) assms(2) small by (cases len) (simp_all add: sample_discrete_gaussian_into_def Let_def)
  then show ?thesis using that e(2,3) by blast
qed

lemma sample_uniform_length: "length (fst (sample_uniform_zq_into next_u32 g len)) = len"
proof -
  have "length (fst (fold (\<lambda>_ (cells, g). case next_u32 g of (x, g') \<Rightarrow> (cells @ [x], g')) xs (cs, g))) =
      length cs + length xs" for xs :: "nat list" and cs
    by (induction xs arbitrary: cs g) (simp_all split: prod.split)
  then show ?thesis by (simp add: sample_uniform_zq_into_def)
qed

section \<open>The predicates of the contract\<close>

definition simple_mat :: "(u8 list \<Rightarrow> nat \<Rightarrow> u32) \<Rightarrow> 'sg simple_server_params \<Rightarrow> u32 list" where
  "simple_mat chacha sp =
     map (rng_from_seed chacha (sp_seed (srv_params sp))) [0..<srv_reshape_rows sp * sp_lwe_dim (srv_params sp)]"

definition simple_sp_ok :: "'sg float_ops \<Rightarrow> 'sg \<Rightarrow> 'sg simple_server_params \<Rightarrow> nat \<Rightarrow> nat \<Rightarrow> nat \<Rightarrow> bool" where
  "simple_sp_ok fo sg sp n w pb \<longleftrightarrow> srv_n_rows sp = n \<and> srv_row_width sp = w \<and> sp_plaintext_bits (srv_params sp) = pb \<and>
     geometry n w (srv_k sp) (srv_reshape_rows sp) (srv_reshape_row_width sp) \<and> 1 \<le> pb \<and> pb \<le> 31 \<and>
     srv_reshape_rows sp * sp_lwe_dim (srv_params sp) < 2 ^ 64 \<and> fo_rows_per_row fo n w = srv_k sp \<and>
     sp_sigma (srv_params sp) = sg \<and> fo_sigma_ok fo sg \<and> fo_tail_cut fo sg < 2 ^ 31"

text \<open>What setup needs of the configuration; the last condition keeps \<open>as i32\<close> exact.\<close>

definition simple_cfg_ok :: "'sg float_ops \<Rightarrow> 'sg \<Rightarrow> 'sg simple_config \<Rightarrow> nat \<Rightarrow> nat \<Rightarrow> nat \<Rightarrow> bool" where
  "simple_cfg_ok fo sg cfg n w pb \<longleftrightarrow> 0 < n \<and> 0 < w \<and> 1 \<le> pb \<and> pb \<le> 31 \<and> 0 < scf_lwe_dim cfg \<and>
     0 < fo_rows_per_row fo n w \<and> fo_rows_per_row fo n w * w < 2 ^ 32 \<and>
     div_ceil n (fo_rows_per_row fo n w) * scf_lwe_dim cfg < 2 ^ 64 \<and>
     scf_sigma cfg = sg \<and> fo_sigma_ok fo sg \<and> fo_tail_cut fo sg < 2 ^ 31"

definition simple_mat_ok :: "(u8 list \<Rightarrow> nat \<Rightarrow> u32) \<Rightarrow> 'sg simple_server_params \<Rightarrow> u32 list \<Rightarrow> bool" where
  "simple_mat_ok chacha sp mat \<longleftrightarrow> mat = simple_mat chacha sp"

definition simple_db :: "'sg simple_server_params \<Rightarrow> u32 list \<Rightarrow> nat \<Rightarrow> nat \<Rightarrow> u32" where
  "simple_db sp db = reshaped (srv_n_rows sp) (srv_row_width sp) (srv_k sp) db"

definition simple_hint_ok :: "(u8 list \<Rightarrow> nat \<Rightarrow> u32) \<Rightarrow> 'sg simple_server_params \<Rightarrow> u32 list \<Rightarrow> u32 list \<Rightarrow> bool" where
  "simple_hint_ok chacha sp db h \<longleftrightarrow> length db = srv_n_rows sp * srv_row_width sp \<and>
     hint_of (srv_reshape_rows sp) (sp_lwe_dim (srv_params sp)) (srv_reshape_row_width sp) (simple_mat chacha sp) (simple_db sp db) h"

definition simple_slot_ok ::
  "'sg float_ops \<Rightarrow> (u8 list \<Rightarrow> nat \<Rightarrow> u32) \<Rightarrow> 'sg simple_server_params \<Rightarrow> u32 list \<Rightarrow> prepared_slot \<Rightarrow> bool" where
  "simple_slot_ok fo chacha sp h slot \<longleftrightarrow>
     slot_ok (srv_reshape_rows sp) (sp_lwe_dim (srv_params sp)) (srv_reshape_row_width sp)
       (fo_tail_cut fo (sp_sigma (srv_params sp))) (simple_mat chacha sp) h slot"

definition simple_cs_ok ::
  "'sg float_ops \<Rightarrow> (u8 list \<Rightarrow> nat \<Rightarrow> u32) \<Rightarrow> 'sg simple_server_params \<Rightarrow> u32 list \<Rightarrow> 'sg simple_client \<Rightarrow> bool" where
  "simple_cs_ok fo chacha sp db cs \<longleftrightarrow> sc_params cs = sp \<and> simple_mat_ok chacha sp (sc_hint_material cs) \<and>
     simple_hint_ok chacha sp db (sc_hint cs) \<and>
     (\<forall>slot \<in> set (sc_prepared cs) \<union> if_slot ` set_option (sc_in_flight cs). simple_slot_ok fo chacha sp (sc_hint cs) slot)"

definition simple_asked :: "'sg simple_server_params \<Rightarrow> 'sg simple_client \<Rightarrow> u32 list \<Rightarrow> nat \<Rightarrow> bool" where
  "simple_asked sp cs q row \<longleftrightarrow> length q = srv_reshape_rows sp \<and> row < srv_n_rows sp \<and>
     (\<exists>i. sc_in_flight cs = Some i \<and> if_bucket_within i = row mod srv_k sp \<and>
       (\<forall>I < srv_reshape_rows sp. q ! I = ps_b (if_slot i) ! I +
          (if I = row div srv_k sp then word_of_int (2 ^ (32 - sp_plaintext_bits (srv_params sp))) else 0)))"

definition simple_answered :: "'sg simple_server_params \<Rightarrow> u32 list \<Rightarrow> u32 list \<Rightarrow> u32 list \<Rightarrow> bool" where
  "simple_answered sp db q r \<longleftrightarrow> length q = srv_reshape_rows sp \<and> length r = srv_reshape_row_width sp \<and>
     (\<forall>J < srv_reshape_row_width sp. r ! J = (\<Sum>I < srv_reshape_rows sp. q ! I * simple_db sp db I J))"

definition simple_quiet :: "'sg float_ops \<Rightarrow> 'sg simple_server_params \<Rightarrow> u32 list \<Rightarrow> 'sg simple_client \<Rightarrow> bool" where
  "simple_quiet fo sp db cs \<longleftrightarrow> (\<exists>i e. sc_in_flight cs = Some i \<and>
     lwe_slot (srv_reshape_rows sp) (sp_lwe_dim (srv_params sp)) (fo_tail_cut fo (sp_sigma (srv_params sp)))
       (sc_hint_material cs) e (if_slot i) \<and>
     (\<forall>J < srv_reshape_row_width sp. \<bar>noise (srv_reshape_rows sp) e (simple_db sp db) J\<bar> <
        2 ^ (31 - sp_plaintext_bits (srv_params sp))))"

definition simple_worst_case :: "'sg float_ops \<Rightarrow> 'sg simple_server_params \<Rightarrow> bool" where
  "simple_worst_case fo sp \<longleftrightarrow>
     noise_ok (srv_reshape_rows sp) (fo_tail_cut fo (sp_sigma (srv_params sp))) (sp_plaintext_bits (srv_params sp))"

lemmas simple_preds = simple_mat_ok_def simple_hint_ok_def simple_slot_ok_def simple_cs_ok_def

lemma simple_mat_length: "length (simple_mat chacha sp) = srv_reshape_rows sp * sp_lwe_dim (srv_params sp)"
  by (simp add: simple_mat_def)

lemma simple_expand_ok:
  "simple_sp_ok fo sg sp n w pb \<Longrightarrow> simple_expand_hint_material chacha sp = Some (simple_mat chacha sp)"
  by (auto simp: simple_sp_ok_def simple_expand_hint_material_def sample_a_def simple_mat_def)

lemma simple_setup_ok:
  assumes "simple_cfg_ok fo sg cfg n w pb" "length db = n * w"
  shows "\<exists>sp mat h g'. simple_server_setup fo chacha fill cfg db n w pb g = Some ((sp, mat, h), g') \<and>
    simple_sp_ok fo sg sp n w pb \<and> simple_mat_ok chacha sp mat \<and> simple_hint_ok chacha sp db h"
proof -
  obtain seed g' where fill: "fill 16 g = (seed, g')" by (cases "fill 16 g")
  let ?k = "fo_rows_per_row fo n w" and ?lwe = "scf_lwe_dim cfg"
  let ?N = "div_ceil n ?k" and ?W = "?k * w"
  let ?sp = "\<lparr> srv_params = \<lparr> sp_lwe_dim = ?lwe, sp_plaintext_bits = pb, sp_sigma = scf_sigma cfg, sp_seed = seed \<rparr>,
    srv_n_rows = n, srv_row_width = w, srv_k = ?k, srv_reshape_rows = ?N, srv_reshape_row_width = ?W \<rparr>"
  have geo: "geometry n w ?k ?N ?W" using assms(1) by (simp add: geometry_def simple_cfg_ok_def)
  have sp: "simple_sp_ok fo sg ?sp n w pb" using assms(1) geo by (simp add: simple_sp_ok_def simple_cfg_ok_def)
  have len: "length (simple_mat chacha ?sp) = ?N * ?lwe" by (simp add: simple_mat_length)
  obtain h where h: "simple_compute_hint (simple_mat chacha ?sp) db n w ?k ?lwe ?W = Some h"
    "hint_of ?N ?lwe ?W (simple_mat chacha ?sp) (reshaped n w ?k db) h"
    using simple_compute_hint_total [OF geo len assms(2)] by blast
  have "sample_a chacha seed ?N ?lwe = Some (simple_mat chacha ?sp)"
    using simple_expand_ok [OF sp, of chacha] by (simp add: simple_expand_hint_material_def)
  then have "simple_server_setup fo chacha fill cfg db n w pb g = Some ((?sp, simple_mat chacha ?sp, h), g')"
    using assms h(1)
    by (simp add: simple_server_setup_def simple_params_new_def simple_cfg_ok_def reshape_dims_def fill Let_def)
  then show ?thesis using sp h(2) assms(2) by (fastforce simp: simple_preds simple_db_def)
qed

section \<open>Slots and queries\<close>

lemma simple_sample_slot_ok:
  assumes "simple_sp_ok fo sg sp n w pb" "gauss_productive fo next_u64 sg"
  obtains slot g' where "simple_sample_slot fo next_u32 next_u64 sp (simple_mat chacha sp) g = Some (slot, g')"
    "simple_slot_ok fo chacha sp h slot"
proof -
  let ?l = "sp_lwe_dim (srv_params sp)" and ?a = "simple_mat chacha sp" and ?N = "srv_reshape_rows sp"
  let ?t = "fo_tail_cut fo (sp_sigma (srv_params sp))"
  have wid: "fo_sigma_ok fo (sp_sigma (srv_params sp))" "?t < 2 ^ 31" using assms(1) by (simp_all add: simple_sp_ok_def)
  obtain s g1 where s: "sample_uniform_zq_into next_u32 g ?l = (s, g1)" "length s = ?l"
    using sample_uniform_length [of next_u32 g ?l] by (cases "sample_uniform_zq_into next_u32 g ?l") simp
  have "gauss_productive fo next_u64 (sp_sigma (srv_params sp))" using assms by (simp add: simple_sp_ok_def)
  then obtain e g2 where e: "sample_discrete_gaussian_into fo next_u64 g1 (sp_sigma (srv_params sp)) ?N = Some (e, g2)"
    "length e = ?N" "\<forall>x \<in> set e. \<bar>sint x\<bar> \<le> int ?t"
    using sample_discrete_gaussian_total [of fo next_u64 "sp_sigma (srv_params sp)" g1 ?N] wid by metis
  obtain b where b: "lwe_samples ?a ?l s e = Some b" "length b = ?N"
    "\<And>i. i < ?N \<Longrightarrow> b ! i = e ! i + (\<Sum>k<?l. mcell ?l ?a i k * s ! k)"
    using lwe_samples_total [OF simple_mat_length s(2) e(2)] by blast
  let ?slot = "\<lparr> ps_secret = s, ps_b = b, ps_c = None \<rparr>"
  have "lwe_slot ?N ?l ?t ?a (\<lambda>i. sint (e ! i)) ?slot"
    using s(2) b(2,3) e(2,3) by (simp add: lwe_slot_def)
  then have "simple_slot_ok fo chacha sp h ?slot" by (auto simp: simple_slot_ok_def slot_ok_def c_current_def)
  moreover have "simple_sample_slot fo next_u32 next_u64 sp ?a g = Some (?slot, g2)"
    using s(1) e(1) b(1) by (simp add: simple_sample_slot_def Let_def)
  ultimately show ?thesis using that by blast
qed

lemma simple_query_ok:
  assumes sp: "simple_sp_ok fo sg sp n w pb" and cs: "simple_cs_ok fo chacha sp db cs" and "gauss_productive fo next_u64 sg" "row < n"
  shows "\<exists>q cs' g'. simple_client_query fo next_u32 next_u64 cs row g = Some (q, cs', g') \<and>
    simple_cs_ok fo chacha sp db cs' \<and> simple_asked sp cs' q row"
proof -
  let ?N = "srv_reshape_rows sp" and ?k = "srv_k sp"
  have spd: "srv_n_rows sp = n" "sp_plaintext_bits (srv_params sp) = pb" "1 \<le> pb" "pb \<le> 31"
    "geometry n w ?k ?N (srv_reshape_row_width sp)"
    using sp by (simp_all add: simple_sp_ok_def)
  have csd: "sc_params cs = sp" "sc_hint_material cs = simple_mat chacha sp"
    "\<And>slot. slot \<in> set (sc_prepared cs) \<Longrightarrow> simple_slot_ok fo chacha sp (sc_hint cs) slot"
    using cs by (simp_all add: simple_cs_ok_def simple_mat_ok_def)
  obtain slot prepared g' where take: "(case sc_prepared cs of s # ss \<Rightarrow> Some (s, ss, g)
      | [] \<Rightarrow> do { (s, g') \<leftarrow> simple_sample_slot fo next_u32 next_u64 sp (sc_hint_material cs) g; Some (s, [], g') }) =
      Some (slot, prepared, g')"
    and slot: "simple_slot_ok fo chacha sp (sc_hint cs) slot" and prep: "set prepared \<subseteq> set (sc_prepared cs)"
  proof (cases "sc_prepared cs")
    case Nil
    obtain s g1 where "simple_sample_slot fo next_u32 next_u64 sp (simple_mat chacha sp) g = Some (s, g1)"
      "simple_slot_ok fo chacha sp (sc_hint cs) s"
      using simple_sample_slot_ok [OF sp assms(3), of next_u32 chacha g "sc_hint cs"] by blast
    then show ?thesis by (intro that [of s "[]" g1]) (simp_all add: Nil csd(2))
  next
    case (Cons s ss)
    then have "simple_slot_ok fo chacha sp (sc_hint cs) s" using csd(3) [of s] by simp
    then show ?thesis by (intro that [of s ss g]) (auto simp: Cons)
  qed
  have len: "length (ps_b slot) = ?N" using slot by (auto simp: simple_slot_ok_def slot_ok_def lwe_slot_def)
  have R: "row div ?k < ?N" by (rule reshaped_row [OF spd(5) assms(4)])
  let ?q = "(ps_b slot)[row div ?k := ps_b slot ! (row div ?k) + word_of_int (2 ^ (32 - pb))]"
  let ?cs = "cs\<lparr> sc_prepared := prepared, sc_in_flight := Some \<lparr> if_slot = slot, if_bucket_within = row mod ?k \<rparr> \<rparr>"
  have "simple_client_query fo next_u32 next_u64 cs row g = Some (?q, ?cs, g')"
    unfolding simple_client_query_def Let_def csd(1) take
    using assms(4) len R round_p_to_q_1 [OF spd(3,4)] by (simp add: spd)
  moreover have "simple_cs_ok fo chacha sp db ?cs"
    using cs slot prep by (auto simp: simple_cs_ok_def)
  moreover have "simple_asked sp ?cs ?q row"
    using assms(4) len by (auto simp: simple_asked_def spd nth_list_update)
  ultimately show ?thesis by blast
qed

lemma simple_answer_ok:
  assumes "simple_sp_ok fo sg sp n w pb" "simple_asked sp cs q row" "length db = n * w"
  shows "\<exists>r. simple_server_answer x86 sp db n w q = Some r \<and> simple_answered sp db q r"
proof -
  have spd: "srv_n_rows sp = n" "srv_row_width sp = w" "geometry n w (srv_k sp) (srv_reshape_rows sp) (srv_reshape_row_width sp)"
    using assms(1) by (simp_all add: simple_sp_ok_def)
  have q: "length q = srv_reshape_rows sp" using assms(2) by (simp add: simple_asked_def)
  obtain r where "simple_server_answer x86 sp db n w q = Some r" "length r = srv_reshape_row_width sp"
    "\<forall>J < srv_reshape_row_width sp. r ! J = (\<Sum>I < srv_reshape_rows sp. q ! I * reshaped n w (srv_k sp) db I J)"
    by (rule simple_answer_total [OF spd(3) q assms(3) spd(1,2) refl refl refl])
  then show ?thesis using q by (simp add: simple_answered_def simple_db_def spd(1,2))
qed

section \<open>Decoding\<close>

lemma round_cells_slice:
  assumes "round_cells r pb = Some cs" "b + w \<le> length r"
  shows "\<exists>s. slice_opt r b w = Some s \<and> round_cells s pb = Some (take w (drop b cs))"
  using assms by (auto simp: round_cells_def slice_opt_def those_eq_Some_iff)

text \<open>The columns of one original row, in its reshaped row.\<close>

lemma reshaped_slice:
  assumes geo: "geometry n w k N W" and "row < n"
  shows "take w (drop (row mod k * w) (map (reshaped n w k db (row div k)) [0..<W])) = db_row w db row"
proof (rule nth_equalityI)
  have kw: "0 < w" "0 < k" "W = k * w" using geo by (simp_all add: geometry_def)
  have band: "row mod k * w + w \<le> W" using row_band [OF geo, of row] by simp
  then show "length (take w (drop (row mod k * w) (map (reshaped n w k db (row div k)) [0..<W]))) = length (db_row w db row)"
    by (simp add: db_row_def)
  fix j assume "j < length (take w (drop (row mod k * w) (map (reshaped n w k db (row div k)) [0..<W])))"
  then have j: "j < w" by simp
  have "row mod k * w + j < k * w" using band j kw(3) by simp
  from cell_position [OF kw(2) this j, of row "row div k"]
  have "row = row div k * k + (row mod k * w + j) div w" "j = (row mod k * w + j) mod w" by blast+
  then show "take w (drop (row mod k * w) (map (reshaped n w k db (row div k)) [0..<W])) ! j = db_row w db row ! j"
    using j band assms(2) by (simp add: db_row_def reshaped_def)
qed

lemma reshaped_fits:
  assumes geo: "geometry n w k N W" and "list_all (fits pb) db" "length db = n * w"
  shows "fits pb (reshaped n w k db I J)"
proof -
  have "J mod w < w" using geo by (simp add: geometry_def)
  then show ?thesis
    using assms(2,3) mult_add_less [of "I * k + J div w" n "J mod w" w]
    by (auto simp: reshaped_def mcell_def list_all_length fits_def)
qed

lemma simple_decode_ok:
  assumes "simple_sp_ok fo sg sp n w pb" "simple_cs_ok fo chacha sp db cs" "simple_asked sp cs q row" "row < n"
    and "simple_answered sp db q r" "simple_quiet fo sp db cs" "list_all (fits pb) db"
  shows "simple_client_decode x86 cs r = Some (db_row w db row)"
proof -
  let ?N = "srv_reshape_rows sp" and ?W = "srv_reshape_row_width sp" and ?k = "srv_k sp"
  let ?l = "sp_lwe_dim (srv_params sp)" and ?a = "simple_mat chacha sp" and ?t = "fo_tail_cut fo (sp_sigma (srv_params sp))"
  have spd: "srv_n_rows sp = n" "srv_row_width sp = w" "sp_plaintext_bits (srv_params sp) = pb" "1 \<le> pb" "pb \<le> 31"
    "geometry n w ?k ?N ?W"
    using assms(1) by (simp_all add: simple_sp_ok_def)
  have D: "simple_db sp db = reshaped n w ?k db" by (simp add: simple_db_def spd)
  have csd: "sc_params cs = sp" "sc_hint_material cs = ?a" "length db = n * w"
    "hint_of ?N ?l ?W ?a (simple_db sp db) (sc_hint cs)"
    using assms(2) by (simp_all add: simple_preds spd)
  obtain i e where i: "sc_in_flight cs = Some i" "lwe_slot ?N ?l ?t ?a e (if_slot i)"
    "\<And>J. J < ?W \<Longrightarrow> \<bar>noise ?N e (simple_db sp db) J\<bar> < 2 ^ (31 - pb)"
    using assms(6) by (auto simp: simple_quiet_def spd csd(2))
  have bw: "if_bucket_within i = row mod ?k" using assms(3) i(1) by (simp add: simple_asked_def)
  have c: "c_current ?W (sc_hint cs) (if_slot i)"
    using assms(2) i(1) by (simp add: simple_cs_ok_def simple_slot_ok_def slot_ok_def)
  have q: "q ! I = ps_b (if_slot i) ! I + (if I = row div ?k then word_of_int (2 ^ (32 - pb)) else 0)" if "I < ?N" for I
    using assms(3) i(1) that by (simp add: simple_asked_def spd)
  have r: "length r = ?W" "\<And>J. J < ?W \<Longrightarrow> r ! J = (\<Sum>I < ?N. q ! I * simple_db sp db I J)"
    using assms(5) by (simp_all add: simple_answered_def)
  have fit: "fits pb (simple_db sp db (row div ?k) J)" for J
    unfolding D by (rule reshaped_fits [OF spd(6) assms(7) csd(3)])
  obtain res where res: "slot_residual x86 (sc_hint cs) (if_slot i) r = Some res"
    "round_cells res pb = Some (map (simple_db sp db (row div ?k)) [0..<?W])"
    by (rule lwe_decode [OF i(2) c csd(4) q r reshaped_row [OF spd(6) assms(4)] spd(4,5) fit i(3), of x86])
  then have "length res = ?W" by (auto simp: round_cells_def those_eq_Some_iff)
  then obtain s where "slice_opt res (row mod ?k * w) w = Some s"
    "round_cells s pb = Some (db_row w db row)"
    using round_cells_slice [OF res(2), of "row mod ?k * w" w] row_band [OF spd(6), of row]
      reshaped_slice [OF spd(6) assms(4), of db] by (auto simp: D)
  then show ?thesis
    using i(1) r(1) res(1) bw row_band [OF spd(6), of row] by (simp add: simple_client_decode_def csd(1) spd Let_def)
qed

lemma simple_worst_case_quiet:
  assumes "simple_sp_ok fo sg sp n w pb" "simple_cs_ok fo chacha sp db cs" "simple_asked sp cs q row"
    and "list_all (fits pb) db" "simple_worst_case fo sp"
  shows "simple_quiet fo sp db cs"
proof -
  let ?N = "srv_reshape_rows sp" and ?t = "fo_tail_cut fo (sp_sigma (srv_params sp))"
  have spd: "srv_n_rows sp = n" "srv_row_width sp = w" "sp_plaintext_bits (srv_params sp) = pb" "pb < 32"
    "geometry n w (srv_k sp) ?N (srv_reshape_row_width sp)"
    using assms(1) by (simp_all add: simple_sp_ok_def)
  obtain i where i: "sc_in_flight cs = Some i" using assms(3) by (auto simp: simple_asked_def)
  then have "simple_slot_ok fo chacha sp (sc_hint cs) (if_slot i)" using assms(2) by (simp add: simple_cs_ok_def)
  then obtain e where e: "lwe_slot ?N (sp_lwe_dim (srv_params sp)) ?t (simple_mat chacha sp) e (if_slot i)"
    by (auto simp: simple_slot_ok_def slot_ok_def)
  have len: "length db = n * w" using assms(2) by (simp add: simple_preds spd)
  have "\<bar>noise ?N e (simple_db sp db) J\<bar> < 2 ^ (31 - pb)" for J
  proof -
    have "\<bar>noise ?N e (simple_db sp db) J\<bar> \<le> int (?N * (?t * (2 ^ pb - 1)))"
    proof (rule noise_bound [OF _ _ spd(4)])
      fix I assume "I < ?N"
      then show "\<bar>e I\<bar> \<le> int ?t" using e by (simp add: lwe_slot_def)
      show "fits pb (simple_db sp db I J)"
        unfolding simple_db_def spd(1,2) by (rule reshaped_fits [OF spd(5) assms(4) len])
    qed
    also have "\<dots> < int (2 ^ (31 - pb))"
      using assms(5) unfolding simple_worst_case_def noise_ok_def spd by (simp only: of_nat_less_iff)
    finally show ?thesis by simp
  qed
  moreover have "sc_hint_material cs = simple_mat chacha sp"
    using assms(2) by (simp add: simple_cs_ok_def simple_mat_ok_def)
  ultimately show ?thesis using i e by (auto simp: simple_quiet_def spd)
qed

section \<open>Patches\<close>

lemma simple_hint_edit:
  assumes "simple_sp_ok fo sg sp n w pb" "simple_hint_ok chacha sp db h" "edits_ok n w rd"
  shows "hint_of (srv_reshape_rows sp) (sp_lwe_dim (srv_params sp)) (srv_reshape_row_width sp) (simple_mat chacha sp)
      (edited (simple_db sp db) (reshaped_deltas w (srv_k sp) rd)) h' \<longleftrightarrow> simple_hint_ok chacha sp (edit_db w db rd) h'"
proof -
  have spd: "srv_n_rows sp = n" "srv_row_width sp = w"
    "geometry n w (srv_k sp) (srv_reshape_rows sp) (srv_reshape_row_width sp)" using assms(1) by (simp_all add: simple_sp_ok_def)
  have len: "length db = n * w" using assms(2) by (simp add: simple_hint_ok_def spd)
  have "hint_of (srv_reshape_rows sp) (sp_lwe_dim (srv_params sp)) (srv_reshape_row_width sp) (simple_mat chacha sp)
      (edited (simple_db sp db) (reshaped_deltas w (srv_k sp) rd)) h' \<longleftrightarrow>
    hint_of (srv_reshape_rows sp) (sp_lwe_dim (srv_params sp)) (srv_reshape_row_width sp) (simple_mat chacha sp)
      (simple_db sp (edit_db w db rd)) h'"
    by (rule hint_of_cong) (simp add: simple_db_def spd(1,2) edited_reshaped [OF spd(3) assms(3) len])
  then show ?thesis using len by (simp add: simple_hint_ok_def spd)
qed

lemma simple_patch_hint_ok:
  assumes "simple_sp_ok fo sg sp n w pb" "simple_mat_ok chacha sp mat" "simple_hint_ok chacha sp db h" "edits_ok n w rd"
  shows "\<exists>h'. simple_server_patch_hint sp mat h rd mode = Some h' \<and> simple_hint_ok chacha sp (edit_db w db rd) h'"
proof -
  have spd: "srv_n_rows sp = n" "srv_row_width sp = w"
    "geometry n w (srv_k sp) (srv_reshape_rows sp) (srv_reshape_row_width sp)" using assms(1) by (simp_all add: simple_sp_ok_def)
  have "hint_of (srv_reshape_rows sp) (sp_lwe_dim (srv_params sp)) (srv_reshape_row_width sp) mat (simple_db sp db) h"
    using assms(2,3) by (simp add: simple_preds)
  from simple_apply_patch_total [OF spd(3) this assms(4), of mode] show ?thesis
    using simple_hint_edit [OF assms(1,3,4)] assms(2) by (auto simp: simple_server_patch_hint_def spd simple_mat_ok_def)
qed

lemma map_slots_within_total:
  assumes "\<And>s. s \<in> set prepared \<union> if_slot ` set_option in_flight \<Longrightarrow> \<exists>s'. f s = Some s' \<and> P s' \<and> ps_b s' = ps_b s"
  obtains prepared' in_flight' where "map_slots_within f prepared in_flight = Some (prepared', in_flight')"
    "\<forall>s \<in> set prepared' \<union> if_slot ` set_option in_flight'. P s"
    "map_option (\<lambda>i. (ps_b (if_slot i), if_bucket_within i)) in_flight' =
      map_option (\<lambda>i. (ps_b (if_slot i), if_bucket_within i)) in_flight"
proof -
  have "\<exists>ps. those (map f prepared) = Some ps \<and> (\<forall>s \<in> set ps. P s)"
    using assms by (induction prepared) fastforce+
  then obtain ps where ps: "those (map f prepared) = Some ps" "\<forall>s \<in> set ps. P s" by blast
  show ?thesis
  proof (cases in_flight)
    case None
    then show ?thesis using that [of ps None] ps by (simp add: map_slots_within_def)
  next
    case (Some i)
    then obtain s' where "f (if_slot i) = Some s'" "P s'" "ps_b s' = ps_b (if_slot i)" using assms [of "if_slot i"] by auto
    then show ?thesis using that [of ps "Some (i\<lparr> if_slot := s' \<rparr>)"] ps Some by (auto simp: map_slots_within_def)
  qed
qed

lemma simple_asked_cong:
  "simple_asked sp cs q row \<Longrightarrow> map_option (\<lambda>i. (ps_b (if_slot i), if_bucket_within i)) (sc_in_flight cs') =
      map_option (\<lambda>i. (ps_b (if_slot i), if_bucket_within i)) (sc_in_flight cs) \<Longrightarrow>
    simple_asked sp cs' q row"
  by (auto simp: simple_asked_def map_option_eq_Some)

lemma simple_patch_state_ok:
  assumes "simple_sp_ok fo sg sp n w pb" "simple_cs_ok fo chacha sp db cs" "edits_ok n w rd"
  shows "\<exists>cs'. simple_client_patch_state cs rd mode = Some cs' \<and> simple_cs_ok fo chacha sp (edit_db w db rd) cs' \<and>
    (\<forall>q row. simple_asked sp cs q row \<longrightarrow> simple_asked sp cs' q row)"
proof -
  let ?l = "sp_lwe_dim (srv_params sp)" and ?a = "simple_mat chacha sp" and ?k = "srv_k sp"
  let ?N = "srv_reshape_rows sp" and ?W = "srv_reshape_row_width sp" and ?t = "fo_tail_cut fo (sp_sigma (srv_params sp))"
  let ?rd = "reshaped_deltas w ?k rd"
  have spd: "srv_n_rows sp = n" "srv_row_width sp = w" "geometry n w ?k ?N ?W"
    using assms(1) by (simp_all add: simple_sp_ok_def)
  have k: "0 < ?k" using spd(3) by (simp add: geometry_def)
  have csd: "sc_params cs = sp" "sc_hint_material cs = ?a" "simple_hint_ok chacha sp db (sc_hint cs)"
    "\<And>slot. slot \<in> set (sc_prepared cs) \<union> if_slot ` set_option (sc_in_flight cs) \<Longrightarrow> slot_ok ?N ?l ?W ?t ?a (sc_hint cs) slot"
    using assms(2) by (auto simp: simple_cs_ok_def simple_mat_ok_def simple_slot_ok_def)
  have h: "hint_of ?N ?l ?W ?a (simple_db sp db) (sc_hint cs)" using csd(3) by (simp add: simple_hint_ok_def)
  obtain h' where h': "simple_apply_patch ?a ?l n w ?k ?N ?W (sc_hint cs) rd mode = Some h'"
    "hint_of ?N ?l ?W ?a (edited (simple_db sp db) ?rd) h'"
    using simple_apply_patch_total [OF spd(3) h assms(3)] by blast
  have step: "\<exists>s'. simple_patch_slot_c ?a ?l w ?k ?W rd s = Some s' \<and> slot_ok ?N ?l ?W ?t ?a h' s' \<and> ps_b s' = ps_b s"
    if "s \<in> set (sc_prepared cs) \<union> if_slot ` set_option (sc_in_flight cs)" for s
    using patch_slot_c_current [OF h h'(2) edits_ok_reshaped [OF spd(3) assms(3)] csd(4) [OF that]]
    unfolding patch_slot_c_moved [OF k] by blast
  obtain ps fl where slots: "map_slots_within (simple_patch_slot_c ?a ?l w ?k ?W rd) (sc_prepared cs) (sc_in_flight cs) = Some (ps, fl)"
    "\<forall>s \<in> set ps \<union> if_slot ` set_option fl. slot_ok ?N ?l ?W ?t ?a h' s"
    "map_option (\<lambda>i. (ps_b (if_slot i), if_bucket_within i)) fl =
      map_option (\<lambda>i. (ps_b (if_slot i), if_bucket_within i)) (sc_in_flight cs)"
    using map_slots_within_total [where P = "slot_ok ?N ?l ?W ?t ?a h'", OF step] by blast
  let ?cs = "cs\<lparr> sc_hint := h', sc_prepared := ps, sc_in_flight := fl \<rparr>"
  have "simple_client_patch_state cs rd mode = Some ?cs"
    using h'(1) slots(1) by (simp add: simple_client_patch_state_def csd(1,2) spd Let_def)
  moreover have "simple_cs_ok fo chacha sp (edit_db w db rd) ?cs"
    using slots(2) csd(1,2) h'(2) simple_hint_edit [OF assms(1) csd(3) assms(3)]
    by (simp add: simple_cs_ok_def simple_mat_ok_def simple_slot_ok_def)
  moreover have "\<forall>q row. simple_asked sp cs q row \<longrightarrow> simple_asked sp ?cs q row"
    using simple_asked_cong [of sp cs _ _ ?cs] slots(3) by simp
  ultimately show ?thesis by blast
qed

section \<open>Precomputation and rewind\<close>

lemma simple_precompute_queries_ok:
  assumes "simple_sp_ok fo sg sp n w pb" "simple_cs_ok fo chacha sp db cs" "gauss_productive fo next_u64 sg"
  shows "\<exists>cs' g'. simple_precompute_queries fo next_u32 next_u64 cs m g = Some (cs', g') \<and> simple_cs_ok fo chacha sp db cs' \<and>
    (\<forall>q row. simple_asked sp cs q row \<longrightarrow> simple_asked sp cs' q row)"
  using assms(2)
proof (induction m arbitrary: cs g)
  case (Suc m)
  have csd: "sc_params cs = sp" "sc_hint_material cs = simple_mat chacha sp"
    using Suc.prems by (simp_all add: simple_cs_ok_def simple_mat_ok_def)
  obtain slot g1 where slot: "simple_sample_slot fo next_u32 next_u64 sp (simple_mat chacha sp) g = Some (slot, g1)"
    "simple_slot_ok fo chacha sp (sc_hint cs) slot"
    using simple_sample_slot_ok [OF assms(1,3), of next_u32 chacha g "sc_hint cs"] by blast
  let ?cs = "cs\<lparr> sc_prepared := sc_prepared cs @ [slot] \<rparr>"
  have "simple_cs_ok fo chacha sp db ?cs" using Suc.prems slot(2) by (auto simp: simple_cs_ok_def)
  from Suc.IH [OF this, of g1] show ?case
    using slot(1) simple_asked_cong [of sp cs _ _ ?cs] by (auto simp: csd)
qed simp

lemma simple_precompute_decodes_ok:
  assumes "simple_sp_ok fo sg sp n w pb" "simple_cs_ok fo chacha sp db cs"
  shows "\<exists>cs'. simple_precompute_decodes x86 cs = Some cs' \<and> simple_cs_ok fo chacha sp db cs' \<and>
    (\<forall>q row. simple_asked sp cs q row \<longrightarrow> simple_asked sp cs' q row)"
proof -
  let ?l = "sp_lwe_dim (srv_params sp)" and ?a = "simple_mat chacha sp"
  let ?N = "srv_reshape_rows sp" and ?W = "srv_reshape_row_width sp" and ?t = "fo_tail_cut fo (sp_sigma (srv_params sp))"
  have csd: "sc_params cs = sp" "length (sc_hint cs) = ?l * ?W"
    "\<And>slot. slot \<in> set (sc_prepared cs) \<union> if_slot ` set_option (sc_in_flight cs) \<Longrightarrow> slot_ok ?N ?l ?W ?t ?a (sc_hint cs) slot"
    using assms(2) by (auto simp: simple_cs_ok_def simple_hint_ok_def simple_slot_ok_def hint_ofD(2))
  have step: "\<exists>s'. fill_c x86 (sc_hint cs) ?l ?W s = Some s' \<and> slot_ok ?N ?l ?W ?t ?a (sc_hint cs) s' \<and> ps_b s' = ps_b s"
    if "s \<in> set (sc_prepared cs) \<union> if_slot ` set_option (sc_in_flight cs)" for s
    using fill_c_ok [OF csd(3) [OF that] csd(2)] by metis
  obtain ps fl where slots: "map_slots_within (fill_c x86 (sc_hint cs) ?l ?W) (sc_prepared cs) (sc_in_flight cs) = Some (ps, fl)"
    "\<forall>s \<in> set ps \<union> if_slot ` set_option fl. slot_ok ?N ?l ?W ?t ?a (sc_hint cs) s"
    "map_option (\<lambda>i. (ps_b (if_slot i), if_bucket_within i)) fl =
      map_option (\<lambda>i. (ps_b (if_slot i), if_bucket_within i)) (sc_in_flight cs)"
    using map_slots_within_total [where P = "slot_ok ?N ?l ?W ?t ?a (sc_hint cs)", OF step] by blast
  let ?cs = "cs\<lparr> sc_prepared := ps, sc_in_flight := fl \<rparr>"
  have "simple_precompute_decodes x86 cs = Some ?cs"
    using slots(1) by (simp add: simple_precompute_decodes_def csd(1) Let_def)
  moreover have "simple_cs_ok fo chacha sp db ?cs"
    using assms(2) slots(2) by (simp add: simple_cs_ok_def simple_slot_ok_def)
  moreover have "\<forall>q row. simple_asked sp cs q row \<longrightarrow> simple_asked sp ?cs q row"
    using simple_asked_cong [of sp cs _ _ ?cs] slots(3) by simp
  ultimately show ?thesis by blast
qed

lemma simple_rewind_ok:
  assumes "simple_sp_ok fo sg sp n w pb" "sc_params cs = sp" "edits_ok n w (pointwise ds)"
    and "simple_answered sp (edit_db w db (pointwise ds)) q r" "length db = n * w"
  shows "\<exists>r'. simple_rewind_response cs q r ds = Some r' \<and> simple_answered sp db q r'"
proof -
  let ?N = "srv_reshape_rows sp" and ?W = "srv_reshape_row_width sp" and ?k = "srv_k sp"
  let ?ds = "map (\<lambda>((row, off), d). ((row div ?k, (row mod ?k) * w + off), d)) ds"
  have spd: "srv_n_rows sp = n" "srv_row_width sp = w" "geometry n w ?k ?N ?W"
    using assms(1) by (simp_all add: simple_sp_ok_def)
  have k: "0 < ?k" using spd(3) by (simp add: geometry_def)
  have pw: "pointwise ?ds = reshaped_deltas w ?k (pointwise ds)" by (rule pointwise_moved)
  have "edits_ok ?N ?W (pointwise ?ds)" unfolding pw by (rule edits_ok_reshaped [OF spd(3) assms(3)])
  then have ds: "\<forall>x \<in> set ?ds. fst (fst x) < ?N \<and> snd (fst x) < ?W" by (simp only: edits_ok_pointwise)
  have r: "length q = ?N" "length r = ?W"
    "\<And>J. J < ?W \<Longrightarrow> r ! J = (\<Sum>I < ?N. q ! I * simple_db sp (edit_db w db (pointwise ds)) I J)"
    using assms(4) by (simp_all add: simple_answered_def)
  have "\<forall>x \<in> set ?ds. fst (fst x) < length q \<and> snd (fst x) < length r" using ds by (simp only: r(1,2))
  then obtain r' where r': "frodo_rewind_response (undefined :: frodo_client) q r ?ds = Some r'" "length r' = length r"
    "\<forall>J < length r. r' ! J = r ! J - (\<Sum>(p, d) \<leftarrow> ?ds. if snd p = J then q ! fst p * word_of_int d else 0)"
    by (rule rewind_cells)
  have "r' ! J = (\<Sum>I < ?N. q ! I * simple_db sp db I J)" if J: "J < ?W" for J
  proof -
    have "r ! J = (\<Sum>I < ?N. q ! I * (simple_db sp db I J + word_of_int (row_delta (pointwise ?ds) I J)))"
      using J by (simp add: r(3) simple_db_def spd(1,2) edited_reshaped [OF spd(3) assms(3,5), symmetric] edited_def pw)
    also have "\<dots> = (\<Sum>I < ?N. q ! I * simple_db sp db I J) +
        (\<Sum>(p, d) \<leftarrow> ?ds. if snd p = J then q ! fst p * word_of_int d else 0)"
      by (rule answer_edits) (use ds in blast)
    finally show ?thesis using r'(3) J r(2) by (simp only: add_diff_cancel_right')
  qed
  moreover have "simple_rewind_response cs q r ds = Some r'"
    using rewind_moved [of cs q r ds undefined] r'(1) k by (simp add: assms(2) spd(2))
  ultimately show ?thesis using r'(2) r(1,2) by (simp add: simple_answered_def)
qed

section \<open>The contract\<close>

interpretation simple: pir_backend "simple_backend fo x86 chacha next_u32 next_u64 fill_bytes" "gauss_productive fo next_u64 sg"
  "simple_cfg_ok fo sg" "simple_sp_ok fo sg" "simple_mat_ok chacha" "simple_hint_ok chacha" "simple_cs_ok fo chacha"
  simple_asked simple_answered "simple_quiet fo" "simple_worst_case fo"
proof (unfold_locales, goal_cases)
  case (1 cfg n w pb db g)
  then show ?case using simple_setup_ok by (simp add: simple_backend_def)
next
  case (2 sp n w pb)
  then show ?case using simple_expand_ok by (simp add: simple_backend_def simple_mat_ok_def)
next
  case (3 sp n w pb db h)
  then show ?case
    using simple_expand_ok [OF 3(1), of chacha]
    by (simp add: simple_backend_def simple_client_setup_def simple_cs_ok_def simple_mat_ok_def)
next
  case (4 sp n w pb db cs row g)
  then show ?case using simple_query_ok by (simp add: simple_backend_def)
next
  case (5 sp n w pb cs q row db)
  then show ?case using simple_answer_ok by (simp add: simple_backend_def)
next
  case (6 sp n w pb db cs q row r)
  then show ?case using simple_decode_ok by (simp add: simple_backend_def)
next
  case (7 sp n w pb db cs q row)
  show ?case by (rule simple_worst_case_quiet [OF 7])
next
  case (8 sp n w pb mat db h rd mode)
  then show ?case using simple_patch_hint_ok by (simp add: simple_backend_def)
next
  case (9 sp n w pb db cs rd mode)
  then show ?case using simple_patch_state_ok by (simp add: simple_backend_def)
next
  case (10 sp n w pb db cs m g)
  then show ?case using simple_precompute_queries_ok by (simp add: simple_backend_def)
next
  case (11 sp n w pb db cs)
  then show ?case using simple_precompute_decodes_ok by (simp add: simple_backend_def)
next
  case (12 sp n w pb db0 cs q row ds db r)
  then show ?case using simple_rewind_ok [of fo sg sp n w pb cs ds db q r] by (simp add: simple_backend_def simple_cs_ok_def)
qed

end
