(* ===== verification/Server_Correct.thy ===== *)
theory Server_Correct
  imports Server Frodo_Correct Simple_Correct
begin

text \<open>
  The server keeps its hints in step with its cells. The invariant \<open>server_ok\<close> says that every
  segment's parameters, material and hint belong to the cells the store holds now; setup
  establishes it, the three mutating calls keep it and publish exactly the cell differences, and
  answers are the back end's answers on the current segments. Proved once in the context of the
  back-end contract.
\<close>

section \<open>Segments of the cell array\<close>

abbreviation cp_row_width :: "cuckoo_params \<Rightarrow> nat" where
  "cp_row_width p \<equiv> cp_bucket_size p * cp_cells_per_slot p"

definition seg_db :: "cuckoo_params \<Rightarrow> fv_table \<Rightarrow> nat \<Rightarrow> u32 list" where
  "seg_db p t j = take (cp_segment_size p * cp_row_width p) (drop (j * (cp_segment_size p * cp_row_width p)) (fv_cells t))"

text \<open>A well-formed table seen through parameters that describe it and cut it into segments.\<close>

definition table_ok :: "cuckoo_params \<Rightarrow> fv_table \<Rightarrow> bool" where
  "table_ok p t \<longleftrightarrow> fv_inv t \<and> fv_padded t \<and> describes p t \<and> segments_ok p"

lemma table_okD:
  assumes "table_ok p t"
  shows "fv_inv t" "fv_padded t" "describes p t" "segments_ok p" "row_cells t = cp_row_width p"
    "cp_arity p * cp_segment_size p = fv_num_buckets t" "cells_ok (cp_plaintext_bits p) (fv_cells t)"
    "length (fv_cells t) = cp_arity p * (cp_segment_size p * cp_row_width p)"
proof -
  show a: "fv_inv t" "fv_padded t" "describes p t" "segments_ok p" using assms by (simp_all add: table_ok_def)
  note d = describesD [OF a(3)]
  show r: "row_cells t = cp_row_width p" using d(2) d(7) [OF a(1)] by (simp add: row_cells_def)
  show n: "cp_arity p * cp_segment_size p = fv_num_buckets t" using a(4) d(1) by (simp add: segments_ok_def)
  show "cells_ok (cp_plaintext_bits p) (fv_cells t)" using a(1) d(5) by (simp add: fv_inv_def)
  have "length (fv_cells t) = fv_num_buckets t * row_cells t"
    using a(1) by (simp add: fv_inv_def row_cells_def mult.assoc)
  then show "length (fv_cells t) = cp_arity p * (cp_segment_size p * cp_row_width p)"
    by (simp add: r n [symmetric] mult.assoc)
qed

lemma seg_db_slice:
  assumes "table_ok p t" "j < cp_arity p"
  shows "slice_opt (fv_cells t) (j * (cp_segment_size p * cp_row_width p)) (cp_segment_size p * cp_row_width p) =
      Some (seg_db p t j)"
    and "length (seg_db p t j) = cp_segment_size p * cp_row_width p"
    and "list_all (fits (cp_plaintext_bits p)) (seg_db p t j)"
proof -
  let ?n = "cp_segment_size p * cp_row_width p"
  have "Suc j * ?n \<le> cp_arity p * ?n" using assms(2) by (intro mult_le_mono1) simp
  then have le: "j * ?n + ?n \<le> length (fv_cells t)" using table_okD(8) [OF assms(1)] by simp
  then show "slice_opt (fv_cells t) (j * ?n) ?n = Some (seg_db p t j)"
    and "length (seg_db p t j) = ?n" by (simp_all add: slice_opt_def seg_db_def)
  show "list_all (fits (cp_plaintext_bits p)) (seg_db p t j)"
    using table_okD(7) [OF assms(1)]
    by (auto simp: list_all_iff seg_db_def cells_ok_def dest!: in_set_takeD in_set_dropD)
qed

lemma seg_db_mcell:
  assumes "table_ok p t" "j < cp_arity p" "r < cp_segment_size p" "k < cp_row_width p"
  shows "mcell (cp_row_width p) (seg_db p t j) r k = tcell t (j * cp_segment_size p + r) k"
proof -
  have "r * cp_row_width p + k < cp_segment_size p * cp_row_width p" by (rule mult_add_less [OF assms(3,4)])
  then show ?thesis
    using seg_db_slice(2) [OF assms(1,2)] table_okD(5) [OF assms(1)]
    by (simp add: mcell_def tcell_def seg_db_def add_mult_distrib add.assoc mult.assoc)
qed

text \<open>The published deltas turn a segment of the old table into that of the new one.\<close>

lemma seg_db_edit:
  assumes "table_ok p t" "table_ok p u" "deltas_of p t u rds" "j < cp_arity p"
  shows "edit_db (cp_row_width p) (seg_db p t j) (rds ! j) = seg_db p u j"
proof (rule mcell_eqI [of _ "cp_segment_size p" "cp_row_width p"])
  fix r k assume r: "r < cp_segment_size p" and k: "k < cp_row_width p"
  have "row_delta (rds ! j) r k = cell_diff t u (j * cp_segment_size p + r) k"
    using assms(3,4) r k table_okD(5) [OF assms(1)] by (simp add: deltas_of_def)
  then show "mcell (cp_row_width p) (edit_db (cp_row_width p) (seg_db p t j) (rds ! j)) r k =
      mcell (cp_row_width p) (seg_db p u j) r k"
    using mcell_edit_db [OF seg_db_slice(2) [OF assms(1,4)] r k] seg_db_mcell [OF assms(1,4) r k]
      seg_db_mcell [OF assms(2,4) r k]
    by (simp add: edited_def cell_diff_def wi_hom_sub [symmetric])
qed (use seg_db_slice(2) assms in simp_all)

section \<open>The invariant\<close>

definition server_ok ::
  "('cfg \<Rightarrow> nat \<Rightarrow> nat \<Rightarrow> nat \<Rightarrow> bool) \<Rightarrow> ('sp \<Rightarrow> nat \<Rightarrow> nat \<Rightarrow> nat \<Rightarrow> bool) \<Rightarrow> ('sp \<Rightarrow> 'mat \<Rightarrow> bool) \<Rightarrow>
    ('sp \<Rightarrow> u32 list \<Rightarrow> 'hint \<Rightarrow> bool) \<Rightarrow> ('cfg, 'sp, 'mat, 'hint) ikpir_server \<Rightarrow> bool" where
  "server_ok cfg_ok sp_ok mat_ok hint_ok sv \<longleftrightarrow>
     kv_inv (sv_store sv) \<and> kv_counted (sv_store sv) \<and> kv_params (sv_store sv) = Some (sv_params sv) \<and>
     kv_mutation_log (sv_store sv) = Some [] \<and> segments_ok (sv_params sv) \<and>
     cfg_ok (sv_backend_config sv) (cp_segment_size (sv_params sv)) (cp_row_width (sv_params sv))
       (cp_plaintext_bits (sv_params sv)) \<and>
     length (sv_backend_params sv) = cp_arity (sv_params sv) \<and>
     length (sv_backend_hint_material sv) = cp_arity (sv_params sv) \<and>
     length (sv_hints sv) = cp_arity (sv_params sv) \<and>
     (\<forall>j < cp_arity (sv_params sv).
        sp_ok (sv_backend_params sv ! j) (cp_segment_size (sv_params sv)) (cp_row_width (sv_params sv))
          (cp_plaintext_bits (sv_params sv)) \<and>
        (\<forall>mat. sv_backend_hint_material sv ! j = Some mat \<longrightarrow> mat_ok (sv_backend_params sv ! j) mat) \<and>
        hint_ok (sv_backend_params sv ! j) (seg_db (sv_params sv) (kv_table (sv_store sv)) j) (sv_hints sv ! j))"

text \<open>The outcome of a successful mutation.\<close>

definition published ::
  "('cfg, 'sp, 'mat, 'hint) ikpir_server \<Rightarrow> hint_delta_bundle \<Rightarrow> ('cfg, 'sp, 'mat, 'hint) ikpir_server \<Rightarrow> bool" where
  "published sv delta sv' \<longleftrightarrow> sv_params sv' = sv_params sv \<and> sv_backend_params sv' = sv_backend_params sv \<and>
     sv_epoch sv' = sv_epoch sv + 1 \<and> hd_epoch delta = sv_epoch sv' \<and> hd_params delta = sv_params sv \<and>
     deltas_of (sv_params sv) (kv_table (sv_store sv)) (kv_table (sv_store sv')) (hd_row_deltas delta)"

text \<open>The outcome of a mutating call, given the store's result \<open>r\<close> and new store \<open>st\<close>: an error is
  reported and nothing but the store's scratch state moves, or the change is published.\<close>

definition call_ok :: "('cfg, 'sp, 'mat, 'hint) ikpir_server \<Rightarrow> cuckoo_error + unit \<Rightarrow> kv_store \<Rightarrow>
    ikpir_error + hint_delta_bundle \<Rightarrow> ('cfg, 'sp, 'mat, 'hint) ikpir_server \<Rightarrow> bool" where
  "call_ok sv r st res sv' \<longleftrightarrow>
     (case r of
        Inl e \<Rightarrow> res = Inl (map_cuckoo_err e) \<and> sv' = sv\<lparr> sv_store := st \<rparr> \<and> kv_table st = kv_table (sv_store sv)
      | Inr _ \<Rightarrow> (\<exists>delta. res = Inr delta \<and> published sv delta sv' \<and>
          sv_store sv' = st\<lparr> kv_mutation_log := Some [] \<rparr>))"

lemma kv_table_ok:
  "kv_inv st \<Longrightarrow> kv_params st = Some p \<Longrightarrow> segments_ok p \<Longrightarrow> table_ok p (kv_table st)"
  using kv_params_describes by (simp add: table_ok_def kv_inv_def)

lemma server_ok_table: "server_ok cfg_ok sp_ok mat_ok hint_ok sv \<Longrightarrow> table_ok (sv_params sv) (kv_table (sv_store sv))"
  by (rule kv_table_ok) (simp_all add: server_ok_def)

section \<open>What the store calls leave behind\<close>

definition kv_outcome :: "kv_store \<Rightarrow> cuckoo_error + unit \<Rightarrow> kv_store \<Rightarrow> bool" where
  "kv_outcome st r st' \<longleftrightarrow> kv_inv st' \<and> kv_counted st' \<and> kv_params st' = kv_params st \<and>
     (case r of
        Inl _ \<Rightarrow> kv_table st' = kv_table st \<and> kv_mutation_log st' = kv_mutation_log st
      | Inr _ \<Rightarrow> \<exists>ms. logged (kv_table st) ms (kv_table st') \<and>
          kv_mutation_log st' = map_option (\<lambda>log. log @ ms) (kv_mutation_log st))"

lemma kv_frame_params: "kv_frame st st' \<Longrightarrow> kv_params st' = kv_params st"
  using same_shapeD [of "kv_table st" "kv_table st'"] by (auto simp: kv_params_def kv_frame_def split: option.split)

lemma kv_params_cong: "kv_scheme st' = kv_scheme st \<Longrightarrow> kv_table st' = kv_table st \<Longrightarrow> kv_params st' = kv_params st"
  by (simp add: kv_params_def split: option.split)

lemma kv_outcome_refl: "kv_inv st \<Longrightarrow> kv_counted st \<Longrightarrow> kv_outcome st (Inl e) st"
  by (simp add: kv_outcome_def)

lemma kv_outcome_committed: "kv_inv st' \<Longrightarrow> kv_counted st' \<Longrightarrow> kv_committed st st' ms \<Longrightarrow> kv_outcome st (Inr ()) st'"
  by (auto simp: kv_outcome_def kv_committed_def kv_frame_params)

lemma kv_insert_outcome:
  assumes "kv_inv st" "kv_counted st" "draw_ok draw"
  obtains r st' g' where "kv_insert xxh draw st g key val = Some (r, st', g')" "kv_outcome st r st'"
proof (cases "length val = kv_value_size_in_bytes st")
  case True
  obtain r st' g' where r: "kv_insert xxh draw st g key val = Some (r, st', g')"
    "r = Inl TableFull \<and> kv_frame st st' \<and> kv_table st' = kv_table st \<and> kv_mutation_log st' = kv_mutation_log st \<or>
     r = Inr () \<and> (\<exists>ms. kv_committed st st' ms)"
    using kv_insert_spec [OF assms(1,3) True, of xxh g key] by blast
  have "kv_inv st'" "kv_counted st'" using kv_insert_keeps [OF assms r(1)] by simp_all
  then have "kv_outcome st r st'"
    using r(2) kv_outcome_committed kv_frame_params by (auto simp: kv_outcome_def)
  then show thesis by (rule that [OF r(1)])
next
  case False
  show thesis by (rule that [OF kv_insert_invalid [OF False] kv_outcome_refl [OF assms(1,2)]])
qed

lemma kv_update_outcome:
  assumes "kv_inv st" "kv_counted st"
  obtains r st' where "kv_update xxh st key val = Some (r, st')" "kv_outcome st r st'"
proof (cases "length val = kv_value_size_in_bytes st")
  case len: True
  show thesis
  proof (cases "kv_values xxh st key = {}")
    case True
    obtain v where u: "kv_update xxh st key val = Some (Inl NotFound, st\<lparr> kv_cur_value := v \<rparr>)"
      using kv_update_miss [OF assms(1) len True] by blast
    then have "kv_outcome st (Inl NotFound) (st\<lparr> kv_cur_value := v \<rparr>)"
      using kv_update_keeps [OF assms u] kv_params_cong [of "st\<lparr> kv_cur_value := v \<rparr>" st]
      by (simp add: kv_outcome_def)
    then show thesis by (rule that [OF u])
  next
    case False
    then obtain st' ms where u: "kv_update xxh st key val = Some (Inr (), st')" "kv_committed st st' ms"
      using kv_update_hit [OF assms(1) len False] by blast
    then show thesis
      using that [OF u(1)] kv_outcome_committed kv_update_keeps [OF assms u(1)] by blast
  qed
next
  case False
  then have "kv_update xxh st key val = Some (Inl InvalidParams, st)" by (simp add: kv_update_def)
  then show thesis by (rule that [OF _ kv_outcome_refl [OF assms]])
qed

lemma kv_delete_outcome:
  assumes "kv_inv st" "kv_counted st"
  obtains r st' where "kv_delete xxh st key = Some (r, st')" "kv_outcome st r st'"
proof (cases "kv_values xxh st key = {}")
  case True
  show thesis by (rule that [OF kv_delete_miss [OF assms(1) True] kv_outcome_refl [OF assms]])
next
  case False
  then obtain st' ms where u: "kv_delete xxh st key = Some (Inr (), st')" "kv_committed st st' ms"
    using kv_delete_hit [OF assms False] by blast
  then show thesis
    using that [OF u(1)] kv_outcome_committed kv_delete_keeps [OF assms u(1)] by blast
qed

text \<open>Touching the log only.\<close>

lemma kv_drained:
  "kv_mutation_log st = Some ms \<Longrightarrow> kv_drain_mutations st = (ms, st\<lparr> kv_mutation_log := Some [] \<rparr>)"
  by (simp add: kv_drain_mutations_def)

lemma kv_log_update:
  "kv_inv (st\<lparr> kv_mutation_log := l \<rparr>) = kv_inv st" "kv_counted (st\<lparr> kv_mutation_log := l \<rparr>) = kv_counted st"
  "kv_params (st\<lparr> kv_mutation_log := l \<rparr>) = kv_params st"
  using kv_params_cong [of "st\<lparr> kv_mutation_log := l \<rparr>" st]
  by (simp_all add: kv_inv_def kv_counted_def kv_bag_def kv_value_size_in_cells_def)

section \<open>Server operations under the contract\<close>

context pir_backend
begin

lemma setup_segments_ok:
  assumes "table_ok p t" "cfg_ok cfg (cp_segment_size p) (cp_row_width p) (cp_plaintext_bits p)" rng_ok
  obtains sps mats hs g' where
    "setup_segments (be_server_setup B) cfg p (fv_cells t) g = Some ((sps, mats, hs), g')"
    "length sps = cp_arity p" "length mats = cp_arity p" "length hs = cp_arity p"
    "\<forall>j < cp_arity p. sp_ok (sps ! j) (cp_segment_size p) (cp_row_width p) (cp_plaintext_bits p) \<and>
       (\<forall>mat. mats ! j = Some mat \<longrightarrow> mat_ok (sps ! j) mat) \<and> hint_ok (sps ! j) (seg_db p t j) (hs ! j)"
proof -
  let ?n = "cp_segment_size p" and ?w = "cp_row_width p" and ?pb = "cp_plaintext_bits p"
  define body where "body j s = (case s of ((sps, mats, hs), g) \<Rightarrow> do {
      db \<leftarrow> slice_opt (fv_cells t) (j * (?n * ?w)) (?n * ?w);
      ((sp, mat, h), g') \<leftarrow> be_server_setup B cfg db ?n ?w ?pb g;
      Some ((sps @ [sp], mats @ [Some mat], hs @ [h]), g') })" for j s
  define P where "P i s \<longleftrightarrow> (case s of ((sps, mats, hs), g) \<Rightarrow>
      length sps = i \<and> length mats = i \<and> length hs = i \<and>
      (\<forall>j < i. sp_ok (sps ! j) ?n ?w ?pb \<and> (\<forall>mat. mats ! j = Some mat \<longrightarrow> mat_ok (sps ! j) mat) \<and>
         hint_ok (sps ! j) (seg_db p t j) (hs ! j)))" for i and s :: "('sp list \<times> 'mat option list \<times> 'hint list) \<times> 'g"
  have step: "\<exists>s'. body j s = Some s' \<and> P (Suc j) s'" if j: "j < cp_arity p" and P: "P j s" for j s
  proof -
    obtain sps mats hs g where s: "s = ((sps, mats, hs), g)" by (metis surj_pair)
    obtain sp mat h g' where "be_server_setup B cfg (seg_db p t j) ?n ?w ?pb g = Some ((sp, mat, h), g')"
      "sp_ok sp ?n ?w ?pb" "mat_ok sp mat" "hint_ok sp (seg_db p t j) h"
      using server_setup [OF assms(2,3) seg_db_slice(2) [OF assms(1) j], of g] by blast
    then show ?thesis
      using P seg_db_slice(1) [OF assms(1) j] by (auto simp: s body_def P_def nth_append less_Suc_eq)
  qed
  have "P 0 (([], [], []), g)" by (simp add: P_def)
  then obtain s' where s': "fold_opt body [0..<cp_arity p] (([], [], []), g) = Some s'" "P (cp_arity p) s'"
    by (rule fold_opt_upt [where P = P and f = body, OF _ step])
  moreover have "setup_segments (be_server_setup B) cfg p (fv_cells t) g = fold_opt body [0..<cp_arity p] (([], [], []), g)"
    by (auto simp: setup_segments_def body_def Let_def intro!: fold_opt_cong split: prod.split)
  moreover obtain sps mats hs g' where "s' = ((sps, mats, hs), g')" by (metis surj_pair)
  ultimately show thesis using that by (simp add: P_def)
qed

abbreviation sv_ok :: "('cfg, 'sp, 'mat, 'hint) ikpir_server \<Rightarrow> bool" where
  "sv_ok \<equiv> server_ok cfg_ok sp_ok mat_ok hint_ok"

lemma server_new_ok:
  assumes "kv_inv st" "kv_counted st" "kv_params st = Some p" "segments_ok p" rng_ok
    and "cfg_ok cfg (cp_segment_size p) (cp_row_width p) (cp_plaintext_bits p)"
  obtains sv g' where "server_new B st cfg g = Some (sv, g')" "sv_ok sv" "sv_epoch sv = 0" "sv_params sv = p"
    "kv_table (sv_store sv) = kv_table st"
proof -
  have t: "table_ok p (kv_table st)" by (rule kv_table_ok [OF assms(1,3,4)])
  obtain sps mats hs g' where seg:
    "setup_segments (be_server_setup B) cfg p (kv_snapshot_cells st) g = Some ((sps, mats, hs), g')"
    "length sps = cp_arity p" "length mats = cp_arity p" "length hs = cp_arity p"
    "\<forall>j < cp_arity p. sp_ok (sps ! j) (cp_segment_size p) (cp_row_width p) (cp_plaintext_bits p) \<and>
       (\<forall>mat. mats ! j = Some mat \<longrightarrow> mat_ok (sps ! j) mat) \<and> hint_ok (sps ! j) (seg_db p (kv_table st) j) (hs ! j)"
    using setup_segments_ok [OF t assms(6,5), of g] unfolding kv_snapshot_cells_def by blast
  let ?st = "snd (kv_drain_mutations (kv_enable_mutation_log st))"
  have st: "?st = st\<lparr> kv_mutation_log := Some [] \<rparr>"
    by (cases "kv_mutation_log st") (simp_all add: kv_drain_mutations_def kv_enable_mutation_log_def)
  let ?sv = "\<lparr> sv_store = ?st, sv_params = p, sv_backend_config = cfg, sv_backend_params = sps,
    sv_backend_hint_material = mats, sv_hints = hs, sv_epoch = 0, sv_hint_patch_mode = default_patch_mode \<rparr>"
  have "server_new B st cfg g = Some (?sv, g')"
    using seg(1) assms(3) by (simp add: server_new_def server_build_def)
  moreover have "sv_ok ?sv" using seg(2-5) assms by (simp add: server_ok_def st kv_log_update)
  ultimately show thesis by (rule that) (simp_all add: st)
qed

lemma full_rebuild_ok:
  assumes "sv_ok sv" rng_ok "sv_epoch sv + 1 < 2 ^ 64"
  obtains sv' g' where "full_rebuild B sv g = Some (server_setup_of sv', sv', g')" "sv_ok sv'"
    "sv_epoch sv' = sv_epoch sv + 1" "sv_params sv' = sv_params sv" "sv_store sv' = sv_store sv"
proof -
  let ?p = "sv_params sv" and ?st = "sv_store sv"
  have cfg: "cfg_ok (sv_backend_config sv) (cp_segment_size ?p) (cp_row_width ?p) (cp_plaintext_bits ?p)"
    using assms(1) by (simp add: server_ok_def)
  obtain sps mats hs g' where seg:
    "setup_segments (be_server_setup B) (sv_backend_config sv) ?p (kv_snapshot_cells ?st) g = Some ((sps, mats, hs), g')"
    "length sps = cp_arity ?p" "length mats = cp_arity ?p" "length hs = cp_arity ?p"
    "\<forall>j < cp_arity ?p. sp_ok (sps ! j) (cp_segment_size ?p) (cp_row_width ?p) (cp_plaintext_bits ?p) \<and>
       (\<forall>mat. mats ! j = Some mat \<longrightarrow> mat_ok (sps ! j) mat) \<and> hint_ok (sps ! j) (seg_db ?p (kv_table ?st) j) (hs ! j)"
    using setup_segments_ok [OF server_ok_table [OF assms(1)] cfg assms(2), of g]
    unfolding kv_snapshot_cells_def by blast
  have st: "snd (kv_drain_mutations ?st) = ?st"
    using assms(1) by (simp add: server_ok_def kv_drain_mutations_def)
  let ?sv = "sv\<lparr> sv_backend_params := sps, sv_backend_hint_material := mats, sv_hints := hs,
    sv_store := ?st, sv_epoch := sv_epoch sv + 1 \<rparr>"
  have "full_rebuild B sv g = Some (server_setup_of ?sv, ?sv, g')"
    using seg(1) assms(3) by (simp add: full_rebuild_def rebuild_with_def checked_succ_u64_def st Let_def)
  moreover have "sv_ok ?sv" using seg(2-5) assms(1) by (simp add: server_ok_def)
  ultimately show thesis by (rule that) simp_all
qed

lemma drop_hint_material_ok: "sv_ok sv \<Longrightarrow> sv_ok (drop_hint_material sv)"
  by (simp add: server_ok_def drop_hint_material_def)

lemma set_hint_patch_mode_ok: "sv_ok sv \<Longrightarrow> sv_ok (server_set_hint_patch_mode sv mode)"
  by (simp add: server_ok_def server_set_hint_patch_mode_def)

lemma server_answer_ok:
  assumes "sv_ok sv" "pq_epoch q = sv_epoch sv" "length (pq_queries q) = cp_arity (sv_params sv)"
    and "\<And>j. j < cp_arity (sv_params sv) \<Longrightarrow> \<exists>cs row. asked (sv_backend_params sv ! j) cs (pq_queries q ! j) row"
  obtains r where "server_answer B sv q = Some (Inr r)" "pr_epoch r = sv_epoch sv"
    "length (pr_responses r) = cp_arity (sv_params sv)"
    "\<And>j. j < cp_arity (sv_params sv) \<Longrightarrow> answered (sv_backend_params sv ! j)
       (seg_db (sv_params sv) (kv_table (sv_store sv)) j) (pq_queries q ! j) (pr_responses r ! j)"
proof -
  let ?p = "sv_params sv" and ?t = "kv_table (sv_store sv)"
  note tab = server_ok_table [OF assms(1)]
  define rj where "rj j = (SOME r. be_server_answer B (sv_backend_params sv ! j) (seg_db ?p ?t j)
      (cp_segment_size ?p) (cp_row_width ?p) (pq_queries q ! j) = Some r \<and>
      answered (sv_backend_params sv ! j) (seg_db ?p ?t j) (pq_queries q ! j) r)" for j
  have rj: "be_server_answer B (sv_backend_params sv ! j) (seg_db ?p ?t j)
      (cp_segment_size ?p) (cp_row_width ?p) (pq_queries q ! j) = Some (rj j) \<and>
      answered (sv_backend_params sv ! j) (seg_db ?p ?t j) (pq_queries q ! j) (rj j)" if j: "j < cp_arity ?p" for j
  proof -
    obtain cs row where a: "asked (sv_backend_params sv ! j) cs (pq_queries q ! j) row" using assms(4) [OF j] by blast
    have "sp_ok (sv_backend_params sv ! j) (cp_segment_size ?p) (cp_row_width ?p) (cp_plaintext_bits ?p)"
      using assms(1) j by (simp add: server_ok_def)
    from answer [OF this a seg_db_slice(2) [OF tab j]] show ?thesis unfolding rj_def by (rule someI_ex)
  qed
  have "length (sv_backend_params sv) = cp_arity ?p" using assms(1) by (simp add: server_ok_def)
  then have "build_opt (cp_arity ?p) (\<lambda>j. do {
      sp \<leftarrow> nth_opt (sv_backend_params sv) j;
      db \<leftarrow> slice_opt (kv_snapshot_cells (sv_store sv)) (j * (cp_segment_size ?p * cp_row_width ?p))
        (cp_segment_size ?p * cp_row_width ?p);
      qj \<leftarrow> nth_opt (pq_queries q) j;
      be_server_answer B sp db (cp_segment_size ?p) (cp_row_width ?p) qj }) = Some (map rj [0..<cp_arity ?p])"
    using rj seg_db_slice(1) [OF tab] assms(3) by (intro build_opt_Some) (simp add: kv_snapshot_cells_def)
  then show thesis
    using rj assms(2,3) by (intro that [of "\<lparr> pr_epoch = sv_epoch sv, pr_responses = map rj [0..<cp_arity ?p] \<rparr>"])
      (simp_all add: server_answer_def Let_def)
qed

lemma expand_touched_ok:
  assumes "length rds = ar" "length sps = ar" "length mats = ar"
    and "\<And>j. j < ar \<Longrightarrow> sp_ok (sps ! j) n w pb"
    and "\<And>j mat. j < ar \<Longrightarrow> mats ! j = Some mat \<Longrightarrow> mat_ok (sps ! j) mat"
  obtains mats' where "expand_touched B sps rds mats = Some mats'" "length mats' = ar"
    "\<And>j mat. j < ar \<Longrightarrow> mats' ! j = Some mat \<Longrightarrow> mat_ok (sps ! j) mat"
    "\<And>j. j < ar \<Longrightarrow> rds ! j \<noteq> [] \<Longrightarrow> mats' ! j \<noteq> None"
proof -
  define P where "P i ms \<longleftrightarrow> length ms = ar \<and> (\<forall>j < ar. (\<forall>mat. ms ! j = Some mat \<longrightarrow> mat_ok (sps ! j) mat) \<and>
      (j < i \<and> rds ! j \<noteq> [] \<longrightarrow> ms ! j \<noteq> None))" for i and ms :: "'mat option list"
  define body where "body x ms = (case x of (j, deltas) \<Rightarrow> if deltas = [] then Some ms
      else do { m \<leftarrow> nth_opt ms j; if m \<noteq> None then Some ms
        else do { sp \<leftarrow> nth_opt sps j; mat \<leftarrow> be_expand_hint_material B sp; upd_opt ms j (Some mat) } })" for x :: "nat \<times> row_deltas" and ms
  have step: "\<exists>ms'. body (i, rds ! i) ms = Some ms' \<and> P (Suc i) ms'" if i: "i < length rds" and P: "P i ms" for i ms
  proof -
    obtain mat where mat: "be_expand_hint_material B (sps ! i) = Some mat" "mat_ok (sps ! i) mat"
      using expand [OF assms(4)] i assms(1) by blast
    have len: "length ms = ar" using P by (simp add: P_def)
    consider "rds ! i = []" | "rds ! i \<noteq> []" "ms ! i \<noteq> None" | "rds ! i \<noteq> []" "ms ! i = None" by blast
    then show ?thesis
    proof cases
      case 3
      then have "body (i, rds ! i) ms = Some (ms[i := Some mat])"
        using mat(1) i len assms(1,2) by (simp add: body_def)
      moreover have "P (Suc i) (ms[i := Some mat])"
        using P i mat(2) assms(1) by (auto simp: P_def nth_list_update less_Suc_eq)
      ultimately show ?thesis by blast
    qed (use P i len assms(1) in \<open>auto simp: body_def P_def less_Suc_eq\<close>)
  qed
  have "P 0 mats" using assms(3,5) by (simp add: P_def)
  then obtain mats' where "fold_opt body (enumerate 0 rds) mats = Some mats'" "P (length rds) mats'"
    by (rule fold_opt_enumerate [where P = P and f = body, OF _ step])
  moreover have "expand_touched B sps rds mats = fold_opt body (enumerate 0 rds) mats"
    by (auto simp: expand_touched_def body_def intro!: fold_opt_cong split: prod.split)
  ultimately show thesis using that assms(1) by (auto simp: P_def)
qed

lemma patch_touched_ok:
  assumes "table_ok p t" "table_ok p u" "deltas_of p t u rds"
    and "length sps = cp_arity p" "length mats = cp_arity p" "length hs = cp_arity p"
    and "\<And>j. j < cp_arity p \<Longrightarrow> sp_ok (sps ! j) (cp_segment_size p) (cp_row_width p) pb"
    and "\<And>j mat. j < cp_arity p \<Longrightarrow> mats ! j = Some mat \<Longrightarrow> mat_ok (sps ! j) mat"
    and "\<And>j. j < cp_arity p \<Longrightarrow> rds ! j \<noteq> [] \<Longrightarrow> mats ! j \<noteq> None"
    and "\<And>j. j < cp_arity p \<Longrightarrow> hint_ok (sps ! j) (seg_db p t j) (hs ! j)"
  obtains hs' where "patch_touched B sps mats mode rds hs = Some hs'" "length hs' = cp_arity p"
    "\<And>j. j < cp_arity p \<Longrightarrow> hint_ok (sps ! j) (seg_db p u j) (hs' ! j)"
proof -
  let ?ar = "cp_arity p"
  have rds: "length rds = ?ar" "\<And>j. j < ?ar \<Longrightarrow> edits_ok (cp_segment_size p) (cp_row_width p) (rds ! j)"
    using assms(3) table_okD(5) [OF assms(1)] by (simp_all add: deltas_of_def)
  define P where "P i xs \<longleftrightarrow> length xs = ?ar \<and>
      (\<forall>j < ?ar. hint_ok (sps ! j) (if j < i then seg_db p u j else seg_db p t j) (xs ! j))" for i and xs :: "'hint list"
  define body where "body x hints = (case x of (j, deltas) \<Rightarrow> if deltas = [] then Some hints
      else do { m \<leftarrow> nth_opt mats j; material \<leftarrow> m; sp \<leftarrow> nth_opt sps j; h \<leftarrow> nth_opt hints j;
        h' \<leftarrow> be_server_patch_hint B sp material h deltas mode; upd_opt hints j h' })" for x hints
  have step: "\<exists>xs'. body (i, rds ! i) xs = Some xs' \<and> P (Suc i) xs'" if i: "i < length rds" and P: "P i xs" for i xs
  proof -
    have i': "i < ?ar" using i rds(1) by simp
    note edit = seg_db_edit [OF assms(1-3) i']
    have "length xs = ?ar" "hint_ok (sps ! i) (if i < i then seg_db p u i else seg_db p t i) (xs ! i)"
      using P i' unfolding P_def by blast+
    then have xs: "length xs = ?ar" "hint_ok (sps ! i) (seg_db p t i) (xs ! i)" by simp_all
    show ?thesis
    proof (cases "rds ! i = []")
      case True
      then have "seg_db p u i = seg_db p t i" using edit by simp
      then have "P (Suc i) xs" using P by (auto simp: P_def less_Suc_eq)
      then show ?thesis using True by (simp add: body_def)
    next
      case False
      then obtain mat where mat: "mats ! i = Some mat" using assms(9) [OF i'] by blast
      obtain h' where h': "be_server_patch_hint B (sps ! i) mat (xs ! i) (rds ! i) mode = Some h'"
        "hint_ok (sps ! i) (seg_db p u i) h'"
        using patch_hint [OF assms(7) [OF i'] assms(8) [OF i' mat] xs(2) rds(2) [OF i'], of mode] edit by auto
      have "body (i, rds ! i) xs = Some (xs[i := h'])"
        using False mat h'(1) i' xs(1) assms(4,5) by (simp add: body_def)
      moreover have "P (Suc i) (xs[i := h'])"
        using P i' h'(2) by (auto simp: P_def nth_list_update less_Suc_eq)
      ultimately show ?thesis by blast
    qed
  qed
  have "P 0 hs" using assms(6,10) by (simp add: P_def)
  then obtain hs' where "fold_opt body (enumerate 0 rds) hs = Some hs'" "P (length rds) hs'"
    by (rule fold_opt_enumerate [where P = P and f = body, OF _ step])
  moreover have "patch_touched B sps mats mode rds hs = fold_opt body (enumerate 0 rds) hs"
    by (auto simp: patch_touched_def body_def intro!: fold_opt_cong split: prod.split)
  ultimately show thesis using that rds(1) by (auto simp: P_def)
qed

text \<open>The commit after a logged change of the table publishes it and brings the hints in step.\<close>

lemma commit_mutations_ok:
  assumes "sv_ok sv" "kv_inv st" "kv_counted st" "kv_params st = Some (sv_params sv)" "kv_mutation_log st = Some ms"
    and "logged (kv_table (sv_store sv)) ms (kv_table st)" "sv_epoch sv + 1 < 2 ^ 64"
  obtains delta sv' where "commit_mutations B (sv\<lparr> sv_store := st \<rparr>) = Some (delta, sv')" "sv_ok sv'"
    "published sv delta sv'" "sv_store sv' = st\<lparr> kv_mutation_log := Some [] \<rparr>"
proof -
  let ?p = "sv_params sv" and ?sps = "sv_backend_params sv" and ?mats = "sv_backend_hint_material sv"
  let ?n = "cp_segment_size ?p" and ?w = "cp_row_width ?p" and ?pb = "cp_plaintext_bits ?p"
  let ?t = "kv_table (sv_store sv)" and ?u = "kv_table st"
  have inv: "segments_ok ?p" "length ?sps = cp_arity ?p" "length ?mats = cp_arity ?p" "length (sv_hints sv) = cp_arity ?p"
    "\<And>j. j < cp_arity ?p \<Longrightarrow> sp_ok (?sps ! j) ?n ?w ?pb"
    "\<And>j mat. j < cp_arity ?p \<Longrightarrow> ?mats ! j = Some mat \<Longrightarrow> mat_ok (?sps ! j) mat"
    "\<And>j. j < cp_arity ?p \<Longrightarrow> hint_ok (?sps ! j) (seg_db ?p ?t j) (sv_hints sv ! j)"
    using assms(1) by (simp_all add: server_ok_def)
  have tab: "table_ok ?p ?t" "table_ok ?p ?u"
    by (rule server_ok_table [OF assms(1)], rule kv_table_ok [OF assms(2,4) inv(1)])
  obtain rds where rds: "fold_mutations_into_row_deltas ms ?p = Some rds" "deltas_of ?p ?t ?u rds"
    by (rule fold_mutations_exact [OF assms(6) table_okD(2,3,4) [OF tab(1)]])
  have len: "length rds = cp_arity ?p" using rds(2) by (simp add: deltas_of_def)
  obtain mats where mats: "expand_touched B ?sps rds ?mats = Some mats" "length mats = cp_arity ?p"
    "\<And>j mat. j < cp_arity ?p \<Longrightarrow> mats ! j = Some mat \<Longrightarrow> mat_ok (?sps ! j) mat"
    "\<And>j. j < cp_arity ?p \<Longrightarrow> rds ! j \<noteq> [] \<Longrightarrow> mats ! j \<noteq> None"
    using expand_touched_ok [OF len inv(2,3,5,6)] by blast
  obtain hs where hs: "patch_touched B ?sps mats (sv_hint_patch_mode sv) rds (sv_hints sv) = Some hs"
    "length hs = cp_arity ?p" "\<And>j. j < cp_arity ?p \<Longrightarrow> hint_ok (?sps ! j) (seg_db ?p ?u j) (hs ! j)"
    using patch_touched_ok [OF tab rds(2) inv(2) mats(2) inv(4,5) mats(3,4) inv(7)] by blast
  let ?sv = "sv\<lparr> sv_store := st\<lparr> kv_mutation_log := Some [] \<rparr>, sv_backend_hint_material := mats, sv_hints := hs,
    sv_epoch := sv_epoch sv + 1 \<rparr>"
  let ?delta = "\<lparr> hd_epoch = sv_epoch sv + 1, hd_row_deltas = rds, hd_params = ?p \<rparr>"
  have "commit_mutations B (sv\<lparr> sv_store := st \<rparr>) = Some (?delta, ?sv)"
    using kv_drained [OF assms(5)] rds(1) mats(1) hs(1) assms(7)
    by (simp add: commit_mutations_def checked_succ_u64_def)
  moreover have "sv_ok ?sv"
    using assms(1-4) mats(2,3) hs(2,3) by (simp add: server_ok_def kv_log_update)
  moreover have "published sv ?delta ?sv" using rds(2) by (simp add: published_def)
  ultimately show thesis by (rule that) simp
qed

lemma finish_mutation_ok:
  assumes "sv_ok sv" "kv_outcome (sv_store sv) r st" "sv_epoch sv + 1 < 2 ^ 64"
  obtains res sv' where "finish_mutation B sv r st = Some (res, sv')" "sv_ok sv'" "call_ok sv r st res sv'"
proof -
  have sv: "kv_params (sv_store sv) = Some (sv_params sv)" "kv_mutation_log (sv_store sv) = Some []"
    using assms(1) by (simp_all add: server_ok_def)
  have st: "kv_inv st" "kv_counted st" "kv_params st = Some (sv_params sv)"
    using assms(2) sv(1) by (simp_all add: kv_outcome_def)
  show thesis
  proof (cases r)
    case (Inl e)
    then have same: "kv_table st = kv_table (sv_store sv)" "kv_mutation_log st = Some []"
      using assms(2) sv(2) by (simp_all add: kv_outcome_def)
    have "sv_ok (sv\<lparr> sv_store := st \<rparr>)" using assms(1) st same by (simp add: server_ok_def)
    then show thesis
      using same Inl by (intro that [of "Inl (map_cuckoo_err e)" "sv\<lparr> sv_store := st \<rparr>"])
        (simp_all add: finish_mutation_def call_ok_def)
  next
    case (Inr x)
    then obtain ms where ms: "logged (kv_table (sv_store sv)) ms (kv_table st)" "kv_mutation_log st = Some ms"
      using assms(2) sv(2) by (auto simp: kv_outcome_def)
    obtain delta sv' where "commit_mutations B (sv\<lparr> sv_store := st \<rparr>) = Some (delta, sv')" "sv_ok sv'"
      "published sv delta sv'" "sv_store sv' = st\<lparr> kv_mutation_log := Some [] \<rparr>"
      by (rule commit_mutations_ok [OF assms(1) st ms(2,1) assms(3)])
    then show thesis
      using Inr by (intro that [of "Inr delta" sv']) (simp_all add: finish_mutation_def call_ok_def)
  qed
qed

lemma server_insert_ok:
  assumes "sv_ok sv" "draw_ok draw" "sv_epoch sv + 1 < 2 ^ 64"
  obtains r st k' res sv' where "kv_insert xxh draw (sv_store sv) k key val = Some (r, st, k')"
    "server_insert B xxh draw sv k key val = Some (res, sv', k')" "sv_ok sv'" "call_ok sv r st res sv'"
proof -
  have st: "kv_inv (sv_store sv)" "kv_counted (sv_store sv)" using assms(1) by (simp_all add: server_ok_def)
  obtain r st k' where r: "kv_insert xxh draw (sv_store sv) k key val = Some (r, st, k')" "kv_outcome (sv_store sv) r st"
    by (rule kv_insert_outcome [OF st assms(2)])
  obtain res sv' where "finish_mutation B sv r st = Some (res, sv')" "sv_ok sv'" "call_ok sv r st res sv'"
    by (rule finish_mutation_ok [OF assms(1) r(2) assms(3)])
  then show thesis using that [OF r(1)] r(1) by (simp add: server_insert_def)
qed

lemma server_update_ok:
  assumes "sv_ok sv" "sv_epoch sv + 1 < 2 ^ 64"
  obtains r st res sv' where "kv_update xxh (sv_store sv) key val = Some (r, st)"
    "server_update B xxh sv key val = Some (res, sv')" "sv_ok sv'" "call_ok sv r st res sv'"
proof -
  have st: "kv_inv (sv_store sv)" "kv_counted (sv_store sv)" using assms(1) by (simp_all add: server_ok_def)
  obtain r st where r: "kv_update xxh (sv_store sv) key val = Some (r, st)" "kv_outcome (sv_store sv) r st"
    by (rule kv_update_outcome [OF st])
  obtain res sv' where "finish_mutation B sv r st = Some (res, sv')" "sv_ok sv'" "call_ok sv r st res sv'"
    by (rule finish_mutation_ok [OF assms(1) r(2) assms(2)])
  then show thesis using that [OF r(1)] r(1) by (simp add: server_update_def)
qed

lemma server_delete_ok:
  assumes "sv_ok sv" "sv_epoch sv + 1 < 2 ^ 64"
  obtains r st res sv' where "kv_delete xxh (sv_store sv) key = Some (r, st)"
    "server_delete B xxh sv key = Some (res, sv')" "sv_ok sv'" "call_ok sv r st res sv'"
proof -
  have st: "kv_inv (sv_store sv)" "kv_counted (sv_store sv)" using assms(1) by (simp_all add: server_ok_def)
  obtain r st where r: "kv_delete xxh (sv_store sv) key = Some (r, st)" "kv_outcome (sv_store sv) r st"
    by (rule kv_delete_outcome [OF st])
  obtain res sv' where "finish_mutation B sv r st = Some (res, sv')" "sv_ok sv'" "call_ok sv r st res sv'"
    by (rule finish_mutation_ok [OF assms(1) r(2) assms(2)])
  then show thesis using that [OF r(1)] r(1) by (simp add: server_delete_def)
qed

end

end
