(* ===== verification/Client_Scan.thy ===== *)
theory Client_Scan
  imports Clients Server_Correct
begin

text \<open>
  What the clients compute from decoded rows. The branchless scan ORs the values of all slots of the
  probed buckets that carry the key's fingerprint; \<open>client_view\<close> states this against the entries of
  the store, and with at most one value per key it is what \<open>get\<close> returns. The queried row of
  segment \<open>j\<close> is candidate bucket \<open>j\<close>.
\<close>

section \<open>The equality mask\<close>

lemma drop_bit_63: "drop_bit 63 w = (if bit w 63 then 1 else 0 :: u64)"
proof (rule word_eq_bitI)
  fix k :: nat assume "k < LENGTH(64)"
  have "\<not> bit w (63 + k)" if "k \<noteq> 0" using bit_imp_le_length [of w "63 + k"] that by auto
  then show "bit (drop_bit 63 w) k \<longleftrightarrow> bit (if bit w 63 then 1 else 0 :: u64) k"
    by (cases "k = 0") (auto simp: bit_drop_bit_eq bit_1_iff)
qed

lemma bit_63_less: "\<not> bit w 63 \<Longrightarrow> unat (w :: u64) < 2 ^ 63"
proof -
  assume "\<not> bit w 63"
  then have "unat (drop_bit 63 w) = 0" by (simp add: drop_bit_63)
  then have "drop_bit 63 (unat w) = 0" by (simp only: unat_drop_bit_eq)
  then show ?thesis by (simp add: drop_bit_eq_div div_eq_0_iff)
qed

text \<open>All ones when the arguments agree, zero otherwise.\<close>

lemma ct_eq_u64_mask_eq: "ct_eq_u64_mask a b = (if a = b then - 1 else 0)"
proof (cases "a = b")
  case True
  then show ?thesis by (simp add: ct_eq_u64_mask_def)
next
  case False
  let ?x = "a XOR b"
  have x: "?x \<noteq> 0" using False by (metis xor_cancel xor.left_neutral)
  have "bit ?x 63 \<or> bit (- ?x) 63"
  proof (rule ccontr)
    assume "\<not> (bit ?x 63 \<or> bit (- ?x) 63)"
    then have "unat ?x < 2 ^ 63" "unat (- ?x) < 2 ^ 63" using bit_63_less by blast+
    then have "unat (?x + - ?x) = unat ?x + unat (- ?x)" by (simp only: unat_word_ariths) simp
    then show False using x by (simp add: unat_eq_zero)
  qed
  then have "bit (?x OR - ?x) 63" by (simp add: bit_or_iff)
  then have "drop_bit 63 (?x OR - ?x) = 1" using drop_bit_63 [of "?x OR - ?x"] by simp
  then show ?thesis using False by (simp add: ct_eq_u64_mask_def Let_def)
qed

section \<open>The scan\<close>

lemma or_masked_bits:
  assumes "length acc = length v"
  shows "length (or_masked m acc v) = length acc"
    "k < 8 * length acc \<Longrightarrow> bbit (or_masked m acc v) k \<longleftrightarrow> bbit acc k \<or> bit m (k mod 8) \<and> bbit v k"
  using assms by (auto simp: or_masked_def bbit_def div_less_iff_less_mult bit_or_iff bit_and_iff)

text \<open>The state after the slots \<open>L\<close> of a table have been scanned for a fingerprint.\<close>

definition scan_inv :: "fv_table \<Rightarrow> u64 \<Rightarrow> (nat \<times> nat) list \<Rightarrow> u8 list \<times> u64 \<Rightarrow> bool" where
  "scan_inv t fp L s \<longleftrightarrow> length (fst s) = div_ceil (fv_value_bits t) 8 \<and>
     snd s = (if \<exists>x \<in> set L. fst (fv.view t x) = fp then - 1 else 0) \<and>
     (\<forall>k < 8 * length (fst s). bbit (fst s) k \<longleftrightarrow> k < fv_value_bits t \<and>
        (\<exists>x \<in> set L. fst (fv.view t x) = fp \<and> cbit (fv_plaintext_bits t) (snd (fv.view t x)) k))"

lemma scan_inv_Nil: "scan_inv t fp [] (replicate (div_ceil (fv_value_bits t) 8) 0, 0)"
  by (auto simp: scan_inv_def bbit_def div_less_iff_less_mult)

lemma mask8_bits: "k < 8 \<Longrightarrow> bit (ucast (ct_eq_u64_mask a b AND 0xFF) :: u8) k \<longleftrightarrow> a = b"
proof -
  assume k: "k < 8"
  have "bit (mask 8 :: u64) k" using k by (simp add: bit_mask_iff)
  then have "bit (255 :: u64) k" by (simp add: mask_eq_exp_minus_1)
  then show ?thesis using k by (simp add: ct_eq_u64_mask_eq bit_ucast_iff bit_and_iff)
qed

lemma scan_slot:
  assumes "table_ok p t" "b < fv_num_buckets t" "s < fv_bucket_size t" "scan_inv t fp L (acc, fm)"
  obtains fp' bytes where "unpack_slot_cells p (slot_cells t b s) = Some (fp', bytes)"
    "scan_inv t fp (L @ [(b, s)]) (or_masked (ucast (ct_eq_u64_mask fp' fp AND 0xFF)) acc bytes, fm OR ct_eq_u64_mask fp' fp)"
proof -
  note t = table_okD(1,3) [OF assms(1)]
  have acc: "length acc = div_ceil (fv_value_bits t) 8" using assms(4) by (simp add: scan_inv_def)
  obtain fp' v where rd: "fv_read t b s = Some (fp', v)" using fv_read_total [OF t(1) assms(2,3)] by auto
  have view: "fv.view t (b, s) = (fp', v)" by (rule fv.view_eq [OF rd])
  obtain bytes where bytes: "unpack_slot_cells p (slot_cells t b s) = Some (fp', bytes)" "length bytes = length acc"
    "\<And>k. k < 8 * length acc \<Longrightarrow> bbit bytes k \<longleftrightarrow> k < fv_value_bits t \<and> cbit (fv_plaintext_bits t) v k"
    using slot_cells_unpack [OF t assms(2,3) rd acc] by metis
  let ?acc = "or_masked (ucast (ct_eq_u64_mask fp' fp AND 0xFF)) acc bytes"
  note om = or_masked_bits [OF bytes(2) [symmetric]]
  have "bbit ?acc k \<longleftrightarrow> k < fv_value_bits t \<and>
      (\<exists>x \<in> set (L @ [(b, s)]). fst (fv.view t x) = fp \<and> cbit (fv_plaintext_bits t) (snd (fv.view t x)) k)"
    if k: "k < 8 * length acc" for k
  proof -
    have "bbit acc k \<longleftrightarrow> k < fv_value_bits t \<and>
        (\<exists>x \<in> set L. fst (fv.view t x) = fp \<and> cbit (fv_plaintext_bits t) (snd (fv.view t x)) k)"
      using assms(4) k by (simp add: scan_inv_def)
    then show ?thesis using om(2) [OF k] mask8_bits [of "k mod 8" fp' fp] bytes(3) [OF k] view by auto
  qed
  moreover have "fm OR ct_eq_u64_mask fp' fp = (if \<exists>x \<in> set (L @ [(b, s)]). fst (fv.view t x) = fp then - 1 else 0)"
    using assms(4) view by (auto simp: scan_inv_def ct_eq_u64_mask_eq)
  ultimately show thesis using that [OF bytes(1)] om(1) acc by (simp add: scan_inv_def)
qed

text \<open>A decoded row holds the slots of its bucket.\<close>

lemma row_slot_slice:
  assumes "table_ok p t" "j < cp_arity p" "r < cp_segment_size p" "s < fv_bucket_size t"
  shows "slice_opt (db_row (cp_row_width p) (seg_db p t j) r) (s * cp_cells_per_slot p) (cp_cells_per_slot p) =
    Some (slot_cells t (j * cp_segment_size p + r) s)"
proof -
  let ?b = "j * cp_segment_size p + r" and ?cps = "cp_cells_per_slot p" and ?row = "db_row (cp_row_width p) (seg_db p t j) r"
  note t = table_okD [OF assms(1)]
  note d = describesD [OF t(3)]
  have b: "?b < fv_num_buckets t" using mult_add_less [OF assms(2,3)] t(6) by simp
  have cps: "fv_cells_per_slot t = ?cps" "fv_bucket_size t = cp_bucket_size p" using d(2) d(7) [OF t(1)] by simp_all
  have le: "s * ?cps + ?cps \<le> cp_row_width p"
    using mult_le_mono1 [of "Suc s" "cp_bucket_size p" ?cps] assms(4) cps by simp
  have len: "length ?row = cp_row_width p" by (simp add: db_row_def)
  have "take ?cps (drop (s * ?cps) ?row) = slot_cells t ?b s"
  proof (rule nth_equalityI)
    show l: "length (take ?cps (drop (s * ?cps) ?row)) = length (slot_cells t ?b s)"
      using slot_cells_length(2) [OF t(1) b assms(4)] cps le len by simp
    fix c assume "c < length (take ?cps (drop (s * ?cps) ?row))"
    then have c: "c < ?cps" by simp
    then have lt: "s * ?cps + c < cp_row_width p" using le by linarith
    have "drop (s * ?cps) ?row ! c = ?row ! (s * ?cps + c)" by (rule nth_drop) (use assms(4) cps len in simp)
    then have "take ?cps (drop (s * ?cps) ?row) ! c = mcell (cp_row_width p) (seg_db p t j) r (s * ?cps + c)"
      using c lt by (simp add: db_row_def)
    also have "\<dots> = tcell t ?b (s * ?cps + c)" by (rule seg_db_mcell [OF assms(1-3) lt])
    also have "\<dots> = slot_cells t ?b s ! c" using tcell_slot [OF t(1) b assms(4), of c] c cps by simp
    finally show "take ?cps (drop (s * ?cps) ?row) ! c = slot_cells t ?b s ! c" .
  qed
  then show ?thesis using le len by (simp add: slice_opt_def)
qed

lemma scan_row_ok:
  assumes "table_ok p t" "j < cp_arity p" "r < cp_segment_size p" "scan_inv t fp L st"
  obtains st' where "scan_row p fp (db_row (cp_row_width p) (seg_db p t j) r) st = Some st'"
    "scan_inv t fp (L @ map (Pair (j * cp_segment_size p + r)) [0..<fv_bucket_size t]) st'"
proof -
  let ?b = "j * cp_segment_size p + r" and ?row = "db_row (cp_row_width p) (seg_db p t j) r"
  note t = table_okD [OF assms(1)]
  have b: "?b < fv_num_buckets t" using mult_add_less [OF assms(2,3)] t(6) by simp
  have bs: "cp_bucket_size p = fv_bucket_size t" using describesD(2) [OF t(3)] .
  define body where "body s st = (case st of (acc, found_mask) \<Rightarrow> do {
      slot \<leftarrow> slice_opt ?row (s * cp_cells_per_slot p) (cp_cells_per_slot p);
      (decoded_fp, value_bytes) \<leftarrow> unpack_slot_cells p slot;
      let mask64 = ct_eq_u64_mask decoded_fp fp;
      let mask8 = ucast (mask64 AND 0xFF);
      Some (or_masked mask8 acc value_bytes, found_mask OR mask64) })" for s st
  define P where "P s st \<longleftrightarrow> scan_inv t fp (L @ map (Pair ?b) [0..<s]) st" for s st
  have step: "\<exists>st'. body s st = Some st' \<and> P (Suc s) st'" if s: "s < fv_bucket_size t" and P: "P s st" for s st
  proof -
    obtain acc fm where st: "st = (acc, fm)" by fastforce
    obtain fp' bytes where "unpack_slot_cells p (slot_cells t ?b s) = Some (fp', bytes)"
      "scan_inv t fp ((L @ map (Pair ?b) [0..<s]) @ [(?b, s)])
        (or_masked (ucast (ct_eq_u64_mask fp' fp AND 0xFF)) acc bytes, fm OR ct_eq_u64_mask fp' fp)"
      using scan_slot [OF assms(1) b s] P unfolding P_def st by blast
    then show ?thesis using row_slot_slice [OF assms(1-3) s] by (simp add: body_def st P_def Let_def)
  qed
  have "P 0 st" using assms(4) by (simp add: P_def)
  then obtain st' where "fold_opt body [0..<fv_bucket_size t] st = Some st'" "P (fv_bucket_size t) st'"
    by (rule fold_opt_upt [where P = P and f = body, OF _ step])
  moreover have "scan_row p fp ?row st = fold_opt body [0..<fv_bucket_size t] st"
    by (auto simp: scan_row_def body_def bs intro!: fold_opt_cong split: prod.split)
  ultimately show thesis using that by (simp add: P_def)
qed

section \<open>What a client sees of the store\<close>

definition client_view :: "(u8 list \<Rightarrow> u128) \<Rightarrow> kv_store \<Rightarrow> u8 list \<Rightarrow> u8 list option \<Rightarrow> bool" where
  "client_view xxh st key res \<longleftrightarrow> (case res of
     None \<Rightarrow> kv_values xxh st key = {}
   | Some bytes \<Rightarrow> kv_values xxh st key \<noteq> {} \<and> length bytes = kv_value_size_in_bytes st \<and>
       (\<forall>k < 8 * length bytes. bbit bytes k \<longleftrightarrow>
          (\<exists>v \<in> kv_values xxh st key. k < fv_value_bits (kv_table st) \<and> cbit (fv_plaintext_bits (kv_table st)) v k)))"

text \<open>With at most one value per key, the view is what \<open>get\<close> returns.\<close>

lemma client_view_get:
  assumes "kv_inv st" "client_view xxh st key res"
    and "\<And>v w. v \<in> kv_values xxh st key \<Longrightarrow> w \<in> kv_values xxh st key \<Longrightarrow> v = w"
  shows "kv_get xxh st key = Some res"
proof (cases "kv_values xxh st key = {}")
  case True
  then show ?thesis using kv_get_miss [OF assms(1) True] assms(2) by (cases res) (simp_all add: client_view_def)
next
  case False
  obtain v bytes where v: "v \<in> kv_values xxh st key" "kv_get xxh st key = Some (Some bytes)" "kv_decodes st v bytes"
    by (rule kv_get_some [OF assms(1) False])
  have "kv_values xxh st key = {v}" using v(1) assms(3) by blast
  then obtain bs where bs: "res = Some bs" "kv_decodes st v bs"
    using assms(2) by (cases res) (auto simp: client_view_def decodes_def kv_value_size_in_bytes_def)
  then show ?thesis using decodes_unique [OF v(3) bs(2)] v(2) by simp
qed

lemma scan_view:
  assumes "kv_inv st" "hash_item xxh (kv_scheme st) key (fv_fingerprint_bits (kv_table st)) = (fp, idx)"
    and "scan_inv (kv_table st) fp (probe_slots [0..<arity (kv_scheme st)] (fv_bucket_size (kv_table st)) idx) s"
  shows "client_view xxh st key (scan_result s)"
proof -
  let ?t = "kv_table st" and ?L = "probe_slots [0..<arity (kv_scheme st)] (fv_bucket_size (kv_table st)) idx"
  note hit = probe_hit_iff [OF assms(1,2)]
  have some: "(\<exists>x \<in> set ?L. fst (fv.view ?t x) = fp \<and> Q (snd (fv.view ?t x))) \<longleftrightarrow> (\<exists>v \<in> kv_values xxh st key. Q v)" for Q
    unfolding Bex_def hit by (metis prod.collapse fst_conv snd_conv)
  have ne: "(\<exists>x \<in> set ?L. fst (fv.view ?t x) = fp) \<longleftrightarrow> kv_values xxh st key \<noteq> {}"
    using some [of "\<lambda>_. True"] by auto
  obtain acc fm where s: "s = (acc, fm)" by fastforce
  have acc: "length acc = kv_value_size_in_bytes st" "fm \<noteq> 0 \<longleftrightarrow> kv_values xxh st key \<noteq> {}"
    using assms(3) by (simp_all add: scan_inv_def s ne kv_value_size_in_bytes_def)
  have "bbit acc k \<longleftrightarrow> (\<exists>v \<in> kv_values xxh st key. k < fv_value_bits ?t \<and> cbit (fv_plaintext_bits ?t) v k)"
    if "k < 8 * length acc" for k
    using assms(3) that some [of "\<lambda>v. cbit (fv_plaintext_bits ?t) v k"] by (auto simp: scan_inv_def s)
  then show ?thesis using acc by (auto simp: client_view_def scan_result_def s)
qed

section \<open>Candidate rows\<close>

lemma cp_scheme_eq:
  assumes "kv_inv st" "kv_params st = Some p"
  shows "cp_scheme p = kv_scheme st" "cp_arity p = arity (kv_scheme st)"
    "\<And>xxh key. candidate_buckets xxh p key = hash_item xxh (kv_scheme st) key (fv_fingerprint_bits (kv_table st))"
proof -
  have nb: "fv_num_buckets (kv_table st) = scheme_buckets (kv_scheme st)" using assms(1) by (simp add: kv_inv_def)
  show s: "cp_scheme p = kv_scheme st" "cp_arity p = arity (kv_scheme st)"
    using assms(2) nb
    by (cases "kv_scheme st"; auto simp: kv_params_def cp_scheme_def cp_arity_def cp_segment_size_def)+
  have "cp_fingerprint_bits p = fv_fingerprint_bits (kv_table st)"
    using kv_params_describes [OF assms(2)] by (simp add: describes_def)
  then show "candidate_buckets xxh p key = hash_item xxh (kv_scheme st) key (fv_fingerprint_bits (kv_table st))" for xxh key
    by (simp add: candidate_buckets_def s(1))
qed

text \<open>Candidate bucket \<open>j\<close> is in segment \<open>j\<close>.\<close>

lemma hash_item_segment:
  assumes "valid_scheme s" "scheme_meta s \<noteq> None" "hash_item xxh s key fb = (fp, idx)" "j < arity s"
  shows "j * (scheme_buckets s div arity s) \<le> unat (idx ! j)"
    "unat (idx ! j) < Suc j * (scheme_buckets s div arity s)" "length idx = 4"
proof -
  have "j * (scheme_buckets s div arity s) \<le> unat (idx ! j) \<and>
      unat (idx ! j) < Suc j * (scheme_buckets s div arity s) \<and> length idx = 4"
  proof (cases s)
    case (Segmented2aryScheme seg)
    have i1: "ucast (drop_bit 64 (xxh key)) AND (seg - 1) < seg"
      using assms(1) Segmented2aryScheme seg_ok_pow2 [of 2 seg] and_pow2_less by (metis valid_scheme.simps(2))
    show ?thesis
      using hash_item_segmented(1) [of xxh key seg fb fp idx] assms Segmented2aryScheme
        chain_nth_unat(1) [of 2 seg "idx ! 0" j fp] i1 chain_length by auto
  next
    case (Segmented3aryScheme seg)
    have i1: "ucast (drop_bit 64 (xxh key)) AND (seg - 1) < seg"
      using assms(1) Segmented3aryScheme seg_ok_pow2 [of 3 seg] and_pow2_less by (metis valid_scheme.simps(4))
    show ?thesis
      using hash_item_segmented(2) [of xxh key seg fb fp idx] assms Segmented3aryScheme
        chain_nth_unat(2) [of 3 seg "idx ! 0" j fp] i1 chain_length by auto
  next
    case (Segmented4aryScheme seg)
    have i1: "ucast (drop_bit 64 (xxh key)) AND (seg - 1) < seg"
      using assms(1) Segmented4aryScheme seg_ok_pow2 [of 4 seg] and_pow2_less by (metis valid_scheme.simps(6))
    show ?thesis
      using hash_item_segmented(3) [of xxh key seg fb fp idx] assms Segmented4aryScheme
        chain_nth_unat(3) [of 4 seg "idx ! 0" j fp] i1 chain_length by auto
  qed (use assms(2) in simp_all)
  then show "j * (scheme_buckets s div arity s) \<le> unat (idx ! j)"
    "unat (idx ! j) < Suc j * (scheme_buckets s div arity s)" "length idx = 4" by blast+
qed

lemma candidate_rows:
  assumes "kv_inv st" "kv_params st = Some p" "candidate_buckets xxh p key = (fp, idx)" "j < cp_arity p"
  shows "j < length idx" "unat (idx ! j) mod cp_segment_size p < cp_segment_size p"
    "j * cp_segment_size p + unat (idx ! j) mod cp_segment_size p = unat (idx ! j)"
proof -
  note sch = cp_scheme_eq [OF assms(1,2)]
  have v: "valid_scheme (kv_scheme st)" "scheme_meta (kv_scheme st) \<noteq> None"
    using assms(1,2) by (auto simp: kv_inv_def kv_params_def split: option.splits)
  have ss: "cp_segment_size p = scheme_buckets (kv_scheme st) div arity (kv_scheme st)"
    using sch(2) kv_params_describes [OF assms(2)] assms(1)
    by (simp add: cp_segment_size_def describes_def kv_inv_def)
  have h: "hash_item xxh (kv_scheme st) key (fv_fingerprint_bits (kv_table st)) = (fp, idx)"
    using assms(3) sch(3) by simp
  have j: "j < arity (kv_scheme st)" using assms(4) sch(2) by simp
  note seg = hash_item_segment [OF v h j, folded ss]
  show "j < length idx" using seg(3) j scheme_arity_range [of "kv_scheme st"] by simp
  have pos: "0 < cp_segment_size p" using seg(1,2) by (cases "cp_segment_size p") auto
  then show "unat (idx ! j) mod cp_segment_size p < cp_segment_size p" by simp
  have "unat (idx ! j) div cp_segment_size p = j"
    by (rule div_nat_eqI) (use seg(1,2) in \<open>simp_all add: mult.commute\<close>)
  then show "j * cp_segment_size p + unat (idx ! j) mod cp_segment_size p = unat (idx ! j)"
    using div_mult_mod_eq [of "unat (idx ! j)" "cp_segment_size p"] by simp
qed

end
