(* ===== verification/Pending.thy ===== *)
theory Pending
  imports Clients Server_Correct
begin

text \<open>
  \<open>PendingDelta\<close>: the running sum of published deltas is, cell by cell, the difference of the table at
  the head and the table at the pin; merging never overflows, the row view and the row-delta view
  of a segment read the same differences.
\<close>

definition pend_ok :: "cuckoo_params \<Rightarrow> fv_table \<Rightarrow> fv_table \<Rightarrow> pending_delta \<Rightarrow> bool" where
  "pend_ok p t u pend \<longleftrightarrow> length pend = cp_arity p \<and>
     (\<forall>j < cp_arity p. bt_ok (pend ! j) \<and>
       (\<forall>x \<in> set (pend ! j). fst (fst x) < cp_segment_size p \<and> snd (fst x) < cp_row_width p) \<and>
       (\<forall>r < cp_segment_size p. \<forall>k < cp_row_width p.
          bt_delta (pend ! j) (r, k) = cell_diff t u (j * cp_segment_size p + r) k))"

lemma pend_ok_new: "pend_ok p t t (pending_new (cp_arity p))"
  by (simp add: pend_ok_def pending_new_def cell_diff_def)

lemma pend_ok_clear: "pend_ok p t u pend \<Longrightarrow> pend_ok p u u (pending_clear pend)"
  by (simp add: pend_ok_def pending_clear_def cell_diff_def)

section \<open>Merging\<close>

text \<open>The three nested loops of \<open>merge\<close> as one loop over all cells.\<close>

lemma fold_res_append:
  "fold_res f (xs @ ys) s = do { r \<leftarrow> fold_res f xs s; case r of Inl e \<Rightarrow> Some (Inl e) | Inr s' \<Rightarrow> fold_res f ys s' }"
proof (induction xs arbitrary: s)
  case (Cons x xs)
  then show ?case by (cases "f x s") (auto split: sum.split)
qed simp

lemma fold_res_map: "fold_res f (map g xs) s = fold_res (\<lambda>x. f (g x)) xs s"
  by (induction xs arbitrary: s) (auto intro!: bind_option_cong split: sum.split)

lemma fold_res_nested:
  "fold_res (\<lambda>x. fold_res (g x) (h x)) xs s = fold_res (\<lambda>(x, y). g x y) (concat (map (\<lambda>x. map (Pair x) (h x)) xs)) s"
  by (induction xs arbitrary: s) (auto simp: fold_res_append fold_res_map intro!: bind_option_cong split: sum.split)

definition cell_entries :: "row_deltas list \<Rightarrow> ((nat \<times> nat) \<times> nat \<times> int) list" where
  "cell_entries rds = concat (map (\<lambda>((seg, row), cells). map (Pair (seg, row)) cells)
     (concat (map (\<lambda>(seg, rows). map (\<lambda>(row, cells). ((seg, row), cells)) rows) (enumerate 0 rds))))"

lemma pending_merge_flat:
  "pending_merge rds pend = fold_res (\<lambda>((seg, row), cell). merge_cell seg row cell) (cell_entries rds) pend"
proof -
  have "pending_merge rds pend = fold_res (\<lambda>x. fold_res (\<lambda>y. fold_res (merge_cell (fst x) (fst y)) (snd y)) (snd x)) (enumerate 0 rds) pend"
    unfolding pending_merge_def by (rule fold_res_cong) (auto simp: split_def)
  also have "\<dots> = fold_res (\<lambda>(x, y). fold_res (merge_cell (fst x) (fst y)) (snd y))
      (concat (map (\<lambda>x. map (Pair x) (snd x)) (enumerate 0 rds))) pend"
    by (rule fold_res_nested)
  also have "\<dots> = fold_res (\<lambda>z. fold_res (merge_cell (fst (fst z)) (snd (fst z))) (snd z))
      (map (\<lambda>(x, y). ((fst x, fst y), snd y)) (concat (map (\<lambda>x. map (Pair x) (snd x)) (enumerate 0 rds)))) pend"
    unfolding fold_res_map by (rule fold_res_cong) (auto simp: split_def)
  also have "map (\<lambda>(x, y). ((fst x, fst y), snd y)) (concat (map (\<lambda>x. map (Pair x) (snd x)) (enumerate 0 rds))) =
      concat (map (\<lambda>(seg, rows). map (\<lambda>(row, cells). ((seg, row), cells)) rows) (enumerate 0 rds))"
    by (simp add: map_concat comp_def split_def)
  also have "fold_res (\<lambda>z. fold_res (merge_cell (fst (fst z)) (snd (fst z))) (snd z)) \<dots> pend =
      fold_res (\<lambda>(z, cell). merge_cell (fst (fst z)) (snd (fst z)) cell)
        (concat (map (\<lambda>z. map (Pair z) (snd z)) \<dots>)) pend"
    by (rule fold_res_nested)
  also have "\<dots> = fold_res (\<lambda>((seg, row), cell). merge_cell seg row cell) (cell_entries rds) pend"
  proof -
    have "cell_entries rds = map (\<lambda>(z, cell). (fst z, cell)) (concat (map (\<lambda>z. map (Pair z) (snd z))
        (concat (map (\<lambda>(seg, rows). map (\<lambda>(row, cells). ((seg, row), cells)) rows) (enumerate 0 rds)))))"
      by (simp add: cell_entries_def map_concat comp_def split_def)
    then show ?thesis by (simp only: fold_res_map) (rule fold_res_cong, auto simp: split_def)
  qed
  finally show ?thesis .
qed

lemma in_cell_entries:
  "((seg, row), off, d) \<in> set (cell_entries rds) \<longleftrightarrow>
    seg < length rds \<and> (\<exists>cells. (row, cells) \<in> set (rds ! seg) \<and> (off, d) \<in> set cells)"
proof -
  have "((seg, row), off, d) \<in> set (cell_entries rds) \<longleftrightarrow>
      (\<exists>x \<in> set (enumerate 0 rds). \<exists>y \<in> set (snd x). fst x = seg \<and> fst y = row \<and> (off, d) \<in> set (snd y))"
    by (auto simp: cell_entries_def split_def)
  also have "\<dots> \<longleftrightarrow> seg < length rds \<and> (\<exists>y \<in> set (rds ! seg). fst y = row \<and> (off, d) \<in> set (snd y))"
    unfolding Bex_def by (auto simp: in_set_enumerate_eq intro!: exI [of _ "(seg, rds ! seg)"])
  finally show ?thesis by force
qed

lemma distinct_concat_tagged:
  assumes "distinct (map t xs)" "\<And>x. x \<in> set xs \<Longrightarrow> distinct (map key (f x))"
    and "\<And>x y. x \<in> set xs \<Longrightarrow> y \<in> set (f x) \<Longrightarrow> g (key y) = t x"
  shows "distinct (map key (concat (map f xs)))"
  using assms
proof (induction xs)
  case (Cons x xs)
  have "key y \<noteq> key z" if y: "y \<in> set (f x)" and z: "x' \<in> set xs" "z \<in> set (f x')" for y z x'
  proof
    assume "key y = key z"
    then have "t x = t x'" using Cons.prems(3) [of x y] Cons.prems(3) [of x' z] y z by simp
    then show False using Cons.prems(1) z(1) by auto
  qed
  then have "key ` set (f x) \<inter> key ` (\<Union>a \<in> set xs. set (f a)) = {}" by blast
  then show ?case using Cons by auto
qed simp

definition entry_key :: "(nat \<times> nat) \<times> nat \<times> int \<Rightarrow> nat \<times> nat \<times> nat" where
  "entry_key x = (fst (fst x), snd (fst x), fst (snd x))"

lemma cell_entries_distinct:
  assumes "\<And>j. j < length rds \<Longrightarrow> canonical (rds ! j)"
  shows "distinct (map entry_key (cell_entries rds))"
proof -
  let ?rows = "concat (map (\<lambda>(seg, rows). map (\<lambda>(row, cells). ((seg, row), cells)) rows) (enumerate 0 rds))"
  have rows: "distinct (map fst ?rows)"
  proof (rule distinct_concat_tagged [where t = fst and g = fst])
    fix x assume "x \<in> set (enumerate 0 rds)"
    then have "bt_ok (snd x)" using assms [of "fst x"] by (auto simp: in_set_enumerate_eq canonical_def)
    then have "distinct (map fst (snd x))" by (rule bt_ok_distinct)
    then show "distinct (map fst ((\<lambda>(seg, rows). map (\<lambda>(row, cells). ((seg, row), cells)) rows) x))"
      by (auto simp: split_def distinct_map inj_on_def)
  qed (auto simp: distinct_enumerate)
  show ?thesis unfolding cell_entries_def
  proof (rule distinct_concat_tagged [where t = fst and g = "\<lambda>k. (fst k, fst (snd k))", OF rows])
    fix x assume "x \<in> set ?rows"
    then have "bt_ok (snd x)" using assms by (fastforce simp: in_set_enumerate_eq canonical_def)
    then have "distinct (map fst (snd x))" by (rule bt_ok_distinct)
    then show "distinct (map entry_key ((\<lambda>((seg, row), cells). map (Pair (seg, row)) cells) x))"
      by (auto simp: split_def distinct_map inj_on_def entry_key_def)
  qed (auto simp: entry_key_def)
qed

lemma sum_list_map_concat: "sum_list (map f (concat xss)) = (\<Sum>xs \<leftarrow> xss. sum_list (map f xs))"
  by (induction xss) simp_all

lemma sum_list_enumerate:
  "n \<le> j \<Longrightarrow> j < n + length xs \<Longrightarrow> (\<Sum>(i, x) \<leftarrow> enumerate n xs. if i = j then f x else 0) = (f (xs ! (j - n)) :: int)"
proof (induction xs arbitrary: n)
  case (Cons x xs)
  show ?case
  proof (cases "n = j")
    case True
    have "(\<Sum>(i, x) \<leftarrow> enumerate (Suc n) xs. if i = j then f x else 0) = (\<Sum>_ \<leftarrow> enumerate (Suc n) xs. 0)"
      using True by (intro arg_cong [where f = sum_list] map_cong) (auto simp: in_set_enumerate_eq)
    then have "(\<Sum>(i, x) \<leftarrow> enumerate (Suc n) xs. if i = j then f x else 0) = 0" by (simp only: sum_list_0)
    then show ?thesis using True by simp
  next
    case False
    then show ?thesis using Cons by (simp add: nth_Cons')
  qed
qed simp

lemma cell_entries_sum:
  assumes "j < length rds"
  shows "(\<Sum>((seg, row), off, d) \<leftarrow> cell_entries rds. if seg = j \<and> (row, off) = (r, k) then d else 0) = row_delta (rds ! j) r k"
proof -
  have "(\<Sum>((seg, row), off, d) \<leftarrow> cell_entries rds. if seg = j \<and> (row, off) = (r, k) then d else 0) =
      (\<Sum>(seg, rows) \<leftarrow> enumerate 0 rds. if seg = j then row_delta rows r k else 0)"
  proof -
    have cells: "(\<Sum>x \<leftarrow> cells. if seg = j \<and> row = r \<and> fst x = k then snd x else 0) =
        (if seg = j \<and> row = r then cell_delta cells k else 0)" for seg row cells
      by (induction cells) auto
    have rows: "(\<Sum>x \<leftarrow> rows. if seg = j \<and> fst x = r then cell_delta (snd x) k else 0) =
        (if seg = j then row_delta rows r k else 0)" for seg rows
      by (induction rows) auto
    show ?thesis
      by (simp add: cell_entries_def sum_list_map_concat comp_def split_def cells rows cong: if_cong)
  qed
  also have "\<dots> = row_delta (rds ! j) r k" using sum_list_enumerate [of 0 j rds "\<lambda>rows. row_delta rows r k"] assms by simp
  finally show ?thesis .
qed

lemma merge_cell_ok:
  assumes "seg < length pend" "bt_ok (pend ! seg)" "i64_ok (bt_delta (pend ! seg) (row, off) + d)"
  obtains m where "merge_cell seg row (off, d) pend = Some (Inr (pend[seg := m]))" "bt_ok m"
    "\<And>key. bt_delta m key = bt_delta (pend ! seg) key + (if key = (row, off) then d else 0)"
    "\<And>x. x \<in> set m \<Longrightarrow> fst x = (row, off) \<or> x \<in> set (pend ! seg)"
proof (cases "map_of (pend ! seg) (row, off)")
  case None
  then have z: "bt_delta (pend ! seg) (row, off) = 0" by (simp add: bt_delta_def)
  show thesis
  proof (cases "d = 0")
    case True
    then show thesis
      using that [of "pend ! seg"] None assms(1,2) by (simp add: merge_cell_def)
  next
    case False
    then show thesis
      using that [of "bt_insert (row, off) d (pend ! seg)"] None assms z bt_insert_ok [OF assms(2)]
        bt_insert_in [of _ _ "(row, off)" d "pend ! seg"]
      by (fastforce simp: merge_cell_def bt_delta_insert)
  qed
next
  case (Some o')
  then have o': "bt_delta (pend ! seg) (row, off) = o'" by (simp add: bt_delta_def)
  show thesis
  proof (cases "o' + d = 0")
    case True
    show thesis
    proof (rule that [of "bt_remove (row, off) (pend ! seg)"])
      show "merge_cell seg row (off, d) pend = Some (Inr (pend[seg := bt_remove (row, off) (pend ! seg)]))"
        using True Some assms o' by (simp add: merge_cell_def checked_add_i64_def)
      show "bt_delta (bt_remove (row, off) (pend ! seg)) key =
          bt_delta (pend ! seg) key + (if key = (row, off) then d else 0)" for key
        using True o' bt_delta_remove [OF assms(2), of "(row, off)" key] by simp
    qed (use bt_remove_ok [OF assms(2)] bt_remove_subset [of "(row, off)" "pend ! seg"] in auto)
  next
    case False
    then show thesis
      using that [of "bt_insert (row, off) (o' + d) (pend ! seg)"] Some assms o' bt_insert_ok [OF assms(2)]
        bt_insert_in [of _ _ "(row, off)" "o' + d" "pend ! seg"]
      by (fastforce simp: merge_cell_def checked_add_i64_def bt_delta_insert)
  qed
qed

text \<open>What a merge of the cells \<open>es\<close> makes of one running sum, and how far a merge gets: it stops at the
  first cell whose sum leaves \<open>i64\<close>, and keeps the sums of the cells before it.\<close>

definition merged_delta :: "pending_delta \<Rightarrow> ((nat \<times> nat) \<times> nat \<times> int) list \<Rightarrow> nat \<Rightarrow> nat \<times> nat \<Rightarrow> int" where
  "merged_delta pend es seg key = bt_delta (pend ! seg) key +
     (\<Sum>((seg', row), off, d) \<leftarrow> es. if seg' = seg \<and> (row, off) = key then d else 0)"

lemma merged_delta_Nil [simp]: "merged_delta pend [] seg key = bt_delta (pend ! seg) key"
  by (simp add: merged_delta_def)

lemma merge_cell_overflow:
  assumes "seg < length pend" "i64_ok d" "\<not> i64_ok (bt_delta (pend ! seg) (row, off) + d)"
  shows "merge_cell seg row (off, d) pend = Some (Inl pend)"
  using assms by (cases "map_of (pend ! seg) (row, off)") (auto simp: merge_cell_def bt_delta_def checked_add_i64_def)

lemma merge_entries_prefix:
  assumes "\<And>seg row off d. ((seg, row), off, d) \<in> set es \<Longrightarrow> seg < length pend \<and> i64_ok d"
    and "\<And>j. j < length pend \<Longrightarrow> bt_ok (pend ! j)" "\<And>j key. j < length pend \<Longrightarrow> i64_ok (bt_delta (pend ! j) key)"
  shows "\<exists>pre post pend'. es = pre @ post \<and> length pend' = length pend \<and>
    fold_res (\<lambda>((seg, row), cell). merge_cell seg row cell) es pend = Some (if post = [] then Inr pend' else Inl pend') \<and>
    (\<forall>j < length pend. bt_ok (pend' ! j) \<and> (\<forall>key. bt_delta (pend' ! j) key = merged_delta pend pre j key)) \<and>
    (\<forall>n \<le> length pre. \<forall>j < length pend. \<forall>key. i64_ok (merged_delta pend (take n pre) j key)) \<and>
    (post \<noteq> [] \<longrightarrow> (case hd post of ((seg, row), off, d) \<Rightarrow> \<not> i64_ok (merged_delta pend pre seg (row, off) + d)))"
  using assms
proof (induction es arbitrary: pend)
  case Nil
  then show ?case by (intro exI [of _ "[]"] exI [of _ pend]) simp
next
  case (Cons x es)
  obtain seg row off d where x: "x = ((seg, row), off, d)" by (metis surj_pair)
  have seg: "seg < length pend" "i64_ok d" using Cons.prems(1) [of seg row off d] by (simp_all add: x)
  show ?case
  proof (cases "i64_ok (bt_delta (pend ! seg) (row, off) + d)")
    case False
    then have "merge_cell seg row (off, d) pend = Some (Inl pend)" by (rule merge_cell_overflow [OF seg])
    then show ?thesis
      using False Cons.prems(2,3) by (intro exI [of _ "[]"] exI [of _ "x # es"] exI [of _ pend]) (simp add: x)
  next
    case True
    obtain m where m: "merge_cell seg row (off, d) pend = Some (Inr (pend[seg := m]))" "bt_ok m"
      "\<And>key. bt_delta m key = bt_delta (pend ! seg) key + (if key = (row, off) then d else 0)"
      using merge_cell_ok [OF seg(1) Cons.prems(2) [OF seg(1)] True] by metis
    let ?p = "pend[seg := m]"
    have one: "merged_delta ?p es' j key = merged_delta pend (x # es') j key" if "j < length pend" for es' j key
      using m(3) [of key] seg(1) that by (cases "j = seg") (auto simp: merged_delta_def x)
    have ok: "bt_ok (?p ! j)" "i64_ok (bt_delta (?p ! j) key)" if "j < length ?p" for j key
      using that Cons.prems(2,3) m(2) m(3) [of key] True seg(1) by (cases "j = seg"; simp)+
    obtain pre post pend' where r: "es = pre @ post" "length pend' = length ?p"
      "fold_res (\<lambda>((seg, row), cell). merge_cell seg row cell) es ?p = Some (if post = [] then Inr pend' else Inl pend')"
      "\<And>j. j < length ?p \<Longrightarrow> bt_ok (pend' ! j) \<and> (\<forall>key. bt_delta (pend' ! j) key = merged_delta ?p pre j key)"
      "\<And>n j key. n \<le> length pre \<Longrightarrow> j < length ?p \<Longrightarrow> i64_ok (merged_delta ?p (take n pre) j key)"
      "post \<noteq> [] \<longrightarrow> (case hd post of ((seg, row), off, d) \<Rightarrow> \<not> i64_ok (merged_delta ?p pre seg (row, off) + d))"
      using Cons.IH [of ?p] Cons.prems(1) ok by (metis (no_types, lifting) length_list_update list.set_intros(2))
    have "i64_ok (merged_delta pend (take n (x # pre)) j key)" if "n \<le> length (x # pre)" "j < length pend" for n j key
      using that r(5) [of "n - 1" j key] one [of j] Cons.prems(3) by (cases n) simp_all
    moreover have "case hd post of ((seg, row), off, d) \<Rightarrow> \<not> i64_ok (merged_delta pend (x # pre) seg (row, off) + d)" if "post \<noteq> []"
    proof -
      obtain s' r' o' d' where h: "hd post = ((s', r'), o', d')" by (metis surj_pair)
      then have "s' < length pend" using Cons.prems(1) [of s' r' o' d'] that r(1) hd_in_set [OF that] by simp
      then show ?thesis using r(6) that one [of s' pre] by (simp add: h)
    qed
    ultimately show ?thesis
      using r(1-4) m(1) one by (intro exI [of _ "x # pre"] exI [of _ post] exI [of _ pend']) (simp add: x)
  qed
qed

lemma pending_merge_prefix:
  assumes "\<forall>x \<in> set (cell_entries rds). fst (fst x) < length pend \<and> i64_ok (snd (snd x))"
    and "\<forall>j < length pend. bt_ok (pend ! j) \<and> (\<forall>key. i64_ok (bt_delta (pend ! j) key))"
  shows "\<exists>pre post pend'. cell_entries rds = pre @ post \<and> length pend' = length pend \<and>
    pending_merge rds pend = Some (if post = [] then Inr pend' else Inl pend') \<and>
    (\<forall>j < length pend. bt_ok (pend' ! j) \<and> (\<forall>key. bt_delta (pend' ! j) key = merged_delta pend pre j key)) \<and>
    (\<forall>n \<le> length pre. \<forall>j < length pend. \<forall>key. i64_ok (merged_delta pend (take n pre) j key)) \<and>
    (post \<noteq> [] \<longrightarrow> (case hd post of ((seg, row), off, d) \<Rightarrow> \<not> i64_ok (merged_delta pend pre seg (row, off) + d)))"
  unfolding pending_merge_flat by (rule merge_entries_prefix) (use assms in auto)

lemma merge_entries_ok:
  assumes "distinct (map entry_key ents)"
    and "\<And>seg row off d. ((seg, row), off, d) \<in> set ents \<Longrightarrow> seg < length pend \<and> row < n \<and> off < w \<and>
      i64_ok (bt_delta (pend ! seg) (row, off) + d)"
    and "\<And>j. j < length pend \<Longrightarrow> bt_ok (pend ! j) \<and> (\<forall>x \<in> set (pend ! j). fst (fst x) < n \<and> snd (fst x) < w)"
  shows "\<exists>pend'. fold_res (\<lambda>((seg, row), cell). merge_cell seg row cell) ents pend = Some (Inr pend') \<and>
    length pend' = length pend \<and>
    (\<forall>j < length pend. bt_ok (pend' ! j) \<and> (\<forall>x \<in> set (pend' ! j). fst (fst x) < n \<and> snd (fst x) < w) \<and>
      (\<forall>key. bt_delta (pend' ! j) key = bt_delta (pend ! j) key +
         (\<Sum>((seg, row), off, d) \<leftarrow> ents. if seg = j \<and> (row, off) = key then d else 0)))"
  using assms
proof (induction ents arbitrary: pend)
  case (Cons x ents)
  obtain seg row off d where x: "x = ((seg, row), off, d)" by (metis surj_pair)
  have seg: "seg < length pend" "row < n" "off < w" "i64_ok (bt_delta (pend ! seg) (row, off) + d)"
    using Cons.prems(2) [of seg row off d] by (simp_all add: x)
  obtain m where m: "merge_cell seg row (off, d) pend = Some (Inr (pend[seg := m]))" "bt_ok m"
    "\<And>key. bt_delta m key = bt_delta (pend ! seg) key + (if key = (row, off) then d else 0)"
    "\<And>x. x \<in> set m \<Longrightarrow> fst x = (row, off) \<or> x \<in> set (pend ! seg)"
    using merge_cell_ok [OF seg(1) _ seg(4)] Cons.prems(3) [OF seg(1)] by blast
  let ?p = "pend[seg := m]"
  have del: "bt_delta (?p ! j) key = bt_delta (pend ! j) key + (if seg = j \<and> (row, off) = key then d else 0)"
    if "j < length pend" for j key
    using m(3) [of key] seg(1) by (cases "seg = j") auto
  have "\<exists>pend'. fold_res (\<lambda>((seg, row), cell). merge_cell seg row cell) ents ?p = Some (Inr pend') \<and>
    length pend' = length ?p \<and>
    (\<forall>j < length ?p. bt_ok (pend' ! j) \<and> (\<forall>x \<in> set (pend' ! j). fst (fst x) < n \<and> snd (fst x) < w) \<and>
      (\<forall>key. bt_delta (pend' ! j) key = bt_delta (?p ! j) key +
         (\<Sum>((seg, row), off, d) \<leftarrow> ents. if seg = j \<and> (row, off) = key then d else 0)))"
  proof (rule Cons.IH)
    show "distinct (map entry_key ents)" using Cons.prems(1) by simp
    fix seg' row' off' d' assume e: "((seg', row'), off', d') \<in> set ents"
    then have "entry_key ((seg', row'), off', d') \<noteq> entry_key x" using Cons.prems(1) by (metis list.simps(9) distinct.simps(2) image_eqI list.set_map)
    then have ne: "\<not> (seg = seg' \<and> (row, off) = (row', off'))" by (auto simp: entry_key_def x)
    have old: "seg' < length pend \<and> row' < n \<and> off' < w \<and> i64_ok (bt_delta (pend ! seg') (row', off') + d')"
      using Cons.prems(2) [of seg' row' off' d'] e by simp
    then show "seg' < length ?p \<and> row' < n \<and> off' < w \<and> i64_ok (bt_delta (?p ! seg') (row', off') + d')"
      using del [of seg' "(row', off')"] ne by auto
  next
    fix j assume "j < length ?p"
    then show "bt_ok (?p ! j) \<and> (\<forall>x \<in> set (?p ! j). fst (fst x) < n \<and> snd (fst x) < w)"
      using Cons.prems(3) [of j] Cons.prems(3) [OF seg(1)] m(2,4) seg(2,3) by (cases "j = seg") fastforce+
  qed
  then show ?case using m(1) del by (auto simp: x)
qed simp

lemma pending_merge_ok:
  assumes "table_ok p t" "pend_ok p t0 t pend" "deltas_of p t u rds"
  obtains pend' where "pending_merge rds pend = Some (Inr pend')" "pend_ok p t0 u pend'"
proof -
  let ?ss = "cp_segment_size p" and ?w = "cp_row_width p"
  note w = table_okD(5) [OF assms(1)]
  have rds: "length rds = cp_arity p" "\<And>j. j < length rds \<Longrightarrow> canonical (rds ! j)"
    "\<And>j. j < cp_arity p \<Longrightarrow> edits_ok ?ss ?w (rds ! j)"
    "\<And>j r k. j < cp_arity p \<Longrightarrow> r < ?ss \<Longrightarrow> k < ?w \<Longrightarrow> row_delta (rds ! j) r k = cell_diff t u (j * ?ss + r) k"
    using assms(3) w by (simp_all add: deltas_of_def)
  have pend: "length pend = cp_arity p"
    "\<And>j. j < length pend \<Longrightarrow> bt_ok (pend ! j) \<and> (\<forall>x \<in> set (pend ! j). fst (fst x) < ?ss \<and> snd (fst x) < ?w)"
    "\<And>j r k. j < cp_arity p \<Longrightarrow> r < ?ss \<Longrightarrow> k < ?w \<Longrightarrow> bt_delta (pend ! j) (r, k) = cell_diff t0 t (j * ?ss + r) k"
    using assms(2) by (simp_all add: pend_ok_def)
  have add: "cell_diff t0 t b k + cell_diff t u b k = cell_diff t0 u b k" for b k by (simp add: cell_diff_def)
  have ents: "seg < length pend \<and> row < ?ss \<and> off < ?w \<and> i64_ok (bt_delta (pend ! seg) (row, off) + d)"
    if e: "((seg, row), off, d) \<in> set (cell_entries rds)" for seg row off d
  proof -
    obtain cells where c: "seg < cp_arity p" "(row, cells) \<in> set (rds ! seg)" "(off, d) \<in> set cells"
      using e rds(1) by (auto simp: in_cell_entries)
    have ro: "row < ?ss" "off < ?w" using rds(3) [OF c(1)] c(2,3) by (force simp: edits_ok_def)+
    have "row_delta (rds ! seg) row off = d" using canonical_entry(1) [OF rds(2) c(2,3)] c(1) rds(1) by simp
    then have "bt_delta (pend ! seg) (row, off) + d = cell_diff t0 u (seg * ?ss + row) off"
      using pend(3) [OF c(1) ro] rds(4) [OF c(1) ro] add [of "seg * ?ss + row" off] by simp
    then show ?thesis using c(1) ro pend(1) cell_diff_i64 by simp
  qed
  obtain pend' where p': "pending_merge rds pend = Some (Inr pend')" "length pend' = length pend"
    "\<forall>j < length pend. bt_ok (pend' ! j) \<and> (\<forall>x \<in> set (pend' ! j). fst (fst x) < ?ss \<and> snd (fst x) < ?w) \<and>
      (\<forall>key. bt_delta (pend' ! j) key = bt_delta (pend ! j) key +
         (\<Sum>((seg, row), off, d) \<leftarrow> cell_entries rds. if seg = j \<and> (row, off) = key then d else 0))"
    using merge_entries_ok [OF cell_entries_distinct [OF rds(2)] ents pend(2)] unfolding pending_merge_flat by blast
  have "bt_delta (pend' ! j) (r, k) = cell_diff t0 u (j * ?ss + r) k"
    if j: "j < cp_arity p" and r: "r < ?ss" and k: "k < ?w" for j r k
  proof -
    have "bt_delta (pend' ! j) (r, k) = bt_delta (pend ! j) (r, k) +
        (\<Sum>((seg, row), off, d) \<leftarrow> cell_entries rds. if seg = j \<and> (row, off) = (r, k) then d else 0)"
      using p'(3) [THEN spec, of j, THEN mp, THEN conjunct2, THEN conjunct2, THEN spec, of "(r, k)"] j pend(1)
      by argo
    then show ?thesis using cell_entries_sum [of j rds r k] j rds(1) rds(4) [OF j r k] pend(3) [OF j r k]
        add [of "j * ?ss + r" k] by simp
  qed
  then show thesis using p' pend(1) by (intro that [OF p'(1)]) (simp add: pend_ok_def)
qed

section \<open>The pending deltas of a segment\<close>

text \<open>Applied to the pinned segment, they give the segment at the head.\<close>

lemma pend_okD:
  assumes "pend_ok p t u pend" "j < cp_arity p"
  shows "j < length pend" "bt_ok (pend ! j)"
    "x \<in> set (pend ! j) \<Longrightarrow> fst (fst x) < cp_segment_size p \<and> snd (fst x) < cp_row_width p"
    "r < cp_segment_size p \<Longrightarrow> k < cp_row_width p \<Longrightarrow>
      bt_delta (pend ! j) (r, k) = cell_diff t u (j * cp_segment_size p + r) k"
  using assms by (simp_all add: pend_ok_def)

lemma edit_db_head:
  assumes "table_ok p t" "table_ok p u" "pend_ok p t u pend" "j < cp_arity p"
    and "\<And>r k. row_delta rd r k = bt_delta (pend ! j) (r, k)"
  shows "edit_db (cp_row_width p) (seg_db p t j) rd = seg_db p u j"
proof (rule mcell_eqI [of _ "cp_segment_size p" "cp_row_width p"])
  fix r k assume r: "r < cp_segment_size p" and k: "k < cp_row_width p"
  show "mcell (cp_row_width p) (edit_db (cp_row_width p) (seg_db p t j) rd) r k = mcell (cp_row_width p) (seg_db p u j) r k"
    using mcell_edit_db [OF seg_db_slice(2) [OF assms(1,4)] r k] seg_db_mcell [OF assms(1,4) r k]
      seg_db_mcell [OF assms(2,4) r k] pend_okD(4) [OF assms(3,4) r k] assms(5)
    by (simp add: edited_def cell_diff_def wi_hom_sub [symmetric])
qed (use seg_db_slice(2) assms in simp_all)

lemma pending_pointwise:
  assumes "table_ok p t" "table_ok p u" "pend_ok p t u pend" "j < cp_arity p"
  shows "edits_ok (cp_segment_size p) (cp_row_width p) (pointwise (pend ! j))"
    "edit_db (cp_row_width p) (seg_db p t j) (pointwise (pend ! j)) = seg_db p u j"
proof -
  show "edits_ok (cp_segment_size p) (cp_row_width p) (pointwise (pend ! j))"
    using pend_okD(3) [OF assms(3,4)] by (simp add: edits_ok_pointwise)
  show "edit_db (cp_row_width p) (seg_db p t j) (pointwise (pend ! j)) = seg_db p u j"
    using bt_delta_sum [OF pend_okD(2) [OF assms(3,4)]]
    by (intro edit_db_head [OF assms]) (simp add: row_delta_pointwise)
qed

text \<open>The regrouping of \<open>as_row_deltas\<close> keeps the deltas.\<close>

lemma cell_delta_snoc: "cell_delta (xs @ [(off, d)]) k = cell_delta xs k + (if off = k then d else 0)"
  by (induction xs) auto

lemma row_delta_append: "row_delta (xs @ ys) r k = row_delta xs r k + row_delta ys r k"
  by (induction xs) auto

lemma push_cell_delta:
  "row_delta (push_cell out ((row, off), d)) r k = row_delta out r k + (if (row, off) = (r, k) then d else 0)"
proof (cases "out \<noteq> [] \<and> fst (last out) = row")
  case True
  define init cells where "init = butlast out" and "cells = snd (last out)"
  have "out = butlast out @ [last out]" using True by simp
  also have "last out = (row, cells)" using True by (simp add: cells_def prod_eq_iff)
  finally have out: "out = init @ [(row, cells)]" by (simp add: init_def)
  show ?thesis unfolding push_cell_def out by (auto simp: row_delta_append cell_delta_snoc)
next
  case False
  then show ?thesis unfolding push_cell_def by (auto simp: row_delta_append)
qed

lemma push_cell_edits_ok:
  assumes "edits_ok n w out" "row < n" "off < w"
  shows "edits_ok n w (push_cell out ((row, off), d))"
proof (cases "out \<noteq> [] \<and> fst (last out) = row")
  case True
  have "last out \<in> set out" using True by simp
  then have l: "fst (last out) < n \<and> (\<forall>y \<in> set (snd (last out)). fst y < w)"
    using assms(1) unfolding edits_ok_def by blast
  have "\<forall>x \<in> set (butlast out). fst x < n \<and> (\<forall>y \<in> set (snd x). fst y < w)"
    using assms(1) unfolding edits_ok_def by (blast dest: in_set_butlastD)
  then show ?thesis using l assms(2,3) True by (simp add: push_cell_def edits_ok_def)
next
  case False
  then show ?thesis using assms unfolding push_cell_def edits_ok_def by auto
qed

lemma foldl_push_cell:
  assumes "edits_ok n w out" "\<forall>x \<in> set m. fst (fst x) < n \<and> snd (fst x) < w"
  shows "edits_ok n w (foldl push_cell out m) \<and>
    row_delta (foldl push_cell out m) r k = row_delta out r k + (\<Sum>(p, d) \<leftarrow> m. if p = (r, k) then d else 0)"
  using assms
proof (induction m arbitrary: out)
  case (Cons x m)
  obtain row off d where x: "x = ((row, off), d)" by (metis surj_pair)
  have "edits_ok n w (push_cell out x)" using push_cell_edits_ok [OF Cons.prems(1), of row off d] Cons.prems(2) by (simp add: x)
  then show ?case using Cons.IH [of "push_cell out x"] Cons.prems(2) push_cell_delta [of out row off d r k]
    by (simp add: x)
qed simp

lemma pending_as_row_deltas_ok:
  assumes "table_ok p t" "table_ok p u" "pend_ok p t u pend" "j < cp_arity p"
  obtains rd where "pending_as_row_deltas pend j = Some rd" "edits_ok (cp_segment_size p) (cp_row_width p) rd"
    "edit_db (cp_row_width p) (seg_db p t j) rd = seg_db p u j"
proof -
  let ?rd = "foldl push_cell [] (pend ! j)"
  note D = pend_okD [OF assms(3,4)]
  have "edits_ok (cp_segment_size p) (cp_row_width p) []" by (simp add: edits_ok_def)
  note f = foldl_push_cell [OF this, of "pend ! j"]
  have "edits_ok (cp_segment_size p) (cp_row_width p) ?rd" "\<And>r k. row_delta ?rd r k = bt_delta (pend ! j) (r, k)"
    using f D(3) bt_delta_sum [OF D(2)] by auto
  then show thesis using that [of ?rd] D(1) edit_db_head [OF assms] by (simp add: pending_as_row_deltas_def)
qed

section \<open>The row fix-up\<close>

lemma fix_up_row_exact:
  assumes "distinct (map fst ds)"
    and "\<forall>x \<in> set ds. fst x < length cells \<and> 0 \<le> uint (cells ! fst x) + snd x \<and> uint (cells ! fst x) + snd x < 2 ^ pb"
  shows "fix_up_row pb j row ds cells =
    Some (Inr (map (\<lambda>k. cells ! k + word_of_int (cell_delta ds k)) [0..<length cells]))"
  using assms
proof (induction ds arbitrary: cells)
  case Nil
  then show ?case by (simp add: fix_up_row_def map_nth)
next
  case (Cons x ds)
  obtain off d where x: "x = (off, d)" by (cases x)
  have off: "off < length cells" "0 \<le> uint (cells ! off) + d" "uint (cells ! off) + d < 2 ^ pb"
    using Cons.prems(2) by (simp_all add: x)
  let ?c = "cells[off := cells ! off + word_of_int d]"
  have cd: "cell_delta ds off = 0"
    using Cons.prems(1) by (simp add: cell_delta_absent x)
  have "fix_up_row pb j row (x # ds) cells = fix_up_row pb j row ds ?c"
    using off by (simp add: fix_up_row_def x Let_def wi_hom_add [symmetric])
  also have "\<dots> = Some (Inr (map (\<lambda>k. ?c ! k + word_of_int (cell_delta ds k)) [0..<length ?c]))"
    using Cons.prems by (intro Cons.IH) (auto simp: x nth_list_update)
  also have "map (\<lambda>k. ?c ! k + word_of_int (cell_delta ds k)) [0..<length ?c] =
      map (\<lambda>k. cells ! k + word_of_int (cell_delta (x # ds) k)) [0..<length cells]"
    using cd by (auto simp: x nth_list_update)
  finally show ?case .
qed

lemma cell_delta_row:
  "cell_delta (map (\<lambda>x. (snd (fst x), snd x)) (filter (\<lambda>x. fst (fst x) = r) m)) k =
    (\<Sum>(q, d) \<leftarrow> m. if q = (r, k) then d else 0)"
  by (induction m) auto

lemma pending_row_ok:
  assumes "table_ok p t" "table_ok p u" "pend_ok p t u pend" "j < cp_arity p" "r < cp_segment_size p"
  obtains ds where "pending_row pend j r = Some ds"
    "fix_up_row (cp_plaintext_bits p) j r ds (db_row (cp_row_width p) (seg_db p t j) r) =
      Some (Inr (db_row (cp_row_width p) (seg_db p u j) r))"
proof -
  let ?w = "cp_row_width p" and ?m = "pend ! j" and ?b = "j * cp_segment_size p + r"
  note D = pend_okD [OF assms(3,4)]
  let ?ds = "map (\<lambda>((_, off), d). (off, d)) (filter (\<lambda>(k, _). (r, 0) \<le> k \<and> k \<le> (r, 2 ^ 16 - 1)) ?m)"
  have w: "?w \<le> 2 ^ 16" using table_okD(4) [OF assms(1)] by (simp add: segments_ok_def)
  have sel: "filter (\<lambda>(k, _). (r, 0) \<le> k \<and> k \<le> (r, 2 ^ 16 - 1)) ?m = filter (\<lambda>x. fst (fst x) = r) ?m"
    using D(3) w by (intro filter_cong) force+
  have ds: "?ds = map (\<lambda>x. (snd (fst x), snd x)) (filter (\<lambda>x. fst (fst x) = r) ?m)"
    by (simp only: sel) (simp add: split_def)
  have dist: "distinct (map fst ?ds)"
  proof -
    have "distinct (map fst ?m)" by (rule bt_ok_distinct [OF D(2)])
    then have "distinct ?m" "inj_on fst (set ?m)" by (simp_all only: distinct_map)
    then have "inj_on (\<lambda>x. snd (fst x)) {x \<in> set ?m. fst (fst x) = r}"
      by (auto simp: inj_on_def) (metis fst_conv snd_conv)
    then show ?thesis using \<open>distinct ?m\<close> unfolding ds by (simp add: distinct_map comp_def)
  qed
  have mem: "((r, off), d) \<in> set ?m" if "(off, d) \<in> set ?ds" for off d
    using that unfolding ds by force
  have cd: "cell_delta ?ds k = bt_delta ?m (r, k)" for k
  proof -
    have "cell_delta ?ds k = (\<Sum>(q, d) \<leftarrow> ?m. if q = (r, k) then d else 0)"
      unfolding ds by (rule cell_delta_row)
    then show ?thesis using bt_delta_sum [OF D(2)] by simp
  qed
  have row: "db_row ?w (seg_db p v j) r ! k = tcell v ?b k" if "k < ?w" "table_ok p v" for k v
    using seg_db_mcell [OF that(2) assms(4,5) that(1)] that(1) by (simp add: db_row_def)
  have len: "length (db_row ?w (seg_db p v j) r) = ?w" for v by (simp add: db_row_def)
  have rng: "uint (tcell u ?b k) < 2 ^ cp_plaintext_bits p" if k: "k < ?w" for k
  proof -
    have "tcell u ?b k \<in> set (seg_db p u j)"
      using seg_db_mcell [OF assms(2,4,5) k] seg_db_slice(2) [OF assms(2,4)] mult_add_less [OF assms(5) k]
      by (metis mcell_def nth_mem)
    then have "fits (cp_plaintext_bits p) (tcell u ?b k)"
      using seg_db_slice(3) [OF assms(2,4)] by (auto simp: list_all_iff)
    then show ?thesis by (rule fits_uint)
  qed
  have "fix_up_row (cp_plaintext_bits p) j r ?ds (db_row ?w (seg_db p t j) r) =
      Some (Inr (map (\<lambda>k. db_row ?w (seg_db p t j) r ! k + word_of_int (cell_delta ?ds k)) [0..<?w]))"
  proof (subst fix_up_row_exact [OF dist])
    show "\<forall>x \<in> set ?ds. fst x < length (db_row ?w (seg_db p t j) r) \<and>
        0 \<le> uint (db_row ?w (seg_db p t j) r ! fst x) + snd x \<and>
        uint (db_row ?w (seg_db p t j) r ! fst x) + snd x < 2 ^ cp_plaintext_bits p"
    proof
      fix x assume x: "x \<in> set ?ds"
      have m: "((r, fst x), snd x) \<in> set ?m" using mem [of "fst x" "snd x"] x by simp
      have k: "fst x < ?w" using D(3) [OF m] by simp
      have "snd x = cell_diff t u ?b (fst x)"
        using bt_delta_in [OF D(2) m] D(4) [OF assms(5) k] by simp
      then show "fst x < length (db_row ?w (seg_db p t j) r) \<and>
        0 \<le> uint (db_row ?w (seg_db p t j) r ! fst x) + snd x \<and>
        uint (db_row ?w (seg_db p t j) r ! fst x) + snd x < 2 ^ cp_plaintext_bits p"
        using row [OF k assms(1)] rng [OF k] k len by (simp add: cell_diff_def)
    qed
  qed (simp add: len)
  also have "map (\<lambda>k. db_row ?w (seg_db p t j) r ! k + word_of_int (cell_delta ?ds k)) [0..<?w] = db_row ?w (seg_db p u j) r"
  proof (rule nth_equalityI)
    fix k assume "k < length (map (\<lambda>k. db_row ?w (seg_db p t j) r ! k + word_of_int (cell_delta ?ds k)) [0..<?w])"
    then have k: "k < ?w" by simp
    have "tcell t ?b k + word_of_int (cell_diff t u ?b k) = tcell u ?b k"
      by (simp add: cell_diff_def wi_hom_sub [symmetric])
    then show "map (\<lambda>k. db_row ?w (seg_db p t j) r ! k + word_of_int (cell_delta ?ds k)) [0..<?w] ! k = db_row ?w (seg_db p u j) r ! k"
      using k row [OF k assms(1)] row [OF k assms(2)] cd [of k] D(4) [OF assms(5) k] by simp
  qed (simp add: len)
  finally show thesis using that [of ?ds] D(1) by (simp add: pending_row_def)
qed

end
