(* ===== verification/Clients_Correct.thy ===== *)
theory Clients_Correct
  imports Client_Scan Pending
begin

text \<open>
  The clients keep step with the server, and a query round returns what the store holds. Proved
  under the back-end contract: \<open>hp_sync\<close> and \<open>rw_sync\<close> relate a client to the server whose setup
  bundle and deltas it has consumed; applying (accumulating) the published delta keeps the
  relation; building a query, answering it and decoding the answer gives the client's view of the
  key in the current store.
\<close>

section \<open>Clients in step with a server\<close>

definition states_on ::
  "('sp \<Rightarrow> u32 list \<Rightarrow> 'cs \<Rightarrow> bool) \<Rightarrow> cuckoo_params \<Rightarrow> 'sp list \<Rightarrow> fv_table \<Rightarrow> 'cs list \<Rightarrow> bool" where
  "states_on cs_ok p sps t states \<longleftrightarrow> length states = cp_arity p \<and>
     (\<forall>j < cp_arity p. cs_ok (sps ! j) (seg_db p t j) (states ! j))"

definition hp_at ::
  "('sp \<Rightarrow> u32 list \<Rightarrow> 'cs \<Rightarrow> bool) \<Rightarrow> cuckoo_params \<Rightarrow> 'sp list \<Rightarrow> nat \<Rightarrow> fv_table \<Rightarrow> 'cs hint_patch_client \<Rightarrow> bool" where
  "hp_at cs_ok p sps e t cl \<longleftrightarrow> hp_params cl = p \<and> hp_epoch cl = e \<and> states_on cs_ok p sps t (hp_states cl)"

definition hp_sync ::
  "('sp \<Rightarrow> u32 list \<Rightarrow> 'cs \<Rightarrow> bool) \<Rightarrow> ('cfg, 'sp, 'mat, 'hint) ikpir_server \<Rightarrow> 'cs hint_patch_client \<Rightarrow> bool" where
  "hp_sync cs_ok sv = hp_at cs_ok (sv_params sv) (sv_backend_params sv) (sv_epoch sv) (kv_table (sv_store sv))"

text \<open>\<open>t0\<close> is the table the hints are pinned to, \<open>t\<close> the table at the client's epoch.\<close>

definition rw_at ::
  "('sp \<Rightarrow> u32 list \<Rightarrow> 'cs \<Rightarrow> bool) \<Rightarrow> cuckoo_params \<Rightarrow> 'sp list \<Rightarrow> nat \<Rightarrow> fv_table \<Rightarrow> fv_table \<Rightarrow> 'cs rewind_client \<Rightarrow> bool" where
  "rw_at cs_ok p sps e t0 t cl \<longleftrightarrow> rw_params cl = p \<and> rw_epoch cl = e \<and> table_ok p t0 \<and>
     pend_ok p t0 t (rw_pending cl) \<and> rw_pin_epoch cl \<le> e \<and> (rw_pin_epoch cl = e \<longrightarrow> t0 = t) \<and>
     states_on cs_ok p sps t0 (rw_states cl)"

definition rw_sync ::
  "('sp \<Rightarrow> u32 list \<Rightarrow> 'cs \<Rightarrow> bool) \<Rightarrow> ('cfg, 'sp, 'mat, 'hint) ikpir_server \<Rightarrow> fv_table \<Rightarrow> 'cs rewind_client \<Rightarrow> bool" where
  "rw_sync cs_ok sv t0 = rw_at cs_ok (sv_params sv) (sv_backend_params sv) (sv_epoch sv) t0 (kv_table (sv_store sv))"

lemmas sync_defs = hp_sync_def hp_at_def rw_sync_def rw_at_def

text \<open>One query per segment in flight, for the candidate rows.\<close>

definition all_asked ::
  "('sp \<Rightarrow> 'cs \<Rightarrow> 'q \<Rightarrow> nat \<Rightarrow> bool) \<Rightarrow> cuckoo_params \<Rightarrow> 'sp list \<Rightarrow> u32 list \<Rightarrow> 'cs list \<Rightarrow> 'q list \<Rightarrow> bool" where
  "all_asked asked p sps idx states qs \<longleftrightarrow> length qs = cp_arity p \<and>
     (\<forall>j < cp_arity p. asked (sps ! j) (states ! j) (qs ! j) (unat (idx ! j) mod cp_segment_size p))"

definition all_answered ::
  "('sp \<Rightarrow> u32 list \<Rightarrow> 'q \<Rightarrow> 'r \<Rightarrow> bool) \<Rightarrow> cuckoo_params \<Rightarrow> 'sp list \<Rightarrow> fv_table \<Rightarrow> 'q list \<Rightarrow> 'r list \<Rightarrow> bool" where
  "all_answered answered p sps t qs rs \<longleftrightarrow> length rs = cp_arity p \<and>
     (\<forall>j < cp_arity p. answered (sps ! j) (seg_db p t j) (qs ! j) (rs ! j))"

definition all_quiet :: "('sp \<Rightarrow> u32 list \<Rightarrow> 'cs \<Rightarrow> bool) \<Rightarrow> cuckoo_params \<Rightarrow> 'sp list \<Rightarrow> fv_table \<Rightarrow> 'cs list \<Rightarrow> bool" where
  "all_quiet quiet p sps t states \<longleftrightarrow> (\<forall>j < cp_arity p. quiet (sps ! j) (seg_db p t j) (states ! j))"

lemma server_okD:
  assumes "server_ok cfg_ok sp_ok mat_ok hint_ok sv"
  shows "kv_inv (sv_store sv)" "kv_params (sv_store sv) = Some (sv_params sv)"
    "table_ok (sv_params sv) (kv_table (sv_store sv))"
    "length (sv_backend_params sv) = cp_arity (sv_params sv)" "length (sv_hints sv) = cp_arity (sv_params sv)"
    "j < cp_arity (sv_params sv) \<Longrightarrow> sp_ok (sv_backend_params sv ! j) (cp_segment_size (sv_params sv))
      (cp_row_width (sv_params sv)) (cp_plaintext_bits (sv_params sv))"
    "j < cp_arity (sv_params sv) \<Longrightarrow> hint_ok (sv_backend_params sv ! j)
      (seg_db (sv_params sv) (kv_table (sv_store sv)) j) (sv_hints sv ! j)"
  using server_ok_table [OF assms] assms by (simp_all add: server_ok_def)

section \<open>The scan over all segments\<close>

lemma probe_slots_Suc:
  "probe_slots [0..<Suc j] bs idx = probe_slots [0..<j] bs idx @ map (Pair (unat (idx ! j))) [0..<bs]"
  by (simp add: probe_slots_def)

lemma scan_all_rows:
  assumes "kv_inv st" "kv_params st = Some p" "segments_ok p" "candidate_buckets xxh p key = (fp, idx)"
    and "\<And>j s. j < cp_arity p \<Longrightarrow> body j s = map_option Inr
      (scan_row p fp (db_row (cp_row_width p) (seg_db p (kv_table st) j) (unat (idx ! j) mod cp_segment_size p)) s)"
  obtains s where "fold_res body [0..<cp_arity p] (replicate (cp_value_size_in_bytes p) 0, 0) = Some (Inr s)"
    "client_view xxh st key (scan_result s)"
proof -
  let ?t = "kv_table st"
  note t = kv_table_ok [OF assms(1-3)]
  note sch = cp_scheme_eq [OF assms(1,2)]
  have h: "hash_item xxh (kv_scheme st) key (fv_fingerprint_bits ?t) = (fp, idx)" using assms(4) sch(3) by simp
  define P where "P j s \<longleftrightarrow> scan_inv ?t fp (probe_slots [0..<j] (fv_bucket_size ?t) idx) s" for j s
  have step: "\<exists>s'. body j s = Some (Inr s') \<and> P (Suc j) s'" if j: "j < cp_arity p" and P: "P j s" for j s
  proof -
    note c = candidate_rows [OF assms(1,2,4) j]
    obtain s' where "scan_row p fp (db_row (cp_row_width p) (seg_db p ?t j) (unat (idx ! j) mod cp_segment_size p)) s = Some s'"
      "scan_inv ?t fp (probe_slots [0..<j] (fv_bucket_size ?t) idx @
        map (Pair (j * cp_segment_size p + unat (idx ! j) mod cp_segment_size p)) [0..<fv_bucket_size ?t]) s'"
      by (rule scan_row_ok [OF t j c(2) P [unfolded P_def]])
    then show ?thesis using assms(5) [OF j] c(3) unfolding P_def probe_slots_Suc by simp
  qed
  have "cp_value_size_in_bytes p = div_ceil (fv_value_bits ?t) 8"
    using describesD(4) [OF table_okD(3) [OF t]] by (simp add: cp_value_size_in_bytes_def)
  then have "P 0 (replicate (cp_value_size_in_bytes p) 0, 0)" by (simp add: P_def probe_slots_def scan_inv_Nil)
  then obtain s where s: "fold_res body [0..<cp_arity p] (replicate (cp_value_size_in_bytes p) 0, 0) = Some (Inr s)"
    "P (cp_arity p) s"
    by (rule fold_res_upt [where P = P and f = body, OF _ step])
  have "client_view xxh st key (scan_result s)"
    using scan_view [OF assms(1) h] s(2) sch(2) by (simp add: P_def)
  then show thesis by (rule that [OF s(1)])
qed

text \<open>The next delta in order: a patching client moves to the next table, a rewinding one keeps its pin.\<close>

definition next_delta :: "cuckoo_params \<Rightarrow> nat \<Rightarrow> fv_table \<Rightarrow> fv_table \<Rightarrow> hint_delta_bundle \<Rightarrow> bool" where
  "next_delta p e t u delta \<longleftrightarrow> hd_epoch delta = e + 1 \<and> e + 1 < 2 ^ 64 \<and> hd_params delta = p \<and>
     table_ok p t \<and> table_ok p u \<and> deltas_of p t u (hd_row_deltas delta)"

lemma check_delta_next: "next_delta p e t u delta \<Longrightarrow> checked_succ_u64 e = Some (e + 1) \<and> check_delta (e + 1) p delta = None"
  by (simp add: next_delta_def checked_succ_u64_def check_delta_def deltas_of_def)

context pir_backend
begin

section \<open>Setup\<close>

lemma setup_states_ok:
  assumes "sv_ok sv"
  obtains states where "setup_states (be_client_setup B) (server_setup_of sv) = Some states"
    "states_on cs_ok (sv_params sv) (sv_backend_params sv) (kv_table (sv_store sv)) states"
proof -
  note sv = server_okD [OF assms]
  have "\<exists>cs. be_client_setup B (sv_backend_params sv ! j) (sv_hints sv ! j) = Some cs \<and>
      cs_ok (sv_backend_params sv ! j) (seg_db (sv_params sv) (kv_table (sv_store sv)) j) cs"
    if "j < length (sv_backend_params sv)" for j
    using client_setup [OF sv(6,7)] that sv(4) by simp
  then obtain states where "those (map (\<lambda>(p, h). be_client_setup B p h) (zip (sv_backend_params sv) (sv_hints sv))) = Some states"
    "length states = length (sv_backend_params sv)"
    "\<forall>j < length (sv_backend_params sv). cs_ok (sv_backend_params sv ! j)
       (seg_db (sv_params sv) (kv_table (sv_store sv)) j) (states ! j)"
    using those_rel [of "map (\<lambda>(p, h). be_client_setup B p h) (zip (sv_backend_params sv) (sv_hints sv))"
        "\<lambda>j cs. cs_ok (sv_backend_params sv ! j) (seg_db (sv_params sv) (kv_table (sv_store sv)) j) cs"] sv(4,5) by auto
  then show thesis using that [of states] sv(4,5) by (simp add: setup_states_def server_setup_of_def states_on_def)
qed

lemma hp_from_setup_ok:
  assumes "sv_ok sv"
  obtains cl where "hp_from_setup B (server_setup_of sv) = Some cl" "hp_sync cs_ok sv cl"
proof -
  obtain states where "setup_states (be_client_setup B) (server_setup_of sv) = Some states"
    "states_on cs_ok (sv_params sv) (sv_backend_params sv) (kv_table (sv_store sv)) states"
    by (rule setup_states_ok [OF assms])
  then show thesis
    using that [of "\<lparr> hp_params = sv_params sv, hp_states = states, hp_epoch = sv_epoch sv,
      hp_hint_patch_mode = default_patch_mode \<rparr>"]
    by (simp add: hp_from_setup_def hp_assemble_def sync_defs server_setup_of_def)
qed

lemma rw_from_setup_ok:
  assumes "sv_ok sv"
  obtains cl where "rw_from_setup B (server_setup_of sv) = Some cl" "rw_sync cs_ok sv (kv_table (sv_store sv)) cl"
    "rw_pin_epoch cl = sv_epoch sv"
proof -
  obtain states where "setup_states (be_client_setup B) (server_setup_of sv) = Some states"
    "states_on cs_ok (sv_params sv) (sv_backend_params sv) (kv_table (sv_store sv)) states"
    by (rule setup_states_ok [OF assms])
  then show thesis
    using that [of "\<lparr> rw_params = sv_params sv, rw_states = states, rw_epoch = sv_epoch sv,
      rw_pending = pending_new (cp_arity (sv_params sv)), rw_pin_epoch = sv_epoch sv \<rparr>"] server_okD(3) [OF assms]
    by (simp add: rw_from_setup_def rw_assemble_def sync_defs server_setup_of_def pend_ok_new)
qed

section \<open>Queries\<close>

lemma build_queries_ok:
  assumes "kv_inv st" "kv_params st = Some p" "candidate_buckets xxh p key = (fp, idx)" rng_ok
    and "states_on cs_ok p sps t states"
    and "\<And>j. j < cp_arity p \<Longrightarrow> sp_ok (sps ! j) (cp_segment_size p) (cp_row_width p) (cp_plaintext_bits p)"
  obtains qs states' g' where "build_queries B xxh p states key g = Some (qs, states', g')"
    "states_on cs_ok p sps t states'" "all_asked asked p sps idx states' qs"
proof -
  define body where "body j s = (case s of (queries, states, g) \<Rightarrow> do {
      idx \<leftarrow> nth_opt idx j; assert_opt (0 < cp_segment_size p); st \<leftarrow> nth_opt states j;
      (q, st', g') \<leftarrow> be_client_query B st (unat idx mod cp_segment_size p) g;
      states' \<leftarrow> upd_opt states j st'; Some (queries @ [q], states', g') })" for j s
  define P where "P i s \<longleftrightarrow> (case s of (qs, states, g) \<Rightarrow> length qs = i \<and> states_on cs_ok p sps t states \<and>
      (\<forall>j < i. asked (sps ! j) (states ! j) (qs ! j) (unat (idx ! j) mod cp_segment_size p)))"
    for i and s :: "'q list \<times> 'cs list \<times> 'g"
  have step: "\<exists>s'. body j s = Some s' \<and> P (Suc j) s'" if j: "j < cp_arity p" and P: "P j s" for j s
  proof -
    obtain qs sts g where s: "s = (qs, sts, g)" by (metis surj_pair)
    note c = candidate_rows [OF assms(1-3) j]
    have sts: "length sts = cp_arity p" "cs_ok (sps ! j) (seg_db p t j) (sts ! j)"
      using P j by (simp_all add: P_def s states_on_def)
    obtain q st' g' where q: "be_client_query B (sts ! j) (unat (idx ! j) mod cp_segment_size p) g = Some (q, st', g')"
      "cs_ok (sps ! j) (seg_db p t j) st'" "asked (sps ! j) st' q (unat (idx ! j) mod cp_segment_size p)"
      using query [OF assms(6) [OF j] sts(2) assms(4) c(2), of g] by blast
    have "body j s = Some (qs @ [q], sts[j := st'], g')"
      using c(1,2) q(1) j sts(1) by (simp add: body_def s)
    moreover have "P (Suc j) (qs @ [q], sts[j := st'], g')"
      using P q(2,3) j by (auto simp: P_def s states_on_def nth_list_update nth_append less_Suc_eq)
    ultimately show ?thesis by blast
  qed
  have "P 0 ([], states, g)" using assms(5) by (simp add: P_def)
  then obtain s' where s': "fold_opt body [0..<cp_arity p] ([], states, g) = Some s'" "P (cp_arity p) s'"
    by (rule fold_opt_upt [where P = P and f = body, OF _ step])
  obtain qs states' g' where e: "s' = (qs, states', g')" by (metis surj_pair)
  have "build_queries B xxh p states key g = fold_opt body [0..<cp_arity p] ([], states, g)"
    by (auto simp: build_queries_def body_def assms(3) intro!: fold_opt_cong split: prod.split)
  then show thesis using that [of qs states' g'] s' by (simp add: e P_def all_asked_def)
qed

lemma answer_all:
  assumes "sv_ok sv" "pq_epoch q = sv_epoch sv" "all_asked asked (sv_params sv) (sv_backend_params sv) idx states (pq_queries q)"
  obtains r where "server_answer B sv q = Some (Inr r)" "pr_epoch r = sv_epoch sv"
    "all_answered answered (sv_params sv) (sv_backend_params sv) (kv_table (sv_store sv)) (pq_queries q) (pr_responses r)"
proof -
  have a: "length (pq_queries q) = cp_arity (sv_params sv)"
    "\<And>j. j < cp_arity (sv_params sv) \<Longrightarrow> \<exists>cs row. asked (sv_backend_params sv ! j) cs (pq_queries q ! j) row"
    using assms(3) by (auto simp: all_asked_def)
  obtain r where "server_answer B sv q = Some (Inr r)" "pr_epoch r = sv_epoch sv"
    "length (pr_responses r) = cp_arity (sv_params sv)"
    "\<And>j. j < cp_arity (sv_params sv) \<Longrightarrow> answered (sv_backend_params sv ! j)
       (seg_db (sv_params sv) (kv_table (sv_store sv)) j) (pq_queries q ! j) (pr_responses r ! j)"
    using server_answer_ok [OF assms(1,2) a] by blast
  then show thesis using that by (simp add: all_answered_def)
qed

lemma all_quiet_worst_case:
  assumes "sv_ok sv" "candidate_buckets xxh (sv_params sv) key = (fp, idx)" "table_ok (sv_params sv) t"
    and "states_on cs_ok (sv_params sv) (sv_backend_params sv) t states"
    and "all_asked asked (sv_params sv) (sv_backend_params sv) idx states qs"
    and "\<And>j. j < cp_arity (sv_params sv) \<Longrightarrow> worst_case (sv_backend_params sv ! j)"
  shows "all_quiet quiet (sv_params sv) (sv_backend_params sv) t states"
proof -
  have "quiet (sv_backend_params sv ! j) (seg_db (sv_params sv) t j) (states ! j)" if j: "j < cp_arity (sv_params sv)" for j
  proof -
    have "cs_ok (sv_backend_params sv ! j) (seg_db (sv_params sv) t j) (states ! j)"
      "asked (sv_backend_params sv ! j) (states ! j) (qs ! j) (unat (idx ! j) mod cp_segment_size (sv_params sv))"
      using assms(4,5) j by (simp_all add: states_on_def all_asked_def)
    then show ?thesis
      by (rule worst_case_quiet [OF server_okD(6) [OF assms(1) j] _ _ seg_db_slice(3) [OF assms(3) j] assms(6) [OF j]])
  qed
  then show ?thesis by (simp add: all_quiet_def)
qed

section \<open>Decoding\<close>

lemma hp_decode_ok:
  assumes "sv_ok sv" "hp_sync cs_ok sv cl" "candidate_buckets xxh (sv_params sv) key = (fp, idx)"
    and "all_asked asked (sv_params sv) (sv_backend_params sv) idx (hp_states cl) qs"
    and "pr_epoch r = sv_epoch sv"
    and "all_answered answered (sv_params sv) (sv_backend_params sv) (kv_table (sv_store sv)) qs (pr_responses r)"
    and "all_quiet quiet (sv_params sv) (sv_backend_params sv) (kv_table (sv_store sv)) (hp_states cl)"
  obtains res where "hp_decode B xxh cl key r = Some (Inr res)" "client_view xxh (sv_store sv) key res"
proof -
  let ?p = "sv_params sv" and ?sps = "sv_backend_params sv" and ?t = "kv_table (sv_store sv)"
  note sv = server_okD [OF assms(1)]
  have cl: "hp_params cl = ?p" "hp_epoch cl = sv_epoch sv" "length (hp_states cl) = cp_arity ?p"
    "\<And>j. j < cp_arity ?p \<Longrightarrow> cs_ok (?sps ! j) (seg_db ?p ?t j) (hp_states cl ! j)"
    using assms(2) by (simp_all add: sync_defs states_on_def)
  have r: "length (pr_responses r) = cp_arity ?p" using assms(6) by (simp add: all_answered_def)
  have dec: "be_client_decode B (hp_states cl ! j) (pr_responses r ! j) =
      Some (db_row (cp_row_width ?p) (seg_db ?p ?t j) (unat (idx ! j) mod cp_segment_size ?p))" if j: "j < cp_arity ?p" for j
  proof (rule decode [OF sv(6) [OF j] cl(4) [OF j]])
    show "asked (?sps ! j) (hp_states cl ! j) (qs ! j) (unat (idx ! j) mod cp_segment_size ?p)"
      "answered (?sps ! j) (seg_db ?p ?t j) (qs ! j) (pr_responses r ! j)"
      "quiet (?sps ! j) (seg_db ?p ?t j) (hp_states cl ! j)"
      using assms(4,6,7) j by (simp_all add: all_asked_def all_answered_def all_quiet_def)
  qed (use candidate_rows(2) [OF sv(1,2) assms(3) j] seg_db_slice(3) [OF sv(3) j] in simp_all)
  define body where "body j s = do {
      st \<leftarrow> nth_opt (hp_states cl) j;
      rj \<leftarrow> nth_opt (pr_responses r) j;
      row \<leftarrow> be_client_decode B st rj;
      if length row \<noteq> cp_bucket_size ?p * cp_cells_per_slot ?p then Some (Inl MalformedBundle)
      else map_option Inr (scan_row ?p fp row s) }" for j s
  have body: "body j s = map_option Inr
      (scan_row ?p fp (db_row (cp_row_width ?p) (seg_db ?p ?t j) (unat (idx ! j) mod cp_segment_size ?p)) s)"
    if j: "j < cp_arity ?p" for j s
    using dec [OF j] j cl(3) r by (simp add: body_def db_row_def)
  obtain s where s: "fold_res body [0..<cp_arity ?p] (replicate (cp_value_size_in_bytes ?p) 0, 0) = Some (Inr s)"
    "client_view xxh (sv_store sv) key (scan_result s)"
    by (rule scan_all_rows [where body = body, OF sv(1,2) table_okD(4) [OF sv(3)] assms(3) body])
  have "hp_decode B xxh cl key r = Some (Inr (scan_result s))"
    using s(1) cl(1,2) r assms(5) by (simp add: hp_decode_def assms(3) body_def [abs_def])
  then show thesis by (rule that [OF _ s(2)])
qed

lemma rw_decode_ok:
  assumes "sv_ok sv" "rw_sync cs_ok sv t0 cl" "candidate_buckets xxh (sv_params sv) key = (fp, idx)"
    and "all_asked asked (sv_params sv) (sv_backend_params sv) idx (rw_states cl) (pq_queries q)"
    and "pr_epoch r = sv_epoch sv" "pq_epoch q = sv_epoch sv"
    and "all_answered answered (sv_params sv) (sv_backend_params sv) (kv_table (sv_store sv)) (pq_queries q) (pr_responses r)"
    and "all_quiet quiet (sv_params sv) (sv_backend_params sv) t0 (rw_states cl)"
  obtains res where "rw_decode B xxh cl key q r = Some (Inr res)" "client_view xxh (sv_store sv) key res"
proof -
  let ?p = "sv_params sv" and ?sps = "sv_backend_params sv" and ?t = "kv_table (sv_store sv)"
    and ?w = "cp_row_width (sv_params sv)" and ?row = "\<lambda>j. unat (idx ! j) mod cp_segment_size (sv_params sv)"
  note sv = server_okD [OF assms(1)]
  have cl: "rw_params cl = ?p" "rw_epoch cl = sv_epoch sv" "table_ok ?p t0" "pend_ok ?p t0 ?t (rw_pending cl)"
    "length (rw_states cl) = cp_arity ?p" "\<And>j. j < cp_arity ?p \<Longrightarrow> cs_ok (?sps ! j) (seg_db ?p t0 j) (rw_states cl ! j)"
    using assms(2) by (simp_all add: sync_defs states_on_def)
  have len: "length (pr_responses r) = cp_arity ?p" "length (pq_queries q) = cp_arity ?p"
    using assms(4,7) by (simp_all add: all_asked_def all_answered_def)
  define body where "body j s = do {
      rj \<leftarrow> nth_opt (pr_responses r) j;
      st \<leftarrow> nth_opt (rw_states cl) j;
      qj \<leftarrow> nth_opt (pq_queries q) j;
      pend \<leftarrow> nth_opt (rw_pending cl) j;
      corrected \<leftarrow> be_rewind_response B st qj rj pend;
      cells \<leftarrow> be_client_decode B st corrected;
      if length cells \<noteq> cp_bucket_size ?p * cp_cells_per_slot ?p then Some (Inl MalformedBundle)
      else do {
        idx \<leftarrow> nth_opt idx j;
        assert_opt (0 < cp_segment_size ?p);
        let queried_row = unat idx mod cp_segment_size ?p;
        row_pend \<leftarrow> pending_row (rw_pending cl) j queried_row;
        fixed \<leftarrow> fix_up_row (cp_plaintext_bits ?p) j queried_row row_pend cells;
        case fixed of Inl e \<Rightarrow> Some (Inl e) | Inr cells' \<Rightarrow> map_option Inr (scan_row ?p fp cells' s) } }" for j s
  have body: "body j s = map_option Inr (scan_row ?p fp (db_row ?w (seg_db ?p ?t j) (?row j)) s)"
    if j: "j < cp_arity ?p" for j s
  proof -
    note c = candidate_rows [OF sv(1,2) assms(3) j]
    note pend = pending_pointwise [OF cl(3) sv(3) cl(4) j]
    have jp: "j < length (rw_pending cl)" by (rule pend_okD(1) [OF cl(4) j])
    have a: "asked (?sps ! j) (rw_states cl ! j) (pq_queries q ! j) (?row j)"
      "answered (?sps ! j) (seg_db ?p ?t j) (pq_queries q ! j) (pr_responses r ! j)"
      "quiet (?sps ! j) (seg_db ?p t0 j) (rw_states cl ! j)"
      using assms(4,7,8) j by (simp_all add: all_asked_def all_answered_def all_quiet_def)
    obtain r' where r': "be_rewind_response B (rw_states cl ! j) (pq_queries q ! j) (pr_responses r ! j) (rw_pending cl ! j) = Some r'"
      "answered (?sps ! j) (seg_db ?p t0 j) (pq_queries q ! j) r'"
      using rewind [OF sv(6) [OF j] cl(6) [OF j] a(1) pend(1), where db = "seg_db ?p t0 j",
          unfolded pend(2), OF a(2) seg_db_slice(2) [OF cl(3) j]]
      by blast
    have "be_client_decode B (rw_states cl ! j) r' = Some (db_row ?w (seg_db ?p t0 j) (?row j))"
      by (rule decode [OF sv(6) [OF j] cl(6) [OF j] a(1) c(2) r'(2) a(3) seg_db_slice(3) [OF cl(3) j]])
    moreover obtain ds where "pending_row (rw_pending cl) j (?row j) = Some ds"
      "fix_up_row (cp_plaintext_bits ?p) j (?row j) ds (db_row ?w (seg_db ?p t0 j) (?row j)) =
        Some (Inr (db_row ?w (seg_db ?p ?t j) (?row j)))"
      by (rule pending_row_ok [OF cl(3) sv(3) cl(4) j c(2)])
    ultimately show ?thesis using r'(1) j jp len cl(5) c(1,2) by (simp add: body_def db_row_def Let_def)
  qed
  obtain s where s: "fold_res body [0..<cp_arity ?p] (replicate (cp_value_size_in_bytes ?p) 0, 0) = Some (Inr s)"
    "client_view xxh (sv_store sv) key (scan_result s)"
    by (rule scan_all_rows [where body = body, OF sv(1,2) table_okD(4) [OF sv(3)] assms(3) body])
  have "rw_decode B xxh cl key q r = Some (Inr (scan_result s))"
    using s(1) cl(1,2) len assms(5,6) by (simp add: rw_decode_def assms(3) body_def [abs_def])
  then show thesis by (rule that [OF _ s(2)])
qed

section \<open>Rounds\<close>

theorem hp_round:
  assumes "sv_ok sv" "hp_sync cs_ok sv cl" rng_ok
    and "\<And>j. j < cp_arity (sv_params sv) \<Longrightarrow> worst_case (sv_backend_params sv ! j)"
  obtains q cl' g' r res where "hp_build_query B xxh cl key g = Some (q, cl', g')" "hp_sync cs_ok sv cl'"
    "server_answer B sv q = Some (Inr r)" "hp_decode B xxh cl' key r = Some (Inr res)"
    "client_view xxh (sv_store sv) key res"
proof -
  obtain fp idx where h: "candidate_buckets xxh (sv_params sv) key = (fp, idx)" by fastforce
  note sv = server_okD [OF assms(1)]
  have cl: "hp_params cl = sv_params sv" "hp_epoch cl = sv_epoch sv"
    "states_on cs_ok (sv_params sv) (sv_backend_params sv) (kv_table (sv_store sv)) (hp_states cl)"
    using assms(2) by (simp_all add: sync_defs)
  obtain qs states' g' where b: "build_queries B xxh (sv_params sv) (hp_states cl) key g = Some (qs, states', g')"
    "states_on cs_ok (sv_params sv) (sv_backend_params sv) (kv_table (sv_store sv)) states'"
    "all_asked asked (sv_params sv) (sv_backend_params sv) idx states' qs"
    by (rule build_queries_ok [OF sv(1,2) h assms(3) cl(3) sv(6)])
  let ?q = "\<lparr> pq_epoch = hp_epoch cl, pq_queries = qs \<rparr>" and ?cl = "cl\<lparr> hp_states := states' \<rparr>"
  have sync: "hp_sync cs_ok sv ?cl" using cl b(2) by (simp add: sync_defs)
  obtain r where r: "server_answer B sv ?q = Some (Inr r)" "pr_epoch r = sv_epoch sv"
    "all_answered answered (sv_params sv) (sv_backend_params sv) (kv_table (sv_store sv)) qs (pr_responses r)"
    using answer_all [OF assms(1), of ?q idx states'] cl(2) b(3) by auto
  have asked': "all_asked asked (sv_params sv) (sv_backend_params sv) idx (hp_states ?cl) qs" using b(3) by simp
  have "all_quiet quiet (sv_params sv) (sv_backend_params sv) (kv_table (sv_store sv)) (hp_states ?cl)"
    using all_quiet_worst_case [OF assms(1) h sv(3) b(2,3) assms(4)] by simp
  then obtain res where "hp_decode B xxh ?cl key r = Some (Inr res)" "client_view xxh (sv_store sv) key res"
    by (rule hp_decode_ok [OF assms(1) sync h asked' r(2,3)])
  then show thesis using that [of ?q ?cl g'] b(1) sync r(1) cl(1) by (simp add: hp_build_query_def)
qed

theorem rw_round:
  assumes "sv_ok sv" "rw_sync cs_ok sv t0 cl" rng_ok
    and "\<And>j. j < cp_arity (sv_params sv) \<Longrightarrow> worst_case (sv_backend_params sv ! j)"
  obtains q cl' g' r res where "rw_build_query B xxh cl key g = Some (q, cl', g')" "rw_sync cs_ok sv t0 cl'"
    "server_answer B sv q = Some (Inr r)" "rw_decode B xxh cl' key q r = Some (Inr res)"
    "client_view xxh (sv_store sv) key res"
proof -
  obtain fp idx where h: "candidate_buckets xxh (sv_params sv) key = (fp, idx)" by fastforce
  note sv = server_okD [OF assms(1)]
  have cl: "rw_params cl = sv_params sv" "rw_epoch cl = sv_epoch sv" "table_ok (sv_params sv) t0"
    "states_on cs_ok (sv_params sv) (sv_backend_params sv) t0 (rw_states cl)"
    using assms(2) by (simp_all add: sync_defs)
  obtain qs states' g' where b: "build_queries B xxh (sv_params sv) (rw_states cl) key g = Some (qs, states', g')"
    "states_on cs_ok (sv_params sv) (sv_backend_params sv) t0 states'"
    "all_asked asked (sv_params sv) (sv_backend_params sv) idx states' qs"
    by (rule build_queries_ok [OF sv(1,2) h assms(3) cl(4) sv(6)])
  let ?q = "\<lparr> pq_epoch = rw_epoch cl, pq_queries = qs \<rparr>" and ?cl = "cl\<lparr> rw_states := states' \<rparr>"
  have sync: "rw_sync cs_ok sv t0 ?cl" using assms(2) b(2) by (simp add: sync_defs)
  obtain r where r: "server_answer B sv ?q = Some (Inr r)" "pr_epoch r = sv_epoch sv"
    "all_answered answered (sv_params sv) (sv_backend_params sv) (kv_table (sv_store sv)) (pq_queries ?q) (pr_responses r)"
    using answer_all [OF assms(1), of ?q idx states'] cl(2) b(3) by auto
  have asked': "all_asked asked (sv_params sv) (sv_backend_params sv) idx (rw_states ?cl) (pq_queries ?q)" using b(3) by simp
  have quiet': "all_quiet quiet (sv_params sv) (sv_backend_params sv) t0 (rw_states ?cl)"
    using all_quiet_worst_case [OF assms(1) h cl(3) b(2,3) assms(4)] by simp
  have "pq_epoch ?q = sv_epoch sv" using cl(2) by simp
  then obtain res where "rw_decode B xxh ?cl key ?q r = Some (Inr res)" "client_view xxh (sv_store sv) key res"
    using rw_decode_ok [OF assms(1) sync h asked' r(2) _ r(3) quiet'] by blast
  then show thesis using that [of ?q ?cl g'] b(1) sync r(1) cl(1) by (simp add: rw_build_query_def)
qed

section \<open>Deltas\<close>

lemma patch_states_ok:
  assumes "table_ok p t" "table_ok p u" "deltas_of p t u rds" "states_on cs_ok p sps t states"
    and "\<And>j. j < cp_arity p \<Longrightarrow> sp_ok (sps ! j) (cp_segment_size p) (cp_row_width p) (cp_plaintext_bits p)"
  obtains states' where "patch_states B mode rds states = Some states'" "states_on cs_ok p sps u states'"
    "\<And>j q row. j < cp_arity p \<Longrightarrow> asked (sps ! j) (states ! j) q row \<Longrightarrow> asked (sps ! j) (states' ! j) q row"
proof -
  let ?ar = "cp_arity p"
  have rds: "length rds = ?ar" "\<And>j. j < ?ar \<Longrightarrow> edits_ok (cp_segment_size p) (cp_row_width p) (rds ! j)"
    using assms(3) table_okD(5) [OF assms(1)] by (simp_all add: deltas_of_def)
  define P where "P i xs \<longleftrightarrow> length xs = ?ar \<and>
      (\<forall>j < ?ar. cs_ok (sps ! j) (if j < i then seg_db p u j else seg_db p t j) (xs ! j) \<and>
         (\<forall>q row. asked (sps ! j) (states ! j) q row \<longrightarrow> asked (sps ! j) (xs ! j) q row))" for i and xs :: "'cs list"
  define body where "body x states = (case x of (j, deltas) \<Rightarrow> if deltas = [] then Some states
      else do { st \<leftarrow> nth_opt states j; st' \<leftarrow> be_client_patch_state B st deltas mode; upd_opt states j st' })" for x states
  have step: "\<exists>xs'. body (i, rds ! i) xs = Some xs' \<and> P (Suc i) xs'" if i: "i < length rds" and P: "P i xs" for i xs
  proof -
    have i': "i < ?ar" using i rds(1) by simp
    note edit = seg_db_edit [OF assms(1-3) i']
    have "length xs = ?ar" "cs_ok (sps ! i) (if i < i then seg_db p u i else seg_db p t i) (xs ! i)"
      using P i' unfolding P_def by blast+
    then have xs: "length xs = ?ar" "cs_ok (sps ! i) (seg_db p t i) (xs ! i)" by simp_all
    show ?thesis
    proof (cases "rds ! i = []")
      case True
      then have "seg_db p u i = seg_db p t i" using edit by simp
      then have "P (Suc i) xs" using P by (auto simp: P_def less_Suc_eq)
      then show ?thesis using True by (simp add: body_def)
    next
      case False
      obtain st' where st': "be_client_patch_state B (xs ! i) (rds ! i) mode = Some st'"
        "cs_ok (sps ! i) (seg_db p u i) st'" "\<forall>q row. asked (sps ! i) (xs ! i) q row \<longrightarrow> asked (sps ! i) st' q row"
        using patch_state [OF assms(5) [OF i'] xs(2) rds(2) [OF i'], of mode] edit by auto
      have "body (i, rds ! i) xs = Some (xs[i := st'])" using False st'(1) i' xs(1) by (simp add: body_def)
      moreover have "P (Suc i) (xs[i := st'])"
        using P i' st'(2,3) by (auto simp: P_def nth_list_update less_Suc_eq)
      ultimately show ?thesis by blast
    qed
  qed
  have "P 0 states" using assms(4) by (simp add: P_def states_on_def)
  then obtain states' where "fold_opt body (enumerate 0 rds) states = Some states'" "P (length rds) states'"
    by (rule fold_opt_enumerate [where P = P and f = body, OF _ step])
  moreover have "patch_states B mode rds states = fold_opt body (enumerate 0 rds) states"
    by (auto simp: patch_states_def body_def intro!: fold_opt_cong split: prod.split)
  ultimately show thesis using that [of states'] rds(1) by (simp add: P_def states_on_def)
qed

lemma hp_apply_next:
  assumes "hp_at cs_ok p sps e t cl" "next_delta p e t u delta"
    and "\<And>j. j < cp_arity p \<Longrightarrow> sp_ok (sps ! j) (cp_segment_size p) (cp_row_width p) (cp_plaintext_bits p)"
  obtains cl' where "hp_apply_delta B cl delta = Some (Inr (), cl')" "hp_at cs_ok p sps (e + 1) u cl'"
proof -
  note d = assms(2) [unfolded next_delta_def]
  have cl: "hp_params cl = p" "hp_epoch cl = e" "states_on cs_ok p sps t (hp_states cl)"
    using assms(1) by (simp_all add: hp_at_def)
  obtain states' where "patch_states B (hp_hint_patch_mode cl) (hd_row_deltas delta) (hp_states cl) = Some states'"
    "states_on cs_ok p sps u states'"
    using patch_states_ok [OF _ _ _ cl(3) assms(3), of u "hd_row_deltas delta" "hp_hint_patch_mode cl"] d by metis
  then show thesis using that [of "cl\<lparr> hp_states := states', hp_epoch := e + 1 \<rparr>"] cl check_delta_next [OF assms(2)] d
    by (simp add: hp_apply_delta_def hp_at_def)
qed

lemma rw_accumulate_next:
  assumes "rw_at cs_ok p sps e t0 t cl" "next_delta p e t u delta"
  obtains cl' where "rw_accumulate_delta cl delta = Some (Inr (), cl')" "rw_at cs_ok p sps (e + 1) t0 u cl'"
proof -
  note d = assms(2) [unfolded next_delta_def]
  have cl: "rw_params cl = p" "rw_epoch cl = e" "pend_ok p t0 t (rw_pending cl)" "rw_pin_epoch cl \<le> e"
    using assms(1) by (simp_all add: rw_at_def)
  obtain pend' where "pending_merge (hd_row_deltas delta) (rw_pending cl) = Some (Inr pend')" "pend_ok p t0 u pend'"
    using pending_merge_ok [OF _ cl(3)] d by blast
  then show thesis using that [of "cl\<lparr> rw_pending := pend', rw_epoch := e + 1 \<rparr>"] cl check_delta_next [OF assms(2)] d assms(1)
    by (simp add: rw_accumulate_delta_def rw_at_def)
qed

text \<open>Collecting garbage moves the pin to the head.\<close>

lemma rw_collect_garbage_ok:
  assumes "rw_at cs_ok p sps e t0 t cl" "table_ok p t"
    and "\<And>j. j < cp_arity p \<Longrightarrow> sp_ok (sps ! j) (cp_segment_size p) (cp_row_width p) (cp_plaintext_bits p)"
  obtains cl' where "rw_collect_garbage B cl = Some cl'" "rw_at cs_ok p sps e t t cl'" "rw_pin_epoch cl' = e"
proof (cases "rw_pin_epoch cl = e")
  case True
  then have "t0 = t" using assms(1) by (simp add: rw_at_def)
  then show thesis using True that [of cl] assms(1) by (simp add: rw_collect_garbage_def rw_at_def)
next
  case False
  have cl: "rw_params cl = p" "rw_epoch cl = e" "table_ok p t0" "pend_ok p t0 t (rw_pending cl)"
    "length (rw_states cl) = cp_arity p" "\<And>j. j < cp_arity p \<Longrightarrow> cs_ok (sps ! j) (seg_db p t0 j) (rw_states cl ! j)"
    using assms(1) by (simp_all add: rw_at_def states_on_def)
  define f where "f j = do {
      st \<leftarrow> nth_opt (rw_states cl) j;
      row_deltas \<leftarrow> pending_as_row_deltas (rw_pending cl) j;
      if row_deltas = [] then Some st else be_client_patch_state B st row_deltas EntryLevel }" for j
  have f: "\<exists>st'. f j = Some st' \<and> cs_ok (sps ! j) (seg_db p t j) st'" if j: "j < cp_arity p" for j
  proof -
    obtain rd where rd: "pending_as_row_deltas (rw_pending cl) j = Some rd"
      "edits_ok (cp_segment_size p) (cp_row_width p) rd"
      "edit_db (cp_row_width p) (seg_db p t0 j) rd = seg_db p t j"
      by (rule pending_as_row_deltas_ok [OF cl(3) assms(2) cl(4) j])
    show ?thesis
    proof (cases "rd = []")
      case True
      then show ?thesis using rd(1,3) j cl(5) cl(6) [OF j] by (simp add: f_def)
    next
      case False
      then show ?thesis using patch_state [OF assms(3) [OF j] cl(6) [OF j] rd(2), of EntryLevel] rd(1,3) j cl(5)
        by (auto simp: f_def)
    qed
  qed
  then obtain states' where "build_opt (cp_arity p) f = Some states'" "length states' = cp_arity p"
    "\<forall>j < cp_arity p. cs_ok (sps ! j) (seg_db p t j) (states' ! j)"
    by (rule build_opt_rel)
  then show thesis using False cl assms
    by (intro that [of "cl\<lparr> rw_states := states', rw_pin_epoch := e, rw_pending := pending_clear (rw_pending cl) \<rparr>"])
      (simp_all add: rw_collect_garbage_def f_def [abs_def] rw_at_def states_on_def pend_ok_clear)
qed

section \<open>Precomputation\<close>

lemma precompute_states_ok:
  assumes rng_ok "states_on cs_ok p sps t states"
    and "\<And>j. j < cp_arity p \<Longrightarrow> sp_ok (sps ! j) (cp_segment_size p) (cp_row_width p) (cp_plaintext_bits p)"
  obtains states' g' where "precompute_states B m states g = Some (states', g')" "states_on cs_ok p sps t states'"
proof -
  define body where "body st s = (case s of (done', g) \<Rightarrow> do {
      (st', g') \<leftarrow> be_precompute_queries B st m g; Some (done' @ [st'], g') })" for st and s :: "'cs list \<times> 'g"
  define P where "P ys s \<longleftrightarrow> (case s of (done', g) \<Rightarrow> length done' = length ys \<and>
      (\<forall>j < length ys. cs_ok (sps ! j) (seg_db p t j) (done' ! j)))" for ys :: "'cs list" and s :: "'cs list \<times> 'g"
  have step: "\<exists>s'. body x s = Some s' \<and> P (ys @ [x]) s'" if e: "states = ys @ x # zs" and P: "P ys s" for ys x zs s
  proof -
    obtain dn g where s: "s = (dn, g)" by fastforce
    have j: "length ys < cp_arity p" "states ! length ys = x" using assms(2) e by (simp_all add: states_on_def)
    then have "cs_ok (sps ! length ys) (seg_db p t (length ys)) x" using assms(2) by (auto simp: states_on_def)
    then obtain st' g' where "be_precompute_queries B x m g = Some (st', g')"
      "cs_ok (sps ! length ys) (seg_db p t (length ys)) st'"
      using precompute_queries [OF assms(3) [OF j(1)] _ assms(1)] by blast
    then show ?thesis using P by (auto simp: body_def P_def s nth_append less_Suc_eq)
  qed
  have "P [] ([], g)" by (simp add: P_def)
  then obtain s' where s': "fold_opt body states ([], g) = Some s'" "P states s'"
    by (rule fold_opt_list [where P = P and f = body and zs = states, OF _ step])
  obtain states' g' where e: "s' = (states', g')" by fastforce
  have "precompute_states B m states g = fold_opt body states ([], g)"
    by (auto simp: precompute_states_def body_def intro!: fold_opt_cong split: prod.split)
  then show thesis using that [of states' g'] s' assms(2) by (simp add: e P_def states_on_def)
qed

lemma precompute_decode_states_ok:
  assumes "states_on cs_ok p sps t states"
    and "\<And>j. j < cp_arity p \<Longrightarrow> sp_ok (sps ! j) (cp_segment_size p) (cp_row_width p) (cp_plaintext_bits p)"
  obtains states' where "precompute_decode_states B states = Some states'" "states_on cs_ok p sps t states'"
proof -
  have "\<exists>st'. map (be_precompute_decodes B) states ! j = Some st' \<and> cs_ok (sps ! j) (seg_db p t j) st'"
    if j: "j < length (map (be_precompute_decodes B) states)" for j
  proof -
    have st: "j < cp_arity p" "cs_ok (sps ! j) (seg_db p t j) (states ! j)" using assms(1) j by (simp_all add: states_on_def)
    show ?thesis using precompute_decodes [OF assms(2) [OF st(1)] st(2)] j by auto
  qed
  then obtain states' where "those (map (be_precompute_decodes B) states) = Some states'"
    "length states' = length (map (be_precompute_decodes B) states)"
    "\<forall>j < length (map (be_precompute_decodes B) states). cs_ok (sps ! j) (seg_db p t j) (states' ! j)"
    by (rule those_rel)
  then show thesis using that [of states'] assms(1) by (simp add: precompute_decode_states_def states_on_def)
qed


end

end
