(* ===== verification/Protocol.thy ===== *)
theory Protocol
  imports Clients_Correct
begin

text \<open>
  The whole system as a state machine: one server, one client of each kind, and the bundles the
  server has published, which the network may deliver late, twice or out of order. A step is one
  call of the public interface. The invariant relates each client to the server's table at the
  client's epoch, so lagging clients are covered; in every reachable state a client at the
  server's epoch reads the store, and any other client is refused with \<open>StaleEpoch\<close>.
\<close>

section \<open>Steps\<close>

record ('cfg, 'sp, 'mat, 'hint, 'cs) pir_system =
  sy_server :: "('cfg, 'sp, 'mat, 'hint) ikpir_server"
  sy_published :: "hint_delta_bundle list"
  sy_hp :: "'cs hint_patch_client"
  sy_rw :: "'cs rewind_client"

text \<open>A successful mutation publishes its bundle.\<close>

fun publish :: "ikpir_error + hint_delta_bundle \<Rightarrow> hint_delta_bundle list \<Rightarrow> hint_delta_bundle list" where
  "publish (Inl _) log = log"
| "publish (Inr delta) log = log @ [delta]"

inductive sys_step ::
  "('cfg, 'sp, 'mat, 'hint, 'cs, 'q, 'r, 'g) backend \<Rightarrow> (u8 list \<Rightarrow> u128) \<Rightarrow> (nat \<Rightarrow> 'k \<Rightarrow> nat \<times> 'k) \<Rightarrow>
    ('cfg, 'sp, 'mat, 'hint, 'cs) pir_system \<Rightarrow> ('cfg, 'sp, 'mat, 'hint, 'cs) pir_system \<Rightarrow> bool"
  for B :: "('cfg, 'sp, 'mat, 'hint, 'cs, 'q, 'r, 'g) backend" and xxh and draw :: "nat \<Rightarrow> 'k \<Rightarrow> nat \<times> 'k" where
  Insert: "server_insert B xxh draw (sy_server sy) k key val = Some (res, sv, k') \<Longrightarrow>
    sv_epoch (sy_server sy) + 1 < 2 ^ 64 \<Longrightarrow>
    sys_step B xxh draw sy (sy\<lparr> sy_server := sv, sy_published := publish res (sy_published sy) \<rparr>)"
| Update: "server_update B xxh (sy_server sy) key val = Some (res, sv) \<Longrightarrow>
    sv_epoch (sy_server sy) + 1 < 2 ^ 64 \<Longrightarrow>
    sys_step B xxh draw sy (sy\<lparr> sy_server := sv, sy_published := publish res (sy_published sy) \<rparr>)"
| Delete: "server_delete B xxh (sy_server sy) key = Some (res, sv) \<Longrightarrow>
    sv_epoch (sy_server sy) + 1 < 2 ^ 64 \<Longrightarrow>
    sys_step B xxh draw sy (sy\<lparr> sy_server := sv, sy_published := publish res (sy_published sy) \<rparr>)"
| Rebuild: "full_rebuild B (sy_server sy) g = Some (bundle, sv, g') \<Longrightarrow>
    sv_epoch (sy_server sy) + 1 < 2 ^ 64 \<Longrightarrow> sys_step B xxh draw sy (sy\<lparr> sy_server := sv \<rparr>)"
| Drop_Material: "sys_step B xxh draw sy (sy\<lparr> sy_server := drop_hint_material (sy_server sy) \<rparr>)"
| Server_Mode: "sys_step B xxh draw sy (sy\<lparr> sy_server := server_set_hint_patch_mode (sy_server sy) mode \<rparr>)"
| HP_Deliver: "delta \<in> set (sy_published sy) \<Longrightarrow>
    hp_try_apply_delta_or_resync B (sy_hp sy) delta (server_setup_of (sy_server sy)) = Some (out, hp) \<Longrightarrow>
    sys_step B xxh draw sy (sy\<lparr> sy_hp := hp \<rparr>)"
| HP_Reset: "hp_reset_from B (sy_hp sy) (server_setup_of (sy_server sy)) = Some hp \<Longrightarrow>
    sys_step B xxh draw sy (sy\<lparr> sy_hp := hp \<rparr>)"
| HP_Mode: "sys_step B xxh draw sy (sy\<lparr> sy_hp := hp_set_hint_patch_mode (sy_hp sy) mode \<rparr>)"
| HP_Query: "hp_build_query B xxh (sy_hp sy) key g = Some (q, hp, g') \<Longrightarrow>
    sys_step B xxh draw sy (sy\<lparr> sy_hp := hp \<rparr>)"
| HP_Precompute: "hp_precompute_queries B (sy_hp sy) cnt g = Some (hp, g') \<Longrightarrow>
    sys_step B xxh draw sy (sy\<lparr> sy_hp := hp \<rparr>)"
| HP_Precompute_Decodes: "hp_precompute_decodes B (sy_hp sy) = Some hp \<Longrightarrow>
    sys_step B xxh draw sy (sy\<lparr> sy_hp := hp \<rparr>)"
| RW_Deliver: "delta \<in> set (sy_published sy) \<Longrightarrow>
    rw_try_accumulate_delta_or_resync B (sy_rw sy) delta (server_setup_of (sy_server sy)) = Some (out, rw) \<Longrightarrow>
    sys_step B xxh draw sy (sy\<lparr> sy_rw := rw \<rparr>)"
| RW_Collect: "rw_collect_garbage B (sy_rw sy) = Some rw \<Longrightarrow> sys_step B xxh draw sy (sy\<lparr> sy_rw := rw \<rparr>)"
| RW_Reset: "rw_reset_from B (sy_rw sy) (server_setup_of (sy_server sy)) = Some rw \<Longrightarrow>
    sys_step B xxh draw sy (sy\<lparr> sy_rw := rw \<rparr>)"
| RW_Query: "rw_build_query B xxh (sy_rw sy) key g = Some (q, rw, g') \<Longrightarrow>
    sys_step B xxh draw sy (sy\<lparr> sy_rw := rw \<rparr>)"
| RW_Precompute: "rw_precompute_queries B (sy_rw sy) cnt g = Some (rw, g') \<Longrightarrow>
    sys_step B xxh draw sy (sy\<lparr> sy_rw := rw \<rparr>)"
| RW_Precompute_Decodes: "rw_precompute_decodes B (sy_rw sy) = Some rw \<Longrightarrow>
    sys_step B xxh draw sy (sy\<lparr> sy_rw := rw \<rparr>)"

text \<open>A deployment: a server on a store, clients set up from its bundle, then any steps.\<close>

inductive sys_reachable ::
  "('cfg, 'sp, 'mat, 'hint, 'cs, 'q, 'r, 'g) backend \<Rightarrow> (u8 list \<Rightarrow> u128) \<Rightarrow> (nat \<Rightarrow> 'k \<Rightarrow> nat \<times> 'k) \<Rightarrow> kv_store \<Rightarrow>
    'cfg \<Rightarrow> ('cfg, 'sp, 'mat, 'hint, 'cs) pir_system \<Rightarrow> bool"
  for B :: "('cfg, 'sp, 'mat, 'hint, 'cs, 'q, 'r, 'g) backend" and xxh and draw :: "nat \<Rightarrow> 'k \<Rightarrow> nat \<times> 'k"
    and st and cfg where
  Start: "server_new B st cfg g = Some (sv, g') \<Longrightarrow> hp_from_setup B (server_setup_of sv) = Some hp \<Longrightarrow>
    rw_from_setup B (server_setup_of sv) = Some rw \<Longrightarrow>
    sys_reachable B xxh draw st cfg \<lparr> sy_server = sv, sy_published = [], sy_hp = hp, sy_rw = rw \<rparr>"
| Step: "sys_reachable B xxh draw st cfg sy \<Longrightarrow> sys_step B xxh draw sy sy' \<Longrightarrow> sys_reachable B xxh draw st cfg sy'"

section \<open>The invariant\<close>

text \<open>\<open>H e\<close> is the history: the segment parameters and the table of epoch \<open>e\<close>.\<close>

definition published_at ::
  "cuckoo_params \<Rightarrow> nat \<Rightarrow> (nat \<Rightarrow> 'sp list \<times> fv_table) \<Rightarrow> hint_delta_bundle \<Rightarrow> bool" where
  "published_at p now H delta \<longleftrightarrow> (\<exists>e < now. fst (H (e + 1)) = fst (H e) \<and>
     next_delta p e (snd (H e)) (snd (H (e + 1))) delta)"

definition sps_ok :: "('sp \<Rightarrow> nat \<Rightarrow> nat \<Rightarrow> nat \<Rightarrow> bool) \<Rightarrow> cuckoo_params \<Rightarrow> 'sp list \<Rightarrow> bool" where
  "sps_ok sp_ok p sps \<longleftrightarrow> (\<forall>j < cp_arity p. sp_ok (sps ! j) (cp_segment_size p) (cp_row_width p) (cp_plaintext_bits p))"

definition sys_at ::
  "('sp \<Rightarrow> nat \<Rightarrow> nat \<Rightarrow> nat \<Rightarrow> bool) \<Rightarrow> ('sp \<Rightarrow> u32 list \<Rightarrow> 'cs \<Rightarrow> bool) \<Rightarrow> (nat \<Rightarrow> 'sp list \<times> fv_table) \<Rightarrow>
    ('cfg, 'sp, 'mat, 'hint, 'cs) pir_system \<Rightarrow> bool" where
  "sys_at sp_ok cs_ok H sy \<longleftrightarrow>
     (let sv = sy_server sy; p = sv_params sv; now = sv_epoch sv in
      H now = (sv_backend_params sv, kv_table (sv_store sv)) \<and>
      (\<forall>e \<le> now. sps_ok sp_ok p (fst (H e)) \<and> table_ok p (snd (H e))) \<and>
      (\<forall>delta \<in> set (sy_published sy). published_at p now H delta) \<and>
      (\<exists>e \<le> now. hp_at cs_ok p (fst (H e)) e (snd (H e)) (sy_hp sy)) \<and>
      (\<exists>e \<le> now. \<exists>t0. rw_at cs_ok p (fst (H e)) e t0 (snd (H e)) (sy_rw sy)))"

lemma sys_atD:
  assumes "sys_at sp_ok cs_ok H sy"
  shows "H (sv_epoch (sy_server sy)) = (sv_backend_params (sy_server sy), kv_table (sv_store (sy_server sy)))"
    "e \<le> sv_epoch (sy_server sy) \<Longrightarrow> sps_ok sp_ok (sv_params (sy_server sy)) (fst (H e))"
    "e \<le> sv_epoch (sy_server sy) \<Longrightarrow> table_ok (sv_params (sy_server sy)) (snd (H e))"
    "delta \<in> set (sy_published sy) \<Longrightarrow> published_at (sv_params (sy_server sy)) (sv_epoch (sy_server sy)) H delta"
    "hp_epoch (sy_hp sy) \<le> sv_epoch (sy_server sy)"
    "hp_at cs_ok (sv_params (sy_server sy)) (fst (H (hp_epoch (sy_hp sy)))) (hp_epoch (sy_hp sy)) (snd (H (hp_epoch (sy_hp sy)))) (sy_hp sy)"
    "rw_epoch (sy_rw sy) \<le> sv_epoch (sy_server sy)"
    "\<exists>t0. rw_at cs_ok (sv_params (sy_server sy)) (fst (H (rw_epoch (sy_rw sy)))) (rw_epoch (sy_rw sy)) t0
       (snd (H (rw_epoch (sy_rw sy)))) (sy_rw sy)"
  using assms by (auto simp: sys_at_def Let_def hp_at_def rw_at_def)

lemma sys_at_hp:
  "sys_at sp_ok cs_ok H sy \<Longrightarrow> e \<le> sv_epoch (sy_server sy) \<Longrightarrow>
    hp_at cs_ok (sv_params (sy_server sy)) (fst (H e)) e (snd (H e)) hp \<Longrightarrow> sys_at sp_ok cs_ok H (sy\<lparr> sy_hp := hp \<rparr>)"
  by (auto simp: sys_at_def Let_def)

lemma sys_at_rw:
  "sys_at sp_ok cs_ok H sy \<Longrightarrow> e \<le> sv_epoch (sy_server sy) \<Longrightarrow>
    rw_at cs_ok (sv_params (sy_server sy)) (fst (H e)) e t0 (snd (H e)) rw \<Longrightarrow> sys_at sp_ok cs_ok H (sy\<lparr> sy_rw := rw \<rparr>)"
  by (auto simp: sys_at_def Let_def)

text \<open>The server stands still, or moves on by one epoch.\<close>

lemma sys_at_same:
  assumes "sys_at sp_ok cs_ok H sy" "sv_params sv = sv_params (sy_server sy)" "sv_epoch sv = sv_epoch (sy_server sy)"
    "sv_backend_params sv = sv_backend_params (sy_server sy)" "kv_table (sv_store sv) = kv_table (sv_store (sy_server sy))"
  shows "sys_at sp_ok cs_ok H (sy\<lparr> sy_server := sv \<rparr>)"
  using assms by (simp add: sys_at_def Let_def)

lemma sys_at_move:
  assumes "sys_at sp_ok cs_ok H sy" "sv_params sv = sv_params (sy_server sy)" "sv_epoch sv = sv_epoch (sy_server sy) + 1"
    and "sps_ok sp_ok (sv_params sv) (sv_backend_params sv)" "table_ok (sv_params sv) (kv_table (sv_store sv))"
  shows "sys_at sp_ok cs_ok (H(sv_epoch sv := (sv_backend_params sv, kv_table (sv_store sv)))) (sy\<lparr> sy_server := sv \<rparr>)"
proof -
  let ?now = "sv_epoch (sy_server sy)" and ?p = "sv_params (sy_server sy)"
    and ?H = "H(sv_epoch sv := (sv_backend_params sv, kv_table (sv_store sv)))"
  have old: "?H e = H e" if "e \<le> ?now" for e using that assms(3) by simp
  note D = sys_atD [OF assms(1)]
  obtain t0 where rw: "rw_at cs_ok ?p (fst (H (rw_epoch (sy_rw sy)))) (rw_epoch (sy_rw sy)) t0
       (snd (H (rw_epoch (sy_rw sy)))) (sy_rw sy)" using D(8) by blast
  have "published_at ?p (?now + 1) ?H delta" if d: "delta \<in> set (sy_published sy)" for delta
  proof -
    obtain e where e: "e < ?now" "fst (H (e + 1)) = fst (H e)" "next_delta ?p e (snd (H e)) (snd (H (e + 1))) delta"
      using D(4) [OF d] by (auto simp: published_at_def)
    then show ?thesis using old [of e] old [of "e + 1"] unfolding published_at_def by (intro exI [of _ e]) simp
  qed
  moreover have "sps_ok sp_ok ?p (fst (?H e)) \<and> table_ok ?p (snd (?H e))" if "e \<le> ?now + 1" for e
    using that old [of e] D(2,3) [of e] assms by (cases "e = ?now + 1") simp_all
  moreover have "\<exists>e \<le> ?now + 1. hp_at cs_ok ?p (fst (?H e)) e (snd (?H e)) (sy_hp sy)"
    using D(5,6) old [OF D(5)] by (intro exI [of _ "hp_epoch (sy_hp sy)"]) simp
  moreover have "\<exists>e \<le> ?now + 1. \<exists>t0. rw_at cs_ok ?p (fst (?H e)) e t0 (snd (?H e)) (sy_rw sy)"
    using D(7) rw old [OF D(7)] by (intro exI [of _ "rw_epoch (sy_rw sy)"]) auto
  ultimately show ?thesis using assms(2,3) by (simp add: sys_at_def Let_def)
qed

lemma sys_at_publish:
  assumes "sys_at sp_ok cs_ok H sy" "published_at (sv_params (sy_server sy)) (sv_epoch (sy_server sy)) H delta"
  shows "sys_at sp_ok cs_ok H (sy\<lparr> sy_published := sy_published sy @ [delta] \<rparr>)"
  using assms by (auto simp: sys_at_def Let_def)

text \<open>A bundle that is not the next one: the client is not behind it, or it misses one before it.\<close>

lemma published_epoch: "published_at p now H delta \<Longrightarrow> 0 < hd_epoch delta \<and> hd_epoch delta \<le> now"
  by (auto simp: published_at_def next_delta_def)

lemma published_next:
  assumes "published_at p now H delta" "hd_epoch delta = e + 1"
  shows "fst (H (e + 1)) = fst (H e)" "next_delta p e (snd (H e)) (snd (H (e + 1))) delta"
  using assms by (auto simp: published_at_def next_delta_def)

context pir_backend
begin

abbreviation sys_inv :: "('cfg, 'sp, 'mat, 'hint, 'cs) pir_system \<Rightarrow> bool" where
  "sys_inv sy \<equiv> sv_ok (sy_server sy) \<and> (\<exists>H. sys_at sp_ok cs_ok H sy)"

lemma sv_sps_ok: "sv_ok sv \<Longrightarrow> sps_ok sp_ok (sv_params sv) (sv_backend_params sv)"
  using server_okD(6) by (auto simp: sps_ok_def)

lemma sys_at_mutation:
  assumes "sv_ok (sy_server sy)" "sys_at sp_ok cs_ok H sy" "sv_ok sv'" "call_ok (sy_server sy) r st res sv'"
    and "sv_epoch (sy_server sy) + 1 < 2 ^ 64"
  shows "\<exists>H. sys_at sp_ok cs_ok H (sy\<lparr> sy_server := sv', sy_published := publish res (sy_published sy) \<rparr>)"
proof (cases r)
  case (Inl e)
  then have "sys_at sp_ok cs_ok H (sy\<lparr> sy_server := sv' \<rparr>)" "res = Inl (map_cuckoo_err e)"
    using assms(4) by (auto simp: call_ok_def intro!: sys_at_same [OF assms(2)])
  then show ?thesis by auto
next
  case (Inr x)
  then obtain delta where d: "res = Inr delta" "published (sy_server sy) delta sv'"
    using assms(4) by (auto simp: call_ok_def)
  note p = d(2) [unfolded published_def]
  let ?now = "sv_epoch (sy_server sy)" and ?H = "H(sv_epoch sv' := (sv_backend_params sv', kv_table (sv_store sv')))"
  have mv: "sys_at sp_ok cs_ok ?H (sy\<lparr> sy_server := sv' \<rparr>)"
    using p sv_sps_ok [OF assms(3)] server_okD(3) [OF assms(3)] by (intro sys_at_move [OF assms(2)]) simp_all
  have "next_delta (sv_params sv') ?now (snd (?H ?now)) (snd (?H (?now + 1))) delta"
    using p assms(5) sys_atD(1) [OF assms(2)] server_okD(3) [OF assms(1)] server_okD(3) [OF assms(3)]
    by (simp add: next_delta_def)
  then have "published_at (sv_params sv') (sv_epoch sv') ?H delta"
    using p sys_atD(1) [OF assms(2)] unfolding published_at_def by (intro exI [of _ ?now]) simp
  then show ?thesis using sys_at_publish [OF mv, of delta] d(1) by auto
qed

text \<open>Delivery of any published bundle: applied when it is the next one, refused when it is old,
  answered by a reset when one before it is missing.\<close>

lemma hp_deliver:
  assumes "sv_ok (sy_server sy)" "sys_at sp_ok cs_ok H sy" "delta \<in> set (sy_published sy)"
    and "hp_epoch (sy_hp sy) + 1 < 2 ^ 64"
  obtains out hp where "hp_try_apply_delta_or_resync B (sy_hp sy) delta (server_setup_of (sy_server sy)) = Some (out, hp)"
    "sys_at sp_ok cs_ok H (sy\<lparr> sy_hp := hp \<rparr>)"
    "hd_epoch delta \<le> hp_epoch (sy_hp sy) \<Longrightarrow> hp = sy_hp sy \<and>
       out = Inl (StaleDelta (hp_epoch (sy_hp sy) + 1) (hd_epoch delta))"
    "hd_epoch delta = hp_epoch (sy_hp sy) + 1 \<Longrightarrow> out = Inr Synced \<and> hp_epoch hp = hd_epoch delta"
    "hp_epoch (sy_hp sy) + 1 < hd_epoch delta \<Longrightarrow> out = Inr Resynced \<and> hp_epoch hp = sv_epoch (sy_server sy)"
proof -
  let ?e = "hp_epoch (sy_hp sy)" and ?p = "sv_params (sy_server sy)" and ?b = "server_setup_of (sy_server sy)"
  note D = sys_atD [OF assms(2)]
  note pub = D(4) [OF assms(3)]
  have succ: "checked_succ_u64 ?e = Some (?e + 1)" using assms(4) by (simp add: checked_succ_u64_def)
  consider "hd_epoch delta \<le> ?e" | "hd_epoch delta = ?e + 1" | "?e + 1 < hd_epoch delta" by linarith
  then show thesis
  proof cases
    case 1
    then have "hp_try_apply_delta_or_resync B (sy_hp sy) delta ?b =
        Some (Inl (StaleDelta (?e + 1) (hd_epoch delta)), sy_hp sy)"
      using succ by (simp add: hp_try_apply_delta_or_resync_def hp_apply_delta_def check_delta_def)
    then show thesis using 1 assms(2) by (intro that) auto
  next
    case 2
    note n = published_next [OF pub 2]
    obtain hp where hp: "hp_apply_delta B (sy_hp sy) delta = Some (Inr (), hp)"
      "hp_at cs_ok ?p (fst (H ?e)) (?e + 1) (snd (H (?e + 1))) hp"
      using hp_apply_next [OF D(6) n(2)] D(2) [OF D(5)] by (auto simp: sps_ok_def)
    have "?e + 1 \<le> sv_epoch (sy_server sy)" using published_epoch [OF pub] 2 by simp
    then have "sys_at sp_ok cs_ok H (sy\<lparr> sy_hp := hp \<rparr>)"
      by (rule sys_at_hp [OF assms(2)]) (use hp(2) n(1) in simp)
    then show thesis using that [of "Inr Synced" hp] hp 2 by (simp add: hp_try_apply_delta_or_resync_def hp_at_def)
  next
    case 3
    obtain hp where hp: "hp_from_setup B ?b = Some hp" "hp_sync cs_ok (sy_server sy) hp"
      by (rule hp_from_setup_ok [OF assms(1)])
    let ?hp = "hp\<lparr> hp_hint_patch_mode := hp_hint_patch_mode (sy_hp sy) \<rparr>"
    have "hp_try_apply_delta_or_resync B (sy_hp sy) delta ?b = Some (Inr Resynced, ?hp)"
      using 3 succ hp(1) by (simp add: hp_try_apply_delta_or_resync_def hp_apply_delta_def check_delta_def
          hp_reset_from_def Let_def)
    moreover have "sys_at sp_ok cs_ok H (sy\<lparr> sy_hp := ?hp \<rparr>)"
      by (rule sys_at_hp [OF assms(2) le_refl]) (use hp(2) D(1) in \<open>simp add: sync_defs\<close>)
    ultimately show thesis using 3 hp(2) by (intro that [of "Inr Resynced" ?hp]) (simp_all add: sync_defs)
  qed
qed

lemma rw_deliver:
  assumes "sv_ok (sy_server sy)" "sys_at sp_ok cs_ok H sy" "delta \<in> set (sy_published sy)"
    and "rw_epoch (sy_rw sy) + 1 < 2 ^ 64"
  obtains out rw where "rw_try_accumulate_delta_or_resync B (sy_rw sy) delta (server_setup_of (sy_server sy)) = Some (out, rw)"
    "sys_at sp_ok cs_ok H (sy\<lparr> sy_rw := rw \<rparr>)"
    "hd_epoch delta \<le> rw_epoch (sy_rw sy) \<Longrightarrow> rw = sy_rw sy \<and>
       out = Inl (StaleDelta (rw_epoch (sy_rw sy) + 1) (hd_epoch delta))"
    "hd_epoch delta = rw_epoch (sy_rw sy) + 1 \<Longrightarrow> out = Inr Synced \<and> rw_epoch rw = hd_epoch delta"
    "rw_epoch (sy_rw sy) + 1 < hd_epoch delta \<Longrightarrow> out = Inr Resynced \<and> rw_epoch rw = sv_epoch (sy_server sy)"
proof -
  let ?e = "rw_epoch (sy_rw sy)" and ?p = "sv_params (sy_server sy)" and ?b = "server_setup_of (sy_server sy)"
  note D = sys_atD [OF assms(2)]
  note pub = D(4) [OF assms(3)]
  have succ: "checked_succ_u64 ?e = Some (?e + 1)" using assms(4) by (simp add: checked_succ_u64_def)
  consider "hd_epoch delta \<le> ?e" | "hd_epoch delta = ?e + 1" | "?e + 1 < hd_epoch delta" by linarith
  then show thesis
  proof cases
    case 1
    then have "rw_try_accumulate_delta_or_resync B (sy_rw sy) delta ?b =
        Some (Inl (StaleDelta (?e + 1) (hd_epoch delta)), sy_rw sy)"
      using succ by (simp add: rw_try_accumulate_delta_or_resync_def rw_accumulate_delta_def check_delta_def)
    then show thesis using 1 assms(2) by (intro that) auto
  next
    case 2
    note n = published_next [OF pub 2]
    obtain t0 where at: "rw_at cs_ok ?p (fst (H ?e)) ?e t0 (snd (H ?e)) (sy_rw sy)" using D(8) by blast
    obtain rw where rw: "rw_accumulate_delta (sy_rw sy) delta = Some (Inr (), rw)"
      "rw_at cs_ok ?p (fst (H ?e)) (?e + 1) t0 (snd (H (?e + 1))) rw"
      by (rule rw_accumulate_next [OF at n(2)])
    have "?e + 1 \<le> sv_epoch (sy_server sy)" using published_epoch [OF pub] 2 by simp
    then have "sys_at sp_ok cs_ok H (sy\<lparr> sy_rw := rw \<rparr>)"
      by (rule sys_at_rw [OF assms(2)]) (use rw(2) n(1) in simp)
    then show thesis using that [of "Inr Synced" rw] rw 2 by (simp add: rw_try_accumulate_delta_or_resync_def rw_at_def)
  next
    case 3
    obtain rw where rw: "rw_from_setup B ?b = Some rw" "rw_sync cs_ok (sy_server sy) (kv_table (sv_store (sy_server sy))) rw"
      by (rule rw_from_setup_ok [OF assms(1)])
    have "rw_try_accumulate_delta_or_resync B (sy_rw sy) delta ?b = Some (Inr Resynced, rw)"
      using 3 succ rw(1) by (simp add: rw_try_accumulate_delta_or_resync_def rw_accumulate_delta_def check_delta_def
          rw_reset_from_def)
    moreover have "sys_at sp_ok cs_ok H (sy\<lparr> sy_rw := rw \<rparr>)"
      by (rule sys_at_rw [OF assms(2) le_refl]) (use rw(2) D(1) in \<open>simp add: rw_sync_def\<close>)
    ultimately show thesis using 3 rw(2) by (intro that [of "Inr Resynced" rw]) (simp_all add: sync_defs)
  qed
qed

section \<open>Every step keeps the invariant\<close>

lemma hp_query_at:
  assumes "sv_ok (sy_server sy)" "sys_at sp_ok cs_ok H sy" rng_ok
  obtains q hp g' where "hp_build_query B xxh (sy_hp sy) key g = Some (q, hp, g')"
    "pq_epoch q = hp_epoch (sy_hp sy)" "hp_epoch hp = hp_epoch (sy_hp sy)" "sys_at sp_ok cs_ok H (sy\<lparr> sy_hp := hp \<rparr>)"
proof -
  let ?e = "hp_epoch (sy_hp sy)" and ?p = "sv_params (sy_server sy)"
  note D = sys_atD [OF assms(2)] and sv = server_okD [OF assms(1)]
  have hp: "hp_params (sy_hp sy) = ?p" "states_on cs_ok ?p (fst (H ?e)) (snd (H ?e)) (hp_states (sy_hp sy))"
    "\<And>j. j < cp_arity ?p \<Longrightarrow> sp_ok (fst (H ?e) ! j) (cp_segment_size ?p) (cp_row_width ?p) (cp_plaintext_bits ?p)"
    using D(2,6) D(5) by (simp_all add: hp_at_def sps_ok_def)
  obtain fp idx where h: "candidate_buckets xxh ?p key = (fp, idx)" by fastforce
  obtain qs states' g' where b: "build_queries B xxh ?p (hp_states (sy_hp sy)) key g = Some (qs, states', g')"
    "states_on cs_ok ?p (fst (H ?e)) (snd (H ?e)) states'"
    by (rule build_queries_ok [OF sv(1,2) h assms(3) hp(2,3)])
  have "sys_at sp_ok cs_ok H (sy\<lparr> sy_hp := sy_hp sy\<lparr> hp_states := states' \<rparr> \<rparr>)"
    by (rule sys_at_hp [OF assms(2) D(5)]) (use D(6) b(2) in \<open>simp add: hp_at_def\<close>)
  then show thesis
    using that [of "\<lparr> pq_epoch = ?e, pq_queries = qs \<rparr>" "sy_hp sy\<lparr> hp_states := states' \<rparr>" g'] b(1) hp(1)
    by (simp add: hp_build_query_def)
qed

lemma rw_query_at:
  assumes "sv_ok (sy_server sy)" "sys_at sp_ok cs_ok H sy" rng_ok
  obtains q rw g' where "rw_build_query B xxh (sy_rw sy) key g = Some (q, rw, g')"
    "pq_epoch q = rw_epoch (sy_rw sy)" "rw_epoch rw = rw_epoch (sy_rw sy)" "sys_at sp_ok cs_ok H (sy\<lparr> sy_rw := rw \<rparr>)"
proof -
  let ?e = "rw_epoch (sy_rw sy)" and ?p = "sv_params (sy_server sy)"
  note D = sys_atD [OF assms(2)] and sv = server_okD [OF assms(1)]
  obtain t0 where at: "rw_at cs_ok ?p (fst (H ?e)) ?e t0 (snd (H ?e)) (sy_rw sy)" using D(8) by blast
  have rw: "rw_params (sy_rw sy) = ?p" "states_on cs_ok ?p (fst (H ?e)) t0 (rw_states (sy_rw sy))"
    "\<And>j. j < cp_arity ?p \<Longrightarrow> sp_ok (fst (H ?e) ! j) (cp_segment_size ?p) (cp_row_width ?p) (cp_plaintext_bits ?p)"
    using D(2) D(7) at by (simp_all add: rw_at_def sps_ok_def)
  obtain fp idx where h: "candidate_buckets xxh ?p key = (fp, idx)" by fastforce
  obtain qs states' g' where b: "build_queries B xxh ?p (rw_states (sy_rw sy)) key g = Some (qs, states', g')"
    "states_on cs_ok ?p (fst (H ?e)) t0 states'"
    by (rule build_queries_ok [OF sv(1,2) h assms(3) rw(2,3)])
  have "sys_at sp_ok cs_ok H (sy\<lparr> sy_rw := sy_rw sy\<lparr> rw_states := states' \<rparr> \<rparr>)"
    by (rule sys_at_rw [OF assms(2) D(7), of t0]) (use at b(2) in \<open>simp add: rw_at_def\<close>)
  then show thesis
    using that [of "\<lparr> pq_epoch = ?e, pq_queries = qs \<rparr>" "sy_rw sy\<lparr> rw_states := states' \<rparr>" g'] b(1) rw(1)
    by (simp add: rw_build_query_def)
qed

lemma hp_precompute_at:
  assumes "sys_at sp_ok cs_ok H sy" rng_ok
  shows "\<exists>hp g'. hp_precompute_queries B (sy_hp sy) cnt g = Some (hp, g') \<and> sys_at sp_ok cs_ok H (sy\<lparr> sy_hp := hp \<rparr>)"
    "\<exists>hp. hp_precompute_decodes B (sy_hp sy) = Some hp \<and> sys_at sp_ok cs_ok H (sy\<lparr> sy_hp := hp \<rparr>)"
proof -
  let ?e = "hp_epoch (sy_hp sy)" and ?p = "sv_params (sy_server sy)"
  note D = sys_atD [OF assms(1)]
  have hp: "states_on cs_ok ?p (fst (H ?e)) (snd (H ?e)) (hp_states (sy_hp sy))"
    "\<And>j. j < cp_arity ?p \<Longrightarrow> sp_ok (fst (H ?e) ! j) (cp_segment_size ?p) (cp_row_width ?p) (cp_plaintext_bits ?p)"
    using D(2,6) D(5) by (simp_all add: hp_at_def sps_ok_def)
  have new: "sys_at sp_ok cs_ok H (sy\<lparr> sy_hp := sy_hp sy\<lparr> hp_states := states' \<rparr> \<rparr>)"
    if "states_on cs_ok ?p (fst (H ?e)) (snd (H ?e)) states'" for states'
    by (rule sys_at_hp [OF assms(1) D(5)]) (use D(6) that in \<open>simp add: hp_at_def\<close>)
  obtain states' g' where "precompute_states B cnt (hp_states (sy_hp sy)) g = Some (states', g')"
    "states_on cs_ok ?p (fst (H ?e)) (snd (H ?e)) states'"
    by (rule precompute_states_ok [OF assms(2) hp])
  then show "\<exists>hp g'. hp_precompute_queries B (sy_hp sy) cnt g = Some (hp, g') \<and> sys_at sp_ok cs_ok H (sy\<lparr> sy_hp := hp \<rparr>)"
    using new by (simp add: hp_precompute_queries_def)
  obtain states' where "precompute_decode_states B (hp_states (sy_hp sy)) = Some states'"
    "states_on cs_ok ?p (fst (H ?e)) (snd (H ?e)) states'"
    by (rule precompute_decode_states_ok [OF hp])
  then show "\<exists>hp. hp_precompute_decodes B (sy_hp sy) = Some hp \<and> sys_at sp_ok cs_ok H (sy\<lparr> sy_hp := hp \<rparr>)"
    using new by (simp add: hp_precompute_decodes_def)
qed

lemma rw_precompute_at:
  assumes "sys_at sp_ok cs_ok H sy" rng_ok
  shows "\<exists>rw g'. rw_precompute_queries B (sy_rw sy) cnt g = Some (rw, g') \<and> sys_at sp_ok cs_ok H (sy\<lparr> sy_rw := rw \<rparr>)"
    "\<exists>rw. rw_precompute_decodes B (sy_rw sy) = Some rw \<and> sys_at sp_ok cs_ok H (sy\<lparr> sy_rw := rw \<rparr>)"
    "\<exists>rw. rw_collect_garbage B (sy_rw sy) = Some rw \<and> sys_at sp_ok cs_ok H (sy\<lparr> sy_rw := rw \<rparr>)"
proof -
  let ?e = "rw_epoch (sy_rw sy)" and ?p = "sv_params (sy_server sy)"
  note D = sys_atD [OF assms(1)]
  obtain t0 where at: "rw_at cs_ok ?p (fst (H ?e)) ?e t0 (snd (H ?e)) (sy_rw sy)" using D(8) by blast
  have rw: "states_on cs_ok ?p (fst (H ?e)) t0 (rw_states (sy_rw sy))"
    "\<And>j. j < cp_arity ?p \<Longrightarrow> sp_ok (fst (H ?e) ! j) (cp_segment_size ?p) (cp_row_width ?p) (cp_plaintext_bits ?p)"
    using D(2) D(7) at by (simp_all add: rw_at_def sps_ok_def)
  have new: "sys_at sp_ok cs_ok H (sy\<lparr> sy_rw := sy_rw sy\<lparr> rw_states := states' \<rparr> \<rparr>)"
    if "states_on cs_ok ?p (fst (H ?e)) t0 states'" for states'
    by (rule sys_at_rw [OF assms(1) D(7), of t0]) (use at that in \<open>simp add: rw_at_def\<close>)
  obtain states' g' where "precompute_states B cnt (rw_states (sy_rw sy)) g = Some (states', g')"
    "states_on cs_ok ?p (fst (H ?e)) t0 states'"
    by (rule precompute_states_ok [OF assms(2) rw])
  then show "\<exists>rw g'. rw_precompute_queries B (sy_rw sy) cnt g = Some (rw, g') \<and> sys_at sp_ok cs_ok H (sy\<lparr> sy_rw := rw \<rparr>)"
    using new by (simp add: rw_precompute_queries_def)
  obtain states' where "precompute_decode_states B (rw_states (sy_rw sy)) = Some states'"
    "states_on cs_ok ?p (fst (H ?e)) t0 states'"
    by (rule precompute_decode_states_ok [OF rw])
  then show "\<exists>rw. rw_precompute_decodes B (sy_rw sy) = Some rw \<and> sys_at sp_ok cs_ok H (sy\<lparr> sy_rw := rw \<rparr>)"
    using new by (simp add: rw_precompute_decodes_def)
  obtain rw where "rw_collect_garbage B (sy_rw sy) = Some rw"
    "rw_at cs_ok ?p (fst (H ?e)) ?e (snd (H ?e)) (snd (H ?e)) rw"
    by (rule rw_collect_garbage_ok [OF at D(3) [OF D(7)] rw(2)])
  then show "\<exists>rw. rw_collect_garbage B (sy_rw sy) = Some rw \<and> sys_at sp_ok cs_ok H (sy\<lparr> sy_rw := rw \<rparr>)"
    using sys_at_rw [OF assms(1) D(7)] by blast
qed

lemma hp_reset_at:
  assumes "sv_ok (sy_server sy)" "sys_at sp_ok cs_ok H sy"
  shows "\<exists>hp. hp_reset_from B (sy_hp sy) (server_setup_of (sy_server sy)) = Some hp \<and>
    sys_at sp_ok cs_ok H (sy\<lparr> sy_hp := hp \<rparr>)"
proof -
  obtain hp where hp: "hp_from_setup B (server_setup_of (sy_server sy)) = Some hp" "hp_sync cs_ok (sy_server sy) hp"
    by (rule hp_from_setup_ok [OF assms(1)])
  let ?hp = "hp\<lparr> hp_hint_patch_mode := hp_hint_patch_mode (sy_hp sy) \<rparr>"
  have "sys_at sp_ok cs_ok H (sy\<lparr> sy_hp := ?hp \<rparr>)"
    by (rule sys_at_hp [OF assms(2) le_refl]) (use hp(2) sys_atD(1) [OF assms(2)] in \<open>simp add: sync_defs\<close>)
  then show ?thesis using hp(1) by (simp add: hp_reset_from_def)
qed

lemma rw_reset_at:
  assumes "sv_ok (sy_server sy)" "sys_at sp_ok cs_ok H sy"
  shows "\<exists>rw. rw_reset_from B (sy_rw sy) (server_setup_of (sy_server sy)) = Some rw \<and>
    sys_at sp_ok cs_ok H (sy\<lparr> sy_rw := rw \<rparr>)"
proof -
  obtain rw where rw: "rw_from_setup B (server_setup_of (sy_server sy)) = Some rw"
    "rw_sync cs_ok (sy_server sy) (kv_table (sv_store (sy_server sy))) rw"
    by (rule rw_from_setup_ok [OF assms(1)])
  have "sys_at sp_ok cs_ok H (sy\<lparr> sy_rw := rw \<rparr>)"
    by (rule sys_at_rw [OF assms(2) le_refl]) (use rw(2) sys_atD(1) [OF assms(2)] in \<open>simp add: rw_sync_def\<close>)
  then show ?thesis using rw(1) by (simp add: rw_reset_from_def)
qed

text \<open>A client at the last possible epoch panics in \<open>checked_add\<close>, so it makes no step.\<close>

lemma deliver_epoch_left:
  "hp_try_apply_delta_or_resync B hp delta b = Some x \<Longrightarrow> hp_epoch hp + 1 < 2 ^ 64"
  "rw_try_accumulate_delta_or_resync B rw delta b = Some y \<Longrightarrow> rw_epoch rw + 1 < 2 ^ 64"
  by (auto simp: hp_try_apply_delta_or_resync_def hp_apply_delta_def rw_try_accumulate_delta_or_resync_def
      rw_accumulate_delta_def checked_succ_u64_def split: if_splits)

theorem sys_step_inv:
  assumes "sys_step B xxh draw sy sy'" "sys_inv sy" rng_ok "draw_ok draw"
  shows "sys_inv sy'"
proof -
  obtain H where H: "sys_at sp_ok cs_ok H sy" using assms(2) by blast
  have sv: "sv_ok (sy_server sy)" using assms(2) by blast
  show ?thesis using assms(1)
  proof cases
    case (Insert k key val res sv' k')
    obtain r st res' sv'' where "server_insert B xxh draw (sy_server sy) k key val = Some (res', sv'', k')"
      "sv_ok sv''" "call_ok (sy_server sy) r st res' sv''"
      using server_insert_ok [OF sv assms(4) Insert(3), of xxh k key val] Insert(2) by (metis option.inject prod.inject)
    then show ?thesis using sys_at_mutation [OF sv H _ _ Insert(3)] Insert(1,2) by auto
  next
    case (Update key val res sv')
    obtain r st res' sv'' where "server_update B xxh (sy_server sy) key val = Some (res', sv'')"
      "sv_ok sv''" "call_ok (sy_server sy) r st res' sv''"
      by (rule server_update_ok [OF sv Update(3)])
    then show ?thesis using sys_at_mutation [OF sv H _ _ Update(3)] Update(1,2) by auto
  next
    case (Delete key res sv')
    obtain r st res' sv'' where "server_delete B xxh (sy_server sy) key = Some (res', sv'')"
      "sv_ok sv''" "call_ok (sy_server sy) r st res' sv''"
      by (rule server_delete_ok [OF sv Delete(3)])
    then show ?thesis using sys_at_mutation [OF sv H _ _ Delete(3)] Delete(1,2) by auto
  next
    case (Rebuild g b sv' g')
    obtain sv'' g'' where r: "full_rebuild B (sy_server sy) g = Some (server_setup_of sv'', sv'', g'')" "sv_ok sv''"
      "sv_epoch sv'' = sv_epoch (sy_server sy) + 1" "sv_params sv'' = sv_params (sy_server sy)"
      by (rule full_rebuild_ok [OF sv assms(3) Rebuild(3)])
    then have e: "sv'' = sv'" using Rebuild(2) by simp
    have "sys_at sp_ok cs_ok (H(sv_epoch sv' := (sv_backend_params sv', kv_table (sv_store sv')))) (sy\<lparr> sy_server := sv' \<rparr>)"
      using r(3,4) sv_sps_ok [OF r(2)] server_okD(3) [OF r(2)] unfolding e by (intro sys_at_move [OF H]) simp_all
    then show ?thesis using r(2) Rebuild(1) e by auto
  next
    case Drop_Material
    then show ?thesis using drop_hint_material_ok [OF sv] sys_at_same [OF H, of "drop_hint_material (sy_server sy)"]
      by (auto simp: drop_hint_material_def)
  next
    case (Server_Mode mode)
    then show ?thesis using set_hint_patch_mode_ok [OF sv]
        sys_at_same [OF H, of "server_set_hint_patch_mode (sy_server sy) mode"]
      by (auto simp: server_set_hint_patch_mode_def)
  next
    case (HP_Deliver delta out hp)
    obtain out' hp' where "hp_try_apply_delta_or_resync B (sy_hp sy) delta (server_setup_of (sy_server sy)) = Some (out', hp')"
      "sys_at sp_ok cs_ok H (sy\<lparr> sy_hp := hp' \<rparr>)"
      using hp_deliver [OF sv H HP_Deliver(2) deliver_epoch_left(1) [OF HP_Deliver(3)]] by metis
    then show ?thesis using HP_Deliver(1,3) sv by auto
  next
    case (HP_Mode mode)
    have "sys_at sp_ok cs_ok H (sy\<lparr> sy_hp := hp_set_hint_patch_mode (sy_hp sy) mode \<rparr>)"
      by (rule sys_at_hp [OF H sys_atD(5) [OF H]])
        (use sys_atD(6) [OF H] in \<open>simp add: hp_at_def hp_set_hint_patch_mode_def\<close>)
    then show ?thesis using HP_Mode sv by auto
  next
    case (HP_Query key g q hp g')
    obtain q' hp' g'' where "hp_build_query B xxh (sy_hp sy) key g = Some (q', hp', g'')"
      "sys_at sp_ok cs_ok H (sy\<lparr> sy_hp := hp' \<rparr>)"
      by (rule hp_query_at [OF sv H assms(3)])
    then show ?thesis using HP_Query sv by auto
  next
    case (RW_Deliver delta out rw)
    obtain out' rw' where "rw_try_accumulate_delta_or_resync B (sy_rw sy) delta (server_setup_of (sy_server sy)) = Some (out', rw')"
      "sys_at sp_ok cs_ok H (sy\<lparr> sy_rw := rw' \<rparr>)"
      using rw_deliver [OF sv H RW_Deliver(2) deliver_epoch_left(2) [OF RW_Deliver(3)]] by metis
    then show ?thesis using RW_Deliver(1,3) sv by auto
  next
    case (RW_Query key g q rw g')
    obtain q' rw' g'' where "rw_build_query B xxh (sy_rw sy) key g = Some (q', rw', g'')"
      "sys_at sp_ok cs_ok H (sy\<lparr> sy_rw := rw' \<rparr>)"
      by (rule rw_query_at [OF sv H assms(3)])
    then show ?thesis using RW_Query sv by auto
  next
    case (HP_Precompute cnt g hp g')
    then show ?thesis using hp_precompute_at(1) [OF H assms(3), of cnt g] sv by auto
  next
    case (RW_Precompute cnt g rw g')
    then show ?thesis using rw_precompute_at(1) [OF H assms(3), of cnt g] sv by auto
  qed (use hp_precompute_at(2) rw_precompute_at(2,3) hp_reset_at rw_reset_at sv H assms(3) in fastforce)+
qed

section \<open>Reachable states\<close>

theorem sys_reachable_inv:
  assumes "sys_reachable B xxh draw st cfg sy" rng_ok "draw_ok draw" "kv_inv st" "kv_counted st"
    and "kv_params st = Some p" "segments_ok p" "cfg_ok cfg (cp_segment_size p) (cp_row_width p) (cp_plaintext_bits p)"
  shows "sys_inv sy \<and> sv_params (sy_server sy) = p"
  using assms(1)
proof induction
  case (Start g sv g' hp rw)
  obtain sv' g'' where new: "server_new B st cfg g = Some (sv', g'')" "sv_ok sv'" "sv_epoch sv' = 0" "sv_params sv' = p"
    "kv_table (sv_store sv') = kv_table st"
    by (rule server_new_ok [OF assms(4-7,2,8)])
  then have sv: "sv_ok sv" "sv_params sv = p" using Start(1) by auto
  have "hp_sync cs_ok sv hp" using hp_from_setup_ok [OF sv(1)] Start(2) by (metis option.inject)
  moreover have "rw_sync cs_ok sv (kv_table (sv_store sv)) rw" using rw_from_setup_ok [OF sv(1)] Start(3) by (metis option.inject)
  ultimately have "sys_at sp_ok cs_ok (\<lambda>_. (sv_backend_params sv, kv_table (sv_store sv)))
      \<lparr> sy_server = sv, sy_published = [], sy_hp = hp, sy_rw = rw \<rparr>"
    using sv_sps_ok [OF sv(1)] server_okD(3) [OF sv(1)]
    by (simp add: sys_at_def Let_def hp_sync_def rw_sync_def) blast
  then show ?case using sv by auto
next
  case (Step sy sy')
  have "sys_inv sy'" by (rule sys_step_inv [OF Step(2) _ assms(2,3)]) (use Step(3) in blast)
  moreover have "sv_params (sy_server sy') = sv_params (sy_server sy)"
    using Step(2)
  proof cases
    case (Insert k key val res sv k')
    obtain r st res' sv' k'' where "server_insert B xxh draw (sy_server sy) k key val = Some (res', sv', k'')"
      "call_ok (sy_server sy) r st res' sv'"
      using server_insert_ok [OF _ assms(3) Insert(3)] Step(3) by metis
    then show ?thesis using Insert(1,2) by (auto simp: call_ok_def published_def split: sum.splits)
  next
    case (Update key val res sv)
    obtain r st res' sv' where "server_update B xxh (sy_server sy) key val = Some (res', sv')"
      "call_ok (sy_server sy) r st res' sv'"
      using server_update_ok [OF _ Update(3)] Step(3) by metis
    then show ?thesis using Update(1,2) by (auto simp: call_ok_def published_def split: sum.splits)
  next
    case (Delete key res sv)
    obtain r st res' sv' where "server_delete B xxh (sy_server sy) key = Some (res', sv')"
      "call_ok (sy_server sy) r st res' sv'"
      using server_delete_ok [OF _ Delete(3)] Step(3) by metis
    then show ?thesis using Delete(1,2) by (auto simp: call_ok_def published_def split: sum.splits)
  next
    case (Rebuild g b sv g')
    then show ?thesis by (auto simp: full_rebuild_def rebuild_with_def bind_eq_Some_conv Let_def split: prod.splits)
  qed (simp_all add: drop_hint_material_def server_set_hint_patch_mode_def)
  ultimately show ?case using Step(3) by simp
qed

text \<open>A client whose epoch is the server's reads the store; any other is refused.\<close>

lemma sys_hp_reads:
  assumes "sys_inv sy" rng_ok "hp_epoch (sy_hp sy) = sv_epoch (sy_server sy)"
    and "\<And>j. j < cp_arity (sv_params (sy_server sy)) \<Longrightarrow> worst_case (sv_backend_params (sy_server sy) ! j)"
  shows "\<exists>q hp g' r res. hp_build_query B xxh (sy_hp sy) key g = Some (q, hp, g') \<and>
    server_answer B (sy_server sy) q = Some (Inr r) \<and> hp_decode B xxh hp key r = Some (Inr res) \<and>
    client_view xxh (sv_store (sy_server sy)) key res"
proof -
  obtain H where H: "sys_at sp_ok cs_ok H sy" and sv: "sv_ok (sy_server sy)" using assms(1) by blast
  have "hp_sync cs_ok (sy_server sy) (sy_hp sy)"
    using sys_atD(1,6) [OF H] assms(3) by (simp add: hp_sync_def)
  then show ?thesis by (rule hp_round [OF sv _ assms(2,4)]) (assumption, intro exI conjI)
qed

lemma sys_rw_reads:
  assumes "sys_inv sy" rng_ok "rw_epoch (sy_rw sy) = sv_epoch (sy_server sy)"
    and "\<And>j. j < cp_arity (sv_params (sy_server sy)) \<Longrightarrow> worst_case (sv_backend_params (sy_server sy) ! j)"
  shows "\<exists>q rw g' r res. rw_build_query B xxh (sy_rw sy) key g = Some (q, rw, g') \<and>
    server_answer B (sy_server sy) q = Some (Inr r) \<and> rw_decode B xxh rw key q r = Some (Inr res) \<and>
    client_view xxh (sv_store (sy_server sy)) key res"
proof -
  obtain H where H: "sys_at sp_ok cs_ok H sy" and sv: "sv_ok (sy_server sy)" using assms(1) by blast
  obtain t0 where "rw_sync cs_ok (sy_server sy) t0 (sy_rw sy)"
    using sys_atD(1,8) [OF H] assms(3) by (auto simp: rw_sync_def)
  then show ?thesis by (rule rw_round [OF sv _ assms(2,4)]) (assumption, intro exI conjI)
qed

lemma sys_stale_refused:
  assumes "sys_inv sy" rng_ok
  shows "hp_epoch (sy_hp sy) \<noteq> sv_epoch (sy_server sy) \<Longrightarrow>
      \<exists>q hp g'. hp_build_query B xxh (sy_hp sy) key g = Some (q, hp, g') \<and>
        server_answer B (sy_server sy) q = Some (Inl (StaleEpoch (sv_epoch (sy_server sy)) (hp_epoch (sy_hp sy))))"
    "rw_epoch (sy_rw sy) \<noteq> sv_epoch (sy_server sy) \<Longrightarrow>
      \<exists>q rw g'. rw_build_query B xxh (sy_rw sy) key g = Some (q, rw, g') \<and>
        server_answer B (sy_server sy) q = Some (Inl (StaleEpoch (sv_epoch (sy_server sy)) (rw_epoch (sy_rw sy))))"
proof -
  obtain H where H: "sys_at sp_ok cs_ok H sy" and sv: "sv_ok (sy_server sy)" using assms(1) by blast
  obtain q hp g' where "hp_build_query B xxh (sy_hp sy) key g = Some (q, hp, g')" "pq_epoch q = hp_epoch (sy_hp sy)"
    by (rule hp_query_at [OF sv H assms(2)])
  then show "hp_epoch (sy_hp sy) \<noteq> sv_epoch (sy_server sy) \<Longrightarrow>
      \<exists>q hp g'. hp_build_query B xxh (sy_hp sy) key g = Some (q, hp, g') \<and>
        server_answer B (sy_server sy) q = Some (Inl (StaleEpoch (sv_epoch (sy_server sy)) (hp_epoch (sy_hp sy))))"
    by (simp add: server_answer_def)
  obtain q rw g' where "rw_build_query B xxh (sy_rw sy) key g = Some (q, rw, g')" "pq_epoch q = rw_epoch (sy_rw sy)"
    by (rule rw_query_at [OF sv H assms(2)])
  then show "rw_epoch (sy_rw sy) \<noteq> sv_epoch (sy_server sy) \<Longrightarrow>
      \<exists>q rw g'. rw_build_query B xxh (sy_rw sy) key g = Some (q, rw, g') \<and>
        server_answer B (sy_server sy) q = Some (Inl (StaleEpoch (sv_epoch (sy_server sy)) (rw_epoch (sy_rw sy))))"
    by (simp add: server_answer_def)
qed

text \<open>Delivering the newest bundle brings a lagging client to the server's epoch.\<close>

lemma sys_catch_up:
  assumes "sys_inv sy" "delta \<in> set (sy_published sy)" "hd_epoch delta = sv_epoch (sy_server sy)" "sv_epoch (sy_server sy) < 2 ^ 64"
  shows "hp_epoch (sy_hp sy) < sv_epoch (sy_server sy) \<Longrightarrow>
      \<exists>out hp. hp_try_apply_delta_or_resync B (sy_hp sy) delta (server_setup_of (sy_server sy)) = Some (Inr out, hp) \<and>
        hp_epoch hp = sv_epoch (sy_server sy)"
    "rw_epoch (sy_rw sy) < sv_epoch (sy_server sy) \<Longrightarrow>
      \<exists>out rw. rw_try_accumulate_delta_or_resync B (sy_rw sy) delta (server_setup_of (sy_server sy)) = Some (Inr out, rw) \<and>
        rw_epoch rw = sv_epoch (sy_server sy)"
proof -
  obtain H where H: "sys_at sp_ok cs_ok H sy" and sv: "sv_ok (sy_server sy)" using assms(1) by blast
  show "\<exists>out hp. hp_try_apply_delta_or_resync B (sy_hp sy) delta (server_setup_of (sy_server sy)) = Some (Inr out, hp) \<and>
        hp_epoch hp = sv_epoch (sy_server sy)" if l: "hp_epoch (sy_hp sy) < sv_epoch (sy_server sy)"
  proof -
    have e: "hp_epoch (sy_hp sy) + 1 < 2 ^ 64" using l assms(4) by linarith
    show ?thesis
    proof (rule hp_deliver [OF sv H assms(2) e])
      fix out hp
      assume a: "hp_try_apply_delta_or_resync B (sy_hp sy) delta (server_setup_of (sy_server sy)) = Some (out, hp)"
        "hd_epoch delta = hp_epoch (sy_hp sy) + 1 \<Longrightarrow> out = Inr Synced \<and> hp_epoch hp = hd_epoch delta"
        "hp_epoch (sy_hp sy) + 1 < hd_epoch delta \<Longrightarrow> out = Inr Resynced \<and> hp_epoch hp = sv_epoch (sy_server sy)"
      have "(\<exists>o'. out = Inr o') \<and> hp_epoch hp = sv_epoch (sy_server sy)"
        using a(2,3) l assms(3) by (cases "hd_epoch delta = hp_epoch (sy_hp sy) + 1") simp_all
      then show ?thesis using a(1) by blast
    qed
  qed
  show "\<exists>out rw. rw_try_accumulate_delta_or_resync B (sy_rw sy) delta (server_setup_of (sy_server sy)) = Some (Inr out, rw) \<and>
        rw_epoch rw = sv_epoch (sy_server sy)" if l: "rw_epoch (sy_rw sy) < sv_epoch (sy_server sy)"
  proof -
    have e: "rw_epoch (sy_rw sy) + 1 < 2 ^ 64" using l assms(4) by linarith
    show ?thesis
    proof (rule rw_deliver [OF sv H assms(2) e])
      fix out rw
      assume a: "rw_try_accumulate_delta_or_resync B (sy_rw sy) delta (server_setup_of (sy_server sy)) = Some (out, rw)"
        "hd_epoch delta = rw_epoch (sy_rw sy) + 1 \<Longrightarrow> out = Inr Synced \<and> rw_epoch rw = hd_epoch delta"
        "rw_epoch (sy_rw sy) + 1 < hd_epoch delta \<Longrightarrow> out = Inr Resynced \<and> rw_epoch rw = sv_epoch (sy_server sy)"
      have "(\<exists>o'. out = Inr o') \<and> rw_epoch rw = sv_epoch (sy_server sy)"
        using a(2,3) l assms(3) by (cases "hd_epoch delta = rw_epoch (sy_rw sy) + 1") simp_all
      then show ?thesis using a(1) by blast
    qed
  qed
qed

end

end
