(* ===== verification/Protocol_Properties.thy ===== *)
theory Protocol_Properties
  imports Protocol Backend_Properties Store_Properties
begin

text \<open>
  What the protocol promises, for the LWE back end: the server's hints follow its store, published
  deltas are the cell differences, and clients that consume them read the store. The instances
  deploy the two-bucket store of Store_Properties with the small back end of
  Backend_Properties.
\<close>

section \<open>Deployments\<close>

text \<open>A store that a server with LWE dimension \<open>lwe\<close> can be built on.\<close>

definition frodo_deployable :: "kv_store \<Rightarrow> nat \<Rightarrow> cuckoo_params \<Rightarrow> bool" where
  "frodo_deployable st lwe p \<longleftrightarrow> kv_inv st \<and> kv_counted st \<and> kv_params st = Some p \<and> segments_ok p \<and>
     frodo_cfg_ok lwe (cp_segment_size p) (cp_row_width p) (cp_plaintext_bits p)"

type_synonym frodo_system = "(nat, frodo_server_params, u32 list, u32 list, frodo_client) pir_system"

lemma frodo_reachable_inv:
  assumes "frodo_deployable st lwe p" "productive next_u32" "draw_ok draw"
    and "sys_reachable (frodo_backend x86 chacha next_u32 fill) xxh draw st lwe sy"
  shows "server_ok frodo_cfg_ok frodo_sp_ok (frodo_mat_ok chacha) (frodo_hint_ok chacha) (sy_server sy)"
    "\<exists>H. sys_at frodo_sp_ok (frodo_cs_ok chacha) H sy" "sv_params (sy_server sy) = p"
  using frodo.sys_reachable_inv [OF assms(4,2,3)] assms(1) by (simp_all add: frodo_deployable_def)

lemma frodo_reachable_worst_case:
  assumes "server_ok frodo_cfg_ok frodo_sp_ok (frodo_mat_ok chacha) (frodo_hint_ok chacha) sv"
    and "noise_ok (cp_segment_size (sv_params sv)) 1 (cp_plaintext_bits (sv_params sv))" "j < cp_arity (sv_params sv)"
  shows "frodo_worst_case (sv_backend_params sv ! j)"
  using server_okD(6) [OF assms(1,3)] assms(2) by (simp add: frodo_worst_case_def frodo_sp_ok_def)

text \<open>The client's view agrees with \<open>get\<close> when the store holds at most one value for the key.\<close>

definition reads :: "(u8 list \<Rightarrow> u128) \<Rightarrow> kv_store \<Rightarrow> u8 list \<Rightarrow> u8 list option \<Rightarrow> bool" where
  "reads xxh st key res \<longleftrightarrow> client_view xxh st key res \<and>
     ((\<forall>v \<in> kv_values xxh st key. \<forall>w \<in> kv_values xxh st key. v = w) \<longrightarrow> kv_get xxh st key = Some res)"

lemma client_view_reads: "kv_inv st \<Longrightarrow> client_view xxh st key res \<Longrightarrow> reads xxh st key res"
  using client_view_get unfolding reads_def by blast

section \<open>A small deployment\<close>

abbreviation demo_backend :: "(nat, frodo_server_params, u32 list, u32 list, frodo_client, u32 list, u32 list, unit) backend" where
  "demo_backend \<equiv> frodo_backend True demo_chacha demo_next demo_fill"

abbreviation demo_reachable :: "frodo_system \<Rightarrow> bool" where
  "demo_reachable \<equiv> sys_reachable demo_backend (\<lambda>_. 0) (\<lambda>n g :: unit. (0, g)) demo_store 4"

definition demo_kv_params :: cuckoo_params where
  "demo_kv_params = \<lparr> cp_scheme_kind = Segmented2ary, cp_num_buckets = 2, cp_bucket_size = 1,
     cp_fingerprint_bits = 8, cp_value_bits = 8, cp_plaintext_bits = 8 \<rparr>"

lemma demo_kv_params: "kv_params demo_store = Some demo_kv_params"
  by (simp add: kv_params_def demo_store_def demo_table_def demo_kv_params_def)

lemma demo_deployable: "frodo_deployable demo_store 4 demo_kv_params"
  using demo_inv demo_counted demo_kv_params
  by (simp add: frodo_deployable_def segments_ok_def frodo_cfg_ok_def)
    (simp add: demo_kv_params_def cp_arity_def cp_segment_size_def cp_cells_per_slot_def div_ceil_def)

text \<open>The store after one insert, on the server: the log is drained.\<close>

definition demo_served :: kv_store where
  "demo_served = demo_one\<lparr> kv_mutation_log := Some [] \<rparr>"

lemma demo_served_get: "kv_get (\<lambda>_. 0) demo_served [1] = Some (Some [7])"
  by code_simp

lemma demo_served_single:
  assumes "v \<in> kv_values (\<lambda>_. 0) demo_served [1]" "w \<in> kv_values (\<lambda>_. 0) demo_served [1]"
  shows "v = w"
proof -
  have "length [7 :: u8] = kv_value_size_in_bytes demo_store" by code_simp
  then obtain u where "kv_bag demo_one = {# (fst (key_tag (\<lambda>_. 0) demo_store [1]), snd (key_tag (\<lambda>_. 0) demo_store [1]), u) #}"
    using kv_insert_spec [OF demo_inv draw_zero_ok, of "[7]" "\<lambda>_. 0" "()" "[1]"] demo_insert demo_bag by auto
  moreover have "kv_bag demo_served = kv_bag demo_one" by (simp add: demo_served_def kv_bag_def)
  ultimately show ?thesis using assms by (simp add: kv_values_def)
qed

lemma demo_start:
  "\<exists>sy. demo_reachable sy \<and> sv_epoch (sy_server sy) = 0 \<and> hp_epoch (sy_hp sy) = 0 \<and> rw_epoch (sy_rw sy) = 0 \<and>
     sv_store (sy_server sy) = demo_store \<and> sy_published sy = []"
proof -
  note dep = demo_deployable [unfolded frodo_deployable_def]
  obtain sv g' where sv: "server_new demo_backend demo_store 4 () = Some (sv, g')"
    "server_ok frodo_cfg_ok frodo_sp_ok (frodo_mat_ok demo_chacha) (frodo_hint_ok demo_chacha) sv" "sv_epoch sv = 0"
    using frodo.server_new_ok [of demo_store demo_kv_params demo_next 4 True demo_chacha demo_fill "()"] dep demo_productive by blast
  have "sv_store sv = demo_store"
    using sv(1) by (auto simp: server_new_def server_build_def bind_eq_Some_conv kv_drain_mutations_def
        kv_enable_mutation_log_def demo_store_def Let_def)
  moreover obtain hp where hp: "hp_from_setup demo_backend (server_setup_of sv) = Some hp" "hp_sync (frodo_cs_ok demo_chacha) sv hp"
    using frodo.hp_from_setup_ok [OF sv(2), of True demo_next demo_fill] by blast
  moreover obtain rw where rw: "rw_from_setup demo_backend (server_setup_of sv) = Some rw"
    "rw_sync (frodo_cs_ok demo_chacha) sv (kv_table (sv_store sv)) rw"
    using frodo.rw_from_setup_ok [OF sv(2), of True demo_next demo_fill] by blast
  ultimately show ?thesis
    using sys_reachable.Start [OF sv(1) hp(1) rw(1), of "\<lambda>_. 0" "\<lambda>n g :: unit. (0, g)"] sv(3)
    by (intro exI [of _ "\<lparr> sy_server = sv, sy_published = [], sy_hp = hp, sy_rw = rw \<rparr>"]) (simp add: sync_defs)
qed

lemmas demo_inv_of = frodo_reachable_inv [OF demo_deployable demo_productive draw_zero_ok]

lemma demo_inserted:
  "\<exists>sy delta. demo_reachable sy \<and> sv_epoch (sy_server sy) = 1 \<and> hp_epoch (sy_hp sy) = 0 \<and> rw_epoch (sy_rw sy) = 0 \<and>
     sv_store (sy_server sy) = demo_served \<and> sy_published sy = [delta] \<and> hd_epoch delta = 1"
proof -
  obtain sy where sy: "demo_reachable sy" "sv_epoch (sy_server sy) = 0" "hp_epoch (sy_hp sy) = 0" "rw_epoch (sy_rw sy) = 0"
    "sv_store (sy_server sy) = demo_store" "sy_published sy = []" using demo_start by blast
  have e: "sv_epoch (sy_server sy) + 1 < 2 ^ 64" using sy(2) by simp
  obtain r st k' res sv where i: "kv_insert (\<lambda>_. 0) (\<lambda>n g :: unit. (0, g)) (sv_store (sy_server sy)) () [1] [7] = Some (r, st, k')"
    "server_insert demo_backend (\<lambda>_. 0) (\<lambda>n g. (0, g)) (sy_server sy) () [1] [7] = Some (res, sv, k')"
    "call_ok (sy_server sy) r st res sv"
    using frodo.server_insert_ok [OF demo_inv_of(1) [OF sy(1)] draw_zero_ok e] by metis
  then obtain delta where d: "res = Inr delta" "published (sy_server sy) delta sv" "sv_store sv = demo_served"
    using demo_insert by (auto simp: call_ok_def sy(5) demo_served_def)
  have "demo_reachable (sy\<lparr> sy_server := sv, sy_published := publish res (sy_published sy) \<rparr>)"
    by (rule sys_reachable.Step [OF sy(1) sys_step.Insert [OF i(2) e]])
  then show ?thesis using d sy(2,3,4,6)
    by (intro exI [of _ "sy\<lparr> sy_server := sv, sy_published := publish res (sy_published sy) \<rparr>"] exI [of _ delta])
      (simp add: published_def)
qed

lemma demo_delivered:
  "\<exists>sy delta. demo_reachable sy \<and> sv_epoch (sy_server sy) = 1 \<and> hp_epoch (sy_hp sy) = 1 \<and> rw_epoch (sy_rw sy) = 1 \<and>
     sv_store (sy_server sy) = demo_served \<and> sy_published sy = [delta]"
proof -
  obtain sy delta where sy: "demo_reachable sy" "sv_epoch (sy_server sy) = 1" "hp_epoch (sy_hp sy) = 0" "rw_epoch (sy_rw sy) = 0"
    "sv_store (sy_server sy) = demo_served" "sy_published sy = [delta]" "hd_epoch delta = 1" using demo_inserted by blast
  note inv = demo_inv_of [OF sy(1)]
  have d: "delta \<in> set (sy_published sy)" "hd_epoch delta = sv_epoch (sy_server sy)" "sv_epoch (sy_server sy) < 2 ^ 64"
    using sy by simp_all
  obtain out hp where hp: "hp_try_apply_delta_or_resync demo_backend (sy_hp sy) delta (server_setup_of (sy_server sy)) = Some (Inr out, hp)"
    "hp_epoch hp = 1" using frodo.sys_catch_up(1) [OF conjI [OF inv(1,2)] d] sy(2,3) by fastforce
  let ?sy = "sy\<lparr> sy_hp := hp \<rparr>"
  have r1: "demo_reachable ?sy" by (rule sys_reachable.Step [OF sy(1) sys_step.HP_Deliver [OF d(1) hp(1)]])
  note inv1 = demo_inv_of [OF r1]
  have d1: "delta \<in> set (sy_published ?sy)" "hd_epoch delta = sv_epoch (sy_server ?sy)" "sv_epoch (sy_server ?sy) < 2 ^ 64"
    using d by simp_all
  obtain out' rw where rw: "rw_try_accumulate_delta_or_resync demo_backend (sy_rw ?sy) delta (server_setup_of (sy_server ?sy)) = Some (Inr out', rw)"
    "rw_epoch rw = 1" using frodo.sys_catch_up(2) [OF conjI [OF inv1(1,2)] d1] sy(2,4) by fastforce
  have "demo_reachable (?sy\<lparr> sy_rw := rw \<rparr>)" by (rule sys_reachable.Step [OF r1 sys_step.RW_Deliver [OF d1(1) rw(1)]])
  then show ?thesis using sy hp(2) rw(2)
    by (intro exI [of _ "?sy\<lparr> sy_rw := rw \<rparr>"] exI [of _ delta]) simp
qed

lemma demo_noise: "noise_ok (cp_segment_size demo_kv_params) 1 (cp_plaintext_bits demo_kv_params)"
  by (simp add: noise_ok_def demo_kv_params_def cp_segment_size_def cp_arity_def)

section \<open>Reading\<close>

text \<open>C1. In every reachable state of the system (any interleaving of mutations, rebuilds, late,
  repeated or reordered deliveries, resets, precomputation and queries), a hint-patching client
  whose epoch is the server's can query any key: its query is answered and decodes, without error
  or panic, to the value the store holds for the key.\<close>

theorem patching_client_reads_store:
  assumes "frodo_deployable st lwe p" "productive next_u32" "draw_ok draw"
    and "sys_reachable (frodo_backend x86 chacha next_u32 fill) xxh draw st lwe sy"
    and "noise_ok (cp_segment_size p) 1 (cp_plaintext_bits p)" "hp_epoch (sy_hp sy) = sv_epoch (sy_server sy)"
  shows "\<exists>q hp g' r res. hp_build_query (frodo_backend x86 chacha next_u32 fill) xxh (sy_hp sy) key g = Some (q, hp, g') \<and>
    server_answer (frodo_backend x86 chacha next_u32 fill) (sy_server sy) q = Some (Inr r) \<and>
    hp_decode (frodo_backend x86 chacha next_u32 fill) xxh hp key r = Some (Inr res) \<and>
    reads xxh (sv_store (sy_server sy)) key res"
proof -
  note inv = frodo_reachable_inv [OF assms(1-4)]
  show ?thesis
    using frodo.sys_hp_reads [OF conjI [OF inv(1,2)] assms(2,6), of x86 fill xxh key g]
      frodo_reachable_worst_case [OF inv(1)] assms(5) inv(3) client_view_reads [OF server_okD(1) [OF inv(1)]] by blast
qed

theorem patching_client_reads_store_witness:
  "\<exists>sy q hp r. demo_reachable sy \<and> sv_epoch (sy_server sy) = 1 \<and>
    hp_build_query demo_backend (\<lambda>_. 0) (sy_hp sy) [1] () = Some (q, hp, ()) \<and>
    server_answer demo_backend (sy_server sy) q = Some (Inr r) \<and>
    hp_decode demo_backend (\<lambda>_. 0) hp [1] r = Some (Inr (Some [7]))"
proof -
  obtain sy where sy: "demo_reachable sy" "sv_epoch (sy_server sy) = 1" "hp_epoch (sy_hp sy) = sv_epoch (sy_server sy)"
    "sv_store (sy_server sy) = demo_served" using demo_delivered by force
  obtain q hp g' r res where p: "hp_build_query demo_backend (\<lambda>_. 0) (sy_hp sy) [1] () = Some (q, hp, g')"
    "server_answer demo_backend (sy_server sy) q = Some (Inr r)"
    "hp_decode demo_backend (\<lambda>_. 0) hp [1] r = Some (Inr res)" "reads (\<lambda>_. 0) (sv_store (sy_server sy)) [1] res"
    using patching_client_reads_store [OF demo_deployable demo_productive draw_zero_ok sy(1) demo_noise sy(3), of "[1]" "()"]
    by blast
  have "res = Some [7]" using p(4) demo_served_get demo_served_single by (auto simp: reads_def sy(4))
  then show ?thesis using p sy(1,2) by auto
qed

text \<open>C2. The same for the rewinding client, whose hints stay pinned to an old table: at the
  server's epoch, a query answered on the current table is corrected, decoded on the pinned table
  and fixed up to the value the store holds now; no check of the fix-up fails.\<close>

theorem rewinding_client_reads_store:
  assumes "frodo_deployable st lwe p" "productive next_u32" "draw_ok draw"
    and "sys_reachable (frodo_backend x86 chacha next_u32 fill) xxh draw st lwe sy"
    and "noise_ok (cp_segment_size p) 1 (cp_plaintext_bits p)" "rw_epoch (sy_rw sy) = sv_epoch (sy_server sy)"
  shows "\<exists>q rw g' r res. rw_build_query (frodo_backend x86 chacha next_u32 fill) xxh (sy_rw sy) key g = Some (q, rw, g') \<and>
    server_answer (frodo_backend x86 chacha next_u32 fill) (sy_server sy) q = Some (Inr r) \<and>
    rw_decode (frodo_backend x86 chacha next_u32 fill) xxh rw key q r = Some (Inr res) \<and>
    reads xxh (sv_store (sy_server sy)) key res"
proof -
  note inv = frodo_reachable_inv [OF assms(1-4)]
  show ?thesis
    using frodo.sys_rw_reads [OF conjI [OF inv(1,2)] assms(2,6), of x86 fill xxh key g]
      frodo_reachable_worst_case [OF inv(1)] assms(5) inv(3) client_view_reads [OF server_okD(1) [OF inv(1)]] by blast
qed

theorem rewinding_client_reads_store_witness:
  "\<exists>sy q rw r. demo_reachable sy \<and> sv_epoch (sy_server sy) = 1 \<and>
    rw_build_query demo_backend (\<lambda>_. 0) (sy_rw sy) [1] () = Some (q, rw, ()) \<and>
    server_answer demo_backend (sy_server sy) q = Some (Inr r) \<and>
    rw_decode demo_backend (\<lambda>_. 0) rw [1] q r = Some (Inr (Some [7]))"
proof -
  obtain sy where sy: "demo_reachable sy" "sv_epoch (sy_server sy) = 1" "rw_epoch (sy_rw sy) = sv_epoch (sy_server sy)"
    "sv_store (sy_server sy) = demo_served" using demo_delivered by force
  obtain q rw g' r res where p: "rw_build_query demo_backend (\<lambda>_. 0) (sy_rw sy) [1] () = Some (q, rw, g')"
    "server_answer demo_backend (sy_server sy) q = Some (Inr r)"
    "rw_decode demo_backend (\<lambda>_. 0) rw [1] q r = Some (Inr res)" "reads (\<lambda>_. 0) (sv_store (sy_server sy)) [1] res"
    using rewinding_client_reads_store [OF demo_deployable demo_productive draw_zero_ok sy(1) demo_noise sy(3), of "[1]" "()"]
    by blast
  have "res = Some [7]" using p(4) demo_served_get demo_served_single by (auto simp: reads_def sy(4))
  then show ?thesis using p sy(1,2) by auto
qed

section \<open>Refusing and catching up\<close>

text \<open>C32. In every reachable state, a client that is not at the server's epoch gets no answer: its
  query is built, and the server refuses it with \<open>StaleEpoch\<close> carrying both epochs.\<close>

theorem lagging_clients_are_refused:
  assumes "frodo_deployable st lwe p" "productive next_u32" "draw_ok draw"
    and "sys_reachable (frodo_backend x86 chacha next_u32 fill) xxh draw st lwe sy"
    and "hp_epoch (sy_hp sy) \<noteq> sv_epoch (sy_server sy)" "rw_epoch (sy_rw sy) \<noteq> sv_epoch (sy_server sy)"
  shows "(\<exists>q hp g'. hp_build_query (frodo_backend x86 chacha next_u32 fill) xxh (sy_hp sy) key g = Some (q, hp, g') \<and>
      server_answer (frodo_backend x86 chacha next_u32 fill) (sy_server sy) q =
        Some (Inl (StaleEpoch (sv_epoch (sy_server sy)) (hp_epoch (sy_hp sy))))) \<and>
    (\<exists>q rw g'. rw_build_query (frodo_backend x86 chacha next_u32 fill) xxh (sy_rw sy) key g = Some (q, rw, g') \<and>
      server_answer (frodo_backend x86 chacha next_u32 fill) (sy_server sy) q =
        Some (Inl (StaleEpoch (sv_epoch (sy_server sy)) (rw_epoch (sy_rw sy)))))"
proof -
  note inv = frodo_reachable_inv [OF assms(1-4)]
  note s = frodo.sys_stale_refused [OF conjI [OF inv(1,2)] assms(2), of x86 fill xxh key g]
  show ?thesis by (intro conjI s assms)
qed

theorem lagging_clients_are_refused_witness:
  "\<exists>sy q hp. demo_reachable sy \<and> hp_build_query demo_backend (\<lambda>_. 0) (sy_hp sy) [1] () = Some (q, hp, ()) \<and>
    server_answer demo_backend (sy_server sy) q = Some (Inl (StaleEpoch 1 0))"
proof -
  obtain sy where sy: "demo_reachable sy" "sv_epoch (sy_server sy) = 1" "hp_epoch (sy_hp sy) = 0" "rw_epoch (sy_rw sy) = 0"
    using demo_inserted by force
  have "hp_epoch (sy_hp sy) \<noteq> sv_epoch (sy_server sy)" "rw_epoch (sy_rw sy) \<noteq> sv_epoch (sy_server sy)" using sy by simp_all
  from lagging_clients_are_refused [OF demo_deployable demo_productive draw_zero_ok sy(1) this, of "[1]" "()"]
  show ?thesis using sy by auto
qed

text \<open>C4. Clients catch up: in every reachable state, delivering the newest published bundle to a
  client that lags by any number of epochs succeeds and brings it to the server's epoch, by
  applying the bundle when it is the next one and by a reset from a fetched setup bundle when
  earlier ones were missed.\<close>

theorem newest_bundle_catches_up:
  assumes "frodo_deployable st lwe p" "productive next_u32" "draw_ok draw"
    and "sys_reachable (frodo_backend x86 chacha next_u32 fill) xxh draw st lwe sy"
    and "delta \<in> set (sy_published sy)" "hd_epoch delta = sv_epoch (sy_server sy)" "sv_epoch (sy_server sy) < 2 ^ 64"
    and "hp_epoch (sy_hp sy) < sv_epoch (sy_server sy)" "rw_epoch (sy_rw sy) < sv_epoch (sy_server sy)"
  shows "(\<exists>out hp. hp_try_apply_delta_or_resync (frodo_backend x86 chacha next_u32 fill) (sy_hp sy) delta
      (server_setup_of (sy_server sy)) = Some (Inr out, hp) \<and> hp_epoch hp = sv_epoch (sy_server sy)) \<and>
    (\<exists>out rw. rw_try_accumulate_delta_or_resync (frodo_backend x86 chacha next_u32 fill) (sy_rw sy) delta
      (server_setup_of (sy_server sy)) = Some (Inr out, rw) \<and> rw_epoch rw = sv_epoch (sy_server sy))"
proof -
  note inv = frodo_reachable_inv [OF assms(1-4)]
  note s = frodo.sys_catch_up [OF conjI [OF inv(1,2)] assms(5-7), of x86 next_u32 fill]
  show ?thesis by (intro conjI s assms)
qed

theorem newest_bundle_catches_up_witness:
  "\<exists>sy delta out hp. demo_reachable sy \<and> hp_epoch (sy_hp sy) = 0 \<and>
    hp_try_apply_delta_or_resync demo_backend (sy_hp sy) delta (server_setup_of (sy_server sy)) = Some (Inr out, hp) \<and>
    hp_epoch hp = 1"
proof -
  obtain sy delta where sy: "demo_reachable sy" "sv_epoch (sy_server sy) = 1" "hp_epoch (sy_hp sy) = 0" "rw_epoch (sy_rw sy) = 0"
    "sy_published sy = [delta]" "hd_epoch delta = 1" using demo_inserted by blast
  have h: "delta \<in> set (sy_published sy)" "hd_epoch delta = sv_epoch (sy_server sy)" "sv_epoch (sy_server sy) < 2 ^ 64"
    "hp_epoch (sy_hp sy) < sv_epoch (sy_server sy)" "rw_epoch (sy_rw sy) < sv_epoch (sy_server sy)" using sy by simp_all
  from newest_bundle_catches_up [OF demo_deployable demo_productive draw_zero_ok sy(1) h] show ?thesis using sy by auto
qed

section \<open>The server\<close>

text \<open>C5. The server's hints are never stale: in every reachable state, after any sequence of
  inserts, updates, deletes, patch modes, dropped materials and rebuilds, the hint of each segment
  is what \<open>compute_hint\<close> gives on the segment of the current cell array.\<close>

theorem hints_stay_current:
  assumes "frodo_deployable st lwe p" "productive next_u32" "draw_ok draw"
    and "sys_reachable (frodo_backend x86 chacha next_u32 fill) xxh draw st lwe sy" "j < cp_arity p"
  shows "let sp = sv_backend_params (sy_server sy) ! j in
    compute_hint (frodo_mat chacha sp) (seg_db p (kv_table (sv_store (sy_server sy))) j) (cp_segment_size p)
      (fp_lwe_dim (fs_params sp)) (cp_row_width p) = Some (sv_hints (sy_server sy) ! j)"
proof -
  note inv = frodo_reachable_inv [OF assms(1-4)]
  let ?sp = "sv_backend_params (sy_server sy) ! j" and ?db = "seg_db p (kv_table (sv_store (sy_server sy))) j"
  have sp: "frodo_sp_ok ?sp (cp_segment_size p) (cp_row_width p) (cp_plaintext_bits p)"
    and h: "frodo_hint_ok chacha ?sp ?db (sv_hints (sy_server sy) ! j)"
    using server_okD(6,7) [OF inv(1), of j] assms(5) inv(3) by simp_all
  then have d: "fs_n_rows ?sp = cp_segment_size p" "fs_row_width ?sp = cp_row_width p" by (simp_all add: frodo_sp_ok_def)
  have len: "length (frodo_mat chacha ?sp) = cp_segment_size p * fp_lwe_dim (fs_params ?sp)"
    "length ?db = cp_segment_size p * cp_row_width p"
    using frodo_mat_length [of chacha ?sp] h by (simp_all add: d frodo_hint_ok_def)
  obtain h' where "compute_hint (frodo_mat chacha ?sp) ?db (cp_segment_size p) (fp_lwe_dim (fs_params ?sp)) (cp_row_width p) = Some h'"
    "hint_of (cp_segment_size p) (fp_lwe_dim (fs_params ?sp)) (cp_row_width p) (frodo_mat chacha ?sp) (mcell (cp_row_width p) ?db) h'"
    by (rule compute_hint_total [OF len])
  moreover have "hint_of (cp_segment_size p) (fp_lwe_dim (fs_params ?sp)) (cp_row_width p) (frodo_mat chacha ?sp)
      (mcell (cp_row_width p) ?db) (sv_hints (sy_server sy) ! j)" using h by (simp add: frodo_hint_ok_def d)
  ultimately show ?thesis using hint_of_unique by (simp add: Let_def)
qed

theorem hints_stay_current_witness:
  "\<exists>sy. demo_reachable sy \<and> sv_epoch (sy_server sy) = 1 \<and>
    (let sp = sv_backend_params (sy_server sy) ! 1 in
     compute_hint (frodo_mat demo_chacha sp) (seg_db demo_kv_params (kv_table (sv_store (sy_server sy))) 1) 1
      (fp_lwe_dim (fs_params sp)) 2 = Some (sv_hints (sy_server sy) ! 1))"
proof -
  obtain sy where sy: "demo_reachable sy" "sv_epoch (sy_server sy) = 1" using demo_inserted by force
  have "1 < cp_arity demo_kv_params" "cp_segment_size demo_kv_params = 1" "cp_row_width demo_kv_params = 2"
    by (simp_all add: demo_kv_params_def cp_arity_def cp_segment_size_def cp_cells_per_slot_def div_ceil_def)
  then show ?thesis using hints_stay_current [OF demo_deployable demo_productive draw_zero_ok sy(1), of 1] sy by auto
qed

text \<open>C37. Setup is well formed: on a deployable store the server is built, at epoch \<open>0\<close>, with one
  parameter set, one hint material and one hint per segment; every parameter set describes its
  segment, every hint has \<open>lwe_dim * row_width\<close> words, every material is the matrix of its seed,
  and the mutation log is on and empty.\<close>

theorem server_setup_well_formed:
  assumes "frodo_deployable st lwe p" "productive next_u32"
  shows "\<exists>sv g'. server_new (frodo_backend x86 chacha next_u32 fill) st lwe g = Some (sv, g') \<and>
    sv_epoch sv = 0 \<and> sv_params sv = p \<and> kv_mutation_log (sv_store sv) = Some [] \<and>
    length (sv_backend_params sv) = cp_arity p \<and> length (sv_backend_hint_material sv) = cp_arity p \<and>
    length (sv_hints sv) = cp_arity p \<and>
    (\<forall>j < cp_arity p. let sp = sv_backend_params sv ! j in
       fs_n_rows sp = cp_segment_size p \<and> fs_row_width sp = cp_row_width p \<and>
       fp_plaintext_bits (fs_params sp) = cp_plaintext_bits p \<and>
       length (sv_hints sv ! j) = fp_lwe_dim (fs_params sp) * cp_row_width p \<and>
       (\<forall>a. sv_backend_hint_material sv ! j = Some a \<longrightarrow> a = frodo_mat chacha sp))"
proof -
  note dep = assms(1) [unfolded frodo_deployable_def]
  obtain sv g' where sv: "server_new (frodo_backend x86 chacha next_u32 fill) st lwe g = Some (sv, g')"
    "server_ok frodo_cfg_ok frodo_sp_ok (frodo_mat_ok chacha) (frodo_hint_ok chacha) sv" "sv_epoch sv = 0" "sv_params sv = p"
    using frodo.server_new_ok [of st p next_u32 lwe x86 chacha fill g] dep assms(2) by blast
  then show ?thesis
    by (auto simp: server_ok_def frodo_sp_ok_def frodo_hint_ok_def frodo_mat_ok_def Let_def hint_ofD(2) intro!: exI [of _ sv])
qed

theorem server_setup_well_formed_witness:
  "\<exists>sv g'. server_new demo_backend demo_store 4 () = Some (sv, g') \<and> sv_epoch sv = 0 \<and> length (sv_hints sv) = 2"
proof -
  have "cp_arity demo_kv_params = 2" by (simp add: demo_kv_params_def cp_arity_def)
  then show ?thesis
    using server_setup_well_formed [OF demo_deployable demo_productive, of True demo_chacha demo_fill "()"] by auto
qed

text \<open>C3. A mutating call of the server does what the store's call does, and publishes it: it
  returns; when the store reports an error, the server reports the corresponding one and its
  epoch, hints, parameters and cells are untouched; when the store succeeds, the epoch advances by
  one and the returned bundle holds, cell by cell, the difference of the two cell arrays.\<close>

theorem mutations_publish_differences:
  assumes "frodo_deployable st lwe p" "productive next_u32" "draw_ok draw"
    and "sys_reachable (frodo_backend x86 chacha next_u32 fill) xxh draw st lwe sy" "sv_epoch (sy_server sy) + 1 < 2 ^ 64"
  shows "(\<exists>r st' k' res sv'. kv_insert xxh draw (sv_store (sy_server sy)) k key val = Some (r, st', k') \<and>
      server_insert (frodo_backend x86 chacha next_u32 fill) xxh draw (sy_server sy) k key val = Some (res, sv', k') \<and>
      call_ok (sy_server sy) r st' res sv') \<and>
    (\<exists>r st' res sv'. kv_update xxh (sv_store (sy_server sy)) key val = Some (r, st') \<and>
      server_update (frodo_backend x86 chacha next_u32 fill) xxh (sy_server sy) key val = Some (res, sv') \<and>
      call_ok (sy_server sy) r st' res sv') \<and>
    (\<exists>r st' res sv'. kv_delete xxh (sv_store (sy_server sy)) key = Some (r, st') \<and>
      server_delete (frodo_backend x86 chacha next_u32 fill) xxh (sy_server sy) key = Some (res, sv') \<and>
      call_ok (sy_server sy) r st' res sv')"
proof -
  note inv = frodo_reachable_inv [OF assms(1-4)]
  show ?thesis
    using frodo.server_insert_ok [OF inv(1) assms(3,5), of xxh k key val x86 next_u32 fill]
      frodo.server_update_ok [OF inv(1) assms(5), of xxh key val x86 next_u32 fill]
      frodo.server_delete_ok [OF inv(1) assms(5), of xxh key x86 next_u32 fill] by metis
qed

theorem mutations_publish_differences_witness:
  "\<exists>sy delta sv. demo_reachable sy \<and> sv_epoch (sy_server sy) = 0 \<and>
    server_insert demo_backend (\<lambda>_. 0) (\<lambda>n g. (0, g)) (sy_server sy) () [1] [7] = Some (Inr delta, sv, ()) \<and>
    hd_epoch delta = 1 \<and> sv_epoch sv = 1 \<and> sv_store sv = demo_served"
proof -
  obtain sy where sy: "demo_reachable sy" "sv_epoch (sy_server sy) = 0" "sv_store (sy_server sy) = demo_store"
    using demo_start by blast
  have e: "sv_epoch (sy_server sy) + 1 < 2 ^ 64" using sy(2) by simp
  obtain r st' k' res sv' where i: "kv_insert (\<lambda>_. 0) (\<lambda>n g :: unit. (0, g)) (sv_store (sy_server sy)) () [1] [7] = Some (r, st', k')"
    "server_insert demo_backend (\<lambda>_. 0) (\<lambda>n g. (0, g)) (sy_server sy) () [1] [7] = Some (res, sv', k')"
    "call_ok (sy_server sy) r st' res sv'"
    using mutations_publish_differences [OF demo_deployable demo_productive draw_zero_ok sy(1) e, of "()" "[1]" "[7]"] by blast
  then obtain delta where "res = Inr delta" "published (sy_server sy) delta sv'" "sv_store sv' = demo_served"
    using demo_insert by (auto simp: call_ok_def sy(3) demo_served_def)
  then show ?thesis using sy i(2) by (auto simp: published_def)
qed

section \<open>Deltas\<close>

text \<open>C31. Folding a mutation log is exact and canonical: for a log that leads from one table to
  another, \<open>fold_mutations_into_row_deltas\<close> returns (no assertion fails, no addition overflows)
  one delta list per segment whose sums are the cell-wise differences of the two tables; rows and
  offsets ascend strictly, and no row is empty and no delta zero.\<close>

theorem log_folds_to_differences:
  assumes "logged t ms u" "fv_padded t" "describes p t" "segments_ok p"
  shows "\<exists>rds. fold_mutations_into_row_deltas ms p = Some rds \<and> length rds = cp_arity p \<and>
    (\<forall>j < cp_arity p. canonical (rds ! j) \<and>
       (\<forall>r < cp_segment_size p. \<forall>k < row_cells t. row_delta (rds ! j) r k =
          uint (tcell u (j * cp_segment_size p + r) k) - uint (tcell t (j * cp_segment_size p + r) k)))"
proof -
  obtain rds where "fold_mutations_into_row_deltas ms p = Some rds" "deltas_of p t u rds"
    by (rule fold_mutations_exact [OF assms])
  then show ?thesis by (auto simp: deltas_of_def cell_diff_def)
qed

definition demo_mutations :: "slot_mutation list" where
  "demo_mutations = [\<lparr> sm_bucket = 0, sm_slot = 0, sm_old_fingerprint = 0, sm_new_fingerprint = 1,
     sm_old_value_cells = [0], sm_new_value_cells = [7] \<rparr>]"

lemma demo_log: "logged demo_table demo_mutations (kv_table demo_one)"
proof -
  have "length [7 :: u8] = kv_value_size_in_bytes demo_store" by code_simp
  then obtain ms where "kv_committed demo_store demo_one ms"
    using kv_insert_spec [OF demo_inv draw_zero_ok, of "[7]" "\<lambda>_. 0" "()" "[1]"] demo_insert by auto
  moreover have "kv_mutation_log demo_one = Some demo_mutations" by code_simp
  ultimately show ?thesis by (auto simp: kv_committed_def demo_store_def)
qed

lemma demo_geometry:
  "cp_segment_size demo_kv_params = 1" "cp_cells_per_slot demo_kv_params = 2" "cp_arity demo_kv_params = 2"
  "cp_bucket_size demo_kv_params = 1" "cp_plaintext_bits demo_kv_params = 8" "row_cells demo_table = 2"
  by (simp_all add: demo_kv_params_def cp_segment_size_def cp_cells_per_slot_def cp_arity_def div_ceil_def
      row_cells_def demo_table_def)

lemma demo_folds: "fold_mutations_into_row_deltas demo_mutations demo_kv_params = Some [[(0, [(0, 1), (1, 7)])], []]"
proof -
  have "pack_slot_cells demo_kv_params 1 [7] 2 = Some [1, 7]" "pack_slot_cells demo_kv_params 0 [0] 2 = Some [0, 0]"
    by code_simp+
  moreover have "[0..<2] = [0, 1 :: nat]" "replicate 2 ([] :: delta_rows) = [[], []]" by (simp_all add: upt_rec numeral_2_eq_2)
  ultimately show ?thesis using demo_geometry
    by (simp add: fold_mutations_into_row_deltas_def fold_mutation_def fold_slot_def bt_delta_def
        checked_add_i64_def i64_ok_def demo_mutations_def)
qed

lemma demo_describes: "describes demo_kv_params demo_table" "segments_ok demo_kv_params"
  using kv_params_describes [OF demo_kv_params] demo_deployable
  by (simp_all add: demo_store_def frodo_deployable_def)

theorem log_folds_to_differences_witness:
  "fold_mutations_into_row_deltas demo_mutations demo_kv_params = Some [[(0, [(0, 1), (1, 7)])], []] \<and>
    row_delta [(0, [(0, 1), (1, 7)])] 0 1 = uint (tcell (kv_table demo_one) 0 1) - uint (tcell demo_table 0 1)"
proof -
  have rd: "row_delta (rds ! 0) 0 1 = uint (tcell (kv_table demo_one) 0 1) - uint (tcell demo_table 0 1)"
    if "fold_mutations_into_row_deltas demo_mutations demo_kv_params = Some rds" for rds
    using log_folds_to_differences [OF demo_log demo_table_inv(3) demo_describes] that demo_geometry by fastforce
  then show ?thesis using rd [OF demo_folds] demo_folds by (simp del: row_delta_simps)
qed

lemma logged_start: "logged t ms u \<Longrightarrow> fv_inv t"
  by (induction rule: logged.induct) simp_all

text \<open>Published deltas are small: each has absolute value below \<open>2\<^sup>p\<^sup>b\<close>, so neither the 64-bit
  sums of the clients nor the bit length the wire format reserves can overflow.\<close>

theorem published_deltas_bounded:
  assumes "logged t ms u" "fv_padded t" "describes p t" "segments_ok p"
    and "fold_mutations_into_row_deltas ms p = Some rds" "rows \<in> set rds" "(r, cells) \<in> set rows" "(k, d) \<in> set cells"
  shows "0 < \<bar>d\<bar> \<and> \<bar>d\<bar> < 2 ^ cp_plaintext_bits p \<and> r < cp_segment_size p \<and> k < row_cells t"
proof -
  have rds: "deltas_of p t u rds" using fold_mutations_exact [OF assms(1-4)] assms(5) by (metis option.inject)
  obtain j where j: "j < cp_arity p" "rows = rds ! j" using assms(6) rds by (auto simp: in_set_conv_nth deltas_of_def)
  have inv: "fv_inv t" "fv_inv u" "same_shape t u"
    using logged_start [OF assms(1)] logged_inv [OF assms(1)] logged_same_shape [OF assms(1)] by simp_all
  have "canonical (rds ! j)" "edits_ok (cp_segment_size p) (row_cells t) (rds ! j)" using rds j(1) by (simp_all add: deltas_of_def)
  then have "d \<noteq> 0" "r < cp_segment_size p" "k < row_cells t"
    using canonical_entry(2) [of "rds ! j" r cells k d] assms(7,8) unfolding j(2) by (fastforce simp: edits_ok_def)+
  moreover have "\<bar>d\<bar> < 2 ^ cp_plaintext_bits p"
    using deltas_of_bound [OF rds j(1) _ assms(8,4,3) inv] assms(7) unfolding j(2) by blast
  ultimately show ?thesis by simp
qed

theorem published_deltas_bounded_witness:
  "0 < \<bar>7 :: int\<bar> \<and> \<bar>7 :: int\<bar> < 2 ^ cp_plaintext_bits demo_kv_params"
  using published_deltas_bounded [OF demo_log demo_table_inv(3) demo_describes demo_folds, of "[(0, [(0, 1), (1, 7)])]" 0 "[(0, 1), (1, 7)]" 1 7]
  by simp

section \<open>Rejected bundles\<close>

text \<open>C33. A client accepts nothing but the next bundle of its store: if the epoch is not the
  successor of its own, the parameters differ or the number of segments is wrong, both kinds of
  client return the error that says so and keep their state exactly.\<close>

theorem wrong_bundles_are_rejected:
  assumes "hp_epoch hp + 1 < 2 ^ 64" "hp_params hp = p" "rw_params rw = p" "rw_epoch rw = hp_epoch hp"
    and "hd_epoch delta \<noteq> hp_epoch hp + 1 \<or> hd_params delta \<noteq> p \<or> length (hd_row_deltas delta) \<noteq> cp_arity p"
  shows "\<exists>e. hp_apply_delta B hp delta = Some (Inl e, hp) \<and> rw_accumulate_delta rw delta = Some (Inl e, rw) \<and>
    (if hd_epoch delta \<le> hp_epoch hp then e = StaleDelta (hp_epoch hp + 1) (hd_epoch delta)
     else if hd_epoch delta > hp_epoch hp + 1 then e = FutureDelta (hp_epoch hp + 1) (hd_epoch delta)
     else e = MalformedBundle)"
  using assms by (auto simp: hp_apply_delta_def rw_accumulate_delta_def checked_succ_u64_def check_delta_def)

theorem wrong_bundles_are_rejected_witness:
  "\<exists>hp rw :: unit rewind_client. hp_apply_delta demo_backend hp \<lparr> hd_epoch = 7, hd_row_deltas = [], hd_params = demo_kv_params \<rparr> =
      Some (Inl (FutureDelta 4 7), hp) \<and>
    rw_accumulate_delta rw \<lparr> hd_epoch = 7, hd_row_deltas = [], hd_params = demo_kv_params \<rparr> = Some (Inl (FutureDelta 4 7), rw)"
  using wrong_bundles_are_rejected [of "\<lparr> hp_params = demo_kv_params, hp_states = [], hp_epoch = 3, hp_hint_patch_mode = EntryLevel \<rparr>"
      demo_kv_params "\<lparr> rw_params = demo_kv_params, rw_states = [], rw_epoch = 3, rw_pending = [[], []], rw_pin_epoch = 3 \<rparr>"
      "\<lparr> hd_epoch = 7, hd_row_deltas = [], hd_params = demo_kv_params \<rparr>" demo_backend]
  by (intro exI) auto

text \<open>C40. \<open>accumulate_delta\<close> on the next bundle, for any deltas and pending sums of type \<open>i64\<close>: the cells are
  merged in order as long as every running sum fits \<open>i64\<close>. If all of them do, the client advances its
  epoch; otherwise the bundle is rejected as malformed, the epoch stays, but the cells before the
  first overflow remain merged, so that a rejected bundle is not without effect.\<close>

theorem accumulate_merges_until_overflow:
  fixes cl :: "'cs rewind_client"
  assumes "rw_epoch cl + 1 < 2 ^ 64" "hd_epoch delta = rw_epoch cl + 1" "hd_params delta = rw_params cl"
    and "length (hd_row_deltas delta) = cp_arity (rw_params cl)" "length (rw_pending cl) = cp_arity (rw_params cl)"
    and "\<And>seg row off d. ((seg, row), off, d) \<in> set (cell_entries (hd_row_deltas delta)) \<Longrightarrow> i64_ok d"
    and "\<And>j. j < length (rw_pending cl) \<Longrightarrow> bt_ok (rw_pending cl ! j)"
    and "\<And>j key. j < length (rw_pending cl) \<Longrightarrow> i64_ok (bt_delta (rw_pending cl ! j) key)"
  shows "\<exists>pre post pend. cell_entries (hd_row_deltas delta) = pre @ post \<and>
    rw_accumulate_delta cl delta = Some (if post = []
      then (Inr (), cl\<lparr> rw_pending := pend, rw_epoch := hd_epoch delta \<rparr>)
      else (Inl MalformedBundle, cl\<lparr> rw_pending := pend \<rparr>)) \<and>
    (\<forall>j < length (rw_pending cl). bt_ok (pend ! j) \<and>
      (\<forall>key. bt_delta (pend ! j) key = merged_delta (rw_pending cl) pre j key)) \<and>
    (\<forall>n \<le> length pre. \<forall>j < length (rw_pending cl). \<forall>key. i64_ok (merged_delta (rw_pending cl) (take n pre) j key)) \<and>
    (post \<noteq> [] \<longrightarrow> (case hd post of ((seg, row), off, d) \<Rightarrow>
      \<not> i64_ok (merged_delta (rw_pending cl) pre seg (row, off) + d)))"
proof -
  have cells: "\<forall>x \<in> set (cell_entries (hd_row_deltas delta)). fst (fst x) < length (rw_pending cl) \<and> i64_ok (snd (snd x))"
    using assms(4-6) by (auto simp: in_cell_entries)
  have maps: "\<forall>j < length (rw_pending cl). bt_ok (rw_pending cl ! j) \<and> (\<forall>key. i64_ok (bt_delta (rw_pending cl ! j) key))"
    using assms(7,8) by blast
  from pending_merge_prefix [OF cells maps] obtain pre post pend where
    m: "cell_entries (hd_row_deltas delta) = pre @ post"
    "pending_merge (hd_row_deltas delta) (rw_pending cl) = Some (if post = [] then Inr pend else Inl pend)"
    and r: "\<forall>j < length (rw_pending cl). bt_ok (pend ! j) \<and> (\<forall>key. bt_delta (pend ! j) key = merged_delta (rw_pending cl) pre j key)"
    "\<forall>n \<le> length pre. \<forall>j < length (rw_pending cl). \<forall>key. i64_ok (merged_delta (rw_pending cl) (take n pre) j key)"
    "post \<noteq> [] \<longrightarrow> (case hd post of ((seg, row), off, d) \<Rightarrow> \<not> i64_ok (merged_delta (rw_pending cl) pre seg (row, off) + d))"
    by (elim exE conjE) (rule that)
  have "rw_accumulate_delta cl delta = Some (if post = []
      then (Inr (), cl\<lparr> rw_pending := pend, rw_epoch := hd_epoch delta \<rparr>)
      else (Inl MalformedBundle, cl\<lparr> rw_pending := pend \<rparr>))"
    using assms(1-4) m(2) by (auto simp: rw_accumulate_delta_def checked_succ_u64_def check_delta_def)
  with m(1) r show ?thesis by (intro exI conjI)
qed

text \<open>A bundle whose second cell overflows: the first one stays merged.\<close>

definition demo_full_client :: "unit rewind_client" where
  "demo_full_client = \<lparr> rw_params = demo_kv_params, rw_states = [], rw_epoch = 3,
     rw_pending = [[((0, 1), 2 ^ 63 - 1)], []], rw_pin_epoch = 2 \<rparr>"

definition demo_overflow :: hint_delta_bundle where
  "demo_overflow = \<lparr> hd_epoch = 4, hd_row_deltas = [[(0, [(0, 5), (1, 1)])], []], hd_params = demo_kv_params \<rparr>"

theorem accumulate_merges_until_overflow_witness:
  "\<exists>pend. rw_accumulate_delta demo_full_client demo_overflow = Some (Inl MalformedBundle, demo_full_client\<lparr> rw_pending := pend \<rparr>) \<and>
     bt_delta (pend ! 0) (0, 0) = 5"
proof -
  let ?e = "((0, 0), (0, 5)) :: (nat \<times> nat) \<times> nat \<times> int" and ?e' = "((0, 0), (1, 1)) :: (nat \<times> nat) \<times> nat \<times> int"
  have es: "cell_entries (hd_row_deltas demo_overflow) = [?e, ?e']" by (simp add: cell_entries_def demo_overflow_def)
  have j: "j = 0 \<or> j = 1" if "j < length (rw_pending demo_full_client)" for j using that by (auto simp: demo_full_client_def)
  have ok: "bt_ok (rw_pending demo_full_client ! j)" "i64_ok (bt_delta (rw_pending demo_full_client ! j) key)"
    if "j < length (rw_pending demo_full_client)" for j key
    using j [OF that] by (auto simp: demo_full_client_def bt_ok_def bt_delta_def i64_ok_def)
  have "\<exists>pre post pend. [?e, ?e'] = pre @ post \<and>
      rw_accumulate_delta demo_full_client demo_overflow = Some (if post = []
        then (Inr (), demo_full_client\<lparr> rw_pending := pend, rw_epoch := hd_epoch demo_overflow \<rparr>)
        else (Inl MalformedBundle, demo_full_client\<lparr> rw_pending := pend \<rparr>)) \<and>
      (\<forall>j < length (rw_pending demo_full_client). bt_ok (pend ! j) \<and>
        (\<forall>key. bt_delta (pend ! j) key = merged_delta (rw_pending demo_full_client) pre j key)) \<and>
      (\<forall>n \<le> length pre. \<forall>j < length (rw_pending demo_full_client). \<forall>key. i64_ok (merged_delta (rw_pending demo_full_client) (take n pre) j key)) \<and>
      (post \<noteq> [] \<longrightarrow> (case hd post of ((seg, row), off, d) \<Rightarrow>
        \<not> i64_ok (merged_delta (rw_pending demo_full_client) pre seg (row, off) + d)))"
    unfolding es [symmetric]
    by (rule accumulate_merges_until_overflow)
      (use es ok demo_geometry in \<open>auto simp: demo_full_client_def demo_overflow_def i64_ok_def\<close>)
  then obtain pre post pend where q: "[?e, ?e'] = pre @ post"
    "rw_accumulate_delta demo_full_client demo_overflow = Some (if post = []
        then (Inr (), demo_full_client\<lparr> rw_pending := pend, rw_epoch := hd_epoch demo_overflow \<rparr>)
        else (Inl MalformedBundle, demo_full_client\<lparr> rw_pending := pend \<rparr>))"
    "\<forall>j < length (rw_pending demo_full_client). bt_ok (pend ! j) \<and>
        (\<forall>key. bt_delta (pend ! j) key = merged_delta (rw_pending demo_full_client) pre j key)"
    "\<forall>n \<le> length pre. \<forall>j < length (rw_pending demo_full_client). \<forall>key. i64_ok (merged_delta (rw_pending demo_full_client) (take n pre) j key)"
    "post \<noteq> [] \<longrightarrow> (case hd post of ((seg, row), off, d) \<Rightarrow>
        \<not> i64_ok (merged_delta (rw_pending demo_full_client) pre seg (row, off) + d))"
    by (elim exE conjE) (rule that)
  have zero: "0 < length (rw_pending demo_full_client)" by (simp add: demo_full_client_def)
  note r = q(1,2) q(3) [rule_format, OF zero, THEN conjunct2, THEN spec, of "(0, 0)"]
    q(4) [rule_format, OF order_refl zero, of "(0, 1)"] q(5)
  consider "pre = []" "post = [?e, ?e']" | "pre = [?e]" "post = [?e']" | "pre = [?e, ?e']" "post = []"
    using r(1) by (auto simp: Cons_eq_append_conv)
  then show ?thesis
  proof cases
    case 1
    then show ?thesis using r(5) by (simp add: demo_full_client_def bt_delta_def i64_ok_def)
  next
    case 2
    then show ?thesis using r(2,3) by (simp add: merged_delta_def demo_full_client_def bt_delta_def)
  next
    case 3
    then show ?thesis using r(4) by (simp add: merged_delta_def demo_full_client_def bt_delta_def i64_ok_def)
  qed
qed

end
