(* ===== verification/Simple_Properties.thy ===== *)
theory Simple_Properties
  imports Protocol_Properties
begin

text \<open>
  Properties of the SimplePIR back end: the same protocol theorems hold with it, its patches equal
  recomputation on the edited database, and its Gaussian sampler returns bounded errors. The
  instances use a sampler that accepts only the magnitude zero and two rows per reshaped row.
\<close>

section \<open>A small instance\<close>

definition demo_float :: "unit float_ops" where
  "demo_float = \<lparr> fo_sigma_ok = (\<lambda>_. True), fo_tail_cut = (\<lambda>_. 2), fo_accept = (\<lambda>_ c _. c < 2),
     fo_rows_per_row = (\<lambda>n w. if n < 2 then 1 else 2) \<rparr>"

definition demo_next64 :: "unit \<Rightarrow> u64 \<times> unit" where
  "demo_next64 g = (1, g)"

lemma demo_gauss: "gauss_productive demo_float demo_next64 ()"
proof -
  have zone: "(- 1 mod 3 :: u64) = 0" "(1 :: u64) < - 1" "(1 mod 3 :: u64) = 1" by code_simp+
  have "accepting demo_next64 (fo_accept demo_float ()) 3 (- 1 - (- 1 mod 3)) g" for g
    unfolding accepting_def zone(1) by (simp add: demo_float_def demo_next64_def zone(2,3))
  moreover have "word_of_nat (fo_tail_cut demo_float ()) + 1 = (3 :: u64)" by (simp add: demo_float_def)
  ultimately show ?thesis by (simp only: gauss_productive_def Let_def simp_thms)
qed

section \<open>Hints\<close>

text \<open>C8. A patched SimplePIR hint is the hint of the edited segment: in both modes, whatever the
  number of rows per reshaped row and also when the last reshaped row is short, applying row deltas
  gives exactly what \<open>compute_hint\<close> computes afresh on the segment with the deltas added.\<close>

theorem simple_patched_hint_is_recomputed:
  assumes "geometry n w k N W" "length a = N * lwe" "length db = n * w"
    and "simple_compute_hint a db n w k lwe W = Some h" "edits_ok n w rd"
  shows "simple_apply_patch a lwe n w k N W h rd mode = simple_compute_hint a (edit_db w db rd) n w k lwe W"
proof -
  have h: "hint_of N lwe W a (reshaped n w k db) h"
    using simple_compute_hint_total [OF assms(1-3)] assms(4) by (metis option.inject)
  obtain h' where h': "simple_apply_patch a lwe n w k N W h rd mode = Some h'"
    "hint_of N lwe W a (edited (reshaped n w k db) (reshaped_deltas w k rd)) h'"
    using simple_apply_patch_total [OF assms(1) h assms(5)] by blast
  have "length (edit_db w db rd) = n * w" using assms(3) by simp
  then obtain h'' where h'': "simple_compute_hint a (edit_db w db rd) n w k lwe W = Some h''"
    "hint_of N lwe W a (reshaped n w k (edit_db w db rd)) h''"
    by (rule simple_compute_hint_total [OF assms(1,2)])
  have "hint_of N lwe W a (edited (reshaped n w k db) (reshaped_deltas w k rd)) h''"
    using h''(2) hint_of_cong [of N W "reshaped n w k (edit_db w db rd)" "edited (reshaped n w k db) (reshaped_deltas w k rd)"]
      edited_reshaped [OF assms(1,5,3)] by metis
  then show ?thesis using hint_of_unique [OF h'(2)] h'(1) h''(1) by simp
qed

theorem simple_patched_hint_is_recomputed_witness:
  "simple_apply_patch [1, 2] 1 3 1 2 2 2 [19, 6] [(1, [(0, 3)]), (2, [(0, 1)])] RowLevel =
     simple_compute_hint [1, 2] [5, 9, 8] 3 1 2 1 2 \<and>
   simple_apply_patch [1, 2] 1 3 1 2 2 2 [19, 6] [(1, [(0, 3)]), (2, [(0, 1)])] EntryLevel =
     simple_compute_hint [1, 2] [5, 9, 8] 3 1 2 1 2"
proof -
  have h: "simple_compute_hint [1, 2] [5, 6, 7] 3 1 2 1 2 = Some [19, 6]" by code_simp
  have db: "edit_db 1 [5, 6, 7] [(1, [(0, 3)]), (2, [(0, 1)])] = [5, 9, 8]" by (simp add: edit_db_def numeral_eq_Suc)
  have e: "edits_ok 3 1 [(1, [(0, 3)]), (2, [(0, 1)])]" by (simp add: edits_ok_def)
  have g: "geometry 3 1 2 2 2" by (simp add: geometry_def div_ceil_def)
  have len: "length [1, 2 :: u32] = 2 * 1" "length [5, 6, 7 :: u32] = 3 * 1" by simp_all
  note p = simple_patched_hint_is_recomputed [OF g len h e, unfolded db]
  show ?thesis by (intro conjI p)
qed

section \<open>Sampling\<close>

text \<open>C38. The Gaussian sampler returns: when the generator keeps reaching words that are accepted,
  \<open>sample_discrete_gaussian_into\<close> ends, without overflow, with a full buffer whose entries, read as
  signed, are at most the tail cut in absolute value.\<close>

theorem gaussian_sampler_bounded:
  assumes "gauss_productive fo next_u64 sigma" "fo_sigma_ok fo sigma" "fo_tail_cut fo sigma < 2 ^ 31"
  shows "\<exists>e g'. sample_discrete_gaussian_into fo next_u64 g sigma len = Some (e, g') \<and> length e = len \<and>
    (\<forall>i < len. \<bar>sint (e ! i)\<bar> \<le> int (fo_tail_cut fo sigma))"
proof -
  obtain e g' where "sample_discrete_gaussian_into fo next_u64 g sigma len = Some (e, g')" "length e = len"
    "\<forall>x \<in> set e. \<bar>sint x\<bar> \<le> int (fo_tail_cut fo sigma)" by (rule sample_discrete_gaussian_total [OF assms])
  then show ?thesis by auto
qed

theorem gaussian_sampler_bounded_witness:
  "\<exists>e g'. sample_discrete_gaussian_into demo_float demo_next64 () () 3 = Some (e, g') \<and> length e = 3 \<and>
    (\<forall>i < 3. \<bar>sint (e ! i)\<bar> \<le> 2)"
  using gaussian_sampler_bounded [OF demo_gauss, of "()" 3] by (simp add: demo_float_def)

section \<open>The protocol over SimplePIR\<close>

definition simple_deployable :: "'sg float_ops \<Rightarrow> 'sg \<Rightarrow> kv_store \<Rightarrow> 'sg simple_config \<Rightarrow> cuckoo_params \<Rightarrow> bool" where
  "simple_deployable fo sg st cfg p \<longleftrightarrow> kv_inv st \<and> kv_counted st \<and> kv_params st = Some p \<and> segments_ok p \<and>
     simple_cfg_ok fo sg cfg (cp_segment_size p) (cp_row_width p) (cp_plaintext_bits p)"

text \<open>The noise of \<open>ceil(segment_size / k)\<close> errors, each at most the tail cut, cannot reach half a step.\<close>

definition simple_quiet_params :: "'sg float_ops \<Rightarrow> 'sg \<Rightarrow> cuckoo_params \<Rightarrow> bool" where
  "simple_quiet_params fo sg p \<longleftrightarrow>
     noise_ok (div_ceil (cp_segment_size p) (fo_rows_per_row fo (cp_segment_size p) (cp_row_width p)))
       (fo_tail_cut fo sg) (cp_plaintext_bits p)"

lemma simple_reachable_inv:
  assumes "simple_deployable fo sg st cfg p" "gauss_productive fo next_u64 sg" "draw_ok draw"
    and "sys_reachable (simple_backend fo x86 chacha next_u32 next_u64 fill) xxh draw st cfg sy"
  shows "server_ok (simple_cfg_ok fo sg) (simple_sp_ok fo sg) (simple_mat_ok chacha) (simple_hint_ok chacha) (sy_server sy)"
    "\<exists>H. sys_at (simple_sp_ok fo sg) (simple_cs_ok fo chacha) H sy" "sv_params (sy_server sy) = p"
  using simple.sys_reachable_inv [OF assms(4,2,3)] assms(1) by (simp_all add: simple_deployable_def)

lemma simple_reachable_worst_case:
  assumes "server_ok (simple_cfg_ok fo sg) (simple_sp_ok fo sg) (simple_mat_ok chacha) (simple_hint_ok chacha) sv"
    and "simple_quiet_params fo sg (sv_params sv)" "j < cp_arity (sv_params sv)"
  shows "simple_worst_case fo (sv_backend_params sv ! j)"
  using server_okD(6) [OF assms(1,3)] assms(2)
  by (simp add: simple_worst_case_def simple_sp_ok_def simple_quiet_params_def geometry_def)

text \<open>C7. The protocol works over SimplePIR too: in every reachable state of a system deployed with
  that back end, both kinds of client, once at the server's epoch, query any key and decode, without
  error or panic, the value the store holds for it.\<close>

theorem simple_clients_read_store:
  assumes "simple_deployable fo sg st cfg p" "gauss_productive fo next_u64 sg" "draw_ok draw"
    and "sys_reachable (simple_backend fo x86 chacha next_u32 next_u64 fill) xxh draw st cfg sy"
    and "simple_quiet_params fo sg p"
    and "hp_epoch (sy_hp sy) = sv_epoch (sy_server sy)" "rw_epoch (sy_rw sy) = sv_epoch (sy_server sy)"
  shows "(\<exists>q hp g' r res. hp_build_query (simple_backend fo x86 chacha next_u32 next_u64 fill) xxh (sy_hp sy) key g = Some (q, hp, g') \<and>
      server_answer (simple_backend fo x86 chacha next_u32 next_u64 fill) (sy_server sy) q = Some (Inr r) \<and>
      hp_decode (simple_backend fo x86 chacha next_u32 next_u64 fill) xxh hp key r = Some (Inr res) \<and>
      reads xxh (sv_store (sy_server sy)) key res) \<and>
    (\<exists>q rw g' r res. rw_build_query (simple_backend fo x86 chacha next_u32 next_u64 fill) xxh (sy_rw sy) key g = Some (q, rw, g') \<and>
      server_answer (simple_backend fo x86 chacha next_u32 next_u64 fill) (sy_server sy) q = Some (Inr r) \<and>
      rw_decode (simple_backend fo x86 chacha next_u32 next_u64 fill) xxh rw key q r = Some (Inr res) \<and>
      reads xxh (sv_store (sy_server sy)) key res)"
proof -
  note inv = simple_reachable_inv [OF assms(1-4)]
  have wc: "simple_worst_case fo (sv_backend_params (sy_server sy) ! j)" if "j < cp_arity (sv_params (sy_server sy))" for j
    using simple_reachable_worst_case [OF inv(1) _ that] assms(5) inv(3) by simp
  show ?thesis
    using simple.sys_hp_reads [OF conjI [OF inv(1,2)] assms(2,6) wc, of x86 next_u32 fill xxh key g]
      simple.sys_rw_reads [OF conjI [OF inv(1,2)] assms(2,7) wc, of x86 next_u32 fill xxh key g]
      client_view_reads [OF server_okD(1) [OF inv(1)]] by blast
qed

abbreviation demo_simple where
  "demo_simple \<equiv> simple_backend demo_float True demo_chacha demo_next demo_next64 demo_fill"

lemma demo_one_ok: "kv_inv demo_one" "kv_counted demo_one" "kv_params demo_one = Some demo_kv_params"
proof -
  have "length [7 :: u8] = kv_value_size_in_bytes demo_store" by code_simp
  note spec = kv_insert_spec [OF demo_inv draw_zero_ok this, of "\<lambda>_. 0" "()" "[1]"]
  then obtain ms v where "kv_committed demo_store demo_one ms" "kv_num_items demo_one = kv_num_items demo_store + 1"
    "kv_bag demo_one = add_mset (fst (key_tag (\<lambda>_. 0) demo_store [1]), snd (key_tag (\<lambda>_. 0) demo_store [1]), v) (kv_bag demo_store)"
    using demo_insert by auto
  then show "kv_inv demo_one" "kv_counted demo_one"
    using kv_committed_inv [OF demo_inv] demo_counted by (simp_all add: kv_counted_def)
  show "kv_params demo_one = Some demo_kv_params" by code_simp
qed

definition demo_simple_config :: "unit simple_config" where
  "demo_simple_config = \<lparr> scf_lwe_dim = 4, scf_sigma = () \<rparr>"

lemma demo_simple_deployable: "simple_deployable demo_float () demo_one demo_simple_config demo_kv_params"
  using demo_one_ok
  by (simp add: simple_deployable_def segments_ok_def simple_cfg_ok_def demo_simple_config_def demo_float_def)
    (simp add: demo_kv_params_def cp_arity_def cp_segment_size_def cp_cells_per_slot_def div_ceil_def)

text \<open>Setup on the store that holds one entry; the clients start at the server's epoch.\<close>

lemma demo_simple_start:
  "\<exists>sy. sys_reachable demo_simple (\<lambda>_. 0) (\<lambda>n g :: unit. (0, g)) demo_one demo_simple_config sy \<and>
     hp_epoch (sy_hp sy) = sv_epoch (sy_server sy) \<and> rw_epoch (sy_rw sy) = sv_epoch (sy_server sy) \<and>
     sv_store (sy_server sy) = demo_served"
proof -
  note dep = demo_simple_deployable [unfolded simple_deployable_def]
  obtain sv g' where sv: "server_new demo_simple demo_one demo_simple_config () = Some (sv, g')"
    "server_ok (simple_cfg_ok demo_float ()) (simple_sp_ok demo_float ()) (simple_mat_ok demo_chacha) (simple_hint_ok demo_chacha) sv"
    using simple.server_new_ok [of demo_one demo_kv_params demo_float demo_next64 "()" demo_simple_config True demo_chacha
        demo_next demo_fill "()"] dep demo_gauss by blast
  have "\<not> Option.is_none (kv_mutation_log demo_one)" by code_simp
  then obtain l where log: "kv_mutation_log demo_one = Some l" by (auto simp: Option.is_none_def)
  have "sv_store sv = demo_served"
    using sv(1) log by (auto simp: server_new_def server_build_def bind_eq_Some_conv kv_drain_mutations_def
        kv_enable_mutation_log_def demo_served_def Let_def)
  moreover obtain hp where hp: "hp_from_setup demo_simple (server_setup_of sv) = Some hp"
    "hp_sync (simple_cs_ok demo_float demo_chacha) sv hp"
    using simple.hp_from_setup_ok [OF sv(2), of True demo_next demo_next64 demo_fill] by blast
  moreover obtain rw where rw: "rw_from_setup demo_simple (server_setup_of sv) = Some rw"
    "rw_sync (simple_cs_ok demo_float demo_chacha) sv (kv_table (sv_store sv)) rw"
    using simple.rw_from_setup_ok [OF sv(2), of True demo_next demo_next64 demo_fill] by blast
  ultimately show ?thesis
    using sys_reachable.Start [OF sv(1) hp(1) rw(1), of "\<lambda>_. 0" "\<lambda>n g :: unit. (0, g)"]
    by (intro exI [of _ "\<lparr> sy_server = sv, sy_published = [], sy_hp = hp, sy_rw = rw \<rparr>"]) (simp add: sync_defs)
qed

theorem simple_clients_read_store_witness:
  "\<exists>sy q hp r. sys_reachable demo_simple (\<lambda>_. 0) (\<lambda>n g :: unit. (0, g)) demo_one demo_simple_config sy \<and>
    hp_build_query demo_simple (\<lambda>_. 0) (sy_hp sy) [1] () = Some (q, hp, ()) \<and>
    server_answer demo_simple (sy_server sy) q = Some (Inr r) \<and>
    hp_decode demo_simple (\<lambda>_. 0) hp [1] r = Some (Inr (Some [7]))"
proof -
  obtain sy where sy: "sys_reachable demo_simple (\<lambda>_. 0) (\<lambda>n g :: unit. (0, g)) demo_one demo_simple_config sy"
    "hp_epoch (sy_hp sy) = sv_epoch (sy_server sy)" "rw_epoch (sy_rw sy) = sv_epoch (sy_server sy)"
    "sv_store (sy_server sy) = demo_served" using demo_simple_start by blast
  have noise: "simple_quiet_params demo_float () demo_kv_params"
    by (simp add: simple_quiet_params_def noise_ok_def demo_kv_params_def demo_float_def cp_segment_size_def
        cp_arity_def cp_cells_per_slot_def div_ceil_def)
  obtain q hp g' r res where p: "hp_build_query demo_simple (\<lambda>_. 0) (sy_hp sy) [1] () = Some (q, hp, g')"
    "server_answer demo_simple (sy_server sy) q = Some (Inr r)"
    "hp_decode demo_simple (\<lambda>_. 0) hp [1] r = Some (Inr res)" "reads (\<lambda>_. 0) (sv_store (sy_server sy)) [1] res"
    using simple_clients_read_store [OF demo_simple_deployable demo_gauss draw_zero_ok sy(1) noise sy(2,3), of "[1]" "()"]
    by blast
  have "res = Some [7]" using p(4) demo_served_get demo_served_single by (auto simp: reads_def sy(4))
  then show ?thesis using p sy(1) by auto
qed

end
