(* ===== verification/Parallel_Setup.thy ===== *)
theory Parallel_Setup
  imports Frodo Simple_Reshape Server Clients
begin

text \<open>
  \<open>ikpir-common/src/backend/parallel.rs\<close> and the multi-threaded twins of the setup path: \<open>sample_a\<close>,
  \<open>compute_hint\<close>, the three setup entry points of both back ends, and the server and client calls
  on them. One scoped thread runs per chunk of the output; the chunks are disjoint mutable slices,
  so a worker reads and writes its chunk only, and a schedule is the order in which the workers
  take effect. The schedule \<open>sched\<close> (for a number of chunks, an order of their indices) and the number
  of threads are parameters. Every twin equals its reference for every schedule.
\<close>

definition MAX_SETUP_THREADS :: nat where
  "MAX_SETUP_THREADS = 1024"

definition PAR_MIN_HINT_MACS :: nat where
  "PAR_MIN_HINT_MACS = 2 ^ 20"

definition PAR_MIN_WORDS :: nat where
  "PAR_MIN_WORDS = 2 ^ 18"

definition CHACHA_BUFFER_WORDS :: nat where
  "CHACHA_BUFFER_WORDS = 64"

text \<open>\<open>env\<close> is \<open>IKPIR_SETUP_THREADS\<close> if it parses, \<open>available\<close> the parallelism the platform reports, if any.\<close>

definition setup_threads :: "nat option \<Rightarrow> nat option \<Rightarrow> nat" where
  "setup_threads env available =
     (let machine = min (case available of None \<Rightarrow> 1 | Some n \<Rightarrow> n) MAX_SETUP_THREADS in
      case env of Some n \<Rightarrow> if 1 \<le> n then min n MAX_SETUP_THREADS else machine | None \<Rightarrow> machine)"

definition balanced_chunk_len :: "nat \<Rightarrow> nat \<Rightarrow> nat \<Rightarrow> nat" where
  "balanced_chunk_len len unit parts =
     (let unit = (if unit = 0 then 1 else unit);
          parts = (if parts = 0 then 1 else parts)
      in div_ceil (div_ceil len parts) unit * unit)"

definition par_chunks_mut ::
  "(nat \<Rightarrow> nat list) \<Rightarrow> 'a list \<Rightarrow> nat \<Rightarrow> (nat \<Rightarrow> 'a list \<Rightarrow> 'a list option) \<Rightarrow> 'a list option" where
  "par_chunks_mut sched data chunk_len f =
     (if chunk_len = 0 \<or> length data \<le> chunk_len then f 0 data
      else fold_opt (\<lambda>i data. do {
          chunk \<leftarrow> slice_opt data (i * chunk_len) (min chunk_len (length data - i * chunk_len));
          chunk' \<leftarrow> f (i * chunk_len) chunk;
          assert_opt (length chunk' = length chunk);
          splice_opt data (i * chunk_len) chunk'
        }) (sched (div_ceil (length data) chunk_len)) data)"

section \<open>The parallel kernels\<close>

definition sample_a_parallel ::
  "(nat \<Rightarrow> nat list) \<Rightarrow> nat \<Rightarrow> (u8 list \<Rightarrow> nat \<Rightarrow> u32) \<Rightarrow> u8 list \<Rightarrow> nat \<Rightarrow> nat \<Rightarrow> u32 list option" where
  "sample_a_parallel sched threads chacha seed n_rows lwe_dim =
     do {
       assert_opt (n_rows * lwe_dim < 2 ^ 64);
       let len = n_rows * lwe_dim;
       if threads \<le> 1 \<or> len < PAR_MIN_WORDS then sample_a chacha seed n_rows lwe_dim
       else do {
         let chunk = balanced_chunk_len len CHACHA_BUFFER_WORDS threads;
         par_chunks_mut sched (replicate len 0) chunk (\<lambda>offset part.
           Some (map (\<lambda>i. rng_from_seed chacha seed (offset + i)) [0..<length part]))
       }
     }"

text \<open>The closure of \<open>compute_hint_parallel\<close>: the band of hint rows from \<open>offset / row_width\<close>.\<close>

definition hint_band :: "u32 list \<Rightarrow> u32 list \<Rightarrow> nat \<Rightarrow> nat \<Rightarrow> nat \<Rightarrow> nat \<Rightarrow> u32 list \<Rightarrow> u32 list option" where
  "hint_band a db n_rows lwe_dim row_width offset band =
     do {
       assert_opt (0 < row_width);
       let k0 = offset div row_width;
       assert_opt (length band mod row_width = 0);
       let band_rows = length band div row_width;
       fold_opt (\<lambda>i band. do {
         a_row \<leftarrow> slice_opt a (i * lwe_dim + k0) band_rows;
         d_row \<leftarrow> slice_opt db (i * row_width) row_width;
         for_hint_rows band_rows row_width a_row (add_scaled 0 d_row) band
       }) [0..<n_rows] band
     }"

definition compute_hint_parallel ::
  "(nat \<Rightarrow> nat list) \<Rightarrow> nat \<Rightarrow> u32 list \<Rightarrow> u32 list \<Rightarrow> nat \<Rightarrow> nat \<Rightarrow> nat \<Rightarrow> u32 list option" where
  "compute_hint_parallel sched threads a db n_rows lwe_dim row_width =
     (let macs = n_rows * lwe_dim * row_width in
      if threads \<le> 1 \<or> macs < PAR_MIN_HINT_MACS then compute_hint a db n_rows lwe_dim row_width
      else
        let chunk = balanced_chunk_len (lwe_dim * row_width) row_width threads in
        par_chunks_mut sched (replicate (lwe_dim * row_width) 0) chunk (hint_band a db n_rows lwe_dim row_width))"

definition simple_hint_band ::
  "u32 list \<Rightarrow> u32 list \<Rightarrow> nat \<Rightarrow> nat \<Rightarrow> nat \<Rightarrow> nat \<Rightarrow> nat \<Rightarrow> nat \<Rightarrow> u32 list \<Rightarrow> u32 list option" where
  "simple_hint_band a db n_rows row_width k lwe_dim reshape_row_width offset band =
     do {
       assert_opt (0 < reshape_row_width);
       let k0 = offset div reshape_row_width;
       assert_opt (length band mod reshape_row_width = 0);
       let band_rows = length band div reshape_row_width;
       fold_opt (\<lambda>r band. do {
         let reshape_row = r div k;
         let off_within = (r mod k) * row_width;
         a_row \<leftarrow> slice_opt a (reshape_row * lwe_dim + k0) band_rows;
         d_row \<leftarrow> slice_opt db (r * row_width) row_width;
         for_hint_rows band_rows reshape_row_width a_row (add_scaled off_within d_row) band
       }) [0..<n_rows] band
     }"

definition simple_compute_hint_parallel ::
  "(nat \<Rightarrow> nat list) \<Rightarrow> nat \<Rightarrow> u32 list \<Rightarrow> u32 list \<Rightarrow> nat \<Rightarrow> nat \<Rightarrow> nat \<Rightarrow> nat \<Rightarrow> nat \<Rightarrow> u32 list option" where
  "simple_compute_hint_parallel sched threads a db n_rows row_width k lwe_dim reshape_row_width =
     (let macs = n_rows * lwe_dim * row_width in
      if threads \<le> 1 \<or> macs < PAR_MIN_HINT_MACS
      then simple_compute_hint a db n_rows row_width k lwe_dim reshape_row_width
      else
        let chunk = balanced_chunk_len (lwe_dim * reshape_row_width) reshape_row_width threads in
        par_chunks_mut sched (replicate (lwe_dim * reshape_row_width) 0) chunk
          (simple_hint_band a db n_rows row_width k lwe_dim reshape_row_width))"

section \<open>The setup entry points\<close>

text \<open>The trait \<open>ParallelSetupBackend\<close>.\<close>

record ('cfg, 'sp, 'mat, 'hint, 'cs, 'g) parallel_backend =
  pb_server_setup :: "'cfg \<Rightarrow> u32 list \<Rightarrow> nat \<Rightarrow> nat \<Rightarrow> nat \<Rightarrow> 'g \<Rightarrow> (('sp \<times> 'mat \<times> 'hint) \<times> 'g) option"
  pb_expand_hint_material :: "'sp \<Rightarrow> 'mat option"
  pb_client_setup :: "'sp \<Rightarrow> 'hint \<Rightarrow> 'cs option"

definition frodo_server_setup_parallel ::
  "(nat \<Rightarrow> nat list) \<Rightarrow> nat \<Rightarrow> (u8 list \<Rightarrow> nat \<Rightarrow> u32) \<Rightarrow> (nat \<Rightarrow> 'g \<Rightarrow> u8 list \<times> 'g) \<Rightarrow> nat \<Rightarrow> u32 list \<Rightarrow>
    nat \<Rightarrow> nat \<Rightarrow> nat \<Rightarrow> 'g \<Rightarrow> ((frodo_server_params \<times> u32 list \<times> u32 list) \<times> 'g) option" where
  "frodo_server_setup_parallel sched threads chacha fill_bytes lwe_dim db n_rows row_width plaintext_bits g =
     do {
       assert_opt (length db = n_rows * row_width);
       let (seed, g') = fill_bytes 16 g;
       params \<leftarrow> frodo_params_new lwe_dim plaintext_bits seed;
       a \<leftarrow> sample_a_parallel sched threads chacha seed n_rows lwe_dim;
       hint \<leftarrow> compute_hint_parallel sched threads a db n_rows lwe_dim row_width;
       Some ((\<lparr> fs_params = params, fs_n_rows = n_rows, fs_row_width = row_width \<rparr>, a, hint), g')
     }"

definition frodo_expand_hint_material_parallel ::
  "(nat \<Rightarrow> nat list) \<Rightarrow> nat \<Rightarrow> (u8 list \<Rightarrow> nat \<Rightarrow> u32) \<Rightarrow> frodo_server_params \<Rightarrow> u32 list option" where
  "frodo_expand_hint_material_parallel sched threads chacha sp =
     sample_a_parallel sched threads chacha (fp_seed (fs_params sp)) (fs_n_rows sp) (fp_lwe_dim (fs_params sp))"

definition frodo_client_setup_parallel ::
  "(nat \<Rightarrow> nat list) \<Rightarrow> nat \<Rightarrow> (u8 list \<Rightarrow> nat \<Rightarrow> u32) \<Rightarrow> frodo_server_params \<Rightarrow> u32 list \<Rightarrow> frodo_client option" where
  "frodo_client_setup_parallel sched threads chacha sp hint =
     do {
       a \<leftarrow> frodo_expand_hint_material_parallel sched threads chacha sp;
       Some \<lparr> fc_params = sp, fc_hint_material = a, fc_hint = hint, fc_prepared = [], fc_in_flight = None \<rparr>
     }"

definition frodo_parallel where
  "frodo_parallel sched threads chacha fill_bytes =
     \<lparr> pb_server_setup = frodo_server_setup_parallel sched threads chacha fill_bytes,
       pb_expand_hint_material = frodo_expand_hint_material_parallel sched threads chacha,
       pb_client_setup = frodo_client_setup_parallel sched threads chacha \<rparr>"

definition simple_server_setup_parallel ::
  "(nat \<Rightarrow> nat list) \<Rightarrow> nat \<Rightarrow> 'sg float_ops \<Rightarrow> (u8 list \<Rightarrow> nat \<Rightarrow> u32) \<Rightarrow> (nat \<Rightarrow> 'g \<Rightarrow> u8 list \<times> 'g) \<Rightarrow>
    'sg simple_config \<Rightarrow> u32 list \<Rightarrow> nat \<Rightarrow> nat \<Rightarrow> nat \<Rightarrow> 'g \<Rightarrow>
    (('sg simple_server_params \<times> u32 list \<times> u32 list) \<times> 'g) option" where
  "simple_server_setup_parallel sched threads fo chacha fill_bytes cfg db n_rows row_width plaintext_bits g =
     do {
       assert_opt (length db = n_rows * row_width);
       let lwe_dim = scf_lwe_dim cfg;
       (k, reshape_rows, reshape_row_width) \<leftarrow> reshape_dims fo n_rows row_width;
       let (seed, g') = fill_bytes 16 g;
       params \<leftarrow> simple_params_new fo lwe_dim plaintext_bits (scf_sigma cfg) seed;
       a \<leftarrow> sample_a_parallel sched threads chacha seed reshape_rows lwe_dim;
       hint \<leftarrow> simple_compute_hint_parallel sched threads a db n_rows row_width k lwe_dim reshape_row_width;
       Some ((\<lparr> srv_params = params, srv_n_rows = n_rows, srv_row_width = row_width, srv_k = k,
         srv_reshape_rows = reshape_rows, srv_reshape_row_width = reshape_row_width \<rparr>, a, hint), g')
     }"

definition simple_expand_hint_material_parallel ::
  "(nat \<Rightarrow> nat list) \<Rightarrow> nat \<Rightarrow> (u8 list \<Rightarrow> nat \<Rightarrow> u32) \<Rightarrow> 'sg simple_server_params \<Rightarrow> u32 list option" where
  "simple_expand_hint_material_parallel sched threads chacha sp =
     sample_a_parallel sched threads chacha (sp_seed (srv_params sp)) (srv_reshape_rows sp) (sp_lwe_dim (srv_params sp))"

definition simple_client_setup_parallel ::
  "(nat \<Rightarrow> nat list) \<Rightarrow> nat \<Rightarrow> (u8 list \<Rightarrow> nat \<Rightarrow> u32) \<Rightarrow> 'sg simple_server_params \<Rightarrow> u32 list \<Rightarrow> 'sg simple_client option" where
  "simple_client_setup_parallel sched threads chacha sp hint =
     do {
       a \<leftarrow> simple_expand_hint_material_parallel sched threads chacha sp;
       Some \<lparr> sc_params = sp, sc_hint_material = a, sc_hint = hint, sc_prepared = [], sc_in_flight = None \<rparr>
     }"

definition simple_parallel where
  "simple_parallel sched threads fo chacha fill_bytes =
     \<lparr> pb_server_setup = simple_server_setup_parallel sched threads fo chacha fill_bytes,
       pb_expand_hint_material = simple_expand_hint_material_parallel sched threads chacha,
       pb_client_setup = simple_client_setup_parallel sched threads chacha \<rparr>"

definition server_new_parallel ::
  "('cfg, 'sp, 'mat, 'hint, 'cs, 'g) parallel_backend \<Rightarrow> kv_store \<Rightarrow> 'cfg \<Rightarrow> 'g \<Rightarrow>
    (('cfg, 'sp, 'mat, 'hint) ikpir_server \<times> 'g) option" where
  "server_new_parallel P = server_build (pb_server_setup P)"

definition full_rebuild_parallel ::
  "('cfg, 'sp, 'mat, 'hint, 'cs, 'g) parallel_backend \<Rightarrow> ('cfg, 'sp, 'mat, 'hint) ikpir_server \<Rightarrow> 'g \<Rightarrow>
    (('sp, 'hint) server_setup_bundle \<times> ('cfg, 'sp, 'mat, 'hint) ikpir_server \<times> 'g) option" where
  "full_rebuild_parallel P = rebuild_with (pb_server_setup P)"

definition hp_from_setup_parallel ::
  "('cfg, 'sp, 'mat, 'hint, 'cs, 'g) parallel_backend \<Rightarrow> ('sp, 'hint) server_setup_bundle \<Rightarrow> 'cs hint_patch_client option" where
  "hp_from_setup_parallel P = hp_assemble (pb_client_setup P)"

definition hp_reset_from_parallel ::
  "('cfg, 'sp, 'mat, 'hint, 'cs, 'g) parallel_backend \<Rightarrow> 'cs hint_patch_client \<Rightarrow> ('sp, 'hint) server_setup_bundle \<Rightarrow>
    'cs hint_patch_client option" where
  "hp_reset_from_parallel P cl bundle =
     do {
       let mode = hp_hint_patch_mode cl;
       cl' \<leftarrow> hp_from_setup_parallel P bundle;
       Some (cl'\<lparr> hp_hint_patch_mode := mode \<rparr>)
     }"

definition rw_from_setup_parallel ::
  "('cfg, 'sp, 'mat, 'hint, 'cs, 'g) parallel_backend \<Rightarrow> ('sp, 'hint) server_setup_bundle \<Rightarrow> 'cs rewind_client option" where
  "rw_from_setup_parallel P = rw_assemble (pb_client_setup P)"

definition rw_reset_from_parallel ::
  "('cfg, 'sp, 'mat, 'hint, 'cs, 'g) parallel_backend \<Rightarrow> 'cs rewind_client \<Rightarrow> ('sp, 'hint) server_setup_bundle \<Rightarrow>
    'cs rewind_client option" where
  "rw_reset_from_parallel P cl bundle = rw_from_setup_parallel P bundle"

section \<open>Chunks in any order\<close>

definition schedule_ok :: "(nat \<Rightarrow> nat list) \<Rightarrow> bool" where
  "schedule_ok sched \<longleftrightarrow> (\<forall>m. mset (sched m) = mset [0..<m])"

lemma schedule_okD:
  assumes "schedule_ok sched"
  shows "set (sched m) = {..<m}" "distinct (sched m)"
proof -
  have eq: "mset (sched m) = mset [0..<m]" using assms unfolding schedule_ok_def by (rule spec)
  show "set (sched m) = {..<m}" unfolding mset_eq_setD [OF eq] by auto
  show "distinct (sched m)" unfolding mset_eq_imp_distinct_iff [OF eq] by (rule distinct_upt)
qed

text \<open>If every worker fills its chunk of a zeroed buffer with its share of \<open>g\<close>, the result is \<open>g\<close>.\<close>

lemma par_chunks_mut_map:
  fixes g :: "nat \<Rightarrow> 'a::zero"
  assumes sched: "schedule_ok sched" and c: "0 < c"
    and work: "\<And>i n. i * c + n \<le> len \<Longrightarrow> n = min c (len - i * c) \<Longrightarrow>
      f (i * c) (replicate n 0) = Some (map (\<lambda>j. g (i * c + j)) [0..<n])"
  shows "par_chunks_mut sched (replicate len 0) c f = Some (map g [0..<len])"
proof (cases "len \<le> c")
  case True
  then show ?thesis using work [of 0 len] by (simp add: par_chunks_mut_def)
next
  case False
  let ?m = "div_ceil len c"
  define buf where "buf is = map (\<lambda>p. if p div c \<in> set is then g p else 0) [0..<len]" for "is"
  define body where "body i data = do {
      chunk \<leftarrow> slice_opt data (i * c) (min c (length data - i * c));
      chunk' \<leftarrow> f (i * c) chunk;
      assert_opt (length chunk' = length chunk);
      splice_opt data (i * c) chunk' }" for i and data :: "'a list"
  have step: "body i (buf is) = Some (buf (is @ [i]))" if i: "i < ?m" "i \<notin> set is" for i "is"
  proof -
    define n where "n = min c (len - i * c)"
    have lt: "i * c < len" using i(1) c by (simp add: less_div_ceil_iff)
    then have n: "i * c + n \<le> len" "n \<le> c" by (auto simp: n_def)
    have idx: "p div c = i \<longleftrightarrow> i * c \<le> p \<and> p < i * c + n" if "p < len" for p
    proof
      assume "p div c = i"
      then have p: "p = i * c + p mod c" by auto
      have "p mod c < c" using c by simp
      then show "i * c \<le> p \<and> p < i * c + n" using p that by (auto simp: n_def)
    next
      assume "i * c \<le> p \<and> p < i * c + n"
      then show "p div c = i" using n(2) by (intro div_nat_eqI) (auto simp: algebra_simps)
    qed
    have part: "take n (drop (i * c) (buf is)) = replicate n 0"
      using n i(2) idx by (intro nth_equalityI) (auto simp: buf_def)
    have "take (i * c) (buf is) @ map (\<lambda>j. g (i * c + j)) [0..<n] @ drop (i * c + n) (buf is) = buf (is @ [i])"
      using n idx i(2) by (intro nth_equalityI) (auto simp: buf_def nth_append not_less)
    then show ?thesis
      using part n work [OF n(1) n_def] by (simp add: body_def slice_opt_def splice_opt_def buf_def n_def [symmetric])
  qed
  have run: "distinct (is @ js) \<Longrightarrow> set js \<subseteq> {..<?m} \<Longrightarrow> fold_opt body js (buf is) = Some (buf (is @ js))" for "is" js
    by (induction js arbitrary: "is") (simp_all add: step)
  have "fold_opt body (sched ?m) (buf []) = Some (buf (sched ?m))"
    using run [of "[]" "sched ?m"] schedule_okD [OF sched, of ?m] by simp
  moreover have "buf [] = replicate len 0" by (simp add: buf_def map_replicate_const)
  moreover have "buf (sched ?m) = map g [0..<len]"
  proof -
    have "p div c < ?m" if "p < len" for p
    proof -
      have "p div c * c \<le> p" by simp
      then have "p div c * c < len" using that by linarith
      then show ?thesis unfolding less_div_ceil_iff [OF c] .
    qed
    then show ?thesis using schedule_okD [OF sched, of ?m] by (simp add: buf_def)
  qed
  ultimately have "fold_opt body (sched ?m) (replicate len 0) = Some (map g [0..<len])" by (simp only:)
  moreover have "par_chunks_mut sched (replicate len 0) c f = fold_opt body (sched ?m) (replicate len 0)"
    using False c unfolding par_chunks_mut_def body_def length_replicate by (simp only: neq0_conv [symmetric] if_False simp_thms)
  ultimately show ?thesis by (simp only:)
qed

lemma balanced_chunk_len_pos:
  assumes "0 < len" "0 < unit"
  shows "0 < balanced_chunk_len len unit parts" "\<exists>u. balanced_chunk_len len unit parts = u * unit"
proof -
  let ?p = "if parts = 0 then 1 else parts"
  have "0 < div_ceil len ?p" by (rule div_ceil_pos [OF _ assms(1)]) simp
  then have "0 < div_ceil (div_ceil len ?p) unit" by (rule div_ceil_pos [OF assms(2)])
  then show "0 < balanced_chunk_len len unit parts" "\<exists>u. balanced_chunk_len len unit parts = u * unit"
    using assms(2) by (auto simp: balanced_chunk_len_def Let_def)
qed

theorem sample_a_parallel_eq:
  assumes "schedule_ok sched"
  shows "sample_a_parallel sched threads chacha seed n l = sample_a chacha seed n l"
proof (cases "threads \<le> 1 \<or> n * l < PAR_MIN_WORDS")
  case True
  then show ?thesis
    unfolding sample_a_parallel_def sample_a_def Let_def by (cases "n * l < 2 ^ 64") (simp_all only: if_True assert_opt_simps Option.bind.simps)
next
  case False
  then have "2 ^ 18 \<le> n * l" by (simp add: PAR_MIN_WORDS_def)
  then have "0 < n * l" by (cases "n * l") simp_all
  then have "0 < balanced_chunk_len (n * l) CHACHA_BUFFER_WORDS threads"
    by (intro balanced_chunk_len_pos) (simp_all add: CHACHA_BUFFER_WORDS_def)
  from par_chunks_mut_map [OF assms this, of "n * l" _ "rng_from_seed chacha seed"] show ?thesis
    using False by (simp add: sample_a_parallel_def sample_a_def Let_def)
qed

section \<open>Bands of the hint\<close>

text \<open>The columns \<open>k0, ..., k0 + m - 1\<close> of \<open>A\<close>: a band of hint rows is the hint of these columns.\<close>

definition cols :: "nat \<Rightarrow> u32 list \<Rightarrow> nat \<Rightarrow> nat \<Rightarrow> nat \<Rightarrow> u32 list" where
  "cols lwe a k0 m N = map (\<lambda>p. mcell lwe a (p div m) (k0 + p mod m)) [0..<N * m]"

lemma cols_nth:
  assumes "i < N" "k < m"
  shows "mcell m (cols lwe a k0 m N) i k = mcell lwe a i (k0 + k)"
proof -
  have "i * m + k < N * m" using assms by (rule mult_add_less)
  moreover have "(i * m + k) div m = i" "(i * m + k) mod m = k" using assms(2) by simp_all
  ultimately show ?thesis by (simp add: mcell_def [of m] cols_def)
qed

lemma slice_cols:
  assumes "length a = N * lwe" "i < N" "k0 + m \<le> lwe"
  shows "slice_opt a (i * lwe + k0) m = slice_opt (cols lwe a k0 m N) (i * m) m"
proof -
  have "i * lwe + lwe \<le> N * lwe" using mult_le_mono1 [OF Suc_leI [OF assms(2)], of lwe] by simp
  then have l: "i * lwe + k0 + m \<le> length a" using assms(1,3) by simp
  have "i * m + m \<le> N * m" using mult_le_mono1 [OF Suc_leI [OF assms(2)], of m] by simp
  then have r: "i * m + m \<le> length (cols lwe a k0 m N)" by (simp add: cols_def)
  have "take m (drop (i * lwe + k0) a) = take m (drop (i * m) (cols lwe a k0 m N))"
  proof (rule nth_equalityI)
    fix k assume "k < length (take m (drop (i * lwe + k0) a))"
    then have k: "k < m" by simp
    show "take m (drop (i * lwe + k0) a) ! k = take m (drop (i * m) (cols lwe a k0 m N)) ! k"
      using k l r cols_nth [OF assms(2) k, of lwe a k0] by (simp add: mcell_def add.assoc)
  qed (use l r in simp)
  then show ?thesis using l r by (simp add: slice_opt_def)
qed

lemma hint_slice:
  assumes "hint_of N lwe w a D h" "hint_of N m w (cols lwe a k0 m N) D h'" "k0 + m \<le> lwe"
  shows "h' = map (\<lambda>j. h ! (k0 * w + j)) [0..<m * w]"
proof (rule mcell_eqI [where n = m and w = w])
  fix k j assume kj: "k < m" "j < w"
  have "mcell w h' k j = (\<Sum>i<N. mcell m (cols lwe a k0 m N) i k * D i j)" using hint_ofD(3) [OF assms(2) kj] .
  also have "\<dots> = (\<Sum>i<N. mcell lwe a i (k0 + k) * D i j)" by (intro sum.cong) (simp_all add: cols_nth kj(1))
  also have "\<dots> = mcell w h (k0 + k) j" using hint_ofD(3) [OF assms(1)] kj assms(3) by simp
  finally show "mcell w h' k j = mcell w (map (\<lambda>j. h ! (k0 * w + j)) [0..<m * w]) k j"
    using mult_add_less [OF kj] by (simp add: mcell_def add_mult_distrib add.assoc)
qed (use hint_ofD(2) [OF assms(2)] in simp_all)

lemma hint_band_slice:
  assumes h: "hint_of n lwe w a (mcell w db) h" and w: "0 < w" and db: "length db = n * w" and le: "k0 + m \<le> lwe"
  shows "hint_band a db n lwe w (k0 * w) (replicate (m * w) 0) = Some (map (\<lambda>j. h ! (k0 * w + j)) [0..<m * w])"
proof -
  have a: "length a = n * lwe" using h by (simp add: hint_of_def)
  obtain h' where h': "compute_hint (cols lwe a k0 m n) db n m w = Some h'"
    "hint_of n m w (cols lwe a k0 m n) (mcell w db) h'"
    using compute_hint_total [of "cols lwe a k0 m n" n m db w] db by (auto simp: cols_def)
  have "hint_band a db n lwe w (k0 * w) (replicate (m * w) 0) = compute_hint (cols lwe a k0 m n) db n m w"
    using w slice_cols [OF a _ le] by (simp add: hint_band_def compute_hint_def Let_def) (rule fold_opt_cong, simp_all)
  then show ?thesis using h'(1) hint_slice [OF h h'(2) le] by simp
qed

lemma simple_hint_band_slice:
  assumes geo: "geometry n w k N W" and h: "hint_of N lwe W a (reshaped n w k db) h"
    and db: "length db = n * w" and le: "k0 + m \<le> lwe"
  shows "simple_hint_band a db n w k lwe W (k0 * W) (replicate (m * W) 0) =
    Some (map (\<lambda>j. h ! (k0 * W + j)) [0..<m * W])"
proof -
  have a: "length a = N * lwe" using h by (simp add: hint_of_def)
  have W: "0 < W" using geo by (simp add: geometry_def)
  obtain h' where h': "simple_compute_hint (cols lwe a k0 m N) db n w k m W = Some h'"
    "hint_of N m W (cols lwe a k0 m N) (reshaped n w k db) h'"
    using simple_compute_hint_total [OF geo, of "cols lwe a k0 m N" m db] db by (auto simp: cols_def)
  have "simple_hint_band a db n w k lwe W (k0 * W) (replicate (m * W) 0) = simple_compute_hint (cols lwe a k0 m N) db n w k m W"
    using W slice_cols [OF a reshaped_row [OF geo] le]
    by (simp add: simple_hint_band_def simple_compute_hint_def Let_def) (rule fold_opt_cong, simp_all)
  then show ?thesis using h'(1) hint_slice [OF h h'(2) le] by simp
qed

text \<open>Bands that are whole hint rows, in any order, give the hint.\<close>

lemma par_bands:
  assumes sched: "schedule_ok sched" and pos: "0 < lwe" "0 < w" and len: "length h = lwe * w"
    and band: "\<And>k0 m. k0 + m \<le> lwe \<Longrightarrow> f (k0 * w) (replicate (m * w) 0) = Some (map (\<lambda>j. h ! (k0 * w + j)) [0..<m * w])"
  shows "par_chunks_mut sched (replicate (lwe * w) 0) (balanced_chunk_len (lwe * w) w threads) f = Some (h :: u32 list)"
proof -
  let ?c = "balanced_chunk_len (lwe * w) w threads"
  have lw: "0 < lwe * w" using pos by simp
  obtain u where u: "?c = u * w" using balanced_chunk_len_pos(2) [OF lw pos(2)] by blast
  have "f (i * ?c) (replicate n 0) = Some (map (\<lambda>j. h ! (i * ?c + j)) [0..<n])"
    if n: "i * ?c + n \<le> lwe * w" "n = min ?c (lwe * w - i * ?c)" for i n
  proof -
    have "lwe * w - i * u * w = (lwe - i * u) * w" by (simp add: diff_mult_distrib)
    then have m: "n = min u (lwe - i * u) * w" using n(2) by (simp add: u nat_mult_min_left mult.assoc)
    have "i * ?c \<le> lwe * w" using n(1) by linarith
    then have "i * u * w \<le> lwe * w" by (simp only: u mult.assoc)
    then have "i * u \<le> lwe" using pos(2) by simp
    then have "i * u + min u (lwe - i * u) \<le> lwe" by simp
    from band [OF this] show ?thesis by (simp add: u m mult.assoc)
  qed
  from par_chunks_mut_map [OF sched balanced_chunk_len_pos(1) [OF lw pos(2)] this] show ?thesis
    using map_nth [of h] len by simp
qed

theorem compute_hint_parallel_eq:
  assumes "schedule_ok sched" "length a = n * lwe" "length db = n * w"
  shows "compute_hint_parallel sched threads a db n lwe w = compute_hint a db n lwe w"
proof (cases "threads \<le> 1 \<or> n * lwe * w < PAR_MIN_HINT_MACS")
  case True
  then show ?thesis unfolding compute_hint_parallel_def Let_def by (simp only: if_True)
next
  case False
  then have pos: "0 < lwe" "0 < w" by (auto simp: PAR_MIN_HINT_MACS_def not_less intro!: gr0I)
  obtain h where h: "compute_hint a db n lwe w = Some h" "hint_of n lwe w a (mcell w db) h"
    using compute_hint_total [OF assms(2,3)] .
  have "par_chunks_mut sched (replicate (lwe * w) 0) (balanced_chunk_len (lwe * w) w threads) (hint_band a db n lwe w) = Some h"
    by (rule par_bands [OF assms(1) pos hint_ofD(2) [OF h(2)] hint_band_slice [OF h(2) pos(2) assms(3)]])
  then show ?thesis using False h(1) unfolding compute_hint_parallel_def Let_def by (simp only: if_False)
qed

theorem simple_compute_hint_parallel_eq:
  assumes "schedule_ok sched" "geometry n w k N W" "length a = N * lwe" "length db = n * w"
  shows "simple_compute_hint_parallel sched threads a db n w k lwe W = simple_compute_hint a db n w k lwe W"
proof (cases "threads \<le> 1 \<or> n * lwe * w < PAR_MIN_HINT_MACS")
  case True
  then show ?thesis unfolding simple_compute_hint_parallel_def Let_def by (simp only: if_True)
next
  case False
  then have pos: "0 < lwe" "0 < W" using assms(2) by (auto simp: PAR_MIN_HINT_MACS_def not_less geometry_def intro!: gr0I)
  obtain h where h: "simple_compute_hint a db n w k lwe W = Some h" "hint_of N lwe W a (reshaped n w k db) h"
    using simple_compute_hint_total [OF assms(2-4)] .
  have "par_chunks_mut sched (replicate (lwe * W) 0) (balanced_chunk_len (lwe * W) W threads)
      (simple_hint_band a db n w k lwe W) = Some h"
    by (rule par_bands [OF assms(1) pos hint_ofD(2) [OF h(2)] simple_hint_band_slice [OF assms(2) h(2) assms(4)]])
  then show ?thesis using False h(1) unfolding simple_compute_hint_parallel_def Let_def by (simp only: if_False)
qed

section \<open>The twins\<close>

lemma assert_bind_cong: "(b \<Longrightarrow> x = y) \<Longrightarrow> do { assert_opt b; x } = do { assert_opt b; y }"
  by (cases b) simp_all

lemma bind_some_cong: "(\<And>x. m = Some x \<Longrightarrow> f x = g x) \<Longrightarrow> Option.bind m f = Option.bind m g"
  by (cases m) simp_all

lemma frodo_parallel_eq:
  assumes "schedule_ok sched"
  shows "frodo_server_setup_parallel sched threads chacha fill_bytes = frodo_server_setup chacha fill_bytes"
    and "frodo_expand_hint_material_parallel sched threads chacha = frodo_expand_hint_material chacha"
    and "frodo_client_setup_parallel sched threads chacha = frodo_client_setup chacha"
proof -
  show "frodo_server_setup_parallel sched threads chacha fill_bytes = frodo_server_setup chacha fill_bytes"
  proof (intro ext)
    fix lwe db n w pb g
    show "frodo_server_setup_parallel sched threads chacha fill_bytes lwe db n w pb g =
      frodo_server_setup chacha fill_bytes lwe db n w pb g"
      unfolding frodo_server_setup_parallel_def frodo_server_setup_def Let_def sample_a_parallel_eq [OF assms]
      by (intro assert_bind_cong, cases "fill_bytes 16 g", simp, intro bind_some_cong)
        (simp add: compute_hint_parallel_eq [OF assms] sample_a_length)
  qed
  show "frodo_expand_hint_material_parallel sched threads chacha = frodo_expand_hint_material chacha"
    by (intro ext) (simp add: frodo_expand_hint_material_parallel_def frodo_expand_hint_material_def sample_a_parallel_eq [OF assms])
  then show "frodo_client_setup_parallel sched threads chacha = frodo_client_setup chacha"
    by (intro ext) (simp add: frodo_client_setup_parallel_def frodo_client_setup_def)
qed

lemma reshape_dims_geometry:
  "reshape_dims fo n w = Some (k, N, W) \<Longrightarrow> geometry n w k N W"
  by (auto simp: reshape_dims_def geometry_def Let_def bind_eq_Some_conv)

lemma simple_parallel_eq:
  assumes "schedule_ok sched"
  shows "simple_server_setup_parallel sched threads fo chacha fill_bytes = simple_server_setup fo chacha fill_bytes"
    and "simple_expand_hint_material_parallel sched threads chacha = simple_expand_hint_material chacha"
    and "simple_client_setup_parallel sched threads chacha = simple_client_setup chacha"
proof -
  show "simple_server_setup_parallel sched threads fo chacha fill_bytes = simple_server_setup fo chacha fill_bytes"
  proof (intro ext)
    fix cfg db n w pb g
    show "simple_server_setup_parallel sched threads fo chacha fill_bytes cfg db n w pb g =
      simple_server_setup fo chacha fill_bytes cfg db n w pb g"
    proof (cases "length db = n * w")
      case len: True
      show ?thesis
      proof (cases "reshape_dims fo n w")
        case (Some dims)
        obtain k N W where d: "dims = (k, N, W)" by (cases dims)
        have geo: "geometry n w k N W" using Some d by (simp add: reshape_dims_geometry)
        have eq: "simple_compute_hint_parallel sched threads a db n w k lwe W = simple_compute_hint a db n w k lwe W"
          if "sample_a chacha seed N lwe = Some a" for a seed lwe
          by (rule simple_compute_hint_parallel_eq [OF assms geo sample_a_length [OF that] len])
        show ?thesis
          unfolding simple_server_setup_parallel_def simple_server_setup_def Let_def sample_a_parallel_eq [OF assms] Some d
          by (cases "fill_bytes 16 g") (auto simp: len eq intro!: bind_some_cong)
      qed (simp add: simple_server_setup_parallel_def simple_server_setup_def Let_def)
    qed (simp add: simple_server_setup_parallel_def simple_server_setup_def)
  qed
  show "simple_expand_hint_material_parallel sched threads chacha = simple_expand_hint_material chacha"
    by (intro ext) (simp add: simple_expand_hint_material_parallel_def simple_expand_hint_material_def sample_a_parallel_eq [OF assms])
  show "simple_client_setup_parallel sched threads chacha = simple_client_setup chacha"
    by (intro ext) (simp add: simple_client_setup_parallel_def simple_client_setup_def
        simple_expand_hint_material_parallel_def simple_expand_hint_material_def sample_a_parallel_eq [OF assms])
qed

end
