(* ===== verification/Parallel_Properties.thy ===== *)
theory Parallel_Properties
  imports Parallel_Setup
begin

text \<open>
  What the parallel setup promises: the same results as the sequential path, whatever the order in
  which the workers run, and no more workers than threads. The instances let the chunks run from the
  last to the first.
\<close>

lemma backwards_ok: "schedule_ok (\<lambda>m. rev [0..<m])"
  by (simp add: schedule_ok_def)

section \<open>The kernels\<close>

text \<open>The multi-threaded kernels give the results of their sequential twins, bit for bit, for every
  number of threads and every order of the workers: the public matrix from the seekable keystream,
  and the hint of a database in bands of whole rows, for both back ends. They return when
  their twin does.\<close>

theorem parallel_kernels_agree:
  assumes "schedule_ok sched" "length db = n * w" "length a = n * lwe"
    and "reshape_dims fo n w = Some (k, N, W)" "length b = N * lwe"
  shows "sample_a_parallel sched threads chacha seed n lwe = sample_a chacha seed n lwe \<and>
    compute_hint_parallel sched threads a db n lwe w = compute_hint a db n lwe w \<and>
    compute_hint a db n lwe w \<noteq> None \<and>
    simple_compute_hint_parallel sched threads b db n w k lwe W = simple_compute_hint b db n w k lwe W \<and>
    simple_compute_hint b db n w k lwe W \<noteq> None"
proof -
  note geo = reshape_dims_geometry [OF assms(4)]
  obtain h where "compute_hint a db n lwe w = Some h" by (rule compute_hint_total [OF assms(3,2)])
  moreover obtain h' where "simple_compute_hint b db n w k lwe W = Some h'"
    by (rule simple_compute_hint_total [OF geo assms(5,2)])
  ultimately show ?thesis
    using sample_a_parallel_eq [OF assms(1)] compute_hint_parallel_eq [OF assms(1,3,2)]
      simple_compute_hint_parallel_eq [OF assms(1) geo assms(5,2)] by simp
qed

text \<open>The instance is large enough for the fan-out: two rows per reshaped row, \<open>2\<^sup>2\<^sup>1\<close> products.\<close>

definition pair_ops :: "unit float_ops" where
  "pair_ops = \<lparr> fo_sigma_ok = (\<lambda>_. True), fo_tail_cut = (\<lambda>_. 2), fo_accept = (\<lambda>_ c _. c < 2), fo_rows_per_row = (\<lambda>n w. 2) \<rparr>"

theorem parallel_kernels_agree_witness:
  "compute_hint_parallel (\<lambda>m. rev [0..<m]) 8 (replicate 2048 3) (replicate 2048 2) 2 1024 1024 =
     compute_hint (replicate 2048 3) (replicate 2048 2) 2 1024 1024 \<and>
   simple_compute_hint_parallel (\<lambda>m. rev [0..<m]) 8 (replicate 1024 3) (replicate 2048 2) 2 1024 2 1024 2048 =
     simple_compute_hint (replicate 1024 3) (replicate 2048 2) 2 1024 2 1024 2048"
proof -
  have "reshape_dims pair_ops 2 1024 = Some (2, 1, 2048)"
    by (simp add: reshape_dims_def pair_ops_def div_ceil_def)
  from parallel_kernels_agree [OF backwards_ok, of "replicate 2048 2" 2 1024 "replicate 2048 3" 1024 pair_ops 2 1 2048
      "replicate 1024 3" 8 "\<lambda>_ _. 0" "[]"] this
  show ?thesis by simp
qed

text \<open>The fan-out: chunks are whole groups of \<open>unit\<close> elements, at least one, and there are at most as
  many chunks as threads, so that never more than 1024 workers are spawned.\<close>

theorem chunks_bounded_by_threads:
  assumes "0 < unit" "0 < len" "threads = setup_threads env available" "\<forall>n. available = Some n \<longrightarrow> 0 < n"
  shows "unit dvd balanced_chunk_len len unit threads \<and> unit \<le> balanced_chunk_len len unit threads \<and>
    div_ceil len (balanced_chunk_len len unit threads) \<le> threads \<and> 1 \<le> threads \<and> threads \<le> 1024"
proof -
  have t: "1 \<le> threads" "threads \<le> 1024"
    using assms(3,4) by (auto simp: setup_threads_def MAX_SETUP_THREADS_def Let_def split: option.splits)
  let ?c = "balanced_chunk_len len unit threads"
  obtain u where u: "?c = u * unit" using balanced_chunk_len_pos(2) [OF assms(2,1)] by blast
  have pos: "0 < ?c" by (rule balanced_chunk_len_pos(1) [OF assms(2,1)])
  have "div_ceil len threads \<le> ?c"
    using div_ceil_mult_ge [OF assms(1), of "div_ceil len threads"] t(1) assms(1) by (simp add: balanced_chunk_len_def Let_def)
  then have "len \<le> ?c * threads" using t(1) by (simp add: div_ceil_le_iff)
  then have "div_ceil len ?c \<le> threads" using pos by (simp add: div_ceil_le_iff mult.commute)
  moreover have "unit \<le> ?c" using u pos by (cases u) simp_all
  ultimately show ?thesis using u t by simp
qed

theorem chunks_bounded_by_threads_witness:
  "div_ceil 1000 (balanced_chunk_len 1000 7 (setup_threads (Some 4) (Some 16))) \<le> setup_threads (Some 4) (Some 16)"
  using chunks_bounded_by_threads [of 7 1000 "setup_threads (Some 4) (Some 16)" "Some 4" "Some 16"] by simp

section \<open>Servers and clients\<close>

text \<open>C18. A server or client built on the multi-threaded path is the one of the sequential path, with both
  back ends: construction, full rebuild, bootstrap and resync of both clients.\<close>

theorem parallel_setup_is_sequential:
  assumes "schedule_ok sched"
  shows "server_new_parallel (frodo_parallel sched threads chacha fill_bytes) =
      server_new (frodo_backend x86 chacha next_u32 fill_bytes) \<and>
    full_rebuild_parallel (frodo_parallel sched threads chacha fill_bytes) =
      full_rebuild (frodo_backend x86 chacha next_u32 fill_bytes) \<and>
    hp_from_setup_parallel (frodo_parallel sched threads chacha fill_bytes) =
      hp_from_setup (frodo_backend x86 chacha next_u32 fill_bytes) \<and>
    hp_reset_from_parallel (frodo_parallel sched threads chacha fill_bytes) =
      hp_reset_from (frodo_backend x86 chacha next_u32 fill_bytes) \<and>
    rw_from_setup_parallel (frodo_parallel sched threads chacha fill_bytes) =
      rw_from_setup (frodo_backend x86 chacha next_u32 fill_bytes) \<and>
    rw_reset_from_parallel (frodo_parallel sched threads chacha fill_bytes) =
      rw_reset_from (frodo_backend x86 chacha next_u32 fill_bytes) \<and>
    server_new_parallel (simple_parallel sched threads fo chacha fill_bytes) =
      server_new (simple_backend fo x86 chacha next_u32 next_u64 fill_bytes) \<and>
    full_rebuild_parallel (simple_parallel sched threads fo chacha fill_bytes) =
      full_rebuild (simple_backend fo x86 chacha next_u32 next_u64 fill_bytes) \<and>
    hp_from_setup_parallel (simple_parallel sched threads fo chacha fill_bytes) =
      hp_from_setup (simple_backend fo x86 chacha next_u32 next_u64 fill_bytes) \<and>
    hp_reset_from_parallel (simple_parallel sched threads fo chacha fill_bytes) =
      hp_reset_from (simple_backend fo x86 chacha next_u32 next_u64 fill_bytes) \<and>
    rw_from_setup_parallel (simple_parallel sched threads fo chacha fill_bytes) =
      rw_from_setup (simple_backend fo x86 chacha next_u32 next_u64 fill_bytes) \<and>
    rw_reset_from_parallel (simple_parallel sched threads fo chacha fill_bytes) =
      rw_reset_from (simple_backend fo x86 chacha next_u32 next_u64 fill_bytes)"
proof -
  note F = frodo_parallel_def frodo_backend_def frodo_parallel_eq [OF assms]
  note S = simple_parallel_def simple_backend_def simple_parallel_eq [OF assms]
  note D = server_new_parallel_def server_new_def full_rebuild_parallel_def full_rebuild_def fun_eq_iff
    hp_from_setup_parallel_def hp_from_setup_def hp_reset_from_parallel_def hp_reset_from_def
    rw_from_setup_parallel_def rw_from_setup_def rw_reset_from_parallel_def rw_reset_from_def
  show ?thesis by (intro conjI) (simp_all add: D F S)
qed

theorem parallel_setup_is_sequential_witness:
  "server_new_parallel (frodo_parallel (\<lambda>m. rev [0..<m]) 4 (\<lambda>_ _. 1) (\<lambda>n g. (replicate n 0, g))) =
    server_new (frodo_backend True (\<lambda>_ _. 1) (\<lambda>g. (0, g)) (\<lambda>n g. (replicate n 0, g)))"
  using parallel_setup_is_sequential [OF backwards_ok, of 4 "\<lambda>_ _. 1" "\<lambda>n g. (replicate n 0, g)" True "\<lambda>g. (0, g)"
    pair_ops "\<lambda>g. (0, g)"] by blast

end
