(* ===== verification/Simple_Floats.thy ===== *)
theory Simple_Floats
  imports F64 Simple
begin

text \<open>
  The \<open>f64\<close> computations of the SimplePIR back end: the check of the noise width \<open>\<sigma>\<close>, the tail cut and
  the weights of its sampler (\<open>simple/sampler.rs\<close>), and the number of rows that a reshaped row holds
  (\<open>simple/backend.rs\<close>). Together they are the instance of \<open>float_ops\<close> the crate runs on. A tail cut
  of \<open>2\<^sup>3\<^sup>2\<close> or more, where the square in a weight would overflow, is outside the sampler's results.
\<close>

definition f64_sigma_ok :: "f64 \<Rightarrow> bool" where
  "f64_sigma_ok sigma \<longleftrightarrow> f_lt (Num 0) sigma \<and> f_is_finite sigma"

definition f64_tail_cut :: "f64 \<Rightarrow> nat" where
  "f64_tail_cut sigma = f_to_uint 64 (f_ceil (f_mul (Num 20) sigma))"

definition weight :: "f64_libm \<Rightarrow> f64 \<Rightarrow> nat \<Rightarrow> f64" where
  "weight lm sigma x =
     (if x = 0 then Num (1 / 2)
      else
        let two_sigma_sq = f_mul (f_mul (Num 2) sigma) sigma
        in lm_exp lm (f_div (f_neg (f_from_u64 (x * x))) two_sigma_sq))"

definition uniform_unit :: "u64 \<Rightarrow> f64" where
  "uniform_unit u = f_mul (f_from_u64 (unat u)) (f_div (Num 1) (f_from_u64 (2 ^ 53)))"

definition f64_rows_per_row :: "nat \<Rightarrow> nat \<Rightarrow> nat" where
  "f64_rows_per_row n_rows row_width =
     (let ratio = f_div (f_from_u32 n_rows) (f_from_u32 row_width)
      in f_to_uint 32 (f_max (f_round (f_sqrt ratio)) (Num 1)))"

definition f64_ops :: "f64_libm \<Rightarrow> f64 float_ops" where
  "f64_ops lm =
     \<lparr> fo_sigma_ok = f64_sigma_ok,
       fo_tail_cut = f64_tail_cut,
       fo_accept = (\<lambda>sigma candidate u. f_lt (uniform_unit u) (weight lm sigma candidate)),
       fo_rows_per_row = f64_rows_per_row \<rparr>"

text \<open>The number of rows per reshaped row is at least one, and a reshaped row always fits \<open>u32\<close>: the
  \<open>expect\<close> of \<open>reshape_dims\<close> cannot fail. Rounded up, \<open>k \<ge> 2\<close> needs a ratio of at least
  \<open>(k - 1/2)\<^sup>2 > k\<close>, with room for the rounding errors.\<close>

lemma ratio_in_range:
  assumes "0 < n" "n < 2 ^ 32" "0 < w" "w < 2 ^ 32"
  shows "in_range (real n / real w)" "in_range (sqrt (real n / real w))"
proof -
  let ?r = "real n / real w"
  have n: "1 \<le> real n" "real n \<le> 2 ^ 32" and w: "1 \<le> real w" "real w \<le> 2 ^ 32" using assms by simp_all
  have "1 / 2 ^ 32 \<le> ?r" using n w by (intro frac_le) simp_all
  have "?r \<le> 2 ^ 32 / 1" using n w by (intro frac_le) simp_all
  note r = \<open>1 / 2 ^ 32 \<le> ?r\<close> \<open>?r \<le> 2 ^ 32 / 1\<close>
  have c: "1 / 2 ^ 300 \<le> (1 / 2 ^ 32 :: real)" "1 / 2 ^ 300 \<le> (1 / 2 ^ 16 :: real)" "(2::real) ^ 32 \<le> 2 ^ 300" "(2::real) ^ 16 \<le> 2 ^ 300"
    by simp_all
  show "in_range ?r" using r c unfolding in_range_def by linarith
  have sq: "(1 / 2 ^ 16) ^ 2 = (1 / 2 ^ 32 :: real)" "(2 ^ 16) ^ 2 = (2 ^ 32 / 1 :: real)" by (simp_all add: power2_eq_square)
  have "sqrt ((1 / 2 ^ 16) ^ 2) \<le> sqrt ?r" unfolding sq by (rule real_sqrt_le_mono [OF r(1)])
  then have l: "1 / 2 ^ 16 \<le> sqrt ?r" by simp
  have "sqrt ?r \<le> sqrt ((2 ^ 16) ^ 2)" unfolding sq by (rule real_sqrt_le_mono [OF r(2)])
  then have "sqrt ?r \<le> 2 ^ 16" by simp
  then show "in_range (sqrt ?r)" using l c unfolding in_range_def by linarith
qed

lemma floor_half_up_le_ratio:
  assumes "0 < r" "y \<le> sqrt r * rel_unit ^ 2" "2 \<le> \<lfloor>y + 1 / 2\<rfloor>"
  shows "of_int \<lfloor>y + 1 / 2\<rfloor> \<le> r"
proof -
  let ?k = "of_int \<lfloor>y + 1 / 2\<rfloor> :: real"
  have k: "2 \<le> ?k" "?k - 1 / 2 \<le> y" using assms(3) by linarith+
  have "(?k - 1 / 2) ^ 2 \<le> (sqrt r * rel_unit ^ 2) ^ 2" using k assms(2) by (intro power_mono) linarith+
  also have "\<dots> = r * rel_unit ^ 4" using assms(1) by (simp add: power_mult_distrib)
  also have "rel_unit ^ 4 \<le> 9 / 8" using rel_unit_le [of 4] by simp
  then have "r * rel_unit ^ 4 \<le> r * (9 / 8)" using assms(1) by (intro mult_left_mono) simp_all
  finally have s: "(?k - 1 / 2) ^ 2 \<le> r * (9 / 8)" .
  have "0 \<le> (?k - 2) * (?k - 1 / 8)" using k by (intro mult_nonneg_nonneg) linarith+
  then have "?k * (9 / 8) \<le> (?k - 1 / 2) ^ 2" by (simp add: power2_eq_square algebra_simps)
  then show ?thesis using s by linarith
qed

lemma f64_rows_per_row_bounds:
  assumes "0 < n" "n < 2 ^ 32" "0 < w" "w < 2 ^ 32"
  shows "0 < f64_rows_per_row n w" "f64_rows_per_row n w * w < 2 ^ 32"
proof -
  let ?r = "real n / real w"
  have "near 1 (f_div (f_from_u32 n) (f_from_u32 w)) ?r"
    using near_div [OF near_u32 near_u32 ratio_in_range(1) [OF assms]] assms by simp
  then have "near 2 (f_sqrt (f_div (f_from_u32 n) (f_from_u32 w))) (sqrt ?r)"
    using near_sqrt [of 1] ratio_in_range(2) [OF assms] by (simp add: numeral_2_eq_2)
  then obtain y where y: "f_sqrt (f_div (f_from_u32 n) (f_from_u32 w)) = Num y" "0 < y" "y \<le> sqrt ?r * rel_unit ^ 2"
    by (rule nearE)
  let ?k = "\<lfloor>y + 1 / 2\<rfloor>"
  have m: "max 1 (of_int ?k :: real) = of_int (max 1 ?k)" by simp
  have "f_max (Num a) (Num 1) = Num (max 1 a)" for a by (simp add: max_def)
  moreover have "f_round (Num y) = Num (of_int ?k)" using y(2) by simp
  ultimately have "f64_rows_per_row n w = f_to_uint 32 (Num (max 1 (of_int ?k)))"
    by (simp only: f64_rows_per_row_def Let_def y(1))
  also have "\<dots> = min (2 ^ 32 - 1) (nat (max 1 ?k))" unfolding m f_to_uint.simps floor_of_int by simp
  finally have k: "f64_rows_per_row n w = min (2 ^ 32 - 1) (nat (max 1 ?k))" .
  then show "0 < f64_rows_per_row n w" by simp
  show "f64_rows_per_row n w * w < 2 ^ 32"
  proof (cases "2 \<le> ?k")
    case True
    have "of_int ?k \<le> ?r" using floor_half_up_le_ratio [OF _ y(3) True] assms by simp
    then have "of_int ?k * real w \<le> real n" using assms by (simp add: pos_le_divide_eq)
    then have "real (nat ?k) * real w \<le> real n" using True by simp
    then have "nat ?k * w \<le> n" by (metis of_nat_le_iff of_nat_mult)
    moreover have "f64_rows_per_row n w \<le> nat ?k" using True k by simp
    ultimately show ?thesis using assms(2) mult_le_mono1 [of "f64_rows_per_row n w" "nat ?k" w] by linarith
  next
    case False
    then have "f64_rows_per_row n w = 1" using k by simp
    then show ?thesis using assms(4) by simp
  qed
qed

end
