(* ===== verification/Param_Select.thy ===== *)
theory Param_Select
  imports Simple_Floats Slot_Array
begin

text \<open>
  \<open>ikpir-common/src/pir_params.rs\<close>: the largest number of plaintext bits that keeps the noise of a
  decode below half a step with the documented probability. The searches run in the \<open>f64\<close> arithmetic of
  \<^theory_text>\<open>F64\<close>, in the order of the code's operations; \<open>powi\<close> and \<open>log2\<close> are those of a library within \<open>2\<^sup>-\<^sup>4\<^sup>0\<close>
  of the exact results. The lemmas bound the accumulated error of a test by a factor of \<open>1 + 2\<^sup>-\<^sup>2\<^sup>0\<close>.
\<close>

definition KAPPA :: nat where
  "KAPPA = 40"

text \<open>The test of one candidate \<open>pb\<close>; \<open>u32\<close> overflow in the row width is a panic.\<close>

definition frodo_fits :: "f64_libm \<Rightarrow> nat \<Rightarrow> nat \<Rightarrow> nat \<Rightarrow> nat \<Rightarrow> nat \<Rightarrow> nat \<Rightarrow> bool option" where
  "frodo_fits lm arity segment_rows bucket_size fingerprint_bits value_bits pb =
     do {
       let t = lm_powi lm (Num 2) (31 - int pb);
       let p = lm_powi lm (Num 2) (int pb);
       let denom = f_add (f_mul (f_mul (f_mul (f_div (Num 4) (Num 3)) (f_from_u32 segment_rows)) p) p)
                     (f_mul (f_mul (f_div (Num 2) (Num 3)) p) t);
       let log2_tail = f_sub (Num 1) (f_div (f_div (f_mul t t) denom) F_LN_2);
       assert_opt (fingerprint_bits + value_bits < 2 ^ 32);
       let row_width = bucket_size * div_ceil (fingerprint_bits + value_bits) pb;
       assert_opt (row_width < 2 ^ 32 \<and> arity * row_width < 2 ^ 32);
       let log2_target = f_sub (f_neg (f_from_u32 (KAPPA + 1))) (lm_log2 lm (f_from_u32 (arity * row_width)));
       Some (f_le log2_tail log2_target)
     }"

definition frodo_max_plaintext_bits :: "f64_libm \<Rightarrow> nat \<Rightarrow> nat \<Rightarrow> nat \<Rightarrow> nat \<Rightarrow> nat \<Rightarrow> nat option" where
  "frodo_max_plaintext_bits lm arity segment_rows bucket_size fingerprint_bits value_bits =
     do {
       assert_opt (0 < arity);
       assert_opt (0 < segment_rows);
       assert_opt (0 < bucket_size);
       assert_opt (0 < fingerprint_bits);
       assert_opt (0 < value_bits);
       r \<leftarrow> scan (rev [1..<15]) (frodo_fits lm arity segment_rows bucket_size fingerprint_bits value_bits);
       r
     }"

definition simple_fits :: "f64_libm \<Rightarrow> nat \<Rightarrow> nat \<Rightarrow> nat \<Rightarrow> nat \<Rightarrow> nat \<Rightarrow> f64 \<Rightarrow> nat \<Rightarrow> bool option" where
  "simple_fits lm arity segment_rows bucket_size fingerprint_bits value_bits sigma pb =
     do {
       assert_opt (fingerprint_bits + value_bits < 2 ^ 32);
       let row_width = bucket_size * div_ceil (fingerprint_bits + value_bits) pb;
       assert_opt (row_width < 2 ^ 32);
       (_, reshape_rows, _) \<leftarrow> reshape_dims (f64_ops lm) segment_rows row_width;
       assert_opt (arity * row_width < 2 ^ 32);
       let ln_2_over_delta = f_mul F_LN_2
             (f_add (f_from_u32 (KAPPA + 2)) (lm_log2 lm (f_from_u32 (arity * row_width))));
       let factor = f_mul (f_mul (f_mul (Num 2) F_SQRT_2) sigma) (f_sqrt ln_2_over_delta);
       Some (f_le (f_mul (f_mul factor (lm_powi lm (Num 2) (int pb))) (f_sqrt (f_from_u32 reshape_rows)))
                  (lm_powi lm (Num 2) (32 - int pb)))
     }"

definition simple_max_plaintext_bits :: "f64_libm \<Rightarrow> nat \<Rightarrow> nat \<Rightarrow> nat \<Rightarrow> nat \<Rightarrow> nat \<Rightarrow> f64 \<Rightarrow> nat option" where
  "simple_max_plaintext_bits lm arity segment_rows bucket_size fingerprint_bits value_bits sigma =
     do {
       assert_opt (0 < arity);
       assert_opt (0 < segment_rows);
       assert_opt (0 < bucket_size);
       assert_opt (0 < fingerprint_bits);
       assert_opt (0 < value_bits);
       assert_opt (f_lt (Num 0) sigma \<and> f_is_finite sigma);
       r \<leftarrow> scan (rev [1..<15]) (simple_fits lm arity segment_rows bucket_size fingerprint_bits value_bits sigma);
       r
     }"

section \<open>Downward search\<close>

lemma find_down_Some:
  assumes "List.find Q (rev [1..<n]) = Some m"
  shows "1 \<le> m \<and> m < n \<and> Q m \<and> (\<forall>k. m < k \<and> k < n \<longrightarrow> \<not> Q k)"
proof -
  obtain i where i: "i < n - 1" "m = rev [1..<n] ! i" "Q m" "\<And>j. j < i \<Longrightarrow> \<not> Q (rev [1..<n] ! j)"
    using assms by (auto simp: find_Some_iff)
  have at: "rev [1..<n] ! j = n - 1 - j" if "j < n - 1" for j using that by (simp add: rev_nth)
  have "\<not> Q k" if "m < k" "k < n" for k
  proof -
    have j: "n - 1 - k < i" using that i(1,2) at [OF i(1)] by simp
    then have "rev [1..<n] ! (n - 1 - k) = k" using at [of "n - 1 - k"] i(1) that by simp
    then show ?thesis using i(4) [OF j] by simp
  qed
  then show ?thesis using i at [OF i(1)] by auto
qed

lemma find_down_exists: "Q m \<Longrightarrow> 1 \<le> m \<Longrightarrow> m < n \<Longrightarrow> \<exists>k. List.find Q (rev [1..<n]) = Some k"
  by (cases "List.find Q (rev [1..<n])") (auto simp: find_None_iff)

lemma find_down_None: "(\<And>k. 1 \<le> k \<Longrightarrow> k < n \<Longrightarrow> \<not> Q k) \<Longrightarrow> List.find Q (rev [1..<n]) = None"
  by (auto simp: find_None_iff)

section \<open>The per-cell budget\<close>

text \<open>\<open>\<delta>\<close> of the module documentation, for \<open>d\<close> cells read by one lookup.\<close>

definition cell_budget :: "nat \<Rightarrow> real" where
  "cell_budget d = 1 / (2 ^ (KAPPA + 1) * real d)"

lemma tail_as_power: "2 powr (1 - x / ln 2) = 2 * exp (- x :: real)"
proof -
  have "2 powr (1 - x / ln 2) = 2 / 2 powr (x / ln 2)" by (simp add: powr_diff)
  also have "2 powr (x / ln 2) = exp x" by (simp add: powr_def)
  finally show ?thesis by (simp add: exp_minus divide_inverse)
qed

lemma budget_as_power:
  assumes "0 < d"
  shows "2 powr (- real (KAPPA + 1) - log 2 (real d)) = cell_budget d"
proof -
  have "2 powr (- real (KAPPA + 1) - log 2 (real d)) = 2 powr (- real (KAPPA + 1)) / 2 powr (log 2 (real d))"
    by (rule powr_diff)
  also have "2 powr (log 2 (real d)) = real d" using assms by simp
  also have "2 powr (- real (KAPPA + 1)) = 1 / 2 ^ (KAPPA + 1)" by (rule two_powr_minus_nat)
  finally show ?thesis by (simp add: cell_budget_def)
qed

lemma cell_budget_pos: "0 < d \<Longrightarrow> 0 < cell_budget d"
  by (simp add: cell_budget_def)

text \<open>An error of \<open>2\<^sup>-\<^sup>2\<^sup>2\<close> in the binary logarithm is less than \<open>2\<^sup>-\<^sup>2\<^sup>0\<close> of the value.\<close>

lemma two_powr_slack: "2 powr (1 / 2 ^ 22 :: real) \<le> 1 + 1 / 2 ^ 20"
proof -
  have "ln 2 * (1 / 2 ^ 22) \<le> 1 * (1 / 2 ^ 22 :: real)" using ln_2_less_1 by (intro mult_right_mono) simp_all
  then have "2 powr (1 / 2 ^ 22 :: real) \<le> exp (1 / 2 ^ 22)" by (simp add: powr_def)
  also have "exp (1 / 2 ^ 22 :: real) \<le> 1 + 1 / 2 ^ 22 + (1 / 2 ^ 22)\<^sup>2" by (rule exp_bound) simp_all
  also have "\<dots> \<le> 1 + 1 / 2 ^ 20" by (simp add: power2_eq_square)
  finally show ?thesis .
qed

lemma tail_below_budget:
  assumes "0 < d" "1 - x / ln 2 \<le> - real (KAPPA + 1) - log 2 (real d) + 1 / 2 ^ 22"
  shows "2 * exp (- x) \<le> (1 + 1 / 2 ^ 20) * cell_budget d"
proof -
  have "2 * exp (- x) \<le> 2 powr (- real (KAPPA + 1) - log 2 (real d) + 1 / 2 ^ 22)"
    unfolding tail_as_power [symmetric] using assms(2) by (intro powr_mono) simp_all
  also have "\<dots> = cell_budget d * 2 powr (1 / 2 ^ 22)"
    unfolding powr_add budget_as_power [OF assms(1)] ..
  also have "\<dots> \<le> cell_budget d * (1 + 1 / 2 ^ 20)"
    using two_powr_slack cell_budget_pos [OF assms(1)] by (intro mult_left_mono) simp_all
  finally show ?thesis by (simp only: mult.commute)
qed

lemma tail_above_budget:
  assumes "0 < d" "- real (KAPPA + 1) - log 2 (real d) < 1 - x / ln 2 + 1 / 2 ^ 22"
  shows "cell_budget d < (1 + 1 / 2 ^ 20) * (2 * exp (- x))"
proof -
  have "cell_budget d < 2 powr (1 - x / ln 2 + 1 / 2 ^ 22)"
    unfolding budget_as_power [OF assms(1), symmetric] using assms(2) by simp
  also have "\<dots> = 2 * exp (- x) * 2 powr (1 / 2 ^ 22)" unfolding powr_add tail_as_power ..
  also have "\<dots> \<le> 2 * exp (- x) * (1 + 1 / 2 ^ 20)" using two_powr_slack by (intro mult_left_mono) simp_all
  finally show ?thesis by (simp only: mult.commute)
qed

lemma ln_two_over_budget:
  assumes "0 < d"
  shows "ln (2 / cell_budget d) = ln 2 * (real (KAPPA + 2) + log 2 (real d))"
proof -
  have "2 / cell_budget d = 2 ^ (KAPPA + 2) * real d" by (simp add: cell_budget_def)
  then have "ln (2 / cell_budget d) = ln (2 ^ (KAPPA + 2)) + ln (real d)" using assms by (simp add: ln_mult)
  also have "ln (2 ^ (KAPPA + 2) :: real) = real (KAPPA + 2) * ln 2" by (rule ln_realpow)
  also have "ln (real d) = ln 2 * log 2 (real d)" by (simp add: log_def)
  finally show ?thesis by (simp add: algebra_simps)
qed

lemma log_two_bounds:
  assumes "0 < d" "d < 2 ^ 32"
  shows "0 \<le> log 2 (real d)" "log 2 (real d) \<le> 32"
proof -
  have "1 \<le> real d" using assms(1) by simp
  then show "0 \<le> log 2 (real d)" by simp
  have "real d \<le> real (2 ^ 32)" using assms(2) by (intro of_nat_mono) simp
  then have "real d \<le> 2 powr 32" by simp
  then show "log 2 (real d) \<le> 32" using assms(1) by (simp add: log_le_iff)
qed

lemma log2_accurate:
  assumes "libm_accurate lm" "0 < d" "d < 2 ^ 32"
  obtains y where "lm_log2 lm (f_from_u32 d) = Num y" "\<bar>y - log 2 (real d)\<bar> \<le> 1 / 2 ^ 40"
proof -
  have "1 \<le> real d" "real d < 2 ^ 32" using assms(2,3) by simp_all
  then obtain y where "lm_log2 lm (Num (real d)) = Num y" "\<bar>y - log 2 (real d)\<bar> \<le> 1 / 2 ^ 40"
    using assms(1) unfolding libm_accurate_def by blast
  then show thesis using that by (simp add: f_from_u32_def)
qed

section \<open>FrodoPIR\<close>

text \<open>The width of a database row in cells, and the number of cells a lookup reads.\<close>

definition row_cells :: "nat \<Rightarrow> nat \<Rightarrow> nat \<Rightarrow> nat \<Rightarrow> nat" where
  "row_cells bs fb vb pb = bs * div_ceil (fb + vb) pb"

definition bernstein_tail :: "nat \<Rightarrow> nat \<Rightarrow> real" where
  "bernstein_tail m pb =
     (let p = 2 ^ pb; t = 2 ^ (31 - pb); V = (2 / 3) * real m * p\<^sup>2
      in 2 * exp (- t\<^sup>2 / (2 * V + (2 / 3) * p * t)))"

lemma row_cells_le:
  assumes "1 \<le> pb"
  shows "row_cells bs fb vb pb \<le> bs * (fb + vb)"
proof -
  have "fb + vb \<le> (fb + vb) * pb" using assms by (cases pb) simp_all
  then have "div_ceil (fb + vb) pb \<le> fb + vb" using assms by (simp add: div_ceil_le_iff)
  then show ?thesis unfolding row_cells_def by (rule mult_le_mono2)
qed

lemma row_cells_pos: "0 < bs \<Longrightarrow> 0 < fb \<Longrightarrow> 1 \<le> pb \<Longrightarrow> 0 < row_cells bs fb vb pb"
  by (simp add: row_cells_def div_ceil_pos)

text \<open>Geometries whose cell counts fit \<open>u32\<close>.\<close>

definition geometry_fits :: "nat \<Rightarrow> nat \<Rightarrow> nat \<Rightarrow> nat \<Rightarrow> nat \<Rightarrow> bool" where
  "geometry_fits ar m bs fb vb \<longleftrightarrow> 0 < ar \<and> 0 < m \<and> m < 2 ^ 32 \<and> 0 < bs \<and> 0 < fb \<and> 0 < vb \<and>
     ar * (bs * (fb + vb)) < 2 ^ 32"

lemma geometry_fitsD:
  assumes "geometry_fits ar m bs fb vb" "1 \<le> pb"
  shows "fb + vb < 2 ^ 32" "row_cells bs fb vb pb < 2 ^ 32" "ar * row_cells bs fb vb pb < 2 ^ 32"
    "0 < ar * row_cells bs fb vb pb"
proof -
  note g = assms(1) [unfolded geometry_fits_def]
  have "bs * (fb + vb) \<le> ar * (bs * (fb + vb))" using g by (cases ar) simp_all
  then have b: "bs * (fb + vb) < 2 ^ 32" using g by linarith
  moreover have "fb + vb \<le> bs * (fb + vb)" using g by (cases bs) simp_all
  ultimately show "fb + vb < 2 ^ 32" by linarith
  note le = row_cells_le [OF assms(2), of bs fb vb]
  show "row_cells bs fb vb pb < 2 ^ 32" using le b by linarith
  show "ar * row_cells bs fb vb pb < 2 ^ 32" using mult_le_mono2 [OF le, of ar] g by linarith
  show "0 < ar * row_cells bs fb vb pb" using g row_cells_pos [of bs fb pb vb] assms(2) by simp
qed


lemma approx_mono: "approx n b v x \<Longrightarrow> b \<le> c \<Longrightarrow> approx n c v x"
  using span_mono by (auto simp: approx_def)

text \<open>The exponent of the tail, in the code's units.\<close>

lemma frodo_exponent_near:
  fixes lm :: f64_libm and m pb :: nat
  defines "t \<equiv> lm_powi lm (Num 2) (31 - int pb)" and "p \<equiv> lm_powi lm (Num 2) (int pb)"
    and "T \<equiv> (2::real) ^ (31 - pb)" and "P \<equiv> (2::real) ^ pb"
  assumes "libm_accurate lm" "0 < m" "m < 2 ^ 32" "1 \<le> pb" "pb \<le> 14"
  shows "approx 13 200 (f_div (f_div (f_mul t t) (f_add (f_mul (f_mul (f_mul (f_div (Num 4) (Num 3)) (f_from_u32 m)) p) p)
      (f_mul (f_mul (f_div (Num 2) (Num 3)) p) t))) F_LN_2)
    (T * T / (4 / 3 * real m * P * P + 2 / 3 * P * T) / ln 2)"
proof -
  have t: "approx 1 31 t T"
  proof -
    have i: "31 - int pb = int (31 - pb)" using assms(9) by simp
    show ?thesis unfolding t_def T_def i by (rule approx_mono [OF approx_powi [OF assms(5)]]) simp_all
  qed
  have p: "approx 1 31 p P"
    using approx_powi [OF assms(5), of pb] assms(9) by (auto simp: p_def P_def intro: approx_mono)
  have a: "approx 1 5 (f_div (Num 4) (Num 3)) (4 / 3)" "approx 1 5 (f_div (Num 2) (Num 3)) (2 / 3)"
    by (rule approx_div [OF approx_numeral [of _ 2] approx_numeral [of _ 2]]; simp)+
  have m: "approx 2 40 (f_mul (f_div (Num 4) (Num 3)) (f_from_u32 m)) (4 / 3 * real m)"
    by (rule approx_mul [OF a(1) approx_u32 [OF assms(6,7)]]) simp_all
  have mp: "approx 4 80 (f_mul (f_mul (f_div (Num 4) (Num 3)) (f_from_u32 m)) p) (4 / 3 * real m * P)"
    by (rule approx_mul [OF m p]) simp_all
  have v: "approx 6 120 (f_mul (f_mul (f_mul (f_div (Num 4) (Num 3)) (f_from_u32 m)) p) p) (4 / 3 * real m * P * P)"
    by (rule approx_mul [OF mp p]) simp_all
  have q: "approx 3 40 (f_mul (f_div (Num 2) (Num 3)) p) (2 / 3 * P)"
    by (rule approx_mul [OF a(2) p]) simp_all
  have w: "approx 5 80 (f_mul (f_mul (f_div (Num 2) (Num 3)) p) t) (2 / 3 * P * T)"
    by (rule approx_mul [OF q t]) simp_all
  have d: "approx 7 121 (f_add (f_mul (f_mul (f_mul (f_div (Num 4) (Num 3)) (f_from_u32 m)) p) p)
      (f_mul (f_mul (f_div (Num 2) (Num 3)) p) t)) (4 / 3 * real m * P * P + 2 / 3 * P * T)"
    by (rule approx_add [OF v w]) simp_all
  have tt: "approx 3 62 (f_mul t t) (T * T)" by (rule approx_mul [OF t t]) simp_all
  show ?thesis
    by (rule approx_div [OF approx_div [OF tt d, of 11 190] approx_ln_2]) simp_all
qed

lemma near_within:
  assumes "near k (Num y) x" "k \<le> 32"
  shows "y \<le> x * (1 + 1 / 10 ^ 10)" "x \<le> y * (1 + 1 / 10 ^ 10)" "0 < x" "0 < y"
proof -
  have y: "0 < y" "0 < x" "x / rel_unit ^ k \<le> y" "y \<le> x * rel_unit ^ k" using assms(1) by (auto elim!: nearE)
  have u: "rel_unit ^ k \<le> 1 + 1 / 10 ^ 10" using rel_unit_le [OF assms(2)] by simp
  have "x * rel_unit ^ k \<le> x * (1 + 1 / 10 ^ 10)" using u y(2) by (intro mult_left_mono) simp_all
  then show "y \<le> x * (1 + 1 / 10 ^ 10)" using y(4) by linarith
  have "x \<le> y * rel_unit ^ k" using y(3) by (simp add: pos_divide_le_eq)
  also have "\<dots> \<le> y * (1 + 1 / 10 ^ 10)" using u y(1) by (intro mult_left_mono) simp_all
  finally show "x \<le> y * (1 + 1 / 10 ^ 10)" .
  show "0 < x" "0 < y" using y by simp_all
qed

text \<open>The comparison of the logarithms. A value far from the target is on the right side whatever its
  error; near the target the error is small.\<close>

lemma f_sub_absolute:
  assumes "\<bar>x\<bar> \<le> 2 ^ 300" "\<bar>y\<bar> \<le> 2 ^ 300"
  obtains z where "f_sub (Num x) (Num y) = Num z" "\<bar>z - (x - y)\<bar> \<le> \<bar>x - y\<bar> / 10 ^ 12 + 1 / 10 ^ 12"
proof -
  obtain z where z: "f_add (Num x) (Num (- y)) = Num z" "\<bar>z - (x + - y)\<bar> \<le> \<bar>x + - y\<bar> / 2 ^ 53 + 1 / 2 ^ 100"
    using f_add_absolute [of x "- y"] assms by auto
  have "\<bar>x - y\<bar> / 2 ^ 53 \<le> \<bar>x - y\<bar> / 10 ^ 12" by (intro divide_left_mono) simp_all
  moreover have "(1::real) / 2 ^ 100 \<le> 1 / 10 ^ 12" by simp
  ultimately have "\<bar>z - (x - y)\<bar> \<le> \<bar>x - y\<bar> / 10 ^ 12 + 1 / 10 ^ 12" using z(2) by simp
  then show thesis using z(1) that by (simp add: f_sub_def)
qed

lemma small_error:
  fixes r z :: real
  assumes "\<bar>z - r\<bar> \<le> \<bar>r\<bar> / 1000000000000 + 1 / 1000000000000" "\<bar>r\<bar> \<le> 200"
  shows "\<bar>z - r\<bar> \<le> 1 / 2000000000"
proof -
  have "\<bar>r\<bar> / 1000000000000 + 1 / 1000000000000 \<le> 1 / 2000000000" using assms(2) by simp
  then show ?thesis by (rule order_trans [OF assms(1)])
qed

lemma frodo_compare:
  assumes "near 13 (Num x') x" "x' \<le> 2 ^ 300" "\<bar>y - l\<bar> \<le> 1 / 2 ^ 40" "0 \<le> l" "l \<le> 32"
  shows "f_le (f_sub (Num 1) (Num x')) (f_sub (f_neg (Num 41)) (Num y)) \<Longrightarrow> 1 - x \<le> - 41 - l + 1 / 2 ^ 22"
    and "\<not> f_le (f_sub (Num 1) (Num x')) (f_sub (f_neg (Num 41)) (Num y)) \<Longrightarrow> - 41 - l < 1 - x + 1 / 2 ^ 22"
proof -
  note n = near_within [OF assms(1), simplified]
  have y: "\<bar>y - l\<bar> \<le> 1 / 1000000000000" using assms(3) by (rule order_trans) simp
  have big: "(100::real) \<le> 2 ^ 300" by simp
  have "\<bar>x'\<bar> \<le> 2 ^ 300" using n(4) assms(2) by simp
  then obtain z where z: "f_sub (Num 1) (Num x') = Num z" "\<bar>z - (1 - x')\<bar> \<le> \<bar>1 - x'\<bar> / 1000000000000 + 1 / 1000000000000"
    by (rule f_sub_absolute [rotated, of _ 1]) (use big in simp_all)
  have "\<bar>y\<bar> \<le> 2 ^ 300" using y assms(4,5) big by linarith
  then obtain w where w: "f_sub (Num (- 41)) (Num y) = Num w" "\<bar>w - (- 41 - y)\<bar> \<le> \<bar>- 41 - y\<bar> / 1000000000000 + 1 / 1000000000000"
    by (rule f_sub_absolute [rotated, of _ "- 41"]) (use big in simp_all)
  have tgt: "\<bar>w - (- 41 - l)\<bar> \<le> 1 / 1000000000"
  proof -
    have "\<bar>- 41 - y\<bar> \<le> 200" using y assms(4,5) by linarith
    then show ?thesis using small_error [OF w(2)] y by linarith
  qed
  have slack: "1 / 10000000 \<le> (1 / 2 ^ 22 :: real)" by simp
  show "1 - x \<le> - 41 - l + 1 / 2 ^ 22" if "f_le (f_sub (Num 1) (Num x')) (f_sub (f_neg (Num 41)) (Num y))"
  proof (rule ccontr)
    assume "\<not> 1 - x \<le> - 41 - l + 1 / 2 ^ 22"
    then have "- 41 - l + 1 / 10000000 < 1 - x" using slack by linarith
    moreover from this have "x' \<le> x + 1 / 100000000" using n assms(5) by linarith
    moreover have "z \<le> w" using that z(1) w(1) by simp
    moreover from calculation have "\<bar>1 - x'\<bar> \<le> 200" using n(4) assms(5) by linarith
    note small_error [OF z(2) this]
    ultimately show False using tgt by linarith
  qed
  show "- 41 - l < 1 - x + 1 / 2 ^ 22" if "\<not> f_le (f_sub (Num 1) (Num x')) (f_sub (f_neg (Num 41)) (Num y))"
  proof -
    have "w < z" using that z(1) w(1) by simp
    have "x' \<le> 100"
    proof (rule ccontr)
      assume far: "\<not> x' \<le> 100"
      then have abs: "\<bar>1 - x'\<bar> = x' - 1" by simp
      have "z \<le> 1 - x' + (x' - 1) / 1000000000000 + 1 / 1000000000000" using z(2) unfolding abs by linarith
      then have "z \<le> - 90" using far unfolding diff_divide_distrib by linarith
      moreover have "- 74 \<le> w" using tgt assms(5) by linarith
      ultimately show False using \<open>w < z\<close> by linarith
    qed
    then have "x \<le> x' + 1 / 100000000" "\<bar>1 - x'\<bar> \<le> 200" using n(2,4) by linarith+
    then show ?thesis using small_error [OF z(2)] tgt slack \<open>w < z\<close> by linarith
  qed
qed

lemma frodo_fits_total:
  assumes "libm_accurate lm" "geometry_fits ar m bs fb vb" "1 \<le> pb" "pb \<le> 14"
  obtains b where "frodo_fits lm ar m bs fb vb pb = Some b"
    "b \<Longrightarrow> bernstein_tail m pb \<le> (1 + 1 / 2 ^ 20) * cell_budget (ar * row_cells bs fb vb pb)"
    "\<not> b \<Longrightarrow> cell_budget (ar * row_cells bs fb vb pb) < (1 + 1 / 2 ^ 20) * bernstein_tail m pb"
proof -
  let ?d = "ar * row_cells bs fb vb pb" and ?t = "lm_powi lm (Num 2) (31 - int pb)" and ?p = "lm_powi lm (Num 2) (int pb)"
  let ?T = "2 ^ (31 - pb) :: real" and ?P = "2 ^ pb :: real"
  let ?x = "?T * ?T / (4 / 3 * real m * ?P * ?P + 2 / 3 * ?P * ?T)"
  let ?v = "f_div (f_div (f_mul ?t ?t) (f_add (f_mul (f_mul (f_mul (f_div (Num 4) (Num 3)) (f_from_u32 m)) ?p) ?p)
      (f_mul (f_mul (f_div (Num 2) (Num 3)) ?p) ?t))) F_LN_2"
  note g = geometry_fitsD [OF assms(2,3)]
  have m: "0 < m" "m < 2 ^ 32" using assms(2) by (simp_all add: geometry_fits_def)
  have v: "near 13 ?v (?x / ln 2)" and s: "span 200 (?x / ln 2)"
    using frodo_exponent_near [OF assms(1) m assms(3,4)] by (simp_all add: approx_def)
  obtain x' where x': "?v = Num x'" "x' \<le> ?x / ln 2 * rel_unit ^ 13" using v by (rule nearE)
  have "?x / ln 2 * rel_unit ^ 13 \<le> 2 ^ 200 * 2"
    using s span_pos [OF s] rel_unit_le_2 [of 13] unfolding span_def by (intro mult_mono) simp_all
  also have "\<dots> \<le> (2::real) ^ 300" by simp
  finally have x'_le: "x' \<le> 2 ^ 300" using x'(2) by linarith
  obtain y where y: "lm_log2 lm (f_from_u32 ?d) = Num y" "\<bar>y - log 2 (real ?d)\<bar> \<le> 1 / 2 ^ 40"
    by (rule log2_accurate [OF assms(1) g(4,3)])
  note cmp = frodo_compare [OF v [unfolded x'(1)] x'_le y(2) log_two_bounds [OF g(4,3)]]
  let ?b = "f_le (f_sub (Num 1) (Num x')) (f_sub (f_neg (Num 41)) (Num y))"
  have k: "f_from_u32 (KAPPA + 1) = Num 41" "- real (KAPPA + 1) = - 41" by (simp_all add: f_from_u32_def KAPPA_def)
  have tail: "bernstein_tail m pb = 2 * exp (- ?x)"
    by (simp add: bernstein_tail_def Let_def power2_eq_square mult.assoc)
  have "frodo_fits lm ar m bs fb vb pb = Some ?b"
    using g y(1) unfolding frodo_fits_def Let_def x'(1) k(1) by (simp add: row_cells_def)
  moreover have "bernstein_tail m pb \<le> (1 + 1 / 2 ^ 20) * cell_budget ?d" if ?b
    unfolding tail by (rule tail_below_budget [OF g(4)], unfold k(2)) (rule cmp(1) [OF that])
  moreover have "cell_budget ?d < (1 + 1 / 2 ^ 20) * bernstein_tail m pb" if "\<not> ?b"
    unfolding tail by (rule tail_above_budget [OF g(4)], unfold k(2)) (rule cmp(2) [OF that])
  ultimately show thesis using that by blast
qed

text \<open>One bit always fits, with a margin no rounding can reach.\<close>

lemma frodo_one_bit_fits:
  assumes "geometry_fits ar m bs fb vb"
  shows "(1 + 1 / 2 ^ 20) * bernstein_tail m 1 < cell_budget (ar * row_cells bs fb vb 1)"
proof -
  let ?d = "ar * row_cells bs fb vb 1" and ?D = "4 / 3 * real m * 2 * 2 + 2 / 3 * 2 * 2 ^ 30 :: real"
  let ?x = "2 ^ 30 * 2 ^ 30 / ?D"
  note g = geometry_fitsD [OF assms order_refl]
  have "real m \<le> 2 ^ 32" using assms by (simp add: geometry_fits_def)
  then have D: "0 < ?D" "?D \<le> 2 ^ 35" by simp_all
  have "(2::real) ^ 25 * ?D \<le> 2 ^ 25 * 2 ^ 35" by (rule mult_left_mono [OF D(2)]) simp
  then have x: "(2::real) ^ 25 \<le> ?x" using D(1) by (simp add: pos_le_divide_eq)
  also have "?x \<le> ?x / ln 2" using D(1) ln_2_less_1 by (simp add: pos_le_divide_eq)
  finally have "100 \<le> ?x / ln 2" by simp
  then have "2 powr (1 - ?x / ln 2) \<le> 2 powr (- real 99)" by (intro powr_mono) simp_all
  moreover have "2 powr (1 - ?x / ln 2) = bernstein_tail m 1"
    unfolding tail_as_power by (simp add: bernstein_tail_def Let_def power2_eq_square mult.assoc)
  ultimately have "bernstein_tail m 1 \<le> 2 powr (- real 99)" by (simp only:)
  then have t: "bernstein_tail m 1 \<le> 1 / 2 ^ 99" unfolding two_powr_minus_nat .
  have "(1 + 1 / 2 ^ 20) * bernstein_tail m 1 \<le> 2 * (1 / 2 ^ 99)"
    using t by (intro mult_mono) (simp_all add: bernstein_tail_def Let_def)
  also have "\<dots> < 1 / (2 ^ (KAPPA + 1) * 2 ^ 32)" by (simp add: KAPPA_def)
  also have "\<dots> \<le> cell_budget ?d"
    unfolding cell_budget_def using g(3,4) by (intro divide_left_mono mult_left_mono) (simp_all add: of_nat_less_iff [of ?d "2 ^ 32", symmetric, where 'a = real] del: of_nat_mult)
  finally show ?thesis .
qed

lemma frodo_max_plaintext_bits_spec:
  assumes "libm_accurate lm" "geometry_fits ar m bs fb vb"
  shows "\<exists>pb. frodo_max_plaintext_bits lm ar m bs fb vb = Some pb \<and> 1 \<le> pb \<and> pb \<le> 14 \<and>
    bernstein_tail m pb \<le> (1 + 1 / 2 ^ 20) * cell_budget (ar * row_cells bs fb vb pb) \<and>
    (\<forall>k. pb < k \<and> k \<le> 14 \<longrightarrow> cell_budget (ar * row_cells bs fb vb k) < (1 + 1 / 2 ^ 20) * bernstein_tail m k)"
proof -
  let ?Q = "\<lambda>pb. frodo_fits lm ar m bs fb vb pb = Some True"
  have fits: "frodo_fits lm ar m bs fb vb k = Some (?Q k)" if "1 \<le> k" "k \<le> 14" for k
    using that by (rule frodo_fits_total [OF assms]) auto
  have "?Q 1" using frodo_one_bit_fits [OF assms(2)] by (rule_tac frodo_fits_total [OF assms, of 1]) auto
  then obtain pb where f: "List.find ?Q (rev [1..<15]) = Some pb" using find_down_exists [of ?Q 1 15] by auto
  have "scan (rev [1..<15]) (frodo_fits lm ar m bs fb vb) = Some (List.find ?Q (rev [1..<15]))"
    by (rule scan_total) (use fits in simp)
  then have r: "frodo_max_plaintext_bits lm ar m bs fb vb = Some pb"
    using assms(2) f by (simp add: frodo_max_plaintext_bits_def geometry_fits_def)
  note pb = find_down_Some [OF f]
  have "bernstein_tail m pb \<le> (1 + 1 / 2 ^ 20) * cell_budget (ar * row_cells bs fb vb pb)"
    using pb by (rule_tac frodo_fits_total [OF assms, of pb]) auto
  moreover have "cell_budget (ar * row_cells bs fb vb k) < (1 + 1 / 2 ^ 20) * bernstein_tail m k" if "pb < k" "k \<le> 14" for k
    using pb that by (rule_tac frodo_fits_total [OF assms, of k]) auto
  ultimately show ?thesis using r pb by auto
qed

section \<open>SimplePIR\<close>

text \<open>The step \<open>\<Delta>\<close> that the noise of a reshaped matrix with \<open>R\<close> rows needs.\<close>

definition required_step :: "nat \<Rightarrow> nat \<Rightarrow> real \<Rightarrow> nat \<Rightarrow> real" where
  "required_step R d sigma pb = 2 * sqrt 2 * sigma * sqrt (ln (2 / cell_budget d)) * 2 ^ pb * sqrt (real R)"

text \<open>The number of rows after reshaping at \<open>pb\<close> plaintext bits.\<close>

definition rows_at :: "nat \<Rightarrow> nat \<Rightarrow> nat \<Rightarrow> nat \<Rightarrow> nat \<Rightarrow> nat" where
  "rows_at m bs fb vb pb = div_ceil m (f64_rows_per_row m (row_cells bs fb vb pb))"

lemma reshape_at:
  assumes "geometry_fits ar m bs fb vb" "1 \<le> pb"
  shows "\<exists>k w. reshape_dims (f64_ops lm) m (row_cells bs fb vb pb) = Some (k, rows_at m bs fb vb pb, w)"
    and "0 < rows_at m bs fb vb pb" and "rows_at m bs fb vb pb < 2 ^ 32"
proof -
  let ?w = "row_cells bs fb vb pb" and ?k = "f64_rows_per_row m (row_cells bs fb vb pb)"
  note g = geometry_fitsD [OF assms]
  have m: "0 < m" "m < 2 ^ 32" and w: "0 < ?w" using assms(1) g(4) by (auto simp: geometry_fits_def)
  note k = f64_rows_per_row_bounds [OF m w g(2)]
  show "\<exists>k w. reshape_dims (f64_ops lm) m ?w = Some (k, rows_at m bs fb vb pb, w)"
    using m w k by (simp add: reshape_dims_def rows_at_def f64_ops_def Let_def)
  show "0 < rows_at m bs fb vb pb" using div_ceil_pos [OF k(1) m(1)] by (simp add: rows_at_def)
  have "m \<le> m * ?k" using k(1) by (cases ?k) simp_all
  then have "rows_at m bs fb vb pb \<le> m" using k(1) by (simp add: rows_at_def div_ceil_le_iff)
  then show "rows_at m bs fb vb pb < 2 ^ 32" using m(2) by linarith
qed

lemma log_budget_bounds:
  assumes "0 < d" "d < 2 ^ 32"
  shows "1 \<le> ln (2 / cell_budget d)" "ln (2 / cell_budget d) \<le> 74"
proof -
  note l = log_two_bounds [OF assms]
  have "1 / 2 * 42 \<le> ln 2 * (real (KAPPA + 2) + log 2 (real d))"
    using half_le_ln_2 l by (intro mult_mono) (simp_all add: KAPPA_def)
  then show "1 \<le> ln (2 / cell_budget d)" unfolding ln_two_over_budget [OF assms(1)] by simp
  have "ln 2 * (real (KAPPA + 2) + log 2 (real d)) \<le> 1 * 74"
    using ln_2_less_1 l by (intro mult_mono) (simp_all add: KAPPA_def)
  then show "ln (2 / cell_budget d) \<le> 74" unfolding ln_two_over_budget [OF assms(1)] by simp
qed

lemma log_budget_near:
  assumes "libm_accurate lm" "0 < d" "d < 2 ^ 32"
  shows "approx 4 8 (f_mul F_LN_2 (f_add (f_from_u32 (KAPPA + 2)) (lm_log2 lm (f_from_u32 d)))) (ln (2 / cell_budget d))"
proof -
  let ?l = "log 2 (real d)"
  obtain y where y: "lm_log2 lm (f_from_u32 d) = Num y" "\<bar>y - ?l\<bar> \<le> 1 / 2 ^ 40" by (rule log2_accurate [OF assms])
  note l = log_two_bounds [OF assms(2,3)]
  have one: "1 / 2 ^ 40 \<le> (1::real)" by simp
  have scale: "z * rel_unit = z + 1 / 2 ^ 40 * z" for z by (simp add: rel_unit_def distrib_left)
  have "1 / 2 ^ 40 * 1 \<le> (1 / 2 ^ 40) * (42 + ?l)" "1 / 2 ^ 40 * 1 \<le> (1 / 2 ^ 40) * (42 + y)"
    using l y(2) one by (intro mult_left_mono; linarith)+
  then have "42 + y \<le> (42 + ?l) * rel_unit" "42 + ?l \<le> (42 + y) * rel_unit"
    using y(2) unfolding scale by linarith+
  then have "near 1 (Num (42 + y)) (42 + ?l)" using l by (simp add: near_def pos_divide_le_eq)
  moreover have s: "span 7 (42 + ?l)" using l by (simp add: span_def)
  ultimately have "near 2 (f64_round (42 + y)) (42 + ?l)"
    using near_round [of 1 "42 + y" "42 + ?l"] span_in_range [OF s] by (simp add: numeral_2_eq_2)
  then have "approx 2 7 (f_add (f_from_u32 (KAPPA + 2)) (lm_log2 lm (f_from_u32 d))) (42 + ?l)"
    using s y(1) by (simp add: approx_def f_from_u32_def KAPPA_def)
  from approx_mul [OF approx_ln_2 this, of 4 8] show ?thesis
    unfolding ln_two_over_budget [OF assms(2)] by (simp add: KAPPA_def)
qed

lemma required_step_near:
  assumes "libm_accurate lm" "0 < d" "d < 2 ^ 32" "0 < R" "R < 2 ^ 32" "pb \<le> 14" "span 200 sigma"
  shows "near 13 (f_mul (f_mul (f_mul (f_mul (f_mul (Num 2) F_SQRT_2) (Num sigma))
      (f_sqrt (f_mul F_LN_2 (f_add (f_from_u32 (KAPPA + 2)) (lm_log2 lm (f_from_u32 d))))))
      (lm_powi lm (Num 2) (int pb))) (f_sqrt (f_from_u32 R)))
    (required_step R d sigma pb)"
proof -
  have c: "approx 2 2 (f_mul (Num 2) F_SQRT_2) (2 * sqrt 2)"
    by (rule approx_mul [OF approx_numeral [of 2 1] approx_sqrt_2]) simp_all
  have "approx 3 202 (f_mul (f_mul (Num 2) F_SQRT_2) (Num sigma)) (2 * sqrt 2 * sigma)"
    by (rule approx_mul [OF c approx_exact [OF assms(7)]]) simp_all
  note f = approx_mul [OF this approx_sqrt [OF log_budget_near [OF assms(1-3)], of 5], of 9 210]
  have p: "approx 1 31 (lm_powi lm (Num 2) (int pb)) (2 ^ pb)"
    using approx_powi [OF assms(1), of pb] assms(6) by (auto intro: approx_mono)
  note r = approx_sqrt [OF approx_u32 [OF assms(4,5)], of 1]
  show ?thesis
    using approx_mul [OF approx_mul [OF f p, of 11 241] r, of 13 280] unfolding required_step_def by (simp add: approx_def)
qed

lemma simple_fits_total:
  assumes "libm_accurate lm" "geometry_fits ar m bs fb vb" "1 \<le> pb" "pb \<le> 14" "span 200 sigma"
  obtains b where "simple_fits lm ar m bs fb vb (Num sigma) pb = Some b"
    "b \<Longrightarrow> required_step (rows_at m bs fb vb pb) (ar * row_cells bs fb vb pb) sigma pb \<le> (1 + 1 / 2 ^ 20) * 2 ^ (32 - pb)"
    "\<not> b \<Longrightarrow> 2 ^ (32 - pb) < (1 + 1 / 2 ^ 20) * required_step (rows_at m bs fb vb pb) (ar * row_cells bs fb vb pb) sigma pb"
proof -
  let ?d = "ar * row_cells bs fb vb pb" and ?R = "rows_at m bs fb vb pb"
  let ?need = "required_step ?R ?d sigma pb"
  let ?v = "f_mul (f_mul (f_mul (f_mul (f_mul (Num 2) F_SQRT_2) (Num sigma))
      (f_sqrt (f_mul F_LN_2 (f_add (f_from_u32 (KAPPA + 2)) (lm_log2 lm (f_from_u32 ?d))))))
      (lm_powi lm (Num 2) (int pb))) (f_sqrt (f_from_u32 ?R))"
  let ?b = "f_le ?v (lm_powi lm (Num 2) (32 - int pb))"
  note g = geometry_fitsD [OF assms(2,3)] and r = reshape_at [OF assms(2,3)]
  have n: "near 13 ?v ?need" by (rule required_step_near [OF assms(1) g(4,3) r(2,3) assms(4,5)])
  then have pos: "0 < ?need" by (rule nearE)
  have i: "32 - int pb = int (32 - pb)" using assms(4) by simp
  have step: "near 1 (lm_powi lm (Num 2) (32 - int pb)) (2 ^ (32 - pb))"
    using approx_powi [OF assms(1), of "32 - pb"] assms(3) unfolding i by (simp add: approx_def)
  have u: "rel_unit ^ (13 + 1) \<le> 1 + 1 / 2 ^ 20" using rel_unit_le [of "13 + 1"] by simp
  have "simple_fits lm ar m bs fb vb (Num sigma) pb = Some ?b"
    using g r(1) [of lm] by (auto simp: simple_fits_def Let_def row_cells_def)
  moreover have "?need \<le> (1 + 1 / 2 ^ 20) * 2 ^ (32 - pb)" if ?b
  proof -
    have "?need \<le> 2 ^ (32 - pb) * rel_unit ^ (13 + 1)" by (rule f_le_near(1) [OF n step that])
    also have "\<dots> \<le> 2 ^ (32 - pb) * (1 + 1 / 2 ^ 20)" by (rule mult_left_mono [OF u]) simp
    finally show ?thesis by (simp only: mult.commute)
  qed
  moreover have "2 ^ (32 - pb) < (1 + 1 / 2 ^ 20) * ?need" if "\<not> ?b"
  proof -
    have "2 ^ (32 - pb) < ?need * rel_unit ^ (13 + 1)" by (rule f_le_near(2) [OF n step that])
    also have "\<dots> \<le> ?need * (1 + 1 / 2 ^ 20)" using pos by (intro mult_left_mono [OF u]) simp
    finally show ?thesis by (simp only: mult.commute)
  qed
  ultimately show thesis using that by blast
qed

text \<open>Up to \<open>\<sigma> = 256\<close> one bit always fits.\<close>

lemma simple_one_bit_fits:
  assumes "0 < R" "R < 2 ^ 32" "0 < d" "d < 2 ^ 32" "0 < sigma" "sigma \<le> 256"
  shows "(1 + 1 / 2 ^ 20) * required_step R d sigma 1 < 2 ^ 31"
proof -
  have "real R \<le> real (2 ^ 32)" using assms(2) by (intro of_nat_mono) simp
  then have "sqrt (real R) \<le> sqrt (65536 ^ 2)" by (intro real_sqrt_le_mono) simp
  then have R: "sqrt (real R) \<le> 65536" by (simp only: real_sqrt_abs abs_numeral)
  have "sqrt (ln (2 / cell_budget d)) \<le> sqrt (9 ^ 2)"
    using log_budget_bounds(2) [OF assms(3,4)] by (intro real_sqrt_le_mono) simp
  then have l: "sqrt (ln (2 / cell_budget d)) \<le> 9" by (simp only: real_sqrt_abs abs_numeral)
  have "sqrt 2 \<le> sqrt (2 ^ 2 :: real)" by (intro real_sqrt_le_mono) simp
  then have s: "sqrt 2 \<le> (2 :: real)" by (simp only: real_sqrt_abs abs_numeral)
  have l0: "0 \<le> sqrt (ln (2 / cell_budget d))" using log_budget_bounds(1) [OF assms(3,4)] by simp
  have "2 * sqrt 2 * sigma \<le> 2 * 2 * 256" by (rule mult_mono) (use s assms(5,6) in simp_all)
  then have "2 * sqrt 2 * sigma * sqrt (ln (2 / cell_budget d)) \<le> 2 * 2 * 256 * 9"
    by (rule mult_mono) (use l l0 in simp_all)
  then have "2 * sqrt 2 * sigma * sqrt (ln (2 / cell_budget d)) * 2 ^ 1 \<le> 2 * 2 * 256 * 9 * 2 ^ 1" by simp
  then have "2 * sqrt 2 * sigma * sqrt (ln (2 / cell_budget d)) * 2 ^ 1 * sqrt (real R) \<le> 2 * 2 * 256 * 9 * 2 ^ 1 * 65536"
    by (rule mult_mono) (use R in simp_all)
  then show ?thesis unfolding required_step_def by simp
qed

text \<open>For \<open>\<sigma>\<close> of \<open>2\<^sup>3\<^sup>1\<close> and more nothing fits.\<close>

lemma simple_none_fits:
  assumes "0 < R" "0 < d" "d < 2 ^ 32" "2 ^ 31 \<le> sigma" "1 \<le> pb"
  shows "(1 + 1 / 2 ^ 20) * 2 ^ (32 - pb) < required_step R d sigma pb"
proof -
  have R: "1 \<le> sqrt (real R)" using assms(1) by simp
  have l: "1 \<le> sqrt (ln (2 / cell_budget d))" using log_budget_bounds(1) [OF assms(2,3)] by simp
  have s: "1 \<le> sqrt (2::real)" by simp
  have "2 * 1 * 2 ^ 31 \<le> 2 * sqrt 2 * sigma" by (rule mult_mono) (use s assms(4) in simp_all)
  then have "2 * 1 * 2 ^ 31 * 1 \<le> 2 * sqrt 2 * sigma * sqrt (ln (2 / cell_budget d))"
    by (rule mult_mono) (use l assms(4) in simp_all)
  then have "2 * 1 * 2 ^ 31 * 1 * 2 ^ 1 \<le> 2 * sqrt 2 * sigma * sqrt (ln (2 / cell_budget d)) * 2 ^ pb"
    by (rule mult_mono) (use l assms(4) power_increasing [OF assms(5), of "2::real"] in simp_all)
  then have big: "2 * 1 * 2 ^ 31 * 1 * 2 ^ 1 * 1 \<le> 2 * sqrt 2 * sigma * sqrt (ln (2 / cell_budget d)) * 2 ^ pb * sqrt (real R)"
    by (rule mult_mono) (use R l assms(4) in simp_all)
  have "(2::real) ^ (32 - pb) \<le> 2 ^ 31" using assms(5) by (intro power_increasing) simp_all
  then have "(1 + 1 / 2 ^ 20) * (2::real) ^ (32 - pb) \<le> (1 + 1 / 2 ^ 20) * 2 ^ 31" by (rule mult_left_mono) simp
  also have "\<dots> < 2 * 1 * 2 ^ 31 * 1 * 2 ^ 1 * (1::real)" by simp
  finally show ?thesis using big unfolding required_step_def by (rule less_le_trans)
qed

lemma simple_scan:
  assumes "libm_accurate lm" "geometry_fits ar m bs fb vb" "span 200 sigma"
  shows "simple_max_plaintext_bits lm ar m bs fb vb (Num sigma) =
    List.find (\<lambda>pb. simple_fits lm ar m bs fb vb (Num sigma) pb = Some True) (rev [1..<15])"
proof -
  have "simple_fits lm ar m bs fb vb (Num sigma) k = Some (simple_fits lm ar m bs fb vb (Num sigma) k = Some True)"
    if "1 \<le> k" "k \<le> 14" for k
    by (rule simple_fits_total [OF assms(1,2) that assms(3)]) auto
  then have "scan (rev [1..<15]) (simple_fits lm ar m bs fb vb (Num sigma)) =
      Some (List.find (\<lambda>pb. simple_fits lm ar m bs fb vb (Num sigma) pb = Some True) (rev [1..<15]))"
    by (intro scan_total) simp
  then show ?thesis using assms(2) span_pos [OF assms(3)] by (simp add: simple_max_plaintext_bits_def geometry_fits_def)
qed

end
