(* ===== verification/Param_Properties.thy ===== *)
theory Param_Properties
  imports Param_Select
begin

text \<open>
  What the parameter selection promises, rounding included: a plaintext width that meets the
  documented bound on the probability of a wrong cell up to a factor of \<open>1 + 2\<^sup>-\<^sup>2\<^sup>0\<close>, and such that
  every larger width misses it up to the same factor. The instances use a configuration of the paper: two
  segments of 131072 buckets of four slots, 64-bit fingerprints and 2048-bit values, and a library
  that returns correctly rounded powers and logarithms.
\<close>

definition rounded_libm :: f64_libm where
  "rounded_libm =
     \<lparr> lm_powi = (\<lambda>x n. case x of Num r \<Rightarrow> f64_round (r ^ nat n) | _ \<Rightarrow> NaN),
       lm_log2 = (\<lambda>x. case x of Num r \<Rightarrow> f64_round (log 2 r) | _ \<Rightarrow> NaN),
       lm_exp = (\<lambda>x. case x of Num r \<Rightarrow> f64_round (exp r) | _ \<Rightarrow> NaN) \<rparr>"

lemma rounded_libm_accurate: "libm_accurate rounded_libm"
proof -
  have "near 1 (f64_round (2 ^ n)) (2 ^ n)" if "n < 32" for n
  proof -
    have "1 \<le> (2::real) ^ n" "(2::real) ^ n \<le> 2 ^ 32" using that power_increasing [of n 32 "2::real"] by simp_all
    moreover have "1 / 2 ^ 300 \<le> (1::real)" "(2::real) ^ 32 \<le> 2 ^ 300" by simp_all
    ultimately have "in_range (2 ^ n)" unfolding in_range_def by linarith
    then show ?thesis using near_round [OF near_exact, of "2 ^ n"] by simp
  qed
  moreover have "\<exists>y. f64_round (log 2 x) = Num y \<and> \<bar>y - log 2 x\<bar> \<le> 1 / 2 ^ 40" if "1 \<le> x" "x < 2 ^ 32" for x
  proof -
    have "x < 2 powr 32" using that(2) by simp
    then have l: "0 \<le> log 2 x" "log 2 x \<le> 32" using that(1) by (simp_all add: log_le_iff)
    have "(32::real) \<le> 2 ^ 400" by simp
    then have "f64_round (log 2 x) = Num (nearest (log 2 x))" using l by (intro f64_round_num) linarith
    moreover have "\<bar>log 2 x\<bar> / 2 ^ 53 + 1 / 2 ^ 100 \<le> 32 / 2 ^ 53 + 1 / 2 ^ 100"
      using l by (intro add_right_mono divide_right_mono) simp_all
    then have "\<bar>nearest (log 2 x) - log 2 x\<bar> \<le> 1 / 2 ^ 40"
      using nearest_absolute [of "log 2 x"] by (rule_tac order_trans) (assumption, simp)
    ultimately show ?thesis by blast
  qed
  ultimately show ?thesis by (auto simp: libm_accurate_def rounded_libm_def)
qed

lemma paper_geometry: "geometry_fits 2 131072 4 64 2048"
  by (simp add: geometry_fits_def)

text \<open>At this geometry nine bits are far below the budget and ten and more far above.\<close>

lemma paper_nine_bits: "(1 + 1 / 2 ^ 20) * bernstein_tail 131072 9 < 1 / (2 ^ 41 * 2 ^ 32)"
proof -
  have "(2::real) \<le> exp 1" using exp_ge_add_one_self [of 1] by simp
  then have "(2::real) ^ 80 \<le> exp 1 ^ 80" by (rule power_mono) simp
  then have "2 ^ 80 \<le> exp (80::real)" by (simp add: exp_of_nat_mult [symmetric])
  then have "exp (- 80) \<le> 1 / (2::real) ^ 80" by (simp add: exp_minus inverse_eq_divide frac_le)
  moreover have "bernstein_tail 131072 9 \<le> 2 * exp (- 80)" by (simp add: bernstein_tail_def Let_def power2_eq_square)
  ultimately have t: "bernstein_tail 131072 9 \<le> 2 * (1 / 2 ^ 80)" by linarith
  have "(1 + 1 / 2 ^ 20) * bernstein_tail 131072 9 \<le> (1 + 1 / 2 ^ 20) * (2 * (1 / 2 ^ 80))"
    by (rule mult_left_mono [OF t]) simp
  also have "\<dots> < 1 / (2 ^ 41 * 2 ^ 32)" by simp
  finally show ?thesis .
qed

lemma paper_ten_bits:
  assumes "10 \<le> k" "k \<le> 14"
  shows "(1 + 1 / 2 ^ 20) / 2 ^ 41 < bernstein_tail 131072 k"
proof -
  have "exp 1 ^ 24 \<le> (3::real) ^ 24" by (rule power_mono [OF exp_le]) simp
  then have "exp 24 \<le> (3::real) ^ 24" by (simp add: exp_of_nat_mult [symmetric])
  then have "1 / 3 ^ 24 \<le> exp (- 24 :: real)" by (simp add: exp_minus inverse_eq_divide frac_le)
  moreover have "k = 10 \<or> k = 11 \<or> k = 12 \<or> k = 13 \<or> k = 14" using assms by linarith
  then have "2 * exp (- 24) \<le> bernstein_tail 131072 k"
    by (elim disjE) (simp_all add: bernstein_tail_def Let_def power2_eq_square)
  ultimately have "2 * (1 / 3 ^ 24) \<le> bernstein_tail 131072 k" by linarith
  moreover have "(1 + 1 / 2 ^ 20) / 2 ^ 41 < 2 * (1 / (3::real) ^ 24)" by simp
  ultimately show ?thesis by (rule less_le_trans [rotated])
qed

text \<open>C19. \<open>frodo_max_plaintext_bits\<close>, run in \<open>f64\<close>, returns for every geometry whose cell counts fit
  \<open>u32\<close> (its \<open>expect\<close> never fails), with a width in \<open>1..=14\<close> at which Bernstein's bound on a wrong
  cell is within \<open>1 + 2\<^sup>-\<^sup>2\<^sup>0\<close> times the per-cell budget \<open>2\<^sup>-\<^sup>4\<^sup>1 / (arity * row_width)\<close>, and for every
  larger width the budget is less than \<open>1 + 2\<^sup>-\<^sup>2\<^sup>0\<close> times the bound. The factor pays for the
  roundings: at a tie the code can be off by one in either direction.\<close>

theorem frodo_selection_is_maximal:
  assumes "libm_accurate lm" "geometry_fits ar m bs fb vb"
  shows "\<exists>pb. frodo_max_plaintext_bits lm ar m bs fb vb = Some pb \<and> 1 \<le> pb \<and> pb \<le> 14 \<and>
    bernstein_tail m pb \<le> (1 + 1 / 2 ^ 20) * (1 / (2 ^ 41 * real (ar * row_cells bs fb vb pb))) \<and>
    (\<forall>k. pb < k \<and> k \<le> 14 \<longrightarrow>
      1 / (2 ^ 41 * real (ar * row_cells bs fb vb k)) < (1 + 1 / 2 ^ 20) * bernstein_tail m k)"
  using frodo_max_plaintext_bits_spec [OF assms] by (simp add: cell_budget_def KAPPA_def)

text \<open>The paper's configuration: whatever the library's errors, nine bits.\<close>

theorem frodo_selection_is_maximal_witness: "frodo_max_plaintext_bits rounded_libm 2 131072 4 64 2048 = Some 9"
proof -
  obtain pb where pb: "frodo_max_plaintext_bits rounded_libm 2 131072 4 64 2048 = Some pb" "1 \<le> pb" "pb \<le> 14"
    "bernstein_tail 131072 pb \<le> (1 + 1 / 2 ^ 20) * (1 / (2 ^ 41 * real (2 * row_cells 4 64 2048 pb)))"
    "\<And>k. pb < k \<Longrightarrow> k \<le> 14 \<Longrightarrow>
      1 / (2 ^ 41 * real (2 * row_cells 4 64 2048 k)) < (1 + 1 / 2 ^ 20) * bernstein_tail 131072 k"
    using frodo_selection_is_maximal [OF rounded_libm_accurate paper_geometry] by blast
  have "\<not> 10 \<le> pb"
  proof
    assume "10 \<le> pb"
    have "1 \<le> 2 * row_cells 4 64 2048 pb" using geometry_fitsD(4) [OF paper_geometry pb(2)] by simp
    then have "1 \<le> real (2 * row_cells 4 64 2048 pb)" by linarith
    then have "1 / (2 ^ 41 * real (2 * row_cells 4 64 2048 pb)) \<le> 1 / (2 ^ 41 * 1)" by (intro divide_left_mono mult_left_mono) simp_all
    then have "(1 + 1 / 2 ^ 20) * (1 / (2 ^ 41 * real (2 * row_cells 4 64 2048 pb))) \<le> (1 + 1 / 2 ^ 20) * (1 / (2 ^ 41 * 1))"
      by (rule mult_left_mono) simp
    then show False using pb(4) paper_ten_bits [OF \<open>10 \<le> pb\<close> pb(3)] by simp
  qed
  moreover have "\<not> pb < 9"
  proof
    assume "pb < 9"
    note g = geometry_fitsD(3,4) [OF paper_geometry, of 9]
    have "real (2 * row_cells 4 64 2048 9) \<le> real (2 ^ 32)" using g by (intro of_nat_mono) simp
    then have "1 / (2 ^ 41 * 2 ^ 32) \<le> 1 / (2 ^ 41 * real (2 * row_cells 4 64 2048 9))"
      using g by (intro divide_left_mono mult_left_mono) simp_all
    then show False using pb(5) [OF \<open>pb < 9\<close>] paper_nine_bits by simp
  qed
  ultimately have "pb = 9" by simp
  then show ?thesis using pb(1) by simp
qed

text \<open>C20. \<open>simple_max_plaintext_bits\<close>, run in \<open>f64\<close> with the code's own reshape: for a noise width of at most
  256 it returns a width in \<open>1..=14\<close> at which the step the documented bound asks for is at most \<open>1 + 2\<^sup>-\<^sup>2\<^sup>0\<close>
  times the step \<open>2\<^sup>3\<^sup>2\<^sup>-\<^sup>p\<^sup>b\<close>, and every larger width has a step less than \<open>1 + 2\<^sup>-\<^sup>2\<^sup>0\<close> times what the bound asks
  for; for a noise width of \<open>2\<^sup>3\<^sup>1\<close> or more, finite as it may be, no plaintext width passes and the
  call panics. Widths outside \<open>2\<^sup>-\<^sup>2\<^sup>0\<^sup>0..2\<^sup>2\<^sup>0\<^sup>0\<close> are left out.\<close>

theorem simple_selection_is_maximal:
  assumes "libm_accurate lm" "geometry_fits ar m bs fb vb" "1 / 2 ^ 200 \<le> sigma" "sigma \<le> 2 ^ 200"
  shows "(sigma \<le> 256 \<longrightarrow> (\<exists>pb. simple_max_plaintext_bits lm ar m bs fb vb (Num sigma) = Some pb \<and> 1 \<le> pb \<and> pb \<le> 14 \<and>
      required_step (rows_at m bs fb vb pb) (ar * row_cells bs fb vb pb) sigma pb \<le> (1 + 1 / 2 ^ 20) * 2 ^ (32 - pb) \<and>
      (\<forall>k. pb < k \<and> k \<le> 14 \<longrightarrow>
        2 ^ (32 - k) < (1 + 1 / 2 ^ 20) * required_step (rows_at m bs fb vb k) (ar * row_cells bs fb vb k) sigma k))) \<and>
    (2 ^ 31 \<le> sigma \<longrightarrow> simple_max_plaintext_bits lm ar m bs fb vb (Num sigma) = None)"
proof -
  have span: "span 200 sigma" using assms(3,4) by (simp add: span_def)
  let ?Q = "\<lambda>pb. simple_fits lm ar m bs fb vb (Num sigma) pb = Some True"
  note scan = simple_scan [OF assms(1,2) span] and total = simple_fits_total [OF assms(1,2) _ _ span]
  note rows = reshape_at(2,3) [OF assms(2)] and cells = geometry_fitsD(3,4) [OF assms(2)]
  show ?thesis
  proof (intro conjI impI)
    assume small: "sigma \<le> 256"
    note one = simple_one_bit_fits [OF rows [OF order_refl] cells(2,1) [OF order_refl] span_pos [OF span] small]
    have "?Q 1" by (rule total [of 1]) (use one in auto)
    then obtain pb where f: "List.find ?Q (rev [1..<15]) = Some pb" using find_down_exists [of ?Q 1 15] by auto
    note pb = find_down_Some [OF f]
    have "required_step (rows_at m bs fb vb pb) (ar * row_cells bs fb vb pb) sigma pb \<le> (1 + 1 / 2 ^ 20) * 2 ^ (32 - pb)"
      by (rule total [of pb]) (use pb in auto)
    moreover have "2 ^ (32 - k) < (1 + 1 / 2 ^ 20) * required_step (rows_at m bs fb vb k) (ar * row_cells bs fb vb k) sigma k"
      if "pb < k" "k \<le> 14" for k
      by (rule total [of k]) (use pb that in auto)
    ultimately show "\<exists>pb. simple_max_plaintext_bits lm ar m bs fb vb (Num sigma) = Some pb \<and> 1 \<le> pb \<and> pb \<le> 14 \<and>
      required_step (rows_at m bs fb vb pb) (ar * row_cells bs fb vb pb) sigma pb \<le> (1 + 1 / 2 ^ 20) * 2 ^ (32 - pb) \<and>
      (\<forall>k. pb < k \<and> k \<le> 14 \<longrightarrow>
        2 ^ (32 - k) < (1 + 1 / 2 ^ 20) * required_step (rows_at m bs fb vb k) (ar * row_cells bs fb vb k) sigma k)"
      unfolding scan using f pb by auto
  next
    assume large: "2 ^ 31 \<le> sigma"
    have "\<not> ?Q k" if k: "1 \<le> k" "k \<le> 14" for k
      by (rule total [OF k]) (use simple_none_fits [OF rows(1) [OF k(1)] cells(2,1) [OF k(1)] large k(1)] in auto)
    then show "simple_max_plaintext_bits lm ar m bs fb vb (Num sigma) = None"
      unfolding scan by (intro find_down_None) simp
  qed
qed

theorem simple_selection_is_maximal_witness:
  "(\<exists>pb. simple_max_plaintext_bits rounded_libm 2 131072 4 64 2048 (Num 6.4) = Some pb \<and> 1 \<le> pb \<and> pb \<le> 14) \<and>
   simple_max_plaintext_bits rounded_libm 2 131072 4 64 2048 (Num (10 ^ 10)) = None"
proof
  show "\<exists>pb. simple_max_plaintext_bits rounded_libm 2 131072 4 64 2048 (Num 6.4) = Some pb \<and> 1 \<le> pb \<and> pb \<le> 14"
    using simple_selection_is_maximal [OF rounded_libm_accurate paper_geometry, of "6.4"] by auto
  show "simple_max_plaintext_bits rounded_libm 2 131072 4 64 2048 (Num (10 ^ 10)) = None"
    using simple_selection_is_maximal [OF rounded_libm_accurate paper_geometry, of "10 ^ 10"] by simp
qed

end
