(* ===== verification/Wire.thy ===== *)
theory Wire
  imports Server
begin

text \<open>
  The bit-packed encoding of a \<open>HintDeltaBundle\<close>, \<open>ikpir-common/src/wire.rs\<close>, specified by
  \<open>docs/hint-delta-wire-format.md\<close>: the layout derived from the table parameters, the bit writer and
  reader, the split of a row into runs, the checks of the encoder, \<open>wire_stats\<close>, \<open>encode\<close> and
  \<open>decode\<close>. Machine integers are naturals (deltas: integers); every place where the code's width
  could overflow is an assertion. \<open>?\<close> on a \<open>Result\<close> is \<open>try_res\<close>.
\<close>

section \<open>Layout\<close>

text \<open>\<open>64 - leading_zeros\<close>, and \<open>0\<close> for \<open>0\<close>.\<close>

fun bitlen :: "nat \<Rightarrow> nat" where
  "bitlen x = (if x = 0 then 0 else Suc (bitlen (x div 2)))"

declare bitlen.simps [simp del]

record delta_wire_layout =
  dl_num_buckets :: nat
  dl_segment_size :: nat
  dl_row_width :: nat
  dl_plaintext_bits :: nat
  dl_bucket_bits :: nat
  dl_offset_bits :: nat
  dl_delta_bits :: nat
  dl_max_gap :: nat

definition layout_for_params :: "cuckoo_params \<Rightarrow> delta_wire_layout" where
  "layout_for_params p =
     (let row_width = cp_bucket_size p * cp_cells_per_slot p;
          offset_bits = bitlen (row_width - 1);
          delta_bits = cp_plaintext_bits p + 1
      in \<lparr> dl_num_buckets = cp_num_buckets p, dl_segment_size = cp_segment_size p, dl_row_width = row_width,
           dl_plaintext_bits = cp_plaintext_bits p, dl_bucket_bits = bitlen (cp_num_buckets p - 1),
           dl_offset_bits = offset_bits, dl_delta_bits = delta_bits,
           dl_max_gap = (2 * offset_bits + 1) div delta_bits \<rparr>)"

definition layout_bits :: "delta_wire_layout \<Rightarrow> nat \<Rightarrow> nat \<Rightarrow> nat \<Rightarrow> nat" where
  "layout_bits L rows runs cells =
     64 + 1 + rows * (1 + dl_bucket_bits L) + runs * (2 * dl_offset_bits L + 1) + cells * dl_delta_bits L"

definition layout_bytes :: "delta_wire_layout \<Rightarrow> nat \<Rightarrow> nat \<Rightarrow> nat \<Rightarrow> nat" where
  "layout_bytes L rows runs cells = div_ceil (layout_bits L rows runs cells) 8"

record delta_wire_stats =
  ws_rows :: nat
  ws_runs :: nat
  ws_cells :: nat
  ws_nonzero_cells :: nat
  ws_bits :: nat
  ws_bytes :: nat

datatype wire_error =
    Truncated
  | BucketOutOfRange nat
  | OffsetOutOfRange nat
  | DeltaOutOfRange nat
  | NonCanonicalRows
  | NonCanonicalRuns
  | NonZeroPadding
  | TrailingBytes

section \<open>Bit writer\<close>

record bit_writer =
  bw_bytes :: "u8 list"
  bw_bit_pos :: nat

definition bw_new :: "nat \<Rightarrow> bit_writer" where
  "bw_new byte_len = \<lparr> bw_bytes = replicate byte_len 0, bw_bit_pos = 0 \<rparr>"

definition write_bits :: "nat \<Rightarrow> nat \<Rightarrow> bit_writer \<Rightarrow> bit_writer option" where
  "write_bits v width w =
     do {
       bytes \<leftarrow> fold_opt (\<lambda>j bytes.
         if odd (drop_bit j v) then do {
           let idx = bw_bit_pos w + j;
           b \<leftarrow> nth_opt bytes (idx div 8);
           upd_opt bytes (idx div 8) (b OR push_bit (idx mod 8) 1)
         }
         else Some bytes) [0..<width] (bw_bytes w);
       Some (w\<lparr> bw_bytes := bytes, bw_bit_pos := bw_bit_pos w + width \<rparr>)
     }"

definition write_bit :: "bool \<Rightarrow> bit_writer \<Rightarrow> bit_writer option" where
  "write_bit b w = write_bits (of_bool b) 1 w"

section \<open>Bit reader\<close>

record bit_reader =
  br_bytes :: "u8 list"
  br_bit_pos :: nat
  br_bit_len :: nat

definition br_new :: "u8 list \<Rightarrow> bit_reader" where
  "br_new bytes = \<lparr> br_bytes = bytes, br_bit_pos = 0, br_bit_len = length bytes * 8 \<rparr>"

definition read_bits :: "bit_reader \<Rightarrow> nat \<Rightarrow> (wire_error + nat \<times> bit_reader) option" where
  "read_bits r width =
     (if width = 0 then Some (Inr (0, r))
      else if br_bit_len r < br_bit_pos r + width then Some (Inl Truncated)
      else do {
        v \<leftarrow> fold_opt (\<lambda>j v. do {
            let idx = br_bit_pos r + j;
            b \<leftarrow> nth_opt (br_bytes r) (idx div 8);
            let bit = drop_bit (idx mod 8) b AND 1;
            Some (v OR push_bit j (unat bit))
          }) [0..<width] (0 :: nat);
        Some (Inr (v, r\<lparr> br_bit_pos := br_bit_pos r + width \<rparr>))
      })"

definition try_res :: "('e + 'a) option \<Rightarrow> ('a \<Rightarrow> ('e + 'b) option) \<Rightarrow> ('e + 'b) option" where
  "try_res m f = (case m of None \<Rightarrow> None | Some (Inl e) \<Rightarrow> Some (Inl e) | Some (Inr x) \<Rightarrow> f x)"

lemma try_res_simps [simp]:
  "try_res (Some (Inr x)) f = f x" "try_res (Some (Inl e)) f = Some (Inl e)" "try_res None f = None"
  by (simp_all add: try_res_def)

lemma try_res_cong [fundef_cong]:
  "m = m' \<Longrightarrow> (\<And>x. m' = Some (Inr x) \<Longrightarrow> f x = g x) \<Longrightarrow> try_res m f = try_res m' g"
  by (auto simp: try_res_def split: option.splits sum.splits)

lemma try_res_eq_Inr:
  "try_res m f = Some (Inr y) \<longleftrightarrow> (\<exists>x. m = Some (Inr x) \<and> f x = Some (Inr y))"
  by (auto simp: try_res_def split: option.splits sum.splits)

section \<open>Runs\<close>

text \<open>\<open>chunk_by\<close>: neighbours with a gap of at most \<open>max_gap\<close> are in one chunk. The gap is computed in
  \<open>u32\<close>, so an offset that does not ascend is a panic.\<close>

fun chunk_by_gap :: "nat \<Rightarrow> cell_deltas \<Rightarrow> cell_deltas list option" where
  "chunk_by_gap max_gap [] = Some []"
| "chunk_by_gap max_gap [x] = Some [[x]]"
| "chunk_by_gap max_gap (x # y # cells) =
     do {
       assert_opt (fst x < fst y);
       chunks \<leftarrow> chunk_by_gap max_gap (y # cells);
       (case chunks of
          [] \<Rightarrow> Some [[x]]
        | c # cs \<Rightarrow> if fst y - fst x - 1 \<le> max_gap then Some ((x # c) # cs) else Some ([x] # c # cs))
     }"

text \<open>Start, length (in \<open>u16\<close>) and cells of each run.\<close>

definition row_runs :: "cell_deltas \<Rightarrow> nat \<Rightarrow> (nat \<times> nat \<times> cell_deltas) list option" where
  "row_runs cells max_gap =
     do {
       chunks \<leftarrow> chunk_by_gap max_gap cells;
       those (map (\<lambda>part. do {
           let start = fst (hd part);
           let end_off = fst (last part);
           assert_opt (start \<le> end_off \<and> end_off - start + 1 < 2 ^ 16);
           Some (start, end_off - start + 1, part)
         }) chunks)
     }"

section \<open>Encoding\<close>

text \<open>The assertions of \<open>validate\<close>, row by row and cell by cell.\<close>

definition validate_cells :: "delta_wire_layout \<Rightarrow> int \<Rightarrow> cell_deltas \<Rightarrow> unit option" where
  "validate_cells L p_minus_1 cells =
     map_option (\<lambda>_. ()) (fold_opt (\<lambda>(offset, delta) prev_off. do {
         assert_opt (offset < dl_row_width L);
         assert_opt (case prev_off of None \<Rightarrow> True | Some po \<Rightarrow> po < offset);
         assert_opt (delta \<noteq> 0);
         assert_opt (\<bar>delta\<bar> \<le> \<bar>p_minus_1\<bar>);
         Some (Some offset)
       }) cells None)"

definition validate_rows :: "delta_wire_layout \<Rightarrow> int \<Rightarrow> row_deltas \<Rightarrow> unit option" where
  "validate_rows L p_minus_1 seg =
     map_option (\<lambda>_. ()) (fold_opt (\<lambda>(row, cells) prev_row. do {
         assert_opt (row < dl_segment_size L);
         assert_opt (case prev_row of None \<Rightarrow> True | Some pr \<Rightarrow> pr < row);
         assert_opt (cells \<noteq> []);
         validate_cells L p_minus_1 cells;
         Some (Some row)
       }) seg None)"

definition validate_bundle :: "hint_delta_bundle \<Rightarrow> delta_wire_layout \<Rightarrow> unit option" where
  "validate_bundle b L =
     do {
       assert_opt (length (hd_row_deltas b) = cp_arity (hd_params b));
       assert_opt (dl_plaintext_bits L < 63);
       let p_minus_1 = 2 ^ dl_plaintext_bits L - 1;
       fold_opt (\<lambda>seg _. validate_rows L p_minus_1 seg) (hd_row_deltas b) ()
     }"

definition wire_stats :: "hint_delta_bundle \<Rightarrow> delta_wire_stats option" where
  "wire_stats b =
     do {
       let L = layout_for_params (hd_params b);
       validate_bundle b L;
       (rows, runs, cells, nonzero_cells) \<leftarrow> fold_opt (fold_opt (\<lambda>(_, row_cells) (rows, runs, cells, nonzero_cells). do {
           rs \<leftarrow> row_runs row_cells (dl_max_gap L);
           Some (rows + 1, runs + length rs, cells + (\<Sum>(_, len, _) \<leftarrow> rs. len), nonzero_cells + length row_cells)
         })) (hd_row_deltas b) (0, 0, 0, 0);
       Some \<lparr> ws_rows = rows, ws_runs = runs, ws_cells = cells, ws_nonzero_cells = nonzero_cells,
         ws_bits = layout_bits L rows runs cells, ws_bytes = layout_bytes L rows runs cells \<rparr>
     }"

definition wire_byte_size :: "hint_delta_bundle \<Rightarrow> nat option" where
  "wire_byte_size b = map_option ws_bytes (wire_stats b)"

text \<open>The deltas of one run: the pointer \<open>idx\<close> walks the nonzero cells, the rest are zeros.\<close>

definition encode_lit :: "delta_wire_layout \<Rightarrow> int \<Rightarrow> nat \<Rightarrow> cell_deltas \<Rightarrow> nat \<Rightarrow> nat \<times> bit_writer \<Rightarrow> (nat \<times> bit_writer) option" where
  "encode_lit L p_minus_1 start part k s = (case s of (idx, w) \<Rightarrow> do {
     let offset = start + k;
     let (delta, idx') = (if idx < length part \<and> fst (part ! idx) = offset then (snd (part ! idx), idx + 1) else (0, idx));
     let code = nat ((delta + p_minus_1) mod 2 ^ 64);
     w' \<leftarrow> write_bits code (dl_delta_bits L) w;
     Some (idx', w')
   })"

definition encode_run :: "delta_wire_layout \<Rightarrow> int \<Rightarrow> nat \<times> nat \<times> cell_deltas \<Rightarrow> bit_writer \<Rightarrow> bit_writer option" where
  "encode_run L p_minus_1 run w = (case run of (start, len, part) \<Rightarrow> do {
     w1 \<leftarrow> write_bits start (dl_offset_bits L) w;
     assert_opt (1 \<le> len);
     w2 \<leftarrow> write_bits (len - 1) (dl_offset_bits L) w1;
     (_, w3) \<leftarrow> fold_opt (encode_lit L p_minus_1 start part) [0..<len] (0, w2);
     Some w3
   })"

text \<open>A flag before every run but the first.\<close>

definition encode_runs :: "delta_wire_layout \<Rightarrow> int \<Rightarrow> (nat \<times> nat \<times> cell_deltas) list \<Rightarrow> bit_writer \<Rightarrow> bit_writer option" where
  "encode_runs L p_minus_1 runs w =
     map_option snd (fold_opt (\<lambda>run (first_run, w). do {
         w' \<leftarrow> (if first_run then Some w else write_bit True w);
         w'' \<leftarrow> encode_run L p_minus_1 run w';
         Some (False, w'')
       }) runs (True, w))"

definition encode_row :: "delta_wire_layout \<Rightarrow> int \<Rightarrow> nat \<Rightarrow> nat \<times> cell_deltas \<Rightarrow> bit_writer \<Rightarrow> bit_writer option" where
  "encode_row L p_minus_1 j rc w = (case rc of (row, cells) \<Rightarrow> do {
     w1 \<leftarrow> write_bit True w;
     let bucket = j * dl_segment_size L + row;
     assert_opt (bucket < 2 ^ 32);
     w2 \<leftarrow> write_bits bucket (dl_bucket_bits L) w1;
     runs \<leftarrow> row_runs cells (dl_max_gap L);
     w3 \<leftarrow> encode_runs L p_minus_1 runs w2;
     write_bit False w3
   })"

definition encode :: "hint_delta_bundle \<Rightarrow> u8 list option" where
  "encode b =
     do {
       stats \<leftarrow> wire_stats b;
       let L = layout_for_params (hd_params b);
       let p_minus_1 = 2 ^ dl_plaintext_bits L - 1;
       w1 \<leftarrow> write_bits (hd_epoch b) 64 (bw_new (ws_bytes stats));
       w2 \<leftarrow> fold_opt (\<lambda>(j, seg). fold_opt (encode_row L p_minus_1 j) seg) (enumerate 0 (hd_row_deltas b)) w1;
       w3 \<leftarrow> write_bit False w2;
       assert_opt (length (bw_bytes w3) = ws_bytes stats);
       Some (bw_bytes w3)
     }"

section \<open>Decoding\<close>

text \<open>One delta literal of a run; the state is the reader, the current and the longest stretch of
  zeros, whether the run starts or ends with a zero, and the cells so far.\<close>

definition read_delta ::
  "delta_wire_layout \<Rightarrow> nat \<Rightarrow> nat \<Rightarrow> nat \<Rightarrow> bit_reader \<times> nat \<times> nat \<times> bool \<times> cell_deltas \<Rightarrow>
    (wire_error + bit_reader \<times> nat \<times> nat \<times> bool \<times> cell_deltas) option" where
  "read_delta L start len k s = (case s of (r, zero_run, max_zero_run, boundary_zero, cells) \<Rightarrow>
     let p = 2 ^ dl_plaintext_bits L; max_code = 2 * p - 2; p_minus_1 = int (p - 1) in
     try_res (read_bits r (dl_delta_bits L)) (\<lambda>(code, r').
       if max_code < code then Some (Inl (DeltaOutOfRange code))
       else let delta = int code - p_minus_1 in
         if delta = 0 then
           Some (Inr (r', zero_run + 1, max max_zero_run (zero_run + 1),
             boundary_zero \<or> k = 0 \<or> k = len - 1, cells))
         else let offset = start + k in
           if offset < 2 ^ 16 then Some (Inr (r', 0, max_zero_run, boundary_zero, cells @ [(offset, delta)]))
           else Some (Inl (OffsetOutOfRange offset))))"

text \<open>One run: header, checks against the previous run, deltas, checks of the zeros.\<close>

definition read_run ::
  "delta_wire_layout \<Rightarrow> nat option \<Rightarrow> bit_reader \<Rightarrow> cell_deltas \<Rightarrow> (wire_error + bit_reader \<times> nat \<times> cell_deltas) option" where
  "read_run L prev_run_end r cells =
     try_res (read_bits r (dl_offset_bits L)) (\<lambda>(start, r1).
     if dl_row_width L \<le> start then Some (Inl (OffsetOutOfRange start))
     else try_res (read_bits r1 (dl_offset_bits L)) (\<lambda>(len_minus_1, r2).
     if \<not> start + len_minus_1 + 1 < 2 ^ 32 then None
     else let len = len_minus_1 + 1; end_excl = start + len in
     if dl_row_width L < end_excl then Some (Inl (OffsetOutOfRange end_excl))
     else if (case prev_run_end of None \<Rightarrow> False
        | Some prev_end \<Rightarrow> start < prev_end \<or> start - prev_end \<le> dl_max_gap L) then Some (Inl NonCanonicalRuns)
     else try_res (fold_res (read_delta L start len) [0..<len] (r2, 0, 0, False, cells))
       (\<lambda>(r3, zero_run, max_zero_run, boundary_zero, cells').
         if boundary_zero then Some (Inl NonCanonicalRuns)
         else if dl_max_gap L < max_zero_run then Some (Inl NonCanonicalRuns)
         else Some (Inr (r3, end_excl, cells')))))"

lemma read_bits_progress:
  "read_bits r width = Some (Inr (v, r')) \<Longrightarrow>
    br_bytes r' = br_bytes r \<and> br_bit_len r' = br_bit_len r \<and> br_bit_pos r' = br_bit_pos r + width \<and>
    (width = 0 \<or> br_bit_pos r' \<le> br_bit_len r)"
  by (auto simp: read_bits_def bind_eq_Some_conv split: if_splits)

lemma read_delta_progress:
  assumes "fold_res (read_delta L start len) ks s = Some (Inr s')"
  shows "br_bit_len (fst s') = br_bit_len (fst s) \<and> br_bit_pos (fst s) \<le> br_bit_pos (fst s')"
  using assms
proof (induction ks arbitrary: s)
  case (Cons k ks)
  from Cons.prems obtain y where y: "read_delta L start len k s = Some y"
    "(case y of Inl e \<Rightarrow> Some (Inl e) | Inr s1 \<Rightarrow> fold_res (read_delta L start len) ks s1) = Some (Inr s')"
    by (auto simp: bind_eq_Some_conv)
  then obtain s1 where "y = Inr s1" by (cases y) auto
  with y have s1: "read_delta L start len k s = Some (Inr s1)" "fold_res (read_delta L start len) ks s1 = Some (Inr s')"
    by simp_all
  have "br_bit_len (fst s1) = br_bit_len (fst s) \<and> br_bit_pos (fst s) \<le> br_bit_pos (fst s1)"
    using s1(1) by (auto simp: read_delta_def Let_def try_res_eq_Inr split: prod.splits if_splits dest!: read_bits_progress)
  with Cons.IH [OF s1(2)] show ?case by simp
qed simp

lemma read_run_progress:
  "read_run L prev r cells = Some (Inr (r', e, cells')) \<Longrightarrow>
    br_bit_len r' = br_bit_len r \<and> br_bit_pos r \<le> br_bit_pos r'"
  by (auto simp: read_run_def try_res_eq_Inr Let_def split: prod.splits if_splits option.splits
      dest!: read_bits_progress read_delta_progress)

text \<open>The runs of a row: every turn reads a flag at the end, so the position advances.\<close>

function read_runs ::
  "delta_wire_layout \<Rightarrow> nat option \<Rightarrow> bit_reader \<Rightarrow> cell_deltas \<Rightarrow> (wire_error + bit_reader \<times> cell_deltas) option" where
  "read_runs L prev_run_end r cells =
     try_res (read_run L prev_run_end r cells) (\<lambda>(r1, end_excl, cells1).
     try_res (read_bits r1 1) (\<lambda>(flag, r2).
       if flag = 0 then Some (Inr (r2, cells1)) else read_runs L (Some end_excl) r2 cells1))"
  by pat_completeness auto
termination
proof (relation "measure (\<lambda>(L, prev, r, cells). br_bit_len r - br_bit_pos r)", goal_cases)
  case (2 L prev r cells x r1 y end_excl cells1 z flag r2)
  then have "br_bit_len r1 = br_bit_len r" "br_bit_pos r \<le> br_bit_pos r1" "br_bit_pos r2 = br_bit_pos r1 + 1"
    "br_bit_len r2 = br_bit_len r1" "br_bit_pos r2 \<le> br_bit_len r1"
    using read_run_progress read_bits_progress [of r1 1 flag r2] by auto
  then show ?case by simp
qed simp

declare read_runs.simps [simp del]

lemma read_runs_progress:
  "read_runs L prev r cells = Some (Inr (r', cells')) \<Longrightarrow> br_bit_len r' = br_bit_len r \<and> br_bit_pos r < br_bit_pos r'"
proof (induction L prev r cells rule: read_runs.induct)
  case (1 L prev r cells)
  from 1(2) obtain r1 e cells1 flag r2 where a: "read_run L prev r cells = Some (Inr (r1, e, cells1))"
    "read_bits r1 1 = Some (Inr (flag, r2))"
    "(if flag = 0 then Some (Inr (r2, cells1)) else read_runs L (Some e) r2 cells1) = Some (Inr (r', cells'))"
    by (subst (asm) read_runs.simps) (auto simp: try_res_eq_Inr)
  note b = read_run_progress [OF a(1)] read_bits_progress [OF a(2)]
  show ?case
  proof (cases "flag = 0")
    case True
    then show ?thesis using a(3) b by auto
  next
    case False
    then have "br_bit_len r' = br_bit_len r2 \<and> br_bit_pos r2 < br_bit_pos r'"
      using 1(1) [OF a(1) refl refl a(2) refl] a(3) by simp
    then show ?thesis using b by simp
  qed
qed

text \<open>The rows of the bundle, up to the flag \<open>0\<close>.\<close>

function read_rows ::
  "delta_wire_layout \<Rightarrow> nat option \<Rightarrow> bit_reader \<Rightarrow> row_deltas list \<Rightarrow> (wire_error + bit_reader \<times> row_deltas list) option" where
  "read_rows L prev_bucket r segs =
     try_res (read_bits r 1) (\<lambda>(flag, r1).
     if flag = 0 then Some (Inr (r1, segs))
     else try_res (read_bits r1 (dl_bucket_bits L)) (\<lambda>(bucket, r2).
     if dl_num_buckets L \<le> bucket then Some (Inl (BucketOutOfRange bucket))
     else if (case prev_bucket of None \<Rightarrow> False | Some prev \<Rightarrow> bucket \<le> prev) then Some (Inl NonCanonicalRows)
     else if dl_segment_size L = 0 then None
     else let seg = bucket div dl_segment_size L; row = bucket mod dl_segment_size L in
     try_res (read_runs L None r2 []) (\<lambda>(r3, cells).
       (case nth_opt segs seg of
          None \<Rightarrow> None
        | Some rows \<Rightarrow> read_rows L (Some bucket) r3 (segs[seg := rows @ [(row, cells)]])))))"
  by pat_completeness auto
termination
proof (relation "measure (\<lambda>(L, prev, r, segs). br_bit_len r - br_bit_pos r)", goal_cases)
  case (2 L prev r segs x flag r1 y bucket r2 seg row z r3 cells rows)
  then have "br_bit_len r1 = br_bit_len r" "br_bit_pos r1 = br_bit_pos r + 1" "br_bit_pos r1 \<le> br_bit_len r"
    "br_bit_len r2 = br_bit_len r1" "br_bit_pos r1 \<le> br_bit_pos r2" "br_bit_len r3 = br_bit_len r2" "br_bit_pos r2 < br_bit_pos r3"
    using read_bits_progress [of r 1 flag r1] read_bits_progress [of r1 "dl_bucket_bits L" bucket r2]
      read_runs_progress [of L None r2 "[]" r3 cells] by auto
  then show ?case by simp
qed simp

declare read_rows.simps [simp del]

text \<open>The padding up to the byte boundary.\<close>

definition read_padding :: "bit_reader \<Rightarrow> (wire_error + bit_reader) option" where
  "read_padding r =
     fold_res (\<lambda>_ r. try_res (read_bits r 1) (\<lambda>(b, r'). if b \<noteq> 0 then Some (Inl NonZeroPadding) else Some (Inr r')))
       [0..<(8 - br_bit_pos r mod 8) mod 8] r"

definition decode :: "u8 list \<Rightarrow> cuckoo_params \<Rightarrow> (wire_error + hint_delta_bundle) option" where
  "decode bytes p =
     (let L = layout_for_params p; arity = cp_arity p in
      if \<not> dl_plaintext_bits L < 63 then None
      else
      try_res (read_bits (br_new bytes) 64) (\<lambda>(epoch, r1).
      try_res (read_rows L None r1 (replicate arity [])) (\<lambda>(r2, segs).
      try_res (read_padding r2) (\<lambda>r3.
        if br_bit_pos r3 div 8 \<noteq> length bytes then Some (Inl TrailingBytes)
        else Some (Inr \<lparr> hd_epoch = epoch, hd_row_deltas = segs, hd_params = p \<rparr>)))))"

end
