(* ===== verification/Bit_Stream.thy ===== *)
theory Bit_Stream
  imports Wire Byte_Bits
begin

text \<open>
  The bit writer and the bit reader of \<open>ikpir-common/src/wire.rs\<close> as operations on lists of bits: the
  reader takes bits from the front of what is left of its bytes, the writer appends bits to what it
  has written, the rest of its buffer being zeros. \<open>writes f bs\<close> says that \<open>f\<close> appends \<open>bs\<close>.
\<close>

section \<open>Lists of bits\<close>

definition nat_bits :: "nat \<Rightarrow> nat \<Rightarrow> bool list" where
  "nat_bits v width = map (bit v) [0..<width]"

definition bits_val :: "bool list \<Rightarrow> nat" where
  "bits_val bs = horner_sum of_bool 2 bs"

lemma length_nat_bits [simp]: "length (nat_bits v width) = width"
  by (simp add: nat_bits_def)

lemma nat_bits_0 [simp]: "nat_bits v 0 = []"
  by (simp add: nat_bits_def)

lemma nat_bits_Suc: "nat_bits v (Suc width) = nat_bits v width @ [bit v width]"
  by (simp add: nat_bits_def)

lemma nat_bits_1: "nat_bits (of_bool b) (Suc 0) = [b]"
  by (simp add: nat_bits_def bit_0)

lemma bits_val_nat_bits [simp]: "v < 2 ^ width \<Longrightarrow> bits_val (nat_bits v width) = v"
  by (simp add: bits_val_def nat_bits_def horner_sum_bit_eq_take_bit take_bit_nat_eq_self)

lemma bit_bits_val: "bit (bits_val bs) n \<longleftrightarrow> n < length bs \<and> bs ! n"
  by (simp add: bits_val_def bit_horner_sum_bit_iff)

lemma nat_bits_bits_val [simp]: "nat_bits (bits_val bs) (length bs) = bs"
  by (rule nth_equalityI) (simp_all add: nat_bits_def bit_bits_val)

lemma bits_val_less: "bits_val bs < 2 ^ length bs"
proof -
  have "take_bit (length bs) (bits_val bs) = bits_val bs"
    by (rule bit_eqI) (auto simp: bit_take_bit_iff bit_bits_val)
  then show ?thesis by (metis take_bit_nat_less_exp)
qed

lemma bitlen_bound: "x < 2 ^ bitlen x"
proof (induction x rule: bitlen.induct)
  case (1 x)
  show ?case
  proof (cases "x = 0")
    case True
    then show ?thesis by (simp add: bitlen.simps)
  next
    case False
    with 1 have "x div 2 < 2 ^ bitlen (x div 2)" by simp
    then have "x < 2 * 2 ^ bitlen (x div 2)" by linarith
    then show ?thesis using False by (subst bitlen.simps) simp
  qed
qed

section \<open>The reader\<close>

definition br_ok :: "bit_reader \<Rightarrow> bool" where
  "br_ok r \<longleftrightarrow> br_bit_len r = 8 * length (br_bytes r) \<and> br_bit_pos r \<le> br_bit_len r"

definition left :: "bit_reader \<Rightarrow> bool list" where
  "left r = drop (br_bit_pos r) (byte_bits (br_bytes r))"

lemma length_left: "br_ok r \<Longrightarrow> length (left r) = br_bit_len r - br_bit_pos r"
  by (simp add: br_ok_def left_def)

lemma br_ok_new [simp]: "br_ok (br_new bytes)"
  by (simp add: br_ok_def br_new_def)

lemma left_new [simp]: "left (br_new bytes) = byte_bits bytes"
  by (simp add: left_def br_new_def)

lemma read_bits_loop:
  assumes "br_ok r" "br_bit_pos r + width \<le> br_bit_len r"
  shows "fold_opt (\<lambda>j v. do {
            let idx = br_bit_pos r + j;
            b \<leftarrow> nth_opt (br_bytes r) (idx div 8);
            let bit = drop_bit (idx mod 8) b AND 1;
            Some (v OR push_bit j (unat bit))
          }) [0..<width] (0 :: nat) = Some (bits_val (take width (left r)))"
proof -
  let ?P = "\<lambda>j v. v = bits_val (take j (left r))"
  obtain v where "fold_opt (\<lambda>j v. do {
            let idx = br_bit_pos r + j;
            b \<leftarrow> nth_opt (br_bytes r) (idx div 8);
            let bit = drop_bit (idx mod 8) b AND 1;
            Some (v OR push_bit j (unat bit))
          }) [0..<width] (0 :: nat) = Some v" "?P width v"
  proof (rule fold_opt_upt [where P = ?P])
    show "0 = bits_val (take 0 (left r))" by (simp add: bits_val_def)
  next
    fix j :: nat and v :: nat assume j: "j < width" and v: "v = bits_val (take j (left r))"
    let ?i = "br_bit_pos r + j"
    have i: "?i div 8 < length (br_bytes r)" "?i < 8 * length (br_bytes r)"
      using assms j by (auto simp: br_ok_def)
    have len: "j < length (left r)" using assms j by (simp add: length_left)
    have b: "left r ! j = bit (br_bytes r ! (?i div 8)) (?i mod 8)"
      using i(2) by (simp add: left_def nth_byte_bits)
    have u: "unat (drop_bit (?i mod 8) (br_bytes r ! (?i div 8)) AND 1) = of_bool (left r ! j)"
      by (simp add: b and_one_eq mod_2_eq_odd flip: bit_iff_odd_drop_bit)
    have "v OR push_bit j (of_bool (left r ! j)) = bits_val (take (Suc j) (left r))"
    proof (rule bit_eqI)
      fix m
      have "bit (push_bit j (of_bool (left r ! j) :: nat)) m \<longleftrightarrow> m = j \<and> left r ! j"
        by (auto simp: bit_push_bit_iff bit_of_bool_iff)
      then show "bit (v OR push_bit j (of_bool (left r ! j))) m \<longleftrightarrow> bit (bits_val (take (Suc j) (left r))) m"
        unfolding v using len by (auto simp: bit_or_iff bit_bits_val less_Suc_eq)
    qed
    then show "\<exists>s'. (do {
            let idx = br_bit_pos r + j;
            b \<leftarrow> nth_opt (br_bytes r) (idx div 8);
            let bit = drop_bit (idx mod 8) b AND 1;
            Some (v OR push_bit j (unat bit))
          }) = Some s' \<and> s' = bits_val (take (Suc j) (left r))"
      using i(1) by (simp add: Let_def u)
  qed
  then show ?thesis by simp
qed

text \<open>Reading takes bits from the front of what is left, or fails when there are too few.\<close>

theorem read_bits_spec:
  assumes "br_ok r"
  shows "read_bits r width =
    (if length (left r) < width then Some (Inl Truncated)
     else Some (Inr (bits_val (take width (left r)), r\<lparr> br_bit_pos := br_bit_pos r + width \<rparr>)))"
proof (cases "br_bit_pos r + width \<le> br_bit_len r")
  case True
  show ?thesis
  proof (cases "width = 0")
    case True
    then show ?thesis by (simp add: read_bits_def bits_val_def)
  next
    case False
    then show ?thesis using True assms
      by (simp only: read_bits_def read_bits_loop [OF assms True]) (auto simp: length_left)
  qed
next
  case False
  then show ?thesis using assms by (auto simp: read_bits_def length_left br_ok_def)
qed

lemma read_bits_forward:
  assumes "br_ok r" "left r = nat_bits v width @ bs" "v < 2 ^ width"
  shows "\<exists>r'. read_bits r width = Some (Inr (v, r')) \<and> br_ok r' \<and> left r' = bs"
proof -
  let ?r = "r\<lparr> br_bit_pos := br_bit_pos r + width \<rparr>"
  have "width \<le> length (left r)" using assms(2) by simp
  moreover have "left ?r = drop width (left r)" by (simp add: left_def add.commute)
  moreover have "br_ok ?r" using assms(1) calculation(1) by (auto simp: br_ok_def left_def)
  ultimately show ?thesis using assms by (simp add: read_bits_spec)
qed

lemma read_bits_backward:
  assumes "br_ok r" "read_bits r width = Some (Inr (v, r'))"
  shows "br_ok r'" "left r = nat_bits v width @ left r'" "v < 2 ^ width"
proof -
  have w: "width \<le> length (left r)" and v: "v = bits_val (take width (left r))"
    and r': "r' = r\<lparr> br_bit_pos := br_bit_pos r + width \<rparr>"
    using assms by (auto simp: read_bits_spec split: if_splits)
  show "br_ok r'" using assms(1) w by (auto simp: br_ok_def left_def r')
  have l: "left r' = drop width (left r)" by (simp add: left_def r' add.commute)
  have t: "length (take width (left r)) = width" using w by simp
  show "left r = nat_bits v width @ left r'"
    using nat_bits_bits_val [of "take width (left r)"] by (simp add: v l t del: nat_bits_bits_val length_take)
  show "v < 2 ^ width" using bits_val_less [of "take width (left r)"] by (simp add: v t del: length_take)
qed

lemma read_bits_total: "br_ok r \<Longrightarrow> \<exists>y. read_bits r width = Some y"
  by (simp add: read_bits_spec)

lemma try_res_read_bits_total:
  assumes "br_ok r" "\<And>v r'. read_bits r width = Some (Inr (v, r')) \<Longrightarrow> br_ok r' \<Longrightarrow> \<exists>y. f (v, r') = Some y"
  shows "\<exists>y. try_res (read_bits r width) f = Some y"
proof -
  obtain z where z: "read_bits r width = Some z" using read_bits_total [OF assms(1)] by blast
  show ?thesis
  proof (cases z)
    case (Inl e)
    then show ?thesis by (simp add: z)
  next
    case (Inr q)
    then show ?thesis using assms(2) [of "fst q" "snd q"] read_bits_backward(1) [OF assms(1)] z by (cases q) simp
  qed
qed

section \<open>The writer\<close>

definition bw_rep :: "bit_writer \<Rightarrow> bool list \<Rightarrow> nat \<Rightarrow> bool" where
  "bw_rep w bs n \<longleftrightarrow> byte_bits (bw_bytes w) = bs @ replicate n False \<and> bw_bit_pos w = length bs"

definition writes :: "(bit_writer \<Rightarrow> bit_writer option) \<Rightarrow> bool list \<Rightarrow> bool" where
  "writes f bs \<longleftrightarrow> (\<forall>w pre n. bw_rep w pre n \<longrightarrow> length bs \<le> n \<longrightarrow>
     (\<exists>w'. f w = Some w' \<and> bw_rep w' (pre @ bs) (n - length bs)))"

lemma writesE:
  assumes "writes f bs" "bw_rep w pre n" "length bs \<le> n"
  obtains w' where "f w = Some w'" "bw_rep w' (pre @ bs) (n - length bs)"
  using assms unfolding writes_def by blast

lemma bw_rep_new: "bw_rep (bw_new n) [] (8 * n)"
  by (auto simp: bw_rep_def bw_new_def byte_bits_def intro!: nth_equalityI)

lemma byte_bits_set:
  assumes "i < 8 * length bytes"
  shows "byte_bits (bytes[i div 8 := bytes ! (i div 8) OR push_bit (i mod 8) 1]) = (byte_bits bytes)[i := True]"
proof (rule nth_equalityI)
  fix j assume "j < length (byte_bits (bytes[i div 8 := bytes ! (i div 8) OR push_bit (i mod 8) 1]))"
  then have j: "j < 8 * length bytes" by simp
  have "j = i \<longleftrightarrow> j div 8 = i div 8 \<and> j mod 8 = i mod 8" by (metis div_mult_mod_eq)
  moreover have "i div 8 < length bytes" using assms by auto
  ultimately show "byte_bits (bytes[i div 8 := bytes ! (i div 8) OR push_bit (i mod 8) 1]) ! j = (byte_bits bytes)[i := True] ! j"
    using j by (auto simp: nth_byte_bits nth_list_update bit_or_iff bit_exp_iff)
qed simp

lemma write_bits_writes: "writes (write_bits v width) (nat_bits v width)"
proof -
  have "\<exists>w'. write_bits v width w = Some w' \<and> bw_rep w' (pre @ nat_bits v width) (n - width)"
    if rep: "bw_rep w pre n" and n: "width \<le> n" for w pre n
  proof -
    let ?f = "\<lambda>j bytes. if odd (drop_bit j v) then do {
           let idx = bw_bit_pos w + j;
           b \<leftarrow> nth_opt bytes (idx div 8);
           upd_opt bytes (idx div 8) (b OR push_bit (idx mod 8) 1)
         }
         else Some bytes"
    let ?P = "\<lambda>j bytes. byte_bits bytes = pre @ nat_bits v j @ replicate (n - j) False"
    obtain bytes where bytes: "fold_opt ?f [0..<width] (bw_bytes w) = Some bytes" "?P width bytes"
    proof (rule fold_opt_upt [where P = ?P])
      show "?P 0 (bw_bytes w)" using rep by (simp add: bw_rep_def)
    next
      fix j bytes assume j: "j < width" and P: "?P j bytes"
      have pos: "bw_bit_pos w = length pre" using rep by (simp add: bw_rep_def)
      have "n - j = Suc (n - Suc j)" using j n by simp
      then have split: "byte_bits bytes = (pre @ nat_bits v j) @ False # replicate (n - Suc j) False"
        using P by simp
      have len: "length pre + j < 8 * length bytes" using arg_cong [OF split, of length] by simp
      show "\<exists>s'. ?f j bytes = Some s' \<and> ?P (Suc j) s'"
      proof (cases "odd (drop_bit j v)")
        case True
        let ?i = "length pre + j"
        have "byte_bits (bytes[?i div 8 := bytes ! (?i div 8) OR push_bit (?i mod 8) 1]) =
            ((pre @ nat_bits v j) @ False # replicate (n - Suc j) False)[?i := True]"
          unfolding byte_bits_set [OF len] split ..
        also have "\<dots> = pre @ nat_bits v (Suc j) @ replicate (n - Suc j) False"
          using True by (simp add: list_update_append nat_bits_Suc bit_iff_odd_drop_bit)
        finally show ?thesis using True len by (simp add: pos Let_def less_mult_imp_div_less mult.commute)
      next
        case False
        then show ?thesis using split by (simp add: nat_bits_Suc bit_iff_odd_drop_bit)
      qed
    qed
    have "bw_rep (w\<lparr> bw_bytes := bytes, bw_bit_pos := bw_bit_pos w + width \<rparr>) (pre @ nat_bits v width) (n - width)"
      using bytes(2) rep by (simp add: bw_rep_def)
    moreover have "write_bits v width w = Some (w\<lparr> bw_bytes := bytes, bw_bit_pos := bw_bit_pos w + width \<rparr>)"
      unfolding write_bits_def bytes(1) by simp
    ultimately show ?thesis by blast
  qed
  then show ?thesis by (simp add: writes_def)
qed

lemma write_bit_writes: "writes (write_bit b) [b]"
  using write_bits_writes [of "of_bool b" 1] by (simp add: writes_def write_bit_def nat_bits_1)

lemma writes_bind:
  assumes "writes f a" "writes g b"
  shows "writes (\<lambda>w. f w \<bind> g) (a @ b)"
  unfolding writes_def
proof (intro allI impI)
  fix w pre n assume rep: "bw_rep w pre n" and n: "length (a @ b) \<le> n"
  then obtain w1 where w1: "f w = Some w1" "bw_rep w1 (pre @ a) (n - length a)"
    using writesE [OF assms(1) rep] by auto
  have "length b \<le> n - length a" using n by simp
  then obtain w2 where "g w1 = Some w2" "bw_rep w2 ((pre @ a) @ b) (n - length a - length b)"
    using writesE [OF assms(2) w1(2)] by blast
  then show "\<exists>w'. f w \<bind> g = Some w' \<and> bw_rep w' (pre @ a @ b) (n - length (a @ b))"
    using w1 by simp
qed

lemma writes_Some: "writes Some []"
  by (simp add: writes_def)

lemma writes_fold:
  assumes "\<And>x. x \<in> set xs \<Longrightarrow> writes (f x) (b x)"
  shows "writes (fold_opt f xs) (concat (map b xs))"
  using assms
proof (induction xs)
  case Nil
  then show ?case by (simp add: writes_def)
next
  case (Cons x xs)
  then show ?case using writes_bind [of "f x" "b x" "fold_opt f xs" "concat (map b xs)"] by simp
qed

end
