(* ===== verification/Wire_Runs.thy ===== *)
theory Wire_Runs
  imports Bit_Stream
begin

text \<open>
  The runs of a row on the wire: \<open>chunk_by_gap\<close> computes the only split of the cells into runs, a run
  is its start, its length and a literal list of deltas with the zeros inside, and writing and reading
  that list are inverse. The reader's bookkeeping of zeros is shown to accept exactly the runs the
  encoder builds.
\<close>

section \<open>Splitting a row into runs\<close>

definition gaps_ok :: "nat \<Rightarrow> cell_deltas \<Rightarrow> bool" where
  "gaps_ok G c \<longleftrightarrow> successively (\<lambda>a b. fst a < fst b \<and> fst b - fst a - 1 \<le> G) c"

definition chunking :: "nat \<Rightarrow> cell_deltas list \<Rightarrow> bool" where
  "chunking G cs \<longleftrightarrow> (\<forall>c \<in> set cs. c \<noteq> [] \<and> gaps_ok G c) \<and>
     successively (\<lambda>a b. fst (last a) + 1 + G < fst (hd b)) cs"

definition run_of :: "cell_deltas \<Rightarrow> nat \<times> nat \<times> cell_deltas" where
  "run_of c = (fst (hd c), fst (last c) - fst (hd c) + 1, c)"

lemma gaps_ok_Nil [simp]: "gaps_ok G []"
  by (simp add: gaps_ok_def)

lemma gaps_ok_Cons:
  "gaps_ok G (x # c) \<longleftrightarrow> c = [] \<or> fst x < fst (hd c) \<and> fst (hd c) - fst x - 1 \<le> G \<and> gaps_ok G c"
  by (simp add: gaps_ok_def successively_Cons)

lemma chunking_Nil [simp]: "chunking G []"
  by (simp add: chunking_def)

lemma chunking_Cons:
  "chunking G (c # cs) \<longleftrightarrow> c \<noteq> [] \<and> gaps_ok G c \<and> chunking G cs \<and>
     (cs = [] \<or> fst (last c) + 1 + G < fst (hd (hd cs)))"
  by (auto simp: chunking_def successively_Cons)

lemma gaps_ok_hd_le: "gaps_ok G c \<Longrightarrow> x \<in> set c \<Longrightarrow> fst (hd c) \<le> fst x"
  by (induction c arbitrary: x) (fastforce simp: gaps_ok_Cons)+

lemma gaps_ok_hd_last: "gaps_ok G c \<Longrightarrow> c \<noteq> [] \<Longrightarrow> fst (hd c) \<le> fst (last c)"
  by (rule gaps_ok_hd_le) auto

lemma gaps_ok_last_ge: "gaps_ok G c \<Longrightarrow> x \<in> set c \<Longrightarrow> fst x \<le> fst (last c)"
proof (induction c)
  case (Cons y c)
  then show ?case using gaps_ok_hd_last [of G c] by (cases "c = []") (auto simp: gaps_ok_Cons)
qed simp

lemma chunk_by_gap_Cons:
  assumes "fst x < fst y" "chunk_by_gap G (y # cells) = Some (c # cs)"
  shows "chunk_by_gap G (x # y # cells) =
    Some (if fst y - fst x - 1 \<le> G then (x # c) # cs else [x] # c # cs)"
  using assms by simp

text \<open>Any split with these laws is the one computed.\<close>

lemma chunk_by_gap_unique:
  assumes "chunking G cs"
  shows "chunk_by_gap G (concat cs) = Some cs"
  using assms
proof (induction cs)
  case (Cons c cs)
  have c: "c \<noteq> []" "gaps_ok G c" and cs: "chunking G cs" and nxt: "cs = [] \<or> fst (last c) + 1 + G < fst (hd (hd cs))"
    using Cons.prems by (simp_all add: chunking_Cons)
  have IH: "chunk_by_gap G (concat cs) = Some cs" using Cons.IH [OF cs] .
  have "c \<noteq> [] \<Longrightarrow> gaps_ok G c \<Longrightarrow> cs = [] \<or> fst (last c) + 1 + G < fst (hd (hd cs)) \<Longrightarrow>
      chunk_by_gap G (c @ concat cs) = Some (c # cs)"
  proof (induction c)
    case (Cons x c)
    show ?case
    proof (cases c)
      case Nil
      show ?thesis
      proof (cases cs)
        case Nil
        then show ?thesis using \<open>c = []\<close> by simp
      next
        case (Cons c' cs')
        then have ne: "c' \<noteq> []" using cs by (simp add: chunking_Cons)
        then obtain y d where y: "c' = y # d" by (cases c') auto
        have lt: "fst x + 1 + G < fst y" using Cons.prems(3) \<open>c = []\<close> Cons y by simp
        have "chunk_by_gap G (x # y # (d @ concat cs')) =
            Some (if fst y - fst x - 1 \<le> G then (x # c') # cs' else [x] # c' # cs')"
          using IH lt Cons y by (intro chunk_by_gap_Cons) simp_all
        moreover have "\<not> fst y - fst x - 1 \<le> G" using lt by simp
        ultimately show ?thesis using \<open>c = []\<close> Cons y by simp
      qed
    next
      case (Cons y d)
      have a: "fst x < fst y" "fst y - fst x - 1 \<le> G" "gaps_ok G c"
        using Cons.prems(2) Cons by (simp_all add: gaps_ok_Cons)
      have "chunk_by_gap G (c @ concat cs) = Some (c # cs)"
        using Cons.IH [OF _ a(3)] Cons.prems(3) Cons by simp
      then have "chunk_by_gap G (x # y # (d @ concat cs)) =
            Some (if fst y - fst x - 1 \<le> G then (x # c) # cs else [x] # c # cs)"
        using a(1) Cons by (intro chunk_by_gap_Cons) simp_all
      then show ?thesis using a(2) Cons by simp
    qed
  qed simp
  then show ?case using c nxt by simp
qed simp

text \<open>Ascending cells have such a split.\<close>

lemma chunking_exists:
  assumes "successively (\<lambda>a b. fst a < fst b) cells"
  shows "\<exists>cs. chunking G cs \<and> concat cs = cells"
  using assms
proof (induction cells)
  case Nil
  then show ?case by (intro exI [of _ "[]"]) simp
next
  case (Cons x cells)
  then obtain cs where cs: "chunking G cs" "concat cs = cells" by (auto simp: successively_Cons)
  show ?case
  proof (cases cs)
    case Nil
    then show ?thesis using cs by (intro exI [of _ "[[x]]"]) (auto simp: chunking_Cons gaps_ok_Cons)
  next
    case c: (Cons c cs')
    then have ne: "c \<noteq> []" "gaps_ok G c" using cs by (simp_all add: chunking_Cons)
    then have lt: "fst x < fst (hd c)" using Cons.prems cs(2) c by (auto simp: successively_Cons)
    show ?thesis
    proof (cases "fst (hd c) - fst x - 1 \<le> G")
      case True
      then have "chunking G ((x # c) # cs')" using cs(1) c ne lt by (auto simp: chunking_Cons gaps_ok_Cons)
      then show ?thesis using cs(2) c by (intro exI [of _ "(x # c) # cs'"]) simp
    next
      case False
      then have "chunking G ([x] # c # cs')" using cs(1) c lt by (auto simp: chunking_Cons gaps_ok_Cons)
      then show ?thesis using cs(2) c by (intro exI [of _ "[x] # c # cs'"]) simp
    qed
  qed
qed

lemma those_map_Some: "(\<And>x. x \<in> set xs \<Longrightarrow> f x = Some (g x)) \<Longrightarrow> those (map f xs) = Some (map g xs)"
  by (induction xs) simp_all

lemma row_runs_chunking:
  assumes "chunking G cs" "\<And>x. x \<in> set (concat cs) \<Longrightarrow> fst x + 1 < 2 ^ 16"
  shows "row_runs (concat cs) G = Some (map run_of cs)"
proof -
  have "fst (hd c) \<le> fst (last c) \<and> fst (last c) - fst (hd c) + 1 < 2 ^ 16" if "c \<in> set cs" for c
  proof -
    have "c \<noteq> []" "gaps_ok G c" using assms(1) that by (auto simp: chunking_def)
    moreover have "last c \<in> set (concat cs)" using that last_in_set [OF calculation(1)] by auto
    then have "fst (last c) + 1 < 2 ^ 16" by (rule assms(2))
    ultimately show ?thesis using gaps_ok_hd_last [of G c] by simp
  qed
  then have "those (map (\<lambda>part. do {
           let start = fst (hd part);
           let end_off = fst (last part);
           assert_opt (start \<le> end_off \<and> end_off - start + 1 < 2 ^ 16);
           Some (start, end_off - start + 1, part)
         }) cs) = Some (map run_of cs)"
    by (intro those_map_Some) (simp add: run_of_def Let_def)
  then show ?thesis by (simp add: row_runs_def chunk_by_gap_unique [OF assms(1)])
qed

section \<open>The deltas of a run as literals\<close>

fun lits :: "nat \<Rightarrow> cell_deltas \<Rightarrow> int list" where
  "lits off [] = []"
| "lits off ((f, d) # c) = replicate (f - off) 0 @ d # lits (f + 1) c"

fun cells_of :: "nat \<Rightarrow> int list \<Rightarrow> cell_deltas" where
  "cells_of off [] = []"
| "cells_of off (d # ds) = (if d = 0 then cells_of (off + 1) ds else (off, d) # cells_of (off + 1) ds)"

lemma lits_step:
  assumes "off \<le> f"
  shows "lits off ((f, d) # c) = (if f = off then d # lits (off + 1) c else 0 # lits (off + 1) ((f, d) # c))"
proof -
  have "f \<noteq> off \<Longrightarrow> f - off = Suc (f - Suc off)" using assms by simp
  then show ?thesis by simp
qed

lemma cells_of_zeros: "cells_of off (replicate n 0 @ ds) = cells_of (off + n) ds"
  by (induction n arbitrary: off) simp_all

lemma cells_of_lits:
  assumes "gaps_ok G c" "\<And>x. x \<in> set c \<Longrightarrow> off \<le> fst x \<and> snd x \<noteq> 0"
  shows "cells_of off (lits off c) = c"
  using assms
proof (induction c arbitrary: off)
  case (Cons x c)
  obtain f d where x: "x = (f, d)" by (cases x)
  have "gaps_ok G c" using Cons.prems(1) by (auto simp: gaps_ok_Cons)
  moreover have "f + 1 \<le> fst y \<and> snd y \<noteq> 0" if "y \<in> set c" for y
  proof -
    have "fst (hd c) \<le> fst y" using gaps_ok_hd_le [OF calculation that] .
    moreover have "f < fst (hd c)" using Cons.prems(1) that by (auto simp: gaps_ok_Cons x)
    ultimately show ?thesis using Cons.prems(2) that by simp
  qed
  ultimately have "cells_of (f + 1) (lits (f + 1) c) = c" by (rule Cons.IH)
  moreover have "off \<le> f" "d \<noteq> 0" using Cons.prems(2) [of x] by (simp_all add: x)
  ultimately show ?case by (simp add: x cells_of_zeros)
qed simp

lemma cells_of_bounds: "x \<in> set (cells_of off ds) \<Longrightarrow> off \<le> fst x \<and> fst x < off + length ds \<and> snd x \<noteq> 0 \<and> snd x \<in> set ds"
proof (induction ds arbitrary: off)
  case (Cons d ds)
  show ?case
  proof (cases "x = (off, d) \<and> d \<noteq> 0")
    case False
    then have "x \<in> set (cells_of (off + 1) ds)" using Cons.prems by (auto split: if_splits)
    then show ?thesis using Cons.IH [of "off + 1"] by simp
  qed simp
qed simp

lemma cells_of_Nil_iff: "cells_of off ds = [] \<longleftrightarrow> (\<forall>d \<in> set ds. d = 0)"
  by (induction ds arbitrary: off) simp_all

lemma lits_cells_of:
  assumes "ds = [] \<or> last ds \<noteq> 0"
  shows "lits off (cells_of off ds) = ds"
  using assms
proof (induction ds arbitrary: off)
  case (Cons d ds)
  have IH: "lits (off + 1) (cells_of (off + 1) ds) = ds"
    using Cons.prems by (intro Cons.IH) (auto split: if_splits)
  show ?case
  proof (cases "d = 0")
    case False
    then show ?thesis using IH by simp
  next
    case True
    then have "ds \<noteq> []" "last ds \<noteq> 0" using Cons.prems by (auto split: if_splits)
    then have "cells_of (off + 1) ds \<noteq> []" using cells_of_Nil_iff [of "off + 1" ds] by auto
    then obtain f e c where fe: "cells_of (off + 1) ds = (f, e) # c" by (cases "cells_of (off + 1) ds") auto
    then have "off + 1 \<le> f" using cells_of_bounds [of "(f, e)" "off + 1" ds] by simp
    then show ?thesis using IH True fe lits_step [of off f e c] by simp
  qed
qed simp

lemma length_lits:
  assumes "gaps_ok G c" "c \<noteq> []" "off \<le> fst (hd c)"
  shows "length (lits off c) = fst (last c) + 1 - off"
  using assms
proof (induction c arbitrary: off)
  case (Cons x c)
  obtain f d where x: "x = (f, d)" by (cases x)
  show ?case
  proof (cases "c = []")
    case True
    then show ?thesis using Cons.prems by (simp add: x)
  next
    case False
    then have g: "gaps_ok G c" "f + 1 \<le> fst (hd c)" using Cons.prems(1) by (auto simp: gaps_ok_Cons x)
    have "length (lits (f + 1) c) = fst (last c) + 1 - (f + 1)" using Cons.IH [OF g(1) False g(2)] .
    moreover have "fst (hd c) \<le> fst (last c)" using gaps_ok_hd_last [OF g(1) False] .
    ultimately show ?thesis using Cons.prems(3) g(2) False by (simp add: x)
  qed
qed simp

lemma set_lits: "d \<in> set (lits off c) \<Longrightarrow> d = 0 \<or> d \<in> snd ` set c"
  by (induction off c rule: lits.induct) (auto simp: image_iff)

lemma hd_lits: "c \<noteq> [] \<Longrightarrow> hd (lits (fst (hd c)) c) = snd (hd c)"
  by (cases c rule: list.exhaust; cases "hd c") auto

lemma lits_Nil_iff [simp]: "lits off c = [] \<longleftrightarrow> c = []"
  by (cases "(off, c)" rule: lits.cases) auto

lemma last_lits: "c \<noteq> [] \<Longrightarrow> last (lits off c) = snd (last c)"
  by (induction off c rule: lits.induct) auto

section \<open>The reader's bookkeeping of zeros\<close>

primrec scan_lits :: "nat \<Rightarrow> nat \<Rightarrow> nat \<Rightarrow> int list \<Rightarrow> nat \<times> nat \<times> bool \<times> cell_deltas \<Rightarrow> nat \<times> nat \<times> bool \<times> cell_deltas" where
  "scan_lits start len k [] st = st"
| "scan_lits start len k (d # ds) st = (case st of (z, m, b, cells) \<Rightarrow>
     scan_lits start len (k + 1) ds
       (if d = 0 then (z + 1, max m (z + 1), b \<or> k = 0 \<or> k = len - 1, cells) else (0, m, b, cells @ [(start + k, d)])))"

fun zeros_ok :: "nat \<Rightarrow> nat \<Rightarrow> int list \<Rightarrow> bool" where
  "zeros_ok G z [] \<longleftrightarrow> True"
| "zeros_ok G z (d # ds) \<longleftrightarrow> (if d = 0 then z + 1 \<le> G \<and> zeros_ok G (z + 1) ds else zeros_ok G 0 ds)"

lemma scan_lits_result:
  "\<exists>z' m' b'. scan_lits start len k ds (z, m, b, cells) = (z', m', b', cells @ cells_of (start + k) ds) \<and>
     (m' \<le> G \<longleftrightarrow> m \<le> G \<and> zeros_ok G z ds) \<and>
     (b' \<longleftrightarrow> b \<or> (\<exists>i < length ds. ds ! i = 0 \<and> (k + i = 0 \<or> k + i = len - 1)))"
proof (induction ds arbitrary: k z m b cells)
  case (Cons d ds)
  have ex: "(\<exists>i < length (d # ds). (d # ds) ! i = 0 \<and> (k + i = 0 \<or> k + i = len - 1)) \<longleftrightarrow>
      (d = 0 \<and> (k = 0 \<or> k = len - 1)) \<or> (\<exists>i < length ds. ds ! i = 0 \<and> (k + 1 + i = 0 \<or> k + 1 + i = len - 1))"
    by (subst length_Cons, subst Ex_less_Suc2) auto
  show ?case
  proof (cases "d = 0")
    case True
    obtain z' m' b' where "scan_lits start len (k + 1) ds (z + 1, max m (z + 1), b \<or> k = 0 \<or> k = len - 1, cells) =
        (z', m', b', cells @ cells_of (start + (k + 1)) ds)" "m' \<le> G \<longleftrightarrow> max m (z + 1) \<le> G \<and> zeros_ok G (z + 1) ds"
      "b' \<longleftrightarrow> (b \<or> k = 0 \<or> k = len - 1) \<or> (\<exists>i < length ds. ds ! i = 0 \<and> (k + 1 + i = 0 \<or> k + 1 + i = len - 1))"
      using Cons.IH [of "k + 1" "z + 1" "max m (z + 1)" "b \<or> k = 0 \<or> k = len - 1" cells] by blast
    then show ?thesis unfolding ex using True by auto
  next
    case False
    obtain z' m' b' where "scan_lits start len (k + 1) ds (0, m, b, cells @ [(start + k, d)]) =
        (z', m', b', (cells @ [(start + k, d)]) @ cells_of (start + (k + 1)) ds)" "m' \<le> G \<longleftrightarrow> m \<le> G \<and> zeros_ok G 0 ds"
      "b' \<longleftrightarrow> b \<or> (\<exists>i < length ds. ds ! i = 0 \<and> (k + 1 + i = 0 \<or> k + 1 + i = len - 1))"
      using Cons.IH [of "k + 1" 0 m b "cells @ [(start + k, d)]"] by blast
    then show ?thesis unfolding ex using False by simp
  qed
qed simp

text \<open>No stretch of zeros is longer than \<open>G\<close> exactly when no gap between neighbours is.\<close>

lemma zeros_ok_gaps:
  assumes "ds = [] \<or> last ds \<noteq> 0" "z \<le> G" "fst a + z + 1 = off"
  shows "zeros_ok G z ds \<longleftrightarrow> gaps_ok G (a # cells_of off ds)"
  using assms
proof (induction ds arbitrary: z a off)
  case (Cons d ds)
  have ds: "ds = [] \<or> last ds \<noteq> 0" using Cons.prems(1) by (auto split: if_splits)
  show ?case
  proof (cases "d = 0")
    case False
    have "zeros_ok G 0 ds \<longleftrightarrow> gaps_ok G ((off, d) # cells_of (off + 1) ds)"
      by (rule Cons.IH [OF ds]) simp_all
    moreover have "fst a < off" "off - fst a - 1 \<le> G" using Cons.prems(2,3) by simp_all
    ultimately show ?thesis using False by (simp add: gaps_ok_Cons [of G a])
  next
    case True
    then have ne: "ds \<noteq> []" "last ds \<noteq> 0" using Cons.prems(1) by (auto split: if_splits)
    show ?thesis
    proof (cases "z + 1 \<le> G")
      case True
      have "zeros_ok G (z + 1) ds \<longleftrightarrow> gaps_ok G (a # cells_of (off + 1) ds)"
        by (rule Cons.IH [OF ds True]) (use Cons.prems(3) in simp)
      then show ?thesis using True \<open>d = 0\<close> by simp
    next
      case False
      have "cells_of (off + 1) ds \<noteq> []" using ne cells_of_Nil_iff [of "off + 1" ds] by auto
      then obtain x c where x: "cells_of (off + 1) ds = x # c" by (cases "cells_of (off + 1) ds") auto
      then have "off + 1 \<le> fst x" using cells_of_bounds [of x "off + 1" ds] by simp
      then have "\<not> fst x - fst a - 1 \<le> G" using False Cons.prems(3) by linarith
      then have "\<not> gaps_ok G (a # x # c)" by (simp add: gaps_ok_Cons)
      then show ?thesis using False \<open>d = 0\<close> x by simp
    qed
  qed
qed (simp add: gaps_ok_Cons)

lemma zeros_ok_run:
  assumes "ds \<noteq> []" "hd ds \<noteq> 0" "last ds \<noteq> 0"
  shows "zeros_ok G 0 ds \<longleftrightarrow> gaps_ok G (cells_of off ds)"
proof -
  obtain d ds' where ds: "ds = d # ds'" using assms(1) by (cases ds) auto
  have "zeros_ok G 0 ds' \<longleftrightarrow> gaps_ok G ((off, d) # cells_of (off + 1) ds')"
    by (rule zeros_ok_gaps) (use assms(3) in \<open>auto simp: ds split: if_splits\<close>)
  then show ?thesis using assms(2) by (simp add: ds)
qed

lemma cells_of_ends:
  assumes "ds \<noteq> []" "hd ds \<noteq> 0" "last ds \<noteq> 0"
  shows "cells_of off ds \<noteq> []" "fst (hd (cells_of off ds)) = off" "fst (last (cells_of off ds)) + 1 = off + length ds"
proof -
  show "cells_of off ds \<noteq> []" using assms by (cases ds) auto
  show "fst (hd (cells_of off ds)) = off" using assms by (cases ds) auto
  have "ds \<noteq> [] \<Longrightarrow> last ds \<noteq> 0 \<Longrightarrow> fst (last (cells_of off ds)) + 1 = off + length ds" for off
  proof (induction ds arbitrary: off)
    case (Cons d ds)
    show ?case
    proof (cases "ds = []")
      case False
      then have "fst (last (cells_of (off + 1) ds)) + 1 = off + 1 + length ds" "cells_of (off + 1) ds \<noteq> []"
        using Cons cells_of_Nil_iff [of "off + 1" ds] by auto
      then show ?thesis by simp
    qed (use Cons.prems in simp)
  qed simp
  then show "fst (last (cells_of off ds)) + 1 = off + length ds" using assms by simp
qed

end
