(* ===== verification/Wire_Correct.thy ===== *)
theory Wire_Correct
  imports Wire_Runs
begin

text \<open>
  Writing and reading a run, the runs of a row, the rows of a bundle and the bundle, each with the
  bits it stands for. Forwards: reading the bits of a canonical object returns it. Backwards: a
  successful read saw the bits of the canonical object it returns. Together the wire format is a
  bijection between the bundles the encoder accepts and the byte strings the decoder accepts.
\<close>

section \<open>The deltas of a run\<close>

definition p_max :: "delta_wire_layout \<Rightarrow> int" where
  "p_max L = 2 ^ dl_plaintext_bits L - 1"

definition wire_layout :: "delta_wire_layout \<Rightarrow> bool" where
  "wire_layout L \<longleftrightarrow> dl_delta_bits L = dl_plaintext_bits L + 1 \<and> dl_plaintext_bits L < 63 \<and>
     dl_row_width L < 2 ^ 16 \<and> dl_row_width L \<le> 2 ^ dl_offset_bits L \<and> dl_offset_bits L \<le> 16 \<and>
     dl_num_buckets L \<le> 2 ^ dl_bucket_bits L \<and> dl_num_buckets L < 2 ^ 32 \<and> 0 < dl_segment_size L"

definition lit_bits :: "delta_wire_layout \<Rightarrow> int list \<Rightarrow> bool list" where
  "lit_bits L ds = concat (map (\<lambda>d. nat_bits (nat (d + p_max L)) (dl_delta_bits L)) ds)"

lemma lit_bits_simps [simp]:
  "lit_bits L [] = []" "lit_bits L (d # ds) = nat_bits (nat (d + p_max L)) (dl_delta_bits L) @ lit_bits L ds"
  by (simp_all add: lit_bits_def)

lemma length_lit_bits [simp]: "length (lit_bits L ds) = length ds * dl_delta_bits L"
  by (induction ds) simp_all

lemma p_max_bound: "wire_layout L \<Longrightarrow> 0 \<le> p_max L \<and> p_max L < 2 ^ 62"
proof -
  assume "wire_layout L"
  then have "(2::int) ^ dl_plaintext_bits L \<le> 2 ^ 62" by (intro power_increasing) (simp_all add: wire_layout_def)
  then show ?thesis by (simp add: p_max_def)
qed

lemma lit_code:
  assumes "wire_layout L" "\<bar>d\<bar> \<le> p_max L"
  shows "nat ((d + p_max L) mod 2 ^ 64) = nat (d + p_max L)"
    and "nat (d + p_max L) < 2 ^ dl_delta_bits L"
    and "nat (d + p_max L) \<le> 2 * 2 ^ dl_plaintext_bits L - 2"
    and "int (nat (d + p_max L)) - p_max L = d"
proof -
  have b: "0 \<le> d + p_max L" "d + p_max L \<le> 2 * p_max L" "p_max L < 2 ^ 62" using assms p_max_bound by auto
  then show "nat ((d + p_max L) mod 2 ^ 64) = nat (d + p_max L)" by simp
  have "nat (d + p_max L) \<le> nat (2 * p_max L)" using b by simp
  also have "\<dots> = 2 * 2 ^ dl_plaintext_bits L - 2"
    by (simp add: p_max_def nat_mult_distrib nat_diff_distrib nat_power_eq)
  finally show "nat (d + p_max L) \<le> 2 * 2 ^ dl_plaintext_bits L - 2" .
  moreover have "(0::nat) < 2 * 2 ^ dl_plaintext_bits L" by simp
  ultimately have "nat (d + p_max L) < 2 * 2 ^ dl_plaintext_bits L" by linarith
  then show "nat (d + p_max L) < 2 ^ dl_delta_bits L" using assms(1) by (simp add: wire_layout_def)
  show "int (nat (d + p_max L)) - p_max L = d" using b by simp
qed

subsection \<open>Writing\<close>

lemma encode_lits:
  assumes "wire_layout L" "drop idx part = rest" "gaps_ok G rest"
    and "\<And>x. x \<in> set rest \<Longrightarrow> start + k \<le> fst x \<and> \<bar>snd x\<bar> \<le> p_max L"
    and "m = length (lits (start + k) rest)"
    and "bw_rep w pre n" "length (lit_bits L (lits (start + k) rest)) \<le> n"
  shows "\<exists>idx' w'. fold_opt (encode_lit L (p_max L) start part) [k..<k + m] (idx, w) = Some (idx', w') \<and>
    bw_rep w' (pre @ lit_bits L (lits (start + k) rest)) (n - length (lit_bits L (lits (start + k) rest)))"
  using assms(2-)
proof (induction m arbitrary: k idx rest w pre n)
  case 0
  then show ?case by simp
next
  case (Suc m)
  then obtain f d c where rest: "rest = (f, d) # c" by (cases rest) (auto simp: lits_Nil_iff)
  have f: "start + k \<le> f" "\<bar>d\<bar> \<le> p_max L" using Suc.prems(3) [of "(f, d)"] by (simp_all add: rest)
  have idx: "idx < length part" "part ! idx = (f, d)" "drop (Suc idx) part = c"
  proof -
    have "drop idx part \<noteq> []" using Suc.prems(1) by (simp add: rest)
    then show "idx < length part" by simp
    then have "drop idx part = part ! idx # drop (Suc idx) part" by (rule Cons_nth_drop_Suc [symmetric])
    then show "part ! idx = (f, d)" "drop (Suc idx) part = c" using Suc.prems(1) rest by simp_all
  qed
  have upt: "[k..<k + Suc m] = k # [Suc k..<Suc k + m]" by (simp add: upt_conv_Cons)
  define at where "at = (f = start + k)"
  define d' where "d' = (if at then d else 0)"
  define idx' where "idx' = (if at then idx + 1 else idx)"
  define rest' where "rest' = (if at then c else rest)"
  have lits: "lits (start + k) rest = d' # lits (start + Suc k) rest'"
    using lits_step [OF f(1)] by (simp add: rest d'_def rest'_def at_def)
  have d': "\<bar>d'\<bar> \<le> p_max L" using f(2) p_max_bound [OF assms(1)] by (simp add: d'_def)
  have code: "nat ((d' + p_max L) mod 2 ^ 64) = nat (d' + p_max L)" by (rule lit_code [OF assms(1) d'])
  have "dl_delta_bits L \<le> n" using Suc.prems(6) by (simp add: lits)
  then obtain w1 where w1: "write_bits (nat (d' + p_max L)) (dl_delta_bits L) w = Some w1"
    "bw_rep w1 (pre @ nat_bits (nat (d' + p_max L)) (dl_delta_bits L)) (n - dl_delta_bits L)"
    using writesE [OF write_bits_writes Suc.prems(5)] by (metis length_nat_bits)
  have step: "encode_lit L (p_max L) start part k (idx, w) = Some (idx', w1)"
    using idx(1,2) w1(1) code by (cases at) (simp_all add: encode_lit_def Let_def at_def d'_def idx'_def)
  have "\<exists>idx'' w'. fold_opt (encode_lit L (p_max L) start part) [Suc k..<Suc k + m] (idx', w1) = Some (idx'', w') \<and>
    bw_rep w' ((pre @ nat_bits (nat (d' + p_max L)) (dl_delta_bits L)) @ lit_bits L (lits (start + Suc k) rest'))
      (n - dl_delta_bits L - length (lit_bits L (lits (start + Suc k) rest')))"
  proof (rule Suc.IH [OF _ _ _ _ w1(2)])
    show "drop idx' part = rest'" using idx(3) Suc.prems(1) by (simp add: idx'_def rest'_def)
    show "gaps_ok G rest'" using Suc.prems(2) by (auto simp: rest'_def rest gaps_ok_Cons)
    show "m = length (lits (start + Suc k) rest')" using Suc.prems(4) by (simp add: lits)
    show "length (lit_bits L (lits (start + Suc k) rest')) \<le> n - dl_delta_bits L" using Suc.prems(6) by (simp add: lits)
  next
    fix x assume x: "x \<in> set rest'"
    then have "\<bar>snd x\<bar> \<le> p_max L" using Suc.prems(3) [of x] by (auto simp: rest'_def rest split: if_splits)
    moreover have "start + Suc k \<le> fst x"
    proof (cases at)
      case True
      then have "x \<in> set c" "gaps_ok G c" "f < fst (hd c)"
        using x Suc.prems(2) by (auto simp: rest'_def rest gaps_ok_Cons)
      then show ?thesis using gaps_ok_hd_le [of G c x] True by (simp add: at_def)
    next
      case False
      then have "f \<le> fst x" using x gaps_ok_hd_le [OF Suc.prems(2), of x] by (simp add: rest'_def rest)
      then show ?thesis using False f(1) by (simp add: at_def)
    qed
    ultimately show "start + Suc k \<le> fst x \<and> \<bar>snd x\<bar> \<le> p_max L" by simp
  qed
  then show ?case unfolding upt by (simp add: step lits)
qed

subsection \<open>Reading\<close>

lemma read_delta_code:
  assumes "read_bits r (dl_delta_bits L) = Some (Inr (code, r'))"
  shows "read_delta L start len k (r, z, m, b, cells) =
    (if 2 * 2 ^ dl_plaintext_bits L - 2 < code then Some (Inl (DeltaOutOfRange code))
     else if int code - p_max L = 0 then Some (Inr (r', z + 1, max m (z + 1), b \<or> k = 0 \<or> k = len - 1, cells))
     else if start + k < 2 ^ 16 then Some (Inr (r', 0, m, b, cells @ [(start + k, int code - p_max L)]))
     else Some (Inl (OffsetOutOfRange (start + k))))"
  by (simp add: read_delta_def Let_def assms p_max_def of_nat_diff)

lemma read_delta_Inr:
  assumes "wire_layout L" "read_bits r (dl_delta_bits L) = Some (Inr (nat (d + p_max L), r'))" "\<bar>d\<bar> \<le> p_max L"
    "start + k < 2 ^ 16"
  shows "read_delta L start len k (r, z, m, b, cells) = Some (Inr (r',
    if d = 0 then (z + 1, max m (z + 1), b \<or> k = 0 \<or> k = len - 1, cells) else (0, m, b, cells @ [(start + k, d)])))"
proof -
  note c = lit_code [OF assms(1,3)]
  have "\<not> 2 * 2 ^ dl_plaintext_bits L - 2 < nat (d + p_max L)" using c(3) by simp
  then show ?thesis using assms(4) by (simp only: read_delta_code [OF assms(2)] c(4)) simp
qed

lemma read_lits_forward:
  assumes "wire_layout L" "br_ok r" "left r = lit_bits L ds @ bs" "\<And>d. d \<in> set ds \<Longrightarrow> \<bar>d\<bar> \<le> p_max L"
    and "start + k + length ds \<le> 2 ^ 16"
  shows "\<exists>r'. fold_res (read_delta L start len) [k..<k + length ds] (r, st) =
      Some (Inr (r', scan_lits start len k ds st)) \<and> br_ok r' \<and> left r' = bs"
  using assms(2-)
proof (induction ds arbitrary: k r st)
  case (Cons d ds)
  obtain z m b cells where st: "st = (z, m, b, cells)" by (cases st)
  have upt: "[k..<k + length (d # ds)] = k # [k + 1..<k + 1 + length ds]" by (simp add: upt_conv_Cons del: upt_Suc)
  have d: "\<bar>d\<bar> \<le> p_max L" using Cons.prems(3) by simp
  obtain r1 where r1: "read_bits r (dl_delta_bits L) = Some (Inr (nat (d + p_max L), r1))" "br_ok r1" "left r1 = lit_bits L ds @ bs"
    using read_bits_forward [OF Cons.prems(1) _ lit_code(2) [OF assms(1) d], of "lit_bits L ds @ bs"] Cons.prems(2) by auto
  have k: "start + k < 2 ^ 16" using Cons.prems(4) by simp
  show ?case unfolding upt st
    using Cons.IH [OF r1(2,3), of "k + 1"] Cons.prems(3,4)
    by (simp add: read_delta_Inr [OF assms(1) r1(1) d k])
qed simp

lemma read_delta_backward:
  assumes "wire_layout L" "br_ok r" "read_delta L start len k (r, z, m, b, cells) = Some (Inr s')"
  obtains d r' where "\<bar>d\<bar> \<le> p_max L" "br_ok r'" "left r = nat_bits (nat (d + p_max L)) (dl_delta_bits L) @ left r'"
    "s' = (r', if d = 0 then (z + 1, max m (z + 1), b \<or> k = 0 \<or> k = len - 1, cells) else (0, m, b, cells @ [(start + k, d)]))"
proof -
  obtain code r' where r': "read_bits r (dl_delta_bits L) = Some (Inr (code, r'))"
    using assms(3) by (auto simp: read_delta_def Let_def try_res_eq_Inr)
  then have c: "code \<le> 2 * 2 ^ dl_plaintext_bits L - 2"
    and s': "s' = (r', if int code - p_max L = 0 then (z + 1, max m (z + 1), b \<or> k = 0 \<or> k = len - 1, cells)
       else (0, m, b, cells @ [(start + k, int code - p_max L)]))"
    using assms(3) by (auto simp: read_delta_code split: if_splits)
  have "int code \<le> int (2 * 2 ^ dl_plaintext_bits L - 2)" using c by (simp only: of_nat_le_iff)
  also have "\<dots> = 2 * p_max L" by (simp add: p_max_def of_nat_diff)
  finally have "\<bar>int code - p_max L\<bar> \<le> p_max L" by simp
  moreover have "nat (int code - p_max L + p_max L) = code" by simp
  ultimately show thesis using that [of "int code - p_max L" r'] read_bits_backward [OF assms(2) r'] s' by simp
qed

lemma fold_res_Cons_Inr:
  assumes "fold_res f (x # xs) s = Some (Inr s')"
  obtains s1 where "f x s = Some (Inr s1)" "fold_res f xs s1 = Some (Inr s')"
proof -
  obtain y where y: "f x s = Some y" "(case y of Inl e \<Rightarrow> Some (Inl e) | Inr s1 \<Rightarrow> fold_res f xs s1) = Some (Inr s')"
    using assms by (auto simp: bind_eq_Some_conv)
  then show thesis using that by (cases y) auto
qed

lemma read_lits_backward:
  assumes "wire_layout L" "br_ok r" "fold_res (read_delta L start len) [k..<k + n] (r, st) = Some (Inr s')"
  shows "\<exists>ds r'. length ds = n \<and> (\<forall>d \<in> set ds. \<bar>d\<bar> \<le> p_max L) \<and> br_ok r' \<and> left r = lit_bits L ds @ left r' \<and>
    s' = (r', scan_lits start len k ds st)"
  using assms(2-)
proof (induction n arbitrary: k r st)
  case 0
  then show ?case by (intro exI [of _ "[]"] exI [of _ r]) simp
next
  case (Suc n)
  obtain z m b cells where st: "st = (z, m, b, cells)" by (cases st)
  have upt: "[k..<k + Suc n] = k # [k + 1..<k + 1 + n]" by (simp add: upt_conv_Cons)
  obtain s1 where s1: "read_delta L start len k (r, st) = Some (Inr s1)"
    "fold_res (read_delta L start len) [k + 1..<k + 1 + n] s1 = Some (Inr s')"
    using fold_res_Cons_Inr [OF Suc.prems(2) [unfolded upt]] by blast
  obtain d r1 where d: "\<bar>d\<bar> \<le> p_max L" "br_ok r1" "left r = nat_bits (nat (d + p_max L)) (dl_delta_bits L) @ left r1"
    "s1 = (r1, if d = 0 then (z + 1, max m (z + 1), b \<or> k = 0 \<or> k = len - 1, cells) else (0, m, b, cells @ [(start + k, d)]))"
    using read_delta_backward [OF assms(1) Suc.prems(1) s1(1) [unfolded st]] by blast
  obtain ds r' where ds: "length ds = n" "\<forall>d \<in> set ds. \<bar>d\<bar> \<le> p_max L" "br_ok r'" "left r1 = lit_bits L ds @ left r'"
    "s' = (r', scan_lits start len (k + 1) ds (snd s1))"
    using Suc.IH [OF d(2), of "k + 1" "snd s1"] s1(2) d(4) by (metis prod.collapse fst_conv)
  have "scan_lits start len k (d # ds) st = scan_lits start len (k + 1) ds (snd s1)" by (simp add: st d(4))
  then show ?case using ds d by (intro exI [of _ "d # ds"] exI [of _ r']) simp
qed

lemma read_lits_total:
  assumes "br_ok (fst s)"
  shows "\<exists>y. fold_res (read_delta L start len) ks s = Some y"
  using assms
proof (induction ks arbitrary: s)
  case (Cons k ks)
  obtain r z m b cells where s: "s = (r, z, m, b, cells)" by (cases s)
  have "\<exists>y. read_delta L start len k s = Some y \<and> (\<forall>s1. y = Inr s1 \<longrightarrow> br_ok (fst s1))"
  proof -
    obtain y where y: "read_bits r (dl_delta_bits L) = Some y" using read_bits_total [of r] Cons.prems s by auto
    show ?thesis
    proof (cases y)
      case (Inl e)
      then show ?thesis by (simp add: s read_delta_def Let_def y)
    next
      case (Inr q)
      then have "br_ok (snd q)" using read_bits_backward(1) [of r "dl_delta_bits L" "fst q" "snd q"] y Cons.prems s by simp
      then show ?thesis using Inr by (cases q) (auto simp: s read_delta_def Let_def y)
    qed
  qed
  then obtain y where y: "read_delta L start len k s = Some y" "\<forall>s1. y = Inr s1 \<longrightarrow> br_ok (fst s1)" by blast
  then show ?case using Cons.IH by (cases y) auto
qed simp

section \<open>One run\<close>

definition run_ok :: "delta_wire_layout \<Rightarrow> cell_deltas \<Rightarrow> bool" where
  "run_ok L c \<longleftrightarrow> c \<noteq> [] \<and> gaps_ok (dl_max_gap L) c \<and>
     (\<forall>x \<in> set c. fst x < dl_row_width L \<and> snd x \<noteq> 0 \<and> \<bar>snd x\<bar> \<le> p_max L)"

definition run_bits :: "delta_wire_layout \<Rightarrow> cell_deltas \<Rightarrow> bool list" where
  "run_bits L c = nat_bits (fst (hd c)) (dl_offset_bits L) @ nat_bits (fst (last c) - fst (hd c)) (dl_offset_bits L) @
     lit_bits L (lits (fst (hd c)) c)"

definition after :: "delta_wire_layout \<Rightarrow> nat option \<Rightarrow> cell_deltas \<Rightarrow> bool" where
  "after L prev c \<longleftrightarrow> (case prev of None \<Rightarrow> True | Some e \<Rightarrow> e + dl_max_gap L < fst (hd c))"

lemma run_ok_ends:
  assumes "run_ok L c"
  shows "fst (hd c) \<le> fst (last c)" "fst (last c) < dl_row_width L" "snd (hd c) \<noteq> 0" "snd (last c) \<noteq> 0"
    "length (lits (fst (hd c)) c) = fst (last c) - fst (hd c) + 1"
proof -
  have c: "c \<noteq> []" "gaps_ok (dl_max_gap L) c" using assms by (simp_all add: run_ok_def)
  show le: "fst (hd c) \<le> fst (last c)" by (rule gaps_ok_hd_last [OF c(2,1)])
  show "fst (last c) < dl_row_width L" "snd (hd c) \<noteq> 0" "snd (last c) \<noteq> 0"
    using assms c(1) by (simp_all add: run_ok_def)
  show "length (lits (fst (hd c)) c) = fst (last c) - fst (hd c) + 1"
    using length_lits [OF c(2,1), of "fst (hd c)"] le by simp
qed

lemma length_run_bits:
  "run_ok L c \<Longrightarrow> length (run_bits L c) = 2 * dl_offset_bits L + (fst (last c) - fst (hd c) + 1) * dl_delta_bits L"
  by (simp add: run_bits_def run_ok_ends(5))

lemma encode_run_writes:
  assumes "wire_layout L" "run_ok L c"
  shows "writes (encode_run L (p_max L) (run_of c)) (run_bits L c)"
proof -
  define start where "start = fst (hd c)"
  define len where "len = fst (last c) - start + 1"
  define g where "g w = do { (_ :: nat, w3) \<leftarrow> fold_opt (encode_lit L (p_max L) start c) [0..<len] (0, w); Some w3 }" for w
  have c: "gaps_ok (dl_max_gap L) c" using assms(2) by (simp add: run_ok_def)
  have len: "len = length (lits start c)" using run_ok_ends(5) [OF assms(2)] by (simp add: len_def start_def)
  have "writes g (lit_bits L (lits start c))"
    unfolding writes_def
  proof (intro allI impI)
    fix w pre n assume rep: "bw_rep w pre n" and n: "length (lit_bits L (lits start c)) \<le> n"
    have x: "start + 0 \<le> fst x \<and> \<bar>snd x\<bar> \<le> p_max L" if "x \<in> set c" for x
      using gaps_ok_hd_le [OF c that] assms(2) that by (simp add: start_def run_ok_def)
    obtain idx' w' where "fold_opt (encode_lit L (p_max L) start c) [0..<0 + len] (0, w) = Some (idx', w')"
      "bw_rep w' (pre @ lit_bits L (lits (start + 0) c)) (n - length (lit_bits L (lits (start + 0) c)))"
      using encode_lits [OF assms(1), where idx = 0 and k = 0 and part = c and start = start, OF _ c x _ rep] n len by auto
    then show "\<exists>w'. g w = Some w' \<and> bw_rep w' (pre @ lit_bits L (lits start c)) (n - length (lit_bits L (lits start c)))"
      by (simp add: g_def)
  qed
  from writes_bind [OF write_bits_writes writes_bind [OF write_bits_writes this]]
  have "writes (\<lambda>w. write_bits start (dl_offset_bits L) w \<bind> (\<lambda>w. write_bits (len - 1) (dl_offset_bits L) w \<bind> g))
      (nat_bits start (dl_offset_bits L) @ nat_bits (len - 1) (dl_offset_bits L) @ lit_bits L (lits start c))" .
  moreover have "encode_run L (p_max L) (run_of c) =
      (\<lambda>w. write_bits start (dl_offset_bits L) w \<bind> (\<lambda>w. write_bits (len - 1) (dl_offset_bits L) w \<bind> g))"
    by (rule ext) (simp add: encode_run_def run_of_def len_def start_def g_def [abs_def] del: upt_Suc)
  moreover have "run_bits L c = nat_bits start (dl_offset_bits L) @ nat_bits (len - 1) (dl_offset_bits L) @ lit_bits L (lits start c)"
    by (simp add: run_bits_def start_def len_def)
  ultimately show ?thesis by simp
qed

text \<open>The checks after the deltas of a run, in terms of the cells read.\<close>

lemma scan_run:
  assumes "ds \<noteq> []" "len = length ds"
  obtains z m b where "scan_lits start len 0 ds (0, 0, False, cells) = (z, m, b, cells @ cells_of start ds)"
    "b \<longleftrightarrow> hd ds = 0 \<or> last ds = 0" "\<not> b \<Longrightarrow> G < m \<longleftrightarrow> \<not> gaps_ok G (cells_of start ds)"
proof -
  obtain z m b where s: "scan_lits start len 0 ds (0, 0, False, cells) = (z, m, b, cells @ cells_of start ds)"
    "m \<le> G \<longleftrightarrow> zeros_ok G 0 ds" "b \<longleftrightarrow> (\<exists>i < length ds. ds ! i = 0 \<and> (i = 0 \<or> i = len - 1))"
    using scan_lits_result [of start len 0 ds 0 0 False cells G] by auto
  have ne: "0 < length ds" using assms(1) by simp
  have b: "b \<longleftrightarrow> hd ds = 0 \<or> last ds = 0"
    unfolding s(3) assms(2) hd_conv_nth [OF assms(1)] last_conv_nth [OF assms(1)]
    using ne by (metis diff_less zero_less_one)
  moreover have "\<not> b \<Longrightarrow> G < m \<longleftrightarrow> \<not> gaps_ok G (cells_of start ds)"
    using s(2) zeros_ok_run [OF assms(1), of G start] b by auto
  ultimately show thesis using that s(1) by blast
qed

lemma read_run_forward:
  assumes "wire_layout L" "br_ok r" "left r = run_bits L c @ bs" "run_ok L c" "after L prev c"
  shows "\<exists>r'. read_run L prev r cells = Some (Inr (r', fst (last c) + 1, cells @ c)) \<and> br_ok r' \<and> left r' = bs"
proof -
  define start where "start = fst (hd c)"
  define ds where "ds = lits start c"
  note e = run_ok_ends [OF assms(4)]
  have c: "c \<noteq> []" "gaps_ok (dl_max_gap L) c" using assms(4) by (simp_all add: run_ok_def)
  have len: "length ds = fst (last c) - start + 1" using e(5) by (simp add: ds_def start_def)
  have ds: "ds \<noteq> []" "hd ds \<noteq> 0" "last ds \<noteq> 0" using c e(3,4) hd_lits [of c] last_lits [of c start] by (simp_all add: ds_def start_def)
  have cells: "cells_of start ds = c" unfolding ds_def
    by (rule cells_of_lits [OF c(2)]) (use gaps_ok_hd_le [OF c(2)] assms(4) in \<open>auto simp: start_def run_ok_def\<close>)
  have rw: "dl_row_width L < 2 ^ 16" "dl_row_width L \<le> 2 ^ dl_offset_bits L" using assms(1) by (simp_all add: wire_layout_def)
  obtain r1 where r1: "read_bits r (dl_offset_bits L) = Some (Inr (start, r1))" "br_ok r1"
    "left r1 = nat_bits (fst (last c) - start) (dl_offset_bits L) @ lit_bits L ds @ bs"
    using read_bits_forward [OF assms(2), of start "dl_offset_bits L"] assms(3) e(1,2) rw
    by (auto simp: run_bits_def start_def ds_def)
  obtain r2 where r2: "read_bits r1 (dl_offset_bits L) = Some (Inr (fst (last c) - start, r2))" "br_ok r2"
    "left r2 = lit_bits L ds @ bs"
    using read_bits_forward [OF r1(2,3)] e(2) rw(2) by (meson diff_le_self le_less_trans less_le_trans)
  have "\<bar>d\<bar> \<le> p_max L" if "d \<in> set ds" for d
    using set_lits [of d start c] that assms(4) p_max_bound [OF assms(1)] by (auto simp: ds_def run_ok_def)
  moreover have "start + 0 + length ds \<le> 2 ^ 16" using len e(1,2) rw by (simp add: start_def)
  ultimately obtain r3 where r3: "fold_res (read_delta L start (length ds)) [0..<length ds] (r2, 0, 0, False, cells) =
      Some (Inr (r3, scan_lits start (length ds) 0 ds (0, 0, False, cells)))" "br_ok r3" "left r3 = bs"
    using read_lits_forward [OF assms(1) r2(2,3), of start 0 "length ds" "(0, 0, False, cells)"] by auto
  obtain z m b where scan: "scan_lits start (length ds) 0 ds (0, 0, False, cells) = (z, m, b, cells @ cells_of start ds)"
    "b \<longleftrightarrow> hd ds = 0 \<or> last ds = 0" "\<not> b \<Longrightarrow> dl_max_gap L < m \<longleftrightarrow> \<not> gaps_ok (dl_max_gap L) (cells_of start ds)"
    using scan_run [OF ds(1) refl, of start cells "dl_max_gap L"] by metis
  have ok: "\<not> b" "\<not> dl_max_gap L < m" using scan(2,3) ds c(2) by (simp_all add: cells)
  have lenS: "fst (last c) - start + 1 = length ds" using len by simp
  have prev: "\<not> (case prev of None \<Rightarrow> False | Some prev_end \<Rightarrow> start < prev_end \<or> start - prev_end \<le> dl_max_gap L)"
    using assms(5) by (auto simp: after_def start_def split: option.splits)
  have "\<not> dl_row_width L \<le> start" "start + (fst (last c) - start) + 1 < 2 ^ 32" "\<not> dl_row_width L < start + length ds"
    "start + length ds = fst (last c) + 1"
    using e(1,2) rw len by (simp_all add: start_def)
  then have "read_run L prev r cells = Some (Inr (r3, fst (last c) + 1, cells @ c))"
    using prev ok by (simp only: read_run_def r1(1) try_res_simps prod.case r2(1) if_False if_True Let_def lenS
        not_True_eq_False not_False_eq_True r3(1) scan(1) cells simp_thms)
  then show ?thesis using r3(2,3) by blast
qed

lemma read_run_backward:
  assumes "wire_layout L" "br_ok r" "read_run L prev r cells = Some (Inr (r', e, cells'))"
  shows "\<exists>c. run_ok L c \<and> after L prev c \<and> cells' = cells @ c \<and> e = fst (last c) + 1 \<and> br_ok r' \<and>
    left r = run_bits L c @ left r'"
proof -
  obtain start r1 len1 r2 z m where
    r1: "read_bits r (dl_offset_bits L) = Some (Inr (start, r1))" and r2: "read_bits r1 (dl_offset_bits L) = Some (Inr (len1, r2))"
    and rw: "start + len1 + 1 \<le> dl_row_width L" and e: "e = start + len1 + 1"
    and prev: "\<not> (case prev of None \<Rightarrow> False | Some prev_end \<Rightarrow> start < prev_end \<or> start - prev_end \<le> dl_max_gap L)"
    and fold: "fold_res (read_delta L start (len1 + 1)) [0..<0 + (len1 + 1)] (r2, 0, 0, False, cells) = Some (Inr (r', z, m, False, cells'))"
    and m: "\<not> dl_max_gap L < m"
    using assms(3) unfolding read_run_def Let_def try_res_eq_Inr
    by (auto simp: try_res_eq_Inr simp del: upt_Suc split: if_splits)
  note b1 = read_bits_backward [OF assms(2) r1]
  note b2 = read_bits_backward [OF b1(1) r2]
  obtain ds where ds: "length ds = len1 + 1" "\<forall>d \<in> set ds. \<bar>d\<bar> \<le> p_max L" "br_ok r'" "left r2 = lit_bits L ds @ left r'"
    "(z, m, False, cells') = scan_lits start (len1 + 1) 0 ds (0, 0, False, cells)"
    using read_lits_backward [OF assms(1) b2(1) fold] by auto
  have ne: "ds \<noteq> []" using ds(1) by auto
  obtain z' m' b' where scan: "scan_lits start (len1 + 1) 0 ds (0, 0, False, cells) = (z', m', b', cells @ cells_of start ds)"
    "b' \<longleftrightarrow> hd ds = 0 \<or> last ds = 0" "\<not> b' \<Longrightarrow> dl_max_gap L < m' \<longleftrightarrow> \<not> gaps_ok (dl_max_gap L) (cells_of start ds)"
    using scan_run [OF ne ds(1) [symmetric], of start cells "dl_max_gap L"] by metis
  define c where "c = cells_of start ds"
  have eqs: "z' = z" "m' = m" "b' = False" "cells' = cells @ c" using ds(5) scan(1) by (simp_all add: c_def)
  have ends: "hd ds \<noteq> 0" "last ds \<noteq> 0" using scan(2) eqs(3) by simp_all
  note ce = cells_of_ends [OF ne ends, of start, folded c_def]
  have gaps: "gaps_ok (dl_max_gap L) c" using scan(3) eqs m by (simp add: c_def)
  have lits: "lits start c = ds" unfolding c_def by (rule lits_cells_of) (simp add: ends)
  have "run_ok L c" unfolding run_ok_def
  proof (intro conjI ballI)
    fix x assume "x \<in> set c"
    then have "fst x < start + length ds" "snd x \<noteq> 0" "snd x \<in> set ds" using cells_of_bounds [of x start ds] by (simp_all add: c_def)
    then show "fst x < dl_row_width L" "snd x \<noteq> 0" "\<bar>snd x\<bar> \<le> p_max L" using rw ds(1,2) by auto
  qed (use ce(1) gaps in simp_all)
  moreover have "after L prev c" using prev ce(2) by (auto simp: after_def split: option.splits)
  moreover have last: "fst (last c) + 1 = start + len1 + 1" using ce(3) ds(1) by simp
  moreover have "left r = run_bits L c @ left r'"
    using b1(2) b2(2) ds(4) last by (simp add: run_bits_def ce(2) lits)
  ultimately show ?thesis using eqs(4) e ds(3) by auto
qed

end
