(* ===== verification/Wire_Rows.thy ===== *)
theory Wire_Rows
  imports Wire_Correct
begin

text \<open>
  The rows of a bundle on the wire: the run list of a row, the row list over all segments in ascending
  bucket order, and the way the decoder distributes the rows over the segments.
\<close>

section \<open>The runs of a row\<close>

definition runs_bits :: "delta_wire_layout \<Rightarrow> cell_deltas list \<Rightarrow> bool list" where
  "runs_bits L cs = (case cs of [] \<Rightarrow> [] | c # cs \<Rightarrow> run_bits L c @ concat (map (\<lambda>c. True # run_bits L c) cs))"

lemma runs_bits_simps [simp]:
  "runs_bits L [] = []" "runs_bits L [c] = run_bits L c"
  "runs_bits L (c # c' # cs) = run_bits L c @ True # runs_bits L (c' # cs)"
  by (simp_all add: runs_bits_def)

definition encode_runs_step :: "delta_wire_layout \<Rightarrow> nat \<times> nat \<times> cell_deltas \<Rightarrow> bool \<times> bit_writer \<Rightarrow> (bool \<times> bit_writer) option" where
  "encode_runs_step L = (\<lambda>run (first_run, w). do {
         w' \<leftarrow> (if first_run then Some w else write_bit True w);
         w'' \<leftarrow> encode_run L (p_max L) run w';
         Some (False, w'')
       })"

lemma encode_runs_step_simps:
  "encode_runs_step L run (True, w) = encode_run L (p_max L) run w \<bind> (\<lambda>w. Some (False, w))"
  "encode_runs_step L run (False, w) = write_bit True w \<bind> (\<lambda>w. encode_run L (p_max L) run w \<bind> (\<lambda>w. Some (False, w)))"
  by (simp_all add: encode_runs_step_def)

lemma encode_runs_rest:
  assumes "wire_layout L" "\<And>c. c \<in> set cs \<Longrightarrow> run_ok L c"
  shows "writes (\<lambda>w. map_option snd (fold_opt (encode_runs_step L) (map run_of cs) (False, w)))
    (concat (map (\<lambda>c. True # run_bits L c) cs))"
  using assms(2)
proof (induction cs)
  case Nil
  then show ?case by (simp add: writes_def)
next
  case (Cons c cs)
  have "(\<lambda>w. map_option snd (fold_opt (encode_runs_step L) (map run_of (c # cs)) (False, w))) =
      (\<lambda>w. write_bit True w \<bind> (\<lambda>w. encode_run L (p_max L) (run_of c) w \<bind>
        (\<lambda>w. map_option snd (fold_opt (encode_runs_step L) (map run_of cs) (False, w)))))"
    by (rule ext) (simp add: encode_runs_step_simps map_option_bind o_def)
  moreover have "writes \<dots> ([True] @ run_bits L c @ concat (map (\<lambda>c. True # run_bits L c) cs))"
    using Cons by (intro writes_bind write_bit_writes encode_run_writes assms(1)) auto
  ultimately show ?case by simp
qed

lemma encode_runs_writes:
  assumes "wire_layout L" "cs \<noteq> []" "\<And>c. c \<in> set cs \<Longrightarrow> run_ok L c"
  shows "writes (encode_runs L (p_max L) (map run_of cs)) (runs_bits L cs)"
proof -
  obtain c cs' where cs: "cs = c # cs'" using assms(2) by (cases cs) auto
  have "encode_runs L (p_max L) (map run_of cs) =
      (\<lambda>w. encode_run L (p_max L) (run_of c) w \<bind>
        (\<lambda>w. map_option snd (fold_opt (encode_runs_step L) (map run_of cs') (False, w))))"
    by (rule ext) (simp add: encode_runs_def cs map_option_bind o_def encode_runs_step_simps flip: encode_runs_step_def)
  moreover have "writes \<dots> (run_bits L c @ concat (map (\<lambda>c. True # run_bits L c) cs'))"
    using assms(3) by (intro writes_bind encode_run_writes encode_runs_rest assms(1)) (auto simp: cs)
  ultimately show ?thesis by (simp add: runs_bits_def cs)
qed

lemma read_runs_forward:
  assumes "wire_layout L" "br_ok r" "left r = runs_bits L cs @ False # bs" "cs \<noteq> []" "chunking (dl_max_gap L) cs"
    and "\<And>c. c \<in> set cs \<Longrightarrow> run_ok L c" and "after L prev (hd cs)"
  shows "\<exists>r'. read_runs L prev r cells = Some (Inr (r', cells @ concat cs)) \<and> br_ok r' \<and> left r' = bs"
  using assms(2-)
proof (induction cs arbitrary: prev r cells)
  case (Cons c cs)
  have c: "run_ok L c" "after L prev c" using Cons.prems(5,6) by auto
  show ?case
  proof (cases cs)
    case Nil
    obtain r1 where r1: "read_run L prev r cells = Some (Inr (r1, fst (last c) + 1, cells @ c))" "br_ok r1" "left r1 = False # bs"
      using read_run_forward [OF assms(1) Cons.prems(1) _ c] Cons.prems(2) Nil by auto
    obtain r2 where "read_bits r1 1 = Some (Inr (0, r2))" "br_ok r2" "left r2 = bs"
      using read_bits_forward [OF r1(2), of 0 1 bs] r1(3) by (auto simp: nat_bits_def)
    then show ?thesis using Nil by (subst read_runs.simps) (simp add: r1(1))
  next
    case (Cons c' cs')
    obtain r1 where r1: "read_run L prev r cells = Some (Inr (r1, fst (last c) + 1, cells @ c))" "br_ok r1"
      "left r1 = True # runs_bits L cs @ False # bs"
      using read_run_forward [OF assms(1) Cons.prems(1) _ c] Cons.prems(2) Cons by auto
    obtain r2 where r2: "read_bits r1 1 = Some (Inr (1, r2))" "br_ok r2" "left r2 = runs_bits L cs @ False # bs"
      using read_bits_forward [OF r1(2), of 1 1 "runs_bits L cs @ False # bs"] r1(3) by (auto simp: nat_bits_def bit_0)
    have "after L (Some (fst (last c) + 1)) (hd cs)" using Cons.prems(4) Cons by (simp add: after_def chunking_Cons)
    moreover have "chunking (dl_max_gap L) cs" using Cons.prems(4) by (simp add: chunking_Cons)
    ultimately obtain r' where "read_runs L (Some (fst (last c) + 1)) r2 (cells @ c) = Some (Inr (r', (cells @ c) @ concat cs))"
      "br_ok r'" "left r' = bs"
      using Cons.IH [OF r2(2,3), where prev = "Some (fst (last c) + 1)" and cells = "cells @ c"] Cons.prems(5) Cons by auto
    then show ?thesis using r1(1) r2(1) by (subst read_runs.simps) simp
  qed
qed simp

lemma read_runs_backward:
  assumes "wire_layout L" "br_ok r" "read_runs L prev r cells = Some (Inr (r', cells'))"
  shows "\<exists>cs. cs \<noteq> [] \<and> chunking (dl_max_gap L) cs \<and> (\<forall>c \<in> set cs. run_ok L c) \<and> after L prev (hd cs) \<and>
    cells' = cells @ concat cs \<and> br_ok r' \<and> left r = runs_bits L cs @ False # left r'"
  using assms
proof (induction L prev r cells rule: read_runs.induct)
  case (1 L prev r cells)
  obtain r1 e cells1 flag r2 where a: "read_run L prev r cells = Some (Inr (r1, e, cells1))"
    "read_bits r1 1 = Some (Inr (flag, r2))"
    "(if flag = 0 then Some (Inr (r2, cells1)) else read_runs L (Some e) r2 cells1) = Some (Inr (r', cells'))"
    using 1(4) by (subst (asm) read_runs.simps) (auto simp: try_res_eq_Inr)
  obtain c where c: "run_ok L c" "after L prev c" "cells1 = cells @ c" "e = fst (last c) + 1" "br_ok r1"
    "left r = run_bits L c @ left r1"
    using read_run_backward [OF 1(2,3) a(1)] by auto
  note b = read_bits_backward [OF c(5) a(2)]
  have c': "c \<noteq> []" "gaps_ok (dl_max_gap L) c" using c(1) by (simp_all add: run_ok_def)
  show ?case
  proof (cases "flag = 0")
    case True
    then have "left r1 = False # left r2" using b(2) by (simp add: nat_bits_def)
    then show ?thesis using a(3) True c c' b(1) by (intro exI [of _ "[c]"]) (simp add: chunking_Cons)
  next
    case False
    then have "flag = 1" using b(3) by simp
    then have l: "left r1 = True # left r2" using b(2) by (simp add: nat_bits_def bit_0)
    obtain cs where cs: "cs \<noteq> []" "chunking (dl_max_gap L) cs" "\<forall>c \<in> set cs. run_ok L c" "after L (Some e) (hd cs)"
      "cells' = cells1 @ concat cs" "br_ok r'" "left r2 = runs_bits L cs @ False # left r'"
      using 1(1) [OF a(1) refl refl a(2) refl False 1(2) b(1)] a(3) False by auto
    obtain c2 cs2 where c2: "cs = c2 # cs2" using cs(1) by (cases cs) auto
    have "chunking (dl_max_gap L) (c # cs)" using cs(2,4) c' c(4) by (simp add: chunking_Cons after_def)
    moreover have "left r = runs_bits L (c # cs) @ False # left r'" using c(6) l cs(7) by (simp add: c2)
    ultimately show ?thesis using c cs by (intro exI [of _ "c # cs"]) simp
  qed
qed

section \<open>Rows\<close>

definition row_ok :: "delta_wire_layout \<Rightarrow> cell_deltas \<Rightarrow> bool" where
  "row_ok L cells \<longleftrightarrow> cells \<noteq> [] \<and> sorted_wrt (<) (map fst cells) \<and>
     (\<forall>x \<in> set cells. fst x < dl_row_width L \<and> snd x \<noteq> 0 \<and> \<bar>snd x\<bar> \<le> p_max L)"

definition chunks_of :: "delta_wire_layout \<Rightarrow> cell_deltas \<Rightarrow> cell_deltas list" where
  "chunks_of L cells = the (chunk_by_gap (dl_max_gap L) cells)"

definition row_bits :: "delta_wire_layout \<Rightarrow> nat \<times> cell_deltas \<Rightarrow> bool list" where
  "row_bits L x = True # nat_bits (fst x) (dl_bucket_bits L) @ runs_bits L (chunks_of L (snd x)) @ [False]"

lemma sorted_fst_successively:
  "sorted_wrt (<) (map fst xs) \<longleftrightarrow> successively (\<lambda>a b. fst a < (fst b :: nat)) xs"
  by (simp add: sorted_wrt_map successively_conv_sorted_wrt [symmetric] transp_def)

lemma chunks_of_eq: "chunking (dl_max_gap L) cs \<Longrightarrow> chunks_of L (concat cs) = cs"
  by (simp add: chunks_of_def chunk_by_gap_unique)

lemma row_ok_chunks:
  assumes "row_ok L cells"
  shows "chunks_of L cells \<noteq> []" "chunking (dl_max_gap L) (chunks_of L cells)" "concat (chunks_of L cells) = cells"
    "\<forall>c \<in> set (chunks_of L cells). run_ok L c"
proof -
  obtain cs where cs: "chunking (dl_max_gap L) cs" "concat cs = cells"
    using chunking_exists [of cells] assms by (auto simp: row_ok_def sorted_fst_successively)
  then have [simp]: "chunks_of L cells = cs" using chunks_of_eq by blast
  show "chunks_of L cells \<noteq> []" using cs(2) assms by (auto simp: row_ok_def)
  show "chunking (dl_max_gap L) (chunks_of L cells)" "concat (chunks_of L cells) = cells" using cs by simp_all
  show "\<forall>c \<in> set (chunks_of L cells). run_ok L c"
    using cs assms by (auto simp: run_ok_def row_ok_def chunking_def)
qed

lemma chunking_row_ok:
  assumes "cs \<noteq> []" "chunking (dl_max_gap L) cs" "\<forall>c \<in> set cs. run_ok L c"
  shows "row_ok L (concat cs)"
proof -
  have "successively (\<lambda>a b. fst a < fst b) (concat cs) \<and> (cs \<noteq> [] \<longrightarrow> hd (concat cs) = hd (hd cs) \<and> concat cs \<noteq> [])"
    using assms(2)
  proof (induction cs)
    case (Cons c cs)
    then have IH: "successively (\<lambda>a b. fst a < fst b) (concat cs)" "cs \<noteq> [] \<Longrightarrow> hd (concat cs) = hd (hd cs) \<and> concat cs \<noteq> []"
      and c: "c \<noteq> []" "gaps_ok (dl_max_gap L) c" "cs = [] \<or> fst (last c) + 1 + dl_max_gap L < fst (hd (hd cs))"
      by (simp_all add: chunking_Cons)
    have "successively (\<lambda>a b. fst a < fst b) c" using c(2) unfolding gaps_ok_def by (rule successively_mono) simp
    then show ?case using IH c by (cases "cs = []") (auto simp: successively_append_iff)
  qed simp
  then show ?thesis using assms by (auto simp: row_ok_def sorted_fst_successively run_ok_def)
qed

lemma length_concat_flags: "length (concat (map (\<lambda>c. True # f c) cs)) = length cs + (\<Sum>c\<leftarrow>cs. length (f c))"
  by (induction cs) simp_all

lemma length_runs_bits: "cs \<noteq> [] \<Longrightarrow> length (runs_bits L cs) + 1 = length cs + (\<Sum>c\<leftarrow>cs. length (run_bits L c))"
  by (cases cs) (simp_all add: runs_bits_def length_concat_flags)

lemma length_row_bits:
  assumes "row_ok L cells"
  shows "length (row_bits L (b, cells)) = (1 + dl_bucket_bits L) + length (chunks_of L cells) * (2 * dl_offset_bits L + 1) +
    (\<Sum>c\<leftarrow>chunks_of L cells. fst (last c) - fst (hd c) + 1) * dl_delta_bits L"
proof -
  note c = row_ok_chunks [OF assms]
  have "\<forall>c \<in> set cs. run_ok L c \<Longrightarrow> (\<Sum>c\<leftarrow>cs. length (run_bits L c)) =
      length cs * (2 * dl_offset_bits L) + (\<Sum>c\<leftarrow>cs. fst (last c) - fst (hd c) + 1) * dl_delta_bits L" for cs
    by (induction cs) (simp_all add: length_run_bits algebra_simps)
  from this [OF c(4)] show ?thesis
    using length_runs_bits [OF c(1), of L] by (simp add: row_bits_def algebra_simps)
qed

lemma row_runs_chunks:
  assumes "wire_layout L" "row_ok L cells"
  shows "row_runs cells (dl_max_gap L) = Some (map run_of (chunks_of L cells))"
proof -
  note c = row_ok_chunks [OF assms(2)]
  have "fst x + 1 < 2 ^ 16" if "x \<in> set (concat (chunks_of L cells))" for x
  proof -
    have "x \<in> set cells" using that by (simp only: c(3))
    then show ?thesis using assms by (auto simp: row_ok_def wire_layout_def)
  qed
  from row_runs_chunking [OF c(2) this] show ?thesis by (simp only: c(3))
qed

lemma encode_row_writes:
  assumes "wire_layout L" "row_ok L cells" "j * dl_segment_size L + row < dl_num_buckets L"
  shows "writes (encode_row L (p_max L) j (row, cells)) (row_bits L (j * dl_segment_size L + row, cells))"
proof -
  let ?b = "j * dl_segment_size L + row" and ?cs = "chunks_of L cells"
  note c = row_ok_chunks [OF assms(2)]
  have b: "?b < 2 ^ 32" using assms(1,3) by (simp add: wire_layout_def)
  have "encode_row L (p_max L) j (row, cells) =
      (\<lambda>w. write_bit True w \<bind> (\<lambda>w. write_bits ?b (dl_bucket_bits L) w \<bind>
        (\<lambda>w. encode_runs L (p_max L) (map run_of ?cs) w \<bind> write_bit False)))"
    using b by (intro ext) (simp add: encode_row_def row_runs_chunks [OF assms(1,2)])
  moreover have "writes \<dots> ([True] @ nat_bits ?b (dl_bucket_bits L) @ runs_bits L ?cs @ [False])"
    using c by (intro writes_bind write_bit_writes write_bits_writes encode_runs_writes assms(1)) auto
  ultimately show ?thesis by (simp add: row_bits_def)
qed

section \<open>The row list\<close>

definition asc :: "nat option \<Rightarrow> nat list \<Rightarrow> bool" where
  "asc prev bs \<longleftrightarrow> sorted_wrt (<) bs \<and> (case prev of None \<Rightarrow> True | Some p \<Rightarrow> \<forall>b \<in> set bs. p < b)"

lemma asc_Nil [simp]: "asc prev []"
  by (simp add: asc_def split: option.splits)

lemma asc_Cons: "asc prev (b # bs) \<longleftrightarrow> (case prev of None \<Rightarrow> True | Some p \<Rightarrow> p < b) \<and> asc (Some b) bs"
  by (auto simp: asc_def split: option.splits)

definition push_row :: "nat \<Rightarrow> nat \<times> cell_deltas \<Rightarrow> row_deltas list \<Rightarrow> row_deltas list" where
  "push_row S x segs = segs[fst x div S := segs ! (fst x div S) @ [(fst x mod S, snd x)]]"

lemma length_push_row [simp]: "length (push_row S x segs) = length segs"
  by (simp add: push_row_def)

lemma read_rows_forward:
  assumes "wire_layout L" "br_ok r" "left r = concat (map (row_bits L) items) @ False # bs"
    and "\<And>x. x \<in> set items \<Longrightarrow> row_ok L (snd x) \<and> fst x < dl_num_buckets L" "asc prev (map fst items)"
    and "dl_num_buckets L \<le> length segs * dl_segment_size L"
  shows "\<exists>r'. read_rows L prev r segs = Some (Inr (r', fold (push_row (dl_segment_size L)) items segs)) \<and> br_ok r' \<and> left r' = bs"
  using assms(2-)
proof (induction items arbitrary: prev r segs)
  case Nil
  obtain r2 where "read_bits r 1 = Some (Inr (0, r2))" "br_ok r2" "left r2 = bs"
    using read_bits_forward [OF Nil(1), of 0 1 bs] Nil(2) by (auto simp: nat_bits_def)
  then show ?case by (subst read_rows.simps) simp
next
  case (Cons x items)
  obtain b cells where x: "x = (b, cells)" by (cases x)
  have row: "row_ok L cells" "b < dl_num_buckets L" using Cons.prems(3) [of x] by (simp_all add: x)
  note c = row_ok_chunks [OF row(1)]
  have S: "dl_segment_size L \<noteq> 0" "b < 2 ^ dl_bucket_bits L" using assms(1) row(2) by (simp_all add: wire_layout_def)
  define bs1 where "bs1 = concat (map (row_bits L) items) @ False # bs"
  have flag: "nat_bits 1 1 = [True]" by (simp add: nat_bits_def bit_0)
  have "left r = nat_bits 1 1 @ nat_bits b (dl_bucket_bits L) @ runs_bits L (chunks_of L cells) @ False # bs1"
    unfolding Cons.prems(2) bs1_def flag by (simp add: x row_bits_def)
  from read_bits_forward [OF Cons.prems(1) this] obtain r1 where r1: "read_bits r 1 = Some (Inr (1, r1))" "br_ok r1"
    "left r1 = nat_bits b (dl_bucket_bits L) @ runs_bits L (chunks_of L cells) @ False # bs1" by auto
  obtain r2 where r2: "read_bits r1 (dl_bucket_bits L) = Some (Inr (b, r2))" "br_ok r2"
    "left r2 = runs_bits L (chunks_of L cells) @ False # bs1"
    using read_bits_forward [OF r1(2,3) S(2)] by auto
  have aft: "after L None c" for c by (simp add: after_def)
  obtain r3 where r3: "read_runs L None r2 [] = Some (Inr (r3, [] @ concat (chunks_of L cells)))" "br_ok r3" "left r3 = bs1"
    using read_runs_forward [OF assms(1) r2(2,3) c(1,2) bspec [OF c(4)] aft, of "[]"] by auto
  have seg: "b div dl_segment_size L < length segs"
    using row(2) Cons.prems(5) S(1) by (simp add: less_mult_imp_div_less)
  have prev: "\<not> (case prev of None \<Rightarrow> False | Some p \<Rightarrow> b \<le> p)" and asc: "asc (Some b) (map fst items)"
    using Cons.prems(4) by (auto simp: x asc_Cons split: option.splits)
  let ?segs = "push_row (dl_segment_size L) x segs"
  obtain r' where r': "read_rows L (Some b) r3 ?segs = Some (Inr (r', fold (push_row (dl_segment_size L)) items ?segs))"
    "br_ok r'" "left r' = bs"
    using Cons.IH [OF r3(2), of "Some b" ?segs] r3(3) Cons.prems(3,5) asc by (auto simp: bs1_def)
  have "read_rows L prev r segs = read_rows L (Some b) r3 ?segs"
    using seg row(2) prev S(1) r3(1)
    by (subst read_rows.simps) (simp add: r1(1) [simplified] r2(1) Let_def c(3) push_row_def x split: option.splits)
  then show ?case using r' by simp
qed

lemma read_rows_backward:
  assumes "wire_layout L" "br_ok r" "read_rows L prev r segs = Some (Inr (r', segs'))"
  shows "\<exists>items. (\<forall>x \<in> set items. row_ok L (snd x) \<and> fst x < dl_num_buckets L) \<and> asc prev (map fst items) \<and>
    segs' = fold (push_row (dl_segment_size L)) items segs \<and> br_ok r' \<and>
    left r = concat (map (row_bits L) items) @ False # left r'"
  using assms
proof (induction L prev r segs rule: read_rows.induct)
  case (1 L prev r segs)
  obtain flag r1 where a: "read_bits r 1 = Some (Inr (flag, r1))"
    using 1(4) by (subst (asm) read_rows.simps) (auto simp: try_res_eq_Inr)
  note b1 = read_bits_backward [OF 1(3) a]
  show ?case
  proof (cases "flag = 0")
    case True
    then have "segs' = segs" "r' = r1" using 1(4) a by (subst (asm) read_rows.simps, simp)+
    moreover have "left r = False # left r1" using b1(2) True by (simp add: nat_bits_def)
    ultimately show ?thesis using b1(1) by (intro exI [of _ "[]"]) simp
  next
    case False
    then have "flag = 1" using b1(3) by simp
    then have l: "left r = True # left r1" using b1(2) by (simp add: nat_bits_def bit_0)
    obtain b r2 r3 cells rows where r2: "read_bits r1 (dl_bucket_bits L) = Some (Inr (b, r2))"
      and nb: "\<not> dl_num_buckets L \<le> b" and prev: "\<not> (case prev of None \<Rightarrow> False | Some p \<Rightarrow> b \<le> p)"
      and S: "dl_segment_size L \<noteq> 0"
      and r3: "read_runs L None r2 [] = Some (Inr (r3, cells))" and rows: "nth_opt segs (b div dl_segment_size L) = Some rows"
      and rest: "read_rows L (Some b) r3 (segs[b div dl_segment_size L := rows @ [(b mod dl_segment_size L, cells)]]) = Some (Inr (r', segs'))"
      using 1(4) a False
      by (subst (asm) read_rows.simps) (auto simp: try_res_eq_Inr Let_def split: if_splits option.splits)
    note b2 = read_bits_backward [OF b1(1) r2]
    obtain cs where cs: "cs \<noteq> []" "chunking (dl_max_gap L) cs" "\<forall>c \<in> set cs. run_ok L c" "cells = concat cs" "br_ok r3"
      "left r2 = runs_bits L cs @ False # left r3"
      using read_runs_backward [OF 1(2) b2(1) r3] by auto
    have row: "row_ok L cells" "chunks_of L cells = cs" using chunking_row_ok [OF cs(1-3)] chunks_of_eq [OF cs(2)] cs(4) by simp_all
    obtain items where items: "\<forall>x \<in> set items. row_ok L (snd x) \<and> fst x < dl_num_buckets L" "asc (Some b) (map fst items)"
      "segs' = fold (push_row (dl_segment_size L)) items (segs[b div dl_segment_size L := rows @ [(b mod dl_segment_size L, cells)]])"
      "br_ok r'" "left r3 = concat (map (row_bits L) items) @ False # left r'"
      using 1(1) [OF a refl False r2 refl nb prev S refl refl r3 refl rows 1(2) cs(5) rest] by blast
    have "push_row (dl_segment_size L) (b, cells) segs = segs[b div dl_segment_size L := rows @ [(b mod dl_segment_size L, cells)]]"
      using rows by (simp add: push_row_def nth_opt_eq_Some)
    moreover have "left r = row_bits L (b, cells) @ left r3" using l b2(2) cs(6) row(2) by (simp add: row_bits_def)
    moreover have "asc prev (b # map fst items)" using items(2) prev by (auto simp: asc_Cons split: option.splits)
    ultimately show ?thesis using items row(1) nb by (intro exI [of _ "(b, cells) # items"]) simp
  qed
qed

end
