(* ===== verification/Wire_Bundle.thy ===== *)
theory Wire_Bundle
  imports Wire_Rows
begin

text \<open>
  The bundle on the wire: the segments as one ascending list of rows, the encoder's checks, the size it
  computes, the padding, and the two directions of the round trip.
\<close>

section \<open>Segments as one row list\<close>

definition flat_from :: "nat \<Rightarrow> nat \<Rightarrow> row_deltas list \<Rightarrow> (nat \<times> cell_deltas) list" where
  "flat_from S j rds = concat (map (\<lambda>(j, seg). map (\<lambda>(row, cells). (j * S + row, cells)) seg) (enumerate j rds))"

lemma flat_from_simps [simp]:
  "flat_from S j [] = []"
  "flat_from S j (seg # rds) = map (\<lambda>(row, cells). (j * S + row, cells)) seg @ flat_from S (Suc j) rds"
  by (simp_all add: flat_from_def)

definition seg_ok :: "delta_wire_layout \<Rightarrow> row_deltas \<Rightarrow> bool" where
  "seg_ok L seg \<longleftrightarrow> sorted_wrt (<) (map fst seg) \<and> (\<forall>x \<in> set seg. fst x < dl_segment_size L \<and> row_ok L (snd x))"

lemma push_rows_segment:
  assumes "\<And>x. x \<in> set seg \<Longrightarrow> fst x < S" "j < length segs"
  shows "fold (push_row S) (map (\<lambda>(row, cells). (j * S + row, cells)) seg) segs = segs[j := segs ! j @ seg]"
  using assms
proof (induction seg arbitrary: segs)
  case (Cons x seg)
  obtain row cells where x: "x = (row, cells)" by (cases x)
  have "row < S" using Cons.prems(1) [of x] by (simp add: x)
  then have "push_row S (j * S + row, cells) segs = segs[j := segs ! j @ [x]]" by (simp add: push_row_def x)
  then show ?case using Cons by (simp add: x)
qed simp

lemma push_rows_flat:
  assumes "\<And>seg x. seg \<in> set rds \<Longrightarrow> x \<in> set seg \<Longrightarrow> fst x < S"
  shows "fold (push_row S) (flat_from S (length pre) rds) (pre @ replicate (length rds) []) = pre @ rds"
  using assms
proof (induction rds arbitrary: pre)
  case (Cons seg rds)
  have "fold (push_row S) (map (\<lambda>(row, cells). (length pre * S + row, cells)) seg) (pre @ replicate (length (seg # rds)) []) =
      (pre @ [seg]) @ replicate (length rds) []"
    by (subst push_rows_segment) (use Cons.prems in \<open>auto simp: nth_append list_update_append\<close>)
  moreover have "fold (push_row S) (flat_from S (length (pre @ [seg])) rds) ((pre @ [seg]) @ replicate (length rds) []) = (pre @ [seg]) @ rds"
    using Cons.IH [where pre = "pre @ [seg]"] Cons.prems by (meson list.set_intros(2))
  ultimately show ?case by simp
qed simp

lemma flat_bounds:
  assumes "x \<in> set (flat_from (dl_segment_size L) j rds)" "\<And>seg. seg \<in> set rds \<Longrightarrow> seg_ok L seg"
  shows "j * dl_segment_size L \<le> fst x \<and> fst x < (j + length rds) * dl_segment_size L \<and> row_ok L (snd x)"
  using assms
proof (induction rds arbitrary: j)
  case (Cons seg rds)
  let ?S = "dl_segment_size L"
  have seg: "seg_ok L seg" "\<And>seg. seg \<in> set rds \<Longrightarrow> seg_ok L seg" using Cons.prems(2) by auto
  show ?case
  proof (cases "x \<in> set (flat_from ?S (Suc j) rds)")
    case True
    then show ?thesis using Cons.IH [OF True seg(2)] by simp
  next
    case False
    then obtain y where "x = (j * ?S + fst y, snd y)" "y \<in> set seg" using Cons.prems(1) by (auto simp: case_prod_beta)
    moreover from this have "fst y < ?S" "row_ok L (snd y)" using seg(1) by (auto simp: seg_ok_def)
    ultimately show ?thesis by (simp add: algebra_simps)
  qed
qed simp

lemma flat_sorted:
  assumes "\<And>seg. seg \<in> set rds \<Longrightarrow> seg_ok L seg"
  shows "sorted_wrt (<) (map fst (flat_from (dl_segment_size L) j rds))"
  using assms
proof (induction rds arbitrary: j)
  case (Cons seg rds)
  let ?S = "dl_segment_size L"
  have seg: "seg_ok L seg" "\<And>seg. seg \<in> set rds \<Longrightarrow> seg_ok L seg" using Cons.prems by auto
  have "sorted_wrt (<) (map fst (map (\<lambda>(row, cells). (j * ?S + row, cells)) seg))"
    using seg(1) by (simp add: seg_ok_def sorted_wrt_map o_def case_prod_beta)
  moreover have "sorted_wrt (<) (map fst (flat_from ?S (Suc j) rds))" using Cons.IH [OF seg(2)] .
  moreover have "fst x < fst y" if "x \<in> set (map (\<lambda>(row, cells). (j * ?S + row, cells)) seg)" "y \<in> set (flat_from ?S (Suc j) rds)" for x y
  proof -
    have "fst x < Suc j * ?S" using that(1) seg(1) by (auto simp: seg_ok_def)
    also have "\<dots> \<le> fst y" using flat_bounds [OF that(2) seg(2)] by simp
    finally show ?thesis .
  qed
  ultimately show ?case by (auto simp: sorted_wrt_append)
qed simp

text \<open>Every ascending list of buckets below \<open>n * S\<close> is such a row list.\<close>

lemma filter_less_Suc:
  fixes f :: "'a \<Rightarrow> nat"
  assumes "sorted_wrt (\<lambda>x y. f x \<le> f y) xs"
  shows "filter (\<lambda>x. f x < Suc n) xs = filter (\<lambda>x. f x < n) xs @ filter (\<lambda>x. f x = n) xs"
  using assms
proof (induction xs)
  case (Cons x xs)
  show ?case
  proof (cases "f x < n")
    case False
    then have "filter (\<lambda>x. f x < n) xs = []" using Cons.prems by (auto simp: filter_empty_conv)
    then show ?thesis using Cons False by auto
  qed (use Cons in simp)
qed simp

lemma filter_by_key:
  fixes f :: "'a \<Rightarrow> nat"
  assumes "sorted_wrt (\<lambda>x y. f x \<le> f y) xs"
  shows "concat (map (\<lambda>j. filter (\<lambda>x. f x = j) xs) [0..<n]) = filter (\<lambda>x. f x < n) xs"
  using assms by (induction n) (simp_all add: filter_less_Suc)

lemma flat_exists:
  assumes "0 < dl_segment_size L" "\<And>x. x \<in> set items \<Longrightarrow> row_ok L (snd x) \<and> fst x < n * dl_segment_size L"
    and "sorted_wrt (<) (map fst items)"
  obtains rds where "length rds = n" "flat_from (dl_segment_size L) 0 rds = items" "\<And>seg. seg \<in> set rds \<Longrightarrow> seg_ok L seg"
proof -
  let ?S = "dl_segment_size L"
  define part where "part j = filter (\<lambda>x. fst x div ?S = j) items" for j
  define seg where "seg j = map (\<lambda>x. (fst x mod ?S, snd x)) (part j)" for j
  have srt: "sorted_wrt (\<lambda>x y. fst x < fst y) items" using assms(3) by (simp add: sorted_wrt_map)
  have "flat_from ?S 0 (map seg [0..<n]) = concat (map part [0..<n])"
  proof -
    have "map (\<lambda>(row, cells). (j * ?S + row, cells)) (seg j) = part j" for j
      by (auto simp: seg_def part_def o_def intro!: map_idI)
    moreover have "enumerate 0 (map seg [0..<n]) = map (\<lambda>j. (j, seg j)) [0..<n]"
      by (simp add: enumerate_eq_zip zip_map2 zip_same_conv_map)
    ultimately show ?thesis by (simp add: flat_from_def o_def)
  qed
  also have "\<dots> = filter (\<lambda>x. fst x div ?S < n) items"
    unfolding part_def by (rule filter_by_key) (rule sorted_wrt_mono_rel [OF _ srt], simp add: div_le_mono)
  also have "\<dots> = items"
    using assms(1,2) by (auto simp: filter_id_conv less_mult_imp_div_less)
  finally have flat: "flat_from ?S 0 (map seg [0..<n]) = items" .
  have "seg_ok L (seg j)" for j
  proof -
    have "sorted_wrt (\<lambda>x y. fst x < fst y) (part j)" unfolding part_def by (rule sorted_wrt_filter [OF srt])
    then have "sorted_wrt (\<lambda>x y. fst x mod ?S < fst y mod ?S) (part j)"
    proof (rule sorted_wrt_mono_rel [rotated])
      fix x y assume "x \<in> set (part j)" "y \<in> set (part j)" "fst x < fst y"
      moreover from this have "fst x = j * ?S + fst x mod ?S" "fst y = j * ?S + fst y mod ?S"
        using div_mult_mod_eq [of "fst x" ?S] div_mult_mod_eq [of "fst y" ?S] by (auto simp: part_def)
      ultimately show "fst x mod ?S < fst y mod ?S" by linarith
    qed
    then have "sorted_wrt (<) (map fst (seg j))" by (simp add: seg_def sorted_wrt_map)
    then show ?thesis using assms(1,2) by (auto simp: seg_ok_def seg_def part_def)
  qed
  then show thesis using that [of "map seg [0..<n]"] flat by auto
qed

section \<open>The checks of the encoder\<close>

lemma validate_cells_iff:
  "validate_cells L (p_max L) cells = Some u \<longleftrightarrow> sorted_wrt (<) (map fst cells) \<and>
     (\<forall>x \<in> set cells. fst x < dl_row_width L \<and> snd x \<noteq> 0 \<and> \<bar>snd x\<bar> \<le> \<bar>p_max L\<bar>)"
proof -
  let ?f = "\<lambda>(offset, delta) prev_off. do {
         assert_opt (offset < dl_row_width L);
         assert_opt (case prev_off of None \<Rightarrow> True | Some po \<Rightarrow> po < offset);
         assert_opt (delta \<noteq> 0);
         assert_opt (\<bar>delta\<bar> \<le> \<bar>p_max L\<bar>);
         Some (Some offset)
       }"
  have "(\<exists>z. fold_opt ?f cells prev = Some z) \<longleftrightarrow> asc prev (map fst cells) \<and>
     (\<forall>x \<in> set cells. fst x < dl_row_width L \<and> snd x \<noteq> 0 \<and> \<bar>snd x\<bar> \<le> \<bar>p_max L\<bar>)" for prev
  proof (induction cells arbitrary: prev)
    case (Cons x cells)
    obtain off d where x: "x = (off, d)" by (cases x)
    have step: "(\<exists>z. fold_opt ?f (x # cells) prev = Some z) \<longleftrightarrow> off < dl_row_width L \<and> (case prev of None \<Rightarrow> True | Some po \<Rightarrow> po < off) \<and>
       d \<noteq> 0 \<and> \<bar>d\<bar> \<le> \<bar>p_max L\<bar> \<and> (\<exists>z. fold_opt ?f cells (Some off) = Some z)"
      by (auto simp: x bind_eq_Some_conv)
    show ?case unfolding step Cons.IH by (auto simp: x asc_Cons)
  qed simp
  from this [of None] show ?thesis by (simp add: validate_cells_def asc_def)
qed

lemma validate_rows_iff:
  assumes "0 \<le> p_max L"
  shows "validate_rows L (p_max L) seg = Some u \<longleftrightarrow> seg_ok L seg"
proof -
  let ?f = "\<lambda>(row, cells) prev_row. do {
         assert_opt (row < dl_segment_size L);
         assert_opt (case prev_row of None \<Rightarrow> True | Some pr \<Rightarrow> pr < row);
         assert_opt (cells \<noteq> []);
         validate_cells L (p_max L) cells;
         Some (Some row)
       }"
  have "(\<exists>z. fold_opt ?f seg prev = Some z) \<longleftrightarrow> asc prev (map fst seg) \<and>
     (\<forall>x \<in> set seg. fst x < dl_segment_size L \<and> row_ok L (snd x))" for prev
  proof (induction seg arbitrary: prev)
    case (Cons x seg)
    obtain row cells where x: "x = (row, cells)" by (cases x)
    have step: "(\<exists>z. fold_opt ?f (x # seg) prev = Some z) \<longleftrightarrow> row < dl_segment_size L \<and> (case prev of None \<Rightarrow> True | Some pr \<Rightarrow> pr < row) \<and>
       cells \<noteq> [] \<and> validate_cells L (p_max L) cells = Some () \<and> (\<exists>z. fold_opt ?f seg (Some row) = Some z)"
      by (auto simp: x bind_eq_Some_conv)
    show ?case unfolding step Cons.IH using assms by (auto simp: x asc_Cons validate_cells_iff row_ok_def)
  qed simp
  from this [of None] show ?thesis by (simp add: validate_rows_def asc_def seg_ok_def)
qed

lemma validate_bundle_iff:
  "validate_bundle b L = Some () \<longleftrightarrow> length (hd_row_deltas b) = cp_arity (hd_params b) \<and> dl_plaintext_bits L < 63 \<and>
     (\<forall>seg \<in> set (hd_row_deltas b). seg_ok L seg)"
proof -
  have "0 \<le> p_max L" by (simp add: p_max_def)
  then have "fold_opt (\<lambda>seg _. validate_rows L (p_max L) seg) segs () = Some () \<longleftrightarrow> (\<forall>seg \<in> set segs. seg_ok L seg)" for segs
    by (induction segs) (auto simp: bind_eq_Some_conv validate_rows_iff)
  then show ?thesis by (auto simp: validate_bundle_def bind_eq_Some_conv Let_def simp flip: p_max_def)
qed

section \<open>Sizes\<close>

definition bundle_bits :: "delta_wire_layout \<Rightarrow> nat \<Rightarrow> row_deltas list \<Rightarrow> bool list" where
  "bundle_bits L epoch rds = nat_bits epoch 64 @ concat (map (row_bits L) (flat_from (dl_segment_size L) 0 rds)) @ [False]"

definition stats_cost :: "delta_wire_layout \<Rightarrow> nat \<times> nat \<times> nat \<times> nat \<Rightarrow> nat" where
  "stats_cost L s = (case s of (rows, runs, cells, nonzero) \<Rightarrow>
     rows * (1 + dl_bucket_bits L) + runs * (2 * dl_offset_bits L + 1) + cells * dl_delta_bits L)"

definition stats_step :: "delta_wire_layout \<Rightarrow> nat \<times> cell_deltas \<Rightarrow> nat \<times> nat \<times> nat \<times> nat \<Rightarrow> (nat \<times> nat \<times> nat \<times> nat) option" where
  "stats_step L = (\<lambda>(_, row_cells) (rows, runs, cells, nonzero_cells). do {
           rs \<leftarrow> row_runs row_cells (dl_max_gap L);
           Some (rows + 1, runs + length rs, cells + (\<Sum>(_, len, _) \<leftarrow> rs. len), nonzero_cells + length row_cells)
         })"

lemma stats_step_cost:
  assumes "wire_layout L" "row_ok L cells"
  shows "\<exists>s'. stats_step L (row, cells) s = Some s' \<and> stats_cost L s' = stats_cost L s + length (row_bits L (b, cells))"
proof -
  obtain r u c z where s: "s = (r, u, c, z)" by (cases s)
  have "(\<Sum>(_, len, _) \<leftarrow> map run_of (chunks_of L cells). len) = (\<Sum>c\<leftarrow>chunks_of L cells. fst (last c) - fst (hd c) + 1)"
    by (simp add: run_of_def o_def)
  then show ?thesis
    by (simp add: stats_step_def s row_runs_chunks [OF assms] stats_cost_def length_row_bits [OF assms(2)] algebra_simps)
qed

lemma stats_seg_cost:
  assumes "wire_layout L" "\<And>x. x \<in> set seg \<Longrightarrow> row_ok L (snd x)"
  shows "\<exists>s'. fold_opt (stats_step L) seg s = Some s' \<and>
    stats_cost L s' = stats_cost L s + length (concat (map (row_bits L) (map (\<lambda>(row, cells). (j * S + row, cells)) seg)))"
  using assms(2)
proof (induction seg arbitrary: s)
  case (Cons x seg)
  obtain row cells where x: "x = (row, cells)" by (cases x)
  have "row_ok L cells" using Cons.prems [of x] by (simp add: x)
  from stats_step_cost [OF assms(1) this, of row s "j * S + row"] obtain s1 where
    s1: "stats_step L (row, cells) s = Some s1" "stats_cost L s1 = stats_cost L s + length (row_bits L (j * S + row, cells))" by blast
  then show ?case using Cons.IH [of s1] Cons.prems by (auto simp: x)
qed simp

lemma stats_all_cost:
  assumes "wire_layout L" "\<And>seg. seg \<in> set rds \<Longrightarrow> seg_ok L seg"
  shows "\<exists>s'. fold_opt (fold_opt (stats_step L)) rds s = Some s' \<and>
    stats_cost L s' = stats_cost L s + length (concat (map (row_bits L) (flat_from (dl_segment_size L) j rds)))"
  using assms(2)
proof (induction rds arbitrary: s j)
  case (Cons seg rds)
  have "\<And>x. x \<in> set seg \<Longrightarrow> row_ok L (snd x)" using Cons.prems [of seg] by (auto simp: seg_ok_def)
  from stats_seg_cost [OF assms(1) this, where s = s and j = j and S = "dl_segment_size L"] obtain s1 where
    s1: "fold_opt (stats_step L) seg s = Some s1" "stats_cost L s1 = stats_cost L s +
      length (concat (map (row_bits L) (map (\<lambda>(row, cells). (j * dl_segment_size L + row, cells)) seg)))" by blast
  then show ?case using Cons.IH [of s1 "Suc j"] Cons.prems by auto
qed simp

lemma wire_stats_bytes:
  assumes "L = layout_for_params (hd_params b)" "wire_layout L" "validate_bundle b L = Some ()"
  shows "\<exists>st. wire_stats b = Some st \<and> ws_bits st = length (bundle_bits L (hd_epoch b) (hd_row_deltas b)) \<and>
    ws_bytes st = div_ceil (ws_bits st) 8"
proof -
  have segs: "\<And>seg. seg \<in> set (hd_row_deltas b) \<Longrightarrow> seg_ok L seg" using assms(3) by (simp add: validate_bundle_iff)
  obtain rows runs cells z where s: "fold_opt (fold_opt (stats_step L)) (hd_row_deltas b) (0, 0, 0, 0) = Some (rows, runs, cells, z)"
    "stats_cost L (rows, runs, cells, z) = stats_cost L (0, 0, 0, 0) +
      length (concat (map (row_bits L) (flat_from (dl_segment_size L) 0 (hd_row_deltas b))))"
    using stats_all_cost [where rds = "hd_row_deltas b" and j = 0 and s = "(0, 0, 0, 0)", OF assms(2) segs] by (metis prod_cases4)
  have "layout_bits L rows runs cells = length (bundle_bits L (hd_epoch b) (hd_row_deltas b))"
    using s(2) by (simp add: layout_bits_def bundle_bits_def stats_cost_def)
  moreover have "wire_stats b = validate_bundle b L \<bind> (\<lambda>_. fold_opt (fold_opt (stats_step L)) (hd_row_deltas b) (0, 0, 0, 0) \<bind>
      (\<lambda>(rows, runs, cells, nonzero_cells). Some \<lparr> ws_rows = rows, ws_runs = runs, ws_cells = cells, ws_nonzero_cells = nonzero_cells,
         ws_bits = layout_bits L rows runs cells, ws_bytes = layout_bytes L rows runs cells \<rparr>))"
    by (simp only: wire_stats_def stats_step_def Let_def assms(1))
  ultimately show ?thesis using s(1) assms(3) by (simp add: layout_bytes_def)
qed

section \<open>Encoding\<close>

lemma encode_rows_writes:
  assumes "wire_layout L" "\<And>seg. seg \<in> set rds \<Longrightarrow> seg_ok L seg" "(j + length rds) * dl_segment_size L \<le> dl_num_buckets L"
  shows "writes (fold_opt (\<lambda>(j, seg). fold_opt (encode_row L (p_max L) j) seg) (enumerate j rds))
    (concat (map (row_bits L) (flat_from (dl_segment_size L) j rds)))"
  using assms(2,3)
proof (induction rds arbitrary: j)
  case Nil
  then show ?case by (simp add: writes_def)
next
  case (Cons seg rds)
  let ?S = "dl_segment_size L"
  have "writes (encode_row L (p_max L) j x) (row_bits L (j * ?S + fst x, snd x))" if x: "x \<in> set seg" for x
  proof -
    have "fst x < ?S" "row_ok L (snd x)" using Cons.prems(1) [of seg] x by (auto simp: seg_ok_def)
    moreover have "Suc j * ?S \<le> (j + length (seg # rds)) * ?S" by (intro mult_le_mono1) simp
    then have "j * ?S + fst x < dl_num_buckets L" using Cons.prems(2) \<open>fst x < ?S\<close> unfolding mult_Suc by linarith
    ultimately show ?thesis using encode_row_writes [OF assms(1), of "snd x" j "fst x"] by simp
  qed
  then have "writes (fold_opt (encode_row L (p_max L) j) seg) (concat (map (\<lambda>x. row_bits L (j * ?S + fst x, snd x)) seg))"
    by (rule writes_fold)
  from writes_bind [OF this Cons.IH [of "Suc j"]] Cons.prems
  show ?case by (simp add: o_def case_prod_beta)
qed

lemma encode_spec:
  assumes "L = layout_for_params (hd_params b)" "wire_layout L" "validate_bundle b L = Some ()"
    and "length (hd_row_deltas b) * dl_segment_size L \<le> dl_num_buckets L"
  shows "\<exists>bytes n. encode b = Some bytes \<and> wire_byte_size b = Some (length bytes) \<and> n < 8 \<and>
    byte_bits bytes = bundle_bits L (hd_epoch b) (hd_row_deltas b) @ replicate n False"
proof -
  let ?bits = "bundle_bits L (hd_epoch b) (hd_row_deltas b)"
  obtain st where st: "wire_stats b = Some st" "ws_bits st = length ?bits" "ws_bytes st = div_ceil (ws_bits st) 8"
    using wire_stats_bytes [OF assms(1-3)] by blast
  have segs: "\<And>seg. seg \<in> set (hd_row_deltas b) \<Longrightarrow> seg_ok L seg" using assms(3) by (simp add: validate_bundle_iff)
  define g where "g = fold_opt (\<lambda>(j, seg). fold_opt (encode_row L (p_max L) j) seg) (enumerate 0 (hd_row_deltas b))"
  have "writes (\<lambda>w. write_bits (hd_epoch b) 64 w \<bind> (\<lambda>w. g w \<bind> write_bit False)) ?bits"
    unfolding bundle_bits_def g_def
    by (intro writes_bind write_bits_writes write_bit_writes encode_rows_writes assms(2) segs) (use assms(4) in simp_all)
  moreover have size: "length ?bits \<le> 8 * ws_bytes st" "8 * ws_bytes st < length ?bits + 8"
    using div_ceil_mult_ge [of 8 "length ?bits"] less_div_ceil_iff [of 8 "ws_bytes st - 1" "length ?bits"]
    by (cases "ws_bytes st"; simp add: st(2,3))+
  ultimately obtain w where w: "write_bits (hd_epoch b) 64 (bw_new (ws_bytes st)) \<bind> (\<lambda>w. g w \<bind> write_bit False) = Some w"
    "bw_rep w ([] @ ?bits) (8 * ws_bytes st - length ?bits)"
    using writesE [OF _ bw_rep_new] by blast
  have bits: "byte_bits (bw_bytes w) = ?bits @ replicate (8 * ws_bytes st - length ?bits) False"
    using w(2) by (simp add: bw_rep_def)
  have len: "length (bw_bytes w) = ws_bytes st" using arg_cong [OF bits, of length] size(1) by simp
  obtain w1 where w1: "write_bits (hd_epoch b) 64 (bw_new (ws_bytes st)) = Some w1" "g w1 \<bind> write_bit False = Some w"
    using w(1) by (auto simp: bind_eq_Some_conv)
  then obtain w2 where w2: "g w1 = Some w2" "write_bit False w2 = Some w" by (auto simp: bind_eq_Some_conv)
  have "encode b = Some (bw_bytes w)"
    using w1(1) w2 len
    by (simp add: encode_def st(1) Let_def g_def p_max_def flip: assms(1))
  then show ?thesis using bits len size(2) st(1) by (auto simp: wire_byte_size_def)
qed

section \<open>Decoding\<close>

lemma pad_length:
  fixes pos n total :: nat
  assumes "pos + n = 8 * total" "n < 8"
  shows "(8 - pos mod 8) mod 8 = n"
proof (cases "n = 0")
  case True
  then show ?thesis using assms(1) by simp
next
  case False
  then obtain t where "total = Suc t" using assms by (cases total) auto
  then have "pos = (8 - n) + t * 8" using assms by simp
  then have "pos mod 8 = (8 - n) mod 8" by (simp only: mod_mult_self1)
  also have "\<dots> = 8 - n" using False by simp
  finally show ?thesis using assms(2) by simp
qed

lemma read_padding_fold:
  assumes "br_ok r" "left r = replicate n False @ bs"
  shows "\<exists>r'. fold_res (\<lambda>_ r. try_res (read_bits r 1) (\<lambda>(b, r'). if b \<noteq> 0 then Some (Inl NonZeroPadding) else Some (Inr r')))
       [k..<k + n] r = Some (Inr r') \<and> br_ok r' \<and> left r' = bs"
  using assms
proof (induction n arbitrary: k r)
  case (Suc n)
  have upt: "[k..<k + Suc n] = k # [Suc k..<Suc k + n]" by (simp add: upt_conv_Cons)
  have "left r = nat_bits 0 1 @ replicate n False @ bs" using Suc.prems(2) by (simp add: nat_bits_def)
  from read_bits_forward [OF Suc.prems(1) this] obtain r1 where
    r1: "read_bits r 1 = Some (Inr (0, r1))" "br_ok r1" "left r1 = replicate n False @ bs" by auto
  show ?case unfolding upt using Suc.IH [OF r1(2,3), of "Suc k"] r1(1) by simp
qed simp

lemma read_padding_fold_back:
  assumes "br_ok r" "fold_res (\<lambda>_ r. try_res (read_bits r 1) (\<lambda>(b, r'). if b \<noteq> 0 then Some (Inl NonZeroPadding) else Some (Inr r')))
       [k..<k + n] r = Some (Inr r')"
  shows "br_ok r' \<and> left r = replicate n False @ left r'"
  using assms
proof (induction n arbitrary: k r)
  case (Suc n)
  have upt: "[k..<k + Suc n] = k # [Suc k..<Suc k + n]" by (simp add: upt_conv_Cons)
  obtain r1 where r1: "try_res (read_bits r 1) (\<lambda>(b, r'). if b \<noteq> 0 then Some (Inl NonZeroPadding) else Some (Inr r')) = Some (Inr r1)"
    "fold_res (\<lambda>_ r. try_res (read_bits r 1) (\<lambda>(b, r'). if b \<noteq> 0 then Some (Inl NonZeroPadding) else Some (Inr r')))
       [Suc k..<Suc k + n] r1 = Some (Inr r')"
    using fold_res_Cons_Inr [OF Suc.prems(2) [unfolded upt]] by blast
  then have "read_bits r 1 = Some (Inr (0, r1))" by (auto simp: try_res_eq_Inr split: if_splits)
  from read_bits_backward [OF Suc.prems(1) this] have "br_ok r1" "left r = [False] @ left r1" by (simp_all add: nat_bits_def)
  then show ?case using Suc.IH [OF _ r1(2)] by simp
qed simp

lemma left_at_end:
  assumes "br_ok r"
  shows "br_bit_pos r div 8 = length (br_bytes r) \<longleftrightarrow> left r = []"
proof -
  have "br_bit_pos r \<le> 8 * length (br_bytes r)" using assms by (simp add: br_ok_def)
  then show ?thesis by (auto simp: left_def)
qed

lemma read_rows_len: "read_rows L prev r segs = Some (Inr (r', segs')) \<Longrightarrow> br_bit_len r' = br_bit_len r"
proof (induction L prev r segs rule: read_rows.induct)
  case (1 L prev r segs)
  obtain flag r1 where a: "read_bits r 1 = Some (Inr (flag, r1))"
    using 1(2) by (subst (asm) read_rows.simps) (auto simp: try_res_eq_Inr)
  note p1 = read_bits_progress [OF a]
  show ?case
  proof (cases "flag = 0")
    case True
    then have "r' = r1" using 1(2) a by (subst (asm) read_rows.simps) simp
    then show ?thesis using p1 by simp
  next
    case False
    obtain b r2 r3 cells rows where r2: "read_bits r1 (dl_bucket_bits L) = Some (Inr (b, r2))"
      and nb: "\<not> dl_num_buckets L \<le> b" and prev: "\<not> (case prev of None \<Rightarrow> False | Some p \<Rightarrow> b \<le> p)"
      and S: "dl_segment_size L \<noteq> 0"
      and r3: "read_runs L None r2 [] = Some (Inr (r3, cells))" and rows: "nth_opt segs (b div dl_segment_size L) = Some rows"
      and rest: "read_rows L (Some b) r3 (segs[b div dl_segment_size L := rows @ [(b mod dl_segment_size L, cells)]]) = Some (Inr (r', segs'))"
      using 1(2) a False
      by (subst (asm) read_rows.simps) (auto simp: try_res_eq_Inr Let_def split: if_splits option.splits)
    have "br_bit_len r' = br_bit_len r3"
      using 1(1) [OF a refl False r2 refl nb prev S refl refl r3 refl rows rest] .
    then show ?thesis using p1 read_bits_progress [OF r2] read_runs_progress [OF r3] by simp
  qed
qed

lemma read_padding_fold_len:
  assumes "fold_res (\<lambda>_ r. try_res (read_bits r 1) (\<lambda>(b, r'). if b \<noteq> 0 then Some (Inl NonZeroPadding) else Some (Inr r')))
       ks r = Some (Inr r')"
  shows "br_bit_len r' = br_bit_len r \<and> br_bit_pos r' = br_bit_pos r + length ks"
  using assms
proof (induction ks arbitrary: r)
  case (Cons k ks)
  obtain r1 where r1: "try_res (read_bits r 1) (\<lambda>(b, r'). if b \<noteq> 0 then Some (Inl NonZeroPadding) else Some (Inr r')) = Some (Inr r1)"
    "fold_res (\<lambda>_ r. try_res (read_bits r 1) (\<lambda>(b, r'). if b \<noteq> 0 then Some (Inl NonZeroPadding) else Some (Inr r')))
       ks r1 = Some (Inr r')"
    using fold_res_Cons_Inr [OF Cons.prems] by blast
  then have "read_bits r 1 = Some (Inr (0, r1))" by (auto simp: try_res_eq_Inr split: if_splits)
  from read_bits_progress [OF this] show ?case using Cons.IH [OF r1(2)] by simp
qed simp

lemma read_padding_total: "br_ok r \<Longrightarrow> \<exists>y. read_padding r = Some y"
proof -
  have "\<exists>y. fold_res (\<lambda>_ r. try_res (read_bits r 1) (\<lambda>(b, r'). if b \<noteq> 0 then Some (Inl NonZeroPadding) else Some (Inr r')))
       ks r = Some y" if "br_ok r" for ks :: "nat list" and r
    using that
  proof (induction ks arbitrary: r)
    case (Cons k ks)
    obtain y where y: "read_bits r 1 = Some y" using read_bits_total [OF Cons.prems] by blast
    show ?case
    proof (cases y)
      case (Inr q)
      then have "br_ok (snd q)" using read_bits_backward(1) [OF Cons.prems, of 1 "fst q" "snd q"] y by simp
      then show ?thesis using Cons.IH [of "snd q"] Inr y by (cases q) auto
    qed (use y in simp)
  qed simp
  then show "br_ok r \<Longrightarrow> \<exists>y. read_padding r = Some y" by (simp add: read_padding_def)
qed

subsection \<open>Totality\<close>

lemma read_run_total:
  assumes "wire_layout L" "br_ok r"
  shows "\<exists>y. read_run L prev r cells = Some y"
  unfolding read_run_def
proof (rule try_res_read_bits_total [OF assms(2)], goal_cases)
  case (1 start r1)
  show ?case unfolding prod.case
  proof (cases "dl_row_width L \<le> start")
    case False
    show "\<exists>y. (if dl_row_width L \<le> start then Some (Inl (OffsetOutOfRange start)) else
      try_res (read_bits r1 (dl_offset_bits L)) (\<lambda>(len_minus_1, r2).
     if \<not> start + len_minus_1 + 1 < 2 ^ 32 then None
     else let len = len_minus_1 + 1; end_excl = start + len in
     if dl_row_width L < end_excl then Some (Inl (OffsetOutOfRange end_excl))
     else if (case prev of None \<Rightarrow> False
        | Some prev_end \<Rightarrow> start < prev_end \<or> start - prev_end \<le> dl_max_gap L) then Some (Inl NonCanonicalRuns)
     else try_res (fold_res (read_delta L start len) [0..<len] (r2, 0, 0, False, cells))
       (\<lambda>(r3, zero_run, max_zero_run, boundary_zero, cells').
         if boundary_zero then Some (Inl NonCanonicalRuns)
         else if dl_max_gap L < max_zero_run then Some (Inl NonCanonicalRuns)
         else Some (Inr (r3, end_excl, cells'))))) = Some y"
      unfolding if_not_P [OF False]
    proof (rule try_res_read_bits_total [OF 1(2)], goal_cases)
      case (1 len1 r2)
      have "len1 < 2 ^ dl_offset_bits L" using read_bits_backward(3) [OF \<open>br_ok r1\<close> 1(1)] .
      also have "\<dots> \<le> 2 ^ 16" using assms(1) by (intro power_increasing) (simp_all add: wire_layout_def)
      finally have "start + len1 + 1 < 2 ^ 32" using False assms(1) by (simp add: wire_layout_def)
      moreover obtain y where "fold_res (read_delta L start (len1 + 1)) [0..<len1 + 1] (r2, 0, 0, False, cells) = Some y"
        using read_lits_total [of "(r2, 0, 0, False, cells)" L start "len1 + 1" "[0..<len1 + 1]", unfolded fst_conv, OF 1(2)] by blast
      ultimately show ?case by (cases y) (auto simp: Let_def simp del: upt_Suc split: prod.splits)
    qed
  qed simp
qed

lemma read_runs_total:
  assumes "wire_layout L" "br_ok r"
  shows "\<exists>y. read_runs L prev r cells = Some y"
  using assms
proof (induction L prev r cells rule: read_runs.induct)
  case (1 L prev r cells)
  obtain y where y: "read_run L prev r cells = Some y" using read_run_total [OF 1(2,3)] by blast
  show ?case
  proof (cases y)
    case (Inl e)
    then show ?thesis using y by (subst read_runs.simps) simp
  next
    case (Inr q)
    obtain r1 e cells1 where q: "q = (r1, e, cells1)" by (cases q)
    have r1: "read_run L prev r cells = Some (Inr (r1, e, cells1))" using y Inr q by simp
    then have ok: "br_ok r1" using read_run_backward [OF 1(2,3)] by blast
    obtain z where z: "read_bits r1 1 = Some z" using read_bits_total [OF ok] by blast
    show ?thesis
    proof (cases z)
      case (Inl e')
      then show ?thesis using r1 z by (subst read_runs.simps) simp
    next
      case (Inr q')
      obtain flag r2 where q': "q' = (flag, r2)" by (cases q')
      have r2: "read_bits r1 1 = Some (Inr (flag, r2))" using z Inr q' by simp
      show ?thesis
      proof (cases "flag = 0")
        case True
        then show ?thesis using r1 r2 by (subst read_runs.simps) simp
      next
        case False
        have "\<exists>y. read_runs L (Some e) r2 cells1 = Some y"
          using 1(1) [OF r1 refl refl r2 refl False 1(2) read_bits_backward(1) [OF ok r2]] .
        then show ?thesis using r1 r2 False by (subst read_runs.simps) simp
      qed
    qed
  qed
qed

lemma read_rows_total:
  assumes "wire_layout L" "br_ok r" "dl_num_buckets L \<le> length segs * dl_segment_size L"
  shows "\<exists>y. read_rows L prev r segs = Some y"
  using assms
proof (induction L prev r segs rule: read_rows.induct)
  case (1 L prev r segs)
  have S: "dl_segment_size L \<noteq> 0" using 1(2) by (simp add: wire_layout_def)
  show ?case
  proof (subst read_rows.simps, rule try_res_read_bits_total [OF 1(3)], unfold prod.case, goal_cases)
    case fl: (1 flag r1)
    show ?case
    proof (cases "flag = 0")
      case False
      show ?thesis unfolding if_not_P [OF False]
      proof (rule try_res_read_bits_total [OF fl(2)], unfold prod.case, goal_cases)
        case b: (1 b r2)
        show ?case
        proof (cases "dl_num_buckets L \<le> b \<or> (case prev of None \<Rightarrow> False | Some prev \<Rightarrow> b \<le> prev)")
          case False
          then have nb: "\<not> dl_num_buckets L \<le> b" and prev: "\<not> (case prev of None \<Rightarrow> False | Some prev \<Rightarrow> b \<le> prev)" by auto
          obtain y where y: "read_runs L None r2 [] = Some y" using read_runs_total [OF 1(2) b(2)] by blast
          show ?thesis
          proof (cases y)
            case (Inr q)
            obtain r3 cells where q: "q = (r3, cells)" by (cases q)
            have r3: "read_runs L None r2 [] = Some (Inr (r3, cells))" using y Inr q by simp
            then have ok: "br_ok r3" using read_runs_backward [OF 1(2) b(2)] by blast
            have seg: "b div dl_segment_size L < length segs"
              using nb 1(4) S by (simp add: less_mult_imp_div_less)
            then have nth: "nth_opt segs (b div dl_segment_size L) = Some (segs ! (b div dl_segment_size L))" by simp
            have "\<exists>y. read_rows L (Some b) r3 (segs[b div dl_segment_size L := segs ! (b div dl_segment_size L) @ [(b mod dl_segment_size L, cells)]]) = Some y"
              using 1(1) [OF fl(1) refl \<open>flag \<noteq> 0\<close> b(1) refl nb prev S refl refl r3 refl nth 1(2) ok] 1(4) by simp
            then show ?thesis using nb prev S r3 nth by (simp only: if_not_P not_False_eq_True if_False Let_def try_res_simps prod.case option.case)
          qed (use nb prev S y in \<open>simp add: Let_def\<close>)
        qed auto
      qed
    qed simp
  qed
qed

section \<open>The round trip\<close>

lemma decode_forward:
  assumes "L = layout_for_params p" "wire_layout L" "dl_num_buckets L = cp_arity p * dl_segment_size L"
    and "length rds = cp_arity p" "\<And>seg. seg \<in> set rds \<Longrightarrow> seg_ok L seg" "epoch < 2 ^ 64" "n < 8"
    and "byte_bits bytes = bundle_bits L epoch rds @ replicate n False"
  shows "decode bytes p = Some (Inr \<lparr> hd_epoch = epoch, hd_row_deltas = rds, hd_params = p \<rparr>)"
proof -
  let ?S = "dl_segment_size L" and ?r = "br_new bytes"
  have "left ?r = nat_bits epoch 64 @ concat (map (row_bits L) (flat_from ?S 0 rds)) @ False # replicate n False"
    by (simp add: assms(8) bundle_bits_def)
  from read_bits_forward [OF br_ok_new this assms(6)] obtain r1 where
    r1: "read_bits ?r 64 = Some (Inr (epoch, r1))" "br_ok r1"
      "left r1 = concat (map (row_bits L) (flat_from ?S 0 rds)) @ False # replicate n False" by auto
  have "row_ok L (snd x) \<and> fst x < dl_num_buckets L" if "x \<in> set (flat_from ?S 0 rds)" for x
    using flat_bounds [OF that assms(5)] by (simp add: assms(3,4))
  moreover have "asc None (map fst (flat_from ?S 0 rds))" using flat_sorted [OF assms(5)] by (simp add: asc_def)
  ultimately obtain r2 where r2: "read_rows L None r1 (replicate (cp_arity p) []) =
      Some (Inr (r2, fold (push_row ?S) (flat_from ?S 0 rds) (replicate (cp_arity p) [])))" "br_ok r2" "left r2 = replicate n False"
    using read_rows_forward [OF assms(2) r1(2,3), of None "replicate (cp_arity p) []"] assms(3) by auto
  have rds: "fold (push_row ?S) (flat_from ?S 0 rds) (replicate (cp_arity p) []) = rds"
    using push_rows_flat [of rds ?S "[]"] assms(4,5) by (simp add: seg_ok_def)
  have pos: "br_bit_pos r2 + n = 8 * length bytes"
    using length_left [OF r2(2)] r2(2,3) read_rows_len [OF r2(1)] read_bits_progress [OF r1(1)]
    by (auto simp: br_ok_def br_new_def)
  obtain r3 where r3: "read_padding r2 = Some (Inr r3)" "br_ok r3" "left r3 = []"
    using read_padding_fold [OF r2(2), of n "[]" 0] r2(3) by (auto simp: read_padding_def pad_length [OF pos assms(7)])
  have "br_bit_len r3 = br_bit_len r2" using r3(1) unfolding read_padding_def by (drule_tac read_padding_fold_len) simp
  then have "length (br_bytes r3) = length bytes"
    using r3(2) read_rows_len [OF r2(1)] read_bits_progress [OF r1(1)] by (simp add: br_ok_def br_new_def)
  then have "br_bit_pos r3 div 8 = length bytes" using left_at_end [OF r3(2)] r3(3) by simp
  moreover have "dl_plaintext_bits L < 63" using assms(2) by (simp add: wire_layout_def)
  ultimately show ?thesis
    by (simp add: decode_def Let_def r1(1) r2(1) rds r3(1) flip: assms(1))
qed

lemma decode_backward:
  assumes "L = layout_for_params p" "wire_layout L" "dl_num_buckets L = cp_arity p * dl_segment_size L"
    and "decode bytes p = Some (Inr b)"
  shows "hd_params b = p \<and> hd_epoch b < 2 ^ 64 \<and> length (hd_row_deltas b) = cp_arity p \<and>
    (\<forall>seg \<in> set (hd_row_deltas b). seg_ok L seg) \<and>
    (\<exists>n < 8. byte_bits bytes = bundle_bits L (hd_epoch b) (hd_row_deltas b) @ replicate n False)"
proof -
  let ?S = "dl_segment_size L" and ?r = "br_new bytes"
  obtain epoch r1 r2 segs r3 where r1: "read_bits ?r 64 = Some (Inr (epoch, r1))"
    and r2: "read_rows L None r1 (replicate (cp_arity p) []) = Some (Inr (r2, segs))"
    and r3: "read_padding r2 = Some (Inr r3)" and e: "br_bit_pos r3 div 8 = length bytes"
    and b: "b = \<lparr> hd_epoch = epoch, hd_row_deltas = segs, hd_params = p \<rparr>"
    using assms(4) by (auto simp: decode_def Let_def try_res_eq_Inr split: if_splits simp flip: assms(1))
  note b1 = read_bits_backward [OF br_ok_new r1]
  obtain items where items: "\<forall>x \<in> set items. row_ok L (snd x) \<and> fst x < dl_num_buckets L" "sorted_wrt (<) (map fst items)"
    "segs = fold (push_row ?S) items (replicate (cp_arity p) [])" "br_ok r2"
    "left r1 = concat (map (row_bits L) items) @ False # left r2"
    using read_rows_backward [OF assms(2) b1(1) r2] by (auto simp: asc_def)
  have S: "0 < ?S" using assms(2) by (simp add: wire_layout_def)
  obtain rds where rds: "length rds = cp_arity p" "flat_from ?S 0 rds = items" "\<And>seg. seg \<in> set rds \<Longrightarrow> seg_ok L seg"
    using flat_exists [OF S _ items(2), of "cp_arity p"] items(1) assms(3) by auto
  have segs: "segs = rds"
    using push_rows_flat [of rds ?S "[]"] rds(1,3) by (simp add: items(3) rds(2) seg_ok_def)
  define n where "n = (8 - br_bit_pos r2 mod 8) mod 8"
  have pad: "br_ok r3" "left r2 = replicate n False @ left r3"
    using read_padding_fold_back [OF items(4), of 0 n r3] r3 by (simp_all add: read_padding_def n_def)
  have "br_bit_len r3 = br_bit_len r2" using r3 unfolding read_padding_def by (drule_tac read_padding_fold_len) simp
  then have "length (br_bytes r3) = length bytes"
    using pad(1) read_rows_len [OF r2] read_bits_progress [OF r1] by (simp add: br_ok_def br_new_def)
  then have "left r3 = []" using left_at_end [OF pad(1)] e by simp
  then have "byte_bits bytes = bundle_bits L epoch rds @ replicate n False"
    using b1(2) items(5) pad(2) by (simp add: bundle_bits_def rds(2))
  moreover have "n < 8" by (simp add: n_def)
  ultimately show ?thesis using b segs rds(1,3) b1(3) by auto
qed

lemma decode_returns:
  assumes "L = layout_for_params p" "wire_layout L" "dl_num_buckets L = cp_arity p * dl_segment_size L"
  shows "\<exists>res. decode bytes p = Some res"
proof -
  have pb: "dl_plaintext_bits L < 63" using assms(2) by (simp add: wire_layout_def)
  have "\<exists>y. try_res (read_bits (br_new bytes) 64) (\<lambda>(epoch, r1).
      try_res (read_rows L None r1 (replicate (cp_arity p) [])) (\<lambda>(r2, segs).
      try_res (read_padding r2) (\<lambda>r3.
        if br_bit_pos r3 div 8 \<noteq> length bytes then Some (Inl TrailingBytes)
        else Some (Inr \<lparr> hd_epoch = epoch, hd_row_deltas = segs, hd_params = p \<rparr>)))) = Some y"
  proof (rule try_res_read_bits_total [OF br_ok_new], unfold prod.case, goal_cases)
    case (1 epoch r1)
    obtain y where y: "read_rows L None r1 (replicate (cp_arity p) []) = Some y"
      using read_rows_total [OF assms(2) 1(2), of "replicate (cp_arity p) []" None] assms(3) by auto
    show ?case
    proof (cases y)
      case (Inr q)
      obtain r2 segs where q: "q = (r2, segs)" by (cases q)
      have "br_ok r2" using read_rows_backward [OF assms(2) 1(2)] y Inr q by blast
      then obtain z where "read_padding r2 = Some z" using read_padding_total by blast
      then show ?thesis using y Inr q by (cases z) simp_all
    qed (use y in simp)
  qed
  then show ?thesis using pb by (simp add: decode_def Let_def flip: assms(1))
qed

end
