(* ===== verification/Wire_Properties.thy ===== *)
theory Wire_Properties
  imports Wire_Bundle Protocol_Properties
begin

text \<open>
  What the wire format promises: encoding and decoding are inverse on everything either accepts,
  decoding never panics, the bundles the server publishes are in the encoder's domain, and the one
  geometry the types allow on which the encoder overflows.
\<close>

section \<open>Deployed geometries\<close>

definition wire_params :: "cuckoo_params \<Rightarrow> bool" where
  "wire_params p \<longleftrightarrow> cp_arity p * cp_segment_size p = cp_num_buckets p \<and> 0 < cp_num_buckets p \<and>
     cp_num_buckets p < 2 ^ 32 \<and> cp_plaintext_bits p < 63 \<and> cp_bucket_size p * cp_cells_per_slot p < 2 ^ 16"

lemma bitlen_le: "x < 2 ^ k \<Longrightarrow> bitlen x \<le> k"
proof (induction k arbitrary: x)
  case 0
  then show ?case by (simp add: bitlen.simps)
next
  case (Suc k)
  then have "x div 2 < 2 ^ k" by simp
  then have "bitlen (x div 2) \<le> k" by (rule Suc.IH)
  then show ?case by (subst bitlen.simps) simp
qed

lemma le_two_power_bitlen: "x \<le> 2 ^ bitlen (x - 1)"
  using bitlen_bound [of "x - 1"] by linarith

lemma wire_layout_params:
  assumes "wire_params p"
  shows "wire_layout (layout_for_params p)"
proof -
  let ?w = "cp_bucket_size p * cp_cells_per_slot p"
  have "0 < cp_segment_size p" using assms by (cases "cp_segment_size p") (auto simp: wire_params_def)
  moreover have "?w - 1 < 2 ^ 16" using assms unfolding wire_params_def by linarith
  then have "bitlen (?w - 1) \<le> 16" by (rule bitlen_le)
  ultimately show ?thesis
    using assms le_two_power_bitlen [of ?w] le_two_power_bitlen [of "cp_num_buckets p"]
    by (simp add: wire_layout_def layout_for_params_def wire_params_def Let_def)
qed

lemma layout_segments:
  "wire_params p \<Longrightarrow> dl_num_buckets (layout_for_params p) = cp_arity p * dl_segment_size (layout_for_params p)"
  by (simp add: wire_params_def layout_for_params_def Let_def)

lemma encode_decode:
  assumes "wire_params (hd_params b)" "hd_epoch b < 2 ^ 64"
    and "validate_bundle b (layout_for_params (hd_params b)) = Some ()"
  shows "\<exists>bytes. encode b = Some bytes \<and> wire_byte_size b = Some (length bytes) \<and>
    decode bytes (hd_params b) = Some (Inr b)"
proof -
  note v = assms(3) [unfolded validate_bundle_iff] and L = wire_layout_params [OF assms(1)]
  have len: "length (hd_row_deltas b) * dl_segment_size (layout_for_params (hd_params b)) \<le> dl_num_buckets (layout_for_params (hd_params b))"
    using v layout_segments [OF assms(1)] by simp
  obtain bytes n where e: "encode b = Some bytes" "wire_byte_size b = Some (length bytes)" "n < 8"
    "byte_bits bytes = bundle_bits (layout_for_params (hd_params b)) (hd_epoch b) (hd_row_deltas b) @ replicate n False"
    using encode_spec [OF refl L assms(3) len] by blast
  have "decode bytes (hd_params b) = Some (Inr \<lparr> hd_epoch = hd_epoch b, hd_row_deltas = hd_row_deltas b, hd_params = hd_params b \<rparr>)"
    using v by (intro decode_forward [OF refl L layout_segments [OF assms(1)] _ _ assms(2) e(3,4)]) auto
  then show ?thesis using e(1,2) by (intro exI [of _ bytes]) simp
qed

section \<open>Round trip\<close>

text \<open>C28. Every bundle that passes the encoder's checks, with a 64-bit epoch and rows narrower than
  \<open>2\<^sup>1\<^sup>6\<close> cells, is encoded without a panic into exactly the number of bytes \<open>wire_byte_size\<close> announces,
  and decoding those bytes with the same parameters returns the bundle.\<close>

theorem wire_roundtrip:
  assumes "wire_params (hd_params b)" "hd_epoch b < 2 ^ 64"
    and "validate_bundle b (layout_for_params (hd_params b)) = Some ()"
  shows "\<exists>bytes. encode b = Some bytes \<and> wire_byte_size b = Some (length bytes) \<and>
    decode bytes (hd_params b) = Some (Inr b)"
  by (rule encode_decode [OF assms])

definition demo_bundle :: hint_delta_bundle where
  "demo_bundle = \<lparr> hd_epoch = 1, hd_row_deltas = [[(0, [(0, 1), (1, 7)])], []], hd_params = demo_kv_params \<rparr>"

lemma demo_wire_params: "wire_params demo_kv_params"
  by (simp add: wire_params_def demo_kv_params_def cp_arity_def cp_segment_size_def cp_cells_per_slot_def div_ceil_def)

lemma demo_bundle_valid: "validate_bundle demo_bundle (layout_for_params demo_kv_params) = Some ()"
  by (simp add: validate_bundle_iff seg_ok_def row_ok_def demo_bundle_def layout_for_params_def demo_kv_params_def
      cp_arity_def cp_segment_size_def cp_cells_per_slot_def div_ceil_def p_max_def Let_def)

theorem wire_roundtrip_witness:
  "\<exists>bytes. encode demo_bundle = Some bytes \<and> wire_byte_size demo_bundle = Some (length bytes) \<and>
    decode bytes demo_kv_params = Some (Inr demo_bundle)"
  using wire_roundtrip [of demo_bundle] demo_wire_params demo_bundle_valid by (simp add: demo_bundle_def)

text \<open>C29. Decoding untrusted bytes always returns, whatever they are: it never panics and every loop
  ends. It accepts only canonical encodings: a byte string it accepts is the one the encoder produces
  for the bundle it returns, so no bundle has two encodings.\<close>

theorem decode_accepts_only_encodings:
  assumes "wire_params p"
  shows "\<exists>res. decode bytes p = Some res \<and> (\<forall>b. res = Inr b \<longrightarrow> hd_params b = p \<and> encode b = Some bytes)"
proof -
  note L = wire_layout_params [OF assms] and S = layout_segments [OF assms]
  obtain res where res: "decode bytes p = Some res" using decode_returns [OF refl L S] by blast
  have "hd_params b = p \<and> encode b = Some bytes" if "res = Inr b" for b
  proof -
    have d: "hd_params b = p" "length (hd_row_deltas b) = cp_arity p"
      "\<forall>seg \<in> set (hd_row_deltas b). seg_ok (layout_for_params p) seg"
      and n: "\<exists>n < 8. byte_bits bytes = bundle_bits (layout_for_params p) (hd_epoch b) (hd_row_deltas b) @ replicate n False"
      using decode_backward [OF refl L S] res that by auto
    obtain n where n: "n < 8" "byte_bits bytes = bundle_bits (layout_for_params p) (hd_epoch b) (hd_row_deltas b) @ replicate n False"
      using n by blast
    have "validate_bundle b (layout_for_params p) = Some ()"
      using d L by (simp add: validate_bundle_iff wire_layout_def)
    moreover have "length (hd_row_deltas b) * dl_segment_size (layout_for_params p) \<le> dl_num_buckets (layout_for_params p)"
      using d(2) S by simp
    ultimately obtain bytes' n' where e: "encode b = Some bytes'" "n' < 8"
      "byte_bits bytes' = bundle_bits (layout_for_params p) (hd_epoch b) (hd_row_deltas b) @ replicate n' False"
      using encode_spec [of "layout_for_params p" b] L d(1) by auto
    have "n = n'"
      using arg_cong [OF n(2), of length] arg_cong [OF e(3), of length] n(1) e(2) by simp presburger
    then have "bytes' = bytes" using n(2) e(3) by (intro byte_bits_inject) simp
    then show ?thesis using d(1) e(1) by simp
  qed
  then show ?thesis using res by blast
qed

theorem decode_accepts_only_encodings_witness:
  "\<exists>bytes. encode demo_bundle = Some bytes \<and> decode bytes demo_kv_params = Some (Inr demo_bundle) \<and>
    (\<exists>res. decode (bytes @ [0]) demo_kv_params = Some res \<and> res \<noteq> Inr demo_bundle)"
proof -
  obtain bytes where b: "encode demo_bundle = Some bytes" "decode bytes demo_kv_params = Some (Inr demo_bundle)"
    using encode_decode [of demo_bundle] demo_wire_params demo_bundle_valid by (auto simp: demo_bundle_def)
  then show ?thesis using decode_accepts_only_encodings [OF demo_wire_params, of "bytes @ [0]"] by (intro exI [of _ bytes]) auto
qed

section \<open>Published bundles\<close>

lemma table_ok_same_shape: "table_ok p t \<Longrightarrow> table_ok p u \<Longrightarrow> same_shape t u"
  using describesD(7) [of p t] describesD(7) [of p u]
  by (cases t; cases u) (simp add: describes_def same_shape_def table_ok_def)

lemma next_delta_valid:
  assumes "next_delta p e t u delta" "wire_params p"
  shows "validate_bundle delta (layout_for_params p) = Some ()"
proof -
  let ?L = "layout_for_params p" and ?rds = "hd_row_deltas delta"
  have d: "hd_params delta = p" "table_ok p t" "table_ok p u" "deltas_of p t u ?rds" using assms(1) by (simp_all add: next_delta_def)
  note t = table_okD [OF d(2)] and u = table_okD [OF d(3)]
  have L: "dl_segment_size ?L = cp_segment_size p" "dl_row_width ?L = cp_row_width p" "p_max ?L = 2 ^ cp_plaintext_bits p - 1"
    "dl_plaintext_bits ?L = cp_plaintext_bits p"
    by (simp_all add: layout_for_params_def Let_def p_max_def)
  have "seg_ok ?L (?rds ! j)" if j: "j < cp_arity p" for j
  proof -
    have c: "canonical (?rds ! j)" "edits_ok (cp_segment_size p) (cp_row_width p) (?rds ! j)"
      using d(4) j t(5) by (simp_all add: deltas_of_def)
    have "row_ok ?L cells" if x: "(r, cells) \<in> set (?rds ! j)" for r cells
    proof -
      have "cells \<noteq> []" "bt_ok cells" "\<forall>y \<in> set cells. snd y \<noteq> 0" "\<forall>y \<in> set cells. fst y < cp_row_width p"
        using c x by (fastforce simp: canonical_def edits_ok_def)+
      moreover have "\<bar>snd y\<bar> \<le> p_max ?L" if "y \<in> set cells" for y
        using deltas_of_bound [OF d(4) j x, of "fst y" "snd y"] that t u table_ok_same_shape [OF d(2,3)] by (simp add: L)
      ultimately show ?thesis by (simp add: row_ok_def L bt_ok_def)
    qed
    then show ?thesis using c by (fastforce simp: seg_ok_def canonical_def bt_ok_def edits_ok_def L)
  qed
  then have "\<forall>seg \<in> set ?rds. seg_ok ?L seg" using d(4) by (auto simp: in_set_conv_nth deltas_of_def)
  then show ?thesis using d(1,4) assms(2) by (simp add: validate_bundle_iff deltas_of_def L wire_params_def)
qed

text \<open>C30. The server never publishes a bundle it could not send: in every reachable state of a deployed
  system with rows narrower than \<open>2\<^sup>1\<^sup>6\<close> cells, every published bundle is encoded without a panic, and a
  client that decodes the bytes with its own parameters gets the bundle that was published.\<close>

theorem published_bundles_roundtrip:
  assumes "frodo_deployable st lwe p" "productive next_u32" "draw_ok draw" "wire_params p"
    and "sys_reachable (frodo_backend x86 chacha next_u32 fill) xxh draw st lwe sy" "delta \<in> set (sy_published sy)"
  shows "\<exists>bytes. encode delta = Some bytes \<and> wire_byte_size delta = Some (length bytes) \<and> decode bytes p = Some (Inr delta)"
proof -
  note inv = frodo_reachable_inv [OF assms(1-3,5)]
  obtain e t u where d: "next_delta p e t u delta"
    using inv(2,3) sys_atD(4) assms(6) by (metis published_at_def)
  then have "hd_params delta = p" "hd_epoch delta < 2 ^ 64" by (auto simp: next_delta_def)
  then show ?thesis using encode_decode [of delta] next_delta_valid [OF d assms(4)] assms(4) by simp
qed

theorem published_bundles_roundtrip_witness:
  "\<exists>sy delta bytes. demo_reachable sy \<and> delta \<in> set (sy_published sy) \<and> encode delta = Some bytes \<and>
    decode bytes demo_kv_params = Some (Inr delta)"
proof -
  obtain sy delta where sy: "demo_reachable sy" "sy_published sy = [delta]" using demo_inserted by blast
  then have d: "delta \<in> set (sy_published sy)" by simp
  show ?thesis
    using published_bundles_roundtrip [OF demo_deployable demo_productive draw_zero_ok demo_wire_params sy(1) d] sy(1) d by blast
qed

section \<open>A row width the encoder cannot handle\<close>

text \<open>C39. The one geometry the checks of the fold and of the encoder admit and the encoder cannot
  handle: a row of exactly \<open>2\<^sup>1\<^sup>6\<close> cells. A valid bundle that has a row whose deltas form one run from the
  first to the last cell makes \<open>wire_stats\<close> and \<open>encode\<close> panic: the length of the run,
  \<open>end - start + 1\<close>, overflows \<open>u16\<close>.\<close>

theorem full_width_run_overflows:
  assumes "validate_bundle b (layout_for_params (hd_params b)) = Some ()"
    and "hd_row_deltas b = [(row, cells)] # rds" "gaps_ok (dl_max_gap (layout_for_params (hd_params b))) cells"
    and "cells \<noteq> []" "fst (hd cells) = 0" "fst (last cells) = 2 ^ 16 - 1"
  shows "encode b = None \<and> wire_byte_size b = None"
proof -
  let ?L = "layout_for_params (hd_params b)"
  have "chunking (dl_max_gap ?L) [cells]" using assms(3,4) by (simp add: chunking_Cons)
  from chunk_by_gap_unique [OF this] have "row_runs cells (dl_max_gap ?L) = None"
    using assms(5,6) by (simp add: row_runs_def)
  then have "wire_stats b = None" using assms(1,2) by (simp add: wire_stats_def)
  then show ?thesis by (simp add: encode_def wire_byte_size_def)
qed

definition wide_params :: cuckoo_params where
  "wide_params = \<lparr> cp_scheme_kind = Segmented2ary, cp_num_buckets = 2, cp_bucket_size = 2 ^ 15,
     cp_fingerprint_bits = 8, cp_value_bits = 8, cp_plaintext_bits = 8 \<rparr>"

definition wide_cells :: "nat \<Rightarrow> cell_deltas" where
  "wide_cells n = map (\<lambda>k. (k, 1)) [0..<n]"

lemma wide_cells_facts:
  assumes "0 < n"
  shows "wide_cells n \<noteq> []" "fst (hd (wide_cells n)) = 0" "fst (last (wide_cells n)) = n - 1"
    "gaps_ok G (wide_cells n)" "sorted_wrt (<) (map fst (wide_cells n))" "x \<in> set (wide_cells n) \<Longrightarrow> fst x < n \<and> snd x = 1"
proof -
  have "last [0..<n] = n - 1" using assms by (simp add: last_conv_nth)
  moreover have "successively (\<lambda>a b. a < b \<and> b - a - 1 \<le> G) [0..<n]" for n
    by (induction n) (auto simp: successively_append_iff last_conv_nth)
  ultimately show "wide_cells n \<noteq> []" "fst (hd (wide_cells n)) = 0" "fst (last (wide_cells n)) = n - 1"
    "gaps_ok G (wide_cells n)" "sorted_wrt (<) (map fst (wide_cells n))" "x \<in> set (wide_cells n) \<Longrightarrow> fst x < n \<and> snd x = 1"
    using assms by (auto simp: wide_cells_def hd_map last_map gaps_ok_def successively_map o_def)
qed

theorem full_width_run_overflows_witness:
  "encode \<lparr> hd_epoch = 1, hd_row_deltas = [[(0, wide_cells (2 ^ 16))], []], hd_params = wide_params \<rparr> = None"
proof -
  let ?b = "\<lparr> hd_epoch = 1, hd_row_deltas = [[(0, wide_cells (2 ^ 16))], []], hd_params = wide_params \<rparr>"
  note f = wide_cells_facts [of "2 ^ 16", OF zero_less_power [OF zero_less_numeral]]
  have L: "dl_row_width (layout_for_params wide_params) = 2 ^ 16" "dl_segment_size (layout_for_params wide_params) = 1"
    "dl_plaintext_bits (layout_for_params wide_params) = 8" "cp_arity wide_params = 2"
    by (simp_all add: layout_for_params_def wide_params_def cp_arity_def cp_segment_size_def cp_cells_per_slot_def div_ceil_def Let_def)
  have "row_ok (layout_for_params wide_params) (wide_cells (2 ^ 16))"
    using f(1,5,6) by (simp add: row_ok_def L p_max_def)
  then have "validate_bundle ?b (layout_for_params (hd_params ?b)) = Some ()"
    by (simp add: validate_bundle_iff L seg_ok_def)
  moreover have "hd_row_deltas ?b = [(0, wide_cells (2 ^ 16))] # [[]]" by simp
  ultimately show ?thesis
    using full_width_run_overflows [of ?b 0 "wide_cells (2 ^ 16)" "[[]]"] f(1-4) by blast
qed

end
