(* ===== verification/Spec2Isabelle.thy ===== *)
theory Spec2Isabelle
  imports Wire_Size Store_Properties Filter_Properties Backend_Properties Simple_Properties Parallel_Properties Param_Properties Wire_Properties
begin

text \<open>
  IKPIR: incremental keyword private information retrieval over a segmented cuckoo key-value store.

  \<^bold>\<open>The program.\<close> The workspace has four crates under \<open>src/crates/\<close>. \<open>segmented-cuckoo\<close> is the data
  structure: an index scheme (\<open>hash.rs\<close>, \<open>scheme.rs\<close>) maps a key to a fingerprint and a class of
  candidate buckets; \<open>CuckooKVStore\<close> (\<open>store.rs\<close>) keeps fingerprints and values in a flat array of
  \<open>plaintext_bits\<close>-bit cells, inserts with random kicks and a rollback, and records every slot write
  in a mutation log; \<open>CuckooFilter\<close> (\<open>filter.rs\<close>) is its membership-only sibling. \<open>ikpir-common\<close> has
  two LWE back ends for index PIR, FrodoPIR and SimplePIR, with incremental hints, and the wire format. \<open>ikpir-server\<close>
  cuts the cell array into one segment per candidate bucket, keeps a back-end hint per segment, and
  folds the mutation log of each call into a published bundle of cell deltas. \<open>ikpir-client\<close> has two
  clients: one patches its hint with every bundle, one keeps its hint and sums the deltas up, rewinding
  answers to the pinned database and correcting the decoded row.

  \<^bold>\<open>The data structure.\<close>
  \<^item> \<^theory_text>\<open>Prelude\<close>: the machine types, slice access that panics, ceiling division, folds that can fail. \<^theory_text>\<open>Byte_Bits\<close>:
    a byte buffer as a bit list, with the little-endian loads and stores as windows of it.
  \<^item> \<^theory_text>\<open>Hashing\<close>, \<^theory_text>\<open>Xor_Digits\<close>, \<^theory_text>\<open>Schemes\<close>: \<open>hash.rs\<close> and \<open>scheme.rs\<close>. \<open>xor3\<close> and \<open>xor4\<close> are digit-wise
    additions; the locale \<open>index_scheme\<close> states what a table needs of a scheme and is interpreted for
    the datatype of all six.
  \<^item> \<^theory_text>\<open>Slot_Array\<close>: the locale \<open>slot_array\<close> of a table of slots (read after write, frame, restore), with
    the two facts the kick loops need: evictions undone in reverse order restore the table exactly, and a
    write changes the bag of entries by one slot. Interpreted by both tables.
  \<^item> \<^theory_text>\<open>Cell_Bits\<close>, \<^theory_text>\<open>FV_Table\<close>, \<^theory_text>\<open>Slot_Pack\<close>, \<^theory_text>\<open>Slot_Cells\<close>: bit fields across cells,
    \<open>fingerprint_value_table.rs\<close>, \<open>CuckooParams\<close>, the slot codec and the streaming reader.
  \<^item> \<^theory_text>\<open>KV_Store\<close> (definitions), \<^theory_text>\<open>KV_Correct\<close>, \<^theory_text>\<open>KV_Insert\<close>, \<^theory_text>\<open>KV_Contract\<close>: \<open>CuckooKVStore\<close>, its invariant,
    the kick loop, the refinement of a machine on multisets of entries, the log, snapshots.
  \<^item> \<^theory_text>\<open>FP_Table\<close>, \<^theory_text>\<open>Cuckoo_Filter\<close>, \<^theory_text>\<open>Filter_Correct\<close>: \<open>fingerprint_table.rs\<close> and \<open>filter.rs\<close>, refining a
    multiset of tags. \<^theory_text>\<open>Size_Helpers\<close>, \<^theory_text>\<open>Sizing\<close>: \<open>util.rs\<close> and the \<open>from_num_items\<close> constructors of
    filter and store.

  \<^bold>\<open>The back ends.\<close>
  \<^item> \<^theory_text>\<open>Matvec\<close>, \<^theory_text>\<open>Hint_Matrix\<close>, \<^theory_text>\<open>Lwe\<close>: \<open>matvec.rs\<close>, \<open>patch.rs\<close> and the arithmetic of both back ends: the
    blocked kernel is the matrix product, rank-one updates keep a hint the hint of the edited database.
  \<^item> \<^theory_text>\<open>Backend\<close>: \<open>backend/mod.rs\<close>; the traits as a record of operations, and a locale for the laws
    server and clients rely on (setup, answer and decode, patch, rewind).
  \<^item> \<^theory_text>\<open>Frodo\<close>, \<^theory_text>\<open>Frodo_Correct\<close>; \<^theory_text>\<open>Simple\<close>, \<^theory_text>\<open>Simple_Reshape\<close>, \<^theory_text>\<open>Simple_Correct\<close>: the two implementations with
    their samplers, and the interpretations of the locale.
  \<^item> \<^theory_text>\<open>Parallel_Setup\<close>: \<open>parallel.rs\<close> and the multi-threaded twins of setup, equal to the sequential ones for
    every order of the workers.
  \<^item> \<^theory_text>\<open>F64\<close>: IEEE double precision, each operation the exact result rounded to nearest even, and a
    calculus of relative errors. \<^theory_text>\<open>Simple_Floats\<close>: the \<open>f64\<close> computations of the SimplePIR back end.
    \<^theory_text>\<open>Param_Select\<close>: \<open>pir_params.rs\<close>, the largest plaintext width within the error budget, computed in
    \<open>f64\<close> and compared with the exact bound up to a factor of \<open>1 + 2\<^sup>-\<^sup>2\<^sup>0\<close>.

  \<^bold>\<open>The protocol.\<close>
  \<^item> \<^theory_text>\<open>Ordered_Map\<close>, \<^theory_text>\<open>Hint_Patch\<close>: \<open>BTreeMap\<close> as an ascending list and \<open>hint_patch.rs\<close>, the folding of a
    mutation log into canonical deltas that sum to the cell differences.
  \<^item> \<^theory_text>\<open>Server\<close>, \<^theory_text>\<open>Server_Correct\<close>: \<open>IkpirServer\<close>; every hint stays the hint of its segment.
  \<^item> \<^theory_text>\<open>Clients\<close>, \<^theory_text>\<open>Client_Scan\<close>, \<^theory_text>\<open>Pending\<close>, \<^theory_text>\<open>Clients_Correct\<close>: both clients, the constant-time scan of the
    decoded rows, the sums of pending deltas, and the relations that tie a client to the server.
  \<^item> \<^theory_text>\<open>Protocol\<close>: the system of a server, both clients and the published bundles, delivered late,
    twice or out of order, as an inductive step relation with its invariant.
  \<^item> \<^theory_text>\<open>Wire\<close>, \<^theory_text>\<open>Bit_Stream\<close>, \<^theory_text>\<open>Wire_Runs\<close>, \<^theory_text>\<open>Wire_Rows\<close>, \<^theory_text>\<open>Wire_Correct\<close>, \<^theory_text>\<open>Wire_Bundle\<close>: the bit-packed codec of
    the delta bundle in \<open>wire.rs\<close>, reduced to lists of bits. \<^theory_text>\<open>Wire_Size\<close>: the size accounting of the rest.

  The properties, each with an instance, are in \<^theory_text>\<open>Store_Properties\<close>, \<^theory_text>\<open>Filter_Properties\<close>,
  \<^theory_text>\<open>Backend_Properties\<close>, \<^theory_text>\<open>Simple_Properties\<close>, \<^theory_text>\<open>Parallel_Properties\<close>, \<^theory_text>\<open>Param_Properties\<close>, \<^theory_text>\<open>Protocol_Properties\<close> and
  \<^theory_text>\<open>Wire_Properties\<close>: in every reachable state both clients read what the store holds, hints are current and
  published bundles survive the wire; store and filter calls refine operations on multisets; round trips,
  bounds, error behaviour, and the equivalence of the optimised code with its reference.

  \<^bold>\<open>Conventions.\<close> A panic (index out of range, failed assertion, checked arithmetic out of range,
  division by zero) is \<open>None\<close>; a \<open>Result\<close> is a sum with the error left. Fingerprints are 64-bit
  words, cells and matrix entries 32-bit words that wrap, bytes 8-bit words; geometry fields are naturals, and where
  they may overflow the bound is written out. A debug assertion counts as a panic. The messages of errors are omitted.

  \<^bold>\<open>Loops and fuel.\<close> The kick loop counts down from \<open>max_kicks\<close>, the code's own bound. Loops without
  a bound are \<open>partial_function (option)\<close>, \<open>None\<close> when they do not end: the rejection samplers
  (\<open>ternary_loop\<close>, \<open>draw_candidate\<close>, \<open>draw_magnitude\<close>), which end with a generator that
  eventually yields an accepted word, and the sizing loops (\<open>power_loop\<close>, \<open>grow_buckets\<close>,
  \<open>grow_segments\<close>), which end or overflow.

  \<^bold>\<open>Parameters.\<close> The xxh3 hash (\<open>xxh\<close>), the ChaCha20 keystream (\<open>chacha\<close>) and the generators
  (\<open>draw\<close>, \<open>next_u32\<close>, \<open>next_u64\<close>, \<open>fill_bytes\<close>) belong to other crates; \<open>draw_ok\<close> is the documented range
  of \<open>random_range\<close>. \<open>sched\<close> is the order in which scoped threads take effect. The \<open>f64\<close> computations of the Gaussian
  sampler and the reshape (\<open>float_ops\<close>) and the load comparison (\<open>exceeds\<close>) are parameters of the theorems that need
  only a range of them (\<open>load_test\<close>); the code's are \<open>f64_ops\<close> and \<open>f64_exceeds\<close>. Rust leaves the precision of \<open>powi\<close>,
  \<open>log2\<close> and \<open>exp\<close> open: they are a record \<open>f64_libm\<close>, and \<open>libm_accurate\<close> asks for errors below \<open>2\<^sup>-\<^sup>4\<^sup>0\<close> in powers
  of two and binary logarithms.

  \<^bold>\<open>Not modelled.\<close> The sign of a zero and the payload of a NaN; overflow where only unstorable buffers or unreachable
  states could cause it (the \<open>u64\<close> product that decides whether a hint is computed in parallel, the \<open>i64\<close> sums of
  a row fix-up); the read-only accessors \<open>prepared_per_segment\<close> and \<open>in_flight_per_segment\<close> and plain field getters; \<open>Display\<close> texts; the parsing of the
  environment variable of \<open>setup_threads\<close>; tests, benchmarks and examples. Secrecy of the queries is a
  computational assumption and is not stated. What the models showed of the code is in the properties
  \<^theory_text>\<open>full_width_run_overflows\<close>, \<^theory_text>\<open>from_num_items_overflows\<close>, \<^theory_text>\<open>simple_selection_is_maximal\<close> and \<^theory_text>\<open>accumulate_merges_until_overflow\<close>.
\<close>

end
